(* ===== verification/Prelude.thy ===== *)
theory Prelude
  imports Main "HOL-Library.Word"
begin

unbundle bit_operations_syntax

text \<open>
  Shared vocabulary of the development: the machine types of the Rust source, the crate's error
  type (\<open>src/aether-core/src/error.rs\<close>), the result monad in which every fallible operation is
  modelled, the fact collections the component theories extend, and generic lemmas on lists,
  sorting and words that several components use.

  Conventions. A \<open>u8\<close>/\<open>u16\<close>/\<open>u32\<close>/\<open>u64\<close> is a word of that width; a \<open>usize\<close> is a \<open>nat\<close>
  (every \<open>usize\<close> of the modelled code is the length of a slice or an index into one); a
  \<open>Vec<u8>\<close> or \<open>&[u8]\<close> is a \<open>bytes\<close> list. \<open>Result<T, AetherError>\<close> is \<open>'a result\<close>:
  \<open>Inl\<close> the error, \<open>Inr\<close> the value. An error message built by \<open>format!\<close> is represented by its
  format template, so that two errors of the model are equal iff the code raises them with the
  same variant and the same template.
\<close>

section \<open>Machine types\<close>

type_synonym u8 = "8 word"
type_synonym u16 = "16 word"
type_synonym u32 = "32 word"
type_synonym u64 = "64 word"
type_synonym bytes = "u8 list"

section \<open>Errors and results\<close>

datatype io_error_kind = UnexpectedEof | InvalidInput | OsError

datatype aether_error =
    InvalidMagic
  | UnsupportedVersion u8 u8
  | ChecksumMismatch u32 string string
  | HeaderCrcMismatch u32 u32
  | BlockCrcMismatch u32
  | InvalidBlockMagic u64
  | InvalidFooterMagic
  | Compression string
  | Decompression string
  | Encryption string
  | Decryption string
  | Predictor string
  | Io io_error_kind
  | BlockNotFound u32
  | FileNotFound bytes
  | TruncatedArchive u64 u64
  | UnknownCompressionMethod u8
  | UnknownPredictorId u16
  | UnknownContentType u16
  | ResourceLimitExceeded string
  | PathTraversal bytes
  | CloudStorage string
  | InvalidCloudPath string
  | InvalidCloudUrl string
  | NonceMismatch u32
  | PasswordVerificationFailed
  | InvalidUtf8Path
  | HeaderIntegrityMismatch
  | FileAlreadyExists bytes

type_synonym 'a result = "aether_error + 'a"

text \<open>The \<open>?\<close> operator: continue with the value, or return the error.\<close>

definition bindR :: "'e + 'a \<Rightarrow> ('a \<Rightarrow> 'e + 'b) \<Rightarrow> 'e + 'b" where
  "bindR m f = (case m of Inl e \<Rightarrow> Inl e | Inr x \<Rightarrow> f x)"

lemma bindR_simps [simp]:
  "bindR (Inl e) f = Inl e"
  "bindR (Inr x) f = f x"
  by (simp_all add: bindR_def)

lemma bindR_Inr_iff: "bindR m f = Inr y \<longleftrightarrow> (\<exists>x. m = Inr x \<and> f x = Inr y)"
  by (cases m) auto

lemma bindR_InrE [elim!]:
  assumes "bindR m f = Inr y"
  obtains x where "m = Inr x" "f x = Inr y"
  using assms by (auto simp: bindR_Inr_iff)

lemma bindR_assoc: "bindR (bindR m f) g = bindR m (\<lambda>x. bindR (f x) g)"
  by (cases m) simp_all

text \<open>\<open>Iterator::map(f).collect::<Result<Vec<_>>>()\<close>: stop at the first error.\<close>

fun mapR :: "('a \<Rightarrow> 'e + 'b) \<Rightarrow> 'a list \<Rightarrow> 'e + 'b list" where
  "mapR f [] = Inr []"
| "mapR f (x # xs) = bindR (f x) (\<lambda>y. bindR (mapR f xs) (\<lambda>ys. Inr (y # ys)))"

lemma mapR_Inr_iff:
  "mapR f xs = Inr ys \<longleftrightarrow> length ys = length xs \<and> (\<forall>i < length xs. f (xs ! i) = Inr (ys ! i))"
proof (induction xs arbitrary: ys)
  case (Cons x xs)
  show ?case
    by (cases ys) (auto simp: bindR_Inr_iff Cons.IH nth_Cons less_Suc_eq_0_disj split: nat.splits)
qed auto

lemma mapR_all_Inr: "(\<And>x. x \<in> set xs \<Longrightarrow> f x = Inr (g x)) \<Longrightarrow> mapR f xs = Inr (map g xs)"
  by (induction xs) auto

section \<open>Fact collections\<close>

named_theorems wire \<open>reading back what was just written\<close>
named_theorems lens \<open>lengths of encoded values\<close>

section \<open>Lists\<close>

lemma take_drop_nth_Cons: "i < length xs \<Longrightarrow> drop i xs = xs ! i # drop (Suc i) xs"
  by (rule Cons_nth_drop_Suc [symmetric])

lemma hd_drop_append: "drop (length xs) (xs @ ys) = ys"
  by simp

lemma nth_eq_take_eq:
  assumes "length xs = length ys" "\<And>i. i < length xs \<Longrightarrow> xs ! i = ys ! i"
  shows "xs = ys"
  using assms by (rule nth_equalityI)

lemma takeWhile_eq_length_iff:
  "length (takeWhile P xs) = length xs \<longleftrightarrow> (\<forall>x \<in> set xs. P x)"
  by (induction xs) auto

lemma filter_upt_less: "a \<le> b \<Longrightarrow> filter (\<lambda>i. i < a) [0..<b] = [0..<a]"
proof -
  assume "a \<le> b"
  then have "[0..<b] = [0..<a] @ [a..<b]"
    using upt_add_eq_append [of 0 a "b - a"] by simp
  moreover have "filter (\<lambda>i. i < a) [a..<b] = []"
    by (auto simp: filter_empty_conv)
  ultimately show ?thesis by simp
qed

lemma sum_list_update_nat:
  "i < length xs \<Longrightarrow> sum_list (xs[i := x]) + xs ! i = sum_list xs + (x :: nat)"
  by (induction xs arbitrary: i) (auto split: nat.split)

section \<open>Words\<close>

lemma unat_bounds: "unat (w :: 'a::len word) < 2 ^ LENGTH('a)"
  by (rule unsigned_less)

lemma unat_less_256 [simp]: "unat (b :: u8) < 256"
  using unat_bounds [of b] by simp

lemma unat_le_255 [simp]: "unat (b :: u8) \<le> 255"
  using unat_less_256 [of b] by linarith

lemma unat_le_256 [simp]: "unat (b :: u8) \<le> 256"
  using unat_less_256 [of b] by linarith

lemma unat_of_nat_u8: "unat (of_nat n :: u8) = n mod 256"
  by (simp add: unat_of_nat)

lemma of_nat_unat_u8 [simp]: "(of_nat (unat b) :: u8) = b"
  by simp

lemma u8_eq_iff: "(a :: u8) = b \<longleftrightarrow> unat a = unat b"
  by (simp add: word_unat_eq_iff)

text \<open>Casts and shifts, read as numbers.\<close>

lemma unat_ucast_mod: "unat (ucast (w :: 'a::len word) :: 'b::len word) = unat w mod 2 ^ LENGTH('b)"
  by (simp add: unsigned_ucast_eq take_bit_eq_mod)

lemma unat_drop_bit_div: "unat (drop_bit n (w :: 'a::len word)) = unat w div 2 ^ n"
  by (subst unat_drop_bit_eq) (simp add: drop_bit_eq_div)

lemma unat_push_bit_mod:
  "unat (push_bit n (w :: 'a::len word)) = unat w * 2 ^ n mod 2 ^ LENGTH('a)"
  by (subst unsigned_push_bit_eq) (simp only: take_bit_eq_mod push_bit_eq_mult)

lemmas unat_numeric = unat_ucast_mod unat_drop_bit_div unat_push_bit_mod

text \<open>The number a byte string spells, most significant byte first.\<close>

definition be_value :: "bytes \<Rightarrow> nat" where
  "be_value bs = foldl (\<lambda>a b. a * 256 + unat b) 0 bs"

lemma foldl_be_value:
  "foldl (\<lambda>a b. a * 256 + unat (b :: u8)) n bs = n * 256 ^ length bs + be_value bs"
proof (induction bs rule: rev_induct)
  case (snoc b bs)
  have "be_value (bs @ [b]) = be_value bs * 256 + unat b" by (simp add: be_value_def)
  with snoc show ?case by (simp only: foldl_append foldl.simps length_append_singleton) (simp add: algebra_simps)
qed (simp add: be_value_def)

lemma be_value_Nil [simp]: "be_value [] = 0"
  by (simp add: be_value_def)

lemma be_value_append: "be_value (xs @ ys) = be_value xs * 256 ^ length ys + be_value ys"
proof -
  have "be_value (xs @ ys) = foldl (\<lambda>a b. a * 256 + unat b) (be_value xs) ys"
    by (simp add: be_value_def)
  then show ?thesis by (simp only: foldl_be_value)
qed

lemma be_value_single [simp]: "be_value [b] = unat b"
  by (simp add: be_value_def)

lemma be_value_Cons: "be_value (b # bs) = unat b * 256 ^ length bs + be_value bs"
  using be_value_append [of "[b]" bs] by simp

lemma be_value_replicate: "be_value (replicate n 0xFF) = 256 ^ n - 1" "be_value (replicate n 0) = 0"
proof -
  have "be_value (replicate n 0xFF) + 1 = 256 ^ n"
  proof (induction n)
    case (Suc n)
    have "be_value (replicate (Suc n) 0xFF) = 255 * 256 ^ n + be_value (replicate n 0xFF)"
      by (simp add: be_value_Cons)
    with Suc show ?case unfolding power_Suc by linarith
  qed simp
  then show "be_value (replicate n 0xFF) = 256 ^ n - 1" by simp
  show "be_value (replicate n 0) = 0" by (induction n) (auto simp: be_value_Cons)
qed

lemma be_value_less: "be_value bs < 256 ^ length bs"
proof (induction bs rule: rev_induct)
  case (snoc b bs)
  have "be_value bs * 256 + unat b < (be_value bs + 1) * 256" using unat_less_256 [of b] by simp
  also have "\<dots> \<le> 256 ^ length bs * 256" using snoc by (intro mult_le_mono1) simp
  finally show ?case by (simp add: be_value_append)
qed simp

lemma be_value_take:
  assumes "n \<le> length bs"
  shows "be_value (take n bs) = be_value bs div 256 ^ (length bs - n)"
proof -
  have "be_value bs = be_value (take n bs) * 256 ^ (length bs - n) + be_value (drop n bs)"
    using be_value_append [of "take n bs" "drop n bs"] by simp
  moreover have "be_value (drop n bs) < 256 ^ (length bs - n)"
    using be_value_less [of "drop n bs"] by simp
  ultimately show ?thesis by simp
qed

lemma sum_list_bounds:
  "(\<And>c. c \<in> set cs \<Longrightarrow> a \<le> c \<and> c \<le> b) \<Longrightarrow> a * length cs \<le> sum_list cs \<and> sum_list cs \<le> b * length (cs :: nat list)"
  by (induction cs) fastforce+

end
