(* ===== verification/Bytes.thy ===== *)
theory Bytes
  imports Prelude
begin

text \<open>
  Little-endian integers on a byte stream. This is the part of \<open>byteorder\<close> and of
  \<open>std::io::{Read, Write}\<close> over an in-memory cursor that the archive format uses: a writer is the
  list of bytes it appends, a reader takes the unread bytes and returns its value with the bytes
  that are left, or \<open>Io UnexpectedEof\<close> when \<open>read_exact\<close> runs short. \<open>to_le_bytes\<close> and
  \<open>from_le_bytes\<close> of the standard library are the same two conversions.
\<close>

section \<open>Conversions\<close>

fun le_encode :: "nat \<Rightarrow> nat \<Rightarrow> bytes" where
  "le_encode 0 v = []"
| "le_encode (Suc n) v = of_nat (v mod 256) # le_encode n (v div 256)"

fun le_decode :: "bytes \<Rightarrow> nat" where
  "le_decode [] = 0"
| "le_decode (b # bs) = unat b + 256 * le_decode bs"

lemma length_le_encode [simp, lens]: "length (le_encode n v) = n"
  by (induction n arbitrary: v) auto

lemma le_decode_bound: "le_decode bs < 256 ^ length bs"
proof (induction bs)
  case (Cons b bs)
  have "unat b + 256 * le_decode bs < 256 + 256 * le_decode bs"
    by simp
  also have "\<dots> = 256 * Suc (le_decode bs)" by simp
  also have "\<dots> \<le> 256 * 256 ^ length bs"
    using Cons.IH by (intro mult_le_mono2) simp
  finally show ?case by simp
qed simp

lemma le_decode_encode: "le_decode (le_encode n v) = v mod 256 ^ n"
proof (induction n arbitrary: v)
  case (Suc n)
  have "v mod 256 + 256 * (v div 256 mod 256 ^ n) = v mod 256 ^ Suc n"
    by (simp add: mod_mult2_eq add.commute)
  then show ?case by (simp add: Suc.IH unat_of_nat_u8)
qed simp

lemma le_encode_decode: "le_encode (length bs) (le_decode bs) = bs"
proof (induction bs)
  case (Cons b bs)
  have "(unat b + 256 * le_decode bs) mod 256 = unat b" by simp
  moreover have "(unat b + 256 * le_decode bs) div 256 = le_decode bs" by simp
  ultimately show ?case by (simp add: Cons.IH)
qed simp

lemma le_decode_inject:
  "length as = length bs \<Longrightarrow> le_decode as = le_decode bs \<Longrightarrow> as = bs"
  by (metis le_encode_decode)

definition u16_to_le :: "u16 \<Rightarrow> bytes" where "u16_to_le w = le_encode 2 (unat w)"
definition u32_to_le :: "u32 \<Rightarrow> bytes" where "u32_to_le w = le_encode 4 (unat w)"
definition u64_to_le :: "u64 \<Rightarrow> bytes" where "u64_to_le w = le_encode 8 (unat w)"

definition u16_of_le :: "bytes \<Rightarrow> u16" where "u16_of_le bs = of_nat (le_decode bs)"
definition u32_of_le :: "bytes \<Rightarrow> u32" where "u32_of_le bs = of_nat (le_decode bs)"
definition u64_of_le :: "bytes \<Rightarrow> u64" where "u64_of_le bs = of_nat (le_decode bs)"

text \<open>\<open>from_be_bytes\<close> reads the same bytes from the other end.\<close>

definition u16_of_be :: "bytes \<Rightarrow> u16" where "u16_of_be bs = u16_of_le (rev bs)"
definition u32_of_be :: "bytes \<Rightarrow> u32" where "u32_of_be bs = u32_of_le (rev bs)"

lemma length_to_le [simp, lens]:
  "length (u16_to_le a) = 2" "length (u32_to_le b) = 4" "length (u64_to_le c) = 8"
  by (simp_all add: u16_to_le_def u32_to_le_def u64_to_le_def)

lemma of_le_to_le [simp]:
  "u16_of_le (u16_to_le a) = a" "u32_of_le (u32_to_le b) = b" "u64_of_le (u64_to_le c) = c"
  using unat_bounds [of a] unat_bounds [of b] unat_bounds [of c]
  by (simp_all add: u16_of_le_def u16_to_le_def u32_of_le_def u32_to_le_def
      u64_of_le_def u64_to_le_def le_decode_encode)

lemma to_le_of_le:
  "length bs = 4 \<Longrightarrow> u32_to_le (u32_of_le bs) = bs"
  "length bs = 2 \<Longrightarrow> u16_to_le (u16_of_le bs) = bs"
  "length bs = 8 \<Longrightarrow> u64_to_le (u64_of_le bs) = bs"
  using le_decode_bound [of bs] le_encode_decode [of bs]
  by (simp_all add: u32_to_le_def u32_of_le_def u16_to_le_def u16_of_le_def u64_to_le_def
      u64_of_le_def unat_of_nat)

lemma to_le_inject [simp]:
  "u16_to_le a = u16_to_le a' \<longleftrightarrow> a = a'" "u32_to_le b = u32_to_le b' \<longleftrightarrow> b = b'"
  "u64_to_le c = u64_to_le c' \<longleftrightarrow> c = c'"
  by (metis of_le_to_le)+

section \<open>Readers\<close>

type_synonym 'a reader = "bytes \<Rightarrow> ('a \<times> bytes) result"

definition read_exact :: "nat \<Rightarrow> bytes reader" where
  "read_exact n s = (if length s < n then Inl (Io UnexpectedEof) else Inr (take n s, drop n s))"

definition read_u8 :: "u8 reader" where
  "read_u8 s = bindR (read_exact 1 s) (\<lambda>(b, s). Inr (hd b, s))"

definition read_u16 :: "u16 reader" where
  "read_u16 s = bindR (read_exact 2 s) (\<lambda>(b, s). Inr (u16_of_le b, s))"

definition read_u32 :: "u32 reader" where
  "read_u32 s = bindR (read_exact 4 s) (\<lambda>(b, s). Inr (u32_of_le b, s))"

definition read_u64 :: "u64 reader" where
  "read_u64 s = bindR (read_exact 8 s) (\<lambda>(b, s). Inr (u64_of_le b, s))"

lemma read_exact_append [simp, wire]: "length bs = n \<Longrightarrow> read_exact n (bs @ s) = Inr (bs, s)"
  by (simp add: read_exact_def)

lemma read_u8_Cons [simp, wire]: "read_u8 (b # s) = Inr (b, s)"
  by (simp add: read_u8_def read_exact_def)

lemma read_words [simp, wire]:
  "read_u16 (u16_to_le a @ s) = Inr (a, s)"
  "read_u32 (u32_to_le b @ s) = Inr (b, s)"
  "read_u64 (u64_to_le c @ s) = Inr (c, s)"
  by (simp_all add: read_u16_def read_u32_def read_u64_def)

text \<open>Reading consumes exactly the bytes of the value: the converse of the laws above.\<close>

lemma read_exact_Inr:
  "read_exact n s = Inr (bs, s') \<longleftrightarrow> length bs = n \<and> s = bs @ s'"
  by (auto simp: read_exact_def)

lemma read_u8_Inr: "read_u8 s = Inr (b, s') \<longleftrightarrow> s = b # s'"
  by (auto simp: read_u8_def bindR_Inr_iff read_exact_Inr length_Suc_conv)

lemma read_u16_Inr: "read_u16 s = Inr (a, s') \<longleftrightarrow> s = u16_to_le a @ s'"
  by (auto simp: read_u16_def bindR_Inr_iff read_exact_Inr to_le_of_le)

lemma read_u32_Inr: "read_u32 s = Inr (a, s') \<longleftrightarrow> s = u32_to_le a @ s'"
  by (auto simp: read_u32_def bindR_Inr_iff read_exact_Inr to_le_of_le)

lemma read_u64_Inr: "read_u64 s = Inr (a, s') \<longleftrightarrow> s = u64_to_le a @ s'"
  by (auto simp: read_u64_def bindR_Inr_iff read_exact_Inr to_le_of_le)

lemmas reads_Inr = read_exact_Inr read_u8_Inr read_u16_Inr read_u32_Inr read_u64_Inr

lemma read_short:
  "length s < n \<Longrightarrow> read_exact n s = Inl (Io UnexpectedEof)"
  "length s < 1 \<Longrightarrow> read_u8 s = Inl (Io UnexpectedEof)"
  "length s < 2 \<Longrightarrow> read_u16 s = Inl (Io UnexpectedEof)"
  "length s < 4 \<Longrightarrow> read_u32 s = Inl (Io UnexpectedEof)"
  "length s < 8 \<Longrightarrow> read_u64 s = Inl (Io UnexpectedEof)"
  by (simp_all add: read_exact_def read_u8_def read_u16_def read_u32_def read_u64_def)

end
