(* ===== verification/Format.thy ===== *)
theory Format
  imports Bytes
begin

text \<open>
  The constants and the stored enumerations of \<open>src/aether-core/src/format.rs\<close>: magic numbers,
  record sizes, safety limits, and the three enums that appear on disk with their decoders
  \<open>from_u8\<close>/\<open>from_u16\<close>. The cast \<open>e as u16\<close> of a Rust enum is the \<open>_code\<close> function of its type.
\<close>

section \<open>Magic numbers and sizes\<close>

definition MAGIC :: bytes where "MAGIC = [0xAE, 0x74, 0x68, 0x65, 0x72, 0x00, 0x01, 0x02]"
definition LEGACY_MAGIC :: bytes where
  "LEGACY_MAGIC = [0xAE, 0x74, 0x68, 0x65, 0x72, 0x00, 0x01, 0x00]"
definition BLOCK_MAGIC :: u32 where "BLOCK_MAGIC = 0xB10CAE01"
definition FOOTER_MAGIC :: u32 where "FOOTER_MAGIC = 0xAE454E44"

definition ARCHIVE_HEADER_SIZE :: nat where "ARCHIVE_HEADER_SIZE = 48"
definition BLOCK_HEADER_SIZE :: nat where "BLOCK_HEADER_SIZE = 28"
definition BLOCK_TRAILER_SIZE :: nat where "BLOCK_TRAILER_SIZE = 36"
definition BLOCK_INDEX_ENTRY_SIZE :: nat where "BLOCK_INDEX_ENTRY_SIZE = 24"
definition ARCHIVE_FOOTER_SIZE :: nat where "ARCHIVE_FOOTER_SIZE = 32"
definition SOLID_GROUP_ENTRY_SIZE :: nat where "SOLID_GROUP_ENTRY_SIZE = 24"

lemma length_MAGIC [simp, lens]: "length MAGIC = 8" "length LEGACY_MAGIC = 8"
  by (simp_all add: MAGIC_def LEGACY_MAGIC_def)

lemma LEGACY_MAGIC_neq [simp]: "LEGACY_MAGIC \<noteq> MAGIC" "MAGIC \<noteq> LEGACY_MAGIC"
  by (simp_all add: MAGIC_def LEGACY_MAGIC_def)

section \<open>Safety limits\<close>

definition MAX_DECOMPRESSED_BLOCK_SIZE :: nat where
  "MAX_DECOMPRESSED_BLOCK_SIZE = 64 * 1024 * 1024"
definition MAX_FILE_COUNT :: u32 where "MAX_FILE_COUNT = 1000000"
definition MAX_BLOCK_COUNT :: u32 where "MAX_BLOCK_COUNT = 10000000"
definition MAX_SOLID_GROUP_COUNT :: u32 where "MAX_SOLID_GROUP_COUNT = 100000"
definition MAX_PATH_LENGTH :: nat where "MAX_PATH_LENGTH = 4096"
definition MAX_TOTAL_DECOMPRESSED_SIZE :: nat where
  "MAX_TOTAL_DECOMPRESSED_SIZE = 8 * 1024 * 1024 * 1024"
definition MAX_TOTAL_COMPRESSED_READ_SIZE :: nat where
  "MAX_TOTAL_COMPRESSED_READ_SIZE = 16 * 1024 * 1024 * 1024"
definition MIN_ARGON2_M_COST :: u32 where "MIN_ARGON2_M_COST = 16 * 1024"
definition MIN_ARGON2_T_COST :: u32 where "MIN_ARGON2_T_COST = 2"
definition MIN_ARGON2_P_COST :: u32 where "MIN_ARGON2_P_COST = 1"
definition MAX_ARGON2_M_COST :: u32 where "MAX_ARGON2_M_COST = 1048576"
definition MAX_ARGON2_T_COST :: u32 where "MAX_ARGON2_T_COST = 16"
definition MAX_ARGON2_P_COST :: u32 where "MAX_ARGON2_P_COST = 16"
definition SAFE_PERMISSION_MASK :: u32 where "SAFE_PERMISSION_MASK = 0x1FF"
definition ENCRYPTED_METADATA_BLOCK_ID :: u32 where "ENCRYPTED_METADATA_BLOCK_ID = - 1"
definition BWT_DECISIVE_RATIO :: nat where "BWT_DECISIVE_RATIO = 55"

definition FLAG_HAS_NEURAL_MODEL :: u16 where "FLAG_HAS_NEURAL_MODEL = push_bit 0 1"
definition FLAG_SOLID_ARCHIVE :: u16 where "FLAG_SOLID_ARCHIVE = push_bit 1 1"
definition FLAG_ENCRYPTED :: u16 where "FLAG_ENCRYPTED = push_bit 2 1"
definition FLAG_HAS_DICTIONARY :: u16 where "FLAG_HAS_DICTIONARY = push_bit 3 1"
definition FLAG_PATH_PREFIXES :: u16 where "FLAG_PATH_PREFIXES = push_bit 4 1"

section \<open>Stored enumerations\<close>

datatype predictor_id =
    Order0 | ContextMixer | NeuralSsm | ContextMixerLight | Lz4Aware | Rle | Mtf | ZstdOnly

fun predictor_id_code :: "predictor_id \<Rightarrow> u16" where
  "predictor_id_code Order0 = 0x0000"
| "predictor_id_code ContextMixer = 0x0001"
| "predictor_id_code NeuralSsm = 0x0002"
| "predictor_id_code ContextMixerLight = 0x0003"
| "predictor_id_code Lz4Aware = 0x0004"
| "predictor_id_code Rle = 0x0005"
| "predictor_id_code Mtf = 0x0006"
| "predictor_id_code ZstdOnly = 0x00FF"

definition predictor_id_from_u16 :: "u16 \<Rightarrow> predictor_id result" where
  "predictor_id_from_u16 v =
     (if v = 0x0000 then Inr Order0
      else if v = 0x0001 then Inr ContextMixer
      else if v = 0x0002 then Inr NeuralSsm
      else if v = 0x0003 then Inr ContextMixerLight
      else if v = 0x0004 then Inr Lz4Aware
      else if v = 0x0005 then Inr Rle
      else if v = 0x0006 then Inr Mtf
      else if v = 0x00FF then Inr ZstdOnly
      else Inl (UnknownPredictorId v))"

datatype compression_method =
    PredictorRans | Zstd | Store | LzPredictorRans | Lz77PredictorRans
  | BwtPredictorRans | BytePlanePredictorRans | BcjZstd

fun compression_method_code :: "compression_method \<Rightarrow> u8" where
  "compression_method_code PredictorRans = 0"
| "compression_method_code Zstd = 1"
| "compression_method_code Store = 2"
| "compression_method_code LzPredictorRans = 3"
| "compression_method_code Lz77PredictorRans = 4"
| "compression_method_code BwtPredictorRans = 5"
| "compression_method_code BytePlanePredictorRans = 6"
| "compression_method_code BcjZstd = 7"

definition compression_method_from_u8 :: "u8 \<Rightarrow> compression_method result" where
  "compression_method_from_u8 v =
     (if v = 0 then Inr PredictorRans
      else if v = 1 then Inr Zstd
      else if v = 2 then Inr Store
      else if v = 3 then Inr LzPredictorRans
      else if v = 4 then Inr Lz77PredictorRans
      else if v = 5 then Inr BwtPredictorRans
      else if v = 6 then Inr BytePlanePredictorRans
      else if v = 7 then Inr BcjZstd
      else Inl (UnknownCompressionMethod v))"

datatype content_type =
    Mixed | Text | BinaryStructured | BinaryRandom | Image | Executable | NumericData

fun content_type_code :: "content_type \<Rightarrow> u16" where
  "content_type_code Mixed = 0"
| "content_type_code Text = 1"
| "content_type_code BinaryStructured = 2"
| "content_type_code BinaryRandom = 3"
| "content_type_code Image = 4"
| "content_type_code Executable = 5"
| "content_type_code NumericData = 6"

definition content_type_from_u16 :: "u16 \<Rightarrow> content_type result" where
  "content_type_from_u16 v =
     (if v = 0 then Inr Mixed
      else if v = 1 then Inr Text
      else if v = 2 then Inr BinaryStructured
      else if v = 3 then Inr BinaryRandom
      else if v = 4 then Inr Image
      else if v = 5 then Inr Executable
      else if v = 6 then Inr NumericData
      else Inl (UnknownContentType v))"

lemma predictor_id_roundtrip [simp, wire]:
  "predictor_id_from_u16 (predictor_id_code p) = Inr p"
  by (cases p) (simp_all add: predictor_id_from_u16_def)

lemma compression_method_roundtrip [simp, wire]:
  "compression_method_from_u8 (compression_method_code m) = Inr m"
  by (cases m) (simp_all add: compression_method_from_u8_def)

lemma content_type_roundtrip [simp, wire]:
  "content_type_from_u16 (content_type_code c) = Inr c"
  by (cases c) (simp_all add: content_type_from_u16_def)

text \<open>The decoders accept exactly the codes of the enumeration.\<close>

lemma predictor_id_from_u16_Inr:
  "predictor_id_from_u16 v = Inr p \<longleftrightarrow> v = predictor_id_code p"
proof
  assume "predictor_id_from_u16 v = Inr p"
  then show "v = predictor_id_code p"
    by (auto simp: predictor_id_from_u16_def split: if_splits)
qed simp

lemma compression_method_from_u8_Inr:
  "compression_method_from_u8 v = Inr m \<longleftrightarrow> v = compression_method_code m"
proof
  assume "compression_method_from_u8 v = Inr m"
  then show "v = compression_method_code m"
    by (auto simp: compression_method_from_u8_def split: if_splits)
qed simp

lemma content_type_from_u16_Inr:
  "content_type_from_u16 v = Inr c \<longleftrightarrow> v = content_type_code c"
proof
  assume "content_type_from_u16 v = Inr c"
  then show "v = content_type_code c"
    by (auto simp: content_type_from_u16_def split: if_splits)
qed simp

text \<open>The enums derive \<open>Eq\<close> and are ordered by discriminant where the source uses \<open>as\<close> keys.\<close>

lemma content_type_code_inject: "content_type_code a = content_type_code b \<longleftrightarrow> a = b"
  by (metis content_type_roundtrip sum.inject(2))

instantiation content_type :: linorder
begin

definition less_eq_content_type :: "content_type \<Rightarrow> content_type \<Rightarrow> bool" where
  "less_eq_content_type a b \<longleftrightarrow> content_type_code a \<le> content_type_code b"

definition less_content_type :: "content_type \<Rightarrow> content_type \<Rightarrow> bool" where
  "less_content_type a b \<longleftrightarrow> content_type_code a < content_type_code b"

instance
  by intro_classes
    (auto simp: less_eq_content_type_def less_content_type_def content_type_code_inject
      order_less_le)

end

end
