(* ===== verification/RangeCoder.thy ===== *)
theory RangeCoder
  imports Format
begin

unbundle bit_operations_syntax

text \<open>
  The byte-aligned range coder, \<open>src/aether-core/src/coding/rans.rs\<close>: encoder, decoder and symbol
  search. All registers keep their width. The renormalisation loops do not end when the range is 0
  (a symbol of frequency 0): they are partial functions, \<open>None\<close> standing for a loop that runs for
  ever. The floating-point conversion \<open>probs_to_cdf\<close> is not modelled.
\<close>

section \<open>Encoder\<close>

definition PROB_BITS :: nat where "PROB_BITS = 15"
definition PROB_TOTAL :: u32 where "PROB_TOTAL = push_bit PROB_BITS 1"
definition TOP :: u32 where "TOP = push_bit 24 1"

record range_encoder =
  rc_low :: u64
  rc_range :: u32
  rc_cache :: u8
  rc_cache_size :: nat
  rc_output :: bytes
  rc_cache_overflow :: bool

definition range_encoder_new :: range_encoder where
  "range_encoder_new =
     \<lparr>rc_low = 0, rc_range = 0xFFFFFFFF, rc_cache = 0, rc_cache_size = 1, rc_output = [],
      rc_cache_overflow = False\<rparr>"

definition shift_low :: "range_encoder \<Rightarrow> range_encoder" where
  "shift_low enc =
     (let low = rc_low enc;
          low_hi = ucast (drop_bit 32 low) :: u8;
          enc = (if (ucast low :: u32) < 0xFF000000 \<or> low_hi \<noteq> 0 then
                   enc\<lparr>rc_output := rc_output enc @ [rc_cache enc + low_hi]
                          @ replicate (rc_cache_size enc - 1) (0xFF + low_hi),
                        rc_cache := ucast (drop_bit 24 low),
                        rc_cache_size := 0\<rparr>
                 else enc);
          enc = enc\<lparr>rc_cache_size := rc_cache_size enc + 1\<rparr>;
          enc = (if rc_cache_size enc > 2 ^ 24 then
                   enc\<lparr>rc_cache_overflow := True,
                        rc_output := rc_output enc @ [rc_cache enc]
                          @ replicate (rc_cache_size enc - 2) 0xFF,
                        rc_cache := ucast (drop_bit 24 low),
                        rc_cache_size := 1\<rparr>
                 else enc)
      in enc\<lparr>rc_low := ucast (push_bit 8 (ucast low :: u32))\<rparr>)"

partial_function (option) enc_renormalize :: "range_encoder \<Rightarrow> range_encoder option" where
  [code]: "enc_renormalize enc =
     (if rc_range enc < TOP then
        (let enc = shift_low enc
         in enc_renormalize (enc\<lparr>rc_range := push_bit 8 (rc_range enc)\<rparr>))
      else Some enc)"

definition encode_interval :: "u16 \<Rightarrow> u16 \<Rightarrow> range_encoder \<Rightarrow> range_encoder option" where
  "encode_interval cdf_lo cdf_hi enc =
     (let cum = ucast cdf_lo :: u32;
          freq = ucast (cdf_hi - cdf_lo) :: u32;
          r = rc_range enc div PROB_TOTAL
      in enc_renormalize
           (enc\<lparr>rc_low := rc_low enc + ucast cum * ucast r, rc_range := freq * r\<rparr>))"

definition encode_cdf :: "u8 \<Rightarrow> u16 list \<Rightarrow> range_encoder \<Rightarrow> range_encoder option" where
  "encode_cdf symbol cdf = encode_interval (cdf ! unat symbol) (cdf ! (unat symbol + 1))"

definition enc_finish :: "range_encoder \<Rightarrow> string + bytes" where
  "enc_finish enc =
     (let enc = (shift_low ^^ 5) enc
      in if rc_cache_overflow enc then
           Inl ''range encoder cache overflow: pathological predictor produced corrupt output''
         else Inr (rc_output enc))"

section \<open>Decoder\<close>

record range_decoder =
  rd_code :: u32
  rd_range :: u32
  rd_input :: bytes
  rd_pos :: nat
  rd_eof_overread :: nat

definition rd_read_byte :: "range_decoder \<Rightarrow> u8 \<times> range_decoder" where
  "rd_read_byte dec =
     (if rd_pos dec < length (rd_input dec) then
        (rd_input dec ! rd_pos dec, dec\<lparr>rd_pos := rd_pos dec + 1\<rparr>)
      else (0, dec\<lparr>rd_eof_overread := rd_eof_overread dec + 1\<rparr>))"

text \<open>\<open>code = (code << 8) | read_byte()\<close>\<close>

definition rd_shift_in :: "range_decoder \<Rightarrow> range_decoder" where
  "rd_shift_in dec =
     (let (b, dec) = rd_read_byte dec
      in dec\<lparr>rd_code := push_bit 8 (rd_code dec) OR ucast b\<rparr>)"

definition range_decoder_new :: "bytes \<Rightarrow> range_decoder" where
  "range_decoder_new data =
     (rd_shift_in ^^ 5)
       \<lparr>rd_code = 0, rd_range = 0xFFFFFFFF, rd_input = data, rd_pos = 0, rd_eof_overread = 0\<rparr>"

definition decode_freq :: "range_decoder \<Rightarrow> u32 \<times> u32" where
  "decode_freq dec =
     (let r = rd_range dec div PROB_TOTAL
      in (r, min (rd_code dec div r) (PROB_TOTAL - 1)))"

partial_function (option) dec_renormalize :: "range_decoder \<Rightarrow> range_decoder option" where
  [code]: "dec_renormalize dec =
     (if rd_range dec < TOP then
        (let dec = rd_shift_in dec
         in dec_renormalize (dec\<lparr>rd_range := push_bit 8 (rd_range dec)\<rparr>))
      else Some dec)"

definition dec_advance :: "u32 \<Rightarrow> u16 \<Rightarrow> u16 \<Rightarrow> range_decoder \<Rightarrow> range_decoder option" where
  "dec_advance r cdf_lo cdf_hi dec =
     (let sym_freq = ucast (cdf_hi - cdf_lo) :: u32
      in dec_renormalize
           (dec\<lparr>rd_code := rd_code dec - ucast cdf_lo * r, rd_range := sym_freq * r\<rparr>))"

section \<open>Symbol search\<close>

function find_symbol_loop :: "u16 list \<Rightarrow> u32 \<Rightarrow> nat \<Rightarrow> nat \<Rightarrow> nat" where
  "find_symbol_loop cdf freq lo hi =
     (if lo < hi then
        let mid = (lo + hi) div 2
        in if ucast (cdf ! (mid + 1)) \<le> freq then find_symbol_loop cdf freq (mid + 1) hi
           else find_symbol_loop cdf freq lo mid
      else lo)"
  by auto
termination by (relation "measure (\<lambda>(_, _, lo, hi). hi - lo)") auto

declare find_symbol_loop.simps [simp del]

definition find_symbol :: "u16 list \<Rightarrow> u32 \<Rightarrow> nat" where
  "find_symbol cdf freq =
     (if freq < ucast (cdf ! 1) then 0
      else if freq < ucast (cdf ! 2) then 1
      else find_symbol_loop cdf freq 2 256)"

definition decode_cdf :: "u16 list \<Rightarrow> range_decoder \<Rightarrow> (u8 \<times> range_decoder) option" where
  "decode_cdf cdf dec =
     (let (r, freq) = decode_freq dec;
          symbol = find_symbol cdf freq
      in map_option (\<lambda>dec. (of_nat symbol, dec))
           (dec_advance r (cdf ! symbol) (cdf ! (symbol + 1)) dec))"

text \<open>What a cumulative frequency table is.\<close>

definition cdf_table :: "u16 list \<Rightarrow> bool" where
  "cdf_table cdf \<longleftrightarrow> length cdf = 257 \<and> cdf ! 0 = 0 \<and> cdf ! 256 = 32768
     \<and> (\<forall>i < 256. cdf ! i < cdf ! (i + 1))"

lemma cdf_table_mono: "cdf_table cdf \<Longrightarrow> i \<le> j \<Longrightarrow> j \<le> 256 \<Longrightarrow> cdf ! i \<le> cdf ! j"
proof (induction "j - i" arbitrary: j)
  case (Suc d)
  then obtain k where k: "j = Suc k" "i \<le> k" by (cases j) auto
  then have "cdf ! i \<le> cdf ! k" using Suc by auto
  also have "cdf ! k < cdf ! (k + 1)" using Suc.prems k by (simp add: cdf_table_def)
  finally show ?case using k by simp
qed simp

text \<open>\<open>freq\<close> lies in the interval of \<open>s\<close>; at most one symbol has that.\<close>

definition in_interval :: "u16 list \<Rightarrow> nat \<Rightarrow> u32 \<Rightarrow> bool" where
  "in_interval cdf s freq \<longleftrightarrow>
     s < 256 \<and> unat (cdf ! s) \<le> unat freq \<and> unat freq < unat (cdf ! (s + 1))"

lemma in_interval_unique:
  assumes "cdf_table cdf" "in_interval cdf s freq" "in_interval cdf t freq"
  shows "s = t"
proof -
  have "\<not> a < b" if "in_interval cdf a freq" "in_interval cdf b freq" for a b
  proof
    assume "a < b"
    then have "cdf ! (a + 1) \<le> cdf ! b"
      using that by (intro cdf_table_mono [OF assms(1)]) (auto simp: in_interval_def)
    then show False using that by (auto simp: in_interval_def word_le_nat_alt)
  qed
  from this [OF assms(2,3)] this [OF assms(3,2)] show ?thesis by simp
qed

lemma ucast_u16_u32: "unat (ucast (w :: u16) :: u32) = unat w"
  using unat_bounds [of w] by (simp add: unat_ucast_mod)

lemma find_symbol_loop_correct:
  assumes "cdf_table cdf" "lo \<le> hi" "hi \<le> 256"
    "unat (cdf ! lo) \<le> unat freq" "hi = 256 \<or> unat freq < unat (cdf ! (hi + 1))"
    "unat freq < 32768"
  shows "in_interval cdf (find_symbol_loop cdf freq lo hi) freq"
  using assms
proof (induction cdf freq lo hi rule: find_symbol_loop.induct)
  case (1 cdf freq lo hi)
  show ?case
  proof (cases "lo < hi")
    case True
    then show ?thesis
      using 1 by (subst find_symbol_loop.simps) (auto simp: Let_def word_le_nat_alt ucast_u16_u32)
  next
    case False
    with 1(4) have "lo = hi" by simp
    moreover have "hi \<noteq> 256" using 1(3,6,8) calculation by (auto simp: cdf_table_def)
    ultimately show ?thesis
      using 1 by (subst find_symbol_loop.simps) (simp add: in_interval_def)
  qed
qed

text \<open>The search finds the interval.\<close>

lemma find_symbol_correct:
  assumes "cdf_table cdf" "unat freq < 32768"
  shows "in_interval cdf (find_symbol cdf freq) freq"
proof -
  have "cdf ! 0 = 0" using assms(1) by (simp add: cdf_table_def)
  moreover have "in_interval cdf (find_symbol_loop cdf freq 2 256) freq"
    if "\<not> freq < ucast (cdf ! 2)"
    using that assms
    by (intro find_symbol_loop_correct) (simp_all add: word_less_nat_alt ucast_u16_u32)
  ultimately show ?thesis
    by (auto simp: find_symbol_def in_interval_def word_less_nat_alt ucast_u16_u32 numeral_2_eq_2)
qed

section \<open>The value of the encoder's output\<close>

text \<open>
  All digits produced so far, the pending \<open>0xFF\<close> bytes included, over \<open>low\<close>. Shifting multiplies
  the value by 256 and loses nothing; the conditions on \<open>R\<close> (the width of the interval) keep a carry
  from reaching bytes already written.
\<close>

definition pending :: "range_encoder \<Rightarrow> bytes" where
  "pending enc = rc_cache enc # replicate (rc_cache_size enc - 1) 0xFF"

definition enc_value :: "range_encoder \<Rightarrow> nat" where
  "enc_value enc = be_value (rc_output enc @ pending enc) * 2 ^ 32 + unat (rc_low enc)"

definition carry_safe :: "nat \<Rightarrow> range_encoder \<Rightarrow> bool" where
  "carry_safe R enc \<longleftrightarrow> 1 \<le> rc_cache_size enc \<and> unat (rc_low enc) + R \<le> 2 ^ 33
     \<and> (rc_cache enc = 0xFF \<longrightarrow> unat (rc_low enc) + R \<le> 2 ^ 32)"

lemma digits3: "l = 2 ^ 24 * x + c \<Longrightarrow> x = 256 * h + b \<Longrightarrow> l = h * 2 ^ 32 + b * 2 ^ 24 + (c :: nat)"
  by simp

lemma low_digits:
  assumes "unat (low :: u64) < 2 ^ 33"
  obtains hi l3 l24 where "unat low = hi * 2 ^ 32 + l3 * 2 ^ 24 + l24" "hi \<le> 1" "l3 < 256" "l24 < 2 ^ 24"
    "unat (ucast (drop_bit 32 low) :: u8) = hi" "unat (ucast low :: u32) = l3 * 2 ^ 24 + l24"
    "unat (ucast (drop_bit 24 low) :: u8) = l3"
    "unat (ucast (push_bit 8 (ucast low :: u32)) :: u64) = l24 * 2 ^ 8"
proof -
  let ?hi = "unat low div 2 ^ 32" and ?l3 = "unat low div 2 ^ 24 mod 256" and ?l24 = "unat low mod 2 ^ 24"
  let ?l = "unat low"
  have "?l div 2 ^ 24 div 256 = ?l div 2 ^ 32" by (simp add: div_mult2_eq [symmetric])
  then have "?l div 2 ^ 24 = 256 * ?hi + ?l3" by (metis mult_div_mod_eq)
  moreover have "?l = 2 ^ 24 * (?l div 2 ^ 24) + ?l24" by simp
  ultimately have l: "?l = ?hi * 2 ^ 32 + ?l3 * 2 ^ 24 + ?l24" by (intro digits3)
  have hi: "?hi \<le> 1" using assms by simp
  have b: "?l3 < 256" "?l24 < 2 ^ 24" by simp_all
  have m32: "?l mod 2 ^ 32 = ?l3 * 2 ^ 24 + ?l24"
  proof -
    have "?l3 * 2 ^ 24 + ?l24 < 2 ^ 32" using b by simp
    then show ?thesis by (subst l) (simp del: mod_mult_self1 add: mod_add_eq add.assoc)
  qed
  have new: "(?l3 * 2 ^ 24 + ?l24) * 2 ^ 8 mod 2 ^ 32 = ?l24 * 2 ^ 8"
  proof -
    have "(?l3 * 2 ^ 24 + ?l24) * 2 ^ 8 = ?l24 * 2 ^ 8 + ?l3 * 2 ^ 32" by (simp add: algebra_simps)
    moreover have "?l24 * 2 ^ 8 < 2 ^ 32" using b(2) by simp
    ultimately show ?thesis by simp
  qed
  show thesis
  proof (rule that [OF l hi b])
    show "unat (ucast (drop_bit 32 low) :: u8) = ?hi" using hi by (simp add: unat_numeric)
    show "unat (ucast low :: u32) = ?l3 * 2 ^ 24 + ?l24" using m32 by (simp add: unat_numeric)
    then show "unat (ucast (push_bit 8 (ucast low :: u32)) :: u64) = ?l24 * 2 ^ 8"
      using new b(2) by (simp only: unat_ucast_mod [of "push_bit 8 _"] unat_push_bit_mod) simp
    show "unat (ucast (drop_bit 24 low) :: u8) = ?l3" by (simp add: unat_numeric)
  qed
qed

text \<open>Without an overflow of the cache, a shift either writes the pending bytes or holds one more.\<close>

lemma shift_low_cases:
  assumes "\<not> rc_cache_overflow (shift_low enc)"
  shows "(ucast (rc_low enc) :: u32) < 0xFF000000 \<or> (ucast (drop_bit 32 (rc_low enc)) :: u8) \<noteq> 0
    \<Longrightarrow> shift_low enc = enc\<lparr>
         rc_output := rc_output enc @ [rc_cache enc + ucast (drop_bit 32 (rc_low enc))]
           @ replicate (rc_cache_size enc - 1) (0xFF + ucast (drop_bit 32 (rc_low enc))),
         rc_cache := ucast (drop_bit 24 (rc_low enc)), rc_cache_size := 1,
         rc_low := ucast (push_bit 8 (ucast (rc_low enc) :: u32))\<rparr>"
    and "\<not> ((ucast (rc_low enc) :: u32) < 0xFF000000 \<or> (ucast (drop_bit 32 (rc_low enc)) :: u8) \<noteq> 0)
    \<Longrightarrow> shift_low enc = enc\<lparr>rc_cache_size := rc_cache_size enc + 1,
         rc_low := ucast (push_bit 8 (ucast (rc_low enc) :: u32))\<rparr>"
  using assms by (auto simp: shift_low_def Let_def split: if_splits)

lemma shift_low_range [simp]: "rc_range (shift_low enc) = rc_range enc"
  by (simp add: shift_low_def Let_def)

lemma shift_low_overflow: "rc_cache_overflow enc \<Longrightarrow> rc_cache_overflow (shift_low enc)"
  by (simp add: shift_low_def Let_def)

lemma length_output_shift_low:
  assumes "\<not> rc_cache_overflow (shift_low enc)" "1 \<le> rc_cache_size enc"
  shows "length (rc_output (shift_low enc) @ pending (shift_low enc))
    = Suc (length (rc_output enc @ pending enc))"
  using shift_low_cases [OF assms(1)] assms(2)
  by (cases "(ucast (rc_low enc) :: u32) < 0xFF000000 \<or> (ucast (drop_bit 32 (rc_low enc)) :: u8) \<noteq> 0")
    (auto simp: pending_def)

text \<open>The carry: adding 1 to a cache below \<open>0xFF\<close> and wrapping the held bytes adds 1 to the digits.\<close>

lemma carry_digits:
  assumes "hi \<le> 1" "unat cache + hi < 256" "unat low_hi = hi"
  shows "be_value (out @ (cache + low_hi) # replicate n (0xFF + low_hi)) = be_value (out @ cache # replicate n 0xFF) + hi"
proof -
  have u: "unat (cache + low_hi) = unat cache + hi"
    using assms by (simp add: unat_word_ariths)
  show ?thesis
  proof (cases "hi = 0")
    case True
    then have "low_hi = 0" using assms(3) by (simp add: u8_eq_iff)
    then show ?thesis using True by simp
  next
    case False
    then have hi: "hi = 1" using assms(1) by simp
    then have "low_hi = 1" using assms(3) by (simp add: u8_eq_iff)
    then have z: "0xFF + low_hi = 0" by simp
    have "256 ^ n - 1 + 1 = (256 ^ n :: nat)" by simp
    then show ?thesis
      unfolding z be_value_append be_value_Cons be_value_replicate length_replicate u hi list.size
      by (simp add: algebra_simps)
  qed
qed

lemma shift_low_value:
  assumes safe: "carry_safe R enc" and R: "1 \<le> R" "R < 2 ^ 24"
    and no: "\<not> rc_cache_overflow (shift_low enc)"
  shows "enc_value (shift_low enc) = 256 * enc_value enc" "carry_safe (256 * R) (shift_low enc)"
proof -
  have low: "unat (rc_low enc) < 2 ^ 33" using safe R by (simp add: carry_safe_def)
  obtain hi l3 l24 where l: "unat (rc_low enc) = hi * 2 ^ 32 + l3 * 2 ^ 24 + l24" "hi \<le> 1" "l3 < 256"
      "l24 < 2 ^ 24" "unat (ucast (drop_bit 32 (rc_low enc)) :: u8) = hi"
      "unat (ucast (rc_low enc) :: u32) = l3 * 2 ^ 24 + l24"
      "unat (ucast (drop_bit 24 (rc_low enc)) :: u8) = l3"
      "unat (ucast (push_bit 8 (ucast (rc_low enc) :: u32)) :: u64) = l24 * 2 ^ 8"
    by (rule low_digits [OF low]) blast
  let ?c = "(ucast (rc_low enc) :: u32) < 0xFF000000 \<or> (ucast (drop_bit 32 (rc_low enc)) :: u8) \<noteq> 0"
  have c: "?c \<longleftrightarrow> l3 < 255 \<or> hi = 1"
    using l(2-6) by (auto simp: word_less_nat_alt u8_eq_iff)
  have "enc_value (shift_low enc) = 256 * enc_value enc \<and> carry_safe (256 * R) (shift_low enc)"
  proof (cases ?c)
    case True
    note e = shift_low_cases(1) [OF no True]
    have "unat (rc_cache enc) + hi < 256"
    proof (cases "rc_cache enc = 0xFF")
      case True
      then have "hi = 0" using safe R(1) l(1) by (auto simp: carry_safe_def)
      then show ?thesis by simp
    next
      case False
      then have "unat (rc_cache enc) \<noteq> 255" by (simp add: u8_eq_iff)
      then show ?thesis using unat_less_256 [of "rc_cache enc"] l(2) by linarith
    qed
    note d = carry_digits [OF l(2) this l(5)]
    have "rc_output (shift_low enc) @ pending (shift_low enc)
        = (rc_output enc @ (rc_cache enc + ucast (drop_bit 32 (rc_low enc)))
            # replicate (rc_cache_size enc - 1) (0xFF + ucast (drop_bit 32 (rc_low enc))))
          @ [ucast (drop_bit 24 (rc_low enc))]"
      by (simp add: e pending_def)
    then have "be_value (rc_output (shift_low enc) @ pending (shift_low enc))
        = (be_value (rc_output enc @ pending enc) + hi) * 256 + l3"
      by (simp only: be_value_append [of _ "[_]"] d be_value_single l(7) pending_def list.size) simp
    moreover have "unat (rc_low (shift_low enc)) = l24 * 2 ^ 8" by (simp add: e l(8))
    ultimately have "enc_value (shift_low enc)
        = (be_value (rc_output enc @ pending enc) + hi) * 256 * 2 ^ 32 + l3 * 2 ^ 32 + l24 * 2 ^ 8"
      by (simp add: enc_value_def algebra_simps)
    moreover have "carry_safe (256 * R) (shift_low enc)"
      using safe R l True c unfolding e carry_safe_def by (auto simp: u8_eq_iff)
    ultimately show ?thesis using l(1) by (simp add: enc_value_def)
  next
    case False
    note e = shift_low_cases(2) [OF no False]
    have h: "hi = 0" "l3 = 255" using False c l(2,3) by auto
    have "replicate (rc_cache_size enc) (0xFF :: u8) = replicate (rc_cache_size enc - 1) 0xFF @ [0xFF]"
      using safe by (cases "rc_cache_size enc") (auto simp: carry_safe_def replicate_append_same)
    then have "rc_output enc @ rc_cache enc # replicate (rc_cache_size enc) 0xFF
        = (rc_output enc @ pending enc) @ [0xFF]" by (simp add: pending_def)
    then have "enc_value (shift_low enc)
        = (be_value (rc_output enc @ pending enc) * 256 + 255) * 2 ^ 32 + l24 * 2 ^ 8"
      unfolding e enc_value_def
      by (simp add: pending_def l(8) be_value_append [of "_ @ _" "[_]"] del: append_assoc)
    moreover have "carry_safe (256 * R) (shift_low enc)"
      using safe R l h unfolding e carry_safe_def by (auto simp: u8_eq_iff)
    ultimately show ?thesis using l(1) h by (simp add: enc_value_def)
  qed
  then show "enc_value (shift_low enc) = 256 * enc_value enc" "carry_safe (256 * R) (shift_low enc)"
    by auto
qed

section \<open>Renormalisation and intervals\<close>

text \<open>The number of shifts depends on the range alone: 256 is multiplied in until it reaches \<open>TOP\<close>.\<close>

definition renormalizes :: "nat \<Rightarrow> nat \<Rightarrow> bool" where
  "renormalizes k r \<longleftrightarrow> (\<forall>j < k. r * 256 ^ j < 2 ^ 24) \<and> 2 ^ 24 \<le> r * 256 ^ k"

lemma renormalizes_exists:
  assumes "512 \<le> r"
  shows "\<exists>k \<le> 2. renormalizes k r"
proof -
  consider "2 ^ 24 \<le> r" | "r < 2 ^ 24" "2 ^ 16 \<le> r" | "r < 2 ^ 16" by linarith
  then show ?thesis
  proof cases
    case 1
    then have "renormalizes 0 r" by (simp add: renormalizes_def)
    then show ?thesis by blast
  next
    case 2
    then have "renormalizes 1 r" by (simp add: renormalizes_def)
    then show ?thesis by (intro exI [of _ 1]) simp
  next
    case 3
    then have "renormalizes 2 r" using assms by (auto simp: renormalizes_def less_2_cases_iff)
    then show ?thesis by blast
  qed
qed

lemma renormalizes_Suc:
  "renormalizes (Suc k) r \<Longrightarrow> r < 2 ^ 24 \<and> renormalizes k (r * 256)"
  by (auto simp: renormalizes_def algebra_simps dest: spec [of _ "Suc _"] spec [of _ 0])

lemma unat_TOP: "unat TOP = 2 ^ 24" by (simp add: TOP_def unat_push_bit_mod)
lemma unat_PROB_TOTAL: "unat PROB_TOTAL = 32768" by (simp add: PROB_TOTAL_def PROB_BITS_def unat_push_bit_mod)

definition enc_step :: "range_encoder \<Rightarrow> range_encoder" where
  "enc_step enc = (shift_low enc)\<lparr>rc_range := push_bit 8 (rc_range enc)\<rparr>"

definition enc_digits :: "range_encoder \<Rightarrow> nat" where
  "enc_digits enc = length (rc_output enc @ pending enc)"

lemma enc_step_simps [simp]:
  "rc_cache_overflow (enc_step enc) = rc_cache_overflow (shift_low enc)"
  "rc_range (enc_step enc) = push_bit 8 (rc_range enc)"
  "enc_value (enc_step enc) = enc_value (shift_low enc)"
  "carry_safe R (enc_step enc) = carry_safe R (shift_low enc)"
  "enc_digits (enc_step enc) = enc_digits (shift_low enc)"
  by (simp_all add: enc_step_def enc_value_def pending_def carry_safe_def enc_digits_def)

lemma push_range: "unat (r :: u32) < 2 ^ 24 \<Longrightarrow> unat (push_bit 8 r) = unat r * 256"
  by (simp add: unat_push_bit_mod)

lemma enc_renormalize_steps:
  "renormalizes k (unat (rc_range enc)) \<Longrightarrow> enc_renormalize enc = Some ((enc_step ^^ k) enc)"
proof (induction k arbitrary: enc)
  case 0
  then show ?case
    by (subst enc_renormalize.simps) (simp add: renormalizes_def word_less_nat_alt unat_TOP)
next
  case (Suc k)
  have r: "unat (rc_range enc) < 2 ^ 24" "renormalizes k (unat (rc_range (enc_step enc)))"
    using renormalizes_Suc [OF Suc.prems] by (simp_all add: push_range)
  have "enc_renormalize enc = enc_renormalize (enc_step enc)"
    using r(1) by (subst enc_renormalize.simps)
      (simp add: word_less_nat_alt unat_TOP enc_step_def Let_def)
  also have "\<dots> = Some ((enc_step ^^ k) (enc_step enc))" by (rule Suc.IH [OF r(2)])
  finally show ?case by (simp only: funpow_Suc_right o_def)
qed

lemma funpow_overflow: "rc_cache_overflow enc \<Longrightarrow> rc_cache_overflow ((enc_step ^^ k) enc)"
  by (induction k) (auto intro: shift_low_overflow)

lemma enc_steps_value:
  assumes "\<forall>j < k. unat (rc_range enc) * 256 ^ j < 2 ^ 24" "1 \<le> unat (rc_range enc)"
    "carry_safe (unat (rc_range enc)) enc" "\<not> rc_cache_overflow ((enc_step ^^ k) enc)"
  shows "enc_value ((enc_step ^^ k) enc) = 256 ^ k * enc_value enc
    \<and> carry_safe (unat (rc_range enc) * 256 ^ k) ((enc_step ^^ k) enc)
    \<and> unat (rc_range ((enc_step ^^ k) enc)) = unat (rc_range enc) * 256 ^ k
    \<and> enc_digits ((enc_step ^^ k) enc) = enc_digits enc + k"
  using assms(1,4)
proof (induction k)
  case 0
  then show ?case using assms by simp
next
  case (Suc k)
  let ?e = "(enc_step ^^ k) enc"
  have no: "\<not> rc_cache_overflow (shift_low ?e)" using Suc.prems(2) by simp
  then have IH: "enc_value ?e = 256 ^ k * enc_value enc"
      "carry_safe (unat (rc_range enc) * 256 ^ k) ?e"
      "unat (rc_range ?e) = unat (rc_range enc) * 256 ^ k" "enc_digits ?e = enc_digits enc + k"
    using Suc shift_low_overflow [of ?e] by auto
  have r: "unat (rc_range enc) * 256 ^ k < 2 ^ 24" using Suc.prems(1) by simp
  have one: "1 \<le> unat (rc_range enc) * 256 ^ k" using assms(2) by simp
  have "1 \<le> rc_cache_size ?e" using IH(2) by (simp add: carry_safe_def)
  then have "enc_digits (shift_low ?e) = Suc (enc_digits ?e)"
    using length_output_shift_low [OF no] by (simp add: enc_digits_def)
  then show ?case
    using shift_low_value [OF IH(2) one r no] IH r by (simp add: push_range mult_ac)
qed

definition enc_inv :: "range_encoder \<Rightarrow> bool" where
  "enc_inv enc \<longleftrightarrow> 2 ^ 24 \<le> unat (rc_range enc) \<and> carry_safe (unat (rc_range enc)) enc"

lemma enc_inv_new: "enc_inv range_encoder_new"
  by (simp add: enc_inv_def carry_safe_def range_encoder_new_def)

lemma enc_new_simps:
  "enc_value range_encoder_new = 0" "enc_digits range_encoder_new = 1"
  "rc_range range_encoder_new = 0xFFFFFFFF" "rc_cache_overflow range_encoder_new = False"
  by (simp_all add: enc_value_def enc_digits_def pending_def range_encoder_new_def be_value_Cons)

lemma unat_cast_mult:
  assumes "unat (a :: u16) * unat (b :: u32) < 2 ^ 32"
  shows "unat (ucast a * b) = unat a * unat b"
  using assms by (simp add: unat_word_ariths ucast_u16_u32)

lemma unat_diff_u16: "(lo :: u16) \<le> hi \<Longrightarrow> unat (hi - lo) = unat hi - unat lo"
  by (simp add: unat_sub word_le_nat_alt)

text \<open>One symbol: the new interval is the part \<open>[lo, hi)\<close> of the old one, scaled.\<close>

lemma interval_scale:
  assumes "lo < hi" "hi \<le> 32768" "2 ^ 24 \<le> R" "r = R div 32768"
  shows "512 \<le> (r :: nat)" "lo * r + (hi - lo) * r \<le> R" "512 \<le> (hi - lo) * r" "hi * r \<le> R"
proof -
  show r: "512 \<le> r" using assms(3,4) by simp
  have "hi * r \<le> 32768 * r" using assms(2) by (rule mult_le_mono1)
  also have "\<dots> \<le> R" using assms(4) by simp
  finally show h: "hi * r \<le> R" .
  have "lo * r + (hi - lo) * r = hi * r"
    using assms(1) by (simp add: add_mult_distrib [symmetric])
  with h show "lo * r + (hi - lo) * r \<le> R" by simp
  have "1 * r \<le> (hi - lo) * r" using assms(1) by (intro mult_le_mono1) simp
  with r show "512 \<le> (hi - lo) * r" by linarith
qed

lemma unat_range_div: "unat (w div PROB_TOTAL) = unat w div 32768"
  by (simp add: unat_div_distrib unat_PROB_TOTAL)

lemma shift_low_no_overflow:
  "\<not> rc_cache_overflow enc \<Longrightarrow> rc_cache_size enc < 2 ^ 24 \<Longrightarrow> \<not> rc_cache_overflow (shift_low enc)"
  by (simp add: shift_low_def Let_def)

lemma shift_low_cache_size: "1 \<le> rc_cache_size (shift_low enc)"
  by (simp add: shift_low_def Let_def)

lemma cache_size_le_digits: "1 \<le> rc_cache_size enc \<Longrightarrow> rc_cache_size enc \<le> enc_digits enc"
  by (simp add: enc_digits_def pending_def)

lemma enc_steps_no_overflow:
  assumes "\<not> rc_cache_overflow enc" "1 \<le> rc_cache_size enc" "enc_digits enc + k \<le> 2 ^ 24"
  shows "\<not> rc_cache_overflow ((enc_step ^^ k) enc) \<and> 1 \<le> rc_cache_size ((enc_step ^^ k) enc)
    \<and> enc_digits ((enc_step ^^ k) enc) = enc_digits enc + k"
  using assms(3)
proof (induction k)
  case 0
  then show ?case using assms by simp
next
  case (Suc k)
  let ?e = "(enc_step ^^ k) enc"
  have IH: "\<not> rc_cache_overflow ?e" "1 \<le> rc_cache_size ?e" "enc_digits ?e = enc_digits enc + k"
    using Suc by auto
  then have no: "\<not> rc_cache_overflow (shift_low ?e)"
    using Suc.prems cache_size_le_digits [of ?e] by (intro shift_low_no_overflow) auto
  then have "enc_digits (shift_low ?e) = Suc (enc_digits ?e)"
    using length_output_shift_low [OF no IH(2)] by (simp add: enc_digits_def)
  moreover have "1 \<le> rc_cache_size (enc_step ?e)"
    using shift_low_cache_size [of ?e] by (simp add: enc_step_def)
  ultimately show ?case using no IH by simp
qed

lemma encode_interval_result:
  assumes inv: "enc_inv enc" and lohi: "lo < hi" "hi \<le> 32768"
  defines "r \<equiv> unat (rc_range enc) div 32768"
  obtains k enc' where "encode_interval lo hi enc = Some enc'" "k \<le> 2"
    "renormalizes k ((unat hi - unat lo) * r)"
    "\<not> rc_cache_overflow enc \<Longrightarrow> enc_digits enc + k \<le> 2 ^ 24
      \<Longrightarrow> \<not> rc_cache_overflow enc'"
    "rc_cache_overflow enc \<Longrightarrow> rc_cache_overflow enc'"
    "\<not> rc_cache_overflow enc' \<Longrightarrow> enc_inv enc'
      \<and> enc_value enc' = 256 ^ k * (enc_value enc + unat lo * r)
      \<and> unat (rc_range enc') = (unat hi - unat lo) * r * 256 ^ k
      \<and> enc_digits enc' = enc_digits enc + k"
proof -
  let ?r = "rc_range enc div PROB_TOTAL"
  let ?R = "(unat hi - unat lo) * r"
  have l: "unat lo < unat hi" "unat hi \<le> 32768"
    using lohi by (simp_all add: word_less_nat_alt word_le_nat_alt)
  have range: "2 ^ 24 \<le> unat (rc_range enc)" and safe: "carry_safe (unat (rc_range enc)) enc"
    using inv by (simp_all add: enc_inv_def)
  note sc = interval_scale [OF l range r_def [THEN meta_eq_to_obj_eq]]
  have ur: "unat ?r = r" by (simp add: unat_range_div r_def)
  have rb: "unat (rc_range enc) < 2 ^ 32" using unat_bounds [of "rc_range enc"] by simp
  define e1 where "e1 = enc\<lparr>rc_low := rc_low enc + ucast (ucast lo :: u32) * ucast ?r,
    rc_range := ucast (hi - lo) * ?r\<rparr>"
  have lor: "unat lo * r \<le> unat (rc_range enc)" using sc(2) by simp
  have "unat (ucast (ucast lo :: u32) * ucast ?r :: u64) = unat lo * r"
    using lor rb ur unat_bounds [of lo] unat_bounds [of ?r]
    by (simp add: unat_word_ariths unat_ucast_mod)
  moreover have "unat (rc_low enc) \<le> 2 ^ 33" using safe by (simp add: carry_safe_def)
  ultimately have low: "unat (rc_low e1) = unat (rc_low enc) + unat lo * r"
    using lor rb by (simp add: e1_def unat_word_ariths)
  have R: "unat (rc_range e1) = ?R"
  proof -
    have d: "unat (hi - lo) = unat hi - unat lo" by (rule unat_diff_u16) (use lohi in simp)
    have "unat (hi - lo) * unat ?r < 2 ^ 32" unfolding d ur using sc(2) rb by linarith
    from unat_cast_mult [OF this] show ?thesis by (simp add: e1_def d ur)
  qed
  have safe1: "carry_safe (unat (rc_range e1)) e1"
    using safe sc(2) low R by (auto simp: carry_safe_def e1_def)
  have e1: "enc_digits e1 = enc_digits enc" "rc_cache_overflow e1 = rc_cache_overflow enc"
    "enc_value e1 = enc_value enc + unat lo * r" "1 \<le> rc_cache_size e1"
    using low safe1 by (simp_all add: enc_digits_def pending_def enc_value_def carry_safe_def e1_def)
  obtain k where k: "k \<le> 2" "renormalizes k ?R" using renormalizes_exists [OF sc(3)] by blast
  have some: "encode_interval lo hi enc = Some ((enc_step ^^ k) e1)"
    using enc_renormalize_steps [of k e1] k(2) R by (simp add: encode_interval_def Let_def e1_def)
  have small: "\<forall>j < k. unat (rc_range e1) * 256 ^ j < 2 ^ 24" and big: "2 ^ 24 \<le> ?R * 256 ^ k"
    using k(2) R by (simp_all add: renormalizes_def)
  have one: "1 \<le> unat (rc_range e1)" using sc(3) unfolding R by linarith
  show thesis
  proof (rule that [OF some k])
    show "rc_cache_overflow enc \<Longrightarrow> rc_cache_overflow ((enc_step ^^ k) e1)"
      by (rule funpow_overflow) (simp add: e1)
    show "\<not> rc_cache_overflow ((enc_step ^^ k) e1)"
      if "\<not> rc_cache_overflow enc" "enc_digits enc + k \<le> 2 ^ 24"
      using enc_steps_no_overflow [of e1 k] that e1 by simp
    assume "\<not> rc_cache_overflow ((enc_step ^^ k) e1)"
    from enc_steps_value [OF small one safe1 this] big
    show "enc_inv ((enc_step ^^ k) e1)
      \<and> enc_value ((enc_step ^^ k) e1) = 256 ^ k * (enc_value enc + unat lo * r)
      \<and> unat (rc_range ((enc_step ^^ k) e1)) = ?R * 256 ^ k
      \<and> enc_digits ((enc_step ^^ k) e1) = enc_digits enc + k"
      by (simp add: enc_inv_def R e1)
  qed
qed

section \<open>Nested intervals and the end of the stream\<close>

text \<open>Every later interval lies inside every earlier one.\<close>

definition nested :: "range_encoder \<Rightarrow> range_encoder \<Rightarrow> bool" where
  "nested enc enc' \<longleftrightarrow>
     (\<exists>m. enc_digits enc' = enc_digits enc + m \<and> enc_value enc * 256 ^ m \<le> enc_value enc'
        \<and> enc_value enc' + unat (rc_range enc') \<le> (enc_value enc + unat (rc_range enc)) * 256 ^ m)"

lemma nested_refl [simp]: "nested enc enc"
  by (simp add: nested_def)

lemma nested_trans:
  assumes "nested a b" "nested b c"
  shows "nested a c"
proof -
  obtain m where m: "enc_digits b = enc_digits a + m" "enc_value a * 256 ^ m \<le> enc_value b"
      "enc_value b + unat (rc_range b) \<le> (enc_value a + unat (rc_range a)) * 256 ^ m"
    using assms(1) by (auto simp: nested_def)
  obtain n where n: "enc_digits c = enc_digits b + n" "enc_value b * 256 ^ n \<le> enc_value c"
      "enc_value c + unat (rc_range c) \<le> (enc_value b + unat (rc_range b)) * 256 ^ n"
    using assms(2) by (auto simp: nested_def)
  have "enc_value a * 256 ^ (m + n) \<le> enc_value b * 256 ^ n"
    using mult_le_mono1 [OF m(2), of "256 ^ n"] by (simp add: power_add mult_ac)
  moreover have "(enc_value b + unat (rc_range b)) * 256 ^ n
      \<le> (enc_value a + unat (rc_range a)) * 256 ^ (m + n)"
    using mult_le_mono1 [OF m(3), of "256 ^ n"] by (simp add: power_add mult_ac)
  ultimately show ?thesis
    using m(1) n unfolding nested_def by (intro exI [of _ "m + n"]) linarith
qed

lemma encode_interval_nested:
  assumes "enc_inv enc" "lo < hi" "hi \<le> 32768" "encode_interval lo hi enc = Some enc'"
    "\<not> rc_cache_overflow enc'"
  shows "enc_inv enc' \<and> nested enc enc' \<and> \<not> rc_cache_overflow enc"
proof -
  let ?r = "unat (rc_range enc) div 32768"
  obtain k where k: "enc_inv enc'" "enc_value enc' = 256 ^ k * (enc_value enc + unat lo * ?r)"
      "unat (rc_range enc') = (unat hi - unat lo) * ?r * 256 ^ k"
      "enc_digits enc' = enc_digits enc + k" "rc_cache_overflow enc \<Longrightarrow> rc_cache_overflow enc'"
    by (rule encode_interval_result [OF assms(1-3)]) (use assms(4,5) in auto)
  have "unat lo < unat hi" "unat hi \<le> 32768" "2 ^ 24 \<le> unat (rc_range enc)"
    using assms(1-3) by (simp_all add: word_less_nat_alt word_le_nat_alt enc_inv_def)
  from interval_scale(2) [OF this refl]
  have "enc_value enc + unat lo * ?r + (unat hi - unat lo) * ?r \<le> enc_value enc + unat (rc_range enc)"
    by linarith
  from mult_le_mono1 [OF this, of "256 ^ k"]
  have "enc_value enc' + unat (rc_range enc') \<le> (enc_value enc + unat (rc_range enc)) * 256 ^ k"
    unfolding k(2,3) add_mult_distrib by (simp only: mult.commute [of "256 ^ k"] add_mult_distrib)
  moreover have "enc_value enc * 256 ^ k \<le> enc_value enc'" unfolding k(2) by simp
  ultimately show ?thesis using k(1,4,5) assms(5) by (auto simp: nested_def)
qed

lemma shift_low_low: "unat (rc_low (shift_low enc)) = unat (rc_low enc) * 256 mod 2 ^ 32"
proof -
  have "rc_low (shift_low enc) = ucast (push_bit 8 (ucast (rc_low enc) :: u32))"
    by (simp add: shift_low_def Let_def)
  then show ?thesis
    by (simp add: unat_ucast_mod unat_push_bit_mod mod_mult_left_eq)
qed

lemma carry_safe_mono: "carry_safe R enc \<Longrightarrow> R' \<le> R \<Longrightarrow> carry_safe R' enc"
  by (auto simp: carry_safe_def)

lemma flush_value:
  assumes "carry_safe 1 enc" "\<not> rc_cache_overflow ((shift_low ^^ k) enc)"
  shows "enc_value ((shift_low ^^ k) enc) = 256 ^ k * enc_value enc \<and> carry_safe 1 ((shift_low ^^ k) enc)
    \<and> enc_digits ((shift_low ^^ k) enc) = enc_digits enc + k
    \<and> unat (rc_low ((shift_low ^^ k) enc)) mod 2 ^ 32 = unat (rc_low enc) * 256 ^ k mod 2 ^ 32"
  using assms(2)
proof (induction k)
  case 0
  then show ?case using assms(1) by simp
next
  case (Suc k)
  let ?e = "(shift_low ^^ k) enc"
  have no: "\<not> rc_cache_overflow (shift_low ?e)" using Suc.prems by simp
  then have IH: "enc_value ?e = 256 ^ k * enc_value enc" "carry_safe 1 ?e"
      "enc_digits ?e = enc_digits enc + k"
      "unat (rc_low ?e) mod 2 ^ 32 = unat (rc_low enc) * 256 ^ k mod 2 ^ 32"
    using Suc shift_low_overflow [of ?e] by auto
  have v: "enc_value (shift_low ?e) = 256 * enc_value ?e" "carry_safe (256 * 1) (shift_low ?e)"
    by (rule shift_low_value [OF IH(2) _ _ no]; simp)+
  have "1 \<le> rc_cache_size ?e" using IH(2) by (simp add: carry_safe_def)
  then have d: "enc_digits (shift_low ?e) = Suc (enc_digits ?e)"
    using length_output_shift_low [OF no] by (simp add: enc_digits_def)
  have "unat (rc_low (shift_low ?e)) mod 2 ^ 32 = unat (rc_low enc) * 256 ^ Suc k mod 2 ^ 32"
    using IH(4) unfolding shift_low_low
    by (metis mod_mod_trivial mod_mult_left_eq power_Suc2 mult.assoc)
  then show ?case
    using v IH carry_safe_mono [OF v(2), of 1] d by simp
qed

text \<open>\<open>finish\<close> writes exactly the value, in four bytes more than there are digits.\<close>

lemma enc_finish_value:
  assumes "enc_inv enc" "enc_finish enc = Inr F"
  shows "be_value F = enc_value enc \<and> length F = enc_digits enc + 4"
proof -
  let ?e = "(shift_low ^^ 4) enc"
  have five: "(shift_low ^^ 5) enc = shift_low ?e" by (simp add: eval_nat_numeral)
  have four: "?e = shift_low ((shift_low ^^ 3) enc)" by (simp add: eval_nat_numeral)
  have F: "F = rc_output (shift_low ?e)" and no: "\<not> rc_cache_overflow (shift_low ?e)"
    using assms(2) unfolding enc_finish_def five Let_def by (simp_all split: if_splits)
  have no4: "\<not> rc_cache_overflow ?e" using no shift_low_overflow by blast
  have safe: "carry_safe 1 enc"
    using assms(1) carry_safe_mono [of "unat (rc_range enc)" enc 1] by (simp add: enc_inv_def)
  note v = flush_value [OF safe no4]
  have "unat (rc_low ?e) < 2 ^ 32" unfolding four shift_low_low by simp
  moreover have "unat (rc_low ?e) mod 2 ^ 32 = 0"
  proof -
    have "(256 :: nat) ^ 4 = 2 ^ 32" by simp
    with v show ?thesis by (simp only: mod_mult_self2_is_0)
  qed
  ultimately have "unat (rc_low ?e) = 0" by (simp only: mod_less)
  then have low: "rc_low ?e = 0" by (simp only: unat_eq_0)
  have emit: "(ucast (rc_low ?e) :: u32) < 0xFF000000 \<or> (ucast (drop_bit 32 (rc_low ?e)) :: u8) \<noteq> 0"
    by (simp add: low)
  have F': "F = rc_output ?e @ pending ?e"
    unfolding F shift_low_cases(1) [OF no emit] by (simp add: low pending_def)
  have "enc_value ?e = be_value F * 2 ^ 32" unfolding enc_value_def [of ?e] F' low by simp
  with v have "be_value F = enc_value enc" by simp
  moreover have "length F = enc_digits enc + 4" using v unfolding F' enc_digits_def by (elim conjE)
  ultimately show ?thesis ..
qed

definition hits :: "bytes \<Rightarrow> range_encoder \<Rightarrow> bool" where
  "hits F enc \<longleftrightarrow> enc_digits enc + 4 \<le> length F
     \<and> enc_value enc \<le> be_value (take (enc_digits enc + 4) F)
     \<and> be_value (take (enc_digits enc + 4) F) < enc_value enc + unat (rc_range enc)"

text \<open>So the finished stream points into every interval of the encoding.\<close>

lemma hits_nested:
  assumes "nested enc final" "enc_inv final" "enc_finish final = Inr F"
  shows "hits F enc"
proof -
  obtain m where m: "enc_digits final = enc_digits enc + m" "enc_value enc * 256 ^ m \<le> enc_value final"
      "enc_value final + unat (rc_range final) \<le> (enc_value enc + unat (rc_range enc)) * 256 ^ m"
    using assms(1) by (auto simp: nested_def)
  note f = enc_finish_value [OF assms(2,3)]
  have t: "be_value (take (enc_digits enc + 4) F) = enc_value final div 256 ^ m"
    using f m(1) be_value_take [of "enc_digits enc + 4" F] by simp
  have "0 < unat (rc_range final)" using assms(2) by (simp add: enc_inv_def)
  with m(3) have "enc_value final < (enc_value enc + unat (rc_range enc)) * 256 ^ m" by linarith
  then have "enc_value final div 256 ^ m < enc_value enc + unat (rc_range enc)"
    by (simp add: less_mult_imp_div_less)
  moreover have "enc_value enc \<le> enc_value final div 256 ^ m"
    using div_le_mono [OF m(2), of "256 ^ m"] by simp
  ultimately show ?thesis using f m(1) by (simp add: hits_def t)
qed

section \<open>The decoder follows\<close>

definition dec_step :: "range_decoder \<Rightarrow> range_decoder" where
  "dec_step dec = (rd_shift_in dec)\<lparr>rd_range := push_bit 8 (rd_range dec)\<rparr>"

lemma rd_shift_in_simps [simp]:
  "rd_range (rd_shift_in dec) = rd_range dec" "rd_input (rd_shift_in dec) = rd_input dec"
  by (simp_all add: rd_shift_in_def rd_read_byte_def)

lemma dec_renormalize_steps:
  "renormalizes k (unat (rd_range dec)) \<Longrightarrow> dec_renormalize dec = Some ((dec_step ^^ k) dec)"
proof (induction k arbitrary: dec)
  case 0
  then show ?case
    by (subst dec_renormalize.simps) (simp add: renormalizes_def word_less_nat_alt unat_TOP)
next
  case (Suc k)
  have r: "unat (rd_range dec) < 2 ^ 24" "renormalizes k (unat (rd_range (dec_step dec)))"
    using renormalizes_Suc [OF Suc.prems] by (simp_all add: push_range dec_step_def)
  have "dec_renormalize dec = dec_renormalize (dec_step dec)"
    using r(1) by (subst dec_renormalize.simps)
      (simp add: word_less_nat_alt unat_TOP dec_step_def Let_def)
  also have "\<dots> = Some ((dec_step ^^ k) (dec_step dec))" by (rule Suc.IH [OF r(2)])
  finally show ?case by (simp only: funpow_Suc_right o_def)
qed

lemma digit_less: "c < y \<Longrightarrow> b < 256 \<Longrightarrow> c * 256 + b < y * (256 :: nat)"
  by linarith

lemma shift_in_code:
  assumes "unat (c :: u32) < 2 ^ 24"
  shows "unat (push_bit 8 c OR ucast (b :: u8)) = unat c * 256 + unat b"
proof -
  have "push_bit 8 c AND ucast b = (0 :: u32)"
    by (rule bit_word_eqI) (auto simp: bit_simps dest: bit_imp_le_length)
  then have "push_bit 8 c OR ucast b = push_bit 8 c + (ucast b :: u32)"
    by (simp add: disjunctive_add_eq_or)
  moreover have "unat (push_bit 8 c) = unat c * 256" "unat (ucast b :: u32) = unat b"
    using assms less_trans [OF unat_less_256 [of b], of "2 ^ 32"]
    by (simp_all add: unat_push_bit_mod unat_ucast_mod)
  moreover have "unat c * 256 + unat b < 2 ^ 32"
    using digit_less [OF assms unat_less_256 [of b]] by simp
  ultimately show ?thesis by (simp add: unat_word_ariths)
qed

lemma be_value_take_Suc:
  "n < length F \<Longrightarrow> be_value (take (Suc n) F) = be_value (take n F) * 256 + unat (F ! n)"
  by (simp add: take_Suc_conv_app_nth be_value_append)

text \<open>While bytes remain, each step brings in the next digit.\<close>

lemma dec_steps_code:
  assumes "\<forall>j < k. unat (rd_range dec) * 256 ^ j < 2 ^ 24"
    "unat (rd_code dec) + X = be_value (take (rd_pos dec) (rd_input dec))"
    "unat (rd_code dec) < unat (rd_range dec)" "rd_pos dec + k \<le> length (rd_input dec)"
  shows "unat (rd_code ((dec_step ^^ k) dec)) + X * 256 ^ k
      = be_value (take (rd_pos dec + k) (rd_input dec))
    \<and> unat (rd_code ((dec_step ^^ k) dec)) < unat (rd_range dec) * 256 ^ k
    \<and> unat (rd_range ((dec_step ^^ k) dec)) = unat (rd_range dec) * 256 ^ k
    \<and> rd_pos ((dec_step ^^ k) dec) = rd_pos dec + k
    \<and> rd_input ((dec_step ^^ k) dec) = rd_input dec
    \<and> rd_eof_overread ((dec_step ^^ k) dec) = rd_eof_overread dec"
  using assms(1,4)
proof (induction k)
  case 0
  then show ?case using assms by simp
next
  case (Suc k)
  let ?d = "(dec_step ^^ k) dec"
  have IH: "unat (rd_code ?d) + X * 256 ^ k = be_value (take (rd_pos dec + k) (rd_input dec))"
      "unat (rd_code ?d) < unat (rd_range dec) * 256 ^ k"
      "unat (rd_range ?d) = unat (rd_range dec) * 256 ^ k"
      "rd_pos ?d = rd_pos dec + k" "rd_input ?d = rd_input dec"
      "rd_eof_overread ?d = rd_eof_overread dec"
    using Suc by auto
  have r: "unat (rd_range dec) * 256 ^ k < 2 ^ 24" using Suc.prems(1) by simp
  have pos: "rd_pos dec + k < length (rd_input dec)" using Suc.prems(2) by simp
  let ?b = "rd_input dec ! (rd_pos dec + k)"
  have step: "dec_step ?d = ?d\<lparr>rd_code := push_bit 8 (rd_code ?d) OR ucast ?b,
      rd_pos := rd_pos dec + k + 1, rd_range := push_bit 8 (rd_range ?d)\<rparr>"
    using pos IH(4,5) by (simp add: dec_step_def rd_shift_in_def rd_read_byte_def)
  have code: "unat (push_bit 8 (rd_code ?d) OR ucast ?b) = unat (rd_code ?d) * 256 + unat ?b"
    using IH(2) r by (intro shift_in_code) linarith
  have "unat (rd_code ?d) * 256 + unat ?b + X * 256 ^ Suc k
      = be_value (take (rd_pos dec + Suc k) (rd_input dec))"
    using IH(1) be_value_take_Suc [OF pos] by (simp add: algebra_simps)
  moreover have "unat (rd_code ?d) * 256 + unat ?b < unat (rd_range dec) * 256 ^ Suc k"
    using digit_less [OF IH(2) unat_less_256 [of ?b]] by (simp only: power_Suc2 mult.assoc)
  moreover have "unat (push_bit 8 (rd_range ?d)) = unat (rd_range dec) * 256 ^ Suc k"
    using IH(3) r by (simp add: push_range)
  ultimately show ?case using IH by (simp add: step code del: power_Suc)
qed

text \<open>Encoder and decoder in lockstep over the stream \<open>F\<close>.\<close>

definition tracks :: "bytes \<Rightarrow> range_encoder \<Rightarrow> range_decoder \<Rightarrow> bool" where
  "tracks F enc dec \<longleftrightarrow>
     enc_inv enc \<and> hits F enc \<and> rd_input dec = F \<and> rd_pos dec = enc_digits enc + 4
     \<and> rd_eof_overread dec = 0 \<and> rd_range dec = rc_range enc
     \<and> unat (rd_code dec) + enc_value enc = be_value (take (rd_pos dec) F)"

lemma unat_of_nat_small: "n < 2 ^ 32 \<Longrightarrow> unat (of_nat n :: u32) = n"
  by (simp add: unat_of_nat)

lemma tracks_new:
  assumes "hits F range_encoder_new"
  shows "tracks F range_encoder_new (range_decoder_new F)"
proof -
  have len: "5 \<le> length F" and v: "be_value (take 5 F) < 0xFFFFFFFF"
    using assms by (simp_all add: hits_def enc_new_simps)
  let ?d = "\<lambda>c n. \<lparr>rd_code = c, rd_range = 0xFFFFFFFF, rd_input = F, rd_pos = n, rd_eof_overread = 0\<rparr>"
  have step: "rd_shift_in (?d c n) = ?d (push_bit 8 c OR ucast (F ! n)) (Suc n)" if "n < 5" for c n
    using that len by (simp add: rd_shift_in_def rd_read_byte_def)
  have code: "(rd_shift_in ^^ n) (?d 0 0) = ?d (of_nat (be_value (take n F))) n
      \<and> be_value (take n F) < 2 ^ 32" if "n \<le> 5" for n
    using that
  proof (induction n)
    case (Suc n)
    then have "n < 5" by simp
    have "be_value (take (Suc n) F) = be_value (take 5 F) div 256 ^ (4 - n)"
      using be_value_take [of "Suc n" "take 5 F"] len \<open>n < 5\<close> by (simp add: min_def)
    then have "be_value (take (Suc n) F) \<le> be_value (take 5 F)" by simp
    with v have small: "be_value (take (Suc n) F) < 2 ^ 32" by simp
    have s: "be_value (take (Suc n) F) = be_value (take n F) * 256 + unat (F ! n)"
      using len \<open>n < 5\<close> by (intro be_value_take_Suc) simp
    with small have c: "be_value (take n F) < 2 ^ 24" by simp
    then have u: "unat (of_nat (be_value (take n F)) :: u32) = be_value (take n F)"
      by (simp add: unat_of_nat)
    have "unat (push_bit 8 (of_nat (be_value (take n F)) :: u32) OR ucast (F ! n)) = be_value (take (Suc n) F)"
      using shift_in_code [of "of_nat (be_value (take n F))" "F ! n"] c u s by simp
    then have "push_bit 8 (of_nat (be_value (take n F)) :: u32) OR ucast (F ! n)
        = of_nat (be_value (take (Suc n) F))"
      by (simp only: word_unat_eq_iff u unat_of_nat_small [OF small])
    then show ?case using Suc \<open>n < 5\<close> small by (simp add: step del: take_Suc)
  qed simp
  have "unat (of_nat (be_value (take 5 F)) :: u32) = be_value (take 5 F)"
    using v by (simp add: unat_of_nat)
  then show ?thesis
    using code [of 5] assms by (simp add: tracks_def range_decoder_new_def enc_inv_new enc_new_simps)
qed

text \<open>The frequency the decoder reads lies in the interval the encoder took.\<close>

lemma tracks_step:
  assumes t: "tracks F enc dec" and lohi: "lo < hi" "hi \<le> 32768"
    and enc': "encode_interval lo hi enc = Some enc'" "\<not> rc_cache_overflow enc'" "hits F enc'"
  obtains freq dec' where "decode_freq dec = (rc_range enc div PROB_TOTAL, freq)"
    "unat lo \<le> unat freq" "unat freq < unat hi"
    "dec_advance (rc_range enc div PROB_TOTAL) lo hi dec = Some dec'" "tracks F enc' dec'"
proof -
  let ?rw = "rc_range enc div PROB_TOTAL"
  define r where "r = unat (rc_range enc) div 32768"
  let ?R = "(unat hi - unat lo) * r"
  have ur: "unat ?rw = r" by (simp add: unat_range_div r_def)
  have inv: "enc_inv enc" "hits F enc" "rd_input dec = F" "rd_pos dec = enc_digits enc + 4"
      "rd_eof_overread dec = 0" "rd_range dec = rc_range enc"
      "unat (rd_code dec) + enc_value enc = be_value (take (rd_pos dec) F)"
    using t by (simp_all add: tracks_def)
  have l: "unat lo < unat hi" "unat hi \<le> 32768"
    using lohi by (simp_all add: word_less_nat_alt word_le_nat_alt)
  have range: "2 ^ 24 \<le> unat (rc_range enc)" using inv(1) by (simp add: enc_inv_def)
  note sc = interval_scale [OF l range r_def]
  have rb: "unat (rc_range enc) < 2 ^ 32" using unat_bounds [of "rc_range enc"] by simp
  obtain k where k: "renormalizes k ?R" "enc_inv enc'"
      "enc_value enc' = 256 ^ k * (enc_value enc + unat lo * r)"
      "unat (rc_range enc') = ?R * 256 ^ k" "enc_digits enc' = enc_digits enc + k"
    by (rule encode_interval_result [OF inv(1) lohi, folded r_def]) (use enc'(1,2) in auto)
  let ?p = "enc_digits enc + 4"
  have len: "?p + k \<le> length F" using enc'(3) k(5) by (simp add: hits_def)
  have tk: "be_value (take ?p F) = be_value (take (?p + k) F) div 256 ^ k"
    using be_value_take [of ?p "take (?p + k) F"] len by (simp add: min_def)
  have h: "256 ^ k * (enc_value enc + unat lo * r) \<le> be_value (take (?p + k) F)"
      "be_value (take (?p + k) F) < (enc_value enc + unat lo * r + ?R) * 256 ^ k"
    using enc'(3) k(3-5) by (auto simp: hits_def algebra_simps)
  have lower: "enc_value enc + unat lo * r \<le> be_value (take ?p F)"
    unfolding tk using div_le_mono [OF h(1), of "256 ^ k"] by simp
  have upper: "be_value (take ?p F) < enc_value enc + unat lo * r + ?R"
    unfolding tk by (rule less_mult_imp_div_less [OF h(2)])
  have code: "unat lo * r \<le> unat (rd_code dec)" "unat (rd_code dec) < unat lo * r + ?R"
    using lower upper inv(4,7) by simp_all
  have "unat lo * r + ?R = unat hi * r" using l(1) by (simp add: add_mult_distrib [symmetric])
  with code(2) have q: "unat lo \<le> unat (rd_code dec) div r" "unat (rd_code dec) div r < unat hi"
    using sc(1) code(1) by (simp_all add: less_eq_div_iff_mult_less_eq less_mult_imp_div_less)
  let ?freq = "min (rd_code dec div ?rw) (PROB_TOTAL - 1)"
  have "unat (PROB_TOTAL - 1) = 32767" by (simp add: PROB_TOTAL_def PROB_BITS_def)
  then have f: "unat ?freq = unat (rd_code dec) div r"
    using q l(2) ur by (simp add: min_def word_le_nat_alt unat_div_distrib)
  let ?d1 = "dec\<lparr>rd_code := rd_code dec - ucast lo * ?rw, rd_range := ucast (hi - lo) * ?rw\<rparr>"
  have lor: "unat (ucast lo * ?rw) = unat lo * r"
    using unat_cast_mult [of lo ?rw] sc(2) rb by (simp add: ur)
  have c1: "unat (rd_code dec - ucast lo * ?rw) = unat (rd_code dec) - unat lo * r"
    using code(1) by (subst unat_sub) (simp_all add: word_le_nat_alt lor)
  have r1: "unat (ucast (hi - lo) * ?rw) = ?R"
  proof -
    have d: "unat (hi - lo) = unat hi - unat lo" by (rule unat_diff_u16) (use lohi in simp)
    have "unat (hi - lo) * unat ?rw < 2 ^ 32" unfolding d ur using sc(2) rb by linarith
    from unat_cast_mult [OF this] show ?thesis by (simp add: d ur)
  qed
  have "dec_advance ?rw lo hi dec = Some ((dec_step ^^ k) ?d1)"
    using dec_renormalize_steps [of k ?d1] k(1) r1 by (simp add: dec_advance_def Let_def)
  moreover have "tracks F enc' ((dec_step ^^ k) ?d1)"
  proof -
    have "unat (rd_code ?d1) + (enc_value enc + unat lo * r) = be_value (take (rd_pos ?d1) (rd_input ?d1))"
      using c1 code(1) inv(3,7) by simp
    moreover have "unat (rd_code ?d1) < unat (rd_range ?d1)" using c1 r1 code by simp
    moreover have "\<forall>j < k. unat (rd_range ?d1) * 256 ^ j < 2 ^ 24"
      using k(1) r1 by (simp add: renormalizes_def)
    moreover have "rd_pos ?d1 + k \<le> length (rd_input ?d1)" using len inv(3,4) by simp
    ultimately have s: "unat (rd_code ((dec_step ^^ k) ?d1)) + (enc_value enc + unat lo * r) * 256 ^ k
          = be_value (take (rd_pos ?d1 + k) (rd_input ?d1))"
        "unat (rd_range ((dec_step ^^ k) ?d1)) = unat (rd_range ?d1) * 256 ^ k"
        "rd_pos ((dec_step ^^ k) ?d1) = rd_pos ?d1 + k"
        "rd_input ((dec_step ^^ k) ?d1) = rd_input ?d1"
        "rd_eof_overread ((dec_step ^^ k) ?d1) = rd_eof_overread ?d1"
      using dec_steps_code [of k ?d1 "enc_value enc + unat lo * r"] by blast+
    have "rd_range ((dec_step ^^ k) ?d1) = rc_range enc'"
      using s(2) k(4) r1 by (simp add: word_unat_eq_iff)
    moreover have "unat (rd_code ((dec_step ^^ k) ?d1)) + enc_value enc'
        = be_value (take (rd_pos ((dec_step ^^ k) ?d1)) F)"
      unfolding k(3) s(3) using s(1) inv(3) by (simp add: mult.commute)
    ultimately show ?thesis
      unfolding tracks_def using k(2,5) enc'(3) s(3-5) inv(3-5) by simp
  qed
  moreover have "decode_freq dec = (?rw, ?freq)" by (simp add: decode_freq_def inv(6) Let_def)
  ultimately show thesis using that f q by metis
qed

end
