(* ===== verification/Predictor.thy ===== *)
theory Predictor
  imports RangeCoder
begin

text \<open>
  The predictor interface (\<open>ProbabilityPredictor\<close>, \<open>src/aether-core/src/entropy/traits.rs\<close>) and the
  block coder over it (\<open>src/aether-core/src/coding/rans.rs\<close>). The trait is a record of
  state-passing operations; its contract is the locale \<open>lawful_predictor\<close>, under which decoding
  undoes encoding. The trait's default methods are those of \<open>default_predictor\<close>, and the locale
  \<open>cdf_predictor\<close> shows that they meet the contract.
\<close>

section \<open>The trait\<close>

record 's predictor =
  query_cdf :: "u8 \<Rightarrow> 's \<Rightarrow> (u16 \<times> u16) \<times> 's"
  decode_symbol :: "u32 \<Rightarrow> 's \<Rightarrow> (u8 \<times> u16 \<times> u16) \<times> 's"
  update_byte :: "u8 \<Rightarrow> 's \<Rightarrow> 's"
  reset_state :: "'s \<Rightarrow> 's"

definition default_query_cdf :: "('s \<Rightarrow> u16 list \<times> 's) \<Rightarrow> u8 \<Rightarrow> 's \<Rightarrow> (u16 \<times> u16) \<times> 's" where
  "default_query_cdf predict_cdf byte state =
     (let (cdf, state) = predict_cdf state;
          s = unat byte
      in ((cdf ! s, cdf ! (s + 1)), state))"

definition default_decode_symbol ::
    "('s \<Rightarrow> u16 list \<times> 's) \<Rightarrow> u32 \<Rightarrow> 's \<Rightarrow> (u8 \<times> u16 \<times> u16) \<times> 's" where
  "default_decode_symbol predict_cdf freq state =
     (let (cdf, state) = predict_cdf state;
          symbol = find_symbol cdf freq
      in ((of_nat symbol, cdf ! symbol, cdf ! (symbol + 1)), state))"

definition default_predictor ::
    "('s \<Rightarrow> u16 list \<times> 's) \<Rightarrow> (u8 \<Rightarrow> 's \<Rightarrow> 's) \<Rightarrow> ('s \<Rightarrow> 's) \<Rightarrow> 's predictor" where
  "default_predictor predict_cdf update reset =
     \<lparr>query_cdf = default_query_cdf predict_cdf, decode_symbol = default_decode_symbol predict_cdf,
      update_byte = update, reset_state = reset\<rparr>"

section \<open>Computations that may not return\<close>

text \<open>\<open>None\<close> is a loop that runs for ever; the result inside is the value or the error.\<close>

type_synonym 'a run = "'a result option"

definition bindRun :: "'a run \<Rightarrow> ('a \<Rightarrow> 'b run) \<Rightarrow> 'b run" where
  "bindRun m f = (case m of None \<Rightarrow> None | Some (Inl e) \<Rightarrow> Some (Inl e) | Some (Inr x) \<Rightarrow> f x)"

lemma bindRun_simps [simp]:
  "bindRun None f = None" "bindRun (Some (Inl e)) f = Some (Inl e)" "bindRun (Some (Inr x)) f = f x"
  by (simp_all add: bindRun_def)

lemma bindRun_Inr_iff:
  "bindRun m f = Some (Inr y) \<longleftrightarrow> (\<exists>x. m = Some (Inr x) \<and> f x = Some (Inr y))"
  by (auto simp: bindRun_def split: option.splits sum.splits)

fun mapRun :: "('a \<Rightarrow> 'b run) \<Rightarrow> 'a list \<Rightarrow> 'b list run" where
  "mapRun f [] = Some (Inr [])"
| "mapRun f (x # xs) = bindRun (f x) (\<lambda>y. bindRun (mapRun f xs) (\<lambda>ys. Some (Inr (y # ys))))"

lemma mapRun_Inr: "(\<And>x. x \<in> set xs \<Longrightarrow> f x = Some (Inr (g x))) \<Longrightarrow> mapRun f xs = Some (Inr (map g xs))"
  by (induction xs) auto

lemma bindRun_total: "m \<noteq> None \<Longrightarrow> (\<And>x. m = Some (Inr x) \<Longrightarrow> f x \<noteq> None) \<Longrightarrow> bindRun m f \<noteq> None"
  by (cases m) (auto simp: bindRun_def split: sum.splits)

lemma mapRun_total: "(\<And>x. x \<in> set xs \<Longrightarrow> f x \<noteq> None) \<Longrightarrow> mapRun f xs \<noteq> None"
  by (induction xs) (auto simp: bindRun_def split: option.splits sum.splits)

lemma mapRun_compose:
  assumes "mapRun f xs = Some (Inr ys)"
    and "\<And>x y. x \<in> set xs \<Longrightarrow> f x = Some (Inr y) \<Longrightarrow> g y = Some (Inr (h x))"
  shows "mapRun g ys = Some (Inr (map h xs))"
  using assms
proof (induction xs arbitrary: ys)
  case (Cons x xs)
  then obtain y zs where "f x = Some (Inr y)" "mapRun f xs = Some (Inr zs)" "ys = y # zs"
    by (auto simp: bindRun_Inr_iff)
  moreover have "mapRun g zs = Some (Inr (map h xs))"
    using Cons.IH Cons.prems(2) calculation(2) by simp
  ultimately show ?case using Cons.prems(2) [of x y] by simp
qed simp

lemma mapRun_Some:
  "(\<And>x. x \<in> set xs \<Longrightarrow> \<exists>r. f x = Some r) \<Longrightarrow> \<exists>r. mapRun f xs = Some r"
proof (induction xs)
  case (Cons x xs)
  obtain r where "f x = Some r" using Cons.prems by auto
  moreover obtain rs where "mapRun f xs = Some rs" using Cons by auto
  ultimately show ?case by (cases r; cases rs) auto
qed simp

section \<open>Blocks\<close>

definition MAX_DECODE_SIZE :: nat where "MAX_DECODE_SIZE = MAX_DECOMPRESSED_BLOCK_SIZE"
definition MAX_NORMAL_OVERREAD :: nat where "MAX_NORMAL_OVERREAD = 5"

fun encode_symbols ::
    "'s predictor \<Rightarrow> bytes \<Rightarrow> range_encoder \<Rightarrow> 's \<Rightarrow> (range_encoder \<times> 's) option" where
  "encode_symbols P [] enc state = Some (enc, state)"
| "encode_symbols P (byte # data) enc state =
     (let ((lo, hi), state) = query_cdf P byte state
      in case encode_interval lo hi enc of
           None \<Rightarrow> None
         | Some enc \<Rightarrow> encode_symbols P data enc (update_byte P byte state))"

definition encode_block_inner ::
    "'s predictor \<Rightarrow> bytes \<Rightarrow> bool \<Rightarrow> 's \<Rightarrow> (bytes result \<times> 's) option" where
  "encode_block_inner P data reset state =
     (if data = [] then Some (Inr [], state)
      else
        case encode_symbols P data range_encoder_new (if reset then reset_state P state else state) of
          None \<Rightarrow> None
        | Some (enc, state) \<Rightarrow>
            Some (case enc_finish enc of Inl e \<Rightarrow> Inl (Compression e) | Inr bs \<Rightarrow> Inr bs, state))"

definition encode_block :: "'s predictor \<Rightarrow> bytes \<Rightarrow> 's \<Rightarrow> (bytes result \<times> 's) option" where
  "encode_block P data = encode_block_inner P data True"

definition encode_block_continuing :: "'s predictor \<Rightarrow> bytes \<Rightarrow> 's \<Rightarrow> (bytes result \<times> 's) option" where
  "encode_block_continuing P data = encode_block_inner P data False"

primrec decode_symbols ::
    "'s predictor \<Rightarrow> nat \<Rightarrow> range_decoder \<Rightarrow> bytes \<Rightarrow> 's \<Rightarrow> (range_decoder \<times> bytes \<times> 's) option" where
  "decode_symbols P 0 dec output state = Some (dec, output, state)"
| "decode_symbols P (Suc n) dec output state =
     (let (r, freq) = decode_freq dec;
          ((byte, cdf_lo, cdf_hi), state) = decode_symbol P freq state
      in case dec_advance r cdf_lo cdf_hi dec of
           None \<Rightarrow> None
         | Some dec \<Rightarrow> decode_symbols P n dec (output @ [byte]) (update_byte P byte state))"

definition decode_block_inner ::
    "'s predictor \<Rightarrow> bytes \<Rightarrow> nat \<Rightarrow> bool \<Rightarrow> 's \<Rightarrow> (bytes result \<times> 's) option" where
  "decode_block_inner P compressed expected_len reset state =
     (if expected_len = 0 then Some (Inr [], state)
      else if compressed = [] then
        Some (Inl (Decompression ''Empty compressed data for non-zero expected length''), state)
      else if expected_len > MAX_DECODE_SIZE then
        Some (Inl (Decompression ''Decode size {} exceeds safety limit {}''), state)
      else
        case decode_symbols P expected_len (range_decoder_new compressed) []
               (if reset then reset_state P state else state) of
          None \<Rightarrow> None
        | Some (dec, output, state) \<Rightarrow>
            Some (if rd_eof_overread dec > MAX_NORMAL_OVERREAD then
                    Inl (Decompression
                      ''Range decoder read {} bytes past end of input (truncated stream?)'')
                  else Inr output, state))"

definition decode_block :: "'s predictor \<Rightarrow> bytes \<Rightarrow> nat \<Rightarrow> 's \<Rightarrow> (bytes result \<times> 's) option" where
  "decode_block P compressed expected_len = decode_block_inner P compressed expected_len True"

definition decode_block_continuing ::
    "'s predictor \<Rightarrow> bytes \<Rightarrow> nat \<Rightarrow> 's \<Rightarrow> (bytes result \<times> 's) option" where
  "decode_block_continuing P compressed expected_len =
     decode_block_inner P compressed expected_len False"

section \<open>States that code alike\<close>

text \<open>Two states answer every query alike, and go on from it alike, whatever else they hold.\<close>

definition same_coding :: "'s predictor \<Rightarrow> 's \<Rightarrow> 's \<Rightarrow> bool" where
  "same_coding P s t \<longleftrightarrow>
     (\<forall>byte. query_cdf P byte s = query_cdf P byte t) \<and> (\<forall>freq. decode_symbol P freq s = decode_symbol P freq t)"

lemma same_coding_refl [simp, intro]: "same_coding P s s" by (simp add: same_coding_def)

lemma same_coding_trans: "same_coding P s t \<Longrightarrow> same_coding P t u \<Longrightarrow> same_coding P s u"
  by (simp add: same_coding_def)

lemma same_coding_sym: "same_coding P s t \<Longrightarrow> same_coding P t s" by (simp add: same_coding_def)

lemma same_coding_encode: "same_coding P s t \<Longrightarrow> data \<noteq> [] \<Longrightarrow> encode_symbols P data enc s = encode_symbols P data enc t"
  by (cases data) (simp_all add: same_coding_def)

lemma same_coding_decode: "same_coding P s t \<Longrightarrow> n \<noteq> 0 \<Longrightarrow> decode_symbols P n dec out s = decode_symbols P n dec out t"
  by (cases n) (simp_all add: same_coding_def)

section \<open>Termination of the renormalisation loops\<close>

lemma enc_steps_range:
  "\<forall>j < k. unat (rc_range enc) * 256 ^ j < 2 ^ 24
    \<Longrightarrow> unat (rc_range ((enc_step ^^ k) enc)) = unat (rc_range enc) * 256 ^ k"
  by (induction k) (auto simp: push_range)

lemma encode_interval_returns:
  assumes "2 ^ 24 \<le> unat (rc_range enc)" "lo < hi" "hi \<le> 32768"
  shows "\<exists>enc'. encode_interval lo hi enc = Some enc' \<and> 2 ^ 24 \<le> unat (rc_range enc')
    \<and> (rc_cache_overflow enc \<longrightarrow> rc_cache_overflow enc')"
proof -
  let ?r = "rc_range enc div PROB_TOTAL"
  have l: "unat lo < unat hi" "unat hi \<le> 32768"
    using assms(2,3) by (simp_all add: word_less_nat_alt word_le_nat_alt)
  note sc = interval_scale [OF l assms(1) unat_range_div [of "rc_range enc"]]
  let ?e = "enc\<lparr>rc_low := rc_low enc + ucast (ucast lo :: u32) * ucast ?r, rc_range := ucast (hi - lo) * ?r\<rparr>"
  have R: "unat (rc_range ?e) = (unat hi - unat lo) * unat ?r"
  proof -
    have d: "unat (hi - lo) = unat hi - unat lo" by (rule unat_diff_u16) (use assms in simp)
    have "unat (hi - lo) * unat ?r < 2 ^ 32"
      unfolding d using sc(2) unat_bounds [of "rc_range enc"] by simp
    from unat_cast_mult [OF this] show ?thesis by (simp add: d)
  qed
  obtain k where k: "renormalizes k (unat (rc_range ?e))"
    using renormalizes_exists [OF sc(3)] R by auto
  have "encode_interval lo hi enc = Some ((enc_step ^^ k) ?e)"
    using enc_renormalize_steps [OF k] by (simp add: encode_interval_def Let_def)
  moreover have "2 ^ 24 \<le> unat (rc_range ((enc_step ^^ k) ?e))"
    using k by (subst enc_steps_range) (simp_all add: renormalizes_def)
  moreover have "rc_cache_overflow enc \<longrightarrow> rc_cache_overflow ((enc_step ^^ k) ?e)"
    by (simp add: funpow_overflow)
  ultimately show ?thesis by blast
qed

lemma dec_steps_range:
  "\<forall>j < k. unat (rd_range dec) * 256 ^ j < 2 ^ 24
    \<Longrightarrow> unat (rd_range ((dec_step ^^ k) dec)) = unat (rd_range dec) * 256 ^ k"
  by (induction k) (auto simp: push_range dec_step_def)

lemma dec_advance_returns:
  assumes "2 ^ 24 \<le> unat (rd_range dec)" "lo < hi" "hi \<le> 32768"
  shows "\<exists>dec'. dec_advance (rd_range dec div PROB_TOTAL) lo hi dec = Some dec'
    \<and> 2 ^ 24 \<le> unat (rd_range dec')"
proof -
  let ?r = "rd_range dec div PROB_TOTAL"
  have l: "unat lo < unat hi" "unat hi \<le> 32768"
    using assms(2,3) by (simp_all add: word_less_nat_alt word_le_nat_alt)
  note sc = interval_scale [OF l assms(1) unat_range_div [of "rd_range dec"]]
  let ?d = "dec\<lparr>rd_code := rd_code dec - ucast lo * ?r, rd_range := ucast (hi - lo) * ?r\<rparr>"
  have R: "unat (rd_range ?d) = (unat hi - unat lo) * unat ?r"
  proof -
    have d: "unat (hi - lo) = unat hi - unat lo" by (rule unat_diff_u16) (use assms in simp)
    have "unat (hi - lo) * unat ?r < 2 ^ 32"
      unfolding d using sc(2) unat_bounds [of "rd_range dec"] by simp
    from unat_cast_mult [OF this] show ?thesis by (simp add: d)
  qed
  obtain k where k: "renormalizes k (unat (rd_range ?d))"
    using renormalizes_exists [OF sc(3)] R by auto
  have "dec_advance ?r lo hi dec = Some ((dec_step ^^ k) ?d)"
    using dec_renormalize_steps [OF k] by (simp add: dec_advance_def Let_def)
  moreover have "2 ^ 24 \<le> unat (rd_range ((dec_step ^^ k) ?d))"
    using k by (subst dec_steps_range) (simp_all add: renormalizes_def)
  ultimately show ?thesis by blast
qed

lemma range_decoder_new_range: "rd_range (range_decoder_new data) = 0xFFFFFFFF"
proof -
  have "rd_range ((rd_shift_in ^^ n) dec) = rd_range dec" for n dec
    by (induction n) simp_all
  then show ?thesis by (simp add: range_decoder_new_def)
qed

section \<open>The contract\<close>

text \<open>
  \<open>good\<close> is the predictor's state invariant and \<open>cdf\<close> the table it commits to in a state. Both fast
  paths agree with the table, and encoder and decoder reach the same state.
\<close>

locale lawful_predictor =
  fixes P :: "'s predictor" and good :: "'s \<Rightarrow> bool" and cdf :: "'s \<Rightarrow> u16 list"
  assumes reset_good: "good s \<Longrightarrow> good (reset_state P s)"
    and cdf_ok: "good s \<Longrightarrow> cdf_table (cdf s)"
    and query_ok: "good s \<Longrightarrow> fst (query_cdf P b s) = (cdf s ! unat b, cdf s ! (unat b + 1))"
    and decode_ok: "good s \<Longrightarrow> unat freq < 32768 \<Longrightarrow> in_interval (cdf s) t freq
      \<Longrightarrow> fst (decode_symbol P freq s) = (of_nat t, cdf s ! t, cdf s ! (t + 1))"
    and update_good: "good s \<Longrightarrow> good (update_byte P b (snd (query_cdf P b s)))"
    and update_sync: "good s \<Longrightarrow> unat freq < 32768 \<Longrightarrow> in_interval (cdf s) (unat b) freq
      \<Longrightarrow> update_byte P b (snd (decode_symbol P freq s)) = update_byte P b (snd (query_cdf P b s))"
begin

abbreviation "next s b \<equiv> update_byte P b (snd (query_cdf P b s))"

lemma cdf_bounds:
  fixes b :: u8
  assumes "good s"
  shows "cdf s ! unat b < cdf s ! (unat b + 1)" "cdf s ! (unat b + 1) \<le> 32768"
proof -
  have c: "cdf_table (cdf s)" by (rule cdf_ok [OF assms])
  then have "\<forall>i < 256. cdf s ! i < cdf s ! (i + 1)" by (auto simp: cdf_table_def)
  then show "cdf s ! unat b < cdf s ! (unat b + 1)" using unat_less_256 [of b] by blast
  have "cdf s ! (unat b + 1) \<le> cdf s ! 256"
    using unat_less_256 [of b] by (intro cdf_table_mono [OF c]) auto
  then show "cdf s ! (unat b + 1) \<le> 32768" using c by (simp add: cdf_table_def)
qed

lemma encode_symbols_Cons:
  assumes "good s"
  shows "encode_symbols P (b # data) enc s =
    (case encode_interval (cdf s ! unat b) (cdf s ! (unat b + 1)) enc of
       None \<Rightarrow> None
     | Some enc \<Rightarrow> encode_symbols P data enc (next s b))"
  using query_ok [OF assms, of b] by (cases "query_cdf P b s") (auto split: option.split)

lemma encode_symbols_returns:
  assumes "good s" "2 ^ 24 \<le> unat (rc_range enc)"
  shows "\<exists>r. encode_symbols P data enc s = Some r"
  using assms
proof (induction data arbitrary: enc s)
  case (Cons b data)
  obtain enc' where "encode_interval (cdf s ! unat b) (cdf s ! (unat b + 1)) enc = Some enc'"
      "2 ^ 24 \<le> unat (rc_range enc')"
    using encode_interval_returns [OF Cons.prems(2) cdf_bounds [OF Cons.prems(1), of b]] by blast
  then show ?case
    using Cons.IH [OF update_good [OF Cons.prems(1)]]
    unfolding encode_symbols_Cons [OF Cons.prems(1)] by simp
qed simp

lemma encode_symbols_overflow:
  assumes "good s" "2 ^ 24 \<le> unat (rc_range enc)" "rc_cache_overflow enc"
    "encode_symbols P data enc s = Some (enc', s')"
  shows "rc_cache_overflow enc'"
  using assms
proof (induction data arbitrary: enc s)
  case (Cons b data)
  obtain e1 where "encode_interval (cdf s ! unat b) (cdf s ! (unat b + 1)) enc = Some e1"
      "2 ^ 24 \<le> unat (rc_range e1)" "rc_cache_overflow e1"
    using encode_interval_returns [OF Cons.prems(2) cdf_bounds [OF Cons.prems(1), of b]] Cons.prems(3)
    by blast
  then show ?case
    using Cons.IH [OF update_good [OF Cons.prems(1)]] Cons.prems(4)
    unfolding encode_symbols_Cons [OF Cons.prems(1)] by simp
qed simp

lemma encode_symbols_nested:
  assumes "good s" "enc_inv enc" "encode_symbols P data enc s = Some (enc', s')"
    "\<not> rc_cache_overflow enc'"
  shows "enc_inv enc' \<and> nested enc enc' \<and> \<not> rc_cache_overflow enc \<and> good s'"
  using assms
proof (induction data arbitrary: enc s)
  case (Cons b data)
  obtain e1 where e1: "encode_interval (cdf s ! unat b) (cdf s ! (unat b + 1)) enc = Some e1"
      "encode_symbols P data e1 (next s b) = Some (enc', s')"
    using Cons.prems(3) unfolding encode_symbols_Cons [OF Cons.prems(1)]
    by (auto split: option.splits)
  have g: "good (next s b)" by (rule update_good [OF Cons.prems(1)])
  have range: "2 ^ 24 \<le> unat (rc_range enc)" using Cons.prems(2) by (simp add: enc_inv_def)
  then have "2 ^ 24 \<le> unat (rc_range e1)"
    using encode_interval_returns [OF range cdf_bounds [OF Cons.prems(1), of b]] e1(1) by auto
  then have no: "\<not> rc_cache_overflow e1"
    using encode_symbols_overflow [OF g _ _ e1(2)] Cons.prems(4) by blast
  note step = encode_interval_nested [OF Cons.prems(2) cdf_bounds [OF Cons.prems(1)] e1(1) no]
  have "enc_inv enc'" "nested e1 enc'" "good s'"
    using Cons.IH [OF g _ e1(2) Cons.prems(4)] step by auto
  then show ?case using step nested_trans by blast
qed simp

text \<open>Every step of the encoding is followed by the decoder on the finished stream.\<close>

lemma decode_symbols_encode:
  assumes "good s" "encode_symbols P data enc s = Some (final, s')" "\<not> rc_cache_overflow final"
    "enc_finish final = Inr F" "tracks F enc dec"
  shows "\<exists>dec'. decode_symbols P (length data) dec out s = Some (dec', out @ data, s')
    \<and> rd_eof_overread dec' = 0"
  using assms(1,2,5)
proof (induction data arbitrary: enc dec out s)
  case Nil
  then show ?case by (simp add: tracks_def)
next
  case (Cons b data)
  let ?lo = "cdf s ! unat b" and ?hi = "cdf s ! (unat b + 1)"
  note lohi = cdf_bounds [OF Cons.prems(1), of b]
  obtain e1 where e1: "encode_interval ?lo ?hi enc = Some e1"
      "encode_symbols P data e1 (next s b) = Some (final, s')"
    using Cons.prems(2) unfolding encode_symbols_Cons [OF Cons.prems(1)]
    by (auto split: option.splits)
  have g: "good (next s b)" by (rule update_good [OF Cons.prems(1)])
  have inv: "enc_inv enc" using Cons.prems(3) by (simp add: tracks_def)
  have "2 ^ 24 \<le> unat (rc_range e1)"
    using encode_interval_returns [OF _ lohi, of enc] e1(1) inv by (auto simp: enc_inv_def)
  then have no: "\<not> rc_cache_overflow e1"
    using encode_symbols_overflow [OF g _ _ e1(2)] assms(3) by blast
  have inv1: "enc_inv e1" using encode_interval_nested [OF inv lohi e1(1) no] by simp
  note later = encode_symbols_nested [OF g inv1 e1(2) assms(3)]
  have hits: "hits F e1" by (rule hits_nested) (use later assms(4) in auto)
  obtain freq dec' where d: "decode_freq dec = (rc_range enc div PROB_TOTAL, freq)"
      "unat ?lo \<le> unat freq" "unat freq < unat ?hi"
      "dec_advance (rc_range enc div PROB_TOTAL) ?lo ?hi dec = Some dec'" "tracks F e1 dec'"
    by (rule tracks_step [OF Cons.prems(3) lohi e1(1) no hits])
  have freq: "unat freq < 32768" using d(3) lohi(2) by (simp add: word_le_nat_alt)
  have "in_interval (cdf s) (unat b) freq" using d(2,3) by (simp add: in_interval_def)
  note sym = decode_ok [OF Cons.prems(1) freq this] update_sync [OF Cons.prems(1) freq this]
  have "decode_symbols P (length (b # data)) dec out s
      = decode_symbols P (length data) dec' (out @ [b]) (next s b)"
    using sym d(1,4) by (cases "decode_symbol P freq s") auto
  then show ?case using Cons.IH [OF g e1(2) d(5), of "out @ [b]"] by simp
qed

text \<open>Blocks round-trip whenever the encoder reports no overflow.\<close>

lemma decode_encode_inner:
  assumes "good s" "encode_block_inner P data rst s = Some (Inr compressed, s')"
    "length data \<le> MAX_DECODE_SIZE"
    "same_coding P (if rst then reset_state P s2 else s2) (if rst then reset_state P s else s)"
  shows "\<exists>s2'. decode_block_inner P compressed (length data) rst s2 = Some (Inr data, s2')
    \<and> (data \<noteq> [] \<longrightarrow> s2' = s')"
proof (cases "data = []")
  case True
  then show ?thesis by (simp add: decode_block_inner_def)
next
  case False
  let ?s = "if rst then reset_state P s else s"
  have g: "good ?s" using assms(1) reset_good by simp
  obtain final where f: "encode_symbols P data range_encoder_new ?s = Some (final, s')"
      "enc_finish final = Inr compressed"
    using assms(2) False
    by (auto simp: encode_block_inner_def split: option.splits sum.splits prod.splits)
  have no: "\<not> rc_cache_overflow final"
  proof
    assume "rc_cache_overflow final"
    then have "rc_cache_overflow ((shift_low ^^ n) final)" for n
      by (induction n) (auto intro: shift_low_overflow)
    with f(2) show False by (simp add: enc_finish_def Let_def)
  qed
  note later = encode_symbols_nested [OF g enc_inv_new f(1) no]
  have "hits compressed range_encoder_new"
    by (rule hits_nested) (use later f(2) in auto)
  then have "tracks compressed range_encoder_new (range_decoder_new compressed)" by (rule tracks_new)
  from decode_symbols_encode [OF g f(1) no f(2) this, of "[]"]
  obtain dec' where d: "decode_symbols P (length data) (range_decoder_new compressed) [] ?s
      = Some (dec', data, s')" "rd_eof_overread dec' = 0" by auto
  have "compressed \<noteq> []" using enc_finish_value [OF _ f(2)] later by auto
  then show ?thesis
    using d False assms(3) same_coding_decode [OF assms(4), of "length data"] by (simp add: decode_block_inner_def)
qed

text \<open>The coder returns for every block, and without error up to eight million bytes.\<close>

lemma encode_inner_returns:
  assumes "good s"
  shows "\<exists>r. encode_block_inner P data rst s = Some r"
proof -
  have "good (if rst then reset_state P s else s)" using assms reset_good by simp
  from encode_symbols_returns [OF this, of range_encoder_new data]
  show ?thesis using enc_inv_new by (auto simp: encode_block_inner_def enc_inv_def)
qed

lemma encode_symbols_no_overflow:
  assumes "good s" "enc_inv enc" "\<not> rc_cache_overflow enc"
    "enc_digits enc + 2 * length data \<le> 2 ^ 24" "encode_symbols P data enc s = Some (enc', s')"
  shows "\<not> rc_cache_overflow enc' \<and> enc_digits enc' \<le> enc_digits enc + 2 * length data"
  using assms
proof (induction data arbitrary: enc s)
  case (Cons b data)
  note lohi = cdf_bounds [OF Cons.prems(1), of b]
  obtain e1 where e1: "encode_interval (cdf s ! unat b) (cdf s ! (unat b + 1)) enc = Some e1"
      "encode_symbols P data e1 (next s b) = Some (enc', s')"
    using Cons.prems(5) unfolding encode_symbols_Cons [OF Cons.prems(1)]
    by (auto split: option.splits)
  have "enc_inv e1 \<and> \<not> rc_cache_overflow e1 \<and> enc_digits e1 \<le> enc_digits enc + 2"
    by (rule encode_interval_result [OF Cons.prems(2) lohi]) (use e1(1) Cons.prems(3,4) in auto)
  then show ?case
    using Cons.IH [OF update_good [OF Cons.prems(1)] _ _ _ e1(2)] Cons.prems(4) by auto
qed simp

lemma finish_no_overflow:
  assumes "enc_inv enc" "\<not> rc_cache_overflow enc" "enc_digits enc + 5 \<le> 2 ^ 24"
  shows "\<exists>F. enc_finish enc = Inr F"
proof -
  have "\<not> rc_cache_overflow ((shift_low ^^ n) enc) \<and> 1 \<le> rc_cache_size ((shift_low ^^ n) enc)
      \<and> enc_digits ((shift_low ^^ n) enc) = enc_digits enc + n" if "n \<le> 5" for n
    using that
  proof (induction n)
    case 0
    then show ?case using assms by (simp add: enc_inv_def carry_safe_def)
  next
    case (Suc n)
    let ?e = "(shift_low ^^ n) enc"
    have IH: "\<not> rc_cache_overflow ?e" "1 \<le> rc_cache_size ?e" "enc_digits ?e = enc_digits enc + n"
      using Suc by auto
    then have no: "\<not> rc_cache_overflow (shift_low ?e)"
      using Suc.prems assms(3) cache_size_le_digits [of ?e] by (intro shift_low_no_overflow) auto
    then show ?case
      using length_output_shift_low [OF no IH(2)] IH(3) shift_low_cache_size [of ?e]
      by (simp add: enc_digits_def)
  qed
  from this [of 5] show ?thesis by (simp add: enc_finish_def Let_def)
qed

lemma encode_inner_succeeds:
  assumes "good s" "length data \<le> 2 ^ 23 - 3"
  shows "\<exists>compressed s'. encode_block_inner P data rst s = Some (Inr compressed, s')"
proof (cases "data = []")
  case True
  then show ?thesis by (simp add: encode_block_inner_def)
next
  case False
  let ?s = "if rst then reset_state P s else s"
  have g: "good ?s" using assms(1) reset_good by simp
  have "2 ^ 24 \<le> unat (rc_range range_encoder_new)" using enc_inv_new by (simp add: enc_inv_def)
  then obtain enc s' where e: "encode_symbols P data range_encoder_new ?s = Some (enc, s')"
    using encode_symbols_returns [OF g, of range_encoder_new data] by fastforce
  have n: "\<not> rc_cache_overflow enc" "enc_digits enc \<le> 1 + 2 * length data"
    using encode_symbols_no_overflow [OF g enc_inv_new _ _ e] assms(2) by (auto simp: enc_new_simps)
  have "enc_inv enc" using encode_symbols_nested [OF g enc_inv_new e n(1)] by simp
  then obtain F where "enc_finish enc = Inr F"
    using finish_no_overflow [OF _ n(1)] n(2) assms(2) by auto
  then show ?thesis using e False by (simp add: encode_block_inner_def)
qed

text \<open>Decoding returns on any input, and an accepted block has the announced length.\<close>

lemma decode_symbols_returns:
  assumes "good s" "2 ^ 24 \<le> unat (rd_range dec)"
  shows "\<exists>dec' out' s'. decode_symbols P n dec out s = Some (dec', out', s') \<and> length out' = length out + n"
  using assms
proof (induction n arbitrary: dec out s)
  case (Suc n)
  let ?freq = "min (rd_code dec div (rd_range dec div PROB_TOTAL)) (PROB_TOTAL - 1)"
  have d: "decode_freq dec = (rd_range dec div PROB_TOTAL, ?freq)" by (simp add: decode_freq_def Let_def)
  have "?freq \<le> PROB_TOTAL - 1" by simp
  then have freq: "unat ?freq < 32768" by (simp add: PROB_TOTAL_def PROB_BITS_def word_le_nat_alt)
  define t where "t = find_symbol (cdf s) ?freq"
  have t: "in_interval (cdf s) t ?freq"
    unfolding t_def by (rule find_symbol_correct [OF cdf_ok [OF Suc.prems(1)] freq])
  define b :: u8 where "b = of_nat t"
  have b: "unat b = t" using t by (simp add: b_def in_interval_def unat_of_nat)
  note lohi = cdf_bounds [OF Suc.prems(1), of b, unfolded b]
  obtain dec' where dec': "dec_advance (rd_range dec div PROB_TOTAL) (cdf s ! t) (cdf s ! (t + 1)) dec = Some dec'"
      "2 ^ 24 \<le> unat (rd_range dec')"
    using dec_advance_returns [OF Suc.prems(2) lohi] by blast
  have sync: "update_byte P b (snd (decode_symbol P ?freq s)) = next s b"
    using update_sync [OF Suc.prems(1) freq, of b] t b by simp
  have "decode_symbols P (Suc n) dec out s = decode_symbols P n dec' (out @ [b]) (next s b)"
    using decode_ok [OF Suc.prems(1) freq t] sync dec'(1) unfolding decode_symbols.simps d
    by (cases "decode_symbol P ?freq s") (auto simp: b_def)
  then show ?case
    using Suc.IH [OF update_good [OF Suc.prems(1)] dec'(2), of "out @ [b]" b] by simp
qed simp

lemma decode_inner_returns:
  assumes "good s"
  shows "\<exists>r s'. decode_block_inner P compressed n rst s = Some (r, s')
    \<and> (\<forall>out. r = Inr out \<longrightarrow> length out = n \<and> n \<le> MAX_DECODE_SIZE)"
proof -
  have g: "good (if rst then reset_state P s else s)" using assms reset_good by simp
  obtain dec out s' where "decode_symbols P n (range_decoder_new compressed) []
      (if rst then reset_state P s else s) = Some (dec, out, s')" "length out = n"
    using decode_symbols_returns [OF g, of "range_decoder_new compressed" n "[]"]
    by (auto simp: range_decoder_new_range)
  then show ?thesis by (auto simp: decode_block_inner_def not_less)
qed

end

section \<open>The default methods meet the contract\<close>

locale cdf_predictor =
  fixes predict_cdf :: "'s \<Rightarrow> u16 list \<times> 's" and update :: "u8 \<Rightarrow> 's \<Rightarrow> 's"
    and reset :: "'s \<Rightarrow> 's" and good :: "'s \<Rightarrow> bool" and cdf :: "'s \<Rightarrow> u16 list"
  assumes reset_ok: "good s \<Longrightarrow> good (reset s)"
    and table_ok: "good s \<Longrightarrow> cdf_table (cdf s)"
    and predict_ok: "good s \<Longrightarrow> fst (predict_cdf s) = cdf s"
    and update_ok: "good s \<Longrightarrow> good (update b (snd (predict_cdf s)))"

sublocale cdf_predictor \<subseteq> default: lawful_predictor "default_predictor predict_cdf update reset" good cdf
proof
  fix s assume g: "good s"
  show "good (reset_state (default_predictor predict_cdf update reset) s)"
    by (simp add: default_predictor_def reset_ok [OF g])
  show "cdf_table (cdf s)" by (rule table_ok [OF g])
  show "fst (query_cdf (default_predictor predict_cdf update reset) b s)
      = (cdf s ! unat b, cdf s ! (unat b + 1))" for b
    using predict_ok [OF g]
    by (cases "predict_cdf s") (simp add: default_predictor_def default_query_cdf_def Let_def)
  show "good (update_byte (default_predictor predict_cdf update reset) b
      (snd (query_cdf (default_predictor predict_cdf update reset) b s)))" for b
    using update_ok [OF g, of b]
    by (cases "predict_cdf s") (simp add: default_predictor_def default_query_cdf_def Let_def)
  fix freq :: u32 assume f: "unat freq < 32768"
  show "fst (decode_symbol (default_predictor predict_cdf update reset) freq s)
      = (of_nat t, cdf s ! t, cdf s ! (t + 1))" if "in_interval (cdf s) t freq" for t
  proof -
    have "find_symbol (cdf s) freq = t"
      using find_symbol_correct [OF table_ok [OF g] f] that in_interval_unique [OF table_ok [OF g]]
      by blast
    then show ?thesis
      using predict_ok [OF g]
      by (cases "predict_cdf s") (simp add: default_predictor_def default_decode_symbol_def)
  qed
  show "update_byte (default_predictor predict_cdf update reset) b
        (snd (decode_symbol (default_predictor predict_cdf update reset) freq s))
      = update_byte (default_predictor predict_cdf update reset) b
        (snd (query_cdf (default_predictor predict_cdf update reset) b s))" for b
    by (cases "predict_cdf s")
      (simp add: default_predictor_def default_decode_symbol_def default_query_cdf_def Let_def)
qed

end
