(* ===== verification/Floats.thy ===== *)
theory Floats
  imports Complex_Main Prelude
begin

text \<open>
  IEEE 754 binary floating point, as the \<^verbatim>\<open>f32\<close> and \<^verbatim>\<open>f64\<close> of the predictors compute it:
  a number is a sign and an exact magnitude, every operation rounds its exact result to the nearest
  representable one, ties to even, and overflows to an infinity. The operations are those the code
  uses, with their results on NaN, infinities and signed zeros. The lemmas reduce the proofs about
  the code to three facts of rounding: it is monotone, exact on representable numbers, and close.
\<close>

section \<open>Formats\<close>

record float_format =
  prec :: nat
  emin :: int
  emax :: int

definition f32 :: float_format where "f32 = \<lparr>prec = 24, emin = -149, emax = 104\<rparr>"
definition f64 :: float_format where "f64 = \<lparr>prec = 53, emin = -1074, emax = 971\<rparr>"

definition pow2 :: "int \<Rightarrow> rat" where
  "pow2 e = (if 0 \<le> e then 2 ^ nat e else 1 / 2 ^ nat (- e))"

definition float_max :: "float_format \<Rightarrow> rat" where
  "float_max F = (2 ^ prec F - 1) * pow2 (emax F)"

datatype float_value = NaN | Inf bool | Num bool rat

definition val :: "float_value \<Rightarrow> rat" where
  "val x = (case x of Num s q \<Rightarrow> if s then - q else q | _ \<Rightarrow> 0)"

section \<open>Rounding\<close>

fun bit_length :: "nat \<Rightarrow> nat" where
  "bit_length n = (if n = 0 then 0 else Suc (bit_length (n div 2)))"

declare bit_length.simps [simp del]

definition ilog2 :: "rat \<Rightarrow> int" where
  "ilog2 q = (let (a, b) = quotient_of q;
                  l = int (bit_length (nat a)) - int (bit_length (nat b))
              in if pow2 l \<le> q then l else l - 1)"

definition round_even :: "rat \<Rightarrow> int" where
  "round_even k = (let n = \<lfloor>k\<rfloor>; d = k - of_int n
                   in if d < 1 / 2 then n else if 1 / 2 < d then n + 1 else if even n then n else n + 1)"

definition ulp_exp :: "float_format \<Rightarrow> rat \<Rightarrow> int" where
  "ulp_exp F q = max (ilog2 q + 1 - int (prec F)) (emin F)"

definition round_mag :: "float_format \<Rightarrow> rat \<Rightarrow> rat" where
  "round_mag F q =
     (if q \<le> 0 then 0 else of_int (round_even (q / pow2 (ulp_exp F q))) * pow2 (ulp_exp F q))"

definition rnd :: "float_format \<Rightarrow> rat \<Rightarrow> rat" where
  "rnd F q = (if q < 0 then - round_mag F (- q) else round_mag F q)"

text \<open>The sign only matters for a zero result, where the exact value has none.\<close>

definition fl_round :: "float_format \<Rightarrow> bool \<Rightarrow> rat \<Rightarrow> float_value" where
  "fl_round F zero_sign q =
     (let s = (if q = 0 then zero_sign else q < 0); m = round_mag F \<bar>q\<bar>
      in if m > float_max F then Inf s else Num s m)"

section \<open>Operations\<close>

definition fl_lit :: "float_format \<Rightarrow> rat \<Rightarrow> float_value" where "fl_lit F q = fl_round F False q"
definition fl_nat :: "float_format \<Rightarrow> nat \<Rightarrow> float_value" where "fl_nat F n = fl_round F False (of_nat n)"

fun fl_neg :: "float_value \<Rightarrow> float_value" where
  "fl_neg NaN = NaN" | "fl_neg (Inf s) = Inf (\<not> s)" | "fl_neg (Num s q) = Num (\<not> s) q"

fun fl_abs :: "float_value \<Rightarrow> float_value" where
  "fl_abs NaN = NaN" | "fl_abs (Inf s) = Inf False" | "fl_abs (Num s q) = Num False q"

fun fl_add :: "float_format \<Rightarrow> float_value \<Rightarrow> float_value \<Rightarrow> float_value" where
  "fl_add F NaN y = NaN"
| "fl_add F x NaN = NaN"
| "fl_add F (Inf s) (Inf t) = (if s = t then Inf s else NaN)"
| "fl_add F (Inf s) (Num t b) = Inf s"
| "fl_add F (Num s a) (Inf t) = Inf t"
| "fl_add F (Num s a) (Num t b) =
     fl_round F (s \<and> t) (val (Num s a) + val (Num t b))"

definition fl_sub :: "float_format \<Rightarrow> float_value \<Rightarrow> float_value \<Rightarrow> float_value" where
  "fl_sub F x y = fl_add F x (fl_neg y)"

fun fl_mul :: "float_format \<Rightarrow> float_value \<Rightarrow> float_value \<Rightarrow> float_value" where
  "fl_mul F NaN y = NaN"
| "fl_mul F x NaN = NaN"
| "fl_mul F (Inf s) (Inf t) = Inf (s \<noteq> t)"
| "fl_mul F (Inf s) (Num t b) = (if b = 0 then NaN else Inf (s \<noteq> t))"
| "fl_mul F (Num s a) (Inf t) = (if a = 0 then NaN else Inf (s \<noteq> t))"
| "fl_mul F (Num s a) (Num t b) = fl_round F (s \<noteq> t) (val (Num s a) * val (Num t b))"

fun fl_div :: "float_format \<Rightarrow> float_value \<Rightarrow> float_value \<Rightarrow> float_value" where
  "fl_div F NaN y = NaN"
| "fl_div F x NaN = NaN"
| "fl_div F (Inf s) (Inf t) = NaN"
| "fl_div F (Inf s) (Num t b) = Inf (s \<noteq> t)"
| "fl_div F (Num s a) (Inf t) = Num (s \<noteq> t) 0"
| "fl_div F (Num s a) (Num t b) =
     (if b = 0 then if a = 0 then NaN else Inf (s \<noteq> t)
      else fl_round F (s \<noteq> t) (val (Num s a) / val (Num t b)))"

fun fl_less :: "float_value \<Rightarrow> float_value \<Rightarrow> bool" where
  "fl_less NaN y = False"
| "fl_less x NaN = False"
| "fl_less (Inf s) (Inf t) = (s \<and> \<not> t)"
| "fl_less (Inf s) (Num t b) = s"
| "fl_less (Num s a) (Inf t) = (\<not> t)"
| "fl_less (Num s a) (Num t b) = (val (Num s a) < val (Num t b))"

fun fl_le :: "float_value \<Rightarrow> float_value \<Rightarrow> bool" where
  "fl_le NaN y = False"
| "fl_le x NaN = False"
| "fl_le (Inf s) (Inf t) = (s \<or> \<not> t)"
| "fl_le (Inf s) (Num t b) = s"
| "fl_le (Num s a) (Inf t) = (\<not> t)"
| "fl_le (Num s a) (Num t b) = (val (Num s a) \<le> val (Num t b))"

fun is_finite :: "float_value \<Rightarrow> bool" where
  "is_finite (Num s q) = True" | "is_finite _ = False"

text \<open>\<^verbatim>\<open>max\<close> and \<^verbatim>\<open>min\<close> return the other argument of a NaN; \<^verbatim>\<open>clamp\<close> keeps a NaN.\<close>

definition fl_max :: "float_value \<Rightarrow> float_value \<Rightarrow> float_value" where
  "fl_max x y = (if x = NaN then y else if y = NaN then x else if fl_less x y then y else x)"

definition fl_min :: "float_value \<Rightarrow> float_value \<Rightarrow> float_value" where
  "fl_min x y = (if x = NaN then y else if y = NaN then x else if fl_less y x then y else x)"

definition fl_clamp :: "float_value \<Rightarrow> float_value \<Rightarrow> float_value \<Rightarrow> float_value" where
  "fl_clamp lo hi x = (let x = (if fl_less x lo then lo else x) in if fl_less hi x then hi else x)"

fun fl_cast :: "float_format \<Rightarrow> float_value \<Rightarrow> float_value" where
  "fl_cast F NaN = NaN"
| "fl_cast F (Inf s) = Inf s"
| "fl_cast F (Num s q) = fl_round F s (val (Num s q))"

fun fl_floor :: "float_value \<Rightarrow> float_value" where
  "fl_floor NaN = NaN"
| "fl_floor (Inf s) = Inf s"
| "fl_floor (Num s q) = Num s \<bar>of_int \<lfloor>val (Num s q)\<rfloor>\<bar>"

text \<open>\<^verbatim>\<open>x as u32\<close> and its kin: truncated towards zero, saturating, zero for a NaN.\<close>

fun fl_to_nat :: "nat \<Rightarrow> float_value \<Rightarrow> nat" where
  "fl_to_nat bits NaN = 0"
| "fl_to_nat bits (Inf s) = (if s then 0 else 2 ^ bits - 1)"
| "fl_to_nat bits (Num s q) = min (nat \<lfloor>val (Num s q)\<rfloor>) (2 ^ bits - 1)"

section \<open>Powers of two\<close>

lemma pow2_pos [simp]: "0 < pow2 e" by (simp add: pow2_def)

lemma pow2_nonneg [simp]: "0 \<le> pow2 e" by (rule less_imp_le) simp

lemma pow2_nonzero [simp]: "pow2 e \<noteq> 0" using pow2_pos [of e] by linarith

lemma pow2_nat: "pow2 (int n) = 2 ^ n" by (simp add: pow2_def)

lemma pow2_diff_nat: "pow2 (int a - int b) = 2 ^ a / 2 ^ b"
proof (cases "b \<le> a")
  case True
  then show ?thesis by (simp add: pow2_def power_diff flip: of_nat_diff)
next
  case False
  then have "nat (int b - int a) = b - a" by simp
  moreover have "(2 :: rat) ^ b = 2 ^ a * 2 ^ (b - a)" using False by (simp flip: power_add)
  ultimately show ?thesis using False by (simp add: pow2_def)
qed

lemma pow2_form: "\<exists>a b. e = int a - int b"
  using int_diff_cases by blast

lemma pow2_add: "pow2 (d + e) = pow2 d * pow2 e"
proof -
  obtain a b where d: "d = int a - int b" using pow2_form by blast
  obtain a' b' where e: "e = int a' - int b'" using pow2_form by blast
  have "d + e = int (a + a') - int (b + b')" by (simp add: d e)
  then show ?thesis by (simp only: pow2_diff_nat d e) (simp add: power_add)
qed

lemma pow2_Suc: "pow2 (e + 1) = 2 * pow2 e"
  by (simp add: pow2_add) (simp add: pow2_def)

lemma pow2_ge_1: "0 \<le> e \<Longrightarrow> 1 \<le> pow2 e" by (simp add: pow2_def)

lemma pow2_mono: "d \<le> e \<Longrightarrow> pow2 d \<le> pow2 e"
  using pow2_add [of d "e - d"] pow2_ge_1 [of "e - d"] mult_left_mono [of 1 "pow2 (e - d)" "pow2 d"]
  by simp

lemma pow2_less: "pow2 d < pow2 e \<Longrightarrow> d < e"
  using pow2_mono [of e d] by linarith

section \<open>Binary logarithm\<close>

lemma bit_length_bounds: "0 < n \<Longrightarrow> 2 ^ (bit_length n - 1) \<le> n \<and> n < 2 ^ bit_length n \<and> 0 < bit_length n"
proof (induction n rule: bit_length.induct)
  case (1 n)
  show ?case
  proof (cases "n = 1")
    case True
    then show ?thesis by (simp add: bit_length.simps)
  next
    case False
    then have "0 < n div 2" "n \<noteq> 0" using 1(2) by simp_all
    with 1(1) have "2 ^ (bit_length (n div 2) - 1) \<le> n div 2" "n div 2 < 2 ^ bit_length (n div 2)"
      "0 < bit_length (n div 2)" by simp_all
    moreover have "bit_length n = Suc (bit_length (n div 2))"
      using 1(2) by (subst bit_length.simps) simp
    moreover have "n < 2 * (n div 2) + 2" "2 * (n div 2) \<le> n" by linarith+
    moreover have "(2 :: nat) ^ bit_length (n div 2) = 2 * 2 ^ (bit_length (n div 2) - 1)"
      using calculation(3) by (cases "bit_length (n div 2)") simp_all
    ultimately show ?thesis by (simp del: div_mult2_eq) linarith
  qed
qed

lemma ilog2_bounds:
  assumes "0 < q"
  shows "pow2 (ilog2 q) \<le> q \<and> q < pow2 (ilog2 q + 1)"
proof -
  obtain a b where ab: "quotient_of q = (a, b)" by fastforce
  have b: "0 < b" by (rule quotient_of_denom_pos [OF ab])
  have q: "q = of_int a / of_int b" by (rule quotient_of_div [OF ab])
  have a: "0 < a" using assms b by (simp add: q zero_less_divide_iff)
  obtain m n where mn: "a = int m" "b = int n" "0 < m" "0 < n"
    using a b by (metis nonneg_int_cases less_imp_le of_nat_0_less_iff)
  have q': "q = of_nat m / of_nat n" by (simp add: q mn)
  note bm = bit_length_bounds [OF mn(3)] and bn = bit_length_bounds [OF mn(4)]
  define la where "la = bit_length m"
  define lb where "lb = bit_length n"
  have lift: "2 ^ k \<le> n \<Longrightarrow> (2 :: rat) ^ k \<le> of_nat n" "n < 2 ^ k \<Longrightarrow> of_nat n < (2 :: rat) ^ k" for k n
    by (metis of_nat_le_iff of_nat_numeral of_nat_power, metis of_nat_less_iff of_nat_numeral of_nat_power)
  have m: "(2 :: rat) ^ (la - 1) \<le> of_nat m" "of_nat m < (2 :: rat) ^ la"
    using bm lift unfolding la_def by blast+
  have n: "(2 :: rat) ^ (lb - 1) \<le> of_nat n" "of_nat n < (2 :: rat) ^ lb"
    using bn lift unfolding lb_def by blast+
  have l: "0 < la" "0 < lb" using bm bn by (simp_all add: la_def lb_def)
  have pos: "(0 :: rat) < of_nat n" using mn by simp
  have lo: "pow2 (int (la - 1) - int lb) \<le> q"
    unfolding q' pow2_diff_nat by (rule frac_le) (use m n pos in simp_all)
  have hi: "q < pow2 (int la - int (lb - 1))"
    unfolding q' pow2_diff_nat by (rule frac_less) (use m n pos in simp_all)
  have e: "int (la - 1) - int lb = int la - int lb - 1" "int la - int (lb - 1) = int la - int lb + 1"
    using l by auto
  have "ilog2 q = (if pow2 (int la - int lb) \<le> q then int la - int lb else int la - int lb - 1)"
    by (simp add: ilog2_def ab mn la_def lb_def)
  then show ?thesis using lo hi unfolding e by (cases "pow2 (int la - int lb) \<le> q") simp_all
qed

lemma ilog2_mono:
  assumes "0 < q" "q \<le> r"
  shows "ilog2 q \<le> ilog2 r"
proof -
  have "pow2 (ilog2 q) < pow2 (ilog2 r + 1)"
    using ilog2_bounds [of q] ilog2_bounds [of r] assms by (auto intro: order_le_less_trans)
  then show ?thesis using pow2_less by fastforce
qed

lemma ilog2_eqI: "pow2 e \<le> q \<Longrightarrow> q < pow2 (e + 1) \<Longrightarrow> ilog2 q = e"
proof -
  assume e: "pow2 e \<le> q" "q < pow2 (e + 1)"
  have p: "0 < q" using e(1) pow2_pos [of e] by linarith
  have "pow2 e < pow2 (ilog2 q + 1)" "pow2 (ilog2 q) < pow2 (e + 1)"
    using ilog2_bounds [OF p] e by linarith+
  then have "e < ilog2 q + 1" "ilog2 q < e + 1" by (auto dest: pow2_less)
  then show "ilog2 q = e" by simp
qed

section \<open>Rounding is monotone, exact and close\<close>

lemma round_even_of_int [simp]: "round_even (of_int n) = n"
  by (simp add: round_even_def)

lemma round_even_close: "\<bar>of_int (round_even k) - k\<bar> \<le> 1 / 2"
proof -
  have "of_int \<lfloor>k\<rfloor> \<le> k" "k < of_int \<lfloor>k\<rfloor> + 1" by linarith+
  then show ?thesis by (auto simp: round_even_def Let_def)
qed

lemma round_even_mono: "k \<le> l \<Longrightarrow> round_even k \<le> round_even l"
proof -
  assume kl: "k \<le> l"
  have f: "\<lfloor>k\<rfloor> \<le> \<lfloor>l\<rfloor>" by (rule floor_mono [OF kl])
  show ?thesis
  proof (cases "\<lfloor>k\<rfloor> = \<lfloor>l\<rfloor>")
    case True
    then show ?thesis using kl by (auto simp: round_even_def Let_def)
  next
    case False
    have "round_even k \<le> \<lfloor>k\<rfloor> + 1" "\<lfloor>l\<rfloor> \<le> round_even l" by (auto simp: round_even_def Let_def)
    then show ?thesis using False f by linarith
  qed
qed

lemma round_even_between: "of_int a \<le> k \<Longrightarrow> k \<le> of_int b \<Longrightarrow> a \<le> round_even k \<and> round_even k \<le> b"
  using round_even_mono [of "of_int a" k] round_even_mono [of k "of_int b"] by simp

lemma round_mag_nonneg: "0 \<le> round_mag F q"
proof (cases "q \<le> 0")
  case False
  then have "0 \<le> q / pow2 (ulp_exp F q)" by simp
  then have "0 \<le> round_even (q / pow2 (ulp_exp F q))"
    using round_even_between [of 0 "q / pow2 (ulp_exp F q)" "\<lceil>q / pow2 (ulp_exp F q)\<rceil>"] by simp
  then show ?thesis using False by (simp add: round_mag_def)
qed (simp add: round_mag_def)

lemma ulp_exp_mono: "0 < q \<Longrightarrow> q \<le> r \<Longrightarrow> ulp_exp F q \<le> ulp_exp F r"
  using ilog2_mono by (fastforce simp: ulp_exp_def)

lemma round_mag_mono:
  assumes "q \<le> r" "0 < prec F"
  shows "round_mag F q \<le> round_mag F r"
proof (cases "q \<le> 0")
  case True
  then show ?thesis using round_mag_nonneg by (simp add: round_mag_def)
next
  case False
  then have q: "0 < q" and r: "0 < r" using assms by simp_all
  let ?e = "ulp_exp F q" and ?e' = "ulp_exp F r"
  show ?thesis
  proof (cases "?e = ?e'")
    case True
    have "q / pow2 ?e \<le> r / pow2 ?e" using assms by (simp add: divide_right_mono)
    then have "round_even (q / pow2 ?e) \<le> round_even (r / pow2 ?e)" by (rule round_even_mono)
    then show ?thesis using q r True by (simp add: round_mag_def)
  next
    case False
    then have less: "?e < ?e'" using ulp_exp_mono [OF q assms(1), of F] by simp
    then have e': "?e' = ilog2 r + 1 - int (prec F)" by (auto simp: ulp_exp_def)
    let ?p = "(2 :: rat) ^ prec F" and ?h = "(2 :: rat) ^ (prec F - 1)"
    have ph: "pow2 (int (prec F)) = ?p" "pow2 (int (prec F) - 1) = ?h"
      using assms(2) by (simp_all add: pow2_nat pow2_def nat_diff_distrib)
    have "q < pow2 (ilog2 q + 1)" using ilog2_bounds [OF q] by simp
    also have "\<dots> \<le> pow2 (int (prec F) + ?e)" by (rule pow2_mono) (simp add: ulp_exp_def)
    finally have "q / pow2 ?e \<le> of_int (2 ^ prec F)"
      by (simp add: pow2_add ph pos_divide_le_eq less_imp_le)
    then have "round_even (q / pow2 ?e) \<le> 2 ^ prec F"
      using round_even_mono [of "q / pow2 ?e" "of_int (2 ^ prec F)"] by (simp del: of_int_power)
    then have "of_int (round_even (q / pow2 ?e)) \<le> ?p"
      by (metis of_int_le_iff of_int_numeral of_int_power)
    then have 1: "round_mag F q \<le> ?p * pow2 ?e"
      using q by (simp add: round_mag_def mult_right_mono)
    have "pow2 (int (prec F) - 1 + ?e') = pow2 (ilog2 r)" by (simp add: e')
    then have "?h * pow2 ?e' \<le> r" using ilog2_bounds [OF r] unfolding pow2_add ph by simp
    then have "of_int (2 ^ (prec F - 1)) \<le> r / pow2 ?e'" by (simp add: pos_le_divide_eq)
    then have "2 ^ (prec F - 1) \<le> round_even (r / pow2 ?e')"
      using round_even_mono [of "of_int (2 ^ (prec F - 1))" "r / pow2 ?e'"] by (simp del: of_int_power)
    then have "?h \<le> of_int (round_even (r / pow2 ?e'))"
      by (metis of_int_le_iff of_int_numeral of_int_power)
    then have 2: "?h * pow2 ?e' \<le> round_mag F r"
      using r by (simp add: round_mag_def mult_right_mono)
    have "?p * pow2 ?e = pow2 (int (prec F) + ?e)" by (simp add: pow2_add ph)
    also have "\<dots> \<le> pow2 (int (prec F) - 1 + ?e')" using less by (intro pow2_mono) simp
    also have "\<dots> = ?h * pow2 ?e'" unfolding pow2_add ph ..
    finally show ?thesis using 1 2 by linarith
  qed
qed

text \<open>The magnitudes of the format, disregarding its upper limit.\<close>

definition rep :: "float_format \<Rightarrow> rat \<Rightarrow> bool" where
  "rep F q \<longleftrightarrow> (\<exists>n e. q = of_nat n * pow2 e \<and> n \<le> 2 ^ prec F \<and> emin F \<le> e)"

lemma repI: "q = of_nat n * pow2 e \<Longrightarrow> n \<le> 2 ^ prec F \<Longrightarrow> emin F \<le> e \<Longrightarrow> rep F q"
  unfolding rep_def by blast

lemma round_mag_dyadic:
  assumes "0 < q" "q = of_nat m * pow2 k" "ulp_exp F q \<le> k"
  shows "round_mag F q = q"
proof -
  let ?e = "ulp_exp F q" let ?n = "int m * 2 ^ nat (k - ?e)"
  have "pow2 k = pow2 (k - ?e) * pow2 ?e" by (simp flip: pow2_add)
  moreover have "pow2 (k - ?e) = 2 ^ nat (k - ?e)" using assms(3) by (simp add: pow2_def)
  ultimately have "q = of_int ?n * pow2 ?e" unfolding assms(2) by simp
  then have d: "q / pow2 ?e = of_int ?n" by (rule iffD2 [OF nonzero_divide_eq_eq [OF pow2_nonzero]])
  have "of_int (round_even (q / pow2 ?e)) = q / pow2 ?e" unfolding d round_even_of_int ..
  then show ?thesis using assms(1) by (simp add: round_mag_def)
qed

lemma round_mag_rep:
  assumes "rep F q" "0 < prec F"
  shows "round_mag F q = q"
proof -
  obtain n e where q: "q = of_nat n * pow2 e" "n \<le> 2 ^ prec F" "emin F \<le> e"
    using assms(1) unfolding rep_def by blast
  show ?thesis
  proof (cases "n = 0 \<or> n = 2 ^ prec F")
    case False
    then have pos: "0 < q" by (simp add: q(1))
    have "n < 2 ^ prec F" using False q(2) by simp
    then have "of_nat n < (of_nat (2 ^ prec F) :: rat)" by (simp only: of_nat_less_iff)
    then have "of_nat n < (2 :: rat) ^ prec F" by (simp only: of_nat_power of_nat_numeral)
    then have "q < pow2 (int (prec F) + e)" by (simp add: q(1) pow2_add pow2_nat)
    then have "pow2 (ilog2 q) < pow2 (int (prec F) + e)" using ilog2_bounds [OF pos] by linarith
    then have "ilog2 q < int (prec F) + e" by (rule pow2_less)
    then show ?thesis using q(3) by (intro round_mag_dyadic [OF pos q(1)]) (simp add: ulp_exp_def)
  next
    case True
    show ?thesis
    proof (cases "n = 0")
      case False
      then have n: "n = 2 ^ prec F" using True by simp
      have q': "q = pow2 (int (prec F) + e)" by (simp add: q(1) n pow2_add pow2_nat)
      then have pos: "0 < q" by simp
      have l: "ilog2 q = int (prec F) + e" unfolding q' by (rule ilog2_eqI) (simp_all add: pow2_Suc)
      have "int (prec F) + e = int (prec F - 1) + (e + 1)" using assms(2) by simp
      then have "q = of_nat (2 ^ (prec F - 1)) * pow2 (e + 1)"
        unfolding q' by (simp only: pow2_add pow2_nat of_nat_power of_nat_numeral)
      then show ?thesis by (rule round_mag_dyadic [OF pos]) (use q(3) in \<open>simp add: ulp_exp_def l\<close>)
    qed (simp add: q round_mag_def)
  qed
qed

lemma rep_round_mag:
  assumes "0 < prec F"
  shows "rep F (round_mag F q)"
proof (cases "q \<le> 0")
  case True
  then show ?thesis by (intro repI [of _ 0 "emin F"]) (simp_all add: round_mag_def)
next
  case False
  let ?e = "ulp_exp F q"
  have pos: "0 < q" using False by simp
  have "q < pow2 (ilog2 q + 1)" using ilog2_bounds [OF pos] by simp
  also have "\<dots> \<le> pow2 (int (prec F) + ?e)" by (rule pow2_mono) (simp add: ulp_exp_def)
  finally have "q / pow2 ?e \<le> of_int (2 ^ prec F)"
    by (simp add: pow2_add pow2_nat pos_divide_le_eq less_imp_le)
  moreover have "of_int 0 \<le> q / pow2 ?e" using pos by simp
  ultimately have r: "0 \<le> round_even (q / pow2 ?e)" "round_even (q / pow2 ?e) \<le> 2 ^ prec F"
    using round_even_between by blast+
  then obtain n where n: "round_even (q / pow2 ?e) = int n" using nonneg_int_cases by blast
  show ?thesis
  proof (rule repI [of _ n ?e])
    show "round_mag F q = of_nat n * pow2 ?e" using pos by (simp add: round_mag_def n)
    show "n \<le> 2 ^ prec F" using r(2) unfolding n by (metis of_nat_le_iff of_nat_numeral of_nat_power)
  qed (simp add: ulp_exp_def)
qed

lemma round_mag_close:
  assumes "pow2 (emin F + int (prec F) - 1) \<le> q"
  shows "\<bar>round_mag F q - q\<bar> \<le> q * pow2 (- int (prec F))"
proof -
  have pos: "0 < q" using assms pow2_pos less_le_trans by blast
  let ?e = "ulp_exp F q"
  have "pow2 (emin F + int (prec F) - 1) < pow2 (ilog2 q + 1)"
    using ilog2_bounds [OF pos] assms by linarith
  then have e: "?e = ilog2 q + 1 - int (prec F)" using pow2_less by (fastforce simp: ulp_exp_def)
  let ?k = "q / pow2 ?e"
  have "round_mag F q - q = (of_int (round_even ?k) - ?k) * pow2 ?e"
    using pos by (simp add: round_mag_def algebra_simps)
  then have "\<bar>round_mag F q - q\<bar> = \<bar>of_int (round_even ?k) - ?k\<bar> * pow2 ?e" by (simp add: abs_mult)
  also have "\<dots> \<le> 1 / 2 * pow2 ?e" by (intro mult_right_mono round_even_close) simp
  also have "\<dots> = pow2 (ilog2 q) * pow2 (- int (prec F))"
    using pow2_Suc [of "ilog2 q - int (prec F)"] by (simp add: e algebra_simps flip: pow2_add)
  also have "\<dots> \<le> q * pow2 (- int (prec F))" using ilog2_bounds [OF pos] by (intro mult_right_mono) simp_all
  finally show ?thesis .
qed

section \<open>Signed values\<close>

definition fin :: "float_value \<Rightarrow> bool" where
  "fin x \<longleftrightarrow> (case x of Num s q \<Rightarrow> 0 \<le> q | _ \<Rightarrow> False)"

definition between :: "rat \<Rightarrow> rat \<Rightarrow> float_value \<Rightarrow> bool" where
  "between a b x \<longleftrightarrow> fin x \<and> a \<le> val x \<and> val x \<le> b"

text \<open>A representable number, usable as a bound.\<close>

definition bound :: "float_format \<Rightarrow> rat \<Rightarrow> bool" where
  "bound F q \<longleftrightarrow> rep F \<bar>q\<bar> \<and> \<bar>q\<bar> \<le> float_max F"

definition wf_format :: "float_format \<Rightarrow> bool" where
  "wf_format F \<longleftrightarrow> 24 \<le> prec F \<and> emin F \<le> -149 \<and> 104 \<le> emax F"

lemma wf_formats [simp]: "wf_format f32" "wf_format f64"
  by (simp_all add: wf_format_def f32_def f64_def)

lemma wf_prec: "wf_format F \<Longrightarrow> 0 < prec F" by (simp add: wf_format_def)

lemma finE: assumes "fin x" obtains s q where "x = Num s q" "0 \<le> q"
  using assms by (auto simp: fin_def split: float_value.splits)

lemma fin_Num [simp]: "fin (Num s q) \<longleftrightarrow> 0 \<le> q" "\<not> fin NaN" "\<not> fin (Inf s)"
  by (simp_all add: fin_def)

lemma fin_finite: "fin x \<Longrightarrow> is_finite x" by (auto elim: finE)

lemma val_Num: "val (Num s q) = (if s then - q else q)" by (simp add: val_def)

lemma between_fin: "between a b x \<Longrightarrow> fin x" by (simp add: between_def)

lemma between_mono: "between a b x \<Longrightarrow> a' \<le> a \<Longrightarrow> b \<le> b' \<Longrightarrow> between a' b' x"
  by (auto simp: between_def)

lemma round_mag_0 [simp]: "round_mag F 0 = 0" by (simp add: round_mag_def)

lemma rnd_neg: "rnd F (- q) = - rnd F q"
  by (cases "q = 0") (auto simp: rnd_def)

lemma rnd_0 [simp]: "rnd F 0 = 0" by (simp add: rnd_def)

lemma abs_rnd: "\<bar>rnd F q\<bar> = round_mag F \<bar>q\<bar>"
  using round_mag_nonneg [of F "- q"] round_mag_nonneg [of F q] by (auto simp: rnd_def abs_if)

lemma rnd_mono: "q \<le> r \<Longrightarrow> wf_format F \<Longrightarrow> rnd F q \<le> rnd F r"
  using round_mag_mono [of q r F] round_mag_mono [of "- r" "- q" F]
    round_mag_nonneg [of F "- q"] round_mag_nonneg [of F r] wf_prec [of F]
  by (auto simp: rnd_def)

lemma rnd_bound: "bound F q \<Longrightarrow> wf_format F \<Longrightarrow> rnd F q = q"
  using round_mag_rep [of F "\<bar>q\<bar>"] wf_prec by (auto simp: bound_def rnd_def abs_if split: if_splits)

lemma rnd_close:
  assumes "pow2 (emin F + int (prec F) - 1) \<le> q"
  shows "rnd F q \<le> q * (1 + pow2 (- int (prec F)))" "q * (1 - pow2 (- int (prec F))) \<le> rnd F q"
proof -
  have "0 < q" using assms pow2_pos less_le_trans by blast
  then have "\<bar>rnd F q - q\<bar> \<le> q * pow2 (- int (prec F))" using round_mag_close [OF assms] by (simp add: rnd_def)
  then show "rnd F q \<le> q * (1 + pow2 (- int (prec F)))" "q * (1 - pow2 (- int (prec F))) \<le> rnd F q"
    by (simp_all add: algebra_simps abs_le_iff)
qed

lemma rep_rnd: "wf_format F \<Longrightarrow> rep F \<bar>rnd F q\<bar>"
  by (simp add: abs_rnd rep_round_mag wf_prec)

lemma rnd_between:
  "wf_format F \<Longrightarrow> bound F a \<Longrightarrow> bound F b \<Longrightarrow> a \<le> q \<Longrightarrow> q \<le> b \<Longrightarrow> a \<le> rnd F q \<and> rnd F q \<le> b"
  using rnd_mono [of a q F] rnd_mono [of q b F] rnd_bound [of F a] rnd_bound [of F b] by simp

lemma fl_round_val:
  "fin (fl_round F s q) \<Longrightarrow> val (fl_round F s q) = rnd F q"
  by (cases "q = 0") (auto simp: fl_round_def Let_def rnd_def val_Num fin_def split: if_splits)

lemma fl_round_fin: "\<bar>rnd F q\<bar> \<le> float_max F \<Longrightarrow> fin (fl_round F s q)"
  using round_mag_nonneg [of F "\<bar>q\<bar>"] by (simp add: fl_round_def Let_def abs_rnd)

lemma fl_round_between:
  assumes "wf_format F" "bound F a" "bound F b" "a \<le> q" "q \<le> b"
  shows "between a b (fl_round F s q)"
proof -
  have r: "a \<le> rnd F q" "rnd F q \<le> b" using rnd_between [OF assms] by simp_all
  moreover have "\<bar>rnd F q\<bar> \<le> float_max F" using r assms(2,3) by (auto simp: bound_def)
  ultimately show ?thesis using fl_round_fin fl_round_val by (simp add: between_def)
qed

section \<open>Bounds\<close>

lemma pow2_neg_nat: "pow2 (- int k) = 1 / 2 ^ k"
  using pow2_diff_nat [of 0 k] by simp

lemma float_max_large: "wf_format F \<Longrightarrow> 2 ^ 127 \<le> float_max F"
proof -
  assume F: "wf_format F"
  have "(2 :: rat) ^ 23 * 2 \<le> 2 ^ prec F"
    using power_increasing [of 24 "prec F" "2 :: rat"] F by (simp add: wf_format_def)
  then have "(2 :: rat) ^ 23 \<le> 2 ^ prec F - 1" by simp
  moreover have "(2 :: rat) ^ 104 \<le> pow2 (emax F)"
    using pow2_mono [of 104 "emax F"] F by (simp add: wf_format_def pow2_def)
  ultimately have "(2 :: rat) ^ 23 * 2 ^ 104 \<le> float_max F"
    unfolding float_max_def by (intro mult_mono) simp_all
  then show ?thesis by simp
qed

lemma bound_dyadic:
  assumes "wf_format F" "\<bar>n\<bar> \<le> 2 ^ 24" "k \<le> 149"
  shows "bound F (of_int n / 2 ^ k)"
proof -
  have "rep F \<bar>of_int n / 2 ^ k\<bar>"
  proof (rule repI [of _ "nat \<bar>n\<bar>" "- int k"])
    show "\<bar>of_int n / 2 ^ k\<bar> = of_nat (nat \<bar>n\<bar>) * pow2 (- int k)"
      by (simp add: pow2_neg_nat of_nat_nat)
    have "nat \<bar>n\<bar> \<le> 2 ^ 24" using assms(2) by simp
    also have "\<dots> \<le> 2 ^ prec F" using assms(1) by (intro power_increasing) (simp_all add: wf_format_def)
    finally show "nat \<bar>n\<bar> \<le> 2 ^ prec F" .
    show "emin F \<le> - int k" using assms by (simp add: wf_format_def)
  qed
  moreover have "\<bar>of_int n / 2 ^ k\<bar> \<le> float_max F"
  proof -
    have "\<bar>of_int n / 2 ^ k\<bar> \<le> (\<bar>of_int n\<bar> :: rat)"
      by (simp add: abs_divide divide_le_eq mult_le_cancel_left1 one_le_power)
    also have "\<dots> = of_int \<bar>n\<bar>" by simp
    also have "\<dots> \<le> of_int (2 ^ 24)" using assms(2) by (simp only: of_int_le_iff)
    also have "\<dots> \<le> 2 ^ 127" by simp
    finally show ?thesis using float_max_large [OF assms(1)] by simp
  qed
  ultimately show ?thesis by (simp add: bound_def)
qed

lemma bound_int: "wf_format F \<Longrightarrow> \<bar>n\<bar> \<le> 2 ^ 24 \<Longrightarrow> bound F (of_int n)"
  using bound_dyadic [of F n 0] by simp

lemma bound_simps [simp]:
  assumes "wf_format F"
  shows "bound F 0" "bound F 1"
    "numeral k \<le> (2 ^ 24 :: nat) \<Longrightarrow> bound F (numeral k)" "bound F (- 1)"
    "numeral k \<le> (2 ^ 24 :: nat) \<Longrightarrow> bound F (- numeral k)"
proof -
  have n: "(numeral k :: int) \<le> 2 ^ 24" if "numeral k \<le> (2 ^ 24 :: nat)"
    using that by (metis of_nat_le_iff of_nat_numeral of_nat_power)
  show "bound F 0" "bound F 1" "bound F (- 1)"
    using bound_int [OF assms, of 0] bound_int [OF assms, of 1] bound_int [OF assms, of "-1"] by simp_all
  show "numeral k \<le> (2 ^ 24 :: nat) \<Longrightarrow> bound F (numeral k)"
    "numeral k \<le> (2 ^ 24 :: nat) \<Longrightarrow> bound F (- numeral k)"
    using bound_int [OF assms, of "numeral k"] bound_int [OF assms, of "- numeral k"] n by simp_all
qed

lemma bound_uminus: "bound F q \<Longrightarrow> bound F (- q)" by (simp add: bound_def)

section \<open>Values of the operations\<close>

lemma val_neg: "fin x \<Longrightarrow> fin (fl_neg x) \<and> val (fl_neg x) = - val x"
  by (auto elim!: finE simp: val_Num)

lemma between_neg: "between a b x \<Longrightarrow> between (- b) (- a) (fl_neg x)"
  using val_neg by (simp add: between_def)

lemma add_round: "fin x \<Longrightarrow> fin y \<Longrightarrow> \<exists>s. fl_add F x y = fl_round F s (val x + val y)"
  by (auto elim!: finE)

lemma mul_round: "fin x \<Longrightarrow> fin y \<Longrightarrow> \<exists>s. fl_mul F x y = fl_round F s (val x * val y)"
  by (auto elim!: finE)

lemma div_round: "fin x \<Longrightarrow> fin y \<Longrightarrow> val y \<noteq> 0 \<Longrightarrow> \<exists>s. fl_div F x y = fl_round F s (val x / val y)"
  by (auto elim!: finE simp: val_Num split: if_splits)

lemma cast_round: "fin x \<Longrightarrow> \<exists>s. fl_cast F x = fl_round F s (val x)"
  by (auto elim!: finE)

lemma sub_round: "fin x \<Longrightarrow> fin y \<Longrightarrow> \<exists>s. fl_sub F x y = fl_round F s (val x - val y)"
  using add_round [of x "fl_neg y" F] val_neg [of y] by (simp add: fl_sub_def)

lemma val_add: "fin x \<Longrightarrow> fin y \<Longrightarrow> fin (fl_add F x y) \<Longrightarrow> val (fl_add F x y) = rnd F (val x + val y)"
  using add_round [of x y F] fl_round_val by auto

lemma val_mul: "fin x \<Longrightarrow> fin y \<Longrightarrow> fin (fl_mul F x y) \<Longrightarrow> val (fl_mul F x y) = rnd F (val x * val y)"
  using mul_round [of x y F] fl_round_val by auto

lemma val_div:
  "fin x \<Longrightarrow> fin y \<Longrightarrow> val y \<noteq> 0 \<Longrightarrow> fin (fl_div F x y) \<Longrightarrow> val (fl_div F x y) = rnd F (val x / val y)"
  using div_round [of x y F] fl_round_val by auto

lemma val_sub: "fin x \<Longrightarrow> fin y \<Longrightarrow> fin (fl_sub F x y) \<Longrightarrow> val (fl_sub F x y) = rnd F (val x - val y)"
  using sub_round [of x y F] fl_round_val by auto

lemma val_cast: "fin x \<Longrightarrow> fin (fl_cast F x) \<Longrightarrow> val (fl_cast F x) = rnd F (val x)"
  using cast_round [of x F] fl_round_val by auto

lemma between_add:
  "between a b x \<Longrightarrow> between c d y \<Longrightarrow> wf_format F \<Longrightarrow> bound F lo \<Longrightarrow> bound F hi \<Longrightarrow> lo \<le> a + c \<Longrightarrow> b + d \<le> hi
    \<Longrightarrow> between lo hi (fl_add F x y)"
  using add_round [of x y F] fl_round_between [of F lo hi "val x + val y"] by (auto simp: between_def)

lemma between_sub:
  "between a b x \<Longrightarrow> between c d y \<Longrightarrow> wf_format F \<Longrightarrow> bound F lo \<Longrightarrow> bound F hi \<Longrightarrow> lo \<le> a - d \<Longrightarrow> b - c \<le> hi
    \<Longrightarrow> between lo hi (fl_sub F x y)"
  using sub_round [of x y F] fl_round_between [of F lo hi "val x - val y"] by (auto simp: between_def)

lemma between_mul:
  assumes "between a b x" "between c d y" "0 \<le> a" "0 \<le> c" "wf_format F" "bound F lo" "bound F hi"
    "lo \<le> a * c" "b * d \<le> hi"
  shows "between lo hi (fl_mul F x y)"
proof -
  have "a * c \<le> val x * val y" "val x * val y \<le> b * d"
    using assms(1-4) by (auto simp: between_def intro!: mult_mono)
  then show ?thesis
    using mul_round [of x y F] fl_round_between [of F lo hi "val x * val y"] assms
    by (auto simp: between_def)
qed

lemma between_mul_abs:
  assumes "between (- a) a x" "between (- b) b y" "wf_format F" "bound F h" "a * b \<le> h"
  shows "between (- h) h (fl_mul F x y)"
proof -
  have "\<bar>val x\<bar> * \<bar>val y\<bar> \<le> a * b" using assms(1,2) by (intro mult_mono) (auto simp: between_def)
  then have "\<bar>val x * val y\<bar> \<le> h" using assms(5) by (simp add: abs_mult)
  then have "- h \<le> val x * val y" "val x * val y \<le> h" by simp_all
  then show ?thesis
    using mul_round [of x y F] fl_round_between [of F "- h" h "val x * val y"] assms bound_uminus
    by (auto simp: between_def)
qed

lemma between_div:
  assumes "between a b x" "between c d y" "0 \<le> a" "0 < c" "wf_format F" "bound F lo" "bound F hi"
    "lo * d \<le> a" "0 \<le> lo" "b \<le> hi * c"
  shows "between lo hi (fl_div F x y)"
proof -
  have y: "0 < val y" using assms(2,4) by (simp add: between_def)
  have "lo * val y \<le> val x"
    using assms(1,2,8,9) mult_left_mono [of "val y" d lo] by (simp add: between_def)
  then have "lo \<le> val x / val y" using y by (simp add: pos_le_divide_eq)
  moreover have "0 \<le> hi"
    using assms(1,3,4,10) by (auto simp: between_def) (meson linorder_not_le mult_neg_pos order.trans)
  then have "val x \<le> hi * val y"
    using assms(1,2,10) mult_left_mono [of c "val y" hi] by (simp add: between_def)
  then have "val x / val y \<le> hi" using y by (simp add: pos_divide_le_eq)
  ultimately show ?thesis
    using div_round [of x y F] fl_round_between [of F lo hi "val x / val y"] assms y
    by (auto simp: between_def)
qed

lemma between_cast:
  "between a b x \<Longrightarrow> wf_format F \<Longrightarrow> bound F a \<Longrightarrow> bound F b \<Longrightarrow> between a b (fl_cast F x)"
  using cast_round [of x F] fl_round_between [of F a b "val x"] by (auto simp: between_def)

lemma between_lit: "wf_format F \<Longrightarrow> bound F a \<Longrightarrow> bound F b \<Longrightarrow> a \<le> q \<Longrightarrow> q \<le> b \<Longrightarrow> between a b (fl_lit F q)"
  by (simp add: fl_lit_def fl_round_between)

lemma fl_lit_bound: "wf_format F \<Longrightarrow> bound F q \<Longrightarrow> fin (fl_lit F q) \<and> val (fl_lit F q) = q"
  using between_lit [of F q q q] by (simp add: between_def)

lemma between_nat: "wf_format F \<Longrightarrow> bound F b \<Longrightarrow> of_nat n \<le> b \<Longrightarrow> between 0 b (fl_nat F n)"
  by (simp add: fl_nat_def fl_round_between)

lemma val_nat: "fin (fl_nat F n) \<Longrightarrow> val (fl_nat F n) = rnd F (of_nat n)"
  by (simp add: fl_nat_def fl_round_val)

section \<open>Comparisons, maxima, truncation\<close>

lemma less_val: "fin x \<Longrightarrow> fin y \<Longrightarrow> fl_less x y \<longleftrightarrow> val x < val y"
  by (auto elim!: finE)

lemma le_val: "fin x \<Longrightarrow> fin y \<Longrightarrow> fl_le x y \<longleftrightarrow> val x \<le> val y"
  by (auto elim!: finE)

lemma max_val: "fin x \<Longrightarrow> fin y \<Longrightarrow> fin (fl_max x y) \<and> val (fl_max x y) = max (val x) (val y)"
  by (auto elim!: finE simp: fl_max_def)

lemma min_val: "fin x \<Longrightarrow> fin y \<Longrightarrow> fin (fl_min x y) \<and> val (fl_min x y) = min (val x) (val y)"
  by (auto elim!: finE simp: fl_min_def)

text \<open>Bounded, or not a number: what the code has to expect of its intermediate results.\<close>

definition loose :: "rat \<Rightarrow> rat \<Rightarrow> float_value \<Rightarrow> bool" where
  "loose a b x \<longleftrightarrow> x = NaN \<or> between a b x"

lemma between_max_loose:
  "loose a b x \<Longrightarrow> between c d y \<Longrightarrow> between c (max b d) (fl_max x y)"
  using max_val [of x y] by (auto simp: loose_def between_def fl_max_def)

lemma NaN_simps [simp]:
  "fl_add F NaN y = NaN" "fl_add F x NaN = NaN" "fl_mul F NaN y = NaN" "fl_mul F x NaN = NaN"
  "fl_sub F NaN y = NaN" "fl_sub F x NaN = NaN" "fl_div F x NaN = NaN" "fl_cast F NaN = NaN"
  by (cases x; simp add: fl_sub_def)+

lemma loose_between: "between a b x \<Longrightarrow> loose a b x" by (simp add: loose_def)

lemma loose_add:
  "loose a b x \<Longrightarrow> loose c d y \<Longrightarrow> wf_format F \<Longrightarrow> bound F lo \<Longrightarrow> bound F hi \<Longrightarrow> lo \<le> a + c \<Longrightarrow> b + d \<le> hi
    \<Longrightarrow> loose lo hi (fl_add F x y)"
  by (auto simp: loose_def intro: between_add)

lemma loose_sub:
  "loose a b x \<Longrightarrow> loose c d y \<Longrightarrow> wf_format F \<Longrightarrow> bound F lo \<Longrightarrow> bound F hi \<Longrightarrow> lo \<le> a - d \<Longrightarrow> b - c \<le> hi
    \<Longrightarrow> loose lo hi (fl_sub F x y)"
  by (auto simp: loose_def intro: between_sub)

lemma loose_mul:
  "loose (- a) a x \<Longrightarrow> loose (- b) b y \<Longrightarrow> wf_format F \<Longrightarrow> bound F h \<Longrightarrow> a * b \<le> h
    \<Longrightarrow> loose (- h) h (fl_mul F x y)"
  by (auto simp: loose_def intro: between_mul_abs)

lemma loose_mono: "loose a b x \<Longrightarrow> a' \<le> a \<Longrightarrow> b \<le> b' \<Longrightarrow> loose a' b' x"
  by (auto simp: loose_def between_def)

lemma floor_val: "fin x \<Longrightarrow> fin (fl_floor x) \<and> val (fl_floor x) = of_int \<lfloor>val x\<rfloor>"
  by (auto elim!: finE simp: val_Num abs_if)

lemma to_nat_val: "fin x \<Longrightarrow> fl_to_nat bits x = min (nat \<lfloor>val x\<rfloor>) (2 ^ bits - 1)"
  by (auto elim!: finE)

lemma to_nat_mono: "fin x \<Longrightarrow> fin y \<Longrightarrow> val x \<le> val y \<Longrightarrow> fl_to_nat bits x \<le> fl_to_nat bits y"
  by (simp add: to_nat_val min.coboundedI1 floor_mono nat_mono min_le_iff_disj)

lemma fl_round_0 [simp]: "wf_format F \<Longrightarrow> fl_round F s 0 = Num s 0"
  using float_max_large [of F] by (simp add: fl_round_def Let_def)

lemma fl_add_zero:
  assumes "wf_format F" "bound F (val x)" "0 < val x" "fin x"
  shows "fl_add F x (Num t 0) = x"
proof -
  obtain s q where x: "x = Num s q" "0 \<le> q" using assms(4) by (elim finE)
  then have "\<not> s" "0 < q" using assms(3) by (auto simp: val_Num split: if_splits)
  moreover have "round_mag F q = q" "q \<le> float_max F"
    using assms(1,2) x calculation round_mag_rep wf_prec by (auto simp: bound_def val_Num)
  ultimately show ?thesis by (simp add: x val_Num fl_round_def Let_def)
qed

lemma fl_zero_mul: "wf_format F \<Longrightarrow> fin c \<Longrightarrow> \<exists>s. fl_mul F (Num t 0) c = Num s 0"
  by (auto elim!: finE simp: val_Num)

lemma fl_nat_0 [simp]: "wf_format F \<Longrightarrow> fl_nat F 0 = Num False 0"
  by (simp add: fl_nat_def)

lemma fl_mul_zero: "wf_format F \<Longrightarrow> fin c \<Longrightarrow> \<exists>s. fl_mul F c (Num t 0) = Num s 0"
  by (auto elim!: finE simp: val_Num)

lemma bound_rnd: "wf_format F \<Longrightarrow> \<bar>rnd F q\<bar> \<le> float_max F \<Longrightarrow> bound F (rnd F q)"
  by (simp add: bound_def rep_rnd)

text \<open>A result of an operation is representable.\<close>

lemma fl_round_bound: "wf_format F \<Longrightarrow> fin (fl_round F s q) \<Longrightarrow> bound F (val (fl_round F s q))"
proof -
  assume F: "wf_format F" and f: "fin (fl_round F s q)"
  have "round_mag F \<bar>q\<bar> \<le> float_max F" using f by (auto simp: fl_round_def Let_def split: if_splits)
  then show ?thesis using bound_rnd [OF F, of q] by (simp add: fl_round_val [OF f] abs_rnd)
qed

section \<open>Monotone operations\<close>

lemma add_mono_val:
  "fin x \<Longrightarrow> fin y \<Longrightarrow> fin x' \<Longrightarrow> fin y' \<Longrightarrow> fin (fl_add F x y) \<Longrightarrow> fin (fl_add F x' y') \<Longrightarrow> wf_format F
    \<Longrightarrow> val x \<le> val x' \<Longrightarrow> val y \<le> val y' \<Longrightarrow> val (fl_add F x y) \<le> val (fl_add F x' y')"
  by (simp add: val_add rnd_mono)

lemma mul_mono_val:
  "fin x \<Longrightarrow> fin y \<Longrightarrow> fin x' \<Longrightarrow> fin y' \<Longrightarrow> fin (fl_mul F x y) \<Longrightarrow> fin (fl_mul F x' y') \<Longrightarrow> wf_format F
    \<Longrightarrow> 0 \<le> val x \<Longrightarrow> 0 \<le> val y \<Longrightarrow> val x \<le> val x' \<Longrightarrow> val y \<le> val y' \<Longrightarrow> val (fl_mul F x y) \<le> val (fl_mul F x' y')"
  by (simp add: val_mul rnd_mono mult_mono)

lemma nat_mono_val:
  "fin (fl_nat F m) \<Longrightarrow> fin (fl_nat F n) \<Longrightarrow> wf_format F \<Longrightarrow> m \<le> n \<Longrightarrow> val (fl_nat F m) \<le> val (fl_nat F n)"
  by (simp add: val_nat rnd_mono)

section \<open>Bit patterns\<close>

text \<open>
  \<^verbatim>\<open>to_bits\<close> and \<^verbatim>\<open>from_bits\<close>. A NaN has many patterns; it is written as the quiet one
  here, and the code never stores one it reads back.
\<close>

definition mant_unit :: "float_format \<Rightarrow> nat" where "mant_unit F = 2 ^ (prec F - 1)"
definition exp_limit :: "float_format \<Rightarrow> nat" where "exp_limit F = nat (emax F - emin F) + 2"

definition mag_bits :: "float_format \<Rightarrow> rat \<Rightarrow> nat" where
  "mag_bits F q =
     (if q = 0 then 0
      else let e = ulp_exp F q; n = nat \<lfloor>q / pow2 e\<rfloor>
           in if n < mant_unit F then n else (nat (e - emin F) + 1) * mant_unit F + (n - mant_unit F))"

definition fl_to_bits :: "float_format \<Rightarrow> float_value \<Rightarrow> nat" where
  "fl_to_bits F x =
     (let sign = (\<lambda>s. if s then (exp_limit F + 1) * mant_unit F else 0)
      in case x of
           NaN \<Rightarrow> exp_limit F * mant_unit F + mant_unit F div 2
         | Inf s \<Rightarrow> sign s + exp_limit F * mant_unit F
         | Num s q \<Rightarrow> sign s + mag_bits F q)"

definition fl_from_bits :: "float_format \<Rightarrow> nat \<Rightarrow> float_value" where
  "fl_from_bits F w =
     (let half = (exp_limit F + 1) * mant_unit F;
          s = (half \<le> w); n = w mod half; e = n div mant_unit F; f = n mod mant_unit F
      in if e = exp_limit F then if f = 0 then Inf s else NaN
         else if e = 0 then Num s (of_nat f * pow2 (emin F))
         else Num s (of_nat (mant_unit F + f) * pow2 (emin F + int e - 1)))"

text \<open>A finite value of the format has a mantissa and an exponent.\<close>

lemma mantissa:
  assumes F: "wf_format F" and q: "rep F q" "0 < q" "q \<le> float_max F"
  obtains n where "q = of_nat n * pow2 (ulp_exp F q)" "n < 2 * mant_unit F" "0 < n"
    "n < mant_unit F \<Longrightarrow> ulp_exp F q = emin F" "emin F \<le> ulp_exp F q" "ulp_exp F q \<le> emax F"
proof -
  let ?e = "ulp_exp F q" let ?p = "int (prec F)"
  have p: "0 < prec F" by (rule wf_prec [OF F])
  have "q = of_int (round_even (q / pow2 ?e)) * pow2 ?e"
    using round_mag_rep [OF q(1) p] q(2) by (simp add: round_mag_def)
  moreover have "0 \<le> round_even (q / pow2 ?e)"
    using q(2) round_even_between [of 0 "q / pow2 ?e" "\<lceil>q / pow2 ?e\<rceil>"] by simp
  ultimately obtain n where n: "q = of_nat n * pow2 ?e" by (metis nonneg_int_cases of_int_of_nat_eq)
  have mu: "(of_nat (2 * mant_unit F) :: rat) = pow2 ?p" "(of_nat (mant_unit F) :: rat) = pow2 (?p - 1)"
  proof -
    have "2 * mant_unit F = 2 ^ prec F" using p by (simp add: mant_unit_def flip: power_Suc)
    then show "(of_nat (2 * mant_unit F) :: rat) = pow2 ?p" by (simp only: pow2_nat of_nat_power of_nat_numeral)
    have "?p - 1 = int (prec F - 1)" using p by simp
    then show "(of_nat (mant_unit F) :: rat) = pow2 (?p - 1)"
      by (simp only: pow2_nat mant_unit_def of_nat_power of_nat_numeral)
  qed
  note lb = ilog2_bounds [OF q(2)]
  have "pow2 (ilog2 q + 1) \<le> pow2 (?p + ?e)" by (rule pow2_mono) (simp add: ulp_exp_def)
  then have "q < pow2 (?p + ?e)" using lb by simp
  then have "of_nat n * pow2 ?e < pow2 ?p * pow2 ?e" by (simp only: n [symmetric] pow2_add)
  then have "of_nat n < (of_nat (2 * mant_unit F) :: rat)" unfolding mu by simp
  then have 1: "n < 2 * mant_unit F" by (simp only: of_nat_less_iff)
  have 2: "0 < n" using q(2) n by (cases n) auto
  have 3: "?e = emin F" if "n < mant_unit F"
  proof (rule ccontr)
    assume "?e \<noteq> emin F"
    then have e: "?e = ilog2 q + 1 - ?p" by (auto simp: ulp_exp_def)
    have "(of_nat n :: rat) < pow2 (?p - 1)" using that unfolding mu(2) [symmetric] by (simp only: of_nat_less_iff)
    then have "of_nat n * pow2 ?e < pow2 (?p - 1) * pow2 ?e" by (rule mult_strict_right_mono) simp
    also have "\<dots> = pow2 (ilog2 q)" unfolding pow2_add [symmetric] e by simp
    finally show False using lb n by linarith
  qed
  have 4: "emin F \<le> ?e" by (simp add: ulp_exp_def)
  have 5: "?e \<le> emax F"
  proof (cases "n < mant_unit F")
    case True
    then show ?thesis using 3 F by (auto simp: wf_format_def)
  next
    case False
    have "pow2 (?p - 1 + ?e) \<le> q"
    proof -
      have "pow2 (?p - 1) \<le> of_nat n" using False unfolding mu(2) [symmetric] by (simp only: of_nat_le_iff not_less)
      then have "pow2 (?p - 1) * pow2 ?e \<le> of_nat n * pow2 ?e" by (rule mult_right_mono) simp
      then show ?thesis by (simp only: n [symmetric] pow2_add)
    qed
    also have "q < pow2 (?p + emax F)"
    proof -
      have "float_max F < pow2 ?p * pow2 (emax F)"
        unfolding float_max_def pow2_nat by (rule mult_strict_right_mono) simp_all
      then show ?thesis using q(3) by (simp only: pow2_add)
    qed
    finally show ?thesis using pow2_less by fastforce
  qed
  show thesis by (rule that [OF n 1 2 3 4 5])
qed

lemma from_to_bits:
  assumes F: "wf_format F" and x: "fin x" "bound F (val x)"
  shows "fl_from_bits F (fl_to_bits F x) = x" "fl_to_bits F x < 2 * ((exp_limit F + 1) * mant_unit F)"
proof -
  obtain s q where xq: "x = Num s q" "0 \<le> q" using x(1) by (elim finE)
  have "\<bar>val x\<bar> = q" using xq by (cases s) (simp_all add: val_Num)
  then have q: "rep F q" "q \<le> float_max F" using x(2) by (simp_all add: bound_def)
  let ?M = "mant_unit F" let ?H = "(exp_limit F + 1) * ?M"
  have M: "0 < ?M" by (simp add: mant_unit_def)
  have key: "mag_bits F q < exp_limit F * ?M
    \<and> (let e = mag_bits F q div ?M; f = mag_bits F q mod ?M
       in q = (if e = 0 then of_nat f * pow2 (emin F) else of_nat (?M + f) * pow2 (emin F + int e - 1)))"
  proof (cases "q = 0")
    case True
    then show ?thesis using M by (simp add: mag_bits_def exp_limit_def)
  next
    case False
    then have pos: "0 < q" using xq(2) by simp
    let ?e = "ulp_exp F q"
    obtain n where n: "q = of_nat n * pow2 ?e" "n < 2 * ?M" "0 < n" "n < ?M \<Longrightarrow> ?e = emin F" "emin F \<le> ?e" "?e \<le> emax F"
      by (rule mantissa [OF F q(1) pos q(2)]) blast
    have "q / pow2 ?e = of_nat n" using n(1) by (metis nonzero_eq_divide_eq pow2_nonzero)
    then have fl: "nat \<lfloor>q / pow2 ?e\<rfloor> = n" by simp
    show ?thesis
    proof (cases "n < ?M")
      case True
      then have b: "mag_bits F q = n" using False fl by (simp add: mag_bits_def Let_def)
      moreover have "n < exp_limit F * ?M" using True by (simp add: exp_limit_def)
      ultimately show ?thesis using True n(1) n(4) by simp
    next
      case n': False
      let ?k = "nat (?e - emin F)"
      have b: "mag_bits F q = (?k + 1) * ?M + (n - ?M)" using False fl n' by (simp add: mag_bits_def Let_def)
      have r: "n - ?M < ?M" using n(2) by simp
      have "(a * m + j) div m = a \<and> (a * m + j) mod m = j" if "j < m" for a m j :: nat using that by simp
      from this [OF r, of "?k + 1"] have dm: "mag_bits F q div ?M = ?k + 1" "mag_bits F q mod ?M = n - ?M"
        unfolding b by blast+
      have "?k + 1 < exp_limit F" using n(5,6) by (simp add: exp_limit_def)
      then have "(?k + 2) * ?M \<le> exp_limit F * ?M" by (intro mult_right_mono) simp_all
      then have "mag_bits F q < exp_limit F * ?M" using r unfolding b by (simp add: algebra_simps)
      moreover have "?M + (n - ?M) = n" "emin F + int (?k + 1) - 1 = ?e" using n' n(5) by simp_all
      ultimately show ?thesis using n(1) unfolding dm Let_def by (simp only:) simp
    qed
  qed
  have small: "mag_bits F q < exp_limit F * ?M" using key by simp
  then have lt: "mag_bits F q < ?H" by (simp add: algebra_simps)
  have mag: "(if s then ?H + mag_bits F q else mag_bits F q) mod ?H = mag_bits F q" using lt by simp
  have b: "fl_to_bits F x = (if s then ?H + mag_bits F q else mag_bits F q)"
    by (simp add: fl_to_bits_def xq(1))
  show "fl_to_bits F x < 2 * ?H" unfolding b using lt by simp
  have sg: "?H \<le> (if s then ?H + mag_bits F q else mag_bits F q) \<longleftrightarrow> s" using lt by auto
  have ne: "mag_bits F q div ?M \<noteq> exp_limit F" using small by (metis less_mult_imp_div_less nat_neq_iff)
  have "fl_from_bits F (fl_to_bits F x)
    = (if mag_bits F q div ?M = 0 then Num s (of_nat (mag_bits F q mod ?M) * pow2 (emin F))
       else Num s (of_nat (?M + mag_bits F q mod ?M) * pow2 (emin F + int (mag_bits F q div ?M) - 1)))"
    unfolding fl_from_bits_def b Let_def mag sg using ne by (simp only: if_False)
  also have "\<dots> = Num s q"
  proof -
    have "(if c then Num s a else Num s b) = Num s q" if "q = (if c then a else b)" for a b c using that by simp
    then show ?thesis using conjunct2 [OF key, unfolded Let_def] by blast
  qed
  finally show "fl_from_bits F (fl_to_bits F x) = x" unfolding xq(1) .
qed

lemma from_bits_bound:
  assumes F: "wf_format F" and x: "is_finite (fl_from_bits F w)"
  shows "fin (fl_from_bits F w)"
  using x by (auto simp: fl_from_bits_def Let_def split: if_splits)

end
