(* ===== verification/CdfTable.thy ===== *)
theory CdfTable
  imports "HOL-Library.Multiset" Predictor Floats
begin

text \<open>
  The conversion of a probability distribution into a cumulative frequency table,
  \<^verbatim>\<open>probs_to_cdf\<close> of \<^verbatim>\<open>coding/rans.rs\<close>, on the floating-point
  numbers of \<^verbatim>\<open>Floats\<close>. Its table is lawful for every input, NaN, infinities and negative
  numbers included. The standard library's unstable sort is a parameter: it returns its input in
  some order, and ties may come in any.
\<close>

datatype ordering = Less | Equal | Greater

type_synonym index_sort = "(nat \<Rightarrow> nat \<Rightarrow> ordering) \<Rightarrow> nat list \<Rightarrow> nat list"

definition sort_ok :: "index_sort \<Rightarrow> bool" where
  "sort_ok sort_unstable_by \<longleftrightarrow> (\<forall>cmp xs. mset (sort_unstable_by cmp xs) = mset xs)"

definition partial_cmp :: "float_value \<Rightarrow> float_value \<Rightarrow> ordering option" where
  "partial_cmp x y = (if x = NaN \<or> y = NaN then None else Some (if fl_less x y then Less
     else if fl_less y x then Greater else Equal))"

section \<open>The conversion\<close>

definition clamp_prob :: "float_value \<Rightarrow> float_value" where
  "clamp_prob x = (let p = fl_cast f64 x
     in if is_finite p \<and> fl_less (Num False 0) p then p else Num False 0)"

definition fl_sum :: "float_format \<Rightarrow> float_value list \<Rightarrow> float_value" where
  "fl_sum F xs = foldl (fl_add F) (Num False 0) xs"

definition uniform_cdf :: "u16 list" where
  "uniform_cdf = map (\<lambda>i. of_nat (i * unat PROB_TOTAL div 256)) [0..<256] @ [ucast PROB_TOTAL]"

fun cdf_entries :: "float_value \<Rightarrow> float_value \<Rightarrow> float_value list \<Rightarrow> u16 list" where
  "cdf_entries scale cum [] = []"
| "cdf_entries scale cum (c # cs) =
     of_nat (fl_to_nat 16 (fl_add f64 (fl_mul f64 cum scale) (fl_lit f64 (1 / 2))))
       # cdf_entries scale (fl_add f64 cum c) cs"

definition fix_step :: "nat \<Rightarrow> u16 list \<Rightarrow> u16 list" where
  "fix_step i cdf = (if cdf ! (i + 1) \<le> cdf ! i then cdf[i + 1 := cdf ! i + 1] else cdf)"

definition share_of :: "float_value \<Rightarrow> nat \<Rightarrow> float_value \<Rightarrow> nat" where
  "share_of mass remaining_mass c =
     fl_to_nat 64 (fl_mul f64 (fl_div f64 c mass) (fl_nat f64 remaining_mass))"

fun give_leftover :: "nat list \<Rightarrow> nat \<Rightarrow> u16 list \<Rightarrow> u16 list" where
  "give_leftover [] leftover freqs = freqs"
| "give_leftover (idx # indices) leftover freqs =
     (if leftover = 0 then freqs
      else give_leftover indices (leftover - 1) (freqs[idx := freqs ! idx + 1]))"

fun accumulate :: "u16 \<Rightarrow> u16 list \<Rightarrow> u16 list" where
  "accumulate cum [] = [cum]"
| "accumulate cum (f # freqs) = cum # accumulate (cum + f) freqs"

definition redistribute :: "index_sort \<Rightarrow> float_value list \<Rightarrow> float_value \<Rightarrow> u16 list" where
  "redistribute sort_unstable_by clamped mass =
     (let remaining_mass = unat PROB_TOTAL - 256;
          shares = map (share_of mass remaining_mass) clamped;
          freqs = map (\<lambda>share. 1 + of_nat share) shares;
          leftover = unat (of_nat remaining_mass - of_nat (sum_list shares) :: u64);
          indices = sort_unstable_by
            (\<lambda>a b. case partial_cmp (clamped ! b) (clamped ! a) of None \<Rightarrow> Equal | Some r \<Rightarrow> r) [0..<256];
          freqs = (if leftover > 0 then give_leftover indices leftover freqs else freqs)
      in accumulate 0 freqs)"

definition probs_to_cdf :: "index_sort \<Rightarrow> float_value list \<Rightarrow> u16 list" where
  "probs_to_cdf sort_unstable_by probs =
     (let clamped = map clamp_prob probs;
          mass = fl_sum f64 clamped
      in if fl_le mass (Num False 0) then uniform_cdf
         else
           let scale = fl_div f64 (fl_nat f64 (unat PROB_TOTAL)) mass;
               cdf = cdf_entries scale (Num False 0) clamped @ [ucast PROB_TOTAL];
               cdf = fold fix_step [0..<256] cdf
           in if cdf ! 256 \<noteq> ucast PROB_TOTAL
              then let cdf = redistribute sort_unstable_by clamped mass
                   in if cdf ! 256 \<noteq> ucast PROB_TOTAL then uniform_cdf else cdf
              else cdf)"

section \<open>Inputs\<close>

text \<open>The values an \<^verbatim>\<open>f32\<close> can have.\<close>

definition is_f32 :: "float_value \<Rightarrow> bool" where
  "is_f32 x \<longleftrightarrow> (fin x \<longrightarrow> bound f32 (val x)) \<and> (\<forall>s q. x = Num s q \<longrightarrow> 0 \<le> q)"

text \<open>What is left of a probability: zero, or between the smallest and beyond the largest of them.\<close>

definition prob_ok :: "float_value \<Rightarrow> bool" where
  "prob_ok c \<longleftrightarrow> fin c \<and> bound f64 (val c) \<and> (val c = 0 \<or> pow2 (- 149) \<le> val c) \<and> 0 \<le> val c \<and> val c \<le> pow2 128"

lemma PROB_TOTAL_u16: "(ucast PROB_TOTAL :: u16) = 32768" "unat PROB_TOTAL = 32768"
  by (simp_all add: PROB_TOTAL_def PROB_BITS_def)

lemma rep_f64: "rep f32 q \<Longrightarrow> rep f64 q"
  unfolding rep_def f32_def f64_def
  by (elim exE conjE, intro exI conjI, assumption, simp_all)

lemma float_max_f32: "float_max f32 \<le> pow2 128" "float_max f32 \<le> float_max f64"
  "pow2 1000 \<le> float_max f64"
  by (simp_all add: float_max_def f32_def f64_def pow2_def)

lemma rep_pos_f32: "rep f32 q \<Longrightarrow> 0 < q \<Longrightarrow> pow2 (- 149) \<le> q"
proof -
  assume "rep f32 q" "0 < q"
  then obtain n e where q: "q = of_nat n * pow2 e" "- 149 \<le> e" "0 < n"
    unfolding rep_def f32_def by (auto simp: zero_less_mult_iff)
  have "pow2 (- 149) \<le> pow2 e" by (rule pow2_mono [OF q(2)])
  also have "\<dots> \<le> of_nat n * pow2 e" using q(3) mult_right_mono [of 1 "of_nat n" "pow2 e"] by simp
  finally show ?thesis by (simp add: q(1))
qed

lemma clamp_prob_ok:
  assumes "is_f32 x"
  shows "prob_ok (clamp_prob x)"
proof -
  have z: "prob_ok (Num False 0)" by (simp add: prob_ok_def val_Num)
  show ?thesis
  proof (cases "fin x")
    case True
    then have b: "rep f32 \<bar>val x\<bar>" "\<bar>val x\<bar> \<le> float_max f32" using assms by (auto simp: is_f32_def bound_def)
    then have b64: "bound f64 (val x)" using rep_f64 float_max_f32(2) by (simp add: bound_def)
    then have c: "between (val x) (val x) (fl_cast f64 x)"
      using True by (intro between_cast) (simp_all add: between_def)
    show ?thesis
    proof (cases "0 < val x")
      case True
      then have "clamp_prob x = fl_cast f64 x"
        using c fin_finite [OF between_fin [OF c]] less_val [of "Num False 0" "fl_cast f64 x"]
        by (simp add: clamp_prob_def Let_def between_def val_Num)
      moreover have "val (fl_cast f64 x) = val x" using c by (simp add: between_def)
      ultimately show ?thesis
        using c b b64 True rep_pos_f32 [of "val x"] float_max_f32(1) by (simp add: prob_ok_def between_def)
    next
      case False
      then have "clamp_prob x = Num False 0"
        using c less_val [of "Num False 0" "fl_cast f64 x"] by (simp add: clamp_prob_def Let_def between_def val_Num)
      then show ?thesis using z by simp
    qed
  next
    case False
    then have "clamp_prob x = Num False 0"
      using assms by (cases x) (auto simp: clamp_prob_def is_f32_def)
    then show ?thesis using z by simp
  qed
qed

section \<open>Partial sums\<close>

lemma bound_f64_pow: "n \<le> 2 ^ 53 \<Longrightarrow> - 1074 \<le> e \<Longrightarrow> e \<le> 900 \<Longrightarrow> bound f64 (of_nat n * pow2 e)"
proof -
  assume n: "n \<le> 2 ^ 53" and e: "- 1074 \<le> e" "e \<le> 900"
  have "rep f64 (of_nat n * pow2 e)" using n e by (intro repI) (simp_all add: f64_def)
  moreover have "of_nat n * pow2 e \<le> 2 ^ 53 * pow2 900"
  proof (intro mult_mono)
    have "(of_nat n :: rat) \<le> of_nat (2 ^ 53)" using n by (simp only: of_nat_le_iff)
    then show "of_nat n \<le> (2 ^ 53 :: rat)" by (simp only: of_nat_power of_nat_numeral)
    show "pow2 e \<le> pow2 900" by (rule pow2_mono [OF e(2)])
  qed simp_all
  moreover have "2 ^ 53 * pow2 900 \<le> float_max f64" by (simp add: float_max_def f64_def pow2_def)
  ultimately show ?thesis by (simp add: bound_def)
qed

abbreviation partial_sum :: "float_value list \<Rightarrow> float_value" where "partial_sum \<equiv> fl_sum f64"

lemma partial_sum_snoc: "fl_sum F (xs @ [c]) = fl_add F (fl_sum F xs) c"
  by (simp add: fl_sum_def)

lemma partial_sum_ok:
  "\<forall>c \<in> set cs. prob_ok c \<Longrightarrow> length cs \<le> 256 \<Longrightarrow>
    between 0 (of_nat (length cs) * pow2 128) (partial_sum cs) \<and> bound f64 (val (partial_sum cs))"
proof (induction cs rule: rev_induct)
  case (snoc c cs)
  then have IH: "between 0 (of_nat (length cs) * pow2 128) (partial_sum cs)" and c: "between 0 (pow2 128) c"
    by (auto simp: prob_ok_def between_def)
  have b: "between 0 (of_nat (length cs + 1) * pow2 128) (fl_add f64 (partial_sum cs) c)"
    using snoc.prems by (intro between_add [OF IH c] bound_f64_pow) (simp_all add: algebra_simps)
  obtain s where "fl_add f64 (partial_sum cs) c = fl_round f64 s (val (partial_sum cs) + val c)"
    using add_round [OF between_fin [OF IH] between_fin [OF c]] by blast
  then have "bound f64 (val (fl_add f64 (partial_sum cs) c))"
    using fl_round_bound [of f64 s] between_fin [OF b] by simp
  then show ?case using b by (simp add: partial_sum_snoc)
qed (simp add: fl_sum_def between_def val_Num)

lemma partial_sum_step:
  assumes "\<forall>c \<in> set (cs @ [c]). prob_ok c" "length (cs @ [c]) \<le> 256"
  shows "val (partial_sum (cs @ [c])) = rnd f64 (val (partial_sum cs) + val c)"
    and "val (partial_sum cs) \<le> val (partial_sum (cs @ [c]))" "val c \<le> val (partial_sum (cs @ [c]))"
proof -
  have f: "fin (partial_sum (cs @ [c]))" "fin (partial_sum cs)" "fin c"
    and v: "0 \<le> val c" "bound f64 (val c)" "0 \<le> val (partial_sum cs)" "bound f64 (val (partial_sum cs))"
    using partial_sum_ok [of "cs @ [c]"] partial_sum_ok [of cs] assms
    by (auto simp: between_def prob_ok_def)
  show e: "val (partial_sum (cs @ [c])) = rnd f64 (val (partial_sum cs) + val c)"
    using val_add f unfolding partial_sum_snoc by blast
  show "val (partial_sum cs) \<le> val (partial_sum (cs @ [c]))" "val c \<le> val (partial_sum (cs @ [c]))"
    unfolding e using v rnd_mono [of "val (partial_sum cs)" "val (partial_sum cs) + val c" f64]
      rnd_mono [of "val c" "val (partial_sum cs) + val c" f64] by (simp_all add: rnd_bound)
qed

lemma partial_sum_mono:
  "\<forall>c \<in> set (cs @ ds). prob_ok c \<Longrightarrow> length (cs @ ds) \<le> 256 \<Longrightarrow>
    val (partial_sum cs) \<le> val (partial_sum (cs @ ds))"
proof (induction ds rule: rev_induct)
  case (snoc d ds)
  then show ?case using partial_sum_step(2) [of "cs @ ds" d] by simp
qed simp

lemma partial_sum_member:
  assumes "c \<in> set cs" "\<forall>c \<in> set cs. prob_ok c" "length cs \<le> 256"
  shows "val c \<le> val (partial_sum cs)"
proof -
  obtain xs ys where cs: "cs = (xs @ [c]) @ ys" using assms(1) by (metis append_Cons append_Nil append_assoc split_list)
  show ?thesis using partial_sum_step(3) [of xs c] partial_sum_mono [of "xs @ [c]" ys] assms(2,3)
    unfolding cs by simp
qed

lemma partial_sum_positive:
  assumes "0 < val (partial_sum cs)" "\<forall>c \<in> set cs. prob_ok c" "length cs \<le> 256"
  shows "pow2 (- 149) \<le> val (partial_sum cs)"
proof -
  have "\<exists>c \<in> set cs. val c \<noteq> 0"
  proof (rule ccontr)
    assume n: "\<not> (\<exists>c \<in> set cs. val c \<noteq> 0)"
    have "val (partial_sum cs) = 0" using n assms(2,3)
    proof (induction cs rule: rev_induct)
      case (snoc c cs)
      then show ?case using partial_sum_step(1) [of cs c] by simp
    qed (simp add: fl_sum_def val_Num)
    then show False using assms(1) by simp
  qed
  then obtain c where c: "c \<in> set cs" "val c \<noteq> 0" by blast
  then have "pow2 (- 149) \<le> val c" using assms(2) by (auto simp: prob_ok_def)
  then show ?thesis using partial_sum_member [OF c(1) assms(2,3)] by simp
qed

section \<open>The rounded table\<close>

text \<open>The mass of the distribution, and what it is divided into.\<close>

definition mass_ok :: "float_value \<Rightarrow> bool" where
  "mass_ok S \<longleftrightarrow> fin S \<and> pow2 (- 149) \<le> val S \<and> val S \<le> pow2 136"

definition ulp64 :: rat where "ulp64 = 1 / 9007199254740992"

lemma rnd64_close:
  assumes "pow2 (- 1000) \<le> q"
  shows "rnd f64 q \<le> q * (1 + ulp64)" "q * (1 - ulp64) \<le> rnd f64 q"
proof -
  have "pow2 (emin f64 + int (prec f64) - 1) \<le> q"
    using assms pow2_mono [of "- 1022" "- 1000"] by (simp add: f64_def)
  moreover have "pow2 (- int (prec f64)) = ulp64" by (simp add: f64_def pow2_def ulp64_def)
  ultimately show "rnd f64 q \<le> q * (1 + ulp64)" "q * (1 - ulp64) \<le> rnd f64 q"
    using rnd_close [of f64 q] by simp_all
qed

lemma mass_pos: "mass_ok S \<Longrightarrow> 0 < val S"
  using pow2_pos [of "- 149"] by (simp only: mass_ok_def) linarith

lemma nat_64: "n \<le> 2 ^ 24 \<Longrightarrow> fin (fl_nat f64 n) \<and> val (fl_nat f64 n) = of_nat n"
proof -
  assume "n \<le> 2 ^ 24"
  then have "bound f64 (of_nat n)" using bound_int [of f64 "int n"] by simp
  then have "between (of_nat n) (of_nat n) (fl_nat f64 n)" unfolding fl_nat_def by (intro fl_round_between) simp_all
  then show ?thesis by (simp add: between_def)
qed

lemma scale_ok:
  assumes "mass_ok S"
  defines "scale \<equiv> fl_div f64 (fl_nat f64 32768) S"
  shows "fin scale" "0 \<le> val scale" "val S * val scale \<le> 32768 * (1 + ulp64)"
proof -
  have S: "fin S" "pow2 (- 149) \<le> val S" "val S \<le> pow2 136" "0 < val S" "val S \<noteq> 0"
    using assms(1) mass_pos [OF assms(1)] by (auto simp: mass_ok_def)
  have n: "fin (fl_nat f64 32768)" "val (fl_nat f64 32768) = 32768" using nat_64 [of 32768] by simp_all
  have b: "between (pow2 (- 121)) (pow2 164) scale"
    unfolding scale_def
  proof (rule between_div)
    show "between 32768 32768 (fl_nat f64 32768)" "between (pow2 (- 149)) (pow2 136) S"
      using n S by (simp_all add: between_def)
    show "bound f64 (pow2 (- 121))" "bound f64 (pow2 164)"
      using bound_f64_pow [of 1 "- 121"] bound_f64_pow [of 1 164] by simp_all
  qed (simp_all add: pow2_def)
  then show "fin scale" by (simp add: between_def)
  show "0 \<le> val scale" using b pow2_nonneg [of "- 121"] by (simp add: between_def del: pow2_nonneg)
  have v: "val scale = rnd f64 (32768 / val S)"
    using val_div [OF n(1) S(1,5)] \<open>fin scale\<close> unfolding scale_def n(2) by blast
  have "pow2 (- 1000) \<le> 32768 / val S"
  proof -
    have "pow2 (- 1000) * val S \<le> pow2 (- 1000) * pow2 136" using S(3) by (intro mult_left_mono) simp_all
    also have "\<dots> \<le> 32768" by (simp add: pow2_def)
    finally show ?thesis using S(4) by (simp add: pos_le_divide_eq)
  qed
  from rnd64_close(1) [OF this] have "val scale \<le> 32768 / val S * (1 + ulp64)" unfolding v .
  then have "val S * val scale \<le> val S * (32768 / val S * (1 + ulp64))"
    using S(4) by (intro mult_left_mono) simp_all
  then show "val S * val scale \<le> 32768 * (1 + ulp64)" using S(5) by simp
qed

lemma entry_le:
  assumes "mass_ok S" "fin cum" "0 \<le> val cum" "val cum \<le> val S"
  shows "fl_to_nat 16 (fl_add f64 (fl_mul f64 cum (fl_div f64 (fl_nat f64 32768) S)) (fl_lit f64 (1 / 2))) \<le> 32768"
proof -
  note s = scale_ok [OF assms(1)]
  let ?scale = "fl_div f64 (fl_nat f64 32768) S"
  have q: "bound f64 (131073 / 4)" "bound f64 (1 / 2)" "bound f64 (131075 / 4)"
    using bound_dyadic [of f64 131073 2] bound_dyadic [of f64 1 1] bound_dyadic [of f64 131075 2] by simp_all
  have "val cum * val ?scale \<le> val S * val ?scale" using assms s by (intro mult_right_mono)
  then have "val cum * val ?scale \<le> 131073 / 4" using s(3) by (simp add: ulp64_def)
  moreover have "0 \<le> val cum * val ?scale" using assms s by simp
  ultimately have "between 0 (131073 / 4) (fl_mul f64 cum ?scale)"
    using mul_round [OF assms(2) s(1), of f64] fl_round_between [of f64 0 "131073 / 4"] q by auto
  moreover have "between (1 / 2) (1 / 2) (fl_lit f64 (1 / 2))"
    using fl_lit_bound [of f64 "1 / 2"] q by (simp add: between_def)
  ultimately have "between 0 (131075 / 4) (fl_add f64 (fl_mul f64 cum ?scale) (fl_lit f64 (1 / 2)))"
    by (rule between_add) (use q in simp_all)
  then have "fl_to_nat 16 (fl_add f64 (fl_mul f64 cum ?scale) (fl_lit f64 (1 / 2))) \<le> nat \<lfloor>131075 / 4 :: rat\<rfloor>"
    unfolding between_def by (simp add: to_nat_val min.coboundedI1 nat_mono floor_mono)
  moreover have "\<lfloor>131075 / 4 :: rat\<rfloor> = 32768" by (rule floor_unique) simp_all
  ultimately show ?thesis by simp
qed

lemma cdf_entries_ok:
  assumes "mass_ok (fl_sum f64 (xs @ cs))" "\<forall>c \<in> set (xs @ cs). prob_ok c" "length (xs @ cs) \<le> 256"
  shows "length (cdf_entries (fl_div f64 (fl_nat f64 32768) (fl_sum f64 (xs @ cs))) (fl_sum f64 xs) cs) = length cs
    \<and> (\<forall>e \<in> set (cdf_entries (fl_div f64 (fl_nat f64 32768) (fl_sum f64 (xs @ cs))) (fl_sum f64 xs) cs). unat e \<le> 32768)"
  using assms
proof (induction cs arbitrary: xs)
  case (Cons c cs)
  let ?S = "fl_sum f64 (xs @ c # cs)"
  have "between 0 (of_nat (length xs) * pow2 128) (partial_sum xs)" using Cons.prems by (intro conjunct1 [OF partial_sum_ok]) auto
  then have "fin (partial_sum xs)" "0 \<le> val (partial_sum xs)" by (simp_all add: between_def)
  moreover have "val (partial_sum xs) \<le> val ?S" using partial_sum_mono [of xs "c # cs"] Cons.prems by simp
  ultimately have e: "fl_to_nat 16 (fl_add f64 (fl_mul f64 (partial_sum xs) (fl_div f64 (fl_nat f64 32768) ?S)) (fl_lit f64 (1 / 2)))
      \<le> 32768"
    by (rule entry_le [OF Cons.prems(1)])
  then have "unat (of_nat (fl_to_nat 16 (fl_add f64 (fl_mul f64 (partial_sum xs) (fl_div f64 (fl_nat f64 32768) ?S)) (fl_lit f64 (1 / 2)))) :: u16)
      \<le> 32768"
    by (simp add: unat_of_nat)
  moreover have "fl_sum f64 ((xs @ [c]) @ cs) = ?S" by simp
  then have "length (cdf_entries (fl_div f64 (fl_nat f64 32768) ?S) (fl_sum f64 (xs @ [c])) cs) = length cs
    \<and> (\<forall>e \<in> set (cdf_entries (fl_div f64 (fl_nat f64 32768) ?S) (fl_sum f64 (xs @ [c])) cs). unat e \<le> 32768)"
    using Cons.IH [of "xs @ [c]"] Cons.prems by simp
  ultimately show ?case by (simp add: partial_sum_snoc)
qed simp

lemma cdf_first:
  assumes "mass_ok S"
  shows "(of_nat (fl_to_nat 16 (fl_add f64 (fl_mul f64 (Num False 0) (fl_div f64 (fl_nat f64 32768) S)) (fl_lit f64 (1 / 2)))) :: u16) = 0"
proof -
  have h: "fin (fl_lit f64 (1 / 2))" "val (fl_lit f64 (1 / 2)) = 1 / 2" "bound f64 (1 / 2)"
    using fl_lit_bound [of f64 "1 / 2"] bound_dyadic [of f64 1 1] by simp_all
  obtain t where "fl_mul f64 (Num False 0) (fl_div f64 (fl_nat f64 32768) S) = Num t 0"
    using scale_ok(1) [OF assms] by (auto elim!: finE simp: val_Num)
  moreover have "between (1 / 2) (1 / 2) (fl_add f64 (Num t 0) (fl_lit f64 (1 / 2)))"
    using h by (intro between_add [of 0 0 _ "1 / 2" "1 / 2"]) (simp_all add: between_def val_Num)
  ultimately show ?thesis by (simp add: between_def to_nat_val)
qed

section \<open>Making it strictly increasing\<close>

definition fixed_up :: "nat \<Rightarrow> u16 list \<Rightarrow> bool" where
  "fixed_up k cdf \<longleftrightarrow> length cdf = 257 \<and> cdf ! 0 = 0 \<and> (\<forall>i < k. cdf ! i < cdf ! (i + 1))
     \<and> (\<forall>i < 257. unat (cdf ! i) \<le> 32768 + (if i \<le> k then i else 0))"

lemma fix_step_fixed:
  assumes "fixed_up k cdf" "k < 256"
  shows "fixed_up (k + 1) (fix_step k cdf)"
proof -
  have all: "unat (cdf ! i) \<le> 32768 + (if i \<le> k then i else 0)" if "i < 257" for i
    using assms(1) that by (simp add: fixed_up_def)
  from this [of k] have k: "unat (cdf ! k) \<le> 32768 + k" using assms(2) by simp
  then have s: "unat (cdf ! k + 1) = unat (cdf ! k) + 1"
    using assms(2) by (simp add: unat_word_ariths)
  have less: "cdf ! k < cdf ! k + 1" by (simp add: word_less_nat_alt s)
  have all': "i \<le> k + 1 \<Longrightarrow> unat (cdf ! i) \<le> 32768 + i" "i < 257 \<Longrightarrow> \<not> i \<le> k + 1 \<Longrightarrow> unat (cdf ! i) \<le> 32768" for i
    using all [of i] assms(2) by (auto split: if_splits)
  have "fixed_up (k + 1) cdf" if "\<not> cdf ! (k + 1) \<le> cdf ! k"
    using assms that all' by (auto simp: fixed_up_def less_Suc_eq not_le)
  moreover have "fixed_up (k + 1) (cdf[k + 1 := cdf ! k + 1])"
    using assms k less all' by (auto simp: fixed_up_def less_Suc_eq nth_list_update s)
  ultimately show ?thesis by (auto simp: fix_step_def)
qed

lemma fix_fold: "fixed_up 0 cdf \<Longrightarrow> k \<le> 256 \<Longrightarrow> fixed_up k (fold fix_step [0..<k] cdf)"
proof (induction k)
  case (Suc k)
  then show ?case using fix_step_fixed [of k "fold fix_step [0..<k] cdf"] by simp
qed simp

lemma fixed_up_table: "fixed_up 256 cdf \<Longrightarrow> cdf ! 256 = 32768 \<Longrightarrow> cdf_table cdf"
  by (simp add: fixed_up_def cdf_table_def)

section \<open>The redistribution is exact\<close>

text \<open>The rounded sum is close to the exact one.\<close>

lemma ulp64_bounds: "0 < ulp64" "ulp64 < 1" by (simp_all add: ulp64_def)

lemma power_bounds: "1 - of_nat n * ulp64 \<le> (1 - ulp64) ^ n" "(1 + ulp64) ^ n * (1 - of_nat n * ulp64) \<le> 1"
proof -
  show b: "1 - of_nat n * ulp64 \<le> (1 - ulp64) ^ n"
  proof (induction n)
    case (Suc n)
    have "1 - of_nat (Suc n) * ulp64 \<le> (1 - of_nat n * ulp64) * (1 - ulp64)"
      by (simp add: algebra_simps ulp64_def)
    also have "\<dots> \<le> (1 - ulp64) ^ n * (1 - ulp64)" using Suc ulp64_bounds by (intro mult_right_mono) simp_all
    finally show ?case by (simp add: mult.commute)
  qed simp
  have "(1 + ulp64) ^ n * (1 - of_nat n * ulp64) \<le> (1 + ulp64) ^ n * (1 - ulp64) ^ n"
    using ulp64_bounds by (intro mult_left_mono [OF b]) simp
  also have "\<dots> = ((1 + ulp64) * (1 - ulp64)) ^ n" by (rule power_mult_distrib [symmetric])
  also have "\<dots> \<le> 1 ^ n" using ulp64_bounds by (intro power_mono) (simp_all add: ulp64_def)
  finally show "(1 + ulp64) ^ n * (1 - of_nat n * ulp64) \<le> 1" by simp
qed

definition exact_sum :: "float_value list \<Rightarrow> rat" where
  "exact_sum cs = (\<Sum>c\<leftarrow>cs. val c)"

lemma exact_sum_nonneg: "\<forall>c \<in> set cs. prob_ok c \<Longrightarrow> 0 \<le> exact_sum cs"
  unfolding exact_sum_def by (rule sum_list_nonneg) (auto simp: prob_ok_def)

text \<open>Sums are zero or normal, never subnormal.\<close>

lemma sum_normal:
  assumes "\<forall>c \<in> set (cs @ [c]). prob_ok c" "length (cs @ [c]) \<le> 256" "val (partial_sum cs) + val c \<noteq> 0"
  shows "pow2 (- 1000) \<le> val (partial_sum cs) + val c"
proof -
  have c: "val c = 0 \<or> pow2 (- 149) \<le> val c" "0 \<le> val c" using assms(1) by (auto simp: prob_ok_def)
  have s: "0 \<le> val (partial_sum cs)" using partial_sum_ok [of cs] assms by (simp add: between_def)
  have "val (partial_sum cs) = 0 \<or> pow2 (- 149) \<le> val (partial_sum cs)"
    using partial_sum_positive [of cs] s assms(1,2) by force
  then have "pow2 (- 149) \<le> val (partial_sum cs) + val c" using c s assms(3) by auto
  then show ?thesis using pow2_mono [of "- 1000" "- 149"] by linarith
qed

lemma partial_sum_close:
  assumes "\<forall>c \<in> set cs. prob_ok c" "length cs \<le> 256"
  shows "exact_sum cs * (1 - ulp64) ^ length cs \<le> val (partial_sum cs)"
    "val (partial_sum cs) \<le> exact_sum cs * (1 + ulp64) ^ length cs"
  using assms
proof (induction cs rule: rev_induct)
  case (snoc c cs)
  let ?s = "val (partial_sum cs)" and ?x = "exact_sum cs" and ?n = "length cs"
  {
    case 1
    have IH: "?x * (1 - ulp64) ^ ?n \<le> ?s" using snoc.IH(1) 1 by simp
    have c: "0 \<le> val c" "val c = 0 \<or> pow2 (- 149) \<le> val c" using 1 by (auto simp: prob_ok_def)
    have p: "(1 - ulp64) ^ ?n \<le> 1" "0 \<le> (1 - ulp64) ^ ?n" using ulp64_bounds by (simp_all add: power_le_one)
    have "(?x + val c) * (1 - ulp64) ^ ?n \<le> ?s + val c"
      using IH mult_left_mono [OF p(1) c(1)] by (simp add: algebra_simps)
    then have "(?x + val c) * (1 - ulp64) ^ ?n * (1 - ulp64) \<le> (?s + val c) * (1 - ulp64)"
      using ulp64_bounds by (intro mult_right_mono) simp_all
    also have "\<dots> \<le> rnd f64 (?s + val c)"
    proof (cases "?s + val c = 0")
      case False
      then show ?thesis using rnd64_close(2) sum_normal [of cs c] 1 by simp
    qed simp
    finally show ?case using partial_sum_step(1) [OF 1] by (simp add: exact_sum_def mult_ac)
  next
    case 2
    have IH: "?s \<le> ?x * (1 + ulp64) ^ ?n" using snoc.IH(2) 2 by simp
    have c: "0 \<le> val c" using 2 by (auto simp: prob_ok_def)
    have p: "1 \<le> (1 + ulp64) ^ ?n" using ulp64_bounds by (simp add: one_le_power)
    have "rnd f64 (?s + val c) \<le> (?s + val c) * (1 + ulp64)"
    proof (cases "?s + val c = 0")
      case False
      then show ?thesis using rnd64_close(1) sum_normal [of cs c] 2 by simp
    qed simp
    also have "\<dots> \<le> (?x + val c) * (1 + ulp64) ^ ?n * (1 + ulp64)"
      using IH mult_left_mono [OF p c] ulp64_bounds by (intro mult_right_mono) (simp_all add: algebra_simps)
    finally show ?case using partial_sum_step(1) [OF 2] by (simp add: exact_sum_def mult_ac)
  }
qed (simp_all add: exact_sum_def fl_sum_def val_Num)

lemma share_close:
  assumes "mass_ok S" "prob_ok c" "val c \<le> val S"
  shows "of_nat (share_of S 32512 c) \<le> 32512 * (1 + ulp64) ^ 2 * (val c / val S)"
    "32512 * (1 - ulp64) ^ 2 * (val c / val S) - 1 \<le> of_nat (share_of S 32512 c)"
proof -
  have S: "fin S" "0 < val S" "val S \<le> pow2 136" "val S \<noteq> 0"
    using assms(1) mass_pos [OF assms(1)] by (auto simp: mass_ok_def)
  have c: "fin c" "0 \<le> val c" "val c = 0 \<or> pow2 (- 149) \<le> val c" using assms(2) by (auto simp: prob_ok_def)
  have n: "fin (fl_nat f64 32512)" "val (fl_nat f64 32512) = 32512" using nat_64 [of 32512] by simp_all
  let ?q = "fl_div f64 c S" and ?r = "val c / val S"
  have r: "0 \<le> ?r" "?r \<le> 1" using c S assms(3) by simp_all
  have q: "between 0 1 ?q"
    using div_round [OF c(1) S(1,4), of f64] fl_round_between [of f64 0 1 ?r] r by auto
  have vq: "val ?q = rnd f64 ?r" using val_div [OF c(1) S(1,4) between_fin [OF q]] .
  have m: "between 0 32512 (fl_mul f64 ?q (fl_nat f64 32512))"
    using q n by (intro between_mul [of 0 1 _ 0 32512]) (auto simp: between_def)
  have vm: "val (fl_mul f64 ?q (fl_nat f64 32512)) = rnd f64 (val ?q * 32512)"
    using val_mul [OF between_fin [OF q] n(1) between_fin [OF m]] n(2) by simp
  have fl: "share_of S 32512 c = nat \<lfloor>rnd f64 (val ?q * 32512)\<rfloor>"
  proof -
    have "rnd f64 (val ?q * 32512) \<le> 32512" using m vm by (simp add: between_def)
    from nat_mono [OF floor_mono [OF this]] have "nat \<lfloor>rnd f64 (val ?q * 32512)\<rfloor> \<le> 32512" by simp
    then show ?thesis by (simp add: share_of_def to_nat_val [OF between_fin [OF m]] vm)
  qed
  have y0: "0 \<le> rnd f64 (val ?q * 32512)" using m vm by (simp add: between_def)
  have share: "of_nat (share_of S 32512 c) \<le> rnd f64 (val ?q * 32512)"
    "rnd f64 (val ?q * 32512) - 1 \<le> of_nat (share_of S 32512 c)"
    unfolding fl using y0 by (simp_all add: of_nat_nat) linarith
  have both: "rnd f64 (val ?q * 32512) \<le> 32512 * (1 + ulp64) ^ 2 * ?r
      \<and> 32512 * (1 - ulp64) ^ 2 * ?r \<le> rnd f64 (val ?q * 32512)"
  proof (cases "val c = 0")
    case True
    then show ?thesis by (simp add: vq)
  next
    case False
    then have "pow2 (- 285) * val S \<le> val c"
      using c S mult_left_mono [OF S(3), of "pow2 (- 285)"] by (simp flip: pow2_add)
    then have r': "pow2 (- 285) \<le> ?r" using S(2) by (simp add: pos_le_divide_eq)
    then have r1: "pow2 (- 1000) \<le> ?r" using pow2_mono [of "- 1000" "- 285"] by linarith
    note q1 = rnd64_close [OF r1, folded vq]
    have "1 / 2 \<le> 1 - ulp64" by (simp add: ulp64_def)
    then have "?r / 2 \<le> ?r * (1 - ulp64)" using mult_left_mono [of "1 / 2" "1 - ulp64" ?r] r by simp
    then have "?r / 2 \<le> val ?q" using q1(2) by (rule order_trans)
    then have "?r / 2 * 32512 \<le> val ?q * 32512" by (rule mult_right_mono) simp
    moreover have "?r \<le> ?r / 2 * 32512" using r(1) by simp
    ultimately have "pow2 (- 1000) \<le> val ?q * 32512" using r1 by (meson order_trans)
    note q2 = rnd64_close [OF this]
    have "val ?q * 32512 * (1 + ulp64) \<le> ?r * (1 + ulp64) * 32512 * (1 + ulp64)"
      using q1(1) ulp64_bounds by (intro mult_right_mono) simp_all
    moreover have "?r * (1 - ulp64) * 32512 * (1 - ulp64) \<le> val ?q * 32512 * (1 - ulp64)"
      using q1(2) ulp64_bounds by (intro mult_right_mono) simp_all
    ultimately show ?thesis using q2 by (simp add: power2_eq_square mult_ac)
  qed
  show "of_nat (share_of S 32512 c) \<le> 32512 * (1 + ulp64) ^ 2 * ?r"
    "32512 * (1 - ulp64) ^ 2 * ?r - 1 \<le> of_nat (share_of S 32512 c)"
    using share both by linarith+
qed

lemma sum_list_scaled: "(\<Sum>c\<leftarrow>cs. k * (val c / d)) = k * (exact_sum cs / d)" for k d :: rat
  by (induction cs) (simp_all add: exact_sum_def add_divide_distrib distrib_left)

text \<open>
  The subtraction of the code does not underflow, and no more is left over than there are symbols,
  so the greedy loop hands out all of it.
\<close>

lemma shares_bounds:
  assumes "mass_ok (fl_sum f64 cs)" "\<forall>c \<in> set cs. prob_ok c" "length cs = 256"
  defines "D \<equiv> sum_list (map (share_of (fl_sum f64 cs) 32512) cs)"
  shows "D \<le> 32512" "32512 - D \<le> 256"
proof -
  let ?S = "fl_sum f64 cs" let ?e = "exact_sum cs / val ?S"
  have l: "length cs \<le> 256" by (simp add: assms(3))
  have pos: "0 < val ?S" by (rule mass_pos [OF assms(1)])
  have each: "of_nat (share_of ?S 32512 c) \<le> 32512 * (1 + ulp64) ^ 2 * (val c / val ?S)"
    "32512 * (1 - ulp64) ^ 2 * (val c / val ?S) - 1 \<le> of_nat (share_of ?S 32512 c)" if "c \<in> set cs" for c
    using share_close [OF assms(1)] partial_sum_member [OF that assms(2) l] assms(2) that by blast+
  have "of_nat (sum_list (map f xs)) = (\<Sum>c\<leftarrow>xs. of_nat (f c) :: rat)" for f :: "float_value \<Rightarrow> nat" and xs
    by (induction xs) simp_all
  then have D: "of_nat D = (\<Sum>c\<leftarrow>cs. of_nat (share_of ?S 32512 c) :: rat)" unfolding D_def .
  have up: "of_nat D \<le> 32512 * (1 + ulp64) ^ 2 * ?e"
    unfolding D sum_list_scaled [symmetric] by (rule sum_list_mono) (rule each(1))
  have "32512 * (1 - ulp64) ^ 2 * ?e - of_nat (length cs) \<le> of_nat D"
  proof -
    have "32512 * (1 - ulp64) ^ 2 * ?e - of_nat (length cs)
        = (\<Sum>c\<leftarrow>cs. 32512 * (1 - ulp64) ^ 2 * (val c / val ?S) - 1)"
      unfolding sum_list_subtractf sum_list_scaled by (simp add: sum_list_triv)
    also have "\<dots> \<le> of_nat D" unfolding D by (rule sum_list_mono) (rule each(2))
    finally show ?thesis .
  qed
  then have lo: "32512 * (1 - ulp64) ^ 2 * ?e - 256 \<le> of_nat D" by (simp add: assms(3))
  note cl = partial_sum_close [OF assms(2) l, unfolded assms(3)]
  have k: "9 / 10 \<le> 1 - of_nat 256 * ulp64" "(1 + ulp64) ^ 2 * 32512 \<le> (1 - of_nat 256 * ulp64) * (32512 + 1 / 2)"
    "(32512 - 1 / 2) \<le> 32512 * (1 - ulp64) ^ 2 * (1 - of_nat 256 * ulp64)"
    by (simp_all add: ulp64_def power2_eq_square)
  have e0: "0 \<le> exact_sum cs" by (rule exact_sum_nonneg [OF assms(2)])
  have "exact_sum cs * (1 - of_nat 256 * ulp64) \<le> val ?S"
    using cl(1) mult_left_mono [OF power_bounds(1) [of 256] e0] by linarith
  then have e1: "?e * (1 - of_nat 256 * ulp64) \<le> 1" using pos by (simp add: pos_divide_le_eq)
  have "val ?S * (1 - of_nat 256 * ulp64) \<le> exact_sum cs * ((1 + ulp64) ^ 256 * (1 - of_nat 256 * ulp64))"
    using mult_right_mono [OF cl(2), of "1 - of_nat 256 * ulp64"] k(1) by (simp add: mult.assoc)
  also have "\<dots> \<le> exact_sum cs" using mult_left_mono [OF power_bounds(2) [of 256] e0] by simp
  finally have e2: "1 - of_nat 256 * ulp64 \<le> ?e" using pos by (simp add: pos_le_divide_eq mult.commute)
  have en: "0 \<le> ?e" using e0 pos by simp
  have "(1 + ulp64) ^ 2 * 32512 * ?e \<le> (1 - of_nat 256 * ulp64) * (32512 + 1 / 2) * ?e"
    by (rule mult_right_mono [OF k(2) en])
  also have "\<dots> = ?e * (1 - of_nat 256 * ulp64) * (32512 + 1 / 2)" by (simp only: mult_ac)
  also have "\<dots> \<le> 1 * (32512 + 1 / 2)" by (rule mult_right_mono [OF e1]) simp
  finally have "(1 + ulp64) ^ 2 * 32512 * ?e \<le> 1 * (32512 + 1 / 2)" .
  from order_trans [OF up [unfolded mult.commute [of 32512 "(1 + ulp64) ^ 2"]] this]
  have "(of_nat D :: rat) \<le> 32512 + 1 / 2" by simp
  then have "(of_nat D :: rat) < of_nat 32513" by simp
  then show "D \<le> 32512" unfolding of_nat_less_iff by simp
  have "32512 * (1 - ulp64) ^ 2 * (1 - of_nat 256 * ulp64) \<le> 32512 * (1 - ulp64) ^ 2 * ?e"
    by (rule mult_left_mono [OF e2]) simp
  then have "32512 - 1 / 2 - 256 \<le> (of_nat D :: rat)" using k(3) lo by linarith
  then have "of_nat 32255 < (of_nat D :: rat)" by simp
  then show "32512 - D \<le> 256" unfolding of_nat_less_iff by simp
qed

section \<open>The rebuilt table\<close>

lemma accumulate_nth:
  "unat cum + sum_list (map unat fs) < 65536 \<Longrightarrow> i \<le> length fs \<Longrightarrow>
    unat (accumulate cum fs ! i) = unat cum + sum_list (map unat (take i fs))"
proof (induction fs arbitrary: cum i)
  case (Cons f fs)
  have s: "unat (cum + f) = unat cum + unat f" using Cons.prems(1) by (simp add: unat_word_ariths)
  show ?case
  proof (cases i)
    case (Suc j)
    then show ?thesis using Cons.IH [of "cum + f" j] Cons.prems s by simp
  qed simp
qed simp

lemma length_accumulate [simp]: "length (accumulate cum fs) = length fs + 1"
  by (induction fs arbitrary: cum) simp_all

lemma accumulate_table:
  assumes "length fs = 256" "\<forall>f \<in> set fs. 0 < unat f" "sum_list (map unat fs) = 32768"
  shows "cdf_table (accumulate 0 fs)"
proof -
  have n: "unat (accumulate 0 fs ! i) = sum_list (map unat (take i fs))" if "i \<le> 256" for i
    using accumulate_nth [of 0 fs i] assms that by simp
  have "accumulate 0 fs ! i < accumulate 0 fs ! (i + 1)" if i: "i < 256" for i
  proof -
    have "sum_list (map unat (take (Suc i) fs)) = sum_list (map unat (take i fs)) + unat (fs ! i)"
      using i assms(1) by (simp add: take_Suc_conv_app_nth)
    moreover have "0 < unat (fs ! i)" using assms(1,2) i by simp
    ultimately show ?thesis using n [of i] n [of "i + 1"] i by (simp add: word_less_nat_alt)
  qed
  moreover have "accumulate 0 fs ! 256 = 32768" using n [of 256] assms by (simp add: word_unat_eq_iff)
  moreover have "accumulate 0 fs ! 0 = 0" by (cases fs) simp_all
  ultimately show ?thesis using assms(1) by (simp add: cdf_table_def)
qed

lemma give_leftover_ok:
  assumes "\<forall>i \<in> set indices. i < length fs" "\<forall>f \<in> set fs. 0 < unat f" "leftover \<le> length indices"
    "sum_list (map unat fs) + leftover < 65536"
  shows "length (give_leftover indices leftover fs) = length fs
    \<and> (\<forall>f \<in> set (give_leftover indices leftover fs). 0 < unat f)
    \<and> sum_list (map unat (give_leftover indices leftover fs)) = sum_list (map unat fs) + leftover"
  using assms
proof (induction indices arbitrary: leftover fs)
  case (Cons idx indices)
  show ?case
  proof (cases "leftover = 0")
    case False
    let ?fs = "fs[idx := fs ! idx + 1]"
    have i: "idx < length fs" using Cons.prems(1) by simp
    have "unat (fs ! idx) \<le> sum_list (map unat fs)"
      using i member_le_sum_list [of "unat (fs ! idx)" "map unat fs"] by simp
    then have u: "unat (fs ! idx + 1) = unat (fs ! idx) + 1"
      using Cons.prems(4) False by (simp add: unat_word_ariths)
    have s: "sum_list (map unat ?fs) = sum_list (map unat fs) + 1"
      using i sum_list_update_nat [of idx "map unat fs" "unat (fs ! idx) + 1"]
        member_le_sum_list [of "unat (fs ! idx)" "map unat fs"] by (simp add: map_update u)
    have p: "\<forall>f \<in> set ?fs. 0 < unat f"
      using Cons.prems(2) u set_update_subset_insert [of fs idx "fs ! idx + 1"] by auto
    have "length (give_leftover indices (leftover - 1) ?fs) = length ?fs
      \<and> (\<forall>f \<in> set (give_leftover indices (leftover - 1) ?fs). 0 < unat f)
      \<and> sum_list (map unat (give_leftover indices (leftover - 1) ?fs)) = sum_list (map unat ?fs) + (leftover - 1)"
      using Cons.prems False s p by (intro Cons.IH) auto
    then show ?thesis using False s by simp
  qed (use Cons.prems in simp)
qed simp

lemma redistribute_table:
  assumes "sort_ok sort_unstable_by" "mass_ok (fl_sum f64 cs)" "\<forall>c \<in> set cs. prob_ok c" "length cs = 256"
  shows "cdf_table (redistribute sort_unstable_by cs (fl_sum f64 cs))"
proof -
  let ?shares = "map (share_of (fl_sum f64 cs) 32512) cs" let ?D = "sum_list ?shares"
  let ?fs = "map (\<lambda>share. 1 + of_nat share :: u16) ?shares"
  define indices where "indices = sort_unstable_by
      (\<lambda>a b. case partial_cmp (cs ! b) (cs ! a) of None \<Rightarrow> Equal | Some r \<Rightarrow> r) [0..<256]"
  note D = shares_bounds [OF assms(2-4)]
  have "mset indices = mset [0..<256]" using assms(1) unfolding sort_ok_def indices_def by blast
  then have "size (mset indices) = size (mset [0..<256])" "set indices = set [0..<256]"
    by (simp_all add: mset_eq_setD del: mset_upt)
  then have ind: "length indices = 256" "\<forall>i \<in> set indices. i < length ?fs"
    using assms(4) by simp_all
  have u: "unat (1 + of_nat x :: u16) = 1 + x" if "x \<in> set ?shares" for x
  proof -
    have "x \<le> ?D" using that by (rule member_le_sum_list) simp
    then show ?thesis using D(1) by (simp add: unat_word_ariths unat_of_nat)
  qed
  then have "map unat ?fs = map (\<lambda>x. 1 + x) ?shares" by (simp only: map_map o_def) (rule map_cong, simp_all)
  then have s: "sum_list (map unat ?fs) = 256 + ?D"
    using assms(4) by (simp only: sum_list_addf sum_list_triv length_map) simp
  have pos: "\<forall>f \<in> set ?fs. 0 < unat f" using u by (simp only: set_map) auto
  have left: "unat (of_nat 32512 - of_nat ?D :: u64) = 32512 - ?D"
  proof -
    have "(of_nat 32512 - of_nat ?D :: u64) = of_nat (32512 - ?D)" using D(1) by (simp only: of_nat_diff)
    moreover have "(32512 - ?D) mod 2 ^ 64 = 32512 - ?D" by (rule mod_less) simp
    ultimately show ?thesis by (simp add: unat_of_nat)
  qed
  define gs where "gs = give_leftover indices (32512 - ?D) ?fs"
  have gs: "length gs = 256" "\<forall>f \<in> set gs. 0 < unat f" "sum_list (map unat gs) = 32768"
    using give_leftover_ok [OF ind(2) pos, of "32512 - ?D"] ind(1) D s assms(4)
    unfolding gs_def by (simp_all only: length_map) simp_all
  have "redistribute sort_unstable_by cs (fl_sum f64 cs) = accumulate 0 gs"
  proof (cases "32512 - ?D = 0")
    case True
    then have "give_leftover indices (32512 - ?D) ?fs = ?fs" by (cases indices) simp_all
    then show ?thesis using True left
      by (simp add: redistribute_def Let_def PROB_TOTAL_u16 gs_def)
  next
    case False
    then show ?thesis using left
      by (simp add: redistribute_def Let_def PROB_TOTAL_u16 gs_def indices_def del: of_nat_numeral)
  qed
  then show ?thesis using accumulate_table [OF gs] by simp
qed

lemma uniform_table: "cdf_table uniform_cdf"
proof -
  have n: "uniform_cdf ! i = of_nat (i * 128)" if "i \<le> 256" for i
  proof (cases "i = 256")
    case True
    then show ?thesis by (simp add: uniform_cdf_def nth_append PROB_TOTAL_u16)
  next
    case False
    have "i * 32768 div 256 = i * 128" by simp
    then show ?thesis using False that by (simp add: uniform_cdf_def nth_append PROB_TOTAL_u16)
  qed
  have u: "unat (uniform_cdf ! i) = i * 128" if "i \<le> 256" for i
    using that unfolding n [OF that] unat_of_nat by simp
  have "uniform_cdf ! i < uniform_cdf ! (i + 1)" if "i < 256" for i
    using u [of i] u [of "i + 1"] that by (simp add: word_less_nat_alt)
  moreover have "length uniform_cdf = 257" by (simp add: uniform_cdf_def)
  ultimately show ?thesis using n [of 0] n [of 256] by (simp add: cdf_table_def)
qed

section \<open>Every table is lawful\<close>

theorem probs_to_cdf_table:
  assumes "sort_ok sort_unstable_by" "length probs = 256" "\<forall>p \<in> set probs. is_f32 p"
  shows "cdf_table (probs_to_cdf sort_unstable_by probs)"
proof -
  let ?cs = "map clamp_prob probs" let ?S = "fl_sum f64 ?cs"
  have cs: "\<forall>c \<in> set ?cs. prob_ok c" "length ?cs = 256" "length ?cs \<le> 256"
    using clamp_prob_ok assms by auto
  have S: "fin ?S" "val ?S \<le> pow2 136"
    using partial_sum_ok [OF cs(1,3)] assms(2) by (auto simp: between_def pow2_def)
  show ?thesis
  proof (cases "fl_le ?S (Num False 0)")
    case True
    then show ?thesis by (simp add: probs_to_cdf_def uniform_table)
  next
    case False
    then have "0 < val ?S" using S(1) le_val [of ?S "Num False 0"] by (simp add: val_Num)
    then have m: "mass_ok ?S" using partial_sum_positive [OF _ cs(1,3)] S by (simp add: mass_ok_def)
    define entries where "entries = cdf_entries (fl_div f64 (fl_nat f64 32768) ?S) (Num False 0) ?cs"
    have e: "length entries = 256" "\<forall>e \<in> set entries. unat e \<le> 32768"
      using cdf_entries_ok [of "[]" ?cs] m cs unfolding entries_def by (simp_all add: fl_sum_def)
    have "fixed_up 0 (entries @ [32768])"
    proof -
      obtain p ps where p: "probs = p # ps" using assms(2) by (cases probs) simp_all
      have "entries ! 0 = 0" using cdf_first [OF m] unfolding entries_def p by simp
      moreover have "unat ((entries @ [32768]) ! i) \<le> 32768" if "i < 257" for i
        using e that by (auto simp: nth_append less_Suc_eq)
      ultimately show ?thesis using e by (auto simp: fixed_up_def nth_append)
    qed
    then have f: "fixed_up 256 (fold fix_step [0..<256] (entries @ [32768]))" by (rule fix_fold) simp
    have r: "cdf_table (redistribute sort_unstable_by ?cs ?S)"
      by (rule redistribute_table [OF assms(1) m cs(1,2)])
    have "probs_to_cdf sort_unstable_by probs =
      (let cdf = fold fix_step [0..<256] (entries @ [32768])
       in if cdf ! 256 \<noteq> 32768 then redistribute sort_unstable_by ?cs ?S else cdf)"
      using False r by (simp add: probs_to_cdf_def Let_def PROB_TOTAL_u16 entries_def cdf_table_def)
    then show ?thesis using r fixed_up_table [OF f] by (auto simp: Let_def)
  qed
qed

end
