(* ===== verification/Fenwick.thy ===== *)
theory Fenwick
  imports Prelude
begin

unbundle bit_operations_syntax

text \<open>
  The 1-indexed Fenwick trees of \<open>src/aether-core/src/entropy/order0.rs\<close> and
  \<open>src/aether-core/src/entropy/rle_predictor.rs\<close>, over any number of entries up to 256. Counts are
  natural numbers here; the models that use the trees show that theirs stay below \<open>2 ^ 32\<close>.
\<close>

section \<open>Operations\<close>

definition lowbit :: "nat \<Rightarrow> nat" where
  "lowbit idx = unat ((of_nat idx :: u64) AND - of_nat idx)"

definition clear_lowbit :: "nat \<Rightarrow> nat" where
  "clear_lowbit idx = unat ((of_nat idx :: u64) AND (of_nat idx - 1))"

text \<open>\<open>for idx in 1..=n { parent = idx + (idx & -idx); tree[parent - 1] += tree[idx - 1] }\<close>\<close>

definition fenwick_rebuild_step :: "nat \<Rightarrow> nat list \<Rightarrow> nat list" where
  "fenwick_rebuild_step idx tree =
     (let parent = idx + lowbit idx
      in if parent \<le> length tree
         then tree[parent - 1 := tree ! (parent - 1) + tree ! (idx - 1)] else tree)"

definition fenwick_rebuild :: "nat list \<Rightarrow> nat list" where
  "fenwick_rebuild counts = fold fenwick_rebuild_step [1..<length counts + 1] counts"

text \<open>Both loops move by the lowest set bit of \<open>idx\<close>; the test for 0 is never false for them.\<close>

function fenwick_add_from :: "nat list \<Rightarrow> nat \<Rightarrow> nat \<Rightarrow> nat list" where
  "fenwick_add_from tree idx delta =
     (if idx \<le> length tree \<and> lowbit idx > 0
      then fenwick_add_from (tree[idx - 1 := tree ! (idx - 1) + delta]) (idx + lowbit idx) delta
      else tree)"
  by auto
termination by (relation "measure (\<lambda>(tree, idx, _). Suc (length tree) - idx)") auto

definition fenwick_add :: "nat list \<Rightarrow> nat \<Rightarrow> nat \<Rightarrow> nat list" where
  "fenwick_add tree i delta = fenwick_add_from tree (i + 1) delta"

function fenwick_prefix :: "nat list \<Rightarrow> nat \<Rightarrow> nat" where
  "fenwick_prefix tree idx =
     (if idx > 0 \<and> clear_lowbit idx < idx then tree ! (idx - 1) + fenwick_prefix tree (clear_lowbit idx)
      else 0)"
  by auto
termination by (relation "measure snd") auto

declare fenwick_add_from.simps [simp del] fenwick_prefix.simps [simp del]

section \<open>The lowest set bit\<close>

function low2 :: "nat \<Rightarrow> nat" where
  "low2 n = (if n = 0 then 0 else if odd n then 1 else 2 * low2 (n div 2))"
  by auto
termination by (relation "measure id") auto

declare low2.simps [simp del]

lemma low2_odd: "odd n \<Longrightarrow> low2 n = 1"
  by (cases "n = 0") (simp_all add: low2.simps [of n])

lemma low2_even: "0 < n \<Longrightarrow> even n \<Longrightarrow> low2 n = 2 * low2 (n div 2)"
  by (simp add: low2.simps [of n])

lemma low2_form: "0 < n \<Longrightarrow> \<exists>q k. n = (2 * q + 1) * 2 ^ k \<and> low2 n = 2 ^ k"
proof (induction n rule: low2.induct)
  case (1 n)
  show ?case
  proof (cases "odd n")
    case True
    then obtain q where "n = 2 * q + 1" by (elim oddE)
    then have "n = (2 * q + 1) * 2 ^ 0" by simp
    then show ?thesis using low2_odd [OF True] by (intro exI [of _ q] exI [of _ 0]) simp
  next
    case False
    then obtain q k where qk: "n div 2 = (2 * q + 1) * 2 ^ k" "low2 (n div 2) = 2 ^ k"
      using 1(1) [OF _ False] 1(2) False by (metis dvd_div_eq_0_iff neq0_conv)
    have "n = 2 * (n div 2)" using False by simp
    then have "n = (2 * q + 1) * 2 ^ Suc k" unfolding qk(1) by simp
    moreover have "low2 n = 2 ^ Suc k" using low2_even [of n] False 1(2) qk(2) by simp
    ultimately show ?thesis by blast
  qed
qed

lemma low2_odd_power: "low2 ((2 * q + 1) * 2 ^ k) = 2 ^ k"
proof (induction k)
  case 0
  show ?case using low2_odd [of "2 * q + 1"] by simp
next
  case (Suc k)
  have h: "(2 * q + 1) * 2 ^ Suc k div 2 = (2 * q + 1) * 2 ^ k" by simp
  have "0 < (2 * q + 1) * 2 ^ Suc k" "even ((2 * q + 1) * 2 ^ Suc k)" by simp_all
  from low2_even [OF this] Suc show ?case unfolding h by (simp only: power_Suc)
qed

lemma low2_bounds: "0 < n \<Longrightarrow> 0 < low2 n \<and> low2 n \<le> n"
  using low2_form [of n] by fastforce

text \<open>The bit tricks of the code compute it.\<close>

lemma and_pred: "0 < n \<Longrightarrow> n AND (n - 1) = n - low2 n"
proof (induction n rule: low2.induct)
  case (1 n)
  show ?case
  proof (cases "odd n")
    case True
    then obtain q where n: "n = 2 * q + 1" by (elim oddE)
    have "(2 * q + 1) AND (2 * q) = 2 * q" by (subst and_nat_unfold) simp
    then show ?thesis using low2_odd [OF True] by (simp add: n)
  next
    case False
    then have "even n" by simp
    then obtain m where n: "n = 2 * m" by (elim evenE)
    then have m: "0 < m" using 1(2) by simp
    then have IH: "m AND (m - 1) = m - low2 m" using 1 n by auto
    have "(2 * m - 1) div 2 = m - 1" using m by simp
    then have "n AND (n - 1) = 2 * (m AND (m - 1))"
      using m by (simp add: n and_nat_unfold [of "2 * m"])
    then show ?thesis using IH low2_even [of n] n m by (simp add: diff_mult_distrib2)
  qed
qed

lemma clear_lowbit_low2:
  assumes "0 < idx" "idx < 2 ^ 64"
  shows "clear_lowbit idx = idx - low2 idx"
proof -
  have u: "unat (of_nat idx :: u64) = idx" using assms(2) by (simp add: unat_of_nat)
  have "(of_nat idx :: u64) - 1 = of_nat (idx - 1)" using assms(1) by (simp add: of_nat_diff)
  moreover have "unat (of_nat (idx - 1) :: u64) = idx - 1" using assms(2) by (simp add: unat_of_nat)
  ultimately show ?thesis
    unfolding clear_lowbit_def by (simp only: unsigned_and_eq u and_pred [OF assms(1)])
qed

lemma lowbit_low2:
  assumes "idx < 2 ^ 64"
  shows "lowbit idx = low2 idx"
proof (cases "idx = 0")
  case False
  let ?w = "of_nat idx :: u64"
  have "?w = (?w AND NOT (?w - 1)) OR (?w AND (?w - 1))"
    by (rule bit_word_eqI) (auto simp: bit_simps)
  also have "\<dots> = (?w AND NOT (?w - 1)) + (?w AND (?w - 1))"
    by (rule disjunctive_add_eq_or [symmetric]) (simp add: bit_eq_iff bit_simps)
  finally have "?w AND - ?w = ?w - (?w AND (?w - 1))"
    by (simp add: minus_eq_not_minus_1 algebra_simps)
  moreover have "?w AND (?w - 1) \<le> ?w" by (rule word_and_le2)
  ultimately have "lowbit idx = unat ?w - clear_lowbit idx"
    by (simp add: lowbit_def clear_lowbit_def unat_sub)
  then show ?thesis
    using False clear_lowbit_low2 [of idx] low2_bounds [of idx] assms by (simp add: unat_of_nat)
qed (simp add: lowbit_def low2.simps)

text \<open>Between \<open>m\<close> and \<open>m + low2 m\<close> the covered ranges stay above \<open>m\<close>.\<close>

lemma low2_add:
  assumes "0 < m" "0 < x" "x < low2 m"
  shows "low2 (m + x) = low2 x" "low2 (m + x) \<le> x"
proof -
  obtain q k where m: "m = (2 * q + 1) * 2 ^ k" "low2 m = 2 ^ k" using low2_form [OF assms(1)] by blast
  obtain p j where x: "x = (2 * p + 1) * 2 ^ j" "low2 x = 2 ^ j" using low2_form [OF assms(2)] by blast
  have "2 ^ j \<le> x" unfolding x(1) by simp
  also have "x < 2 ^ k" using assms(3) unfolding m(2) .
  finally have "j < k" by simp
  then obtain d where d: "k = Suc (j + d)" using less_imp_Suc_add by blast
  have "m + x = (2 * ((2 * q + 1) * 2 ^ d + p) + 1) * 2 ^ j"
    unfolding m(1) x(1) d by (simp add: power_add algebra_simps)
  then show "low2 (m + x) = low2 x" unfolding x(2) by (simp only: low2_odd_power)
  then show "low2 (m + x) \<le> x" using low2_bounds [OF assms(2)] by simp
qed

lemma low2_next:
  assumes "0 < m"
  shows "2 * low2 m \<le> low2 (m + low2 m)"
proof -
  obtain q k where m: "m = (2 * q + 1) * 2 ^ k" "low2 m = 2 ^ k" using low2_form [OF assms] by blast
  have s: "m + low2 m = (q + 1) * 2 ^ Suc k" unfolding m(2) by (subst m(1)) (simp add: algebra_simps)
  obtain p j where q: "q + 1 = (2 * p + 1) * 2 ^ j" using low2_form [of "q + 1"] by auto
  have "m + low2 m = (2 * p + 1) * 2 ^ (j + Suc k)" unfolding s q by (simp add: power_add algebra_simps)
  then have "low2 (m + low2 m) = 2 ^ (j + Suc k)" by (simp only: low2_odd_power)
  moreover have "(2 :: nat) ^ Suc k \<le> 2 ^ (j + Suc k)" by (intro power_increasing) auto
  ultimately show ?thesis using m(2) by simp
qed

section \<open>What the tree holds\<close>

text \<open>Entry \<open>j\<close> is the sum of the counts in \<open>[j - low2 j, j)\<close>.\<close>

definition range_sum :: "nat list \<Rightarrow> nat \<Rightarrow> nat \<Rightarrow> nat" where
  "range_sum counts a b = sum_list (drop a (take b counts))"

lemma range_sum_split:
  assumes "a \<le> b" "b \<le> c"
  shows "range_sum counts a c = range_sum counts a b + range_sum counts b c"
proof -
  have "take c counts = take b counts @ drop b (take c counts)"
    using assms(2) by (metis append_take_drop_id min.absorb1 take_take)
  then have "drop a (take c counts) = drop a (take b counts) @ drop (a - length (take b counts)) (drop b (take c counts))"
    by (metis drop_append)
  moreover have "a - length (take b counts) = 0 \<or> drop b (take c counts) = []"
    using assms(1) by auto
  ultimately show ?thesis by (auto simp: range_sum_def)
qed

lemma range_sum_prefix: "range_sum counts 0 b = sum_list (take b counts)"
  by (simp add: range_sum_def)

lemma range_sum_single: "a < length counts \<Longrightarrow> range_sum counts a (Suc a) = counts ! a"
  by (simp add: range_sum_def take_Suc_conv_app_nth)

lemma range_sum_empty [simp]: "b \<le> a \<Longrightarrow> range_sum counts a b = 0"
  by (simp add: range_sum_def)

lemma range_sum_update:
  assumes "i < length counts"
  shows "range_sum (counts[i := counts ! i + d]) a b = range_sum counts a b + (if a \<le> i \<and> i < b then d else 0)"
proof -
  consider "b \<le> i" | "i < a" | "a \<le> i" "i < b" by linarith
  then show ?thesis
  proof cases
    case 1
    then show ?thesis by (simp add: range_sum_def)
  next
    case 2
    then show ?thesis by (simp add: range_sum_def take_update_swap)
  next
    case 3
    let ?xs = "drop a (take b counts)"
    have "drop a (take b (counts[i := counts ! i + d])) = ?xs[i - a := ?xs ! (i - a) + d]"
      using 3 assms by (simp add: take_update_swap drop_update_swap)
    then show ?thesis
      using 3 assms sum_list_update_nat [of "i - a" ?xs "?xs ! (i - a) + d"] by (simp add: range_sum_def)
  qed
qed

definition is_fenwick :: "nat list \<Rightarrow> nat list \<Rightarrow> bool" where
  "is_fenwick tree counts \<longleftrightarrow> length tree = length counts \<and> length counts \<le> 256
     \<and> (\<forall>j. 0 < j \<and> j \<le> length counts \<longrightarrow> tree ! (j - 1) = range_sum counts (j - low2 j) j)"

section \<open>Prefix sums\<close>

lemma fenwick_prefix_correct:
  assumes "is_fenwick tree counts" "n \<le> length counts"
  shows "fenwick_prefix tree n = sum_list (take n counts)"
  using assms(2)
proof (induction n rule: less_induct)
  case (less n)
  show ?case
  proof (cases "n = 0")
    case False
    have n: "0 < n" "n \<le> 256" "n < 2 ^ 64" using False less.prems assms(1) by (auto simp: is_fenwick_def)
    note b = low2_bounds [OF n(1)]
    have c: "clear_lowbit n = n - low2 n" by (rule clear_lowbit_low2 [OF n(1,3)])
    have lt: "n - low2 n < n" using b n by simp
    have "fenwick_prefix tree n = tree ! (n - 1) + fenwick_prefix tree (n - low2 n)"
      using n lt c by (subst fenwick_prefix.simps) simp
    also have "\<dots> = range_sum counts (n - low2 n) n + sum_list (take (n - low2 n) counts)"
      using less.IH [OF lt] less.prems n(1) assms(1) by (simp add: is_fenwick_def)
    also have "\<dots> = sum_list (take n counts)"
      using range_sum_split [of 0 "n - low2 n" n counts] by (simp add: range_sum_prefix)
    finally show ?thesis .
  qed (simp add: fenwick_prefix.simps)
qed

section \<open>Adding to one count\<close>

text \<open>The visited entries are exactly those whose range contains \<open>i\<close>.\<close>

lemma length_fenwick_add_from [simp]: "length (fenwick_add_from tree idx d) = length tree"
  by (induction tree idx d rule: fenwick_add_from.induct) (subst fenwick_add_from.simps, simp)

lemma pred_eq: "m - Suc 0 = j - Suc 0 \<Longrightarrow> 0 < m \<Longrightarrow> 0 < j \<Longrightarrow> m = j"
  by simp

lemma fenwick_add_from_nth:
  assumes "length tree \<le> 256" "0 < m" "m - low2 m \<le> i" "i < m" "0 < j" "j \<le> length tree"
  shows "fenwick_add_from tree m d ! (j - 1) = tree ! (j - 1)
    + (if m \<le> j \<and> j - low2 j \<le> i then d else 0)"
  using assms
proof (induction tree m d rule: fenwick_add_from.induct)
  case (1 tree m d)
  show ?case
  proof (cases "m \<le> length tree")
    case False
    then show ?thesis using 1(7) by (subst fenwick_add_from.simps) simp
  next
    case True
    then have m: "m < 2 ^ 64" using 1(2) by simp
    have l: "lowbit m = low2 m" by (rule lowbit_low2 [OF m])
    note b = low2_bounds [OF 1(3)]
    let ?m = "m + low2 m"
    have up: "?m - low2 ?m \<le> i"
      using low2_next [OF 1(3)] 1(4) b by linarith
    let ?tree = "tree[m - 1 := tree ! (m - 1) + d]"
    have IH: "fenwick_add_from ?tree ?m d ! (j - 1) = ?tree ! (j - 1)
        + (if ?m \<le> j \<and> j - low2 j \<le> i then d else 0)"
      using 1(1) True b up 1(2-7) l by simp
    have eq: "fenwick_add_from tree m d = fenwick_add_from ?tree ?m d"
      using True b by (subst fenwick_add_from.simps) (simp add: l)
    have "\<not> j - low2 j \<le> i" if mj: "m < j" "j < ?m"
    proof -
      obtain x where x: "m + x = j" "0 < x" using less_imp_add_positive [OF mj(1)] by blast
      then have "x < low2 m" using mj(2) by linarith
      then show ?thesis using low2_add(2) [OF 1(3) x(2)] 1(5) x(1) by simp
    qed
    then show ?thesis
      unfolding eq IH using 1(3-7) True b
      by (cases "m = j") (auto simp: nth_list_update dest: pred_eq)
  qed
qed

lemma fenwick_add_correct:
  assumes "is_fenwick tree counts" "i < length counts"
  shows "is_fenwick (fenwick_add tree i d) (counts[i := counts ! i + d])"
proof -
  have len: "length tree = length counts" "length tree \<le> 256" using assms(1) by (auto simp: is_fenwick_def)
  have "fenwick_add tree i d ! (j - 1) = range_sum (counts[i := counts ! i + d]) (j - low2 j) j"
    if j: "0 < j" "j \<le> length counts" for j
  proof -
    have b: "0 < low2 (i + 1)" "low2 (i + 1) \<le> i + 1" using low2_bounds [of "i + 1"] by auto
    have "fenwick_add tree i d ! (j - 1) = tree ! (j - 1)
        + (if i + 1 \<le> j \<and> j - low2 j \<le> i then d else 0)"
      unfolding fenwick_add_def using len j b by (intro fenwick_add_from_nth) auto
    moreover have "tree ! (j - 1) = range_sum counts (j - low2 j) j"
      using assms(1) j by (simp add: is_fenwick_def)
    ultimately show ?thesis by (auto simp: range_sum_update [OF assms(2)])
  qed
  then show ?thesis using len by (simp add: is_fenwick_def fenwick_add_def)
qed

section \<open>Building a tree\<close>

text \<open>The entries that are added into entry \<open>j\<close>: their ranges tile all of its range but the last count.\<close>

definition kids :: "nat \<Rightarrow> nat set" where
  "kids j = {c. 0 < c \<and> c + low2 c = j}"

lemma kids_less: "c \<in> kids j \<Longrightarrow> c < j"
  using low2_bounds [of c] by (auto simp: kids_def)

lemma finite_kids [simp]: "finite (kids j)"
  by (rule finite_subset [of _ "{..<j}"]) (auto dest: kids_less)

lemma low2_diff:
  assumes "low2 j = 2 ^ t" "i < t" "0 < j"
  shows "low2 (j - 2 ^ i) = 2 ^ i" "2 ^ i < j"
proof -
  obtain q k where j: "j = (2 * q + 1) * 2 ^ k" "low2 j = 2 ^ k" using low2_form [OF assms(3)] by blast
  then have t: "k = t" using assms(1) by simp
  obtain d where d: "t = Suc (i + d)" using less_imp_Suc_add [OF assms(2)] by blast
  let ?a = "(2 * q + 1) * 2 ^ d"
  have a: "0 < ?a" by simp
  have jj: "j = 2 * ?a * 2 ^ i" unfolding j t d by (simp add: power_add algebra_simps)
  have "j - 2 ^ i = (2 * (?a - 1) + 1) * 2 ^ i"
  proof -
    have "2 * (?a - 1) + 1 = 2 * ?a - 1" using a by linarith
    then show ?thesis unfolding jj by (simp only: diff_mult_distrib mult_1)
  qed
  then show "low2 (j - 2 ^ i) = 2 ^ i" by (simp only: low2_odd_power)
  have "1 < 2 * ?a" using a by linarith
  then have "1 * 2 ^ i < 2 * ?a * (2 :: nat) ^ i" by (intro mult_strict_right_mono) auto
  then show "2 ^ i < j" unfolding jj by (simp only: mult_1)
qed

lemma kids_eq:
  assumes "low2 j = 2 ^ t" "0 < j"
  shows "kids j = (\<lambda>i. j - 2 ^ i) ` {..<t}"
proof
  show "(\<lambda>i. j - 2 ^ i) ` {..<t} \<subseteq> kids j"
  proof (clarsimp simp: kids_def)
    fix i assume "i < t"
    then show "2 ^ i < j \<and> j - 2 ^ i + low2 (j - 2 ^ i) = j"
      using low2_diff [OF assms(1) _ assms(2), of i] by simp
  qed
  show "kids j \<subseteq> (\<lambda>i. j - 2 ^ i) ` {..<t}"
  proof
    fix c assume c: "c \<in> kids j"
    then have c': "0 < c" "c + low2 c = j" by (auto simp: kids_def)
    obtain q i where i: "low2 c = 2 ^ i" using low2_form [OF c'(1)] by blast
    have "2 * 2 ^ i \<le> (2 :: nat) ^ t" using low2_next [OF c'(1)] c'(2) i assms(1) by simp
    then have "(2 :: nat) ^ Suc i \<le> 2 ^ t" by simp
    from power_le_imp_le_exp [OF _ this] have "i < t" by simp
    moreover have "c = j - 2 ^ i" using c'(2) i by simp
    ultimately show "c \<in> (\<lambda>i. j - 2 ^ i) ` {..<t}" by blast
  qed
qed

lemma kids_tile:
  assumes "0 < j" "j \<le> length counts"
  shows "counts ! (j - 1) + (\<Sum>c \<in> kids j. range_sum counts (c - low2 c) c) = range_sum counts (j - low2 j) j"
proof -
  obtain q t where t: "low2 j = 2 ^ t" using low2_form [OF assms(1)] by blast
  have le: "2 ^ t \<le> j" using low2_bounds [OF assms(1)] t by simp
  have inj: "inj_on (\<lambda>i. j - 2 ^ i) {..<t}"
  proof (rule inj_onI)
    fix a b assume ab: "a \<in> {..<t}" "b \<in> {..<t}" "j - 2 ^ a = j - 2 ^ b"
    then have "2 ^ a < j" "2 ^ b < j" using low2_diff(2) [OF t _ assms(1)] by auto
    with ab(3) have "(2 :: nat) ^ a = 2 ^ b" by linarith
    then show "a = b" by simp
  qed
  have "(\<Sum>c \<in> kids j. range_sum counts (c - low2 c) c)
      = (\<Sum>i < t. range_sum counts (j - 2 ^ i - low2 (j - 2 ^ i)) (j - 2 ^ i))"
    unfolding kids_eq [OF t assms(1)] by (subst sum.reindex [OF inj]) (simp add: o_def)
  also have "\<dots> = (\<Sum>i < t. range_sum counts (j - 2 ^ Suc i) (j - 2 ^ i))"
    using low2_diff(1) [OF t _ assms(1)] by (intro sum.cong) (auto simp: mult_2)
  also have "\<dots> = range_sum counts (j - 2 ^ t) (j - 1)"
    using le
  proof (induction t)
    case (Suc t)
    have "2 ^ t \<le> j" using Suc.prems by simp
    moreover have "j - 2 ^ Suc t \<le> j - 2 ^ t" "j - 2 ^ t \<le> j - 1"
      by (simp_all add: diff_le_mono2)
    ultimately show ?case
      using Suc.IH range_sum_split [of "j - 2 ^ Suc t" "j - 2 ^ t" "j - 1" counts] by simp
  qed simp
  finally show ?thesis
    using assms t le range_sum_split [of "j - 2 ^ t" "j - 1" j counts] range_sum_single [of "j - 1" counts]
    by (simp add: diff_le_mono2)
qed

lemma length_rebuild_fold [simp]: "length (fold fenwick_rebuild_step idxs tree) = length tree"
  by (induction idxs arbitrary: tree) (auto simp: fenwick_rebuild_step_def Let_def)

lemma fenwick_rebuild_step_nth:
  assumes "0 < j" "j \<le> length tree" "0 < k"
  shows "fenwick_rebuild_step k tree ! (j - 1)
    = tree ! (j - 1) + (if k + lowbit k = j then tree ! (k - 1) else 0)"
proof -
  have "k + lowbit k - 1 = j - 1 \<longleftrightarrow> k + lowbit k = j" using assms by auto
  then show ?thesis using assms by (auto simp: fenwick_rebuild_step_def Let_def nth_list_update)
qed

lemma fenwick_rebuild_fold:
  assumes "length counts \<le> 256" "k \<le> length counts" "0 < j" "j \<le> length counts"
  shows "fold fenwick_rebuild_step [1..<k + 1] counts ! (j - 1)
    = counts ! (j - 1) + (\<Sum>c \<in> {c \<in> kids j. c \<le> k}. range_sum counts (c - low2 c) c)"
  using assms(2-4)
proof (induction k arbitrary: j)
  case 0
  have "{c \<in> kids j. c \<le> 0} = {}" by (auto simp: kids_def)
  then show ?case by simp
next
  case (Suc k)
  let ?t = "fold fenwick_rebuild_step [1..<k + 1] counts"
  have l: "lowbit (Suc k) = low2 (Suc k)" using Suc.prems(1) assms(1) by (intro lowbit_low2) simp
  have fold: "fold fenwick_rebuild_step [1..<Suc k + 1] counts = fenwick_rebuild_step (Suc k) ?t" by simp
  have IH: "?t ! (j - 1) = counts ! (j - 1) + (\<Sum>c \<in> {c \<in> kids j. c \<le> k}. range_sum counts (c - low2 c) c)"
    by (rule Suc.IH) (use Suc.prems in auto)
  have "{c \<in> kids (Suc k). c \<le> k} = kids (Suc k)" by (auto dest: kids_less)
  then have full: "?t ! k = range_sum counts (Suc k - low2 (Suc k)) (Suc k)"
    using Suc.IH [of "Suc k"] Suc.prems(1) kids_tile [of "Suc k" counts] by simp
  show ?case
  proof (cases "Suc k \<in> kids j")
    case True
    then have j: "Suc k + low2 (Suc k) = j" by (simp add: kids_def)
    have "{c \<in> kids j. c \<le> Suc k} = insert (Suc k) {c \<in> kids j. c \<le> k}" using True by (auto simp: le_Suc_eq)
    then have "(\<Sum>c \<in> {c \<in> kids j. c \<le> Suc k}. range_sum counts (c - low2 c) c)
        = range_sum counts (Suc k - low2 (Suc k)) (Suc k)
          + (\<Sum>c \<in> {c \<in> kids j. c \<le> k}. range_sum counts (c - low2 c) c)" by simp
    moreover have "fold fenwick_rebuild_step [1..<Suc k + 1] counts ! (j - 1) = ?t ! (j - 1) + ?t ! k"
      unfolding fold using Suc.prems j by (subst fenwick_rebuild_step_nth) (simp_all add: l del: upt_Suc)
    ultimately show ?thesis using IH full by simp
  next
    case False
    then have "Suc k + low2 (Suc k) \<noteq> j" by (simp add: kids_def)
    then have "fold fenwick_rebuild_step [1..<Suc k + 1] counts ! (j - 1) = ?t ! (j - 1)"
      unfolding fold using Suc.prems by (subst fenwick_rebuild_step_nth) (simp_all add: l del: upt_Suc)
    moreover have "{c \<in> kids j. c \<le> Suc k} = {c \<in> kids j. c \<le> k}" using False by (auto simp: le_Suc_eq)
    ultimately show ?thesis using IH by simp
  qed
qed

lemma fenwick_rebuild_correct:
  assumes "length counts \<le> 256"
  shows "is_fenwick (fenwick_rebuild counts) counts"
proof -
  have "fenwick_rebuild counts ! (j - 1) = range_sum counts (j - low2 j) j"
    if j: "0 < j" "j \<le> length counts" for j
  proof -
    have "{c \<in> kids j. c \<le> length counts} = kids j" using j(2) by (auto dest: kids_less)
    then show ?thesis
      unfolding fenwick_rebuild_def using fenwick_rebuild_fold [OF assms le_refl j] kids_tile [OF j] by simp
  qed
  then show ?thesis using assms by (simp add: is_fenwick_def fenwick_rebuild_def)
qed

lemma is_fenwick_unique:
  assumes "is_fenwick t counts" "is_fenwick u counts"
  shows "t = u"
proof (rule nth_equalityI)
  show "length t = length u" using assms by (simp add: is_fenwick_def)
  fix i assume "i < length t"
  then have "0 < Suc i \<and> Suc i \<le> length counts" using assms by (simp add: is_fenwick_def)
  then show "t ! i = u ! i" using assms unfolding is_fenwick_def by (metis diff_Suc_1)
qed

end
