(* ===== verification/Quantized.thy ===== *)
theory Quantized
  imports CdfTable Fenwick
begin

text \<open>
  What the run-length predictor and the neural predictor share
  (\<^verbatim>\<open>entropy/rle_predictor.rs\<close>, \<^verbatim>\<open>entropy/neural_ssm.rs\<close>): a
  cumulative table quantized from floating-point sums with one count reserved per symbol, and the
  binary lifting that finds a symbol by evaluating eight of its boundaries. The lemmas say when the
  table is lawful although every operation rounds, and that the search finds the symbol's interval.
\<close>

section \<open>One boundary\<close>

definition NUM_LITS :: nat where "NUM_LITS = 254"

definition quantized_boundary :: "float_value \<Rightarrow> float_value \<Rightarrow> nat \<Rightarrow> nat" where
  "quantized_boundary cumulative tot symbol_index =
     (let scalable = unat PROB_TOTAL - 256;
          share = fl_floor (fl_div f64 (fl_mul f64 cumulative (fl_nat f64 scalable)) tot);
          value = (symbol_index + fl_to_nat 32 share) mod 2 ^ 32
      in min value (unat PROB_TOTAL))"

text \<open>The mass to distribute, and the sums that are quantized against it.\<close>

definition mass_range :: "float_value \<Rightarrow> bool" where
  "mass_range tot \<longleftrightarrow> fin tot \<and> 1 / 2 ^ 20 \<le> val tot \<and> val tot \<le> 2 ^ 60"

definition part_of :: "float_value \<Rightarrow> float_value \<Rightarrow> bool" where
  "part_of cum tot \<longleftrightarrow> fin cum \<and> 0 \<le> val cum \<and> val cum \<le> val tot"

lemma share_value:
  assumes "mass_range tot" "part_of cum tot"
  defines "p \<equiv> rnd f64 (val cum * 32512)"
  shows "fin (fl_div f64 (fl_mul f64 cum (fl_nat f64 32512)) tot)"
    "val (fl_div f64 (fl_mul f64 cum (fl_nat f64 32512)) tot) = rnd f64 (p / val tot)"
    "0 \<le> rnd f64 (p / val tot)" "rnd f64 (p / val tot) \<le> 32512 + 1 / 2" "0 \<le> p"
proof -
  have t: "fin tot" "1 / 2 ^ 20 \<le> val tot" "val tot \<le> 2 ^ 60" "0 < val tot" "val tot \<noteq> 0"
    using assms(1) by (auto simp: mass_range_def)
  have c: "fin cum" "0 \<le> val cum" "val cum \<le> val tot" using assms(2) by (auto simp: part_of_def)
  have n: "fin (fl_nat f64 32512)" "val (fl_nat f64 32512) = 32512" using nat_64 [of 32512] by simp_all
  have b: "bound f64 (of_nat 32512 * pow2 60)" by (rule bound_f64_pow) simp_all
  have "between 0 (of_nat 32512 * pow2 60) (fl_mul f64 cum (fl_nat f64 32512))"
    by (rule between_mul [of 0 "2 ^ 60" _ 0 32512])
      (use b c t n in \<open>simp_all add: between_def pow2_def\<close>)
  then have m: "fin (fl_mul f64 cum (fl_nat f64 32512))" and vm: "val (fl_mul f64 cum (fl_nat f64 32512)) = p"
    using val_mul [OF c(1) n(1)] n(2) unfolding p_def by (auto simp: between_def)
  show p0: "0 \<le> p" unfolding p_def using rnd_mono [of 0 "val cum * 32512" f64] c by simp
  have "p \<le> rnd f64 (val tot * 32512)" unfolding p_def by (rule rnd_mono) (use c in simp_all)
  also have "\<dots> \<le> val tot * 32512 * (1 + ulp64)"
  proof (rule rnd64_close(1))
    have "pow2 (- 1000) \<le> 1 / 2 ^ 20" using pow2_mono [of "- 1000" "- 20"] by (simp add: pow2_def)
    then show "pow2 (- 1000) \<le> val tot * 32512" using t(2,4) by linarith
  qed
  finally have "p / val tot \<le> 32512 * (1 + ulp64)" using t(4) by (simp add: pos_divide_le_eq mult_ac)
  also have "\<dots> \<le> 32512 + 1 / 2" by (simp add: ulp64_def)
  finally have up: "p / val tot \<le> 32512 + 1 / 2" .
  have lo: "0 \<le> p / val tot" using p0 t(4) by simp
  have h: "bound f64 (65025 / 2)" using bound_dyadic [of f64 65025 1] by simp
  have r: "0 \<le> rnd f64 (p / val tot) \<and> rnd f64 (p / val tot) \<le> 65025 / 2"
    using rnd_between [of f64 0 "65025 / 2" "p / val tot"] h lo up by simp
  then show "0 \<le> rnd f64 (p / val tot)" "rnd f64 (p / val tot) \<le> 32512 + 1 / 2" by simp_all
  obtain s where s: "fl_div f64 (fl_mul f64 cum (fl_nat f64 32512)) tot = fl_round f64 s (p / val tot)"
    using div_round [OF m t(1,5), of f64] vm by auto
  have "between 0 (65025 / 2) (fl_round f64 s (p / val tot))"
    by (rule fl_round_between) (use h lo up in simp_all)
  then show "fin (fl_div f64 (fl_mul f64 cum (fl_nat f64 32512)) tot)"
    "val (fl_div f64 (fl_mul f64 cum (fl_nat f64 32512)) tot) = rnd f64 (p / val tot)"
    unfolding s using fl_round_val by (auto simp: between_def)
qed

definition share_floor :: "float_value \<Rightarrow> float_value \<Rightarrow> nat" where
  "share_floor cum tot = nat \<lfloor>rnd f64 (rnd f64 (val cum * 32512) / val tot)\<rfloor>"

lemma share_floor_le: "mass_range tot \<Longrightarrow> part_of cum tot \<Longrightarrow> share_floor cum tot \<le> 32512"
proof -
  assume "mass_range tot" "part_of cum tot"
  from share_value(4) [OF this] have "share_floor cum tot \<le> nat \<lfloor>32512 + 1 / 2 :: rat\<rfloor>"
    unfolding share_floor_def by (intro nat_mono floor_mono)
  moreover have "\<lfloor>32512 + 1 / 2 :: rat\<rfloor> = 32512" by (rule floor_unique) simp_all
  ultimately show ?thesis by simp
qed

lemma share_floor_mono:
  assumes "mass_range tot" "val cum \<le> val cum'"
  shows "share_floor cum tot \<le> share_floor cum' tot"
proof -
  have "0 < val tot" using assms(1) by (auto simp: mass_range_def)
  then have "rnd f64 (val cum * 32512) / val tot \<le> rnd f64 (val cum' * 32512) / val tot"
    using assms(2) by (intro divide_right_mono rnd_mono) simp_all
  then show ?thesis unfolding share_floor_def by (intro nat_mono floor_mono rnd_mono) simp_all
qed

lemma quantized_boundary_value:
  assumes "mass_range tot" "part_of cum tot" "i \<le> 255"
  shows "quantized_boundary cum tot i = i + share_floor cum tot"
    "quantized_boundary cum tot i < 32768"
proof -
  note v = share_value [OF assms(1,2)]
  have f: "fl_to_nat 32 (fl_floor (fl_div f64 (fl_mul f64 cum (fl_nat f64 32512)) tot))
      = min (share_floor cum tot) (2 ^ 32 - 1)"
    using floor_val [OF v(1)] v(2) by (simp add: to_nat_val share_floor_def)
  then show "quantized_boundary cum tot i = i + share_floor cum tot"
    using share_floor_le [OF assms(1,2)] assms(3)
    by (simp add: quantized_boundary_def Let_def PROB_TOTAL_u16)
  then show "quantized_boundary cum tot i < 32768"
    using share_floor_le [OF assms(1,2)] assms(3) by simp
qed

section \<open>The whole table\<close>

text \<open>Boundaries \<open>0\<close>, of the first symbol, of the second, of every literal, and the end.\<close>

definition quantized_table :: "float_value \<Rightarrow> float_value \<Rightarrow> (nat \<Rightarrow> float_value) \<Rightarrow> u16 list" where
  "quantized_table w0 tot cums =
     0 # of_nat (quantized_boundary w0 tot 1)
       # map (\<lambda>m. of_nat (quantized_boundary (cums m) tot (2 + m))) [0..<NUM_LITS] @ [ucast PROB_TOTAL]"

definition spread :: "float_value \<Rightarrow> float_value \<Rightarrow> (nat \<Rightarrow> float_value) \<Rightarrow> bool" where
  "spread w0 tot cums \<longleftrightarrow> mass_range tot \<and> part_of w0 tot \<and> (\<forall>m < 254. part_of (cums m) tot)
     \<and> val w0 \<le> val (cums 0) \<and> (\<forall>m < 253. val (cums m) \<le> val (cums (m + 1)))"

definition boundary_at :: "float_value \<Rightarrow> float_value \<Rightarrow> (nat \<Rightarrow> float_value) \<Rightarrow> nat \<Rightarrow> nat" where
  "boundary_at w0 tot cums i =
     (if i = 0 then 0 else if i = 1 then quantized_boundary w0 tot 1
      else if i < 256 then quantized_boundary (cums (i - 2)) tot i else 32768)"

lemma quantized_table_nth:
  assumes "i \<le> 256"
  shows "quantized_table w0 tot cums ! i = of_nat (boundary_at w0 tot cums i)"
proof -
  consider "i = 0" | "i = 1" | m where "i = m + 2" "m < 254" | "i = 256"
    using assms less_imp_add_positive [of 1 i] that(3) [of "i - 2"] by linarith
  then show ?thesis
    by cases (simp_all add: quantized_table_def boundary_at_def nth_append NUM_LITS_def nth_Cons' PROB_TOTAL_u16)
qed

lemma boundary_at_less:
  assumes "spread w0 tot cums" "i < 256"
  shows "boundary_at w0 tot cums i < boundary_at w0 tot cums (i + 1)"
    "boundary_at w0 tot cums (i + 1) \<le> 32768"
proof -
  note s = assms(1) [unfolded spread_def]
  have m: "mass_range tot" and w: "part_of w0 tot" and c: "\<And>m. m < 254 \<Longrightarrow> part_of (cums m) tot"
    and w0: "val w0 \<le> val (cums 0)" and mono: "\<And>m. m < 253 \<Longrightarrow> val (cums m) \<le> val (cums (m + 1))"
    using s by auto
  note qw = quantized_boundary_value [OF m w] and qc = quantized_boundary_value [OF m c]
  consider "i = 0" | "i = 1" | "i = 255" | "2 \<le> i" "i < 255" using assms(2) by linarith
  then show "boundary_at w0 tot cums i < boundary_at w0 tot cums (i + 1)"
  proof cases
    case 1
    then show ?thesis using qw(1) [of 1] by (simp add: boundary_at_def)
  next
    case 2
    then show ?thesis using qw(1) [of 1] qc(1) [of 0 2] share_floor_mono [OF m w0]
      by (simp add: boundary_at_def flip: numeral_2_eq_2)
  next
    case 3
    then show ?thesis using qc(2) [of 253 255] by (simp add: boundary_at_def)
  next
    case 4
    then have i: "i - 2 < 253" "Suc i - 2 = Suc (i - 2)" by simp_all
    then show ?thesis using qc(1) [of "i - 2" i] qc(1) [of "i - 1" "i + 1"] share_floor_mono [OF m mono [OF i(1)]] 4
      by (simp add: boundary_at_def)
  qed
  show "boundary_at w0 tot cums (i + 1) \<le> 32768"
    by (simp add: boundary_at_def quantized_boundary_def Let_def PROB_TOTAL_u16)
qed

lemma quantized_table_unat:
  assumes "i \<le> 256"
  shows "unat (quantized_table w0 tot cums ! i) = boundary_at w0 tot cums i"
proof -
  have "boundary_at w0 tot cums i \<le> 32768"
    by (simp add: boundary_at_def quantized_boundary_def Let_def PROB_TOTAL_u16)
  then show ?thesis unfolding quantized_table_nth [OF assms] by (simp add: unat_of_nat)
qed

theorem quantized_table_lawful:
  assumes "spread w0 tot cums"
  shows "cdf_table (quantized_table w0 tot cums)"
proof -
  have "quantized_table w0 tot cums ! i < quantized_table w0 tot cums ! (i + 1)" if "i < 256" for i
    using boundary_at_less(1) [OF assms that] quantized_table_unat [of i] quantized_table_unat [of "i + 1"] that
    by (simp add: word_less_nat_alt)
  moreover have "length (quantized_table w0 tot cums) = 257" by (simp add: quantized_table_def NUM_LITS_def)
  moreover have "quantized_table w0 tot cums ! 0 = 0" "quantized_table w0 tot cums ! 256 = 32768"
    using quantized_table_nth [of 0] quantized_table_nth [of 256] by (simp_all add: boundary_at_def)
  ultimately show ?thesis by (simp add: cdf_table_def)
qed

section \<open>The search\<close>

text \<open>
  One step over the literals: \<open>(lo_m, cum, lo_value, hi_value)\<close>, with what the code accumulates
  (one count or two) and the boundary it evaluates as arguments.
\<close>

definition search_step ::
    "('a \<Rightarrow> nat \<Rightarrow> 'a) \<Rightarrow> (nat \<Rightarrow> 'a \<Rightarrow> nat) \<Rightarrow> nat \<Rightarrow> nat \<Rightarrow> nat \<times> 'a \<times> nat \<times> nat \<Rightarrow> nat \<times> 'a \<times> nat \<times> nat" where
  "search_step widen bnd freq step st =
     (let (lo_m, cum, lo_value, hi_value) = st;
          cand_m = lo_m + step
      in if cand_m < NUM_LITS then
           let cand = widen cum (cand_m - 1);
               mid_value = bnd cand_m cand
           in if mid_value \<le> freq then (cand_m, cand, mid_value, hi_value)
              else (lo_m, cum, lo_value, mid_value)
         else st)"

definition search_inv :: "(nat \<Rightarrow> 'a) \<Rightarrow> (nat \<Rightarrow> nat) \<Rightarrow> nat \<Rightarrow> nat \<Rightarrow> nat \<times> 'a \<times> nat \<times> nat \<Rightarrow> bool" where
  "search_inv cums V freq k st \<longleftrightarrow>
     (case st of (lo_m, cum, lo_value, hi_value) \<Rightarrow>
        (\<exists>q. lo_m = q * 2 ^ k) \<and> lo_m < 254 \<and> cum = cums lo_m
        \<and> lo_value = V lo_m \<and> hi_value = V (min (lo_m + 2 ^ k) 254)
        \<and> lo_value \<le> freq \<and> freq < hi_value)"

text \<open>What is accumulated, and the boundaries: both functions of the candidate.\<close>

definition widens :: "('a \<Rightarrow> nat \<Rightarrow> 'a) \<Rightarrow> (nat \<Rightarrow> 'a) \<Rightarrow> bool" where
  "widens widen cums \<longleftrightarrow> (\<forall>q k lo. lo = 2 * q * 2 ^ k \<and> lo + 2 ^ k < 254 \<longrightarrow>
     widen (cums lo) (lo + 2 ^ k - 1) = cums (lo + 2 ^ k))"

lemma search_step_inv:
  assumes "widens widen cums" "\<forall>m < 254. bnd m (cums m) = V m" "search_inv cums V freq (Suc k) st"
  shows "search_inv cums V freq k (search_step widen bnd freq (2 ^ k) st)"
proof -
  obtain lo cum lv hv where st: "st = (lo, cum, lv, hv)" by (cases st)
  obtain q where q: "lo = q * 2 ^ Suc k" using assms(3) by (auto simp: search_inv_def st)
  have i: "lo < 254" "cum = cums lo" "lv = V lo" "hv = V (min (lo + 2 ^ k + 2 ^ k) 254)" "lv \<le> freq" "freq < hv"
    using assms(3) by (auto simp: search_inv_def st mult_2 add.assoc)
  have c: "lo = 2 * q * 2 ^ k" "lo + 2 ^ k = (2 * q + 1) * 2 ^ k" by (simp_all add: q algebra_simps)
  then have p: "\<exists>p. lo = p * 2 ^ k" "\<exists>p. lo + 2 ^ k = p * 2 ^ k" by blast+
  show ?thesis
  proof (cases "lo + 2 ^ k < 254")
    case True
    then have e: "widen cum (lo + 2 ^ k - 1) = cums (lo + 2 ^ k)"
      using assms(1) i(2) c(1) unfolding widens_def by blast
    show ?thesis
      using True i p assms(2) [rule_format, OF True]
      unfolding st search_step_def Let_def prod.case NUM_LITS_def e search_inv_def
      by (simp add: not_le split: if_splits)
  next
    case False
    then show ?thesis using i p unfolding st search_step_def Let_def prod.case NUM_LITS_def search_inv_def
      by (simp add: min_def)
  qed
qed

lemma search_fold_inv:
  assumes "widens widen cums" "\<forall>m < 254. bnd m (cums m) = V m"
  shows "search_inv cums V freq k st \<Longrightarrow>
    search_inv cums V freq 0 (fold (search_step widen bnd freq) (map (\<lambda>i. 2 ^ i) (rev [0..<k])) st)"
proof (induction k arbitrary: st)
  case (Suc k)
  from Suc.IH [OF search_step_inv [where V = V and bnd = bnd and cums = cums, OF assms Suc.prems]] show ?case by simp
qed simp

lemma search_correct:
  assumes "widens widen cums" "\<forall>m < 254. bnd m (cums m) = V m" "V 0 \<le> freq" "freq < V 254"
  shows "\<exists>m. fold (search_step widen bnd freq) [128, 64, 32, 16, 8, 4, 2, 1] (0, cums 0, V 0, V 254)
      = (m, cums m, V m, V (m + 1)) \<and> m < 254 \<and> V m \<le> freq \<and> freq < V (m + 1)"
proof -
  have "[128, 64, 32, 16, 8, 4, 2, 1] = map (\<lambda>i. (2 :: nat) ^ i) (rev [0..<8 :: nat])"
    by (simp add: upt_rec)
  moreover have "search_inv cums V freq 8 (0, cums 0, V 0, V 254)"
    using assms(3,4) by (simp add: search_inv_def)
  ultimately have "search_inv cums V freq 0
      (fold (search_step widen bnd freq) [128, 64, 32, 16, 8, 4, 2, 1] (0, cums 0, V 0, V 254))"
    using search_fold_inv [where V = V and bnd = bnd and cums = cums and k = 8, OF assms(1,2)] by simp
  then show ?thesis by (auto simp: search_inv_def min_def split: prod.splits)
qed

lemma fenwick_extend:
  assumes "is_fenwick tree counts" "lo = 2 * q * 2 ^ k" "lo + 2 ^ k \<le> length counts"
  shows "sum_list (take lo counts) + tree ! (lo + 2 ^ k - 1) = sum_list (take (lo + 2 ^ k) counts)"
proof -
  have "lo + 2 ^ k = (2 * q + 1) * 2 ^ k" by (simp add: assms(2) algebra_simps)
  then have "low2 (lo + 2 ^ k) = 2 ^ k" by (simp only: low2_odd_power)
  moreover have "0 < lo + 2 ^ k" by simp
  ultimately have "tree ! (lo + 2 ^ k - 1) = range_sum counts lo (lo + 2 ^ k)"
    using assms(1,3) unfolding is_fenwick_def by (metis add_diff_cancel_right')
  then show ?thesis using range_sum_split [of 0 lo "lo + 2 ^ k" counts] by (simp add: range_sum_prefix)
qed

section \<open>The sums\<close>

text \<open>
  The cumulative mass up to a literal: the mass of the run symbols, one product per counting model,
  and the pseudocounts. The normalizer is the same sum at the last literal.
\<close>

definition lit_sum :: "float_value \<Rightarrow> float_value list \<Rightarrow> float_value \<Rightarrow> nat \<Rightarrow> nat list \<Rightarrow> float_value" where
  "lit_sum w01 coefs base m counts =
     fl_add f64 (foldl (\<lambda>x (c, n). fl_add f64 x (fl_mul f64 c (fl_nat f64 n))) w01 (zip coefs counts))
       (fl_mul f64 (fl_nat f64 m) base)"

lemma bound_pow: "k \<le> 900 \<Longrightarrow> bound f64 (2 ^ k)"
  using bound_f64_pow [of 1 "int k"] by (simp add: pow2_nat)

definition sum_args :: "float_value \<Rightarrow> float_value list \<Rightarrow> float_value \<Rightarrow> bool" where
  "sum_args w01 coefs base \<longleftrightarrow> between (1 / 2 ^ 20) 64 w01 \<and> bound f64 (val w01)
     \<and> (\<forall>c \<in> set coefs. between 0 8 c) \<and> between 0 8 base \<and> length coefs \<le> 2"

lemma nat_32:
  assumes "n < 2 ^ 32"
  shows "between 0 (2 ^ 32) (fl_nat f64 n)"
proof (rule between_nat)
  have "(of_nat n :: rat) \<le> of_nat (2 ^ 32)" using assms by (simp only: of_nat_le_iff)
  then show "(of_nat n :: rat) \<le> 2 ^ 32" by simp
  show "bound f64 (2 ^ 32)" by (rule bound_pow) simp
qed simp

lemma product_between:
  assumes "between 0 8 c" "n < 2 ^ 32"
  shows "between 0 (2 ^ 35) (fl_mul f64 c (fl_nat f64 n))" "between 0 (2 ^ 35) (fl_mul f64 (fl_nat f64 n) c)"
  using between_mul [OF assms(1) nat_32 [OF assms(2)], of f64 0 "2 ^ 35"]
    between_mul [OF nat_32 [OF assms(2)] assms(1), of f64 0 "2 ^ 35"] bound_pow [of 35] by simp_all

definition sum_bound :: "nat \<Rightarrow> rat" where "sum_bound k = of_nat (k + 1) * pow2 40"

lemma sum_bound_ok: "k \<le> 4 \<Longrightarrow> bound f64 (sum_bound k)"
  unfolding sum_bound_def by (rule bound_f64_pow) simp_all

lemma fold_between:
  assumes "between 0 (sum_bound k) x" "\<forall>(c, n) \<in> set ts. between 0 8 c \<and> n < 2 ^ 32" "k + length ts \<le> 4"
  shows "between 0 (sum_bound (k + length ts)) (foldl (\<lambda>x (c, n). fl_add f64 x (fl_mul f64 c (fl_nat f64 n))) x ts)"
  using assms
proof (induction ts arbitrary: k x)
  case (Cons t ts)
  obtain c n where t: "t = (c, n)" by fastforce
  have p: "between 0 (2 ^ 35) (fl_mul f64 c (fl_nat f64 n))" using Cons.prems(2) t product_between(1) by simp
  have "between 0 (sum_bound (Suc k)) (fl_add f64 x (fl_mul f64 c (fl_nat f64 n)))"
    using Cons.prems(3) sum_bound_ok [of "Suc k"]
    by (intro between_add [OF Cons.prems(1) p]) (simp_all add: sum_bound_def pow2_def algebra_simps)
  from Cons.IH [OF this] show ?case using Cons.prems(2,3) by (simp add: t)
qed simp

lemma fold_mono:
  assumes "between 0 (sum_bound k) x" "between 0 (sum_bound k) y" "val x \<le> val y"
    "list_all2 (\<le>) ns ns'" "\<forall>c \<in> set cs. between 0 8 c" "\<forall>n \<in> set ns'. n < 2 ^ 32" "length ns = length cs"
    "k + length cs \<le> 4"
  shows "val (foldl (\<lambda>x (c, n). fl_add f64 x (fl_mul f64 c (fl_nat f64 n))) x (zip cs ns))
    \<le> val (foldl (\<lambda>x (c, n). fl_add f64 x (fl_mul f64 c (fl_nat f64 n))) y (zip cs ns'))"
  using assms
proof (induction cs arbitrary: k x y ns ns')
  case (Cons c cs)
  obtain n ms where ns: "ns = n # ms" using Cons.prems(7) by (cases ns) simp_all
  obtain n' ms' where ns': "ns' = n' # ms'" "n \<le> n'" "list_all2 (\<le>) ms ms'"
    using Cons.prems(4) by (auto simp: ns list_all2_Cons1)
  have nn: "n' < 2 ^ 32" "n < 2 ^ 32" using Cons.prems(6) ns'(1,2) by auto
  have c: "between 0 8 c" using Cons.prems(5) by simp
  let ?p = "fl_mul f64 c (fl_nat f64 n)" and ?p' = "fl_mul f64 c (fl_nat f64 n')"
  have p: "between 0 (2 ^ 35) ?p" "between 0 (2 ^ 35) ?p'" using product_between(1) [OF c] nn by simp_all
  have step: "between 0 (sum_bound (Suc k)) (fl_add f64 z q)"
    if "between 0 (sum_bound k) z" "between 0 (2 ^ 35) q" for z q
    using Cons.prems(8) sum_bound_ok [of "Suc k"]
    by (intro between_add [OF that]) (simp_all add: sum_bound_def pow2_def algebra_simps)
  note x = step [OF Cons.prems(1) p(1)] and y = step [OF Cons.prems(2) p(2)]
  have "val (fl_nat f64 n) \<le> val (fl_nat f64 n')" "0 \<le> val (fl_nat f64 n)"
    using nat_mono_val [OF between_fin [OF nat_32 [OF nn(2)]] between_fin [OF nat_32 [OF nn(1)]]] ns'(2)
      nat_32 [OF nn(2)] by (simp_all add: between_def)
  then have "val ?p \<le> val ?p'"
    using c p nat_32 [OF nn(1)] nat_32 [OF nn(2)] by (intro mul_mono_val) (simp_all add: between_def)
  then have "val (fl_add f64 x ?p) \<le> val (fl_add f64 y ?p')"
    using Cons.prems(1-3) p x y by (intro add_mono_val) (simp_all add: between_def)
  from Cons.IH [OF x y this ns'(3)] show ?case
    using Cons.prems(5-8) by (simp add: ns ns')
qed simp

lemma w01_sum_bound: "sum_args w01 coefs base \<Longrightarrow> between 0 (sum_bound 0) w01"
  by (auto simp: sum_args_def sum_bound_def pow2_def elim!: between_mono)

lemma lit_sum_between:
  assumes "sum_args w01 coefs base" "\<forall>n \<in> set counts. n < 2 ^ 32" "m < 2 ^ 32"
  shows "between 0 (2 ^ 60) (lit_sum w01 coefs base m counts)"
proof -
  let ?ts = "zip coefs counts"
  have ts: "\<forall>(c, n) \<in> set ?ts. between 0 8 c \<and> n < 2 ^ 32" "length ?ts \<le> 2"
    using assms(1,2) by (auto simp: sum_args_def dest: set_zip_leftD set_zip_rightD)
  have "between 0 (sum_bound (0 + length ?ts)) (foldl (\<lambda>x (c, n). fl_add f64 x (fl_mul f64 c (fl_nat f64 n))) w01 ?ts)"
    by (rule fold_between [OF w01_sum_bound [OF assms(1)] ts(1)]) (use ts(2) in simp)
  then have "between 0 (2 ^ 59) (foldl (\<lambda>x (c, n). fl_add f64 x (fl_mul f64 c (fl_nat f64 n))) w01 ?ts)"
    by (rule between_mono) (use ts(2) in \<open>auto simp: sum_bound_def pow2_def\<close>)
  moreover have "between 0 (2 ^ 35) (fl_mul f64 (fl_nat f64 m) base)"
    using product_between(2) assms(1,3) by (simp add: sum_args_def)
  moreover have "bound f64 (2 ^ 60)" by (rule bound_pow) simp
  ultimately show ?thesis
    unfolding lit_sum_def by (intro between_add [of 0 "2 ^ 59" _ 0 "2 ^ 35" _ _ 0 "2 ^ 60"]) simp_all
qed

text \<open>With no counts it is bit for bit the mass of the run symbols.\<close>

lemma fold_zero:
  "\<forall>c \<in> set cs. between 0 8 c \<Longrightarrow> fin w \<Longrightarrow> 0 < val w \<Longrightarrow> bound f64 (val w) \<Longrightarrow>
    foldl (\<lambda>x (c, n). fl_add f64 x (fl_mul f64 c (fl_nat f64 n))) w (zip cs (replicate (length cs) 0)) = w"
proof (induction cs)
  case (Cons c cs)
  obtain s where "fl_mul f64 c (Num False 0) = Num s 0"
    using fl_mul_zero [of f64 c False] Cons.prems(1) by (auto simp: between_def)
  then show ?case using Cons fl_add_zero [of f64 w s] by simp
qed simp

lemma lit_sum_zero:
  assumes "sum_args w01 coefs base"
  shows "lit_sum w01 coefs base 0 (replicate (length coefs) 0) = w01"
proof -
  have w: "fin w01" "0 < val w01" "bound f64 (val w01)"
    using assms by (auto simp: sum_args_def between_def intro: less_le_trans [of 0 "1 / 2 ^ 20"])
  obtain s where "fl_mul f64 (Num False 0) base = Num s 0"
    using fl_zero_mul [of f64 base False] assms by (auto simp: sum_args_def between_def)
  then show ?thesis
    using fold_zero [OF _ w, of coefs] fl_add_zero [OF _ w(3,2,1), of s] assms
    by (simp add: lit_sum_def sum_args_def)
qed

lemma lit_sum_mono:
  assumes "sum_args w01 coefs base" "list_all2 (\<le>) ns ns'" "\<forall>n \<in> set ns'. n < 2 ^ 32" "length ns = length coefs"
    "m \<le> m'" "m' < 2 ^ 32"
  shows "val (lit_sum w01 coefs base m ns) \<le> val (lit_sum w01 coefs base m' ns')"
    "val w01 \<le> val (lit_sum w01 coefs base m ns)"
proof -
  have n: "\<forall>n \<in> set ns. n < 2 ^ 32"
    using assms(2,3) by (metis in_set_conv_nth list_all2_conv_all_nth order_le_less_trans)
  have l: "length coefs \<le> 2" "\<forall>c \<in> set coefs. between 0 8 c" "between 0 8 base" using assms(1) by (simp_all add: sum_args_def)
  let ?f = "foldl (\<lambda>x (c, n). fl_add f64 x (fl_mul f64 c (fl_nat f64 n))) w01"
  have fin_fold: "fin (?f (zip coefs ks))" if "\<forall>n \<in> set ks. n < 2 ^ 32" for ks
  proof (rule between_fin, rule fold_between [OF w01_sum_bound [OF assms(1)]])
    show "\<forall>(c, n) \<in> set (zip coefs ks). between 0 8 c \<and> n < 2 ^ 32"
      using l(2) that by (auto dest: set_zip_leftD set_zip_rightD)
    show "0 + length (zip coefs ks) \<le> 4" using l(1) by simp
  qed
  have prod: "between 0 (2 ^ 35) (fl_mul f64 (fl_nat f64 k) base)" if "k < 2 ^ 32" for k
    using product_between(2) [OF l(3) that] .
  have pm: "val (fl_mul f64 (fl_nat f64 j) base) \<le> val (fl_mul f64 (fl_nat f64 k) base)" if "j \<le> k" "k < 2 ^ 32" for j k
    using that l(3) prod [of j] prod [of k] nat_32 [of j] nat_32 [of k] nat_mono_val [of f64 j k]
    by (intro mul_mono_val) (simp_all add: between_def)
  have w: "between 0 (sum_bound 0) w01" by (rule w01_sum_bound [OF assms(1)])
  have fm: "val (?f (zip coefs ks)) \<le> val (?f (zip coefs ks'))"
    if "list_all2 (\<le>) ks ks'" "\<forall>n \<in> set ks'. n < 2 ^ 32" "length ks = length coefs" for ks ks'
    using fold_mono [OF w w order.refl that(1) l(2) that(2,3)] l(1) by simp
  have "val (?f (zip coefs ns)) \<le> val (?f (zip coefs ns'))" by (rule fm [OF assms(2,3,4)])
  moreover have bs: "fin (lit_sum w01 coefs base m ns)" "fin (lit_sum w01 coefs base m' ns')"
    using lit_sum_between [OF assms(1) n, of m] lit_sum_between [OF assms(1,3,6)] assms(5,6)
    by (auto simp: between_def)
  ultimately show "val (lit_sum w01 coefs base m ns) \<le> val (lit_sum w01 coefs base m' ns')"
    using fin_fold [OF n] fin_fold [OF assms(3)] prod [of m] prod [of m'] pm [OF assms(5,6)] assms(5,6)
    unfolding lit_sum_def by (intro add_mono_val) (simp_all add: between_def)
  have z: "lit_sum w01 coefs base 0 (replicate (length coefs) 0) = w01"
    by (rule lit_sum_zero [OF assms(1)])
  have "list_all2 (\<le>) (replicate (length coefs) 0) ns" using assms(4) by (simp add: list_all2_conv_all_nth)
  then have "val (?f (zip coefs (replicate (length coefs) 0))) \<le> val (?f (zip coefs ns))"
    by (rule fm [OF _ n]) simp
  then have "val (lit_sum w01 coefs base 0 (replicate (length coefs) 0)) \<le> val (lit_sum w01 coefs base m ns)"
    using fin_fold [of "replicate (length coefs) 0"] fin_fold [OF n] prod [of 0] prod [of m] pm [of 0 m] assms(5,6)
      lit_sum_between [OF assms(1), of "replicate (length coefs) 0" 0] bs(1)
    unfolding lit_sum_def by (intro add_mono_val) (simp_all add: between_def)
  then show "val w01 \<le> val (lit_sum w01 coefs base m ns)" unfolding z .
qed

lemma spread_sums:
  assumes args: "sum_args w01 coefs base" and w0: "fin w0" "1 / 2 ^ 20 \<le> val w0" "val w0 \<le> val w01"
    and counts: "\<And>m. m < 254 \<Longrightarrow> length (counts m) = length coefs \<and> list_all2 (\<le>) (counts m) (counts (m + 1))"
    and last: "counts 254 = totals" "length totals = length coefs" "\<forall>n \<in> set totals. n < 2 ^ 32"
  defines "cums \<equiv> \<lambda>m. lit_sum w01 coefs base m (counts m)"
  shows "spread w0 (lit_sum w01 coefs base 254 totals) cums"
proof -
  have upto: "list_all2 (\<le>) (counts m) totals \<and> length (counts m) = length coefs" if "m \<le> 254" for m
    using that
  proof (induction "254 - m" arbitrary: m)
    case 0
    then have "m = 254" by simp
    then show ?case using last by (simp add: list_all2_refl)
  next
    case (Suc d)
    then have m: "m < 254" "d = 254 - (m + 1)" "m + 1 \<le> 254" by simp_all
    from Suc.hyps(1) [OF m(2,3)] counts [OF m(1)] show ?case by (auto intro: list_all2_trans [of "(\<le>)" "(\<le>)" "(\<le>)"])
  qed
  have small: "\<forall>n \<in> set (counts m). n < 2 ^ 32" if "m \<le> 254" for m
    using upto [OF that] last(3) by (metis in_set_conv_nth list_all2_conv_all_nth order_le_less_trans)
  note mono = lit_sum_mono [OF args]
  let ?tot = "lit_sum w01 coefs base 254 totals"
  have c: "between 0 (2 ^ 60) (cums m)" if "m \<le> 254" for m
    unfolding cums_def by (rule lit_sum_between [OF args small [OF that]]) (use that in simp)
  have le: "val (cums m) \<le> val ?tot" if "m \<le> 254" for m
    unfolding cums_def using mono(1) upto [OF that] last(3) that by simp
  have w: "val w01 \<le> val (cums m)" if "m \<le> 254" for m
    unfolding cums_def by (rule mono(2)) (use upto [OF that] last(3) that in auto)
  have tot: "mass_range ?tot"
    using c [of 254] w [of 254] w0 last(1) by (auto simp: mass_range_def between_def cums_def)
  moreover have "part_of w0 ?tot" using w0 w [of 0] le [of 0] by (simp add: part_of_def)
  moreover have "\<forall>m < 254. part_of (cums m) ?tot" using c le by (simp add: part_of_def between_def)
  moreover have "val w0 \<le> val (cums 0)" using w [of 0] w0 by simp
  moreover have "val (cums m) \<le> val (cums (m + 1))" if "m < 253" for m
    unfolding cums_def by (rule mono(1)) (use counts [of m] small [of "m + 1"] that in simp_all)
  ultimately show ?thesis by (simp add: spread_def)
qed

section \<open>The binary decisions\<close>

text \<open>
  Masses of the two run symbols, of both, and of the literals. The lower limit makes them sound
  whatever the two probabilities are, NaN included.
\<close>

definition PROB_FLOOR :: float_value where "PROB_FLOOR = fl_lit f32 (1 / 1000000)"

definition binary_weights :: "float_value \<Rightarrow> float_value \<Rightarrow> float_value \<times> float_value \<times> float_value" where
  "binary_weights p_run p_runa =
     (let w0 = fl_cast f64 (fl_max (fl_mul f32 p_run p_runa) PROB_FLOOR);
          w1 = fl_cast f64 (fl_max (fl_mul f32 p_run (fl_sub f32 (fl_lit f32 1) p_runa)) PROB_FLOOR);
          p_lit = fl_cast f64 (fl_max (fl_sub f32 (fl_lit f32 1) p_run) PROB_FLOOR)
      in (w0, fl_add f64 w0 w1, p_lit))"

lemma bound_tiny: "wf_format F \<Longrightarrow> bound F (1 / 2 ^ 20)"
  using bound_dyadic [of F 1 20] by simp

lemma PROB_FLOOR_between: "between (1 / 2 ^ 20) 1 PROB_FLOOR"
  unfolding PROB_FLOOR_def by (rule between_lit) (use bound_tiny [of f32] in simp_all)

lemma one_between: "wf_format F \<Longrightarrow> between 1 1 (fl_lit F 1)"
  by (rule between_lit) simp_all

lemma floored_cast:
  assumes "loose a b x" "bound f64 b" "1 \<le> b"
  shows "between (1 / 2 ^ 20) b (fl_cast f64 (fl_max x PROB_FLOOR))"
proof -
  have "between (1 / 2 ^ 20) (max b 1) (fl_max x PROB_FLOOR)"
    by (rule between_max_loose [OF assms(1) PROB_FLOOR_between])
  moreover have "max b 1 = b" using assms(3) by simp
  ultimately show ?thesis using bound_tiny [of f64] assms(2) by (simp add: between_cast)
qed

lemma binary_weights_ok:
  assumes "loose (- 4) 4 p_run" "loose (- 4) 4 p_runa" "binary_weights p_run p_runa = (w0, w01, p_lit)"
  shows "between (1 / 2 ^ 20) 16 w0" "between (1 / 2 ^ 20) 64 w01" "bound f64 (val w01)" "val w0 \<le> val w01"
    "between (1 / 2 ^ 20) 8 p_lit"
proof -
  let ?w1 = "fl_cast f64 (fl_max (fl_mul f32 p_run (fl_sub f32 (fl_lit f32 1) p_runa)) PROB_FLOOR)"
  have d: "w0 = fl_cast f64 (fl_max (fl_mul f32 p_run p_runa) PROB_FLOOR)" "w01 = fl_add f64 w0 ?w1"
    "p_lit = fl_cast f64 (fl_max (fl_sub f32 (fl_lit f32 1) p_run) PROB_FLOOR)"
    using assms(3) by (auto simp: binary_weights_def Let_def)
  have s: "loose (- 5) 5 (fl_sub f32 (fl_lit f32 1) p)" if "loose (- 4) 4 p" for p
    by (rule loose_sub [OF loose_between [OF one_between] that]) simp_all
  show w0: "between (1 / 2 ^ 20) 16 w0"
    unfolding d(1) by (rule floored_cast [OF loose_mul [OF assms(1,2)]]) simp_all
  have w1: "between (1 / 2 ^ 20) 32 ?w1"
    by (rule floored_cast [OF loose_mul [OF assms(1) s [OF assms(2)]]]) simp_all
  have "between (1 / 2 ^ 20) 5 p_lit" unfolding d(3) by (rule floored_cast [OF s [OF assms(1)]]) simp_all
  then show p: "between (1 / 2 ^ 20) 8 p_lit" by (rule between_mono) simp_all
  show w01: "between (1 / 2 ^ 20) 64 w01"
    unfolding d(2) by (rule between_add [OF w0 w1]) (use bound_tiny [of f64] in simp_all)
  obtain t where t: "w01 = fl_round f64 t (val w0 + val ?w1)"
    using add_round [OF between_fin [OF w0] between_fin [OF w1], of f64] d(2) by blast
  then show "bound f64 (val w01)" using fl_round_bound [of f64 t] between_fin [OF w01] by simp
  have "bound f64 (val w0)"
  proof -
    have m: "between (1 / 2 ^ 20) 16 (fl_max (fl_mul f32 p_run p_runa) PROB_FLOOR)"
      using between_max_loose [OF loose_mul [OF assms(1,2), of f32 16] PROB_FLOOR_between] by simp
    obtain t where "w0 = fl_round f64 t (val (fl_max (fl_mul f32 p_run p_runa) PROB_FLOOR))"
      using cast_round [OF between_fin [OF m], of f64] d(1) by blast
    then show ?thesis using fl_round_bound [of f64 t] between_fin [OF w0] by simp
  qed
  then have "val w0 = rnd f64 (val w0)" by (simp add: rnd_bound)
  also have "\<dots> \<le> rnd f64 (val w0 + val ?w1)"
    by (rule rnd_mono) (use w1 in \<open>auto simp: between_def intro: order_trans [of 0 "1 / 2 ^ 20"]\<close>)
  also have "\<dots> = val w01" using t between_fin [OF w01] by (simp add: fl_round_val)
  finally show "val w0 \<le> val w01" .
qed

section \<open>Reading the table off the sums\<close>

text \<open>The encoder's two boundaries of a literal, and the decoder's search, are entries of the table.\<close>

lemma table_literal:
  assumes "m < 254"
  shows "quantized_table w0 tot cums ! (m + 2) = of_nat (quantized_boundary (cums m) tot (2 + m))"
    "quantized_table w0 tot cums ! (m + 2 + 1)
      = (if m = 253 then ucast PROB_TOTAL else of_nat (quantized_boundary (cums (m + 1)) tot (2 + (m + 1))))"
  using assms quantized_table_nth [of "m + 2" w0 tot cums] quantized_table_nth [of "m + 2 + 1" w0 tot cums]
  by (auto simp: boundary_at_def PROB_TOTAL_u16 add.commute)

lemma table_run:
  "quantized_table w0 tot cums ! 0 = 0" "quantized_table w0 tot cums ! 1 = of_nat (quantized_boundary w0 tot 1)"
  "quantized_table w0 tot cums ! 2 = of_nat (quantized_boundary (cums 0) tot 2)"
  using quantized_table_nth [of 0 w0 tot cums] quantized_table_nth [of 1 w0 tot cums]
    quantized_table_nth [of 2 w0 tot cums] by (simp_all add: boundary_at_def)

definition search_symbol ::
    "('a \<Rightarrow> nat \<Rightarrow> 'a) \<Rightarrow> (nat \<Rightarrow> 'a \<Rightarrow> nat) \<Rightarrow> 'a \<Rightarrow> nat \<Rightarrow> nat \<Rightarrow> nat \<Rightarrow> u8 \<times> u16 \<times> u16" where
  "search_symbol widen bnd start freq b1 b2 =
     (if freq < b1 then (0, 0, of_nat b1)
      else if freq < b2 then (1, of_nat b1, of_nat b2)
      else let (lo_m, cum, lo_value, hi_value) =
                 fold (search_step widen bnd freq) [128, 64, 32, 16, 8, 4, 2, 1] (0, start, b2, unat PROB_TOTAL)
           in (of_nat (2 + lo_m), of_nat lo_value, of_nat hi_value))"

lemma search_symbol_correct:
  assumes "spread w0 tot cums" "widens widen accs" "\<And>m. m < 254 \<Longrightarrow> bnd m (accs m) = quantized_boundary (cums m) tot (2 + m)"
    "freq < 32768" "t < 256" "unat (quantized_table w0 tot cums ! t) \<le> freq" "freq < unat (quantized_table w0 tot cums ! (t + 1))"
  shows "search_symbol widen bnd (accs 0) freq (quantized_boundary w0 tot 1) (quantized_boundary (cums 0) tot 2)
    = (of_nat t, quantized_table w0 tot cums ! t, quantized_table w0 tot cums ! (t + 1))"
proof -
  let ?B = "boundary_at w0 tot cums" and ?T = "quantized_table w0 tot cums"
  have B: "?T ! i = of_nat (?B i)" "unat (?T ! i) = ?B i" if "i \<le> 256" for i
    using quantized_table_nth [OF that] quantized_table_unat [OF that] by simp_all
  have less: "?B i < ?B j" if "i < j" "j \<le> 256" for i j
    using that
  proof (induction j)
    case (Suc j)
    then show ?case using boundary_at_less(1) [OF assms(1), of j] by (cases "i = j") auto
  qed simp
  have t: "?B t \<le> freq" "freq < ?B (t + 1)" using assms(5-7) B(2) by simp_all
  have uniq: "i = t" if "i < 256" "?B i \<le> freq" "freq < ?B (i + 1)" for i
  proof -
    have "\<not> i < t" "\<not> t < i"
      using that t less [of "i + 1" t] less [of "t + 1" i] assms(5)
      by (metis Suc_eq_plus1 Suc_leI leD le_neq_implies_less less_le_trans less_or_eq_imp_le order_le_less_trans)+
    then show ?thesis by simp
  qed
  have b: "?B 0 = 0" "?B 1 = quantized_boundary w0 tot 1" "?B 2 = quantized_boundary (cums 0) tot 2" "?B 256 = 32768"
    by (simp_all add: boundary_at_def)
  consider "freq < ?B 1" | "?B 1 \<le> freq" "freq < ?B 2" | "?B 1 \<le> freq" "?B 2 \<le> freq" by linarith
  then show ?thesis
  proof cases
    case 1
    then have "t = 0" using uniq [of 0] b by simp
    then show ?thesis using 1 b(2) B(1) [of 0] B(1) [of 1] b(1) by (simp add: search_symbol_def)
  next
    case 2
    then have "t = 1" using uniq [of 1] by (simp add: numeral_2_eq_2)
    then show ?thesis using 2 b(2,3) B(1) [of 1] B(1) [of 2] by (simp add: search_symbol_def flip: numeral_2_eq_2)
  next
    case 3
    define V where "V m = ?B (m + 2)" for m
    have v: "\<forall>m < 254. bnd m (accs m) = V m" using assms(3) by (simp add: V_def boundary_at_def)
    have "V 0 \<le> freq" "freq < V 254" using 3(2) assms(4) b(4) by (simp_all add: V_def flip: numeral_2_eq_2)
    from search_correct [where V = V and bnd = bnd and cums = accs, OF assms(2) v this] obtain m
      where m: "fold (search_step widen bnd freq) [128, 64, 32, 16, 8, 4, 2, 1] (0, accs 0, V 0, V 254)
          = (m, accs m, V m, V (m + 1))" "m < 254" "V m \<le> freq" "freq < V (m + 1)" by blast
    have t': "m + 2 = t" using uniq [of "m + 2"] m by (simp add: V_def)
    have st: "(0, accs 0, V 0, V 254) = (0, accs 0, quantized_boundary (cums 0) tot 2, unat PROB_TOTAL)"
      using b by (simp add: V_def PROB_TOTAL_u16 flip: numeral_2_eq_2)
    have "\<not> freq < quantized_boundary w0 tot 1" "\<not> freq < quantized_boundary (cums 0) tot 2"
      using 3 unfolding b by simp_all
    then have "search_symbol widen bnd (accs 0) freq (quantized_boundary w0 tot 1) (quantized_boundary (cums 0) tot 2)
        = (of_nat (2 + m), of_nat (V m), of_nat (V (m + 1)))"
      unfolding search_symbol_def m(1) [unfolded st] if_not_P Let_def prod.case
      by (simp only: if_False)
    moreover have "2 + m = t" "V m = ?B t" "V (m + 1) = ?B (t + 1)" using t' by (simp_all add: V_def)
    moreover have "?T ! t = of_nat (?B t)" "?T ! (t + 1) = of_nat (?B (t + 1))" using B(1) assms(5) by simp_all
    ultimately show ?thesis by (simp only:)
  qed
qed

end
