(* ===== verification/RlePredictor.thy ===== *)
theory RlePredictor
  imports Quantized Bytes
begin

text \<open>
  The run-length predictor, \<^verbatim>\<open>entropy/rle_predictor.rs\<close>: binary counters for run
  symbol against literal and for the two run symbols, and counted literals, per context class.
  Counts are natural numbers below \<open>2 ^ 32\<close> (\<open>rle_inv\<close>); probabilities are floating-point numbers.
  The table it commits to is lawful, and its two fast paths are bit-identical to it.
\<close>

definition CTX_START :: nat where "CTX_START = 0"
definition CTX_IN_RUN :: nat where "CTX_IN_RUN = 1"
definition CTX_AFTER_LIT :: nat where "CTX_AFTER_LIT = 2"
definition NUM_CONTEXTS :: nat where "NUM_CONTEXTS = 3"

definition ALPHA_BIN :: float_value where "ALPHA_BIN = fl_lit f32 (1 / 2)"
definition ALPHA_LIT :: float_value where "ALPHA_LIT = fl_lit f32 (1 / 10)"
definition ALPHA_LIT_TOTAL :: float_value where "ALPHA_LIT_TOTAL = fl_mul f32 (fl_lit f32 254) ALPHA_LIT"

definition fenwick254_add :: "nat list \<Rightarrow> nat \<Rightarrow> nat \<Rightarrow> nat list" where
  "fenwick254_add tree i delta = fenwick_add tree i delta"

definition fenwick254_prefix :: "nat list \<Rightarrow> nat \<Rightarrow> nat" where
  "fenwick254_prefix tree len = fenwick_prefix tree len"

definition fenwick254_rebuild :: "nat list \<Rightarrow> nat list" where
  "fenwick254_rebuild counts = fenwick_rebuild counts"

section \<open>Binary counters\<close>

record binary_model =
  count_yes :: nat
  count_total :: nat

definition binary_new :: binary_model where
  "binary_new = \<lparr>count_yes = 0, count_total = 0\<rparr>"

definition p_yes :: "binary_model \<Rightarrow> float_value" where
  "p_yes m = fl_div f32 (fl_add f32 (fl_nat f32 (count_yes m)) ALPHA_BIN)
     (fl_add f32 (fl_nat f32 (count_total m)) (fl_mul f32 (fl_lit f32 2) ALPHA_BIN))"

definition binary_update :: "bool \<Rightarrow> binary_model \<Rightarrow> binary_model" where
  "binary_update is_yes m =
     (let yes = (if is_yes then count_yes m + 1 else count_yes m);
          tot = count_total m + 1
      in if tot > 500000 then
           let tot = tot div 2; yes = yes div 2
           in \<lparr>count_yes = (if yes > tot then tot else yes), count_total = tot\<rparr>
         else \<lparr>count_yes = yes, count_total = tot\<rparr>)"

section \<open>The predictor\<close>

record rle_predictor =
  run_vs_lit :: "binary_model list"
  runa_vs_runb :: "binary_model list"
  lit_counts :: "nat list list"
  lit_fenwick :: "nat list list"
  lit_totals :: "nat list"
  rle_ctx :: nat

definition rle_new :: rle_predictor where
  "rle_new = \<lparr>run_vs_lit = [binary_new, binary_new, binary_new], runa_vs_runb = [binary_new, binary_new, binary_new],
     lit_counts = replicate NUM_CONTEXTS (replicate NUM_LITS 0), lit_fenwick = replicate NUM_CONTEXTS (replicate NUM_LITS 0),
     lit_totals = replicate NUM_CONTEXTS 0, rle_ctx = CTX_START\<rparr>"

definition context_of :: "u8 \<Rightarrow> nat" where
  "context_of byte = (if byte \<le> 1 then CTX_IN_RUN else CTX_AFTER_LIT)"

definition model_parts :: "rle_predictor \<Rightarrow> float_value \<times> float_value \<times> float_value \<times> nat list" where
  "model_parts r =
     (let c = rle_ctx r;
          p_run = p_yes (run_vs_lit r ! c);
          p_runa_given_run = p_yes (runa_vs_runb r ! c);
          lit_denom = fl_add f32 (fl_nat f32 (lit_totals r ! c)) ALPHA_LIT_TOTAL;
          literal_scale = fl_div f32 (fl_sub f32 (fl_lit f32 1) p_run) lit_denom
      in (p_run, p_runa_given_run, literal_scale, lit_counts r ! c))"

definition model_parts_fenwick :: "rle_predictor \<Rightarrow> float_value \<times> float_value \<times> nat \<times> nat list \<times> nat list" where
  "model_parts_fenwick r =
     (let c = rle_ctx r
      in (p_yes (run_vs_lit r ! c), p_yes (runa_vs_runb r ! c), lit_totals r ! c, lit_counts r ! c, lit_fenwick r ! c))"

definition rle_predict :: "rle_predictor \<Rightarrow> float_value list \<times> rle_predictor" where
  "rle_predict r =
     (let (p_run, p_runa_given_run, scale, lit_entry) = model_parts r
      in (fl_mul f32 p_run p_runa_given_run # fl_mul f32 p_run (fl_sub f32 (fl_lit f32 1) p_runa_given_run)
            # map (\<lambda>c. fl_mul f32 (fl_add f32 (fl_nat f32 c) ALPHA_LIT) scale) lit_entry, r))"

definition rle_update :: "u8 \<Rightarrow> rle_predictor \<Rightarrow> rle_predictor" where
  "rle_update byte r =
     (let c = rle_ctx r; b = unat byte;
          r = (if byte \<le> 1 then
                 r\<lparr>run_vs_lit := (run_vs_lit r)[c := binary_update True (run_vs_lit r ! c)],
                   runa_vs_runb := (runa_vs_runb r)[c := binary_update (byte = 0) (runa_vs_runb r ! c)]\<rparr>
               else
                 let idx = b - 2;
                     counts = (lit_counts r ! c)[idx := lit_counts r ! c ! idx + 1];
                     tot = lit_totals r ! c + 1;
                     r = r\<lparr>run_vs_lit := (run_vs_lit r)[c := binary_update False (run_vs_lit r ! c)]\<rparr>
                 in if tot > 500000 then
                      let counts = map (\<lambda>v. v div 2) counts
                      in r\<lparr>lit_counts := (lit_counts r)[c := counts], lit_totals := (lit_totals r)[c := sum_list counts],
                           lit_fenwick := (lit_fenwick r)[c := fenwick254_rebuild counts]\<rparr>
                    else
                      r\<lparr>lit_counts := (lit_counts r)[c := counts], lit_totals := (lit_totals r)[c := tot],
                        lit_fenwick := (lit_fenwick r)[c := fenwick254_add (lit_fenwick r ! c) idx 1]\<rparr>)
      in r\<lparr>rle_ctx := context_of byte\<rparr>)"

definition rle_reset :: "rle_predictor \<Rightarrow> rle_predictor" where
  "rle_reset r = rle_new"

text \<open>What the three methods below compute first: masses, coefficients and normalizer.\<close>

record rle_weights =
  rw_w0 :: float_value
  rw_w01 :: float_value
  rw_coef :: float_value
  rw_base :: float_value
  rw_total :: float_value

definition rle_weights_of :: "rle_predictor \<Rightarrow> rle_weights" where
  "rle_weights_of r =
     (let (p_run, p_runa, lit_total, _, _) = model_parts_fenwick r;
          (w0, w01, p_lit) = binary_weights p_run p_runa;
          lit_coef = fl_div f64 p_lit (fl_add f64 (fl_nat f64 lit_total) (fl_cast f64 ALPHA_LIT_TOTAL));
          base_lit = fl_mul f64 lit_coef (fl_cast f64 ALPHA_LIT);
          tot = fl_add f64 (fl_add f64 w01 (fl_mul f64 lit_coef (fl_nat f64 lit_total)))
                  (fl_mul f64 (fl_nat f64 NUM_LITS) base_lit)
      in \<lparr>rw_w0 = w0, rw_w01 = w01, rw_coef = lit_coef, rw_base = base_lit, rw_total = tot\<rparr>)"

definition rle_cumulative :: "rle_weights \<Rightarrow> nat \<Rightarrow> nat \<Rightarrow> float_value" where
  "rle_cumulative w m rle_cum =
     fl_add f64 (fl_add f64 (rw_w01 w) (fl_mul f64 (rw_coef w) (fl_nat f64 rle_cum)))
       (fl_mul f64 (fl_nat f64 m) (rw_base w))"

fun rle_entries :: "rle_weights \<Rightarrow> nat \<Rightarrow> nat \<Rightarrow> nat list \<Rightarrow> u16 list" where
  "rle_entries w m rle_cum [] = []"
| "rle_entries w m rle_cum (cnt # counts) =
     of_nat (quantized_boundary (rle_cumulative w m rle_cum) (rw_total w) (2 + m))
       # rle_entries w (m + 1) (rle_cum + cnt) counts"

definition rle_predict_cdf :: "rle_predictor \<Rightarrow> u16 list \<times> rle_predictor" where
  "rle_predict_cdf r =
     (let w = rle_weights_of r
      in (0 # of_nat (quantized_boundary (rw_w0 w) (rw_total w) 1)
            # rle_entries w 0 0 (lit_counts r ! rle_ctx r) @ [ucast PROB_TOTAL], r))"

definition rle_query_cdf :: "u8 \<Rightarrow> rle_predictor \<Rightarrow> (u16 \<times> u16) \<times> rle_predictor" where
  "rle_query_cdf byte r =
     (let w = rle_weights_of r;
          (_, _, _, counts, fenwick) = model_parts_fenwick r;
          q = (\<lambda>cum sym. of_nat (quantized_boundary cum (rw_total w) sym) :: u16)
      in (if byte = 0 then (0, q (rw_w0 w) 1)
          else if byte = 1 then (q (rw_w0 w) 1, q (rw_w01 w) 2)
          else
            let m = unat (byte - 2);
                rle_cum = fenwick254_prefix fenwick m;
                lo = q (rle_cumulative w m rle_cum) (2 + m);
                hi = (if byte = 255 then ucast PROB_TOTAL
                      else q (rle_cumulative w (m + 1) (rle_cum + counts ! m)) (2 + (m + 1)))
            in (lo, hi), r))"

definition rle_decode_symbol :: "u32 \<Rightarrow> rle_predictor \<Rightarrow> (u8 \<times> u16 \<times> u16) \<times> rle_predictor" where
  "rle_decode_symbol freq r =
     (let w = rle_weights_of r;
          (_, _, _, _, fenwick) = model_parts_fenwick r
      in (search_symbol (\<lambda>cum i. cum + fenwick ! i)
            (\<lambda>m cum. quantized_boundary (rle_cumulative w m cum) (rw_total w) (2 + m)) 0 (unat freq)
            (quantized_boundary (rw_w0 w) (rw_total w) 1) (quantized_boundary (rw_w01 w) (rw_total w) 2), r))"

definition rle_coder :: "rle_predictor predictor" where
  "rle_coder = \<lparr>query_cdf = rle_query_cdf, decode_symbol = rle_decode_symbol,
     update_byte = rle_update, reset_state = rle_reset\<rparr>"

section \<open>The invariant\<close>

definition binary_inv :: "binary_model \<Rightarrow> bool" where
  "binary_inv m \<longleftrightarrow> count_yes m \<le> count_total m \<and> count_total m \<le> 1000000"

text \<open>A counted literal model: the tree is that of the counts, the total is their sum.\<close>

definition counted :: "nat \<Rightarrow> nat list \<Rightarrow> nat list \<Rightarrow> nat \<Rightarrow> bool" where
  "counted limit counts tree tot \<longleftrightarrow> length counts = 254 \<and> is_fenwick tree counts \<and> tot = sum_list counts \<and> tot \<le> limit"

definition rle_inv :: "rle_predictor \<Rightarrow> bool" where
  "rle_inv r \<longleftrightarrow> length (run_vs_lit r) = 3 \<and> length (runa_vs_runb r) = 3 \<and> length (lit_counts r) = 3
     \<and> length (lit_fenwick r) = 3 \<and> length (lit_totals r) = 3 \<and> rle_ctx r < 3
     \<and> (\<forall>c < 3. binary_inv (run_vs_lit r ! c) \<and> binary_inv (runa_vs_runb r ! c)
          \<and> counted 254000000 (lit_counts r ! c) (lit_fenwick r ! c) (lit_totals r ! c))"

lemma less_3: "c < 3 \<longleftrightarrow> c = 0 \<or> c = 1 \<or> c = (2 :: nat)" by linarith

lemma binary_new_inv: "binary_inv binary_new" by (simp add: binary_inv_def binary_new_def)

lemma binary_update_inv: "binary_inv m \<Longrightarrow> binary_inv (binary_update yes m)"
  by (auto simp: binary_inv_def binary_update_def Let_def)

lemma is_fenwick_zero: "n \<le> 256 \<Longrightarrow> is_fenwick (replicate n 0) (replicate n 0)"
proof -
  assume n: "n \<le> 256"
  have "replicate n 0 ! (j - 1) = range_sum (replicate n 0) (j - low2 j) j" if "0 < j" "j \<le> n" for j
  proof -
    have "range_sum (replicate n 0) a b = 0" for a b by (simp add: range_sum_def sum_list_replicate)
    moreover have "j - 1 < n" using that by simp
    ultimately show ?thesis by simp
  qed
  then show ?thesis using n by (simp only: is_fenwick_def length_replicate) blast
qed

lemma counted_zero: "counted limit (replicate NUM_LITS 0) (replicate NUM_LITS 0) 0"
  using is_fenwick_zero [of 254] by (simp add: counted_def NUM_LITS_def sum_list_replicate)

lemma rle_new_inv: "rle_inv rle_new"
proof -
  have "[binary_new, binary_new, binary_new] = replicate 3 binary_new" by (simp add: numeral_3_eq_3)
  then show ?thesis
    using binary_new_inv counted_zero [of 254000000]
    by (simp add: rle_inv_def rle_new_def NUM_CONTEXTS_def CTX_START_def)
qed

text \<open>One more literal, with the rescaling above a threshold.\<close>

lemma sum_list_halved: "sum_list (map (\<lambda>v. v div 2) xs) \<le> sum_list (xs :: nat list)"
  by (induction xs) (simp_all add: add_le_mono)

lemma counted_add:
  assumes "counted limit counts tree tot" "i < 254" "tot + 1 \<le> limit"
  shows "counted limit (counts[i := counts ! i + 1]) (fenwick254_add tree i 1) (tot + 1)"
  using assms fenwick_add_correct [of tree counts i 1] sum_list_update_nat [of i counts "counts ! i + 1"]
    member_le_sum_list [of "counts ! i" counts]
  by (simp add: counted_def fenwick254_add_def)

lemma counted_rescale:
  assumes "counted limit counts tree tot" "i < 254"
  shows "counted limit' (map (\<lambda>v. v div 2) (counts[i := counts ! i + 1]))
    (fenwick254_rebuild (map (\<lambda>v. v div 2) (counts[i := counts ! i + 1]))) (sum_list (map (\<lambda>v. v div 2) (counts[i := counts ! i + 1])))
    \<longleftrightarrow> sum_list (map (\<lambda>v. v div 2) (counts[i := counts ! i + 1])) \<le> limit'"
  using assms fenwick_rebuild_correct [of "map (\<lambda>v. v div 2) (counts[i := counts ! i + 1])"]
  by (simp add: counted_def fenwick254_rebuild_def)

lemma sum_after_add:
  assumes "counted limit counts tree tot" "i < 254"
  shows "sum_list (counts[i := counts ! i + 1]) = tot + 1"
  using assms sum_list_update_nat [of i counts "counts ! i + 1"] member_le_sum_list [of "counts ! i" counts]
  by (simp add: counted_def)

lemma halved_sum: "2 * sum_list (map (\<lambda>v. v div 2) xs) \<le> sum_list (xs :: nat list)"
  by (induction xs) (simp_all add: add_le_mono)

lemma context_of_less: "context_of b < 3"
  by (simp add: context_of_def CTX_IN_RUN_def CTX_AFTER_LIT_def)

lemma rle_update_inv:
  assumes "rle_inv r"
  shows "rle_inv (rle_update b r)"
proof -
  note i = assms [unfolded rle_inv_def]
  let ?c = "rle_ctx r" let ?i = "unat b - 2"
  have c: "?c < 3" using i by simp
  have bin: "binary_inv (run_vs_lit r ! ?c)" "binary_inv (runa_vs_runb r ! ?c)"
    and cnt: "counted 254000000 (lit_counts r ! ?c) (lit_fenwick r ! ?c) (lit_totals r ! ?c)" using i c by auto
  have idx: "?i < 254" using unat_less_256 [of b] by linarith
  let ?cs = "(lit_counts r ! ?c)[?i := lit_counts r ! ?c ! ?i + 1]"
  have tot: "lit_totals r ! ?c \<le> 254000000" using cnt by (simp add: counted_def)
  have half: "counted 254000000 (map (\<lambda>v. v div 2) ?cs) (fenwick254_rebuild (map (\<lambda>v. v div 2) ?cs)) (sum_list (map (\<lambda>v. v div 2) ?cs))"
    using counted_rescale [OF cnt idx] halved_sum [of ?cs] sum_after_add [OF cnt idx] tot by simp
  have add: "counted 254000000 ?cs (fenwick254_add (lit_fenwick r ! ?c) ?i 1) (lit_totals r ! ?c + 1)"
    if "lit_totals r ! ?c + 1 \<le> 500000"
    by (rule counted_add [OF cnt idx]) (use that in simp)
  consider "b \<le> 1" | "\<not> b \<le> 1" "lit_totals r ! ?c + 1 > 500000" | "\<not> b \<le> 1" "\<not> lit_totals r ! ?c + 1 > 500000"
    by linarith
  then show ?thesis
  proof cases
    case 1
    then show ?thesis
      using i c bin context_of_less [of b] binary_update_inv
      by (simp add: rle_inv_def rle_update_def Let_def nth_list_update)
  next
    case 2
    then show ?thesis
      using i c bin context_of_less [of b] binary_update_inv half
      by (simp add: rle_inv_def rle_update_def Let_def nth_list_update)
  next
    case 3
    then show ?thesis
      using i c bin context_of_less [of b] binary_update_inv add
      by (simp add: rle_inv_def rle_update_def Let_def nth_list_update)
  qed
qed

section \<open>Probabilities\<close>

lemma bound_f32_small: "bound f32 (1 / 2)" "bound f32 (1 / 16)"
  using bound_dyadic [of f32 1 1] bound_dyadic [of f32 1 4] by simp_all

lemma alphas: "between (1 / 2) (1 / 2) ALPHA_BIN" "between (1 / 16) 1 ALPHA_LIT" "between 15 254 ALPHA_LIT_TOTAL"
proof -
  show "between (1 / 2) (1 / 2) ALPHA_BIN" unfolding ALPHA_BIN_def by (rule between_lit) (simp_all add: bound_f32_small)
  show a: "between (1 / 16) 1 ALPHA_LIT" unfolding ALPHA_LIT_def by (rule between_lit) (simp_all add: bound_f32_small)
  have "between 254 254 (fl_lit f32 254)" by (rule between_lit) simp_all
  from between_mul [OF this a, of f32 15 254] show "between 15 254 ALPHA_LIT_TOTAL"
    by (simp add: ALPHA_LIT_TOTAL_def)
qed

lemma nat_f32: "n \<le> 2 ^ 24 \<Longrightarrow> between (of_nat n) (of_nat n) (fl_nat f32 n)"
  using bound_int [of f32 "int n"] unfolding fl_nat_def by (intro fl_round_between) simp_all

lemma p_yes_between:
  assumes "binary_inv m"
  shows "between 0 1 (p_yes m)"
proof -
  let ?n = "fl_add f32 (fl_nat f32 (count_yes m)) ALPHA_BIN"
  let ?one = "fl_mul f32 (fl_lit f32 2) ALPHA_BIN"
  let ?d = "fl_add f32 (fl_nat f32 (count_total m)) ?one"
  have c: "count_yes m \<le> count_total m" "count_total m \<le> 2 ^ 24" "count_yes m \<le> 2 ^ 24"
    using assms by (auto simp: binary_inv_def)
  note y = nat_f32 [OF c(3)] and t = nat_f32 [OF c(2)]
  have "between 2 2 (fl_lit f32 2)" by (rule between_lit) simp_all
  from between_mul [OF this alphas(1), of f32 1 1] have one: "between 1 1 ?one" by simp
  have "(of_nat n :: rat) \<le> 1000000" if "n \<le> 1000000" for n
  proof -
    have "(of_nat n :: rat) \<le> of_nat 1000000" using that by (simp only: of_nat_le_iff)
    then show ?thesis by simp
  qed
  then have b: "(of_nat (count_total m) :: rat) \<le> 1000000" "(of_nat (count_yes m) :: rat) \<le> 1000000"
    using assms by (auto simp: binary_inv_def)
  have n: "between 0 2000000 ?n" by (rule between_add [OF y alphas(1)]) (use b in simp_all)
  have d: "between 1 2000000 ?d" by (rule between_add [OF t one]) (use b in simp_all)
  have "val ?n \<le> val ?d"
    using c(1) y t one alphas(1) n d by (intro add_mono_val) (simp_all add: between_def)
  then have q: "0 \<le> val ?n / val ?d" "val ?n / val ?d \<le> 1" "val ?d \<noteq> 0"
    using n d by (auto simp: between_def)
  obtain s where "p_yes m = fl_round f32 s (val ?n / val ?d)"
    using div_round [OF between_fin [OF n] between_fin [OF d] q(3), of f32] unfolding p_yes_def by blast
  then show ?thesis using fl_round_between [of f32 0 1] q by simp
qed

lemma loose_prob: "between 0 1 p \<Longrightarrow> loose (- 4) 4 p"
  by (auto simp: loose_def between_def)

section \<open>The table\<close>

definition rle_counts :: "rle_predictor \<Rightarrow> nat list" where "rle_counts r = lit_counts r ! rle_ctx r"

definition rle_sums :: "rle_predictor \<Rightarrow> nat \<Rightarrow> float_value" where
  "rle_sums r m = rle_cumulative (rle_weights_of r) m (sum_list (take m (rle_counts r)))"

definition rle_cdf :: "rle_predictor \<Rightarrow> u16 list" where
  "rle_cdf r = quantized_table (rw_w0 (rle_weights_of r)) (rw_total (rle_weights_of r)) (rle_sums r)"

lemma rle_current:
  assumes "rle_inv r"
  shows "counted 254000000 (rle_counts r) (lit_fenwick r ! rle_ctx r) (lit_totals r ! rle_ctx r)"
    "length (rle_counts r) = 254" "lit_totals r ! rle_ctx r = sum_list (rle_counts r)"
    "sum_list (rle_counts r) < 2 ^ 32" "is_fenwick (lit_fenwick r ! rle_ctx r) (rle_counts r)"
  using assms by (auto simp: rle_inv_def rle_counts_def counted_def)

lemma rle_cumulative_sum:
  "rle_cumulative w m n = lit_sum (rw_w01 w) [rw_coef w] (rw_base w) m [n]"
  by (simp add: rle_cumulative_def lit_sum_def)

lemma alpha_casts: "between (1 / 16) 1 (fl_cast f64 ALPHA_LIT)" "between 15 254 (fl_cast f64 ALPHA_LIT_TOTAL)"
  using between_cast [OF alphas(2), of f64] between_cast [OF alphas(3), of f64] bound_dyadic [of f64 1 4] by simp_all

lemma rle_weights_ok:
  assumes "rle_inv r"
  defines "w \<equiv> rle_weights_of r"
  shows "sum_args (rw_w01 w) [rw_coef w] (rw_base w)" "fin (rw_w0 w)" "1 / 2 ^ 20 \<le> val (rw_w0 w)"
    "val (rw_w0 w) \<le> val (rw_w01 w)"
    "rw_total w = lit_sum (rw_w01 w) [rw_coef w] (rw_base w) 254 [sum_list (rle_counts r)]"
proof -
  let ?c = "rle_ctx r" let ?t = "lit_totals r ! ?c"
  have inv: "binary_inv (run_vs_lit r ! ?c)" "binary_inv (runa_vs_runb r ! ?c)"
    using assms(1) by (auto simp: rle_inv_def)
  obtain w0 w01 p_lit where bw: "binary_weights (p_yes (run_vs_lit r ! ?c)) (p_yes (runa_vs_runb r ! ?c)) = (w0, w01, p_lit)"
    by (metis prod_cases3)
  note b = binary_weights_ok [OF loose_prob [OF p_yes_between [OF inv(1)]] loose_prob [OF p_yes_between [OF inv(2)]] bw]
  have t: "?t = sum_list (rle_counts r)" "?t < 2 ^ 32" using rle_current [OF assms(1)] by simp_all
  define coef where "coef = fl_div f64 p_lit (fl_add f64 (fl_nat f64 ?t) (fl_cast f64 ALPHA_LIT_TOTAL))"
  have w: "w = \<lparr>rw_w0 = w0, rw_w01 = w01, rw_coef = coef, rw_base = fl_mul f64 coef (fl_cast f64 ALPHA_LIT),
      rw_total = fl_add f64 (fl_add f64 w01 (fl_mul f64 coef (fl_nat f64 ?t)))
        (fl_mul f64 (fl_nat f64 NUM_LITS) (fl_mul f64 coef (fl_cast f64 ALPHA_LIT)))\<rparr>"
    by (simp add: w_def rle_weights_of_def model_parts_fenwick_def Let_def bw coef_def)
  have b40: "bound f64 (2 ^ 40)" by (rule bound_pow) simp
  have den: "between 15 (2 ^ 40) (fl_add f64 (fl_nat f64 ?t) (fl_cast f64 ALPHA_LIT_TOTAL))"
    by (rule between_add [OF nat_32 [OF t(2)] alpha_casts(2)]) (use b40 in simp_all)
  have p: "between 0 8 p_lit" using b(5) by (rule between_mono) simp_all
  have coef: "between 0 4 coef"
    unfolding coef_def by (rule between_div [OF p den]) simp_all
  have base: "between 0 4 (fl_mul f64 coef (fl_cast f64 ALPHA_LIT))"
    by (rule between_mul [OF coef alpha_casts(1)]) simp_all
  show "sum_args (rw_w01 w) [rw_coef w] (rw_base w)"
    using b(2,3) coef base by (auto simp: sum_args_def w elim!: between_mono)
  show "fin (rw_w0 w)" "1 / 2 ^ 20 \<le> val (rw_w0 w)" "val (rw_w0 w) \<le> val (rw_w01 w)"
    using b(1,4) by (simp_all add: w between_def)
  show "rw_total w = lit_sum (rw_w01 w) [rw_coef w] (rw_base w) 254 [sum_list (rle_counts r)]"
    by (simp add: w lit_sum_def t(1) NUM_LITS_def)
qed

lemma take_sum_step:
  assumes "m < length xs"
  shows "sum_list (take m xs) \<le> sum_list (take (m + 1) (xs :: nat list))"
  using assms by (simp add: take_Suc_conv_app_nth)

lemma rle_spread:
  assumes "rle_inv r"
  shows "spread (rw_w0 (rle_weights_of r)) (rw_total (rle_weights_of r)) (rle_sums r)"
proof -
  let ?w = "rle_weights_of r"
  note o = rle_weights_ok [OF assms] and c = rle_current [OF assms]
  have "spread (rw_w0 ?w) (lit_sum (rw_w01 ?w) [rw_coef ?w] (rw_base ?w) 254 [sum_list (rle_counts r)])
      (\<lambda>m. lit_sum (rw_w01 ?w) [rw_coef ?w] (rw_base ?w) m [sum_list (take m (rle_counts r))])"
    by (rule spread_sums [OF o(1-4)]) (use c(2,4) take_sum_step [of _ "rle_counts r"] in simp_all)
  moreover have "rle_sums r = (\<lambda>m. lit_sum (rw_w01 ?w) [rw_coef ?w] (rw_base ?w) m [sum_list (take m (rle_counts r))])"
    by (rule ext) (simp add: rle_sums_def rle_cumulative_sum)
  ultimately show ?thesis using o(5) by simp
qed

lemma rle_cdf_table: "rle_inv r \<Longrightarrow> cdf_table (rle_cdf r)"
  unfolding rle_cdf_def by (rule quantized_table_lawful [OF rle_spread])

text \<open>At the first literal the sum is bit for bit the mass of the run symbols.\<close>

lemma rle_sums_0: "rle_inv r \<Longrightarrow> rle_sums r 0 = rw_w01 (rle_weights_of r)"
  using lit_sum_zero [OF rle_weights_ok(1)] by (simp add: rle_sums_def rle_cumulative_sum)

lemma rle_entries_eq:
  "rle_entries w m c counts
    = map (\<lambda>i. of_nat (quantized_boundary (rle_cumulative w (m + i) (c + sum_list (take i counts))) (rw_total w) (2 + (m + i))))
        [0..<length counts]"
proof (induction counts arbitrary: m c)
  case (Cons x xs)
  show ?case
    unfolding length_Cons map_upt_Suc rle_entries.simps Cons.IH by (simp add: add.assoc)
qed simp

lemma rle_predict_cdf_eq: "rle_inv r \<Longrightarrow> rle_predict_cdf r = (rle_cdf r, r)"
  using rle_current(2) [of r] unfolding rle_predict_cdf_def Let_def rle_entries_eq rle_cdf_def quantized_table_def rle_sums_def
  by (simp add: rle_counts_def NUM_LITS_def)

section \<open>The fast paths\<close>

lemma literal_index:
  assumes "b \<noteq> 0" "b \<noteq> (1 :: u8)"
  shows "unat b = unat (b - 2) + 2" "unat (b - 2) < 254"
proof -
  have "unat b \<noteq> 0" "unat b \<noteq> 1" using assms by (simp_all add: u8_eq_iff)
  then have "2 \<le> unat b" by linarith
  then have "unat (b - 2) = unat b - 2" by (simp add: unat_sub word_le_nat_alt)
  then show "unat b = unat (b - 2) + 2" "unat (b - 2) < 254"
    using \<open>2 \<le> unat b\<close> unat_less_256 [of b] by linarith+
qed

lemma byte_255: "unat (b :: u8) = 255 \<longleftrightarrow> b = 255"
  by (simp add: u8_eq_iff)

lemma rle_query_cdf_eq:
  assumes "rle_inv r"
  shows "rle_query_cdf b r = ((rle_cdf r ! unat b, rle_cdf r ! (unat b + 1)), r)"
proof -
  let ?w = "rle_weights_of r" let ?T = "rle_cdf r"
  note c = rle_current [OF assms]
  have run: "?T ! 0 = 0" "?T ! 1 = of_nat (quantized_boundary (rw_w0 ?w) (rw_total ?w) 1)"
    "?T ! 2 = of_nat (quantized_boundary (rw_w01 ?w) (rw_total ?w) 2)"
    using table_run [of "rw_w0 ?w" "rw_total ?w" "rle_sums r"] rle_sums_0 [OF assms] unfolding rle_cdf_def by simp_all
  consider "b = 0" | "b = 1" | "b \<noteq> 0" "b \<noteq> 1" by blast
  then show ?thesis
  proof cases
    case 1
    then show ?thesis using run by (simp add: rle_query_cdf_def model_parts_fenwick_def Let_def)
  next
    case 2
    then show ?thesis using run
      by (simp add: rle_query_cdf_def model_parts_fenwick_def Let_def flip: numeral_2_eq_2)
  next
    case 3
    let ?m = "unat (b - 2)"
    note m = literal_index [OF 3]
    have pre: "fenwick254_prefix (lit_fenwick r ! rle_ctx r) ?m = sum_list (take ?m (rle_counts r))"
      unfolding fenwick254_prefix_def by (rule fenwick_prefix_correct [OF c(5)]) (use m c(2) in simp)
    have suc: "sum_list (take ?m (rle_counts r)) + lit_counts r ! rle_ctx r ! ?m = sum_list (take (?m + 1) (rle_counts r))"
      using m c(2) by (simp add: take_Suc_conv_app_nth rle_counts_def)
    have last: "b = 255 \<longleftrightarrow> ?m = 253" using byte_255 [of b] m by linarith
    show ?thesis
      using 3 last
      unfolding rle_cdf_def rle_query_cdf_def model_parts_fenwick_def Let_def prod.case pre suc m(1)
        table_literal [OF m(2), of "rw_w0 ?w" "rw_total ?w" "rle_sums r"]
      by (simp add: rle_sums_def)
  qed
qed

lemma rle_widens:
  assumes "rle_inv r"
  shows "widens (\<lambda>cum i. cum + lit_fenwick r ! rle_ctx r ! i) (\<lambda>m. sum_list (take m (rle_counts r)))"
  using fenwick_extend [OF rle_current(5) [OF assms]] rle_current(2) [OF assms] by (auto simp: widens_def)

lemma rle_decode_symbol_eq:
  assumes "rle_inv r" "unat freq < 32768" "in_interval (rle_cdf r) t freq"
  shows "rle_decode_symbol freq r = ((of_nat t, rle_cdf r ! t, rle_cdf r ! (t + 1)), r)"
proof -
  let ?w = "rle_weights_of r"
  have "search_symbol (\<lambda>cum i. cum + lit_fenwick r ! rle_ctx r ! i)
      (\<lambda>m cum. quantized_boundary (rle_cumulative ?w m cum) (rw_total ?w) (2 + m)) (sum_list (take 0 (rle_counts r))) (unat freq)
      (quantized_boundary (rw_w0 ?w) (rw_total ?w) 1) (quantized_boundary (rle_sums r 0) (rw_total ?w) 2)
    = (of_nat t, rle_cdf r ! t, rle_cdf r ! (t + 1))"
    unfolding rle_cdf_def
    by (rule search_symbol_correct [where accs = "\<lambda>m. sum_list (take m (rle_counts r))", OF rle_spread [OF assms(1)] rle_widens [OF assms(1)]])
      (use assms in \<open>simp_all add: rle_sums_def in_interval_def rle_cdf_def\<close>)
  then show ?thesis
    by (simp add: rle_decode_symbol_def model_parts_fenwick_def Let_def rle_sums_0 [OF assms(1)])
qed

interpretation rle_lawful: lawful_predictor rle_coder rle_inv rle_cdf
proof
  show "rle_inv s \<Longrightarrow> rle_inv (reset_state rle_coder s)" for s
    by (simp add: rle_coder_def rle_reset_def rle_new_inv)
qed (simp_all add: rle_coder_def rle_cdf_table rle_query_cdf_eq rle_update_inv rle_decode_symbol_eq)

interpretation rle_slow: cdf_predictor rle_predict_cdf rle_update rle_reset rle_inv rle_cdf
  by unfold_locales (simp_all add: rle_reset_def rle_new_inv rle_cdf_table rle_predict_cdf_eq rle_update_inv)

section \<open>Saved state\<close>

definition MAX_BINARY_COUNT :: nat where "MAX_BINARY_COUNT = 1000000"
definition MAX_LIT_COUNT :: nat where "MAX_LIT_COUNT = 1000000"

definition put_u32 :: "nat \<Rightarrow> bytes" where "put_u32 n = u32_to_le (of_nat n)"

definition rle_save_context :: "rle_predictor \<Rightarrow> nat \<Rightarrow> bytes" where
  "rle_save_context r i =
     put_u32 (count_yes (run_vs_lit r ! i)) @ put_u32 (count_total (run_vs_lit r ! i))
     @ put_u32 (count_yes (runa_vs_runb r ! i)) @ put_u32 (count_total (runa_vs_runb r ! i))
     @ concat (map put_u32 (lit_counts r ! i)) @ put_u32 (lit_totals r ! i)"

definition rle_save_state :: "rle_predictor \<Rightarrow> bytes" where
  "rle_save_state r = 1 # concat (map (rle_save_context r) [0..<NUM_CONTEXTS]) @ [of_nat (rle_ctx r)]"

text \<open>\<^verbatim>\<open>read_u32\<close>: the next field and the rest of the data; the length was checked before.\<close>

definition get_u32 :: "bytes \<Rightarrow> nat \<times> bytes" where
  "get_u32 data = (unat (u32_of_le (take 4 data)), drop 4 data)"

fun get_u32s :: "nat \<Rightarrow> bytes \<Rightarrow> nat list \<times> bytes" where
  "get_u32s 0 data = ([], data)"
| "get_u32s (Suc n) data =
     (let (x, data) = get_u32 data; (xs, data) = get_u32s n data in (x # xs, data))"

definition rle_load_context :: "bytes \<Rightarrow> ((binary_model \<times> binary_model \<times> nat list \<times> nat) \<times> bytes) option" where
  "rle_load_context data =
     (let (yes, data) = get_u32 data; (tot, data) = get_u32 data
      in if yes > tot \<or> tot > MAX_BINARY_COUNT then None
         else
           let (yes', data) = get_u32 data; (tot', data) = get_u32 data
           in if yes' > tot' \<or> tot' > MAX_BINARY_COUNT then None
              else
                let (counts, data) = get_u32s NUM_LITS data
                in if (\<exists>c \<in> set counts. c > MAX_LIT_COUNT) then None
                   else
                     let (lit_total, data) = get_u32 data
                     in if sum_list counts > 2 ^ 32 - 1 \<or> lit_total \<noteq> sum_list counts then None
                        else Some ((\<lparr>count_yes = yes, count_total = tot\<rparr>, \<lparr>count_yes = yes', count_total = tot'\<rparr>,
                                    counts, lit_total), data))"

fun rle_load_contexts :: "nat \<Rightarrow> bytes \<Rightarrow> ((binary_model \<times> binary_model \<times> nat list \<times> nat) list \<times> bytes) option" where
  "rle_load_contexts 0 data = Some ([], data)"
| "rle_load_contexts (Suc n) data =
     (case rle_load_context data of
        None \<Rightarrow> None
      | Some (c, data) \<Rightarrow>
          (case rle_load_contexts n data of None \<Rightarrow> None | Some (cs, data) \<Rightarrow> Some (c # cs, data)))"

definition rle_load_state :: "bytes \<Rightarrow> rle_predictor \<Rightarrow> bool \<times> rle_predictor" where
  "rle_load_state data r =
     (if data = [] \<or> hd data \<noteq> 1 then (False, r)
      else
        let data = tl data; per_ctx = 4 + 4 + 4 + 4 + 254 * 4 + 4
        in if length data \<noteq> NUM_CONTEXTS * per_ctx + 1 then (False, r)
           else
             case rle_load_contexts NUM_CONTEXTS data of
               None \<Rightarrow> (False, r)
             | Some (cs, rest) \<Rightarrow>
                 let ctx = unat (hd rest); counts = map (\<lambda>(_, _, counts, _). counts) cs
                 in (True, \<lparr>run_vs_lit = map (\<lambda>(m, _). m) cs, runa_vs_runb = map (\<lambda>(_, m, _). m) cs,
                            lit_counts = counts, lit_fenwick = map fenwick254_rebuild counts,
                            lit_totals = map (\<lambda>(_, _, _, t). t) cs,
                            rle_ctx = (if ctx \<ge> NUM_CONTEXTS then 0 else ctx)\<rparr>))"

lemma get_put: "n < 2 ^ 32 \<Longrightarrow> get_u32 (put_u32 n @ rest) = (n, rest)"
  by (simp add: get_u32_def put_u32_def unat_of_nat_small)

lemma length_put [simp]: "length (put_u32 n) = 4" by (simp add: put_u32_def)

lemma gets_puts:
  "\<forall>x \<in> set xs. x < 2 ^ 32 \<Longrightarrow> length xs = n \<Longrightarrow> get_u32s n (concat (map put_u32 xs) @ rest) = (xs, rest)"
proof (induction xs arbitrary: n)
  case (Cons x xs)
  then show ?case by (cases n) (simp_all add: get_put)
qed simp

definition saved_ok :: "binary_model \<times> binary_model \<times> nat list \<times> nat \<Rightarrow> bool" where
  "saved_ok c \<longleftrightarrow> (case c of (m, m', counts, t) \<Rightarrow> binary_inv m \<and> binary_inv m' \<and> length counts = 254
     \<and> (\<forall>x \<in> set counts. x \<le> MAX_LIT_COUNT) \<and> t = sum_list counts \<and> t < 2 ^ 32)"

definition put_context :: "binary_model \<times> binary_model \<times> nat list \<times> nat \<Rightarrow> bytes" where
  "put_context c = (case c of (m, m', counts, t) \<Rightarrow>
     put_u32 (count_yes m) @ put_u32 (count_total m) @ put_u32 (count_yes m') @ put_u32 (count_total m')
     @ concat (map put_u32 counts) @ put_u32 t)"

lemma load_put_context:
  assumes "saved_ok c"
  shows "rle_load_context (put_context c @ rest) = Some (c, rest)"
proof -
  obtain m m' counts t where c: "c = (m, m', counts, t)" by (metis prod_cases4)
  note k = assms [unfolded saved_ok_def c prod.case]
  have b: "count_yes m < 2 ^ 32" "count_total m < 2 ^ 32" "count_yes m' < 2 ^ 32" "count_total m' < 2 ^ 32" "t < 2 ^ 32"
    "\<forall>x \<in> set counts. x < 2 ^ 32"
    using k by (auto simp: binary_inv_def MAX_LIT_COUNT_def)
  have e: "get_u32s NUM_LITS (concat (map put_u32 counts) @ put_u32 t @ rest) = (counts, put_u32 t @ rest)"
    by (rule gets_puts [OF b(6)]) (use k in \<open>simp add: NUM_LITS_def\<close>)
  have n: "\<not> (\<exists>x \<in> set counts. MAX_LIT_COUNT < x)" "\<not> count_yes m > count_total m" "\<not> count_yes m' > count_total m'"
    "\<not> count_total m > MAX_BINARY_COUNT" "\<not> count_total m' > MAX_BINARY_COUNT" "\<not> (sum_list counts > 2 ^ 32 - 1 \<or> t \<noteq> sum_list counts)"
    using k by (auto simp: binary_inv_def MAX_BINARY_COUNT_def)
  show ?thesis
    unfolding rle_load_context_def put_context_def c prod.case append_assoc Let_def get_put [OF b(1)] get_put [OF b(2)]
      get_put [OF b(3)] get_put [OF b(4)] e get_put [OF b(5)]
    using n by simp
qed

lemma load_put_contexts:
  "\<forall>c \<in> set cs. saved_ok c \<Longrightarrow> rle_load_contexts (length cs) (concat (map put_context cs) @ rest) = Some (cs, rest)"
  by (induction cs) (simp_all add: load_put_context)

lemma length_put_context: "saved_ok c \<Longrightarrow> length (put_context c) = 4 + 4 + 4 + 4 + 254 * 4 + 4"
  by (auto simp: put_context_def saved_ok_def length_concat o_def sum_list_triv split: prod.splits)

definition rle_parts :: "rle_predictor \<Rightarrow> nat \<Rightarrow> binary_model \<times> binary_model \<times> nat list \<times> nat" where
  "rle_parts r i = (run_vs_lit r ! i, runa_vs_runb r ! i, lit_counts r ! i, lit_totals r ! i)"

text \<open>States the predictor itself reaches have no count above the limit of the loader.\<close>

definition rle_savable :: "rle_predictor \<Rightarrow> bool" where
  "rle_savable r \<longleftrightarrow> rle_inv r \<and> (\<forall>c < 3. \<forall>x \<in> set (lit_counts r ! c). x \<le> MAX_LIT_COUNT)"

lemma savable_parts: "rle_savable r \<Longrightarrow> i < 3 \<Longrightarrow> saved_ok (rle_parts r i)"
  by (auto simp: rle_savable_def rle_inv_def saved_ok_def rle_parts_def counted_def)

lemma counted_tree: "counted l cs t tot \<Longrightarrow> fenwick254_rebuild cs = t"
proof -
  assume a: "counted l cs t tot"
  then have "is_fenwick (fenwick_rebuild cs) cs" by (intro fenwick_rebuild_correct) (simp add: counted_def)
  then show ?thesis using is_fenwick_unique a by (auto simp: counted_def fenwick254_rebuild_def)
qed

theorem rle_load_save:
  assumes "rle_savable r"
  shows "rle_load_state (rle_save_state r) r0 = (True, r)"
proof -
  note i = assms [unfolded rle_savable_def rle_inv_def]
  define cs where "cs = map (rle_parts r) [0..<3]"
  have ok: "\<forall>c \<in> set cs. saved_ok c" using savable_parts [OF assms] by (simp add: cs_def)
  have "rle_save_context r = put_context \<circ> rle_parts r"
    by (rule ext) (simp add: rle_save_context_def put_context_def rle_parts_def)
  then have ctx: "concat (map (rle_save_context r) [0..<NUM_CONTEXTS]) = concat (map put_context cs)"
    by (simp add: NUM_CONTEXTS_def cs_def)
  have len: "length (concat (map put_context cs)) = 3 * (4 + 4 + 4 + 4 + 254 * 4 + 4)"
    using length_put_context ok by (simp add: length_concat o_def upt_rec cs_def)
  have load: "rle_load_contexts NUM_CONTEXTS (concat (map put_context cs) @ [of_nat (rle_ctx r)]) = Some (cs, [of_nat (rle_ctx r)])"
    using load_put_contexts [OF ok, of "[of_nat (rle_ctx r)]"] by (simp add: NUM_CONTEXTS_def cs_def)
  have trees: "map fenwick254_rebuild (map (\<lambda>(_, _, counts, _). counts) cs) = lit_fenwick r"
  proof (rule nth_equalityI)
    fix j assume "j < length (map fenwick254_rebuild (map (\<lambda>(_, _, counts, _). counts) cs))"
    then have j: "j < 3" by (simp add: cs_def)
    then have "fenwick254_rebuild (lit_counts r ! j) = lit_fenwick r ! j" using i counted_tree by blast
    then show "map fenwick254_rebuild (map (\<lambda>(_, _, counts, _). counts) cs) ! j = lit_fenwick r ! j"
      using j by (simp add: rle_parts_def cs_def)
  qed (use i in \<open>simp add: cs_def\<close>)
  have fields: "map (\<lambda>(m, _). m) cs = run_vs_lit r" "map (\<lambda>(_, m, _). m) cs = runa_vs_runb r"
    "map (\<lambda>(_, _, counts, _). counts) cs = lit_counts r" "map (\<lambda>(_, _, _, t). t) cs = lit_totals r"
    using i by (auto intro!: nth_equalityI simp: rle_parts_def cs_def)
  have "unat (of_nat (rle_ctx r) :: u8) = rle_ctx r" using i by (simp add: unat_of_nat_u8)
  then show ?thesis
    using i len load
    unfolding rle_save_state_def ctx rle_load_state_def
    by (simp add: Let_def NUM_CONTEXTS_def trees [unfolded map_map] fields del: length_concat list.map)
qed

text \<open>Whatever bytes are loaded, an accepted state is well formed; a rejected one changes nothing.\<close>

lemma gets_length: "get_u32s n data = (xs, rest) \<Longrightarrow> length xs = n \<and> length rest = length data - 4 * n"
  by (induction n arbitrary: data xs) (auto simp: get_u32_def Let_def split: prod.splits)

lemma load_context_ok:
  assumes "rle_load_context data = Some (c, rest)"
  shows "saved_ok c"
proof -
  obtain yes d1 where 1: "get_u32 data = (yes, d1)" by fastforce
  obtain tot d2 where 2: "get_u32 d1 = (tot, d2)" by fastforce
  obtain yes' d3 where 3: "get_u32 d2 = (yes', d3)" by fastforce
  obtain tot' d4 where 4: "get_u32 d3 = (tot', d4)" by fastforce
  obtain counts d5 where 5: "get_u32s NUM_LITS d4 = (counts, d5)" by fastforce
  obtain t d6 where 6: "get_u32 d5 = (t, d6)" by fastforce
  show ?thesis
    using assms gets_length [OF 5] unfolding rle_load_context_def 1 2 3 4 5 6 Let_def prod.case
    by (auto simp: saved_ok_def binary_inv_def MAX_BINARY_COUNT_def NUM_LITS_def not_less split: if_splits)
qed

lemma load_contexts_ok:
  "rle_load_contexts n data = Some (cs, rest) \<Longrightarrow> length cs = n \<and> (\<forall>c \<in> set cs. saved_ok c)"
proof (induction n arbitrary: data cs)
  case (Suc n)
  obtain c d cs' where "rle_load_context data = Some (c, d)" "rle_load_contexts n d = Some (cs', rest)" "cs = c # cs'"
    using Suc.prems by (auto split: option.splits)
  then show ?case using Suc.IH load_context_ok by fastforce
qed simp

lemma saved_counts:
  assumes "saved_ok c"
  shows "counted 254000000 ((\<lambda>(_, _, counts, _). counts) c) (fenwick254_rebuild ((\<lambda>(_, _, counts, _). counts) c)) ((\<lambda>(_, _, _, t). t) c)"
proof -
  obtain m m' counts t where c: "c = (m, m', counts, t)" by (metis prod_cases4)
  note k = assms [unfolded saved_ok_def c prod.case]
  have "sum_list counts \<le> (\<Sum>x\<leftarrow>counts. MAX_LIT_COUNT)"
    using sum_list_mono [of counts "\<lambda>x. x" "\<lambda>_. MAX_LIT_COUNT"] k by simp
  also have "\<dots> = 254000000" using k by (simp add: sum_list_triv MAX_LIT_COUNT_def)
  finally show ?thesis
    using k fenwick_rebuild_correct [of counts] by (simp add: c counted_def fenwick254_rebuild_def)
qed

theorem rle_load_inv:
  assumes "rle_load_state data r = (True, r')"
  shows "rle_savable r'"
proof -
  obtain cs rest where l: "rle_load_contexts NUM_CONTEXTS (tl data) = Some (cs, rest)"
    and r': "r' = \<lparr>run_vs_lit = map (\<lambda>(m, _). m) cs, runa_vs_runb = map (\<lambda>(_, m, _). m) cs,
        lit_counts = map (\<lambda>(_, _, counts, _). counts) cs, lit_fenwick = map fenwick254_rebuild (map (\<lambda>(_, _, counts, _). counts) cs),
        lit_totals = map (\<lambda>(_, _, _, t). t) cs,
        rle_ctx = (if unat (hd rest) \<ge> NUM_CONTEXTS then 0 else unat (hd rest))\<rparr>"
    using assms by (auto simp: rle_load_state_def Let_def split: if_splits option.splits)
  have cs: "length cs = 3" "\<And>c. c < 3 \<Longrightarrow> saved_ok (cs ! c)" using load_contexts_ok [OF l] by (auto simp: NUM_CONTEXTS_def)
  have "binary_inv (run_vs_lit r' ! c) \<and> binary_inv (runa_vs_runb r' ! c)
      \<and> counted 254000000 (lit_counts r' ! c) (lit_fenwick r' ! c) (lit_totals r' ! c)
      \<and> (\<forall>x \<in> set (lit_counts r' ! c). x \<le> MAX_LIT_COUNT)" if "c < 3" for c
    using saved_counts [OF cs(2) [OF that]] cs(2) [OF that] that cs(1)
    by (auto simp: r' saved_ok_def split: prod.splits)
  then show ?thesis using cs(1) by (auto simp: rle_savable_def rle_inv_def r' NUM_CONTEXTS_def)
qed

lemma rle_load_rejected: "rle_load_state data r = (False, r') \<Longrightarrow> r' = r"
  by (auto simp: rle_load_state_def Let_def split: if_splits option.splits)

lemma rle_load_length: "rle_load_state data r = (True, r') \<Longrightarrow> length data = 1 + 3 * (4 + 4 + 4 + 4 + 254 * 4 + 4) + 1"
  by (cases data) (auto simp: rle_load_state_def Let_def NUM_CONTEXTS_def split: if_splits)

lemma length_rle_save: "rle_savable r \<Longrightarrow> length (rle_save_state r) = 1 + 3 * (4 + 4 + 4 + 4 + 254 * 4 + 4) + 1"
  using rle_load_length [OF rle_load_save] .

end
