(* ===== verification/NeuralSsm.thy ===== *)
theory NeuralSsm
  imports "HOL-Library.Monad_Syntax" RlePredictor
begin

text \<open>
  The neural predictor, \<^verbatim>\<open>entropy/neural_ssm.rs\<close>: a run-length predictor mixed with two
  logistic classifiers over a linear recurrent state, and counted literals per pair of preceding
  bytes. All of its floating-point arithmetic is that of \<^verbatim>\<open>Floats\<close>; the functions of the
  platform's mathematical library, exponential and logarithm, are parameters. The table is lawful in
  every state whose counts are consistent, whatever the classifiers have become.
\<close>

definition D_MAX :: nat where "D_MAX = 32"
definition MIN_PROB :: float_value where "MIN_PROB = PROB_FLOOR"
definition NUM_O2_CTX :: nat where "NUM_O2_CTX = 64"
definition O2_ALPHA :: float_value where "O2_ALPHA = fl_lit f32 (1 / 2)"
definition O2_CONF_K :: float_value where "O2_CONF_K = fl_lit f32 32"

record neural_config =
  cfg_d :: nat
  cfg_lr :: float_value
  cfg_mix_decay :: float_value
  cfg_warmup :: u32
  cfg_mix_sensitivity :: float_value
  cfg_max_alpha :: float_value
  cfg_decay_lo :: float_value
  cfg_decay_hi :: float_value
  cfg_o2_lit_blend :: float_value
  cfg_o2_min_obs :: u32

definition default_config :: neural_config where
  "default_config = \<lparr>cfg_d = 32, cfg_lr = fl_lit f32 (1 / 100), cfg_mix_decay = fl_lit f32 (995 / 1000), cfg_warmup = 0,
     cfg_mix_sensitivity = fl_lit f32 100, cfg_max_alpha = fl_lit f32 (9 / 10), cfg_decay_lo = fl_lit f32 (1 / 2),
     cfg_decay_hi = fl_lit f32 (999 / 1000), cfg_o2_lit_blend = fl_lit f32 (3 / 10), cfg_o2_min_obs = 10\<rparr>"

definition det_hash :: "u32 \<Rightarrow> float_value" where
  "det_hash seed =
     (let x = seed + 0x9e3779b9;
          x = ((drop_bit 16 x) XOR x) * 0x0045d9f3;
          x = ((drop_bit 16 x) XOR x) * 0x0045d9f3;
          x = (drop_bit 16 x) XOR x;
          mantissa_bits = fl_nat f32 (unat (drop_bit 9 x))
      in fl_sub f32 (fl_div f32 mantissa_bits (fl_lit f32 4194304)) (fl_lit f32 1))"

section \<open>The logistic function\<close>

definition SIGMOID_MIN :: float_value where "SIGMOID_MIN = fl_lit f32 (- 20)"
definition SIGMOID_MAX :: float_value where "SIGMOID_MAX = fl_lit f32 20"
definition SIGMOID_STEPS_PER_UNIT :: nat where "SIGMOID_STEPS_PER_UNIT = 256"
definition SIGMOID_LUT_LEN :: nat where
  "SIGMOID_LUT_LEN = fl_to_nat 64 (fl_sub f32 SIGMOID_MAX SIGMOID_MIN) * SIGMOID_STEPS_PER_UNIT + 1"

text \<open>The platform's exponential and natural logarithm on \<^verbatim>\<open>f32\<close>.\<close>

record math_lib =
  lib_exp :: "float_value \<Rightarrow> float_value"
  lib_ln :: "float_value \<Rightarrow> float_value"

definition sigmoid_entry :: "math_lib \<Rightarrow> nat \<Rightarrow> float_value" where
  "sigmoid_entry lib index =
     (let x = fl_add f32 SIGMOID_MIN (fl_div f32 (fl_nat f32 index) (fl_nat f32 SIGMOID_STEPS_PER_UNIT))
      in fl_div f32 (fl_lit f32 1) (fl_add f32 (fl_lit f32 1) (lib_exp lib (fl_neg x))))"

definition SIGMOID_LUT :: "math_lib \<Rightarrow> float_value list" where
  "SIGMOID_LUT lib = map (sigmoid_entry lib) [0..<SIGMOID_LUT_LEN]"

definition sigmoid :: "math_lib \<Rightarrow> float_value \<Rightarrow> float_value" where
  "sigmoid lib x =
     (let scaled = fl_mul f32 (fl_sub f32 (fl_clamp SIGMOID_MIN SIGMOID_MAX x) SIGMOID_MIN) (fl_nat f32 SIGMOID_STEPS_PER_UNIT);
          index = fl_to_nat 64 scaled
      in if index + 1 \<ge> SIGMOID_LUT_LEN then SIGMOID_LUT lib ! (SIGMOID_LUT_LEN - 1)
         else
           let fraction = fl_sub f32 scaled (fl_nat f32 index);
               lo = SIGMOID_LUT lib ! index
           in fl_add f32 lo (fl_mul f32 (fl_sub f32 (SIGMOID_LUT lib ! (index + 1)) lo) fraction))"

section \<open>The state\<close>

text \<open>What a dictionary replaces, and so what a reset with a baseline restores.\<close>

record learned =
  ssm_rle :: rle_predictor
  ssm_h :: "float_value list"
  w_run :: "float_value list"
  b_run :: float_value
  w_runa :: "float_value list"
  b_runa :: float_value
  ssm_perf :: float_value
  rle_perf :: float_value
  o2_lit_counts :: "nat list list"
  o2_lit_fenwick :: "nat list list"
  o2_lit_totals :: "nat list"
  prev_byte :: u8
  prev_prev_byte :: u8
  ssm_step :: u32

record neural =
  ssm_cfg :: neural_config
  decay_a :: "float_value list"
  a_inv :: "float_value list"
  ssm_embed :: "float_value list list"
  ssm_state :: learned
  last_ssm_p_run :: float_value
  last_ssm_p_runa :: float_value
  last_rle_p_run :: float_value
  last_rle_p_runa :: float_value
  dict_baseline :: "(learned \<times> bytes) option"

definition f_zero :: float_value where "f_zero = Num False 0"
definition f_half :: float_value where "f_half = fl_lit f32 (1 / 2)"

definition finite_or :: "float_value \<Rightarrow> float_value \<Rightarrow> (float_value \<Rightarrow> float_value) \<Rightarrow> float_value" where
  "finite_or x fallback f = (if is_finite x then f x else fallback)"

definition validated :: "neural_config \<Rightarrow> neural_config" where
  "validated c =
     (let d = min (max (cfg_d c) 1) D_MAX;
          unit = fl_clamp f_zero (fl_lit f32 1);
          lr = (if is_finite (cfg_lr c) \<and> fl_le f_zero (cfg_lr c) then fl_min (cfg_lr c) (fl_lit f32 1) else cfg_lr default_config);
          mix_decay = finite_or (cfg_mix_decay c) (cfg_mix_decay default_config) unit;
          mix_sensitivity = (if is_finite (cfg_mix_sensitivity c) \<and> fl_le f_zero (cfg_mix_sensitivity c)
            then fl_min (cfg_mix_sensitivity c) (fl_lit f32 1000) else cfg_mix_sensitivity default_config);
          max_alpha = finite_or (cfg_max_alpha c) (cfg_max_alpha default_config) unit;
          decay_lo = finite_or (cfg_decay_lo c) (cfg_decay_lo default_config) unit;
          decay_hi = (if is_finite (cfg_decay_hi c) then fl_clamp decay_lo (fl_lit f32 1) (cfg_decay_hi c)
            else fl_max (cfg_decay_hi default_config) decay_lo);
          o2_lit_blend = finite_or (cfg_o2_lit_blend c) (cfg_o2_lit_blend default_config) unit
      in \<lparr>cfg_d = d, cfg_lr = lr, cfg_mix_decay = mix_decay, cfg_warmup = cfg_warmup c,
          cfg_mix_sensitivity = mix_sensitivity, cfg_max_alpha = max_alpha, cfg_decay_lo = decay_lo,
          cfg_decay_hi = decay_hi, cfg_o2_lit_blend = o2_lit_blend, cfg_o2_min_obs = cfg_o2_min_obs c\<rparr>)"

definition decay_rate :: "neural_config \<Rightarrow> nat \<Rightarrow> float_value" where
  "decay_rate c i =
     (let t = fl_div f32 (fl_nat f32 i) (fl_nat f32 (max (cfg_d c - 1) 1))
      in fl_add f32 (cfg_decay_lo c) (fl_mul f32 t (fl_sub f32 (cfg_decay_hi c) (cfg_decay_lo c))))"

definition up_to :: "nat \<Rightarrow> (nat \<Rightarrow> float_value) \<Rightarrow> float_value list" where
  "up_to d f = map (\<lambda>i. if i < d then f i else f_zero) [0..<D_MAX]"

definition learned_new :: learned where
  "learned_new =
     \<lparr>ssm_rle = rle_new, ssm_h = replicate D_MAX f_zero, w_run = replicate D_MAX f_zero, b_run = f_zero, w_runa = replicate D_MAX f_zero,
      b_runa = f_zero, ssm_perf = f_zero, rle_perf = f_zero,
      o2_lit_counts = replicate NUM_O2_CTX (replicate NUM_LITS 0), o2_lit_fenwick = replicate NUM_O2_CTX (replicate NUM_LITS 0),
      o2_lit_totals = replicate NUM_O2_CTX 0, prev_byte = 0xFF, prev_prev_byte = 0xFF, ssm_step = 0\<rparr>"

definition neural_with_config :: "neural_config \<Rightarrow> neural" where
  "neural_with_config c =
     (let c = validated c; d = cfg_d c; a = up_to d (decay_rate c)
      in \<lparr>ssm_cfg = c, decay_a = a, a_inv = up_to d (\<lambda>i. fl_sub f32 (fl_lit f32 1) (a ! i)),
          ssm_embed = map (\<lambda>sym. up_to d (\<lambda>i. det_hash (of_nat sym * 997 + of_nat (i + 42)))) [0..<256],
          ssm_state = learned_new, last_ssm_p_run = f_half, last_ssm_p_runa = f_half, last_rle_p_run = f_half,
          last_rle_p_runa = f_half, dict_baseline = None\<rparr>)"

definition neural_new :: neural where
  "neural_new = neural_with_config default_config"

section \<open>Prediction\<close>

text \<open>The loop over the state vector; its two branches, for the full and a smaller dimension, agree.\<close>

definition dot_product :: "nat \<Rightarrow> float_value \<Rightarrow> float_value list \<Rightarrow> float_value list \<Rightarrow> float_value" where
  "dot_product d bias ws hs = foldl (\<lambda>acc i. fl_add f32 acc (fl_mul f32 (ws ! i) (hs ! i))) bias [0..<d]"

definition ssm_binary_predict :: "math_lib \<Rightarrow> neural \<Rightarrow> float_value \<times> float_value" where
  "ssm_binary_predict lib n =
     (let d = cfg_d (ssm_cfg n); l = ssm_state n
      in (sigmoid lib (dot_product d (b_run l) (w_run l) (ssm_h l)), sigmoid lib (dot_product d (b_runa l) (w_runa l) (ssm_h l))))"

definition rank_bucket :: "u8 \<Rightarrow> nat" where
  "rank_bucket b = (if b = 0 then 0 else if b = 1 then 1 else if b = 2 then 2 else if b = 3 then 3
     else if b \<le> 5 then 4 else if b \<le> 9 then 5 else if b \<le> 19 then 6 else 7)"

definition o2_context :: "u8 \<Rightarrow> u8 \<Rightarrow> nat" where
  "o2_context prev prev_prev = rank_bucket prev * 8 + rank_bucket prev_prev"

definition mixing_alpha :: "neural \<Rightarrow> float_value" where
  "mixing_alpha n =
     (if ssm_step (ssm_state n) < cfg_warmup (ssm_cfg n) then f_zero
      else
        let diff = fl_sub f32 (ssm_perf (ssm_state n)) (rle_perf (ssm_state n))
        in if fl_le diff f_zero then f_zero
           else fl_min (fl_mul f32 diff (cfg_mix_sensitivity (ssm_cfg n))) (cfg_max_alpha (ssm_cfg n)))"

record step_params =
  sp_w0 :: float_value
  sp_w01 :: float_value
  sp_total :: float_value
  sp_rle_coef :: float_value
  sp_o2_coef :: float_value
  sp_base_lit :: float_value
  sp_o2_ctx :: nat

definition lit_cumulative :: "step_params \<Rightarrow> nat \<Rightarrow> nat \<Rightarrow> nat \<Rightarrow> float_value" where
  "lit_cumulative p m rle_cum o2_cum =
     fl_add f64 (fl_add f64 (fl_add f64 (sp_w01 p) (fl_mul f64 (sp_rle_coef p) (fl_nat f64 rle_cum)))
                   (fl_mul f64 (sp_o2_coef p) (fl_nat f64 o2_cum)))
       (fl_mul f64 (fl_nat f64 m) (sp_base_lit p))"

definition prepare_step_params :: "math_lib \<Rightarrow> neural \<Rightarrow> step_params \<times> neural" where
  "prepare_step_params lib n =
     (let l = ssm_state n; one = fl_lit f32 1;
          (rle_run, rle_runa_given_run, rle_lit_total, _, _) = model_parts_fenwick (ssm_rle l);
          rle_p0 = fl_mul f32 rle_run rle_runa_given_run;
          rle_p1 = fl_mul f32 rle_run (fl_sub f32 one rle_runa_given_run);
          rle_p_run = fl_add f32 rle_p0 rle_p1;
          rle_p_runa = (if fl_less MIN_PROB rle_p_run then fl_div f32 rle_p0 rle_p_run else f_half);
          (ssm_p_run, ssm_p_runa) = ssm_binary_predict lib n;
          alpha = mixing_alpha n;
          p_run = fl_add f32 (fl_mul f32 alpha ssm_p_run) (fl_mul f32 (fl_sub f32 one alpha) rle_p_run);
          p_runa = fl_add f32 (fl_mul f32 alpha ssm_p_runa) (fl_mul f32 (fl_sub f32 one alpha) rle_p_runa);
          o2_ctx = o2_context (prev_byte l) (prev_prev_byte l);
          o2_obs = o2_lit_totals l ! o2_ctx;
          eff_blend = fl_mul f32 (cfg_o2_lit_blend (ssm_cfg n))
            (fl_div f32 (fl_nat f32 o2_obs) (fl_add f32 (fl_nat f32 o2_obs) O2_CONF_K));
          rle_weight = fl_sub f32 one eff_blend;
          (w0, w01, p_lit) = binary_weights p_run p_runa;
          rle_denom = fl_add f64 (fl_nat f64 rle_lit_total) (fl_mul f64 (fl_lit f64 254) (fl_cast f64 ALPHA_LIT));
          rle_coef = fl_div f64 (fl_mul f64 p_lit (fl_cast f64 rle_weight)) rle_denom;
          o2_coef = (if fl_less f_zero eff_blend then
              let o2_denom = fl_add f64 (fl_nat f64 o2_obs) (fl_mul f64 (fl_lit f64 254) (fl_cast f64 O2_ALPHA))
              in fl_div f64 (fl_mul f64 p_lit (fl_cast f64 eff_blend)) o2_denom
            else f_zero);
          base_lit = fl_add f64 (fl_mul f64 rle_coef (fl_cast f64 ALPHA_LIT)) (fl_mul f64 o2_coef (fl_cast f64 O2_ALPHA));
          tot = fl_add f64 (fl_add f64 (fl_add f64 w01 (fl_mul f64 rle_coef (fl_nat f64 rle_lit_total)))
                              (fl_mul f64 o2_coef (fl_nat f64 o2_obs)))
                  (fl_mul f64 (fl_lit f64 254) base_lit)
      in (\<lparr>sp_w0 = w0, sp_w01 = w01, sp_total = tot, sp_rle_coef = rle_coef, sp_o2_coef = o2_coef,
           sp_base_lit = base_lit, sp_o2_ctx = o2_ctx\<rparr>,
          n\<lparr>last_rle_p_run := rle_p_run, last_rle_p_runa := rle_p_runa, last_ssm_p_run := ssm_p_run,
            last_ssm_p_runa := ssm_p_runa\<rparr>))"

definition neural_predict :: "math_lib \<Rightarrow> neural \<Rightarrow> float_value list \<times> neural" where
  "neural_predict lib n =
     (let (params, n) = prepare_step_params lib n;
          (_, _, _, rle_counts, _) = model_parts_fenwick (ssm_rle (ssm_state n));
          o2_counts = o2_lit_counts (ssm_state n) ! sp_o2_ctx params;
          inv_total = fl_cast f32 (fl_div f64 (fl_lit f64 1) (sp_total params));
          weight = (\<lambda>m. fl_add f64 (fl_add f64 (fl_mul f64 (sp_rle_coef params) (fl_nat f64 (rle_counts ! m)))
                                     (fl_mul f64 (sp_o2_coef params) (fl_nat f64 (o2_counts ! m)))) (sp_base_lit params))
      in (fl_mul f32 (fl_cast f32 (sp_w0 params)) inv_total
            # fl_mul f32 (fl_cast f32 (fl_sub f64 (sp_w01 params) (sp_w0 params))) inv_total
            # map (\<lambda>m. fl_mul f32 (fl_cast f32 (weight m)) inv_total) [0..<254], n))"

fun neural_entries :: "step_params \<Rightarrow> nat \<Rightarrow> nat \<Rightarrow> nat \<Rightarrow> nat list \<Rightarrow> nat list \<Rightarrow> u16 list" where
  "neural_entries p m rle_cum o2_cum (c # cs) (d # ds) =
     of_nat (quantized_boundary (lit_cumulative p m rle_cum o2_cum) (sp_total p) (2 + m))
       # neural_entries p (m + 1) (rle_cum + c) (o2_cum + d) cs ds"
| "neural_entries p m rle_cum o2_cum _ _ = []"

definition neural_predict_cdf :: "math_lib \<Rightarrow> neural \<Rightarrow> u16 list \<times> neural" where
  "neural_predict_cdf lib n =
     (let (params, n) = prepare_step_params lib n;
          (_, _, _, rle_counts, _) = model_parts_fenwick (ssm_rle (ssm_state n));
          o2_counts = o2_lit_counts (ssm_state n) ! sp_o2_ctx params
      in (0 # of_nat (quantized_boundary (sp_w0 params) (sp_total params) 1)
            # neural_entries params 0 0 0 rle_counts o2_counts @ [ucast PROB_TOTAL], n))"

definition neural_query_cdf :: "math_lib \<Rightarrow> u8 \<Rightarrow> neural \<Rightarrow> (u16 \<times> u16) \<times> neural" where
  "neural_query_cdf lib byte n =
     (let (params, n) = prepare_step_params lib n;
          q = (\<lambda>cum sym. of_nat (quantized_boundary cum (sp_total params) sym) :: u16)
      in (if byte = 0 then (0, q (sp_w0 params) 1)
          else if byte = 1 then (q (sp_w0 params) 1, q (sp_w01 params) 2)
          else
            let m = unat (byte - 2);
                (_, _, _, rle_counts, rle_fenwick) = model_parts_fenwick (ssm_rle (ssm_state n));
                o2_counts = o2_lit_counts (ssm_state n) ! sp_o2_ctx params;
                o2_fenwick = o2_lit_fenwick (ssm_state n) ! sp_o2_ctx params;
                rle_cum = fenwick254_prefix rle_fenwick m;
                o2_cum = fenwick254_prefix o2_fenwick m;
                lo = q (lit_cumulative params m rle_cum o2_cum) (2 + m);
                hi = (if byte = 255 then ucast PROB_TOTAL
                      else q (lit_cumulative params (m + 1) (rle_cum + rle_counts ! m) (o2_cum + o2_counts ! m)) (2 + (m + 1)))
            in (lo, hi), n))"

definition neural_decode_symbol :: "math_lib \<Rightarrow> u32 \<Rightarrow> neural \<Rightarrow> (u8 \<times> u16 \<times> u16) \<times> neural" where
  "neural_decode_symbol lib freq n =
     (let (params, n) = prepare_step_params lib n;
          (_, _, _, _, rle_fenwick) = model_parts_fenwick (ssm_rle (ssm_state n));
          o2_fenwick = o2_lit_fenwick (ssm_state n) ! sp_o2_ctx params
      in (search_symbol (\<lambda>(rle_cum, o2_cum) i. (rle_cum + rle_fenwick ! i, o2_cum + o2_fenwick ! i))
            (\<lambda>m (rle_cum, o2_cum). quantized_boundary (lit_cumulative params m rle_cum o2_cum) (sp_total params) (2 + m))
            (0, 0) (unat freq)
            (quantized_boundary (sp_w0 params) (sp_total params) 1) (quantized_boundary (sp_w01 params) (sp_total params) 2), n))"

section \<open>Learning\<close>

definition log_likelihoods :: "math_lib \<Rightarrow> u8 \<Rightarrow> neural \<Rightarrow> float_value \<times> float_value" where
  "log_likelihoods lib byte n =
     (let one = fl_lit f32 1;
          ll = (\<lambda>p. lib_ln lib (fl_max p MIN_PROB))
      in if byte \<le> 1 then
           let ssm_run_ll = ll (last_ssm_p_run n);
               rle_run_ll = ll (last_rle_p_run n);
               ssm_ab = (if byte = 0 then ll (last_ssm_p_runa n) else ll (fl_sub f32 one (last_ssm_p_runa n)));
               rle_ab = (if byte = 0 then ll (last_rle_p_runa n) else ll (fl_sub f32 one (last_rle_p_runa n)))
           in (fl_add f32 ssm_run_ll ssm_ab, fl_add f32 rle_run_ll rle_ab)
         else (ll (fl_sub f32 one (last_ssm_p_run n)), ll (fl_sub f32 one (last_rle_p_run n))))"

definition clip_weight :: "float_value \<Rightarrow> float_value" where
  "clip_weight x = fl_clamp (fl_lit f32 (- 10)) (fl_lit f32 10) x"

definition sgd :: "nat \<Rightarrow> float_value \<Rightarrow> float_value list \<Rightarrow> float_value list \<Rightarrow> float_value list" where
  "sgd d lr_err ws hs =
     map (\<lambda>i. if i < d then clip_weight (fl_sub f32 (ws ! i) (fl_mul f32 lr_err (hs ! i))) else ws ! i) [0..<length ws]"

definition o2_update :: "u8 \<Rightarrow> learned \<Rightarrow> learned" where
  "o2_update byte l =
     (if byte \<ge> 2 then
        let c = o2_context (prev_byte l) (prev_prev_byte l);
            idx = unat (byte - 2);
            counts = (o2_lit_counts l ! c)[idx := o2_lit_counts l ! c ! idx + 1];
            tot = o2_lit_totals l ! c + 1
        in if tot > 100000 then
             let counts = map (\<lambda>v. v div 2) counts
             in l\<lparr>o2_lit_counts := (o2_lit_counts l)[c := counts], o2_lit_totals := (o2_lit_totals l)[c := sum_list counts],
                  o2_lit_fenwick := (o2_lit_fenwick l)[c := fenwick254_rebuild counts]\<rparr>
           else
             l\<lparr>o2_lit_counts := (o2_lit_counts l)[c := counts], o2_lit_totals := (o2_lit_totals l)[c := tot],
               o2_lit_fenwick := (o2_lit_fenwick l)[c := fenwick254_add (o2_lit_fenwick l ! c) idx 1]\<rparr>
      else l)"

definition sgd_update :: "math_lib \<Rightarrow> u8 \<Rightarrow> neural \<Rightarrow> learned" where
  "sgd_update lib byte n =
     (let d = cfg_d (ssm_cfg n); lr = cfg_lr (ssm_cfg n); decay = cfg_mix_decay (ssm_cfg n); one = fl_lit f32 1; l = ssm_state n;
          (ssm_ll, rle_ll) = log_likelihoods lib byte n;
          ema = (\<lambda>perf ll. fl_add f32 (fl_mul f32 decay perf) (fl_mul f32 (fl_sub f32 one decay) ll));
          y_run = (if byte \<le> 1 then one else f_zero);
          lr_err_run = fl_mul f32 lr (fl_sub f32 (last_ssm_p_run n) y_run);
          y_runa = (if byte = 0 then one else f_zero);
          lr_err_runa = fl_mul f32 lr (fl_sub f32 (last_ssm_p_runa n) y_runa)
      in l\<lparr>ssm_perf := ema (ssm_perf l) ssm_ll, rle_perf := ema (rle_perf l) rle_ll, ssm_rle := rle_update byte (ssm_rle l),
           w_run := sgd d lr_err_run (w_run l) (ssm_h l), b_run := clip_weight (fl_sub f32 (b_run l) lr_err_run),
           w_runa := (if byte \<le> 1 then sgd d lr_err_runa (w_runa l) (ssm_h l) else w_runa l),
           b_runa := (if byte \<le> 1 then clip_weight (fl_sub f32 (b_runa l) lr_err_runa) else b_runa l)\<rparr>)"

definition state_update :: "neural \<Rightarrow> u8 \<Rightarrow> learned \<Rightarrow> learned" where
  "state_update n byte l =
     (let d = cfg_d (ssm_cfg n); emb = ssm_embed n ! unat byte
      in l\<lparr>ssm_h := map (\<lambda>i. if i < d then fl_add f32 (fl_mul f32 (decay_a n ! i) (ssm_h l ! i)) (fl_mul f32 (a_inv n ! i) (emb ! i))
                          else ssm_h l ! i) [0..<length (ssm_h l)],
           prev_prev_byte := prev_byte l, prev_byte := byte, ssm_step := ssm_step l + 1\<rparr>)"

definition neural_update :: "math_lib \<Rightarrow> u8 \<Rightarrow> neural \<Rightarrow> neural" where
  "neural_update lib byte n = n\<lparr>ssm_state := state_update n byte (o2_update byte (sgd_update lib byte n))\<rparr>"

definition neural_reset :: "neural \<Rightarrow> neural" where
  "neural_reset n =
     (case dict_baseline n of
        Some (baseline, _) \<Rightarrow> n\<lparr>ssm_state := baseline\<rparr>
      | None \<Rightarrow> n\<lparr>ssm_state := learned_new, last_ssm_p_run := f_half, last_ssm_p_runa := f_half, last_rle_p_run := f_half,
                  last_rle_p_runa := f_half\<rparr>)"

definition neural_coder :: "math_lib \<Rightarrow> neural predictor" where
  "neural_coder lib = \<lparr>query_cdf = neural_query_cdf lib, decode_symbol = neural_decode_symbol lib,
     update_byte = neural_update lib, reset_state = neural_reset\<rparr>"

section \<open>Values the operations can have\<close>

definition proper :: "float_value \<Rightarrow> bool" where "proper x \<longleftrightarrow> fin x \<or> \<not> is_finite x"

text \<open>The exponential is never negative.\<close>

definition lib_ok :: "math_lib \<Rightarrow> bool" where
  "lib_ok lib \<longleftrightarrow> (\<forall>x. lib_exp lib x = NaN \<or> lib_exp lib x = Inf False \<or> fin (lib_exp lib x) \<and> 0 \<le> val (lib_exp lib x))"

lemma proper_cases:
  assumes "proper x"
  obtains "x = NaN" | t where "x = Inf t" | "fin x"
  using assms by (cases x) (auto simp: proper_def)

lemma round_proper: "proper (fl_round F s q)"
  using round_mag_nonneg [of F "\<bar>q\<bar>"] by (auto simp: proper_def fl_round_def Let_def)

lemma round_cases: "0 < q \<Longrightarrow> fl_round F s q = Inf False \<or> fin (fl_round F s q) \<and> val (fl_round F s q) = rnd F q"
  using fl_round_val [of F s q] round_mag_nonneg [of F "\<bar>q\<bar>"] by (auto simp: fl_round_def Let_def)

lemma add_proper: "proper (fl_add F x y)"
proof (cases x)
  case x: (Num s a)
  show ?thesis by (cases y) (simp_all add: x round_proper, simp_all add: proper_def)
qed (cases y; simp add: proper_def)+

lemma sub_proper: "proper (fl_sub F x y)" by (simp add: fl_sub_def add_proper)

lemma clamp_between:
  assumes "fin x" "fin lo" "fin hi" "val lo \<le> val hi"
  shows "between (val lo) (val hi) (fl_clamp lo hi x)"
  using assms by (auto simp: fl_clamp_def Let_def less_val between_def not_less)

lemma clamp_loose:
  assumes "proper x" "fin lo" "fin hi" "val lo \<le> val hi"
  shows "loose (val lo) (val hi) (fl_clamp lo hi x)"
  using assms(1)
proof (cases rule: proper_cases)
  case 1
  have "fl_less NaN y = False" "fl_less y NaN = False" for y by (cases y; simp)+
  then show ?thesis using 1 by (simp add: fl_clamp_def loose_def)
next
  case (2 t)
  have "fl_less (Inf True) lo" "\<not> fl_less (Inf False) lo" "fl_less hi (Inf False)" "\<not> fl_less hi lo"
    using assms(2-4) less_val [of hi lo] by (auto elim!: finE)
  then show ?thesis using assms(2-4) by (cases t) (simp_all add: fl_clamp_def 2 loose_def between_def)
next
  case 3
  then show ?thesis using clamp_between [OF 3 assms(2-4)] by (simp add: loose_def)
qed

section \<open>The logistic function is bounded\<close>

lemma sigmoid_entry_loose:
  assumes "lib_ok lib"
  shows "loose 0 1 (sigmoid_entry lib i)"
proof -
  define e where "e = lib_exp lib (fl_neg (fl_add f32 SIGMOID_MIN (fl_div f32 (fl_nat f32 i) (fl_nat f32 SIGMOID_STEPS_PER_UNIT))))"
  let ?one = "fl_lit f32 1"
  have s: "sigmoid_entry lib i = fl_div f32 ?one (fl_add f32 ?one e)" by (simp add: sigmoid_entry_def e_def Let_def)
  have one: "fin ?one" "val ?one = 1" using one_between [of f32] by (auto simp: between_def)
  then obtain t q where o: "?one = Num t q" "0 \<le> q" by (elim finE)
  have inf: "loose 0 1 (fl_div f32 ?one (Inf False))" by (simp add: o loose_def between_def val_Num)
  have "e = NaN \<or> e = Inf False \<or> fin e \<and> 0 \<le> val e" using assms unfolding lib_ok_def e_def by blast
  then consider "e = NaN" | "e = Inf False" | "fin e" "0 \<le> val e" by blast
  then show ?thesis
  proof cases
    case 1
    then show ?thesis by (simp add: s loose_def)
  next
    case 2
    then show ?thesis using inf by (simp add: s o)
  next
    case 3
    obtain u where y: "fl_add f32 ?one e = fl_round f32 u (1 + val e)" using add_round [OF one(1) 3(1), of f32] one(2) by auto
    have "0 < 1 + val e" using 3(2) by simp
    from round_cases [OF this, of f32 u] show ?thesis
    proof
      assume "fl_round f32 u (1 + val e) = Inf False"
      then show ?thesis using inf by (simp add: s y)
    next
      assume f: "fin (fl_round f32 u (1 + val e)) \<and> val (fl_round f32 u (1 + val e)) = rnd f32 (1 + val e)"
      let ?y = "fl_round f32 u (1 + val e)"
      have "1 \<le> val ?y" using f rnd_mono [of 1 "1 + val e" f32] 3(2) by (simp add: rnd_bound)
      then have "0 \<le> 1 / val ?y" "1 / val ?y \<le> 1" "val ?y \<noteq> 0" by simp_all
      then have "between 0 1 (fl_div f32 ?one ?y)"
        using div_round [OF one(1), of ?y f32] f one(2) fl_round_between [of f32 0 1 "1 / val ?y"] by auto
      then show ?thesis by (simp add: s y loose_def)
    qed
  qed
qed

lemma sigmoid_ends: "between (- 20) (- 20) SIGMOID_MIN" "between 20 20 SIGMOID_MAX"
  unfolding SIGMOID_MIN_def SIGMOID_MAX_def by (rule between_lit; simp)+

lemma between_point: "between a a x \<Longrightarrow> fin x \<and> val x = a" by (simp add: between_def)

lemma SIGMOID_LUT_LEN_eq: "SIGMOID_LUT_LEN = 10241"
proof -
  have "between 40 40 (fl_sub f32 SIGMOID_MAX SIGMOID_MIN)"
    by (rule between_sub [OF sigmoid_ends(2,1)]) simp_all
  then have "fl_to_nat 64 (fl_sub f32 SIGMOID_MAX SIGMOID_MIN) = 40"
    by (auto simp: to_nat_val dest!: between_point)
  then show ?thesis by (simp add: SIGMOID_LUT_LEN_def SIGMOID_STEPS_PER_UNIT_def)
qed

lemma lut_loose: "lib_ok lib \<Longrightarrow> i < 10241 \<Longrightarrow> loose 0 1 (SIGMOID_LUT lib ! i)"
  by (simp add: SIGMOID_LUT_def SIGMOID_LUT_LEN_eq sigmoid_entry_loose)

lemma sigmoid_loose:
  assumes "lib_ok lib" "proper x"
  shows "loose (- 1) 2 (sigmoid lib x)"
proof -
  let ?c = "fl_clamp SIGMOID_MIN SIGMOID_MAX x"
  define scaled where "scaled = fl_mul f32 (fl_sub f32 ?c SIGMOID_MIN) (fl_nat f32 SIGMOID_STEPS_PER_UNIT)"
  let ?i = "fl_to_nat 64 scaled"
  have c: "loose (- 20) 20 ?c" using clamp_loose [OF assms(2), of SIGMOID_MIN SIGMOID_MAX] sigmoid_ends [THEN between_point] by simp
  have st: "between 256 256 (fl_nat f32 SIGMOID_STEPS_PER_UNIT)"
    using nat_f32 [of 256] by (simp add: SIGMOID_STEPS_PER_UNIT_def)
  have "loose 0 40 (fl_sub f32 ?c SIGMOID_MIN)"
    by (rule loose_sub [OF c loose_between [OF sigmoid_ends(1)]]) simp_all
  then have sc: "scaled = NaN \<or> between 0 10240 scaled"
    using between_mul [OF _ st, of 0 40 "fl_sub f32 ?c SIGMOID_MIN" f32 0 10240] by (auto simp: loose_def scaled_def)
  show ?thesis
  proof (cases "?i + 1 \<ge> 10241")
    case True
    then have "sigmoid lib x = SIGMOID_LUT lib ! 10240"
      by (simp add: sigmoid_def Let_def SIGMOID_LUT_LEN_eq scaled_def)
    then show ?thesis using lut_loose [OF assms(1), of 10240] by (auto elim: loose_mono)
  next
    case False
    let ?lo = "SIGMOID_LUT lib ! ?i" and ?hi = "SIGMOID_LUT lib ! (?i + 1)"
    let ?f = "fl_sub f32 scaled (fl_nat f32 ?i)"
    have s: "sigmoid lib x = fl_add f32 ?lo (fl_mul f32 (fl_sub f32 ?hi ?lo) ?f)"
      using False by (simp add: sigmoid_def Let_def SIGMOID_LUT_LEN_eq scaled_def)
    have l: "loose 0 1 ?lo" "loose 0 1 ?hi" using lut_loose [OF assms(1)] False by simp_all
    have d: "loose (- 1) 1 (fl_sub f32 ?hi ?lo)" by (rule loose_sub [OF l(2,1)]) simp_all
    have f: "loose (- 1) 1 ?f"
      using sc
    proof
      assume b: "between 0 10240 scaled"
      then have v: "?i = nat \<lfloor>val scaled\<rfloor>" using False by (auto simp: to_nat_val between_def min_def split: if_splits)
      have n: "between (of_nat ?i) (of_nat ?i) (fl_nat f32 ?i)" using nat_f32 [of ?i] False by simp
      have "0 \<le> val scaled - of_nat ?i" "val scaled - of_nat ?i \<le> 1" using b unfolding v between_def by linarith+
      then have "between 0 1 ?f"
        using sub_round [OF between_fin [OF b] between_fin [OF n], of f32] fl_round_between [of f32 0 1 "val scaled - of_nat ?i"] n
        by (auto simp: between_def)
      from loose_mono [OF loose_between [OF this], of "- 1" 1] show ?thesis by simp
    qed (simp add: loose_def)
    have "loose (- 1) 1 (fl_mul f32 (fl_sub f32 ?hi ?lo) ?f)" by (rule loose_mul [OF d f]) simp_all
    from loose_add [OF l(1) this, of f32 "- 1" 2] show ?thesis by (simp add: s)
  qed
qed

section \<open>The invariant\<close>

definition config_ok :: "neural_config \<Rightarrow> bool" where
  "config_ok c \<longleftrightarrow> 1 \<le> cfg_d c \<and> cfg_d c \<le> D_MAX \<and> between 0 1 (cfg_lr c) \<and> between 0 1 (cfg_mix_decay c)
     \<and> fin (cfg_mix_sensitivity c) \<and> 0 \<le> val (cfg_mix_sensitivity c) \<and> between 0 1 (cfg_max_alpha c)
     \<and> between 0 1 (cfg_decay_lo c) \<and> between (val (cfg_decay_lo c)) 1 (cfg_decay_hi c) \<and> between 0 1 (cfg_o2_lit_blend c)"

definition learned_inv :: "learned \<Rightarrow> bool" where
  "learned_inv l \<longleftrightarrow> rle_inv (ssm_rle l) \<and> length (o2_lit_counts l) = 64 \<and> length (o2_lit_fenwick l) = 64
     \<and> length (o2_lit_totals l) = 64
     \<and> (\<forall>c < 64. counted 50800000 (o2_lit_counts l ! c) (o2_lit_fenwick l ! c) (o2_lit_totals l ! c))"

definition neural_inv :: "neural \<Rightarrow> bool" where
  "neural_inv n \<longleftrightarrow> config_ok (ssm_cfg n) \<and> learned_inv (ssm_state n)
     \<and> (\<forall>l raw. dict_baseline n = Some (l, raw) \<longrightarrow> learned_inv l)"

lemma rank_bucket_less: "rank_bucket b < 8" by (simp add: rank_bucket_def)

lemma o2_context_less: "o2_context p q < 64"
  using rank_bucket_less [of p] rank_bucket_less [of q] by (simp add: o2_context_def)

lemma learned_new_inv: "learned_inv learned_new"
  using rle_new_inv counted_zero [of 50800000]
  by (simp add: learned_inv_def learned_new_def NUM_O2_CTX_def)

lemma o2_update_inv:
  assumes "learned_inv l"
  shows "learned_inv (o2_update b l)"
proof (cases "b \<ge> 2")
  case True
  note i = assms [unfolded learned_inv_def]
  let ?c = "o2_context (prev_byte l) (prev_prev_byte l)" let ?i = "unat (b - 2)"
  have c: "?c < 64" by (rule o2_context_less)
  have cnt: "counted 50800000 (o2_lit_counts l ! ?c) (o2_lit_fenwick l ! ?c) (o2_lit_totals l ! ?c)" using i c by simp
  have "b \<noteq> 0" "b \<noteq> 1" using True by (auto simp: word_le_nat_alt)
  from literal_index(2) [OF this] have idx: "?i < 254" .
  let ?cs = "(o2_lit_counts l ! ?c)[?i := o2_lit_counts l ! ?c ! ?i + 1]"
  have tot: "o2_lit_totals l ! ?c \<le> 50800000" using cnt by (simp add: counted_def)
  have half: "counted 50800000 (map (\<lambda>v. v div 2) ?cs) (fenwick254_rebuild (map (\<lambda>v. v div 2) ?cs)) (sum_list (map (\<lambda>v. v div 2) ?cs))"
    using counted_rescale [OF cnt idx] halved_sum [of ?cs] sum_after_add [OF cnt idx] tot by simp
  have add: "counted 50800000 ?cs (fenwick254_add (o2_lit_fenwick l ! ?c) ?i 1) (o2_lit_totals l ! ?c + 1)"
    if "o2_lit_totals l ! ?c + 1 \<le> 100000"
    by (rule counted_add [OF cnt idx]) (use that in simp)
  show ?thesis
  proof (cases "o2_lit_totals l ! ?c + 1 > 100000")
    case True
    then show ?thesis using \<open>b \<ge> 2\<close> i c half
      by (simp add: learned_inv_def o2_update_def Let_def nth_list_update)
  next
    case False
    then show ?thesis using \<open>b \<ge> 2\<close> i c add
      by (simp add: learned_inv_def o2_update_def Let_def nth_list_update)
  qed
qed (use assms in \<open>simp add: o2_update_def\<close>)

definition prepared :: "math_lib \<Rightarrow> neural \<Rightarrow> neural" where
  "prepared lib n = snd (prepare_step_params lib n)"

lemma prepare_keeps:
  "ssm_cfg (prepared lib n) = ssm_cfg n" "ssm_state (prepared lib n) = ssm_state n"
  "dict_baseline (prepared lib n) = dict_baseline n"
  by (simp_all add: prepared_def prepare_step_params_def Let_def split: prod.split)

lemma prepare_inv: "neural_inv n \<Longrightarrow> neural_inv (prepared lib n)"
  by (simp add: neural_inv_def prepare_keeps)

lemma neural_update_inv:
  assumes "neural_inv n"
  shows "neural_inv (neural_update lib b n)"
proof -
  have "learned_inv (sgd_update lib b n)"
    using assms by (simp add: neural_inv_def learned_inv_def sgd_update_def Let_def rle_update_inv split: prod.split)
  from o2_update_inv [OF this, of b] show ?thesis
    using assms by (simp add: neural_inv_def neural_update_def state_update_def learned_inv_def Let_def)
qed

lemma neural_reset_inv: "neural_inv n \<Longrightarrow> neural_inv (neural_reset n)"
  by (auto simp: neural_inv_def neural_reset_def learned_new_inv split: option.split prod.split)

section \<open>The table\<close>

lemma between_val: "fin x \<Longrightarrow> a \<le> val x \<Longrightarrow> val x \<le> b \<Longrightarrow> between a b x" by (simp add: between_def)

lemma f_zero_between: "between 0 0 f_zero" by (simp add: f_zero_def between_def val_Num)

text \<open>The mixing weight stays in the unit interval, also when the running averages are not numbers.\<close>

lemma mixing_alpha_between:
  assumes "config_ok (ssm_cfg n)"
  shows "between 0 1 (mixing_alpha n)"
proof -
  let ?d = "fl_sub f32 (ssm_perf (ssm_state n)) (rle_perf (ssm_state n))"
  let ?s = "cfg_mix_sensitivity (ssm_cfg n)" and ?m = "cfg_max_alpha (ssm_cfg n)"
  have s: "fin ?s" "0 \<le> val ?s" and m: "between 0 1 ?m" using assms by (simp_all add: config_ok_def)
  have z: "between 0 1 f_zero" using f_zero_between by (rule between_mono) simp_all
  have "between 0 1 (fl_min (fl_mul f32 ?d ?s) ?m)" if d: "\<not> fl_le ?d f_zero"
  proof -
    have "proper ?d" by (rule sub_proper)
    then show ?thesis
    proof (cases rule: proper_cases)
      case 1
      then show ?thesis using m by (simp add: fl_min_def)
    next
      case (2 t)
      have t: "\<not> t" using d unfolding 2 by (simp add: f_zero_def)
      obtain u q where sq: "?s = Num u q" "0 \<le> q" using s(1) by (elim finE)
      obtain v r where mr: "?m = Num v r" using between_fin [OF m] by (elim finE)
      show ?thesis
      proof (cases "q = 0")
        case True
        then show ?thesis using m by (simp add: 2 sq fl_min_def)
      next
        case False
        then have "\<not> u" using s(2) sq by (auto simp: val_Num split: if_splits)
        then have "fl_mul f32 ?d ?s = Inf False" using t False by (simp add: 2 sq)
        then show ?thesis using m by (simp add: fl_min_def mr)
      qed
    next
      case 3
      have "0 < val ?d" using d le_val [OF 3, of f_zero] f_zero_between by (auto simp: between_def)
      then have p: "0 \<le> val ?d * val ?s" using s(2) by simp
      obtain u where e: "fl_mul f32 ?d ?s = fl_round f32 u (val ?d * val ?s)" using mul_round [OF 3 s(1), of f32] by blast
      show ?thesis
      proof (cases "fin (fl_mul f32 ?d ?s)")
        case True
        then have "val (fl_mul f32 ?d ?s) = rnd f32 (val ?d * val ?s)" by (rule val_mul [OF 3 s(1)])
        then have "0 \<le> val (fl_mul f32 ?d ?s)" using rnd_mono [OF p, of f32] by simp
        then show ?thesis using min_val [OF True between_fin [OF m]] m by (auto simp: between_def min_def)
      next
        case False
        have "val ?d * val ?s \<noteq> 0"
        proof
          assume "val ?d * val ?s = 0"
          then have "fin (fl_mul f32 ?d ?s)" by (simp only: e fl_round_0 wf_formats fin_Num order.refl)
          then show False using False by simp
        qed
        with p have "0 < val ?d * val ?s" by linarith
        from round_cases [OF this, of f32 u] have "fl_mul f32 ?d ?s = Inf False" using False unfolding e by blast
        moreover obtain v r where "?m = Num v r" using between_fin [OF m] by (elim finE)
        ultimately show ?thesis using m by (simp add: fl_min_def)
      qed
    qed
  qed
  then show ?thesis using z by (simp add: mixing_alpha_def Let_def)
qed

lemma mixed_loose:
  assumes "between 0 1 alpha" "loose (- 1) 2 p" "between 0 2 q"
  shows "loose (- 4) 4 (fl_add f32 (fl_mul f32 alpha p) (fl_mul f32 (fl_sub f32 (fl_lit f32 1) alpha) q))"
proof -
  have a: "loose (- 1) 1 alpha" by (rule loose_mono [OF loose_between [OF assms(1)]]) simp_all
  have p: "loose (- 2) 2 p" using assms(2) by (rule loose_mono) simp_all
  have 1: "loose (- 2) 2 (fl_mul f32 alpha p)" by (rule loose_mul [OF a p]) simp_all
  have "between 0 1 (fl_sub f32 (fl_lit f32 1) alpha)" by (rule between_sub [OF one_between assms(1)]) simp_all
  from between_mul [OF this assms(3), of f32 0 2] have "between 0 2 (fl_mul f32 (fl_sub f32 (fl_lit f32 1) alpha) q)" by simp
  from loose_mono [OF loose_between [OF this], of "- 2" 2]
  have 2: "loose (- 2) 2 (fl_mul f32 (fl_sub f32 (fl_lit f32 1) alpha) q)" by simp
  show ?thesis by (rule loose_add [OF 1 2]) simp_all
qed

lemma rle_binary_between:
  assumes "between 0 1 run" "between 0 1 runa"
  defines "p0 \<equiv> fl_mul f32 run runa" and "p1 \<equiv> fl_mul f32 run (fl_sub f32 (fl_lit f32 1) runa)"
  shows "between 0 2 (fl_add f32 p0 p1)"
    "between 0 2 (if fl_less MIN_PROB (fl_add f32 p0 p1) then fl_div f32 p0 (fl_add f32 p0 p1) else f_half)"
proof -
  have p0: "between 0 1 p0" unfolding p0_def by (rule between_mul [OF assms(1,2)]) simp_all
  have "between 0 1 (fl_sub f32 (fl_lit f32 1) runa)" by (rule between_sub [OF one_between assms(2)]) simp_all
  from between_mul [OF assms(1) this, of f32 0 1] have p1: "between 0 1 p1" by (simp add: p1_def)
  show b: "between 0 2 (fl_add f32 p0 p1)" by (rule between_add [OF p0 p1]) simp_all
  have h: "between 0 2 f_half" unfolding f_half_def by (rule between_lit) simp_all
  show "between 0 2 (if fl_less MIN_PROB (fl_add f32 p0 p1) then fl_div f32 p0 (fl_add f32 p0 p1) else f_half)"
  proof (cases "fl_less MIN_PROB (fl_add f32 p0 p1)")
    case True
    then have less: "0 < val (fl_add f32 p0 p1)"
      using less_val [OF between_fin [OF PROB_FLOOR_between] between_fin [OF b]] PROB_FLOOR_between
      by (auto simp: MIN_PROB_def between_def intro: less_trans [of 0 "1 / 2 ^ 20"] order_le_less_trans)
    have "val p0 \<le> val (fl_add f32 p0 p1)"
    proof -
      obtain t where "p0 = fl_round f32 t (val run * val runa)"
        using mul_round [OF between_fin [OF assms(1)] between_fin [OF assms(2)], of f32] p0_def by blast
      then have "bound f32 (val p0)" using fl_round_bound [of f32 t] between_fin [OF p0] by simp
      then have "val p0 = rnd f32 (val p0)" by (simp add: rnd_bound)
      also have "\<dots> \<le> rnd f32 (val p0 + val p1)" by (rule rnd_mono) (use p1 in \<open>simp_all add: between_def\<close>)
      also have "\<dots> = val (fl_add f32 p0 p1)" using val_add [OF between_fin [OF p0] between_fin [OF p1] between_fin [OF b]] by simp
      finally show ?thesis .
    qed
    then have "0 \<le> val p0 / val (fl_add f32 p0 p1)" "val p0 / val (fl_add f32 p0 p1) \<le> 2"
      using less p0 by (simp_all add: between_def pos_divide_le_eq)
    then have "between 0 2 (fl_div f32 p0 (fl_add f32 p0 p1))"
      using div_round [OF between_fin [OF p0] between_fin [OF b], of f32] less
        fl_round_between [of f32 0 2 "val p0 / val (fl_add f32 p0 p1)"] by auto
    then show ?thesis using True by simp
  qed (simp add: h)
qed

lemma nat_f32_wide: "n < 2 ^ 32 \<Longrightarrow> between 0 (2 ^ 32) (fl_nat f32 n)"
proof (rule between_nat)
  show "bound f32 (2 ^ 32)"
    unfolding bound_def
    by (intro conjI repI [of _ 1 32]) (simp_all add: f32_def pow2_def float_max_def)
  assume "n < 2 ^ 32"
  then have "(of_nat n :: rat) \<le> of_nat (2 ^ 32)" by (simp only: of_nat_le_iff)
  then show "(of_nat n :: rat) \<le> 2 ^ 32" by simp
qed simp

lemma confidence_between:
  assumes "n < 2 ^ 32"
  shows "between 0 1 (fl_div f32 (fl_nat f32 n) (fl_add f32 (fl_nat f32 n) O2_CONF_K))"
proof -
  have k: "between 32 32 O2_CONF_K" unfolding O2_CONF_K_def by (rule between_lit) simp_all
  note n = nat_f32_wide [OF assms]
  have b33: "bound f32 (2 ^ 33)"
    unfolding bound_def
    by (intro conjI repI [of _ 1 33]) (simp_all add: f32_def pow2_def float_max_def)
  let ?x = "fl_nat f32 n" let ?d = "fl_add f32 ?x O2_CONF_K"
  have d: "between 32 (2 ^ 33) ?d" by (rule between_add [OF n k]) (use b33 in simp_all)
  have "bound f32 (val ?x)" using fl_round_bound [of f32 False "of_nat n"] between_fin [OF n] by (simp add: fl_nat_def)
  then have "val ?x = rnd f32 (val ?x)" by (simp add: rnd_bound)
  also have "\<dots> \<le> rnd f32 (val ?x + val O2_CONF_K)" by (rule rnd_mono) (use k in \<open>simp_all add: between_def\<close>)
  also have "\<dots> = val ?d" using val_add [OF between_fin [OF n] between_fin [OF k] between_fin [OF d]] by simp
  finally have le: "val ?x \<le> val ?d" .
  have dp: "0 < val ?d" "val ?d \<noteq> 0" using d by (auto simp: between_def)
  then have "0 \<le> val ?x / val ?d" "val ?x / val ?d \<le> 1" using le n by (simp_all add: between_def)
  then show ?thesis
    using div_round [OF between_fin [OF n] between_fin [OF d] dp(2), of f32] fl_round_between [of f32 0 1 "val ?x / val ?d"] by auto
qed

definition neural_params :: "math_lib \<Rightarrow> neural \<Rightarrow> step_params" where
  "neural_params lib n = fst (prepare_step_params lib n)"

definition o2_counts_of :: "neural \<Rightarrow> nat list" where
  "o2_counts_of n = o2_lit_counts (ssm_state n) ! o2_context (prev_byte (ssm_state n)) (prev_prev_byte (ssm_state n))"

definition o2_tree_of :: "neural \<Rightarrow> nat list" where
  "o2_tree_of n = o2_lit_fenwick (ssm_state n) ! o2_context (prev_byte (ssm_state n)) (prev_prev_byte (ssm_state n))"

lemma o2_current:
  assumes "neural_inv n"
  shows "length (o2_counts_of n) = 254" "is_fenwick (o2_tree_of n) (o2_counts_of n)"
    "o2_lit_totals (ssm_state n) ! o2_context (prev_byte (ssm_state n)) (prev_prev_byte (ssm_state n)) = sum_list (o2_counts_of n)"
    "sum_list (o2_counts_of n) < 2 ^ 32"
  using assms o2_context_less [of "prev_byte (ssm_state n)" "prev_prev_byte (ssm_state n)"]
  by (auto simp: neural_inv_def learned_inv_def counted_def o2_counts_of_def o2_tree_of_def)

lemma dot_proper: "1 \<le> d \<Longrightarrow> proper (dot_product d b ws hs)"
proof -
  assume "1 \<le> d"
  then obtain k where "d = Suc k" by (cases d) auto
  then show ?thesis by (simp add: dot_product_def add_proper)
qed

lemma neural_params_ok:
  assumes lib: "lib_ok lib" and inv: "neural_inv n"
  defines "p \<equiv> neural_params lib n"
  shows "sum_args (sp_w01 p) [sp_rle_coef p, sp_o2_coef p] (sp_base_lit p)" "fin (sp_w0 p)" "1 / 2 ^ 20 \<le> val (sp_w0 p)"
    "val (sp_w0 p) \<le> val (sp_w01 p)"
    "sp_total p = lit_sum (sp_w01 p) [sp_rle_coef p, sp_o2_coef p] (sp_base_lit p) 254
       [sum_list (rle_counts (ssm_rle (ssm_state n))), sum_list (o2_counts_of n)]"
    "sp_o2_ctx p = o2_context (prev_byte (ssm_state n)) (prev_prev_byte (ssm_state n))"
proof -
  let ?l = "ssm_state n" let ?r = "ssm_rle ?l" let ?c = "rle_ctx ?r" let ?one = "fl_lit f32 1"
  have cfg: "config_ok (ssm_cfg n)" and rinv: "rle_inv ?r" using inv by (simp_all add: neural_inv_def learned_inv_def)
  have bi: "binary_inv (run_vs_lit ?r ! ?c)" "binary_inv (runa_vs_runb ?r ! ?c)" using rinv by (auto simp: rle_inv_def)
  define run where "run = p_yes (run_vs_lit ?r ! ?c)"
  define runa where "runa = p_yes (runa_vs_runb ?r ! ?c)"
  have rr: "between 0 1 run" "between 0 1 runa" unfolding run_def runa_def using p_yes_between bi by blast+
  define p0 where "p0 = fl_mul f32 run runa"
  define p1 where "p1 = fl_mul f32 run (fl_sub f32 ?one runa)"
  define q_run where "q_run = fl_add f32 p0 p1"
  define q_runa where "q_runa = (if fl_less MIN_PROB q_run then fl_div f32 p0 q_run else f_half)"
  have q: "between 0 2 q_run" "between 0 2 q_runa"
    using rle_binary_between [OF rr] unfolding q_run_def q_runa_def p0_def p1_def by simp_all
  obtain s_run s_runa where sb: "ssm_binary_predict lib n = (s_run, s_runa)" by fastforce
  have d1: "1 \<le> cfg_d (ssm_cfg n)" using cfg by (simp add: config_ok_def)
  have s: "loose (- 1) 2 s_run" "loose (- 1) 2 s_runa"
    using sb sigmoid_loose [OF lib dot_proper [OF d1]] by (auto simp: ssm_binary_predict_def Let_def)
  define alpha where "alpha = mixing_alpha n"
  have al: "between 0 1 alpha" unfolding alpha_def by (rule mixing_alpha_between [OF cfg])
  define p_run where "p_run = fl_add f32 (fl_mul f32 alpha s_run) (fl_mul f32 (fl_sub f32 ?one alpha) q_run)"
  define p_runa where "p_runa = fl_add f32 (fl_mul f32 alpha s_runa) (fl_mul f32 (fl_sub f32 ?one alpha) q_runa)"
  have pl: "loose (- 4) 4 p_run" "loose (- 4) 4 p_runa"
    unfolding p_run_def p_runa_def using mixed_loose [OF al] s q by blast+
  obtain w0 w01 p_lit where bw: "binary_weights p_run p_runa = (w0, w01, p_lit)" by (metis prod_cases3)
  note b = binary_weights_ok [OF pl bw]
  define obs where "obs = o2_lit_totals ?l ! o2_context (prev_byte ?l) (prev_prev_byte ?l)"
  have obs: "obs = sum_list (o2_counts_of n)" "obs < 2 ^ 32" unfolding obs_def using o2_current [OF inv] by simp_all
  define eff where "eff = fl_mul f32 (cfg_o2_lit_blend (ssm_cfg n)) (fl_div f32 (fl_nat f32 obs) (fl_add f32 (fl_nat f32 obs) O2_CONF_K))"
  have blend: "between 0 1 (cfg_o2_lit_blend (ssm_cfg n))" using cfg by (simp add: config_ok_def)
  have eff: "between 0 1 eff" unfolding eff_def by (rule between_mul [OF blend confidence_between [OF obs(2)]]) simp_all
  have wt: "between 0 1 (fl_sub f32 ?one eff)" by (rule between_sub [OF one_between eff]) simp_all
  define t where "t = lit_totals ?r ! ?c"
  have t: "t = sum_list (rle_counts ?r)" "t < 2 ^ 32" unfolding t_def using rle_current [OF rinv] by simp_all
  have b40: "bound f64 (2 ^ 40)" by (rule bound_pow) simp
  have l254: "between 254 254 (fl_lit f64 254)" by (rule between_lit) simp_all
  define rden where "rden = fl_add f64 (fl_nat f64 t) (fl_mul f64 (fl_lit f64 254) (fl_cast f64 ALPHA_LIT))"
  have "between 15 254 (fl_mul f64 (fl_lit f64 254) (fl_cast f64 ALPHA_LIT))"
    by (rule between_mul [OF l254 alpha_casts(1)]) simp_all
  then have rden: "between 15 (2 ^ 40) rden"
    unfolding rden_def by (rule between_add [OF nat_32 [OF t(2)]]) (use b40 in simp_all)
  have o2a: "between (1 / 2) (1 / 2) O2_ALPHA" unfolding O2_ALPHA_def by (rule between_lit) (simp_all add: bound_f32_small)
  have h64: "bound f64 (1 / 2)" using bound_dyadic [of f64 1 1] by simp
  have o2c: "between (1 / 2) (1 / 2) (fl_cast f64 O2_ALPHA)" by (rule between_cast [OF o2a]) (simp_all add: h64)
  define oden where "oden = fl_add f64 (fl_nat f64 obs) (fl_mul f64 (fl_lit f64 254) (fl_cast f64 O2_ALPHA))"
  have "between 127 127 (fl_mul f64 (fl_lit f64 254) (fl_cast f64 O2_ALPHA))"
    by (rule between_mul [OF l254 o2c]) simp_all
  then have oden: "between 127 (2 ^ 40) oden"
    unfolding oden_def by (rule between_add [OF nat_32 [OF obs(2)]]) (use b40 in simp_all)
  have pz: "between 0 8 p_lit" using b(5) by (rule between_mono) simp_all
  have mass: "between 0 8 (fl_mul f64 p_lit (fl_cast f64 w))" if "between 0 1 w" for w
    by (rule between_mul [OF pz between_cast [OF that]]) simp_all
  define rc where "rc = fl_div f64 (fl_mul f64 p_lit (fl_cast f64 (fl_sub f32 ?one eff))) rden"
  define oc where "oc = (if fl_less f_zero eff then fl_div f64 (fl_mul f64 p_lit (fl_cast f64 eff)) oden else f_zero)"
  have rc: "between 0 1 rc" unfolding rc_def by (rule between_div [OF mass [OF wt] rden]) simp_all
  have "between 0 1 (fl_div f64 (fl_mul f64 p_lit (fl_cast f64 eff)) oden)" by (rule between_div [OF mass [OF eff] oden]) simp_all
  moreover have "between 0 1 f_zero" using f_zero_between by (rule between_mono) simp_all
  ultimately have oc: "between 0 1 oc" by (simp add: oc_def)
  define base where "base = fl_add f64 (fl_mul f64 rc (fl_cast f64 ALPHA_LIT)) (fl_mul f64 oc (fl_cast f64 O2_ALPHA))"
  have "between 0 1 (fl_mul f64 rc (fl_cast f64 ALPHA_LIT))" by (rule between_mul [OF rc alpha_casts(1)]) simp_all
  moreover have "between 0 1 (fl_mul f64 oc (fl_cast f64 O2_ALPHA))" by (rule between_mul [OF oc o2c]) simp_all
  ultimately have base: "between 0 2 base" unfolding base_def by (rule between_add) simp_all
  have p: "p = \<lparr>sp_w0 = w0, sp_w01 = w01,
      sp_total = fl_add f64 (fl_add f64 (fl_add f64 w01 (fl_mul f64 rc (fl_nat f64 t))) (fl_mul f64 oc (fl_nat f64 obs)))
        (fl_mul f64 (fl_lit f64 254) base),
      sp_rle_coef = rc, sp_o2_coef = oc, sp_base_lit = base, sp_o2_ctx = o2_context (prev_byte ?l) (prev_prev_byte ?l)\<rparr>"
    unfolding p_def neural_params_def prepare_step_params_def Let_def model_parts_fenwick_def prod.case sb
      run_def [symmetric] runa_def [symmetric] p0_def [symmetric] p1_def [symmetric] q_run_def [symmetric] q_runa_def [symmetric]
      alpha_def [symmetric] p_run_def [symmetric] p_runa_def [symmetric] bw obs_def [symmetric] eff_def [symmetric]
      t_def [symmetric] rden_def [symmetric] oden_def [symmetric] rc_def [symmetric] oc_def [symmetric] base_def [symmetric] fst_conv
    by (rule refl)
  have w8: "between 0 8 x" if "between 0 1 x \<or> between 0 2 x" for x using that by (auto elim: between_mono)
  show "sum_args (sp_w01 p) [sp_rle_coef p, sp_o2_coef p] (sp_base_lit p)"
    using b(2,3) w8 rc oc base by (simp add: sum_args_def p)
  show "fin (sp_w0 p)" "1 / 2 ^ 20 \<le> val (sp_w0 p)" "val (sp_w0 p) \<le> val (sp_w01 p)"
    using b(1,4) by (simp_all add: p between_def)
  have n254: "fl_lit f64 254 = fl_nat f64 254" by (simp add: fl_lit_def fl_nat_def)
  show "sp_total p = lit_sum (sp_w01 p) [sp_rle_coef p, sp_o2_coef p] (sp_base_lit p) 254
       [sum_list (rle_counts ?r), sum_list (o2_counts_of n)]"
    by (simp add: p lit_sum_def t(1) obs(1) n254)
  show "sp_o2_ctx p = o2_context (prev_byte ?l) (prev_prev_byte ?l)" by (simp add: p)
qed

definition neural_sums :: "math_lib \<Rightarrow> neural \<Rightarrow> nat \<Rightarrow> float_value" where
  "neural_sums lib n m = lit_cumulative (neural_params lib n) m
     (sum_list (take m (rle_counts (ssm_rle (ssm_state n))))) (sum_list (take m (o2_counts_of n)))"

definition neural_cdf :: "math_lib \<Rightarrow> neural \<Rightarrow> u16 list" where
  "neural_cdf lib n = quantized_table (sp_w0 (neural_params lib n)) (sp_total (neural_params lib n)) (neural_sums lib n)"

lemma lit_cumulative_sum:
  "lit_cumulative p m c d = lit_sum (sp_w01 p) [sp_rle_coef p, sp_o2_coef p] (sp_base_lit p) m [c, d]"
  by (simp add: lit_cumulative_def lit_sum_def)

lemma neural_rle: "neural_inv n \<Longrightarrow> rle_inv (ssm_rle (ssm_state n))"
  by (simp add: neural_inv_def learned_inv_def)

lemma neural_spread:
  assumes "lib_ok lib" "neural_inv n"
  shows "spread (sp_w0 (neural_params lib n)) (sp_total (neural_params lib n)) (neural_sums lib n)"
proof -
  let ?p = "neural_params lib n" let ?rc = "rle_counts (ssm_rle (ssm_state n))" let ?oc = "o2_counts_of n"
  note o = neural_params_ok [OF assms] and r = rle_current [OF neural_rle [OF assms(2)]] and o2 = o2_current [OF assms(2)]
  have "spread (sp_w0 ?p) (lit_sum (sp_w01 ?p) [sp_rle_coef ?p, sp_o2_coef ?p] (sp_base_lit ?p) 254 [sum_list ?rc, sum_list ?oc])
      (\<lambda>m. lit_sum (sp_w01 ?p) [sp_rle_coef ?p, sp_o2_coef ?p] (sp_base_lit ?p) m
        [sum_list (take m ?rc), sum_list (take m ?oc)])"
    by (rule spread_sums [OF o(1-4)])
      (use r(2,4) o2(1,4) take_sum_step [of _ ?rc] take_sum_step [of _ ?oc] in simp_all)
  moreover have "neural_sums lib n = (\<lambda>m. lit_sum (sp_w01 ?p) [sp_rle_coef ?p, sp_o2_coef ?p] (sp_base_lit ?p) m
        [sum_list (take m ?rc), sum_list (take m ?oc)])"
    by (rule ext) (simp add: neural_sums_def lit_cumulative_sum)
  ultimately show ?thesis using o(5) by simp
qed

lemma neural_cdf_table: "lib_ok lib \<Longrightarrow> neural_inv n \<Longrightarrow> cdf_table (neural_cdf lib n)"
  unfolding neural_cdf_def by (rule quantized_table_lawful [OF neural_spread])

lemma neural_sums_0:
  assumes "lib_ok lib" "neural_inv n"
  shows "neural_sums lib n 0 = sp_w01 (neural_params lib n)"
  using lit_sum_zero [OF neural_params_ok(1) [OF assms]] by (simp add: neural_sums_def lit_cumulative_sum numeral_2_eq_2)

lemma prepare_params: "prepare_step_params lib n = (neural_params lib n, prepared lib n)"
  by (simp add: neural_params_def prepared_def)

lemma neural_entries_eq:
  "length cs = length ds \<Longrightarrow> neural_entries p m c d cs ds
    = map (\<lambda>i. of_nat (quantized_boundary (lit_cumulative p (m + i) (c + sum_list (take i cs)) (d + sum_list (take i ds))) (sp_total p) (2 + (m + i))))
        [0..<length cs]"
proof (induction p m c d cs ds rule: neural_entries.induct)
  case (1 p m c d x xs y ys)
  then show ?case unfolding length_Cons map_upt_Suc neural_entries.simps by (simp add: add.assoc)
qed simp_all

lemma neural_predict_cdf_eq:
  assumes "lib_ok lib" "neural_inv n"
  shows "neural_predict_cdf lib n = (neural_cdf lib n, prepared lib n)"
proof -
  note r = rle_current [OF neural_rle [OF assms(2)]] and o2 = o2_current [OF assms(2)]
  have c: "lit_counts (ssm_rle (ssm_state n)) ! rle_ctx (ssm_rle (ssm_state n)) = rle_counts (ssm_rle (ssm_state n))"
    "o2_lit_counts (ssm_state n) ! sp_o2_ctx (neural_params lib n) = o2_counts_of n"
    by (simp_all add: rle_counts_def o2_counts_of_def neural_params_ok(6) [OF assms])
  have l: "length (rle_counts (ssm_rle (ssm_state n))) = length (o2_counts_of n)" using r(2) o2(1) by simp
  show ?thesis
    unfolding neural_predict_cdf_def prepare_params [of lib n] prod.case Let_def prepare_keeps model_parts_fenwick_def c
      neural_entries_eq [OF l] neural_cdf_def quantized_table_def
    using r(2) by (simp add: neural_sums_def NUM_LITS_def)
qed

section \<open>The fast paths\<close>

lemma neural_query_cdf_eq:
  assumes "lib_ok lib" "neural_inv n"
  shows "neural_query_cdf lib b n = ((neural_cdf lib n ! unat b, neural_cdf lib n ! (unat b + 1)), prepared lib n)"
proof -
  let ?p = "neural_params lib n" let ?T = "neural_cdf lib n" let ?r = "ssm_rle (ssm_state n)"
  note c = rle_current [OF neural_rle [OF assms(2)]] and o2 = o2_current [OF assms(2)]
  have run: "?T ! 0 = 0" "?T ! 1 = of_nat (quantized_boundary (sp_w0 ?p) (sp_total ?p) 1)"
    "?T ! 2 = of_nat (quantized_boundary (sp_w01 ?p) (sp_total ?p) 2)"
    using table_run [of "sp_w0 ?p" "sp_total ?p" "neural_sums lib n"] neural_sums_0 [OF assms] unfolding neural_cdf_def by simp_all
  have ctx: "o2_lit_counts (ssm_state n) ! sp_o2_ctx ?p = o2_counts_of n" "o2_lit_fenwick (ssm_state n) ! sp_o2_ctx ?p = o2_tree_of n"
    by (simp_all add: o2_counts_of_def o2_tree_of_def neural_params_ok(6) [OF assms])
  consider "b = 0" | "b = 1" | "b \<noteq> 0" "b \<noteq> 1" by blast
  then show ?thesis
  proof cases
    case 1
    then show ?thesis using run unfolding neural_query_cdf_def prepare_params [of lib n] prod.case by (simp add: Let_def)
  next
    case 2
    then show ?thesis using run unfolding neural_query_cdf_def prepare_params [of lib n] prod.case
      by (simp add: Let_def flip: numeral_2_eq_2)
  next
    case 3
    let ?m = "unat (b - 2)"
    note m = literal_index [OF 3]
    have pre: "fenwick254_prefix (lit_fenwick ?r ! rle_ctx ?r) ?m = sum_list (take ?m (rle_counts ?r))"
      "fenwick254_prefix (o2_tree_of n) ?m = sum_list (take ?m (o2_counts_of n))"
      unfolding fenwick254_prefix_def using m c(2) o2(1) fenwick_prefix_correct [OF c(5)] fenwick_prefix_correct [OF o2(2)] by simp_all
    have suc: "sum_list (take ?m (rle_counts ?r)) + lit_counts ?r ! rle_ctx ?r ! ?m = sum_list (take (?m + 1) (rle_counts ?r))"
      "sum_list (take ?m (o2_counts_of n)) + o2_counts_of n ! ?m = sum_list (take (?m + 1) (o2_counts_of n))"
      using m c(2) o2(1) by (simp_all add: take_Suc_conv_app_nth rle_counts_def)
    have last: "b = 255 \<longleftrightarrow> ?m = 253" using byte_255 [of b] m by linarith
    show ?thesis
      using 3 last
      unfolding neural_cdf_def neural_query_cdf_def prepare_params [of lib n] model_parts_fenwick_def Let_def prod.case
        prepare_keeps ctx pre suc m(1) table_literal [OF m(2), of "sp_w0 ?p" "sp_total ?p" "neural_sums lib n"]
      by (simp add: neural_sums_def)
  qed
qed

lemma neural_decode_symbol_eq:
  assumes "lib_ok lib" "neural_inv n" "unat freq < 32768" "in_interval (neural_cdf lib n) t freq"
  shows "neural_decode_symbol lib freq n
    = ((of_nat t, neural_cdf lib n ! t, neural_cdf lib n ! (t + 1)), prepared lib n)"
proof -
  let ?p = "neural_params lib n" let ?r = "ssm_rle (ssm_state n)"
  let ?accs = "\<lambda>m. (sum_list (take m (rle_counts ?r)), sum_list (take m (o2_counts_of n)))"
  let ?widen = "\<lambda>(rle_cum, o2_cum) i. (rle_cum + lit_fenwick ?r ! rle_ctx ?r ! i, o2_cum + o2_tree_of n ! i)"
  let ?bnd = "\<lambda>m (rle_cum, o2_cum). quantized_boundary (lit_cumulative ?p m rle_cum o2_cum) (sp_total ?p) (2 + m)"
  note c = rle_current [OF neural_rle [OF assms(2)]] and o2 = o2_current [OF assms(2)]
  have w: "widens ?widen ?accs"
    using fenwick_extend [OF c(5)] fenwick_extend [OF o2(2)] c(2) o2(1) by (auto simp: widens_def)
  have ctx: "o2_lit_fenwick (ssm_state n) ! sp_o2_ctx ?p = o2_tree_of n"
    by (simp add: o2_tree_of_def neural_params_ok(6) [OF assms(1,2)])
  have "search_symbol ?widen ?bnd (?accs 0) (unat freq)
      (quantized_boundary (sp_w0 ?p) (sp_total ?p) 1) (quantized_boundary (neural_sums lib n 0) (sp_total ?p) 2)
    = (of_nat t, neural_cdf lib n ! t, neural_cdf lib n ! (t + 1))"
    unfolding neural_cdf_def
    by (rule search_symbol_correct [where accs = ?accs, OF neural_spread [OF assms(1,2)] w])
      (use assms(3,4) in \<open>simp_all add: neural_sums_def in_interval_def neural_cdf_def\<close>)
  then show ?thesis
    unfolding neural_decode_symbol_def prepare_params [of lib n] prod.case Let_def prepare_keeps model_parts_fenwick_def ctx
    by (simp add: neural_sums_0 [OF assms(1,2)])
qed

theorem neural_lawful:
  assumes "lib_ok lib"
  shows "lawful_predictor (neural_coder lib) neural_inv (neural_cdf lib)"
proof
  fix s assume s: "neural_inv s"
  show "neural_inv (reset_state (neural_coder lib) s)" by (simp add: neural_coder_def neural_reset_inv [OF s])
  show "cdf_table (neural_cdf lib s)" by (rule neural_cdf_table [OF assms s])
  show "fst (query_cdf (neural_coder lib) b s) = (neural_cdf lib s ! unat b, neural_cdf lib s ! (unat b + 1))" for b
    by (simp add: neural_coder_def neural_query_cdf_eq [OF assms s])
  show "neural_inv (update_byte (neural_coder lib) b (snd (query_cdf (neural_coder lib) b s)))" for b
    by (simp add: neural_coder_def neural_query_cdf_eq [OF assms s] neural_update_inv prepare_inv [OF s])
  fix freq :: u32 assume f: "unat freq < 32768"
  show "fst (decode_symbol (neural_coder lib) freq s) = (of_nat t, neural_cdf lib s ! t, neural_cdf lib s ! (t + 1))"
    if "in_interval (neural_cdf lib s) t freq" for t
    by (simp add: neural_coder_def neural_decode_symbol_eq [OF assms s f that])
  show "update_byte (neural_coder lib) b (snd (decode_symbol (neural_coder lib) freq s))
      = update_byte (neural_coder lib) b (snd (query_cdf (neural_coder lib) b s))"
    if "in_interval (neural_cdf lib s) (unat b) freq" for b
    by (simp add: neural_coder_def neural_decode_symbol_eq [OF assms s f that] neural_query_cdf_eq [OF assms s])
qed

section \<open>Saved state\<close>

definition put_f32 :: "float_value \<Rightarrow> bytes" where "put_f32 x = put_u32 (fl_to_bits f32 x)"

definition neural_save_state :: "neural \<Rightarrow> bytes" where
  "neural_save_state n =
     (let d = cfg_d (ssm_cfg n); l = ssm_state n; rle_state = rle_save_state (ssm_rle l)
      in 1 # put_u32 d @ concat (map put_f32 (take d (ssm_h l))) @ concat (map put_f32 (take d (w_run l))) @ put_f32 (b_run l)
         @ concat (map put_f32 (take d (w_runa l))) @ put_f32 (b_runa l) @ put_f32 (ssm_perf l) @ put_f32 (rle_perf l)
         @ concat (map (\<lambda>counts. concat (map put_u32 counts)) (o2_lit_counts l)) @ concat (map put_u32 (o2_lit_totals l))
         @ [prev_byte l, prev_prev_byte l] @ put_u32 (unat (ssm_step l)) @ put_u32 (length rle_state) @ rle_state)"

text \<open>\<^verbatim>\<open>read_u32\<close> and its kin: a value and the rest of the data, or nothing when it is out of bounds or out of range.\<close>

definition take_u32 :: "bytes \<Rightarrow> (nat \<times> bytes) option" where
  "take_u32 data = (if length data < 4 then None else Some (get_u32 data))"

definition read_finite_f32 :: "bytes \<Rightarrow> (float_value \<times> bytes) option" where
  "read_finite_f32 data =
     do { (w, rest) \<leftarrow> take_u32 data;
          let v = fl_from_bits f32 w;
          if is_finite v then Some (v, rest) else None }"

definition read_bounded_f32 :: "nat \<Rightarrow> bytes \<Rightarrow> (float_value \<times> bytes) option" where
  "read_bounded_f32 bnd data =
     do { (v, rest) \<leftarrow> read_finite_f32 data;
          if fl_le (fl_abs v) (fl_nat f32 bnd) then Some (v, rest) else None }"

definition WEIGHT_BOUND :: nat where "WEIGHT_BOUND = 10"
definition HIDDEN_BOUND :: nat where "HIDDEN_BOUND = 5"
definition MAX_O2_COUNT :: nat where "MAX_O2_COUNT = 200000"

definition read_o2_count :: "bytes \<Rightarrow> (nat \<times> bytes) option" where
  "read_o2_count data = do { (c, rest) \<leftarrow> take_u32 data; if c > MAX_O2_COUNT then None else Some (c, rest) }"

fun read_many :: "(bytes \<Rightarrow> ('a \<times> bytes) option) \<Rightarrow> nat \<Rightarrow> bytes \<Rightarrow> ('a list \<times> bytes) option" where
  "read_many f 0 data = Some ([], data)"
| "read_many f (Suc n) data =
     do { (x, data) \<leftarrow> f data; (xs, data) \<leftarrow> read_many f n data; Some (x # xs, data) }"

definition read_two :: "bytes \<Rightarrow> (u8 \<times> u8 \<times> bytes) option" where
  "read_two data = (case data of a # b # rest \<Rightarrow> Some (a, b, rest) | _ \<Rightarrow> None)"

definition padded :: "float_value list \<Rightarrow> float_value list" where
  "padded xs = xs @ replicate (D_MAX - length xs) f_zero"

definition parse_learned :: "nat \<Rightarrow> rle_predictor \<Rightarrow> bytes \<Rightarrow> (learned \<times> nat \<times> bytes) option" where
  "parse_learned own_d r data =
     do { (d, data') \<leftarrow> take_u32 (tl data);
          (if d > D_MAX \<or> d \<noteq> own_d then None else Some ());
          let min_size = 1 + 4 + d * 4 * 3 + 4 * 4 + NUM_O2_CTX * 254 * 4 + NUM_O2_CTX * 4 + 2 + 4 + 4;
          (if length data < min_size then None else Some ());
          (hs, data) \<leftarrow> read_many (read_bounded_f32 HIDDEN_BOUND) d data';
          (ws, data) \<leftarrow> read_many (read_bounded_f32 WEIGHT_BOUND) d data;
          (b, data) \<leftarrow> read_bounded_f32 WEIGHT_BOUND data;
          (was, data) \<leftarrow> read_many (read_bounded_f32 WEIGHT_BOUND) d data;
          (ba, data) \<leftarrow> read_bounded_f32 WEIGHT_BOUND data;
          (sp, data) \<leftarrow> read_finite_f32 data;
          (rp, data) \<leftarrow> read_finite_f32 data;
          (counts, data) \<leftarrow> read_many (read_many read_o2_count NUM_LITS) NUM_O2_CTX data;
          (totals, data) \<leftarrow> read_many take_u32 NUM_O2_CTX data;
          (if \<exists>i < NUM_O2_CTX. sum_list (counts ! i) > 2 ^ 32 - 1 \<or> totals ! i \<noteq> sum_list (counts ! i) then None else Some ());
          (p, pp, data) \<leftarrow> read_two data;
          (st, data) \<leftarrow> take_u32 data;
          (rle_len, data) \<leftarrow> take_u32 data;
          Some (\<lparr>ssm_rle = r, ssm_h = padded hs, w_run = padded ws, b_run = b, w_runa = padded was, b_runa = ba,
                 ssm_perf = sp, rle_perf = rp, o2_lit_counts = counts, o2_lit_fenwick = map fenwick254_rebuild counts,
                 o2_lit_totals = totals, prev_byte = p, prev_prev_byte = pp, ssm_step = of_nat st\<rparr>, rle_len, data) }"

text \<open>The inner predictor loads in place, before the check for trailing bytes.\<close>

definition neural_load_state :: "bytes \<Rightarrow> neural \<Rightarrow> bool \<times> neural" where
  "neural_load_state data n =
     (if data = [] \<or> hd data \<noteq> 1 then (False, n)
      else
        case parse_learned (cfg_d (ssm_cfg n)) (ssm_rle (ssm_state n)) data of
          None \<Rightarrow> (False, n)
        | Some (l, rle_len, rest) \<Rightarrow>
            if rle_len > 0 \<and> rle_len > length rest then (False, n)
            else
              let (ok, r) = (if rle_len > 0 then rle_load_state (take rle_len rest) (ssm_rle (ssm_state n))
                             else (True, ssm_rle (ssm_state n)));
                  n = n\<lparr>ssm_state := (ssm_state n)\<lparr>ssm_rle := r\<rparr>\<rparr>;
                  rest = drop rle_len rest
              in if \<not> ok then (False, n)
                 else if rest \<noteq> [] then (False, n)
                 else (True, n\<lparr>ssm_state := l\<lparr>ssm_rle := r\<rparr>\<rparr>))"

definition set_dict_baseline :: "bytes \<Rightarrow> neural \<Rightarrow> bool \<times> neural" where
  "set_dict_baseline bytes n =
     (let (ok, n) = neural_load_state bytes n
      in if \<not> ok then (False, n) else (True, n\<lparr>dict_baseline := Some (ssm_state n, bytes)\<rparr>))"

definition coding_baseline :: "neural \<Rightarrow> bytes option" where
  "coding_baseline n = map_option snd (dict_baseline n)"

definition set_coding_baseline :: "bytes \<Rightarrow> neural \<Rightarrow> bool \<times> neural" where
  "set_coding_baseline bytes n = set_dict_baseline bytes n"

text \<open>States that can be saved: within the limits of the loader.\<close>

definition f32_within :: "nat \<Rightarrow> float_value \<Rightarrow> bool" where
  "f32_within bnd x \<longleftrightarrow> fin x \<and> bound f32 (val x) \<and> \<bar>val x\<bar> \<le> of_nat bnd"

definition padded_within :: "nat \<Rightarrow> nat \<Rightarrow> float_value list \<Rightarrow> bool" where
  "padded_within bnd d xs \<longleftrightarrow> xs = padded (take d xs) \<and> length (take d xs) = d \<and> (\<forall>x \<in> set (take d xs). f32_within bnd x)"

definition learned_savable :: "nat \<Rightarrow> learned \<Rightarrow> bool" where
  "learned_savable d l \<longleftrightarrow> rle_savable (ssm_rle l) \<and> padded_within HIDDEN_BOUND d (ssm_h l)
     \<and> padded_within WEIGHT_BOUND d (w_run l) \<and> padded_within WEIGHT_BOUND d (w_runa l)
     \<and> f32_within WEIGHT_BOUND (b_run l) \<and> f32_within WEIGHT_BOUND (b_runa l)
     \<and> fin (ssm_perf l) \<and> bound f32 (val (ssm_perf l)) \<and> fin (rle_perf l) \<and> bound f32 (val (rle_perf l))
     \<and> learned_inv l \<and> (\<forall>c < 64. \<forall>x \<in> set (o2_lit_counts l ! c). x \<le> MAX_O2_COUNT)"

lemma bits_32: "fin x \<Longrightarrow> bound f32 (val x) \<Longrightarrow> fl_to_bits f32 x < 2 ^ 32"
proof -
  assume x: "fin x" "bound f32 (val x)"
  have "exp_limit f32 = 255" "mant_unit f32 = 2 ^ 23" by (simp_all add: exp_limit_def mant_unit_def f32_def)
  then show ?thesis using from_to_bits(2) [OF wf_formats(1) x] by (simp only: power_add) simp
qed

lemma take_put: "x < 2 ^ 32 \<Longrightarrow> take_u32 (put_u32 x @ rest) = Some (x, rest)"
  by (simp add: take_u32_def get_put)

lemma read_put_f32: "fin x \<Longrightarrow> bound f32 (val x) \<Longrightarrow> read_finite_f32 (put_f32 x @ rest) = Some (x, rest)"
  by (simp add: read_finite_f32_def put_f32_def take_put [OF bits_32] Let_def from_to_bits(1) fin_finite)

lemma abs_val: "fin x \<Longrightarrow> fin (fl_abs x) \<and> val (fl_abs x) = \<bar>val x\<bar>"
  by (auto elim!: finE simp: val_Num)

lemma read_put_bounded:
  assumes "f32_within b x" "b \<le> 2 ^ 24"
  shows "read_bounded_f32 b (put_f32 x @ rest) = Some (x, rest)"
proof -
  have n: "fin (fl_nat f32 b)" "val (fl_nat f32 b) = of_nat b" using nat_f32 [OF assms(2)] by (simp_all add: between_def)
  have x: "fin x" "bound f32 (val x)" "\<bar>val x\<bar> \<le> of_nat b" using assms(1) by (simp_all add: f32_within_def)
  then have "fl_le (fl_abs x) (fl_nat f32 b)" using le_val abs_val [OF x(1)] n by simp
  then show ?thesis by (simp add: read_bounded_f32_def read_put_f32 x)
qed

lemma read_many_puts:
  assumes "\<And>x rest. x \<in> set xs \<Longrightarrow> f (put x @ rest) = Some (x, rest)"
  shows "read_many f (length xs) (concat (map put xs) @ rest) = Some (xs, rest)"
  using assms by (induction xs) simp_all

lemma read_count_put: "x \<le> MAX_O2_COUNT \<Longrightarrow> read_o2_count (put_u32 x @ rest) = Some (x, rest)"
  by (simp add: read_o2_count_def take_put MAX_O2_COUNT_def)

lemma length_put_f32 [simp]: "length (put_f32 x) = 4" by (simp add: put_f32_def)

lemma length_puts: "(\<And>x. x \<in> set xs \<Longrightarrow> length (put x) = k) \<Longrightarrow> length (concat (map put xs)) = length xs * k"
  by (induction xs) simp_all

lemma padded_put:
  assumes "padded_within b d xs" "b \<le> 2 ^ 24"
  shows "read_many (read_bounded_f32 b) d (concat (map put_f32 (take d xs)) @ rest) = Some (take d xs, rest)"
    "padded (take d xs) = xs"
proof -
  have "length (take d xs) = d" "\<forall>x \<in> set (take d xs). f32_within b x" "padded (take d xs) = xs"
    using assms(1) by (simp_all add: padded_within_def)
  then show "read_many (read_bounded_f32 b) d (concat (map put_f32 (take d xs)) @ rest) = Some (take d xs, rest)"
    "padded (take d xs) = xs"
    using read_many_puts [of "take d xs" "read_bounded_f32 b" put_f32 rest] read_put_bounded assms(2) by simp_all
qed

lemma learned_trees:
  assumes "learned_inv l"
  shows "map fenwick254_rebuild (o2_lit_counts l) = o2_lit_fenwick l"
proof (rule nth_equalityI)
  fix j assume "j < length (map fenwick254_rebuild (o2_lit_counts l))"
  then have j: "j < 64" using assms by (simp add: learned_inv_def)
  then have "fenwick254_rebuild (o2_lit_counts l ! j) = o2_lit_fenwick l ! j"
    using assms counted_tree unfolding learned_inv_def by blast
  then show "map fenwick254_rebuild (o2_lit_counts l) ! j = o2_lit_fenwick l ! j"
    using j assms by (simp add: learned_inv_def)
qed (use assms in \<open>simp add: learned_inv_def\<close>)

lemma parse_saved:
  assumes sav: "learned_savable d (ssm_state n)" and d: "cfg_d (ssm_cfg n) = d" "d \<le> D_MAX"
  shows "parse_learned d r (neural_save_state n @ extra)
    = Some ((ssm_state n)\<lparr>ssm_rle := r\<rparr>, length (rle_save_state (ssm_rle (ssm_state n))),
        rle_save_state (ssm_rle (ssm_state n)) @ extra)"
proof -
  let ?l = "ssm_state n" let ?r = "rle_save_state (ssm_rle ?l)"
  note k = sav [unfolded learned_savable_def]
  have linv: "learned_inv ?l" and rs: "rle_savable (ssm_rle ?l)" using k by blast+
  have len: "length (o2_lit_counts ?l) = 64" "length (o2_lit_totals ?l) = 64"
    and cnt: "\<And>c. c < 64 \<Longrightarrow> counted 50800000 (o2_lit_counts ?l ! c) (o2_lit_fenwick ?l ! c) (o2_lit_totals ?l ! c)"
    using linv by (auto simp: learned_inv_def)
  have c254: "\<And>cs. cs \<in> set (o2_lit_counts ?l) \<Longrightarrow> length cs = 254 \<and> (\<forall>x \<in> set cs. x \<le> MAX_O2_COUNT)"
    using k cnt len(1) by (auto simp: counted_def in_set_conv_nth)
  have tot: "\<And>t. t \<in> set (o2_lit_totals ?l) \<Longrightarrow> t < 2 ^ 32"
    using cnt len(2) by (fastforce simp: counted_def in_set_conv_nth)
  have counts: "read_many (read_many read_o2_count NUM_LITS) NUM_O2_CTX
      (concat (map (\<lambda>counts. concat (map put_u32 counts)) (o2_lit_counts ?l)) @ rest) = Some (o2_lit_counts ?l, rest)" for rest
  proof -
    have "read_many read_o2_count NUM_LITS (concat (map put_u32 cs) @ rest) = Some (cs, rest)" if "cs \<in> set (o2_lit_counts ?l)" for cs rest
      using read_many_puts [of cs read_o2_count put_u32 rest] read_count_put c254 [OF that] by (simp add: NUM_LITS_def)
    from read_many_puts [where put = "\<lambda>counts. concat (map put_u32 counts)" and f = "read_many read_o2_count NUM_LITS" and xs = "o2_lit_counts ?l", OF this]
    show ?thesis using len(1) by (simp add: NUM_O2_CTX_def)
  qed
  have totals: "read_many take_u32 NUM_O2_CTX (concat (map put_u32 (o2_lit_totals ?l)) @ rest) = Some (o2_lit_totals ?l, rest)" for rest
    using read_many_puts [of "o2_lit_totals ?l" take_u32 put_u32 rest] take_put tot len(2) by (simp add: NUM_O2_CTX_def)
  have consistent: "\<not> (\<exists>i < NUM_O2_CTX. sum_list (o2_lit_counts ?l ! i) > 2 ^ 32 - 1 \<or> o2_lit_totals ?l ! i \<noteq> sum_list (o2_lit_counts ?l ! i))"
    using cnt by (fastforce simp: counted_def NUM_O2_CTX_def)
  have h: "padded_within HIDDEN_BOUND d (ssm_h ?l)" "padded_within WEIGHT_BOUND d (w_run ?l)" "padded_within WEIGHT_BOUND d (w_runa ?l)"
    using k by blast+
  have small: "HIDDEN_BOUND \<le> 2 ^ 24" "WEIGHT_BOUND \<le> 2 ^ 24" by (simp_all add: HIDDEN_BOUND_def WEIGHT_BOUND_def)
  note hs = padded_put [OF h(1) small(1)] and ws = padded_put [OF h(2) small(2)] and was = padded_put [OF h(3) small(2)]
  have b: "read_bounded_f32 WEIGHT_BOUND (put_f32 (b_run ?l) @ rest) = Some (b_run ?l, rest)"
    "read_bounded_f32 WEIGHT_BOUND (put_f32 (b_runa ?l) @ rest) = Some (b_runa ?l, rest)"
    "read_finite_f32 (put_f32 (ssm_perf ?l) @ rest) = Some (ssm_perf ?l, rest)"
    "read_finite_f32 (put_f32 (rle_perf ?l) @ rest) = Some (rle_perf ?l, rest)" for rest
    using read_put_bounded [OF _ small(2)] read_put_f32 k by blast+
  have u: "take_u32 (put_u32 d @ rest) = Some (d, rest)" "take_u32 (put_u32 (unat (ssm_step ?l)) @ rest) = Some (unat (ssm_step ?l), rest)"
    "take_u32 (put_u32 (length ?r) @ rest) = Some (length ?r, rest)" for rest
    using take_put [of d] take_put [of "unat (ssm_step ?l)"] take_put [of "length ?r"] d(2) length_rle_save [OF rs]
      unat_bounds [of "ssm_step ?l"] by (simp_all add: D_MAX_def)
  have hlen: "length (take d (ssm_h ?l)) = d" "length (take d (w_run ?l)) = d" "length (take d (w_runa ?l)) = d"
    using h by (simp_all add: padded_within_def)
  have total_len: "\<not> length (neural_save_state n @ extra) < 1 + 4 + d * 4 * 3 + 4 * 4 + NUM_O2_CTX * 254 * 4 + NUM_O2_CTX * 4 + 2 + 4 + 4"
  proof -
    have "length (concat (map (\<lambda>counts. concat (map put_u32 counts)) (o2_lit_counts ?l))) = 64 * (254 * 4)"
      using length_puts [of "o2_lit_counts ?l" "\<lambda>counts. concat (map put_u32 counts)" "254 * 4"]
        length_puts [of _ put_u32 4] c254 len(1) by simp
    moreover have "length (concat (map put_u32 (o2_lit_totals ?l))) = 64 * 4"
      using length_puts [of "o2_lit_totals ?l" put_u32 4] len(2) by simp
    moreover have "length (concat (map put_f32 xs)) = length xs * 4" for xs using length_puts [of xs put_f32 4] by simp
    ultimately show ?thesis using hlen by (simp add: neural_save_state_def Let_def d(1) NUM_O2_CTX_def del: length_concat)
  qed
  have tl_save: "tl (neural_save_state n @ extra) = put_u32 d @ concat (map put_f32 (take d (ssm_h ?l))) @ concat (map put_f32 (take d (w_run ?l))) @ put_f32 (b_run ?l)
         @ concat (map put_f32 (take d (w_runa ?l))) @ put_f32 (b_runa ?l) @ put_f32 (ssm_perf ?l) @ put_f32 (rle_perf ?l)
         @ concat (map (\<lambda>counts. concat (map put_u32 counts)) (o2_lit_counts ?l)) @ concat (map put_u32 (o2_lit_totals ?l))
         @ [prev_byte ?l, prev_prev_byte ?l] @ put_u32 (unat (ssm_step ?l)) @ put_u32 (length ?r) @ ?r @ extra"
    by (simp add: neural_save_state_def Let_def d(1))
  have nd: "\<not> (d > D_MAX \<or> d \<noteq> d)" using d(2) by simp
  have two: "read_two ([p, q] @ rest) = Some (p, q, rest)" for p q rest by (simp add: read_two_def)
  have result: "\<lparr>ssm_rle = r, ssm_h = ssm_h ?l, w_run = w_run ?l, b_run = b_run ?l, w_runa = w_runa ?l, b_runa = b_runa ?l,
      ssm_perf = ssm_perf ?l, rle_perf = rle_perf ?l, o2_lit_counts = o2_lit_counts ?l, o2_lit_fenwick = o2_lit_fenwick ?l,
      o2_lit_totals = o2_lit_totals ?l, prev_byte = prev_byte ?l, prev_prev_byte = prev_prev_byte ?l,
      ssm_step = of_nat (unat (ssm_step ?l))\<rparr> = ?l\<lparr>ssm_rle := r\<rparr>" by simp
  show ?thesis
    unfolding parse_learned_def tl_save u hs ws was b counts totals two bind.bind_lunit prod.case Let_def
      if_not_P [OF nd] if_not_P [OF total_len] if_not_P [OF consistent] learned_trees [OF linv] result ..
qed

text \<open>A saved state loads back into a predictor of the same dimension, whatever that predictor holds.\<close>

theorem neural_load_save:
  assumes sav: "learned_savable d (ssm_state n)" and d: "cfg_d (ssm_cfg n) = d" "cfg_d (ssm_cfg n0) = d" "d \<le> D_MAX"
  shows "neural_load_state (neural_save_state n) n0 = (True, n0\<lparr>ssm_state := ssm_state n\<rparr>)"
proof -
  let ?r = "rle_save_state (ssm_rle (ssm_state n))"
  have rs: "rle_savable (ssm_rle (ssm_state n))" using sav by (simp add: learned_savable_def)
  have parse: "parse_learned d (ssm_rle (ssm_state n0)) (neural_save_state n)
      = Some ((ssm_state n)\<lparr>ssm_rle := ssm_rle (ssm_state n0)\<rparr>, length ?r, ?r)"
    using parse_saved [OF sav d(1) d(3), of "ssm_rle (ssm_state n0)" "[]"] by simp
  have v: "neural_save_state n \<noteq> []" "hd (neural_save_state n) = 1" by (simp_all add: neural_save_state_def Let_def)
  have "0 < length ?r" using length_rle_save [OF rs] by simp
  then show ?thesis
    using rle_load_save [OF rs, of "ssm_rle (ssm_state n0)"] v by (simp add: neural_load_state_def parse d(2))
qed

text \<open>A trailing byte is rejected, but only after the inner predictor has been replaced.\<close>

theorem neural_load_trailing:
  assumes sav: "learned_savable d (ssm_state n)" and d: "cfg_d (ssm_cfg n) = d" "cfg_d (ssm_cfg n0) = d" "d \<le> D_MAX"
  shows "neural_load_state (neural_save_state n @ [b]) n0
    = (False, n0\<lparr>ssm_state := (ssm_state n0)\<lparr>ssm_rle := ssm_rle (ssm_state n)\<rparr>\<rparr>)"
proof -
  let ?r = "rle_save_state (ssm_rle (ssm_state n))"
  have rs: "rle_savable (ssm_rle (ssm_state n))" using sav by (simp add: learned_savable_def)
  have v: "neural_save_state n @ [b] \<noteq> []" "hd (neural_save_state n @ [b]) = 1" by (simp_all add: neural_save_state_def Let_def)
  have "0 < length ?r" using length_rle_save [OF rs] by simp
  then show ?thesis
    using rle_load_save [OF rs, of "ssm_rle (ssm_state n0)"] v
    by (simp add: neural_load_state_def parse_saved [OF sav d(1) d(3)] d(2))
qed

text \<open>Every outcome of the loader keeps the invariant; a rejected one changes the inner predictor alone.\<close>

lemma read_many_ok:
  assumes "read_many f k data = Some (xs, rest)" "\<And>data x rest. f data = Some (x, rest) \<Longrightarrow> P x"
  shows "length xs = k \<and> (\<forall>x \<in> set xs. P x)"
  using assms(1)
proof (induction k arbitrary: data xs rest)
  case (Suc k)
  then obtain x d1 ys where "f data = Some (x, d1)" "read_many f k d1 = Some (ys, rest)" "xs = x # ys" by (auto split: bind_splits)
  then show ?case using Suc.IH assms(2) by auto
qed simp

lemma count_read_ok: "read_o2_count data = Some (x, rest) \<Longrightarrow> x \<le> MAX_O2_COUNT"
  by (auto simp: read_o2_count_def split: bind_splits if_splits)

lemma count_row_ok:
  assumes "read_many read_o2_count NUM_LITS data = Some (cs, rest)"
  shows "length cs = 254 \<and> (\<forall>x \<in> set cs. x \<le> MAX_O2_COUNT)"
  using read_many_ok [OF assms, of "\<lambda>x. x \<le> MAX_O2_COUNT"] count_read_ok by (simp add: NUM_LITS_def)

lemma parse_learned_ok:
  assumes p: "parse_learned d r data = Some (l, k, rest)" and r: "rle_inv r"
  shows "learned_inv l \<and> ssm_rle l = r"
proof -
  let ?counts = "o2_lit_counts l" and ?totals = "o2_lit_totals l"
  have rd: "\<exists>data data'. read_many (read_many read_o2_count NUM_LITS) NUM_O2_CTX data = Some (?counts, data')"
    "\<exists>data data'. read_many take_u32 NUM_O2_CTX data = Some (?totals, data')"
    "\<forall>i < NUM_O2_CTX. ?totals ! i = sum_list (?counts ! i)"
    "o2_lit_fenwick l = map fenwick254_rebuild ?counts" "ssm_rle l = r"
    using p by (auto simp: parse_learned_def Let_def split: bind_splits if_splits) blast+
  have rows: "\<And>cs. cs \<in> set ?counts \<Longrightarrow> length cs = 254 \<and> (\<forall>x \<in> set cs. x \<le> MAX_O2_COUNT)" and cs_len: "length ?counts = 64"
  proof -
    obtain data data' where "read_many (read_many read_o2_count NUM_LITS) NUM_O2_CTX data = Some (?counts, data')" using rd(1) by blast
    from read_many_ok [OF this, of "\<lambda>cs. length cs = 254 \<and> (\<forall>x \<in> set cs. x \<le> MAX_O2_COUNT)"] count_row_ok
    show "\<And>cs. cs \<in> set ?counts \<Longrightarrow> length cs = 254 \<and> (\<forall>x \<in> set cs. x \<le> MAX_O2_COUNT)" "length ?counts = 64"
      by (auto simp: NUM_O2_CTX_def)
  qed
  have ts: "length ?totals = 64"
    using rd(2) read_many_ok [of take_u32 NUM_O2_CTX _ ?totals _ "\<lambda>_. True"] by (auto simp: NUM_O2_CTX_def)
  have "counted 50800000 (?counts ! i) (fenwick254_rebuild (?counts ! i)) (?totals ! i)" if i: "i < 64" for i
  proof -
    have k: "length (?counts ! i) = 254" "\<forall>x \<in> set (?counts ! i). x \<le> 200000" using rows [of "?counts ! i"] cs_len i by (auto simp: MAX_O2_COUNT_def)
    then have "sum_list (?counts ! i) \<le> 200000 * length (?counts ! i)"
      using sum_list_bounds [of "?counts ! i" 0 200000] by simp
    then show ?thesis
      using k(1) rd(3) i fenwick_rebuild_correct [of "?counts ! i"] by (simp add: counted_def fenwick254_rebuild_def NUM_O2_CTX_def)
  qed
  then show ?thesis using cs_len ts r rd(4,5) by (simp add: learned_inv_def)
qed

theorem neural_load_inv:
  assumes inv: "neural_inv n" and l: "neural_load_state data n = (ok, n')"
  shows "neural_inv n'" "\<not> ok \<Longrightarrow> \<exists>r. n' = n\<lparr>ssm_state := (ssm_state n)\<lparr>ssm_rle := r\<rparr>\<rparr>"
proof -
  have r: "rle_inv r" if "rle_load_state xs (ssm_rle (ssm_state n)) = (ok', r)" for ok' r xs
    using that rle_load_inv [of xs "ssm_rle (ssm_state n)"] rle_load_rejected [of xs "ssm_rle (ssm_state n)"] inv
    by (cases ok') (auto simp: rle_savable_def neural_inv_def learned_inv_def)
  have own: "rle_inv (ssm_rle (ssm_state n))" using inv by (simp add: neural_inv_def learned_inv_def)
  have put: "neural_inv (n\<lparr>ssm_state := (ssm_state n)\<lparr>ssm_rle := q\<rparr>\<rparr>)" if "rle_inv q" for q
    using inv that by (simp add: neural_inv_def learned_inv_def)
  have put': "neural_inv (n\<lparr>ssm_state := m\<lparr>ssm_rle := q\<rparr>\<rparr>)" if "rle_inv q" "learned_inv m" for q m
    using inv that by (simp add: neural_inv_def learned_inv_def)
  have self: "\<exists>q. m = m\<lparr>ssm_state := (ssm_state m)\<lparr>ssm_rle := q\<rparr>\<rparr>" for m :: neural
    by (rule exI [of _ "ssm_rle (ssm_state m)"]) simp
  show "neural_inv n'"
    using l inv own by (auto simp: neural_load_state_def Let_def split: if_splits option.splits prod.splits
        intro: put put' r dest: parse_learned_ok [OF _ own])
  show "\<exists>r. n' = n\<lparr>ssm_state := (ssm_state n)\<lparr>ssm_rle := r\<rparr>\<rparr>" if "\<not> ok"
    using l that by (auto simp: neural_load_state_def Let_def split: if_splits option.splits prod.splits intro: self)
qed

section \<open>Configurations\<close>

text \<open>Whatever numbers a configuration holds, the constructor repairs it.\<close>

definition config_proper :: "neural_config \<Rightarrow> bool" where
  "config_proper c \<longleftrightarrow> (\<forall>x \<in> {cfg_lr c, cfg_mix_decay c, cfg_mix_sensitivity c, cfg_max_alpha c, cfg_decay_lo c, cfg_decay_hi c,
     cfg_o2_lit_blend c}. proper x)"

lemma finite_proper: "proper x \<Longrightarrow> is_finite x \<longleftrightarrow> fin x"
  using fin_finite by (auto simp: proper_def)

lemma unit_lit: "0 \<le> q \<Longrightarrow> q \<le> 1 \<Longrightarrow> between 0 1 (fl_lit f32 q)"
  by (rule between_lit) simp_all

lemma unit_clamp:
  assumes "fin x" shows "between 0 1 (fl_clamp f_zero (fl_lit f32 1) x)"
  using clamp_between [OF assms, of f_zero "fl_lit f32 1"] between_point [OF f_zero_between]
    between_point [OF between_lit [of f32 1 1 1]] by simp

lemma min_between: "fin x \<Longrightarrow> 0 \<le> val x \<Longrightarrow> between b b y \<Longrightarrow> 0 \<le> b \<Longrightarrow> between 0 b (fl_min x y)"
  using min_val [of x y] by (auto simp: between_def)

lemma default_between:
  "between 0 1 (cfg_lr default_config)" "between 0 1 (cfg_mix_decay default_config)" "between 100 100 (cfg_mix_sensitivity default_config)"
  "between 0 1 (cfg_max_alpha default_config)" "between 0 1 (cfg_decay_lo default_config)" "between 0 1 (cfg_decay_hi default_config)"
  "between 0 1 (cfg_o2_lit_blend default_config)"
  unfolding default_config_def neural_config.simps by (rule unit_lit between_lit; simp)+

theorem validated_ok:
  assumes "config_proper c"
  shows "config_ok (validated c)"
proof -
  have p: "proper (cfg_lr c)" "proper (cfg_mix_decay c)" "proper (cfg_mix_sensitivity c)" "proper (cfg_max_alpha c)"
    "proper (cfg_decay_lo c)" "proper (cfg_decay_hi c)" "proper (cfg_o2_lit_blend c)"
    using assms by (simp_all add: config_proper_def)
  have z: "fin f_zero" "val f_zero = 0" using between_point [OF f_zero_between] by simp_all
  have one: "between 1 1 (fl_lit f32 1)" "between 1000 1000 (fl_lit f32 1000)" by (rule between_lit; simp)+
  have unit: "between 0 1 (finite_or x y (fl_clamp f_zero (fl_lit f32 1)))" if "proper x" "between 0 1 y" for x y
    using that unit_clamp finite_proper by (simp add: finite_or_def)
  have cap: "between 0 b (if is_finite x \<and> fl_le f_zero x then fl_min x (fl_lit f32 b) else y)"
    if "proper x" "between 0 b y" "between b b (fl_lit f32 b)" "0 \<le> b" for x y b
    using that min_between [of x b "fl_lit f32 b"] le_val [of f_zero x] z finite_proper [of x] by auto
  define lo where "lo = finite_or (cfg_decay_lo c) (cfg_decay_lo default_config) (fl_clamp f_zero (fl_lit f32 1))"
  have lo: "fin lo" "0 \<le> val lo" "val lo \<le> 1"
    using unit [OF p(5) default_between(5)] by (simp_all add: between_def lo_def)
  have hi: "between (val lo) 1 (if is_finite (cfg_decay_hi c) then fl_clamp lo (fl_lit f32 1) (cfg_decay_hi c)
            else fl_max (cfg_decay_hi default_config) lo)"
    using clamp_between [OF _ lo(1), of "cfg_decay_hi c" "fl_lit f32 1"] finite_proper [OF p(6)] one(1) lo default_between(6)
      max_val [of "cfg_decay_hi default_config" lo] by (auto simp: between_def)
  have "between 0 1000 (cfg_mix_sensitivity default_config)"
    by (rule between_mono [OF default_between(3)]) simp_all
  from cap [OF p(3) this one(2)]
  have "fin (cfg_mix_sensitivity (validated c))" "0 \<le> val (cfg_mix_sensitivity (validated c))"
    by (simp_all only: validated_def Let_def neural_config.simps between_def)
  moreover have "between 0 1 (cfg_lr (validated c))"
    using cap [OF p(1) default_between(1) one(1)] by (simp only: validated_def Let_def neural_config.simps)
  moreover have "1 \<le> cfg_d (validated c)" "cfg_d (validated c) \<le> D_MAX" by (simp_all add: validated_def Let_def D_MAX_def)
  moreover have "between 0 1 (cfg_mix_decay (validated c))" "between 0 1 (cfg_max_alpha (validated c))"
    "between 0 1 (cfg_decay_lo (validated c))" "between 0 1 (cfg_o2_lit_blend (validated c))"
    "between (val (cfg_decay_lo (validated c))) 1 (cfg_decay_hi (validated c))"
    unfolding validated_def Let_def neural_config.simps lo_def [symmetric]
    using hi unit [OF p(2) default_between(2)] unit [OF p(4) default_between(4)] unit [OF p(5) default_between(5)]
      unit [OF p(7) default_between(7)] by (simp_all only: lo_def)
  ultimately show ?thesis by (simp add: config_ok_def)
qed

lemma default_proper: "config_proper default_config"
  by (simp add: config_proper_def default_config_def fl_lit_def round_proper)

lemma neural_with_config_inv: "config_proper c \<Longrightarrow> neural_inv (neural_with_config c)"
  using validated_ok learned_new_inv by (simp add: neural_inv_def neural_with_config_def Let_def)

lemma neural_new_inv: "neural_inv neural_new"
  unfolding neural_new_def using default_proper by (rule neural_with_config_inv)

lemma neural_new_dim: "cfg_d (ssm_cfg neural_new) = 32"
  by (simp add: neural_new_def neural_with_config_def Let_def validated_def default_config_def D_MAX_def)

lemma neural_new_savable: "learned_savable 32 (ssm_state neural_new)"
proof -
  have state: "ssm_state neural_new = learned_new" by (simp add: neural_new_def neural_with_config_def Let_def)
  have z: "fin f_zero" "val f_zero = 0" using between_point [OF f_zero_between] by simp_all
  have zeros: "padded_within b 32 (replicate D_MAX f_zero)" "f32_within b f_zero" for b
    using z by (simp_all add: padded_within_def f32_within_def padded_def D_MAX_def)
  have "rle_savable rle_new"
    using rle_new_inv by (auto simp: rle_savable_def rle_new_def NUM_CONTEXTS_def NUM_LITS_def MAX_LIT_COUNT_def)
  then show ?thesis
    unfolding state using zeros z learned_new_inv
    by (simp add: learned_savable_def learned_new_def NUM_O2_CTX_def NUM_LITS_def MAX_O2_COUNT_def)
qed

end
