(* ===== verification/Block.thy ===== *)
theory Block
  imports Format
begin

text \<open>
  Block framing, \<open>src/aether-core/src/block.rs\<close>: the 28-byte header before each payload, the
  36-byte trailer after it and the 24-byte index entry. \<open>crc32fast::hash\<close> is not code of the
  repository, so the checksum is an argument \<open>crc\<close> of every operation that uses it.
\<close>

section \<open>Block header\<close>

record block_header =
  bh_block_id :: u32
  bh_solid_group_id :: u32
  bh_compression_method :: compression_method
  bh_predictor_state_flag :: bool
  bh_compressed_size :: u32
  bh_uncompressed_size :: u32

definition block_header_prefix :: "block_header \<Rightarrow> bytes" where
  "block_header_prefix h =
     u32_to_le BLOCK_MAGIC @ u32_to_le (bh_block_id h) @ u32_to_le (bh_solid_group_id h)
     @ [compression_method_code (bh_compression_method h)]
     @ [if bh_predictor_state_flag h then 1 else 0]
     @ u16_to_le 0
     @ u32_to_le (bh_compressed_size h) @ u32_to_le (bh_uncompressed_size h)"

definition block_header_crc :: "(bytes \<Rightarrow> u32) \<Rightarrow> block_header \<Rightarrow> u32" where
  "block_header_crc crc h = crc (block_header_prefix h)"

definition block_header_write :: "(bytes \<Rightarrow> u32) \<Rightarrow> block_header \<Rightarrow> bytes" where
  "block_header_write crc h =
     u32_to_le BLOCK_MAGIC @ u32_to_le (bh_block_id h) @ u32_to_le (bh_solid_group_id h)
     @ [compression_method_code (bh_compression_method h)]
     @ [if bh_predictor_state_flag h then 1 else 0]
     @ u16_to_le 0
     @ u32_to_le (bh_compressed_size h) @ u32_to_le (bh_uncompressed_size h)
     @ u32_to_le (block_header_crc crc h)"

definition block_header_read_at ::
    "(bytes \<Rightarrow> u32) \<Rightarrow> u64 \<Rightarrow> block_header reader" where
  "block_header_read_at crc archive_offset s =
     bindR (read_u32 s) (\<lambda>(magic, s).
     if magic \<noteq> BLOCK_MAGIC then Inl (InvalidBlockMagic archive_offset) else
     bindR (read_u32 s) (\<lambda>(block_id, s).
     bindR (read_u32 s) (\<lambda>(solid_group_id, s).
     bindR (read_u8 s) (\<lambda>(m, s).
     bindR (compression_method_from_u8 m) (\<lambda>compression_method.
     bindR (read_u8 s) (\<lambda>(flag, s).
     bindR (read_u16 s) (\<lambda>(reserved, s).
     bindR (read_u32 s) (\<lambda>(compressed_size, s).
     bindR (read_u32 s) (\<lambda>(uncompressed_size, s).
     bindR (read_u32 s) (\<lambda>(stored_crc, s).
       let header = \<lparr>bh_block_id = block_id, bh_solid_group_id = solid_group_id,
             bh_compression_method = compression_method,
             bh_predictor_state_flag = (flag \<noteq> 0), bh_compressed_size = compressed_size,
             bh_uncompressed_size = uncompressed_size\<rparr>
       in if stored_crc \<noteq> block_header_crc crc header then Inl (BlockCrcMismatch block_id)
          else Inr (header, s)))))))))))"

definition block_header_read :: "(bytes \<Rightarrow> u32) \<Rightarrow> block_header reader" where
  "block_header_read crc s = block_header_read_at crc 0 s"

lemma length_block_header_write [simp, lens]:
  "length (block_header_write crc h) = BLOCK_HEADER_SIZE"
  by (simp add: block_header_write_def BLOCK_HEADER_SIZE_def)

lemma block_header_read_write [simp, wire]:
  "block_header_read_at crc off (block_header_write crc h @ s) = Inr (h, s)"
  by (cases h) (simp add: block_header_read_at_def block_header_write_def Let_def)

text \<open>
  What an accepted header looks like on disk: every field but two is determined by the parsed
  value. The flag may be any non-zero byte and the two reserved bytes are arbitrary, since the
  checksum is computed over the re-serialised struct and not over the bytes read.
\<close>

lemma block_header_read_at_Inr:
  "block_header_read_at crc off s = Inr (h, s') \<longleftrightarrow>
     (\<exists>flag reserved.
        bh_predictor_state_flag h = (flag \<noteq> 0) \<and>
        s = u32_to_le BLOCK_MAGIC @ u32_to_le (bh_block_id h) @ u32_to_le (bh_solid_group_id h)
            @ compression_method_code (bh_compression_method h) # flag # u16_to_le reserved
            @ u32_to_le (bh_compressed_size h) @ u32_to_le (bh_uncompressed_size h)
            @ u32_to_le (block_header_crc crc h) @ s')" (is "?L \<longleftrightarrow> ?R")
proof
  assume ?L
  then show ?R
    unfolding block_header_read_at_def
    by (auto simp: Let_def reads_Inr compression_method_from_u8_Inr split: if_splits)
next
  assume ?R
  then show ?L by (cases h) (auto simp: block_header_read_at_def Let_def)
qed

section \<open>Block trailer\<close>

record block_trailer =
  bt_content_blake3 :: bytes

definition block_trailer_write :: "(bytes \<Rightarrow> u32) \<Rightarrow> block_trailer \<Rightarrow> bytes" where
  "block_trailer_write crc t =
     bt_content_blake3 t @ u32_to_le (crc (bt_content_blake3 t))"

definition block_trailer_read_with_id ::
    "(bytes \<Rightarrow> u32) \<Rightarrow> u32 \<Rightarrow> block_trailer reader" where
  "block_trailer_read_with_id crc block_id s =
     bindR (read_exact 32 s) (\<lambda>(content_blake3, s).
     bindR (read_u32 s) (\<lambda>(stored_crc, s).
       if stored_crc \<noteq> crc content_blake3 then Inl (BlockCrcMismatch block_id)
       else Inr (\<lparr>bt_content_blake3 = content_blake3\<rparr>, s)))"

definition block_trailer_read :: "(bytes \<Rightarrow> u32) \<Rightarrow> block_trailer reader" where
  "block_trailer_read crc s = block_trailer_read_with_id crc 0 s"

lemma block_trailer_read_write [simp, wire]:
  "length (bt_content_blake3 t) = 32 \<Longrightarrow>
   block_trailer_read_with_id crc i (block_trailer_write crc t @ s) = Inr (t, s)"
  by (simp add: block_trailer_read_with_id_def block_trailer_write_def)

lemma block_trailer_read_Inr:
  "block_trailer_read_with_id crc i s = Inr (t, s') \<longleftrightarrow>
     length (bt_content_blake3 t) = 32 \<and> s = block_trailer_write crc t @ s'"
  by (cases t)
    (auto simp: block_trailer_read_with_id_def block_trailer_write_def reads_Inr
      split: if_splits)

section \<open>Block index entry\<close>

record block_index_entry =
  bi_block_id :: u32
  bi_archive_offset :: u64
  bi_compressed_size :: u32
  bi_uncompressed_size :: u32
  bi_solid_group_id :: u32

definition block_index_entry_write :: "block_index_entry \<Rightarrow> bytes" where
  "block_index_entry_write e =
     u32_to_le (bi_block_id e) @ u64_to_le (bi_archive_offset e)
     @ u32_to_le (bi_compressed_size e) @ u32_to_le (bi_uncompressed_size e)
     @ u32_to_le (bi_solid_group_id e)"

definition block_index_entry_read :: "block_index_entry reader" where
  "block_index_entry_read s =
     bindR (read_u32 s) (\<lambda>(block_id, s).
     bindR (read_u64 s) (\<lambda>(archive_offset, s).
     bindR (read_u32 s) (\<lambda>(compressed_size, s).
     bindR (read_u32 s) (\<lambda>(uncompressed_size, s).
     bindR (read_u32 s) (\<lambda>(solid_group_id, s).
       Inr (\<lparr>bi_block_id = block_id, bi_archive_offset = archive_offset,
             bi_compressed_size = compressed_size, bi_uncompressed_size = uncompressed_size,
             bi_solid_group_id = solid_group_id\<rparr>, s))))))"

lemma block_index_entry_read_Inr:
  "block_index_entry_read s = Inr (e, s') \<longleftrightarrow> s = block_index_entry_write e @ s'"
proof
  assume "block_index_entry_read s = Inr (e, s')"
  then show "s = block_index_entry_write e @ s'"
    unfolding block_index_entry_read_def
    by (auto simp: block_index_entry_write_def reads_Inr)
next
  assume "s = block_index_entry_write e @ s'"
  then show "block_index_entry_read s = Inr (e, s')"
    by (simp add: block_index_entry_read_def block_index_entry_write_def)
qed

lemma block_index_entry_read_write [simp, wire]:
  "block_index_entry_read (block_index_entry_write e @ s) = Inr (e, s)"
  by (simp add: block_index_entry_read_Inr)

lemma length_block_index_entry_write [simp, lens]:
  "length (block_index_entry_write e) = BLOCK_INDEX_ENTRY_SIZE"
  by (simp add: block_index_entry_write_def BLOCK_INDEX_ENTRY_SIZE_def)

lemma length_block_trailer_write [lens]:
  "length (bt_content_blake3 t) = 32 \<Longrightarrow>
   length (block_trailer_write crc t) = BLOCK_TRAILER_SIZE"
  by (simp add: block_trailer_write_def BLOCK_TRAILER_SIZE_def)

end
