(* ===== verification/Utf8.thy ===== *)
theory Utf8
  imports Prelude
begin

text \<open>
  The part of Rust's string type the archive metadata relies on: a \<open>String\<close> is a byte sequence that
  is well-formed UTF-8, \<open>String::from_utf8\<close> accepts exactly those (Unicode table 3-7, which is what
  the standard library implements), \<open>is_char_boundary\<close> looks at one byte, and \<open>split\<close> on ASCII
  separators works byte by byte.
\<close>

section \<open>Well-formed UTF-8\<close>

definition utf8_cont :: "u8 \<Rightarrow> bool" where
  "utf8_cont b \<longleftrightarrow> 0x80 \<le> b \<and> b \<le> 0xBF"

text \<open>The number of bytes a lead byte announces, 0 for a byte that cannot lead.\<close>

definition utf8_width :: "u8 \<Rightarrow> nat" where
  "utf8_width a =
     (if a < 0x80 then 1
      else if 0xC2 \<le> a \<and> a \<le> 0xDF then 2
      else if 0xE0 \<le> a \<and> a \<le> 0xEF then 3
      else if 0xF0 \<le> a \<and> a \<le> 0xF4 then 4
      else 0)"

text \<open>The second byte excludes overlong forms, surrogates and values above \<open>U+10FFFF\<close>.\<close>

definition utf8_second_ok :: "u8 \<Rightarrow> u8 \<Rightarrow> bool" where
  "utf8_second_ok a b \<longleftrightarrow>
     (if a = 0xE0 then 0xA0 \<le> b
      else if a = 0xED then b \<le> 0x9F
      else if a = 0xF0 then 0x90 \<le> b
      else if a = 0xF4 then b \<le> 0x8F
      else True)"

text \<open>Length of the first scalar value of the input, 0 when it does not start with one.\<close>

fun utf8_step :: "bytes \<Rightarrow> nat" where
  "utf8_step [] = 0"
| "utf8_step (a # bs) =
     (let k = utf8_width a
      in if k \<le> Suc (length bs) \<and> (1 < k \<longrightarrow> utf8_second_ok a (bs ! 0))
            \<and> list_all utf8_cont (take (k - 1) bs)
         then k else 0)"

lemma utf8_step_le: "utf8_step bs \<le> length bs"
  by (cases bs) (auto simp: Let_def)

function utf8_valid :: "bytes \<Rightarrow> bool" where
  "utf8_valid bs =
     (if bs = [] then True
      else if utf8_step bs = 0 then False
      else utf8_valid (drop (utf8_step bs) bs))"
  by pat_completeness auto
termination
  by (relation "measure length") auto

declare utf8_valid.simps [simp del]

lemma utf8_valid_Nil [simp]: "utf8_valid []"
  by (subst utf8_valid.simps) simp

lemma utf8_valid_step:
  "bs \<noteq> [] \<Longrightarrow> utf8_valid bs \<longleftrightarrow> utf8_step bs \<noteq> 0 \<and> utf8_valid (drop (utf8_step bs) bs)"
  by (subst utf8_valid.simps) simp

text \<open>The first scalar value does not depend on what follows it.\<close>

lemma utf8_step_append: "utf8_step p \<noteq> 0 \<Longrightarrow> utf8_step (p @ q) = utf8_step p"
  by (cases p) (auto simp: Let_def nth_append split: if_splits)

lemma utf8_step_take:
  "utf8_step (p @ q) \<le> length p \<Longrightarrow> utf8_step (p @ q) \<noteq> 0 \<Longrightarrow> utf8_step p = utf8_step (p @ q)"
  by (cases p) (auto simp: Let_def nth_append split: if_splits)

lemma utf8_step_cont:
  assumes "0 < i" "i < utf8_step bs"
  shows "utf8_cont (bs ! i)"
proof (cases bs)
  case (Cons a as)
  let ?k = "utf8_width a"
  from assms Cons have k: "?k \<le> Suc (length as)" "list_all utf8_cont (take (?k - 1) as)" "i < ?k"
    by (auto simp: Let_def split: if_splits)
  from assms(1) k have "i - 1 < length (take (?k - 1) as)" by auto
  with k(2) have "utf8_cont (take (?k - 1) as ! (i - 1))"
    by (simp add: list_all_length)
  with assms(1) k(3) Cons show ?thesis by (simp add: nth_Cons')
qed (use assms in simp)

lemma utf8_step_head: "utf8_step (b # bs) \<noteq> 0 \<Longrightarrow> \<not> utf8_cont b"
  by (auto simp: Let_def utf8_width_def utf8_cont_def word_le_nat_alt word_less_nat_alt
      split: if_splits)

lemma utf8_valid_head: "utf8_valid (b # bs) \<Longrightarrow> \<not> utf8_cont b"
  using utf8_step_head [of b bs] by (simp add: utf8_valid_step del: utf8_step.simps)

section \<open>Character boundaries\<close>

definition is_char_boundary :: "bytes \<Rightarrow> nat \<Rightarrow> bool" where
  "is_char_boundary s i \<longleftrightarrow>
     i = 0 \<or> i = length s \<or> (i < length s \<and> \<not> utf8_cont (s ! i))"

lemma utf8_valid_appendD: "utf8_valid (p @ q) \<Longrightarrow> utf8_valid p \<Longrightarrow> utf8_valid q"
proof (induction p rule: utf8_valid.induct)
  case (1 p)
  show ?case
  proof (cases "p = []")
    case False
    with "1.prems" have p: "utf8_step p \<noteq> 0" "utf8_valid (drop (utf8_step p) p)"
      by (simp_all add: utf8_valid_step)
    from "1.prems"(1) False have "utf8_valid (drop (utf8_step p) (p @ q))"
      by (simp add: utf8_valid_step utf8_step_append [OF p(1)])
    then have "utf8_valid (drop (utf8_step p) p @ q)"
      using utf8_step_le [of p] by simp
    with False p show ?thesis using "1.IH" by blast
  qed (use "1.prems" in simp)
qed

lemma utf8_valid_prefix:
  "utf8_valid (p @ q) \<Longrightarrow> q = [] \<or> \<not> utf8_cont (hd q) \<Longrightarrow> utf8_valid p"
proof (induction "length p" arbitrary: p rule: less_induct)
  case less
  show ?case
  proof (cases "p = []")
    case False
    let ?k = "utf8_step (p @ q)"
    from less.prems(1) False have k: "?k \<noteq> 0" "utf8_valid (drop ?k (p @ q))"
      by (simp_all add: utf8_valid_step)
    have le: "?k \<le> length p"
    proof (rule ccontr)
      assume "\<not> ?k \<le> length p"
      moreover have "?k \<le> length (p @ q)" by (rule utf8_step_le)
      ultimately have "utf8_cont ((p @ q) ! length p)" "q \<noteq> []"
        using False by (auto intro!: utf8_step_cont)
      with less.prems(2) show False by (simp add: nth_append hd_conv_nth)
    qed
    with k(2) have "utf8_valid (drop ?k p @ q)" by simp
    with k(1) less False have "utf8_valid (drop ?k p)" by simp
    with k(1) le False show ?thesis
      by (simp add: utf8_valid_step utf8_step_take [OF le k(1)])
  qed simp
qed

text \<open>
  A prefix that ends at a boundary of one well-formed string is well formed, and so it ends at a
  boundary of every well-formed string it is a prefix of.
\<close>

lemma char_boundary_valid_take:
  assumes "utf8_valid s" "is_char_boundary s n" "n \<le> length s"
  shows "utf8_valid (take n s)"
proof -
  have "drop n s = [] \<or> \<not> utf8_cont (hd (drop n s)) \<or> n = 0"
    using assms(2,3) by (auto simp: is_char_boundary_def hd_drop_conv_nth)
  then show ?thesis
    using assms(1) utf8_valid_prefix [of "take n s" "drop n s"] by auto
qed

lemma valid_take_char_boundary:
  assumes "utf8_valid s" "utf8_valid (take n s)" "n \<le> length s"
  shows "is_char_boundary s n"
proof (cases "n < length s")
  case True
  have "utf8_valid (drop n s)"
    using utf8_valid_appendD [of "take n s" "drop n s"] assms by simp
  then have "\<not> utf8_cont (s ! n)"
    using True utf8_valid_head by (simp add: take_drop_nth_Cons)
  with True show ?thesis by (simp add: is_char_boundary_def)
qed (use assms in \<open>simp add: is_char_boundary_def\<close>)

lemma utf8_step_ascii: "b < 0x80 \<Longrightarrow> utf8_step (b # bs) = 1"
  by (simp add: utf8_width_def)

lemma utf8_valid_ascii: "list_all (\<lambda>b. b < 0x80) bs \<Longrightarrow> utf8_valid bs"
  by (induction bs) (simp_all add: utf8_valid_step utf8_step_ascii del: utf8_step.simps)

section \<open>Splitting at separators\<close>

text \<open>\<open>str::split\<close>: the pieces between separators, the empty ones included.\<close>

fun split_on :: "('a \<Rightarrow> bool) \<Rightarrow> 'a list \<Rightarrow> 'a list list" where
  "split_on P [] = [[]]"
| "split_on P (x # xs) =
     (if P x then [] # split_on P xs
      else (case split_on P xs of [] \<Rightarrow> [[x]] | y # ys \<Rightarrow> (x # y) # ys))"

lemma split_on_nonempty [simp]: "split_on P xs \<noteq> []"
  by (induction xs) (auto split: list.splits)

lemma split_on_no_sep: "ys \<in> set (split_on P xs) \<Longrightarrow> y \<in> set ys \<Longrightarrow> \<not> P y"
proof (induction xs arbitrary: ys)
  case (Cons x xs)
  obtain z zs where zs: "split_on P xs = z # zs"
    using split_on_nonempty [of P xs] by (cases "split_on P xs") auto
  show ?case
    using Cons.prems Cons.IH [of z] Cons.IH [of ys] zs by (auto split: if_splits)
qed simp

lemma length_split_on: "length (split_on P xs) = Suc (length (filter P xs))"
proof (induction xs)
  case (Cons x xs)
  obtain z zs where zs: "split_on P xs = z # zs"
    using split_on_nonempty [of P xs] by (cases "split_on P xs") auto
  show ?case using Cons zs by auto
qed simp

lemma split_on_single: "(\<And>x. x \<in> set xs \<Longrightarrow> \<not> P x) \<Longrightarrow> split_on P xs = [xs]"
  by (induction xs) auto

lemma split_on_append_sep:
  "P s \<Longrightarrow> split_on P (xs @ s # ys) = split_on P xs @ split_on P ys"
proof (induction xs)
  case (Cons x xs)
  obtain z zs where zs: "split_on P xs = z # zs"
    using split_on_nonempty [of P xs] by (cases "split_on P xs") auto
  show ?case using Cons zs by auto
qed simp

end
