(* ===== verification/Header.thy ===== *)
theory Header
  imports Format Utf8
begin

text \<open>
  Archive metadata records, \<open>src/aether-core/src/header.rs\<close>: the 48-byte archive header with its
  truncated BLAKE3 tag, the file entry in its plain and its prefix-compressed form, the solid group
  entry and the footer. \<open>blake3::hash\<close> and \<open>crc32fast::hash\<close> are arguments. A path is the byte
  sequence of its \<open>String\<close>, well-formed UTF-8 wherever the Rust type guarantees it.
\<close>

section \<open>Archive header\<close>

record archive_header =
  ah_flags :: u16
  ah_predictor_id :: predictor_id
  ah_file_count :: u32
  ah_solid_group_count :: u32
  ah_block_count :: u32
  ah_file_table_offset :: u64
  ah_block_index_offset :: u64

definition compute_blake3_tag :: "(bytes \<Rightarrow> bytes) \<Rightarrow> archive_header \<Rightarrow> bytes" where
  "compute_blake3_tag blake3 h =
     take 8 (blake3 (MAGIC @ u16_to_le (ah_flags h)
       @ u16_to_le (predictor_id_code (ah_predictor_id h))
       @ u32_to_le (ah_file_count h) @ u32_to_le (ah_solid_group_count h)
       @ u32_to_le (ah_block_count h)
       @ u64_to_le (ah_file_table_offset h) @ u64_to_le (ah_block_index_offset h)))"

definition archive_header_write :: "(bytes \<Rightarrow> bytes) \<Rightarrow> archive_header \<Rightarrow> bytes" where
  "archive_header_write blake3 h =
     MAGIC @ u16_to_le (ah_flags h) @ u16_to_le (predictor_id_code (ah_predictor_id h))
     @ u32_to_le (ah_file_count h) @ u32_to_le (ah_solid_group_count h)
     @ u32_to_le (ah_block_count h)
     @ u64_to_le (ah_file_table_offset h) @ u64_to_le (ah_block_index_offset h)
     @ compute_blake3_tag blake3 h"

definition archive_header_read :: "(bytes \<Rightarrow> bytes) \<Rightarrow> archive_header reader" where
  "archive_header_read blake3 s =
     bindR (read_exact 8 s) (\<lambda>(magic, s).
     if magic \<noteq> MAGIC \<and> magic \<noteq> LEGACY_MAGIC then Inl InvalidMagic else
     bindR (read_u16 s) (\<lambda>(flags, s).
     bindR (read_u16 s) (\<lambda>(pid, s).
     bindR (predictor_id_from_u16 pid) (\<lambda>predictor_id.
     bindR (read_u32 s) (\<lambda>(file_count, s).
     bindR (read_u32 s) (\<lambda>(solid_group_count, s).
     bindR (read_u32 s) (\<lambda>(block_count, s).
     bindR (read_u64 s) (\<lambda>(file_table_offset, s).
     bindR (read_u64 s) (\<lambda>(block_index_offset, s).
     bindR (read_exact 8 s) (\<lambda>(stored_tag, s).
       let header = \<lparr>ah_flags = flags, ah_predictor_id = predictor_id,
             ah_file_count = file_count, ah_solid_group_count = solid_group_count,
             ah_block_count = block_count, ah_file_table_offset = file_table_offset,
             ah_block_index_offset = block_index_offset\<rparr>
       in if stored_tag \<noteq> compute_blake3_tag blake3 header then Inl HeaderIntegrityMismatch
          else if ah_file_count header > MAX_FILE_COUNT
            then Inl (ResourceLimitExceeded ''Archive claims {} files, exceeding limit of {}'')
          else if ah_block_count header > MAX_BLOCK_COUNT
            then Inl (ResourceLimitExceeded ''Archive claims {} blocks, exceeding limit of {}'')
          else if ah_solid_group_count header > MAX_SOLID_GROUP_COUNT
            then Inl (ResourceLimitExceeded
                   ''Archive claims {} solid groups, exceeding limit of {}'')
          else Inr (header, s)))))))))))"

text \<open>The counts a reader lets through.\<close>

definition archive_header_within_limits :: "archive_header \<Rightarrow> bool" where
  "archive_header_within_limits h \<longleftrightarrow>
     ah_file_count h \<le> MAX_FILE_COUNT \<and> ah_block_count h \<le> MAX_BLOCK_COUNT
     \<and> ah_solid_group_count h \<le> MAX_SOLID_GROUP_COUNT"

definition blake3_len_ok :: "(bytes \<Rightarrow> bytes) \<Rightarrow> bool" where
  "blake3_len_ok blake3 \<longleftrightarrow> (\<forall>x. length (blake3 x) = 32)"

lemma length_compute_blake3_tag [lens]:
  "blake3_len_ok blake3 \<Longrightarrow> length (compute_blake3_tag blake3 h) = 8"
  by (simp add: compute_blake3_tag_def blake3_len_ok_def)

lemma length_archive_header_write [lens]:
  "blake3_len_ok blake3 \<Longrightarrow> length (archive_header_write blake3 h) = ARCHIVE_HEADER_SIZE"
  by (simp add: archive_header_write_def ARCHIVE_HEADER_SIZE_def lens)

lemma archive_header_read_write [wire]:
  assumes "blake3_len_ok blake3" "archive_header_within_limits h"
  shows "archive_header_read blake3 (archive_header_write blake3 h @ s) = Inr (h, s)"
  using assms
  by (cases h)
    (auto simp: archive_header_read_def archive_header_write_def Let_def not_less
      archive_header_within_limits_def length_compute_blake3_tag)

lemma archive_header_read_Inr:
  assumes "archive_header_read blake3 s = Inr (h, s')"
  shows "archive_header_within_limits h"
    and "\<exists>m \<in> {MAGIC, LEGACY_MAGIC}. s = m @ drop 8 (archive_header_write blake3 h) @ s'"
  using assms unfolding archive_header_read_def
  by (auto simp: archive_header_write_def Let_def reads_Inr predictor_id_from_u16_Inr
      archive_header_within_limits_def not_less split: if_splits)

section \<open>Path rules\<close>

definition is_sep :: "u8 \<Rightarrow> bool" where
  "is_sep b \<longleftrightarrow> b = 0x2F \<or> b = 0x5C"

text \<open>\<open>".."\<close> as bytes, and \<open>b':'\<close>.\<close>

definition DOTDOT :: bytes where "DOTDOT = [0x2E, 0x2E]"
definition COLON :: u8 where "COLON = 0x3A"

definition path_has_nul :: "bytes \<Rightarrow> bool" where
  "path_has_nul path \<longleftrightarrow> 0 \<in> set path"

definition path_is_absolute :: "bytes \<Rightarrow> bool" where
  "path_is_absolute path \<longleftrightarrow> (case path of [] \<Rightarrow> False | b # _ \<Rightarrow> is_sep b)"

definition path_has_drive :: "bytes \<Rightarrow> bool" where
  "path_has_drive path \<longleftrightarrow> 2 \<le> length path \<and> path ! 1 = COLON"

definition path_has_dotdot :: "bytes \<Rightarrow> bool" where
  "path_has_dotdot path \<longleftrightarrow> DOTDOT \<in> set (split_on is_sep path)"

definition safe_path :: "bytes \<Rightarrow> bool" where
  "safe_path path \<longleftrightarrow> \<not> path_has_nul path \<and> \<not> path_is_absolute path
     \<and> \<not> path_has_drive path \<and> \<not> path_has_dotdot path"

section \<open>File entry\<close>

record file_entry =
  fe_path :: bytes
  fe_original_size :: u64
  fe_blake3_hash :: bytes
  fe_solid_group_id :: u32
  fe_chunk_start_idx :: u32
  fe_chunk_count :: u32
  fe_permissions :: u32
  fe_mtime :: u64

text \<open>
  The loop that backs off to a character boundary; \<open>mtime\<close> is the two's complement word of the
  signed field.
\<close>

fun back_to_boundary :: "bytes \<Rightarrow> nat \<Rightarrow> nat" where
  "back_to_boundary path 0 = 0"
| "back_to_boundary path (Suc n) =
     (if is_char_boundary path (Suc n) then Suc n else back_to_boundary path n)"

definition shared_prefix_len :: "bytes \<Rightarrow> bytes \<Rightarrow> nat" where
  "shared_prefix_len path previous_path =
     back_to_boundary path
       (length (takeWhile (\<lambda>(left, right). left = right) (zip path previous_path)))"

definition prefixed_path_size :: "file_entry \<Rightarrow> bytes \<Rightarrow> nat" where
  "prefixed_path_size e previous_path =
     4 + length (fe_path e) - shared_prefix_len (fe_path e) previous_path"

definition file_entry_fixed :: "file_entry \<Rightarrow> bytes" where
  "file_entry_fixed e =
     u64_to_le (fe_original_size e) @ fe_blake3_hash e @ u32_to_le (fe_solid_group_id e)
     @ u32_to_le (fe_chunk_start_idx e) @ u32_to_le (fe_chunk_count e)
     @ u32_to_le (fe_permissions e) @ u64_to_le (fe_mtime e)"

definition file_entry_write :: "file_entry \<Rightarrow> bytes" where
  "file_entry_write e =
     u16_to_le (of_nat (length (fe_path e))) @ fe_path e @ file_entry_fixed e"

definition file_entry_read :: "file_entry reader" where
  "file_entry_read s =
     bindR (read_u16 s) (\<lambda>(path_len, s).
     if unat path_len > MAX_PATH_LENGTH then
       Inl (ResourceLimitExceeded ''File path length {path_len} exceeds maximum {}'') else
     bindR (read_exact (unat path_len) s) (\<lambda>(path, s).
     if \<not> utf8_valid path then Inl (Decompression ''Invalid UTF-8 path: {e}'')
     else if path_has_nul path then Inl (PathTraversal path)
     else if path_is_absolute path then Inl (PathTraversal path)
     else if path_has_drive path then Inl (PathTraversal path)
     else if path_has_dotdot path then Inl (PathTraversal path) else
     bindR (read_u64 s) (\<lambda>(original_size, s).
     bindR (read_exact 32 s) (\<lambda>(blake3_hash, s).
     bindR (read_u32 s) (\<lambda>(solid_group_id, s).
     bindR (read_u32 s) (\<lambda>(chunk_start_idx, s).
     bindR (read_u32 s) (\<lambda>(chunk_count, s).
     bindR (read_u32 s) (\<lambda>(permissions, s).
     bindR (read_u64 s) (\<lambda>(mtime, s).
       Inr (\<lparr>fe_path = path, fe_original_size = original_size, fe_blake3_hash = blake3_hash,
             fe_solid_group_id = solid_group_id, fe_chunk_start_idx = chunk_start_idx,
             fe_chunk_count = chunk_count, fe_permissions = permissions AND SAFE_PERMISSION_MASK,
             fe_mtime = mtime\<rparr>, s))))))))))"

definition u16_try_from :: "nat \<Rightarrow> string \<Rightarrow> u16 result" where
  "u16_try_from n msg = (if n < 65536 then Inr (of_nat n) else Inl (ResourceLimitExceeded msg))"

definition file_entry_write_prefixed :: "file_entry \<Rightarrow> bytes \<Rightarrow> bytes result" where
  "file_entry_write_prefixed e previous_path =
     (let prefix_len = shared_prefix_len (fe_path e) previous_path;
          suffix = drop prefix_len (fe_path e)
      in bindR (u16_try_from prefix_len ''Path prefix exceeds u16'') (\<lambda>p.
         bindR (u16_try_from (length suffix) ''Path suffix exceeds u16'') (\<lambda>q.
           Inr (u16_to_le p @ u16_to_le q @ suffix @ file_entry_fixed e))))"

definition file_entry_read_prefixed :: "bytes \<Rightarrow> file_entry reader" where
  "file_entry_read_prefixed previous_path s =
     bindR (read_u16 s) (\<lambda>(p, s).
     bindR (read_u16 s) (\<lambda>(q, s).
       let prefix_len = unat p; suffix_len = unat q
       in if prefix_len > length previous_path \<or> \<not> is_char_boundary previous_path prefix_len
            \<or> prefix_len + suffix_len > MAX_PATH_LENGTH
          then Inl (ResourceLimitExceeded
                 ''Invalid compressed path lengths: prefix={prefix_len}, suffix={suffix_len}'')
          else
     bindR (read_exact suffix_len s) (\<lambda>(suffix, s).
       let path = take prefix_len previous_path @ suffix in
     bindR (read_exact 64 s) (\<lambda>(fixed_fields, s).
     bindR (file_entry_read (u16_to_le (of_nat (length path)) @ path @ fixed_fields)) (\<lambda>(e, _).
       Inr (e, s))))))"

text \<open>The entries both writers are meant for, and what the reader makes of their permissions.\<close>

definition file_entry_ok :: "file_entry \<Rightarrow> bool" where
  "file_entry_ok e \<longleftrightarrow> utf8_valid (fe_path e) \<and> safe_path (fe_path e)
     \<and> length (fe_path e) \<le> MAX_PATH_LENGTH \<and> length (fe_blake3_hash e) = 32"

definition sanitize_permissions :: "file_entry \<Rightarrow> file_entry" where
  "sanitize_permissions e = e\<lparr>fe_permissions := fe_permissions e AND SAFE_PERMISSION_MASK\<rparr>"

lemma length_file_entry_fixed [lens]:
  "length (fe_blake3_hash e) = 32 \<Longrightarrow> length (file_entry_fixed e) = 64"
  by (simp add: file_entry_fixed_def)

lemma unat_of_nat_u16 [simp]: "n \<le> MAX_PATH_LENGTH \<Longrightarrow> unat (of_nat n :: u16) = n"
  by (simp add: unat_of_nat MAX_PATH_LENGTH_def)

lemma file_entry_read_write:
  assumes "file_entry_ok e"
  shows "file_entry_read (file_entry_write e @ s) = Inr (sanitize_permissions e, s)"
  using assms
  by (cases e)
    (simp add: file_entry_read_def file_entry_write_def file_entry_fixed_def file_entry_ok_def
      safe_path_def sanitize_permissions_def not_less)

lemma file_entry_read_Inr:
  assumes "file_entry_read s = Inr (e, s')"
  shows "file_entry_ok e \<and> sanitize_permissions e = e"
  using assms unfolding file_entry_read_def
  by (auto simp: file_entry_ok_def safe_path_def sanitize_permissions_def reads_Inr not_less
      and.assoc split: if_splits)

lemma back_to_boundary:
  "back_to_boundary path n \<le> n" "is_char_boundary path (back_to_boundary path n)"
  by (induction n) (auto simp: is_char_boundary_def)

lemma take_zip_eq:
  "k \<le> length (takeWhile (\<lambda>(l, r). l = r) (zip xs ys)) \<Longrightarrow>
   k \<le> length xs \<and> k \<le> length ys \<and> take k xs = take k ys"
proof (induction xs arbitrary: ys k)
  case (Cons x xs)
  show ?case
  proof (cases ys)
    case (Cons y ys')
    then show ?thesis
      using Cons.prems Cons.IH [of "k - 1" ys'] by (cases k) (auto split: if_splits)
  qed (use Cons.prems in simp)
qed simp

lemma shared_prefix_len:
  assumes "utf8_valid path" "utf8_valid previous"
  defines "k \<equiv> shared_prefix_len path previous"
  shows "k \<le> length path" "k \<le> length previous" "take k path = take k previous"
    "is_char_boundary path k" "is_char_boundary previous k"
proof -
  have "k \<le> length (takeWhile (\<lambda>(l, r). l = r) (zip path previous))"
    unfolding k_def shared_prefix_len_def by (rule back_to_boundary)
  from take_zip_eq [OF this] show *: "k \<le> length path" "k \<le> length previous"
      "take k path = take k previous"
    by auto
  show b: "is_char_boundary path k"
    unfolding k_def shared_prefix_len_def by (rule back_to_boundary)
  have "utf8_valid (take k previous)"
    using char_boundary_valid_take [OF assms(1) b *(1)] *(3) by simp
  with assms(2) show "is_char_boundary previous k"
    by (rule valid_take_char_boundary) (rule *(2))
qed

lemma file_entry_read_write_prefixed:
  assumes e: "file_entry_ok e" and prev: "utf8_valid previous"
  shows "\<exists>out. file_entry_write_prefixed e previous = Inr out
     \<and> length out = prefixed_path_size e previous + 64
     \<and> file_entry_read_prefixed previous (out @ s) = Inr (sanitize_permissions e, s)"
proof -
  let ?path = "fe_path e"
  let ?k = "shared_prefix_len ?path previous"
  have v: "utf8_valid ?path" and len: "length ?path \<le> MAX_PATH_LENGTH"
    and h: "length (fe_blake3_hash e) = 32"
    using e by (simp_all add: file_entry_ok_def)
  note k = shared_prefix_len [OF v prev]
  have small: "?k \<le> MAX_PATH_LENGTH" "length (drop ?k ?path) \<le> MAX_PATH_LENGTH"
    using k(1) len by auto
  have join: "take ?k previous @ drop ?k ?path = ?path"
    using k(3) by (metis append_take_drop_id)
  have join': "take ?k previous @ drop ?k ?path @ t = ?path @ t" for t
    using join by (metis append_assoc)
  have read: "file_entry_read (u16_to_le (of_nat (length ?path)) @ ?path @ file_entry_fixed e)
      = Inr (sanitize_permissions e, [])"
    using file_entry_read_write [OF e, of "[]"] by (simp add: file_entry_write_def)
  have w: "file_entry_write_prefixed e previous =
      Inr (u16_to_le (of_nat ?k) @ u16_to_le (of_nat (length (drop ?k ?path)))
           @ drop ?k ?path @ file_entry_fixed e)"
    using small by (simp add: file_entry_write_prefixed_def u16_try_from_def MAX_PATH_LENGTH_def Let_def)
  have "file_entry_read_prefixed previous
      ((u16_to_le (of_nat ?k) @ u16_to_le (of_nat (length (drop ?k ?path)))
           @ drop ?k ?path @ file_entry_fixed e) @ s) = Inr (sanitize_permissions e, s)"
    using small k len h
    by (simp del: length_drop
        add: file_entry_read_prefixed_def Let_def length_file_entry_fixed join read)
      (simp add: k join' read)
  with w show ?thesis
    using k(1) h by (simp add: prefixed_path_size_def length_file_entry_fixed)
qed

lemma file_entry_read_prefixed_Inr:
  assumes "file_entry_read_prefixed previous s = Inr (e, s')"
  shows "file_entry_ok e \<and> sanitize_permissions e = e"
  using assms unfolding file_entry_read_prefixed_def
  by (auto simp: Let_def split: if_splits dest: file_entry_read_Inr)

section \<open>Solid group entry\<close>

record solid_group_entry =
  sg_group_id :: u32
  sg_content_type :: content_type
  sg_compression_method :: compression_method
  sg_first_block_idx :: u32
  sg_block_count :: u32
  sg_file_count :: u32

definition solid_group_entry_write :: "solid_group_entry \<Rightarrow> bytes" where
  "solid_group_entry_write g =
     u32_to_le (sg_group_id g) @ u16_to_le (content_type_code (sg_content_type g))
     @ u16_to_le (ucast (compression_method_code (sg_compression_method g)))
     @ u32_to_le (sg_first_block_idx g) @ u32_to_le (sg_block_count g)
     @ u32_to_le (sg_file_count g) @ u32_to_le 0"

definition solid_group_entry_read :: "solid_group_entry reader" where
  "solid_group_entry_read s =
     bindR (read_u32 s) (\<lambda>(group_id, s).
     bindR (read_u16 s) (\<lambda>(ct, s).
     bindR (content_type_from_u16 ct) (\<lambda>content_type.
     bindR (read_u16 s) (\<lambda>(method_raw, s).
     bindR (compression_method_from_u8 (ucast method_raw)) (\<lambda>compression_method.
     bindR (read_u32 s) (\<lambda>(first_block_idx, s).
     bindR (read_u32 s) (\<lambda>(block_count, s).
     bindR (read_u32 s) (\<lambda>(file_count, s).
     bindR (read_u32 s) (\<lambda>(reserved, s).
       Inr (\<lparr>sg_group_id = group_id, sg_content_type = content_type,
             sg_compression_method = compression_method, sg_first_block_idx = first_block_idx,
             sg_block_count = block_count, sg_file_count = file_count\<rparr>, s))))))))))"

lemma solid_group_entry_read_write [simp, wire]:
  "solid_group_entry_read (solid_group_entry_write g @ s) = Inr (g, s)"
proof -
  have "(ucast (ucast (b :: u8) :: u16) :: u8) = b" for b
    by (rule ucast_up_ucast_id) (simp add: is_up_def source_size_def target_size_def word_size)
  then show ?thesis
    by (cases g) (simp add: solid_group_entry_read_def solid_group_entry_write_def)
qed

lemma length_solid_group_entry_write [simp, lens]:
  "length (solid_group_entry_write g) = SOLID_GROUP_ENTRY_SIZE"
  by (simp add: solid_group_entry_write_def SOLID_GROUP_ENTRY_SIZE_def)

section \<open>Archive footer\<close>

record archive_footer =
  af_block_index_offset :: u64
  af_file_table_offset :: u64
  af_block_count :: u32
  af_file_count :: u32

definition archive_footer_crc :: "(bytes \<Rightarrow> u32) \<Rightarrow> archive_footer \<Rightarrow> u32" where
  "archive_footer_crc crc f =
     crc (u64_to_le (af_block_index_offset f) @ u64_to_le (af_file_table_offset f)
          @ u32_to_le (af_block_count f) @ u32_to_le (af_file_count f))"

definition archive_footer_write :: "(bytes \<Rightarrow> u32) \<Rightarrow> archive_footer \<Rightarrow> bytes" where
  "archive_footer_write crc f =
     u64_to_le (af_block_index_offset f) @ u64_to_le (af_file_table_offset f)
     @ u32_to_le (af_block_count f) @ u32_to_le (af_file_count f)
     @ u32_to_le (archive_footer_crc crc f) @ u32_to_le FOOTER_MAGIC"

definition archive_footer_read :: "(bytes \<Rightarrow> u32) \<Rightarrow> archive_footer reader" where
  "archive_footer_read crc s =
     bindR (read_u64 s) (\<lambda>(block_index_offset, s).
     bindR (read_u64 s) (\<lambda>(file_table_offset, s).
     bindR (read_u32 s) (\<lambda>(block_count, s).
     bindR (read_u32 s) (\<lambda>(file_count, s).
     bindR (read_u32 s) (\<lambda>(stored_crc, s).
     bindR (read_u32 s) (\<lambda>(magic, s).
       if magic \<noteq> FOOTER_MAGIC then Inl InvalidFooterMagic else
       let footer = \<lparr>af_block_index_offset = block_index_offset,
             af_file_table_offset = file_table_offset, af_block_count = block_count,
             af_file_count = file_count\<rparr>;
           computed_crc = archive_footer_crc crc footer
       in if stored_crc \<noteq> computed_crc then Inl (HeaderCrcMismatch stored_crc computed_crc)
          else Inr (footer, s)))))))"

lemma archive_footer_read_Inr:
  "archive_footer_read crc s = Inr (f, s') \<longleftrightarrow> s = archive_footer_write crc f @ s'"
proof
  assume "archive_footer_read crc s = Inr (f, s')"
  then show "s = archive_footer_write crc f @ s'"
    unfolding archive_footer_read_def
    by (auto simp: archive_footer_write_def Let_def reads_Inr split: if_splits)
next
  assume "s = archive_footer_write crc f @ s'"
  then show "archive_footer_read crc s = Inr (f, s')"
    by (cases f) (simp add: archive_footer_read_def archive_footer_write_def Let_def)
qed

lemma archive_footer_read_write [simp, wire]:
  "archive_footer_read crc (archive_footer_write crc f @ s) = Inr (f, s)"
  by (simp add: archive_footer_read_Inr)

lemma length_archive_footer_write [simp, lens]:
  "length (archive_footer_write crc f) = ARCHIVE_FOOTER_SIZE"
  by (simp add: archive_footer_write_def ARCHIVE_FOOTER_SIZE_def)

end
