(* ===== verification/Crypto.thy ===== *)
theory Crypto
  imports Format
begin

text \<open>
  Block encryption of the enterprise feature, \<open>src/aether-core/src/crypto/mod.rs\<close>. AES-256-GCM and
  ChaCha20-Poly1305 (key, nonce, message, associated data), Argon2id and the keyed BLAKE3 hash are
  library functions: fields of an environment, with their documented laws in \<open>crypto_ok\<close>. A hasher
  fed piece by piece hashes the concatenation. Constant-time comparison is equality and erasing
  memory has no effect on values.
\<close>

section \<open>The libraries\<close>

type_synonym aead_fun = "bytes \<Rightarrow> bytes \<Rightarrow> bytes \<Rightarrow> bytes \<Rightarrow> bytes option"

record crypto_env =
  ce_keyed_hash :: "bytes \<Rightarrow> bytes \<Rightarrow> bytes"
  ce_aes_encrypt :: aead_fun
  ce_aes_decrypt :: aead_fun
  ce_chacha_encrypt :: aead_fun
  ce_chacha_decrypt :: aead_fun
  ce_argon2_params :: "u32 \<Rightarrow> u32 \<Rightarrow> u32 \<Rightarrow> bool"
  ce_argon2_hash :: "bytes \<Rightarrow> bytes \<Rightarrow> u32 \<Rightarrow> u32 \<Rightarrow> u32 \<Rightarrow> bytes option"

section \<open>Constants and the stored records\<close>

datatype cipher_id = Aes256Gcm | ChaCha20Poly1305

fun cipher_id_code :: "cipher_id \<Rightarrow> u8" where
  "cipher_id_code Aes256Gcm = 0" | "cipher_id_code ChaCha20Poly1305 = 1"

definition cipher_id_from_u8 :: "u8 \<Rightarrow> cipher_id result" where
  "cipher_id_from_u8 v =
     (if v = 0 then Inr Aes256Gcm
      else if v = 1 then Inr ChaCha20Poly1305
      else Inl (Decryption ''Unknown cipher ID: {v}''))"

definition HEADER_VERSION :: u8 where "HEADER_VERSION = 1"
definition ENCRYPTION_HEADER_SIZE :: nat where "ENCRYPTION_HEADER_SIZE = 90"
definition VERIFICATION_DOMAIN :: bytes where
  "VERIFICATION_DOMAIN = map of_char ''AetherArch-password-verification-v1''"
definition VERIFICATION_KEY_DOMAIN :: bytes where
  "VERIFICATION_KEY_DOMAIN = map of_char ''AetherArch-verification-key-v1''"
definition NONCE_DOMAIN :: bytes where "NONCE_DOMAIN = map of_char ''AetherArch-block-nonce-v1''"
definition NONCE_SIZE :: nat where "NONCE_SIZE = 12"
definition TAG_SIZE :: nat where "TAG_SIZE = 16"
definition KEY_SIZE :: nat where "KEY_SIZE = 32"
definition SALT_SIZE :: nat where "SALT_SIZE = 32"
definition VERIFICATION_TAG_SIZE :: nat where "VERIFICATION_TAG_SIZE = 32"
definition MIN_PASSWORD_LEN :: nat where "MIN_PASSWORD_LEN = 8"
definition MAX_BLOCK_PLAINTEXT_SIZE :: nat where "MAX_BLOCK_PLAINTEXT_SIZE = 1024 * 1024 * 1024"
definition DEFAULT_ARGON2_M_COST :: u32 where "DEFAULT_ARGON2_M_COST = 65536"
definition DEFAULT_ARGON2_T_COST :: u32 where "DEFAULT_ARGON2_T_COST = 3"
definition DEFAULT_ARGON2_P_COST :: u32 where "DEFAULT_ARGON2_P_COST = 4"

record encryption_header =
  eh_version :: u8
  eh_cipher_id :: cipher_id
  eh_salt :: bytes
  eh_m_cost :: u32
  eh_t_cost :: u32
  eh_p_cost :: u32
  eh_master_nonce :: bytes
  eh_verification_tag :: bytes

definition validate_argon2_params :: "u32 \<Rightarrow> u32 \<Rightarrow> u32 \<Rightarrow> unit result" where
  "validate_argon2_params m_cost t_cost p_cost =
     (if m_cost < MIN_ARGON2_M_COST then Inl (Encryption ''Argon2 m_cost {} below minimum of {} KiB'')
      else if m_cost > MAX_ARGON2_M_COST then Inl (Encryption ''Argon2 m_cost {} exceeds safety limit of {} KiB'')
      else if t_cost < MIN_ARGON2_T_COST then Inl (Encryption ''Argon2 t_cost {} below minimum of {}'')
      else if t_cost > MAX_ARGON2_T_COST then Inl (Encryption ''Argon2 t_cost {} exceeds safety limit of {}'')
      else if p_cost < MIN_ARGON2_P_COST then Inl (Encryption ''Argon2 p_cost {} below minimum of {}'')
      else if p_cost > MAX_ARGON2_P_COST then Inl (Encryption ''Argon2 p_cost {} exceeds safety limit of {}'')
      else Inr ())"

definition encryption_header_write :: "encryption_header \<Rightarrow> bytes" where
  "encryption_header_write h =
     [eh_version h] @ [cipher_id_code (eh_cipher_id h)] @ eh_salt h
     @ u32_to_le (eh_m_cost h) @ u32_to_le (eh_t_cost h) @ u32_to_le (eh_p_cost h)
     @ eh_master_nonce h @ eh_verification_tag h"

definition encryption_header_read :: "encryption_header reader" where
  "encryption_header_read s =
     bindR (read_u8 s) (\<lambda>(version, s).
     if version \<noteq> HEADER_VERSION then
       Inl (Decryption ''Unsupported encryption header version {version} (expected {HEADER_VERSION})'')
     else
     bindR (read_u8 s) (\<lambda>(cid, s).
     bindR (cipher_id_from_u8 cid) (\<lambda>cipher_id.
     bindR (read_exact SALT_SIZE s) (\<lambda>(salt, s).
     bindR (read_u32 s) (\<lambda>(m_cost, s).
     bindR (read_u32 s) (\<lambda>(t_cost, s).
     bindR (read_u32 s) (\<lambda>(p_cost, s).
     bindR (read_exact NONCE_SIZE s) (\<lambda>(master_nonce, s).
     bindR (read_exact VERIFICATION_TAG_SIZE s) (\<lambda>(verification_tag, s).
     bindR (validate_argon2_params m_cost t_cost p_cost) (\<lambda>_.
       Inr (\<lparr>eh_version = version, eh_cipher_id = cipher_id, eh_salt = salt, eh_m_cost = m_cost,
             eh_t_cost = t_cost, eh_p_cost = p_cost, eh_master_nonce = master_nonce,
             eh_verification_tag = verification_tag\<rparr>, s)))))))))))"

section \<open>Keys\<close>

definition compute_verification_tag :: "crypto_env \<Rightarrow> bytes \<Rightarrow> bytes" where
  "compute_verification_tag ce key =
     (let verification_key = ce_keyed_hash ce key VERIFICATION_KEY_DOMAIN
      in ce_keyed_hash ce verification_key VERIFICATION_DOMAIN)"

definition verify_password :: "crypto_env \<Rightarrow> encryption_header \<Rightarrow> bytes \<Rightarrow> unit result" where
  "verify_password ce h key =
     (if eh_verification_tag h \<noteq> compute_verification_tag ce key then Inl PasswordVerificationFailed
      else Inr ())"

definition validate_encryption_password :: "bytes \<Rightarrow> unit result" where
  "validate_encryption_password password =
     (if password = [] then Inl (Encryption ''Password cannot be empty'')
      else if length password < MIN_PASSWORD_LEN then
        Inl (Encryption ''Password too short ({} bytes, minimum {})'')
      else Inr ())"

definition derive_key :: "crypto_env \<Rightarrow> bytes \<Rightarrow> bytes \<Rightarrow> u32 \<Rightarrow> u32 \<Rightarrow> u32 \<Rightarrow> bytes result" where
  "derive_key ce password salt m_cost t_cost p_cost =
     bindR (validate_argon2_params m_cost t_cost p_cost) (\<lambda>_.
       if \<not> ce_argon2_params ce m_cost t_cost p_cost then Inl (Encryption ''Argon2 params error: {e}'')
       else case ce_argon2_hash ce password salt m_cost t_cost p_cost of
              None \<Rightarrow> Inl (Encryption ''Key derivation failed: {e}'')
            | Some key \<Rightarrow> Inr key)"

definition u32_to_be :: "u32 \<Rightarrow> bytes" where "u32_to_be w = rev (u32_to_le w)"

definition derive_block_nonce :: "crypto_env \<Rightarrow> bytes \<Rightarrow> u32 \<Rightarrow> bytes" where
  "derive_block_nonce ce master_nonce block_id =
     (let key = master_nonce @ replicate (KEY_SIZE - NONCE_SIZE) 0;
          hash = ce_keyed_hash ce key (NONCE_DOMAIN @ u32_to_be block_id)
      in take NONCE_SIZE hash)"

section \<open>Blocks\<close>

definition validate_plaintext_size :: "nat \<Rightarrow> unit result" where
  "validate_plaintext_size len =
     (if len > MAX_BLOCK_PLAINTEXT_SIZE then
        Inl (Encryption ''Block plaintext size {} exceeds maximum of {} bytes'')
      else Inr ())"

definition build_block_aad :: "cipher_id \<Rightarrow> u32 \<Rightarrow> bytes" where
  "build_block_aad cipher_id block_id = cipher_id_code cipher_id # u32_to_be block_id"

definition aead_result :: "aether_error \<Rightarrow> bytes option \<Rightarrow> bytes result" where
  "aead_result e r = (case r of None \<Rightarrow> Inl e | Some x \<Rightarrow> Inr x)"

definition encrypt_aes_gcm :: "crypto_env \<Rightarrow> bytes \<Rightarrow> bytes \<Rightarrow> bytes \<Rightarrow> bytes \<Rightarrow> bytes result" where
  "encrypt_aes_gcm ce key nonce plaintext aad =
     aead_result (Encryption ''AES-GCM encrypt failed: {e}'') (ce_aes_encrypt ce key nonce plaintext aad)"

definition decrypt_aes_gcm :: "crypto_env \<Rightarrow> bytes \<Rightarrow> bytes \<Rightarrow> bytes \<Rightarrow> bytes \<Rightarrow> bytes result" where
  "decrypt_aes_gcm ce key nonce ciphertext_and_tag aad =
     aead_result (Decryption ''AES-GCM authentication failed: wrong password or corrupted/tampered data'')
       (ce_aes_decrypt ce key nonce ciphertext_and_tag aad)"

definition encrypt_chacha :: "crypto_env \<Rightarrow> bytes \<Rightarrow> bytes \<Rightarrow> bytes \<Rightarrow> bytes \<Rightarrow> bytes result" where
  "encrypt_chacha ce key nonce plaintext aad =
     aead_result (Encryption ''ChaCha20 encrypt failed: {e}'') (ce_chacha_encrypt ce key nonce plaintext aad)"

definition decrypt_chacha :: "crypto_env \<Rightarrow> bytes \<Rightarrow> bytes \<Rightarrow> bytes \<Rightarrow> bytes \<Rightarrow> bytes result" where
  "decrypt_chacha ce key nonce ciphertext_and_tag aad =
     aead_result (Decryption ''ChaCha20-Poly1305 authentication failed: wrong password or corrupted/tampered data'')
       (ce_chacha_decrypt ce key nonce ciphertext_and_tag aad)"

definition encrypt_block :: "crypto_env \<Rightarrow> cipher_id \<Rightarrow> bytes \<Rightarrow> bytes \<Rightarrow> u32 \<Rightarrow> bytes \<Rightarrow> bytes result" where
  "encrypt_block ce cipher_id key master_nonce block_id plaintext =
     bindR (validate_plaintext_size (length plaintext)) (\<lambda>_.
       let nonce = derive_block_nonce ce master_nonce block_id;
           aad = build_block_aad cipher_id block_id
       in bindR (case cipher_id of
                   Aes256Gcm \<Rightarrow> encrypt_aes_gcm ce key nonce plaintext aad
                 | ChaCha20Poly1305 \<Rightarrow> encrypt_chacha ce key nonce plaintext aad)
            (\<lambda>ciphertext. Inr (nonce @ ciphertext)))"

definition decrypt_block :: "crypto_env \<Rightarrow> cipher_id \<Rightarrow> bytes \<Rightarrow> bytes \<Rightarrow> u32 \<Rightarrow> bytes \<Rightarrow> bytes result" where
  "decrypt_block ce cipher_id key master_nonce block_id encrypted =
     (if length encrypted < NONCE_SIZE + TAG_SIZE then
        Inl (Decryption ''Encrypted block too small (missing nonce or tag)'')
      else
        let stored_nonce = take NONCE_SIZE encrypted;
            expected_nonce = derive_block_nonce ce master_nonce block_id
        in if stored_nonce \<noteq> expected_nonce then Inl (NonceMismatch block_id)
           else
             let ciphertext_and_tag = drop NONCE_SIZE encrypted;
                 aad = build_block_aad cipher_id block_id
             in case cipher_id of
                  Aes256Gcm \<Rightarrow> decrypt_aes_gcm ce key stored_nonce ciphertext_and_tag aad
                | ChaCha20Poly1305 \<Rightarrow> decrypt_chacha ce key stored_nonce ciphertext_and_tag aad)"

section \<open>The cached cipher\<close>

text \<open>\<open>CipherImpl\<close> holds an expanded key: here the key it was built from.\<close>

datatype cipher_impl = Aes bytes | ChaCha bytes

record block_cryptor =
  cr_cipher_id :: cipher_id
  cr_inner :: cipher_impl
  cr_master_nonce :: bytes

definition block_cryptor_new :: "cipher_id \<Rightarrow> bytes \<Rightarrow> bytes \<Rightarrow> block_cryptor" where
  "block_cryptor_new cipher_id key master_nonce =
     (let inner = (case cipher_id of Aes256Gcm \<Rightarrow> Aes key | ChaCha20Poly1305 \<Rightarrow> ChaCha key)
      in \<lparr>cr_cipher_id = cipher_id, cr_inner = inner, cr_master_nonce = master_nonce\<rparr>)"

definition cryptor_encrypt :: "crypto_env \<Rightarrow> block_cryptor \<Rightarrow> u32 \<Rightarrow> bytes \<Rightarrow> bytes result" where
  "cryptor_encrypt ce cr block_id plaintext =
     bindR (validate_plaintext_size (length plaintext)) (\<lambda>_.
       let nonce = derive_block_nonce ce (cr_master_nonce cr) block_id;
           aad = build_block_aad (cr_cipher_id cr) block_id
       in bindR (case cr_inner cr of
                   Aes key \<Rightarrow> aead_result (Encryption ''AES-GCM encrypt failed: {e}'')
                     (ce_aes_encrypt ce key nonce plaintext aad)
                 | ChaCha key \<Rightarrow> aead_result (Encryption ''ChaCha20 encrypt failed: {e}'')
                     (ce_chacha_encrypt ce key nonce plaintext aad))
            (\<lambda>ciphertext. Inr (nonce @ ciphertext)))"

definition cryptor_decrypt :: "crypto_env \<Rightarrow> block_cryptor \<Rightarrow> u32 \<Rightarrow> bytes \<Rightarrow> bytes result" where
  "cryptor_decrypt ce cr block_id encrypted =
     (if length encrypted < NONCE_SIZE + TAG_SIZE then
        Inl (Decryption ''Encrypted block too small (missing nonce or tag)'')
      else
        let stored_nonce = take NONCE_SIZE encrypted;
            expected_nonce = derive_block_nonce ce (cr_master_nonce cr) block_id
        in if stored_nonce \<noteq> expected_nonce then Inl (NonceMismatch block_id)
           else
             let ciphertext_and_tag = drop NONCE_SIZE encrypted;
                 aad = build_block_aad (cr_cipher_id cr) block_id
             in case cr_inner cr of
                  Aes key \<Rightarrow> aead_result
                    (Decryption ''AES-GCM authentication failed: wrong password or corrupted/tampered data'')
                    (ce_aes_decrypt ce key stored_nonce ciphertext_and_tag aad)
                | ChaCha key \<Rightarrow> aead_result
                    (Decryption ''ChaCha20-Poly1305 authentication failed: wrong password or corrupted/tampered data'')
                    (ce_chacha_decrypt ce key stored_nonce ciphertext_and_tag aad))"

definition encrypt_metadata :: "crypto_env \<Rightarrow> block_cryptor \<Rightarrow> bytes \<Rightarrow> bytes result" where
  "encrypt_metadata ce cr plaintext = cryptor_encrypt ce cr ENCRYPTED_METADATA_BLOCK_ID plaintext"

definition decrypt_metadata :: "crypto_env \<Rightarrow> block_cryptor \<Rightarrow> bytes \<Rightarrow> bytes result" where
  "decrypt_metadata ce cr encrypted = cryptor_decrypt ce cr ENCRYPTED_METADATA_BLOCK_ID encrypted"

section \<open>Laws of the libraries\<close>

text \<open>
  An AEAD cipher: decryption accepts exactly the ciphertexts of encryption under the same key,
  nonce and associated data, and a ciphertext is its message and a 16-byte tag.
\<close>

definition aead_ok :: "aead_fun \<Rightarrow> aead_fun \<Rightarrow> bool" where
  "aead_ok enc dec \<longleftrightarrow>
     (\<forall>key nonce aad m c. dec key nonce c aad = Some m \<longleftrightarrow> enc key nonce m aad = Some c)
     \<and> (\<forall>key nonce aad m c. enc key nonce m aad = Some c \<longrightarrow> length c = length m + TAG_SIZE)"

definition crypto_ok :: "crypto_env \<Rightarrow> bool" where
  "crypto_ok ce \<longleftrightarrow>
     aead_ok (ce_aes_encrypt ce) (ce_aes_decrypt ce) \<and> aead_ok (ce_chacha_encrypt ce) (ce_chacha_decrypt ce)
     \<and> (\<forall>key x. length (ce_keyed_hash ce key x) = 32)"

lemma cipher_id_roundtrip [simp, wire]: "cipher_id_from_u8 (cipher_id_code c) = Inr c"
  by (cases c) (simp_all add: cipher_id_from_u8_def)

lemma cipher_id_from_u8_Inr: "cipher_id_from_u8 v = Inr c \<longleftrightarrow> v = cipher_id_code c"
  by (cases c) (auto simp: cipher_id_from_u8_def split: if_splits)

lemma aead_result_Inr [simp]: "aead_result e r = Inr x \<longleftrightarrow> r = Some x"
  by (cases r) (simp_all add: aead_result_def)

lemma length_u32_to_be [simp, lens]: "length (u32_to_be w) = 4"
  by (simp add: u32_to_be_def)

lemma length_derive_block_nonce [lens]: "crypto_ok ce \<Longrightarrow> length (derive_block_nonce ce mn i) = NONCE_SIZE"
  by (simp add: derive_block_nonce_def crypto_ok_def NONCE_SIZE_def Let_def)

text \<open>One law for both ciphers: the ciphertext after the nonce.\<close>

definition seal :: "crypto_env \<Rightarrow> cipher_id \<Rightarrow> aead_fun" where
  "seal ce c = (case c of Aes256Gcm \<Rightarrow> ce_aes_encrypt ce | ChaCha20Poly1305 \<Rightarrow> ce_chacha_encrypt ce)"

definition unseal :: "crypto_env \<Rightarrow> cipher_id \<Rightarrow> aead_fun" where
  "unseal ce c = (case c of Aes256Gcm \<Rightarrow> ce_aes_decrypt ce | ChaCha20Poly1305 \<Rightarrow> ce_chacha_decrypt ce)"

lemma seal_ok: "crypto_ok ce \<Longrightarrow> aead_ok (seal ce c) (unseal ce c)"
  by (cases c) (simp_all add: seal_def unseal_def crypto_ok_def)

lemma encrypt_block_Inr:
  "encrypt_block ce c key mn i p = Inr out \<longleftrightarrow>
     length p \<le> MAX_BLOCK_PLAINTEXT_SIZE
     \<and> (\<exists>ct. seal ce c key (derive_block_nonce ce mn i) p (build_block_aad c i) = Some ct
           \<and> out = derive_block_nonce ce mn i @ ct)"
  by (cases c)
    (auto simp: encrypt_block_def validate_plaintext_size_def Let_def bindR_Inr_iff not_less
      encrypt_aes_gcm_def encrypt_chacha_def seal_def)

lemma decrypt_block_Inr:
  "decrypt_block ce c key mn i enc = Inr p \<longleftrightarrow>
     length enc \<ge> NONCE_SIZE + TAG_SIZE \<and> take NONCE_SIZE enc = derive_block_nonce ce mn i
     \<and> unseal ce c key (derive_block_nonce ce mn i) (drop NONCE_SIZE enc) (build_block_aad c i) = Some p"
  by (cases c)
    (auto simp: decrypt_block_def Let_def not_less decrypt_aes_gcm_def decrypt_chacha_def unseal_def)

text \<open>Up to the plaintext limit, decryption accepts exactly what encryption produced for that block.\<close>

lemma decrypt_iff_encrypt:
  assumes "crypto_ok ce"
  shows "(decrypt_block ce c key mn i enc = Inr p \<and> length p \<le> MAX_BLOCK_PLAINTEXT_SIZE)
    \<longleftrightarrow> encrypt_block ce c key mn i p = Inr enc"
proof -
  let ?n = "derive_block_nonce ce mn i" and ?a = "build_block_aad c i"
  have n: "length ?n = NONCE_SIZE" by (rule length_derive_block_nonce [OF assms])
  have law: "unseal ce c key ?n ct ?a = Some p \<longleftrightarrow> seal ce c key ?n p ?a = Some ct"
    and tag: "seal ce c key ?n p ?a = Some ct \<Longrightarrow> length ct = length p + TAG_SIZE" for ct
    using seal_ok [OF assms, of c] by (auto simp: aead_ok_def)
  show ?thesis
    unfolding decrypt_block_Inr encrypt_block_Inr law
    using n tag append_take_drop_id [of NONCE_SIZE enc] by (auto; metis)
qed

lemma encrypt_block_length:
  assumes "crypto_ok ce" "encrypt_block ce c key mn i p = Inr enc"
  shows "length enc = length p + NONCE_SIZE + TAG_SIZE"
  using assms length_derive_block_nonce [OF assms(1)] seal_ok [OF assms(1), of c]
  by (auto simp: encrypt_block_Inr aead_ok_def)

text \<open>The cached cipher computes the same functions.\<close>

lemma cryptor_eq:
  "cryptor_encrypt ce (block_cryptor_new c key mn) i p = encrypt_block ce c key mn i p"
  "cryptor_decrypt ce (block_cryptor_new c key mn) i enc = decrypt_block ce c key mn i enc"
proof -
  show "cryptor_encrypt ce (block_cryptor_new c key mn) i p = encrypt_block ce c key mn i p"
    by (cases c) (simp_all only: cryptor_encrypt_def encrypt_block_def block_cryptor_new_def Let_def
        encrypt_aes_gcm_def encrypt_chacha_def block_cryptor.simps cipher_impl.case cipher_id.case)
  show "cryptor_decrypt ce (block_cryptor_new c key mn) i enc = decrypt_block ce c key mn i enc"
    by (cases c) (simp_all only: cryptor_decrypt_def decrypt_block_def block_cryptor_new_def Let_def
        decrypt_aes_gcm_def decrypt_chacha_def block_cryptor.simps cipher_impl.case cipher_id.case)
qed

section \<open>The stored header\<close>

definition argon2_within_limits :: "u32 \<Rightarrow> u32 \<Rightarrow> u32 \<Rightarrow> bool" where
  "argon2_within_limits m_cost t_cost p_cost \<longleftrightarrow>
     MIN_ARGON2_M_COST \<le> m_cost \<and> m_cost \<le> MAX_ARGON2_M_COST
     \<and> MIN_ARGON2_T_COST \<le> t_cost \<and> t_cost \<le> MAX_ARGON2_T_COST
     \<and> MIN_ARGON2_P_COST \<le> p_cost \<and> p_cost \<le> MAX_ARGON2_P_COST"

lemma validate_argon2_params_Inr:
  "validate_argon2_params m t p = Inr u \<longleftrightarrow> argon2_within_limits m t p"
  by (auto simp: validate_argon2_params_def argon2_within_limits_def not_less)

definition encryption_header_ok :: "encryption_header \<Rightarrow> bool" where
  "encryption_header_ok h \<longleftrightarrow>
     eh_version h = HEADER_VERSION \<and> length (eh_salt h) = SALT_SIZE \<and> length (eh_master_nonce h) = NONCE_SIZE
     \<and> length (eh_verification_tag h) = VERIFICATION_TAG_SIZE
     \<and> argon2_within_limits (eh_m_cost h) (eh_t_cost h) (eh_p_cost h)"

lemma encryption_header_read_Inr:
  "encryption_header_read s = Inr (h, s') \<longleftrightarrow> encryption_header_ok h \<and> s = encryption_header_write h @ s'"
proof
  assume "encryption_header_read s = Inr (h, s')"
  then show "encryption_header_ok h \<and> s = encryption_header_write h @ s'"
    unfolding encryption_header_read_def
    by (auto simp: encryption_header_write_def encryption_header_ok_def reads_Inr cipher_id_from_u8_Inr
        validate_argon2_params_Inr split: if_splits)
next
  assume "encryption_header_ok h \<and> s = encryption_header_write h @ s'"
  then show "encryption_header_read s = Inr (h, s')"
    by (cases h) (simp add: encryption_header_read_def encryption_header_write_def encryption_header_ok_def
        validate_argon2_params_Inr [where u = "()", THEN iffD2])
qed

lemma encryption_header_read_write [wire]:
  "encryption_header_ok h \<Longrightarrow> encryption_header_read (encryption_header_write h @ s) = Inr (h, s)"
  by (simp add: encryption_header_read_Inr)

lemma length_encryption_header_write [lens]:
  "encryption_header_ok h \<Longrightarrow> length (encryption_header_write h) = ENCRYPTION_HEADER_SIZE"
  by (simp add: encryption_header_ok_def encryption_header_write_def SALT_SIZE_def NONCE_SIZE_def
      VERIFICATION_TAG_SIZE_def ENCRYPTION_HEADER_SIZE_def)

lemma default_params_ok:
  "argon2_within_limits DEFAULT_ARGON2_M_COST DEFAULT_ARGON2_T_COST DEFAULT_ARGON2_P_COST"
  by (simp add: argon2_within_limits_def DEFAULT_ARGON2_M_COST_def DEFAULT_ARGON2_T_COST_def
      DEFAULT_ARGON2_P_COST_def MIN_ARGON2_M_COST_def MAX_ARGON2_M_COST_def MIN_ARGON2_T_COST_def
      MAX_ARGON2_T_COST_def MIN_ARGON2_P_COST_def MAX_ARGON2_P_COST_def)

end
