(* ===== verification/Mtf.thy ===== *)
theory Mtf
  imports Bytes
begin

text \<open>
  Move-to-front, \<open>mtf_encode\<close> and \<open>mtf_decode\<close> in
  \<open>src/aether-core/src/coding/bwt_preprocess.rs\<close>. The encoder keeps two 256-byte arrays, \<open>list\<close>
  (the byte at each rank) and \<open>pos\<close> (the rank of each byte), and shifts both; the decoder keeps
  \<open>list\<close> only and moves a block of it with \<open>copy_within\<close>.
\<close>

section \<open>The code\<close>

record mtf_table =
  mtf_list :: bytes
  mtf_pos :: bytes

definition mtf_init_list :: bytes where
  "mtf_init_list = map of_nat [0..<256]"

definition mtf_init :: mtf_table where
  "mtf_init = \<lparr>mtf_list = mtf_init_list, mtf_pos = mtf_init_list\<rparr>"

text \<open>\<open>for i in (1..=r).rev()\<close>: move the byte at rank \<open>i - 1\<close> to rank \<open>i\<close>.\<close>

fun mtf_shift :: "nat \<Rightarrow> mtf_table \<Rightarrow> mtf_table" where
  "mtf_shift 0 t = t"
| "mtf_shift (Suc i) t =
     (let b = mtf_list t ! i
      in mtf_shift i \<lparr>mtf_list = (mtf_list t)[Suc i := b],
                     mtf_pos = (mtf_pos t)[unat b := of_nat (Suc i)]\<rparr>)"

definition mtf_encode_step :: "mtf_table \<Rightarrow> u8 \<Rightarrow> u8 \<times> mtf_table" where
  "mtf_encode_step t byte =
     (let rank = mtf_pos t ! unat byte
      in (rank,
          if 0 < rank then
            let t' = mtf_shift (unat rank) t
            in \<lparr>mtf_list = (mtf_list t')[0 := byte], mtf_pos = (mtf_pos t')[unat byte := 0]\<rparr>
          else t))"

fun mtf_encode_loop :: "mtf_table \<Rightarrow> bytes \<Rightarrow> bytes" where
  "mtf_encode_loop t [] = []"
| "mtf_encode_loop t (byte # rest) =
     (let (rank, t') = mtf_encode_step t byte in rank # mtf_encode_loop t' rest)"

definition mtf_encode :: "bytes \<Rightarrow> bytes" where
  "mtf_encode data = mtf_encode_loop mtf_init data"

text \<open>\<open>list.copy_within(0..r, 1)\<close>, then \<open>list[0] = byte\<close>.\<close>

definition copy_within_1 :: "nat \<Rightarrow> bytes \<Rightarrow> bytes" where
  "copy_within_1 r l = take 1 l @ take r l @ drop (r + 1) l"

definition mtf_decode_step :: "bytes \<Rightarrow> u8 \<Rightarrow> u8 \<times> bytes" where
  "mtf_decode_step l rank =
     (let byte = l ! unat rank
      in (byte, if 0 < rank then (copy_within_1 (unat rank) l)[0 := byte] else l))"

fun mtf_decode_loop :: "bytes \<Rightarrow> bytes \<Rightarrow> bytes" where
  "mtf_decode_loop l [] = []"
| "mtf_decode_loop l (rank # rest) =
     (let (byte, l') = mtf_decode_step l rank in byte # mtf_decode_loop l' rest)"

definition mtf_decode :: "bytes \<Rightarrow> bytes" where
  "mtf_decode data = mtf_decode_loop mtf_init_list data"

section \<open>The shift loop\<close>

lemma mtf_shift_list:
  "Suc r \<le> length (mtf_list t) \<Longrightarrow>
   mtf_list (mtf_shift r t) = take 1 (mtf_list t) @ take r (mtf_list t) @ drop (Suc r) (mtf_list t)"
proof (induction r arbitrary: t)
  case 0
  then show ?case by (simp add: append_take_drop_id [of 1, symmetric, simplified])
next
  case (Suc r)
  let ?l = "mtf_list t"
  let ?l' = "?l[Suc r := ?l ! r]"
  have "mtf_list (mtf_shift (Suc r) t) = take 1 ?l' @ take r ?l' @ drop (Suc r) ?l'"
    using Suc.prems by (simp add: Let_def Suc.IH)
  also have "drop (Suc r) ?l' = ?l ! r # drop (Suc (Suc r)) ?l"
    using Suc.prems by (simp add: take_drop_nth_Cons drop_update_cancel)
  also have "take r ?l' = take r ?l" by simp
  also have "take 1 ?l' = take 1 ?l" by simp
  also have "take 1 ?l @ take r ?l @ ?l ! r # drop (Suc (Suc r)) ?l
      = take 1 ?l @ take (Suc r) ?l @ drop (Suc (Suc r)) ?l"
    using Suc.prems by (simp add: take_Suc_conv_app_nth)
  finally show ?case .
qed

lemma length_mtf_shift [simp]:
  "length (mtf_list (mtf_shift r t)) = length (mtf_list t)"
  "length (mtf_pos (mtf_shift r t)) = length (mtf_pos t)"
  by (induction r arbitrary: t) (simp_all add: Let_def)

text \<open>Each byte of rank below \<open>r\<close> moves up by one; no other rank changes.\<close>

lemma mtf_shift_pos_other:
  "x \<notin> set (take r (mtf_list t)) \<Longrightarrow> r \<le> length (mtf_list t) \<Longrightarrow>
   mtf_pos (mtf_shift r t) ! unat x = mtf_pos t ! unat x"
proof (induction r arbitrary: t)
  case (Suc r)
  let ?b = "mtf_list t ! r"
  have "x \<noteq> ?b" "x \<notin> set (take r (mtf_list t))"
    using Suc.prems by (auto simp: take_Suc_conv_app_nth)
  then show ?case
    using Suc.prems by (simp add: Let_def Suc.IH word_unat_eq_iff)
qed simp

text \<open>The loop from rank \<open>r\<close> down never reads the list at or above \<open>r\<close>.\<close>

lemma mtf_shift_pos_cut:
  "take k xs = take k ys \<Longrightarrow> k \<le> length xs \<Longrightarrow> k \<le> length ys \<Longrightarrow>
   mtf_pos (mtf_shift k \<lparr>mtf_list = xs, mtf_pos = p\<rparr>)
     = mtf_pos (mtf_shift k \<lparr>mtf_list = ys, mtf_pos = p\<rparr>)"
proof (induction k arbitrary: xs ys p)
  case (Suc k)
  have b: "xs ! k = ys ! k"
    using Suc.prems(1) by (metis lessI nth_take)
  have t: "take k xs = take k ys"
    using arg_cong [OF Suc.prems(1), of "take k"] by simp
  show ?case
    unfolding mtf_shift.simps Let_def mtf_table.simps b
    by (rule Suc.IH) (use Suc.prems t in simp_all)
qed simp

lemma mtf_shift_pos_moved:
  assumes "j < r" "r \<le> length (mtf_list t)" "distinct (mtf_list t)" "length (mtf_pos t) = 256"
  shows "mtf_pos (mtf_shift r t) ! unat (mtf_list t ! j) = of_nat (Suc j)"
  using assms
proof (induction r arbitrary: t)
  case (Suc r)
  let ?l = "mtf_list t"
  let ?t = "\<lparr>mtf_list = ?l[Suc r := ?l ! r], mtf_pos = (mtf_pos t)[unat (?l ! r) := of_nat (Suc r)]\<rparr>"
  show ?case
  proof (cases "j = r")
    case True
    have "?l ! r \<notin> set (take r ?l)"
    proof
      assume "?l ! r \<in> set (take r ?l)"
      then obtain i where "i < r" "?l ! i = ?l ! r"
        by (auto simp: in_set_conv_nth)
      then show False using Suc.prems(2,3) nth_eq_iff_index_eq by fastforce
    qed
    then have "mtf_pos (mtf_shift r ?t) ! unat (?l ! r) = mtf_pos ?t ! unat (?l ! r)"
      using Suc.prems(2) by (intro mtf_shift_pos_other) simp_all
    then show ?thesis using True Suc.prems(4) by (simp add: Let_def)
  next
    case False
    let ?dup = "(mtf_list t)[Suc r := ?l ! r]"
    have jr: "j < r" using False Suc.prems(1) by simp
    have "mtf_pos (mtf_shift r ?t) ! unat (?l ! j)
        = mtf_pos (mtf_shift r \<lparr>mtf_list = ?l, mtf_pos = mtf_pos ?t\<rparr>) ! unat (?l ! j)"
      using Suc.prems(2) mtf_shift_pos_cut [of r ?dup ?l "mtf_pos ?t"] by simp
    also have "\<dots> = of_nat (Suc j)"
      using Suc.IH [of "\<lparr>mtf_list = ?l, mtf_pos = mtf_pos ?t\<rparr>"] jr Suc.prems by simp
    finally show ?thesis by (simp add: Let_def)
  qed
qed simp

section \<open>The table invariant\<close>

definition mtf_list_ok :: "bytes \<Rightarrow> bool" where
  "mtf_list_ok l \<longleftrightarrow> length l = 256 \<and> distinct l"

definition mtf_table_ok :: "mtf_table \<Rightarrow> bool" where
  "mtf_table_ok t \<longleftrightarrow> mtf_list_ok (mtf_list t) \<and> length (mtf_pos t) = 256
     \<and> (\<forall>r < 256. mtf_pos t ! unat (mtf_list t ! r) = of_nat r)"

lemma mtf_list_ok_init: "mtf_list_ok mtf_init_list"
  by (auto simp: mtf_list_ok_def mtf_init_list_def distinct_map inj_on_def word_unat_eq_iff
      unat_of_nat)

lemma mtf_table_ok_init: "mtf_table_ok mtf_init"
proof -
  have "mtf_init_list ! r = of_nat r" if "r < 256" for r
    using that by (simp add: mtf_init_list_def)
  then show ?thesis
    using mtf_list_ok_init by (simp add: mtf_table_ok_def mtf_init_def mtf_list_ok_def unat_of_nat)
qed

lemma mtf_list_ok_all: "mtf_list_ok l \<Longrightarrow> b \<in> set l"
proof -
  assume l: "mtf_list_ok l"
  have "card (UNIV :: u8 set) = 256" by (simp add: card_word)
  then have "set l = UNIV"
    using l by (intro card_subset_eq) (simp_all add: mtf_list_ok_def distinct_card)
  then show ?thesis by simp
qed

text \<open>\<open>pos\<close> is the inverse of \<open>list\<close>.\<close>

lemma mtf_table_rank:
  assumes "mtf_table_ok t"
  shows "mtf_list t ! unat (mtf_pos t ! unat b) = b"
proof -
  obtain r where r: "r < 256" "mtf_list t ! r = b"
    using assms mtf_list_ok_all [of "mtf_list t" b]
    by (auto simp: mtf_table_ok_def mtf_list_ok_def in_set_conv_nth)
  with assms have "mtf_pos t ! unat b = of_nat r" by (auto simp: mtf_table_ok_def)
  with r show ?thesis by (simp add: unat_of_nat)
qed

section \<open>Both sides promote the same byte\<close>

lemma mtf_step_list:
  assumes ok: "mtf_table_ok t"
  shows "mtf_decode_step (mtf_list t) (fst (mtf_encode_step t b))
    = (b, mtf_list (snd (mtf_encode_step t b)))"
proof -
  let ?rank = "mtf_pos t ! unat b"
  have len: "length (mtf_list t) = 256" using ok by (simp add: mtf_table_ok_def mtf_list_ok_def)
  have byte: "mtf_list t ! unat ?rank = b" by (rule mtf_table_rank [OF ok])
  have "mtf_list (mtf_shift (unat ?rank) t) = copy_within_1 (unat ?rank) (mtf_list t)"
    using len by (subst mtf_shift_list) (simp_all add: copy_within_1_def Suc_le_eq)
  then show ?thesis
    by (simp add: mtf_decode_step_def mtf_encode_step_def Let_def byte)
qed

lemma promoted_list:
  assumes "r < length l"
  shows "(copy_within_1 r l)[0 := l ! r] = l ! r # take r l @ drop (Suc r) l"
  using assms by (cases l) (simp_all add: copy_within_1_def)

lemma mtf_decode_step_ok:
  assumes "mtf_list_ok l"
  shows "mtf_list_ok (snd (mtf_decode_step l rank))"
proof -
  let ?r = "unat rank"
  have r: "?r < length l" using assms by (simp add: mtf_list_ok_def)
  have "l = take ?r l @ l ! ?r # drop (Suc ?r) l"
    using r by (rule id_take_nth_drop)
  then have "distinct (take ?r l @ l ! ?r # drop (Suc ?r) l)"
    using assms by (simp add: mtf_list_ok_def)
  then have "distinct (l ! ?r # take ?r l @ drop (Suc ?r) l)" by auto
  then show ?thesis
    using assms r by (simp add: mtf_decode_step_def Let_def promoted_list mtf_list_ok_def)
qed

lemma mtf_encode_step_ok:
  assumes ok: "mtf_table_ok t"
  shows "mtf_table_ok (snd (mtf_encode_step t b))"
proof -
  let ?rank = "mtf_pos t ! unat b"
  let ?r = "unat ?rank"
  let ?l = "mtf_list t"
  let ?t = "snd (mtf_encode_step t b)"
  have l: "length ?l = 256" "distinct ?l" and p: "length (mtf_pos t) = 256"
    and inv: "\<And>r. r < 256 \<Longrightarrow> mtf_pos t ! unat (?l ! r) = of_nat r"
    using ok by (simp_all add: mtf_table_ok_def mtf_list_ok_def)
  have byte: "?l ! ?r = b" by (rule mtf_table_rank [OF ok])
  have listok: "mtf_list_ok (mtf_list ?t)"
    using mtf_step_list [OF ok, of b] mtf_decode_step_ok [of ?l "fst (mtf_encode_step t b)"] ok
    by (simp add: mtf_table_ok_def)
  show ?thesis
  proof (cases "0 < ?rank")
    case False
    then have "?t = t" by (simp add: mtf_encode_step_def Let_def)
    with ok show ?thesis by simp
  next
    case True
    then have r0: "0 < ?r" by (simp add: word_less_nat_alt)
    let ?s = "mtf_shift ?r t"
    have t: "?t = \<lparr>mtf_list = (mtf_list ?s)[0 := b], mtf_pos = (mtf_pos ?s)[unat b := 0]\<rparr>"
      using True by (simp add: mtf_encode_step_def Let_def)
    have list: "mtf_list ?t = b # take ?r ?l @ drop (Suc ?r) ?l"
      using mtf_step_list [OF ok, of b] True l promoted_list [of ?r ?l]
      by (simp add: mtf_decode_step_def mtf_encode_step_def Let_def byte)
    have "mtf_pos ?t ! unat (mtf_list ?t ! k) = of_nat k" if k: "k < 256" for k
    proof -
      consider "k = 0" | i where "k = Suc i" "i < ?r" | "?r < k"
        by (cases k) (use not_less_eq in blast)+
      then show ?thesis
      proof cases
        case 1
        then show ?thesis using t list p by simp
      next
        case 2
        have x: "mtf_list ?t ! k = ?l ! i"
          using 2 l by (simp add: list nth_append)
        have "?l ! i \<noteq> b"
          using 2 l byte nth_eq_iff_index_eq [of ?l i ?r] unat_less_256 [of ?rank] by auto
        then have "mtf_pos ?t ! unat (?l ! i) = mtf_pos ?s ! unat (?l ! i)"
          by (simp add: t word_unat_eq_iff)
        also have "\<dots> = of_nat (Suc i)"
          using 2 l p by (intro mtf_shift_pos_moved) simp_all
        finally show ?thesis using 2 x by simp
      next
        case 3
        have x: "mtf_list ?t ! k = ?l ! k"
          using 3 l k by (cases k) (auto simp: list nth_append less_Suc_eq_le)
        have ne: "?l ! k \<noteq> b"
          using 3 l byte k nth_eq_iff_index_eq [of ?l k ?r] by auto
        have "?l ! k \<notin> set (take ?r ?l)"
          using 3 l k nth_eq_iff_index_eq [of ?l _ k] by (auto simp: in_set_conv_nth)
        then have "mtf_pos ?s ! unat (?l ! k) = mtf_pos t ! unat (?l ! k)"
          using l by (intro mtf_shift_pos_other) simp_all
        then show ?thesis using ne x inv [OF k] by (simp add: t word_unat_eq_iff)
      qed
    qed
    then show ?thesis using listok t p by (simp add: mtf_table_ok_def)
  qed
qed

lemma mtf_loop_roundtrip:
  "mtf_table_ok t \<Longrightarrow> mtf_decode_loop (mtf_list t) (mtf_encode_loop t data) = data"
proof (induction data arbitrary: t)
  case (Cons b data)
  obtain rank t' where s: "mtf_encode_step t b = (rank, t')" by (cases "mtf_encode_step t b")
  have "mtf_decode_step (mtf_list t) rank = (b, mtf_list t')"
    using mtf_step_list [OF Cons.prems, of b] s by simp
  moreover have "mtf_table_ok t'" using mtf_encode_step_ok [OF Cons.prems, of b] s by simp
  ultimately show ?case using s Cons.IH by simp
qed simp

lemma mtf_decode_encode: "mtf_decode (mtf_encode data) = data"
  using mtf_loop_roundtrip [OF mtf_table_ok_init, of data]
  by (simp add: mtf_decode_def mtf_encode_def mtf_init_def)

lemma length_mtf_encode [simp]: "length (mtf_encode data) = length data"
proof -
  have "length (mtf_encode_loop t data) = length data" for t
    by (induction data arbitrary: t) (simp_all split: prod.split)
  then show ?thesis by (simp add: mtf_encode_def)
qed

lemma length_mtf_decode [simp]: "length (mtf_decode data) = length data"
proof -
  have "length (mtf_decode_loop t data) = length data" for t
    by (induction data arbitrary: t) (simp_all split: prod.split)
  then show ?thesis by (simp add: mtf_decode_def)
qed

end
