(* ===== verification/Rle.thy ===== *)
theory Rle
  imports Bytes
begin

text \<open>
  Zero-run coding of the MTF stream, \<open>rle_encode\<close>, \<open>rle_decode\<close> and their escaped variants in
  \<open>src/aether-core/src/coding/bwt_preprocess.rs\<close>. A loop over \<open>i\<close> is recursion on the unread
  suffix. The decoder's \<open>u64\<close> accumulators saturate as in the source (\<open>sat64\<close>), the encoder's
  \<open>u32\<close> run counter wraps.
\<close>

section \<open>Run lengths in bijective base 2\<close>

fun encode_run_length :: "nat \<Rightarrow> bytes" where
  "encode_run_length n =
     (if n = 0 then []
      else of_nat ((n - 1) mod 2) # encode_run_length ((n - 1) div 2))"

declare encode_run_length.simps [simp del]

definition sat64 :: "nat \<Rightarrow> nat" where
  "sat64 n = min n (2 ^ 64 - 1)"

text \<open>The inner loop of the decoder: digits up to the first symbol above 1.\<close>

fun read_run :: "bytes \<Rightarrow> nat \<Rightarrow> nat \<Rightarrow> nat \<times> bytes" where
  "read_run [] run_len pw = (run_len, [])"
| "read_run (b # bs) run_len pw =
     (if b \<le> 1 then
        read_run bs (sat64 (run_len + sat64 ((unat b + 1) * pw))) (sat64 (pw * 2))
      else (run_len, b # bs))"

lemma symbols_above_1 [simp]: "\<not> (2 :: u8) \<le> 1" "\<not> (3 :: u8) \<le> 1" "\<not> (255 :: u8) \<le> 1"
  by (simp_all add: word_le_nat_alt)

lemma encode_run_length_0 [simp]: "encode_run_length 0 = []"
  by (simp add: encode_run_length.simps)

lemma encode_run_length_digits: "b \<in> set (encode_run_length n) \<Longrightarrow> b \<le> 1"
proof (induction n rule: encode_run_length.induct)
  case (1 n)
  have "(of_nat (k mod 2) :: u8) \<le> 1" for k :: nat
    by (cases "even k") (auto simp: even_iff_mod_2_eq_zero odd_iff_mod_2_eq_one)
  with 1 show ?case
    by (subst (asm) encode_run_length.simps) (auto split: if_splits)
qed

lemma encode_run_length_nonempty: "0 < n \<Longrightarrow> encode_run_length n \<noteq> []"
  by (subst encode_run_length.simps) simp

lemma read_run_stop: "rest = [] \<or> \<not> hd rest \<le> 1 \<Longrightarrow> read_run rest r p = (r, rest)"
  by (cases rest) auto

lemma read_run_le: "length (snd (read_run bs r p)) \<le> length bs"
  by (induction bs r p rule: read_run.induct) (auto split: if_splits)

lemma read_run_encode:
  assumes "r + n * p < 2 ^ 64" "rest = [] \<or> \<not> hd rest \<le> 1"
  shows "read_run (encode_run_length n @ rest) r p = (r + n * p, rest)"
  using assms(1)
proof (induction n arbitrary: r p rule: encode_run_length.induct)
  case (1 n)
  show ?case
  proof (cases "n = 0")
    case False
    let ?m = "n - 1"
    let ?d = "of_nat (?m mod 2) :: u8"
    let ?r = "r + (?m mod 2 + 1) * p"
    have d: "unat ?d = ?m mod 2" by (simp add: unat_of_nat)
    have d1: "?d \<le> 1" using encode_run_length_digits [of ?d n] False
      by (simp add: encode_run_length.simps [of n])
    have np: "r + n * p = ?r + ?m div 2 * (2 * p)"
    proof -
      have split: "r + n * p = r + (b + 1) * p + a * (2 * p)" if "n = a * 2 + b + 1" for a b
        using that by (simp add: algebra_simps)
      have "?m div 2 * 2 + ?m mod 2 = ?m" by (rule div_mult_mod_eq)
      then show ?thesis using False by (intro split) linarith
    qed
    have r: "sat64 (r + sat64 ((unat ?d + 1) * p)) = ?r"
      using "1.prems" np d by (simp add: sat64_def)
    have IH: "read_run (encode_run_length (?m div 2) @ rest) ?r (sat64 (p * 2)) =
        (?r + ?m div 2 * (2 * p), rest)"
    proof (cases "?m div 2 = 0")
      case True
      then show ?thesis using assms(2) by (simp add: read_run_stop)
    next
      case nz: False
      then have "1 * (2 * p) \<le> ?m div 2 * (2 * p)" by (intro mult_le_mono1) linarith
      with "1.prems" np have "p * 2 < 2 ^ 64" by linarith
      then have "sat64 (p * 2) = 2 * p" by (simp add: sat64_def)
      with "1.IH" [OF False, of ?r "2 * p"] "1.prems" np show ?thesis by simp
    qed
    show ?thesis
      using d1 r IH np by (subst encode_run_length.simps) (simp add: False)
  qed (use assms(2) in \<open>simp add: read_run_stop\<close>)
qed

section \<open>Encoders\<close>

text \<open>The shared shape of the two encoders: \<open>lit\<close> writes one non-zero value.\<close>

function rle_encode_loop :: "(u8 \<Rightarrow> bytes) \<Rightarrow> bytes \<Rightarrow> bytes" where
  "rle_encode_loop lit [] = []"
| "rle_encode_loop lit (v # vs) =
     (if v = 0 then
        encode_run_length (length (takeWhile (\<lambda>b. b = 0) (v # vs)) mod 2 ^ 32)
          @ rle_encode_loop lit (dropWhile (\<lambda>b. b = 0) (v # vs))
      else lit v @ rle_encode_loop lit vs)"
  by pat_completeness auto
termination
  by (relation "measure (\<lambda>(_, xs). length xs)") (auto simp: length_dropWhile_le less_Suc_eq_le)

definition rle_encode :: "bytes \<Rightarrow> bytes option" where
  "rle_encode mtf_data =
     (if 255 \<in> set mtf_data then None
      else Some (rle_encode_loop (\<lambda>v. [v + 1]) mtf_data))"

definition escaped_literal :: "u8 \<Rightarrow> bytes" where
  "escaped_literal v =
     (if v < 254 then [v + 1] else if v = 254 then [255, 2] else [255, 3])"

definition rle_encode_escaped :: "bytes \<Rightarrow> bytes" where
  "rle_encode_escaped mtf_data = rle_encode_loop escaped_literal mtf_data"

section \<open>Decoders\<close>

function rle_decode_loop :: "nat \<Rightarrow> bytes \<Rightarrow> bytes \<Rightarrow> bytes result" where
  "rle_decode_loop expected_size [] output = Inr output"
| "rle_decode_loop expected_size (b # bs) output =
     (if b \<le> 1 then
        let (run_len, rest) = read_run (b # bs) 0 1;
            remaining = expected_size - length output
        in if run_len > remaining then
             Inl (Decompression ''RLE zero-run length {} exceeds remaining output capacity {}'')
           else rle_decode_loop expected_size rest (output @ replicate run_len 0)
      else if length output \<ge> expected_size then
        Inl (Decompression
          ''RLE decode: non-zero symbol at position {} would exceed expected size {}'')
      else rle_decode_loop expected_size bs (output @ [b - 1]))"
  by pat_completeness auto
termination
  by (relation "measure (\<lambda>(_, xs, _). length xs)")
    (auto simp: less_Suc_eq_le intro: order_trans [OF eq_refl read_run_le]
      dest!: arg_cong [where f = "\<lambda>x. length (snd x)"])

definition rle_decode :: "bytes \<Rightarrow> nat \<Rightarrow> bytes result" where
  "rle_decode rle_data expected_size =
     bindR (rle_decode_loop expected_size rle_data []) (\<lambda>output.
       if length output \<noteq> expected_size then
         Inl (Decompression ''RLE decode size mismatch: got {}, expected {expected_size}'')
       else Inr output)"

function rle_decode_escaped_loop :: "nat \<Rightarrow> bytes \<Rightarrow> bytes \<Rightarrow> bytes result" where
  "rle_decode_escaped_loop expected_size [] output = Inr output"
| "rle_decode_escaped_loop expected_size (symb # bs) output =
     (if symb \<le> 1 then
        let (run_len, rest) = read_run (symb # bs) 0 1;
            remaining = expected_size - length output
        in if run_len > remaining then
             Inl (Decompression ''RLE zero-run length {} exceeds remaining output capacity {}'')
           else rle_decode_escaped_loop expected_size rest (output @ replicate run_len 0)
      else if symb = 255 then
        (case bs of
           [] \<Rightarrow> Inl (Decompression
             ''RLE escaped decode: truncated escape sequence at end of stream'')
         | sfx # rest \<Rightarrow>
             if length output \<ge> expected_size then
               Inl (Decompression
                 ''RLE escaped decode: symbol at position {} would exceed expected size {}'')
             else if sfx = 2 then
               rle_decode_escaped_loop expected_size rest (output @ [254])
             else if sfx = 3 then
               rle_decode_escaped_loop expected_size rest (output @ [255])
             else Inl (Decompression
               ''RLE escaped decode: invalid escape suffix {} at position {}''))
      else if length output \<ge> expected_size then
        Inl (Decompression
          ''RLE escaped decode: non-zero symbol at position {} would exceed expected size {}'')
      else rle_decode_escaped_loop expected_size bs (output @ [symb - 1]))"
  by pat_completeness auto
termination
  by (relation "measure (\<lambda>(_, xs, _). length xs)")
    (auto simp: less_Suc_eq_le intro: order_trans [OF eq_refl read_run_le]
      dest!: arg_cong [where f = "\<lambda>x. length (snd x)"])

definition rle_decode_escaped :: "bytes \<Rightarrow> nat \<Rightarrow> bytes result" where
  "rle_decode_escaped rle_data expected_size =
     bindR (rle_decode_escaped_loop expected_size rle_data []) (\<lambda>output.
       if length output \<noteq> expected_size then
         Inl (Decompression ''RLE escaped decode size mismatch: got {}, expected {expected_size}'')
       else Inr output)"


section \<open>Round trip\<close>

lemma dropWhile_zero_head:
  "dropWhile (\<lambda>b. b = 0) xs = y # ys \<Longrightarrow> y \<noteq> (0 :: u8)"
  by (metis (full_types) hd_dropWhile list.distinct(1) list.sel(1))

text \<open>The encoder splits off the longest run of zeros.\<close>

lemma zero_run_split:
  obtains n rest where "0 < n" "0 # vs = replicate n (0 :: u8) @ rest" "rest = [] \<or> hd rest \<noteq> 0"
    "length (takeWhile (\<lambda>b. b = 0) (0 # vs)) = n" "dropWhile (\<lambda>b. b = 0) (0 # vs) = rest"
    "n + length rest = length (0 # vs)"
proof -
  let ?run = "takeWhile (\<lambda>b. b = 0) (0 # vs)"
  let ?rest = "dropWhile (\<lambda>b. b = 0) (0 # vs)"
  have split: "?run @ ?rest = 0 # vs" by (rule takeWhile_dropWhile_id)
  have "\<forall>b \<in> set ?run. b = 0" by (meson set_takeWhileD)
  then have run: "replicate (length ?run) 0 = ?run" by (rule replicate_length_same)
  show thesis
  proof (rule that [of "length ?run" ?rest])
    show "?rest = [] \<or> hd ?rest \<noteq> 0" using dropWhile_zero_head by (metis list.collapse)
    show "0 # vs = replicate (length ?run) 0 @ ?rest" by (simp only: run split)
    show "length ?run + length ?rest = length (0 # vs)" using split by (metis length_append)
  qed simp_all
qed

lemma rle_encode_loop_zeros:
  assumes "0 # vs = replicate n 0 @ rest" "rest = [] \<or> hd rest \<noteq> 0"
    "length (takeWhile (\<lambda>b. b = 0) (0 # vs)) = n" "dropWhile (\<lambda>b. b = 0) (0 # vs) = rest"
  shows "rle_encode_loop lit (0 # vs)
    = encode_run_length (n mod 2 ^ 32) @ rle_encode_loop lit rest"
  using assms(3,4) by (simp only: rle_encode_loop.simps) (simp only: simp_thms if_True)

text \<open>
  What the two decoders have in common: they expand a run, and they undo the literal code of every
  representable value. The round trip needs no more than that.
\<close>

locale zero_run_code =
  fixes lit :: "u8 \<Rightarrow> bytes"
    and representable :: "u8 \<Rightarrow> bool"
    and dec :: "nat \<Rightarrow> bytes \<Rightarrow> bytes \<Rightarrow> bytes result"
  assumes lit_head: "v \<noteq> 0 \<Longrightarrow> representable v \<Longrightarrow> lit v \<noteq> [] \<and> \<not> hd (lit v) \<le> 1"
    and dec_Nil: "dec N [] out = Inr out"
    and dec_run: "b \<le> 1 \<Longrightarrow> read_run (b # bs) 0 1 = (n, rest) \<Longrightarrow> n \<le> N - length out \<Longrightarrow>
      dec N (b # bs) out = dec N rest (out @ replicate n 0)"
    and dec_lit: "v \<noteq> 0 \<Longrightarrow> representable v \<Longrightarrow> length out < N \<Longrightarrow>
      dec N (lit v @ rest) out = dec N rest (out @ [v])"
begin

lemma enc_head:
  assumes "\<forall>v \<in> set xs. representable v" "xs = [] \<or> hd xs \<noteq> 0"
  shows "rle_encode_loop lit xs = [] \<or> \<not> hd (rle_encode_loop lit xs) \<le> 1"
  using assms lit_head by (cases xs) auto

lemma dec_enc:
  assumes "\<forall>v \<in> set xs. representable v" "length xs < 2 ^ 32" "length out + length xs \<le> N"
  shows "dec N (rle_encode_loop lit xs) out = Inr (out @ xs)"
  using assms
proof (induction "length xs" arbitrary: xs out rule: less_induct)
  case less
  note IH = less.hyps and prems = less.prems
  show ?case
  proof (cases xs)
    case Nil
    then show ?thesis by (simp add: dec_Nil)
  next
    case (Cons v vs)
    show ?thesis
  proof (cases "v = 0")
    case True
    obtain n rest where n: "0 < n" and xs: "0 # vs = replicate n (0 :: u8) @ rest"
      and hd: "rest = [] \<or> hd rest \<noteq> 0"
      and tw: "length (takeWhile (\<lambda>b. b = 0) (0 # vs)) = n"
      and dw: "dropWhile (\<lambda>b. b = 0) (0 # vs) = rest" and len: "n + length rest = length (0 # vs)"
      by (rule zero_run_split)
    let ?E = "rle_encode_loop lit rest"
    have n32: "n mod 2 ^ 32 = n" using prems(2) len Cons by simp
    have enc: "rle_encode_loop lit (v # vs) = encode_run_length n @ ?E"
      using rle_encode_loop_zeros [OF xs hd tw dw, of lit] by (simp only: True n32)
    obtain b bs where b: "encode_run_length n = b # bs"
      using encode_run_length_nonempty [OF n] by (cases "encode_run_length n") auto
    have b1: "b \<le> 1" using encode_run_length_digits [of b n] b by simp
    have sub: "set rest \<subseteq> set (v # vs)" using xs True by simp
    have E: "?E = [] \<or> \<not> hd ?E \<le> 1"
      using sub prems(1) hd Cons by (intro enc_head) auto
    have "read_run ((b # bs) @ ?E) 0 1 = (0 + n * 1, ?E)"
      unfolding b [symmetric] using prems(2) len E Cons by (intro read_run_encode) auto
    moreover have room: "n \<le> N - length out" using prems(3) len Cons by simp
    ultimately have "dec N (rle_encode_loop lit (v # vs)) out = dec N ?E (out @ replicate n 0)"
      using dec_run [OF b1, of "bs @ ?E" n ?E N out] by (simp only: enc b append_Cons mult_1_right add_0)
    also have "\<dots> = Inr ((out @ replicate n 0) @ rest)"
      using prems sub len n Cons by (intro IH) auto
    also have "(out @ replicate n 0) @ rest = out @ v # vs"
      using xs True by simp
    finally show ?thesis by (simp add: Cons)
  next
    case False
    then have "dec N (rle_encode_loop lit (v # vs)) out = dec N (rle_encode_loop lit vs) (out @ [v])"
      using prems Cons by (simp add: dec_lit)
    also have "\<dots> = Inr ((out @ [v]) @ vs)"
      using prems Cons by (intro IH) auto
    finally show ?thesis by (simp add: Cons)
  qed
  qed
qed

end

interpretation plain: zero_run_code "\<lambda>v. [v + 1]" "\<lambda>v. v \<noteq> 255" rle_decode_loop
proof
  fix v :: u8
  assume v: "v \<noteq> 0" "v \<noteq> 255"
  then have "unat v \<noteq> 0" "unat v \<noteq> 255" by (auto simp: u8_eq_iff)
  then have u: "unat (v + 1) = unat v + 1"
    using unat_less_256 [of v] by (simp add: unat_word_ariths del: unat_less_256)
  then have gt: "\<not> v + 1 \<le> 1"
    using \<open>unat v \<noteq> 0\<close> by (simp add: word_le_nat_alt)
  then show "[v + 1] \<noteq> [] \<and> \<not> hd [v + 1] \<le> 1" by simp
  show "rle_decode_loop N ([v + 1] @ rest) out = rle_decode_loop N rest (out @ [v])"
    if "length out < N" for N rest out
    using that gt by simp
qed (auto simp: Let_def)

lemma escaped_literal_cases:
  fixes v :: u8
  assumes "v \<noteq> 0"
  obtains "v < 254" "escaped_literal v = [v + 1]" "\<not> v + 1 \<le> 1" "v + 1 \<noteq> 255"
  | "v = 254" "escaped_literal v = [255, 2]"
  | "v = 255" "escaped_literal v = [255, 3]"
proof -
  consider "v < 254" | "v = 254" | "v = 255"
    using unat_le_255 [of v]
    by (auto simp: word_less_nat_alt u8_eq_iff simp del: unat_le_255) linarith
  then show thesis
  proof cases
    case 1
    then have "unat (v + 1) = unat v + 1" "unat v < 254"
      by (simp_all add: word_less_nat_alt unat_word_ariths)
    moreover have "unat v \<noteq> 0" using assms by (simp add: unat_eq_0)
    ultimately have "\<not> v + 1 \<le> 1" "v + 1 \<noteq> 255"
      by (auto simp: word_le_nat_alt u8_eq_iff)
    with 1 that(1) show thesis by (simp add: escaped_literal_def)
  qed (use that in \<open>simp_all add: escaped_literal_def\<close>)
qed

interpretation escaped: zero_run_code escaped_literal "\<lambda>v. True" rle_decode_escaped_loop
proof
  fix v :: u8
  assume "v \<noteq> 0"
  then show "escaped_literal v \<noteq> [] \<and> \<not> hd (escaped_literal v) \<le> 1"
    by (cases rule: escaped_literal_cases) auto
  show "rle_decode_escaped_loop N (escaped_literal v @ rest) out
      = rle_decode_escaped_loop N rest (out @ [v])" if "length out < N" for N rest out
    using \<open>v \<noteq> 0\<close> that by (cases rule: escaped_literal_cases) auto
qed (auto simp: Let_def)

lemma rle_decode_encode:
  assumes "rle_encode d = Some e" "length d < 2 ^ 32"
  shows "rle_decode e (length d) = Inr d"
proof -
  have "\<forall>v \<in> set d. v \<noteq> 255" "e = rle_encode_loop (\<lambda>v. [v + 1]) d"
    using assms(1) by (auto simp: rle_encode_def split: if_splits)
  then show ?thesis
    using plain.dec_enc [of d "[]" "length d"] assms(2) by (simp add: rle_decode_def)
qed

lemma rle_decode_encode_escaped:
  "length d < 2 ^ 32 \<Longrightarrow> rle_decode_escaped (rle_encode_escaped d) (length d) = Inr d"
  using escaped.dec_enc [of d "[]" "length d"]
  by (simp add: rle_encode_escaped_def rle_decode_escaped_def)

section \<open>Bounds\<close>

text \<open>The decoders never let the output grow past the declared size.\<close>

lemma rle_decode_loop_bound:
  "rle_decode_loop N xs out = Inr out' \<Longrightarrow> length out \<le> N \<Longrightarrow> length out' \<le> N"
proof (induction N xs out rule: rle_decode_loop.induct)
  case (2 N b bs out)
  then show ?case by (auto simp: Let_def split: if_splits prod.splits)
qed simp

lemma rle_decode_escaped_loop_bound:
  "rle_decode_escaped_loop N xs out = Inr out' \<Longrightarrow> length out \<le> N \<Longrightarrow> length out' \<le> N"
proof (induction N xs out rule: rle_decode_escaped_loop.induct)
  case (2 N b bs out)
  then show ?case by (auto simp: Let_def split: if_splits prod.splits list.splits)
qed simp

lemma rle_decode_length: "rle_decode e n = Inr d \<Longrightarrow> length d = n"
  by (auto simp: rle_decode_def split: if_splits)

lemma rle_decode_escaped_length: "rle_decode_escaped e n = Inr d \<Longrightarrow> length d = n"
  by (auto simp: rle_decode_escaped_def split: if_splits)

text \<open>
  In the escaped code the symbols 0 and 1 occur only as run digits, so the predictor sees them in
  no other role.
\<close>

lemma escaped_literal_gt_1: "v \<noteq> 0 \<Longrightarrow> b \<in> set (escaped_literal v) \<Longrightarrow> \<not> b \<le> 1"
  by (cases rule: escaped_literal_cases) auto

text \<open>Neither encoder makes a value longer: at most one byte per input byte, two if escaped.\<close>

lemma length_encode_run_length: "length (encode_run_length n) \<le> n"
proof (induction n rule: encode_run_length.induct)
  case (1 n)
  then show ?case by (subst encode_run_length.simps) auto
qed

lemma length_rle_encode_loop:
  assumes "\<And>v. length (lit v) \<le> k" "1 \<le> k"
  shows "length (rle_encode_loop lit xs) \<le> k * length xs"
  using assms
proof (induction lit xs rule: rle_encode_loop.induct)
  case (2 l v vs)
  show ?case
  proof (cases "v = 0")
    case True
    obtain n rest where xs: "0 # vs = replicate n (0 :: u8) @ rest"
      and hd: "rest = [] \<or> hd rest \<noteq> 0"
      and tw: "length (takeWhile (\<lambda>b. b = 0) (0 # vs)) = n"
      and dw: "dropWhile (\<lambda>b. b = 0) (0 # vs) = rest" and len: "n + length rest = length (0 # vs)"
      by (rule zero_run_split)
    have "length (encode_run_length (n mod 2 ^ 32)) \<le> n"
      using length_encode_run_length [of "n mod 2 ^ 32"] mod_less_eq_dividend order_trans by blast
    also have "n \<le> k * n" using "2.prems"(2) by simp
    finally have "length (rle_encode_loop l (v # vs)) \<le> k * n + length (rle_encode_loop l rest)"
      by (simp only: True rle_encode_loop_zeros [OF xs hd tw dw] length_append add_le_cancel_right)
    also have "length (rle_encode_loop l rest) \<le> k * length rest"
      using "2.IH"(1) [OF True "2.prems"] by (simp only: True dw)
    also have "k * n + k * length rest = k * length (v # vs)"
      using len by (metis add_mult_distrib2 length_Cons)
    finally show ?thesis by simp
  next
    case False
    then show ?thesis using "2.IH"(2) [OF False "2.prems"] "2.prems"(1) [of v] by simp
  qed
qed simp

end
