(* ===== verification/Bwt.thy ===== *)
theory Bwt
  imports Format Mtf Rle "HOL-Library.Multiset" "HOL-Library.List_Lexorder"
begin

text \<open>
  The Burrows-Wheeler transform and its combination with move-to-front,
  \<open>src/aether-core/src/coding/bwt_preprocess.rs\<close>. The suffix array comes from the C library
  \<open>libsais\<close>, which is not code of the repository: it is the argument \<open>libsais\<close>, \<open>None\<close> standing
  for a non-zero return code. The three walks of the inverse transform are modelled separately,
  with the 32-bit packing \<open>(lf << 8) | byte\<close> of the second and third.
\<close>

section \<open>Encoder\<close>

definition MAX_BWT_INPUT_SIZE :: nat where "MAX_BWT_INPUT_SIZE = 8 * 1024 * 1024"
definition MAX_BWT_DECODE_SIZE :: nat where
  "MAX_BWT_DECODE_SIZE = MAX_DECOMPRESSED_BLOCK_SIZE"

type_synonym suffix_sorter = "bytes \<Rightarrow> nat list option"

text \<open>The scan of the suffix array of \<open>T+T\<close>: keep the positions below \<open>n\<close>, stop after \<open>n\<close>.\<close>

fun bwt_scan :: "bytes \<Rightarrow> nat list \<Rightarrow> bytes \<Rightarrow> u32 \<Rightarrow> bytes \<times> u32" where
  "bwt_scan data [] bwt primary_index = (bwt, primary_index)"
| "bwt_scan data (pos # sa) bwt primary_index =
     (let n = length data
      in if pos < n then
           let primary_index = (if pos = 0 then of_nat (length bwt) else primary_index);
               bwt = bwt @ [data ! ((pos + n - 1) mod n)]
           in if length bwt = n then (bwt, primary_index) else bwt_scan data sa bwt primary_index
         else bwt_scan data sa bwt primary_index)"

definition bwt_encode :: "suffix_sorter \<Rightarrow> bytes \<Rightarrow> string + (bytes \<times> u32)" where
  "bwt_encode libsais data =
     (let n = length data
      in if n = 0 then Inr ([], 0)
         else if n = 1 then Inr (data, 0)
         else if n > MAX_BWT_INPUT_SIZE then Inl ''BWT input exceeds MAX_BWT_INPUT_SIZE''
         else
           case libsais (data @ data) of
             None \<Rightarrow> Inl ''libsais suffix array construction failed''
           | Some sa \<Rightarrow> Inr (bwt_scan data sa [] 0))"

section \<open>Decoder\<close>

definition MAX_PACKED_LF :: nat where "MAX_PACKED_LF = 2 ^ 24"
definition TWO_CHAIN_MIN :: nat where "TWO_CHAIN_MIN = 2 ^ 20"

fun count_bytes :: "nat list \<Rightarrow> bytes \<Rightarrow> nat list" where
  "count_bytes freq [] = freq"
| "count_bytes freq (b # bs) = count_bytes (freq[unat b := freq ! unat b + 1]) bs"

fun cumul_counts :: "nat \<Rightarrow> nat list \<Rightarrow> nat list" where
  "cumul_counts acc [] = []"
| "cumul_counts acc (c # cs) = acc # cumul_counts (acc + c) cs"

text \<open>\<open>lf[i] = cumul[c] + occ[c]; occ[c] += 1\<close>, mapped over the block.\<close>

fun lf_loop :: "(nat \<Rightarrow> u8 \<Rightarrow> 'a) \<Rightarrow> nat list \<Rightarrow> nat list \<Rightarrow> bytes \<Rightarrow> 'a list" where
  "lf_loop entry cumul occ [] = []"
| "lf_loop entry cumul occ (b # bs) =
     entry (cumul ! unat b + occ ! unat b) b
       # lf_loop entry cumul (occ[unat b := occ ! unat b + 1]) bs"

definition pack_lf :: "nat \<Rightarrow> u8 \<Rightarrow> u32" where
  "pack_lf lf b = push_bit 8 (of_nat lf) OR ucast b"

text \<open>The single chain, over two arrays or over the packed one: slots are filled from the end.\<close>

fun walk_lf :: "bytes \<Rightarrow> nat list \<Rightarrow> nat \<Rightarrow> nat \<Rightarrow> bytes \<Rightarrow> bytes" where
  "walk_lf bwt lf 0 idx output = output"
| "walk_lf bwt lf (Suc slots) idx output =
     walk_lf bwt lf slots (lf ! idx) (bwt ! idx # output)"

fun walk_packed :: "u32 list \<Rightarrow> nat \<Rightarrow> nat \<Rightarrow> bytes \<Rightarrow> bytes" where
  "walk_packed forward 0 idx output = output"
| "walk_packed forward (Suc slots) idx output =
     (let packed = forward ! idx
      in walk_packed forward slots (unat (drop_bit 8 packed)) (ucast packed # output))"

text \<open>The inverse chain and the walk from both ends.\<close>

fun invert_chain :: "nat \<Rightarrow> u32 list \<Rightarrow> u32 list \<Rightarrow> u32 list" where
  "invert_chain i [] inv_chain = inv_chain"
| "invert_chain i (packed # ps) inv_chain =
     invert_chain (Suc i) ps
       (inv_chain[unat (drop_bit 8 packed) := push_bit 8 (of_nat i) OR (packed AND 0xFF)])"

fun two_chain_walk ::
    "u32 list \<Rightarrow> u32 list \<Rightarrow> nat \<Rightarrow> nat \<Rightarrow> nat \<Rightarrow> nat \<Rightarrow> bytes \<Rightarrow> nat \<times> bytes" where
  "two_chain_walk forward inv_chain 0 k back fwd output = (back, output)"
| "two_chain_walk forward inv_chain (Suc m) k back fwd output =
     (let n = length output;
          b = forward ! back;
          output = output[n - 1 - k := ucast b];
          f = inv_chain ! fwd;
          output = output[k := ucast f]
      in two_chain_walk forward inv_chain m (Suc k)
           (unat (drop_bit 8 b)) (unat (drop_bit 8 f)) output)"

definition bwt_decode_with :: "bytes \<Rightarrow> u32 \<Rightarrow> nat \<Rightarrow> nat \<Rightarrow> string + bytes" where
  "bwt_decode_with bwt primary_index two_chain_min max_packed_lf =
     (let n = length bwt
      in if n = 0 then Inr []
         else if unat primary_index \<ge> n then Inl ''BWT primary index out of bounds''
         else
           let freq = count_bytes (replicate 256 0) bwt;
               cumul = cumul_counts 0 freq;
               idx = unat primary_index
           in if n > max_packed_lf then
                Inr (walk_lf bwt (lf_loop (\<lambda>lf b. lf) cumul (replicate 256 0) bwt) n idx [])
              else
                let forward = lf_loop pack_lf cumul (replicate 256 0) bwt
                in if n \<le> two_chain_min then Inr (walk_packed forward n idx [])
                   else
                     let inv_chain = invert_chain 0 forward (replicate n 0);
                         half = n div 2;
                         (back, output) =
                           two_chain_walk forward inv_chain half 0 idx idx (replicate n 0)
                     in Inr (if n mod 2 = 1 then output[half := ucast (forward ! back)]
                             else output))"

definition bwt_decode :: "bytes \<Rightarrow> u32 \<Rightarrow> string + bytes" where
  "bwt_decode bwt primary_index =
     bwt_decode_with bwt primary_index TWO_CHAIN_MIN MAX_PACKED_LF"

section \<open>Combined with move-to-front\<close>

definition bwt_mtf_encode_parts :: "suffix_sorter \<Rightarrow> bytes \<Rightarrow> (u32 \<times> bytes) result" where
  "bwt_mtf_encode_parts libsais data =
     (case bwt_encode libsais data of
        Inl e \<Rightarrow> Inl (ResourceLimitExceeded e)
      | Inr (bwt_data, primary_index) \<Rightarrow> Inr (primary_index, mtf_encode bwt_data))"

definition bwt_mtf_encode :: "suffix_sorter \<Rightarrow> bytes \<Rightarrow> bytes result" where
  "bwt_mtf_encode libsais data =
     bindR (bwt_mtf_encode_parts libsais data) (\<lambda>(primary_index, mtf_data).
       Inr (u32_to_le primary_index @ mtf_data))"

definition bwt_mtf_decode_parts :: "u32 \<Rightarrow> bytes \<Rightarrow> nat \<Rightarrow> bytes result" where
  "bwt_mtf_decode_parts primary_index mtf_data expected_size =
     (if expected_size > MAX_BWT_DECODE_SIZE then
        Inl (Decompression ''BWT+MTF decode size {} exceeds safety limit {}'')
      else
        case bwt_decode (mtf_decode mtf_data) primary_index of
          Inl e \<Rightarrow> Inl (Decompression (''BWT decode failed: '' @ e))
        | Inr original \<Rightarrow>
            if length original \<noteq> expected_size then
              Inl (Decompression
                ''BWT+MTF decode size mismatch: got {}, expected {expected_size}'')
            else Inr original)"

definition bwt_mtf_decode :: "bytes \<Rightarrow> nat \<Rightarrow> bytes result" where
  "bwt_mtf_decode encoded expected_size =
     (if expected_size > MAX_BWT_DECODE_SIZE then
        Inl (Decompression ''BWT+MTF decode size {} exceeds safety limit {}'')
      else if length encoded < 4 then
        Inl (Decompression ''BWT+MTF data too short for primary index'')
      else
        let primary_index = u32_of_le (take 4 encoded);
            mtf_data = drop 4 encoded
        in if length mtf_data \<noteq> expected_size then
             Inl (Decompression ''BWT+MTF size mismatch: got {}, expected {expected_size}'')
           else bwt_mtf_decode_parts primary_index mtf_data expected_size)"

section \<open>The LF mapping\<close>

lemma length_count_bytes [simp]: "length (count_bytes freq bs) = length freq"
  by (induction bs arbitrary: freq) auto

lemma count_bytes_nth:
  "length freq = 256 \<Longrightarrow> c < 256 \<Longrightarrow>
   count_bytes freq bs ! c = freq ! c + length (filter (\<lambda>b. unat b = c) bs)"
  by (induction bs arbitrary: freq) (auto simp: nth_list_update)

lemma length_cumul_counts [simp]: "length (cumul_counts s cs) = length cs"
  by (induction cs arbitrary: s) auto

lemma cumul_counts_nth: "i < length cs \<Longrightarrow> cumul_counts s cs ! i = s + sum_list (take i cs)"
  by (induction cs arbitrary: s i) (auto simp: nth_Cons' take_Cons')

lemma length_filter_less_Suc:
  "length (filter (\<lambda>b. f b < Suc c) bs)
     = length (filter (\<lambda>b. f b < c) bs) + length (filter (\<lambda>b. f b = (c :: nat)) bs)"
  by (induction bs) (auto simp: less_Suc_eq)

lemma cumul_count_bytes_nth:
  assumes "c < 256"
  shows "cumul_counts 0 (count_bytes (replicate 256 0) bs) ! c
    = length (filter (\<lambda>b. unat b < c) bs)"
proof -
  have "sum_list (take c (count_bytes (replicate 256 0) bs)) = length (filter (\<lambda>b. unat b < c) bs)"
    if "c \<le> 256" for c
    using that
  proof (induction c)
    case (Suc c)
    then show ?case
      by (simp add: take_Suc_conv_app_nth count_bytes_nth length_filter_less_Suc)
  qed simp
  with assms show ?thesis by (simp add: cumul_counts_nth)
qed

text \<open>The mapping in mathematical terms: smaller bytes first, then equal bytes before this one.\<close>

definition LF :: "bytes \<Rightarrow> nat \<Rightarrow> nat" where
  "LF bwt k = length (filter (\<lambda>b. b < bwt ! k) bwt)
     + length (filter (\<lambda>b. b = bwt ! k) (take k bwt))"

lemma lf_loop_gen:
  assumes "length occ = 256" "\<And>c. c < 256 \<Longrightarrow> occ ! c = length (filter (\<lambda>b. unat b = c) pre)"
  shows "lf_loop entry cumul occ bs =
    map (\<lambda>k. entry (cumul ! unat (bs ! k)
           + length (filter (\<lambda>b. b = bs ! k) (pre @ take k bs))) (bs ! k)) [0..<length bs]"
  using assms
proof (induction bs arbitrary: occ pre)
  case (Cons b bs)
  let ?occ = "occ[unat b := occ ! unat b + 1]"
  have eq: "(unat x = unat b) = (x = b)" for x by (simp add: word_unat_eq_iff)
  have "lf_loop entry cumul ?occ bs =
    map (\<lambda>k. entry (cumul ! unat (bs ! k)
           + length (filter (\<lambda>b. b = bs ! k) ((pre @ [b]) @ take k bs))) (bs ! k)) [0..<length bs]"
    using Cons.prems by (intro Cons.IH) (auto simp: nth_list_update)
  moreover have "[0..<Suc (length bs)] = 0 # map Suc [0..<length bs]"
    by (simp add: map_Suc_upt upt_conv_Cons del: upt_Suc)
  ultimately show ?case
    using Cons.prems(2) [of "unat b"] by (simp add: eq del: upt_Suc)
qed simp

lemma lf_loop_LF:
  "lf_loop entry (cumul_counts 0 (count_bytes (replicate 256 0) bwt)) (replicate 256 0) bwt
     = map (\<lambda>k. entry (LF bwt k) (bwt ! k)) [0..<length bwt]"
  by (subst lf_loop_gen [where pre = "[]"])
    (simp_all add: LF_def cumul_count_bytes_nth word_less_nat_alt)

lemma length_filter_le:
  "length (filter (\<lambda>b. b < c) bs) + length (filter (\<lambda>b. b = c) bs)
     = length (filter (\<lambda>b. b \<le> (c :: 'a::linorder)) bs)"
  by (induction bs) auto

lemma length_filter_le_less:
  "length (filter (\<lambda>b. b < c) bs) + length (filter (\<lambda>b. b = c) bs) \<le> length (bs :: 'a::linorder list)"
  by (induction bs) auto

lemma length_filter_mono:
  "(\<And>x. x \<in> set xs \<Longrightarrow> P x \<Longrightarrow> Q x) \<Longrightarrow> length (filter P xs) \<le> length (filter Q xs)"
  by (induction xs) (auto simp: le_SucI)

lemma length_filter_take_less:
  assumes "k < length xs" "P (xs ! k)"
  shows "length (filter P (take k xs)) < length (filter P xs)"
proof -
  have "filter P xs = filter P (take k xs) @ xs ! k # filter P (drop (Suc k) xs)"
    using assms id_take_nth_drop [OF assms(1)] by (metis filter.simps(2) filter_append)
  then show ?thesis by simp
qed

lemma LF_upper:
  "k < length bwt \<Longrightarrow> LF bwt k < length (filter (\<lambda>b. b < bwt ! k) bwt)
     + length (filter (\<lambda>b. b = bwt ! k) bwt)"
  unfolding LF_def using length_filter_take_less [of k bwt "\<lambda>b. b = bwt ! k"] by simp

lemma LF_less: "k < length bwt \<Longrightarrow> LF bwt k < length bwt"
  using LF_upper length_filter_le_less [of "bwt ! k" bwt] by (meson less_le_trans)

lemma LF_inj: "inj_on (LF bwt) {..<length bwt}"
proof (rule linorder_inj_onI')
  fix i j
  assume ij: "i \<in> {..<length bwt}" "j \<in> {..<length bwt}" "i < j"
  have key: "LF bwt a < LF bwt b" if "a < length bwt" "bwt ! a < bwt ! b" for a b
  proof -
    have "length (filter (\<lambda>x. x < bwt ! a) bwt) + length (filter (\<lambda>x. x = bwt ! a) bwt)
        = length (filter (\<lambda>x. x \<le> bwt ! a) bwt)"
      by (rule length_filter_le)
    also have "\<dots> \<le> length (filter (\<lambda>x. x < bwt ! b) bwt)"
      using that(2) by (intro length_filter_mono) auto
    finally show ?thesis using LF_upper [OF that(1)] by (simp add: LF_def [of bwt b])
  qed
  show "LF bwt i \<noteq> LF bwt j"
  proof (cases "bwt ! i = bwt ! j")
    case True
    have "length (filter (\<lambda>b. b = bwt ! i) (take i (take j bwt)))
        < length (filter (\<lambda>b. b = bwt ! i) (take j bwt))"
      using ij by (intro length_filter_take_less) auto
    then show ?thesis using ij True by (simp add: LF_def min_def)
  next
    case False
    with key [of i j] key [of j i] ij show ?thesis by (metis lessThan_iff neq_iff)
  qed
qed

lemma LF_bij: "bij_betw (LF bwt) {..<length bwt} {..<length bwt}"
  using LF_inj LF_less
  by (metis bij_betw_def endo_inj_surj finite_lessThan image_subsetI lessThan_iff)

lemma LF_iter_less: "k < length bwt \<Longrightarrow> (LF bwt ^^ j) k < length bwt"
  by (induction j) (auto intro: LF_less)

end
