(* ===== verification/BwtInverse.thy ===== *)
theory BwtInverse
  imports Bwt
begin

text \<open>
  Why the inverse Burrows-Wheeler transform of \<open>Bwt\<close> gives the block back. The argument is about
  the sorted list of rotations as strings: the LF mapping takes the position of a rotation to the
  position of an equal copy of the rotation one step to the right. Periodic blocks have equal
  rotations and need no separate case. Each of the three walks is then a chain of such steps.
\<close>

section \<open>Sorted lists and buckets\<close>

lemma sorted_map_split:
  "sorted (map f xs) \<Longrightarrow>
   xs = filter (\<lambda>x. f x < c) xs @ filter (\<lambda>x. f x = c) xs @ filter (\<lambda>x. c < f x) xs"
proof (induction xs)
  case (Cons x xs)
  have IH: "xs = filter (\<lambda>x. f x < c) xs @ filter (\<lambda>x. f x = c) xs @ filter (\<lambda>x. c < f x) xs"
    using Cons by simp
  have ge: "\<forall>y \<in> set xs. f x \<le> f y" using Cons.prems by simp
  consider "f x < c" | "f x = c" | "c < f x" by fastforce
  then show ?case
  proof cases
    case 1
    then have "f x \<noteq> c" "\<not> c < f x" by auto
    with 1 IH show ?thesis by simp
  next
    case 2
    then have "filter (\<lambda>x. f x < c) xs = []" using ge by (auto simp: filter_empty_conv)
    with 2 IH show ?thesis by simp
  next
    case 3
    then have "filter (\<lambda>x. f x < c) xs = []" "filter (\<lambda>x. f x = c) xs = []"
      using ge by (auto simp: filter_empty_conv)
    moreover have "\<not> f x < c" "f x \<noteq> c" using 3 by auto
    ultimately show ?thesis using 3 IH by simp
  qed
qed simp

lemma sorted_map_bucket_nth:
  assumes "sorted (map f xs)" "j < length (filter (\<lambda>x. f x = c) xs)"
  shows "xs ! (length (filter (\<lambda>x. f x < c) xs) + j) = filter (\<lambda>x. f x = c) xs ! j"
  by (subst sorted_map_split [OF assms(1), of c]) (simp add: nth_append assms(2))

lemma filter_nth_rank:
  assumes "k < length xs" "P (xs ! k)"
  shows "filter P xs ! length (filter P (take k xs)) = xs ! k"
proof -
  have "filter P xs = filter P (take k xs) @ xs ! k # filter P (drop (Suc k) xs)"
    using assms id_take_nth_drop [OF assms(1)] by (metis filter.simps(2) filter_append)
  then show ?thesis by simp
qed

text \<open>
  Stable bucket sort: if \<open>M\<close> is sorted, \<open>L\<close> is a permutation of \<open>M\<close>, and within each bucket \<open>L\<close> is
  already in order, then the \<open>k\<close>th element of \<open>L\<close> stands in \<open>M\<close> at its bucket start plus its rank.
\<close>

lemma bucket_position:
  fixes M L :: "'a::linorder list" and f :: "'a \<Rightarrow> 'b::linorder"
  assumes "sorted M" "sorted (map f M)" "mset L = mset M"
    and bucket: "\<And>c. sorted (filter (\<lambda>w. f w = c) L)"
    and k: "k < length L" "f (L ! k) = c"
  shows "M ! (length (filter (\<lambda>w. f w < c) L) + length (filter (\<lambda>w. f w = c) (take k L))) = L ! k"
proof -
  have "mset (filter (\<lambda>w. f w = c) L) = mset (filter (\<lambda>w. f w = c) M)"
    by (simp only: mset_filter assms(3))
  then have eq: "filter (\<lambda>w. f w = c) L = filter (\<lambda>w. f w = c) M"
    using bucket [of c] sorted_filter [of id M] assms(1)
    by (metis properties_for_sort sorted_wrt_filter)
  have less: "length (filter (\<lambda>w. f w < c) L) = length (filter (\<lambda>w. f w < c) M)"
    by (metis assms(3) mset_filter size_mset)
  have "length (filter (\<lambda>w. f w = c) (take k L)) < length (filter (\<lambda>w. f w = c) L)"
    using k by (intro length_filter_take_less) auto
  then show ?thesis
    using sorted_map_bucket_nth [OF assms(2), of _ c] filter_nth_rank [of k L "\<lambda>w. f w = c"] k
    by (simp only: less eq)
qed

section \<open>Rotations\<close>

text \<open>Moving the last byte to the front undoes one left rotation.\<close>

definition rotR :: "'a list \<Rightarrow> 'a list" where
  "rotR w = last w # butlast w"

lemma rotate1_rotR: "w \<noteq> [] \<Longrightarrow> rotate1 (rotR w) = w"
  by (simp add: rotR_def)

lemma rotR_rotate1: "w \<noteq> [] \<Longrightarrow> rotR (rotate1 w) = w"
  by (cases w) (simp_all add: rotR_def)

lemma rotR_rotate_Suc: "w \<noteq> [] \<Longrightarrow> rotR (rotate (Suc i) w) = rotate i w"
  by (simp add: rotR_rotate1)

lemma last_rotate:
  assumes "xs \<noteq> []"
  shows "last (rotate i xs) = xs ! ((i + length xs - 1) mod length xs)"
proof -
  have "i + (length xs - 1) = i + length xs - 1" using assms by (cases xs) simp_all
  then show ?thesis using assms by (simp add: last_conv_nth nth_rotate add.commute)
qed

lemma take_list_mono:
  fixes xs ys :: "'a::linorder list"
  shows "xs \<le> ys \<Longrightarrow> take n xs \<le> take n ys"
proof (induction n arbitrary: xs ys)
  case (Suc n)
  then show ?case by (cases xs; cases ys) auto
qed simp

section \<open>The encoder's output\<close>

text \<open>What \<open>libsais\<close> documents: all suffix positions, in the order of the suffixes.\<close>

definition suffix_array_of :: "bytes \<Rightarrow> nat list \<Rightarrow> bool" where
  "suffix_array_of text sa \<longleftrightarrow>
     mset sa = mset [0..<length text] \<and> sorted_wrt (\<lambda>i j. drop i text \<le> drop j text) sa"

definition sais_ok :: "suffix_sorter \<Rightarrow> bool" where
  "sais_ok libsais \<longleftrightarrow> (\<forall>text sa. libsais text = Some sa \<longrightarrow> suffix_array_of text sa)"

definition rotation_order :: "bytes \<Rightarrow> nat list \<Rightarrow> nat list" where
  "rotation_order data sa = filter (\<lambda>i. i < length data) sa"

lemma mset_rotation_order:
  assumes "suffix_array_of (data @ data) sa"
  shows "mset (rotation_order data sa) = mset [0..<length data]"
proof -
  have "mset (rotation_order data sa) = mset (filter (\<lambda>i. i < length data) [0..<length (data @ data)])"
    using assms by (simp add: rotation_order_def suffix_array_of_def del: upt_Suc)
  then show ?thesis by (simp only: length_append) (subst filter_upt_less, simp_all)
qed

lemma rotation_order_sorted:
  assumes "suffix_array_of (data @ data) sa"
  shows "sorted (map (\<lambda>i. rotate i data) (rotation_order data sa))"
proof -
  have rot: "rotate i data = take (length data) (drop i (data @ data))" if "i < length data" for i
    using that by (simp add: rotate_drop_take)
  have "sorted_wrt (\<lambda>i j. drop i (data @ data) \<le> drop j (data @ data)) (rotation_order data sa)"
    using assms by (simp add: rotation_order_def suffix_array_of_def sorted_wrt_filter)
  then have "sorted_wrt (\<lambda>i j. rotate i data \<le> rotate j data) (rotation_order data sa)"
    by (rule sorted_wrt_mono_rel [rotated])
      (simp add: rotation_order_def rot take_list_mono del: drop_append)
  then show ?thesis by (simp add: sorted_map)
qed

text \<open>The scan writes the byte before each rotation, and notes where position 0 stands.\<close>

lemma bwt_scan_gen:
  assumes "0 < length data" "length bwt + length (rotation_order data sa) = length data"
    "sa \<noteq> [] \<longrightarrow> length bwt < length data" "distinct sa"
  shows "bwt_scan data sa bwt p =
    (bwt @ map (\<lambda>i. last (rotate i data)) (rotation_order data sa),
     if 0 \<in> set (rotation_order data sa)
     then of_nat (length bwt + length (takeWhile (\<lambda>i. i \<noteq> 0) (rotation_order data sa))) else p)"
  using assms
proof (induction sa arbitrary: bwt p)
  case Nil
  then show ?case by (simp add: rotation_order_def)
next
  case (Cons pos sa)
  have ne: "data \<noteq> []" using Cons.prems(1) by auto
  show ?case
  proof (cases "pos < length data")
    case False
    then have o: "rotation_order data (pos # sa) = rotation_order data sa"
      by (simp add: rotation_order_def)
    show ?thesis
      using False Cons.prems by (simp add: o Cons.IH)
  next
    case True
    then have o: "rotation_order data (pos # sa) = pos # rotation_order data sa"
      by (simp add: rotation_order_def)
    let ?bwt = "bwt @ [data ! ((pos + length data - 1) mod length data)]"
    have b: "last (rotate pos data) = data ! ((pos + length data - 1) mod length data)"
      by (rule last_rotate [OF ne])
    show ?thesis
    proof (cases "length ?bwt = length data")
      case full: True
      then have "length (rotation_order data sa) = 0"
        using Cons.prems(2) unfolding o length_append list.size by linarith
      then have "rotation_order data sa = []" by (simp only: length_0_conv)
      then show ?thesis using True full o by (cases "pos = 0") (simp_all add: b Let_def, simp add: last_conv_nth ne)
    next
      case more: False
      have "length ?bwt < length data" using Cons.prems(2) more o by simp
      then show ?thesis
        using True more Cons.prems o
        by (cases "pos = 0")
          (auto simp: b Let_def Cons.IH rotation_order_def simp del: rotate_Suc, simp add: last_conv_nth ne)
    qed
  qed
qed


section \<open>The rotation table\<close>

text \<open>
  What the decoder can rely on: \<open>M\<close> is the sorted table of all rotations of \<open>data\<close>, \<open>bwt\<close> its last
  column, and row \<open>p\<close> is the block itself.
\<close>

definition rotation_table :: "bytes \<Rightarrow> bytes list \<Rightarrow> bytes \<Rightarrow> nat \<Rightarrow> bool" where
  "rotation_table data M bwt p \<longleftrightarrow>
     data \<noteq> [] \<and> sorted M \<and> mset M = mset (map (\<lambda>i. rotate i data) [0..<length data])
     \<and> bwt = map last M \<and> p < length M \<and> M ! p = data"

lemma rotation_table_length:
  assumes "rotation_table data M bwt p"
  shows "length M = length data" "length bwt = length data" "w \<in> set M \<Longrightarrow> length w = length data"
proof -
  have m: "mset M = mset (map (\<lambda>i. rotate i data) [0..<length data])"
    using assms by (simp add: rotation_table_def)
  show "length M = length data" using mset_eq_length [OF m] by simp
  then show "length bwt = length data" using assms by (simp add: rotation_table_def)
  show "length w = length data" if "w \<in> set M"
    using that mset_eq_setD [OF m] by auto
qed

lemma rotation_table_rotR:
  assumes "data \<noteq> []"
  shows "mset (map rotR (map (\<lambda>i. rotate i data) [0..<length data]))
    = mset (map (\<lambda>i. rotate i data) [0..<length data])"
proof -
  obtain m where m: "length data = Suc m" using assms by (cases data) auto
  have r0: "rotR (rotate 0 data) = rotate m data"
    using rotR_rotate_Suc [OF assms, of m] m [symmetric] by simp
  have rS: "rotR (rotate (Suc i) data) = rotate i data" for i
    by (rule rotR_rotate_Suc [OF assms])
  have "[0..<length data] = 0 # map Suc [0..<m]"
    by (simp add: m map_Suc_upt upt_conv_Cons del: upt_Suc)
  then have "map rotR (map (\<lambda>i. rotate i data) [0..<length data])
      = rotate m data # map (\<lambda>i. rotate i data) [0..<m]"
    by (simp only: list.map r0 map_map o_def rS)
  also have "mset \<dots> = mset (map (\<lambda>i. rotate i data) ([0..<m] @ [m]))" by simp
  finally show ?thesis using m by (simp only: upt_Suc_append zero_le)
qed

text \<open>The heart of the matter: one LF step is one rotation to the right.\<close>

lemma rotation_table_LF:
  assumes t: "rotation_table data M bwt p" and k: "k < length data"
  shows "M ! LF bwt k = rotR (M ! k)"
proof -
  let ?L = "map rotR M"
  note len = rotation_table_length [OF t]
  have ne: "data \<noteq> []" and sorted: "sorted M"
    and m: "mset M = mset (map (\<lambda>i. rotate i data) [0..<length data])" and bwt: "bwt = map last M"
    using t by (simp_all add: rotation_table_def)
  have nonempty: "w \<noteq> []" if "w \<in> set M" for w
    using len(3) [OF that] ne by auto
  have "mset ?L = image_mset rotR (mset M)" by simp
  also have "\<dots> = mset M" using rotation_table_rotR [OF ne] by (simp only: m mset_map [symmetric])
  finally have perm: "mset ?L = mset M" .
  have hdm: "sorted (map hd M)"
    using sorted unfolding sorted_map
  proof (rule sorted_wrt_mono_rel [rotated])
    fix u v assume "u \<in> set M" "v \<in> set M" "u \<le> v"
    moreover from this nonempty have "u \<noteq> []" "v \<noteq> []" by blast+
    ultimately show "hd u \<le> hd v" by (auto simp: neq_Nil_conv)
  qed
  have "sorted_wrt (\<lambda>u v. hd (rotR u) = hd (rotR v) \<longrightarrow> rotR u \<le> rotR v) M"
    using sorted
  proof (rule sorted_wrt_mono_rel [rotated])
    fix u v assume uv: "u \<in> set M" "v \<in> set M" "u \<le> v"
    then have "butlast u \<le> butlast v"
      using len(3) take_list_mono [of u v "length data - 1"] by (simp add: butlast_conv_take)
    then show "hd (rotR u) = hd (rotR v) \<longrightarrow> rotR u \<le> rotR v" by (simp add: rotR_def)
  qed
  then have lw: "sorted_wrt (\<lambda>u v. hd u = hd v \<longrightarrow> u \<le> v) ?L" by (simp add: sorted_wrt_map)
  have bucket: "sorted (filter (\<lambda>w. hd w = c) ?L)" for c
    using sorted_wrt_filter [OF lw, of "\<lambda>w. hd w = c"]
    by (rule sorted_wrt_mono_rel [rotated]) auto
  have hdL: "hd (rotR w) = last w" for w by (simp add: rotR_def)
  have kL: "k < length ?L" "hd (?L ! k) = bwt ! k" using k len bwt by (simp_all add: hdL)
  have "length (filter (\<lambda>w. hd w < bwt ! k) ?L) = length (filter (\<lambda>b. b < bwt ! k) bwt)"
    by (subst (2) bwt) (simp add: filter_map o_def hdL)
  moreover have "length (filter (\<lambda>w. hd w = bwt ! k) (take k ?L))
      = length (filter (\<lambda>b. b = bwt ! k) (take k bwt))"
    by (subst (2) bwt) (simp add: take_map filter_map o_def hdL)
  ultimately have "M ! LF bwt k = ?L ! k"
    using bucket_position [OF sorted hdm perm bucket kL] by (simp add: LF_def)
  then show ?thesis using k len by simp
qed

lemma rotation_table_bwt:
  assumes t: "rotation_table data M bwt p" and "k < length data" "M ! k = rotate i data"
  shows "bwt ! k = data ! ((i + length data - 1) mod length data)"
  using assms rotation_table_length [OF t] last_rotate [of data i]
  by (simp add: rotation_table_def)

lemma rotation_table_back:
  assumes t: "rotation_table data M bwt p" and "j < length data"
  shows "M ! ((LF bwt ^^ j) p) = rotate (length data - j) data"
    and "bwt ! ((LF bwt ^^ j) p) = data ! (length data - 1 - j)"
proof -
  let ?n = "length data"
  note len = rotation_table_length [OF t]
  have p: "p < length bwt" "M ! p = data" and ne: "data \<noteq> []"
    using t len by (auto simp: rotation_table_def)
  have *: "M ! ((LF bwt ^^ j) p) = rotate (?n - j) data" if "j < ?n" for j
    using that
  proof (induction j)
    case 0
    then show ?case using p by simp
  next
    case (Suc j)
    have "M ! LF bwt ((LF bwt ^^ j) p) = rotR (M ! ((LF bwt ^^ j) p))"
      using LF_iter_less [OF p(1)] len by (intro rotation_table_LF [OF t]) simp
    also have "\<dots> = rotR (rotate (Suc (?n - Suc j)) data)"
      using Suc by (simp add: Suc_diff_Suc)
    also have "\<dots> = rotate (?n - Suc j) data" by (rule rotR_rotate_Suc [OF ne])
    finally show ?case by simp
  qed
  then show "M ! ((LF bwt ^^ j) p) = rotate (?n - j) data" using assms(2) by simp
  have "?n - j + ?n - 1 = ?n - 1 - j + ?n" using assms(2) by linarith
  then have "(?n - j + ?n - 1) mod ?n = ?n - 1 - j"
    using assms(2) by (simp only: mod_add_self2) simp
  then show "bwt ! ((LF bwt ^^ j) p) = data ! (?n - 1 - j)"
    using rotation_table_bwt [OF t _ * [OF assms(2)]] LF_iter_less [OF p(1), of j] len by simp
qed


section \<open>The three walks\<close>

lemma walk_lf_eq:
  assumes "\<And>k. k < length bwt \<Longrightarrow> lf ! k = LF bwt k" "idx < length bwt"
  shows "walk_lf bwt lf m idx out = rev (map (\<lambda>j. bwt ! ((LF bwt ^^ j) idx)) [0..<m]) @ out"
  using assms(2)
proof (induction m arbitrary: idx out)
  case (Suc m)
  have "[0..<Suc m] = 0 # map Suc [0..<m]"
    by (simp add: map_Suc_upt upt_conv_Cons del: upt_Suc)
  then have "map (\<lambda>j. bwt ! ((LF bwt ^^ j) idx)) [0..<Suc m]
      = bwt ! idx # map (\<lambda>j. bwt ! ((LF bwt ^^ j) (LF bwt idx))) [0..<m]"
    by (simp only: list.map map_map o_def funpow_Suc_right) simp
  then show ?case
    using Suc assms(1) LF_less by (simp del: upt_Suc)
qed simp

text \<open>Packing loses nothing while the mapping fits in 24 bits.\<close>

lemma pack_lf_byte: "ucast (pack_lf lf b) = b"
  by (rule bit_word_eqI) (auto simp: pack_lf_def bit_simps)

lemma pack_lf_index:
  assumes "lf < 2 ^ 24"
  shows "unat (drop_bit 8 (pack_lf lf b)) = lf"
proof -
  have "drop_bit 8 (pack_lf lf b) = (of_nat lf :: u32)"
  proof (rule bit_word_eqI)
    fix n assume n: "n < LENGTH(32)"
    have "\<not> bit lf m" if "24 \<le> m" for m
      using assms that by (metis bit_take_bit_iff leD take_bit_nat_eq_self)
    moreover have "\<not> bit b (8 + n)" using bit_imp_le_length [of b "8 + n"] by auto
    ultimately show "bit (drop_bit 8 (pack_lf lf b)) n = bit (of_nat lf :: u32) n"
      using n not_le_imp_less [of 24 n]
      by (auto simp: pack_lf_def bit_simps add.commute simp del: not_le) (meson not_le_imp_less)+
  qed
  then show ?thesis using assms by (simp add: unat_of_nat)
qed

lemma walk_packed_eq:
  assumes "length bwt \<le> 2 ^ 24" "\<And>k. k < length bwt \<Longrightarrow> fwd ! k = pack_lf (LF bwt k) (bwt ! k)"
    "idx < length bwt"
  shows "walk_packed fwd m idx out = rev (map (\<lambda>j. bwt ! ((LF bwt ^^ j) idx)) [0..<m]) @ out"
proof -
  have step: "ucast (fwd ! k) = bwt ! k" "unat (drop_bit 8 (fwd ! k)) = LF bwt k"
    if "k < length bwt" for k
    using assms(2) [OF that] LF_less [OF that] assms(1)
    by (simp_all add: pack_lf_byte pack_lf_index)
  have "walk_packed fwd m idx out = walk_lf bwt (map (LF bwt) [0..<length bwt]) m idx out"
    using assms(3)
    by (induction m arbitrary: idx out) (simp_all add: step LF_less Let_def)
  then show ?thesis using assms(3) by (simp add: walk_lf_eq)
qed

text \<open>The inverse table sends \<open>LF k\<close> back to \<open>k\<close>.\<close>

lemma length_invert_chain [simp]: "length (invert_chain i ps tab) = length tab"
  by (induction ps arbitrary: i tab) auto

lemma pack_lf_low_byte: "push_bit 8 (of_nat i) OR (pack_lf lf b AND 0xFF) = pack_lf i b"
proof -
  have "pack_lf lf b AND 0xFF = ucast b"
  proof (rule bit_word_eqI)
    fix n assume n: "n < LENGTH(32)"
    have m: "(0xFF :: u32) = mask 8" by (simp add: mask_eq_exp_minus_1)
    have "bit b n \<Longrightarrow> n < 8" using bit_imp_le_length [of b n] by simp
    then show "bit (pack_lf lf b AND 0xFF) n = bit (ucast b :: u32) n"
      unfolding m pack_lf_def using n by (auto simp: bit_simps)
  qed
  then show ?thesis by (simp add: pack_lf_def)
qed

lemma invert_chain_nth:
  assumes "inj_on g {i..<i + m}" "\<And>k. k \<in> {i..<i + m} \<Longrightarrow> g k < length tab \<and> g k < 2 ^ 24"
  shows "(\<forall>k \<in> {i..<i + m}. invert_chain i (map (\<lambda>k. pack_lf (g k) (c k)) [i..<i + m]) tab ! g k
            = pack_lf k (c k))
       \<and> (\<forall>x. x \<notin> g ` {i..<i + m} \<longrightarrow>
            invert_chain i (map (\<lambda>k. pack_lf (g k) (c k)) [i..<i + m]) tab ! x = tab ! x)"
  using assms
proof (induction m arbitrary: i tab)
  case (Suc m)
  let ?tab = "tab[g i := pack_lf i (c i)]"
  have upt: "[i..<i + Suc m] = i # [Suc i..<Suc i + m]"
    by (simp add: upt_conv_Cons del: upt_Suc)
  have set: "{i..<i + Suc m} = insert i {Suc i..<Suc i + m}" by auto
  have gi: "g i < length tab" "g i < 2 ^ 24" using Suc.prems(2) [of i] by auto
  have notin: "g i \<notin> g ` {Suc i..<Suc i + m}"
  proof
    assume "g i \<in> g ` {Suc i..<Suc i + m}"
    then obtain x where x: "g i = g x" "x \<in> {Suc i..<Suc i + m}" by blast
    then have "i = x" using Suc.prems(1) by (elim inj_onD) auto
    with x show False by simp
  qed
  have eq: "invert_chain i (map (\<lambda>k. pack_lf (g k) (c k)) [i..<i + Suc m]) tab
      = invert_chain (Suc i) (map (\<lambda>k. pack_lf (g k) (c k)) [Suc i..<Suc i + m]) ?tab"
    by (simp only: upt list.map invert_chain.simps pack_lf_index [OF gi(2)] pack_lf_low_byte)
  have "inj_on g {Suc i..<Suc i + m}" using Suc.prems(1) by (rule inj_on_subset) auto
  then have IH:
    "(\<forall>k \<in> {Suc i..<Suc i + m}.
        invert_chain (Suc i) (map (\<lambda>k. pack_lf (g k) (c k)) [Suc i..<Suc i + m]) ?tab ! g k
          = pack_lf k (c k))
     \<and> (\<forall>x. x \<notin> g ` {Suc i..<Suc i + m} \<longrightarrow>
        invert_chain (Suc i) (map (\<lambda>k. pack_lf (g k) (c k)) [Suc i..<Suc i + m]) ?tab ! x
          = ?tab ! x)"
    using Suc.prems(2) by (intro Suc.IH) auto
  then show ?case unfolding eq set using gi notin by (auto simp: nth_list_update)
qed simp


text \<open>What the single chain writes: the block read backwards along the mapping.\<close>

definition lf_chain :: "bytes \<Rightarrow> nat \<Rightarrow> bytes" where
  "lf_chain bwt p = rev (map (\<lambda>j. bwt ! ((LF bwt ^^ j) p)) [0..<length bwt])"

lemma length_lf_chain [simp]: "length (lf_chain bwt p) = length bwt"
  by (simp add: lf_chain_def)

lemma lf_chain_nth: "i < length bwt \<Longrightarrow> lf_chain bwt p ! i = bwt ! ((LF bwt ^^ (length bwt - 1 - i)) p)"
  by (simp add: lf_chain_def rev_nth del: upt_Suc)

text \<open>
  The chain that walks the inverse table writes the same block from its front, provided the cycle
  through the primary index closes after the length of the block.
\<close>

lemma two_chain_walk_eq:
  assumes p: "p < length bwt" and cycle: "(LF bwt ^^ length bwt) p = p" and small: "length bwt \<le> 2 ^ 24"
    and forward: "\<And>k. k < length bwt \<Longrightarrow> fwd_tab ! k = pack_lf (LF bwt k) (bwt ! k)"
    and backward: "\<And>k. k < length bwt \<Longrightarrow> inv_tab ! LF bwt k = pack_lf k (bwt ! k)"
    and "2 * (k + m) \<le> length bwt" "length out = length bwt"
    and "bck = (LF bwt ^^ k) p" "fwd = (LF bwt ^^ (length bwt - k)) p"
    and "\<And>i. i < k \<Longrightarrow> out ! i = lf_chain bwt p ! i
      \<and> out ! (length bwt - 1 - i) = lf_chain bwt p ! (length bwt - 1 - i)"
    and walk: "two_chain_walk fwd_tab inv_tab m k bck fwd out = (bck', out')"
  shows "bck' = (LF bwt ^^ (k + m)) p \<and> length out' = length bwt
    \<and> (\<forall>i < k + m. out' ! i = lf_chain bwt p ! i
        \<and> out' ! (length bwt - 1 - i) = lf_chain bwt p ! (length bwt - 1 - i))"
  using assms(6-11)
proof (induction m arbitrary: k bck fwd out)
  case 0
  then show ?case by simp
next
  case (Suc m)
  let ?n = "length bwt" and ?data = "lf_chain bwt p"
  have k: "k < ?n" and disj: "k \<noteq> ?n - 1 - k" and kn: "?n - 1 - k < ?n"
    using Suc.prems(1) by auto
  define q where "q = (LF bwt ^^ (?n - Suc k)) p"
  have q: "q < ?n" "LF bwt q = fwd"
    using LF_iter_less [OF p] Suc.prems(4) k by (simp_all add: q_def Suc_diff_Suc flip: funpow.simps(2) o_apply [of "LF bwt"])
  have bk: "bck < ?n" using Suc.prems(3) LF_iter_less [OF p] by simp
  have b: "ucast (fwd_tab ! bck) = ?data ! (?n - 1 - k)" "unat (drop_bit 8 (fwd_tab ! bck)) = (LF bwt ^^ Suc k) p"
    using forward [OF bk] LF_less [OF bk] kn k small Suc.prems(3)
    by (simp_all add: pack_lf_byte pack_lf_index lf_chain_nth)
  have f: "ucast (inv_tab ! fwd) = ?data ! k" "unat (drop_bit 8 (inv_tab ! fwd)) = q"
    using backward [OF q(1)] q small k by (simp_all add: pack_lf_byte pack_lf_index lf_chain_nth q_def)
  let ?out = "out[?n - 1 - k := ?data ! (?n - 1 - k), k := ?data ! k]"
  have walk: "two_chain_walk fwd_tab inv_tab m (Suc k) ((LF bwt ^^ Suc k) p) q ?out = (bck', out')"
    using Suc.prems(6) unfolding two_chain_walk.simps Let_def Suc.prems(2) b f .
  have inv: "?out ! i = ?data ! i \<and> ?out ! (?n - 1 - i) = ?data ! (?n - 1 - i)" if "i < Suc k" for i
  proof (cases "i = k")
    case True
    then show ?thesis using disj k kn Suc.prems(2) by (simp add: nth_list_update)
  next
    case False
    then show ?thesis
      using that Suc.prems(1,2) Suc.prems(5) [of i] by (auto simp: nth_list_update)
  qed
  show ?case
    using Suc.IH [of "Suc k" ?out "(LF bwt ^^ Suc k) p" q] Suc.prems(1,2) inv walk by (simp add: q_def)
qed

lemma half_cases:
  fixes i n :: nat
  assumes "i < n"
  shows "i < n div 2 \<or> n - 1 - i < n div 2 \<or> i = n div 2 \<and> n mod 2 = 1"
proof -
  have "n = 2 * (n div 2) + n mod 2" "n mod 2 < 2" by simp_all
  with assms show ?thesis by linarith
qed

text \<open>
  Every walk writes that block: the single chains on any bytes, with or without the packed table,
  and the two chains when the cycle closes.
\<close>

lemma bwt_decode_with_chain:
  assumes p: "unat primary < length bwt" and packed: "max_packed_lf \<le> 2 ^ 24"
    and ok: "length bwt \<le> two_chain_min \<or> (LF bwt ^^ length bwt) (unat primary) = unat primary"
  shows "bwt_decode_with bwt primary two_chain_min max_packed_lf = Inr (lf_chain bwt (unat primary))"
proof -
  let ?n = "length bwt" and ?p = "unat primary"
  have ne: "bwt \<noteq> []" using p by auto
  let ?cumul = "cumul_counts 0 (count_bytes (replicate 256 0) bwt)"
  let ?lf = "lf_loop (\<lambda>lf b. lf) ?cumul (replicate 256 0) bwt"
  let ?fwd = "lf_loop pack_lf ?cumul (replicate 256 0) bwt"
  have lf: "?lf ! k = LF bwt k" if "k < length bwt" for k
    using that by (simp add: lf_loop_LF)
  have fwd: "?fwd ! k = pack_lf (LF bwt k) (bwt ! k)" if "k < length bwt" for k
    using that by (simp add: lf_loop_LF)
  note dec = bwt_decode_with_def Let_def
  consider "max_packed_lf < ?n" | "?n \<le> max_packed_lf" "?n \<le> two_chain_min"
    | "?n \<le> max_packed_lf" "two_chain_min < ?n" by linarith
  then show ?thesis
  proof cases
    case 1
    then show ?thesis
      using ne p walk_lf_eq [of bwt ?lf ?p ?n "[]"] lf by (simp add: dec lf_chain_def)
  next
    case 2
    then have "length bwt \<le> 2 ^ 24" using packed by simp
    then show ?thesis
      using 2 ne p walk_packed_eq [of bwt ?fwd ?p ?n "[]"] fwd by (simp add: dec lf_chain_def)
  next
    case 3
    then have small: "?n \<le> 2 ^ 24" and cycle: "(LF bwt ^^ ?n) ?p = ?p" using packed ok by simp_all
    let ?tab = "invert_chain 0 ?fwd (replicate ?n 0)"
    obtain bck out where w: "two_chain_walk ?fwd ?tab (?n div 2) 0 ?p ?p (replicate ?n 0) = (bck, out)"
      by fastforce
    have fwd_map: "?fwd = map (\<lambda>k. pack_lf (LF bwt k) (bwt ! k)) [0..<0 + ?n]"
      by (simp add: lf_loop_LF)
    have inj: "inj_on (LF bwt) {0..<0 + ?n}"
      using LF_inj [of bwt] by (simp add: atLeast0LessThan)
    have bound: "LF bwt k < length (replicate ?n (0 :: u32)) \<and> LF bwt k < 2 ^ 24"
      if "k \<in> {0..<0 + ?n}" for k
      using LF_less [of k bwt] that small by auto
    have tab: "?tab ! LF bwt k = pack_lf k (bwt ! k)" if "k < ?n" for k
      using invert_chain_nth [OF inj bound, of "\<lambda>k. bwt ! k"] that by (simp add: fwd_map)
    let ?data = "lf_chain bwt ?p"
    have res: "bck = (LF bwt ^^ (?n div 2)) ?p" "length out = ?n"
        "\<And>i. i < ?n div 2 \<Longrightarrow> out ! i = ?data ! i \<and> out ! (?n - 1 - i) = ?data ! (?n - 1 - i)"
      using two_chain_walk_eq [OF p cycle small fwd tab _ _ _ _ _ w] cycle by simp_all
    let ?res = "if ?n mod 2 = 1 then out[?n div 2 := ucast (?fwd ! bck)] else out"
    have "?res = ?data"
    proof (rule nth_equalityI)
      fix i assume "i < length ?res"
      then have i: "i < ?n" using res(2) by (simp split: if_splits)
      have mid: "ucast (?fwd ! bck) = ?data ! (?n div 2)" if "?n mod 2 = 1"
      proof -
        have "?n div 2 < ?n" "?n - 1 - ?n div 2 = ?n div 2" using that by presburger+
        then show ?thesis
          using fwd [of bck] res(1) LF_iter_less [of ?p bwt "?n div 2"] p by (simp add: pack_lf_byte lf_chain_nth)
      qed
      consider "i < ?n div 2" | "?n - 1 - i < ?n div 2" | "i = ?n div 2" "?n mod 2 = 1"
        using half_cases [OF i] by blast
      then show "?res ! i = ?data ! i"
      proof cases
        case 1
        then show ?thesis using res(3) [of i] by simp
      next
        case 2
        moreover have "?n - 1 - (?n - 1 - i) = i" using i by linarith
        moreover have "?n = 2 * (?n div 2) + ?n mod 2" by simp
        ultimately have "?n - 1 - (?n - 1 - i) = i" "?n mod 2 = 1 \<longrightarrow> i \<noteq> ?n div 2"
          by linarith+
        then show ?thesis using res(3) [OF 2] by (auto simp: nth_list_update)
      next
        case 3
        then show ?thesis using mid res(2) i by simp
      qed
    qed (simp add: res(2))
    then show ?thesis
      using 3 ne p w by (simp add: dec)
  qed
qed

section \<open>Cycles of the encoder's output\<close>

text \<open>
  Periodic blocks have equal rotations and their mapping is not one cycle. It still closes after the
  length of the block: it keeps the order of equal rows, so it maps every bundle of them to itself
  row by row.
\<close>

lemma strict_mono_self_map:
  fixes f :: "nat \<Rightarrow> nat"
  assumes "finite S" "f ` S \<subseteq> S" and mono: "\<And>x y. x \<in> S \<Longrightarrow> y \<in> S \<Longrightarrow> x < y \<Longrightarrow> f x < f y" and "x \<in> S"
  shows "f x = x"
proof -
  have ge: "x \<le> f x" if "x \<in> S" for x
    using that
  proof (induction x rule: less_induct)
    case (less x)
    then show ?case using mono [of "f x" x] assms(2) by (metis image_subset_iff leD leI)
  qed
  have inj: "inj_on f S" using mono by (metis inj_onI less_irrefl linorder_neqE_nat)
  then have "f ` S = S" using assms(1,2) by (rule endo_inj_surj [rotated 2])
  then have "sum (\<lambda>x. x) S = sum f S" using sum.reindex [OF inj, of "\<lambda>x. x"] by simp
  from sum_mono_inv [OF this ge assms(4,1)] show ?thesis by simp
qed

lemma rotation_table_rows:
  assumes t: "rotation_table data M bwt p" and i: "i < length data"
  shows "M ! ((LF bwt ^^ j) i) = (rotR ^^ j) (M ! i)"
  using rotation_table_LF [OF t] LF_iter_less [of i bwt] rotation_table_length(2) [OF t] i
  by (induction j) simp_all

lemma rotation_table_equal_rows:
  assumes t: "rotation_table data M bwt p" and ij: "i < j" "j < length data" "M ! i = M ! j"
  shows "(LF bwt ^^ k) i < (LF bwt ^^ k) j"
proof (induction k)
  case (Suc k)
  note len = rotation_table_length [OF t]
  let ?i = "(LF bwt ^^ k) i" and ?j = "(LF bwt ^^ k) j"
  have lt: "?i < ?j" "?j < length bwt" using Suc LF_iter_less [of j bwt] ij len by simp_all
  have "M ! ?i = M ! ?j" using rotation_table_rows [OF t] ij by simp
  then have eq: "bwt ! ?i = bwt ! ?j" using t lt len by (simp add: rotation_table_def)
  have "length (filter (\<lambda>b. b = bwt ! ?i) (take ?i (take ?j bwt))) < length (filter (\<lambda>b. b = bwt ! ?i) (take ?j bwt))"
    using lt by (intro length_filter_take_less) auto
  moreover have "LF bwt ?i = length (filter (\<lambda>b. b < bwt ! ?j) bwt) + length (filter (\<lambda>b. b = bwt ! ?i) (take ?i bwt))"
    "LF bwt ?j = length (filter (\<lambda>b. b < bwt ! ?j) bwt) + length (filter (\<lambda>b. b = bwt ! ?i) (take ?j bwt))"
    by (simp_all only: LF_def eq)
  ultimately have "LF bwt ?i < LF bwt ?j" using lt by (simp add: min_def)
  then show ?case by simp
qed (use ij in simp)

lemma rotation_table_cycle:
  assumes t: "rotation_table data M bwt p"
  shows "(LF bwt ^^ length data) p = p"
proof -
  let ?n = "length data" and ?f = "LF bwt ^^ length data"
  note len = rotation_table_length [OF t]
  have p: "p < ?n" "M ! p = data" and ne: "data \<noteq> []" using t len by (auto simp: rotation_table_def)
  obtain m where m: "?n = Suc m" using ne by (cases data) auto
  have rot1: "M ! ((LF bwt ^^ m) p) = rotate 1 data" using rotation_table_back(1) [OF t, of m] m by simp
  have "M ! ?f p = rotR (M ! ((LF bwt ^^ m) p))"
    using rotation_table_LF [OF t] LF_iter_less [of p bwt m] p len by (simp add: m)
  also have "\<dots> = data" using rotR_rotate_Suc [OF ne, of 0] by (simp add: rot1)
  finally have "(rotR ^^ ?n) data = data" using rotation_table_rows [OF t p(1), of ?n] p(2) by simp
  then have rows: "M ! ?f i = data" if "i < ?n" "M ! i = data" for i
    using rotation_table_rows [OF t that(1), of ?n] that(2) by simp
  let ?S = "{i. i < ?n \<and> M ! i = data}"
  show ?thesis
  proof (rule strict_mono_self_map [of ?S])
    show "?f ` ?S \<subseteq> ?S" using rows LF_iter_less [of _ bwt ?n] len by auto
    show "?f x < ?f y" if "x \<in> ?S" "y \<in> ?S" "x < y" for x y
      using rotation_table_equal_rows [OF t that(3), of ?n] that by simp
  qed (use p in simp_all)
qed

lemma rotation_table_chain:
  assumes t: "rotation_table data M bwt p"
  shows "lf_chain bwt p = data"
proof (rule nth_equalityI)
  note len = rotation_table_length [OF t]
  show "length (lf_chain bwt p) = length data" by (simp add: len)
  fix i assume "i < length (lf_chain bwt p)"
  then have i: "i < length data" by (simp add: len)
  then have "length data - 1 - (length data - 1 - i) = i" by linarith
  then show "lf_chain bwt p ! i = data ! i"
    using rotation_table_back(2) [OF t, of "length data - 1 - i"] i len by (simp add: lf_chain_nth)
qed

lemma bwt_decode_with_rotation_table:
  assumes t: "rotation_table data M bwt (unat primary)" and packed: "max_packed_lf \<le> 2 ^ 24"
  shows "bwt_decode_with bwt primary two_chain_min max_packed_lf = Inr data"
proof -
  have "unat primary < length bwt" using t by (simp add: rotation_table_def)
  then show ?thesis
    using bwt_decode_with_chain [OF _ packed] rotation_table_cycle [OF t] rotation_table_chain [OF t]
      rotation_table_length(2) [OF t] by simp
qed

section \<open>Round trips\<close>

lemma bwt_encode_scan:
  assumes "bwt_encode libsais data = Inr (bwt, primary)" "data \<noteq> []" "length data \<noteq> 1"
  obtains sa where "length data \<le> MAX_BWT_INPUT_SIZE" "libsais (data @ data) = Some sa"
    "bwt_scan data sa [] 0 = (bwt, primary)"
proof -
  have "\<not> MAX_BWT_INPUT_SIZE < length data"
    using assms by (simp add: bwt_encode_def Let_def split: if_splits)
  with that assms show ?thesis
    by (cases "libsais (data @ data)") (simp_all add: bwt_encode_def Let_def)
qed

lemma takeWhile_first:
  assumes "x \<in> set xs"
  shows "length (takeWhile (\<lambda>y. y \<noteq> x) xs) < length xs"
    and "xs ! length (takeWhile (\<lambda>y. y \<noteq> x) xs) = x"
  using assms by (induction xs) auto

text \<open>The encoder's output is a rotation table's last column, with the row of the block.\<close>

lemma bwt_encode_rotation_table:
  assumes "sais_ok libsais" "bwt_encode libsais data = Inr (bwt, primary)" "data \<noteq> []"
  shows "\<exists>M. rotation_table data M bwt (unat primary)"
proof (cases "length data = 1")
  case True
  then obtain x where x: "data = [x]" by (cases data) auto
  then have "bwt = data" "primary = 0" using assms(2) by (simp_all add: bwt_encode_def)
  then have "rotation_table data [data] bwt (unat primary)" by (simp add: rotation_table_def x)
  then show ?thesis ..
next
  case False
  let ?n = "length data"
  have n: "1 < ?n" using False assms(3) by (cases data) auto
  obtain sa where small: "?n \<le> MAX_BWT_INPUT_SIZE" and sa: "libsais (data @ data) = Some sa"
      "bwt_scan data sa [] 0 = (bwt, primary)"
    by (rule bwt_encode_scan [OF assms(2,3) False])
  then have sa_ok: "suffix_array_of (data @ data) sa" using assms(1) by (auto simp: sais_ok_def)
  let ?R = "rotation_order data sa"
  let ?M = "map (\<lambda>i. rotate i data) ?R"
  have m: "mset ?R = mset [0..<?n]" by (rule mset_rotation_order [OF sa_ok])
  have set: "set ?R = {..<?n}" using mset_eq_setD [OF m] by (simp only: set_upt atLeast0LessThan)
  have len: "length ?R = ?n" using mset_eq_length [OF m] by simp
  have "mset sa = mset [0..<length (data @ data)]" using sa_ok by (simp only: suffix_array_of_def)
  from mset_eq_imp_distinct_iff [OF this] have d: "distinct sa" by (simp only: distinct_upt)
  have "bwt_scan data sa [] 0 = ([] @ map (\<lambda>i. last (rotate i data)) ?R,
      if 0 \<in> set ?R then of_nat (length ([] :: bytes) + length (takeWhile (\<lambda>i. i \<noteq> 0) ?R)) else 0)"
    by (rule bwt_scan_gen) (use n len d assms(3) in simp_all)
  moreover have zero: "0 \<in> set ?R" unfolding set using assms(3) by simp
  ultimately have scan: "bwt_scan data sa [] 0 = (map (\<lambda>i. last (rotate i data)) ?R,
      of_nat (length (takeWhile (\<lambda>i. i \<noteq> 0) ?R)))"
    by (simp only: if_True append_Nil list.size add_0)
  let ?p = "length (takeWhile (\<lambda>i. i \<noteq> 0) ?R)"
  have p: "?p < length ?R" "?R ! ?p = 0" by (rule takeWhile_first [OF zero])+
  have "?p < 2 ^ 32" using p(1) len small by (simp add: MAX_BWT_INPUT_SIZE_def)
  then have up: "unat (of_nat ?p :: u32) = ?p" by (simp add: unat_of_nat)
  have prim: "primary = of_nat ?p" and bwt: "bwt = map (\<lambda>i. last (rotate i data)) ?R"
    using scan sa(2) by (simp_all only: prod.inject)
  have "rotation_table data ?M bwt ?p"
  proof -
    have "mset ?M = mset (map (\<lambda>i. rotate i data) [0..<?n])" by (simp only: mset_map m)
    moreover have "bwt = map last ?M" by (simp only: bwt map_map o_def)
    moreover have "?M ! ?p = data" using p by simp
    ultimately show ?thesis
      using assms(3) rotation_order_sorted [OF sa_ok] p(1)
      by (simp only: rotation_table_def length_map simp_thms)
  qed
  then show ?thesis unfolding prim up by (rule exI)
qed

text \<open>With any thresholds up to 24 bits the decoder returns the encoded block.\<close>

lemma bwt_decode_with_encode:
  assumes "sais_ok libsais" "bwt_encode libsais data = Inr (bwt, primary)"
    "max_packed_lf \<le> 2 ^ 24"
  shows "bwt_decode_with bwt primary two_chain_min max_packed_lf = Inr data"
proof (cases "data = []")
  case True
  then show ?thesis using assms(2) by (simp add: bwt_encode_def bwt_decode_with_def)
next
  case False
  then show ?thesis
    using bwt_encode_rotation_table [OF assms(1,2)] bwt_decode_with_rotation_table assms(3) by blast
qed

text \<open>The walks on any bytes, and the cycle of an encoded block.\<close>

lemma bwt_walks_chain:
  assumes "max_packed_lf \<le> 2 ^ 24" "max_packed_lf' \<le> 2 ^ 24"
    and "length bwt \<le> two_chain_min \<and> length bwt \<le> two_chain_min' \<or> (LF bwt ^^ length bwt) (unat primary) = unat primary"
  shows "bwt_decode_with bwt primary two_chain_min max_packed_lf = bwt_decode_with bwt primary two_chain_min' max_packed_lf'"
proof (cases "unat primary < length bwt")
  case True
  then show ?thesis
    using bwt_decode_with_chain [OF True assms(1), of two_chain_min] bwt_decode_with_chain [OF True assms(2), of two_chain_min']
      assms(3) by auto
next
  case False
  then show ?thesis by (cases "bwt = []") (simp_all add: bwt_decode_with_def Let_def)
qed

lemma bwt_encode_cycle:
  assumes "sais_ok libsais" "bwt_encode libsais data = Inr (bwt, primary)"
  shows "(LF bwt ^^ length bwt) (unat primary) = unat primary"
proof (cases "data = []")
  case True
  then show ?thesis using assms(2) by (simp add: bwt_encode_def)
next
  case False
  then obtain M where t: "rotation_table data M bwt (unat primary)" using bwt_encode_rotation_table [OF assms] by blast
  then show ?thesis using rotation_table_cycle [OF t] rotation_table_length(2) [OF t] by simp
qed

lemma bwt_encode_length:
  assumes "sais_ok libsais" "bwt_encode libsais data = Inr (bwt, primary)"
  shows "length bwt = length data"
proof (cases "data = []")
  case True
  then show ?thesis using assms(2) by (simp add: bwt_encode_def)
next
  case False
  then show ?thesis
    using bwt_encode_rotation_table [OF assms] rotation_table_length(2) by blast
qed

lemma bwt_encode_size:
  "bwt_encode libsais data = Inr r \<Longrightarrow> length data \<le> MAX_BWT_INPUT_SIZE"
  by (auto simp: bwt_encode_def Let_def MAX_BWT_INPUT_SIZE_def split: if_splits)

text \<open>The container around the transform: primary index, then the move-to-front bytes.\<close>

lemma bwt_mtf_decode_parts_encode:
  assumes "sais_ok libsais" "bwt_mtf_encode_parts libsais data = Inr (primary, mtf_data)"
  shows "bwt_mtf_decode_parts primary mtf_data (length data) = Inr data"
proof -
  obtain bwt where b: "bwt_encode libsais data = Inr (bwt, primary)" "mtf_data = mtf_encode bwt"
    using assms(2) by (auto simp: bwt_mtf_encode_parts_def split: sum.splits)
  have "bwt_decode bwt primary = Inr data"
    unfolding bwt_decode_def
    by (rule bwt_decode_with_encode [OF assms(1) b(1)]) (simp add: MAX_PACKED_LF_def)
  moreover have "length data \<le> MAX_BWT_DECODE_SIZE"
    using bwt_encode_size [OF b(1)]
    by (simp add: MAX_BWT_INPUT_SIZE_def MAX_BWT_DECODE_SIZE_def MAX_DECOMPRESSED_BLOCK_SIZE_def)
  ultimately show ?thesis by (simp add: bwt_mtf_decode_parts_def b mtf_decode_encode)
qed

theorem bwt_mtf_decode_encode:
  assumes "sais_ok libsais" "bwt_mtf_encode libsais data = Inr encoded"
  shows "bwt_mtf_decode encoded (length data) = Inr data"
proof -
  obtain primary mtf_data where e: "bwt_mtf_encode_parts libsais data = Inr (primary, mtf_data)"
      "encoded = u32_to_le primary @ mtf_data"
    using assms(2) by (auto simp: bwt_mtf_encode_def bindR_def split: sum.splits)
  then obtain bwt where b: "bwt_encode libsais data = Inr (bwt, primary)" "mtf_data = mtf_encode bwt"
    by (auto simp: bwt_mtf_encode_parts_def split: sum.splits)
  have "length mtf_data = length data" using bwt_encode_length [OF assms(1) b(1)] b(2) by simp
  moreover have "length data \<le> MAX_BWT_DECODE_SIZE"
    using bwt_encode_size [OF b(1)]
    by (simp add: MAX_BWT_INPUT_SIZE_def MAX_BWT_DECODE_SIZE_def MAX_DECOMPRESSED_BLOCK_SIZE_def)
  ultimately show ?thesis
    using bwt_mtf_decode_parts_encode [OF assms(1) e(1)] by (simp add: bwt_mtf_decode_def e(2))
qed

lemma bwt_mtf_decode_parts_length: "bwt_mtf_decode_parts p m n = Inr d \<Longrightarrow> length d = n"
  by (auto simp: bwt_mtf_decode_parts_def split: if_splits sum.splits)

section \<open>A reference suffix sorter\<close>

definition sorted_suffixes :: suffix_sorter where
  "sorted_suffixes text = Some (sort_key (\<lambda>i. drop i text) [0..<length text])"

lemma sorted_suffixes_ok: "sais_ok sorted_suffixes"
proof -
  have "suffix_array_of t (sort_key (\<lambda>i. drop i t) [0..<length t])" for t :: bytes
    unfolding suffix_array_of_def by (intro conjI mset_sort sorted_sort_key [unfolded sorted_map])
  then show ?thesis unfolding sais_ok_def sorted_suffixes_def option.inject by blast
qed

end
