(* ===== verification/Lz77.thy ===== *)
theory Lz77
  imports Bytes Format
begin

unbundle bit_operations_syntax

text \<open>
  The LZ77 preprocessor, \<open>src/aether-core/src/coding/lz77_preprocess.rs\<close>: hash-chain match finder,
  lazy matching, LZ4-like tokens with a minimum match of three bytes. The \<open>head\<close> and \<open>prev\<close> vectors
  of the match finder are total functions: every index the code uses is below their length
  (\<open>hash3_less\<close>, and \<open>mod WINDOW_SIZE\<close>). The decoder's cursor is the rest of the input.
\<close>

section \<open>Match finder\<close>

definition WINDOW_SIZE :: nat where "WINDOW_SIZE = 65536"
definition MIN_MATCH :: nat where "MIN_MATCH = 3"
definition MAX_MATCH :: nat where "MAX_MATCH = 65538"
definition HASH_BITS :: nat where "HASH_BITS = 16"
definition HASH_SIZE :: nat where "HASH_SIZE = 2 ^ HASH_BITS"
definition MAX_CHAIN :: nat where "MAX_CHAIN = 256"
definition NICE_MATCH :: nat where "NICE_MATCH = 258"
definition MAX_LZ77_INPUT_SIZE :: nat where "MAX_LZ77_INPUT_SIZE = MAX_DECOMPRESSED_BLOCK_SIZE"
definition EMPTY :: u32 where "EMPTY = 0xFFFFFFFF"

definition hash3 :: "bytes \<Rightarrow> nat \<Rightarrow> nat" where
  "hash3 data pos =
     (let v = (push_bit 16 (ucast (data ! pos)) OR push_bit 8 (ucast (data ! (pos + 1))))
              OR ucast (data ! (pos + 2)) :: u32
      in unat (drop_bit (32 - HASH_BITS) (v * 2654435761)))"

record match_finder =
  head_tab :: "nat \<Rightarrow> u32"
  prev_tab :: "nat \<Rightarrow> u32"

definition match_finder_new :: match_finder where
  "match_finder_new = \<lparr>head_tab = (\<lambda>_. EMPTY), prev_tab = (\<lambda>_. EMPTY)\<rparr>"

definition mf_insert :: "match_finder \<Rightarrow> nat \<Rightarrow> nat \<Rightarrow> match_finder" where
  "mf_insert mf pos hash =
     (if pos > MAX_LZ77_INPUT_SIZE then mf
      else mf\<lparr>prev_tab := (prev_tab mf)(pos mod WINDOW_SIZE := head_tab mf hash),
              head_tab := (head_tab mf)(hash := of_nat pos)\<rparr>)"

text \<open>One chain walk; the counter is \<open>MAX_CHAIN - chain_count\<close>.\<close>

primrec find_chain ::
    "(nat \<Rightarrow> u32) \<Rightarrow> bytes \<Rightarrow> nat \<Rightarrow> nat \<Rightarrow> nat \<Rightarrow> u32 \<Rightarrow> nat \<Rightarrow> nat \<Rightarrow> u16 \<Rightarrow> nat \<times> u16" where
  "find_chain prev data pos max_len 0 chain_pos last_ref_pos best_len best_offset =
     (best_len, best_offset)"
| "find_chain prev data pos max_len (Suc n) chain_pos last_ref_pos best_len best_offset =
     (if chain_pos = EMPTY then (best_len, best_offset)
      else
        let ref_pos = unat chain_pos
        in if ref_pos \<ge> pos \<or> pos - ref_pos \<ge> WINDOW_SIZE then (best_len, best_offset)
           else if ref_pos \<ge> last_ref_pos then (best_len, best_offset)
           else
             let offset = of_nat (pos - ref_pos);
                 next_pos = prev (ref_pos mod WINDOW_SIZE)
             in if data ! (ref_pos + best_len) = data ! (pos + best_len)
                   \<and> data ! ref_pos = data ! pos \<and> data ! (ref_pos + 1) = data ! (pos + 1)
                then
                  let a = drop (ref_pos + 2) (take (ref_pos + max_len) data);
                      b = drop (pos + 2) (take (pos + max_len) data);
                      len = 2 + length (takeWhile (\<lambda>(x, y). x = y) (zip a b))
                  in if len > best_len then
                       if len \<ge> NICE_MATCH \<or> len = max_len then (len, offset)
                       else find_chain prev data pos max_len n next_pos ref_pos len offset
                     else find_chain prev data pos max_len n next_pos ref_pos best_len best_offset
                else find_chain prev data pos max_len n next_pos ref_pos best_len best_offset)"

definition find_best :: "match_finder \<Rightarrow> bytes \<Rightarrow> nat \<Rightarrow> nat \<Rightarrow> (u16 \<times> nat) option" where
  "find_best mf data pos hash =
     (let max_len = min (length data - pos) MAX_MATCH;
          (best_len, best_offset) =
            find_chain (prev_tab mf) data pos max_len MAX_CHAIN (head_tab mf hash) pos
              (MIN_MATCH - 1) 0
      in if best_len \<ge> MIN_MATCH then Some (best_offset, best_len) else None)"

section \<open>What a match is\<close>

definition valid_match :: "bytes \<Rightarrow> nat \<Rightarrow> nat \<Rightarrow> nat \<Rightarrow> bool" where
  "valid_match data pos offset len \<longleftrightarrow>
     0 < offset \<and> offset \<le> pos \<and> MIN_MATCH \<le> len \<and> pos + len \<le> length data
     \<and> (\<forall>i < len. data ! (pos + i) = data ! (pos - offset + i))"

lemma hash3_less: "hash3 data pos < HASH_SIZE"
proof -
  have "unat (drop_bit 16 w) < 2 ^ 16" for w :: u32
    using unat_bounds [of w]
    by (subst unat_drop_bit_eq) (simp add: drop_bit_eq_div less_mult_imp_div_less)
  then show ?thesis by (simp add: hash3_def HASH_SIZE_def HASH_BITS_def Let_def)
qed

lemma takeWhile_zip_eq_nth:
  "i < length (takeWhile (\<lambda>(x, y). x = y) (zip a b)) \<Longrightarrow> a ! i = b ! i"
proof -
  assume i: "i < length (takeWhile (\<lambda>(x, y). x = y) (zip a b))"
  then have "i < length (zip a b)" using length_takeWhile_le [of _ "zip a b"] by (rule less_le_trans)
  moreover have "(\<lambda>(x, y). x = y) (zip a b ! i)"
    using set_takeWhileD [OF nth_mem [OF i]] by (simp add: takeWhile_nth [OF i])
  ultimately show ?thesis by (simp add: nth_zip)
qed

lemma find_chain_valid:
  assumes "pos + 2 < length data" "max_len = min (length data - pos) MAX_MATCH"
    and "best_len = MIN_MATCH - 1 \<or> valid_match data pos (unat best_offset) best_len"
    and "find_chain prev data pos max_len n chain_pos last_ref_pos best_len best_offset = (len, offset)"
  shows "len = MIN_MATCH - 1 \<or> valid_match data pos (unat offset) len"
  using assms(3,4)
proof (induction n arbitrary: chain_pos last_ref_pos best_len best_offset)
  case (Suc n)
  let ?r = "unat chain_pos"
  let ?a = "drop (?r + 2) (take (?r + max_len) data)"
  let ?b = "drop (pos + 2) (take (pos + max_len) data)"
  let ?len = "2 + length (takeWhile (\<lambda>(x, y). x = y) (zip ?a ?b))"
  have found: "valid_match data pos (unat (of_nat (pos - ?r) :: u16)) ?len"
    if "?r < pos" "pos - ?r < WINDOW_SIZE" "best_len < ?len"
      "data ! ?r = data ! pos" "data ! (?r + 1) = data ! (pos + 1)"
  proof -
    have off: "unat (of_nat (pos - ?r) :: u16) = pos - ?r"
      using that(2) by (simp add: unat_of_nat WINDOW_SIZE_def)
    have max: "pos + max_len \<le> length data" "2 < max_len" "?r + max_len \<le> length data"
      using assms(1,2) that(1) by (auto simp: MAX_MATCH_def)
    have "length (takeWhile (\<lambda>(x, y). x = y) (zip ?a ?b)) \<le> length (zip ?a ?b)"
      by (rule length_takeWhile_le)
    then have len: "?len \<le> max_len" using max by simp
    have "2 \<le> best_len" using Suc.prems(1) by (auto simp: valid_match_def MIN_MATCH_def)
    with that(3) have bl: "MIN_MATCH \<le> ?len" unfolding MIN_MATCH_def by linarith
    have "data ! (pos + i) = data ! (?r + i)" if i: "i < ?len" for i
    proof -
      consider "i = 0" | "i = 1" | j where "i = 2 + j"
        by (metis One_nat_def add_2_eq_Suc' add.commute not0_implies_Suc numeral_2_eq_2 add_Suc plus_1_eq_Suc add_2_eq_Suc)
      then show ?thesis
      proof cases
        case 3
        then have j: "j < length (takeWhile (\<lambda>(x, y). x = y) (zip ?a ?b))" using i by simp
        then have jm: "2 + j < max_len" using len by simp
        have "?a ! j = ?b ! j" by (rule takeWhile_zip_eq_nth [OF j])
        then show ?thesis using jm max by (simp add: 3 add.assoc)
      qed (use \<open>data ! ?r = data ! pos\<close> \<open>data ! (?r + 1) = data ! (pos + 1)\<close> in simp_all)
    qed
    then show ?thesis
      using that(1) max(1) len bl unfolding valid_match_def off by simp
  qed
  show ?case
    using Suc.prems Suc.IH [OF Suc.prems(1)] Suc.IH [OF disjI2, OF found] found
    by (auto simp: Let_def split: if_splits)
qed simp

text \<open>Whatever the tables hold, a reported match is a match.\<close>

lemma find_best_valid:
  assumes "find_best mf data pos hash = Some (offset, len)" "pos + 2 < length data"
  shows "valid_match data pos (unat offset) len"
proof -
  obtain bl bo where f: "find_chain (prev_tab mf) data pos (min (length data - pos) MAX_MATCH) MAX_CHAIN
      (head_tab mf hash) pos (MIN_MATCH - 1) 0 = (bl, bo)" by fastforce
  then have "offset = bo" "len = bl" "MIN_MATCH \<le> bl"
    using assms(1) by (auto simp: find_best_def Let_def split: if_splits)
  with find_chain_valid [OF assms(2) refl _ f] show ?thesis by (auto simp: MIN_MATCH_def)
qed

lemma find_best_length:
  assumes "find_best mf data pos hash = Some (offset, len)"
  shows "MIN_MATCH \<le> len"
  using assms by (auto simp: find_best_def Let_def split: if_splits prod.splits)

section \<open>Encoder\<close>

text \<open>The length extension: 255s, then the rest.\<close>

function emit_ext :: "nat \<Rightarrow> bytes" where
  "emit_ext rem = (if rem \<ge> 255 then 255 # emit_ext (rem - 255) else [of_nat rem])"
  by auto
termination by (relation "measure id") auto

declare emit_ext.simps [simp del]

definition emit_sequence :: "bytes \<Rightarrow> u16 \<Rightarrow> nat \<Rightarrow> bytes" where
  "emit_sequence literals offset match_len =
     (let lit_len = length literals;
          match_minus3 = match_len - MIN_MATCH;
          lit_nibble = of_nat (min lit_len 15) :: u8;
          match_nibble = of_nat (min match_minus3 15) :: u8
      in [push_bit 4 lit_nibble OR match_nibble]
         @ (if lit_len \<ge> 15 then emit_ext (lit_len - 15) else [])
         @ literals
         @ [ucast offset, ucast (drop_bit 8 offset)]
         @ (if match_minus3 \<ge> 15 then emit_ext (match_minus3 - 15) else []))"

definition emit_final_literals :: "bytes \<Rightarrow> bytes" where
  "emit_final_literals literals =
     (let lit_len = length literals;
          lit_nibble = of_nat (min lit_len 15) :: u8
      in [push_bit 4 lit_nibble]
         @ (if lit_len \<ge> 15 then emit_ext (lit_len - 15) else [])
         @ literals)"

text \<open>\<open>for i in pos..end { insert(i, hash3(data, i)) }\<close>\<close>

definition insert_range :: "match_finder \<Rightarrow> bytes \<Rightarrow> nat \<Rightarrow> nat \<Rightarrow> match_finder" where
  "insert_range mf data start stop = fold (\<lambda>i mf. mf_insert mf i (hash3 data i)) [start..<stop] mf"

text \<open>The lazy decision: take the match unless the next position has one longer by two or more.\<close>

definition use_match ::
    "match_finder \<Rightarrow> bytes \<Rightarrow> nat \<Rightarrow> bool \<Rightarrow> (u16 \<times> nat) option \<Rightarrow> bool" where
  "use_match mf data pos deferred current_match =
     (case current_match of
        None \<Rightarrow> False
      | Some (_, cur_len) \<Rightarrow>
          if deferred then True
          else if pos + 3 < length data then
            (case find_best mf data (pos + 1) (hash3 data (pos + 1)) of
               Some (_, next_len) \<Rightarrow> next_len \<le> cur_len + 1
             | None \<Rightarrow> True)
          else True)"

text \<open>The main loop; it returns the output and \<open>lit_start\<close>.\<close>

function lz77_loop ::
    "bytes \<Rightarrow> match_finder \<Rightarrow> nat \<Rightarrow> nat \<Rightarrow> bool \<Rightarrow> bytes \<Rightarrow> bytes \<times> nat" where
  "lz77_loop data mf pos lit_start deferred output =
     (if pos + 2 < length data then
        let hash = hash3 data pos;
            current_match = find_best mf data pos hash
        in case current_match of
             Some (offset, match_len) \<Rightarrow>
               if use_match mf data pos deferred current_match then
                 let output = output @ emit_sequence (drop lit_start (take pos data)) offset match_len;
                     last = min (pos + match_len) (length data - 2);
                     mf = insert_range mf data pos last
                 in lz77_loop data mf (pos + match_len) (pos + match_len) False output
               else lz77_loop data (mf_insert mf pos hash) (pos + 1) lit_start True output
           | None \<Rightarrow> lz77_loop data (mf_insert mf pos hash) (pos + 1) lit_start False output
      else (output, lit_start))"
  by pat_completeness auto
termination
  by (relation "measure (\<lambda>(data, mf, pos, _). length data - pos)")
    (auto dest!: find_best_length find_best_length [OF sym] simp: MIN_MATCH_def)

declare lz77_loop.simps [simp del]

definition lz77_encode :: "bytes \<Rightarrow> bytes option" where
  "lz77_encode data =
     (if length data < MIN_MATCH then None
      else if length data > MAX_LZ77_INPUT_SIZE then None
      else
        let (output, lit_start) =
              lz77_loop data match_finder_new 0 0 False (u32_to_le (of_nat (length data)));
            remaining = drop lit_start data;
            output = (if remaining \<noteq> [] then output @ emit_final_literals remaining else output)
        in if length output < length data then Some output else None)"

section \<open>Decoder\<close>

text \<open>Both length extensions: \<open>cap\<close> is the output capacity that remains.\<close>

fun read_ext :: "string \<Rightarrow> string \<Rightarrow> nat \<Rightarrow> nat \<Rightarrow> bytes \<Rightarrow> (nat \<times> bytes) result" where
  "read_ext eof over cap len [] = Inl (Decompression eof)"
| "read_ext eof over cap len (ext # s) =
     (let len = len + unat ext
      in if len > cap then Inl (Decompression over)
         else if ext < 255 then Inr (len, s)
         else read_ext eof over cap len s)"

text \<open>The overlapping copy, in chunks of at most \<open>offset\<close> bytes.\<close>

function copy_overlap :: "nat \<Rightarrow> nat \<Rightarrow> bytes \<Rightarrow> bytes" where
  "copy_overlap offset remaining output =
     (if remaining > 0 \<and> offset > 0 then
        let chunk = min remaining offset;
            len = length output
        in copy_overlap offset (remaining - chunk)
             (output @ take chunk (drop (len - offset) output))
      else output)"
  by auto
termination by (relation "measure (\<lambda>(_, remaining, _). remaining)") auto

declare copy_overlap.simps [simp del]

definition copy_match :: "nat \<Rightarrow> nat \<Rightarrow> bytes \<Rightarrow> bytes" where
  "copy_match offset match_len output =
     (let start = length output - offset
      in if offset \<ge> match_len then output @ take match_len (drop start output)
         else copy_overlap offset match_len output)"

definition lz77_lit_len :: "nat \<Rightarrow> u8 \<Rightarrow> bytes \<Rightarrow> nat \<Rightarrow> (nat \<times> bytes) result" where
  "lz77_lit_len original_size token s produced =
     (if unat (drop_bit 4 token) = 15 then
        read_ext ''LZ77: unexpected end in lit_len ext''
          ''LZ77: lit_len {lit_len} exceeds remaining output capacity {remaining}''
          (original_size - produced) (unat (drop_bit 4 token)) s
      else Inr (unat (drop_bit 4 token), s))"

definition lz77_match_len :: "nat \<Rightarrow> u8 \<Rightarrow> bytes \<Rightarrow> nat \<Rightarrow> (nat \<times> bytes) result" where
  "lz77_match_len original_size token s produced =
     (if token AND 0x0F = 15 then
        read_ext ''LZ77: unexpected end in match_len ext''
          ''LZ77: match_len {match_len} exceeds remaining output capacity {remaining}''
          (original_size - produced) (unat (token AND 0x0F) + MIN_MATCH) s
      else Inr (unat (token AND 0x0F) + MIN_MATCH, s))"

fun lz77_match :: "nat \<Rightarrow> u8 \<Rightarrow> bytes \<Rightarrow> bytes \<Rightarrow> (bytes \<times> bytes) result" where
  "lz77_match original_size token (lo # hi # s) output =
     (let offset = unat lo OR push_bit 8 (unat hi)
      in if offset = 0 \<or> offset > length output then
           Inl (Decompression ''LZ77: invalid offset {offset} at output pos {}'')
         else
           bindR (lz77_match_len original_size token s (length output)) (\<lambda>(match_len, s).
             Inr (s, copy_match offset match_len output)))"
| "lz77_match original_size token s output = Inl (Decompression ''LZ77: missing offset bytes'')"

text \<open>
  One sequence: the rest of the input, the output, and whether the loop breaks because the literals
  filled the output.
\<close>

fun lz77_sequence :: "nat \<Rightarrow> bytes \<Rightarrow> bytes \<Rightarrow> (bytes \<times> bytes \<times> bool) result" where
  "lz77_sequence original_size [] output = Inl (Decompression ''LZ77: unexpected end of data'')"
| "lz77_sequence original_size (token # s) output =
     bindR (lz77_lit_len original_size token s (length output)) (\<lambda>(lit_len, s).
       if lit_len > length s then Inl (Decompression ''LZ77: not enough literal data'')
       else
         let output = output @ take lit_len s;
             s = drop lit_len s
         in if length output \<ge> original_size then Inr (s, output, True)
            else bindR (lz77_match original_size token s output) (\<lambda>(s, output).
                   Inr (s, output, False)))"

lemma read_ext_shorter:
  "read_ext eof over cap len s = Inr (n, s') \<Longrightarrow> length s' < length s"
  by (induction eof over cap len s rule: read_ext.induct)
    (auto simp: Let_def split: if_splits)

lemma lz77_match_shorter:
  "lz77_match n token s output = Inr (s', output') \<Longrightarrow> length s' \<le> length s"
  by (induction n token s "output" rule: lz77_match.induct)
    (auto simp: Let_def lz77_match_len_def split: if_splits dest!: read_ext_shorter)

lemma lz77_sequence_shorter:
  "lz77_sequence n s output = Inr (s', output', fin) \<Longrightarrow> length s' < length s"
  by (induction n s "output" rule: lz77_sequence.induct)
    (auto simp: Let_def lz77_lit_len_def split: if_splits dest!: read_ext_shorter lz77_match_shorter)

function lz77_decode_loop :: "nat \<Rightarrow> bytes \<Rightarrow> bytes \<Rightarrow> bytes result" where
  "lz77_decode_loop original_size s output =
     (if length output < original_size then
        case lz77_sequence original_size s output of
          Inl e \<Rightarrow> Inl e
        | Inr (s', output', fin) \<Rightarrow>
            if fin then Inr output' else lz77_decode_loop original_size s' output'
      else Inr output)"
  by pat_completeness auto
termination
  by (relation "measure (\<lambda>(_, s, _). length s)") (auto dest: lz77_sequence_shorter)

declare lz77_decode_loop.simps [simp del]

definition lz77_decode :: "bytes \<Rightarrow> nat \<Rightarrow> bytes result" where
  "lz77_decode encoded expected_size =
     (if length encoded < 4 then Inl (Decompression ''LZ77 data too short'')
      else
        let original_size = unat (u32_of_le (take 4 encoded))
        in if original_size \<noteq> expected_size then
             Inl (Decompression
               ''LZ77 size mismatch: header says {original_size}, expected {expected_size}'')
           else if original_size > MAX_LZ77_INPUT_SIZE then
             Inl (Decompression ''LZ77 decode size {} exceeds safety limit {}'')
           else
             bindR (lz77_decode_loop original_size (drop 4 encoded) []) (\<lambda>output.
               if length output \<noteq> original_size then
                 Inl (Decompression ''LZ77: output size {}, expected {original_size}'')
               else Inr output))"

section \<open>Reading back one sequence\<close>

lemma read_ext_emit_ext:
  "len + rem \<le> cap \<Longrightarrow> read_ext eof over cap len (emit_ext rem @ s) = Inr (len + rem, s)"
proof (induction rem arbitrary: len rule: emit_ext.induct)
  case (1 rem)
  show ?case
  proof (cases "255 \<le> rem")
    case True
    then show ?thesis
      using 1 by (subst emit_ext.simps) simp
  next
    case False
    then have "unat (of_nat rem :: u8) = rem" by (simp add: unat_of_nat)
    with False 1 show ?thesis
      by (subst emit_ext.simps) (simp add: word_less_nat_alt)
  qed
qed

lemma token_nibbles:
  assumes "a < 16" "b < 16"
  shows "unat (drop_bit 4 (push_bit 4 (of_nat a) OR of_nat b :: u8)) = a"
    and "(push_bit 4 (of_nat a) OR of_nat b) AND 0x0F = (of_nat b :: u8)"
    and "unat (of_nat b :: u8) = b"
proof -
  have "\<forall>a \<in> set [0..<16]. \<forall>b \<in> set [0..<16].
      unat (drop_bit 4 (push_bit 4 (of_nat a) OR of_nat b :: u8)) = a
      \<and> (push_bit 4 (of_nat a) OR of_nat b) AND 0x0F = (of_nat b :: u8)"
    by code_simp
  with assms show "unat (drop_bit 4 (push_bit 4 (of_nat a) OR of_nat b :: u8)) = a"
    and "(push_bit 4 (of_nat a) OR of_nat b) AND 0x0F = (of_nat b :: u8)"
    by auto
  show "unat (of_nat b :: u8) = b" using assms by (simp add: unat_of_nat)
qed

lemma offset_bytes:
  "unat (ucast off :: u8) OR push_bit 8 (unat (ucast (drop_bit 8 off) :: u8)) = unat (off :: u16)"
proof (rule bit_eqI)
  fix n
  have "n < 16" if "bit off n" using bit_imp_le_length [OF that] by simp
  then show "bit (unat (ucast off :: u8) OR push_bit 8 (unat (ucast (drop_bit 8 off) :: u8))) n
      = bit (unat off) n"
    by (cases "n < 8") (auto simp: bit_simps)
qed

lemma copy_overlap_eq:
  assumes "0 < offset" "offset \<le> p" "p + m \<le> length data"
    "\<And>i. i < m \<Longrightarrow> data ! (p + i) = data ! (p - offset + i)"
  shows "copy_overlap offset m (take p data) = take (p + m) data"
  using assms
proof (induction offset m "take p data" arbitrary: p rule: copy_overlap.induct)
  case (1 offset m)
  show ?case
  proof (cases "0 < m")
    case False
    then show ?thesis by (subst copy_overlap.simps) simp
  next
    case True
    let ?c = "min m offset"
    have "take ?c (drop (p - offset) (take p data)) = take ?c (drop p data)"
    proof (rule nth_equalityI)
      fix i assume "i < length (take ?c (drop (p - offset) (take p data)))"
      then show "take ?c (drop (p - offset) (take p data)) ! i = take ?c (drop p data) ! i"
        using 1(2-5) 1(5) [of i] by auto
    qed (use 1(2-4) in auto)
    then have step: "take p data @ take ?c (drop (p - offset) (take p data)) = take (p + ?c) data"
      by (simp add: take_add)
    have "copy_overlap offset (m - ?c) (take (p + ?c) data) = take (p + ?c + (m - ?c)) data"
    proof (rule 1(1) [OF _ refl refl])
      fix i assume "i < m - ?c"
      then have "data ! (p + (?c + i)) = data ! (p - offset + (?c + i))" by (intro 1(5)) simp
      then show "data ! (p + ?c + i) = data ! (p + ?c - offset + i)"
        using 1(3) by (simp add: add.assoc)
    qed (use True 1(2-4) step in \<open>auto simp: Let_def\<close>)
    then show ?thesis
      using True 1(2-4) step by (subst copy_overlap.simps) (simp add: Let_def)
  qed
qed

lemma copy_match_eq:
  assumes "valid_match data p offset m"
  shows "copy_match offset m (take p data) = take (p + m) data"
proof (cases "m \<le> offset")
  case True
  have v: "0 < offset" "offset \<le> p" "p + m \<le> length data"
    "\<And>i. i < m \<Longrightarrow> data ! (p + i) = data ! (p - offset + i)"
    using assms by (auto simp: valid_match_def)
  have "take m (drop (p - offset) (take p data)) = take m (drop p data)"
    by (rule nth_equalityI) (use v True in auto)
  then show ?thesis using True v by (simp add: copy_match_def take_add)
next
  case False
  then show ?thesis
    using assms copy_overlap_eq [of offset p m data]
    by (auto simp: copy_match_def valid_match_def)
qed

lemma lz77_lit_len_emit:
  assumes "produced + l \<le> n" "unat (drop_bit 4 token) = min l 15"
  shows "lz77_lit_len n token ((if l \<ge> 15 then emit_ext (l - 15) else []) @ s) produced = Inr (l, s)"
  using assms by (auto simp: lz77_lit_len_def read_ext_emit_ext)

lemma lz77_match_len_emit:
  assumes "MIN_MATCH \<le> m" "produced + m \<le> n" "token AND 0x0F = of_nat (min (m - MIN_MATCH) 15)"
  shows "lz77_match_len n token
    ((if m - MIN_MATCH \<ge> 15 then emit_ext (m - MIN_MATCH - 15) else []) @ s) produced = Inr (m, s)"
proof -
  have u: "unat (token AND 0x0F) = min (m - MIN_MATCH) 15"
    unfolding assms(3) using token_nibbles(3) [of 0 "min (m - MIN_MATCH) 15"] by simp
  have "token AND 0x0F = 15 \<longleftrightarrow> 15 \<le> m - MIN_MATCH"
    using u by (auto simp: u8_eq_iff min_def)
  then show ?thesis
    using u assms(1,2) by (auto simp: lz77_match_len_def read_ext_emit_ext)
qed

lemma lz77_sequence_emit:
  assumes v: "valid_match data pos (unat offset) m" and l: "lit_start \<le> pos"
  shows "lz77_sequence (length data) (emit_sequence (drop lit_start (take pos data)) offset m @ s)
      (take lit_start data) = Inr (s, take (pos + m) data, False)"
proof -
  let ?lits = "drop lit_start (take pos data)"
  let ?token = "push_bit 4 (of_nat (min (length ?lits) 15)) OR of_nat (min (m - MIN_MATCH) 15) :: u8"
  have pos: "pos < length data" "pos + m \<le> length data" "MIN_MATCH \<le> m" "0 < unat offset"
    "unat offset \<le> pos"
    using v by (auto simp: valid_match_def MIN_MATCH_def)
  have lits: "take lit_start data @ ?lits = take pos data"
    using l by (metis append_take_drop_id min.absorb1 take_take)
  have lit_len: "length (take lit_start data) + length ?lits \<le> length data" using pos l by simp
  have t: "unat (drop_bit 4 ?token) = min (length ?lits) 15"
    "?token AND 0x0F = of_nat (min (m - MIN_MATCH) 15)"
    by (rule token_nibbles; simp)+
  let ?ext = "(if m - MIN_MATCH \<ge> 15 then emit_ext (m - MIN_MATCH - 15) else []) @ s"
  let ?rest = "[ucast offset, ucast (drop_bit 8 offset)] @ ?ext"
  have ml: "lz77_match_len (length data) ?token ?ext (length (take pos data)) = Inr (m, s)"
    by (rule lz77_match_len_emit) (use pos t in simp_all)
  have e: "emit_sequence ?lits offset m @ s
      = ?token # (if length ?lits \<ge> 15 then emit_ext (length ?lits - 15) else []) @ ?lits @ ?rest"
    by (simp only: emit_sequence_def Let_def append_assoc append_Cons append_Nil)
  have match: "lz77_match (length data) ?token ?rest (take pos data) = Inr (s, take (pos + m) data)"
    using pos ml copy_match_eq [OF v]
    by (simp only: append_Cons append_Nil lz77_match.simps offset_bytes Let_def) simp
  show ?thesis
    unfolding e lz77_sequence.simps lz77_lit_len_emit [OF lit_len t(1)]
    using match pos lits by (simp add: Let_def)
qed

lemma lz77_sequence_final:
  assumes "lit_start < length data"
  shows "lz77_sequence (length data) (emit_final_literals (drop lit_start data))
      (take lit_start data) = Inr ([], data, True)"
proof -
  let ?lits = "drop lit_start data"
  let ?token = "push_bit 4 (of_nat (min (length ?lits) 15)) OR of_nat 0 :: u8"
  have e: "emit_final_literals ?lits
      = ?token # (if length ?lits \<ge> 15 then emit_ext (length ?lits - 15) else []) @ ?lits @ []"
    by (simp add: emit_final_literals_def Let_def)
  have lit_len: "length (take lit_start data) + length ?lits \<le> length data" using assms by simp
  have t: "unat (drop_bit 4 ?token) = min (length ?lits) 15" by (rule token_nibbles; simp)
  show ?thesis
    unfolding e lz77_sequence.simps lz77_lit_len_emit [OF lit_len t] using assms by simp
qed

section \<open>Round trip\<close>

text \<open>
  The output of the main loop, from any state of the match finder, is the output so far and then
  sequences that bring a decoder holding \<open>take lit_start data\<close> up to the returned \<open>lit_start\<close>.
\<close>

lemma lz77_loop_decodes:
  assumes "lit_start \<le> pos" "pos \<le> length data"
    and "lz77_loop data mf pos lit_start deferred output = (output', lit_start')"
  shows "\<exists>seqs. output' = output @ seqs \<and> lit_start' \<le> length data
    \<and> (\<forall>s. lz77_decode_loop (length data) (seqs @ s) (take lit_start data)
          = lz77_decode_loop (length data) s (take lit_start' data))"
  using assms
proof (induction data mf pos lit_start deferred "output" rule: lz77_loop.induct)
  case (1 data mf pos lit_start deferred out)
  let ?m = "find_best mf data pos (hash3 data pos)"
  show ?case
  proof (cases "pos + 2 < length data")
    case False
    then show ?thesis using 1(4-6) by (simp add: lz77_loop.simps [of data mf pos])
  next
    case True
    show ?thesis
    proof (cases ?m)
      case None
      then show ?thesis
        using 1(1) [OF True refl refl None] 1(4-6) True by (simp add: lz77_loop.simps [of data mf pos])
    next
      case (Some om)
      obtain offset m where om: "om = (offset, m)" by (cases om)
      show ?thesis
      proof (cases "use_match mf data pos deferred ?m")
        case False
        then show ?thesis
          using 1(3) [OF True refl refl Some om [symmetric] False] 1(4-6) True Some om
          by (simp add: lz77_loop.simps [of data mf pos])
      next
        case take: True
        have v: "valid_match data pos (unat offset) m"
          using Some True by (intro find_best_valid) (simp_all add: om)
        then have pm: "pos + m \<le> length data" by (simp add: valid_match_def)
        let ?seq = "emit_sequence (drop lit_start (take pos data)) offset m"
        obtain seqs where s: "output' = (out @ ?seq) @ seqs" "lit_start' \<le> length data"
          "\<And>s. lz77_decode_loop (length data) (seqs @ s) (take (pos + m) data)
            = lz77_decode_loop (length data) s (take lit_start' data)"
          using 1(2) [OF True refl refl Some om [symmetric] take refl refl refl] 1(4-6) True Some om take pm
          by (auto simp: lz77_loop.simps [of data mf pos] Let_def)
        have "lz77_decode_loop (length data) (?seq @ seqs @ s) (take lit_start data)
            = lz77_decode_loop (length data) s (take lit_start' data)" for s
          using lz77_sequence_emit [OF v 1(4), of "seqs @ s"] s(3) 1(4) True
          by (simp add: lz77_decode_loop.simps [of _ "?seq @ seqs @ s"])
        then show ?thesis using s by (intro exI [of _ "?seq @ seqs"]) simp
      qed
    qed
  qed
qed

theorem lz77_decode_encode:
  assumes "lz77_encode data = Some encoded"
  shows "lz77_decode encoded (length data) = Inr data"
proof -
  let ?n = "length data"
  obtain out lit_start where l:
      "lz77_loop data match_finder_new 0 0 False (u32_to_le (of_nat ?n)) = (out, lit_start)"
    by fastforce
  have n: "?n \<le> MAX_LZ77_INPUT_SIZE"
    and enc: "encoded = (if drop lit_start data \<noteq> [] then out @ emit_final_literals (drop lit_start data)
      else out)"
    using assms by (auto simp: lz77_encode_def l Let_def split: if_splits)
  obtain seqs where s: "out = u32_to_le (of_nat ?n) @ seqs" "lit_start \<le> ?n"
      "\<And>s. lz77_decode_loop ?n (seqs @ s) [] = lz77_decode_loop ?n s (take lit_start data)"
    using lz77_loop_decodes [OF _ _ l] by auto
  define tail where "tail = (if drop lit_start data \<noteq> [] then emit_final_literals (drop lit_start data) else [])"
  have e: "encoded = u32_to_le (of_nat ?n) @ seqs @ tail" using enc s(1) by (simp add: tail_def)
  have size: "unat (u32_of_le (take 4 encoded)) = ?n"
    using n by (simp add: e unat_of_nat MAX_LZ77_INPUT_SIZE_def MAX_DECOMPRESSED_BLOCK_SIZE_def)
  have "lz77_decode_loop ?n tail (take lit_start data) = Inr data"
    using lz77_sequence_final [of lit_start data] s(2)
    by (auto simp: tail_def lz77_decode_loop.simps [of ?n])
  then have "lz77_decode_loop ?n (drop 4 encoded) [] = Inr data"
    using s(3) [of tail] by (simp add: e)
  moreover have "4 \<le> length encoded" by (simp add: e)
  ultimately show ?thesis using n size by (simp add: lz77_decode_def Let_def)
qed

text \<open>
  The decoder never holds more than the announced size and the slack of one short literal run or one
  short match: the caps on the length extensions bound the output however the input was made.
\<close>

lemma read_ext_cap: "read_ext eof over cap len s = Inr (n, s') \<Longrightarrow> n \<le> cap"
  by (induction eof over cap len s rule: read_ext.induct) (auto simp: Let_def split: if_splits)

lemma length_copy_overlap:
  "0 < offset \<Longrightarrow> offset \<le> length out \<Longrightarrow> length (copy_overlap offset m out) = length out + m"
  by (induction offset m out rule: copy_overlap.induct)
    (subst copy_overlap.simps, auto simp: Let_def)

lemma length_copy_match:
  "0 < offset \<Longrightarrow> offset \<le> length out \<Longrightarrow> length (copy_match offset m out) = length out + m"
  by (auto simp: copy_match_def length_copy_overlap)

lemma nibble_bounds: "unat (drop_bit 4 (t :: u8)) < 16" "unat (t AND 0x0F) < 16"
proof -
  show "unat (drop_bit 4 t) < 16"
    using unat_less_256 [of t] by (subst unat_drop_bit_eq) (simp add: drop_bit_eq_div less_mult_imp_div_less)
  have "t AND 0x0F \<le> 0x0F" by (rule word_and_le1)
  then show "unat (t AND 0x0F) < 16" by (simp add: word_le_nat_alt)
qed

lemma lz77_match_bound:
  "lz77_match n token s out = Inr (s', out') \<Longrightarrow> length out < n \<Longrightarrow> length out' < n + 18"
  using nibble_bounds(2) [of token]
  by (induction n token s out rule: lz77_match.induct)
    (auto simp: Let_def lz77_match_len_def length_copy_match MIN_MATCH_def split: if_splits
      dest!: read_ext_cap)

lemma lz77_sequence_bound:
  assumes "lz77_sequence n s out = Inr (s', out', fin)" "length out < n"
  shows "length out' < n + 18"
  using assms nibble_bounds(1) [of "hd s"]
  by (induction n s out rule: lz77_sequence.induct)
    (auto simp: Let_def lz77_lit_len_def split: if_splits
      dest!: read_ext_cap lz77_match_bound)

lemma lz77_decode_loop_bound:
  assumes "lz77_decode_loop n s out = Inr out'" "length out < n + 18"
  shows "length out' < n + 18"
  using assms
proof (induction n s out rule: lz77_decode_loop.induct)
  case (1 n s out)
  then show ?case
    by (subst (asm) lz77_decode_loop.simps)
      (auto split: if_splits sum.splits dest: lz77_sequence_bound)
qed

lemma lz77_decode_length:
  "lz77_decode encoded n = Inr data \<Longrightarrow> length data = n \<and> n \<le> MAX_LZ77_INPUT_SIZE"
  by (auto simp: lz77_decode_def Let_def split: if_splits)

section \<open>A concrete block\<close>

text \<open>Nine zero bytes: one literal, then one overlapping match of eight bytes at distance one.\<close>

definition nine_zeros :: bytes where "nine_zeros = [0, 0, 0, 0, 0, 0, 0, 0, 0]"

lemma length_nine_zeros: "length nine_zeros = 9" by (simp add: nine_zeros_def)

lemma hash3_zeros: "i \<le> 6 \<Longrightarrow> hash3 nine_zeros i = 0"
  by (auto simp: nine_zeros_def hash3_def le_Suc_eq numeral_eq_Suc)

lemma find_chain_256:
  "find_chain prev data pos max_len 256 chain_pos last_ref_pos best_len best_offset
   = find_chain prev data pos max_len (Suc 255) chain_pos last_ref_pos best_len best_offset"
  by simp

lemma find_best_zeros:
  "find_best match_finder_new nine_zeros 0 0 = None"
  "find_best (mf_insert match_finder_new 0 0) nine_zeros (Suc 0) 0 = Some (1, 8)"
  "find_best (mf_insert match_finder_new 0 0) nine_zeros 2 0 = Some (2, 7)"
  by (simp_all add: find_best_def match_finder_new_def mf_insert_def MAX_CHAIN_def MIN_MATCH_def
      MAX_LZ77_INPUT_SIZE_def MAX_DECOMPRESSED_BLOCK_SIZE_def EMPTY_def WINDOW_SIZE_def
      MAX_MATCH_def length_nine_zeros NICE_MATCH_def find_chain_256 [unfolded find_chain.simps(2)])
    (simp_all add: nine_zeros_def)

lemma lz77_loop_zeros:
  "lz77_loop nine_zeros match_finder_new 0 0 False hdr = (hdr @ [0x15, 0, 1, 0], 9)"
proof -
  have e: "emit_sequence (take (Suc 0) nine_zeros) 1 8 = [0x15, 0, 1, 0]"
    by (simp add: emit_sequence_def MIN_MATCH_def Let_def nine_zeros_def)
  have "lz77_loop nine_zeros match_finder_new 0 0 False hdr
      = lz77_loop nine_zeros (mf_insert match_finder_new 0 0) (Suc 0) 0 False hdr"
    by (subst lz77_loop.simps) (simp add: find_best_zeros length_nine_zeros hash3_zeros)
  also have "\<dots> = lz77_loop nine_zeros (insert_range (mf_insert match_finder_new 0 0) nine_zeros (Suc 0) 7)
      9 9 False (hdr @ [0x15, 0, 1, 0])"
    by (subst lz77_loop.simps)
      (simp add: find_best_zeros length_nine_zeros hash3_zeros use_match_def
        numeral_2_eq_2 [symmetric] e)
  also have "\<dots> = (hdr @ [0x15, 0, 1, 0], 9)"
    by (subst lz77_loop.simps) (simp add: length_nine_zeros)
  finally show ?thesis .
qed

lemma lz77_encode_zeros: "lz77_encode nine_zeros = Some [9, 0, 0, 0, 0x15, 0, 1, 0]"
  by (simp add: lz77_encode_def MIN_MATCH_def MAX_LZ77_INPUT_SIZE_def
      MAX_DECOMPRESSED_BLOCK_SIZE_def length_nine_zeros lz77_loop_zeros u32_to_le_def)
    code_simp

end
