(* ===== verification/Order0.thy ===== *)
theory Order0
  imports Predictor Fenwick Bytes
begin

text \<open>
  The order-0 adaptive frequency model, \<open>src/aether-core/src/entropy/order0.rs\<close>. Counts and totals
  are natural numbers: \<open>order0_inv\<close> keeps them below \<open>2 ^ 32\<close>, so the 32-bit additions of the code
  never wrap. The casts the code makes are written out. The model's two fast paths are shown to agree
  with the full table, and the multiply-and-shift division to be exact.
\<close>

section \<open>Exact division\<close>

definition MAX_MAGIC_TOTAL :: nat where "MAX_MAGIC_TOTAL = 2 ^ 20"
definition DIV_SHIFT :: nat where "DIV_SHIFT = 56"

record exact_divisor =
  ed_total :: nat
  ed_magic :: nat
  ed_exact :: bool

definition exact_divisor_new :: "nat \<Rightarrow> exact_divisor" where
  "exact_divisor_new tot =
     (let exact = tot > 0 \<and> tot \<le> MAX_MAGIC_TOTAL;
          magic = (if exact then 2 ^ DIV_SHIFT div tot + 1 else 0)
      in \<lparr>ed_total = tot, ed_magic = magic, ed_exact = exact\<rparr>)"

definition exact_div :: "exact_divisor \<Rightarrow> nat \<Rightarrow> nat" where
  "exact_div d n =
     (if ed_exact d then (n * ed_magic d div 2 ^ DIV_SHIFT) mod 2 ^ 64 else n div ed_total d)"

section \<open>The model\<close>

record order0 =
  o_counts :: "nat list"
  o_fenwick :: "nat list"
  o_total :: nat

definition order0_new :: order0 where
  "order0_new =
     \<lparr>o_counts = replicate 256 1, o_fenwick = fenwick_rebuild (replicate 256 1), o_total = 256\<rparr>"

definition quantize_boundary :: "exact_divisor \<Rightarrow> nat \<Rightarrow> nat \<Rightarrow> nat" where
  "quantize_boundary divisor cum symbol_index =
     symbol_index + exact_div divisor (cum * (unat PROB_TOTAL - 256)) mod 2 ^ 32"

fun order0_entries :: "exact_divisor \<Rightarrow> nat \<Rightarrow> nat \<Rightarrow> nat list \<Rightarrow> u16 list" where
  "order0_entries divisor cum i [] = []"
| "order0_entries divisor cum i (c # cs) =
     of_nat (quantize_boundary divisor cum i) # order0_entries divisor (cum + c) (i + 1) cs"

definition order0_predict_cdf :: "order0 \<Rightarrow> u16 list \<times> order0" where
  "order0_predict_cdf m =
     (order0_entries (exact_divisor_new (o_total m)) 0 0 (o_counts m) @ [ucast PROB_TOTAL], m)"

definition order0_update :: "u8 \<Rightarrow> order0 \<Rightarrow> order0" where
  "order0_update byte m =
     (let b = unat byte;
          counts = (o_counts m)[b := o_counts m ! b + 1];
          tot = o_total m + 1
      in if tot > 1000000 then
           let counts = map (\<lambda>c. max (c div 2) 1) counts
           in \<lparr>o_counts = counts, o_fenwick = fenwick_rebuild counts, o_total = sum_list counts\<rparr>
         else m\<lparr>o_counts := counts, o_total := tot, o_fenwick := fenwick_add (o_fenwick m) b 1\<rparr>)"

definition order0_reset :: "order0 \<Rightarrow> order0" where
  "order0_reset m =
     m\<lparr>o_counts := replicate 256 1, o_fenwick := fenwick_rebuild (replicate 256 1), o_total := 256\<rparr>"

definition order0_query_cdf :: "u8 \<Rightarrow> order0 \<Rightarrow> (u16 \<times> u16) \<times> order0" where
  "order0_query_cdf byte m =
     (let s = unat byte;
          divisor = exact_divisor_new (o_total m);
          cum = fenwick_prefix (o_fenwick m) s;
          lo = of_nat (quantize_boundary divisor cum s);
          hi = (if s = 255 then ucast PROB_TOTAL
                else of_nat (quantize_boundary divisor (cum + o_counts m ! s) (s + 1)))
      in ((lo, hi), m))"

text \<open>One step of the binary lifting: \<open>(lo, cum, lo_value, hi_value)\<close>.\<close>

definition lift_step ::
    "exact_divisor \<Rightarrow> nat list \<Rightarrow> nat \<Rightarrow> nat \<Rightarrow> nat \<times> nat \<times> nat \<times> nat \<Rightarrow> nat \<times> nat \<times> nat \<times> nat" where
  "lift_step divisor fenwick freq step st =
     (let (lo, cum, lo_value, hi_value) = st;
          cand = lo + step;
          cand_cum = cum + fenwick ! (cand - 1);
          mid_value = quantize_boundary divisor cand_cum cand
      in if mid_value \<le> freq then (cand, cand_cum, mid_value, hi_value)
         else (lo, cum, lo_value, mid_value))"

definition order0_decode_symbol :: "u32 \<Rightarrow> order0 \<Rightarrow> (u8 \<times> u16 \<times> u16) \<times> order0" where
  "order0_decode_symbol freq m =
     (let divisor = exact_divisor_new (o_total m);
          (lo, cum, lo_value, hi_value) =
            fold (lift_step divisor (o_fenwick m) (unat freq)) [128, 64, 32, 16, 8, 4, 2, 1]
              (0, 0, 0, unat PROB_TOTAL)
      in ((of_nat lo, of_nat lo_value, of_nat hi_value), m))"

definition order0_predictor :: "order0 predictor" where
  "order0_predictor =
     \<lparr>query_cdf = order0_query_cdf, decode_symbol = order0_decode_symbol,
      update_byte = order0_update, reset_state = order0_reset\<rparr>"

section \<open>Saved state\<close>

definition ORDER0_MAX_COUNT :: nat where "ORDER0_MAX_COUNT = 2000000"

definition order0_save_state :: "order0 \<Rightarrow> bytes" where
  "order0_save_state m = 1 # concat (map (\<lambda>c. u32_to_le (of_nat c)) (o_counts m))"

primrec order0_parse_counts :: "nat \<Rightarrow> bytes \<Rightarrow> nat list option" where
  "order0_parse_counts 0 data = Some []"
| "order0_parse_counts (Suc n) data =
     (let c = unat (u32_of_le (take 4 data))
      in if c = 0 then None
         else if c > ORDER0_MAX_COUNT then None
         else map_option ((#) c) (order0_parse_counts n (drop 4 data)))"

definition order0_load_state :: "bytes \<Rightarrow> order0 \<Rightarrow> bool \<times> order0" where
  "order0_load_state data m =
     (if length data \<noteq> 1 + 256 * 4 then (False, m)
      else if data ! 0 \<noteq> 1 then (False, m)
      else
        case order0_parse_counts 256 (drop 1 data) of
          None \<Rightarrow> (False, m)
        | Some counts \<Rightarrow>
            if sum_list counts > 2 ^ 32 - 1 then (False, m)
            else (True, m\<lparr>o_counts := counts, o_fenwick := fenwick_rebuild counts,
                          o_total := sum_list counts\<rparr>))"

section \<open>The division is exact\<close>

lemma magic_division_aux:
  fixes n t :: nat
  assumes n: "n = q * t + r" and r: "r < t" and M: "K + e = M * t" and e: "e \<le> t" and small: "n * t < K"
  shows "n * M div K = q"
proof -
  have "n * M = q * (M * t) + r * M" unfolding n by (simp only: algebra_simps)
  then have nM: "n * M = q * K + (q * e + r * M)" unfolding M [symmetric] by (simp only: algebra_simps)
  have "(q * e + r * M) * t = q * e * t + r * (M * t)" by (simp only: algebra_simps)
  also have "\<dots> = n * e + r * K" unfolding M [symmetric] n by (simp only: algebra_simps)
  finally have eq: "(q * e + r * M) * t = n * e + r * K" .
  have "n * e \<le> n * t" using e by simp
  then have "n * e < K" using small by linarith
  moreover have "Suc r * K \<le> t * K" using r by (intro mult_le_mono1) simp
  ultimately have "(q * e + r * M) * t < K * t" unfolding eq by (simp add: mult.commute)
  then have "q * e + r * M < K" by simp
  then show ?thesis unfolding nM by simp
qed

lemma magic_division:
  fixes n t :: nat
  assumes "0 < t" "n * t < K"
  shows "n * (K div t + 1) div K = n div t"
proof (rule magic_division_aux)
  show "n = n div t * t + n mod t" by simp
  show "n mod t < t" using assms(1) by simp
  show "K + (t - K mod t) = (K div t + 1) * t"
    using div_mult_mod_eq [of K t] mod_less_divisor [OF assms(1), of K]
    unfolding add_mult_distrib mult_1 by linarith
  show "t - K mod t \<le> t" by simp
  show "n * t < K" by (rule assms(2))
qed

lemma exact_div_correct:
  assumes "0 < tot" "n \<le> tot * 32512" "tot < 2 ^ 32"
  shows "exact_div (exact_divisor_new tot) n = n div tot"
proof -
  have q: "n div tot \<le> 32512" using div_le_mono [OF assms(2), of tot] assms(1) by simp
  show ?thesis
  proof (cases "tot \<le> MAX_MAGIC_TOTAL")
    case True
    then have "tot \<le> 2 ^ 20" by (simp add: MAX_MAGIC_TOTAL_def)
    then have "n * tot \<le> 2 ^ 20 * 32512 * 2 ^ 20"
      using assms(2) by (intro mult_le_mono order.trans [OF assms(2)]) simp_all
    then have "n * tot < 2 ^ 56" by simp
    from magic_division [OF assms(1) this] q True assms(1) show ?thesis
      by (simp add: exact_div_def exact_divisor_new_def DIV_SHIFT_def Let_def)
  next
    case False
    then show ?thesis by (simp add: exact_div_def exact_divisor_new_def Let_def)
  qed
qed

section \<open>The table\<close>

text \<open>
  Boundary \<open>i\<close> is \<open>i\<close> plus the share of the first \<open>i\<close> counts in the 32512 units that are not
  reserved.
\<close>

definition boundary :: "nat list \<Rightarrow> nat \<Rightarrow> nat \<Rightarrow> nat" where
  "boundary counts tot i = i + sum_list (take i counts) * 32512 div tot"

definition order0_inv :: "order0 \<Rightarrow> bool" where
  "order0_inv m \<longleftrightarrow> length (o_counts m) = 256 \<and> (\<forall>c \<in> set (o_counts m). 0 < c \<and> c \<le> ORDER0_MAX_COUNT)
     \<and> o_total m = sum_list (o_counts m) \<and> is_fenwick (o_fenwick m) (o_counts m)"

lemma order0_total_bounds:
  assumes "order0_inv m"
  shows "256 \<le> o_total m" "o_total m \<le> 512000000"
  using assms sum_list_bounds [of "o_counts m" 1 ORDER0_MAX_COUNT]
  by (auto simp: order0_inv_def ORDER0_MAX_COUNT_def Suc_le_eq)

lemma sum_list_take_le: "sum_list (take i cs) \<le> sum_list (cs :: nat list)"
  by (metis append_take_drop_id le_add1 sum_list_append)

lemma SCALABLE: "unat PROB_TOTAL - 256 = 32512"
  by (simp add: unat_PROB_TOTAL)

lemma quantize_boundary_eq:
  assumes "order0_inv m" "i \<le> 256"
  shows "quantize_boundary (exact_divisor_new (o_total m)) (sum_list (take i (o_counts m))) i
    = boundary (o_counts m) (o_total m) i" "boundary (o_counts m) (o_total m) i \<le> 32768"
proof -
  have t: "0 < o_total m" "o_total m < 2 ^ 32" using order0_total_bounds [OF assms(1)] by simp_all
  have le: "sum_list (take i (o_counts m)) \<le> o_total m"
    using sum_list_take_le assms(1) by (simp add: order0_inv_def)
  then have n: "sum_list (take i (o_counts m)) * 32512 \<le> o_total m * 32512" by simp
  have q: "sum_list (take i (o_counts m)) * 32512 div o_total m \<le> 32512"
    using div_le_mono [OF n, of "o_total m"] t(1) by simp
  show "quantize_boundary (exact_divisor_new (o_total m)) (sum_list (take i (o_counts m))) i
      = boundary (o_counts m) (o_total m) i"
    unfolding quantize_boundary_def SCALABLE exact_div_correct [OF t(1) n t(2)] boundary_def
    using q by simp
  show "boundary (o_counts m) (o_total m) i \<le> 32768"
    using q assms(2) by (simp add: boundary_def)
qed

lemma boundary_total: "order0_inv m \<Longrightarrow> boundary (o_counts m) (o_total m) 256 = 32768"
  using order0_total_bounds [of m] by (simp add: boundary_def order0_inv_def)

lemma boundary_less:
  assumes "i < length counts"
  shows "boundary counts tot i < boundary counts tot (Suc i)"
proof -
  have "sum_list (take i counts) * 32512 div tot \<le> sum_list (take (Suc i) counts) * 32512 div tot"
    using assms by (intro div_le_mono mult_le_mono1) (simp add: take_Suc_conv_app_nth)
  then show ?thesis by (simp add: boundary_def)
qed

lemma order0_entries_eq:
  "order0_entries d (sum_list (take (length pre) (pre @ cs))) (length pre) cs
    = map (\<lambda>i. of_nat (quantize_boundary d (sum_list (take i (pre @ cs))) i)) [length pre..<length (pre @ cs)]"
proof (induction cs arbitrary: pre)
  case (Cons c cs)
  have "[length pre..<length (pre @ c # cs)] = length pre # [length (pre @ [c])..<length ((pre @ [c]) @ cs)]"
    by (simp add: upt_conv_Cons del: upt_Suc)
  then show ?case using Cons.IH [of "pre @ [c]"] by simp
qed simp

definition order0_cdf :: "order0 \<Rightarrow> u16 list" where
  "order0_cdf m = map (\<lambda>i. of_nat (boundary (o_counts m) (o_total m) i)) [0..<257]"

lemma order0_cdf_nth:
  assumes "i \<le> 256"
  shows "order0_cdf m ! i = of_nat (boundary (o_counts m) (o_total m) i)"
  using assms unfolding order0_cdf_def by (subst nth_map) (simp_all del: upt_Suc)

lemma unat_order0_cdf:
  assumes "order0_inv m" "i \<le> 256"
  shows "unat (order0_cdf m ! i) = boundary (o_counts m) (o_total m) i"
  using quantize_boundary_eq(2) [OF assms] by (simp add: order0_cdf_nth [OF assms(2)] unat_of_nat)

lemma order0_cdf_table:
  assumes "order0_inv m"
  shows "cdf_table (order0_cdf m)"
proof -
  have "order0_cdf m ! 0 = 0" by (simp add: order0_cdf_nth boundary_def)
  moreover have "order0_cdf m ! 256 = 32768"
    using boundary_total [OF assms] by (simp add: order0_cdf_nth)
  moreover have "order0_cdf m ! i < order0_cdf m ! (i + 1)" if "i < 256" for i
    using that assms boundary_less [of i "o_counts m" "o_total m"]
    by (simp add: word_less_nat_alt unat_order0_cdf order0_inv_def)
  ultimately show ?thesis by (simp add: cdf_table_def order0_cdf_def)
qed

lemma order0_predict_cdf_eq:
  assumes "order0_inv m"
  shows "order0_predict_cdf m = (order0_cdf m, m)"
proof -
  let ?d = "exact_divisor_new (o_total m)"
  have len: "length (o_counts m) = 256" using assms by (simp add: order0_inv_def)
  have "order0_entries ?d 0 0 (o_counts m)
      = map (\<lambda>i. of_nat (quantize_boundary ?d (sum_list (take i (o_counts m))) i)) [0..<256]"
    using order0_entries_eq [of ?d "[]" "o_counts m"] by (simp add: len del: upt_Suc)
  also have "\<dots> = map (\<lambda>i. of_nat (boundary (o_counts m) (o_total m) i)) [0..<256]"
    using quantize_boundary_eq(1) [OF assms] by (intro map_cong) auto
  finally have "order0_entries ?d 0 0 (o_counts m) @ [ucast PROB_TOTAL]
      = map (\<lambda>i. of_nat (boundary (o_counts m) (o_total m) i)) ([0..<256] @ [256])"
    using boundary_total [OF assms] by (simp add: PROB_TOTAL_def PROB_BITS_def del: upt_Suc)
  moreover have "[0..<256] @ [256] = [0..<257 :: nat]"
    using upt_Suc_append [of 0 256] by (simp del: upt_Suc)
  ultimately show ?thesis by (simp only: order0_predict_cdf_def order0_cdf_def)
qed

section \<open>The fast paths\<close>

lemma order0_query_cdf_eq:
  assumes "order0_inv m"
  shows "order0_query_cdf b m = ((order0_cdf m ! unat b, order0_cdf m ! (unat b + 1)), m)"
proof -
  let ?d = "exact_divisor_new (o_total m)" and ?s = "unat b"
  have len: "length (o_counts m) = 256" "is_fenwick (o_fenwick m) (o_counts m)"
    using assms by (simp_all add: order0_inv_def)
  have s: "?s < 256" "?s \<le> 256" "Suc ?s \<le> 256" using unat_less_256 [of b] by simp_all
  have pre: "fenwick_prefix (o_fenwick m) ?s = sum_list (take ?s (o_counts m))"
    by (rule fenwick_prefix_correct [OF len(2)]) (simp add: len)
  have suc: "sum_list (take ?s (o_counts m)) + o_counts m ! ?s = sum_list (take (Suc ?s) (o_counts m))"
    using s len(1) by (simp add: take_Suc_conv_app_nth)
  have hi: "(if ?s = 255 then ucast PROB_TOTAL
        else of_nat (quantize_boundary ?d (sum_list (take (Suc ?s) (o_counts m))) (Suc ?s)))
      = order0_cdf m ! Suc ?s"
    using boundary_total [OF assms] quantize_boundary_eq(1) [OF assms s(3)]
    by (simp add: order0_cdf_nth s PROB_TOTAL_def PROB_BITS_def)
  have lo: "of_nat (quantize_boundary ?d (sum_list (take ?s (o_counts m))) ?s) = order0_cdf m ! ?s"
    using quantize_boundary_eq(1) [OF assms s(2)] by (simp add: order0_cdf_nth s)
  show ?thesis
    unfolding order0_query_cdf_def Let_def pre suc Suc_eq_plus1 [symmetric] lo hi by (rule refl)
qed

text \<open>The search interval: \<open>width\<close> halves, and the cumulative count is that of its left end.\<close>

definition lift_inv :: "order0 \<Rightarrow> nat \<Rightarrow> nat \<Rightarrow> nat \<times> nat \<times> nat \<times> nat \<Rightarrow> bool" where
  "lift_inv m freq k st \<longleftrightarrow>
     (case st of (lo, cum, lo_value, hi_value) \<Rightarrow>
        (\<exists>q. lo = q * 2 ^ k) \<and> lo + 2 ^ k \<le> 256 \<and> cum = sum_list (take lo (o_counts m))
        \<and> lo_value = boundary (o_counts m) (o_total m) lo
        \<and> hi_value = boundary (o_counts m) (o_total m) (lo + 2 ^ k)
        \<and> lo_value \<le> freq \<and> freq < hi_value)"

lemma lift_step_inv:
  assumes "order0_inv m" "lift_inv m freq (Suc k) st"
  shows "lift_inv m freq k (lift_step (exact_divisor_new (o_total m)) (o_fenwick m) freq (2 ^ k) st)"
proof -
  obtain lo cum lv hv where st: "st = (lo, cum, lv, hv)" by (cases st)
  obtain q where q: "lo = q * 2 ^ Suc k" using assms(2) by (auto simp: lift_inv_def st)
  have i: "lo + 2 * 2 ^ k \<le> 256" "cum = sum_list (take lo (o_counts m))"
      "lv = boundary (o_counts m) (o_total m) lo" "hv = boundary (o_counts m) (o_total m) (lo + 2 ^ k + 2 ^ k)"
      "lv \<le> freq" "freq < hv"
    using assms(2) by (auto simp: lift_inv_def st mult_2 add.assoc)
  let ?c = "lo + 2 ^ k"
  have c: "0 < ?c" "?c \<le> 256" using i(1) by simp_all
  have cform: "?c = (2 * q + 1) * 2 ^ k" by (simp add: q algebra_simps)
  then have low: "low2 ?c = 2 ^ k" by (simp only: low2_odd_power)
  have f: "is_fenwick (o_fenwick m) (o_counts m)" "length (o_counts m) = 256"
    using assms(1) by (simp_all add: order0_inv_def)
  then have "o_fenwick m ! (?c - 1) = range_sum (o_counts m) lo ?c"
    using c low by (auto simp: is_fenwick_def)
  then have cum: "cum + o_fenwick m ! (?c - 1) = sum_list (take ?c (o_counts m))"
    using range_sum_split [of 0 lo ?c "o_counts m"] i(2) by (simp add: range_sum_prefix)
  have v: "quantize_boundary (exact_divisor_new (o_total m)) (sum_list (take ?c (o_counts m))) ?c
      = boundary (o_counts m) (o_total m) ?c"
    by (rule quantize_boundary_eq(1) [OF assms(1) c(2)])
  have "\<exists>p. lo = p * 2 ^ k" by (rule exI [of _ "2 * q"]) (simp add: q)
  moreover have "\<exists>p. ?c = p * 2 ^ k" using cform by blast
  ultimately show ?thesis
    unfolding st lift_step_def Let_def prod.case cum v lift_inv_def using i c
    by (simp add: not_le split: if_splits)
qed

lemma lift_fold_inv:
  assumes "order0_inv m" "lift_inv m freq k st"
  shows "lift_inv m freq 0
    (fold (lift_step (exact_divisor_new (o_total m)) (o_fenwick m) freq) (map (\<lambda>i. 2 ^ i) (rev [0..<k])) st)"
  using assms(2)
proof (induction k arbitrary: st)
  case (Suc k)
  from Suc.IH [OF lift_step_inv [OF assms(1) Suc.prems]] show ?case by simp
qed simp

lemma lift_steps: "[128, 64, 32, 16, 8, 4, 2, 1] = map (\<lambda>i. (2 :: nat) ^ i) (rev [0..<8 :: nat])"
  by (simp add: upt_rec)

lemma order0_decode_symbol_correct:
  assumes "order0_inv m" "unat freq < 32768" "in_interval (order0_cdf m) t freq"
  shows "order0_decode_symbol freq m = ((of_nat t, order0_cdf m ! t, order0_cdf m ! (t + 1)), m)"
proof -
  have start: "lift_inv m (unat freq) 8 (0, 0, 0, unat PROB_TOTAL)"
    using assms(2) boundary_total [OF assms(1)]
    by (simp add: lift_inv_def unat_PROB_TOTAL) (simp add: boundary_def)
  obtain lo cum lv hv where r: "fold (lift_step (exact_divisor_new (o_total m)) (o_fenwick m) (unat freq))
      [128, 64, 32, 16, 8, 4, 2, 1] (0, 0, 0, unat PROB_TOTAL) = (lo, cum, lv, hv)"
    by (metis prod_cases4)
  have "lift_inv m (unat freq) 0 (lo, cum, lv, hv)"
    using lift_fold_inv [OF assms(1) start] r unfolding lift_steps by simp
  then have i: "lo < 256" "lv = boundary (o_counts m) (o_total m) lo"
      "hv = boundary (o_counts m) (o_total m) (Suc lo)" "lv \<le> unat freq" "unat freq < hv"
    by (auto simp: lift_inv_def)
  have "in_interval (order0_cdf m) lo freq"
    using i by (simp add: in_interval_def unat_order0_cdf [OF assms(1)])
  then have "lo = t" using in_interval_unique [OF order0_cdf_table [OF assms(1)]] assms(3) by blast
  then show ?thesis
    unfolding order0_decode_symbol_def Let_def r prod.case using i by (simp add: order0_cdf_nth)
qed

section \<open>The invariant\<close>

lemma order0_new_inv: "order0_inv order0_new"
  using fenwick_rebuild_correct [of "replicate 256 1"]
  by (simp add: order0_inv_def order0_new_def ORDER0_MAX_COUNT_def sum_list_replicate)

lemma order0_reset_new: "order0_reset m = order0_new"
  by (simp add: order0_reset_def order0_new_def)

lemma order0_update_inv:
  assumes "order0_inv m"
  shows "order0_inv (order0_update byte m)"
proof -
  let ?b = "unat byte"
  let ?counts = "(o_counts m)[?b := o_counts m ! ?b + 1]"
  have inv: "length (o_counts m) = 256" "\<And>c. c \<in> set (o_counts m) \<Longrightarrow> 0 < c \<and> c \<le> ORDER0_MAX_COUNT"
      "o_total m = sum_list (o_counts m)" "is_fenwick (o_fenwick m) (o_counts m)"
    using assms by (auto simp: order0_inv_def)
  have b: "?b < length (o_counts m)" using inv(1) by simp
  have s: "sum_list ?counts = o_total m + 1"
    using sum_list_update_nat [OF b, of "o_counts m ! ?b + 1"] inv(3) by simp
  have c: "0 < c \<and> c \<le> ORDER0_MAX_COUNT + 1" if "c \<in> set ?counts" for c
    using set_update_subset_insert [THEN subsetD, OF that] inv(2) [OF nth_mem [OF b]] inv(2) [of c] by auto
  show ?thesis
  proof (cases "o_total m + 1 > 1000000")
    case True
    let ?half = "map (\<lambda>c. max (c div 2) 1) ?counts"
    have "0 < h \<and> h \<le> ORDER0_MAX_COUNT" if h: "h \<in> set ?half" for h
    proof -
      obtain c where "c \<in> set ?counts" "h = max (c div 2) 1"
        using h unfolding set_map by (elim imageE)
      then show ?thesis using c [of c] by (auto simp: ORDER0_MAX_COUNT_def)
    qed
    moreover have "is_fenwick (fenwick_rebuild ?half) ?half"
      by (rule fenwick_rebuild_correct) (simp add: inv)
    moreover have "order0_update byte m
        = \<lparr>o_counts = ?half, o_fenwick = fenwick_rebuild ?half, o_total = sum_list ?half\<rparr>"
      using True by (simp add: order0_update_def Let_def)
    ultimately show ?thesis using inv(1) by (simp only: order0_inv_def order0.simps length_map length_list_update) blast
  next
    case False
    have "0 < h \<and> h \<le> ORDER0_MAX_COUNT" if h: "h \<in> set ?counts" for h
      using c [OF h] member_le_sum_list [OF h] s False by (simp add: ORDER0_MAX_COUNT_def)
    moreover have "is_fenwick (fenwick_add (o_fenwick m) ?b 1) ?counts"
      by (rule fenwick_add_correct [OF inv(4) b])
    moreover have "order0_update byte m
        = m\<lparr>o_counts := ?counts, o_total := o_total m + 1, o_fenwick := fenwick_add (o_fenwick m) ?b 1\<rparr>"
      using False by (simp add: order0_update_def Let_def)
    ultimately show ?thesis using inv(1) s by (simp add: order0_inv_def)
  qed
qed

interpretation o0: lawful_predictor order0_predictor order0_inv order0_cdf
proof
  show "order0_inv s \<Longrightarrow> order0_inv (reset_state order0_predictor s)" for s
    by (simp add: order0_predictor_def order0_reset_new order0_new_inv)
qed (simp_all add: order0_predictor_def order0_cdf_table order0_query_cdf_eq order0_update_inv
    order0_decode_symbol_correct)

interpretation o0_slow: cdf_predictor order0_predict_cdf order0_update order0_reset order0_inv order0_cdf
  by unfold_locales (simp_all add: order0_reset_new order0_new_inv order0_cdf_table
      order0_predict_cdf_eq order0_update_inv)

lemma order0_reset_state: "reset_state order0_predictor m = order0_new"
  by (simp add: order0_predictor_def order0_reset_new)

section \<open>Saved state\<close>

lemma parse_counts_save:
  assumes "\<forall>c \<in> set cs. 0 < c \<and> c \<le> ORDER0_MAX_COUNT"
  shows "order0_parse_counts (length cs) (concat (map (\<lambda>c. u32_to_le (of_nat c)) cs)) = Some cs"
  using assms
proof (induction cs)
  case (Cons c cs)
  have "unat (of_nat c :: u32) = c"
    using Cons.prems by (intro unat_of_nat_small) (auto simp: ORDER0_MAX_COUNT_def)
  then show ?case using Cons by simp
qed simp

lemma length_save_state: "length (order0_save_state m) = 1 + length (o_counts m) * 4"
  by (simp add: order0_save_state_def length_concat o_def sum_list_triv)

lemma order0_load_save:
  assumes "order0_inv m"
  shows "order0_load_state (order0_save_state m) m0 = (True, m)"
proof -
  have inv: "length (o_counts m) = 256" "\<forall>c \<in> set (o_counts m). 0 < c \<and> c \<le> ORDER0_MAX_COUNT"
      "o_total m = sum_list (o_counts m)" "is_fenwick (o_fenwick m) (o_counts m)"
    using assms by (auto simp: order0_inv_def)
  have "order0_parse_counts 256 (drop 1 (order0_save_state m)) = Some (o_counts m)"
    using parse_counts_save [OF inv(2)] by (simp add: order0_save_state_def inv(1))
  moreover have "fenwick_rebuild (o_counts m) = o_fenwick m"
    by (rule is_fenwick_unique [OF fenwick_rebuild_correct inv(4)]) (simp add: inv(1))
  moreover have "sum_list (o_counts m) \<le> 2 ^ 32 - 1"
    using order0_total_bounds(2) [OF assms] inv(3) by simp
  moreover have "order0_save_state m ! 0 = 1" by (simp add: order0_save_state_def)
  moreover have "length (order0_save_state m) = 1 + 256 * 4" using length_save_state [of m] inv(1) by simp
  ultimately show ?thesis using inv(3) by (simp add: order0_load_state_def del: One_nat_def)
qed

text \<open>Whatever bytes are loaded, an accepted state is well formed.\<close>

lemma parse_counts_bounds:
  "order0_parse_counts n data = Some cs \<Longrightarrow> length cs = n \<and> (\<forall>c \<in> set cs. 0 < c \<and> c \<le> ORDER0_MAX_COUNT)"
  by (induction n arbitrary: data cs) (auto simp: Let_def split: if_splits)

lemma order0_load_inv:
  assumes "order0_load_state data m0 = (True, m)"
  shows "order0_inv m"
proof -
  obtain cs where cs: "order0_parse_counts 256 (drop 1 data) = Some cs"
      "m = m0\<lparr>o_counts := cs, o_fenwick := fenwick_rebuild cs, o_total := sum_list cs\<rparr>"
    using assms by (auto simp: order0_load_state_def split: if_splits option.splits)
  then show ?thesis
    using parse_counts_bounds [OF cs(1)] fenwick_rebuild_correct [of cs] by (simp add: order0_inv_def)
qed

lemma order0_load_rejected: "order0_load_state data m0 = (False, m) \<Longrightarrow> m = m0"
  by (auto simp: order0_load_state_def split: if_splits option.splits)

end
