(* ===== verification/BytePlane.thy ===== *)
theory BytePlane
  imports Order0 Complex_Main
begin

unbundle bit_operations_syntax

text \<open>
  Byte-plane splitting for numeric data, \<open>src/aether-core/src/coding/byteplane_preprocess.rs\<close>. The
  decisions rest on \<open>shannon_entropy\<close>, a floating-point sum of logarithms: it is the parameter
  \<open>H\<close>, and what is proved holds whatever it returns.
\<close>

section \<open>Planes\<close>

definition MIN_BYTEPLANE_SIZE :: nat where "MIN_BYTEPLANE_SIZE = 64"
definition PLANE_COMPRESS_THRESHOLD :: real where "PLANE_COMPRESS_THRESHOLD = 7"
definition DELTA_BENEFIT_THRESHOLD :: real where "DELTA_BENEFIT_THRESHOLD = 1 / 10"

type_synonym entropy_fun = "bytes \<Rightarrow> real"

datatype byte_plane_width = Two | Four

definition width_from_u8 :: "u8 \<Rightarrow> byte_plane_width option" where
  "width_from_u8 v = (if v = 2 then Some Two else if v = 4 then Some Four else None)"

fun planes_of :: "byte_plane_width \<Rightarrow> nat" where
  "planes_of Two = 2"
| "planes_of Four = 4"

definition byteplane_split :: "bytes \<Rightarrow> byte_plane_width \<Rightarrow> bytes list \<times> bytes" where
  "byteplane_split data width =
     (let w = planes_of width;
          n_elements = length data div w
      in (map (\<lambda>p. map (\<lambda>i. data ! (i * w + p)) [0..<n_elements]) [0..<w],
          drop (n_elements * w) data))"

definition byteplane_merge :: "bytes list \<Rightarrow> bytes \<Rightarrow> bytes" where
  "byteplane_merge planes tail =
     (if planes = [] then tail
      else
        let n_elements = length (planes ! 0)
        in concat (map (\<lambda>i. map (\<lambda>plane. plane ! i) planes) [0..<n_elements]) @ tail)"

fun delta_encode_from :: "u8 \<Rightarrow> bytes \<Rightarrow> bytes" where
  "delta_encode_from prev [] = []"
| "delta_encode_from prev (b # bs) = (b - prev) # delta_encode_from b bs"

fun delta_encode :: "bytes \<Rightarrow> bytes" where
  "delta_encode [] = []"
| "delta_encode (b # bs) = b # delta_encode_from b bs"

fun delta_decode_from :: "u8 \<Rightarrow> bytes \<Rightarrow> bytes" where
  "delta_decode_from prev [] = []"
| "delta_decode_from prev (d # ds) = (d + prev) # delta_decode_from (d + prev) ds"

fun delta_decode :: "bytes \<Rightarrow> bytes" where
  "delta_decode [] = []"
| "delta_decode (b # bs) = b # delta_decode_from b bs"

section \<open>Decisions\<close>

definition min_sampled_plane_entropy ::
    "entropy_fun \<Rightarrow> bytes \<Rightarrow> byte_plane_width \<Rightarrow> real option" where
  "min_sampled_plane_entropy H data width =
     (let w = planes_of width;
          n_elements = length data div w
      in if n_elements < 32 then None
         else
           let sample_size = min n_elements 1024
           in Some (foldl (\<lambda>m p. min m (H (map (\<lambda>i. data ! (i * w + p)) [0..<sample_size])))
                (H (map (\<lambda>i. data ! (i * w)) [0..<sample_size])) [1..<w]))"

definition is_byteplane_beneficial :: "entropy_fun \<Rightarrow> bytes \<Rightarrow> byte_plane_width \<Rightarrow> bool" where
  "is_byteplane_beneficial H data width =
     (if length data < MIN_BYTEPLANE_SIZE then False
      else case min_sampled_plane_entropy H data width of
             None \<Rightarrow> False
           | Some min_plane_entropy \<Rightarrow> H data - min_plane_entropy > 3 / 2)"

fun flag_bits :: "nat \<Rightarrow> bool list \<Rightarrow> u8 \<Rightarrow> u8" where
  "flag_bits i [] flags = flags"
| "flag_bits i (b # bs) flags = flag_bits (i + 1) bs (if b then flags OR push_bit i 1 else flags)"

definition has_flag :: "u8 \<Rightarrow> nat \<Rightarrow> bool" where
  "has_flag flags i = (drop_bit i flags AND 1 = 1)"

definition classify_planes :: "entropy_fun \<Rightarrow> bytes list \<Rightarrow> u8" where
  "classify_planes H planes =
     flag_bits 0 (map (\<lambda>plane. plane \<noteq> [] \<and> H plane < PLANE_COMPRESS_THRESHOLD) planes) 0"

definition should_delta :: "entropy_fun \<Rightarrow> bytes \<Rightarrow> bool" where
  "should_delta H plane =
     (if length plane < 16 then False
      else H (delta_encode plane) + DELTA_BENEFIT_THRESHOLD < H plane)"

definition detect_numeric_width :: "entropy_fun \<Rightarrow> bytes \<Rightarrow> byte_plane_width option" where
  "detect_numeric_width H data =
     (if length data < MIN_BYTEPLANE_SIZE then None
      else
        map_option fst
          (foldl (\<lambda>best width.
             case min_sampled_plane_entropy H data width of
               None \<Rightarrow> best
             | Some min_plane_entropy \<Rightarrow>
                 let benefit = H data - min_plane_entropy
                 in if benefit > 3 / 2
                       \<and> (case best of None \<Rightarrow> True | Some (_, b) \<Rightarrow> benefit > b + 1 / 4)
                    then Some (width, benefit) else best)
             None [Two, Four]))"

section \<open>Payload\<close>

definition encode_plane :: "u8 \<Rightarrow> nat \<times> bytes \<Rightarrow> bytes option" where
  "encode_plane rc_flags ip =
     (let (i, plane) = ip
      in if has_flag rc_flags i then
           case encode_block order0_predictor plane order0_new of
             None \<Rightarrow> None
           | Some (Inr rc_bytes, _) \<Rightarrow>
               Some (if length rc_bytes < length plane then rc_bytes else plane)
           | Some (Inl _, _) \<Rightarrow> Some plane
         else Some plane)"

definition byteplane_encode :: "entropy_fun \<Rightarrow> bytes \<Rightarrow> byte_plane_width \<Rightarrow> bytes option option" where
  "byteplane_encode H data width =
     (if length data < MIN_BYTEPLANE_SIZE \<or> length data > MAX_DECOMPRESSED_BLOCK_SIZE then Some None
      else
        let (planes, tail) = byteplane_split data width;
            w = planes_of width;
            delta_flags = flag_bits 0 (map (should_delta H) planes) 0;
            maybe_delta_planes = map (\<lambda>plane. if should_delta H plane then delta_encode plane else plane) planes;
            rc_flags = classify_planes H maybe_delta_planes
        in if rc_flags = 0 then Some None
           else
             case those (map (encode_plane rc_flags) (List.enumerate 0 maybe_delta_planes)) of
               None \<Rightarrow> None
             | Some encoded_planes \<Rightarrow>
                 let actual_rc_flags =
                       flag_bits 0 (map (\<lambda>(i, enc, orig). length enc < length orig \<and> has_flag rc_flags i)
                         (List.enumerate 0 (zip encoded_planes maybe_delta_planes))) 0;
                     combined_flags = actual_rc_flags OR push_bit 4 delta_flags;
                     total_size = 2 + 4 * w + sum_list (map length encoded_planes) + length tail
                 in if total_size \<ge> length data then Some None
                    else Some (Some
                      ([of_nat w, combined_flags]
                       @ concat (map (\<lambda>ep. u32_to_le (of_nat (length ep))) encoded_planes)
                       @ concat encoded_planes @ tail)))"

text \<open>The size fields, read in order.\<close>

primrec read_plane_sizes :: "nat \<Rightarrow> bytes \<Rightarrow> (nat list) result" where
  "read_plane_sizes 0 s = Inr []"
| "read_plane_sizes (Suc n) s =
     (let psize = unat (u32_of_le (take 4 s))
      in if psize > MAX_DECOMPRESSED_BLOCK_SIZE then
           Inl (ResourceLimitExceeded ''BytePlane plane {} size {} exceeds safety limit {}'')
         else bindR (read_plane_sizes n (drop 4 s)) (\<lambda>sizes. Inr (psize # sizes)))"

fun plane_views :: "nat list \<Rightarrow> bytes \<Rightarrow> bytes list" where
  "plane_views [] s = []"
| "plane_views (psize # sizes) s = take psize s # plane_views sizes (drop psize s)"

definition decode_plane :: "u8 \<Rightarrow> u8 \<Rightarrow> nat \<Rightarrow> nat \<times> bytes \<Rightarrow> bytes run" where
  "decode_plane rc_flags delta_flags n_elements ip =
     (let (i, plane_data) = ip
      in bindRun
           (if has_flag rc_flags i then
              map_option fst (decode_block order0_predictor plane_data n_elements order0_new)
            else if length plane_data \<noteq> n_elements then
              Some (Inl (Decompression ''BytePlane raw plane {} size mismatch: {} vs expected {}''))
            else Some (Inr plane_data))
           (\<lambda>plane. Some (Inr (if has_flag delta_flags i then delta_decode plane else plane))))"

definition byteplane_decode :: "bytes \<Rightarrow> nat \<Rightarrow> bytes run" where
  "byteplane_decode payload uncompressed_size =
     (case payload of
        width_byte # combined_flags # s \<Rightarrow>
          (case width_from_u8 width_byte of
             None \<Rightarrow> Some (Inl (Decompression ''BytePlane: invalid width byte {}''))
           | Some width \<Rightarrow>
               let rc_flags = combined_flags AND 0x0F;
                   delta_flags = drop_bit 4 combined_flags;
                   w = planes_of width
               in if length payload < 2 + 4 * w then
                    Some (Inl (Decompression ''BytePlane payload too short for {} plane sizes: {} bytes''))
                  else
                    bindRun (Some (read_plane_sizes w s)) (\<lambda>plane_sizes.
                      let n_elements = uncompressed_size div w;
                          tail_len = uncompressed_size mod w;
                          expected_payload_len = 2 + 4 * w + sum_list plane_sizes + tail_len
                      in if length payload < expected_payload_len then
                           Some (Inl (Decompression ''BytePlane payload too short: need {} bytes, have {}''))
                         else
                           let body = drop (4 * w) s;
                               views = plane_views plane_sizes body;
                               tail = take tail_len (drop (sum_list plane_sizes) body)
                           in bindRun (mapRun (decode_plane rc_flags delta_flags n_elements)
                                         (List.enumerate 0 views)) (\<lambda>planes.
                                let result = byteplane_merge planes tail
                                in if length result \<noteq> uncompressed_size then
                                     Some (Inl (Decompression
                                       ''BytePlane size mismatch after merge: got {} expected {}''))
                                   else Some (Inr result))))
      | _ \<Rightarrow> Some (Inl (Decompression ''BytePlane payload too short: missing header'')))"

section \<open>Splitting and merging\<close>

lemma planes_of_bounds: "0 < planes_of width" "planes_of width \<le> 4"
  by (cases width; simp)+

lemma width_round_trip: "width_from_u8 (of_nat (planes_of width)) = Some width"
  by (cases width) (simp_all add: width_from_u8_def)

lemma concat_rows:
  "n * w \<le> length d \<Longrightarrow> concat (map (\<lambda>i. map (\<lambda>j. d ! (i * w + j)) [0..<w]) [0..<n]) = take (n * w) d"
proof (induction n)
  case (Suc n)
  have "map (\<lambda>j. d ! (n * w + j)) [0..<w] = take w (drop (n * w) d)"
    using Suc.prems by (intro nth_equalityI) auto
  moreover have "take (Suc n * w) d = take (n * w) d @ take w (drop (n * w) d)"
    using take_add [of "n * w" w d] by (simp only: mult_Suc add.commute)
  moreover have "n * w \<le> length d" using Suc.prems by simp
  ultimately show ?case using Suc.IH by (simp del: mult_Suc)
qed simp

lemma byteplane_split_shape:
  assumes "byteplane_split data width = (planes, tail)"
  shows "length planes = planes_of width" "length tail = length data mod planes_of width"
    "plane \<in> set planes \<Longrightarrow> length plane = length data div planes_of width"
  using assms by (auto simp: byteplane_split_def Let_def minus_div_mult_eq_mod)

lemma byteplane_merge_split:
  assumes "byteplane_split data width = (planes, tail)"
  shows "byteplane_merge planes tail = data"
proof -
  let ?w = "planes_of width" and ?n = "length data div planes_of width"
  have p: "planes = map (\<lambda>p. map (\<lambda>i. data ! (i * ?w + p)) [0..<?n]) [0..<?w]" "tail = drop (?n * ?w) data"
    using assms by (simp_all add: byteplane_split_def Let_def)
  have ne: "planes \<noteq> []" "length (planes ! 0) = ?n" using planes_of_bounds(1) [of width] by (simp_all add: p)
  have "map (\<lambda>i. map (\<lambda>plane. plane ! i) planes) [0..<?n]
      = map (\<lambda>i. map (\<lambda>j. data ! (i * ?w + j)) [0..<?w]) [0..<?n]"
    by (intro map_cong) (auto simp: p)
  then have "concat (map (\<lambda>i. map (\<lambda>plane. plane ! i) planes) [0..<?n]) = take (?n * ?w) data"
    using concat_rows [of ?n ?w data] by (simp only:) simp
  then show ?thesis using ne by (simp add: byteplane_merge_def Let_def p(2))
qed

lemma delta_decode_encode_from: "delta_decode_from prev (delta_encode_from prev bs) = bs"
  by (induction bs arbitrary: prev) simp_all

lemma delta_decode_encode: "delta_decode (delta_encode plane) = plane"
  by (cases plane) (simp_all add: delta_decode_encode_from)

lemma length_delta_encode_from [simp]: "length (delta_encode_from prev bs) = length bs"
  by (induction bs arbitrary: prev) simp_all

lemma length_delta_encode [simp]: "length (delta_encode plane) = length plane"
  by (cases plane) simp_all

section \<open>Flags\<close>

lemma bit_flag_bits:
  "bit (flag_bits i bs flags) n \<longleftrightarrow> bit flags n \<or> (i \<le> n \<and> n < 8 \<and> n - i < length bs \<and> bs ! (n - i))"
proof (induction bs arbitrary: i flags)
  case (Cons b bs)
  have "(i + 1 \<le> n \<and> n < 8 \<and> n - (i + 1) < length bs \<and> bs ! (n - (i + 1))) \<or> (b \<and> n = i \<and> n < 8)
      \<longleftrightarrow> i \<le> n \<and> n < 8 \<and> n - i < length (b # bs) \<and> (b # bs) ! (n - i)"
  proof (cases "i < n")
    case True
    then have "n - i = Suc (n - (i + 1))" by simp
    with True show ?thesis by auto
  qed auto
  then show ?case by (auto simp: Cons bit_simps)
qed simp

lemma has_flag_bit: "has_flag flags i \<longleftrightarrow> bit flags i"
  unfolding has_flag_def by (simp add: bit_iff_odd_drop_bit and_one_eq odd_iff_mod_2_eq_one)

lemma has_flag_flag_bits: "i < length bs \<Longrightarrow> length bs \<le> 8 \<Longrightarrow> has_flag (flag_bits 0 bs 0) i \<longleftrightarrow> bs ! i"
  by (simp add: has_flag_bit bit_flag_bits)

lemma combined_flags:
  assumes "i < 4" "length as \<le> 4"
  shows "has_flag ((flag_bits 0 as 0 OR push_bit 4 d) AND 0x0F) i \<longleftrightarrow> has_flag (flag_bits 0 as 0) i"
    and "has_flag (drop_bit 4 (flag_bits 0 as 0 OR push_bit 4 d)) i \<longleftrightarrow> has_flag d i"
proof -
  have m: "(0x0F :: u8) = mask 4" by (simp add: mask_eq_exp_minus_1)
  show "has_flag ((flag_bits 0 as 0 OR push_bit 4 d) AND 0x0F) i \<longleftrightarrow> has_flag (flag_bits 0 as 0) i"
    unfolding has_flag_bit m using assms by (auto simp: bit_simps)
  show "has_flag (drop_bit 4 (flag_bits 0 as 0 OR push_bit 4 d)) i \<longleftrightarrow> has_flag d i"
    unfolding has_flag_bit using assms by (auto simp: bit_simps bit_flag_bits)
qed

section \<open>Round trip\<close>

text \<open>The order-0 block coder on one plane.\<close>

lemma order0_block_round_trip:
  assumes "encode_block order0_predictor data order0_new = Some (Inr enc, s')" "length data \<le> MAX_DECODE_SIZE"
  shows "map_option fst (decode_block order0_predictor enc (length data) order0_new) = Some (Inr data)"
  using o0.decode_encode_inner [OF order0_new_inv assms(1) [unfolded encode_block_def] assms(2), of order0_new]
  by (auto simp: decode_block_def)

lemma encode_plane_cases:
  assumes "encode_plane rc_flags (i, plane) = Some enc"
  shows "length enc \<le> length plane"
    and "has_flag rc_flags i \<and> length enc < length plane \<Longrightarrow>
      \<exists>s'. encode_block order0_predictor plane order0_new = Some (Inr enc, s')"
    and "\<not> (length enc < length plane \<and> has_flag rc_flags i) \<Longrightarrow> enc = plane"
  using assms
  by (auto simp: encode_plane_def split: if_splits option.splits prod.splits sum.splits)

lemma decode_plane_encode:
  assumes "encode_plane rc_flags (i, plane) = Some enc" "length plane \<le> MAX_DECODE_SIZE"
    and "has_flag actual i \<longleftrightarrow> length enc < length plane \<and> has_flag rc_flags i"
  shows "decode_plane actual delta_flags (length plane) (i, enc)
    = Some (Inr (if has_flag delta_flags i then delta_decode plane else plane))"
proof (cases "has_flag actual i")
  case True
  then obtain s' where "encode_block order0_predictor plane order0_new = Some (Inr enc, s')"
    using assms(3) encode_plane_cases(2) [OF assms(1)] by blast
  from order0_block_round_trip [OF this assms(2)] True show ?thesis
    by (simp only: decode_plane_def Let_def prod.case if_True bindRun_simps)
next
  case False
  then have "enc = plane" using assms(3) encode_plane_cases(3) [OF assms(1)] by blast
  then show ?thesis using False by (simp add: decode_plane_def)
qed

lemma those_nth:
  "those xs = Some ys \<Longrightarrow> length ys = length xs \<and> (\<forall>i < length xs. xs ! i = Some (ys ! i))"
proof (induction xs arbitrary: ys)
  case (Cons x xs)
  then obtain y zs where "x = Some y" "those xs = Some zs" "ys = y # zs"
    by (auto split: option.splits)
  then show ?case using Cons.IH by (auto simp: nth_Cons split: nat.splits)
qed simp

lemma read_plane_sizes_encode:
  "\<forall>e \<in> set eps. length e \<le> MAX_DECOMPRESSED_BLOCK_SIZE \<Longrightarrow>
   read_plane_sizes (length eps) (concat (map (\<lambda>e. u32_to_le (of_nat (length e))) eps) @ s)
     = Inr (map length eps)"
proof (induction eps)
  case (Cons e eps)
  have "unat (of_nat (length e) :: u32) = length e"
    using Cons.prems by (intro unat_of_nat_small) (auto simp: MAX_DECOMPRESSED_BLOCK_SIZE_def)
  then show ?case using Cons by simp
qed simp

lemma plane_views_encode: "plane_views (map length eps) (concat eps @ s) = eps"
  by (induction eps) simp_all

lemma length_concat_sizes:
  "length (concat (map (\<lambda>e. u32_to_le (of_nat (length e))) eps)) = 4 * length eps"
  by (induction eps) simp_all

theorem byteplane_decode_encode:
  assumes "byteplane_encode H data width = Some (Some payload)"
  shows "byteplane_decode payload (length data) = Some (Inr data)"
proof -
  let ?w = "planes_of width" and ?n = "length data div planes_of width"
  obtain planes tail where sp: "byteplane_split data width = (planes, tail)" by fastforce
  note shape = byteplane_split_shape [OF sp]
  define ds where "ds = map (\<lambda>plane. if should_delta H plane then delta_encode plane else plane) planes"
  define rc where "rc = classify_planes H ds"
  define delta where "delta = flag_bits 0 (map (should_delta H) planes) 0"
  have size: "length data \<le> MAX_DECOMPRESSED_BLOCK_SIZE"
    using assms by (auto simp: byteplane_encode_def split: if_splits)
  obtain eps where eps: "those (map (encode_plane rc) (List.enumerate 0 ds)) = Some eps"
    and payload: "payload = [of_nat ?w, flag_bits 0 (map (\<lambda>(i, enc, orig). length enc < length orig \<and> has_flag rc i)
        (List.enumerate 0 (zip eps ds))) 0 OR push_bit 4 delta]
      @ concat (map (\<lambda>ep. u32_to_le (of_nat (length ep))) eps) @ concat eps @ tail"
    using assms sp
    by (auto simp: byteplane_encode_def Let_def rc_def ds_def delta_def split: if_splits option.splits)
  define acts where "acts = map (\<lambda>(i, enc, orig). length enc < length orig \<and> has_flag rc i)
    (List.enumerate 0 (zip eps ds))"
  have len: "length planes = ?w" "length ds = ?w" "length eps = ?w" "length acts = ?w"
    using shape(1) those_nth [OF eps] by (simp_all add: ds_def acts_def)
  have w: "?w \<le> 4" "0 < ?w" by (rule planes_of_bounds)+
  have enc: "encode_plane rc (i, ds ! i) = Some (eps ! i)" if "i < ?w" for i
    using those_nth [OF eps] that len by (auto simp: nth_enumerate_eq)
  have dn: "length (ds ! i) = ?n" if "i < ?w" for i
    using that len shape(3) [of "planes ! i"] by (simp add: ds_def)
  have dmax: "length (ds ! i) \<le> MAX_DECODE_SIZE" if "i < ?w" for i
    using dn [OF that] size by (simp add: MAX_DECODE_SIZE_def) (meson div_le_dividend order.trans)
  have act: "acts ! i \<longleftrightarrow> length (eps ! i) < length (ds ! i) \<and> has_flag rc i" if "i < ?w" for i
    using that len by (simp add: acts_def nth_enumerate_eq)
  let ?comb = "flag_bits 0 acts 0 OR push_bit 4 delta"
  have dec: "decode_plane (?comb AND 0x0F) (drop_bit 4 ?comb) ?n (i, eps ! i) = Some (Inr (planes ! i))"
    if i: "i < ?w" for i
  proof -
    have f: "has_flag (?comb AND 0x0F) i \<longleftrightarrow> length (eps ! i) < length (ds ! i) \<and> has_flag rc i"
      "has_flag (drop_bit 4 ?comb) i \<longleftrightarrow> should_delta H (planes ! i)"
      using combined_flags [of i acts delta] i w len act [OF i]
      by (simp_all add: has_flag_flag_bits delta_def)
    show ?thesis
      using decode_plane_encode [OF enc [OF i] dmax [OF i] f(1), of "drop_bit 4 ?comb"] f(2) i len
      by (simp add: dn [OF i]) (auto simp: ds_def delta_decode_encode)
  qed
  have planes: "mapRun (decode_plane (?comb AND 0x0F) (drop_bit 4 ?comb) ?n) (List.enumerate 0 eps)
      = Some (Inr planes)"
  proof -
    have "mapRun (decode_plane (?comb AND 0x0F) (drop_bit 4 ?comb) ?n) (List.enumerate 0 eps)
        = Some (Inr (map (\<lambda>(i, e). planes ! i) (List.enumerate 0 eps)))"
    proof (rule mapRun_Inr)
      fix x assume "x \<in> set (List.enumerate 0 eps)"
      then obtain i where "i < ?w" "x = (i, eps ! i)" using len(3) by (auto simp: in_set_enumerate_eq)
      then show "decode_plane (?comb AND 0x0F) (drop_bit 4 ?comb) ?n x = Some (Inr (case x of (i, e) \<Rightarrow> planes ! i))"
        using dec by simp
    qed
    also have "map (\<lambda>(i, e). planes ! i) (List.enumerate 0 eps) = planes"
      by (rule nth_equalityI) (simp_all add: len nth_enumerate_eq)
    finally show ?thesis .
  qed
  have le: "\<forall>e \<in> set eps. length e \<le> MAX_DECOMPRESSED_BLOCK_SIZE"
  proof
    fix e assume "e \<in> set eps"
    then obtain i where i: "i < ?w" "e = eps ! i" using len(3) by (metis in_set_conv_nth)
    show "length e \<le> MAX_DECOMPRESSED_BLOCK_SIZE"
      using encode_plane_cases(1) [OF enc [OF i(1)]] dmax [OF i(1)] i(2) by (simp add: MAX_DECODE_SIZE_def)
  qed
  let ?sizes = "concat (map (\<lambda>e. u32_to_le (of_nat (length e))) eps)"
  have p: "payload = of_nat ?w # ?comb # ?sizes @ concat eps @ tail"
    unfolding payload acts_def by simp
  have sizes: "read_plane_sizes ?w (?sizes @ concat eps @ tail) = Inr (map length eps)"
    using read_plane_sizes_encode [OF le] len(3) by simp
  have body: "drop (4 * ?w) (?sizes @ concat eps @ tail) = concat eps @ tail"
    using length_concat_sizes [of eps] len(3) by simp
  have total: "length payload = 2 + 4 * ?w + sum_list (map length eps) + length data mod ?w"
    using shape(2) len(3) length_concat_sizes [of eps] length_concat [of eps] by (simp add: p del: length_concat)
  have rest: "take (length data mod ?w) (drop (sum_list (map length eps)) (concat eps @ tail)) = tail"
    using shape(2) by (simp add: length_concat [symmetric])
  show ?thesis
    using byteplane_merge_split [OF sp]
    unfolding byteplane_decode_def p list.case width_round_trip option.case Let_def sizes body
    using total planes rest plane_views_encode [of eps tail] by (simp add: p)
qed

section \<open>The encoder always returns\<close>

lemma encode_plane_returns: "\<exists>ep. encode_plane rc_flags ip = Some ep"
  using o0.encode_inner_returns [OF order0_new_inv, of "snd ip" True]
  by (auto simp: encode_plane_def encode_block_def split: prod.splits sum.splits)

lemma those_Some: "(\<And>x. x \<in> set xs \<Longrightarrow> \<exists>y. f x = Some y) \<Longrightarrow> \<exists>ys. those (map f xs) = Some ys"
  by (induction xs) (fastforce split: option.splits)+

lemma byteplane_encode_returns: "\<exists>r. byteplane_encode H data width = Some r"
proof -
  obtain planes tail where sp: "byteplane_split data width = (planes, tail)" by fastforce
  define ds where "ds = map (\<lambda>plane. if should_delta H plane then delta_encode plane else plane) planes"
  obtain eps where "those (map (encode_plane (classify_planes H ds)) (List.enumerate 0 ds)) = Some eps"
    using those_Some [of _ "encode_plane (classify_planes H ds)"] encode_plane_returns by blast
  then show ?thesis
    unfolding byteplane_encode_def sp Let_def prod.case ds_def by (simp split: if_split)
qed

lemma length_concat_u32: "length (concat (map (\<lambda>x. u32_to_le (f x)) xs)) = 4 * length xs"
  by (induction xs) simp_all

lemma byteplane_encode_shrinks:
  assumes "byteplane_encode H data width = Some (Some payload)"
  shows "length payload < length data"
proof -
  obtain planes tail where sp: "byteplane_split data width = (planes, tail)" by fastforce
  have w: "length planes = planes_of width" using byteplane_split_shape(1) [OF sp] .
  obtain rc ds eps fl where ds: "length ds = length planes"
      "those (map (encode_plane rc) (List.enumerate 0 ds)) = Some eps"
    and p: "payload = [of_nat (planes_of width), fl]
        @ concat (map (\<lambda>ep. u32_to_le (of_nat (length ep))) eps) @ concat eps @ tail"
    and small: "2 + 4 * planes_of width + sum_list (map length eps) + length tail < length data"
    using assms sp
    by (auto simp: byteplane_encode_def Let_def not_le split: if_splits option.splits intro: that [rotated])
  have "length eps = planes_of width"
    using those_nth [OF ds(2)] ds(1) w by simp
  then show ?thesis using small by (simp add: p length_concat_u32 length_concat del: length_concat o_apply) (simp add: length_concat_u32 [unfolded length_concat] length_concat)
qed

section \<open>The decoder always returns\<close>

lemma bindRun_returns:
  "\<exists>r. m = Some r \<Longrightarrow> (\<And>x. m = Some (Inr x) \<Longrightarrow> \<exists>r. f x = Some r) \<Longrightarrow> \<exists>r. bindRun m f = Some r"
  by (cases m) (auto simp: bindRun_def split: sum.splits)

lemma bind_returns:
  "\<exists>r. m = Some r \<Longrightarrow> (\<And>x. \<exists>r. f x = Some r) \<Longrightarrow> \<exists>r. Option.bind m f = Some r"
  by auto

lemma decode_plane_returns: "\<exists>r. decode_plane rc delta n ip = Some r"
proof -
  obtain i plane where ip: "ip = (i, plane)" by (cases ip)
  have d: "\<exists>r. map_option fst (decode_block order0_predictor plane n order0_new) = Some r"
    using o0.decode_inner_returns [OF order0_new_inv, of plane n True] by (auto simp: decode_block_def)
  show ?thesis
    unfolding decode_plane_def ip Let_def prod.case
    by (rule bindRun_returns) (use d in \<open>auto split: if_split\<close>)
qed

lemma byteplane_decode_returns: "\<exists>r. byteplane_decode payload n = Some r"
proof -
  have m: "\<exists>r. mapRun (decode_plane rc delta k) ips = Some r" for rc delta k ips
    by (rule mapRun_Some) (rule decode_plane_returns)
  show ?thesis
  proof (cases payload)
    case (Cons width_byte rest)
    then show ?thesis
    proof (cases rest)
      case (Cons flags s)
      show ?thesis
      proof (cases "width_from_u8 width_byte")
        case (Some width)
        show ?thesis
          unfolding byteplane_decode_def \<open>payload = width_byte # rest\<close> \<open>rest = flags # s\<close> list.case Some option.case Let_def
          by (cases "read_plane_sizes (planes_of width) s") (auto intro!: bindRun_returns [OF m])
      qed (simp add: byteplane_decode_def \<open>payload = width_byte # rest\<close> \<open>rest = flags # s\<close>)
    qed (simp add: byteplane_decode_def)
  qed (simp add: byteplane_decode_def)
qed

lemma byteplane_decode_length:
  "byteplane_decode payload n = Some (Inr data) \<Longrightarrow> length data = n"
  by (auto simp: byteplane_decode_def Let_def bindRun_Inr_iff split: list.splits option.splits if_splits)

end
