(* ===== verification/Bcj.thy ===== *)
theory Bcj
  imports Bytes
begin

text \<open>
  The x86 branch filter, \<open>src/aether-core/src/coding/bcj.rs\<close>: detection of x86 executables and
  the address normalisation of CALL/JMP operands. The loop over positions is recursion on the
  position with the whole buffer as state; \<open>i32\<close> arithmetic with \<open>wrapping_add\<close> and
  \<open>wrapping_sub\<close> is arithmetic on 32-bit words.
\<close>

section \<open>Detection\<close>

definition is_x86_elf :: "bytes \<Rightarrow> bool" where
  "is_x86_elf data =
     (if length data < 20 \<or> take 4 data \<noteq> [0x7F, 0x45, 0x4C, 0x46] then False
      else if data ! 5 = 1 then u16_of_le [data ! 18, data ! 19] \<in> {3, 62}
      else if data ! 5 = 2 then u16_of_be [data ! 18, data ! 19] \<in> {3, 62}
      else False)"

definition is_x86_pe :: "bytes \<Rightarrow> bool" where
  "is_x86_pe data =
     (if length data < 0x40 \<or> take 2 data \<noteq> [0x4D, 0x5A] then False
      else
        let pe_offset = unat (u32_of_le [data ! 0x3C, data ! 0x3D, data ! 0x3E, data ! 0x3F]);
            machine_end = pe_offset + 6
        in if machine_end > length data
              \<or> take 4 (drop pe_offset data) \<noteq> [0x50, 0x45, 0, 0] then False
           else u16_of_le [data ! (pe_offset + 4), data ! (pe_offset + 5)] \<in> {0x014C, 0x8664})"

definition is_x86_macho :: "bytes \<Rightarrow> bool" where
  "is_x86_macho data =
     (if length data < 8 then False
      else
        let m = take 4 data;
            (little_endian, valid_magic) =
              (if m = [0xCE, 0xFA, 0xED, 0xFE] \<or> m = [0xCF, 0xFA, 0xED, 0xFE] then (True, True)
               else if m = [0xFE, 0xED, 0xFA, 0xCE] \<or> m = [0xFE, 0xED, 0xFA, 0xCF]
                 then (False, True)
               else (True, False))
        in if \<not> valid_magic then False
           else
             let b = [data ! 4, data ! 5, data ! 6, data ! 7];
                 cpu_type = (if little_endian then u32_of_le b else u32_of_be b)
             in cpu_type \<in> {7, 0x01000007})"

definition is_x86_executable :: "bytes \<Rightarrow> bool" where
  "is_x86_executable data \<longleftrightarrow> is_x86_elf data \<or> is_x86_pe data \<or> is_x86_macho data"

section \<open>The transform\<close>

definition bcj_normalize :: "bool \<Rightarrow> nat \<Rightarrow> u32 \<Rightarrow> u32" where
  "bcj_normalize encode position operand =
     (let instruction_end = of_nat position + 5
      in if encode then operand + instruction_end else operand - instruction_end)"

function transform_x86 :: "bool \<Rightarrow> nat \<Rightarrow> bytes \<Rightarrow> bytes" where
  "transform_x86 encode position data =
     (if position + 5 \<le> length data then
        if data ! position = 0xE8 \<or> data ! position = 0xE9 then
          let operand = u32_of_le [data ! (position + 1), data ! (position + 2),
                                   data ! (position + 3), data ! (position + 4)];
              normalized = bcj_normalize encode position operand
          in transform_x86 encode (position + 5)
               (take (position + 1) data @ u32_to_le normalized @ drop (position + 5) data)
        else transform_x86 encode (position + 1) data
      else data)"
  by pat_completeness auto
termination
  by (relation "measure (\<lambda>(_, p, d). length d - p)") auto

declare transform_x86.simps [simp del]

definition encode_x86 :: "bytes \<Rightarrow> bytes option" where
  "encode_x86 data =
     (if \<not> is_x86_executable data then None else Some (transform_x86 True 0 data))"

definition decode_x86 :: "bytes \<Rightarrow> bytes" where
  "decode_x86 data = transform_x86 False 0 data"

section \<open>The transform as a function of the unread suffix\<close>

text \<open>
  Everything before \<open>position\<close> is final, so the loop is a stream transformer on the suffix. The
  inverse law is proved for the stream form.
\<close>

function bcj_stream :: "bool \<Rightarrow> nat \<Rightarrow> bytes \<Rightarrow> bytes" where
  "bcj_stream encode position xs =
     (if 5 \<le> length xs then
        if hd xs = 0xE8 \<or> hd xs = 0xE9 then
          hd xs # u32_to_le (bcj_normalize encode position (u32_of_le (take 4 (tl xs))))
            @ bcj_stream encode (position + 5) (drop 5 xs)
        else hd xs # bcj_stream encode (position + 1) (tl xs)
      else xs)"
  by pat_completeness auto
termination
  by (relation "measure (\<lambda>(_, _, xs). length xs)") auto

declare bcj_stream.simps [simp del]

lemma length_bcj_stream [simp]: "length (bcj_stream e p xs) = length xs"
proof (induction e p xs rule: bcj_stream.induct)
  case (1 e p xs)
  then show ?case by (subst bcj_stream.simps) (auto simp: Suc_diff_Suc)
qed

lemma bcj_normalize_inverse [simp]:
  "bcj_normalize False p (bcj_normalize True p x) = x"
  "bcj_normalize True p (bcj_normalize False p x) = x"
  by (simp_all add: bcj_normalize_def)

lemma bcj_stream_inverse: "bcj_stream (\<not> e) p (bcj_stream e p xs) = xs"
proof (induction e p xs rule: bcj_stream.induct)
  case (1 e p xs)
  show ?case
  proof (cases "5 \<le> length xs")
    case True
    then obtain a ys where xs: "xs = a # ys" and ys: "4 \<le> length ys" by (cases xs) auto
    show ?thesis
    proof (cases "a = 0xE8 \<or> a = 0xE9")
      case op: True
      let ?n = "u32_to_le (bcj_normalize e p (u32_of_le (take 4 ys)))"
      let ?r = "bcj_stream e (p + 5) (drop 4 ys)"
      have "bcj_stream (\<not> e) (p + 5) ?r = drop 4 ys"
        using "1.IH"(1) True op xs by simp
      moreover have "bcj_stream e p xs = a # ?n @ ?r"
        using True op xs by (subst bcj_stream.simps) simp
      moreover have "u32_to_le (bcj_normalize (\<not> e) p (u32_of_le ?n)) = take 4 ys"
        using ys by (cases e) (simp_all add: to_le_of_le)
      ultimately show ?thesis
        using op ys xs by (subst bcj_stream.simps) simp
    next
      case nop: False
      have "bcj_stream (\<not> e) (p + 1) (bcj_stream e (p + 1) ys) = ys"
        using "1.IH"(2) True nop xs by simp
      moreover have "bcj_stream e p xs = a # bcj_stream e (p + 1) ys"
        using True nop xs by (subst bcj_stream.simps) simp
      ultimately show ?thesis
        using nop ys xs by (subst bcj_stream.simps) simp
    qed
  next
    case False
    then have "bcj_stream e p xs = xs" by (subst bcj_stream.simps) simp
    with False show ?thesis by (subst bcj_stream.simps) simp
  qed
qed

lemma take_4_nth:
  "4 \<le> length xs \<Longrightarrow> take 4 xs = [xs ! 0, xs ! 1, xs ! 2, xs ! 3]"
  by (simp add: list_eq_iff_nth_eq less_Suc_eq numeral_eq_Suc)

lemma transform_x86_stream:
  "p \<le> length d \<Longrightarrow> transform_x86 e p d = take p d @ bcj_stream e p (drop p d)"
proof (induction e p d rule: transform_x86.induct)
  case (1 e p d)
  show ?case
  proof (cases "p + 5 \<le> length d")
    case True
    let ?xs = "drop p d"
    have hd: "hd ?xs = d ! p" using True by (simp add: hd_drop_conv_nth)
    have take4: "take 4 (tl ?xs) = [d ! (p + 1), d ! (p + 2), d ! (p + 3), d ! (p + 4)]"
      using True take_4_nth [of "drop (Suc p) d"]
      by (simp add: drop_Suc [symmetric] tl_drop numeral_eq_Suc)
    show ?thesis
    proof (cases "d ! p = 0xE8 \<or> d ! p = 0xE9")
      case op: True
      let ?n = "u32_to_le (bcj_normalize e p (u32_of_le (take 4 (tl ?xs))))"
      let ?d = "take (p + 1) d @ ?n @ drop (p + 5) d"
      have "transform_x86 e p d = transform_x86 e (p + 5) ?d"
        using True op by (subst transform_x86.simps) (simp add: take4 Let_def)
      also have "\<dots> = take (p + 5) ?d @ bcj_stream e (p + 5) (drop (p + 5) ?d)"
        using "1.IH"(1) True op by (simp add: take4)
      also have "\<dots> = take p d @ d ! p # ?n @ bcj_stream e (p + 5) (drop (p + 5) d)"
        using True by (simp add: take_Suc_conv_app_nth)
      also have "\<dots> = take p d @ bcj_stream e p ?xs"
        using True op by (subst (2) bcj_stream.simps) (simp add: hd add.commute)
      finally show ?thesis .
    next
      case nop: False
      have "transform_x86 e p d = transform_x86 e (p + 1) d"
        using True nop by (subst transform_x86.simps) simp
      also have "\<dots> = take (p + 1) d @ bcj_stream e (p + 1) (drop (p + 1) d)"
        using "1.IH"(2) True nop by simp
      also have "\<dots> = take p d @ bcj_stream e p ?xs"
        using True nop by (subst (2) bcj_stream.simps)
          (simp add: hd take_Suc_conv_app_nth drop_Suc tl_drop)
      finally show ?thesis .
    qed
  next
    case False
    then have short: "\<not> 5 \<le> length (drop p d)" by auto
    have "transform_x86 e p d = d"
      using False by (subst transform_x86.simps) simp
    moreover have "bcj_stream e p (drop p d) = drop p d"
      using short by (subst bcj_stream.simps) (simp del: length_drop)
    ultimately show ?thesis by simp
  qed
qed

lemma transform_x86_inverse: "transform_x86 (\<not> e) 0 (transform_x86 e 0 d) = d"
  by (simp add: transform_x86_stream bcj_stream_inverse)

lemma length_transform_x86 [simp]: "length (transform_x86 e 0 d) = length d"
  by (simp add: transform_x86_stream)

end
