(* ===== verification/Analyzer.thy ===== *)
theory Analyzer
  imports Bytes Format Complex_Main
begin

text \<open>
  Content detection and routing thresholds, \<open>src/aether-core/src/analyzer.rs\<close>. Paths are UTF-8
  bytes. \<open>str::to_lowercase\<close> (Unicode) is the argument \<open>lower\<close>; entropies are real numbers.
\<close>

section \<open>Magic bytes\<close>

definition ascii :: "string \<Rightarrow> bytes" where "ascii s = map of_char s"

definition starts_with :: "bytes \<Rightarrow> bytes \<Rightarrow> bool" where
  "starts_with data prefix = (take (length prefix) data = prefix)"

definition is_printable :: "u8 \<Rightarrow> bool" where
  "is_printable b = (b = 10 \<or> b = 13 \<or> b = 9 \<or> (0x20 \<le> b \<and> b \<le> 0x7E))"

definition looks_like_text :: "bytes \<Rightarrow> bool" where
  "looks_like_text data =
     (let printable_count = length (filter is_printable (take 512 data));
          sample_len = min (length data) 512
      in sample_len > 0 \<and> printable_count * 100 div sample_len > 85)"

definition looks_like_safetensors :: "bytes \<Rightarrow> bool" where
  "looks_like_safetensors data =
     (length data \<ge> 9 \<and>
      (let meta_len = unat (u64_of_le (take 8 data))
       in meta_len > 0 \<and> meta_len < 100000000 \<and> data ! 8 = of_char (CHR ''{'')))"

definition detect_from_magic :: "bytes \<Rightarrow> content_type option" where
  "detect_from_magic data =
     (if length data < 4 then None
      else if length data \<ge> 6 \<and> starts_with data [0x93, 0x4E, 0x55, 0x4D, 0x50, 0x59] then Some NumericData
      else if looks_like_safetensors data then Some NumericData
      else if starts_with data (ascii ''GGUF'') then Some NumericData
      else if starts_with data (0x7F # ascii ''ELF'') then Some Executable
      else if starts_with data (ascii ''MZ'') then Some Executable
      else if starts_with data [0xFF, 0xD8, 0xFF] then Some Image
      else if starts_with data [0x89, 0x50, 0x4E, 0x47] then Some Image
      else if starts_with data (ascii ''GIF8'') then Some Image
      else if length data \<ge> 12 \<and> starts_with data (ascii ''RIFF'')
              \<and> take 4 (drop 8 data) = ascii ''WEBP'' then Some Image
      else if starts_with data (ascii ''%PDF'') then Some BinaryStructured
      else if starts_with data [0x50, 0x4B, 0x03, 0x04] then Some BinaryRandom
      else if starts_with data [0x1F, 0x8B] then Some BinaryRandom
      else if starts_with data [0x28, 0xB5, 0x2F, 0xFD] then Some BinaryRandom
      else if starts_with data [0xFD, 0x37, 0x7A, 0x58, 0x5A, 0x00] then Some BinaryRandom
      else if starts_with data [0xCF, 0xFA, 0xED, 0xFE] \<or> starts_with data [0xFE, 0xED, 0xFA, 0xCF]
           then Some Executable
      else if looks_like_text data then Some Text
      else None)"

section \<open>Extensions\<close>

text \<open>\<open>rsplit('.').next()\<close>: what follows the last dot, the whole path if there is none.\<close>

definition extension_of :: "bytes \<Rightarrow> bytes" where
  "extension_of path = rev (takeWhile (\<lambda>b. b \<noteq> of_char (CHR ''.'')) (rev path))"

definition extensions_of_type :: "(string list \<times> content_type) list" where
  "extensions_of_type =
     [([''npy'', ''npz'', ''safetensors'', ''gguf'', ''ggml'', ''bin'', ''weight'', ''weights'', ''pt'',
        ''pth'', ''ot'', ''tflite'', ''pb'', ''onnx''], NumericData),
      ([''txt'', ''md'', ''rst'', ''csv'', ''tsv'', ''log''], Text),
      ([''rs'', ''py'', ''js'', ''ts'', ''c'', ''cpp'', ''h'', ''hpp'', ''java'', ''go'', ''rb'', ''php'',
        ''swift'', ''kt'', ''scala'', ''zig'', ''nim'', ''lua'', ''sh'', ''bash'', ''zsh'', ''fish'',
        ''ps1'', ''bat'', ''cmd''], Text),
      ([''json'', ''yaml'', ''yml'', ''toml'', ''xml'', ''html'', ''htm'', ''css'', ''scss'', ''less'',
        ''sql'', ''graphql'', ''proto'', ''ini'', ''cfg'', ''conf''], Text),
      ([''jpg'', ''jpeg'', ''png'', ''gif'', ''bmp'', ''tiff'', ''tif'', ''webp'', ''ico'', ''svg'',
        ''avif'', ''heic'', ''heif''], Image),
      ([''zip'', ''gz'', ''bz2'', ''xz'', ''zst'', ''lz4'', ''br'', ''7z'', ''rar'', ''tar'', ''aet''],
        BinaryRandom),
      ([''mp3'', ''mp4'', ''aac'', ''ogg'', ''flac'', ''wav'', ''avi'', ''mkv'', ''webm'', ''mov'',
        ''m4a'', ''m4v''], BinaryRandom),
      ([''exe'', ''dll'', ''so'', ''dylib'', ''o'', ''a'', ''lib'', ''elf'', ''wasm''], Executable),
      ([''pdf'', ''doc'', ''docx'', ''xls'', ''xlsx'', ''ppt'', ''pptx'', ''odt'', ''ods'', ''db'',
        ''sqlite'', ''sqlite3''], BinaryStructured)]"

fun find_extension :: "(string list \<times> content_type) list \<Rightarrow> bytes \<Rightarrow> content_type" where
  "find_extension [] ext = Mixed"
| "find_extension ((exts, ct) # rest) ext =
     (if ext \<in> set (map ascii exts) then ct else find_extension rest ext)"

definition detect_from_extension :: "(bytes \<Rightarrow> bytes) \<Rightarrow> bytes \<Rightarrow> content_type" where
  "detect_from_extension lower path = find_extension extensions_of_type (extension_of (lower path))"

definition detect_content_type :: "(bytes \<Rightarrow> bytes) \<Rightarrow> bytes \<Rightarrow> bytes \<Rightarrow> content_type" where
  "detect_content_type lower path first_bytes =
     (case detect_from_magic first_bytes of
        Some ct \<Rightarrow> ct
      | None \<Rightarrow> detect_from_extension lower path)"

section \<open>Routing\<close>

definition HIGH_ENTROPY_THRESHOLD :: real where "HIGH_ENTROPY_THRESHOLD = 15 / 2"
definition INCOMPRESSIBLE_THRESHOLD :: real where "INCOMPRESSIBLE_THRESHOLD = 159 / 20"

datatype recommended_method = RecPredictorRans | RecZstd | RecStore

definition recommend_method :: "real \<Rightarrow> recommended_method" where
  "recommend_method entropy =
     (if entropy > INCOMPRESSIBLE_THRESHOLD then RecStore
      else if entropy > HIGH_ENTROPY_THRESHOLD then RecZstd
      else RecPredictorRans)"

definition recommend_method_for :: "real \<Rightarrow> content_type \<Rightarrow> recommended_method" where
  "recommend_method_for entropy content_type =
     (case content_type of
        BinaryRandom \<Rightarrow> if entropy > INCOMPRESSIBLE_THRESHOLD then RecStore else RecZstd
      | Image \<Rightarrow> if entropy > HIGH_ENTROPY_THRESHOLD then RecStore else RecZstd
      | NumericData \<Rightarrow> if entropy > INCOMPRESSIBLE_THRESHOLD then RecStore else RecPredictorRans
      | _ \<Rightarrow> recommend_method entropy)"

text \<open>Already compressed content never reaches the predictor; incompressible content is always stored.\<close>

lemma recommend_compressed_types:
  "ct \<in> {BinaryRandom, Image} \<Longrightarrow> recommend_method_for entropy ct \<noteq> RecPredictorRans"
  by (auto simp: recommend_method_for_def)

lemma recommend_incompressible:
  "entropy > INCOMPRESSIBLE_THRESHOLD \<Longrightarrow> recommend_method_for entropy ct = RecStore"
  by (cases ct) (auto simp: recommend_method_for_def recommend_method_def
      INCOMPRESSIBLE_THRESHOLD_def HIGH_ENTROPY_THRESHOLD_def)

text \<open>More entropy never moves a chunk back towards the predictor.\<close>

fun method_rank :: "recommended_method \<Rightarrow> nat" where
  "method_rank RecPredictorRans = 0" | "method_rank RecZstd = 1" | "method_rank RecStore = 2"

lemma recommend_mono:
  "a \<le> b \<Longrightarrow> method_rank (recommend_method_for a ct) \<le> method_rank (recommend_method_for b ct)"
  by (cases ct) (auto simp: recommend_method_for_def recommend_method_def
      INCOMPRESSIBLE_THRESHOLD_def HIGH_ENTROPY_THRESHOLD_def)

lemma extension_of_suffix: "\<exists>pre. path = pre @ extension_of path"
proof -
  have "rev path = takeWhile (\<lambda>b. b \<noteq> of_char (CHR ''.'')) (rev path)
      @ dropWhile (\<lambda>b. b \<noteq> of_char (CHR ''.'')) (rev path)" by simp
  then have "path = rev (dropWhile (\<lambda>b. b \<noteq> of_char (CHR ''.'')) (rev path)) @ extension_of path"
    unfolding extension_of_def by (metis rev_append rev_rev_ident)
  then show ?thesis ..
qed

lemma extension_of_no_dot: "of_char (CHR ''.'') \<notin> set (extension_of path)"
  by (auto simp: extension_of_def dest: set_takeWhileD)

end
