(* ===== verification/Chunker.thy ===== *)
theory Chunker
  imports Format Complex_Main
begin

text \<open>
  Splitting a file into chunks, \<open>src/aether-core/src/chunker.rs\<close>. The content-defined boundaries come
  from the crate \<open>fastcdc\<close> (the argument \<open>fastcdc\<close>: the list of offset/length pairs of its
  iterator), hashes from \<open>blake3\<close>, and entropies are real numbers from \<open>shannon_entropy\<close>. The owned
  and the borrowed chunk of the code have the same fields and are one record.
\<close>

definition MIN_CHUNK_SIZE :: nat where "MIN_CHUNK_SIZE = 16 * 1024"
definition AVG_CHUNK_SIZE :: nat where "AVG_CHUNK_SIZE = 512 * 1024"
definition MAX_CHUNK_SIZE :: nat where "MAX_CHUNK_SIZE = 8 * 1024 * 1024"

record chunk_ref =
  ch_offset :: nat
  ch_length :: nat
  ch_data :: bytes
  ch_blake3_hash :: bytes
  ch_entropy :: real

type_synonym fastcdc_fun = "bytes \<Rightarrow> nat \<Rightarrow> nat \<Rightarrow> nat \<Rightarrow> (nat \<times> nat) list"

definition make_chunk :: "(bytes \<Rightarrow> bytes) \<Rightarrow> (bytes \<Rightarrow> real) \<Rightarrow> nat \<Rightarrow> bytes \<Rightarrow> chunk_ref" where
  "make_chunk blake3 H offset d =
     \<lparr>ch_offset = offset, ch_length = length d, ch_data = d, ch_blake3_hash = blake3 d,
      ch_entropy = H d\<rparr>"

definition chunk_data_refs ::
    "fastcdc_fun \<Rightarrow> (bytes \<Rightarrow> bytes) \<Rightarrow> (bytes \<Rightarrow> real) \<Rightarrow> bytes \<Rightarrow> chunk_ref list" where
  "chunk_data_refs fastcdc blake3 H data =
     (if data = [] then []
      else map (\<lambda>(offset, len). make_chunk blake3 H offset (take len (drop offset data)))
             (fastcdc data MIN_CHUNK_SIZE AVG_CHUNK_SIZE MAX_CHUNK_SIZE))"

text \<open>Fixed-size blocks. With a block size of 0 the loop of the code never advances: \<open>None\<close>.\<close>

partial_function (option) chunk_fixed_from ::
    "(bytes \<Rightarrow> bytes) \<Rightarrow> (bytes \<Rightarrow> real) \<Rightarrow> bytes \<Rightarrow> nat \<Rightarrow> nat \<Rightarrow> chunk_ref list option" where
  [code]: "chunk_fixed_from blake3 H data block_size offset =
     (if offset < length data then
        let stop = min (offset + block_size) (length data);
            c = make_chunk blake3 H offset (drop offset (take stop data))
        in Option.bind (chunk_fixed_from blake3 H data block_size stop) (\<lambda>chunks. Some (c # chunks))
      else Some [])"

definition chunk_fixed_refs ::
    "(bytes \<Rightarrow> bytes) \<Rightarrow> (bytes \<Rightarrow> real) \<Rightarrow> bytes \<Rightarrow> nat \<Rightarrow> chunk_ref list option" where
  "chunk_fixed_refs blake3 H data block_size = chunk_fixed_from blake3 H data block_size 0"

section \<open>Chunks cover the file\<close>

text \<open>The chunks from \<open>p\<close> on, end to end: offsets, lengths and contents agree with the file.\<close>

fun chunks_cover :: "bytes \<Rightarrow> nat \<Rightarrow> chunk_ref list \<Rightarrow> bool" where
  "chunks_cover data p [] \<longleftrightarrow> p = length data"
| "chunks_cover data p (c # cs) \<longleftrightarrow>
     ch_offset c = p \<and> ch_length c = length (ch_data c) \<and> 0 < ch_length c
     \<and> ch_data c = take (ch_length c) (drop p data) \<and> chunks_cover data (p + ch_length c) cs"

lemma chunks_cover_concat:
  "chunks_cover data p cs \<Longrightarrow> p \<le> length data \<Longrightarrow> concat (map ch_data cs) = drop p data"
proof (induction cs arbitrary: p)
  case (Cons c cs)
  have a: "ch_length c = length (ch_data c)" "ch_data c = take (ch_length c) (drop p data)"
    "chunks_cover data (p + ch_length c) cs"
    using Cons.prems(1) unfolding chunks_cover.simps by blast+
  have "length (ch_data c) = min (length (drop p data)) (ch_length c)"
    using arg_cong [OF a(2), of length] by (simp only: length_take)
  then have "ch_length c \<le> length data - p" unfolding a(1) [symmetric] length_drop by linarith
  with Cons.prems(2) have "p + ch_length c \<le> length data" by linarith
  then have rest: "concat (map ch_data cs) = drop (p + ch_length c) data"
    by (rule Cons.IH [OF a(3)])
  have "concat (map ch_data (c # cs)) = ch_data c @ drop (p + ch_length c) data"
    by (simp only: list.map concat.simps rest)
  also have "\<dots> = take (ch_length c) (drop p data) @ drop (ch_length c) (drop p data)"
    by (simp only: drop_drop add.commute) (rule arg_cong [OF a(2)])
  also have "\<dots> = drop p data" by (rule append_take_drop_id)
  finally show ?case .
qed simp

lemma chunks_cover_length:
  "chunks_cover data p cs \<Longrightarrow> c \<in> set cs \<Longrightarrow> ch_length c = length (ch_data c)"
proof (induction cs arbitrary: p)
  case (Cons c' cs)
  have "ch_length c' = length (ch_data c')" "chunks_cover data (p + ch_length c') cs"
    using Cons.prems(1) unfolding chunks_cover.simps by blast+
  then show ?case using Cons.IH Cons.prems(2) by (metis set_ConsD)
qed simp

lemma chunk_fixed_from_cover:
  assumes "0 < block_size" "offset \<le> length data"
  shows "\<exists>cs. chunk_fixed_from blake3 H data block_size offset = Some cs \<and> chunks_cover data offset cs
    \<and> (\<forall>c \<in> set cs. ch_length c \<le> block_size \<and> ch_blake3_hash c = blake3 (ch_data c) \<and> ch_entropy c = H (ch_data c))"
  using assms(2)
proof (induction "length data - offset" arbitrary: offset rule: less_induct)
  case less
  show ?case
  proof (cases "offset < length data")
    case False
    then show ?thesis using less.prems by (subst chunk_fixed_from.simps) simp
  next
    case True
    let ?stop = "min (offset + block_size) (length data)"
    have s: "offset < ?stop" "?stop \<le> length data" using True assms(1) by auto
    obtain cs where cs: "chunk_fixed_from blake3 H data block_size ?stop = Some cs" "chunks_cover data ?stop cs"
        "\<forall>c \<in> set cs. ch_length c \<le> block_size \<and> ch_blake3_hash c = blake3 (ch_data c) \<and> ch_entropy c = H (ch_data c)"
      using less.hyps [OF diff_less_mono2 [OF s(1) True] s(2)] by blast
    let ?d = "drop offset (take ?stop data)"
    have len: "length ?d = ?stop - offset" using s by simp
    have "?d = take (?stop - offset) (drop offset data)" using s(1) by (simp add: take_drop del: min_less_iff_conj)
    then have "chunks_cover data offset (make_chunk blake3 H offset ?d # cs)"
      using cs(2) s len by (simp add: make_chunk_def)
    moreover have "chunk_fixed_from blake3 H data block_size offset = Some (make_chunk blake3 H offset ?d # cs)"
      using True cs(1) by (subst chunk_fixed_from.simps) (simp add: Let_def)
    ultimately show ?thesis using cs(3) len by (auto simp: make_chunk_def)
  qed
qed

text \<open>With a block size of 0 the end of the chunk is its start, for ever.\<close>

lemma chunk_fixed_diverges:
  "chunk_fixed_from blake3 H data block_size offset = Some cs \<Longrightarrow> \<not> (block_size = 0 \<and> offset < length data)"
proof (erule chunk_fixed_from.raw_induct [where
      P = "\<lambda>blake3 H data block_size offset cs. \<not> (block_size = 0 \<and> offset < length data)", rotated])
  fix f :: "(bytes \<Rightarrow> bytes) \<Rightarrow> (bytes \<Rightarrow> real) \<Rightarrow> bytes \<Rightarrow> nat \<Rightarrow> nat \<Rightarrow> chunk_ref list option"
    and blake3 H data block_size offset cs
  assume IH: "\<And>blake3 H data block_size offset cs. f blake3 H data block_size offset = Some cs
      \<Longrightarrow> \<not> (block_size = 0 \<and> offset < length data)"
    and "(if offset < length data then
        let stop = min (offset + block_size) (length data);
            c = make_chunk blake3 H offset (drop offset (take stop data))
        in Option.bind (f blake3 H data block_size stop) (\<lambda>chunks. Some (c # chunks))
      else Some []) = Some cs"
  then show "\<not> (block_size = 0 \<and> offset < length data)"
    using IH [of blake3 H data block_size "min (offset + block_size) (length data)"]
    by (cases "block_size = 0") (auto simp: Let_def bind_eq_Some_conv min_def split: if_splits)
qed

lemma chunk_fixed_zero: "offset < length data \<Longrightarrow> chunk_fixed_from blake3 H data 0 offset = None"
  using chunk_fixed_diverges [of blake3 H data 0 offset] by (cases "chunk_fixed_from blake3 H data 0 offset") auto

text \<open>What \<open>fastcdc\<close> documents: non-empty chunks, end to end, of at most the maximal size.\<close>

definition fastcdc_ok :: "fastcdc_fun \<Rightarrow> bool" where
  "fastcdc_ok fastcdc \<longleftrightarrow>
     (\<forall>data lo avg hi. data \<noteq> [] \<longrightarrow> 0 < lo \<longrightarrow> lo \<le> avg \<longrightarrow> avg \<le> hi \<longrightarrow>
        (\<forall>(off, len) \<in> set (fastcdc data lo avg hi). 0 < len \<and> len \<le> hi)
        \<and> map fst (fastcdc data lo avg hi @ [(length data, 0)])
            = 0 # map (\<lambda>(off, len). off + len) (fastcdc data lo avg hi))"

lemma cover_of_pairs:
  assumes "map fst (ps @ [(length data, 0)]) = p # map (\<lambda>(off, len). off + len) ps"
    and "\<forall>(off, len) \<in> set ps. 0 < len"
  shows "chunks_cover data p (map (\<lambda>(offset, len). make_chunk blake3 H offset (take len (drop offset data))) ps)
    \<and> p \<le> length data"
  using assms
proof (induction ps arbitrary: p)
  case (Cons x ps)
  obtain off len where x: "x = (off, len)" by (cases x)
  have e: "off = p" "map fst (ps @ [(length data, 0)]) = (p + len) # map (\<lambda>(off, len). off + len) ps"
    using Cons.prems(1) x by auto
  have IH: "chunks_cover data (p + len) (map (\<lambda>(offset, len). make_chunk blake3 H offset (take len (drop offset data))) ps)"
      "p + len \<le> length data"
    using Cons.IH [OF e(2)] Cons.prems(2) by auto
  then show ?case using Cons.prems(2) x e(1) by (simp add: make_chunk_def)
qed simp

lemma chunk_data_refs_cover:
  assumes "fastcdc_ok fastcdc"
  shows "chunks_cover data 0 (chunk_data_refs fastcdc blake3 H data)"
    and "c \<in> set (chunk_data_refs fastcdc blake3 H data) \<Longrightarrow> ch_length c \<le> MAX_CHUNK_SIZE
      \<and> ch_blake3_hash c = blake3 (ch_data c)"
proof -
  let ?ps = "fastcdc data MIN_CHUNK_SIZE AVG_CHUNK_SIZE MAX_CHUNK_SIZE"
  have ok: "\<forall>(off, len) \<in> set ?ps. 0 < len \<and> len \<le> MAX_CHUNK_SIZE"
      "map fst (?ps @ [(length data, 0)]) = 0 # map (\<lambda>(off, len). off + len) ?ps" if "data \<noteq> []"
    using assms [unfolded fastcdc_ok_def, THEN spec, of data, THEN spec, of MIN_CHUNK_SIZE, THEN spec,
        of AVG_CHUNK_SIZE, THEN spec, of MAX_CHUNK_SIZE] that
    by (simp_all add: MIN_CHUNK_SIZE_def AVG_CHUNK_SIZE_def MAX_CHUNK_SIZE_def)
  show "chunks_cover data 0 (chunk_data_refs fastcdc blake3 H data)"
  proof (cases "data = []")
    case False
    then show ?thesis
      using cover_of_pairs [OF ok(2), of blake3 H] ok(1) by (auto simp: chunk_data_refs_def)
  qed (simp add: chunk_data_refs_def)
  assume c: "c \<in> set (chunk_data_refs fastcdc blake3 H data)"
  then have "data \<noteq> []" by (auto simp: chunk_data_refs_def)
  then show "ch_length c \<le> MAX_CHUNK_SIZE \<and> ch_blake3_hash c = blake3 (ch_data c)"
    using c ok(1) by (fastforce simp: chunk_data_refs_def make_chunk_def)
qed

text \<open>A chunker that cuts after every byte, a lawful instance of the contract.\<close>

definition bytewise :: fastcdc_fun where
  "bytewise d lo avg hi = map (\<lambda>i. (i, 1)) [0..<length d]"

lemma bytewise_ok: "fastcdc_ok bytewise"
proof -
  have "[0..<n] @ [n] = 0 # map Suc [0..<n]" for n
    using upt_conv_Cons [of 0 "Suc n"] upt_Suc_append [of 0 n] by (simp add: map_Suc_upt del: upt_Suc)
  then show ?thesis by (auto simp: fastcdc_ok_def o_def bytewise_def)
qed

end
