(* ===== verification/Codecs.thy ===== *)
theory Codecs
  imports Format Bytes
begin

text \<open>
  The wrappers around the LZ4 and zstd libraries, coding/lz_preprocess.rs and
  coding/zstd_fallback.rs. The libraries are arguments. A zstd decoder is either an initialisation
  error or the bytes it will produce together with the error, if any, that ends the stream.
\<close>

section \<open>LZ4\<close>

definition lz_encode :: "(bytes \<Rightarrow> bytes) \<Rightarrow> bytes \<Rightarrow> bytes option" where
  "lz_encode compress_prepend_size data =
     (if data = [] then None
      else
        let compressed = compress_prepend_size data
        in if length compressed < length data then Some compressed else None)"

definition lz_decode :: "(bytes \<Rightarrow> string + bytes) \<Rightarrow> bytes \<Rightarrow> nat \<Rightarrow> bytes result" where
  "lz_decode decompress_size_prepended lz_bytes expected_original_size =
     (if lz_bytes = [] then Inl (Decompression ''LZ4 decode: empty input'')
      else if length lz_bytes \<ge> 4 \<and> unat (u32_of_le (take 4 lz_bytes)) \<noteq> expected_original_size then
        Inl (Decompression
          ''LZ4 embedded size {declared_size} does not match expected {expected_original_size}'')
      else
        case decompress_size_prepended lz_bytes of
          Inl e \<Rightarrow> Inl (Decompression (''LZ4 decompress failed: '' @ e))
        | Inr decompressed \<Rightarrow>
            if length decompressed \<noteq> expected_original_size then
              Inl (Decompression
                ''LZ4 decode size mismatch: expected {expected_original_size}, got {}'')
            else Inr decompressed)"

text \<open>The documented format: the length as a little-endian word, and decompression inverts.\<close>

definition lz4_ok :: "(bytes \<Rightarrow> bytes) \<Rightarrow> (bytes \<Rightarrow> string + bytes) \<Rightarrow> bool" where
  "lz4_ok compress decompress \<longleftrightarrow>
     (\<forall>data. length data < 2 ^ 32 \<longrightarrow>
        take 4 (compress data) = u32_to_le (of_nat (length data)) \<and> decompress (compress data) = Inr data)"

lemma lz_decode_encode:
  assumes "lz4_ok compress decompress" "lz_encode compress data = Some lz_bytes" "length data < 2 ^ 32"
  shows "lz_decode decompress lz_bytes (length data) = Inr data"
proof -
  have e: "lz_bytes = compress data" using assms(2) by (auto simp: lz_encode_def Let_def split: if_splits)
  have p: "take 4 (compress data) = u32_to_le (of_nat (length data))" "decompress (compress data) = Inr data"
    using assms(1,3) by (auto simp: lz4_ok_def)
  have "compress data \<noteq> []" using arg_cong [OF p(1), of length] by auto
  moreover have "unat (of_nat (length data) :: u32) = length data"
    using assms(3) by (simp add: unat_of_nat)
  ultimately show ?thesis by (simp add: lz_decode_def e p)
qed

lemma lz_decode_length: "lz_decode decompress lz_bytes n = Inr data \<Longrightarrow> length data = n"
  by (auto simp: lz_decode_def split: if_splits sum.splits)

section \<open>Zstd\<close>

definition ZSTD_COMPRESSION_LEVEL :: int where "ZSTD_COMPRESSION_LEVEL = 3"
definition MAX_ZSTD_DECODE_SIZE :: nat where "MAX_ZSTD_DECODE_SIZE = MAX_DECOMPRESSED_BLOCK_SIZE"

type_synonym zstd_encoder = "bytes \<Rightarrow> int \<Rightarrow> string + bytes"
type_synonym zstd_decoder = "bytes \<Rightarrow> string + (bytes \<times> string option)"

definition zstd_compress :: "zstd_encoder \<Rightarrow> bytes \<Rightarrow> bytes result" where
  "zstd_compress encode_all data =
     (case encode_all data ZSTD_COMPRESSION_LEVEL of
        Inl e \<Rightarrow> Inl (Compression (''zstd compress: '' @ e))
      | Inr bs \<Rightarrow> Inr bs)"

text \<open>\<open>take(limit).read_to_end\<close>: an error that comes after \<open>limit\<close> bytes is never seen.\<close>

definition read_limited :: "nat \<Rightarrow> bytes \<times> string option \<Rightarrow> string + bytes" where
  "read_limited limit stream =
     (let (bs, err) = stream
      in if length bs \<ge> limit then Inr (take limit bs)
         else case err of Some e \<Rightarrow> Inl e | None \<Rightarrow> Inr bs)"

definition zstd_decompress :: "zstd_decoder \<Rightarrow> bytes \<Rightarrow> nat \<Rightarrow> bytes result" where
  "zstd_decompress decoder data expected_size =
     (if expected_size > MAX_ZSTD_DECODE_SIZE then
        Inl (Decompression ''zstd decode size {} exceeds safety limit {}'')
      else
        case decoder data of
          Inl e \<Rightarrow> Inl (Decompression (''zstd decoder init: '' @ e))
        | Inr stream \<Rightarrow>
            (case read_limited (expected_size + 1) stream of
               Inl e \<Rightarrow> Inl (Decompression (''zstd decompress: '' @ e))
             | Inr decompressed \<Rightarrow>
                 if length decompressed \<noteq> expected_size then
                   Inl (Decompression
                     ''zstd decode size mismatch: expected {expected_size}, got {bytes_read}'')
                 else Inr decompressed))"

definition zstd_ok :: "zstd_encoder \<Rightarrow> zstd_decoder \<Rightarrow> bool" where
  "zstd_ok encode_all decoder \<longleftrightarrow>
     (\<forall>data level bs. encode_all data level = Inr bs \<longrightarrow> decoder bs = Inr (data, None))"

lemma zstd_decompress_compress:
  assumes "zstd_ok encode_all decoder" "zstd_compress encode_all data = Inr bs"
    "length data \<le> MAX_ZSTD_DECODE_SIZE"
  shows "zstd_decompress decoder bs (length data) = Inr data"
proof -
  have "encode_all data ZSTD_COMPRESSION_LEVEL = Inr bs"
    using assms(2) by (auto simp: zstd_compress_def split: sum.splits)
  then have "decoder bs = Inr (data, None)" using assms(1) unfolding zstd_ok_def by blast
  then show ?thesis using assms(3) by (simp add: zstd_decompress_def read_limited_def)
qed

text \<open>At most one byte more than expected is ever read, and exactly the expected number accepted.\<close>

lemma read_limited_length: "read_limited limit stream = Inr bs \<Longrightarrow> length bs \<le> limit"
  by (auto simp: read_limited_def split: prod.splits if_splits option.splits)

lemma zstd_decompress_length:
  "zstd_decompress decoder bs n = Inr data \<Longrightarrow> length data = n \<and> n \<le> MAX_ZSTD_DECODE_SIZE"
  by (auto simp: zstd_decompress_def split: if_splits sum.splits)

end
