(* ===== verification/Router.thy ===== *)
theory Router
  imports BwtInverse Lz77 BytePlane Bcj Analyzer Chunker Codecs
begin

text \<open>
  pipeline/router.rs: the cascade that tries several transforms on a chunk and keeps the smallest
  payload, and the decompressor that dispatches on the stored method. The model is built with the
  default features, so the BWT and LZ4 branches are present. The libraries and the coding
  predictor are fields of an environment.
\<close>

section \<open>Environment\<close>

datatype compression_profile = Archival | Balanced | Fast

record 's router_env =
  env_predictor :: "'s predictor"
  env_new_predictor :: 's
  env_set_baseline :: "bytes \<Rightarrow> 's \<Rightarrow> 's"
  env_entropy :: entropy_fun
  env_libsais :: suffix_sorter
  env_zstd_encode_all :: zstd_encoder
  env_zstd_decoder :: zstd_decoder
  env_lz4_decompress :: "bytes \<Rightarrow> string + bytes"

definition coding_predictor :: "'s router_env \<Rightarrow> bytes option \<Rightarrow> 's" where
  "coding_predictor env dict_baseline =
     (case dict_baseline of
        None \<Rightarrow> env_new_predictor env
      | Some baseline \<Rightarrow> env_set_baseline env baseline (env_new_predictor env))"

definition BWT_ENTROPY_SKIP :: real where "BWT_ENTROPY_SKIP = 7"

type_synonym candidate = "compression_method \<times> bytes"

record compressed_chunk =
  cc_method :: compression_method
  cc_data :: bytes
  cc_original_size :: nat
  cc_blake3_hash :: bytes
  cc_predictor_synced :: bool

section \<open>Trials\<close>

text \<open>\<open>best.as_ref().is_none_or(|(_, b)| payload.len() < b.len())\<close>\<close>

definition is_better :: "bytes \<Rightarrow> candidate option \<Rightarrow> bool" where
  "is_better payload best = (case best of None \<Rightarrow> True | Some (_, b) \<Rightarrow> length payload < length b)"

text \<open>Both conditions of the code: smaller than the chunk, smaller than the best so far.\<close>

definition offer :: "bytes \<Rightarrow> compression_method \<Rightarrow> bytes \<Rightarrow> candidate option \<Rightarrow> candidate option" where
  "offer data method payload best =
     (if length payload < length data \<and> is_better payload best then Some (method, payload) else best)"

definition try_byteplane_width ::
    "'s router_env \<Rightarrow> bytes \<Rightarrow> byte_plane_width \<Rightarrow> candidate option \<Rightarrow> candidate option option" where
  "try_byteplane_width env data width best =
     map_option
       (\<lambda>enc. case enc of None \<Rightarrow> best | Some payload \<Rightarrow> offer data BytePlanePredictorRans payload best)
       (byteplane_encode (env_entropy env) data width)"

definition try_numeric :: "'s router_env \<Rightarrow> bytes \<Rightarrow> candidate option option" where
  "try_numeric env data =
     (case detect_numeric_width (env_entropy env) data of
        Some width \<Rightarrow> try_byteplane_width env data width None
      | None \<Rightarrow>
          Option.bind
            (if is_byteplane_beneficial (env_entropy env) data Two
             then try_byteplane_width env data Two None else Some None)
            (\<lambda>best.
               if is_byteplane_beneficial (env_entropy env) data Four
               then try_byteplane_width env data Four best else Some best))"

definition try_bwt ::
    "'s router_env \<Rightarrow> bytes \<Rightarrow> real \<Rightarrow> 's \<Rightarrow> (candidate option \<times> 's) option" where
  "try_bwt env data entropy scratch =
     (if length data \<ge> 8 \<and> entropy < BWT_ENTROPY_SKIP then
        case bwt_mtf_encode_parts (env_libsais env) data of
          Inl _ \<Rightarrow> Some (None, scratch)
        | Inr (primary_index, mtf_data) \<Rightarrow>
            let (encode_data, flags) =
                  (case rle_encode mtf_data of
                     Some rle \<Rightarrow> (rle, 1)
                   | None \<Rightarrow> (rle_encode_escaped mtf_data, 2))
            in (case encode_block (env_predictor env) encode_data scratch of
                  None \<Rightarrow> None
                | Some (Inl _, scratch) \<Rightarrow> Some (None, scratch)
                | Some (Inr rc_bytes, scratch) \<Rightarrow>
                    let payload = [flags] @ u32_to_le primary_index
                          @ u32_to_le (of_nat (length encode_data)) @ rc_bytes
                    in Some (if length payload < length data then Some (BwtPredictorRans, payload) else None,
                             scratch))
      else Some (None, scratch))"

definition bwt_decisive :: "bytes \<Rightarrow> candidate option \<Rightarrow> bool" where
  "bwt_decisive data best =
     (case best of
        None \<Rightarrow> False
      | Some (_, b) \<Rightarrow> data \<noteq> [] \<and> length b < length data div 100 * BWT_DECISIVE_RATIO)"

definition try_lz77 ::
    "'s router_env \<Rightarrow> bytes \<Rightarrow> candidate option \<times> 's \<Rightarrow> (candidate option \<times> 's) option" where
  "try_lz77 env data st =
     (let (best, scratch) = st
      in if bwt_decisive data best then Some (best, scratch)
         else
           case lz77_encode data of
             None \<Rightarrow> Some (best, scratch)
           | Some lz_bytes \<Rightarrow>
               (case encode_block (env_predictor env) lz_bytes scratch of
                  None \<Rightarrow> None
                | Some (Inl _, scratch) \<Rightarrow> Some (best, scratch)
                | Some (Inr rc_bytes, scratch) \<Rightarrow>
                    Some (offer data Lz77PredictorRans (u32_to_le (of_nat (length lz_bytes)) @ rc_bytes) best,
                          scratch)))"

definition try_byteplane ::
    "'s router_env \<Rightarrow> bytes \<Rightarrow> content_type \<Rightarrow> candidate option \<Rightarrow> candidate option option" where
  "try_byteplane env data ct best =
     (if ct \<noteq> NumericData \<and> ct \<noteq> Text then
        case detect_numeric_width (env_entropy env) data of
          None \<Rightarrow> Some best
        | Some width \<Rightarrow> try_byteplane_width env data width best
      else Some best)"

definition try_plain ::
    "'s router_env \<Rightarrow> bytes \<Rightarrow> 's \<Rightarrow> candidate option \<Rightarrow> candidate option option" where
  "try_plain env data scratch best =
     (case best of
        Some _ \<Rightarrow> Some best
      | None \<Rightarrow>
          map_option
            (\<lambda>(r, _). case r of
               Inl _ \<Rightarrow> None
             | Inr rc_bytes \<Rightarrow>
                 if length rc_bytes < length data then Some (PredictorRans, rc_bytes) else None)
            (encode_block (env_predictor env) data scratch))"

text \<open>The four trials in their order.\<close>

definition neural_trials ::
    "'s router_env \<Rightarrow> bytes \<Rightarrow> real \<Rightarrow> content_type \<Rightarrow> bytes option \<Rightarrow> candidate option option" where
  "neural_trials env data entropy ct dict_baseline =
     Option.bind (try_bwt env data entropy (coding_predictor env dict_baseline)) (\<lambda>st.
     Option.bind (try_lz77 env data st) (\<lambda>(best, scratch).
     Option.bind (try_byteplane env data ct best) (\<lambda>best.
     try_plain env data scratch best)))"

definition try_zstd_or_store :: "'s router_env \<Rightarrow> bytes \<Rightarrow> candidate" where
  "try_zstd_or_store env data =
     (case zstd_compress (env_zstd_encode_all env) data of
        Inr zstd_bytes \<Rightarrow> if length zstd_bytes < length data then (Zstd, zstd_bytes) else (Store, data)
      | Inl _ \<Rightarrow> (Store, data))"

section \<open>Compressing a chunk\<close>

definition compress_fast ::
    "'s router_env \<Rightarrow> bytes \<Rightarrow> content_type \<Rightarrow> candidate result" where
  "compress_fast env data ct =
     bindR (zstd_compress (env_zstd_encode_all env) data) (\<lambda>zstd.
       let best = (if length zstd < length data then (Zstd, zstd) else (Store, data))
       in if ct = Executable then
            case encode_x86 data of
              None \<Rightarrow> Inr best
            | Some transformed \<Rightarrow>
                bindR (zstd_compress (env_zstd_encode_all env) transformed) (\<lambda>compressed.
                  Inr (if length compressed < length (snd best) then (BcjZstd, compressed) else best))
          else Inr best)"

definition bcj_candidate :: "'s router_env \<Rightarrow> bytes \<Rightarrow> content_type \<Rightarrow> candidate option" where
  "bcj_candidate env data ct =
     (if ct = Executable then
        Option.bind (encode_x86 data) (\<lambda>transformed.
          case zstd_compress (env_zstd_encode_all env) transformed of
            Inl _ \<Rightarrow> None
          | Inr compressed \<Rightarrow>
              if length compressed < length data then Some (BcjZstd, compressed) else None)
      else None)"

definition record_winner :: "'s router_env \<Rightarrow> bytes \<Rightarrow> candidate option \<Rightarrow> candidate \<times> bool" where
  "record_winner env data best =
     (case best of
        Some (method, payload) \<Rightarrow>
          ((method, payload), method \<notin> {BwtPredictorRans, BytePlanePredictorRans})
      | None \<Rightarrow> (try_zstd_or_store env data, True))"

text \<open>The predictor route; the flag is \<open>predictor_synced\<close>.\<close>

definition compress_predictor ::
    "'s router_env \<Rightarrow> bytes \<Rightarrow> real \<Rightarrow> content_type \<Rightarrow> bytes option \<Rightarrow> (candidate \<times> bool) option" where
  "compress_predictor env data entropy ct dict_baseline =
     (let is_numeric = (ct = NumericData)
      in Option.bind (if is_numeric then try_numeric env data else Some None) (\<lambda>best.
         let numeric_byteplane_won = (is_numeric \<and> best \<noteq> None);
             skip_neural_trials =
               (numeric_byteplane_won \<or> (is_numeric \<and> entropy > HIGH_ENTROPY_THRESHOLD))
         in Option.bind
              (if \<not> skip_neural_trials then neural_trials env data entropy ct dict_baseline
               else Some best)
              (\<lambda>best. Some (record_winner env data best))))"

definition compress_method ::
    "'s router_env \<Rightarrow> bytes \<Rightarrow> real \<Rightarrow> content_type \<Rightarrow> bytes option \<Rightarrow> (candidate \<times> bool) run" where
  "compress_method env data entropy ct dict_baseline =
     (case recommend_method_for entropy ct of
        RecPredictorRans \<Rightarrow>
          map_option Inr (compress_predictor env data entropy ct dict_baseline)
      | RecZstd \<Rightarrow>
          Some (bindR (zstd_compress (env_zstd_encode_all env) data) (\<lambda>compressed.
            Inr (if length compressed \<ge> length data then ((Store, data), True)
                 else ((Zstd, compressed), True))))
      | RecStore \<Rightarrow> Some (Inr ((Store, data), True)))"

definition fast_route :: "compression_profile \<Rightarrow> content_type \<Rightarrow> bool" where
  "fast_route profile ct \<longleftrightarrow>
     profile = Fast \<or> (profile = Balanced \<and> ct \<in> {BinaryStructured, BinaryRandom, Image, Executable})"

definition finish_chunk :: "chunk_ref \<Rightarrow> candidate \<Rightarrow> bool \<Rightarrow> compressed_chunk" where
  "finish_chunk chunk cand synced =
     \<lparr>cc_method = fst cand, cc_data = snd cand, cc_original_size = ch_length chunk,
      cc_blake3_hash = ch_blake3_hash chunk, cc_predictor_synced = synced\<rparr>"

definition prefer_bcj ::
    "'s router_env \<Rightarrow> chunk_ref \<Rightarrow> content_type \<Rightarrow> candidate \<Rightarrow> bool \<Rightarrow> compressed_chunk" where
  "prefer_bcj env chunk ct best synced =
     (case bcj_candidate env (ch_data chunk) ct of
        Some cand \<Rightarrow>
          if length (snd cand) < length (snd best) then finish_chunk chunk cand False
          else finish_chunk chunk best synced
      | None \<Rightarrow> finish_chunk chunk best synced)"

definition compress_chunk_with_baseline ::
    "'s router_env \<Rightarrow> chunk_ref \<Rightarrow> bytes option \<Rightarrow> content_type \<Rightarrow> compression_profile
      \<Rightarrow> compressed_chunk run" where
  "compress_chunk_with_baseline env chunk dict_baseline ct profile =
     (if fast_route profile ct then
        Some (bindR (compress_fast env (ch_data chunk) ct) (\<lambda>best. Inr (finish_chunk chunk best False)))
      else
        bindRun (compress_method env (ch_data chunk) (ch_entropy chunk) ct dict_baseline)
          (\<lambda>(best, synced). Some (Inr (prefer_bcj env chunk ct best synced))))"

section \<open>Decompressing a block\<close>

text \<open>A payload that starts with a 32-bit length of the range-coded intermediate form.\<close>

definition decode_sized ::
    "'s router_env \<Rightarrow> bytes option \<Rightarrow> string \<Rightarrow> string \<Rightarrow> bytes \<Rightarrow> bytes run" where
  "decode_sized env dict_baseline short big compressed_data =
     (if length compressed_data < 4 then Some (Inl (Decompression short))
      else
        let lz_len = unat (u32_of_le (take 4 compressed_data))
        in if lz_len > MAX_DECOMPRESSED_BLOCK_SIZE then Some (Inl (ResourceLimitExceeded big))
           else map_option fst
                  (decode_block (env_predictor env) (drop 4 compressed_data) lz_len
                    (coding_predictor env dict_baseline)))"

definition decompress_bwt ::
    "'s router_env \<Rightarrow> bytes option \<Rightarrow> bytes \<Rightarrow> nat \<Rightarrow> bytes run" where
  "decompress_bwt env dict_baseline compressed_data uncompressed_size =
     (if length compressed_data < 9 then
        Some (Inl (Decompression ''BwtPredictorRans payload too short: {} bytes (need >=9, uncompressed_size={})''))
      else
        let flags = compressed_data ! 0
        in if flags > 2 then
             Some (Inl (Decompression ''BwtPredictorRans: invalid flags byte {flags:#04x}''))
           else
             let primary_index = u32_of_le (take 4 (drop 1 compressed_data));
                 encoded_len = unat (u32_of_le (take 4 (drop 5 compressed_data)))
             in if encoded_len > MAX_DECOMPRESSED_BLOCK_SIZE then
                  Some (Inl (ResourceLimitExceeded
                    ''BWT encoded_len {} exceeds safety limit {} (uncompressed_size={})''))
                else
                  bindRun (map_option fst
                    (decode_block (env_predictor env) (drop 9 compressed_data) encoded_len
                      (coding_predictor env dict_baseline))) (\<lambda>encode_data.
                  bindRun (Some
                    (if flags = 2 then rle_decode_escaped encode_data uncompressed_size
                     else if flags = 1 then rle_decode encode_data uncompressed_size
                     else Inr encode_data)) (\<lambda>mtf_data.
                  Some (bwt_mtf_decode_parts primary_index mtf_data uncompressed_size))))"

definition decompress_chunk_with_baseline ::
    "'s router_env \<Rightarrow> bytes \<Rightarrow> compression_method \<Rightarrow> nat \<Rightarrow> bytes option \<Rightarrow> bytes run" where
  "decompress_chunk_with_baseline env compressed_data method uncompressed_size dict_baseline =
     (if uncompressed_size > MAX_DECOMPRESSED_BLOCK_SIZE then
        Some (Inl (ResourceLimitExceeded ''Decompressed block size {} exceeds maximum {} bytes''))
      else
        case method of
          BcjZstd \<Rightarrow>
            Some (bindR (zstd_decompress (env_zstd_decoder env) compressed_data uncompressed_size)
                    (\<lambda>original. Inr (decode_x86 original)))
        | BytePlanePredictorRans \<Rightarrow> byteplane_decode compressed_data uncompressed_size
        | BwtPredictorRans \<Rightarrow> decompress_bwt env dict_baseline compressed_data uncompressed_size
        | Lz77PredictorRans \<Rightarrow>
            bindRun (decode_sized env dict_baseline
                ''Lz77PredictorRans payload too short: {} bytes (need >=4, uncompressed_size={})''
                ''LZ77 intermediate len {} exceeds safety limit {} (uncompressed_size={})''
                compressed_data)
              (\<lambda>lz_bytes. Some (lz77_decode lz_bytes uncompressed_size))
        | LzPredictorRans \<Rightarrow>
            bindRun (decode_sized env dict_baseline
                ''LzPredictorRans payload too short: {} bytes (need >=4, uncompressed_size={})''
                ''LZ4 intermediate len {} exceeds safety limit {} (uncompressed_size={})''
                compressed_data)
              (\<lambda>lz_bytes. Some (lz_decode (env_lz4_decompress env) lz_bytes uncompressed_size))
        | PredictorRans \<Rightarrow>
            map_option fst
              (decode_block (env_predictor env) compressed_data uncompressed_size
                (coding_predictor env dict_baseline))
        | Zstd \<Rightarrow> Some (zstd_decompress (env_zstd_decoder env) compressed_data uncompressed_size)
        | Store \<Rightarrow>
            if length compressed_data \<noteq> uncompressed_size then
              Some (Inl (Decompression
                ''Store block size mismatch: payload is {} bytes but uncompressed_size is {}''))
            else Some (Inr compressed_data))"

lemma bcj_candidate_SomeE:
  assumes "bcj_candidate env data ct = Some cand"
  obtains t where "encode_x86 data = Some t" "zstd_compress (env_zstd_encode_all env) t = Inr (snd cand)"
    "fst cand = BcjZstd" "length (snd cand) < length data"
proof -
  obtain t where t: "encode_x86 data = Some t" "(case zstd_compress (env_zstd_encode_all env) t of
            Inl _ \<Rightarrow> None
          | Inr compressed \<Rightarrow>
              if length compressed < length data then Some (BcjZstd, compressed) else None) = Some cand"
    using assms by (auto simp: bcj_candidate_def bind_eq_Some_conv split: if_splits)
  then show thesis
    using that [OF t(1)] by (cases "zstd_compress (env_zstd_encode_all env) t") (auto split: if_splits)
qed

section \<open>The contract of the environment\<close>

text \<open>
  The coding predictor is lawful, resetting it undoes whatever was coded since it was built, and
  the libraries are correct.
\<close>

locale router_contract =
  coder: lawful_predictor "env_predictor env" good cdf
  for env :: "'s router_env" and good :: "'s \<Rightarrow> bool" and cdf :: "'s \<Rightarrow> u16 list" +
  assumes start_good: "good (coding_predictor env b)"
    and reset_idem: "good s \<Longrightarrow> same_coding (env_predictor env)
      (reset_state (env_predictor env) (reset_state (env_predictor env) s)) (reset_state (env_predictor env) s)"
    and reset_next: "good s \<Longrightarrow> same_coding (env_predictor env)
      (reset_state (env_predictor env)
        (update_byte (env_predictor env) byte (snd (query_cdf (env_predictor env) byte s))))
      (reset_state (env_predictor env) s)"
    and sais: "sais_ok (env_libsais env)"
    and zstd: "zstd_ok (env_zstd_encode_all env) (env_zstd_decoder env)"
begin

definition scratch_ok :: "bytes option \<Rightarrow> 's \<Rightarrow> bool" where
  "scratch_ok b s \<longleftrightarrow> good s
     \<and> same_coding (env_predictor env) (reset_state (env_predictor env) s)
         (reset_state (env_predictor env) (coding_predictor env b))"

lemma scratch_start: "scratch_ok b (coding_predictor env b)"
  by (simp add: scratch_ok_def start_good)

lemma encode_symbols_state:
  "encode_symbols (env_predictor env) data enc s = Some (enc', s') \<Longrightarrow> good s
   \<Longrightarrow> good s' \<and> same_coding (env_predictor env) (reset_state (env_predictor env) s') (reset_state (env_predictor env) s)"
proof (induction data arbitrary: enc s)
  case (Cons byte data)
  let ?s = "update_byte (env_predictor env) byte (snd (query_cdf (env_predictor env) byte s))"
  obtain enc1 where "encode_symbols (env_predictor env) data enc1 ?s = Some (enc', s')"
    using Cons.prems(1) by (auto simp: Let_def split: prod.splits option.splits)
  from Cons.IH [OF this coder.update_good [OF Cons.prems(2)]]
  show ?case by (auto elim!: same_coding_trans intro: reset_next [OF Cons.prems(2)])
qed simp

text \<open>Every trial leaves the scratch predictor usable by the next one.\<close>

lemma encode_block_state:
  assumes "encode_block (env_predictor env) data s = Some (r, s')" "scratch_ok b s"
  shows "scratch_ok b s'"
proof (cases "data = []")
  case True
  then show ?thesis using assms by (simp add: encode_block_def encode_block_inner_def)
next
  case False
  let ?r = "reset_state (env_predictor env)"
  have g: "good s" "same_coding (env_predictor env) (?r s) (?r (coding_predictor env b))"
    using assms(2) by (simp_all add: scratch_ok_def)
  obtain enc where "encode_symbols (env_predictor env) data range_encoder_new (?r s) = Some (enc, s')"
    using assms(1) False
    by (auto simp: encode_block_def encode_block_inner_def split: option.splits prod.splits)
  from encode_symbols_state [OF this coder.reset_good [OF g(1)]]
  show ?thesis
    by (auto simp: scratch_ok_def elim!: same_coding_trans intro: same_coding_trans [OF reset_idem [OF g(1)] g(2)])
qed

lemma decode_block_scratch:
  assumes "encode_block (env_predictor env) data s = Some (Inr compressed, s')" "scratch_ok b s"
    "length data \<le> MAX_DECOMPRESSED_BLOCK_SIZE"
  shows "map_option fst (decode_block (env_predictor env) compressed (length data) (coding_predictor env b))
    = Some (Inr data)"
proof -
  have "\<exists>t. decode_block_inner (env_predictor env) compressed (length data) True (coding_predictor env b)
      = Some (Inr data, t) \<and> (data \<noteq> [] \<longrightarrow> t = s')"
    by (rule coder.decode_encode_inner [of s])
      (use assms in \<open>simp_all add: scratch_ok_def encode_block_def MAX_DECODE_SIZE_def same_coding_sym\<close>)
  then show ?thesis by (auto simp: decode_block_def)
qed

lemma encode_block_returns: "good s \<Longrightarrow> \<exists>r s'. encode_block (env_predictor env) data s = Some (r, s')"
  using coder.encode_inner_returns [of s data True] by (auto simp: encode_block_def)

section \<open>Every candidate decodes\<close>

definition decodes :: "bytes option \<Rightarrow> bytes \<Rightarrow> candidate \<Rightarrow> bool" where
  "decodes b data c \<longleftrightarrow>
     decompress_chunk_with_baseline env (snd c) (fst c) (length data) b = Some (Inr data)"

definition best_ok :: "bytes option \<Rightarrow> bytes \<Rightarrow> candidate option \<Rightarrow> bool" where
  "best_ok b data best \<longleftrightarrow>
     (\<forall>c. best = Some c \<longrightarrow> decodes b data c \<and> length (snd c) < length data)"

lemma best_ok_None [simp]: "best_ok b data None" by (simp add: best_ok_def)

lemma best_ok_offer:
  assumes "best_ok b data best" "decodes b data (method, payload)"
  shows "best_ok b data (offer data method payload best)"
  using assms by (auto simp: best_ok_def offer_def)

lemma try_byteplane_width_ok:
  assumes "try_byteplane_width env data width best = Some best'" "best_ok b data best"
    "length data \<le> MAX_DECOMPRESSED_BLOCK_SIZE"
  shows "best_ok b data best'"
proof -
  obtain enc where e: "byteplane_encode (env_entropy env) data width = Some enc"
      "best' = (case enc of None \<Rightarrow> best | Some payload \<Rightarrow> offer data BytePlanePredictorRans payload best)"
    using assms(1) by (auto simp: try_byteplane_width_def)
  show ?thesis
  proof (cases enc)
    case (Some payload)
    have "decodes b data (BytePlanePredictorRans, payload)"
      using byteplane_decode_encode [of "env_entropy env" data width payload] e(1) Some assms(3)
      by (simp add: decodes_def decompress_chunk_with_baseline_def)
    then show ?thesis using best_ok_offer [OF assms(2)] e(2) Some by simp
  qed (use e(2) assms(2) in simp)
qed

lemma try_numeric_ok:
  assumes "try_numeric env data = Some best" "length data \<le> MAX_DECOMPRESSED_BLOCK_SIZE"
  shows "best_ok b data best"
  using assms(1)
  by (auto simp: try_numeric_def bind_eq_Some_conv split: option.splits if_splits
      elim!: try_byteplane_width_ok [OF _ _ assms(2)])

text \<open>The move-to-front bytes, run-length coded one way or the other.\<close>

lemma rle_stage:
  assumes "(encode_data, flags) = (case rle_encode mtf_data of
      Some rle \<Rightarrow> (rle, 1 :: u8) | None \<Rightarrow> (rle_encode_escaped mtf_data, 2))"
    and "length mtf_data \<le> MAX_BWT_INPUT_SIZE"
  shows "flags \<in> {1, 2}" "length encode_data \<le> 2 * length mtf_data"
    "(if flags = 2 then rle_decode_escaped encode_data (length mtf_data)
      else if flags = 1 then rle_decode encode_data (length mtf_data)
      else Inr encode_data) = Inr mtf_data"
proof -
  have small: "length mtf_data < 2 ^ 32" using assms(2) by (simp add: MAX_BWT_INPUT_SIZE_def)
  show "flags \<in> {1, 2}" using assms(1) by (auto split: option.splits)
  show "length encode_data \<le> 2 * length mtf_data"
    using assms(1) length_rle_encode_loop [of "\<lambda>v. [v + 1]" 1 mtf_data]
      length_rle_encode_loop [of escaped_literal 2 mtf_data]
    by (auto simp: rle_encode_def rle_encode_escaped_def escaped_literal_def split: option.splits if_splits)
  show "(if flags = 2 then rle_decode_escaped encode_data (length mtf_data)
      else if flags = 1 then rle_decode encode_data (length mtf_data)
      else Inr encode_data) = Inr mtf_data"
    using assms(1) rle_decode_encode [OF _ small] rle_decode_encode_escaped [OF small]
    by (auto split: option.splits)
qed

lemma decodes_bwt:
  assumes "bwt_mtf_encode_parts (env_libsais env) data = Inr (primary_index, mtf_data)"
    and rle: "(encode_data, flags) = (case rle_encode mtf_data of
      Some rle \<Rightarrow> (rle, 1 :: u8) | None \<Rightarrow> (rle_encode_escaped mtf_data, 2))"
    and "encode_block (env_predictor env) encode_data s = Some (Inr rc_bytes, s')" "scratch_ok b s"
  shows "decodes b data (BwtPredictorRans,
    [flags] @ u32_to_le primary_index @ u32_to_le (of_nat (length encode_data)) @ rc_bytes)"
proof -
  obtain bwt where bwt: "bwt_encode (env_libsais env) data = Inr (bwt, primary_index)"
      "mtf_data = mtf_encode bwt"
    using assms(1) by (auto simp: bwt_mtf_encode_parts_def split: sum.splits)
  have len: "length mtf_data = length data" using bwt_encode_length [OF sais bwt(1)] bwt(2) by simp
  have size: "length data \<le> MAX_BWT_INPUT_SIZE" by (rule bwt_encode_size [OF bwt(1)])
  note stage = rle_stage [OF rle, unfolded len, OF size]
  have enc: "length encode_data \<le> MAX_DECOMPRESSED_BLOCK_SIZE" "length data \<le> MAX_DECOMPRESSED_BLOCK_SIZE"
    using stage(2) size by (simp_all add: MAX_BWT_INPUT_SIZE_def MAX_DECOMPRESSED_BLOCK_SIZE_def)
  then have "unat (of_nat (length encode_data) :: u32) = length encode_data"
    by (intro unat_of_nat_small) (simp add: MAX_DECOMPRESSED_BLOCK_SIZE_def)
  moreover have "\<not> flags > 2" using stage(1) by auto
  ultimately have "decompress_bwt env b
      ([flags] @ u32_to_le primary_index @ u32_to_le (of_nat (length encode_data)) @ rc_bytes) (length data)
      = Some (bwt_mtf_decode_parts primary_index mtf_data (length data))"
    using enc(1)
    by (simp add: decompress_bwt_def Let_def decode_block_scratch [OF assms(3,4) enc(1)] stage(3))
  then show ?thesis
    using bwt_mtf_decode_parts_encode [OF sais assms(1)] enc(2)
    by (simp add: decodes_def decompress_chunk_with_baseline_def)
qed

lemma try_bwt_ok:
  assumes "try_bwt env data entropy s = Some (best, s')" "scratch_ok b s"
  shows "best_ok b data best \<and> scratch_ok b s'"
proof (cases "length data \<ge> 8 \<and> entropy < BWT_ENTROPY_SKIP")
  case False
  then show ?thesis using assms by (auto simp: try_bwt_def)
next
  case True
  show ?thesis
  proof (cases "bwt_mtf_encode_parts (env_libsais env) data")
    case (Inl e)
    then show ?thesis using assms True by (auto simp: try_bwt_def)
  next
    case (Inr pm)
    obtain primary_index mtf_data where pm: "pm = (primary_index, mtf_data)" by fastforce
    obtain encode_data flags where rle: "(encode_data, flags) = (case rle_encode mtf_data of
        Some rle \<Rightarrow> (rle, 1 :: u8) | None \<Rightarrow> (rle_encode_escaped mtf_data, 2))"
      by (metis surj_pair)
    obtain r s2 where e: "encode_block (env_predictor env) encode_data s = Some (r, s2)"
      using encode_block_returns [of s encode_data] assms(2) by (auto simp: scratch_ok_def)
    have "try_bwt env data entropy s = Some
        (case r of Inl _ \<Rightarrow> None
         | Inr rc_bytes \<Rightarrow>
             if length ([flags] @ u32_to_le primary_index @ u32_to_le (of_nat (length encode_data)) @ rc_bytes)
                 < length data
             then Some (BwtPredictorRans,
               [flags] @ u32_to_le primary_index @ u32_to_le (of_nat (length encode_data)) @ rc_bytes)
             else None, s2)"
      using True by (simp add: try_bwt_def Inr pm rle [symmetric] e Let_def split: sum.split)
    then show ?thesis
      using assms(1) encode_block_state [OF e assms(2)] decodes_bwt [OF Inr [unfolded pm] rle _ assms(2)] e
      by (auto simp: best_ok_def split: sum.splits if_splits)
  qed
qed

lemma decode_sized_encode:
  assumes "encode_block (env_predictor env) data s = Some (Inr rc_bytes, s')" "scratch_ok b s"
    "length data \<le> MAX_DECOMPRESSED_BLOCK_SIZE"
  shows "decode_sized env b short big (u32_to_le (of_nat (length data)) @ rc_bytes) = Some (Inr data)"
proof -
  have "unat (of_nat (length data) :: u32) = length data"
    using assms(3) by (intro unat_of_nat_small) (simp add: MAX_DECOMPRESSED_BLOCK_SIZE_def)
  then show ?thesis
    using decode_block_scratch [OF assms] assms(3) by (simp add: decode_sized_def Let_def)
qed

lemma try_lz77_ok:
  assumes "try_lz77 env data (best, s) = Some (best', s')" "best_ok b data best" "scratch_ok b s"
    "length data \<le> MAX_DECOMPRESSED_BLOCK_SIZE"
  shows "best_ok b data best' \<and> scratch_ok b s'"
proof (cases "bwt_decisive data best \<or> lz77_encode data = None")
  case True
  then show ?thesis using assms by (auto simp: try_lz77_def split: if_splits)
next
  case False
  then obtain lz where lz: "lz77_encode data = Some lz" and d: "\<not> bwt_decisive data best" by auto
  obtain r s2 where e: "encode_block (env_predictor env) lz s = Some (r, s2)"
    using encode_block_returns [of s lz] assms(3) by (auto simp: scratch_ok_def)
  have small: "length lz \<le> MAX_DECOMPRESSED_BLOCK_SIZE"
    using lz assms(4) by (auto simp: lz77_encode_def Let_def split: if_splits prod.splits)
  have dec: "decodes b data (Lz77PredictorRans, u32_to_le (of_nat (length lz)) @ rc)" if "r = Inr rc" for rc
    using decode_sized_encode [OF e [unfolded that] assms(3) small] lz77_decode_encode [OF lz] assms(4)
    by (simp add: decodes_def decompress_chunk_with_baseline_def)
  show ?thesis
    using assms(1,2) d lz e encode_block_state [OF e assms(3)] best_ok_offer [OF assms(2) dec]
    by (auto simp: try_lz77_def split: sum.splits)
qed

lemma try_byteplane_ok:
  assumes "try_byteplane env data ct best = Some best'" "best_ok b data best"
    "length data \<le> MAX_DECOMPRESSED_BLOCK_SIZE"
  shows "best_ok b data best'"
  using assms(1,2)
  by (auto simp: try_byteplane_def split: if_splits option.splits
      elim: try_byteplane_width_ok [OF _ _ assms(3)])

lemma try_plain_ok:
  assumes "try_plain env data s best = Some best'" "best_ok b data best" "scratch_ok b s"
    "length data \<le> MAX_DECOMPRESSED_BLOCK_SIZE"
  shows "best_ok b data best'"
proof (cases best)
  case (Some c)
  then show ?thesis using assms(1,2) by (simp add: try_plain_def)
next
  case None
  obtain r s' where e: "encode_block (env_predictor env) data s = Some (r, s')"
    using encode_block_returns [of s data] assms(3) by (auto simp: scratch_ok_def)
  have "decodes b data (PredictorRans, rc)" if "r = Inr rc" for rc
    using decode_block_scratch [OF e [unfolded that] assms(3,4)] assms(4)
    by (simp add: decodes_def decompress_chunk_with_baseline_def)
  then show ?thesis
    using assms(1) None by (auto simp: try_plain_def e best_ok_def split: sum.splits if_splits)
qed

lemma neural_trials_ok:
  assumes "neural_trials env data entropy ct b = Some best"
    and small: "length data \<le> MAX_DECOMPRESSED_BLOCK_SIZE"
  shows "best_ok b data best"
proof -
  obtain b1 s1 b2 s2 b3 where t:
      "try_bwt env data entropy (coding_predictor env b) = Some (b1, s1)"
      "try_lz77 env data (b1, s1) = Some (b2, s2)"
      "try_byteplane env data ct b2 = Some b3"
      "try_plain env data s2 b3 = Some best"
    using assms(1) by (auto simp: neural_trials_def bind_eq_Some_conv)
  have 1: "best_ok b data b1 \<and> scratch_ok b s1" by (rule try_bwt_ok [OF t(1) scratch_start])
  have 2: "best_ok b data b2 \<and> scratch_ok b s2" using try_lz77_ok [OF t(2)] 1 small by blast
  have 3: "best_ok b data b3" using try_byteplane_ok [OF t(3)] 2 small by blast
  show ?thesis using try_plain_ok [OF t(4) 3] 2 small by blast
qed

lemma decodes_zstd:
  "zstd_compress (env_zstd_encode_all env) data = Inr c \<Longrightarrow>
   length data \<le> MAX_DECOMPRESSED_BLOCK_SIZE \<Longrightarrow> decodes b data (Zstd, c)"
  using zstd_decompress_compress [OF zstd]
  by (simp add: decodes_def decompress_chunk_with_baseline_def MAX_ZSTD_DECODE_SIZE_def)

lemma decodes_store: "length data \<le> MAX_DECOMPRESSED_BLOCK_SIZE \<Longrightarrow> decodes b data (Store, data)"
  by (simp add: decodes_def decompress_chunk_with_baseline_def)

lemma decodes_bcj:
  assumes "encode_x86 data = Some t" "zstd_compress (env_zstd_encode_all env) t = Inr c"
    "length data \<le> MAX_DECOMPRESSED_BLOCK_SIZE"
  shows "decodes b data (BcjZstd, c)"
proof -
  have t: "t = transform_x86 True 0 data" using assms(1) by (simp add: encode_x86_def split: if_splits)
  then show ?thesis
    using zstd_decompress_compress [OF zstd assms(2)] assms(3) transform_x86_inverse [of True data]
    by (simp add: decodes_def decompress_chunk_with_baseline_def MAX_ZSTD_DECODE_SIZE_def decode_x86_def)
qed

lemma try_zstd_or_store_ok:
  "length data \<le> MAX_DECOMPRESSED_BLOCK_SIZE \<Longrightarrow>
   decodes b data (try_zstd_or_store env data) \<and> length (snd (try_zstd_or_store env data)) \<le> length data"
  using decodes_zstd decodes_store by (auto simp: try_zstd_or_store_def split: sum.split)

lemma compress_fast_ok:
  assumes "compress_fast env data ct = Inr c" "length data \<le> MAX_DECOMPRESSED_BLOCK_SIZE"
  shows "decodes b data c \<and> length (snd c) \<le> length data"
  using assms decodes_zstd decodes_store decodes_bcj
  by (auto simp: compress_fast_def bindR_Inr_iff Let_def split: if_splits option.splits)

lemma compress_method_ok:
  assumes "compress_method env data entropy ct b = Some (Inr (c, synced))"
    and small: "length data \<le> MAX_DECOMPRESSED_BLOCK_SIZE"
  shows "decodes b data c \<and> length (snd c) \<le> length data"
proof (cases "recommend_method_for entropy ct")
  case RecPredictorRans
  then have p: "compress_predictor env data entropy ct b = Some (c, synced)"
    using assms(1) by (auto simp: compress_method_def)
  then obtain best0 where b0: "(if ct = NumericData then try_numeric env data else Some None) = Some best0"
    and rest: "Option.bind
        (if \<not> (ct = NumericData \<and> best0 \<noteq> None \<or> ct = NumericData \<and> entropy > HIGH_ENTROPY_THRESHOLD)
         then neural_trials env data entropy ct b else Some best0)
        (\<lambda>best. Some (record_winner env data best)) = Some (c, synced)"
    unfolding compress_predictor_def Let_def bind_eq_Some_conv by blast
  obtain best where b: "best = best0 \<or> neural_trials env data entropy ct b = Some best"
      "record_winner env data best = (c, synced)"
    using rest by (auto simp: bind_eq_Some_conv split: if_splits)
  have "best_ok b data best0"
    using b0 try_numeric_ok [OF _ small] by (auto split: if_splits)
  then have ok: "best_ok b data best" using b(1) neural_trials_ok [OF _ small] by auto
  show ?thesis
  proof (cases best)
    case None
    then show ?thesis using b(2) try_zstd_or_store_ok [OF small] by (auto simp: record_winner_def)
  next
    case (Some cand)
    then have "c = cand" using b(2) by (auto simp: record_winner_def split: prod.splits)
    then show ?thesis using ok Some by (auto simp: best_ok_def)
  qed
next
  case RecZstd
  then show ?thesis
    using assms decodes_zstd decodes_store
    by (auto simp: compress_method_def bindR_Inr_iff split: if_splits)
next
  case RecStore
  then show ?thesis using assms decodes_store by (auto simp: compress_method_def)
qed

text \<open>Whatever route a chunk takes, its block decodes to the chunk and is no larger.\<close>

lemma compress_chunk_round_trip:
  assumes c: "compress_chunk_with_baseline env chunk b ct profile = Some (Inr cc)"
    and len: "ch_length chunk = length (ch_data chunk)"
    and small: "ch_length chunk \<le> MAX_DECOMPRESSED_BLOCK_SIZE"
  shows "decompress_chunk_with_baseline env (cc_data cc) (cc_method cc) (cc_original_size cc) b
      = Some (Inr (ch_data chunk))
    \<and> length (cc_data cc) \<le> ch_length chunk
    \<and> cc_original_size cc = ch_length chunk \<and> cc_blake3_hash cc = ch_blake3_hash chunk"
proof -
  let ?data = "ch_data chunk"
  have small': "length ?data \<le> MAX_DECOMPRESSED_BLOCK_SIZE" using len small by simp
  have "\<exists>cand synced. decodes b ?data cand \<and> length (snd cand) \<le> length ?data
      \<and> cc = finish_chunk chunk cand synced"
  proof (cases "fast_route profile ct")
    case True
    then obtain cand where "compress_fast env ?data ct = Inr cand" "cc = finish_chunk chunk cand False"
      using c by (auto simp: compress_chunk_with_baseline_def bindR_Inr_iff)
    then show ?thesis using compress_fast_ok small' by blast
  next
    case False
    then obtain best synced where m: "compress_method env ?data (ch_entropy chunk) ct b = Some (Inr (best, synced))"
        "cc = prefer_bcj env chunk ct best synced"
      using c by (auto simp: compress_chunk_with_baseline_def bindRun_Inr_iff)
    then have r: "(\<exists>cand. bcj_candidate env ?data ct = Some cand \<and> cc = finish_chunk chunk cand False)
          \<or> cc = finish_chunk chunk best synced"
      by (auto simp: prefer_bcj_def split: option.splits if_splits)
    have bcj: "decodes b ?data cand \<and> length (snd cand) \<le> length ?data"
      if bc: "bcj_candidate env ?data ct = Some cand" for cand
    proof -
      obtain t where "encode_x86 ?data = Some t" "zstd_compress (env_zstd_encode_all env) t = Inr (snd cand)"
          "fst cand = BcjZstd" "length (snd cand) < length ?data"
        using bcj_candidate_SomeE [OF bc] by metis
      then show ?thesis using decodes_bcj [OF _ _ small', of t "snd cand" b] by (cases cand) simp
    qed
    from r show ?thesis
    proof
      assume "\<exists>cand. bcj_candidate env ?data ct = Some cand \<and> cc = finish_chunk chunk cand False"
      then show ?thesis using bcj by metis
    next
      assume "cc = finish_chunk chunk best synced"
      then show ?thesis using compress_method_ok [OF m(1) small'] by metis
    qed
  qed
  then obtain cand synced where "decodes b ?data cand" "length (snd cand) \<le> length ?data"
      "cc = finish_chunk chunk cand synced" by blast
  then show ?thesis by (simp add: decodes_def finish_chunk_def len)
qed

section \<open>Both directions always return\<close>

lemma try_byteplane_width_returns: "\<exists>r. try_byteplane_width env data width best = Some r"
  using byteplane_encode_returns [of "env_entropy env" data width] by (auto simp: try_byteplane_width_def)

lemma try_numeric_returns: "\<exists>r. try_numeric env data = Some r"
proof (cases "detect_numeric_width (env_entropy env) data")
  case None
  have "\<exists>r. (if p then try_byteplane_width env data width best else Some best) = Some r" for p width best
    using try_byteplane_width_returns by simp
  then show ?thesis unfolding try_numeric_def None option.case by (intro bind_returns)
qed (simp add: try_numeric_def try_byteplane_width_returns)

lemma encode_case_returns:
  assumes "good s"
  shows "\<exists>r. (case encode_block (env_predictor env) d s of
                None \<Rightarrow> None
              | Some (Inl _, scratch) \<Rightarrow> Some (f scratch)
              | Some (Inr rc_bytes, scratch) \<Rightarrow> Some (g rc_bytes scratch)) = Some r"
proof -
  obtain r s' where "encode_block (env_predictor env) d s = Some (r, s')"
    using encode_block_returns [OF assms, of d] by blast
  then show ?thesis by (cases r) simp_all
qed

lemma try_bwt_returns:
  assumes "good s"
  shows "\<exists>r. try_bwt env data entropy s = Some r"
proof (cases "length data \<ge> 8 \<and> entropy < BWT_ENTROPY_SKIP")
  case True
  show ?thesis
  proof (cases "bwt_mtf_encode_parts (env_libsais env) data")
    case (Inr pm)
    show ?thesis
      unfolding try_bwt_def if_P [OF True] Inr sum.case Let_def case_prod_beta
      by (rule encode_case_returns [OF assms, unfolded case_prod_beta])
  qed (simp add: try_bwt_def)
qed (auto simp: try_bwt_def)

lemma try_lz77_returns:
  assumes "good s"
  shows "\<exists>r. try_lz77 env data (best, s) = Some r"
proof (cases "bwt_decisive data best \<or> lz77_encode data = None")
  case False
  then obtain lz where lz: "lz77_encode data = Some lz" "\<not> bwt_decisive data best" by auto
  show ?thesis
    unfolding try_lz77_def Let_def prod.case if_not_P [OF lz(2)] lz(1) option.case
    by (rule encode_case_returns [OF assms])
qed (auto simp: try_lz77_def)

lemma neural_trials_returns:
  assumes "length data \<le> MAX_DECOMPRESSED_BLOCK_SIZE"
  shows "\<exists>r. neural_trials env data entropy ct b = Some r"
proof -
  obtain b1 s1 where 1: "try_bwt env data entropy (coding_predictor env b) = Some (b1, s1)"
    using try_bwt_returns [OF start_good] by fastforce
  have ok1: "best_ok b data b1" "scratch_ok b s1" using try_bwt_ok [OF 1 scratch_start] by auto
  obtain b2 s2 where 2: "try_lz77 env data (b1, s1) = Some (b2, s2)"
    using try_lz77_returns ok1(2) by (fastforce simp: scratch_ok_def)
  have ok2: "scratch_ok b s2" using try_lz77_ok [OF 2 ok1 assms] by simp
  obtain b3 where 3: "try_byteplane env data ct b2 = Some b3"
    using try_byteplane_width_returns [of data _ b2] by (fastforce simp: try_byteplane_def split: option.split)
  obtain b4 where "try_plain env data s2 b3 = Some b4"
    using encode_block_returns [of s2 data] ok2 by (fastforce simp: try_plain_def scratch_ok_def split: option.split)
  then show ?thesis by (simp add: neural_trials_def 1 2 3)
qed

lemma compress_chunk_returns:
  assumes "ch_length chunk = length (ch_data chunk)" "ch_length chunk \<le> MAX_DECOMPRESSED_BLOCK_SIZE"
  shows "\<exists>r. compress_chunk_with_baseline env chunk b ct profile = Some r"
proof -
  let ?data = "ch_data chunk"
  have "\<exists>r. compress_predictor env ?data (ch_entropy chunk) ct b = Some r"
  proof -
    have "\<exists>r. try_numeric env ?data = Some r" by (rule try_numeric_returns)
    moreover have "\<exists>r. neural_trials env ?data (ch_entropy chunk) ct b = Some r"
      using neural_trials_returns assms by simp
    ultimately show ?thesis
      unfolding compress_predictor_def Let_def by (intro bind_returns) simp_all
  qed
  then have "\<exists>r. compress_method env ?data (ch_entropy chunk) ct b = Some r"
    by (auto simp: compress_method_def split: recommended_method.split)
  then show ?thesis
    unfolding compress_chunk_with_baseline_def
    by (cases "fast_route profile ct") (auto intro!: bindRun_returns)
qed

lemma decode_block_returns:
  "\<exists>r. map_option fst (decode_block (env_predictor env) compressed n (coding_predictor env b)) = Some r"
  using coder.decode_inner_returns [OF start_good, of compressed n True b] by (auto simp: decode_block_def)

lemma decompress_chunk_returns:
  "\<exists>r. decompress_chunk_with_baseline env compressed m n b = Some r"
proof -
  have sized: "\<exists>r. decode_sized env b short big compressed = Some r" for short big
    using decode_block_returns by (simp add: decode_sized_def Let_def)
  have "\<exists>r. decompress_bwt env b compressed n = Some r"
    unfolding decompress_bwt_def Let_def
    using decode_block_returns by (auto intro!: bindRun_returns split: if_split)
  then show ?thesis
    using byteplane_decode_returns sized decode_block_returns
    by (cases m) (auto simp: decompress_chunk_with_baseline_def intro!: bindRun_returns)
qed

text \<open>An accepted block has exactly the size its header claims.\<close>

lemma decompress_chunk_length:
  assumes "decompress_chunk_with_baseline env compressed m n b = Some (Inr data)"
  shows "length data = n \<and> n \<le> MAX_DECOMPRESSED_BLOCK_SIZE"
proof -
  have n: "n \<le> MAX_DECOMPRESSED_BLOCK_SIZE"
    using assms by (auto simp: decompress_chunk_with_baseline_def split: if_splits)
  have plain: "length out = n"
    if d: "map_option fst (decode_block (env_predictor env) compressed n (coding_predictor env b)) = Some (Inr out)" for out
    using d coder.decode_inner_returns [OF start_good, of compressed n True b] by (auto simp: decode_block_def)
  have bwt: "length out = n" if d: "decompress_bwt env b compressed n = Some (Inr out)" for out
    using d
    by (auto simp: decompress_bwt_def Let_def bindRun_Inr_iff dest: bwt_mtf_decode_parts_length split: if_splits)
  show ?thesis
    using assms n plain bwt
    by (cases m)
      (auto simp: decompress_chunk_with_baseline_def bindRun_Inr_iff bindR_Inr_iff decode_x86_def
        dest: zstd_decompress_length byteplane_decode_length lz77_decode_length lz_decode_length split: if_splits)
qed

end

section \<open>The contract holds for the Order-0 model\<close>

text \<open>The environment with this model, the reference suffix sorter and a zstd that stores.\<close>

definition order0_env :: "order0 router_env" where
  "order0_env =
     \<lparr>env_predictor = order0_predictor, env_new_predictor = order0_new,
      env_set_baseline = (\<lambda>baseline m. snd (order0_load_state baseline m)),
      env_entropy = (\<lambda>_. 0), env_libsais = sorted_suffixes,
      env_zstd_encode_all = (\<lambda>data _. Inr data), env_zstd_decoder = (\<lambda>data. Inr (data, None)),
      env_lz4_decompress = (\<lambda>_. Inl [])\<rparr>"

lemma order0_load_good: "order0_inv m \<Longrightarrow> order0_inv (snd (order0_load_state data m))"
proof (cases "order0_load_state data m")
  case (Pair ok m')
  assume "order0_inv m"
  then show ?thesis using Pair order0_load_inv [of data m m'] order0_load_rejected [of data m m']
    by (cases ok) auto
qed

interpretation order0_router: router_contract order0_env order0_inv order0_cdf
proof unfold_locales
  show "order0_inv (coding_predictor order0_env b)" for b
    by (cases b) (simp_all add: coding_predictor_def order0_env_def order0_new_inv order0_load_good)
qed (simp_all add: order0_env_def o0.reset_good o0.cdf_ok o0.query_ok o0.decode_ok o0.update_good
    o0.update_sync order0_reset_state order0_new_inv sorted_suffixes_ok zstd_ok_def)

end
