(* ===== verification/Dictionary.thy ===== *)
theory Dictionary
  imports Router Header
begin

text \<open>
  Pretrained dictionaries, \<open>src/aether-core/src/dictionary.rs\<close> and \<open>builtin_dicts.rs\<close>. A trait object
  is the record of the coding operations extended by the other methods of the trait; of \<open>predict\<close>
  only its effect on the state remains. BLAKE3 is an argument, reading a training file is the
  argument \<open>read_file\<close>, and the bytes of the embedded dictionaries are an argument too.
  Single quotes around the placeholder of a message are left out of its template.
\<close>

section \<open>Trait objects\<close>

record 's predictor_object = "'s predictor" +
  po_predict :: "'s \<Rightarrow> 's"
  po_predictor_id :: "'s \<Rightarrow> predictor_id"
  po_save_state :: "'s \<Rightarrow> bytes option"
  po_load_state :: "bytes \<Rightarrow> 's \<Rightarrow> bool \<times> 's"
  po_set_coding_baseline :: "bytes \<Rightarrow> 's \<Rightarrow> bool \<times> 's"

definition DICT_MAGIC :: bytes where "DICT_MAGIC = [0x41, 0x45, 0x44, 0x58]"
definition DICT_VERSION :: u8 where "DICT_VERSION = 1"
definition MAX_DICT_STATE_SIZE :: nat where "MAX_DICT_STATE_SIZE = 64 * 1024 * 1024"

record dictionary =
  di_predictor_id :: predictor_id
  di_state :: bytes
  di_hash :: bytes

section \<open>Training\<close>

text \<open>\<open>predict(); update(byte)\<close> for each byte.\<close>

fun feed :: "('s, 'b) predictor_object_scheme \<Rightarrow> bytes \<Rightarrow> 's \<Rightarrow> 's" where
  "feed P [] s = s"
| "feed P (byte # data) s = feed P data (update_byte P byte (po_predict P s))"

fun train_files ::
    "('s, 'b) predictor_object_scheme \<Rightarrow> ('path \<Rightarrow> bytes result) \<Rightarrow> 'path list \<Rightarrow> 's \<Rightarrow> unit result \<times> 's" where
  "train_files P read_file [] s = (Inr (), s)"
| "train_files P read_file (path # paths) s =
     (case read_file path of
        Inl e \<Rightarrow> (Inl e, s)
      | Inr data \<Rightarrow> train_files P read_file paths (feed P data s))"

definition finish_training ::
    "(bytes \<Rightarrow> bytes) \<Rightarrow> ('s, 'b) predictor_object_scheme \<Rightarrow> 's \<Rightarrow> dictionary result" where
  "finish_training blake3 P s =
     (case po_save_state P s of
        None \<Rightarrow> Inl (Compression ''Predictor {} does not support dictionary pretraining'')
      | Some state \<Rightarrow>
          Inr \<lparr>di_predictor_id = po_predictor_id P s, di_state = state, di_hash = blake3 state\<rparr>)"

definition train ::
    "(bytes \<Rightarrow> bytes) \<Rightarrow> ('s, 'b) predictor_object_scheme \<Rightarrow> ('path \<Rightarrow> bytes result) \<Rightarrow> 'path list
      \<Rightarrow> 's \<Rightarrow> dictionary result \<times> 's" where
  "train blake3 P read_file paths s =
     (let (r, s) = train_files P read_file paths s
      in (bindR r (\<lambda>_. finish_training blake3 P s), s))"

text \<open>One chunk of the transformed training: what the BWT route would hand to the predictor.\<close>

definition transformed_stream :: "suffix_sorter \<Rightarrow> chunk_ref \<Rightarrow> bytes" where
  "transformed_stream libsais chunk =
     (if length (ch_data chunk) < 8 \<or> ch_entropy chunk \<ge> BWT_ENTROPY_SKIP then []
      else case bwt_mtf_encode_parts libsais (ch_data chunk) of
             Inl _ \<Rightarrow> []
           | Inr (_, mtf_data) \<Rightarrow>
               (case rle_encode mtf_data of
                  Some stream \<Rightarrow> stream
                | None \<Rightarrow> rle_encode_escaped mtf_data))"

definition file_chunks ::
    "fastcdc_fun \<Rightarrow> (bytes \<Rightarrow> bytes) \<Rightarrow> (bytes \<Rightarrow> real) \<Rightarrow> bytes \<Rightarrow> chunk_ref list option" where
  "file_chunks fastcdc blake3 H data =
     (if length data < MIN_CHUNK_SIZE then chunk_fixed_refs blake3 H data AVG_CHUNK_SIZE
      else Some (chunk_data_refs fastcdc blake3 H data))"

fun train_transformed_files ::
    "fastcdc_fun \<Rightarrow> (bytes \<Rightarrow> bytes) \<Rightarrow> (bytes \<Rightarrow> real) \<Rightarrow> suffix_sorter \<Rightarrow> ('s, 'b) predictor_object_scheme
      \<Rightarrow> ('path \<Rightarrow> bytes result) \<Rightarrow> 'path list \<Rightarrow> 's \<Rightarrow> (unit result \<times> 's) option" where
  "train_transformed_files fastcdc blake3 H libsais P read_file [] s = Some (Inr (), s)"
| "train_transformed_files fastcdc blake3 H libsais P read_file (path # paths) s =
     (case read_file path of
        Inl e \<Rightarrow> Some (Inl e, s)
      | Inr data \<Rightarrow>
          Option.bind (file_chunks fastcdc blake3 H data) (\<lambda>chunks.
            train_transformed_files fastcdc blake3 H libsais P read_file paths
              (foldl (\<lambda>s chunk. feed P (transformed_stream libsais chunk) s) s chunks)))"

definition train_transformed ::
    "fastcdc_fun \<Rightarrow> (bytes \<Rightarrow> bytes) \<Rightarrow> (bytes \<Rightarrow> real) \<Rightarrow> suffix_sorter \<Rightarrow> ('s, 'b) predictor_object_scheme
      \<Rightarrow> ('path \<Rightarrow> bytes result) \<Rightarrow> 'path list \<Rightarrow> 's \<Rightarrow> (dictionary result \<times> 's) option" where
  "train_transformed fastcdc blake3 H libsais P read_file paths s =
     map_option (\<lambda>(r, s). (bindR r (\<lambda>_. finish_training blake3 P s), s))
       (train_transformed_files fastcdc blake3 H libsais P read_file paths s)"

section \<open>The file format\<close>

definition dictionary_write_to :: "dictionary \<Rightarrow> bytes result" where
  "dictionary_write_to d =
     (if length (di_state d) > MAX_DICT_STATE_SIZE then
        Inl (ResourceLimitExceeded ''Dictionary state size {} exceeds {} byte limit'')
      else
        Inr (DICT_MAGIC @ [DICT_VERSION] @ u16_to_le (predictor_id_code (di_predictor_id d))
             @ u32_to_le (of_nat (length (di_state d))) @ di_state d @ di_hash d))"

definition dictionary_read_from :: "(bytes \<Rightarrow> bytes) \<Rightarrow> dictionary reader" where
  "dictionary_read_from blake3 s =
     bindR (read_exact 4 s) (\<lambda>(magic, s).
     if magic \<noteq> DICT_MAGIC then Inl InvalidMagic else
     bindR (read_exact 1 s) (\<lambda>(version, s).
     if version ! 0 \<noteq> DICT_VERSION then
       Inl (Decompression ''Unsupported dictionary version {} (expected {})'') else
     bindR (read_u16 s) (\<lambda>(pid, s).
     bindR (predictor_id_from_u16 pid) (\<lambda>predictor_id.
     bindR (read_u32 s) (\<lambda>(len, s).
       let state_len = unat len
       in if state_len > MAX_DICT_STATE_SIZE then
            Inl (ResourceLimitExceeded ''Dictionary state size {} exceeds {} byte limit'')
          else
     bindR (read_exact state_len s) (\<lambda>(state, s).
     bindR (read_exact 32 s) (\<lambda>(stored_hash, s).
       let computed_hash = blake3 state
       in if computed_hash \<noteq> stored_hash then Inl (ChecksumMismatch 0 ''{:x?}'' ''{:x?}'')
          else Inr (\<lparr>di_predictor_id = predictor_id, di_state = state, di_hash = stored_hash\<rparr>, s))))))))"

definition dictionary_apply ::
    "dictionary \<Rightarrow> ('s, 'b) predictor_object_scheme \<Rightarrow> 's \<Rightarrow> unit result \<times> 's" where
  "dictionary_apply d P s =
     (if po_predictor_id P s \<noteq> di_predictor_id d then
        (Inl (Decompression ''Dictionary was trained for predictor {:?}, but applied to {:?}''), s)
      else
        let (ok, s) = po_load_state P (di_state d) s
        in if \<not> ok then (Inl (Decompression ''Failed to load dictionary state into predictor {}''), s)
           else (Inr (), s))"

section \<open>Built-in dictionaries\<close>

text \<open>\<open>ALL\<close> is the list of embedded files, of which the first is the text dictionary.\<close>

definition for_content_type :: "(bytes \<Rightarrow> bytes) \<Rightarrow> bytes \<Rightarrow> content_type \<Rightarrow> dictionary option" where
  "for_content_type blake3 text_dict ct =
     (if ct = Text then
        (case dictionary_read_from blake3 text_dict of Inl _ \<Rightarrow> None | Inr (d, _) \<Rightarrow> Some d)
      else None)"

fun dictionary_by_hash :: "(bytes \<Rightarrow> bytes) \<Rightarrow> bytes list \<Rightarrow> bytes \<Rightarrow> dictionary option" where
  "dictionary_by_hash blake3 [] hash = None"
| "dictionary_by_hash blake3 (b # all_dicts) hash =
     (case dictionary_read_from blake3 b of
        Inr (d, _) \<Rightarrow> if di_hash d = hash then Some d else dictionary_by_hash blake3 all_dicts hash
      | Inl _ \<Rightarrow> dictionary_by_hash blake3 all_dicts hash)"

section \<open>Reading back\<close>

text \<open>What every dictionary produced by training or accepted from a file satisfies.\<close>

definition dictionary_ok :: "(bytes \<Rightarrow> bytes) \<Rightarrow> dictionary \<Rightarrow> bool" where
  "dictionary_ok blake3 d \<longleftrightarrow> di_hash d = blake3 (di_state d)"

lemma length_DICT_MAGIC [simp, lens]: "length DICT_MAGIC = 4"
  by (simp add: DICT_MAGIC_def)

lemma unat_dict_len: "n \<le> MAX_DICT_STATE_SIZE \<Longrightarrow> unat (of_nat n :: u32) = n"
  by (intro unat_of_nat_small) (simp add: MAX_DICT_STATE_SIZE_def)

lemma dictionary_read_write:
  assumes "blake3_len_ok blake3" "dictionary_ok blake3 d" "dictionary_write_to d = Inr out"
  shows "dictionary_read_from blake3 (out @ s) = Inr (d, s)"
proof -
  have len: "length (di_state d) \<le> MAX_DICT_STATE_SIZE" and out: "out = DICT_MAGIC @ [DICT_VERSION]
      @ u16_to_le (predictor_id_code (di_predictor_id d))
      @ u32_to_le (of_nat (length (di_state d))) @ di_state d @ di_hash d"
    using assms(3) by (auto simp: dictionary_write_to_def split: if_splits)
  have h: "di_hash d = blake3 (di_state d)" "length (di_hash d) = 32"
    using assms(1,2) by (simp_all add: dictionary_ok_def blake3_len_ok_def)
  have "read_exact 1 (DICT_VERSION # t) = Inr ([DICT_VERSION], t)" for t
    using read_exact_append [of "[DICT_VERSION]" 1 t] by simp
  then show ?thesis
    using h len by (cases d) (simp add: out dictionary_read_from_def Let_def unat_dict_len)
qed

lemma dictionary_read_Inr:
  assumes "dictionary_read_from blake3 s = Inr (d, s')"
  shows "dictionary_ok blake3 d \<and> length (di_hash d) = 32
    \<and> (\<exists>out. dictionary_write_to d = Inr out \<and> s = out @ s')"
proof -
  obtain v pid len where r: "length v = 1" "v ! 0 = DICT_VERSION"
      "predictor_id_from_u16 pid = Inr (di_predictor_id d)" "unat len \<le> MAX_DICT_STATE_SIZE"
      "length (di_state d) = unat len" "length (di_hash d) = 32" "blake3 (di_state d) = di_hash d"
      "s = DICT_MAGIC @ v @ u16_to_le pid @ u32_to_le len @ di_state d @ di_hash d @ s'"
    using assms unfolding dictionary_read_from_def
    by (auto simp: Let_def reads_Inr not_less split: if_splits)
  have "v = [DICT_VERSION]" using r(1,2) by (cases v) auto
  moreover have "len = of_nat (length (di_state d))" using r(5) by simp
  ultimately show ?thesis
    using r by (auto simp: dictionary_ok_def dictionary_write_to_def predictor_id_from_u16_Inr)
qed

lemma finish_training_ok: "finish_training blake3 P s = Inr d \<Longrightarrow> dictionary_ok blake3 d"
  by (auto simp: finish_training_def dictionary_ok_def split: option.splits)

lemma train_ok: "train blake3 P read_file paths s = (Inr d, s') \<Longrightarrow> dictionary_ok blake3 d"
  by (auto simp: train_def split: prod.splits dest: finish_training_ok)

lemma train_transformed_ok:
  "train_transformed fastcdc blake3 H libsais P read_file paths s = Some (Inr d, s') \<Longrightarrow> dictionary_ok blake3 d"
  by (auto simp: train_transformed_def split: prod.splits dest: finish_training_ok)

lemma dictionary_by_hash_Some:
  assumes "dictionary_by_hash blake3 all_dicts hash = Some d"
  shows "di_hash d = hash \<and> dictionary_ok blake3 d"
  using assms
  by (induction all_dicts)
    (auto split: sum.splits prod.splits if_splits dest: dictionary_read_Inr)

text \<open>The lookup returns the first of the dictionaries that can be read and has the hash.\<close>

definition has_hash :: "(bytes \<Rightarrow> bytes) \<Rightarrow> bytes \<Rightarrow> bytes \<Rightarrow> bool" where
  "has_hash blake3 hash b \<longleftrightarrow> (\<exists>d s. dictionary_read_from blake3 b = Inr (d, s) \<and> di_hash d = hash)"

lemma dictionary_by_hash_None:
  "dictionary_by_hash blake3 all_dicts hash = None \<longleftrightarrow> (\<forall>b \<in> set all_dicts. \<not> has_hash blake3 hash b)"
  by (induction all_dicts) (auto simp: has_hash_def split: sum.split)

lemma dictionary_by_hash_first:
  "dictionary_by_hash blake3 all_dicts hash = Some d \<longleftrightarrow>
     (\<exists>before b after s. all_dicts = before @ b # after \<and> dictionary_read_from blake3 b = Inr (d, s)
        \<and> di_hash d = hash \<and> (\<forall>c \<in> set before. \<not> has_hash blake3 hash c))"
proof (induction all_dicts)
  case (Cons c all_dicts)
  show ?case
  proof (cases "has_hash blake3 hash c")
    case True
    then obtain d' s where c: "dictionary_read_from blake3 c = Inr (d', s)" "di_hash d' = hash"
      by (auto simp: has_hash_def)
    show ?thesis
    proof
      assume "dictionary_by_hash blake3 (c # all_dicts) hash = Some d"
      then have "dictionary_read_from blake3 c = Inr (d, s)" "di_hash d = hash" using c by simp_all
      then show "\<exists>before b after s. c # all_dicts = before @ b # after \<and> dictionary_read_from blake3 b = Inr (d, s)
          \<and> di_hash d = hash \<and> (\<forall>x \<in> set before. \<not> has_hash blake3 hash x)"
        by (intro exI [of _ "[]"] exI [of _ c] exI [of _ all_dicts] exI [of _ s]) simp
    next
      assume "\<exists>before b after s. c # all_dicts = before @ b # after \<and> dictionary_read_from blake3 b = Inr (d, s)
          \<and> di_hash d = hash \<and> (\<forall>x \<in> set before. \<not> has_hash blake3 hash x)"
      then have "\<exists>s. dictionary_read_from blake3 c = Inr (d, s)"
        using True by (auto simp: Cons_eq_append_conv)
      then show "dictionary_by_hash blake3 (c # all_dicts) hash = Some d" using c by auto
    qed
  next
    case False
    then have "dictionary_by_hash blake3 (c # all_dicts) hash = dictionary_by_hash blake3 all_dicts hash"
      by (auto simp: has_hash_def split: sum.split)
    moreover have "(\<exists>before b after s. c # all_dicts = before @ b # after \<and> dictionary_read_from blake3 b = Inr (d, s)
          \<and> di_hash d = hash \<and> (\<forall>x \<in> set before. \<not> has_hash blake3 hash x))
        \<longleftrightarrow> (\<exists>before b after s. all_dicts = before @ b # after \<and> dictionary_read_from blake3 b = Inr (d, s)
          \<and> di_hash d = hash \<and> (\<forall>x \<in> set before. \<not> has_hash blake3 hash x))" (is "?l \<longleftrightarrow> ?r")
    proof
      assume ?l
      then obtain before b after s where l: "c # all_dicts = before @ b # after" "dictionary_read_from blake3 b = Inr (d, s)"
          "di_hash d = hash" "\<forall>x \<in> set before. \<not> has_hash blake3 hash x"
        by blast
      then have "before \<noteq> []" using False by (auto simp: has_hash_def)
      then obtain before' where "before = c # before'" "all_dicts = before' @ b # after" using l(1) by (cases before) auto
      then show ?r using l by auto
    next
      assume ?r
      then obtain before b after s where r: "all_dicts = before @ b # after" "dictionary_read_from blake3 b = Inr (d, s)"
          "di_hash d = hash" "\<forall>x \<in> set before. \<not> has_hash blake3 hash x"
        by blast
      then have "c # all_dicts = (c # before) @ b # after" "\<forall>x \<in> set (c # before). \<not> has_hash blake3 hash x"
        using False by simp_all
      then show ?l using r(2,3) by blast
    qed
    ultimately show ?thesis using Cons.IH by simp
  qed
qed simp

lemma for_content_type_Some:
  "for_content_type blake3 text_dict ct = Some d \<Longrightarrow> ct = Text \<and> dictionary_ok blake3 d"
  by (auto simp: for_content_type_def split: sum.splits prod.splits if_splits dest: dictionary_read_Inr)

text \<open>Feeding file after file is feeding the concatenation: no reset between training files.\<close>

lemma feed_append: "feed P (a @ b) s = feed P b (feed P a s)"
  by (induction a arbitrary: s) simp_all

lemma train_files_concat:
  assumes "\<And>p. p \<in> set paths \<Longrightarrow> read_file p = Inr (contents p)"
  shows "train_files P read_file paths s = (Inr (), feed P (concat (map contents paths)) s)"
  using assms by (induction paths arbitrary: s) (auto simp: feed_append)

end
