(* ===== verification/Extract.thy ===== *)
theory Extract
  imports Block Header Crypto Dictionary
begin

text \<open>
  What both extraction paths share, \<open>src/aether-core/src/pipeline/decompress.rs\<close>: the decompressor and
  its key and dictionary, the reassembly of files from decoded blocks, and the path check before a
  file is written. The crate is taken with the features \<open>enterprise\<close> and \<open>threading\<close>.
\<close>

section \<open>Environment and decompressor\<close>

record 's archive_env =
  ae_router :: "'s router_env"
  ae_blake3 :: "bytes \<Rightarrow> bytes"
  ae_crc :: "bytes \<Rightarrow> u32"
  ae_crypto :: crypto_env
  ae_builtin_dicts :: "bytes list"
  ae_pool_builds :: "nat \<Rightarrow> bool"

text \<open>The predictor factory is the object with the state it starts in.\<close>

record 'p decompressor =
  dc_object :: "'p predictor_object"
  dc_new_predictor :: 'p
  dc_password :: "bytes option"
  dc_max_threads :: nat
  dc_dictionary :: "dictionary option"
  dc_no_clobber :: bool

definition decompressor_new :: "nat \<Rightarrow> 'p predictor_object \<Rightarrow> 'p \<Rightarrow> 'p decompressor" where
  "decompressor_new default_max_threads factory p0 =
     \<lparr>dc_object = factory, dc_new_predictor = p0, dc_password = None,
      dc_max_threads = default_max_threads, dc_dictionary = None, dc_no_clobber = False\<rparr>"

definition decompressor_with_dictionary :: "dictionary \<Rightarrow> 'p decompressor \<Rightarrow> 'p decompressor" where
  "decompressor_with_dictionary dict dc = dc\<lparr>dc_dictionary := Some dict\<rparr>"

definition decompressor_with_password :: "bytes \<Rightarrow> 'p decompressor \<Rightarrow> 'p decompressor" where
  "decompressor_with_password password dc = dc\<lparr>dc_password := Some password\<rparr>"

definition decompressor_with_max_threads :: "nat \<Rightarrow> 'p decompressor \<Rightarrow> 'p decompressor" where
  "decompressor_with_max_threads n dc = dc\<lparr>dc_max_threads := n\<rparr>"

definition decompressor_with_no_clobber :: "bool \<Rightarrow> 'p decompressor \<Rightarrow> 'p decompressor" where
  "decompressor_with_no_clobber no_clobber dc = dc\<lparr>dc_no_clobber := no_clobber\<rparr>"

record decrypt_key =
  dk_cipher_id :: u8
  dk_key :: bytes
  dk_master_nonce :: bytes

record archive_metadata =
  am_header :: archive_header
  am_footer :: archive_footer
  am_file_entries :: "file_entry list"
  am_solid_groups :: "solid_group_entry list"
  am_block_index :: "block_index_entry list"
  am_encryption_header :: "encryption_header option"
  am_dictionary_hash :: "bytes option"

record streaming_metadata =
  sm_header :: archive_header
  sm_file_entries :: "file_entry list"
  sm_solid_groups :: "solid_group_entry list"
  sm_encryption_header :: "encryption_header option"
  sm_dictionary_hash :: "bytes option"

record verification_result =
  vr_total_blocks :: nat
  vr_verified_blocks :: nat
  vr_corrupted_blocks :: "u32 list"

definition verification_is_ok :: "verification_result \<Rightarrow> bool" where
  "verification_is_ok r \<longleftrightarrow> vr_corrupted_blocks r = []"

definition hex_digit :: "nat \<Rightarrow> char" where "hex_digit n = ''0123456789abcdef'' ! n"

definition hex_str :: "bytes \<Rightarrow> string" where
  "hex_str bs = concat (map (\<lambda>b. [hex_digit (unat b div 16), hex_digit (unat b mod 16)]) bs)"

section \<open>Dictionary and key\<close>

definition decode_baseline_for ::
    "'s archive_env \<Rightarrow> 'p decompressor \<Rightarrow> bytes option \<Rightarrow> bytes option result" where
  "decode_baseline_for env dc archive_dict_hash =
     (let dict = (case dc_dictionary dc of
                    Some dict \<Rightarrow> Some dict
                  | None \<Rightarrow>
                      Option.bind archive_dict_hash (dictionary_by_hash (ae_blake3 env) (ae_builtin_dicts env)))
      in case dict of
           None \<Rightarrow> Inr None
         | Some dict \<Rightarrow>
             let (r, predictor) = dictionary_apply dict (dc_object dc) (dc_new_predictor dc)
             in case r of
                  Inl _ \<Rightarrow> Inl (Decompression ''Failed to apply dictionary to predictor: {e}'')
                | Inr _ \<Rightarrow>
                    if fst (po_set_coding_baseline (dc_object dc) (di_state dict) predictor)
                    then Inr (Some (di_state dict)) else Inr None)"

definition validate_dictionary ::
    "'s archive_env \<Rightarrow> 'p decompressor \<Rightarrow> bytes option \<Rightarrow> unit result" where
  "validate_dictionary env dc archive_dict_hash =
     (case (archive_dict_hash, dc_dictionary dc) of
        (Some hash, Some dict) \<Rightarrow>
          if hash \<noteq> di_hash dict then
            Inl (Decompression ''Dictionary hash mismatch: archive was compressed with a different dictionary'')
          else Inr ()
      | (Some hash, None) \<Rightarrow>
          if dictionary_by_hash (ae_blake3 env) (ae_builtin_dicts env) hash \<noteq> None then Inr ()
          else Inl (Decompression ''Archive was compressed with a dictionary but no dictionary was provided. Use with_dictionary() to supply the matching .aed file.'')
      | (None, Some _) \<Rightarrow> Inr ()
      | (None, None) \<Rightarrow> Inr ())"

definition derive_decrypt_key ::
    "crypto_env \<Rightarrow> u16 \<Rightarrow> encryption_header option \<Rightarrow> bytes option \<Rightarrow> decrypt_key option result" where
  "derive_decrypt_key ce flags encryption_header password =
     (if flags AND FLAG_ENCRYPTED = 0 then Inr None
      else
        case encryption_header of
          None \<Rightarrow> Inl (Decompression ''Archive has FLAG_ENCRYPTED but no encryption header'')
        | Some h \<Rightarrow>
            (case password of
               None \<Rightarrow> Inl (Decryption ''Archive is encrypted but no password was provided. Use with_password().'')
             | Some pw \<Rightarrow>
                 if eh_m_cost h > MAX_ARGON2_M_COST then
                   Inl (ResourceLimitExceeded ''Archive Argon2id m_cost {} exceeds safety limit of {}'')
                 else if eh_t_cost h > MAX_ARGON2_T_COST then
                   Inl (ResourceLimitExceeded ''Archive Argon2id t_cost {} exceeds safety limit of {}'')
                 else if eh_p_cost h > MAX_ARGON2_P_COST then
                   Inl (ResourceLimitExceeded ''Archive Argon2id p_cost {} exceeds safety limit of {}'')
                 else if eh_m_cost h = 0 \<or> eh_t_cost h = 0 \<or> eh_p_cost h = 0 then
                   Inl (Decompression ''Archive Argon2id parameters must be non-zero'')
                 else
                   bindR (derive_key ce pw (eh_salt h) (eh_m_cost h) (eh_t_cost h) (eh_p_cost h)) (\<lambda>derived.
                   bindR (verify_password ce h derived) (\<lambda>_.
                     Inr (Some \<lparr>dk_cipher_id = cipher_id_code (eh_cipher_id h), dk_key = derived,
                            dk_master_nonce = eh_master_nonce h\<rparr>)))))"

definition maybe_decrypt_payload ::
    "crypto_env \<Rightarrow> bytes \<Rightarrow> decrypt_key option \<Rightarrow> u32 \<Rightarrow> bytes result" where
  "maybe_decrypt_payload ce payload decrypt_key block_id =
     (case decrypt_key of
        None \<Rightarrow> Inr payload
      | Some dk \<Rightarrow>
          bindR (cipher_id_from_u8 (dk_cipher_id dk)) (\<lambda>cid.
            decrypt_block ce cid (dk_key dk) (dk_master_nonce dk) block_id payload))"

section \<open>Reassembling files\<close>

type_synonym blocks = "bytes option list"

definition entry_start :: "file_entry \<Rightarrow> nat" where "entry_start e = unat (fe_chunk_start_idx e)"
definition entry_stop :: "file_entry \<Rightarrow> nat" where
  "entry_stop e = unat (fe_chunk_start_idx e) + unat (fe_chunk_count e)"

text \<open>\<open>checked_add\<close> on a 64-bit \<open>usize\<close>.\<close>

definition file_block_range :: "file_entry \<Rightarrow> nat \<Rightarrow> (nat \<times> nat) option result" where
  "file_block_range e block_count =
     (let start = unat (fe_chunk_start_idx e);
          n = unat (fe_chunk_count e)
      in if n = 0 then Inr None
         else if start + n \<ge> 2 ^ 64 then
           Inl (ResourceLimitExceeded ''Chunk index overflow: start={start}, count={count}'')
         else if start + n > block_count then Inl (BlockNotFound (of_nat (max start block_count)))
         else Inr (Some (start, start + n)))"

definition truncate_to_file_size :: "file_entry \<Rightarrow> bytes \<Rightarrow> bytes" where
  "truncate_to_file_size e combined = take (unat (fe_original_size e)) combined"

fun gather_blocks :: "nat list \<Rightarrow> bytes \<Rightarrow> blocks \<Rightarrow> bytes result" where
  "gather_blocks [] combined decoded = Inr combined"
| "gather_blocks (i # is) combined decoded =
     (case decoded ! i of
        Some data \<Rightarrow> gather_blocks is (combined @ data) decoded
      | None \<Rightarrow> Inl (BlockNotFound (of_nat i)))"

definition reassemble_file_from_blocks :: "file_entry \<Rightarrow> blocks \<Rightarrow> bytes result" where
  "reassemble_file_from_blocks e decoded =
     bindR (file_block_range e (length decoded)) (\<lambda>r.
       case r of
         None \<Rightarrow> Inr []
       | Some (start, stop) \<Rightarrow>
           bindR (gather_blocks [start..<stop] [] decoded) (\<lambda>combined.
             Inr (truncate_to_file_size e combined)))"

text \<open>
  The two versions that take blocks out of the array share their loop: \<open>grab\<close> gets block \<open>i\<close> out of
  the state.
\<close>

fun grab_blocks :: "(nat \<Rightarrow> 'st \<Rightarrow> bytes result \<times> 'st) \<Rightarrow> nat list \<Rightarrow> bytes \<Rightarrow> 'st \<Rightarrow> bytes result \<times> 'st" where
  "grab_blocks grab [] combined st = (Inr combined, st)"
| "grab_blocks grab (i # is) combined st =
     (case grab i st of
        (Inl e, st) \<Rightarrow> (Inl e, st)
      | (Inr block, st) \<Rightarrow> grab_blocks grab is (combined @ block) st)"

definition reassemble_with ::
    "(nat \<Rightarrow> 'st \<Rightarrow> bytes result \<times> 'st) \<Rightarrow> file_entry \<Rightarrow> nat \<Rightarrow> 'st \<Rightarrow> bytes result \<times> 'st" where
  "reassemble_with grab e block_count st =
     (case file_block_range e block_count of
        Inl err \<Rightarrow> (Inl err, st)
      | Inr None \<Rightarrow> (Inr [], st)
      | Inr (Some (start, stop)) \<Rightarrow>
          (case grab start st of
             (Inl err, st) \<Rightarrow> (Inl err, st)
           | (Inr combined, st) \<Rightarrow>
               (case grab_blocks grab [start + 1..<stop] combined st of
                  (Inl err, st) \<Rightarrow> (Inl err, st)
                | (Inr combined, st) \<Rightarrow> (Inr (truncate_to_file_size e combined), st))))"

definition take_block :: "nat \<Rightarrow> blocks \<Rightarrow> bytes result \<times> blocks" where
  "take_block i decoded =
     (case decoded ! i of
        Some data \<Rightarrow> (Inr data, decoded[i := None])
      | None \<Rightarrow> (Inl (BlockNotFound (of_nat i)), decoded))"

definition reassemble_file_consuming :: "file_entry \<Rightarrow> blocks \<Rightarrow> bytes result \<times> blocks" where
  "reassemble_file_consuming e decoded = reassemble_with take_block e (length decoded) decoded"

text \<open>Reference counts, with the saturating arithmetic of the code.\<close>

definition sat_add1 :: "u32 \<Rightarrow> u32" where "sat_add1 c = (if c = - 1 then - 1 else c + 1)"
definition sat_sub1 :: "u32 \<Rightarrow> u32" where "sat_sub1 c = (if c = 0 then 0 else c - 1)"

definition count_entry :: "file_entry \<Rightarrow> u32 list \<Rightarrow> u32 list" where
  "count_entry e counts =
     (let start = unat (fe_chunk_start_idx e);
          stop = min (start + unat (fe_chunk_count e)) (length counts)
      in if start \<le> stop then
           take start counts @ map sat_add1 (drop start (take stop counts)) @ drop stop counts
         else counts)"

definition block_ref_counts :: "file_entry list \<Rightarrow> nat \<Rightarrow> u32 list" where
  "block_ref_counts entries block_count = foldl (\<lambda>counts e. count_entry e counts) (replicate block_count 0) entries"

definition take_or_clone :: "nat \<Rightarrow> blocks \<times> u32 list \<Rightarrow> bytes result \<times> (blocks \<times> u32 list)" where
  "take_or_clone i st =
     (let (decoded, ref_counts) = st;
          rem = (if i < length ref_counts then ref_counts ! i else 1);
          ref_counts = (if i < length ref_counts then ref_counts[i := sat_sub1 (ref_counts ! i)] else ref_counts)
      in if rem \<le> 1 then
           let (r, decoded) = take_block i decoded in (r, decoded, ref_counts)
         else
           (case decoded ! i of
              Some data \<Rightarrow> (Inr data, decoded, ref_counts)
            | None \<Rightarrow> (Inl (BlockNotFound (of_nat i)), decoded, ref_counts)))"

definition reassemble_file_shared ::
    "file_entry \<Rightarrow> blocks \<times> u32 list \<Rightarrow> bytes result \<times> (blocks \<times> u32 list)" where
  "reassemble_file_shared e st = reassemble_with take_or_clone e (length (fst st)) st"

section \<open>Path check\<close>

definition last_component :: "bytes \<Rightarrow> bytes" where
  "last_component path = rev (takeWhile (\<lambda>b. \<not> is_sep b) (rev path))"

definition ascii_uppercase :: "bytes \<Rightarrow> bytes" where
  "ascii_uppercase = map (\<lambda>b. if 0x61 \<le> b \<and> b \<le> 0x7A then b - 0x20 else b)"

definition is_reserved_name :: "bytes \<Rightarrow> bool" where
  "is_reserved_name filename =
     (let upper = ascii_uppercase (takeWhile (\<lambda>b. b \<noteq> 0x2E) filename)
      in upper \<in> {ascii ''CON'', ascii ''PRN'', ascii ''AUX'', ascii ''NUL''}
         \<or> length upper = 4 \<and> (starts_with upper (ascii ''COM'') \<or> starts_with upper (ascii ''LPT''))
            \<and> 0x30 \<le> upper ! 3 \<and> upper ! 3 \<le> 0x39 \<and> upper ! 3 \<noteq> 0x30)"

definition validate_extraction_path :: "bytes \<Rightarrow> unit result" where
  "validate_extraction_path path =
     (if path_has_nul path then Inl (PathTraversal path)
      else if path_is_absolute path then Inl (PathTraversal path)
      else if path_has_drive path then Inl (PathTraversal path)
      else if path_has_dotdot path then Inl (PathTraversal path)
      else if length path > MAX_PATH_LENGTH then
        Inl (ResourceLimitExceeded ''File path length {} exceeds maximum {}'')
      else
        let filename = last_component path
        in if is_reserved_name filename then
             Inl (PathTraversal (ascii ''Windows reserved device name in path: {path}''))
           else if filename \<noteq> [] \<and> last filename \<in> {0x2E, 0x20} then
             Inl (PathTraversal (ascii ''Trailing dot or space in filename (unsafe on Windows): {path}''))
           else Inr ())"

section \<open>Writing the files\<close>

text \<open>
  The loop over the file table at the end of both extraction paths. \<open>write_file\<close> is
  \<open>write_validated_file\<close> on the state of the file system, \<open>reassemble\<close> gets the next file out of the
  block store.
\<close>

type_synonym 'fs write_fun = "file_entry \<Rightarrow> bytes \<Rightarrow> 'fs \<Rightarrow> unit result \<times> 'fs"

definition checked_file :: "(bytes \<Rightarrow> bytes) \<Rightarrow> file_entry \<Rightarrow> bytes \<Rightarrow> unit result" where
  "checked_file blake3 e file_data =
     (let computed_hash = blake3 file_data
      in if computed_hash \<noteq> fe_blake3_hash e then
           Inl (ChecksumMismatch (fe_chunk_start_idx e) (hex_str (fe_blake3_hash e)) (hex_str computed_hash))
         else Inr ())"

fun extract_files ::
    "(bytes \<Rightarrow> bytes) \<Rightarrow> (file_entry \<Rightarrow> 'st \<Rightarrow> bytes result \<times> 'st) \<Rightarrow> 'fs write_fun
      \<Rightarrow> file_entry list \<Rightarrow> 'st \<Rightarrow> 'fs \<Rightarrow> unit result \<times> 'fs" where
  "extract_files blake3 reassemble write_file [] st fs = (Inr (), fs)"
| "extract_files blake3 reassemble write_file (e # es) st fs =
     (case reassemble e st of
        (Inl err, st) \<Rightarrow> (Inl err, fs)
      | (Inr file_data, st) \<Rightarrow>
          (case checked_file blake3 e file_data of
             Inl err \<Rightarrow> (Inl err, fs)
           | Inr _ \<Rightarrow>
               (case write_file e file_data fs of
                  (Inl err, fs) \<Rightarrow> (Inl err, fs)
                | (Inr _, fs) \<Rightarrow> extract_files blake3 reassemble write_file es st fs)))"

text \<open>Handing files to the file system one after the other, until one is refused.\<close>

fun write_each :: "'fs write_fun \<Rightarrow> (file_entry \<times> bytes) list \<Rightarrow> 'fs \<Rightarrow> unit result \<times> 'fs" where
  "write_each write_file [] fs = (Inr (), fs)"
| "write_each write_file ((e, d) # files) fs =
     (case write_file e d fs of
        (Inl err, fs) \<Rightarrow> (Inl err, fs)
      | (Inr _, fs) \<Rightarrow> write_each write_file files fs)"

lemma extract_files_all:
  assumes "list_all2 (\<lambda>e d. reassemble_file_from_blocks e decoded = Inr d \<and> blake3 d = fe_blake3_hash e) es ds"
  shows "extract_files blake3 (\<lambda>e st. (reassemble_file_from_blocks e decoded, st)) write_file es () fs
    = write_each write_file (zip es ds) fs"
  using assms
proof (induction es ds arbitrary: fs rule: list_all2_induct)
  case (Cons e es d ds)
  then show ?case by (simp add: checked_file_def split: prod.split sum.split)
qed simp

section \<open>Taking blocks out is reading them\<close>

text \<open>
  A block store serves reads of an array of decoded blocks: \<open>pending is st\<close> says that the blocks
  \<open>is\<close> can still be asked for, in this order.
\<close>

definition read_block :: "blocks \<Rightarrow> nat \<Rightarrow> bytes result" where
  "read_block decoded i =
     (case decoded ! i of Some data \<Rightarrow> Inr data | None \<Rightarrow> Inl (BlockNotFound (of_nat i)))"

definition entry_reads :: "nat \<Rightarrow> file_entry \<Rightarrow> nat list" where
  "entry_reads n e = [entry_start e..<min (entry_stop e) n]"

lemma gather_blocks_Cons:
  "gather_blocks (i # is) c decoded = bindR (read_block decoded i) (\<lambda>d. gather_blocks is (c @ d) decoded)"
  by (simp add: read_block_def split: option.split)

locale block_store =
  fixes grab :: "nat \<Rightarrow> 'st \<Rightarrow> bytes result \<times> 'st"
    and size_of :: "'st \<Rightarrow> nat"
    and pending :: "nat list \<Rightarrow> 'st \<Rightarrow> bool"
    and decoded :: blocks
  assumes size_of: "pending is st \<Longrightarrow> size_of st = length decoded"
    and serves: "pending (i # is) st \<Longrightarrow> fst (grab i st) = read_block decoded i"
    and next_pending: "pending (i # is) st \<Longrightarrow> read_block decoded i = Inr d \<Longrightarrow> pending is (snd (grab i st))"
begin

lemma grab_blocks_gather:
  "pending (is @ js) st \<Longrightarrow>
   fst (grab_blocks grab is c st) = gather_blocks is c decoded
   \<and> (\<forall>d. gather_blocks is c decoded = Inr d \<longrightarrow> pending js (snd (grab_blocks grab is c st)))"
proof (induction "is" arbitrary: c st)
  case (Cons i "is")
  obtain r st' where g: "grab i st = (r, st')" by fastforce
  have r: "read_block decoded i = r" using serves [of i "is @ js" st] Cons.prems g by simp
  show ?case
  proof (cases r)
    case (Inl e)
    then show ?thesis using g r by (simp del: gather_blocks.simps(2) add: gather_blocks_Cons)
  next
    case (Inr d)
    have "pending (is @ js) st'" using next_pending [of i "is @ js" st d] Cons.prems g r Inr by simp
    from Cons.IH [OF this] show ?thesis using g r Inr by (simp del: gather_blocks.simps(2) add: gather_blocks_Cons)
  qed
qed simp

lemma reassemble_reads:
  assumes "pending (entry_reads (length decoded) e @ js) st"
  shows "fst (reassemble_with grab e (size_of st) st) = reassemble_file_from_blocks e decoded
    \<and> (\<forall>d. reassemble_file_from_blocks e decoded = Inr d \<longrightarrow>
          pending js (snd (reassemble_with grab e (size_of st) st)))"
proof -
  have n: "size_of st = length decoded" by (rule size_of [OF assms])
  show ?thesis
  proof (cases "file_block_range e (length decoded)")
    case (Inl err)
    then show ?thesis by (simp add: reassemble_with_def reassemble_file_from_blocks_def n)
  next
    case (Inr r)
    show ?thesis
    proof (cases r)
      case None
      then have "entry_reads (length decoded) e = []"
        using Inr by (auto simp: file_block_range_def entry_reads_def entry_start_def entry_stop_def Let_def split: if_splits)
      then show ?thesis using Inr None assms by (simp add: reassemble_with_def reassemble_file_from_blocks_def n)
    next
      case (Some p)
      obtain start stop where p: "p = (start, stop)" by fastforce
      have range: "start < stop" "entry_reads (length decoded) e = [start..<stop]"
        using Inr Some p
        by (auto simp: file_block_range_def entry_reads_def entry_start_def entry_stop_def Let_def split: if_splits)
      have "[start..<stop] = start # [start + 1..<stop]" using range(1) by (simp add: upt_rec)
      then have "reassemble_with grab e (size_of st) st =
          (case grab_blocks grab [start..<stop] [] st of
             (Inl err, st) \<Rightarrow> (Inl err, st)
           | (Inr combined, st) \<Rightarrow> (Inr (truncate_to_file_size e combined), st))"
        using Inr Some p by (simp add: reassemble_with_def n split: prod.split sum.split)
      then show ?thesis
        using grab_blocks_gather [of "[start..<stop]" js st "[]"] assms range(2) Inr Some p
        by (cases "gather_blocks [start..<stop] [] decoded")
          (auto simp: reassemble_file_from_blocks_def split: prod.split)
    qed
  qed
qed

lemma extract_files_reads:
  assumes "pending (concat (map (entry_reads (length decoded)) es)) st"
  shows "extract_files blake3 (\<lambda>e st. reassemble_with grab e (size_of st) st) write_file es st fs
    = extract_files blake3 (\<lambda>e st. (reassemble_file_from_blocks e decoded, st)) write_file es () fs"
  using assms
proof (induction es arbitrary: st fs)
  case (Cons e es)
  obtain r st' where g: "reassemble_with grab e (size_of st) st = (r, st')" by fastforce
  have r: "r = reassemble_file_from_blocks e decoded"
      "r = Inr d \<Longrightarrow> pending (concat (map (entry_reads (length decoded)) es)) st'" for d
    using reassemble_reads [of e "concat (map (entry_reads (length decoded)) es)" st] Cons.prems g
    by (simp, metis concat.simps(2) fst_conv list.simps(9) snd_conv)
  show ?case
  proof (cases r)
    case (Inr d)
    then show ?thesis
      using Cons.IH [OF r(2)] g r(1) by (auto split: sum.split prod.split)
  qed (use g r(1) in simp)
qed simp

end

subsection \<open>Taking every block once\<close>

definition pending_once :: "blocks \<Rightarrow> nat list \<Rightarrow> blocks \<Rightarrow> bool" where
  "pending_once decoded is st \<longleftrightarrow>
     length st = length decoded \<and> distinct is \<and> (\<forall>i \<in> set is. i < length decoded \<and> st ! i = decoded ! i)"

interpretation consuming: block_store take_block length "pending_once decoded" decoded for decoded
  by unfold_locales
    (auto simp: pending_once_def take_block_def read_block_def nth_list_update split: option.splits)

lemma reassemble_file_consuming_eq:
  "fst (reassemble_file_consuming e decoded) = reassemble_file_from_blocks e decoded"
proof -
  have "pending_once decoded (entry_reads (length decoded) e @ []) decoded"
    by (simp add: pending_once_def entry_reads_def)
  from consuming.reassemble_reads [OF this] show ?thesis
    by (simp add: reassemble_file_consuming_def)
qed

subsection \<open>Counting references\<close>

definition pending_counted :: "blocks \<Rightarrow> nat list \<Rightarrow> blocks \<times> u32 list \<Rightarrow> bool" where
  "pending_counted decoded is st \<longleftrightarrow>
     (let (cur, counts) = st
      in length cur = length decoded \<and> length counts = length decoded
         \<and> (\<forall>i \<in> set is. i < length decoded \<and> cur ! i = decoded ! i)
         \<and> (\<forall>i < length decoded. unat (counts ! i) = count_list is i))"

lemma unat_sat_sub1: "unat (sat_sub1 c) = unat c - 1"
  by (simp add: sat_sub1_def unat_minus_one)

lemma pending_counted_next:
  assumes "pending_counted decoded (i # is) st" "read_block decoded i = Inr d"
  shows "pending_counted decoded is (snd (take_or_clone i st))"
proof -
  obtain cur counts where st: "st = (cur, counts)" by fastforce
  have a: "length cur = length decoded" "length counts = length decoded" "i < length decoded"
      "cur ! i = decoded ! i" "\<forall>j \<in> set is. j < length decoded \<and> cur ! j = decoded ! j"
      "\<forall>j < length decoded. unat (counts ! j) = count_list (i # is) j"
    using assms(1) by (auto simp: pending_counted_def st)
  have d: "cur ! i = Some d" using assms(2) a(4) by (auto simp: read_block_def split: option.splits)
  let ?counts = "counts[i := sat_sub1 (counts ! i)]"
  have c: "\<forall>j < length decoded. unat (?counts ! j) = count_list is j"
    using a(2,3,6) by (auto simp: nth_list_update unat_sat_sub1)
  show ?thesis
  proof (cases "counts ! i \<le> 1")
    case True
    then have "unat (counts ! i) \<le> 1" by (simp add: word_le_nat_alt)
    then have "count_list is i = 0" using a(3,6) by auto
    then have "i \<notin> set is" by (simp add: count_list_0_iff)
    then have "\<forall>j \<in> set is. j < length decoded \<and> cur[i := None] ! j = decoded ! j"
      using a(5) by (metis nth_list_update_neq)
    then show ?thesis
      using True a(1-3) c d by (simp add: pending_counted_def st take_or_clone_def take_block_def Let_def)
  next
    case False
    then show ?thesis
      using a(1-3,5) c d by (simp add: pending_counted_def st take_or_clone_def Let_def)
  qed
qed

interpretation shared: block_store take_or_clone "\<lambda>st. length (fst st)" "pending_counted decoded" decoded for decoded
proof
  show "length (fst st) = length decoded" if "pending_counted decoded is st" for "is" st
    using that by (auto simp: pending_counted_def)
  show "fst (take_or_clone i st) = read_block decoded i" if "pending_counted decoded (i # is) st" for i "is" st
    using that by (auto simp: pending_counted_def take_or_clone_def take_block_def read_block_def Let_def
        split: option.split)
  show "pending_counted decoded is (snd (take_or_clone i st))"
    if "pending_counted decoded (i # is) st" "read_block decoded i = Inr d" for i "is" st d
    by (rule pending_counted_next [OF that])
qed

lemma unat_sat_add1: "unat c < 2 ^ 32 - 1 \<Longrightarrow> unat (sat_add1 c) = Suc (unat c)"
proof -
  assume c: "unat c < 2 ^ 32 - 1"
  moreover have "unat (- 1 :: u32) = 2 ^ 32 - 1" by (simp add: unsigned_minus_1_eq_mask mask_eq_exp_minus_1)
  ultimately have "c \<noteq> - 1" by (metis less_irrefl)
  moreover have "unat (c + 1) = unat c + unat (1 :: u32)"
    using c by (intro unat_add_lem [THEN iffD1]) simp
  ultimately show ?thesis by (simp add: sat_add1_def)
qed

lemma count_entry_nth:
  assumes "i < length counts"
  shows "length (count_entry e counts) = length counts
    \<and> count_entry e counts ! i
        = (if i \<in> set (entry_reads (length counts) e) then sat_add1 (counts ! i) else counts ! i)"
  using assms
  by (auto simp: count_entry_def entry_reads_def entry_start_def entry_stop_def Let_def nth_append min_def)

lemma block_ref_counts_nth:
  assumes "i < n" "length es < 2 ^ 32"
  shows "length (block_ref_counts es n) = n
    \<and> unat (block_ref_counts es n ! i) = count_list (concat (map (entry_reads n) es)) i
    \<and> unat (block_ref_counts es n ! i) \<le> length es"
  using assms(2)
proof (induction es rule: rev_induct)
  case (snoc e es)
  let ?c = "block_ref_counts es n"
  have IH: "length ?c = n" "unat (?c ! i) = count_list (concat (map (entry_reads n) es)) i"
      "unat (?c ! i) \<le> length es"
    using snoc by auto
  have step: "block_ref_counts (es @ [e]) n = count_entry e ?c" by (simp add: block_ref_counts_def)
  have one: "count_list (entry_reads n e) i = (if i \<in> set (entry_reads n e) then 1 else 0)"
    unfolding entry_reads_def by (metis count_list_0_iff count_mset distinct_count_atmost_1 distinct_upt)
  have "unat (?c ! i) < 2 ^ 32 - 1" using IH(3) snoc.prems by simp
  then show ?case
    using count_entry_nth [of i ?c e] IH assms(1) one unat_sat_add1 [of "?c ! i"]
    by (auto simp: step)
qed (use assms(1) in \<open>simp add: block_ref_counts_def\<close>)

text \<open>The counted store, filled from the file table, serves every read of the extraction.\<close>

lemma block_ref_counts_pending:
  assumes "length es < 2 ^ 32"
  shows "pending_counted decoded (concat (map (entry_reads (length decoded)) es))
    (decoded, block_ref_counts es (length decoded))"
proof -
  have "length (block_ref_counts es (length decoded)) = length decoded"
  proof (cases "length decoded")
    case 0
    have "foldl (\<lambda>counts e. count_entry e counts) [] es = []"
      by (induction es) (simp_all add: count_entry_def Let_def)
    then show ?thesis using 0 by (simp add: block_ref_counts_def)
  next
    case (Suc n)
    then show ?thesis using block_ref_counts_nth [of 0 "length decoded" es] assms by simp
  qed
  then show ?thesis
    using block_ref_counts_nth [OF _ assms, of _ "length decoded"]
    by (auto simp: pending_counted_def entry_reads_def)
qed

lemma extract_shared_eq:
  assumes "length es < 2 ^ 32"
  shows "extract_files blake3 reassemble_file_shared write_file es
      (decoded, block_ref_counts es (length decoded)) fs
    = extract_files blake3 (\<lambda>e st. (reassemble_file_from_blocks e decoded, st)) write_file es () fs"
proof -
  have "reassemble_file_shared = (\<lambda>e st. reassemble_with take_or_clone e (length (fst st)) st)"
    by (simp add: fun_eq_iff reassemble_file_shared_def)
  then show ?thesis
    using shared.extract_files_reads [OF block_ref_counts_pending [OF assms]] by simp
qed

section \<open>What the path check lets through\<close>

lemma last_component_suffix: "\<exists>pre. path = pre @ last_component path \<and> (\<forall>b \<in> set (last_component path). \<not> is_sep b)"
proof -
  have "rev path = takeWhile (\<lambda>b. \<not> is_sep b) (rev path) @ dropWhile (\<lambda>b. \<not> is_sep b) (rev path)" by simp
  then have "path = rev (dropWhile (\<lambda>b. \<not> is_sep b) (rev path)) @ last_component path"
    unfolding last_component_def by (metis rev_append rev_rev_ident)
  then show ?thesis unfolding last_component_def by (metis set_takeWhileD set_rev)
qed

lemma validate_extraction_path_Inr:
  "validate_extraction_path path = Inr u \<longleftrightarrow>
     safe_path path \<and> length path \<le> MAX_PATH_LENGTH \<and> \<not> is_reserved_name (last_component path)
     \<and> (last_component path = [] \<or> last (last_component path) \<notin> {0x2E, 0x20})"
  by (auto simp: validate_extraction_path_def safe_path_def Let_def not_less)

end
