(* ===== verification/Seekable.thy ===== *)
theory Seekable
  imports Extract
begin

text \<open>
  The seekable reader, \<open>src/aether-core/src/pipeline/decompress_seekable.rs\<close>. The archive is the byte
  sequence behind the \<open>Read + Seek\<close> stream: seeking to an offset drops the bytes before it, and
  reading past the end is an error. Totals of sizes are natural numbers; the limits keep them far
  below \<open>2 ^ 64\<close>.
\<close>

section \<open>Metadata\<close>

fun read_list :: "nat \<Rightarrow> 'a reader \<Rightarrow> 'a list reader" where
  "read_list 0 rd s = Inr ([], s)"
| "read_list (Suc n) rd s =
     bindR (rd s) (\<lambda>(x, s). bindR (read_list n rd s) (\<lambda>(xs, s). Inr (x # xs, s)))"

text \<open>The file table: each entry is read relative to the path before it.\<close>

fun read_file_entries :: "u16 \<Rightarrow> nat \<Rightarrow> bytes \<Rightarrow> file_entry list reader" where
  "read_file_entries flags 0 previous_path s = Inr ([], s)"
| "read_file_entries flags (Suc n) previous_path s =
     bindR (if flags AND FLAG_PATH_PREFIXES \<noteq> 0 then file_entry_read_prefixed previous_path s
            else file_entry_read s) (\<lambda>(entry, s).
     bindR (read_file_entries flags n (fe_path entry) s) (\<lambda>(entries, s). Inr (entry # entries, s)))"

definition read_optional :: "bool \<Rightarrow> 'a reader \<Rightarrow> 'a option reader" where
  "read_optional present rd s =
     (if present then bindR (rd s) (\<lambda>(x, s). Inr (Some x, s)) else Inr (None, s))"

fun check_unique_ids :: "u32 list \<Rightarrow> block_index_entry list \<Rightarrow> unit result" where
  "check_unique_ids seen_ids [] = Inr ()"
| "check_unique_ids seen_ids (entry # entries) =
     (if bi_block_id entry \<in> set seen_ids then
        Inl (Decompression ''Duplicate block_id {} in block index - this could cause nonce reuse in encrypted archives'')
      else check_unique_ids (bi_block_id entry # seen_ids) entries)"

text \<open>Header against footer, and both against the size of the archive.\<close>

definition cross_check :: "archive_header \<Rightarrow> archive_footer \<Rightarrow> nat \<Rightarrow> unit result" where
  "cross_check header footer archive_size =
     (if ah_solid_group_count header > MAX_SOLID_GROUP_COUNT then
        Inl (ResourceLimitExceeded ''Archive claims {} solid groups, exceeding limit of {}'')
      else if ah_file_count header \<noteq> af_file_count footer then
        Inl (Decompression ''Header/footer file_count mismatch: header={}, footer={}'')
      else if ah_block_count header \<noteq> af_block_count footer then
        Inl (Decompression ''Header/footer block_count mismatch: header={}, footer={}'')
      else if ah_file_table_offset header \<noteq> af_file_table_offset footer then
        Inl (Decompression ''Header/footer file_table_offset mismatch: header={}, footer={}'')
      else if ah_block_index_offset header \<noteq> af_block_index_offset footer then
        Inl (Decompression ''Header/footer block_index_offset mismatch: header={}, footer={}'')
      else if unat (af_file_table_offset footer) \<ge> archive_size then
        Inl (Decompression ''File table offset {} exceeds archive size {}'')
      else if unat (af_block_index_offset footer) \<ge> archive_size then
        Inl (Decompression ''Block index offset {} exceeds archive size {}'')
      else
        let block_index_end = unat (af_block_index_offset footer)
              + unat (af_block_count footer) * BLOCK_INDEX_ENTRY_SIZE
        in if block_index_end \<ge> 2 ^ 64 then Inl (Decompression ''Block index size overflow'')
           else if block_index_end > archive_size then
             Inl (Decompression ''Block index extends past archive end: offset {} + {} blocks'')
           else Inr ())"

definition read_metadata :: "'s archive_env \<Rightarrow> bytes \<Rightarrow> archive_metadata result" where
  "read_metadata env archive =
     (if length archive < ARCHIVE_FOOTER_SIZE then Inl (Io InvalidInput) else
      bindR (archive_footer_read (ae_crc env) (drop (length archive - ARCHIVE_FOOTER_SIZE) archive))
        (\<lambda>(footer, _).
      if af_file_count footer > MAX_FILE_COUNT then
        Inl (ResourceLimitExceeded ''Archive claims {} files, exceeding limit of {}'')
      else if af_block_count footer > MAX_BLOCK_COUNT then
        Inl (ResourceLimitExceeded ''Archive claims {} blocks, exceeding limit of {}'')
      else
      bindR (archive_header_read (ae_blake3 env) archive) (\<lambda>(header, s).
      bindR (read_optional (ah_flags header AND FLAG_ENCRYPTED \<noteq> 0) encryption_header_read s)
        (\<lambda>(encryption_header, s).
      bindR (read_optional (ah_flags header AND FLAG_HAS_DICTIONARY \<noteq> 0) (read_exact 32) s)
        (\<lambda>(dictionary_hash, _).
      bindR (cross_check header footer (length archive)) (\<lambda>_.
      bindR (read_file_entries (ah_flags header) (unat (af_file_count footer)) []
          (drop (unat (af_file_table_offset footer)) archive)) (\<lambda>(file_entries, s).
      bindR (read_list (unat (ah_solid_group_count header)) solid_group_entry_read s)
        (\<lambda>(solid_groups, _).
      bindR (read_list (unat (af_block_count footer)) block_index_entry_read
          (drop (unat (af_block_index_offset footer)) archive)) (\<lambda>(block_index, _).
      bindR (check_unique_ids [] block_index) (\<lambda>_.
        Inr \<lparr>am_header = header, am_footer = footer, am_file_entries = file_entries,
             am_solid_groups = solid_groups, am_block_index = block_index,
             am_encryption_header = encryption_header, am_dictionary_hash = dictionary_hash\<rparr>))))))))))"

section \<open>One block\<close>

record raw_block =
  rb_global_idx :: nat
  rb_payload :: bytes
  rb_compression_method :: compression_method
  rb_uncompressed_size :: nat
  rb_content_blake3 :: bytes
  rb_block_id :: u32
  rb_archive_offset :: u64
  rb_solid_group_id :: u32

definition validate_block_header :: "block_header \<Rightarrow> block_index_entry \<Rightarrow> unit result" where
  "validate_block_header h entry =
     (if bh_block_id h \<noteq> bi_block_id entry then
        Inl (Decompression ''Block ID mismatch: index says {} but header says {} (offset {:#x})'')
      else if bh_uncompressed_size h \<noteq> bi_uncompressed_size entry then
        Inl (Decompression ''Block {}: uncompressed_size mismatch between header ({}) and index ({})'')
      else if bh_solid_group_id h \<noteq> bi_solid_group_id entry then
        Inl (Decompression ''Block {}: solid_group_id mismatch between header ({}) and index ({})'')
      else if unat (bh_compressed_size h) > MAX_DECOMPRESSED_BLOCK_SIZE then
        Inl (ResourceLimitExceeded ''Block {} (offset {:#x}, group {}): compressed size {} exceeds safety limit of {} bytes'')
      else if unat (bh_uncompressed_size h) > MAX_DECOMPRESSED_BLOCK_SIZE then
        Inl (ResourceLimitExceeded ''Block {} (offset {:#x}, group {}): uncompressed size {} exceeds safety limit of {} bytes'')
      else Inr ())"

text \<open>\<open>map_err\<close> on the result of the router, and the two checks after it.\<close>

definition wrap_error :: "string \<Rightarrow> 'a run \<Rightarrow> 'a run" where
  "wrap_error msg r = map_option (\<lambda>x. case x of Inl _ \<Rightarrow> Inl (Decompression msg) | Inr y \<Rightarrow> Inr y) r"

definition check_decoded ::
    "(bytes \<Rightarrow> bytes) \<Rightarrow> string \<Rightarrow> u32 \<Rightarrow> nat \<Rightarrow> bytes \<Rightarrow> bytes \<Rightarrow> bytes result" where
  "check_decoded blake3 size_msg block_id uncompressed_size content_blake3 decompressed =
     (if length decompressed \<noteq> uncompressed_size then Inl (Decompression size_msg)
      else
        let computed_hash = blake3 decompressed
        in if computed_hash \<noteq> content_blake3 then
             Inl (ChecksumMismatch block_id (hex_str content_blake3) (hex_str computed_hash))
           else Inr decompressed)"

definition decompress_raw_block :: "'s archive_env \<Rightarrow> bytes option \<Rightarrow> raw_block \<Rightarrow> bytes run" where
  "decompress_raw_block env dict_baseline b =
     bindRun (wrap_error ''Block {} (offset {:#x}, group {}, method {:?}): {}''
         (decompress_chunk_with_baseline (ae_router env) (rb_payload b) (rb_compression_method b)
            (rb_uncompressed_size b) dict_baseline))
       (\<lambda>decompressed.
         Some (check_decoded (ae_blake3 env)
           ''Block {} (group {}): actual decompressed size {} differs from claimed {}''
           (rb_block_id b) (rb_uncompressed_size b) (rb_content_blake3 b) decompressed))"

definition read_raw_block ::
    "'s archive_env \<Rightarrow> bytes \<Rightarrow> decrypt_key option \<Rightarrow> nat \<Rightarrow> block_index_entry \<Rightarrow> raw_block result" where
  "read_raw_block env archive decrypt_key global_idx entry =
     bindR (block_header_read_at (ae_crc env) (bi_archive_offset entry)
         (drop (unat (bi_archive_offset entry)) archive)) (\<lambda>(h, s).
     bindR (validate_block_header h entry) (\<lambda>_.
     bindR (read_exact (unat (bh_compressed_size h)) s) (\<lambda>(payload, s).
     bindR (block_trailer_read_with_id (ae_crc env) (bh_block_id h) s) (\<lambda>(trailer, _).
     bindR (maybe_decrypt_payload (ae_crypto env) payload decrypt_key (bh_block_id h)) (\<lambda>payload.
       Inr \<lparr>rb_global_idx = global_idx, rb_payload = payload,
            rb_compression_method = bh_compression_method h,
            rb_uncompressed_size = unat (bh_uncompressed_size h),
            rb_content_blake3 = bt_content_blake3 trailer, rb_block_id = bh_block_id h,
            rb_archive_offset = bi_archive_offset entry, rb_solid_group_id = bh_solid_group_id h\<rparr>)))))"

definition decompress_block ::
    "'s archive_env \<Rightarrow> bytes \<Rightarrow> bytes option \<Rightarrow> decrypt_key option \<Rightarrow> block_index_entry \<Rightarrow> bytes run" where
  "decompress_block env archive dict_baseline decrypt_key entry =
     bindRun (Some (block_header_read_at (ae_crc env) (bi_archive_offset entry)
         (drop (unat (bi_archive_offset entry)) archive))) (\<lambda>(h, s).
     bindRun (Some (validate_block_header h entry)) (\<lambda>_.
     bindRun (Some (read_exact (unat (bh_compressed_size h)) s)) (\<lambda>(payload, s).
     bindRun (Some (block_trailer_read_with_id (ae_crc env) (bh_block_id h) s)) (\<lambda>(trailer, _).
     bindRun (Some (maybe_decrypt_payload (ae_crypto env) payload decrypt_key (bh_block_id h))) (\<lambda>payload.
     bindRun (wrap_error ''Block {} (offset {:#x}, group {}, method {:?}): {}''
         (decompress_chunk_with_baseline (ae_router env) payload (bh_compression_method h)
            (unat (bh_uncompressed_size h)) dict_baseline)) (\<lambda>decompressed.
       Some (check_decoded (ae_blake3 env)
         ''Block {} (offset {:#x}): actual decompressed size {} differs from claimed {}''
         (bh_block_id h) (unat (bh_uncompressed_size h)) (bt_content_blake3 trailer) decompressed)))))))"

section \<open>All blocks, one after the other\<close>

definition limit :: "nat \<Rightarrow> nat \<Rightarrow> string \<Rightarrow> unit result" where
  "limit bound n msg = (if n > bound then Inl (ResourceLimitExceeded msg) else Inr ())"

fun sequential_blocks ::
    "(block_index_entry \<Rightarrow> bytes run) \<Rightarrow> block_index_entry list \<Rightarrow> nat \<Rightarrow> nat \<Rightarrow> nat \<Rightarrow> blocks \<Rightarrow> blocks run" where
  "sequential_blocks decode [] i total_compressed_read total_decompressed decoded = Some (Inr decoded)"
| "sequential_blocks decode (entry # entries) i total_compressed_read total_decompressed decoded =
     (let total_compressed_read = total_compressed_read + unat (bi_compressed_size entry)
      in bindRun (Some (limit MAX_TOTAL_COMPRESSED_READ_SIZE total_compressed_read
             ''Total compressed read size {} exceeds safety limit of {} bytes'')) (\<lambda>_.
         bindRun (decode entry) (\<lambda>data.
           let total_decompressed = total_decompressed + length data
           in bindRun (Some (limit MAX_TOTAL_DECOMPRESSED_SIZE total_decompressed
                  ''Total decompressed size {} exceeds safety limit of {} bytes'')) (\<lambda>_.
              sequential_blocks decode entries (i + 1) total_compressed_read total_decompressed
                (decoded[i := Some data])))))"

definition decompress_blocks_sequential ::
    "'s archive_env \<Rightarrow> 'p decompressor \<Rightarrow> bytes \<Rightarrow> archive_metadata \<Rightarrow> decrypt_key option \<Rightarrow> blocks run" where
  "decompress_blocks_sequential env dc archive metadata decrypt_key =
     bindRun (Some (decode_baseline_for env dc (am_dictionary_hash metadata))) (\<lambda>baseline.
       sequential_blocks (decompress_block env archive baseline decrypt_key) (am_block_index metadata)
         0 0 0 (replicate (length (am_block_index metadata)) None))"

section \<open>All blocks, in parallel\<close>

fun read_raw_blocks ::
    "'s archive_env \<Rightarrow> bytes \<Rightarrow> decrypt_key option \<Rightarrow> block_index_entry list \<Rightarrow> nat \<Rightarrow> nat \<Rightarrow> raw_block list result" where
  "read_raw_blocks env archive decrypt_key [] i total_compressed_read = Inr []"
| "read_raw_blocks env archive decrypt_key (entry # entries) i total_compressed_read =
     bindR (read_raw_block env archive decrypt_key i entry) (\<lambda>block.
       let total_compressed_read = total_compressed_read + length (rb_payload block)
       in bindR (limit MAX_TOTAL_COMPRESSED_READ_SIZE total_compressed_read
              ''Total compressed read size {} exceeds safety limit of {} bytes'') (\<lambda>_.
          bindR (read_raw_blocks env archive decrypt_key entries (i + 1) total_compressed_read)
            (\<lambda>raw_blocks. Inr (block # raw_blocks))))"

fun assemble_blocks :: "(nat \<times> bytes result) list \<Rightarrow> nat \<Rightarrow> blocks \<Rightarrow> blocks result" where
  "assemble_blocks [] total_decompressed decoded = Inr decoded"
| "assemble_blocks ((global_idx, r) # rs) total_decompressed decoded =
     bindR r (\<lambda>data.
       let total_decompressed = total_decompressed + length data
       in bindR (limit MAX_TOTAL_DECOMPRESSED_SIZE total_decompressed
              ''Total decompressed size {} exceeds safety limit of {} bytes'') (\<lambda>_.
          assemble_blocks rs total_decompressed (decoded[global_idx := Some data])))"

text \<open>
  The parallel phase. \<open>par_iter().map(..).collect()\<close> yields the results in the order of the blocks,
  whichever worker decodes which; decoding a block reads and changes nothing the workers share.
\<close>

definition decompress_blocks_parallel ::
    "'s archive_env \<Rightarrow> 'p decompressor \<Rightarrow> bytes \<Rightarrow> archive_metadata \<Rightarrow> decrypt_key option \<Rightarrow> blocks run" where
  "decompress_blocks_parallel env dc archive metadata decrypt_key =
     bindRun (Some (read_raw_blocks env archive decrypt_key (am_block_index metadata) 0 0)) (\<lambda>raw_blocks.
     bindRun (Some (limit MAX_TOTAL_DECOMPRESSED_SIZE (sum_list (map rb_uncompressed_size raw_blocks))
         ''Total expected decompressed size {} exceeds safety limit of {} bytes'')) (\<lambda>_.
     bindRun (Some (decode_baseline_for env dc (am_dictionary_hash metadata))) (\<lambda>baseline.
       if dc_max_threads dc \<noteq> 0 \<and> \<not> ae_pool_builds env (dc_max_threads dc) then
         Some (Inl (Decompression ''Failed to create decompression thread pool with {} threads: {e}''))
       else
         case those (map (decompress_raw_block env baseline) raw_blocks) of
           None \<Rightarrow> None
         | Some results \<Rightarrow>
             Some (assemble_blocks (zip (map rb_global_idx raw_blocks) results) 0
               (replicate (length (am_block_index metadata)) None)))))"

section \<open>Extraction and verification\<close>

text \<open>\<open>extract_all\<close>, with the file system as the state of \<open>write_file\<close>.\<close>

definition decompress_all_blocks ::
    "'s archive_env \<Rightarrow> 'p decompressor \<Rightarrow> bytes \<Rightarrow> archive_metadata \<Rightarrow> decrypt_key option \<Rightarrow> blocks run" where
  "decompress_all_blocks env dc archive metadata decrypt_key =
     (if dc_max_threads dc \<noteq> 1 \<and> length (am_block_index metadata) > 1
      then decompress_blocks_parallel env dc archive metadata decrypt_key
      else decompress_blocks_sequential env dc archive metadata decrypt_key)"

definition write_all_files ::
    "'s archive_env \<Rightarrow> 'fs write_fun \<Rightarrow> file_entry list \<Rightarrow> blocks \<Rightarrow> 'fs \<Rightarrow> unit result \<times> 'fs" where
  "write_all_files env write_file file_entries decoded fs =
     (let ref_counts = block_ref_counts file_entries (length decoded)
      in extract_files (ae_blake3 env) reassemble_file_shared write_file file_entries (decoded, ref_counts) fs)"

definition extract_all ::
    "'s archive_env \<Rightarrow> 'p decompressor \<Rightarrow> 'fs write_fun \<Rightarrow> bytes \<Rightarrow> 'fs \<Rightarrow> (unit result \<times> 'fs) option" where
  "extract_all env dc write_file archive fs =
     (let prepared =
            bindRun (Some (read_metadata env archive)) (\<lambda>metadata.
            bindRun (Some (validate_dictionary env dc (am_dictionary_hash metadata))) (\<lambda>_.
            bindRun (Some (derive_decrypt_key (ae_crypto env) (ah_flags (am_header metadata))
                (am_encryption_header metadata) (dc_password dc))) (\<lambda>decrypt_key.
            bindRun (decompress_all_blocks env dc archive metadata decrypt_key) (\<lambda>decoded.
              Some (Inr (metadata, decoded))))))
      in case prepared of
           None \<Rightarrow> None
         | Some (Inl e) \<Rightarrow> Some (Inl e, fs)
         | Some (Inr (metadata, decoded)) \<Rightarrow>
             Some (write_all_files env write_file (am_file_entries metadata) decoded fs))"

text \<open>The loop of \<open>extract_file\<close> over the blocks of one file.\<close>

fun file_blocks ::
    "(block_index_entry \<Rightarrow> bytes run) \<Rightarrow> block_index_entry list \<Rightarrow> nat \<Rightarrow> nat \<Rightarrow> blocks \<Rightarrow> blocks run" where
  "file_blocks decode [] i total_decompressed decoded = Some (Inr decoded)"
| "file_blocks decode (entry # entries) i total_decompressed decoded =
     bindRun (decode entry) (\<lambda>data.
       let total_decompressed = total_decompressed + length data
       in bindRun (Some (limit MAX_TOTAL_DECOMPRESSED_SIZE total_decompressed
              ''Total decompressed size {} exceeds safety limit of {} bytes'')) (\<lambda>_.
          file_blocks decode entries (i + 1) total_decompressed (decoded[i := Some data])))"

definition extract_file :: "'s archive_env \<Rightarrow> 'p decompressor \<Rightarrow> bytes \<Rightarrow> bytes \<Rightarrow> bytes run" where
  "extract_file env dc archive file_path =
     bindRun (Some (read_metadata env archive)) (\<lambda>metadata.
     bindRun (Some (validate_dictionary env dc (am_dictionary_hash metadata))) (\<lambda>_.
     bindRun (Some (derive_decrypt_key (ae_crypto env) (ah_flags (am_header metadata))
         (am_encryption_header metadata) (dc_password dc))) (\<lambda>decrypt_key.
       case find (\<lambda>e. fe_path e = file_path) (am_file_entries metadata) of
         None \<Rightarrow> Some (Inl (FileNotFound file_path))
       | Some e \<Rightarrow>
           let start = unat (fe_chunk_start_idx e);
               stop = start + unat (fe_chunk_count e);
               index = am_block_index metadata
           in if stop \<ge> 2 ^ 64 then
                Some (Inl (ResourceLimitExceeded ''Chunk index overflow: start={}, count={}''))
              else
                bindRun (Some (decode_baseline_for env dc (am_dictionary_hash metadata))) (\<lambda>baseline.
                  let range_len = min (stop - start) (length index)
                  in bindRun (file_blocks (decompress_block env archive baseline decrypt_key)
                         (drop start (take (min stop (length index)) index)) 0 0 (replicate range_len None))
                       (\<lambda>decoded.
                     bindRun (Some (fst (reassemble_file_consuming (e\<lparr>fe_chunk_start_idx := 0\<rparr>) decoded)))
                       (\<lambda>file_data.
                     bindRun (Some (checked_file (ae_blake3 env) e file_data)) (\<lambda>_.
                       Some (Inr file_data))))))))"

definition list_files :: "'s archive_env \<Rightarrow> bytes \<Rightarrow> file_entry list result" where
  "list_files env archive = bindR (read_metadata env archive) (\<lambda>metadata. Inr (am_file_entries metadata))"

text \<open>
  Verification records failures and goes on. The lenient reader keeps the error of a block as a
  string, which becomes a decompression error.
\<close>

definition read_raw_blocks_lenient ::
    "'s archive_env \<Rightarrow> bytes \<Rightarrow> decrypt_key option \<Rightarrow> block_index_entry list \<Rightarrow> (unit + raw_block) list" where
  "read_raw_blocks_lenient env archive decrypt_key index =
     map (\<lambda>(i, entry). case read_raw_block env archive decrypt_key i entry of Inl _ \<Rightarrow> Inl () | Inr b \<Rightarrow> Inr b)
       (enumerate 0 index)"

definition verify_decode ::
    "'s archive_env \<Rightarrow> 'p decompressor \<Rightarrow> bytes \<Rightarrow> block_index_entry list \<Rightarrow> bytes option \<Rightarrow> decrypt_key option
      \<Rightarrow> bytes result list run" where
  "verify_decode env dc archive index baseline decrypt_key =
     (if dc_max_threads dc \<noteq> 1 \<and> length index > 1 then
        if dc_max_threads dc \<noteq> 0 \<and> \<not> ae_pool_builds env (dc_max_threads dc) then
          Some (Inl (Decompression ''Failed to create verification thread pool with {} threads: {e}''))
        else
          map_option Inr (those (map (\<lambda>block. case block of
              Inr block \<Rightarrow> decompress_raw_block env baseline block
            | Inl _ \<Rightarrow> Some (Inl (Decompression ''{e}'')))
            (read_raw_blocks_lenient env archive decrypt_key index)))
      else map_option Inr (those (map (decompress_block env archive baseline decrypt_key) index)))"

fun tally_blocks :: "(block_index_entry \<times> bytes result) list \<Rightarrow> verification_result \<Rightarrow> verification_result" where
  "tally_blocks [] r = r"
| "tally_blocks ((entry, outcome) # rest) r =
     (case outcome of
        Inr _ \<Rightarrow> tally_blocks rest (r\<lparr>vr_verified_blocks := vr_verified_blocks r + 1\<rparr>)
      | Inl _ \<Rightarrow> tally_blocks rest (r\<lparr>vr_corrupted_blocks := vr_corrupted_blocks r @ [bi_block_id entry]\<rparr>))"

definition outcome_block :: "bytes result \<Rightarrow> bytes option" where
  "outcome_block r = (case r of Inr data \<Rightarrow> Some data | Inl _ \<Rightarrow> None)"

fun tally_files ::
    "(bytes \<Rightarrow> bytes) \<Rightarrow> blocks \<Rightarrow> file_entry list \<Rightarrow> verification_result \<Rightarrow> verification_result" where
  "tally_files blake3 decoded [] r = r"
| "tally_files blake3 decoded (e # es) r =
     tally_files blake3 decoded es
       (case reassemble_file_from_blocks e decoded of
          Inr file_data \<Rightarrow>
            if blake3 file_data \<noteq> fe_blake3_hash e then
              r\<lparr>vr_corrupted_blocks := vr_corrupted_blocks r @ [fe_chunk_start_idx e]\<rparr>
            else r
        | Inl _ \<Rightarrow> r\<lparr>vr_corrupted_blocks := vr_corrupted_blocks r @ [fe_chunk_start_idx e]\<rparr>)"

definition verify_metadata ::
    "'s archive_env \<Rightarrow> 'p decompressor \<Rightarrow> bytes \<Rightarrow> archive_metadata \<Rightarrow> decrypt_key option \<Rightarrow> verification_result run" where
  "verify_metadata env dc archive metadata decrypt_key =
     bindRun (Some (decode_baseline_for env dc (am_dictionary_hash metadata))) (\<lambda>baseline.
     bindRun (verify_decode env dc archive (am_block_index metadata) baseline decrypt_key) (\<lambda>outcomes.
       let r = tally_blocks (zip (am_block_index metadata) outcomes)
                 \<lparr>vr_total_blocks = length (am_block_index metadata), vr_verified_blocks = 0,
                  vr_corrupted_blocks = []\<rparr>
       in Some (Inr (if vr_corrupted_blocks r = []
                     then tally_files (ae_blake3 env) (map outcome_block outcomes) (am_file_entries metadata) r
                     else r))))"

definition verify :: "'s archive_env \<Rightarrow> 'p decompressor \<Rightarrow> bytes \<Rightarrow> verification_result run" where
  "verify env dc archive =
     bindRun (Some (read_metadata env archive)) (\<lambda>metadata.
     bindRun (Some (derive_decrypt_key (ae_crypto env) (ah_flags (am_header metadata))
         (am_encryption_header metadata) (dc_password dc))) (\<lambda>decrypt_key.
       verify_metadata env dc archive metadata decrypt_key))"

section \<open>Accepted metadata\<close>

lemma read_list_length: "read_list n rd s = Inr (xs, s') \<Longrightarrow> length xs = n"
  by (induction n arbitrary: s xs) (auto simp: bindR_Inr_iff)

lemma read_file_entries_Inr:
  assumes "read_file_entries flags n previous s = Inr (es, s')"
  shows "length es = n \<and> (\<forall>e \<in> set es. file_entry_ok e \<and> sanitize_permissions e = e)"
  using assms
proof (induction n arbitrary: previous s es)
  case (Suc n)
  obtain e t es' where r: "(if flags AND FLAG_PATH_PREFIXES \<noteq> 0 then file_entry_read_prefixed previous s
        else file_entry_read s) = Inr (e, t)" "read_file_entries flags n (fe_path e) t = Inr (es', s')" "es = e # es'"
    using Suc.prems by (auto simp: bindR_Inr_iff)
  have "file_entry_ok e \<and> sanitize_permissions e = e"
    using r(1) file_entry_read_Inr file_entry_read_prefixed_Inr by (auto split: if_splits)
  then show ?case using Suc.IH [OF r(2)] r(3) by simp
qed simp

lemma check_unique_ids_Inr:
  "check_unique_ids seen entries = Inr u \<Longrightarrow>
     distinct (map bi_block_id entries) \<and> set seen \<inter> set (map bi_block_id entries) = {}"
proof (induction entries arbitrary: seen)
  case (Cons e entries)
  have e: "bi_block_id e \<notin> set seen" "check_unique_ids (bi_block_id e # seen) entries = Inr u"
    using Cons.prems by (simp_all split: if_splits)
  show ?case using Cons.IH [OF e(2)] e(1) by auto
qed simp

text \<open>What the reader has checked of accepted metadata.\<close>

definition metadata_ok :: "nat \<Rightarrow> archive_metadata \<Rightarrow> bool" where
  "metadata_ok archive_size md \<longleftrightarrow>
     archive_header_within_limits (am_header md)
     \<and> length (am_file_entries md) = unat (ah_file_count (am_header md))
     \<and> length (am_solid_groups md) = unat (ah_solid_group_count (am_header md))
     \<and> length (am_block_index md) = unat (ah_block_count (am_header md))
     \<and> (\<forall>e \<in> set (am_file_entries md). file_entry_ok e \<and> sanitize_permissions e = e)
     \<and> distinct (map bi_block_id (am_block_index md))
     \<and> unat (ah_block_index_offset (am_header md)) + BLOCK_INDEX_ENTRY_SIZE * length (am_block_index md) \<le> archive_size
     \<and> unat (ah_file_table_offset (am_header md)) < archive_size
     \<and> (am_encryption_header md \<noteq> None \<longleftrightarrow> ah_flags (am_header md) AND FLAG_ENCRYPTED \<noteq> 0)
     \<and> (am_dictionary_hash md \<noteq> None \<longleftrightarrow> ah_flags (am_header md) AND FLAG_HAS_DICTIONARY \<noteq> 0)"

lemma read_optional_Inr:
  "read_optional present rd s = Inr (x, s') \<Longrightarrow> (x \<noteq> None) = present"
  by (auto simp: read_optional_def bindR_Inr_iff split: if_splits)

lemma cross_check_Inr:
  assumes "cross_check h f n = Inr u"
  shows "ah_file_count h = af_file_count f \<and> ah_block_count h = af_block_count f
    \<and> ah_solid_group_count h \<le> MAX_SOLID_GROUP_COUNT
    \<and> ah_file_table_offset h = af_file_table_offset f \<and> ah_block_index_offset h = af_block_index_offset f
    \<and> unat (af_file_table_offset f) < n
    \<and> unat (af_block_index_offset f) + unat (af_block_count f) * BLOCK_INDEX_ENTRY_SIZE \<le> n"
  using assms by (auto simp: cross_check_def Let_def not_less not_le split: if_splits)

lemma read_metadata_ok:
  assumes "read_metadata env archive = Inr md"
  shows "metadata_ok (length archive) md"
proof -
  obtain f h s eh s1 dh s2 u es s3 gs s4 ix s5 v t0 where r:
      "archive_header_read (ae_blake3 env) archive = Inr (h, s)"
      "read_optional (ah_flags h AND FLAG_ENCRYPTED \<noteq> 0) encryption_header_read s = Inr (eh, s1)"
      "read_optional (ah_flags h AND FLAG_HAS_DICTIONARY \<noteq> 0) (read_exact 32) s1 = Inr (dh, s2)"
      "cross_check h f (length archive) = Inr u"
      "read_file_entries (ah_flags h) (unat (af_file_count f)) [] t0 = Inr (es, s3)"
      "read_list (unat (ah_solid_group_count h)) solid_group_entry_read s3 = Inr (gs, s4)"
      "read_list (unat (af_block_count f)) block_index_entry_read (drop (unat (af_block_index_offset f)) archive) = Inr (ix, s5)"
      "check_unique_ids [] ix = Inr v"
      "md = \<lparr>am_header = h, am_footer = f, am_file_entries = es, am_solid_groups = gs, am_block_index = ix,
             am_encryption_header = eh, am_dictionary_hash = dh\<rparr>"
    using assms by (auto simp: read_metadata_def bindR_Inr_iff split: if_splits)
  show ?thesis
    using archive_header_read_Inr [OF r(1)] read_optional_Inr [OF r(2)] read_optional_Inr [OF r(3)]
      cross_check_Inr [OF r(4)] read_file_entries_Inr [OF r(5)] read_list_length [OF r(6)] read_list_length [OF r(7)]
      check_unique_ids_Inr [OF r(8)]
    by (simp add: metadata_ok_def r(9) mult.commute [of BLOCK_INDEX_ENTRY_SIZE])
qed

section \<open>The two readers agree\<close>

lemma limit_Inr [simp]: "limit b n msg = Inr u \<longleftrightarrow> n \<le> b"
  by (auto simp: limit_def)

lemma limit_ok: "n \<le> b \<Longrightarrow> limit b n msg = Inr ()"
  by simp

definition index_compressed :: "block_index_entry list \<Rightarrow> nat" where
  "index_compressed es = sum_list (map (\<lambda>e. unat (bi_compressed_size e)) es)"

text \<open>Sequential decoding, given what each block decodes to: only the read limit can stop it.\<close>

lemma sequential_blocks_decoded:
  assumes "list_all2 (\<lambda>e d. decode e = Some (Inr d)) es ds" "length decoded = i + length es"
    and "tc \<le> MAX_TOTAL_COMPRESSED_READ_SIZE" "td + sum_list (map length ds) \<le> MAX_TOTAL_DECOMPRESSED_SIZE"
  shows "sequential_blocks decode es i tc td decoded =
    (if tc + index_compressed es \<le> MAX_TOTAL_COMPRESSED_READ_SIZE then Some (Inr (take i decoded @ map Some ds))
     else Some (Inl (ResourceLimitExceeded ''Total compressed read size {} exceeds safety limit of {} bytes'')))"
  using assms
proof (induction es ds arbitrary: i tc td decoded rule: list_all2_induct)
  case (Cons e es d ds)
  show ?case
  proof (cases "tc + unat (bi_compressed_size e) \<le> MAX_TOTAL_COMPRESSED_READ_SIZE")
    case False
    then show ?thesis by (simp add: limit_def index_compressed_def)
  next
    case True
    let ?decoded = "decoded[i := Some d]"
    have "take (Suc i) ?decoded = take i decoded @ [Some d]"
      using Cons.prems(1) by (simp add: take_Suc_conv_app_nth)
    then show ?thesis
      using Cons.IH [of ?decoded "i + 1" "tc + unat (bi_compressed_size e)" "td + length d"] Cons.prems True Cons.hyps(1)
      by (simp add: limit_ok index_compressed_def add.assoc)
  qed
qed (simp add: index_compressed_def)

lemma sequential_blocks_Inr:
  "sequential_blocks decode es i tc td decoded = Some (Inr out) \<Longrightarrow>
   \<exists>ds. list_all2 (\<lambda>e d. decode e = Some (Inr d)) es ds
     \<and> (es \<noteq> [] \<longrightarrow> tc + index_compressed es \<le> MAX_TOTAL_COMPRESSED_READ_SIZE
          \<and> td + sum_list (map length ds) \<le> MAX_TOTAL_DECOMPRESSED_SIZE)"
proof (induction es arbitrary: i tc td decoded)
  case (Cons e es)
  obtain d where d: "decode e = Some (Inr d)" "tc + unat (bi_compressed_size e) \<le> MAX_TOTAL_COMPRESSED_READ_SIZE"
      "td + length d \<le> MAX_TOTAL_DECOMPRESSED_SIZE"
      "sequential_blocks decode es (i + 1) (tc + unat (bi_compressed_size e)) (td + length d) (decoded[i := Some d])
        = Some (Inr out)"
    using Cons.prems by (auto simp: Let_def bindRun_Inr_iff)
  from Cons.IH [OF d(4)] obtain ds where "list_all2 (\<lambda>e d. decode e = Some (Inr d)) es ds"
      "es \<noteq> [] \<longrightarrow> tc + unat (bi_compressed_size e) + index_compressed es \<le> MAX_TOTAL_COMPRESSED_READ_SIZE
          \<and> td + length d + sum_list (map length ds) \<le> MAX_TOTAL_DECOMPRESSED_SIZE" by blast
  then show ?case
    using d(1-3) by (intro exI [of _ "d # ds"]) (cases es; auto simp: index_compressed_def)
qed (auto simp: index_compressed_def)

text \<open>The reads of the parallel path.\<close>

lemma read_raw_blocks_Inr:
  assumes "tc \<le> MAX_TOTAL_COMPRESSED_READ_SIZE"
  shows "read_raw_blocks env archive dk es i tc = Inr raws \<longleftrightarrow>
    length raws = length es \<and> (\<forall>k < length es. read_raw_block env archive dk (i + k) (es ! k) = Inr (raws ! k))
    \<and> tc + sum_list (map (\<lambda>b. length (rb_payload b)) raws) \<le> MAX_TOTAL_COMPRESSED_READ_SIZE"
  using assms
proof (induction es arbitrary: i tc raws)
  case (Cons e es)
  have "(\<forall>k < length (e # es). read_raw_block env archive dk (i + k) ((e # es) ! k) = Inr (raws ! k)) \<longleftrightarrow>
      read_raw_block env archive dk i e = Inr (raws ! 0)
      \<and> (\<forall>k < length es. read_raw_block env archive dk (i + 1 + k) (es ! k) = Inr (raws ! Suc k))"
    by (auto simp: less_Suc_eq_0_disj)
  then show ?case
    using Cons.IH [of "tc + length (rb_payload (raws ! 0))" "i + 1" "tl raws"]
    by (cases raws) (auto simp: Let_def bindR_Inr_iff add.assoc)
qed auto

lemma read_raw_block_idx: "read_raw_block env archive dk i e = Inr r \<Longrightarrow> rb_global_idx r = i"
  by (auto simp: read_raw_block_def)

lemma assemble_blocks_Inr:
  assumes "td \<le> MAX_TOTAL_DECOMPRESSED_SIZE" "length decoded = i + length rs"
  shows "assemble_blocks (zip [i..<i + length rs] rs) td decoded = Inr out \<longleftrightarrow>
    (\<exists>ds. rs = map Inr ds \<and> td + sum_list (map length ds) \<le> MAX_TOTAL_DECOMPRESSED_SIZE
       \<and> out = take i decoded @ map Some ds)"
  using assms
proof (induction rs arbitrary: i td decoded)
  case (Cons r rs)
  have z: "zip [i..<i + length (r # rs)] (r # rs) = (i, r) # zip [i + 1..<i + 1 + length rs] rs"
    by (simp add: upt_rec)
  show ?case
  proof (cases r)
    case (Inl e)
    then show ?thesis unfolding z by (auto simp: Cons_eq_map_conv)
  next
    case (Inr d)
    have t: "take (Suc i) (decoded[i := Some d]) = take i decoded @ [Some d]"
      using Cons.prems(2) by (simp add: take_Suc_conv_app_nth)
    have "assemble_blocks (zip [i..<i + length (r # rs)] (r # rs)) td decoded = Inr out \<longleftrightarrow>
        td + length d \<le> MAX_TOTAL_DECOMPRESSED_SIZE
        \<and> assemble_blocks (zip [i + 1..<i + 1 + length rs] rs) (td + length d) (decoded[i := Some d]) = Inr out"
      unfolding z by (auto simp: Inr Let_def bindR_Inr_iff)
    also have "\<dots> \<longleftrightarrow> td + length d \<le> MAX_TOTAL_DECOMPRESSED_SIZE
        \<and> (\<exists>ds. rs = map Inr ds \<and> td + length d + sum_list (map length ds) \<le> MAX_TOTAL_DECOMPRESSED_SIZE
             \<and> out = take i decoded @ [Some d] @ map Some ds)"
      using Cons.IH [of "td + length d" "decoded[i := Some d]" "i + 1"] Cons.prems(2) t by auto
    also have "\<dots> \<longleftrightarrow> (\<exists>ds. r # rs = map Inr ds \<and> td + sum_list (map length ds) \<le> MAX_TOTAL_DECOMPRESSED_SIZE
             \<and> out = take i decoded @ map Some ds)"
      by (fastforce simp: Inr Cons_eq_map_conv)
    finally show ?thesis .
  qed
qed auto

section \<open>Under the contract of the libraries\<close>

locale archive_contract =
  router: router_contract "ae_router env" good cdf
  for env :: "'s archive_env" and good :: "'s \<Rightarrow> bool" and cdf :: "'s \<Rightarrow> u16 list" +
  assumes blake3_len: "blake3_len_ok (ae_blake3 env)"
    and crypto: "crypto_ok (ae_crypto env)"
begin

lemma check_decoded_size:
  assumes "decompress_chunk_with_baseline (ae_router env) payload m n b = Some (Inr d)"
  shows "check_decoded blake3 msg i n h d = check_decoded blake3 msg' i n h d"
  using router.decompress_chunk_length [OF assms] by (simp add: check_decoded_def)

text \<open>Reading, then decoding: the one-pass version of the sequential path is the two phases.\<close>

lemma decompress_block_phases:
  "decompress_block env archive baseline dk e
    = bindRun (Some (read_raw_block env archive dk i e)) (decompress_raw_block env baseline)"
proof -
  have wrap: "bindRun (wrap_error w (decompress_chunk_with_baseline (ae_router env) payload m n b))
        (\<lambda>d. Some (check_decoded blake3 msg j n h d))
      = bindRun (wrap_error w (decompress_chunk_with_baseline (ae_router env) payload m n b))
        (\<lambda>d. Some (check_decoded blake3 msg' j n h d))" for w payload m n b blake3 msg msg' j h
  proof (cases "decompress_chunk_with_baseline (ae_router env) payload m n b")
    case (Some r)
    then show ?thesis using check_decoded_size by (cases r) (auto simp: wrap_error_def)
  qed (simp add: wrap_error_def)
  have run: "bindRun (Some (bindR m f)) g = bindRun (Some m) (\<lambda>x. bindRun (Some (f x)) g)" for m :: "'x result"
      and f :: "'x \<Rightarrow> 'y result" and g :: "'y \<Rightarrow> 'z run"
    by (cases m) simp_all
  show ?thesis
    unfolding decompress_block_def read_raw_block_def run case_prod_beta bindRun_simps
    by (simp only: decompress_raw_block_def raw_block.simps
        wrap [where msg = "''Block {} (group {}): actual decompressed size {} differs from claimed {}''"
          and msg' = "''Block {} (offset {:#x}): actual decompressed size {} differs from claimed {}''"])
qed

lemma decompress_raw_block_returns: "\<exists>r. decompress_raw_block env baseline b = Some r"
proof -
  obtain r where "decompress_chunk_with_baseline (ae_router env) (rb_payload b) (rb_compression_method b)
      (rb_uncompressed_size b) baseline = Some r"
    using router.decompress_chunk_returns by blast
  then show ?thesis by (cases r) (simp_all add: decompress_raw_block_def wrap_error_def)
qed

lemma decompress_raw_block_length:
  assumes "decompress_raw_block env baseline b = Some (Inr d)"
  shows "length d = rb_uncompressed_size b"
  using assms by (auto simp: decompress_raw_block_def bindRun_Inr_iff check_decoded_def Let_def split: if_splits)

lemma decode_all_returns: "\<exists>rs. those (map (decompress_raw_block env baseline) raws) = Some rs
    \<and> map (decompress_raw_block env baseline) raws = map Some rs"
proof (induction raws)
  case (Cons b raws)
  obtain r where "decompress_raw_block env baseline b = Some r" using decompress_raw_block_returns by blast
  then show ?case using Cons.IH by (auto intro: exI [of _ "r # _"])
qed simp

text \<open>What a successful parallel run has established.\<close>

lemma decompress_blocks_parallel_Inr:
  "decompress_blocks_parallel env dc archive md dk = Some (Inr out) \<longleftrightarrow>
    (\<exists>raws baseline ds. length raws = length (am_block_index md)
       \<and> (\<forall>k < length raws. read_raw_block env archive dk k (am_block_index md ! k) = Inr (raws ! k))
       \<and> sum_list (map (\<lambda>b. length (rb_payload b)) raws) \<le> MAX_TOTAL_COMPRESSED_READ_SIZE
       \<and> decode_baseline_for env dc (am_dictionary_hash md) = Inr baseline
       \<and> (dc_max_threads dc = 0 \<or> ae_pool_builds env (dc_max_threads dc))
       \<and> map (decompress_raw_block env baseline) raws = map (\<lambda>d. Some (Inr d)) ds
       \<and> sum_list (map length ds) \<le> MAX_TOTAL_DECOMPRESSED_SIZE
       \<and> out = map Some ds)" (is "?L \<longleftrightarrow> ?R")
proof -
  let ?n = "length (am_block_index md)"
  have idx: "map rb_global_idx raws = [0..<?n]"
    if "length raws = ?n" "\<forall>k < ?n. read_raw_block env archive dk k (am_block_index md ! k) = Inr (raws ! k)" for raws
    using that by (intro nth_equalityI) (auto dest: read_raw_block_idx)
  have sizes: "map rb_uncompressed_size raws = map length ds"
    if "map (decompress_raw_block env baseline) raws = map (\<lambda>d. Some (Inr d)) ds" for raws baseline ds
  proof (rule nth_equalityI)
    show len: "length (map rb_uncompressed_size raws) = length (map length ds)" using that map_eq_imp_length_eq by auto
    fix k assume k: "k < length (map rb_uncompressed_size raws)"
    then have "decompress_raw_block env baseline (raws ! k) = Some (Inr (ds ! k))"
      using that len by (metis length_map nth_map)
    then show "map rb_uncompressed_size raws ! k = map length ds ! k"
      using decompress_raw_block_length k len by simp
  qed
  have asm: "assemble_blocks (zip [0..<?n] rs) 0 (replicate ?n None) = Inr out \<longleftrightarrow>
      (\<exists>ds. rs = map Inr ds \<and> sum_list (map length ds) \<le> MAX_TOTAL_DECOMPRESSED_SIZE \<and> out = map Some ds)"
    if "length rs = ?n" for rs
    using assemble_blocks_Inr [of 0 "replicate ?n None" 0 rs out] that by simp
  show ?thesis
  proof
    assume ?L
    then obtain raws baseline where r: "read_raw_blocks env archive dk (am_block_index md) 0 0 = Inr raws"
        "decode_baseline_for env dc (am_dictionary_hash md) = Inr baseline"
        "dc_max_threads dc = 0 \<or> ae_pool_builds env (dc_max_threads dc)"
        "(case those (map (decompress_raw_block env baseline) raws) of
           None \<Rightarrow> None
         | Some results \<Rightarrow>
             Some (assemble_blocks (zip (map rb_global_idx raws) results) 0 (replicate ?n None))) = Some (Inr out)"
      unfolding decompress_blocks_parallel_def by (auto simp: bindRun_Inr_iff split: if_splits)
    obtain rs where rs: "those (map (decompress_raw_block env baseline) raws) = Some rs"
        "map (decompress_raw_block env baseline) raws = map Some rs"
      using decode_all_returns by blast
    note raws = r(1) [unfolded read_raw_blocks_Inr [of 0, simplified]]
    have "length rs = ?n" using rs(2) raws map_eq_imp_length_eq by metis
    then obtain ds where "rs = map Inr ds" "sum_list (map length ds) \<le> MAX_TOTAL_DECOMPRESSED_SIZE" "out = map Some ds"
      using asm r(4) rs(1) idx raws by auto
    then show ?R
      using raws r(2,3) rs(2) by (intro exI [of _ raws] exI [of _ baseline] exI [of _ ds]) (simp add: comp_def)
  next
    assume ?R
    then obtain raws baseline ds where r: "length raws = ?n"
        "\<forall>k < length raws. read_raw_block env archive dk k (am_block_index md ! k) = Inr (raws ! k)"
        "sum_list (map (\<lambda>b. length (rb_payload b)) raws) \<le> MAX_TOTAL_COMPRESSED_READ_SIZE"
        "decode_baseline_for env dc (am_dictionary_hash md) = Inr baseline"
        "dc_max_threads dc = 0 \<or> ae_pool_builds env (dc_max_threads dc)"
        "map (decompress_raw_block env baseline) raws = map (\<lambda>d. Some (Inr d)) ds"
        "sum_list (map length ds) \<le> MAX_TOTAL_DECOMPRESSED_SIZE" "out = map Some ds"
      by blast
    have raws: "read_raw_blocks env archive dk (am_block_index md) 0 0 = Inr raws"
      using read_raw_blocks_Inr [of 0 env archive dk "am_block_index md" 0 raws] r(1-3) by simp
    obtain rs where rs: "those (map (decompress_raw_block env baseline) raws) = Some rs"
        "map (decompress_raw_block env baseline) raws = map Some rs"
      using decode_all_returns by blast
    have "map the (map Some rs) = map the (map Some (map Inr ds))" using r(6) rs(2) by (simp add: comp_def)
    then have "rs = map Inr ds" by (simp only: map_map comp_def option.sel map_ident)
    moreover have "length rs = ?n" using rs(2) r(1) map_eq_imp_length_eq by metis
    ultimately have "assemble_blocks (zip [0..<?n] rs) 0 (replicate ?n None) = Inr out"
      using asm r(7,8) by blast
    then show ?L
      using raws r(1,2,4,5,7) rs(1) sizes [OF r(6)] idx [of raws]
      by (auto simp: decompress_blocks_parallel_def limit_ok)
  qed
qed

text \<open>What a successful sequential run has established.\<close>

lemma decompress_blocks_sequential_Inr:
  assumes "decompress_blocks_sequential env dc archive md dk = Some (Inr out)"
  shows "\<exists>baseline ds. decode_baseline_for env dc (am_dictionary_hash md) = Inr baseline
    \<and> list_all2 (\<lambda>e d. decompress_block env archive baseline dk e = Some (Inr d)) (am_block_index md) ds
    \<and> sum_list (map length ds) \<le> MAX_TOTAL_DECOMPRESSED_SIZE
    \<and> index_compressed (am_block_index md) \<le> MAX_TOTAL_COMPRESSED_READ_SIZE \<and> out = map Some ds"
proof -
  let ?n = "length (am_block_index md)"
  obtain baseline where b: "decode_baseline_for env dc (am_dictionary_hash md) = Inr baseline"
      "sequential_blocks (decompress_block env archive baseline dk) (am_block_index md) 0 0 0 (replicate ?n None)
        = Some (Inr out)"
    using assms by (auto simp: decompress_blocks_sequential_def bindRun_Inr_iff)
  obtain ds where ds: "list_all2 (\<lambda>e d. decompress_block env archive baseline dk e = Some (Inr d)) (am_block_index md) ds"
      "am_block_index md \<noteq> [] \<longrightarrow> index_compressed (am_block_index md) \<le> MAX_TOTAL_COMPRESSED_READ_SIZE
         \<and> sum_list (map length ds) \<le> MAX_TOTAL_DECOMPRESSED_SIZE"
    using sequential_blocks_Inr [OF b(2)] by auto
  have small: "index_compressed (am_block_index md) \<le> MAX_TOTAL_COMPRESSED_READ_SIZE"
      "sum_list (map length ds) \<le> MAX_TOTAL_DECOMPRESSED_SIZE"
    using ds by (cases "am_block_index md = []"; simp add: index_compressed_def)+
  have "out = map Some ds"
    using sequential_blocks_decoded [OF ds(1), of "replicate ?n None" 0 0 0] small b(2) by simp
  then show ?thesis using b(1) ds(1) small by blast
qed

text \<open>The two paths on the same archive.\<close>

lemma parallel_then_sequential:
  assumes "decompress_blocks_parallel env dc archive md dk = Some (Inr out)"
  shows "decompress_blocks_sequential env dc archive md dk =
    (if index_compressed (am_block_index md) \<le> MAX_TOTAL_COMPRESSED_READ_SIZE then Some (Inr out)
     else Some (Inl (ResourceLimitExceeded ''Total compressed read size {} exceeds safety limit of {} bytes'')))"
proof -
  let ?n = "length (am_block_index md)"
  obtain raws baseline ds where r: "length raws = ?n"
      "\<forall>k < length raws. read_raw_block env archive dk k (am_block_index md ! k) = Inr (raws ! k)"
      "decode_baseline_for env dc (am_dictionary_hash md) = Inr baseline"
      "map (decompress_raw_block env baseline) raws = map (\<lambda>d. Some (Inr d)) ds"
      "sum_list (map length ds) \<le> MAX_TOTAL_DECOMPRESSED_SIZE" "out = map Some ds"
    using assms unfolding decompress_blocks_parallel_Inr by blast
  have len: "length ds = ?n" using r(1,4) map_eq_imp_length_eq by metis
  have "list_all2 (\<lambda>e d. decompress_block env archive baseline dk e = Some (Inr d)) (am_block_index md) ds"
  proof (rule list_all2_all_nthI)
    fix k assume k: "k < ?n"
    then have "decompress_raw_block env baseline (raws ! k) = Some (Inr (ds ! k))"
      using r(1,4) len by (metis nth_map)
    then show "decompress_block env archive baseline dk (am_block_index md ! k) = Some (Inr (ds ! k))"
      using r(1,2) k decompress_block_phases [of archive baseline dk "am_block_index md ! k" k] by simp
  qed (simp add: len)
  from sequential_blocks_decoded [OF this, of "replicate ?n None" 0 0 0] r(3,5,6)
  show ?thesis by (simp add: decompress_blocks_sequential_def)
qed

lemma sequential_then_parallel:
  assumes "decompress_blocks_sequential env dc archive md dk = Some (Inr out)"
    and "dc_max_threads dc = 0 \<or> ae_pool_builds env (dc_max_threads dc)"
    and size: "\<And>k e r. e \<in> set (am_block_index md) \<Longrightarrow> read_raw_block env archive dk k e = Inr r \<Longrightarrow>
      length (rb_payload r) \<le> unat (bi_compressed_size e)"
  shows "decompress_blocks_parallel env dc archive md dk = Some (Inr out)"
proof -
  let ?es = "am_block_index md"
  obtain baseline ds where s: "decode_baseline_for env dc (am_dictionary_hash md) = Inr baseline"
      "list_all2 (\<lambda>e d. decompress_block env archive baseline dk e = Some (Inr d)) ?es ds"
      "sum_list (map length ds) \<le> MAX_TOTAL_DECOMPRESSED_SIZE"
      "index_compressed ?es \<le> MAX_TOTAL_COMPRESSED_READ_SIZE" "out = map Some ds"
    using decompress_blocks_sequential_Inr [OF assms(1)] by blast
  have "\<exists>raw. read_raw_block env archive dk k (?es ! k) = Inr raw
      \<and> decompress_raw_block env baseline raw = Some (Inr (ds ! k))" if "k < length ?es" for k
    using list_all2_nthD [OF s(2) that] decompress_block_phases [of archive baseline dk "?es ! k" k]
    by (auto simp: bindRun_Inr_iff)
  then obtain raw where raw: "\<And>k. k < length ?es \<Longrightarrow> read_raw_block env archive dk k (?es ! k) = Inr (raw k)"
      "\<And>k. k < length ?es \<Longrightarrow> decompress_raw_block env baseline (raw k) = Some (Inr (ds ! k))"
    by metis
  let ?raws = "map raw [0..<length ?es]"
  have len: "length ds = length ?es" using s(2) by (simp add: list_all2_lengthD)
  have "sum_list (map (\<lambda>b. length (rb_payload b)) ?raws) = (\<Sum>k \<leftarrow> [0..<length ?es]. length (rb_payload (raw k)))"
    by (simp add: comp_def)
  also have "\<dots> \<le> (\<Sum>k \<leftarrow> [0..<length ?es]. unat (bi_compressed_size (?es ! k)))"
    by (intro sum_list_mono) (simp add: size [OF nth_mem raw(1)])
  also have "\<dots> = index_compressed ?es"
    unfolding index_compressed_def by (intro arg_cong [of _ _ sum_list] nth_equalityI) simp_all
  finally have "sum_list (map (\<lambda>b. length (rb_payload b)) ?raws) \<le> MAX_TOTAL_COMPRESSED_READ_SIZE"
    using s(4) by simp
  moreover have "map (decompress_raw_block env baseline) ?raws = map (\<lambda>d. Some (Inr d)) ds"
    using raw(2) len by (intro nth_equalityI) simp_all
  ultimately show ?thesis
    unfolding decompress_blocks_parallel_Inr using raw(1) s assms(2)
    by (intro exI [of _ ?raws] exI [of _ baseline] exI [of _ ds]) simp
qed

text \<open>Verification decodes every block like the sequential path does, on any number of threads.\<close>

lemma verify_decode_outcomes:
  assumes "verify_decode env dc archive index baseline dk = Some (Inr outcomes)"
  shows "length outcomes = length index
    \<and> (\<forall>k < length index. \<forall>d. outcomes ! k = Inr d \<longleftrightarrow> decompress_block env archive baseline dk (index ! k) = Some (Inr d))"
proof -
  have those: "length rs = length fs \<and> (\<forall>k < length fs. fs ! k = Some (rs ! k))" if "those fs = Some rs" for fs and rs :: "'x list"
    using that
  proof (induction fs arbitrary: rs)
    case (Cons f fs)
    then show ?case by (auto simp: nth_Cons split: option.splits nat.splits)
  qed simp
  show ?thesis
  proof (cases "dc_max_threads dc \<noteq> 1 \<and> length index > 1")
    case False
    then have "those (map (decompress_block env archive baseline dk) index) = Some outcomes"
      using assms by (auto simp: verify_decode_def)
    from those [OF this] show ?thesis by simp
  next
    case True
    let ?f = "\<lambda>block. case block of
              Inr block \<Rightarrow> decompress_raw_block env baseline block
            | Inl (_ :: unit) \<Rightarrow> Some (Inl (Decompression ''{e}''))"
    have "those (map ?f (read_raw_blocks_lenient env archive dk index)) = Some outcomes"
      using assms True by (auto simp: verify_decode_def split: if_splits)
    note t = those [OF this, unfolded length_map]
    have len: "length (read_raw_blocks_lenient env archive dk index) = length index"
      by (simp add: read_raw_blocks_lenient_def)
    have "outcomes ! k = Inr d \<longleftrightarrow> decompress_block env archive baseline dk (index ! k) = Some (Inr d)"
      if k: "k < length index" for k d
    proof -
      have o: "?f (case read_raw_block env archive dk k (index ! k) of Inl _ \<Rightarrow> Inl () | Inr b \<Rightarrow> Inr b) = Some (outcomes ! k)"
        using t k len by (simp add: read_raw_blocks_lenient_def nth_enumerate_eq)
      show ?thesis
        unfolding decompress_block_phases [of archive baseline dk "index ! k" k]
        using o by (cases "read_raw_block env archive dk k (index ! k)") auto
    qed
    then show ?thesis using t len by simp
  qed
qed

lemma tally_blocks_clean:
  "vr_corrupted_blocks (tally_blocks xs r) = [] \<longleftrightarrow> vr_corrupted_blocks r = [] \<and> (\<forall>x \<in> set xs. \<exists>d. snd x = Inr d)"
  by (induction xs r rule: tally_blocks.induct) (auto split: sum.splits)

lemma tally_blocks_counts:
  "vr_total_blocks (tally_blocks xs r) = vr_total_blocks r
   \<and> vr_verified_blocks (tally_blocks xs r) + length (vr_corrupted_blocks (tally_blocks xs r))
     = vr_verified_blocks r + length (vr_corrupted_blocks r) + length xs"
  by (induction xs r rule: tally_blocks.induct) (auto split: sum.splits)

lemma tally_files_clean:
  "vr_corrupted_blocks (tally_files blake3 decoded es r) = [] \<longleftrightarrow> vr_corrupted_blocks r = []
     \<and> (\<forall>e \<in> set es. \<exists>d. reassemble_file_from_blocks e decoded = Inr d \<and> blake3 d = fe_blake3_hash e)"
proof (induction es arbitrary: r)
  case (Cons e es)
  then show ?case by (cases "reassemble_file_from_blocks e decoded") auto
qed simp

text \<open>A clean report says exactly that every block decodes and every file has its recorded hash.\<close>

lemma verify_metadata_clean:
  assumes "verify_metadata env dc archive md dk = Some (Inr r)"
  shows "verification_is_ok r \<longleftrightarrow>
    (\<exists>baseline ds. decode_baseline_for env dc (am_dictionary_hash md) = Inr baseline
       \<and> list_all2 (\<lambda>e d. decompress_block env archive baseline dk e = Some (Inr d)) (am_block_index md) ds
       \<and> (\<forall>e \<in> set (am_file_entries md). \<exists>d. reassemble_file_from_blocks e (map Some ds) = Inr d
             \<and> ae_blake3 env d = fe_blake3_hash e))"
proof -
  let ?es = "am_block_index md"
  let ?r0 = "\<lparr>vr_total_blocks = length ?es, vr_verified_blocks = 0, vr_corrupted_blocks = []\<rparr>"
  obtain baseline outcomes where b: "decode_baseline_for env dc (am_dictionary_hash md) = Inr baseline"
      "verify_decode env dc archive ?es baseline dk = Some (Inr outcomes)"
      "r = (if vr_corrupted_blocks (tally_blocks (zip ?es outcomes) ?r0) = []
            then tally_files (ae_blake3 env) (map outcome_block outcomes) (am_file_entries md)
                   (tally_blocks (zip ?es outcomes) ?r0)
            else tally_blocks (zip ?es outcomes) ?r0)"
    using assms by (auto simp: verify_metadata_def bindRun_Inr_iff Let_def)
  note o = verify_decode_outcomes [OF b(2)]
  have all: "(\<forall>x \<in> set (zip ?es outcomes). \<exists>d. snd x = Inr d) \<longleftrightarrow> (\<exists>ds. outcomes = map Inr ds)"
  proof
    assume a: "\<forall>x \<in> set (zip ?es outcomes). \<exists>d. snd x = Inr d"
    have "\<exists>d. outcomes ! k = Inr d" if "k < length outcomes" for k
    proof -
      have "(?es ! k, outcomes ! k) \<in> set (zip ?es outcomes)" using that o by (auto simp: set_zip)
      then show ?thesis using a by fastforce
    qed
    then have "\<forall>k < length outcomes. \<exists>d. outcomes ! k = Inr d" by blast
    then obtain f where "\<forall>k < length outcomes. outcomes ! k = Inr (f k)" by metis
    then have "outcomes = map Inr (map f [0..<length outcomes])" by (intro nth_equalityI) auto
    then show "\<exists>ds. outcomes = map Inr ds" ..
  qed (use o in \<open>fastforce dest: set_zip_rightD\<close>)
  have dec: "list_all2 (\<lambda>e d. decompress_block env archive baseline dk e = Some (Inr d)) ?es ds \<longleftrightarrow> outcomes = map Inr ds"
    for ds
    using o by (auto simp: list_all2_conv_all_nth list_eq_iff_nth_eq)
  have blk: "map outcome_block (map Inr ds) = map Some ds" for ds by (simp add: outcome_block_def comp_def)
  have "verification_is_ok r \<longleftrightarrow> (\<exists>ds. outcomes = map Inr ds)
      \<and> (\<forall>e \<in> set (am_file_entries md). \<exists>d. reassemble_file_from_blocks e (map outcome_block outcomes) = Inr d
            \<and> ae_blake3 env d = fe_blake3_hash e)"
    using all by (auto simp: b(3) verification_is_ok_def tally_blocks_clean tally_files_clean)
  also have "\<dots> \<longleftrightarrow> (\<exists>ds. outcomes = map Inr ds
      \<and> (\<forall>e \<in> set (am_file_entries md). \<exists>d. reassemble_file_from_blocks e (map Some ds) = Inr d
            \<and> ae_blake3 env d = fe_blake3_hash e))"
    using blk by metis
  finally show ?thesis using b(1) dec by auto
qed

end

section \<open>The contract holds for the Order-0 model\<close>

text \<open>
  Reference libraries: a hash that is a fixed-width digest of the first bytes, and an AEAD whose tag
  is constant. They are lawful, which is all the proofs use; they are no secure ciphers.
\<close>

definition digest32 :: "bytes \<Rightarrow> bytes" where
  "digest32 x = take 32 (x @ replicate 32 0)"

definition tag_encrypt :: aead_fun where
  "tag_encrypt key nonce m aad = Some (m @ replicate TAG_SIZE 0)"

definition tag_decrypt :: aead_fun where
  "tag_decrypt key nonce c aad =
     (if length c \<ge> TAG_SIZE \<and> drop (length c - TAG_SIZE) c = replicate TAG_SIZE 0
      then Some (take (length c - TAG_SIZE) c) else None)"

definition tag_crypto :: crypto_env where
  "tag_crypto =
     \<lparr>ce_keyed_hash = (\<lambda>key x. digest32 (key @ x)), ce_aes_encrypt = tag_encrypt, ce_aes_decrypt = tag_decrypt,
      ce_chacha_encrypt = tag_encrypt, ce_chacha_decrypt = tag_decrypt,
      ce_argon2_params = (\<lambda>_ _ _. True), ce_argon2_hash = (\<lambda>pw salt _ _ _. Some (digest32 (pw @ salt)))\<rparr>"

definition order0_archive_env :: "order0 archive_env" where
  "order0_archive_env =
     \<lparr>ae_router = order0_env, ae_blake3 = digest32, ae_crc = (\<lambda>x. of_nat (length x)), ae_crypto = tag_crypto,
      ae_builtin_dicts = [], ae_pool_builds = (\<lambda>_. True)\<rparr>"

lemma tag_aead_ok: "aead_ok tag_encrypt tag_decrypt"
proof -
  have "tag_decrypt key nonce c aad = Some m \<longleftrightarrow> tag_encrypt key nonce m aad = Some c" for key nonce aad m c
  proof
    assume "tag_decrypt key nonce c aad = Some m"
    then have "m = take (length c - TAG_SIZE) c" "drop (length c - TAG_SIZE) c = replicate TAG_SIZE 0"
      by (auto simp: tag_decrypt_def split: if_splits)
    then have "c = m @ replicate TAG_SIZE 0" by (metis append_take_drop_id)
    then show "tag_encrypt key nonce m aad = Some c" by (simp add: tag_encrypt_def)
  qed (auto simp: tag_decrypt_def tag_encrypt_def)
  then show ?thesis by (simp add: aead_ok_def) (simp add: tag_encrypt_def)
qed

lemma digest32_len: "length (digest32 x) = 32"
  by (simp add: digest32_def)

interpretation order0_archive: archive_contract order0_archive_env order0_inv order0_cdf
proof (rule archive_contract.intro)
  show "router_contract (ae_router order0_archive_env) order0_inv order0_cdf"
    using order0_router.router_contract_axioms by (simp add: order0_archive_env_def)
  show "archive_contract_axioms order0_archive_env"
    by unfold_locales (simp_all add: order0_archive_env_def tag_crypto_def blake3_len_ok_def crypto_ok_def
        tag_aead_ok digest32_len)
qed

end
