(* ===== verification/Grouper.thy ===== *)
theory Grouper
  imports Analyzer "HOL-Library.Multiset" "HOL-Library.List_Lexorder" "HOL-Library.Product_Lexorder"
begin

text \<open>
  Semantic solid grouping, \<open>src/aether-core/src/grouper.rs\<close>: files are bucketed by content type (a
  \<open>BTreeMap\<close>, here an association list kept in key order), each bucket is sorted by extension and
  size with the stable sort of the standard library, and split into groups of at most 256 MiB.
  Sizes are 64-bit words; entropies are real numbers.
\<close>

definition MAX_SOLID_GROUP_SIZE :: u64 where "MAX_SOLID_GROUP_SIZE = 256 * 1024 * 1024"

record solid_group =
  gr_group_id :: u32
  gr_content_type :: content_type
  gr_recommended_method :: recommended_method
  gr_file_indices :: "nat list"
  gr_total_size :: u64

record file_info =
  fi_path :: bytes
  fi_size :: u64
  fi_content_type :: content_type
  fi_mean_entropy :: real

text \<open>\<open>entry(key).or_default().push(v)\<close> on the ordered map.\<close>

fun bucket_push :: "u16 \<Rightarrow> 'a \<Rightarrow> (u16 \<times> 'a list) list \<Rightarrow> (u16 \<times> 'a list) list" where
  "bucket_push k v [] = [(k, [v])]"
| "bucket_push k v ((k', vs) # m) =
     (if k < k' then (k, [v]) # (k', vs) # m
      else if k = k' then (k', vs @ [v]) # m
      else (k', vs) # bucket_push k v m)"

definition bucket_files :: "file_info list \<Rightarrow> (u16 \<times> (nat \<times> file_info) list) list" where
  "bucket_files files =
     foldl (\<lambda>m (idx, f). bucket_push (content_type_code (fi_content_type f)) (idx, f) m) []
       (enumerate 0 files)"

text \<open>By extension, then by size, ascending.\<close>

definition sort_bucket :: "(nat \<times> file_info) list \<Rightarrow> (nat \<times> file_info) list" where
  "sort_bucket = sort_key (\<lambda>(_, f). (extension_of (fi_path f), fi_size f))"

definition bucket_entropy :: "(nat \<times> file_info) list \<Rightarrow> real" where
  "bucket_entropy bucket =
     (if bucket = [] then 0
      else sum_list (map (\<lambda>(_, f). fi_mean_entropy f) bucket) / real (length bucket))"

definition make_group ::
    "content_type \<Rightarrow> real \<Rightarrow> u32 \<Rightarrow> nat list \<Rightarrow> u64 \<Rightarrow> solid_group" where
  "make_group ct mean_entropy gid indices sz =
     \<lparr>gr_group_id = gid, gr_content_type = ct,
      gr_recommended_method = recommend_method_for mean_entropy ct,
      gr_file_indices = indices, gr_total_size = sz\<rparr>"

text \<open>The loop over a sorted bucket: the groups it pushes and the next group id.\<close>

fun split_bucket ::
    "content_type \<Rightarrow> real \<Rightarrow> (nat \<times> file_info) list \<Rightarrow> nat list \<Rightarrow> u64 \<Rightarrow> u32 \<Rightarrow> solid_group list \<times> u32" where
  "split_bucket ct e [] current_indices current_size gid =
     (if current_indices \<noteq> [] then ([make_group ct e gid current_indices current_size], gid + 1)
      else ([], gid))"
| "split_bucket ct e ((idx, f) # rest) current_indices current_size gid =
     (if current_size + fi_size f > MAX_SOLID_GROUP_SIZE \<and> current_indices \<noteq> [] then
        let (gs, gid') = split_bucket ct e rest [idx] (0 + fi_size f) (gid + 1)
        in (make_group ct e gid current_indices current_size # gs, gid')
      else split_bucket ct e rest (current_indices @ [idx]) (current_size + fi_size f) gid)"

fun group_buckets ::
    "(u16 \<times> (nat \<times> file_info) list) list \<Rightarrow> u32 \<Rightarrow> solid_group list" where
  "group_buckets [] gid = []"
| "group_buckets ((_, bucket) # m) gid =
     (let bucket = sort_bucket bucket;
          ct = fi_content_type (snd (bucket ! 0));
          (gs, gid) = split_bucket ct (bucket_entropy bucket) bucket [] 0 gid
      in gs @ group_buckets m gid)"

definition group_files :: "file_info list \<Rightarrow> solid_group list" where
  "group_files files = (if files = [] then [] else group_buckets (bucket_files files) 0)"

section \<open>Splitting one bucket\<close>

lemma split_bucket_groups:
  assumes "split_bucket ct e fs cur sz gid = (gs, gid')"
  shows "concat (map gr_file_indices gs) = cur @ map fst fs
    \<and> (\<forall>g \<in> set gs. gr_file_indices g \<noteq> [] \<and> gr_content_type g = ct
          \<and> gr_recommended_method g = recommend_method_for e ct)
    \<and> map gr_group_id gs = map (\<lambda>k. gid + of_nat k) [0..<length gs] \<and> gid' = gid + of_nat (length gs)"
  using assms
proof (induction fs arbitrary: cur sz gid gs gid')
  case (Cons x fs)
  obtain idx f where x: "x = (idx, f)" by fastforce
  show ?case
  proof (cases "sz + fi_size f > MAX_SOLID_GROUP_SIZE \<and> cur \<noteq> []")
    case True
    then obtain gs2 where s: "split_bucket ct e fs [idx] (fi_size f) (gid + 1) = (gs2, gid')"
        "gs = make_group ct e gid cur sz # gs2"
      using Cons.prems x by (auto split: prod.splits)
    have "map (\<lambda>k. gid + of_nat k) [0..<length gs] = gid # map (\<lambda>k. gid + 1 + of_nat k) [0..<length gs2]"
      by (simp add: s(2) map_upt_Suc add.assoc del: upt_Suc)
    then show ?thesis
      using Cons.IH [OF s(1)] True x by (simp add: s(2) make_group_def del: upt_Suc)
  next
    case False
    then have "split_bucket ct e fs (cur @ [idx]) (sz + fi_size f) gid = (gs, gid')"
      using Cons.prems x by (simp split: if_splits)
    from Cons.IH [OF this] show ?thesis by (simp add: x)
  qed
qed (auto simp: make_group_def split: if_splits)

text \<open>
  Sizes: the recorded total is the sum over the group's files, and only a group of one file is
  larger than the limit.
\<close>

definition files_size :: "(nat \<times> file_info) list \<Rightarrow> nat" where
  "files_size fs = sum_list (map (\<lambda>(_, f). unat (fi_size f)) fs)"

lemma files_size_simps [simp]:
  "files_size [] = 0" "files_size (x # fs) = unat (fi_size (snd x)) + files_size fs"
  "files_size (fs @ gs) = files_size fs + files_size gs"
  by (simp_all add: files_size_def split: prod.split)

lemma files_size_mset: "files_size fs = sum_mset (image_mset (\<lambda>x. unat (fi_size (snd x))) (mset fs))"
  by (simp add: files_size_def case_prod_beta' sum_mset_sum_list [symmetric])

lemma files_size_cong: "mset fs = mset fs' \<Longrightarrow> files_size fs = files_size fs'"
  by (simp add: files_size_mset)

definition group_size_ok :: "(nat \<Rightarrow> nat) \<Rightarrow> solid_group \<Rightarrow> bool" where
  "group_size_ok sizes g \<longleftrightarrow>
     unat (gr_total_size g) = sum_list (map sizes (gr_file_indices g))
     \<and> (gr_total_size g \<le> MAX_SOLID_GROUP_SIZE \<or> length (gr_file_indices g) = 1)"

lemma split_bucket_sizes:
  assumes "split_bucket ct e fs cur sz gid = (gs, gid')"
    and "unat sz = sum_list (map sizes cur)" "unat sz + files_size fs < 2 ^ 64"
    and "\<forall>(i, f) \<in> set fs. sizes i = unat (fi_size f)"
    and "cur = [] \<longrightarrow> sz = 0" "sz \<le> MAX_SOLID_GROUP_SIZE \<or> length cur = 1"
  shows "\<forall>g \<in> set gs. group_size_ok sizes g"
  using assms
proof (induction fs arbitrary: cur sz gid gs gid')
  case (Cons x fs)
  obtain idx f where x: "x = (idx, f)" by fastforce
  have plus: "unat (sz + fi_size f) = unat sz + unat (fi_size f)"
    using Cons.prems(3) x by (intro unat_add_lem [THEN iffD1]) simp
  have f: "sizes idx = unat (fi_size f)" "\<forall>(i, f) \<in> set fs. sizes i = unat (fi_size f)"
    using Cons.prems(4) x by auto
  show ?case
  proof (cases "sz + fi_size f > MAX_SOLID_GROUP_SIZE \<and> cur \<noteq> []")
    case True
    then obtain gs2 where s: "split_bucket ct e fs [idx] (fi_size f) (gid + 1) = (gs2, gid')"
        "gs = make_group ct e gid cur sz # gs2"
      using Cons.prems(1) x by (auto split: prod.splits)
    have "\<forall>g \<in> set gs2. group_size_ok sizes g"
      by (rule Cons.IH [OF s(1)]) (use Cons.prems(3) f x in auto)
    then show ?thesis
      using s(2) Cons.prems(2,6) by (simp add: group_size_ok_def make_group_def)
  next
    case False
    then have "split_bucket ct e fs (cur @ [idx]) (sz + fi_size f) gid = (gs, gid')"
      using Cons.prems(1) x by (simp split: if_splits)
    then show ?thesis
    proof (rule Cons.IH)
      show "sz + fi_size f \<le> MAX_SOLID_GROUP_SIZE \<or> length (cur @ [idx]) = 1"
        using False Cons.prems(5) by (cases cur) auto
    qed (use plus f Cons.prems(2,3) x in auto)
  qed
qed (auto simp: group_size_ok_def make_group_def split: if_splits)

section \<open>Buckets\<close>

text \<open>Every file is in the bucket of its type, once; the keys are strictly increasing.\<close>

definition bucket_ok :: "u16 \<Rightarrow> (nat \<times> file_info) list \<Rightarrow> bool" where
  "bucket_ok k b \<longleftrightarrow> b \<noteq> [] \<and> (\<forall>x \<in> set b. content_type_code (fi_content_type (snd x)) = k)"

definition buckets_ok :: "(nat \<times> file_info) list \<Rightarrow> (u16 \<times> (nat \<times> file_info) list) list \<Rightarrow> bool" where
  "buckets_ok fs m \<longleftrightarrow>
     mset (concat (map snd m)) = mset fs \<and> sorted_wrt (<) (map fst m)
     \<and> (\<forall>(k, b) \<in> set m. bucket_ok k b)"

lemma bucket_push_keys: "set (map fst (bucket_push k v m)) = insert k (set (map fst m))"
  by (induction k v m rule: bucket_push.induct) auto

lemma bucket_push_mset: "mset (concat (map snd (bucket_push k v m))) = add_mset v (mset (concat (map snd m)))"
  by (induction k v m rule: bucket_push.induct) auto

lemma bucket_push_sorted:
  "sorted_wrt (<) (map fst m) \<Longrightarrow> sorted_wrt (<) (map fst (bucket_push k v m))"
proof (induction k v m rule: bucket_push.induct)
  case (2 k v k' vs m)
  then show ?case using bucket_push_keys [of k v m] by (auto simp: image_iff)
qed simp

lemma bucket_push_members:
  assumes "(j, b) \<in> set (bucket_push k v m)"
  shows "(j, b) \<in> set m \<or> j = k \<and> (b = [v] \<or> (\<exists>vs. (k, vs) \<in> set m \<and> b = vs @ [v]))"
  using assms by (induction k v m rule: bucket_push.induct) (auto split: if_splits)

lemma buckets_ok_push:
  assumes "buckets_ok fs m" "content_type_code (fi_content_type (snd x)) = k"
  shows "buckets_ok (fs @ [x]) (bucket_push k x m)"
proof -
  have "bucket_ok j b" if b: "(j, b) \<in> set (bucket_push k x m)" for j b
  proof -
    have m: "bucket_ok j b" if "(j, b) \<in> set m" for j b
      using assms(1) that unfolding buckets_ok_def by blast
    have new: "bucket_ok k [x]" "bucket_ok k vs \<Longrightarrow> bucket_ok k (vs @ [x])" for vs
      using assms(2) unfolding bucket_ok_def by auto
    show ?thesis using bucket_push_members [OF b] m new by blast
  qed
  then show ?thesis
    using assms(1) bucket_push_sorted [of m k x]
    unfolding buckets_ok_def bucket_push_mset by auto
qed

lemma bucket_files_ok: "buckets_ok (enumerate 0 files) (bucket_files files)"
proof -
  have "buckets_ok (pre @ fs) (foldl (\<lambda>m (idx, f). bucket_push (content_type_code (fi_content_type f)) (idx, f) m) m fs)"
    if "buckets_ok pre m" for pre fs m
    using that
  proof (induction fs arbitrary: pre m)
    case (Cons x fs)
    obtain idx f where x: "x = (idx, f)" by fastforce
    have "buckets_ok (pre @ [x]) (bucket_push (content_type_code (fi_content_type f)) (idx, f) m)"
      using buckets_ok_push [OF Cons.prems, of x] x by simp
    from Cons.IH [OF this] show ?case by (simp add: x)
  qed simp
  from this [of "[]" "[]" "enumerate 0 files"] show ?thesis
    by (simp add: bucket_files_def buckets_ok_def)
qed

section \<open>All groups\<close>

lemma set_sort_bucket [simp]: "set (sort_bucket b) = set b"
  by (simp add: sort_bucket_def)

lemma mset_sort_bucket [simp]: "mset (sort_bucket b) = mset b"
  by (simp add: sort_bucket_def)

lemma bucket_ok_sort: "bucket_ok k b \<Longrightarrow> bucket_ok k (sort_bucket b)"
  by (metis bucket_ok_def set_sort_bucket set_empty)

lemma bucket_ok_head: "bucket_ok k b \<Longrightarrow> content_type_code (fi_content_type (snd (b ! 0))) = k"
  by (cases b) (auto simp: bucket_ok_def)

text \<open>The members of a group are files of its type, and ids count up.\<close>

definition group_members_ok :: "(nat \<times> file_info) list \<Rightarrow> solid_group \<Rightarrow> bool" where
  "group_members_ok fs g \<longleftrightarrow> gr_file_indices g \<noteq> []
     \<and> (\<forall>i \<in> set (gr_file_indices g). \<exists>f. (i, f) \<in> set fs \<and> fi_content_type f = gr_content_type g)"

lemma group_members_ok_mono: "group_members_ok fs g \<Longrightarrow> set fs \<subseteq> set fs' \<Longrightarrow> group_members_ok fs' g"
  unfolding group_members_ok_def by blast

lemma split_bucket_members:
  assumes "split_bucket (fi_content_type (snd (b ! 0))) e b [] 0 gid = (gs, gid')" "bucket_ok k b"
  shows "\<forall>g \<in> set gs. group_members_ok b g \<and> content_type_code (gr_content_type g) = k"
proof
  fix g assume g: "g \<in> set gs"
  let ?ct = "fi_content_type (snd (b ! 0))"
  note s = split_bucket_groups [OF assms(1)]
  have ct: "gr_content_type g = ?ct" "gr_file_indices g \<noteq> []" using s g by auto
  have k: "content_type_code ?ct = k" by (rule bucket_ok_head [OF assms(2)])
  have "\<exists>f. (i, f) \<in> set b \<and> fi_content_type f = ?ct" if i: "i \<in> set (gr_file_indices g)" for i
  proof -
    have "i \<in> set (concat (map gr_file_indices gs))" using g i by auto
    then obtain f where f: "(i, f) \<in> set b" using s by auto
    then have "content_type_code (fi_content_type f) = content_type_code ?ct"
      using assms(2) k by (auto simp: bucket_ok_def)
    then show ?thesis using f by (auto simp: content_type_code_inject)
  qed
  then show "group_members_ok b g \<and> content_type_code (gr_content_type g) = k"
    using ct k by (simp add: group_members_ok_def)
qed

lemma group_buckets_ok:
  assumes "sorted_wrt (<) (map fst m)" "\<forall>(k, b) \<in> set m. bucket_ok k b"
  shows "mset (concat (map gr_file_indices (group_buckets m gid))) = mset (map fst (concat (map snd m)))
    \<and> (\<forall>g \<in> set (group_buckets m gid). group_members_ok (concat (map snd m)) g
          \<and> content_type_code (gr_content_type g) \<in> fst ` set m)
    \<and> map gr_group_id (group_buckets m gid) = map (\<lambda>k. gid + of_nat k) [0..<length (group_buckets m gid)]
    \<and> sorted (map gr_content_type (group_buckets m gid))"
  using assms
proof (induction m arbitrary: gid)
  case (Cons x m)
  obtain k b where x: "x = (k, b)" by fastforce
  let ?b = "sort_bucket b"
  obtain gs gid' where s: "split_bucket (fi_content_type (snd (?b ! 0))) (bucket_entropy ?b) ?b [] 0 gid = (gs, gid')"
    by fastforce
  have b: "bucket_ok k ?b" using Cons.prems(2) x bucket_ok_sort by simp
  have new: "group_buckets (x # m) gid = gs @ group_buckets m gid'" by (simp add: x s Let_def)
  note g = split_bucket_groups [OF s]
  note mem = split_bucket_members [OF s b]
  have IH: "mset (concat (map gr_file_indices (group_buckets m gid'))) = mset (map fst (concat (map snd m)))"
      "\<forall>g \<in> set (group_buckets m gid'). group_members_ok (concat (map snd m)) g
          \<and> content_type_code (gr_content_type g) \<in> fst ` set m"
      "map gr_group_id (group_buckets m gid') = map (\<lambda>k. gid' + of_nat k) [0..<length (group_buckets m gid')]"
      "sorted (map gr_content_type (group_buckets m gid'))"
    using Cons.IH [of gid'] Cons.prems by auto
  have "mset (concat (map gr_file_indices (group_buckets (x # m) gid)))
      = mset (map fst (concat (map snd (x # m))))"
    unfolding new using g IH(1) by (simp add: x)
  moreover have "group_members_ok (concat (map snd (x # m))) h
      \<and> content_type_code (gr_content_type h) \<in> fst ` set (x # m)"
    if h: "h \<in> set (group_buckets (x # m) gid)" for h
  proof (cases "h \<in> set gs")
    case True
    then show ?thesis using mem group_members_ok_mono [of ?b h "concat (map snd (x # m))"] by (auto simp: x)
  next
    case False
    then have "h \<in> set (group_buckets m gid')" using h new by simp
    then show ?thesis
      using IH(2) group_members_ok_mono [of "concat (map snd m)" h "concat (map snd (x # m))"] by auto
  qed
  moreover have "map gr_group_id (group_buckets (x # m) gid)
      = map (\<lambda>k. gid + of_nat k) [0..<length (group_buckets (x # m) gid)]"
  proof -
    have "map (\<lambda>k. gid + of_nat k) [0..<length gs + n]
        = map (\<lambda>k. gid + of_nat k) [0..<length gs] @ map (\<lambda>k. gid' + of_nat k) [0..<n]" for n
    proof -
      have "[length gs..<length gs + n] = map (\<lambda>k. k + length gs) [0..<n]"
        by (simp add: map_add_upt add.commute)
      then show ?thesis using g by (simp only: upt_add_eq_append [of 0 "length gs" n, simplified] map_append) (simp add: ac_simps)
    qed
    then show ?thesis using g IH(3) new by simp
  qed
  moreover have "sorted (map gr_content_type (group_buckets (x # m) gid))"
  proof -
    have lo: "content_type_code (gr_content_type h) = k" if "h \<in> set gs" for h using mem that by blast
    have hi: "k < content_type_code (gr_content_type h)" if "h \<in> set (group_buckets m gid')" for h
    proof -
      have "content_type_code (gr_content_type h) \<in> fst ` set m" using IH(2) that by blast
      then show ?thesis using Cons.prems(1) x by auto
    qed
    have "sorted (map gr_content_type gs)"
      using lo by (auto simp: sorted_wrt_iff_nth_less less_eq_content_type_def)
    then show ?thesis
      using IH(4) lo hi by (auto simp: new sorted_append less_eq_content_type_def less_imp_le)
  qed
  ultimately show ?case by blast
qed simp

lemma group_buckets_sizes:
  assumes "files_size (concat (map snd m)) < 2 ^ 64"
    and "\<forall>(i, f) \<in> set (concat (map snd m)). sizes i = unat (fi_size f)"
  shows "\<forall>g \<in> set (group_buckets m gid). group_size_ok sizes g"
  using assms
proof (induction m arbitrary: gid)
  case (Cons x m)
  obtain k b where x: "x = (k, b)" by fastforce
  let ?b = "sort_bucket b"
  obtain gs gid' where s: "split_bucket (fi_content_type (snd (?b ! 0))) (bucket_entropy ?b) ?b [] 0 gid = (gs, gid')"
    by fastforce
  have new: "group_buckets (x # m) gid = gs @ group_buckets m gid'" by (simp add: x s Let_def)
  have p: "files_size b + files_size (concat (map snd m)) < 2 ^ 64"
      "\<forall>(i, f) \<in> set b. sizes i = unat (fi_size f)"
      "\<forall>(i, f) \<in> set (concat (map snd m)). sizes i = unat (fi_size f)"
    using Cons.prems unfolding x by (simp_all del: set_concat)
  have sz: "files_size ?b = files_size b"
    by (rule files_size_cong) simp
  have "\<forall>g \<in> set gs. group_size_ok sizes g"
    by (rule split_bucket_sizes [OF s]) (use p sz in simp_all)
  moreover have "\<forall>g \<in> set (group_buckets m gid'). group_size_ok sizes g"
    by (rule Cons.IH [OF _ p(3)]) (use p(1) in simp)
  ultimately show ?case unfolding new by auto
qed simp

lemma set_enumerate_nth: "(i, f) \<in> set (enumerate 0 xs) \<longleftrightarrow> i < length xs \<and> f = xs ! i"
  by (auto simp: in_set_enumerate_eq)

lemma group_files_ok:
  "mset (concat (map gr_file_indices (group_files files))) = mset [0..<length files]
   \<and> (\<forall>g \<in> set (group_files files). gr_file_indices g \<noteq> []
        \<and> (\<forall>i \<in> set (gr_file_indices g). i < length files \<and> fi_content_type (files ! i) = gr_content_type g))
   \<and> map gr_group_id (group_files files) = map of_nat [0..<length (group_files files)]
   \<and> sorted (map gr_content_type (group_files files))"
proof (cases "files = []")
  case False
  note b = bucket_files_ok [of files, unfolded buckets_ok_def]
  have mset: "mset (map fst (concat (map snd (bucket_files files)))) = mset [0..<length files]"
    using b by (metis mset_map map_fst_enumerate add_0)
  have sub: "set (concat (map snd (bucket_files files))) \<subseteq> set (enumerate 0 files)"
    using b by (metis set_mset_mset order_refl)
  have new: "group_files files = group_buckets (bucket_files files) 0" using False by (simp add: group_files_def)
  have b': "sorted_wrt (<) (map fst (bucket_files files))" "\<forall>(k, b) \<in> set (bucket_files files). bucket_ok k b"
    using b by blast+
  note g = group_buckets_ok [OF b', of 0, folded new]
  have "gr_file_indices g \<noteq> [] \<and> (\<forall>i \<in> set (gr_file_indices g). i < length files
      \<and> fi_content_type (files ! i) = gr_content_type g)" if "g \<in> set (group_files files)" for g
  proof -
    have "group_members_ok (enumerate 0 files) g"
      using g that group_members_ok_mono [OF _ sub] by blast
    then show ?thesis by (auto simp: group_members_ok_def set_enumerate_nth)
  qed
  moreover have "map gr_group_id (group_files files) = map of_nat [0..<length (group_files files)]"
    using g by simp
  ultimately show ?thesis using g mset by simp
qed (simp add: group_files_def)

lemma group_files_sizes:
  assumes "sum_list (map (\<lambda>f. unat (fi_size f)) files) < 2 ^ 64" "g \<in> set (group_files files)"
  shows "group_size_ok (\<lambda>i. unat (fi_size (files ! i))) g"
proof (cases "files = []")
  case True
  then show ?thesis using assms(2) by (simp add: group_files_def)
next
  case False
  note b = bucket_files_ok [of files, unfolded buckets_ok_def]
  have "files_size (concat (map snd (bucket_files files))) = files_size (enumerate 0 files)"
    using b by (intro files_size_cong) blast
  also have "\<dots> = sum_list (map (\<lambda>f. unat (fi_size f)) files)"
  proof -
    have "map (\<lambda>(_, f). unat (fi_size f)) (enumerate 0 files) = map (\<lambda>f. unat (fi_size f)) (map snd (enumerate 0 files))"
      by (simp only: map_map comp_def case_prod_beta')
    then show ?thesis by (simp only: files_size_def map_snd_enumerate)
  qed
  finally have "files_size (concat (map snd (bucket_files files))) < 2 ^ 64" using assms(1) by simp
  moreover have "\<forall>(i, f) \<in> set (concat (map snd (bucket_files files))). unat (fi_size (files ! i)) = unat (fi_size f)"
  proof -
    have "set (concat (map snd (bucket_files files))) = set (enumerate 0 files)"
      using b by (metis set_mset_mset)
    then show ?thesis by (auto simp: set_enumerate_nth)
  qed
  ultimately show ?thesis
    using group_buckets_sizes assms(2) False by (auto simp: group_files_def)
qed

end
