(* ===== verification/Writer.thy ===== *)
theory Writer
  imports Seekable Grouper
begin

text \<open>
  The archive writer, \<open>src/aether-core/src/pipeline/compress.rs\<close>. What the file system says about an
  input path is an \<open>input_file\<close>; the output stream starts empty and is the list of bytes written so
  far, whose length is the stream position, until the final pass overwrites the header and the two
  tables in place. Salt and nonce are the random values drawn. Chunks and groups are compressed by
  pure functions, so the parallel iterators are maps; of several failing chunks the model reports
  the first. Statistics are modelled as far as \<open>CompressionStats\<close>; the analytics are not.
\<close>

definition MAX_TOTAL_INPUT_SIZE :: nat where "MAX_TOTAL_INPUT_SIZE = 8 * 1024 * 1024 * 1024"

section \<open>Inputs and environment\<close>

text \<open>
  \<open>if_rel_path\<close> is the path without the base directory, \<open>None\<close> when it is not UTF-8; \<open>if_mode\<close> is the
  mode of the file, \<open>None\<close> when its metadata cannot be read.
\<close>

record input_file =
  if_data :: "bytes result"
  if_rel_path :: "bytes option"
  if_mtime :: u64
  if_mode :: "u32 option"

record 's compress_env =
  co_archive :: "'s archive_env"
  co_fastcdc :: fastcdc_fun
  co_lower :: "bytes \<Rightarrow> bytes"
  co_salt :: bytes
  co_nonce :: bytes

record encryption_config =
  ec_password :: bytes
  ec_cipher_id :: cipher_id

record 'p compressor =
  cp_object :: "'p predictor_object"
  cp_new_predictor :: 'p
  cp_predictor_id :: predictor_id
  cp_max_threads :: nat
  cp_profile :: compression_profile
  cp_encryption :: "encryption_config option"
  cp_dictionary :: "dictionary option"

definition compressor_new ::
    "'s compress_env \<Rightarrow> bytes \<Rightarrow> nat \<Rightarrow> 'p predictor_object \<Rightarrow> 'p \<Rightarrow> 'p compressor" where
  "compressor_new env text_dict default_max_threads factory p0 =
     (let pid = po_predictor_id factory p0;
          dict = (if pid = NeuralSsm then for_content_type (ae_blake3 (co_archive env)) text_dict Text else None)
      in \<lparr>cp_object = factory, cp_new_predictor = p0, cp_predictor_id = pid,
          cp_max_threads = default_max_threads, cp_profile = Archival, cp_encryption = None,
          cp_dictionary = dict\<rparr>)"

text \<open>Half of the cores; \<open>available_parallelism\<close> may fail.\<close>

definition default_max_threads :: "nat option \<Rightarrow> nat" where
  "default_max_threads available_parallelism =
     (case available_parallelism of Some cores \<Rightarrow> max (cores div 2) 1 | None \<Rightarrow> 4)"

definition compressor_with_dictionary :: "dictionary \<Rightarrow> 'p compressor \<Rightarrow> 'p compressor" where
  "compressor_with_dictionary dict cp = cp\<lparr>cp_dictionary := Some dict\<rparr>"

definition compressor_with_max_threads :: "nat \<Rightarrow> 'p compressor \<Rightarrow> 'p compressor" where
  "compressor_with_max_threads n cp = cp\<lparr>cp_max_threads := n\<rparr>"

definition compressor_with_profile :: "compression_profile \<Rightarrow> 'p compressor \<Rightarrow> 'p compressor" where
  "compressor_with_profile profile cp = cp\<lparr>cp_profile := profile\<rparr>"

definition compressor_with_encryption :: "bytes \<Rightarrow> cipher_id \<Rightarrow> 'p compressor \<Rightarrow> 'p compressor" where
  "compressor_with_encryption password cipher cp =
     cp\<lparr>cp_encryption := Some \<lparr>ec_password = password, ec_cipher_id = cipher\<rparr>\<rparr>"

fun foldR :: "('a \<Rightarrow> 'b \<Rightarrow> 'b result) \<Rightarrow> 'a list \<Rightarrow> 'b \<Rightarrow> 'b result" where
  "foldR f [] s = Inr s"
| "foldR f (x # xs) s = bindR (f x s) (foldR f xs)"

section \<open>Step 1: scanning\<close>

definition normalize_separators :: "bytes \<Rightarrow> bytes" where
  "normalize_separators = map (\<lambda>b. if b = 0x5C then 0x2F else b)"

fun scan_files ::
    "'s compress_env \<Rightarrow> input_file list \<Rightarrow> nat \<Rightarrow> (file_entry \<times> file_info \<times> bytes) list result" where
  "scan_files env [] cumulative_input_size = Inr []"
| "scan_files env (f # fs) cumulative_input_size =
     bindR (if_data f) (\<lambda>data.
       let cumulative_input_size = cumulative_input_size + length data
       in if cumulative_input_size > MAX_TOTAL_INPUT_SIZE then
            Inl (ResourceLimitExceeded ''Total input size {} exceeds limit of {} bytes'')
          else
            case if_rel_path f of
              None \<Rightarrow> Inl InvalidUtf8Path
            | Some p \<Rightarrow>
                let rel_path = normalize_separators p;
                    info = \<lparr>fi_path = rel_path, fi_size = of_nat (length data),
                      fi_content_type = detect_content_type (co_lower env) rel_path data,
                      fi_mean_entropy = env_entropy (ae_router (co_archive env)) data\<rparr>;
                    permissions = (case if_mode f of Some m \<Rightarrow> m AND SAFE_PERMISSION_MASK | None \<Rightarrow> 0x1A4);
                    entry = \<lparr>fe_path = rel_path, fe_original_size = of_nat (length data),
                      fe_blake3_hash = ae_blake3 (co_archive env) data, fe_solid_group_id = 0,
                      fe_chunk_start_idx = 0, fe_chunk_count = 0, fe_permissions = permissions,
                      fe_mtime = if_mtime f\<rparr>
                in bindR (scan_files env fs cumulative_input_size) (\<lambda>rest. Inr ((entry, info, data) # rest)))"

section \<open>Step 2: groups\<close>

definition assign_group :: "solid_group \<Rightarrow> file_entry list \<Rightarrow> file_entry list" where
  "assign_group g entries =
     foldl (\<lambda>es idx. es[idx := (es ! idx)\<lparr>fe_solid_group_id := gr_group_id g\<rparr>]) entries (gr_file_indices g)"

definition assign_groups :: "solid_group list \<Rightarrow> file_entry list \<Rightarrow> file_entry list" where
  "assign_groups groups entries = foldl (\<lambda>es g. assign_group g es) entries groups"

definition group_compression_method :: "recommended_method \<Rightarrow> compression_method" where
  "group_compression_method m =
     (case m of RecPredictorRans \<Rightarrow> PredictorRans | RecZstd \<Rightarrow> Zstd | RecStore \<Rightarrow> Store)"

definition initial_group_entry :: "solid_group \<Rightarrow> solid_group_entry" where
  "initial_group_entry g =
     \<lparr>sg_group_id = gr_group_id g, sg_content_type = gr_content_type g,
      sg_compression_method = group_compression_method (gr_recommended_method g),
      sg_first_block_idx = 0, sg_block_count = 0, sg_file_count = of_nat (length (gr_file_indices g))\<rparr>"

section \<open>Steps 3 to 5: header and tables\<close>

fun prefixed_paths_size :: "bytes \<Rightarrow> file_entry list \<Rightarrow> nat" where
  "prefixed_paths_size previous_path [] = 0"
| "prefixed_paths_size previous_path (e # es) =
     prefixed_path_size e previous_path + prefixed_paths_size (fe_path e) es"

definition use_path_prefixes :: "file_entry list \<Rightarrow> bool" where
  "use_path_prefixes entries \<longleftrightarrow>
     prefixed_paths_size [] entries < sum_list (map (\<lambda>e. 2 + length (fe_path e)) entries)"

definition encryption_setup ::
    "'s compress_env \<Rightarrow> encryption_config option \<Rightarrow> (encryption_header \<times> bytes) option result" where
  "encryption_setup env config =
     (case config of
        None \<Rightarrow> Inr None
      | Some c \<Rightarrow>
          let ce = ae_crypto (co_archive env)
          in bindR (validate_encryption_password (ec_password c)) (\<lambda>_.
             bindR (derive_key ce (ec_password c) (co_salt env)
                 DEFAULT_ARGON2_M_COST DEFAULT_ARGON2_T_COST DEFAULT_ARGON2_P_COST) (\<lambda>key.
               Inr (Some (\<lparr>eh_version = HEADER_VERSION, eh_cipher_id = ec_cipher_id c, eh_salt = co_salt env,
                 eh_m_cost = DEFAULT_ARGON2_M_COST, eh_t_cost = DEFAULT_ARGON2_T_COST,
                 eh_p_cost = DEFAULT_ARGON2_P_COST, eh_master_nonce = co_nonce env,
                 eh_verification_tag = compute_verification_tag ce key\<rparr>, key)))))"

definition archive_flags :: "bool \<Rightarrow> bool \<Rightarrow> bool \<Rightarrow> u16" where
  "archive_flags prefixes dict encrypted =
     FLAG_SOLID_ARCHIVE OR (if prefixes then FLAG_PATH_PREFIXES else 0)
     OR (if dict then FLAG_HAS_DICTIONARY else 0) OR (if encrypted then FLAG_ENCRYPTED else 0)"

definition u32_try_from :: "nat \<Rightarrow> string \<Rightarrow> u32 result" where
  "u32_try_from n msg = (if n < 2 ^ 32 then Inr (of_nat n) else Inl (Compression msg))"

fun write_file_table :: "bool \<Rightarrow> bytes \<Rightarrow> file_entry list \<Rightarrow> bytes result" where
  "write_file_table prefixes previous_path [] = Inr []"
| "write_file_table prefixes previous_path (e # es) =
     bindR (if prefixes then file_entry_write_prefixed e previous_path else Inr (file_entry_write e)) (\<lambda>b.
     bindR (write_file_table prefixes (fe_path e) es) (\<lambda>bs. Inr (b @ bs)))"

definition write_group_table :: "solid_group_entry list \<Rightarrow> bytes" where
  "write_group_table groups = concat (map solid_group_entry_write groups)"

section \<open>Step 6, phase A: compressing the groups\<close>

record compressed_file_blocks =
  cf_file_idx :: nat
  cf_chunk_count :: nat
  cf_blocks :: "compressed_chunk list"
  cf_dup_of_file_idx :: "nat option"

definition encode_baseline :: "'p compressor \<Rightarrow> bytes option result" where
  "encode_baseline cp =
     (case cp_dictionary cp of
        None \<Rightarrow> Inr None
      | Some dict \<Rightarrow>
          let (r, predictor) = dictionary_apply dict (cp_object cp) (cp_new_predictor cp)
          in case r of
               Inl _ \<Rightarrow> Inl (Compression ''Failed to apply dictionary to predictor: {e}'')
             | Inr _ \<Rightarrow>
                 if fst (po_set_coding_baseline (cp_object cp) (di_state dict) predictor)
                 then Inr (Some (di_state dict)) else Inr None)"

text \<open>\<open>seen_files\<close>: the first file of the group with this hash and size.\<close>

type_synonym seen_files = "((bytes \<times> u64) \<times> nat) list"

fun compress_group_files ::
    "'s compress_env \<Rightarrow> compression_profile \<Rightarrow> bytes option \<Rightarrow> content_type \<Rightarrow> file_entry list \<Rightarrow> bytes list
      \<Rightarrow> nat list \<Rightarrow> seen_files \<Rightarrow> compressed_file_blocks list run" where
  "compress_group_files env profile baseline ct entries datas [] seen = Some (Inr [])"
| "compress_group_files env profile baseline ct entries datas (idx # idxs) seen =
     (let file_key = (fe_blake3_hash (entries ! idx), fe_original_size (entries ! idx))
      in case map_of seen file_key of
           Some orig \<Rightarrow>
             bindRun (compress_group_files env profile baseline ct entries datas idxs seen) (\<lambda>results.
               Some (Inr (\<lparr>cf_file_idx = idx, cf_chunk_count = 0, cf_blocks = [],
                           cf_dup_of_file_idx = Some orig\<rparr> # results)))
         | None \<Rightarrow>
             Option.bind (file_chunks (co_fastcdc env) (ae_blake3 (co_archive env))
                 (env_entropy (ae_router (co_archive env))) (datas ! idx)) (\<lambda>chunks.
             bindRun (mapRun (\<lambda>chunk. compress_chunk_with_baseline (ae_router (co_archive env)) chunk baseline ct profile)
                 chunks) (\<lambda>blocks.
             bindRun (compress_group_files env profile baseline ct entries datas idxs ((file_key, idx) # seen)) (\<lambda>results.
               Some (Inr (\<lparr>cf_file_idx = idx, cf_chunk_count = length chunks, cf_blocks = blocks,
                           cf_dup_of_file_idx = None\<rparr> # results))))))"

definition compress_group ::
    "'s compress_env \<Rightarrow> compression_profile \<Rightarrow> bytes option \<Rightarrow> file_entry list \<Rightarrow> bytes list \<Rightarrow> solid_group
      \<Rightarrow> compressed_file_blocks list run" where
  "compress_group env profile baseline entries datas grp =
     compress_group_files env profile baseline (gr_content_type grp) entries datas (gr_file_indices grp) []"

definition compress_groups ::
    "'s compress_env \<Rightarrow> 'p compressor \<Rightarrow> bytes option \<Rightarrow> file_entry list \<Rightarrow> bytes list \<Rightarrow> solid_group list
      \<Rightarrow> compressed_file_blocks list list run" where
  "compress_groups env cp baseline entries datas groups =
     (if cp_max_threads cp \<noteq> 0 \<and> \<not> ae_pool_builds (co_archive env) (cp_max_threads cp) then
        Some (Inl (Compression ''Failed to create thread pool with {} threads: {e}''))
      else mapRun (compress_group env (cp_profile cp) baseline entries datas) groups)"

section \<open>Step 6, phase B: writing the blocks\<close>

record writer_state =
  ws_out :: bytes
  ws_entries :: "file_entry list"
  ws_groups :: "solid_group_entry list"
  ws_index :: "block_index_entry list"
  ws_block_id :: u32
  ws_chunk_idx :: u32
  ws_compressed_size :: u64

definition seal_payload ::
    "crypto_env \<Rightarrow> (encryption_header \<times> bytes) option \<Rightarrow> u32 \<Rightarrow> bytes \<Rightarrow> bytes result" where
  "seal_payload ce encryption_state block_id data =
     (case encryption_state of
        Some (h, key) \<Rightarrow> encrypt_block ce (eh_cipher_id h) key (eh_master_nonce h) block_id data
      | None \<Rightarrow> Inr data)"

definition write_block ::
    "'s archive_env \<Rightarrow> (encryption_header \<times> bytes) option \<Rightarrow> u32 \<Rightarrow> compressed_chunk
      \<Rightarrow> writer_state \<Rightarrow> writer_state result" where
  "write_block env encryption_state group_id cc st =
     (let block_id = ws_block_id st;
          block_offset = of_nat (length (ws_out st))
      in bindR (seal_payload (ae_crypto env) encryption_state block_id (cc_data cc)) (\<lambda>block_data.
         bindR (u32_try_from (length block_data) ''Block {} compressed size {} exceeds u32::MAX'') (\<lambda>csize.
         bindR (u32_try_from (cc_original_size cc) ''Block {} uncompressed size {} exceeds u32::MAX'') (\<lambda>usize.
           let header = \<lparr>bh_block_id = block_id, bh_solid_group_id = group_id,
                 bh_compression_method = cc_method cc,
                 bh_predictor_state_flag = (\<not> cc_predictor_synced cc),
                 bh_compressed_size = csize, bh_uncompressed_size = usize\<rparr>;
               trailer = \<lparr>bt_content_blake3 = cc_blake3_hash cc\<rparr>;
               out = ws_out st @ block_header_write (ae_crc env) header @ block_data
                       @ block_trailer_write (ae_crc env) trailer;
               total_block_size = BLOCK_HEADER_SIZE + length block_data + BLOCK_TRAILER_SIZE
           in bindR (u32_try_from total_block_size ''Block {} total size {} exceeds u32::MAX'') (\<lambda>tsize.
                let entry = \<lparr>bi_block_id = block_id, bi_archive_offset = block_offset,
                      bi_compressed_size = tsize, bi_uncompressed_size = usize,
                      bi_solid_group_id = group_id\<rparr>
                in if block_id = - 1 then
                     Inl (ResourceLimitExceeded ''Block ID counter overflow (u32::MAX blocks)'')
                   else
                     Inr (st\<lparr>ws_out := out, ws_index := ws_index st @ [entry], ws_block_id := block_id + 1,
                       ws_compressed_size := ws_compressed_size st + of_nat (length block_data)\<rparr>))))))"

definition write_file_blocks ::
    "'s archive_env \<Rightarrow> (encryption_header \<times> bytes) option \<Rightarrow> u32 \<Rightarrow> compressed_file_blocks
      \<Rightarrow> writer_state \<Rightarrow> writer_state result" where
  "write_file_blocks env encryption_state group_id fb st =
     (let es = ws_entries st; i = cf_file_idx fb
      in case cf_dup_of_file_idx fb of
           Some orig \<Rightarrow>
             Inr (st\<lparr>ws_entries := es[i := (es ! i)\<lparr>fe_chunk_start_idx := fe_chunk_start_idx (es ! orig),
                                          fe_chunk_count := fe_chunk_count (es ! orig)\<rparr>]\<rparr>)
         | None \<Rightarrow>
             bindR (u32_try_from (cf_chunk_count fb) ''File {} chunk count {} exceeds u32::MAX'') (\<lambda>n.
             bindR (foldR (write_block env encryption_state group_id) (cf_blocks fb)
                 (st\<lparr>ws_entries := es[i := (es ! i)\<lparr>fe_chunk_start_idx := ws_chunk_idx st, fe_chunk_count := n\<rparr>]\<rparr>))
               (\<lambda>st. Inr (st\<lparr>ws_chunk_idx := ws_chunk_idx st + fe_chunk_count (ws_entries st ! i)\<rparr>))))"

definition write_group ::
    "'s archive_env \<Rightarrow> (encryption_header \<times> bytes) option \<Rightarrow> nat \<times> solid_group \<times> compressed_file_blocks list
      \<Rightarrow> writer_state \<Rightarrow> writer_state result" where
  "write_group env encryption_state g st =
     (let (group_idx, grp, file_results) = g;
          group_first_block = ws_block_id st
      in bindR (foldR (write_file_blocks env encryption_state (gr_group_id grp)) file_results st) (\<lambda>st.
           let gs = ws_groups st
           in Inr (st\<lparr>ws_groups := gs[group_idx := (gs ! group_idx)\<lparr>sg_first_block_idx := group_first_block,
                       sg_block_count := ws_block_id st - group_first_block\<rparr>]\<rparr>)))"

section \<open>The archive\<close>

definition overwrite :: "nat \<Rightarrow> bytes \<Rightarrow> bytes \<Rightarrow> bytes" where
  "overwrite off bs out = take off out @ bs @ drop (off + length bs) out"

record compression_stats =
  cs_original_size :: u64
  cs_compressed_size :: u64
  cs_block_count :: u32
  cs_file_count :: u32
  cs_group_count :: u32

text \<open>Steps 7 to 10, after the last block.\<close>

definition finish_archive ::
    "'s archive_env \<Rightarrow> bool \<Rightarrow> archive_header \<Rightarrow> nat \<Rightarrow> nat \<Rightarrow> writer_state \<Rightarrow> bytes result" where
  "finish_archive env prefixes placeholder_header file_table_pos solid_group_table_pos st =
     (let block_index_offset = of_nat (length (ws_out st));
          out = ws_out st @ concat (map block_index_entry_write (ws_index st));
          footer = \<lparr>af_block_index_offset = block_index_offset, af_file_table_offset = of_nat file_table_pos,
            af_block_count = ws_block_id st, af_file_count = ah_file_count placeholder_header\<rparr>;
          out = out @ archive_footer_write (ae_crc env) footer;
          final_header = placeholder_header\<lparr>ah_block_count := ws_block_id st,
            ah_file_table_offset := of_nat file_table_pos, ah_block_index_offset := block_index_offset\<rparr>;
          out = overwrite 0 (archive_header_write (ae_blake3 env) final_header) out
      in bindR (write_file_table prefixes [] (ws_entries st)) (\<lambda>table.
           let out = overwrite file_table_pos table out
           in Inr (overwrite solid_group_table_pos (write_group_table (ws_groups st)) out)))"

definition compress_to_archive ::
    "'s compress_env \<Rightarrow> 'p compressor \<Rightarrow> input_file list \<Rightarrow> (compression_stats \<times> bytes) run" where
  "compress_to_archive env cp inputs =
     (let ae = co_archive env
      in bindRun (Some (scan_files env inputs 0)) (\<lambda>scanned.
         let datas = map (snd \<circ> snd) scanned;
             groups = group_files (map (fst \<circ> snd) scanned);
             entries = assign_groups groups (map fst scanned);
             prefixes = use_path_prefixes entries
         in bindRun (Some (encryption_setup env (cp_encryption cp))) (\<lambda>encryption_state.
            bindRun (Some (u32_try_from (length entries) ''File count {} exceeds u32::MAX'')) (\<lambda>file_count.
            bindRun (Some (u32_try_from (length groups) ''Solid group count {} exceeds u32::MAX'')) (\<lambda>group_count.
              let header = \<lparr>ah_flags = archive_flags prefixes (cp_dictionary cp \<noteq> None) (encryption_state \<noteq> None),
                    ah_predictor_id = cp_predictor_id cp, ah_file_count = file_count,
                    ah_solid_group_count = group_count, ah_block_count = 0, ah_file_table_offset = 0,
                    ah_block_index_offset = 0\<rparr>;
                  preamble = archive_header_write (ae_blake3 ae) header
                    @ (case encryption_state of Some (h, _) \<Rightarrow> encryption_header_write h | None \<Rightarrow> [])
                    @ (case cp_dictionary cp of Some dict \<Rightarrow> di_hash dict | None \<Rightarrow> [])
              in bindRun (Some (write_file_table prefixes [] entries)) (\<lambda>table.
                 let solid_group_entries = map initial_group_entry groups;
                     out = preamble @ table @ write_group_table solid_group_entries
                 in bindRun (Some (encode_baseline cp)) (\<lambda>baseline.
                    bindRun (compress_groups env cp baseline entries datas groups) (\<lambda>compressed_groups.
                    bindRun (Some (foldR (write_group ae encryption_state)
                        (zip [0..<length groups] (zip groups compressed_groups))
                        \<lparr>ws_out = out, ws_entries = entries, ws_groups = solid_group_entries, ws_index = [],
                         ws_block_id = 0, ws_chunk_idx = 0, ws_compressed_size = 0\<rparr>)) (\<lambda>st.
                    bindRun (Some (finish_archive ae prefixes header (length preamble)
                        (length preamble + length table) st)) (\<lambda>archive.
                      Some (Inr (\<lparr>cs_original_size = of_nat (sum_list (map length datas)),
                                  cs_compressed_size = ws_compressed_size st, cs_block_count = ws_block_id st,
                                  cs_file_count = file_count, cs_group_count = group_count\<rparr>,
                                 archive))))))))))))"

end
