(* ===== verification/Archive.thy ===== *)
theory Archive
  imports Writer
begin

text \<open>
  Writer against reader: what \<open>compress_to_archive\<close> leaves in the output, that \<open>read_metadata\<close>
  accepts it, that every block decodes to its chunk, and that extraction hands every input file to
  the file system.
\<close>

lemma unat_of_nat_u64: "n < 2 ^ 64 \<Longrightarrow> unat (of_nat n :: u64) = n"
  by (simp add: unat_of_nat)

section \<open>Frames at their offsets\<close>

definition frame_at :: "bytes \<Rightarrow> nat \<Rightarrow> bytes \<Rightarrow> bool" where
  "frame_at out off frame \<longleftrightarrow> off \<le> length out \<and> (\<exists>post. drop off out = frame @ post)"

lemma frame_at_append: "frame_at out off f \<Longrightarrow> frame_at (out @ x) off f"
  by (auto simp: frame_at_def)

lemma frame_at_new: "frame_at (out @ f @ x) (length out) f"
  by (simp add: frame_at_def)

lemma frame_at_overwrite:
  "frame_at out off f \<Longrightarrow> a + length bs \<le> off \<Longrightarrow> frame_at (overwrite a bs out) off f"
  by (auto simp: frame_at_def overwrite_def)

lemma length_overwrite: "a + length bs \<le> length out \<Longrightarrow> length (overwrite a bs out) = length out"
  by (simp add: overwrite_def)

lemma overwrite_mid: "length y = length y' \<Longrightarrow> overwrite (length x) y' (x @ y @ z) = x @ y' @ z"
  by (simp add: overwrite_def)

text \<open>The bytes of a block and its index entry, for chunk \<open>k\<close> of the archive.\<close>

definition block_frame ::
    "'s archive_env \<Rightarrow> u32 \<Rightarrow> compressed_chunk \<Rightarrow> nat \<Rightarrow> bytes \<Rightarrow> bytes" where
  "block_frame env gid cc k payload =
     block_header_write (ae_crc env)
       \<lparr>bh_block_id = of_nat k, bh_solid_group_id = gid, bh_compression_method = cc_method cc,
        bh_predictor_state_flag = (\<not> cc_predictor_synced cc), bh_compressed_size = of_nat (length payload),
        bh_uncompressed_size = of_nat (cc_original_size cc)\<rparr>
     @ payload @ block_trailer_write (ae_crc env) \<lparr>bt_content_blake3 = cc_blake3_hash cc\<rparr>"

definition framed ::
    "'s archive_env \<Rightarrow> (encryption_header \<times> bytes) option \<Rightarrow> bytes \<Rightarrow> nat \<Rightarrow> block_index_entry
      \<Rightarrow> u32 \<times> compressed_chunk \<Rightarrow> bool" where
  "framed env es out k entry x \<longleftrightarrow>
     (\<exists>payload off. seal_payload (ae_crypto env) es (of_nat k) (cc_data (snd x)) = Inr payload
        \<and> BLOCK_HEADER_SIZE + length payload + BLOCK_TRAILER_SIZE < 2 ^ 32 \<and> cc_original_size (snd x) < 2 ^ 32
        \<and> entry = \<lparr>bi_block_id = of_nat k, bi_archive_offset = of_nat off,
              bi_compressed_size = of_nat (BLOCK_HEADER_SIZE + length payload + BLOCK_TRAILER_SIZE),
              bi_uncompressed_size = of_nat (cc_original_size (snd x)), bi_solid_group_id = fst x\<rparr>
        \<and> frame_at out off (block_frame env (fst x) (snd x) k payload))"

lemma framed_append: "framed env es out k e x \<Longrightarrow> framed env es (out @ y) k e x"
  unfolding framed_def using frame_at_append by blast

definition all_framed ::
    "'s archive_env \<Rightarrow> (encryption_header \<times> bytes) option \<Rightarrow> bytes \<Rightarrow> block_index_entry list
      \<Rightarrow> (u32 \<times> compressed_chunk) list \<Rightarrow> bool" where
  "all_framed env es out index ccs \<longleftrightarrow>
     length index = length ccs \<and> (\<forall>k < length ccs. framed env es out k (index ! k) (ccs ! k))"

text \<open>The blocks from number \<open>k\<close> on, one after the other.\<close>

fun frames ::
    "'s archive_env \<Rightarrow> nat \<Rightarrow> (u32 \<times> compressed_chunk) list \<Rightarrow> bytes list \<Rightarrow> bytes" where
  "frames env k ((gid, cc) # ccs) (payload # payloads) =
     block_frame env gid cc k payload @ frames env (Suc k) ccs payloads"
| "frames env k _ _ = []"

definition sealed ::
    "'s archive_env \<Rightarrow> (encryption_header \<times> bytes) option \<Rightarrow> (u32 \<times> compressed_chunk) list \<Rightarrow> bytes list \<Rightarrow> bool" where
  "sealed env es ccs payloads \<longleftrightarrow>
     length payloads = length ccs
     \<and> (\<forall>k < length ccs. seal_payload (ae_crypto env) es (of_nat k) (cc_data (snd (ccs ! k))) = Inr (payloads ! k))"

lemma frames_snoc:
  "length payloads = length ccs \<Longrightarrow>
   frames env k (ccs @ [(gid, cc)]) (payloads @ [payload]) =
     frames env k ccs payloads @ block_frame env gid cc (k + length ccs) payload"
  by (induction env k ccs payloads rule: frames.induct) auto

text \<open>The writer's state after the blocks \<open>ccs\<close>, on top of the bytes \<open>base\<close> written before.\<close>

definition wrote ::
    "'s archive_env \<Rightarrow> (encryption_header \<times> bytes) option \<Rightarrow> bytes \<Rightarrow> (u32 \<times> compressed_chunk) list
      \<Rightarrow> writer_state \<Rightarrow> bool" where
  "wrote env es base ccs st \<longleftrightarrow>
     all_framed env es (ws_out st) (ws_index st) ccs \<and> unat (ws_block_id st) = length ccs
     \<and> (\<exists>payloads. ws_out st = base @ frames env 0 ccs payloads \<and> sealed env es ccs payloads)
     \<and> (\<forall>e \<in> set (ws_index st). \<exists>off. bi_archive_offset e = of_nat off \<and> length base \<le> off
          \<and> off \<le> length (ws_out st))"

lemma u32_try_from_Inr: "u32_try_from n msg = Inr w \<longleftrightarrow> n < 2 ^ 32 \<and> w = of_nat n"
  by (auto simp: u32_try_from_def)

lemma write_block_Inr:
  assumes "write_block env es gid cc st = Inr st'" "wrote env es base ccs st"
  shows "wrote env es base (ccs @ [(gid, cc)]) st'
    \<and> ws_entries st' = ws_entries st \<and> ws_groups st' = ws_groups st \<and> ws_chunk_idx st' = ws_chunk_idx st
    \<and> ws_block_id st' = ws_block_id st + 1"
proof -
  let ?k = "length ccs" and ?id = "ws_block_id st"
  have id: "?id = of_nat ?k" using assms(2) unfolding wrote_def by (metis word_unat_eq_iff unat_of_nat unsigned_less mod_less)
  obtain payload where p: "seal_payload (ae_crypto env) es ?id (cc_data cc) = Inr payload"
      "length payload < 2 ^ 32" "cc_original_size cc < 2 ^ 32"
      "BLOCK_HEADER_SIZE + length payload + BLOCK_TRAILER_SIZE < 2 ^ 32" "?id \<noteq> - 1"
    and st': "st' = st\<lparr>ws_out := ws_out st @ block_frame env gid cc ?k payload,
        ws_index := ws_index st @ [\<lparr>bi_block_id = of_nat ?k, bi_archive_offset = of_nat (length (ws_out st)),
              bi_compressed_size = of_nat (BLOCK_HEADER_SIZE + length payload + BLOCK_TRAILER_SIZE),
              bi_uncompressed_size = of_nat (cc_original_size cc), bi_solid_group_id = gid\<rparr>],
        ws_block_id := ?id + 1, ws_compressed_size := ws_compressed_size st + of_nat (length payload)\<rparr>"
    using assms(1)
    by (auto simp: write_block_def Let_def u32_try_from_Inr block_frame_def id split: if_splits)
  have new: "framed env es (ws_out st') ?k (ws_index st' ! ?k) (gid, cc)"
    using p assms(2) frame_at_new [of "ws_out st" "block_frame env gid cc ?k payload" "[]"]
    by (auto simp: framed_def st' id wrote_def all_framed_def nth_append)
  have old: "framed env es (ws_out st') k (ws_index st' ! k) (ccs ! k)" if "k < ?k" for k
  proof -
    have "framed env es (ws_out st) k (ws_index st ! k) (ccs ! k)" "length (ws_index st) = ?k"
      using assms(2) that by (simp_all add: wrote_def all_framed_def)
    then show ?thesis using that framed_append by (simp add: st' nth_append)
  qed
  have "all_framed env es (ws_out st') (ws_index st') (ccs @ [(gid, cc)])"
    using new old assms(2) by (auto simp: all_framed_def nth_append less_Suc_eq wrote_def st')
  moreover have "unat (ws_block_id st') = length (ccs @ [(gid, cc)])"
  proof -
    have "unat (?id + 1) = unat ?id + 1" using p(5) using unatSuc [of ?id] by (metis Suc_eq_plus1 add.commute add_eq_0_iff)
    then show ?thesis using assms(2) by (simp add: st' wrote_def)
  qed
  moreover have "\<exists>payloads. ws_out st' = base @ frames env 0 (ccs @ [(gid, cc)]) payloads
      \<and> sealed env es (ccs @ [(gid, cc)]) payloads"
  proof -
    obtain ps where "ws_out st = base @ frames env 0 ccs ps" "sealed env es ccs ps"
      using assms(2) by (auto simp: wrote_def)
    then show ?thesis
      using p(1) by (intro exI [of _ "ps @ [payload]"])
        (auto simp: st' sealed_def frames_snoc nth_append id less_Suc_eq)
  qed
  moreover have "\<forall>e \<in> set (ws_index st'). \<exists>off. bi_archive_offset e = of_nat off \<and> length base \<le> off
      \<and> off \<le> length (ws_out st')"
  proof
    fix e assume "e \<in> set (ws_index st')"
    then have "e \<in> set (ws_index st) \<or> bi_archive_offset e = of_nat (length (ws_out st))" by (auto simp: st')
    then show "\<exists>off. bi_archive_offset e = of_nat off \<and> length base \<le> off \<and> off \<le> length (ws_out st')"
      using assms(2) by (auto simp: wrote_def st' intro!: trans_le_add1)
  qed
  ultimately show ?thesis by (simp add: wrote_def st')
qed

lemma write_blocks_Inr:
  assumes "foldR (write_block env es gid) bs st = Inr st'" "wrote env es base ccs st"
  shows "wrote env es base (ccs @ map (Pair gid) bs) st'
    \<and> ws_entries st' = ws_entries st \<and> ws_groups st' = ws_groups st \<and> ws_chunk_idx st' = ws_chunk_idx st
    \<and> ws_block_id st' = ws_block_id st + of_nat (length bs)"
  using assms
proof (induction bs arbitrary: st ccs)
  case (Cons b bs)
  obtain mid where m: "write_block env es gid b st = Inr mid" "foldR (write_block env es gid) bs mid = Inr st'"
    using Cons.prems(1) by auto
  note w = write_block_Inr [OF m(1) Cons.prems(2)]
  from Cons.IH [OF m(2), of "ccs @ [(gid, b)]"] w show ?case by (simp add: add.assoc)
qed simp

section \<open>Which blocks a file owns\<close>

definition entry_holds :: "(u32 \<times> compressed_chunk) list \<Rightarrow> file_entry \<Rightarrow> compressed_chunk list \<Rightarrow> bool" where
  "entry_holds ccs e bs \<longleftrightarrow>
     entry_stop e \<le> length ccs \<and> map snd (drop (entry_start e) (take (entry_stop e) ccs)) = bs"

lemma entry_holds_append: "entry_holds ccs e bs \<Longrightarrow> entry_holds (ccs @ ys) e bs"
  by (auto simp: entry_holds_def)

definition file_key :: "file_entry \<Rightarrow> bytes \<times> u64" where
  "file_key e = (fe_blake3_hash e, fe_original_size e)"

definition erase_chunks :: "file_entry \<Rightarrow> file_entry" where
  "erase_chunks e = e\<lparr>fe_chunk_start_idx := 0, fe_chunk_count := 0\<rparr>"

lemma erase_chunks_eq:
  assumes "erase_chunks a = erase_chunks b"
  shows "fe_path a = fe_path b" "fe_original_size a = fe_original_size b" "fe_blake3_hash a = fe_blake3_hash b"
    "fe_solid_group_id a = fe_solid_group_id b" "fe_permissions a = fe_permissions b" "fe_mtime a = fe_mtime b"
  using assms by (cases a; cases b; simp add: erase_chunks_def)+

lemma mapRun_list_all2: "mapRun f xs = Some (Inr ys) \<Longrightarrow> list_all2 (\<lambda>x y. f x = Some (Inr y)) xs ys"
  by (induction xs arbitrary: ys) (auto simp: bindRun_Inr_iff)

definition stored ::
    "'s compress_env \<Rightarrow> compression_profile \<Rightarrow> bytes option \<Rightarrow> (u32 \<times> compressed_chunk) list
      \<Rightarrow> file_entry \<Rightarrow> bytes \<Rightarrow> bool" where
  "stored co profile baseline ccs e data \<longleftrightarrow>
     (\<exists>cks bs ct. file_chunks (co_fastcdc co) (ae_blake3 (co_archive co)) (env_entropy (ae_router (co_archive co))) data
          = Some cks
        \<and> list_all2 (\<lambda>ck cc. compress_chunk_with_baseline (ae_router (co_archive co)) ck baseline ct profile
              = Some (Inr cc)) cks bs
        \<and> entry_holds ccs e bs)"

lemma stored_append: "stored co profile baseline ccs e data \<Longrightarrow> stored co profile baseline (ccs @ ys) e data"
  unfolding stored_def using entry_holds_append by blast

lemma stored_cong:
  "stored co profile baseline ccs e data \<Longrightarrow> fe_chunk_start_idx e' = fe_chunk_start_idx e \<Longrightarrow>
   fe_chunk_count e' = fe_chunk_count e \<Longrightarrow> stored co profile baseline ccs e' data"
  by (simp add: stored_def entry_holds_def entry_start_def entry_stop_def)

definition coded :: "'s compress_env \<Rightarrow> compression_profile \<Rightarrow> bytes option \<Rightarrow> compressed_chunk \<Rightarrow> bool" where
  "coded co profile baseline cc \<longleftrightarrow>
     (\<exists>ck ct. ch_length ck = length (ch_data ck) \<and> ch_length ck \<le> MAX_CHUNK_SIZE
        \<and> ch_blake3_hash ck = ae_blake3 (co_archive co) (ch_data ck)
        \<and> compress_chunk_with_baseline (ae_router (co_archive co)) ck baseline ct profile = Some (Inr cc))"

text \<open>
  The file table against the blocks written so far: every file of \<open>done\<close> owns the blocks of a file
  with the same hash and size, itself or the file it duplicates.
\<close>

definition booked ::
    "'s compress_env \<Rightarrow> compression_profile \<Rightarrow> bytes option \<Rightarrow> file_entry list \<Rightarrow> bytes list \<Rightarrow> nat set
      \<Rightarrow> (u32 \<times> compressed_chunk) list \<Rightarrow> writer_state \<Rightarrow> bool" where
  "booked co profile baseline E0 datas finished ccs st \<longleftrightarrow>
     ws_chunk_idx st = ws_block_id st \<and> map erase_chunks (ws_entries st) = map erase_chunks E0
     \<and> finished \<subseteq> {..<length E0}
     \<and> (\<forall>i \<in> finished. \<exists>j < length E0. file_key (E0 ! j) = file_key (E0 ! i)
          \<and> stored co profile baseline ccs (ws_entries st ! i) (datas ! j))
     \<and> sum_list (map (\<lambda>x. cc_original_size (snd x)) ccs) \<le> (\<Sum>i \<in> finished. length (datas ! i))
     \<and> (\<forall>x \<in> set ccs. coded co profile baseline (snd x))"

lemma booked_length: "booked co profile baseline E0 datas finished ccs st \<Longrightarrow> length (ws_entries st) = length E0"
  unfolding booked_def by (metis length_map)

lemma erase_chunks_update:
  assumes "map erase_chunks es = map erase_chunks E0" "erase_chunks e = erase_chunks (es ! i)"
  shows "map erase_chunks (es[i := e]) = map erase_chunks E0"
  using assms by (metis list_update_beyond list_update_id map_update not_le)

locale writer_contract =
  archive_contract "co_archive co" good cdf
  for co :: "'s compress_env" and good :: "'s \<Rightarrow> bool" and cdf :: "'s \<Rightarrow> u16 list" +
  assumes fastcdc: "fastcdc_ok (co_fastcdc co)"
    and salt_len: "length (co_salt co) = SALT_SIZE"
    and nonce_len: "length (co_nonce co) = NONCE_SIZE"
begin

abbreviation chunks_of :: "bytes \<Rightarrow> chunk_ref list option" where
  "chunks_of \<equiv> file_chunks (co_fastcdc co) (ae_blake3 (co_archive co)) (env_entropy (ae_router (co_archive co)))"

lemma chunks_of_cover:
  assumes "chunks_of data = Some cks"
  shows "chunks_cover data 0 cks \<and> (\<forall>c \<in> set cks. ch_length c = length (ch_data c) \<and> ch_length c \<le> MAX_CHUNK_SIZE
      \<and> ch_blake3_hash c = ae_blake3 (co_archive co) (ch_data c))"
proof (cases "length data < MIN_CHUNK_SIZE")
  case True
  have pos: "0 < AVG_CHUNK_SIZE" by (simp add: AVG_CHUNK_SIZE_def)
  obtain cs where cs: "chunk_fixed_from (ae_blake3 (co_archive co)) (env_entropy (ae_router (co_archive co))) data AVG_CHUNK_SIZE 0
        = Some cs" "chunks_cover data 0 cs"
      "\<forall>c \<in> set cs. ch_length c \<le> AVG_CHUNK_SIZE \<and> ch_blake3_hash c = ae_blake3 (co_archive co) (ch_data c)
         \<and> ch_entropy c = env_entropy (ae_router (co_archive co)) (ch_data c)"
    using chunk_fixed_from_cover [OF pos, of 0 data] by blast
  have "AVG_CHUNK_SIZE \<le> MAX_CHUNK_SIZE" by (simp add: AVG_CHUNK_SIZE_def MAX_CHUNK_SIZE_def)
  moreover have "cks = cs" using assms True cs(1) by (simp add: file_chunks_def chunk_fixed_refs_def)
  ultimately show ?thesis
    using cs(2,3) chunks_cover_length [OF cs(2)] order_trans by metis
next
  case False
  then have "cks = chunk_data_refs (co_fastcdc co) (ae_blake3 (co_archive co)) (env_entropy (ae_router (co_archive co))) data"
    using assms by (simp add: file_chunks_def)
  then show ?thesis using chunk_data_refs_cover [OF fastcdc] chunks_cover_length by blast
qed

lemma chunk_small: "ch_length c \<le> MAX_CHUNK_SIZE \<Longrightarrow> ch_length c \<le> MAX_DECOMPRESSED_BLOCK_SIZE"
  by (simp add: MAX_CHUNK_SIZE_def MAX_DECOMPRESSED_BLOCK_SIZE_def)

text \<open>The blocks of a file, decoded one by one, are its chunks.\<close>

lemma compressed_chunks:
  assumes "chunks_of data = Some cks"
    and "list_all2 (\<lambda>ck cc. compress_chunk_with_baseline (ae_router (co_archive co)) ck b ct profile = Some (Inr cc)) cks bs"
  shows "concat (map ch_data cks) = data
    \<and> list_all2 (\<lambda>ck cc. decompress_chunk_with_baseline (ae_router (co_archive co)) (cc_data cc) (cc_method cc)
          (cc_original_size cc) b = Some (Inr (ch_data ck))
        \<and> length (cc_data cc) \<le> cc_original_size cc \<and> cc_original_size cc = length (ch_data ck)
        \<and> cc_original_size cc \<le> MAX_CHUNK_SIZE \<and> cc_blake3_hash cc = ae_blake3 (co_archive co) (ch_data ck)) cks bs"
proof -
  note c = chunks_of_cover [OF assms(1)]
  have "list_all2 (\<lambda>ck cc. decompress_chunk_with_baseline (ae_router (co_archive co)) (cc_data cc) (cc_method cc)
          (cc_original_size cc) b = Some (Inr (ch_data ck))
        \<and> length (cc_data cc) \<le> cc_original_size cc \<and> cc_original_size cc = length (ch_data ck)
        \<and> cc_original_size cc \<le> MAX_CHUNK_SIZE \<and> cc_blake3_hash cc = ae_blake3 (co_archive co) (ch_data ck)) cks bs"
  proof (rule list_all2_all_nthI)
    show "length cks = length bs" using assms(2) by (rule list_all2_lengthD)
    fix k assume k: "k < length cks"
    have ck: "ch_length (cks ! k) = length (ch_data (cks ! k))" "ch_length (cks ! k) \<le> MAX_CHUNK_SIZE"
        "ch_blake3_hash (cks ! k) = ae_blake3 (co_archive co) (ch_data (cks ! k))"
      using c nth_mem [OF k] by metis+
    note rt = router.compress_chunk_round_trip [OF list_all2_nthD [OF assms(2) k] ck(1) chunk_small [OF ck(2)]]
    show "decompress_chunk_with_baseline (ae_router (co_archive co)) (cc_data (bs ! k)) (cc_method (bs ! k))
          (cc_original_size (bs ! k)) b = Some (Inr (ch_data (cks ! k)))
        \<and> length (cc_data (bs ! k)) \<le> cc_original_size (bs ! k) \<and> cc_original_size (bs ! k) = length (ch_data (cks ! k))
        \<and> cc_original_size (bs ! k) \<le> MAX_CHUNK_SIZE
        \<and> cc_blake3_hash (bs ! k) = ae_blake3 (co_archive co) (ch_data (cks ! k))"
      using rt ck by (elim conjE) simp
  qed
  moreover have "concat (map ch_data cks) = data" using chunks_cover_concat [of data 0 cks] c by simp
  ultimately show ?thesis by blast
qed

lemma compressed_sizes:
  assumes "chunks_of data = Some cks"
    and "list_all2 (\<lambda>ck cc. compress_chunk_with_baseline (ae_router (co_archive co)) ck b ct profile = Some (Inr cc)) cks bs"
  shows "sum_list (map cc_original_size bs) = length data"
proof -
  note c = compressed_chunks [OF assms]
  have "map cc_original_size bs = map (\<lambda>ck. length (ch_data ck)) cks"
  proof (rule nth_equalityI)
    show len: "length (map cc_original_size bs) = length (map (\<lambda>ck. length (ch_data ck)) cks)"
      using assms(2) by (simp add: list_all2_lengthD)
    fix k assume "k < length (map cc_original_size bs)"
    then have "k < length cks" "k < length bs" using len by simp_all
    then show "map cc_original_size bs ! k = map (\<lambda>ck. length (ch_data ck)) cks ! k"
      using list_all2_nthD [OF conjunct2 [OF c], of k] by simp
  qed
  then have "sum_list (map cc_original_size bs) = length (concat (map ch_data cks))"
    by (simp add: length_concat comp_def)
  then show ?thesis using c by simp
qed

lemma chunks_coded:
  assumes "chunks_of data = Some cks"
    and "list_all2 (\<lambda>ck cc. compress_chunk_with_baseline (ae_router (co_archive co)) ck b ct profile = Some (Inr cc)) cks bs"
  shows "\<forall>cc \<in> set bs. coded co profile b cc"
proof
  fix cc assume "cc \<in> set bs"
  then obtain k where k: "k < length bs" "cc = bs ! k" by (metis in_set_conv_nth)
  then have k': "k < length cks" using list_all2_lengthD [OF assms(2)] by simp
  note nth = list_all2_nthD [OF assms(2) k'] nth_mem [OF k']
  show "coded co profile b cc"
    unfolding coded_def k(2) using chunks_of_cover [OF assms(1)] nth by blast
qed

text \<open>A new file is written and booked.\<close>

lemma write_new_file:
  assumes cks: "chunks_of (datas ! i) = Some cks"
    and bs: "mapRun (\<lambda>ck. compress_chunk_with_baseline (ae_router (co_archive co)) ck b ct profile) cks = Some (Inr bs)"
    and w: "write_file_blocks (co_archive co) es gid \<lparr>cf_file_idx = i, cf_chunk_count = length cks, cf_blocks = bs,
        cf_dup_of_file_idx = None\<rparr> st = Inr st'"
    and st: "wrote (co_archive co) es base ccs st" "booked co profile b E0 datas F ccs st"
    and i: "i \<notin> F" "i < length E0"
  shows "wrote (co_archive co) es base (ccs @ map (Pair gid) bs) st'
    \<and> booked co profile b E0 datas (insert i F) (ccs @ map (Pair gid) bs) st' \<and> ws_groups st' = ws_groups st"
proof -
  let ?e = "(ws_entries st ! i)\<lparr>fe_chunk_start_idx := ws_chunk_idx st, fe_chunk_count := of_nat (length cks)\<rparr>"
  let ?st1 = "st\<lparr>ws_entries := (ws_entries st)[i := ?e]\<rparr>"
  obtain st2 where n: "length cks < 2 ^ 32"
    and s2: "foldR (write_block (co_archive co) es gid) bs ?st1 = Inr st2"
      "st' = st2\<lparr>ws_chunk_idx := ws_chunk_idx st2 + fe_chunk_count (ws_entries st2 ! i)\<rparr>"
    using w by (auto simp: write_file_blocks_def Let_def u32_try_from_Inr)
  note all2 = mapRun_list_all2 [OF bs]
  have len: "length bs = length cks" using all2 by (simp add: list_all2_lengthD)
  have "wrote (co_archive co) es base ccs ?st1" using st(1) by (simp add: wrote_def)
  note wb = write_blocks_Inr [OF s2(1) this]
  let ?ccs = "ccs @ map (Pair gid) bs"
  have entries: "ws_entries st' = (ws_entries st)[i := ?e]" using wb s2(2) by simp
  have lenE: "length (ws_entries st) = length E0" by (rule booked_length [OF st(2)])
  have "wrote (co_archive co) es base ?ccs st2" using wb by blast
  then have wrote: "wrote (co_archive co) es base ?ccs st'" by (simp add: s2(2) wrote_def)
  have idx: "ws_chunk_idx st = ws_block_id st" "unat (ws_block_id st) = length ccs"
    using st by (simp_all add: booked_def wrote_def)
  have "entry_holds ?ccs ?e bs"
    using n len idx by (simp add: entry_holds_def entry_start_def entry_stop_def unat_of_nat comp_def)
  then have own: "stored co profile b ?ccs (ws_entries st' ! i) (datas ! i)"
    using cks all2 i(2) lenE unfolding stored_def entries by auto
  have "\<exists>j < length E0. file_key (E0 ! j) = file_key (E0 ! m)
      \<and> stored co profile b ?ccs (ws_entries st' ! m) (datas ! j)" if m: "m \<in> insert i F" for m
  proof (cases "m = i")
    case True
    then show ?thesis using own i(2) by auto
  next
    case False
    then obtain j where "j < length E0" "file_key (E0 ! j) = file_key (E0 ! m)"
        "stored co profile b ccs (ws_entries st ! m) (datas ! j)"
      using m st(2) unfolding booked_def by auto
    then show ?thesis
      using False stored_append [of co profile b ccs "ws_entries st ! m" _ "map (Pair gid) bs"] unfolding entries by auto
  qed
  moreover have "map erase_chunks (ws_entries st') = map erase_chunks E0"
    unfolding entries using st(2) by (intro erase_chunks_update) (simp_all add: booked_def erase_chunks_def)
  moreover have "ws_chunk_idx st' = ws_block_id st'"
    using wb s2(2) entries i(2) lenE idx(1) len by simp
  moreover have "sum_list (map (\<lambda>x. cc_original_size (snd x)) ?ccs) \<le> (\<Sum>m \<in> insert i F. length (datas ! m))"
  proof -
    have "finite F" using st(2) finite_subset unfolding booked_def by blast
    then show ?thesis
      using compressed_sizes [OF cks all2] st(2) i(1) by (simp add: booked_def comp_def)
  qed
  moreover have "\<forall>x \<in> set ?ccs. coded co profile b (snd x)"
    using st(2) chunks_coded [OF cks all2] by (auto simp: booked_def)
  ultimately have "booked co profile b E0 datas (insert i F) ?ccs st'"
    using st(2) i(2) by (simp add: booked_def)
  then show ?thesis using wrote wb s2(2) by simp
qed

text \<open>A duplicate takes over the block range of the file it duplicates.\<close>

lemma write_dup_file:
  assumes w: "write_file_blocks (co_archive co) es gid \<lparr>cf_file_idx = i, cf_chunk_count = 0, cf_blocks = [],
        cf_dup_of_file_idx = Some orig\<rparr> st = Inr st'"
    and st: "wrote (co_archive co) es base ccs st" "booked co profile b E0 datas F ccs st"
    and i: "i \<notin> F" "i < length E0" "orig \<in> F" "file_key (E0 ! orig) = file_key (E0 ! i)"
  shows "wrote (co_archive co) es base ccs st'
    \<and> booked co profile b E0 datas (insert i F) ccs st' \<and> ws_groups st' = ws_groups st"
proof -
  let ?o = "ws_entries st ! orig"
  let ?e = "(ws_entries st ! i)\<lparr>fe_chunk_start_idx := fe_chunk_start_idx ?o, fe_chunk_count := fe_chunk_count ?o\<rparr>"
  have st': "st' = st\<lparr>ws_entries := (ws_entries st)[i := ?e]\<rparr>"
    using w by (simp add: write_file_blocks_def Let_def)
  have lenE: "length (ws_entries st) = length E0" by (rule booked_length [OF st(2)])
  have "\<exists>j < length E0. file_key (E0 ! j) = file_key (E0 ! m)
      \<and> stored co profile b ccs (ws_entries st' ! m) (datas ! j)" if m: "m \<in> insert i F" for m
  proof (cases "m = i")
    case True
    obtain j where "j < length E0" "file_key (E0 ! j) = file_key (E0 ! orig)"
        "stored co profile b ccs ?o (datas ! j)"
      using i(3) st(2) unfolding booked_def by auto
    then show ?thesis using True i(2,4) lenE stored_cong [of co profile b ccs ?o _ ?e] by (auto simp: st')
  next
    case False
    then show ?thesis using m st(2) unfolding booked_def by (auto simp: st')
  qed
  moreover have "map erase_chunks (ws_entries st') = map erase_chunks E0"
    using st(2) erase_chunks_update [of "ws_entries st" E0 ?e i] by (simp add: st' booked_def erase_chunks_def)
  moreover have "sum_list (map (\<lambda>x. cc_original_size (snd x)) ccs) \<le> (\<Sum>m \<in> insert i F. length (datas ! m))"
  proof -
    have "finite F" using st(2) finite_subset unfolding booked_def by blast
    then show ?thesis using st(2) i(1) by (simp add: booked_def trans_le_add2)
  qed
  ultimately have "booked co profile b E0 datas (insert i F) ccs st'"
    using st(2) i(2) by (simp add: booked_def st')
  then show ?thesis using st(1) by (simp add: wrote_def st')
qed

text \<open>All files of a group, with the table of files seen.\<close>

lemma write_group_files:
  assumes "compress_group_files co profile b ct E0 datas idxs seen = Some (Inr results)"
    and "foldR (write_file_blocks (co_archive co) es gid) results st = Inr st'"
    and "wrote (co_archive co) es base ccs st" "booked co profile b E0 datas F ccs st"
    and "distinct idxs" "set idxs \<inter> F = {}" "set idxs \<subseteq> {..<length E0}"
    and "\<forall>key orig. map_of seen key = Some orig \<longrightarrow> orig \<in> F \<and> file_key (E0 ! orig) = key"
  shows "\<exists>ccs'. wrote (co_archive co) es base (ccs @ ccs') st'
    \<and> booked co profile b E0 datas (F \<union> set idxs) (ccs @ ccs') st' \<and> ws_groups st' = ws_groups st"
  using assms
proof (induction idxs arbitrary: seen results st ccs F)
  case Nil
  then have "st' = st" by simp
  then show ?case using Nil.prems(3,4) by (intro exI [of _ "[]"]) simp
next
  case (Cons i idxs)
  have i: "i \<notin> F" "i < length E0" "distinct idxs" "set idxs \<inter> insert i F = {}" "set idxs \<subseteq> {..<length E0}"
    using Cons.prems(5-7) by auto
  show ?case
  proof (cases "map_of seen (file_key (E0 ! i))")
    case (Some orig)
    obtain rest st1 where r: "compress_group_files co profile b ct E0 datas idxs seen = Some (Inr rest)"
        "write_file_blocks (co_archive co) es gid \<lparr>cf_file_idx = i, cf_chunk_count = 0, cf_blocks = [],
          cf_dup_of_file_idx = Some orig\<rparr> st = Inr st1"
        "foldR (write_file_blocks (co_archive co) es gid) rest st1 = Inr st'"
      using Cons.prems(1,2) Some by (auto simp: Let_def bindRun_Inr_iff file_key_def)
    have o: "orig \<in> F" "file_key (E0 ! orig) = file_key (E0 ! i)" using Cons.prems(8) Some by blast+
    note d = write_dup_file [OF r(2) Cons.prems(3,4) i(1,2) o]
    have d1: "wrote (co_archive co) es base ccs st1" "booked co profile b E0 datas (insert i F) ccs st1"
      using d by blast+
    have seen: "\<forall>key orig. map_of seen key = Some orig \<longrightarrow> orig \<in> insert i F \<and> file_key (E0 ! orig) = key"
      using Cons.prems(8) by blast
    have "insert i F \<union> set idxs = F \<union> set (i # idxs)" by simp
    then show ?thesis using Cons.IH [OF r(1,3) d1 i(3-5) seen] d by metis
  next
    case None
    obtain cks bs rest st1 where r: "chunks_of (datas ! i) = Some cks"
        "mapRun (\<lambda>ck. compress_chunk_with_baseline (ae_router (co_archive co)) ck b ct profile) cks = Some (Inr bs)"
        "compress_group_files co profile b ct E0 datas idxs ((file_key (E0 ! i), i) # seen) = Some (Inr rest)"
        "write_file_blocks (co_archive co) es gid \<lparr>cf_file_idx = i, cf_chunk_count = length cks, cf_blocks = bs,
          cf_dup_of_file_idx = None\<rparr> st = Inr st1"
        "foldR (write_file_blocks (co_archive co) es gid) rest st1 = Inr st'"
      using Cons.prems(1,2) None by (auto simp: Let_def bindRun_Inr_iff bind_eq_Some_conv file_key_def)
    note n = write_new_file [OF r(1,2,4) Cons.prems(3,4) i(1,2)]
    let ?ccs = "ccs @ map (Pair gid) bs"
    have n1: "wrote (co_archive co) es base ?ccs st1" "booked co profile b E0 datas (insert i F) ?ccs st1"
      using n by blast+
    have seen: "\<forall>key orig. map_of ((file_key (E0 ! i), i) # seen) key = Some orig
        \<longrightarrow> orig \<in> insert i F \<and> file_key (E0 ! orig) = key"
    proof (intro allI impI)
      fix key orig assume m: "map_of ((file_key (E0 ! i), i) # seen) key = Some orig"
      show "orig \<in> insert i F \<and> file_key (E0 ! orig) = key"
      proof (cases "key = file_key (E0 ! i)")
        case False
        then have "map_of seen key = Some orig" using m by simp
        then show ?thesis using Cons.prems(8) by blast
      qed (use m in simp)
    qed
    obtain ccs' where "wrote (co_archive co) es base (?ccs @ ccs') st'"
        "booked co profile b E0 datas (insert i F \<union> set idxs) (?ccs @ ccs') st'" "ws_groups st' = ws_groups st"
      using Cons.IH [OF r(3,5) n1 i(3-5) seen] n by metis
    then show ?thesis by (intro exI [of _ "map (Pair gid) bs @ ccs'"]) simp
  qed
qed

text \<open>All groups: every file is in exactly one of them.\<close>

lemma write_groups:
  assumes "mapRun (compress_group co profile b E0 datas) groups = Some (Inr cgs)"
    and "foldR (write_group (co_archive co) es) (zip [n..<n + length groups] (zip groups cgs)) st = Inr st'"
    and "wrote (co_archive co) es base ccs st" "booked co profile b E0 datas F ccs st"
    and "distinct (concat (map gr_file_indices groups))" "set (concat (map gr_file_indices groups)) \<inter> F = {}"
    and "set (concat (map gr_file_indices groups)) \<subseteq> {..<length E0}"
  shows "\<exists>ccs'. wrote (co_archive co) es base (ccs @ ccs') st'
    \<and> booked co profile b E0 datas (F \<union> set (concat (map gr_file_indices groups))) (ccs @ ccs') st'
    \<and> length (ws_groups st') = length (ws_groups st)"
  using assms
proof (induction groups arbitrary: cgs n st ccs F)
  case Nil
  then have "st' = st" by simp
  then show ?case using Nil.prems(3,4) by (intro exI [of _ "[]"]) simp
next
  case (Cons g groups)
  obtain c cgs' where c: "compress_group co profile b E0 datas g = Some (Inr c)"
      "mapRun (compress_group co profile b E0 datas) groups = Some (Inr cgs')" "cgs = c # cgs'"
    using Cons.prems(1) by (auto simp: bindRun_Inr_iff)
  have z: "zip [n..<n + length (g # groups)] (zip (g # groups) cgs)
      = (n, g, c) # zip [Suc n..<Suc n + length groups] (zip groups cgs')"
    by (simp add: c(3) upt_rec)
  obtain st1 where s1: "write_group (co_archive co) es (n, g, c) st = Inr st1"
      "foldR (write_group (co_archive co) es) (zip [Suc n..<Suc n + length groups] (zip groups cgs')) st1 = Inr st'"
    using Cons.prems(2) unfolding z by auto
  obtain st0 gs where s0: "foldR (write_file_blocks (co_archive co) es (gr_group_id g)) c st = Inr st0"
      "st1 = st0\<lparr>ws_groups := gs\<rparr>" "length gs = length (ws_groups st0)"
    using s1(1) by (auto simp: write_group_def Let_def)
  obtain ccs1 where w: "wrote (co_archive co) es base (ccs @ ccs1) st0"
      "booked co profile b E0 datas (F \<union> set (gr_file_indices g)) (ccs @ ccs1) st0" "ws_groups st0 = ws_groups st"
    using write_group_files [OF c(1) [unfolded compress_group_def] s0(1) Cons.prems(3,4)] Cons.prems(5-7) by auto
  have disj: "set (concat (map gr_file_indices groups)) \<inter> (F \<union> set (gr_file_indices g)) = {}"
    using Cons.prems(5,6) by auto
  have w1: "wrote (co_archive co) es base (ccs @ ccs1) st1"
      "booked co profile b E0 datas (F \<union> set (gr_file_indices g)) (ccs @ ccs1) st1"
    using w(1,2) by (simp_all add: s0(2) wrote_def booked_def)
  obtain ccs2 where "wrote (co_archive co) es base ((ccs @ ccs1) @ ccs2) st'"
      "booked co profile b E0 datas (F \<union> set (gr_file_indices g) \<union> set (concat (map gr_file_indices groups)))
        ((ccs @ ccs1) @ ccs2) st'" "length (ws_groups st') = length (ws_groups st1)"
    using Cons.IH [OF c(2) s1(2) w1 _ disj] Cons.prems(5,7) by auto
  then show ?case
    using s0 w(3) by (intro exI [of _ "ccs1 @ ccs2"]) (simp add: Un_assoc)
qed

end

end
