(* ===== verification/Streaming.thy ===== *)
theory Streaming
  imports Seekable
begin

text \<open>
  The streaming reader, \<open>src/aether-core/src/pipeline/decompress_streaming.rs\<close>, for archives that
  come through a pipe: the header, the tables and the blocks are read in the order they are stored,
  footer and block index are not looked at. A stream is the bytes that are still to come; every
  operation returns the rest.

  The lemmas: extraction and verification return on every stream; verification is clean exactly
  when every block decodes; and a block that the seekable reader decodes at its offset is the block
  the stream decodes when it stands there.
\<close>

section \<open>Metadata\<close>

record streaming_metadata =
  sm_header :: archive_header
  sm_file_entries :: "file_entry list"
  sm_solid_groups :: "solid_group_entry list"
  sm_encryption_header :: "encryption_header option"
  sm_dictionary_hash :: "bytes option"

definition read_metadata_streaming :: "'s archive_env \<Rightarrow> streaming_metadata reader" where
  "read_metadata_streaming env s =
     bindR (archive_header_read (ae_blake3 env) s) (\<lambda>(header, s).
     if ah_file_count header > MAX_FILE_COUNT then
       Inl (ResourceLimitExceeded ''Archive claims {} files, exceeding limit of {}'')
     else if ah_block_count header > MAX_BLOCK_COUNT then
       Inl (ResourceLimitExceeded ''Archive claims {} blocks, exceeding limit of {}'')
     else if ah_solid_group_count header > MAX_SOLID_GROUP_COUNT then
       Inl (ResourceLimitExceeded ''Archive claims {} solid groups, exceeding limit of {}'')
     else
     bindR (read_optional (ah_flags header AND FLAG_ENCRYPTED \<noteq> 0) encryption_header_read s)
       (\<lambda>(encryption_header, s).
     bindR (read_optional (ah_flags header AND FLAG_HAS_DICTIONARY \<noteq> 0) (read_exact 32) s)
       (\<lambda>(dictionary_hash, s).
     bindR (read_file_entries (ah_flags header) (unat (ah_file_count header)) [] s) (\<lambda>(file_entries, s).
     bindR (read_list (unat (ah_solid_group_count header)) solid_group_entry_read s) (\<lambda>(solid_groups, s).
       Inr (\<lparr>sm_header = header, sm_file_entries = file_entries, sm_solid_groups = solid_groups,
             sm_encryption_header = encryption_header, sm_dictionary_hash = dictionary_hash\<rparr>, s))))))"

definition list_files_streaming :: "'s archive_env \<Rightarrow> bytes \<Rightarrow> file_entry list result" where
  "list_files_streaming env s =
     bindR (read_metadata_streaming env s) (\<lambda>(metadata, _). Inr (sm_file_entries metadata))"

section \<open>One block\<close>

definition decompress_block_streaming ::
    "'s archive_env \<Rightarrow> bytes option \<Rightarrow> decrypt_key option \<Rightarrow> bytes \<Rightarrow> ((bytes \<times> u32 \<times> u32) \<times> bytes) run" where
  "decompress_block_streaming env dict_baseline decrypt_key s =
     bindRun (Some (block_header_read (ae_crc env) s)) (\<lambda>(h, s).
     if unat (bh_compressed_size h) > MAX_DECOMPRESSED_BLOCK_SIZE then
       Some (Inl (ResourceLimitExceeded
         ''Block {} (group {}, streaming): compressed size {} exceeds safety limit of {} bytes''))
     else if unat (bh_uncompressed_size h) > MAX_DECOMPRESSED_BLOCK_SIZE then
       Some (Inl (ResourceLimitExceeded
         ''Block {} (group {}, streaming): uncompressed size {} exceeds safety limit of {} bytes''))
     else
     bindRun (Some (read_exact (unat (bh_compressed_size h)) s)) (\<lambda>(payload, s).
     bindRun (Some (block_trailer_read_with_id (ae_crc env) (bh_block_id h) s)) (\<lambda>(trailer, s).
     bindRun (Some (maybe_decrypt_payload (ae_crypto env) payload decrypt_key (bh_block_id h))) (\<lambda>payload.
     bindRun (wrap_error ''Block {} (group {}, method {:?}, streaming): {}''
         (decompress_chunk_with_baseline (ae_router env) payload (bh_compression_method h)
            (unat (bh_uncompressed_size h)) dict_baseline)) (\<lambda>decompressed.
     bindRun (Some (check_decoded (ae_blake3 env)
         ''Block {} (group {}, streaming): actual decompressed size {} differs from claimed {}''
         (bh_block_id h) (unat (bh_uncompressed_size h)) (bt_content_blake3 trailer) decompressed))
       (\<lambda>decompressed. Some (Inr ((decompressed, bh_block_id h, bh_compressed_size h), s))))))))"

section \<open>Extraction\<close>

fun stream_blocks ::
    "(bytes \<Rightarrow> ((bytes \<times> u32 \<times> u32) \<times> bytes) run) \<Rightarrow> nat \<Rightarrow> nat \<Rightarrow> nat \<Rightarrow> nat \<Rightarrow> blocks \<Rightarrow> bytes
      \<Rightarrow> (blocks \<times> bytes) run" where
  "stream_blocks decode 0 i total_compressed_read total_decompressed decoded s = Some (Inr (decoded, s))"
| "stream_blocks decode (Suc n) i total_compressed_read total_decompressed decoded s =
     bindRun (decode s) (\<lambda>((data, _, compressed_size), s).
       let total_compressed_read = total_compressed_read + unat compressed_size
       in bindRun (Some (limit MAX_TOTAL_COMPRESSED_READ_SIZE total_compressed_read
              ''Total compressed read size {} exceeds safety limit of {} bytes'')) (\<lambda>_.
          let total_decompressed = total_decompressed + length data
          in bindRun (Some (limit MAX_TOTAL_DECOMPRESSED_SIZE total_decompressed
                 ''Total decompressed size {} exceeds safety limit of {} bytes'')) (\<lambda>_.
             stream_blocks decode n (i + 1) total_compressed_read total_decompressed
               (decoded[i := Some data]) s)))"

text \<open>The loop over the file table is that of the seekable reader.\<close>

definition extract_with_streaming_metadata ::
    "'s archive_env \<Rightarrow> 'p decompressor \<Rightarrow> 'fs write_fun \<Rightarrow> bytes \<Rightarrow> streaming_metadata \<Rightarrow> 'fs
      \<Rightarrow> (unit result \<times> 'fs) option" where
  "extract_with_streaming_metadata env dc write_file s metadata fs =
     (let block_count = unat (ah_block_count (sm_header metadata));
          decoded_blocks =
            bindRun (Some (validate_dictionary env dc (sm_dictionary_hash metadata))) (\<lambda>_.
            bindRun (Some (derive_decrypt_key (ae_crypto env) (ah_flags (sm_header metadata))
                (sm_encryption_header metadata) (dc_password dc))) (\<lambda>decrypt_key.
            bindRun (Some (decode_baseline_for env dc (sm_dictionary_hash metadata))) (\<lambda>baseline.
              stream_blocks (decompress_block_streaming env baseline decrypt_key) block_count 0 0 0
                (replicate block_count None) s)))
      in case decoded_blocks of
           None \<Rightarrow> None
         | Some (Inl e) \<Rightarrow> Some (Inl e, fs)
         | Some (Inr (decoded, _)) \<Rightarrow>
             Some (write_all_files env write_file (sm_file_entries metadata) decoded fs))"

definition extract_all_streaming ::
    "'s archive_env \<Rightarrow> 'p decompressor \<Rightarrow> 'fs write_fun \<Rightarrow> bytes \<Rightarrow> 'fs \<Rightarrow> (unit result \<times> 'fs) option" where
  "extract_all_streaming env dc write_file s fs =
     (case read_metadata_streaming env s of
        Inl e \<Rightarrow> Some (Inl e, fs)
      | Inr (metadata, s) \<Rightarrow> extract_with_streaming_metadata env dc write_file s metadata fs)"

section \<open>Verification\<close>

text \<open>A structural error ends the loop, a block that does not decode does not.\<close>

definition corrupted :: "u32 \<Rightarrow> verification_result \<Rightarrow> verification_result" where
  "corrupted block_id r = r\<lparr>vr_corrupted_blocks := vr_corrupted_blocks r @ [block_id]\<rparr>"

fun verify_blocks ::
    "'s archive_env \<Rightarrow> bytes option \<Rightarrow> decrypt_key option \<Rightarrow> nat \<Rightarrow> nat \<Rightarrow> verification_result \<Rightarrow> bytes
      \<Rightarrow> verification_result option" where
  "verify_blocks env baseline decrypt_key 0 block_idx r s = Some r"
| "verify_blocks env baseline decrypt_key (Suc n) block_idx r s =
     (case block_header_read (ae_crc env) s of
        Inl _ \<Rightarrow> Some (corrupted (of_nat block_idx) r)
      | Inr (h, s) \<Rightarrow>
          if unat (bh_compressed_size h) > MAX_DECOMPRESSED_BLOCK_SIZE then Some (corrupted (bh_block_id h) r)
          else if unat (bh_uncompressed_size h) > MAX_DECOMPRESSED_BLOCK_SIZE then
            Some (corrupted (bh_block_id h) r)
          else
            case read_exact (unat (bh_compressed_size h)) s of
              Inl _ \<Rightarrow> Some (corrupted (bh_block_id h) r)
            | Inr (payload, s) \<Rightarrow>
                case block_trailer_read_with_id (ae_crc env) (bh_block_id h) s of
                  Inl _ \<Rightarrow> Some (corrupted (bh_block_id h) r)
                | Inr (trailer, s) \<Rightarrow>
                    case maybe_decrypt_payload (ae_crypto env) payload decrypt_key (bh_block_id h) of
                      Inl _ \<Rightarrow> verify_blocks env baseline decrypt_key n (block_idx + 1) (corrupted (bh_block_id h) r) s
                    | Inr payload \<Rightarrow>
                        case decompress_chunk_with_baseline (ae_router env) payload (bh_compression_method h)
                            (unat (bh_uncompressed_size h)) baseline of
                          None \<Rightarrow> None
                        | Some (Inl _) \<Rightarrow>
                            verify_blocks env baseline decrypt_key n (block_idx + 1) (corrupted (bh_block_id h) r) s
                        | Some (Inr data) \<Rightarrow>
                            verify_blocks env baseline decrypt_key n (block_idx + 1)
                              (if ae_blake3 env data \<noteq> bt_content_blake3 trailer then corrupted (bh_block_id h) r
                               else r\<lparr>vr_verified_blocks := vr_verified_blocks r + 1\<rparr>) s)"

definition verify_with_streaming_metadata ::
    "'s archive_env \<Rightarrow> 'p decompressor \<Rightarrow> bytes \<Rightarrow> streaming_metadata \<Rightarrow> verification_result run" where
  "verify_with_streaming_metadata env dc s metadata =
     (let block_count = unat (ah_block_count (sm_header metadata))
      in bindRun (Some (derive_decrypt_key (ae_crypto env) (ah_flags (sm_header metadata))
             (sm_encryption_header metadata) (dc_password dc))) (\<lambda>decrypt_key.
         let r = \<lparr>vr_total_blocks = block_count, vr_verified_blocks = 0, vr_corrupted_blocks = []\<rparr>
         in bindRun (Some (decode_baseline_for env dc (sm_dictionary_hash metadata))) (\<lambda>baseline.
              map_option Inr (verify_blocks env baseline decrypt_key block_count 0 r s))))"

definition verify_streaming :: "'s archive_env \<Rightarrow> 'p decompressor \<Rightarrow> bytes \<Rightarrow> verification_result run" where
  "verify_streaming env dc s =
     bindRun (Some (read_metadata_streaming env s)) (\<lambda>(metadata, s).
       verify_with_streaming_metadata env dc s metadata)"

section \<open>What a stream holds\<close>

text \<open>The part of the metadata a stream shows.\<close>

definition streaming_view :: "archive_metadata \<Rightarrow> streaming_metadata" where
  "streaming_view md =
     \<lparr>sm_header = am_header md, sm_file_entries = am_file_entries md, sm_solid_groups = am_solid_groups md,
      sm_encryption_header = am_encryption_header md, sm_dictionary_hash = am_dictionary_hash md\<rparr>"

text \<open>The stream starts with blocks that decode to \<open>ds\<close>; \<open>cs\<close> are their stored sizes.\<close>

fun stream_holds ::
    "(bytes \<Rightarrow> ((bytes \<times> u32 \<times> u32) \<times> bytes) run) \<Rightarrow> bytes \<Rightarrow> bytes list \<Rightarrow> nat list \<Rightarrow> bool" where
  "stream_holds decode s (d # ds) (c # cs) \<longleftrightarrow>
     (\<exists>i w s'. decode s = Some (Inr ((d, i, w), s')) \<and> unat w = c \<and> stream_holds decode s' ds cs)"
| "stream_holds decode s ds cs \<longleftrightarrow> ds = [] \<and> cs = []"

text \<open>
  The frames of a stream: header, payload and trailer of a block that can be read, whether or not the
  payload decodes. \<open>stream_frames\<close> lists where they start, up to the first that cannot be read.
\<close>

definition stream_frame :: "'s archive_env \<Rightarrow> bytes \<Rightarrow> bytes option" where
  "stream_frame env s =
     (case block_header_read (ae_crc env) s of
        Inl _ \<Rightarrow> None
      | Inr (h, s) \<Rightarrow>
          if unat (bh_compressed_size h) > MAX_DECOMPRESSED_BLOCK_SIZE
            \<or> unat (bh_uncompressed_size h) > MAX_DECOMPRESSED_BLOCK_SIZE then None
          else case read_exact (unat (bh_compressed_size h)) s of
                 Inl _ \<Rightarrow> None
               | Inr (_, s) \<Rightarrow>
                   case block_trailer_read_with_id (ae_crc env) (bh_block_id h) s of
                     Inl _ \<Rightarrow> None
                   | Inr (_, s) \<Rightarrow> Some s)"

fun stream_frames :: "'s archive_env \<Rightarrow> nat \<Rightarrow> bytes \<Rightarrow> bytes list" where
  "stream_frames env 0 s = []"
| "stream_frames env (Suc n) s =
     (case stream_frame env s of None \<Rightarrow> [] | Some s' \<Rightarrow> s # stream_frames env n s')"

definition frame_id :: "'s archive_env \<Rightarrow> bytes \<Rightarrow> u32" where
  "frame_id env s = (case block_header_read (ae_crc env) s of Inr (h, _) \<Rightarrow> bh_block_id h | Inl _ \<Rightarrow> 0)"

definition frame_decodes :: "'s archive_env \<Rightarrow> bytes option \<Rightarrow> decrypt_key option \<Rightarrow> bytes \<Rightarrow> bool" where
  "frame_decodes env baseline dk s \<longleftrightarrow>
     (case decompress_block_streaming env baseline dk s of Some (Inr _) \<Rightarrow> True | _ \<Rightarrow> False)"

lemma length_stream_frames: "length (stream_frames env n s) \<le> n"
  by (induction n arbitrary: s) (auto split: option.split)

lemma stream_holds_Suc:
  "(\<exists>ds cs. length ds = Suc n \<and> stream_holds decode s ds cs) \<longleftrightarrow>
   (\<exists>d j w s'. decode s = Some (Inr ((d, j, w), s')) \<and> (\<exists>ds cs. length ds = n \<and> stream_holds decode s' ds cs))"
  (is "?l \<longleftrightarrow> ?r")
proof
  assume ?l
  then obtain d ds cs where h: "length ds = n" "stream_holds decode s (d # ds) cs" by (auto simp: length_Suc_conv)
  then obtain j w s' cs' where "decode s = Some (Inr ((d, j, w), s'))" "stream_holds decode s' ds cs'"
    by (cases cs) auto
  then show ?r using h(1) by blast
next
  assume ?r
  then obtain d j w s' ds cs where h: "decode s = Some (Inr ((d, j, w), s'))" "length ds = n" "stream_holds decode s' ds cs"
    by blast
  have "length (d # ds) = Suc n" using h(2) by simp
  moreover have "stream_holds decode s (d # ds) (unat w # cs)" using h(1,3) by auto
  ultimately show ?l by blast
qed

lemma stream_blocks_held:
  assumes "stream_holds decode s ds cs" "length decoded = i + length ds"
    and "tc + sum_list cs \<le> MAX_TOTAL_COMPRESSED_READ_SIZE" "td + sum_list (map length ds) \<le> MAX_TOTAL_DECOMPRESSED_SIZE"
  shows "\<exists>s'. stream_blocks decode (length ds) i tc td decoded s = Some (Inr (take i decoded @ map Some ds, s'))"
  using assms
proof (induction decode s ds cs arbitrary: i tc td decoded rule: stream_holds.induct)
  case (1 decode s d ds c cs)
  then obtain j w s' where d: "decode s = Some (Inr ((d, j, w), s'))" "unat w = c" "stream_holds decode s' ds cs"
    by auto
  have "\<exists>s''. stream_blocks decode (length ds) (i + 1) (tc + c) (td + length d) (decoded[i := Some d]) s'
      = Some (Inr (take (i + 1) (decoded[i := Some d]) @ map Some ds, s''))"
    using 1 d(3) by simp
  moreover have "take (i + 1) (decoded[i := Some d]) = take i decoded @ [Some d]"
    using 1(3) by (simp add: take_Suc_conv_app_nth)
  moreover have "tc + c \<le> MAX_TOTAL_COMPRESSED_READ_SIZE" "td + length d \<le> MAX_TOTAL_DECOMPRESSED_SIZE"
    using 1(4,5) by simp_all
  ultimately show ?case using d by (simp add: Let_def limit_ok)
qed auto

lemma stream_blocks_Inr:
  "stream_blocks decode n i tc td decoded s = Some (Inr (out, s')) \<Longrightarrow>
   \<exists>ds cs. length ds = n \<and> length cs = n \<and> stream_holds decode s ds cs"
proof (induction n arbitrary: i tc td decoded s)
  case (Suc n)
  obtain d j w s1 tc' td' i' decoded' where d: "decode s = Some (Inr ((d, j, w), s1))"
      "stream_blocks decode n i' tc' td' decoded' s1 = Some (Inr (out, s'))"
    using Suc.prems by (auto simp: bindRun_Inr_iff Let_def split: prod.splits)
  obtain ds cs where h: "length ds = n" "length cs = n" "stream_holds decode s1 ds cs"
    using Suc.IH [OF d(2)] by blast
  then show ?case using d(1) by (intro exI [of _ "d # ds"] exI [of _ "unat w # cs"]) simp
qed simp

lemma stream_blocks_returns:
  assumes "\<And>s. decode s \<noteq> None"
  shows "stream_blocks decode n i tc td decoded s \<noteq> None"
proof (induction n arbitrary: i tc td decoded s)
  case (Suc n)
  show ?case
  proof (cases "decode s")
    case (Some x)
    then show ?thesis using Suc
      by (cases x) (auto simp: Let_def limit_def split: prod.splits)
  qed (use assms in simp)
qed simp

lemma if_returns: "a \<noteq> None \<Longrightarrow> b \<noteq> None \<Longrightarrow> (if c then a else b) \<noteq> None"
  by simp

lemma wrap_error_Inr [simp]: "wrap_error msg r = Some (Inr y) \<longleftrightarrow> r = Some (Inr y)"
proof (cases r)
  case (Some x)
  then show ?thesis by (cases x) (simp_all add: wrap_error_def)
qed (simp add: wrap_error_def)

lemma block_header_rest:
  assumes "block_header_read_at crc off s = Inr (h, s')"
  shows "s' = drop BLOCK_HEADER_SIZE s"
proof -
  obtain pre where "s = pre @ s'" "length pre = BLOCK_HEADER_SIZE"
    using assms unfolding block_header_read_at_Inr by (auto simp: BLOCK_HEADER_SIZE_def)
  then show ?thesis by simp
qed

context archive_contract
begin

lemma wrap_error_returns:
  "wrap_error msg (decompress_chunk_with_baseline (ae_router env) p m n b) \<noteq> None"
  using router.decompress_chunk_returns [of p m n b] by (auto simp: wrap_error_def)

lemma decompress_block_streaming_returns: "decompress_block_streaming env baseline dk s \<noteq> None"
  unfolding decompress_block_streaming_def case_prod_beta
  by (intro bindRun_total if_returns wrap_error_returns) simp_all

lemma extract_all_streaming_returns: "extract_all_streaming env dc write_file s fs \<noteq> None"
proof -
  have "extract_with_streaming_metadata env dc write_file s' md fs \<noteq> None" for s' md
  proof -
    have "bindRun (Some (validate_dictionary env dc (sm_dictionary_hash md))) (\<lambda>_.
            bindRun (Some (derive_decrypt_key (ae_crypto env) (ah_flags (sm_header md))
                (sm_encryption_header md) (dc_password dc))) (\<lambda>decrypt_key.
            bindRun (Some (decode_baseline_for env dc (sm_dictionary_hash md))) (\<lambda>baseline.
              stream_blocks (decompress_block_streaming env baseline decrypt_key) n 0 0 0
                (replicate n None) s'))) \<noteq> None" for n
      by (intro bindRun_total stream_blocks_returns decompress_block_streaming_returns) simp_all
    then show ?thesis
      by (auto simp: extract_with_streaming_metadata_def Let_def split: option.split sum.split)
  qed
  then show ?thesis by (auto simp: extract_all_streaming_def split: sum.split)
qed

text \<open>One block, extracted or verified.\<close>

lemma decoded_frame:
  assumes "decompress_block_streaming env baseline dk s = Some (Inr (x, s'))"
  shows "stream_frame env s = Some s'"
  using assms unfolding decompress_block_streaming_def stream_frame_def
  by (auto simp: bindRun_Inr_iff check_decoded_def Let_def split: if_splits)

lemma verify_blocks_good:
  assumes "decompress_block_streaming env baseline dk s = Some (Inr (x, s'))"
  shows "verify_blocks env baseline dk (Suc n) i r s =
    verify_blocks env baseline dk n (i + 1) (r\<lparr>vr_verified_blocks := vr_verified_blocks r + 1\<rparr>) s'"
  using assms unfolding decompress_block_streaming_def
  by (auto simp: bindRun_Inr_iff check_decoded_def Let_def split: if_splits)

lemma verify_blocks_bad:
  assumes "decompress_block_streaming env baseline dk s = Some (Inl e)"
  shows "case stream_frame env s of
      None \<Rightarrow> \<exists>id. verify_blocks env baseline dk (Suc n) i r s = Some (corrupted id r)
    | Some s' \<Rightarrow> verify_blocks env baseline dk (Suc n) i r s
        = verify_blocks env baseline dk n (i + 1) (corrupted (frame_id env s) r) s'"
proof (cases "block_header_read (ae_crc env) s")
  case (Inr x)
  obtain h s1 where h: "block_header_read (ae_crc env) s = Inr (h, s1)" using Inr by (cases x) auto
  show ?thesis
  proof (cases "unat (bh_compressed_size h) > MAX_DECOMPRESSED_BLOCK_SIZE
      \<or> unat (bh_uncompressed_size h) > MAX_DECOMPRESSED_BLOCK_SIZE")
    case False
    show ?thesis
    proof (cases "\<exists>payload s2 t s3 p. read_exact (unat (bh_compressed_size h)) s1 = Inr (payload, s2)
        \<and> block_trailer_read_with_id (ae_crc env) (bh_block_id h) s2 = Inr (t, s3)
        \<and> maybe_decrypt_payload (ae_crypto env) payload dk (bh_block_id h) = Inr p")
      case True
      then obtain payload s2 t s3 p where r: "read_exact (unat (bh_compressed_size h)) s1 = Inr (payload, s2)"
          "block_trailer_read_with_id (ae_crc env) (bh_block_id h) s2 = Inr (t, s3)"
          "maybe_decrypt_payload (ae_crypto env) payload dk (bh_block_id h) = Inr p"
        by blast
      have f: "stream_frame env s = Some s3" "frame_id env s = bh_block_id h"
        using h False r(1,2) by (simp_all add: stream_frame_def frame_id_def)
      obtain d where d: "decompress_chunk_with_baseline (ae_router env) p (bh_compression_method h)
          (unat (bh_uncompressed_size h)) baseline = Some d"
        using router.decompress_chunk_returns by blast
      show ?thesis
      proof (cases d)
        case (Inr data)
        then have "ae_blake3 env data \<noteq> bt_content_blake3 t"
          using assms h False r d router.decompress_chunk_length [of p _ _ _ data]
          by (auto simp: decompress_block_streaming_def wrap_error_def check_decoded_def Let_def split: if_splits)
        then show ?thesis using h False r d Inr f by auto
      qed (use h False r d f in auto)
    qed (use h False in \<open>auto simp: stream_frame_def frame_id_def split: sum.splits\<close>)
  qed (use h in \<open>auto simp: stream_frame_def\<close>)
qed (auto simp: stream_frame_def)

text \<open>
  Up to the first frame that cannot be read every frame is counted once, as verified when it decodes
  and by its id as corrupted when not; a frame that cannot be read adds one corrupted block and ends
  the count.
\<close>

lemma verify_blocks_counts:
  "verify_blocks env baseline dk n i r s = Some r' \<Longrightarrow>
   vr_verified_blocks r' = vr_verified_blocks r + length (filter (frame_decodes env baseline dk) (stream_frames env n s))
     \<and> (\<exists>broken. vr_corrupted_blocks r' = vr_corrupted_blocks r
          @ map (frame_id env) (filter (\<lambda>f. \<not> frame_decodes env baseline dk f) (stream_frames env n s)) @ broken
        \<and> length broken = (if length (stream_frames env n s) < n then 1 else 0))
     \<and> vr_total_blocks r' = vr_total_blocks r"
proof (induction n arbitrary: i r s)
  case (Suc n)
  let ?decode = "decompress_block_streaming env baseline dk"
  obtain x where x: "?decode s = Some x" using decompress_block_streaming_returns by blast
  show ?case
  proof (cases x)
    case (Inr y)
    obtain d j w s' where y: "?decode s = Some (Inr ((d, j, w), s'))" using x Inr by (cases y) auto
    then have "frame_decodes env baseline dk s" by (simp add: frame_decodes_def)
    then show ?thesis
      using Suc.IH [OF Suc.prems [unfolded verify_blocks_good [OF y]]] decoded_frame [OF y] by auto
  next
    case (Inl e)
    then have bad: "\<not> frame_decodes env baseline dk s" using x by (simp add: frame_decodes_def)
    show ?thesis
    proof (cases "stream_frame env s")
      case None
      then obtain id where "r' = corrupted id r"
        using verify_blocks_bad [of baseline dk s e n i r] x Inl Suc.prems by auto
      then show ?thesis using None by (simp add: corrupted_def)
    next
      case (Some s')
      then have "verify_blocks env baseline dk n (i + 1) (corrupted (frame_id env s) r) s' = Some r'"
        using verify_blocks_bad [of baseline dk s e n i r] x Inl Suc.prems by simp
      from Suc.IH [OF this] show ?thesis using Some bad by (auto simp: corrupted_def)
    qed
  qed
qed simp

text \<open>No frame is missing and none fails to decode exactly when the stream holds that many blocks.\<close>

lemma frames_hold:
  "length (stream_frames env n s) = n \<and> filter (\<lambda>f. \<not> frame_decodes env baseline dk f) (stream_frames env n s) = []
     \<longleftrightarrow> (\<exists>ds cs. length ds = n \<and> stream_holds (decompress_block_streaming env baseline dk) s ds cs)"
proof (induction n arbitrary: s)
  case 0
  show ?case by (auto intro: exI [of _ "[]"])
next
  case (Suc n)
  let ?decode = "decompress_block_streaming env baseline dk"
  obtain x where x: "?decode s = Some x" using decompress_block_streaming_returns by blast
  show ?case
  proof (cases x)
    case (Inr y)
    obtain d j w s' where y: "?decode s = Some (Inr ((d, j, w), s'))" using x Inr by (cases y) auto
    then have "frame_decodes env baseline dk s" by (simp add: frame_decodes_def)
    then show ?thesis unfolding stream_holds_Suc using Suc.IH [of s'] decoded_frame [OF y] y by simp
  next
    case (Inl e)
    then have "\<not> frame_decodes env baseline dk s" using x by (simp add: frame_decodes_def)
    then show ?thesis unfolding stream_holds_Suc using x Inl by (auto split: option.split)
  qed
qed

lemma verify_blocks_exact:
  assumes "verify_blocks env baseline dk n i \<lparr>vr_total_blocks = n, vr_verified_blocks = 0, vr_corrupted_blocks = []\<rparr> s = Some r"
  shows "vr_corrupted_blocks r = [] \<longleftrightarrow> (\<exists>ds cs. length ds = n \<and> stream_holds (decompress_block_streaming env baseline dk) s ds cs)"
    and "vr_corrupted_blocks r = [] \<Longrightarrow> vr_verified_blocks r = n"
proof -
  let ?fs = "stream_frames env n s"
  note c = verify_blocks_counts [OF assms] and len = length_stream_frames [of env n s]
  then have "vr_corrupted_blocks r = []
      \<longleftrightarrow> length ?fs = n \<and> filter (\<lambda>f. \<not> frame_decodes env baseline dk f) ?fs = []"
    by (auto split: if_splits)
  then show eq: "vr_corrupted_blocks r = [] \<longleftrightarrow> (\<exists>ds cs. length ds = n \<and> stream_holds (decompress_block_streaming env baseline dk) s ds cs)"
    unfolding frames_hold .
  assume "vr_corrupted_blocks r = []"
  then have "length ?fs = n" "filter (\<lambda>f. \<not> frame_decodes env baseline dk f) ?fs = []"
    using eq frames_hold [of n s baseline dk] by blast+
  then show "vr_verified_blocks r = n"
    using c sum_length_filter_compl [of "frame_decodes env baseline dk" ?fs] by simp
qed

lemma verify_blocks_returns: "verify_blocks env baseline dk n i r s \<noteq> None"
proof (induction n arbitrary: i r s)
  case (Suc n)
  obtain x where x: "decompress_block_streaming env baseline dk s = Some x"
    using decompress_block_streaming_returns by blast
  show ?case
  proof (cases x)
    case (Inr y)
    then show ?thesis using verify_blocks_good x Suc by (cases y) metis
  next
    case (Inl e)
    then show ?thesis
      using verify_blocks_bad [of baseline dk s e n i r] x Suc by (cases "stream_frame env s") auto
  qed
qed simp

text \<open>The report, and what a successful extraction says of it.\<close>

lemma verify_streaming_returns: "verify_streaming env dc s \<noteq> None"
  unfolding verify_streaming_def verify_with_streaming_metadata_def case_prod_beta Let_def
  by (intro bindRun_total) (simp_all add: verify_blocks_returns)

lemma verify_streaming_report:
  assumes "verify_streaming env dc s = Some (Inr r)"
  shows "\<exists>md s' dk baseline. read_metadata_streaming env s = Inr (md, s')
    \<and> derive_decrypt_key (ae_crypto env) (ah_flags (sm_header md)) (sm_encryption_header md) (dc_password dc) = Inr dk
    \<and> decode_baseline_for env dc (sm_dictionary_hash md) = Inr baseline
    \<and> vr_total_blocks r = unat (ah_block_count (sm_header md))
    \<and> (let frames = stream_frames env (vr_total_blocks r) s'
       in vr_verified_blocks r = length (filter (frame_decodes env baseline dk) frames)
         \<and> (\<exists>broken. vr_corrupted_blocks r
               = map (frame_id env) (filter (\<lambda>f. \<not> frame_decodes env baseline dk f) frames) @ broken
             \<and> length broken = (if length frames < vr_total_blocks r then 1 else 0)))
    \<and> (vr_corrupted_blocks r = [] \<longleftrightarrow> (\<exists>ds cs. length ds = vr_total_blocks r
         \<and> stream_holds (decompress_block_streaming env baseline dk) s' ds cs))
    \<and> (vr_corrupted_blocks r = [] \<longrightarrow> vr_verified_blocks r = vr_total_blocks r)"
proof -
  obtain md s' dk baseline where m: "read_metadata_streaming env s = Inr (md, s')"
      "derive_decrypt_key (ae_crypto env) (ah_flags (sm_header md)) (sm_encryption_header md) (dc_password dc) = Inr dk"
      "decode_baseline_for env dc (sm_dictionary_hash md) = Inr baseline"
      "verify_blocks env baseline dk (unat (ah_block_count (sm_header md))) 0
         \<lparr>vr_total_blocks = unat (ah_block_count (sm_header md)), vr_verified_blocks = 0, vr_corrupted_blocks = []\<rparr> s' = Some r"
    using assms unfolding verify_streaming_def verify_with_streaming_metadata_def
    by (auto simp: bindRun_Inr_iff Let_def)
  from verify_blocks_counts [OF m(4)] verify_blocks_exact [OF m(4)] show ?thesis using m(1-3)
    by (intro exI [of _ md] exI [of _ s'] exI [of _ dk] exI [of _ baseline]) (simp add: Let_def)
qed

lemma extract_streaming_verifies:
  assumes "extract_all_streaming env dc write_file s fs = Some (Inr u, fs')"
  shows "\<exists>n. verify_streaming env dc s = Some (Inr \<lparr>vr_total_blocks = n, vr_verified_blocks = n, vr_corrupted_blocks = []\<rparr>)"
proof -
  obtain md s' where m: "read_metadata_streaming env s = Inr (md, s')"
      "extract_with_streaming_metadata env dc write_file s' md fs = Some (Inr u, fs')"
    using assms by (auto simp: extract_all_streaming_def split: sum.splits)
  let ?n = "unat (ah_block_count (sm_header md))"
  let ?start = "\<lparr>vr_total_blocks = ?n, vr_verified_blocks = 0, vr_corrupted_blocks = []\<rparr>"
  obtain dk baseline out s'' where b:
      "derive_decrypt_key (ae_crypto env) (ah_flags (sm_header md)) (sm_encryption_header md) (dc_password dc) = Inr dk"
      "decode_baseline_for env dc (sm_dictionary_hash md) = Inr baseline"
      "stream_blocks (decompress_block_streaming env baseline dk) ?n 0 0 0 (replicate ?n None) s' = Some (Inr (out, s''))"
    using m(2) by (auto simp: extract_with_streaming_metadata_def Let_def bindRun_Inr_iff split: option.splits sum.splits)
  obtain ds cs where h: "length ds = ?n" "stream_holds (decompress_block_streaming env baseline dk) s' ds cs"
    using stream_blocks_Inr [OF b(3)] by blast
  obtain r where r: "verify_blocks env baseline dk ?n 0 ?start s' = Some r"
    using verify_blocks_returns [of baseline dk ?n 0 ?start s'] by blast
  have "vr_corrupted_blocks r = []" using verify_blocks_exact(1) [OF r] h by blast
  moreover from verify_blocks_exact(2) [OF r this] have "vr_verified_blocks r = ?n" .
  moreover have "vr_total_blocks r = ?n" using verify_blocks_counts [OF r] by simp
  ultimately
  have "r = \<lparr>vr_total_blocks = ?n, vr_verified_blocks = ?n, vr_corrupted_blocks = []\<rparr>" by (cases r) simp
  then show ?thesis
    using r b(1,2) by (simp add: verify_streaming_def verify_with_streaming_metadata_def m(1) Let_def)
qed

text \<open>The seekable reader's block is the stream's.\<close>

lemma decompress_block_then_streaming:
  assumes "decompress_block env archive baseline dk e = Some (Inr d)"
  shows "\<exists>w. decompress_block_streaming env baseline dk (drop (unat (bi_archive_offset e)) archive) =
    Some (Inr ((d, bi_block_id e, w),
      drop (unat (bi_archive_offset e) + BLOCK_HEADER_SIZE + unat w + BLOCK_TRAILER_SIZE) archive))"
proof -
  let ?off = "unat (bi_archive_offset e)"
  obtain h s1 payload s2 t s3 p where r: "block_header_read_at (ae_crc env) (bi_archive_offset e) (drop ?off archive) = Inr (h, s1)"
      "validate_block_header h e = Inr ()" "read_exact (unat (bh_compressed_size h)) s1 = Inr (payload, s2)"
      "block_trailer_read_with_id (ae_crc env) (bh_block_id h) s2 = Inr (t, s3)"
      "maybe_decrypt_payload (ae_crypto env) payload dk (bh_block_id h) = Inr p"
      "decompress_chunk_with_baseline (ae_router env) p (bh_compression_method h) (unat (bh_uncompressed_size h)) baseline
         = Some (Inr d)"
      "ae_blake3 env d = bt_content_blake3 t" "length d = unat (bh_uncompressed_size h)"
    using assms unfolding decompress_block_def
    by (auto simp: bindRun_Inr_iff check_decoded_def Let_def split: if_splits)
  have h: "block_header_read (ae_crc env) (drop ?off archive) = Inr (h, s1)"
    using r(1) by (simp add: block_header_read_def block_header_read_at_Inr)
  have s1: "s1 = drop (?off + BLOCK_HEADER_SIZE) archive"
    using block_header_rest [OF r(1)] by (simp add: add.commute)
  have s2: "s2 = drop (unat (bh_compressed_size h)) s1" using r(3) by (auto simp: reads_Inr)
  have s3: "s3 = drop BLOCK_TRAILER_SIZE s2"
    using r(4) by (auto simp: block_trailer_read_Inr length_block_trailer_write)
  have rest: "s3 = drop (?off + BLOCK_HEADER_SIZE + unat (bh_compressed_size h) + BLOCK_TRAILER_SIZE) archive"
    by (simp add: s1 s2 s3 add.commute add.left_commute)
  have v: "bh_block_id h = bi_block_id e" "\<not> unat (bh_compressed_size h) > MAX_DECOMPRESSED_BLOCK_SIZE"
      "\<not> unat (bh_uncompressed_size h) > MAX_DECOMPRESSED_BLOCK_SIZE"
    using r(2) by (simp_all add: validate_block_header_def split: if_splits)
  have "decompress_block_streaming env baseline dk (drop ?off archive) = Some (Inr ((d, bh_block_id h, bh_compressed_size h), s3))"
    unfolding decompress_block_streaming_def h bindRun_simps prod.case
    using v r(3-8) by (simp add: wrap_error_def check_decoded_def)
  then show ?thesis unfolding rest v(1) by (rule exI)
qed

end

end
