(* ===== verification/RoundTrip.thy ===== *)
theory RoundTrip
  imports Archive Streaming
begin

text \<open>
  Writer against reader, second half: the bytes of a finished archive as one concatenation,
  \<open>read_metadata\<close> accepts them, every block decodes to its chunk, and extraction hands every
  input file to the file system.
\<close>

section \<open>Reading the metadata back\<close>

lemma read_list_write:
  assumes "\<And>x s. x \<in> set xs \<Longrightarrow> rd (wr x @ s) = Inr (x, s)"
  shows "read_list (length xs) rd (concat (map wr xs) @ s) = Inr (xs, s)"
  using assms by (induction xs) auto

lemma read_file_entries_write:
  assumes "write_file_table prefixes previous es = Inr table" "\<forall>e \<in> set es. file_entry_ok e"
    "utf8_valid previous" "(flags AND FLAG_PATH_PREFIXES \<noteq> 0) = prefixes"
  shows "read_file_entries flags (length es) previous (table @ s) = Inr (map sanitize_permissions es, s)"
  using assms(1-3)
proof (induction es arbitrary: previous table)
  case (Cons e es)
  obtain b bs where w: "(if prefixes then file_entry_write_prefixed e previous else Inr (file_entry_write e)) = Inr b"
      "write_file_table prefixes (fe_path e) es = Inr bs" "table = b @ bs"
    using Cons.prems(1) by (auto simp: bindR_Inr_iff)
  have ok: "file_entry_ok e" "utf8_valid (fe_path e)" using Cons.prems(2) by (auto simp: file_entry_ok_def)
  have path: "fe_path (sanitize_permissions e) = fe_path e" by (simp add: sanitize_permissions_def)
  have one: "(if flags AND FLAG_PATH_PREFIXES \<noteq> 0 then file_entry_read_prefixed previous (b @ x) else file_entry_read (b @ x))
      = Inr (sanitize_permissions e, x)" for x
  proof (cases prefixes)
    case True
    obtain out where "file_entry_write_prefixed e previous = Inr out"
        "file_entry_read_prefixed previous (out @ x) = Inr (sanitize_permissions e, x)"
      using file_entry_read_write_prefixed [OF ok(1) Cons.prems(3), of x] by blast
    then show ?thesis using True w(1) assms(4) by auto
  next
    case False
    then show ?thesis using w(1) assms(4) file_entry_read_write [OF ok(1), of x] by auto
  qed
  have "read_file_entries flags (length es) (fe_path e) (bs @ s) = Inr (map sanitize_permissions es, s)"
    by (rule Cons.IH [OF w(2) _ ok(2)]) (use Cons.prems(2) in simp)
  then show ?case using one [of "bs @ s"] path by (simp add: w(3))
qed simp

lemma check_unique_ids_distinct:
  "distinct (map bi_block_id entries) \<Longrightarrow> set seen \<inter> set (map bi_block_id entries) = {} \<Longrightarrow>
   check_unique_ids seen entries = Inr ()"
  by (induction entries arbitrary: seen) auto

text \<open>The length of the file table depends on the paths only.\<close>

lemma write_file_table_cong:
  assumes "map erase_chunks es = map erase_chunks es'" "write_file_table prefixes previous es = Inr table"
    "\<forall>e \<in> set es. length (fe_blake3_hash e) = 32"
  shows "\<exists>table'. write_file_table prefixes previous es' = Inr table' \<and> length table' = length table"
  using assms
proof (induction es arbitrary: es' previous table)
  case (Cons e es)
  obtain e' es2 where e': "es' = e' # es2" "erase_chunks e = erase_chunks e'" "map erase_chunks es = map erase_chunks es2"
    using Cons.prems(1) by (cases es') auto
  note eq = erase_chunks_eq [OF e'(2)]
  obtain b bs where w: "(if prefixes then file_entry_write_prefixed e previous else Inr (file_entry_write e)) = Inr b"
      "write_file_table prefixes (fe_path e) es = Inr bs" "table = b @ bs"
    using Cons.prems(2) by (auto simp: bindR_Inr_iff)
  have len: "length (file_entry_fixed e) = length (file_entry_fixed e')"
    using Cons.prems(3) eq(3) length_file_entry_fixed [of e] length_file_entry_fixed [of e'] by simp
  have "\<exists>b'. (if prefixes then file_entry_write_prefixed e' previous else Inr (file_entry_write e')) = Inr b'
      \<and> length b' = length b"
    using w(1) eq(1) len
    by (cases prefixes) (auto simp: file_entry_write_prefixed_def file_entry_write_def Let_def bindR_Inr_iff)
  then obtain b' where "(if prefixes then file_entry_write_prefixed e' previous else Inr (file_entry_write e')) = Inr b'"
      "length b' = length b" by blast
  moreover obtain bs' where "write_file_table prefixes (fe_path e') es2 = Inr bs'" "length bs' = length bs"
    using Cons.IH [OF e'(3) w(2)] Cons.prems(3) eq(1) by auto
  ultimately show ?case by (simp add: e'(1) w(3))
qed simp

definition archive_bytes ::
    "'s archive_env \<Rightarrow> archive_header \<Rightarrow> bytes \<Rightarrow> bytes \<Rightarrow> solid_group_entry list \<Rightarrow> bytes
      \<Rightarrow> block_index_entry list \<Rightarrow> bytes" where
  "archive_bytes env h extra table groups body index =
     archive_header_write (ae_blake3 env) h @ extra @ table @ write_group_table groups @ body
     @ concat (map block_index_entry_write index)
     @ archive_footer_write (ae_crc env)
         \<lparr>af_block_index_offset = ah_block_index_offset h, af_file_table_offset = ah_file_table_offset h,
          af_block_count = ah_block_count h, af_file_count = ah_file_count h\<rparr>"

text \<open>What the header of such an archive has to say.\<close>

definition layout_ok ::
    "archive_header \<Rightarrow> nat \<Rightarrow> bytes \<Rightarrow> bytes \<Rightarrow> solid_group_entry list \<Rightarrow> bytes \<Rightarrow> block_index_entry list \<Rightarrow> bool" where
  "layout_ok h files extra table groups body index \<longleftrightarrow>
     ah_file_table_offset h = of_nat (ARCHIVE_HEADER_SIZE + length extra)
     \<and> ah_block_index_offset h = of_nat (ARCHIVE_HEADER_SIZE + length extra + length table
           + SOLID_GROUP_ENTRY_SIZE * length groups + length body)
     \<and> unat (ah_block_count h) = length index \<and> unat (ah_solid_group_count h) = length groups
     \<and> unat (ah_file_count h) = files"

lemma length_write_group_table: "length (write_group_table groups) = SOLID_GROUP_ENTRY_SIZE * length groups"
  by (induction groups) (simp_all add: write_group_table_def)

lemma length_index: "length (concat (map block_index_entry_write index)) = BLOCK_INDEX_ENTRY_SIZE * length index"
  by (induction index) simp_all

lemma length_archive_bytes:
  "blake3_len_ok (ae_blake3 env) \<Longrightarrow>
   length (archive_bytes env h extra table groups body index) = ARCHIVE_HEADER_SIZE + length extra + length table
     + SOLID_GROUP_ENTRY_SIZE * length groups + length body + BLOCK_INDEX_ENTRY_SIZE * length index + ARCHIVE_FOOTER_SIZE"
  by (simp add: archive_bytes_def length_write_group_table length_index lens)

lemma read_metadata_archive_bytes:
  assumes blake3: "blake3_len_ok (ae_blake3 env)"
    and layout: "layout_ok h (length entries) extra table groups body index"
    and size: "length (archive_bytes env h extra table groups body index) < 2 ^ 64"
    and limits: "archive_header_within_limits h"
    and enc: "\<And>s. read_optional (ah_flags h AND FLAG_ENCRYPTED \<noteq> 0) encryption_header_read (extra @ s) = Inr (eh, rest @ s)"
    and dict: "\<And>s. read_optional (ah_flags h AND FLAG_HAS_DICTIONARY \<noteq> 0) (read_exact 32) (rest @ s) = Inr (dh, s)"
    and table: "write_file_table (ah_flags h AND FLAG_PATH_PREFIXES \<noteq> 0) [] entries = Inr table"
    and entries: "\<forall>e \<in> set entries. file_entry_ok e"
    and ids: "distinct (map bi_block_id index)"
  shows "\<exists>footer. read_metadata env (archive_bytes env h extra table groups body index) =
    Inr \<lparr>am_header = h, am_footer = footer, am_file_entries = map sanitize_permissions entries,
        am_solid_groups = groups, am_block_index = index, am_encryption_header = eh, am_dictionary_hash = dh\<rparr>"
proof -
  let ?a = "archive_bytes env h extra table groups body index"
  let ?f = "\<lparr>af_block_index_offset = ah_block_index_offset h, af_file_table_offset = ah_file_table_offset h,
          af_block_count = ah_block_count h, af_file_count = ah_file_count h\<rparr>"
  note len = length_archive_bytes [OF blake3, of h extra table groups body index]
  have foot: "length ?a = (length ?a - ARCHIVE_FOOTER_SIZE) + ARCHIVE_FOOTER_SIZE" "ARCHIVE_FOOTER_SIZE \<le> length ?a"
    using len by simp_all
  have d1: "drop (length ?a - ARCHIVE_FOOTER_SIZE) ?a = archive_footer_write (ae_crc env) ?f"
  proof -
    have "?a = (archive_header_write (ae_blake3 env) h @ extra @ table @ write_group_table groups @ body
        @ concat (map block_index_entry_write index)) @ archive_footer_write (ae_crc env) ?f"
      by (simp add: archive_bytes_def)
    moreover have "length (archive_header_write (ae_blake3 env) h @ extra @ table @ write_group_table groups @ body
        @ concat (map block_index_entry_write index)) = length ?a - ARCHIVE_FOOTER_SIZE"
      using len blake3 by (simp add: length_write_group_table length_index lens)
    ultimately show ?thesis by (metis append_eq_conv_conj)
  qed
  have offs: "unat (ah_file_table_offset h) = ARCHIVE_HEADER_SIZE + length extra"
      "unat (ah_block_index_offset h) = ARCHIVE_HEADER_SIZE + length extra + length table
           + SOLID_GROUP_ENTRY_SIZE * length groups + length body"
    using conjunct1 [OF layout [unfolded layout_ok_def]]
      conjunct1 [OF conjunct2 [OF layout [unfolded layout_ok_def]]] size [unfolded len]
    by (simp_all add: unat_of_nat_u64 del: of_nat_add of_nat_mult)
  have d2: "drop (unat (ah_file_table_offset h)) ?a = table @ write_group_table groups @ body
      @ concat (map block_index_entry_write index) @ archive_footer_write (ae_crc env) ?f"
    using blake3 by (simp add: offs archive_bytes_def lens)
  have d3: "drop (unat (ah_block_index_offset h)) ?a = concat (map block_index_entry_write index)
      @ archive_footer_write (ae_crc env) ?f"
    using blake3 by (simp add: offs archive_bytes_def lens length_write_group_table)
  have counts: "unat (ah_block_count h) = length index" "unat (ah_solid_group_count h) = length groups"
      "unat (ah_file_count h) = length entries"
    using layout by (simp_all add: layout_ok_def)
  have lim: "ah_file_count h \<le> MAX_FILE_COUNT" "ah_block_count h \<le> MAX_BLOCK_COUNT"
      "ah_solid_group_count h \<le> MAX_SOLID_GROUP_COUNT"
    using limits by (simp_all add: archive_header_within_limits_def)
  have cross: "cross_check h ?f (length ?a) = Inr ()"
    using lim offs len counts size
    by (simp add: cross_check_def Let_def not_less not_le ARCHIVE_FOOTER_SIZE_def mult.commute [of "length index"])
  have header: "archive_header_read (ae_blake3 env) ?a = Inr (h, extra @ table @ write_group_table groups @ body
      @ concat (map block_index_entry_write index) @ archive_footer_write (ae_crc env) ?f)"
    unfolding archive_bytes_def by (rule archive_header_read_write [OF blake3 limits])
  have groups: "read_list (length groups) solid_group_entry_read (write_group_table groups @ s) = Inr (groups, s)" for s
    unfolding write_group_table_def by (rule read_list_write) simp
  have index: "read_list (length index) block_index_entry_read (concat (map block_index_entry_write index) @ s)
      = Inr (index, s)" for s
    by (rule read_list_write) simp
  have files: "read_file_entries (ah_flags h) (length entries) [] (table @ s) = Inr (map sanitize_permissions entries, s)" for s
    by (rule read_file_entries_write [OF table entries]) simp_all
  have uniq: "check_unique_ids [] index = Inr ()"
    by (rule check_unique_ids_distinct [OF ids]) simp
  show ?thesis
    unfolding read_metadata_def d1
    using foot(2) lim
    by (simp add: not_less header enc dict cross d2 files counts groups d3 index uniq
        archive_footer_read_write [where s = "[]", simplified])
qed

text \<open>The same bytes as a stream: the tables come back, and the stream stands before the blocks.\<close>

lemma read_metadata_streaming_archive_bytes:
  assumes blake3: "blake3_len_ok (ae_blake3 env)"
    and layout: "layout_ok h (length entries) extra table groups body index"
    and limits: "archive_header_within_limits h"
    and enc: "\<And>s. read_optional (ah_flags h AND FLAG_ENCRYPTED \<noteq> 0) encryption_header_read (extra @ s) = Inr (eh, rest @ s)"
    and dict: "\<And>s. read_optional (ah_flags h AND FLAG_HAS_DICTIONARY \<noteq> 0) (read_exact 32) (rest @ s) = Inr (dh, s)"
    and table: "write_file_table (ah_flags h AND FLAG_PATH_PREFIXES \<noteq> 0) [] entries = Inr table"
    and entries: "\<forall>e \<in> set entries. file_entry_ok e"
  shows "read_metadata_streaming env (archive_header_write (ae_blake3 env) h @ extra @ table @ write_group_table groups @ s) =
    Inr (\<lparr>sm_header = h, sm_file_entries = map sanitize_permissions entries, sm_solid_groups = groups,
        sm_encryption_header = eh, sm_dictionary_hash = dh\<rparr>, s)"
proof -
  have lim: "\<not> ah_file_count h > MAX_FILE_COUNT" "\<not> ah_block_count h > MAX_BLOCK_COUNT"
      "\<not> ah_solid_group_count h > MAX_SOLID_GROUP_COUNT"
    using limits by (simp_all add: archive_header_within_limits_def not_less)
  have counts: "unat (ah_solid_group_count h) = length groups" "unat (ah_file_count h) = length entries"
    using layout by (simp_all add: layout_ok_def)
  have "read_list (length groups) solid_group_entry_read (write_group_table groups @ s) = Inr (groups, s)"
    unfolding write_group_table_def by (rule read_list_write) simp
  moreover have "read_file_entries (ah_flags h) (length entries) [] (table @ s') = Inr (map sanitize_permissions entries, s')" for s'
    by (rule read_file_entries_write [OF table entries]) simp_all
  ultimately show ?thesis
    by (simp add: read_metadata_streaming_def archive_header_read_write [OF blake3 limits] lim counts enc dict)
qed

section \<open>What the scan delivers\<close>

text \<open>Entry, path, contents and hash of a scanned file; groups and chunks are filled in later.\<close>

definition scanned_ok :: "(bytes \<Rightarrow> bytes) \<Rightarrow> input_file \<Rightarrow> file_entry \<Rightarrow> bytes \<Rightarrow> bool" where
  "scanned_ok blake3 f e data \<longleftrightarrow>
     if_data f = Inr data \<and> map_option normalize_separators (if_rel_path f) = Some (fe_path e)
     \<and> fe_original_size e = of_nat (length data) \<and> fe_blake3_hash e = blake3 data
     \<and> fe_permissions e = (case if_mode f of Some m \<Rightarrow> m AND SAFE_PERMISSION_MASK | None \<Rightarrow> 0x1A4)
     \<and> fe_mtime e = if_mtime f \<and> sanitize_permissions e = e"

lemma default_mode: "(0x1A4 :: u32) AND SAFE_PERMISSION_MASK = 0x1A4"
  by (simp add: SAFE_PERMISSION_MASK_def)

lemma scan_files_Inr:
  assumes "scan_files co inputs c = Inr scanned"
  shows "list_all2 (\<lambda>f (e, info, data). scanned_ok (ae_blake3 (co_archive co)) f e data
      \<and> fi_size info = of_nat (length data)) inputs scanned
    \<and> (inputs \<noteq> [] \<longrightarrow> c + sum_list (map (\<lambda>x. length (snd (snd x))) scanned) \<le> MAX_TOTAL_INPUT_SIZE)"
  using assms
proof (induction inputs arbitrary: c scanned)
  case (Cons f fs)
  let ?e = "\<lambda>data p. \<lparr>fe_path = normalize_separators p, fe_original_size = of_nat (length data),
      fe_blake3_hash = ae_blake3 (co_archive co) data, fe_solid_group_id = 0, fe_chunk_start_idx = 0,
      fe_chunk_count = 0,
      fe_permissions = (case if_mode f of Some m \<Rightarrow> m AND SAFE_PERMISSION_MASK | None \<Rightarrow> 0x1A4),
      fe_mtime = if_mtime f\<rparr>"
  obtain data p rest info where s: "if_data f = Inr data" "if_rel_path f = Some p"
      "c + length data \<le> MAX_TOTAL_INPUT_SIZE" "scan_files co fs (c + length data) = Inr rest"
      "scanned = (?e data p, info, data) # rest" "fi_size info = of_nat (length data)"
    using Cons.prems by (auto simp: Let_def bindR_Inr_iff not_less split: if_splits option.splits)
  have "scanned_ok (ae_blake3 (co_archive co)) f (?e data p) data"
    using s(1,2) by (simp add: scanned_ok_def sanitize_permissions_def default_mode and.assoc split: option.split)
  then show ?case
    using Cons.IH [OF s(4)] s(3,5,6) by (cases fs) (auto simp: case_prod_beta)
qed simp

definition entry_core :: "file_entry \<Rightarrow> file_entry" where
  "entry_core e = e\<lparr>fe_solid_group_id := 0, fe_chunk_start_idx := 0, fe_chunk_count := 0\<rparr>"

lemma entry_core_eq:
  assumes "entry_core a = entry_core b"
  shows "fe_path a = fe_path b" "fe_original_size a = fe_original_size b" "fe_blake3_hash a = fe_blake3_hash b"
    "fe_permissions a = fe_permissions b" "fe_mtime a = fe_mtime b"
  using assms by (cases a; cases b; simp add: entry_core_def)+

lemma scanned_ok_core:
  "scanned_ok blake3 f e data \<Longrightarrow> entry_core e' = entry_core e \<Longrightarrow> scanned_ok blake3 f e' data"
  using entry_core_eq [of e' e] by (cases e; cases e') (simp add: scanned_ok_def sanitize_permissions_def)

lemma map_entry_core_update:
  "entry_core e = entry_core (es ! i) \<Longrightarrow> map entry_core (es[i := e]) = map entry_core es"
  by (metis list_update_beyond list_update_id map_update not_le)

lemma assign_group_core: "map entry_core (assign_group g es) = map entry_core es"
proof -
  have "map entry_core (foldl (\<lambda>es idx. es[idx := (es ! idx)\<lparr>fe_solid_group_id := gr_group_id g\<rparr>]) es is)
      = map entry_core es" for "is"
  proof (induction "is" arbitrary: es)
    case (Cons i "is")
    have "map entry_core (es[i := (es ! i)\<lparr>fe_solid_group_id := gr_group_id g\<rparr>]) = map entry_core es"
      by (rule map_entry_core_update) (simp add: entry_core_def)
    then show ?case using Cons.IH by simp
  qed simp
  then show ?thesis by (simp add: assign_group_def)
qed

lemma assign_groups_core: "map entry_core (assign_groups groups es) = map entry_core es"
  unfolding assign_groups_def by (induction groups arbitrary: es) (simp_all add: assign_group_core)

lemma erase_core: "map erase_chunks es = map erase_chunks es' \<Longrightarrow> map entry_core es = map entry_core es'"
proof -
  assume a: "map erase_chunks es = map erase_chunks es'"
  have "entry_core e = (erase_chunks e)\<lparr>fe_solid_group_id := 0\<rparr>" for e
    by (simp add: entry_core_def erase_chunks_def)
  then have "map entry_core es = map (\<lambda>e. e\<lparr>fe_solid_group_id := 0\<rparr>) (map erase_chunks es)" for es by simp
  then show ?thesis using a by metis
qed

section \<open>The layout of a finished archive\<close>

lemma archive_flags_bits:
  "(archive_flags p d e AND FLAG_PATH_PREFIXES \<noteq> 0) = p"
  "(archive_flags p d e AND FLAG_HAS_DICTIONARY \<noteq> 0) = d"
  "(archive_flags p d e AND FLAG_ENCRYPTED \<noteq> 0) = e"
  by (cases p; cases d; cases e;
      simp add: archive_flags_def FLAG_SOLID_ARCHIVE_def FLAG_PATH_PREFIXES_def FLAG_HAS_DICTIONARY_def
        FLAG_ENCRYPTED_def push_bit_eq_mult)+

text \<open>The optional fields between header and file table.\<close>

definition extra_bytes :: "(encryption_header \<times> bytes) option \<Rightarrow> dictionary option \<Rightarrow> bytes" where
  "extra_bytes enc dict =
     (case enc of Some (h, _) \<Rightarrow> encryption_header_write h | None \<Rightarrow> [])
     @ (case dict of Some d \<Rightarrow> di_hash d | None \<Rightarrow> [])"

definition start_header ::
    "'p compressor \<Rightarrow> (encryption_header \<times> bytes) option \<Rightarrow> file_entry list \<Rightarrow> solid_group list \<Rightarrow> archive_header" where
  "start_header cp enc entries groups =
     \<lparr>ah_flags = archive_flags (use_path_prefixes entries) (cp_dictionary cp \<noteq> None) (enc \<noteq> None),
      ah_predictor_id = cp_predictor_id cp, ah_file_count = of_nat (length entries),
      ah_solid_group_count = of_nat (length groups), ah_block_count = 0, ah_file_table_offset = 0,
      ah_block_index_offset = 0\<rparr>"

definition start_state :: "bytes \<Rightarrow> file_entry list \<Rightarrow> solid_group list \<Rightarrow> writer_state" where
  "start_state out entries groups =
     \<lparr>ws_out = out, ws_entries = entries, ws_groups = map initial_group_entry groups, ws_index = [],
      ws_block_id = 0, ws_chunk_idx = 0, ws_compressed_size = 0\<rparr>"

text \<open>The steps of a successful run.\<close>

definition compressed_by ::
    "'s compress_env \<Rightarrow> 'p compressor \<Rightarrow> (file_entry \<times> file_info \<times> bytes) list
      \<Rightarrow> (encryption_header \<times> bytes) option \<Rightarrow> bytes option \<Rightarrow> compressed_file_blocks list list \<Rightarrow> bytes
      \<Rightarrow> writer_state \<Rightarrow> bytes \<Rightarrow> bool" where
  "compressed_by co cp scanned enc baseline cgs table st archive \<longleftrightarrow>
     (let groups = group_files (map (fst \<circ> snd) scanned);
          entries = assign_groups groups (map fst scanned);
          preamble = archive_header_write (ae_blake3 (co_archive co)) (start_header cp enc entries groups)
            @ extra_bytes enc (cp_dictionary cp)
      in encryption_setup co (cp_encryption cp) = Inr enc \<and> length entries < 2 ^ 32 \<and> length groups < 2 ^ 32
         \<and> write_file_table (use_path_prefixes entries) [] entries = Inr table
         \<and> encode_baseline cp = Inr baseline
         \<and> mapRun (compress_group co (cp_profile cp) baseline entries (map (snd \<circ> snd) scanned)) groups = Some (Inr cgs)
         \<and> foldR (write_group (co_archive co) enc) (zip [0..<length groups] (zip groups cgs))
             (start_state (preamble @ table @ write_group_table (map initial_group_entry groups)) entries groups) = Inr st
         \<and> finish_archive (co_archive co) (use_path_prefixes entries) (start_header cp enc entries groups)
             (length preamble) (length preamble + length table) st = Inr archive)"

lemma compress_groups_Inr:
  "compress_groups env cp b es ds gs = Some (Inr cgs) \<Longrightarrow>
   mapRun (compress_group env (cp_profile cp) b es ds) gs = Some (Inr cgs)"
  by (simp add: compress_groups_def split: if_splits)

lemma length_assign_groups: "length (assign_groups groups es) = length es"
  using arg_cong [OF assign_groups_core, of length groups es] by simp

lemma compress_to_archive_Inr:
  assumes "compress_to_archive co cp inputs = Some (Inr (stats, archive))"
  shows "\<exists>scanned enc baseline cgs table st. scan_files co inputs 0 = Inr scanned
    \<and> compressed_by co cp scanned enc baseline cgs table st archive
    \<and> cs_block_count stats = ws_block_id st \<and> cs_file_count stats = of_nat (length scanned)
    \<and> cs_group_count stats = of_nat (length (group_files (map (fst \<circ> snd) scanned)))"
proof -
  obtain scanned where s: "scan_files co inputs 0 = Inr scanned"
    using assms unfolding compress_to_archive_def Let_def by (cases "scan_files co inputs 0") auto
  define groups where "groups = group_files (map (fst \<circ> snd) scanned)"
  define entries where "entries = assign_groups groups (map fst scanned)"
  have [simp]: "length entries = length scanned" by (simp add: entries_def length_assign_groups)
  have pre: "preamble_of @ (case enc of Some (h, _) \<Rightarrow> encryption_header_write h | None \<Rightarrow> [])
      @ (case dict of Some dict \<Rightarrow> di_hash dict | None \<Rightarrow> []) = preamble_of @ extra_bytes enc dict"
    for preamble_of enc and dict :: "dictionary option"
    by (simp add: extra_bytes_def)
  obtain enc where enc: "encryption_setup co (cp_encryption cp) = Inr enc"
    using assms unfolding compress_to_archive_def Let_def s bindRun_simps
    by (cases "encryption_setup co (cp_encryption cp)") auto
  show ?thesis
    using assms unfolding compress_to_archive_def Let_def s bindRun_simps groups_def [symmetric]
      entries_def [symmetric] enc pre start_header_def [symmetric] start_state_def [symmetric]
    by (auto simp: bindRun_Inr_iff u32_try_from_Inr compressed_by_def Let_def groups_def [symmetric]
        entries_def [symmetric] enc start_header_def start_state_def dest!: compress_groups_Inr)
qed

lemma finish_archive_Inr:
  assumes "finish_archive ae prefixes h (ARCHIVE_HEADER_SIZE + length extra)
      (ARCHIVE_HEADER_SIZE + length extra + length table) st = Inr archive"
    and "blake3_len_ok (ae_blake3 ae)"
    and "ws_out st = archive_header_write (ae_blake3 ae) h @ extra @ table @ write_group_table gs @ body"
    and "length gs = length (ws_groups st)"
    and "write_file_table prefixes [] (ws_entries st) = Inr table'" "length table' = length table"
  shows "archive = archive_bytes ae (h\<lparr>ah_block_count := ws_block_id st,
      ah_file_table_offset := of_nat (ARCHIVE_HEADER_SIZE + length extra),
      ah_block_index_offset := of_nat (length (ws_out st))\<rparr>) extra table' (ws_groups st) body (ws_index st)"
proof -
  let ?B = "ae_blake3 ae"
  define w :: u64 where "w = of_nat (length (ws_out st))"
  let ?h = "h\<lparr>ah_block_count := ws_block_id st, ah_file_table_offset := of_nat (ARCHIVE_HEADER_SIZE + length extra),
      ah_block_index_offset := w\<rparr>"
  let ?H = "archive_header_write ?B h" and ?H' = "archive_header_write ?B ?h"
  let ?f = "\<lparr>af_block_index_offset = w, af_file_table_offset = of_nat (ARCHIVE_HEADER_SIZE + length extra),
       af_block_count = ws_block_id st, af_file_count = ah_file_count h\<rparr>"
  let ?rest = "body @ concat (map block_index_entry_write (ws_index st)) @ archive_footer_write (ae_crc ae) ?f"
  have lenH: "length ?H = ARCHIVE_HEADER_SIZE" "length ?H' = ARCHIVE_HEADER_SIZE"
    using assms(2) by (simp_all add: lens)
  have o1: "overwrite 0 ?H' (?H @ extra @ table @ write_group_table gs @ ?rest)
      = ?H' @ extra @ table @ write_group_table gs @ ?rest"
    using overwrite_mid [of ?H ?H' "[]" "extra @ table @ write_group_table gs @ ?rest"] lenH by simp
  have o2: "overwrite (ARCHIVE_HEADER_SIZE + length extra) table' (?H' @ extra @ table @ write_group_table gs @ ?rest)
      = ?H' @ extra @ table' @ write_group_table gs @ ?rest"
    using overwrite_mid [of table table' "?H' @ extra" "write_group_table gs @ ?rest"] lenH assms(6) by simp
  have o3: "overwrite (ARCHIVE_HEADER_SIZE + length extra + length table) (write_group_table (ws_groups st))
        (?H' @ extra @ table' @ write_group_table gs @ ?rest)
      = ?H' @ extra @ table' @ write_group_table (ws_groups st) @ ?rest"
    using overwrite_mid [of "write_group_table gs" "write_group_table (ws_groups st)" "?H' @ extra @ table'" ?rest]
      lenH assms(4,6) by (simp add: length_write_group_table add.assoc)
  have "archive = overwrite (ARCHIVE_HEADER_SIZE + length extra + length table) (write_group_table (ws_groups st))
      (overwrite (ARCHIVE_HEADER_SIZE + length extra) table'
        (overwrite 0 ?H' ((ws_out st @ concat (map block_index_entry_write (ws_index st)))
          @ archive_footer_write (ae_crc ae) ?f)))"
    using assms(1) unfolding finish_archive_def Let_def assms(5) w_def by simp
  also have "\<dots> = ?H' @ extra @ table' @ write_group_table (ws_groups st) @ ?rest"
    unfolding assms(3) by (simp only: append_assoc o1 o2 o3)
  finally have "archive = ?H' @ extra @ table' @ write_group_table (ws_groups st) @ ?rest" .
  then show ?thesis unfolding w_def [symmetric] by (simp add: archive_bytes_def)
qed

section \<open>Decoding what was written\<close>

lemma frame_at_move:
  assumes "frame_at (base @ rest) off f" "length base \<le> off" "length base' = length base"
  shows "frame_at (base' @ rest @ tl') off f"
proof -
  obtain post where p: "off \<le> length (base @ rest)" "drop off (base @ rest) = f @ post"
    using assms(1) by (auto simp: frame_at_def)
  have "drop off (base' @ rest @ tl') = drop (off - length base) rest @ drop (off - length base - length rest) tl'"
    using assms(2,3) by simp
  moreover have "drop (off - length base) rest = f @ post" using p(2) assms(2) by simp
  moreover have "off \<le> length (base' @ rest @ tl')" using p(1) assms(3) by simp
  ultimately show ?thesis by (simp only: frame_at_def append_assoc) blast
qed

text \<open>A block of the archive decodes, given its payload opens and decodes.\<close>

lemma decompress_framed:
  assumes "frame_at archive off (block_frame ae gid cc k payload)" "off < 2 ^ 64"
    and "entry = \<lparr>bi_block_id = of_nat k, bi_archive_offset = of_nat off, bi_compressed_size = csize,
              bi_uncompressed_size = of_nat (cc_original_size cc), bi_solid_group_id = gid\<rparr>"
    and "length payload \<le> MAX_DECOMPRESSED_BLOCK_SIZE" "cc_original_size cc \<le> MAX_DECOMPRESSED_BLOCK_SIZE"
    and "maybe_decrypt_payload (ae_crypto ae) payload dk (of_nat k) = Inr (cc_data cc)"
    and "decompress_chunk_with_baseline (ae_router ae) (cc_data cc) (cc_method cc) (cc_original_size cc) b = Some (Inr data)"
    and "length data = cc_original_size cc" "cc_blake3_hash cc = ae_blake3 ae data" "blake3_len_ok (ae_blake3 ae)"
  shows "decompress_block ae archive b dk entry = Some (Inr data)"
proof -
  obtain post where post: "drop off archive = block_frame ae gid cc k payload @ post"
    using assms(1) by (auto simp: frame_at_def)
  have o: "unat (of_nat off :: u64) = off" by (rule unat_of_nat_u64 [OF assms(2)])
  have small: "n \<le> MAX_DECOMPRESSED_BLOCK_SIZE \<Longrightarrow> unat (of_nat n :: u32) = n" for n
    by (intro unat_of_nat_small) (simp add: MAX_DECOMPRESSED_BLOCK_SIZE_def)
  have hash: "length (cc_blake3_hash cc) = 32" using assms(9,10) by (simp add: blake3_len_ok_def)
  show ?thesis
    unfolding decompress_block_def assms(3)
    using assms(4,5,6,7,8,9) hash
    by (simp add: o post block_frame_def validate_block_header_def small check_decoded_def wrap_error_def Let_def)
qed

lemma read_framed:
  assumes "frame_at archive off (block_frame ae gid cc k payload)" "off < 2 ^ 64"
    and "entry = \<lparr>bi_block_id = of_nat k, bi_archive_offset = of_nat off, bi_compressed_size = csize,
              bi_uncompressed_size = of_nat (cc_original_size cc), bi_solid_group_id = gid\<rparr>"
    and "length payload \<le> MAX_DECOMPRESSED_BLOCK_SIZE" "cc_original_size cc \<le> MAX_DECOMPRESSED_BLOCK_SIZE"
    and "maybe_decrypt_payload (ae_crypto ae) payload dk (of_nat k) = Inr data"
    and "length (cc_blake3_hash cc) = 32" "read_raw_block ae archive dk i entry = Inr r"
  shows "rb_payload r = data"
proof -
  obtain post where post: "drop off archive = block_frame ae gid cc k payload @ post"
    using assms(1) by (auto simp: frame_at_def)
  have o: "unat (of_nat off :: u64) = off" by (rule unat_of_nat_u64 [OF assms(2)])
  have small: "n \<le> MAX_DECOMPRESSED_BLOCK_SIZE \<Longrightarrow> unat (of_nat n :: u32) = n" for n
    by (intro unat_of_nat_small) (simp add: MAX_DECOMPRESSED_BLOCK_SIZE_def)
  show ?thesis
    using assms(8) unfolding read_raw_block_def assms(3)
    using assms(4-7) by (auto simp: o post block_frame_def validate_block_header_def small)
qed

lemma stream_framed:
  assumes "length payload \<le> MAX_DECOMPRESSED_BLOCK_SIZE" "cc_original_size cc \<le> MAX_DECOMPRESSED_BLOCK_SIZE"
    and "maybe_decrypt_payload (ae_crypto ae) payload dk (of_nat k) = Inr (cc_data cc)"
    and "decompress_chunk_with_baseline (ae_router ae) (cc_data cc) (cc_method cc) (cc_original_size cc) b = Some (Inr data)"
    and "length data = cc_original_size cc" "cc_blake3_hash cc = ae_blake3 ae data" "blake3_len_ok (ae_blake3 ae)"
  shows "decompress_block_streaming ae b dk (block_frame ae gid cc k payload @ post)
    = Some (Inr ((data, of_nat k, of_nat (length payload)), post))"
proof -
  have small: "n \<le> MAX_DECOMPRESSED_BLOCK_SIZE \<Longrightarrow> unat (of_nat n :: u32) = n" for n
    by (intro unat_of_nat_small) (simp add: MAX_DECOMPRESSED_BLOCK_SIZE_def)
  have hash: "length (cc_blake3_hash cc) = 32" using assms(6,7) by (simp add: blake3_len_ok_def)
  show ?thesis
    unfolding decompress_block_streaming_def block_header_read_def
    using assms hash by (simp add: block_frame_def small check_decoded_def wrap_error_def not_less)
qed

lemma seal_open:
  assumes "crypto_ok ce" "seal_payload ce enc i data = Inr payload"
  shows "maybe_decrypt_payload ce payload
      (map_option (\<lambda>(h, key). \<lparr>dk_cipher_id = cipher_id_code (eh_cipher_id h), dk_key = key,
         dk_master_nonce = eh_master_nonce h\<rparr>) enc) i = Inr data
    \<and> length payload \<le> length data + NONCE_SIZE + TAG_SIZE \<and> length data \<le> length payload"
proof (cases enc)
  case (Some x)
  then obtain h key where x: "enc = Some (h, key)" by (cases x) auto
  have e: "encrypt_block ce (eh_cipher_id h) key (eh_master_nonce h) i data = Inr payload"
    using assms(2) by (simp add: seal_payload_def x)
  then show ?thesis
    using iffD2 [OF decrypt_iff_encrypt [OF assms(1)] e] encrypt_block_length [OF assms(1) e]
    by (auto simp: maybe_decrypt_payload_def x)
qed (use assms in \<open>simp add: seal_payload_def maybe_decrypt_payload_def\<close>)

text \<open>The reader with the same password derives the writer's key.\<close>

lemma encryption_setup_Inr:
  assumes "encryption_setup co (Some c) = Inr enc"
  shows "\<exists>key. enc = Some (\<lparr>eh_version = HEADER_VERSION, eh_cipher_id = ec_cipher_id c, eh_salt = co_salt co,
                 eh_m_cost = DEFAULT_ARGON2_M_COST, eh_t_cost = DEFAULT_ARGON2_T_COST,
                 eh_p_cost = DEFAULT_ARGON2_P_COST, eh_master_nonce = co_nonce co,
                 eh_verification_tag = compute_verification_tag (ae_crypto (co_archive co)) key\<rparr>, key)
    \<and> derive_key (ae_crypto (co_archive co)) (ec_password c) (co_salt co)
        DEFAULT_ARGON2_M_COST DEFAULT_ARGON2_T_COST DEFAULT_ARGON2_P_COST = Inr key"
  using assms by (auto simp: encryption_setup_def Let_def bindR_Inr_iff)

lemma derive_decrypt_key_setup:
  assumes "encryption_setup co (cp_encryption cp) = Inr enc"
    and "(flags AND FLAG_ENCRYPTED \<noteq> 0) = (enc \<noteq> None)"
  shows "derive_decrypt_key (ae_crypto (co_archive co)) flags (map_option fst enc) (map_option ec_password (cp_encryption cp))
    = Inr (map_option (\<lambda>(h, key). \<lparr>dk_cipher_id = cipher_id_code (eh_cipher_id h), dk_key = key,
         dk_master_nonce = eh_master_nonce h\<rparr>) enc)"
proof (cases "cp_encryption cp")
  case None
  then have "enc = None" using assms(1) by (simp add: encryption_setup_def)
  then show ?thesis using assms(2) by (simp add: derive_decrypt_key_def)
next
  case (Some c)
  obtain key where k: "enc = Some (\<lparr>eh_version = HEADER_VERSION, eh_cipher_id = ec_cipher_id c, eh_salt = co_salt co,
                 eh_m_cost = DEFAULT_ARGON2_M_COST, eh_t_cost = DEFAULT_ARGON2_T_COST,
                 eh_p_cost = DEFAULT_ARGON2_P_COST, eh_master_nonce = co_nonce co,
                 eh_verification_tag = compute_verification_tag (ae_crypto (co_archive co)) key\<rparr>, key)"
      "derive_key (ae_crypto (co_archive co)) (ec_password c) (co_salt co)
        DEFAULT_ARGON2_M_COST DEFAULT_ARGON2_T_COST DEFAULT_ARGON2_P_COST = Inr key"
    using encryption_setup_Inr [of co c enc] assms(1) Some by auto
  have p: "\<not> DEFAULT_ARGON2_M_COST > MAX_ARGON2_M_COST" "\<not> DEFAULT_ARGON2_T_COST > MAX_ARGON2_T_COST"
      "\<not> DEFAULT_ARGON2_P_COST > MAX_ARGON2_P_COST" "DEFAULT_ARGON2_M_COST \<noteq> 0" "DEFAULT_ARGON2_T_COST \<noteq> 0"
      "DEFAULT_ARGON2_P_COST \<noteq> 0"
    by (simp_all add: DEFAULT_ARGON2_M_COST_def MAX_ARGON2_M_COST_def DEFAULT_ARGON2_T_COST_def
        MAX_ARGON2_T_COST_def DEFAULT_ARGON2_P_COST_def MAX_ARGON2_P_COST_def)
  show ?thesis
    using assms(2) p by (simp add: derive_decrypt_key_def k Some verify_password_def)
qed

text \<open>The reader is set up like the writer.\<close>

definition reader_matches :: "'s compress_env \<Rightarrow> 'p compressor \<Rightarrow> 'p decompressor \<Rightarrow> bool" where
  "reader_matches co cp dc \<longleftrightarrow>
     dc_object dc = cp_object cp \<and> dc_new_predictor dc = cp_new_predictor cp
     \<and> dc_password dc = map_option ec_password (cp_encryption cp)
     \<and> (dc_dictionary dc = cp_dictionary cp
        \<or> dc_dictionary dc = None
          \<and> Option.bind (map_option di_hash (cp_dictionary cp))
              (dictionary_by_hash (ae_blake3 (co_archive co)) (ae_builtin_dicts (co_archive co))) = cp_dictionary cp)
     \<and> (dc_max_threads dc = 0 \<or> ae_pool_builds (co_archive co) (dc_max_threads dc))"

lemma reader_baseline:
  assumes "reader_matches co cp dc" "encode_baseline cp = Inr baseline"
  shows "decode_baseline_for (co_archive co) dc (map_option di_hash (cp_dictionary cp)) = Inr baseline"
  using assms
  by (cases "cp_dictionary cp"; cases "dc_dictionary dc")
    (auto simp: reader_matches_def decode_baseline_for_def encode_baseline_def Let_def case_prod_beta
      split: sum.splits if_splits)

lemma reader_dictionary:
  "reader_matches co cp dc \<Longrightarrow>
   validate_dictionary (co_archive co) dc (map_option di_hash (cp_dictionary cp)) = Inr ()"
  by (cases "cp_dictionary cp"; cases "dc_dictionary dc") (auto simp: reader_matches_def validate_dictionary_def)

end
