(* ===== verification/Recovery.thy ===== *)
theory Recovery
  imports RoundTrip
begin

text \<open>
  What the reader recovers from a finished archive: every block decodes to the chunk that was coded
  into it, every file reassembles to its contents - a duplicate from the blocks of the file it
  duplicates - and so extraction, verification and single-file extraction do what they should.
\<close>

section \<open>Blocks and files\<close>

lemma sum_datas: "(\<Sum>i<length xs. length (xs ! i)) = sum_list (map length xs)"
  by (simp add: sum_list_sum_nth atLeast0LessThan)

lemma group_indices:
  "distinct (concat (map gr_file_indices (group_files files)))
   \<and> set (concat (map gr_file_indices (group_files files))) = {..<length files}"
proof -
  have m: "mset (concat (map gr_file_indices (group_files files))) = mset [0..<length files]"
    using group_files_ok by blast
  then have "set (concat (map gr_file_indices (group_files files))) = set [0..<length files]"
    by (metis set_mset_mset)
  then show ?thesis using m mset_eq_imp_distinct_iff [OF m] by (auto simp: atLeast0LessThan)
qed

lemma gather_decoded:
  "\<forall>i \<in> set is. i < length ds \<Longrightarrow> gather_blocks is c (map Some ds) = Inr (c @ concat (map ((!) ds) is))"
  by (induction "is" arbitrary: c) simp_all

context writer_contract
begin

abbreviation ae :: "'s archive_env" where "ae \<equiv> co_archive co"

text \<open>The bytes of the finished archive, and what the file table says about them.\<close>

lemma archive_layout:
  fixes scanned
  defines "E0 \<equiv> assign_groups (group_files (map (fst \<circ> snd) scanned)) (map fst scanned)"
  assumes c: "compressed_by co cp scanned enc baseline cgs table st archive"
    and hashes: "\<forall>e \<in> set (map fst scanned). length (fe_blake3_hash e) = 32"
  shows "\<exists>ccs h table' base body.
    wrote ae enc base ccs st \<and> ws_out st = base @ body
    \<and> booked co (cp_profile cp) baseline E0 (map (snd \<circ> snd) scanned) {..<length scanned} ccs st
    \<and> archive = archive_bytes ae h (extra_bytes enc (cp_dictionary cp)) table' (ws_groups st) body (ws_index st)
    \<and> layout_ok h (length scanned) (extra_bytes enc (cp_dictionary cp)) table' (ws_groups st) body (ws_index st)
    \<and> write_file_table (use_path_prefixes E0) [] (ws_entries st) = Inr table'
    \<and> ah_flags h = archive_flags (use_path_prefixes E0) (cp_dictionary cp \<noteq> None) (enc \<noteq> None)
    \<and> ah_file_count h = of_nat (length scanned)
    \<and> ah_solid_group_count h = of_nat (length (group_files (map (fst \<circ> snd) scanned)))
    \<and> ah_block_count h = ws_block_id st
    \<and> length base = ARCHIVE_HEADER_SIZE + length (extra_bytes enc (cp_dictionary cp)) + length table'
        + SOLID_GROUP_ENTRY_SIZE * length (ws_groups st)"
proof -
  define groups where "groups = group_files (map (fst \<circ> snd) scanned)"
  let ?datas = "map (snd \<circ> snd) scanned" and ?extra = "extra_bytes enc (cp_dictionary cp)"
  let ?h0 = "start_header cp enc E0 groups"
  let ?gt = "write_group_table (map initial_group_entry groups)"
  let ?base = "archive_header_write (ae_blake3 ae) ?h0 @ ?extra @ table @ ?gt"
  have E0: "length E0 = length scanned" "E0 = assign_groups groups (map fst scanned)"
    by (simp_all add: E0_def groups_def length_assign_groups)
  have lenH: "length (archive_header_write (ae_blake3 ae) ?h0) = ARCHIVE_HEADER_SIZE"
    using blake3_len by (simp add: lens)
  have f: "length E0 < 2 ^ 32" "length groups < 2 ^ 32" "write_file_table (use_path_prefixes E0) [] E0 = Inr table"
      "mapRun (compress_group co (cp_profile cp) baseline E0 ?datas) groups = Some (Inr cgs)"
      "foldR (write_group ae enc) (zip [0..<0 + length groups] (zip groups cgs)) (start_state ?base E0 groups) = Inr st"
      "finish_archive ae (use_path_prefixes E0) ?h0 (ARCHIVE_HEADER_SIZE + length ?extra)
         (ARCHIVE_HEADER_SIZE + length ?extra + length table) st = Inr archive"
    using c lenH by (simp_all add: compressed_by_def Let_def E0(2) [symmetric] groups_def [symmetric])
  have gi: "distinct (concat (map gr_file_indices groups))" "set (concat (map gr_file_indices groups)) = {..<length E0}"
    using group_indices [of "map (fst \<circ> snd) scanned"] by (simp_all only: groups_def E0(1) length_map)
  have w0: "wrote ae enc ?base [] (start_state ?base E0 groups)"
    by (simp add: wrote_def start_state_def all_framed_def sealed_def)
  have b0: "booked co (cp_profile cp) baseline E0 ?datas {} [] (start_state ?base E0 groups)"
    by (simp add: booked_def start_state_def)
  obtain ccs where ccs: "wrote ae enc ?base ccs st" "length (ws_groups st) = length groups"
      "booked co (cp_profile cp) baseline E0 ?datas {..<length scanned} ccs st"
    using write_groups [OF f(4,5) w0 b0 gi(1)] gi(2) by (auto simp: start_state_def E0(1))
  obtain body where body: "ws_out st = ?base @ body" using ccs(1) by (auto simp: wrote_def)
  have hash: "\<forall>e \<in> set E0. length (fe_blake3_hash e) = 32"
  proof
    fix e assume "e \<in> set E0"
    then have "entry_core e \<in> set (map entry_core (map fst scanned))"
      using assign_groups_core [of groups "map fst scanned"] by (metis E0(2) image_eqI set_map)
    then obtain e' where "e' \<in> set (map fst scanned)" "entry_core e = entry_core e'" by auto
    then show "length (fe_blake3_hash e) = 32" using hashes entry_core_eq(3) by metis
  qed
  have erase: "map erase_chunks E0 = map erase_chunks (ws_entries st)" using ccs(3) by (simp add: booked_def)
  obtain table' where t: "write_file_table (use_path_prefixes E0) [] (ws_entries st) = Inr table'"
      "length table' = length table"
    using write_file_table_cong [OF erase f(3) hash] by blast
  let ?h = "?h0\<lparr>ah_block_count := ws_block_id st, ah_file_table_offset := of_nat (ARCHIVE_HEADER_SIZE + length ?extra),
      ah_block_index_offset := of_nat (length (ws_out st))\<rparr>"
  have arch: "archive = archive_bytes ae ?h ?extra table' (ws_groups st) body (ws_index st)"
    by (rule finish_archive_Inr [OF f(6) blake3_len _ _ t, where gs = "map initial_group_entry groups"]) (use body ccs(2) in simp_all)
  have "unat (ws_block_id st) = length (ws_index st)"
    using ccs(1) by (simp add: wrote_def all_framed_def)
  then have lay: "layout_ok ?h (length scanned) ?extra table' (ws_groups st) body (ws_index st)"
    using f(1,2) lenH body t(2) ccs(2)
    by (simp add: layout_ok_def start_header_def E0(1) unat_of_nat_small length_write_group_table)
  show ?thesis
    by (intro exI [of _ ccs] exI [of _ ?h] exI [of _ table'] exI [of _ ?base] exI [of _ body])
      (use ccs body arch lay t lenH in \<open>simp add: start_header_def E0(1) groups_def [symmetric] length_write_group_table\<close>)
qed

text \<open>Every block of the archive decodes to what was coded into it, at its offset and as the next block of a stream.\<close>

definition streams_block ::
    "(encryption_header \<times> bytes) option \<Rightarrow> nat \<Rightarrow> u32 \<times> compressed_chunk \<Rightarrow> bytes option \<Rightarrow> bytes \<Rightarrow> bool" where
  "streams_block enc k x baseline d \<longleftrightarrow>
     (\<forall>payload post. seal_payload (ae_crypto ae) enc (of_nat k) (cc_data (snd x)) = Inr payload \<longrightarrow>
        decompress_block_streaming ae baseline
          (map_option (\<lambda>(h, key). \<lparr>dk_cipher_id = cipher_id_code (eh_cipher_id h), dk_key = key,
             dk_master_nonce = eh_master_nonce h\<rparr>) enc)
          (block_frame ae (fst x) (snd x) k payload @ post)
        = Some (Inr ((d, of_nat k, of_nat (length payload)), post))
        \<and> length payload \<le> cc_original_size (snd x) + 28 \<and> length payload < 2 ^ 32)"

lemma decode_written:
  assumes w: "wrote ae enc base ccs st" "ws_out st = base @ body"
    and coded: "\<forall>x \<in> set ccs. coded co profile baseline (snd x)"
    and arch: "archive = base' @ body @ tl'" "length base' = length base" "length archive < 2 ^ 64"
  defines "dk \<equiv> map_option (\<lambda>(h, key). \<lparr>dk_cipher_id = cipher_id_code (eh_cipher_id h), dk_key = key,
         dk_master_nonce = eh_master_nonce h\<rparr>) enc"
  shows "\<exists>ds. length ds = length ccs
    \<and> list_all2 (\<lambda>e d. decompress_block ae archive baseline dk e = Some (Inr d)) (ws_index st) ds
    \<and> (\<forall>k < length ccs. length (ds ! k) = cc_original_size (snd (ccs ! k))
         \<and> unat (bi_compressed_size (ws_index st ! k)) \<le> cc_original_size (snd (ccs ! k)) + 92
         \<and> decompress_chunk_with_baseline (ae_router ae) (cc_data (snd (ccs ! k))) (cc_method (snd (ccs ! k)))
             (cc_original_size (snd (ccs ! k))) baseline = Some (Inr (ds ! k))
         \<and> (\<forall>i r. read_raw_block ae archive dk i (ws_index st ! k) = Inr r \<longrightarrow>
              length (rb_payload r) \<le> unat (bi_compressed_size (ws_index st ! k)))
         \<and> streams_block enc k (ccs ! k) baseline (ds ! k))"
proof -
  have len: "length (ws_index st) = length ccs" using w(1) by (simp add: wrote_def all_framed_def)
  have "\<exists>d. decompress_block ae archive baseline dk (ws_index st ! k) = Some (Inr d)
      \<and> length d = cc_original_size (snd (ccs ! k))
      \<and> unat (bi_compressed_size (ws_index st ! k)) \<le> cc_original_size (snd (ccs ! k)) + 92
      \<and> decompress_chunk_with_baseline (ae_router ae) (cc_data (snd (ccs ! k))) (cc_method (snd (ccs ! k)))
          (cc_original_size (snd (ccs ! k))) baseline = Some (Inr d)
      \<and> (\<forall>i r. read_raw_block ae archive dk i (ws_index st ! k) = Inr r \<longrightarrow>
            length (rb_payload r) \<le> unat (bi_compressed_size (ws_index st ! k)))
      \<and> streams_block enc k (ccs ! k) baseline d" if k: "k < length ccs" for k
  proof -
    let ?cc = "snd (ccs ! k)" and ?gid = "fst (ccs ! k)"
    obtain ck ct where ck: "ch_length ck = length (ch_data ck)" "ch_length ck \<le> MAX_CHUNK_SIZE"
        "ch_blake3_hash ck = ae_blake3 ae (ch_data ck)"
        "compress_chunk_with_baseline (ae_router ae) ck baseline ct profile = Some (Inr ?cc)"
      using coded nth_mem [OF k] unfolding coded_def by blast
    note rt = router.compress_chunk_round_trip [OF ck(4,1) chunk_small [OF ck(2)]]
    obtain payload off where f: "seal_payload (ae_crypto ae) enc (of_nat k) (cc_data ?cc) = Inr payload"
        "BLOCK_HEADER_SIZE + length payload + BLOCK_TRAILER_SIZE < 2 ^ 32"
        "ws_index st ! k = \<lparr>bi_block_id = of_nat k, bi_archive_offset = of_nat off,
              bi_compressed_size = of_nat (BLOCK_HEADER_SIZE + length payload + BLOCK_TRAILER_SIZE),
              bi_uncompressed_size = of_nat (cc_original_size ?cc), bi_solid_group_id = ?gid\<rparr>"
        "frame_at (ws_out st) off (block_frame ae ?gid ?cc k payload)"
      using w(1) k unfolding wrote_def all_framed_def framed_def by blast
    have big: "length (ws_out st) < 2 ^ 64" using arch w(2) by simp
    obtain off' where o: "of_nat off = (of_nat off' :: u64)" "length base \<le> off'" "off' \<le> length (ws_out st)"
      using w(1) f(3) nth_mem [of k "ws_index st"] k len unfolding wrote_def by fastforce
    have off: "off \<le> length (ws_out st)" using f(4) by (simp add: frame_at_def)
    then have "off = off'" using o(1,3) big by (metis le_less_trans unat_of_nat_u64)
    then have frame: "frame_at archive off (block_frame ae ?gid ?cc k payload)"
      unfolding arch(1) using frame_at_move [OF f(4) [unfolded w(2)] _ arch(2)] o(2) by blast
    have small: "cc_original_size ?cc \<le> MAX_CHUNK_SIZE" "length (cc_data ?cc) \<le> cc_original_size ?cc"
        "length (ch_data ck) = cc_original_size ?cc"
      using rt ck(1,2) by simp_all
    note op = seal_open [OF crypto f(1), folded dk_def]
    have lim: "length payload \<le> MAX_DECOMPRESSED_BLOCK_SIZE" "cc_original_size ?cc \<le> MAX_DECOMPRESSED_BLOCK_SIZE"
      using op small by (simp_all add: MAX_CHUNK_SIZE_def MAX_DECOMPRESSED_BLOCK_SIZE_def NONCE_SIZE_def TAG_SIZE_def)
    have "decompress_block ae archive baseline dk (ws_index st ! k) = Some (Inr (ch_data ck))"
      by (rule decompress_framed [OF frame _ f(3) lim])
        (use op rt ck(1,3) small off big blake3_len in simp_all)
    moreover have csize: "unat (bi_compressed_size (ws_index st ! k)) = BLOCK_HEADER_SIZE + length payload + BLOCK_TRAILER_SIZE"
      unfolding f(3) using f(2) by (simp add: unat_of_nat_small del: of_nat_add)
    moreover have "BLOCK_HEADER_SIZE + length payload + BLOCK_TRAILER_SIZE \<le> cc_original_size ?cc + 92"
      using op small(2) by (simp add: BLOCK_HEADER_SIZE_def BLOCK_TRAILER_SIZE_def NONCE_SIZE_def TAG_SIZE_def)
    moreover have "length (rb_payload r) \<le> unat (bi_compressed_size (ws_index st ! k))"
      if "read_raw_block ae archive dk i (ws_index st ! k) = Inr r" for i r
    proof -
      have h: "length (cc_blake3_hash ?cc) = 32" using rt ck(3) blake3_len by (simp add: blake3_len_ok_def)
      have "rb_payload r = cc_data ?cc"
        by (rule read_framed [OF frame _ f(3) lim conjunct1 [OF op] h that]) (use off big in simp)
      then show ?thesis using op csize by simp
    qed
    moreover have "streams_block enc k (ccs ! k) baseline (ch_data ck)"
      unfolding streams_block_def dk_def [symmetric]
    proof (intro allI impI conjI)
      fix payload' post assume p: "seal_payload (ae_crypto ae) enc (of_nat k) (cc_data ?cc) = Inr payload'"
      have eq: "payload' = payload" using p f(1) by simp
      show "decompress_block_streaming ae baseline dk (block_frame ae ?gid ?cc k payload' @ post) =
          Some (Inr ((ch_data ck, of_nat k, of_nat (length payload')), post))"
        unfolding eq by (rule stream_framed [OF lim conjunct1 [OF op]]) (use rt ck(1,3) small blake3_len in simp_all)
      show "length payload' \<le> cc_original_size ?cc + 28" "length payload' < 2 ^ 32"
        using op small(2) f(2) by (simp_all add: eq NONCE_SIZE_def TAG_SIZE_def)
    qed
    ultimately show ?thesis using conjunct1 [OF rt] small(3) by (intro exI [of _ "ch_data ck"]) (metis (no_types))
  qed
  then obtain d where d: "\<And>k. k < length ccs \<Longrightarrow> decompress_block ae archive baseline dk (ws_index st ! k) = Some (Inr (d k))
      \<and> length (d k) = cc_original_size (snd (ccs ! k))
      \<and> unat (bi_compressed_size (ws_index st ! k)) \<le> cc_original_size (snd (ccs ! k)) + 92
      \<and> decompress_chunk_with_baseline (ae_router ae) (cc_data (snd (ccs ! k))) (cc_method (snd (ccs ! k)))
          (cc_original_size (snd (ccs ! k))) baseline = Some (Inr (d k))
      \<and> (\<forall>i r. read_raw_block ae archive dk i (ws_index st ! k) = Inr r \<longrightarrow>
            length (rb_payload r) \<le> unat (bi_compressed_size (ws_index st ! k)))
      \<and> streams_block enc k (ccs ! k) baseline (d k)"
    by metis
  show ?thesis
    by (intro exI [of _ "map d [0..<length ccs]"])
      (use d len in \<open>auto simp: list_all2_conv_all_nth\<close>)
qed

text \<open>A booked file is reassembled from the decoded blocks.\<close>

lemma reassemble_stored:
  assumes st: "stored co profile baseline ccs e data"
    and ds: "length ds = length ccs" "\<forall>k < length ccs. decompress_chunk_with_baseline (ae_router ae)
         (cc_data (snd (ccs ! k))) (cc_method (snd (ccs ! k))) (cc_original_size (snd (ccs ! k))) baseline
         = Some (Inr (ds ! k))"
    and size: "unat (fe_original_size e) = length data" and small: "length ccs < 2 ^ 32"
  shows "reassemble_file_from_blocks e (map Some ds) = Inr data"
proof -
  let ?a = "entry_start e" and ?z = "entry_stop e"
  obtain cks bs ct where s: "chunks_of data = Some cks"
      "list_all2 (\<lambda>ck cc. compress_chunk_with_baseline (ae_router ae) ck baseline ct profile = Some (Inr cc)) cks bs"
      "?z \<le> length ccs" "map snd (drop ?a (take ?z ccs)) = bs"
    using st unfolding stored_def entry_holds_def by blast
  note dec = compressed_chunks [OF s(1,2)]
  have az: "?a \<le> ?z" by (simp add: entry_start_def entry_stop_def)
  have len: "length bs = ?z - ?a" "length cks = ?z - ?a"
    using s(2-4) az list_all2_lengthD [OF s(2)] by auto
  have "map ((!) ds) [?a..<?z] = map ch_data cks"
  proof (rule nth_equalityI)
    fix k assume "k < length (map ((!) ds) [?a..<?z])"
    then have k: "k < length cks" "?a + k < length ccs" "?a + k < ?z" using len s(3) by simp_all
    have "bs ! k = snd (ccs ! (?a + k))" using k s(3) len by (simp add: s(4) [symmetric])
    then show "map ((!) ds) [?a..<?z] ! k = map ch_data cks ! k"
      using list_all2_nthD [OF conjunct2 [OF dec] k(1)] ds(2) k by simp
  qed (simp add: len)
  then have all: "concat (map ((!) ds) [?a..<?z]) = data" using dec by simp
  show ?thesis
  proof (cases "unat (fe_chunk_count e) = 0")
    case True
    then have "data = []" using all by (simp add: entry_start_def entry_stop_def)
    then show ?thesis using True by (simp add: reassemble_file_from_blocks_def file_block_range_def Let_def)
  next
    case False
    have "gather_blocks [?a..<?z] [] (map Some ds) = Inr data"
      using gather_decoded [of "[?a..<?z]" ds "[]"] s(3) ds(1) all by auto
    then show ?thesis
      using False s(3) small ds(1) size
      by (simp add: reassemble_file_from_blocks_def file_block_range_def Let_def truncate_to_file_size_def
          entry_start_def entry_stop_def)
  qed
qed

end

section \<open>Extraction of what was compressed\<close>

text \<open>The inputs whose entries the reader accepts, and inputs without hash collisions.\<close>

definition extractable :: "input_file \<Rightarrow> bool" where
  "extractable f \<longleftrightarrow>
     (case map_option normalize_separators (if_rel_path f) of
        None \<Rightarrow> False
      | Some path \<Rightarrow> utf8_valid path \<and> safe_path path \<and> length path \<le> MAX_PATH_LENGTH)"

definition no_collisions :: "(bytes \<Rightarrow> bytes) \<Rightarrow> input_file list \<Rightarrow> bool" where
  "no_collisions blake3 inputs \<longleftrightarrow>
     (\<forall>f \<in> set inputs. \<forall>g \<in> set inputs. \<forall>a b. if_data f = Inr a \<and> if_data g = Inr b
        \<and> length a = length b \<and> blake3 a = blake3 b \<longrightarrow> a = b)"

definition within_limits :: "compression_stats \<Rightarrow> bool" where
  "within_limits stats \<longleftrightarrow>
     cs_file_count stats \<le> MAX_FILE_COUNT \<and> cs_block_count stats \<le> MAX_BLOCK_COUNT
     \<and> cs_group_count stats \<le> MAX_SOLID_GROUP_COUNT"

text \<open>An entry describes an input with its contents.\<close>

definition restored :: "(bytes \<Rightarrow> bytes) \<Rightarrow> input_file \<Rightarrow> file_entry \<times> bytes \<Rightarrow> bool" where
  "restored blake3 f x \<longleftrightarrow> scanned_ok blake3 f (fst x) (snd x)"

lemma scanned_list:
  assumes "scan_files co inputs 0 = Inr scanned"
  defines "datas \<equiv> map (snd \<circ> snd) scanned"
  shows "list_all2 (\<lambda>f x. scanned_ok (ae_blake3 (co_archive co)) f (fst x) (snd x)) inputs (zip (map fst scanned) datas)
    \<and> sum_list (map length datas) \<le> MAX_TOTAL_INPUT_SIZE \<and> length datas = length scanned
    \<and> length inputs = length scanned"
proof -
  note s = scan_files_Inr [OF assms(1)]
  have z: "zip (map fst scanned) datas = map (\<lambda>x. (fst x, snd (snd x))) scanned"
    by (simp add: datas_def list_eq_iff_nth_eq)
  have len: "length inputs = length scanned" using s list_all2_lengthD by blast
  have "inputs = [] \<Longrightarrow> scanned = []" using len by simp
  then have "sum_list (map length datas) \<le> MAX_TOTAL_INPUT_SIZE"
    using s by (cases "inputs = []") (auto simp: datas_def comp_def)
  then show ?thesis
    using s len unfolding z by (auto simp: list_all2_map2 datas_def elim!: list_all2_mono split: prod.splits)
qed

lemma file_entry_ok_scanned:
  "scanned_ok blake3 f e d \<Longrightarrow> extractable f \<Longrightarrow> blake3_len_ok blake3 \<Longrightarrow> file_entry_ok e"
  by (auto simp: scanned_ok_def extractable_def file_entry_ok_def blake3_len_ok_def split: option.splits)

text \<open>The fields between header and file table read back.\<close>

lemma extra_bytes_read:
  assumes "length (co_salt co) = SALT_SIZE" "length (co_nonce co) = NONCE_SIZE" "crypto_ok (ae_crypto (co_archive co))"
    and "encryption_setup co config = Inr enc" "\<forall>d \<in> set_option dict. length (di_hash d) = 32"
  shows "read_optional (enc \<noteq> None) encryption_header_read (extra_bytes enc dict @ s)
      = Inr (map_option fst enc, (case dict of Some d \<Rightarrow> di_hash d | None \<Rightarrow> []) @ s)
    \<and> read_optional (dict \<noteq> None) (read_exact 32) ((case dict of Some d \<Rightarrow> di_hash d | None \<Rightarrow> []) @ s)
      = Inr (map_option di_hash dict, s)"
proof -
  have "encryption_header_ok h" if "enc = Some (h, key)" for h key
  proof -
    have "config \<noteq> None" using assms(4) that by (cases config) (simp_all add: encryption_setup_def)
    then obtain c where c: "config = Some c" by blast
    have "length (compute_verification_tag (ae_crypto (co_archive co)) k) = VERIFICATION_TAG_SIZE" for k
      using assms(3) by (simp add: crypto_ok_def compute_verification_tag_def VERIFICATION_TAG_SIZE_def Let_def)
    then show ?thesis
      using encryption_setup_Inr [of co c enc] assms(1,2,4) c that default_params_ok
      by (auto simp: encryption_header_ok_def)
  qed
  then show ?thesis
    using assms(5) by (auto simp: read_optional_def extra_bytes_def encryption_header_read_write split: option.splits)
qed

lemma distinct_of_nat_u32: "n < 2 ^ 32 \<Longrightarrow> distinct (map of_nat [0..<n] :: u32 list)"
  unfolding distinct_map inj_on_def by (metis atLeastLessThan_iff distinct_upt less_trans set_upt unat_of_nat_small)

lemma index_compressed_le:
  assumes "length es = length ccs"
    and "\<And>k. k < length ccs \<Longrightarrow> unat (bi_compressed_size (es ! k)) \<le> f (ccs ! k) + m"
  shows "index_compressed es \<le> sum_list (map f ccs) + m * length ccs"
  using assms
proof (induction es ccs rule: list_induct2)
  case (Cons e es x xs)
  have "unat (bi_compressed_size e) \<le> f x + m" using Cons.prems [of 0] by simp
  moreover have "index_compressed es \<le> sum_list (map f xs) + m * length xs"
    using Cons.prems [of "Suc _"] by (intro Cons.IH) simp
  ultimately show ?case by (simp add: index_compressed_def)
qed (simp add: index_compressed_def)

definition writer_key :: "(encryption_header \<times> bytes) option \<Rightarrow> decrypt_key option" where
  "writer_key enc = map_option (\<lambda>(h, key). \<lparr>dk_cipher_id = cipher_id_code (eh_cipher_id h), dk_key = key,
      dk_master_nonce = eh_master_nonce h\<rparr>) enc"

text \<open>
  A finished archive: the inputs as scanned, the writer's last state, and the metadata the reader
  finds in the bytes.
\<close>

definition finished ::
    "'s compress_env \<Rightarrow> 'p compressor \<Rightarrow> input_file list \<Rightarrow> bytes \<Rightarrow> (encryption_header \<times> bytes) option \<Rightarrow> bytes option
      \<Rightarrow> file_entry list \<Rightarrow> bytes list \<Rightarrow> (u32 \<times> compressed_chunk) list \<Rightarrow> writer_state \<Rightarrow> bytes \<Rightarrow> bytes \<Rightarrow> bytes \<Rightarrow> bytes
      \<Rightarrow> archive_header \<Rightarrow> archive_footer \<Rightarrow> bool" where
  "finished co cp inputs archive enc baseline E0 datas ccs st base base' body rest h footer \<longleftrightarrow>
     (\<forall>i < length inputs. scanned_ok (ae_blake3 (co_archive co)) (inputs ! i) (E0 ! i) (datas ! i)
        \<and> scanned_ok (ae_blake3 (co_archive co)) (inputs ! i) (ws_entries st ! i) (datas ! i))
     \<and> length E0 = length inputs \<and> length datas = length inputs \<and> length (ws_entries st) = length inputs
     \<and> length inputs < 2 ^ 32 \<and> sum_list (map length datas) \<le> MAX_TOTAL_INPUT_SIZE
     \<and> encryption_setup co (cp_encryption cp) = Inr enc \<and> encode_baseline cp = Inr baseline
     \<and> wrote (co_archive co) enc base ccs st \<and> ws_out st = base @ body
     \<and> booked co (cp_profile cp) baseline E0 datas {..<length inputs} ccs st
     \<and> archive = base' @ body @ rest \<and> length base' = length base
     \<and> read_metadata (co_archive co) archive = Inr \<lparr>am_header = h, am_footer = footer,
         am_file_entries = ws_entries st, am_solid_groups = ws_groups st, am_block_index = ws_index st,
         am_encryption_header = map_option fst enc, am_dictionary_hash = map_option di_hash (cp_dictionary cp)\<rparr>
     \<and> (ah_flags h AND FLAG_ENCRYPTED \<noteq> 0) = (enc \<noteq> None)
     \<and> read_metadata_streaming (co_archive co) archive = Inr (\<lparr>sm_header = h, sm_file_entries = ws_entries st,
         sm_solid_groups = ws_groups st, sm_encryption_header = map_option fst enc,
         sm_dictionary_hash = map_option di_hash (cp_dictionary cp)\<rparr>, body @ rest)
     \<and> ah_block_count h = ws_block_id st"

text \<open>What the reader makes of an archive, independently of how it goes about it.\<close>

definition opened ::
    "'s compress_env \<Rightarrow> 'p compressor \<Rightarrow> input_file list \<Rightarrow> bytes \<Rightarrow> archive_metadata \<Rightarrow> decrypt_key option \<Rightarrow> bytes option
      \<Rightarrow> bytes list \<Rightarrow> bytes list \<Rightarrow> bool" where
  "opened co cp inputs archive md dk baseline ds datas \<longleftrightarrow>
     read_metadata (co_archive co) archive = Inr md
     \<and> am_dictionary_hash md = map_option di_hash (cp_dictionary cp)
     \<and> derive_decrypt_key (ae_crypto (co_archive co)) (ah_flags (am_header md)) (am_encryption_header md)
         (map_option ec_password (cp_encryption cp)) = Inr dk
     \<and> encode_baseline cp = Inr baseline
     \<and> list_all2 (\<lambda>e d. decompress_block (co_archive co) archive baseline dk e = Some (Inr d)) (am_block_index md) ds
     \<and> sum_list (map length ds) \<le> MAX_TOTAL_DECOMPRESSED_SIZE
     \<and> index_compressed (am_block_index md) \<le> MAX_TOTAL_COMPRESSED_READ_SIZE
     \<and> (\<forall>e \<in> set (am_block_index md). \<forall>k r. read_raw_block (co_archive co) archive dk k e = Inr r \<longrightarrow>
          length (rb_payload r) \<le> unat (bi_compressed_size e))
     \<and> list_all2 (restored (ae_blake3 (co_archive co))) inputs (zip (am_file_entries md) datas)
     \<and> list_all2 (\<lambda>e d. reassemble_file_from_blocks e (map Some ds) = Inr d
          \<and> ae_blake3 (co_archive co) d = fe_blake3_hash e) (am_file_entries md) datas
     \<and> length (am_file_entries md) < 2 ^ 32
     \<and> (\<exists>s cs. read_metadata_streaming (co_archive co) archive = Inr (streaming_view md, s)
          \<and> stream_holds (decompress_block_streaming (co_archive co) baseline dk) s ds cs
          \<and> sum_list cs \<le> MAX_TOTAL_COMPRESSED_READ_SIZE)
     \<and> unat (ah_block_count (am_header md)) = length ds"

context writer_contract
begin

text \<open>A booked file reassembles, also when its blocks are those of a duplicate.\<close>

lemma reassemble_booked:
  assumes b: "booked co profile baseline E0 datas {..<n} ccs st" "length E0 = n"
    and scan: "\<And>m. m < n \<Longrightarrow> scanned_ok (ae_blake3 ae) (inputs ! m) (E0 ! m) (datas ! m)"
    and short: "\<And>m. m < n \<Longrightarrow> length (datas ! m) < 2 ^ 64"
    and inputs: "length inputs = n" "no_collisions (ae_blake3 ae) inputs"
    and ds: "length ds = length ccs" "\<forall>k < length ccs. decompress_chunk_with_baseline (ae_router ae)
         (cc_data (snd (ccs ! k))) (cc_method (snd (ccs ! k))) (cc_original_size (snd (ccs ! k))) baseline
         = Some (Inr (ds ! k))"
    and few: "length ccs < 2 ^ 32" and i: "i < n"
    and size: "fe_original_size (ws_entries st ! i) = of_nat (length (datas ! i))"
  shows "reassemble_file_from_blocks (ws_entries st ! i) (map Some ds) = Inr (datas ! i)"
proof -
  obtain j where j: "j < n" "file_key (E0 ! j) = file_key (E0 ! i)"
      "stored co profile baseline ccs (ws_entries st ! i) (datas ! j)"
    using b i unfolding booked_def by auto
  have key: "file_key (E0 ! m) = (ae_blake3 ae (datas ! m), of_nat (length (datas ! m)))"
      "if_data (inputs ! m) = Inr (datas ! m)" if "m < n" for m
    using scan [OF that] by (simp_all add: scanned_ok_def file_key_def)
  have eq: "ae_blake3 ae (datas ! j) = ae_blake3 ae (datas ! i)"
      "(of_nat (length (datas ! j)) :: u64) = of_nat (length (datas ! i))"
    using j(2) key(1) [OF i] key(1) [OF j(1)] by simp_all
  have "length (datas ! j) = length (datas ! i)"
    using arg_cong [OF eq(2), of unat] short [OF i] short [OF j(1)] by (simp only: unat_of_nat_u64)
  moreover have "inputs ! i \<in> set inputs" "inputs ! j \<in> set inputs" using inputs(1) i j(1) by simp_all
  ultimately have same: "datas ! j = datas ! i"
    using inputs(2) eq(1) key(2) [OF i] key(2) [OF j(1)] unfolding no_collisions_def by blast
  have "unat (fe_original_size (ws_entries st ! i)) = length (datas ! i)"
    unfolding size by (rule unat_of_nat_u64 [OF short [OF i]])
  then show ?thesis using reassemble_stored [OF j(3) [unfolded same] ds _ few] by blast
qed

text \<open>The blocks as a stream.\<close>

lemma frames_held:
  assumes "length payloads = length ccs" "length ds = length ccs"
    and "\<forall>j < length ccs. seal_payload (ae_crypto ae) enc (of_nat (k + j)) (cc_data (snd (ccs ! j))) = Inr (payloads ! j)
         \<and> streams_block enc (k + j) (ccs ! j) baseline (ds ! j)"
  shows "stream_holds (decompress_block_streaming ae baseline (writer_key enc)) (frames ae k ccs payloads @ post) ds
      (map length payloads)
    \<and> list_all2 (\<lambda>p x. length p \<le> cc_original_size (snd x) + 28) payloads ccs"
  using assms
proof (induction ccs arbitrary: k payloads ds)
  case (Cons x ccs)
  obtain p ps d ds' where e: "payloads = p # ps" "ds = d # ds'"
    using Cons.prems(1,2) by (cases payloads; cases ds) auto
  obtain gid cc where x: "x = (gid, cc)" by fastforce
  have at0: "seal_payload (ae_crypto ae) enc (of_nat k) (cc_data (snd x)) = Inr p" "streams_block enc k x baseline d"
    using Cons.prems(3) [rule_format, of 0] by (simp_all add: e)
  have "seal_payload (ae_crypto ae) enc (of_nat (Suc k + j)) (cc_data (snd (ccs ! j))) = Inr (ps ! j)
      \<and> streams_block enc (Suc k + j) (ccs ! j) baseline (ds' ! j)" if "j < length ccs" for j
    using Cons.prems(3) [rule_format, of "Suc j"] that by (simp add: e)
  then have rest: "stream_holds (decompress_block_streaming ae baseline (writer_key enc)) (frames ae (Suc k) ccs ps @ post) ds'
      (map length ps) \<and> list_all2 (\<lambda>p x. length p \<le> cc_original_size (snd x) + 28) ps ccs"
    using Cons.IH [of ps ds' "Suc k"] Cons.prems(1,2) by (simp add: e)
  have small: "length p < 2 ^ 32" "length p \<le> cc_original_size (snd x) + 28"
    using at0 by (auto simp: streams_block_def)
  have "decompress_block_streaming ae baseline (writer_key enc) (block_frame ae gid cc k p @ frames ae (Suc k) ccs ps @ post)
      = Some (Inr ((d, of_nat k, of_nat (length p)), frames ae (Suc k) ccs ps @ post))"
    using at0 unfolding streams_block_def writer_key_def x by simp
  then show ?case using rest small by (auto simp: e x unat_of_nat_small)
qed simp

lemma compressed_finished:
  assumes run: "compress_to_archive co cp inputs = Some (Inr (stats, archive))"
    and inputs: "\<forall>f \<in> set inputs. extractable f"
    and limits: "within_limits stats" "length archive < 2 ^ 64"
    and dict: "\<forall>d \<in> set_option (cp_dictionary cp). length (di_hash d) = 32"
  shows "\<exists>enc baseline E0 datas ccs st base base' body rest h footer.
    finished co cp inputs archive enc baseline E0 datas ccs st base base' body rest h footer
    \<and> length ccs \<le> unat MAX_BLOCK_COUNT"
proof -
  obtain scanned enc baseline cgs table st where c: "scan_files co inputs 0 = Inr scanned"
      "compressed_by co cp scanned enc baseline cgs table st archive"
      "cs_block_count stats = ws_block_id st" "cs_file_count stats = of_nat (length scanned)"
      "cs_group_count stats = of_nat (length (group_files (map (fst \<circ> snd) scanned)))"
    using compress_to_archive_Inr [OF run] by blast
  define datas where "datas = map (snd \<circ> snd) scanned"
  define E0 where "E0 = assign_groups (group_files (map (fst \<circ> snd) scanned)) (map fst scanned)"
  let ?extra = "extra_bytes enc (cp_dictionary cp)"
  let ?n = "length scanned"
  note scanned = scanned_list [OF c(1), folded datas_def]
  have ok: "scanned_ok (ae_blake3 ae) (inputs ! i) (fst (scanned ! i)) (datas ! i)" if "i < ?n" for i
    using list_all2_nthD [OF conjunct1 [OF scanned], of i] scanned that by auto
  have hashes: "\<forall>e \<in> set (map fst scanned). length (fe_blake3_hash e) = 32"
  proof
    fix e assume "e \<in> set (map fst scanned)"
    then obtain i where "i < ?n" "e = fst (scanned ! i)" by (auto simp: in_set_conv_nth)
    then show "length (fe_blake3_hash e) = 32" using ok blake3_len by (simp add: scanned_ok_def blake3_len_ok_def)
  qed
  obtain ccs h table' base body where l:
      "wrote ae enc base ccs st" "ws_out st = base @ body"
      "booked co (cp_profile cp) baseline E0 datas {..<?n} ccs st"
      "archive = archive_bytes ae h ?extra table' (ws_groups st) body (ws_index st)"
      "layout_ok h ?n ?extra table' (ws_groups st) body (ws_index st)"
      "write_file_table (use_path_prefixes E0) [] (ws_entries st) = Inr table'"
      "ah_flags h = archive_flags (use_path_prefixes E0) (cp_dictionary cp \<noteq> None) (enc \<noteq> None)"
      "ah_file_count h = of_nat ?n" "ah_solid_group_count h = of_nat (length (group_files (map (fst \<circ> snd) scanned)))"
      "ah_block_count h = ws_block_id st"
      "length base = ARCHIVE_HEADER_SIZE + length ?extra + length table' + SOLID_GROUP_ENTRY_SIZE * length (ws_groups st)"
    using archive_layout [OF c(2) hashes, folded datas_def E0_def] by blast
  have conf: "encryption_setup co (cp_encryption cp) = Inr enc" "encode_baseline cp = Inr baseline"
    using c(2) by (simp_all add: compressed_by_def Let_def)
  have lenE: "length E0 = ?n" by (simp add: E0_def length_assign_groups)
  have lenW: "length (ws_entries st) = ?n" using booked_length [OF l(3)] lenE by simp
  have core: "map entry_core (ws_entries st) = map entry_core (map fst scanned)"
    using erase_core [of "ws_entries st" E0] l(3) assign_groups_core by (simp add: booked_def E0_def)
  have entry: "scanned_ok (ae_blake3 ae) (inputs ! i) (ws_entries st ! i) (datas ! i)" if "i < ?n" for i
  proof -
    have "entry_core (ws_entries st ! i) = entry_core (fst (scanned ! i))"
      using core that lenW by (metis length_map nth_map)
    then show ?thesis using scanned_ok_core ok [OF that] by blast
  qed
  have entries: "\<forall>e \<in> set (ws_entries st). file_entry_ok e \<and> sanitize_permissions e = e"
  proof
    fix e assume "e \<in> set (ws_entries st)"
    then obtain i where i: "i < ?n" "e = ws_entries st ! i" using lenW by (auto simp: in_set_conv_nth)
    have "extractable (inputs ! i)" using inputs scanned i(1) by simp
    then show "file_entry_ok e \<and> sanitize_permissions e = e"
      using file_entry_ok_scanned [OF entry [OF i(1)] _ blake3_len] entry [OF i(1)] i(2) by (simp add: scanned_ok_def)
  qed
  have ccs: "unat (ws_block_id st) = length ccs" "length (ws_index st) = length ccs"
    using l(1) by (simp_all add: wrote_def all_framed_def)
  have few: "length ccs < 2 ^ 32" using ccs(1) unat_bounds [of "ws_block_id st"] by simp
  have "bi_block_id (ws_index st ! k) = of_nat k" if "k < length ccs" for k
    using l(1) that by (auto simp: wrote_def all_framed_def framed_def)
  then have "map bi_block_id (ws_index st) = map of_nat [0..<length ccs]"
    using ccs(2) by (intro nth_equalityI) simp_all
  then have ids: "distinct (map bi_block_id (ws_index st))"
    using distinct_of_nat_u32 [OF few] by simp
  have lim: "archive_header_within_limits h"
    using limits(1) c(3-5) l(8-10) by (simp add: archive_header_within_limits_def within_limits_def)
  note extra = extra_bytes_read [OF salt_len nonce_len crypto conf(1) dict]
  note bits = archive_flags_bits [of "use_path_prefixes E0" "cp_dictionary cp \<noteq> None" "enc \<noteq> None", folded l(7)]
  obtain footer where md: "read_metadata ae archive = Inr \<lparr>am_header = h, am_footer = footer,
      am_file_entries = ws_entries st, am_solid_groups = ws_groups st, am_block_index = ws_index st,
      am_encryption_header = map_option fst enc, am_dictionary_hash = map_option di_hash (cp_dictionary cp)\<rparr>"
  proof -
    have "map sanitize_permissions (ws_entries st) = ws_entries st" using entries by (simp add: map_idI)
    then show ?thesis
      using read_metadata_archive_bytes [OF blake3_len l(5) [folded lenW] limits(2) [unfolded l(4)] lim
          conjunct1 [OF extra, folded bits(3)] conjunct2 [OF extra, folded bits(2)] l(6) [folded bits(1)] _ ids]
        entries that unfolding l(4) by auto
  qed
  have stream: "read_metadata_streaming ae (archive_header_write (ae_blake3 ae) h @ ?extra @ table' @ write_group_table (ws_groups st) @ s)
      = Inr (\<lparr>sm_header = h, sm_file_entries = ws_entries st, sm_solid_groups = ws_groups st,
          sm_encryption_header = map_option fst enc, sm_dictionary_hash = map_option di_hash (cp_dictionary cp)\<rparr>, s)" for s
  proof -
    have "map sanitize_permissions (ws_entries st) = ws_entries st" using entries by (simp add: map_idI)
    then show ?thesis
      using read_metadata_streaming_archive_bytes [OF blake3_len l(5) [folded lenW] lim
          conjunct1 [OF extra, folded bits(3)] conjunct2 [OF extra, folded bits(2)] l(6) [folded bits(1)], of s] entries
      by simp
  qed
  let ?tl = "concat (map block_index_entry_write (ws_index st))
     @ archive_footer_write (ae_crc ae)
         \<lparr>af_block_index_offset = ah_block_index_offset h, af_file_table_offset = ah_file_table_offset h,
          af_block_count = ah_block_count h, af_file_count = ah_file_count h\<rparr>"
  let ?base' = "archive_header_write (ae_blake3 ae) h @ ?extra @ table' @ write_group_table (ws_groups st)"
  have arch: "archive = ?base' @ body @ ?tl" by (simp add: l(4) archive_bytes_def)
  have lenb: "length ?base' = length base" using blake3_len by (simp add: l(11) lens length_write_group_table)
  have scan0: "scanned_ok (ae_blake3 ae) (inputs ! m) (E0 ! m) (datas ! m)" if "m < ?n" for m
  proof -
    have "entry_core (E0 ! m) = entry_core (fst (scanned ! m))"
      using assign_groups_core [of "group_files (map (fst \<circ> snd) scanned)" "map fst scanned"] that lenE
      by (metis E0_def length_map nth_map)
    then show ?thesis using scanned_ok_core ok [OF that] by blast
  qed
  have "?n < 2 ^ 32" using c(2) by (simp add: compressed_by_def Let_def length_assign_groups)
  then have "finished co cp inputs archive enc baseline E0 datas ccs st base ?base' body ?tl h footer"
    unfolding finished_def using scan0 entry scanned lenE lenW conf l(1-3,10) arch lenb md bits(3)
    by (simp add: stream)
  moreover have "length ccs \<le> unat MAX_BLOCK_COUNT"
    using limits(1) c(3) ccs(1) by (simp add: within_limits_def word_le_nat_alt)
  ultimately show ?thesis by blast
qed

lemma finished_opened:
  assumes fin: "finished co cp inputs archive enc baseline E0 datas ccs st base base' body rest h footer"
    and few_blocks: "length ccs \<le> unat MAX_BLOCK_COUNT"
    and collisions: "no_collisions (ae_blake3 ae) inputs" and size: "length archive < 2 ^ 64"
  shows "\<exists>md ds. opened co cp inputs archive md (writer_key enc) baseline ds datas"
proof -
  let ?n = "length inputs"
  note f = fin [unfolded finished_def]
  have l: "wrote ae enc base ccs st" "ws_out st = base @ body"
      "booked co (cp_profile cp) baseline E0 datas {..<?n} ccs st" "archive = base' @ body @ rest"
      "length base' = length base"
    using f by blast+
  have lens: "length E0 = ?n" "length datas = ?n" "length (ws_entries st) = ?n"
      "sum_list (map length datas) \<le> MAX_TOTAL_INPUT_SIZE"
    using f by blast+
  have ccs: "unat (ws_block_id st) = length ccs" "length (ws_index st) = length ccs"
    using l(1) by (simp_all add: wrote_def all_framed_def)
  have few: "length ccs < 2 ^ 32" using ccs(1) unat_bounds [of "ws_block_id st"] by simp
  have coded: "\<forall>x \<in> set ccs. coded co (cp_profile cp) baseline (snd x)" using l(3) by (simp add: booked_def)
  obtain ds where ds: "length ds = length ccs"
      "list_all2 (\<lambda>e d. decompress_block ae archive baseline (writer_key enc) e = Some (Inr d)) (ws_index st) ds"
      "\<And>k. k < length ccs \<Longrightarrow> length (ds ! k) = cc_original_size (snd (ccs ! k))
         \<and> unat (bi_compressed_size (ws_index st ! k)) \<le> cc_original_size (snd (ccs ! k)) + 92
         \<and> decompress_chunk_with_baseline (ae_router ae) (cc_data (snd (ccs ! k))) (cc_method (snd (ccs ! k)))
             (cc_original_size (snd (ccs ! k))) baseline = Some (Inr (ds ! k))
         \<and> (\<forall>i r. read_raw_block ae archive (writer_key enc) i (ws_index st ! k) = Inr r \<longrightarrow>
              length (rb_payload r) \<le> unat (bi_compressed_size (ws_index st ! k)))
         \<and> streams_block enc k (ccs ! k) baseline (ds ! k)"
    using decode_written [OF l(1,2) coded l(4,5) size, folded writer_key_def] by blast
  have "sum_list (map (\<lambda>x. cc_original_size (snd x)) ccs) \<le> (\<Sum>i<length datas. length (datas ! i))"
    using l(3) lens(2) by (simp add: booked_def)
  then have input: "sum_list (map (\<lambda>x. cc_original_size (snd x)) ccs) \<le> MAX_TOTAL_INPUT_SIZE"
    using lens(4) sum_datas [of datas] by linarith
  have "map length ds = map (\<lambda>x. cc_original_size (snd x)) ccs"
    using ds(1,3) by (intro nth_equalityI) simp_all
  then have small: "sum_list (map length ds) \<le> MAX_TOTAL_DECOMPRESSED_SIZE"
    using input by (simp add: MAX_TOTAL_INPUT_SIZE_def MAX_TOTAL_DECOMPRESSED_SIZE_def)
  have "index_compressed (ws_index st) \<le> sum_list (map (\<lambda>x. cc_original_size (snd x)) ccs) + 92 * length ccs"
    using ds(3) ccs(2) by (intro index_compressed_le) simp_all
  then have index: "index_compressed (ws_index st) \<le> MAX_TOTAL_COMPRESSED_READ_SIZE"
    using input few_blocks by (simp add: MAX_TOTAL_INPUT_SIZE_def MAX_TOTAL_COMPRESSED_READ_SIZE_def MAX_BLOCK_COUNT_def)
  have payloads: "length (rb_payload r) \<le> unat (bi_compressed_size e)"
    if "e \<in> set (ws_index st)" "read_raw_block ae archive (writer_key enc) k e = Inr r" for k e r
  proof -
    obtain m where "m < length ccs" "e = ws_index st ! m" using \<open>e \<in> set (ws_index st)\<close> ccs(2) by (auto simp: in_set_conv_nth)
    then show ?thesis using ds(3) that(2) by blast
  qed
  have short: "length (datas ! m) < 2 ^ 64" if m: "m < ?n" for m
  proof -
    have "length (datas ! m) \<le> sum_list (map length datas)"
      using m lens(2) by (intro member_le_sum_list) auto
    then show ?thesis using lens(4) by (simp add: MAX_TOTAL_INPUT_SIZE_def)
  qed
  have each: "reassemble_file_from_blocks (ws_entries st ! i) (map Some ds) = Inr (datas ! i)" if i: "i < ?n" for i
  proof (rule reassemble_booked [OF l(3) lens(1) _ short refl collisions ds(1) _ few i])
    show "fe_original_size (ws_entries st ! i) = of_nat (length (datas ! i))"
      using f i by (simp add: scanned_ok_def)
  qed (use f ds(3) in simp_all)
  have whole: "list_all2 (\<lambda>e d. reassemble_file_from_blocks e (map Some ds) = Inr d \<and> ae_blake3 ae d = fe_blake3_hash e)
      (ws_entries st) datas"
    using each f lens by (simp add: list_all2_conv_all_nth scanned_ok_def)
  have same: "list_all2 (restored (ae_blake3 ae)) inputs (zip (ws_entries st) datas)"
    using f lens by (simp add: list_all2_conv_all_nth restored_def)
  have key: "derive_decrypt_key (ae_crypto ae) (ah_flags h) (map_option fst enc) (map_option ec_password (cp_encryption cp))
      = Inr (writer_key enc)"
    using derive_decrypt_key_setup [of co cp enc "ah_flags h"] f by (simp add: writer_key_def)
  have stream: "\<exists>s cs. read_metadata_streaming ae archive = Inr (streaming_view
         \<lparr>am_header = h, am_footer = footer, am_file_entries = ws_entries st,
          am_solid_groups = ws_groups st, am_block_index = ws_index st,
          am_encryption_header = map_option fst enc, am_dictionary_hash = map_option di_hash (cp_dictionary cp)\<rparr>, s)
      \<and> stream_holds (decompress_block_streaming ae baseline (writer_key enc)) s ds cs
      \<and> sum_list cs \<le> MAX_TOTAL_COMPRESSED_READ_SIZE"
  proof -
    obtain ps where ps: "ws_out st = base @ frames ae 0 ccs ps" "sealed ae enc ccs ps"
      using l(1) by (auto simp: wrote_def)
    have body: "body = frames ae 0 ccs ps" using ps(1) l(2) by simp
    have len: "length ps = length ccs" using ps(2) by (simp add: sealed_def)
    have "\<forall>j < length ccs. seal_payload (ae_crypto ae) enc (of_nat (0 + j)) (cc_data (snd (ccs ! j))) = Inr (ps ! j)
         \<and> streams_block enc (0 + j) (ccs ! j) baseline (ds ! j)"
      using ps(2) ds(3) by (simp add: sealed_def)
    note held = frames_held [OF len ds(1) this, of "rest"]
    have "sum_list (map length ps) \<le> sum_list (map (\<lambda>x. cc_original_size (snd x)) ccs) + 28 * length ccs"
      using conjunct2 [OF held] by (induction rule: list_all2_induct) auto
    then have "sum_list (map length ps) \<le> MAX_TOTAL_COMPRESSED_READ_SIZE"
      using input few_blocks by (simp add: MAX_TOTAL_INPUT_SIZE_def MAX_TOTAL_COMPRESSED_READ_SIZE_def MAX_BLOCK_COUNT_def)
    moreover have "read_metadata_streaming ae archive = Inr (\<lparr>sm_header = h, sm_file_entries = ws_entries st,
         sm_solid_groups = ws_groups st, sm_encryption_header = map_option fst enc,
         sm_dictionary_hash = map_option di_hash (cp_dictionary cp)\<rparr>, frames ae 0 ccs ps @ rest)"
      using f unfolding body by blast
    ultimately show ?thesis using conjunct1 [OF held] by (auto simp: streaming_view_def)
  qed
  have count: "unat (ah_block_count h) = length ds" using f ccs(1) ds(1) by simp
  show ?thesis
    unfolding opened_def using f ds(2) small index payloads whole same key lens stream count
    by (intro exI [of _ "\<lparr>am_header = h, am_footer = footer, am_file_entries = ws_entries st,
         am_solid_groups = ws_groups st, am_block_index = ws_index st,
         am_encryption_header = map_option fst enc, am_dictionary_hash = map_option di_hash (cp_dictionary cp)\<rparr>"]
        exI [of _ ds]) (simp only: archive_metadata.simps archive_metadata.select_convs simp_thms; blast)
qed

text \<open>The two ways of decoding all blocks of such an archive.\<close>

lemma opened_blocks:
  assumes op: "opened co cp inputs archive md dk baseline ds datas" and reader: "reader_matches co cp dc"
  shows "decompress_blocks_sequential ae dc archive md dk = Some (Inr (map Some ds))
    \<and> decompress_blocks_parallel ae dc archive md dk = Some (Inr (map Some ds))"
proof -
  note f = op [unfolded opened_def]
  have seq: "decompress_blocks_sequential ae dc archive md dk = Some (Inr (map Some ds))"
    using sequential_blocks_decoded [of "decompress_block ae archive baseline dk" "am_block_index md" ds
        "replicate (length (am_block_index md)) None" 0 0 0] f reader_baseline [OF reader, of baseline]
    by (simp add: decompress_blocks_sequential_def)
  then show ?thesis using sequential_then_parallel [OF seq] f reader by (auto simp: reader_matches_def)
qed

lemma opened_extract:
  assumes op: "opened co cp inputs archive md dk baseline ds datas" and reader: "reader_matches co cp dc"
  shows "extract_all ae dc write_file archive fs = Some (write_each write_file (zip (am_file_entries md) datas) fs)"
proof -
  note f = op [unfolded opened_def]
  have all: "decompress_all_blocks ae dc archive md dk = Some (Inr (map Some ds))"
    using opened_blocks [OF op reader] by (simp add: decompress_all_blocks_def)
  have "write_all_files ae write_file (am_file_entries md) (map Some ds) fs
      = write_each write_file (zip (am_file_entries md) datas) fs"
    using f by (simp only: write_all_files_def Let_def extract_shared_eq extract_files_all)
  then show ?thesis
    using f reader reader_dictionary [OF reader] all by (simp add: extract_all_def reader_matches_def)
qed

lemma compressed_opened:
  assumes "compress_to_archive co cp inputs = Some (Inr (stats, archive))"
    and "\<forall>f \<in> set inputs. extractable f" "no_collisions (ae_blake3 ae) inputs"
    and "within_limits stats" "length archive < 2 ^ 64"
    and "\<forall>d \<in> set_option (cp_dictionary cp). length (di_hash d) = 32"
  shows "\<exists>md dk baseline ds datas. opened co cp inputs archive md dk baseline ds datas"
proof -
  obtain enc baseline E0 datas ccs st base base' body rest h footer where
    fin: "finished co cp inputs archive enc baseline E0 datas ccs st base base' body rest h footer"
      and few: "length ccs \<le> unat MAX_BLOCK_COUNT"
    using compressed_finished [OF assms(1,2,4-6)] by (elim exE conjE)
  from finished_opened [OF fin few assms(3,5)] show ?thesis by (elim exE) (intro exI)
qed

theorem extract_compressed:
  assumes "compress_to_archive co cp inputs = Some (Inr (stats, archive))"
    and "\<forall>f \<in> set inputs. extractable f" "no_collisions (ae_blake3 ae) inputs"
    and "within_limits stats" "length archive < 2 ^ 64"
    and "\<forall>d \<in> set_option (cp_dictionary cp). length (di_hash d) = 32"
    and reader: "reader_matches co cp dc"
  shows "\<exists>files. list_all2 (restored (ae_blake3 ae)) inputs files
    \<and> extract_all ae dc write_file archive fs = Some (write_each write_file files fs)"
proof -
  obtain md dk baseline ds datas where op: "opened co cp inputs archive md dk baseline ds datas"
    using compressed_opened [OF assms(1-6)] by (elim exE)
  show ?thesis
  proof (intro exI conjI)
    show "list_all2 (restored (ae_blake3 ae)) inputs (zip (am_file_entries md) datas)"
      using op by (simp only: opened_def)
    show "extract_all ae dc write_file archive fs = Some (write_each write_file (zip (am_file_entries md) datas) fs)"
      by (rule opened_extract [OF op reader])
  qed
qed

end

section \<open>Verification and single files\<close>

lemma those_map: "list_all2 (\<lambda>x y. f x = Some (g y)) xs ys \<Longrightarrow> those (map f xs) = Some (map g ys)"
  by (induction rule: list_all2_induct) simp_all

lemma tally_blocks_all:
  "length index = length ds \<Longrightarrow> tally_blocks (zip index (map Inr ds)) r
     = r\<lparr>vr_verified_blocks := vr_verified_blocks r + length ds\<rparr>"
  by (induction index ds arbitrary: r rule: list_induct2) simp_all

lemma tally_files_all:
  assumes "list_all2 (\<lambda>e d. reassemble_file_from_blocks e decoded = Inr d \<and> blake3 d = fe_blake3_hash e) es datas"
  shows "tally_files blake3 decoded es r = r"
  using assms by (induction rule: list_all2_induct) simp_all

lemma file_blocks_decoded:
  assumes "list_all2 (\<lambda>e d. decode e = Some (Inr d)) es ds" "length decoded = i + length es"
    and "td + sum_list (map length ds) \<le> MAX_TOTAL_DECOMPRESSED_SIZE"
  shows "file_blocks decode es i td decoded = Some (Inr (take i decoded @ map Some ds))"
  using assms
proof (induction es ds arbitrary: i td decoded rule: list_all2_induct)
  case (Cons e es d ds)
  let ?decoded = "decoded[i := Some d]"
  have "take (Suc i) ?decoded = take i decoded @ [Some d]"
    using Cons.prems(1) by (simp add: take_Suc_conv_app_nth)
  then show ?case
    using Cons.IH [of ?decoded "i + 1" "td + length d"] Cons.prems Cons.hyps(1) by (simp add: limit_ok)
qed simp

lemma reassemble_window:
  assumes "reassemble_file_from_blocks e (map Some ds) = Inr data"
  shows "entry_stop e < 2 ^ 64
    \<and> min (entry_stop e - entry_start e) (length ds) = min (entry_stop e) (length ds) - entry_start e
    \<and> reassemble_file_from_blocks (e\<lparr>fe_chunk_start_idx := 0\<rparr>)
        (map Some (drop (entry_start e) (take (min (entry_stop e) (length ds)) ds))) = Inr data"
proof (cases "unat (fe_chunk_count e) = 0")
  case True
  have "unat (fe_chunk_start_idx e) < 2 ^ 64" using unat_bounds [of "fe_chunk_start_idx e"] by simp
  then show ?thesis using True assms
    by (simp add: reassemble_file_from_blocks_def file_block_range_def Let_def entry_stop_def entry_start_def)
next
  case False
  let ?a = "entry_start e" and ?n = "unat (fe_chunk_count e)"
  have z: "entry_stop e = ?a + ?n" by (simp add: entry_start_def entry_stop_def)
  have r: "?a + ?n \<le> length ds" "?a + ?n < 2 ^ 64"
    using assms False by (auto simp: reassemble_file_from_blocks_def file_block_range_def Let_def entry_start_def
        not_le not_less split: if_splits)
  let ?w = "drop ?a (take (min (entry_stop e) (length ds)) ds)"
  have "map ((!) ?w) [0..<?n] = map ((!) ds) [?a..<?a + ?n]"
    using r(1) z by (intro nth_equalityI) simp_all
  then have "gather_blocks [0..<?n] [] (map Some ?w) = gather_blocks [?a..<?a + ?n] [] (map Some ds)"
    using gather_decoded [of "[0..<?n]" ?w "[]"] gather_decoded [of "[?a..<?a + ?n]" ds "[]"] r(1) z by simp
  moreover have "length ?w = ?n" using r(1) z by simp
  ultimately show ?thesis
    using assms False r z
    by (simp add: reassemble_file_from_blocks_def file_block_range_def Let_def entry_start_def truncate_to_file_size_def)
qed

lemma sum_list_window: "sum_list (map length (drop a (take n ds))) \<le> sum_list (map length ds)"
proof -
  have "sum_list (map length (take n ds)) \<le> sum_list (map length ds)"
    by (metis append_take_drop_id le_add1 map_append sum_list_append)
  moreover have "sum_list (map length (drop a (take n ds))) \<le> sum_list (map length (take n ds))"
    by (metis append_take_drop_id le_add2 map_append sum_list_append)
  ultimately show ?thesis by simp
qed

lemma find_first:
  "i < length xs \<Longrightarrow> P (xs ! i) \<Longrightarrow> \<forall>j < i. \<not> P (xs ! j) \<Longrightarrow> find P xs = Some (xs ! i)"
proof (induction xs arbitrary: i)
  case (Cons x xs)
  show ?case
  proof (cases i)
    case (Suc k)
    have "\<not> P x" using Cons.prems(3) Suc by force
    moreover have "find P xs = Some (xs ! k)" using Cons.prems Suc by (intro Cons.IH) auto
    ultimately show ?thesis using Suc by simp
  qed (use Cons.prems in simp)
qed simp

context writer_contract
begin

lemma opened_verify:
  assumes op: "opened co cp inputs archive md dk baseline ds datas" and reader: "reader_matches co cp dc"
  shows "verify ae dc archive = Some (Inr \<lparr>vr_total_blocks = length ds, vr_verified_blocks = length ds,
    vr_corrupted_blocks = []\<rparr>)"
proof -
  note f = op [unfolded opened_def]
  let ?es = "am_block_index md"
  have blocks: "list_all2 (\<lambda>e d. decompress_block ae archive baseline dk e = Some (Inr d)) ?es ds"
    using f by (elim conjE)
  have len: "length ?es = length ds" by (rule list_all2_lengthD [OF blocks])
  have decode: "verify_decode ae dc archive ?es baseline dk = Some (Inr (map Inr ds))"
  proof (cases "dc_max_threads dc \<noteq> 1 \<and> length ?es > 1")
    case False
    then show ?thesis using those_map [OF blocks] by (auto simp: verify_decode_def)
  next
    case True
    have "list_all2 (\<lambda>block d. (case block of Inr block \<Rightarrow> decompress_raw_block ae baseline block
              | Inl _ \<Rightarrow> Some (Inl (Decompression ''{e}''))) = Some (Inr d))
        (read_raw_blocks_lenient ae archive dk ?es) ds"
    proof (rule list_all2_all_nthI)
      fix k assume "k < length (read_raw_blocks_lenient ae archive dk ?es)"
      then have k: "k < length ?es" by (simp add: read_raw_blocks_lenient_def)
      show "(case read_raw_blocks_lenient ae archive dk ?es ! k of Inr block \<Rightarrow> decompress_raw_block ae baseline block
              | Inl _ \<Rightarrow> Some (Inl (Decompression ''{e}''))) = Some (Inr (ds ! k))"
        using list_all2_nthD [OF blocks k] k
        by (cases "read_raw_block ae archive dk k (?es ! k)")
          (auto simp: read_raw_blocks_lenient_def nth_enumerate_eq decompress_block_phases [where i = k])
    qed (simp add: read_raw_blocks_lenient_def len)
    then show ?thesis using True reader by (simp add: verify_decode_def those_map reader_matches_def)
  qed
  have blk: "map outcome_block (map Inr ds) = map Some ds" by (simp add: outcome_block_def)
  have files: "list_all2 (\<lambda>e d. reassemble_file_from_blocks e (map Some ds) = Inr d
      \<and> ae_blake3 ae d = fe_blake3_hash e) (am_file_entries md) datas"
    using f by (elim conjE)
  have base: "decode_baseline_for ae dc (am_dictionary_hash md) = Inr baseline"
    using f reader_baseline [OF reader] by simp
  have "verify_metadata ae dc archive md dk = Some (Inr \<lparr>vr_total_blocks = length ds,
      vr_verified_blocks = length ds, vr_corrupted_blocks = []\<rparr>)"
    unfolding verify_metadata_def base
    by (simp add: decode tally_blocks_all [OF len] blk tally_files_all [OF files] len del: map_map)
  then show ?thesis using f reader by (simp add: verify_def reader_matches_def)
qed

text \<open>One file by its path: the first entry with that path.\<close>

lemma opened_extract_file:
  assumes op: "opened co cp inputs archive md dk baseline ds datas" and reader: "reader_matches co cp dc"
    and i: "i < length (am_file_entries md)"
    and first: "\<forall>j < i. fe_path (am_file_entries md ! j) \<noteq> fe_path (am_file_entries md ! i)"
  shows "extract_file ae dc archive (fe_path (am_file_entries md ! i)) = Some (Inr (datas ! i))"
proof -
  note f = op [unfolded opened_def]
  let ?es = "am_block_index md" and ?e = "am_file_entries md ! i"
  let ?a = "entry_start ?e" and ?z = "entry_stop ?e"
  have blocks: "list_all2 (\<lambda>e d. decompress_block ae archive baseline dk e = Some (Inr d)) ?es ds"
    using f by (elim conjE)
  have len: "length ?es = length ds" by (rule list_all2_lengthD [OF blocks])
  have files: "list_all2 (\<lambda>e d. reassemble_file_from_blocks e (map Some ds) = Inr d
      \<and> ae_blake3 ae d = fe_blake3_hash e) (am_file_entries md) datas"
    using f by (elim conjE)
  have e: "reassemble_file_from_blocks ?e (map Some ds) = Inr (datas ! i)" "ae_blake3 ae (datas ! i) = fe_blake3_hash ?e"
    using list_all2_nthD [OF files i] by blast+
  note w = reassemble_window [OF e(1)]
  let ?m = "min ?z (length ds)"
  have win: "list_all2 (\<lambda>e d. decompress_block ae archive baseline dk e = Some (Inr d)) (drop ?a (take ?m ?es)) (drop ?a (take ?m ds))"
    using blocks by (intro list_all2_dropI list_all2_takeI)
  have "sum_list (map length ds) \<le> MAX_TOTAL_DECOMPRESSED_SIZE" using f by (elim conjE)
  then have "0 + sum_list (map length (drop ?a (take ?m ds))) \<le> MAX_TOTAL_DECOMPRESSED_SIZE"
    using sum_list_window [of ?a ?m ds] by simp
  moreover have "length (replicate (min (?z - ?a) (length ?es)) (None :: bytes option)) = 0 + length (drop ?a (take ?m ?es))"
    using len w by simp
  ultimately have loop: "file_blocks (decompress_block ae archive baseline dk) (drop ?a (take ?m ?es)) 0 0
      (replicate (min (?z - ?a) (length ?es)) None) = Some (Inr (map Some (drop ?a (take ?m ds))))"
    using file_blocks_decoded [OF win] by simp
  have base: "decode_baseline_for ae dc (am_dictionary_hash md) = Inr baseline"
    using f reader_baseline [OF reader] by simp
  have found: "find (\<lambda>e. fe_path e = fe_path ?e) (am_file_entries md) = Some ?e"
    by (rule find_first [OF i]) (use first in auto)
  have key: "derive_decrypt_key (ae_crypto ae) (ah_flags (am_header md)) (am_encryption_header md) (dc_password dc) = Inr dk"
      "read_metadata ae archive = Inr md" "validate_dictionary ae dc (am_dictionary_hash md) = Inr ()"
    using f reader reader_dictionary [OF reader] by (simp_all add: reader_matches_def)
  have dec: "fst (reassemble_file_consuming (?e\<lparr>fe_chunk_start_idx := 0\<rparr>) (map Some (drop ?a (take ?m ds)))) = Inr (datas ! i)"
    using w by (simp add: reassemble_file_consuming_eq)
  show ?thesis
    unfolding extract_file_def key(2) bindRun_simps key(1,3) found option.case Let_def base
      entry_stop_def [symmetric]
    unfolding entry_start_def [symmetric]
    using w loop dec e(2) by (simp add: len checked_file_def)
qed

end

end
