(* ===== verification/FileSystem.thy ===== *)
theory FileSystem
  imports Extract "HOL-Library.AList" "HOL-Library.Sublist"
begin

text \<open>
  The file system an archive is extracted to, and \<open>write_validated_file\<close> of
  \<^verbatim>\<open>pipeline/decompress.rs\<close> on it. A tree is an association list from absolute names to nodes,
  in the order in which a directory is listed; the root is a directory. Symbolic links are resolved
  the way the system calls do it, with a bound on the number of links followed. Any call may also
  fail for reasons that are not in the tree (permissions, space): \<open>os_fault\<close> says when.

  The lemmas: resolution yields real directories; writing one file changes nothing outside the
  output directory and no existing entry but its target, whatever links the tree holds and whatever
  calls fail; and in a directory of its own a valid path always receives its file.
\<close>

section \<open>Trees\<close>

type_synonym name = bytes
type_synonym path = "name list"

text \<open>A link holds whether its target is absolute, and the target's components.\<close>

datatype node =
    DirNode
  | FileNode bytes u32 "u64 option"
  | LinkNode bool path
  | SpecialNode

type_synonym fs = "(path \<times> node) list"

definition node_at :: "fs \<Rightarrow> path \<Rightarrow> node option" where
  "node_at fs p = (if p = [] then Some DirNode else map_of fs p)"

definition is_link :: "node \<Rightarrow> bool" where
  "is_link n = (case n of LinkNode _ _ \<Rightarrow> True | _ \<Rightarrow> False)"

definition MAX_LINKS :: nat where "MAX_LINKS = 40"

function resolve :: "fs \<Rightarrow> nat \<Rightarrow> path \<Rightarrow> path \<Rightarrow> path option" where
  "resolve fs n cur [] = Some cur"
| "resolve fs n cur (c # cs) =
     (if c = DOTDOT then resolve fs n (butlast cur) cs
      else
        case node_at fs (cur @ [c]) of
          None \<Rightarrow> None
        | Some DirNode \<Rightarrow> resolve fs n (cur @ [c]) cs
        | Some (LinkNode absolute target) \<Rightarrow>
            (case n of
               0 \<Rightarrow> None
             | Suc m \<Rightarrow> resolve fs m (if absolute then [] else cur) (target @ cs))
        | Some _ \<Rightarrow> if cs = [] then Some (cur @ [c]) else None)"
  by pat_completeness auto
termination
  by (relation "measures [\<lambda>(fs, n, cur, cs). n, \<lambda>(fs, n, cur, cs). length cs]") auto

text \<open>\<open>Path::components\<close>: empty components and \<open>.\<close> are dropped.\<close>

definition is_slash :: "u8 \<Rightarrow> bool" where "is_slash b \<longleftrightarrow> b = 0x2F"

definition path_components :: "bytes \<Rightarrow> path" where
  "path_components p = filter (\<lambda>c. c \<noteq> [] \<and> c \<noteq> [0x2E]) (split_on is_slash p)"

definition path_file_name :: "path \<Rightarrow> name option" where
  "path_file_name p = (if p = [] \<or> last p = DOTDOT then None else Some (last p))"

section \<open>System calls\<close>

datatype fs_call =
    Canonicalize path | Exists path | IsDir path | Lstat path | CreateDir path | CreateTemp path
  | WriteAll path | SetMode path | Rename path path | Unlink path | SetTime path
  | CreateTempDir | ReadDir path | ReadFile path | Metadata path

record os =
  os_fault :: "fs_call \<Rightarrow> fs \<Rightarrow> bool"
  os_temp_name :: "path \<Rightarrow> fs \<Rightarrow> name"
  os_temp_dir :: "fs \<Rightarrow> path"
  os_clock :: u64

definition real_path :: "fs \<Rightarrow> path \<Rightarrow> path option" where
  "real_path fs p = resolve fs MAX_LINKS [] p"

definition canonicalize :: "os \<Rightarrow> path \<Rightarrow> fs \<Rightarrow> path result" where
  "canonicalize os p fs =
     (if os_fault os (Canonicalize p) fs then Inl (Io OsError)
      else case real_path fs p of None \<Rightarrow> Inl (Io OsError) | Some q \<Rightarrow> Inr q)"

text \<open>Both follow links, and answer no when the call fails.\<close>

definition path_exists :: "os \<Rightarrow> path \<Rightarrow> fs \<Rightarrow> bool" where
  "path_exists os p fs \<longleftrightarrow> \<not> os_fault os (Exists p) fs \<and> real_path fs p \<noteq> None"

definition path_is_dir :: "os \<Rightarrow> path \<Rightarrow> fs \<Rightarrow> bool" where
  "path_is_dir os p fs \<longleftrightarrow> \<not> os_fault os (IsDir p) fs
     \<and> (case real_path fs p of None \<Rightarrow> False | Some q \<Rightarrow> node_at fs q = Some DirNode)"

text \<open>The entry a name stands for: its directory is resolved, the name itself is not.\<close>

definition entry_of :: "fs \<Rightarrow> path \<Rightarrow> path option" where
  "entry_of fs p =
     (if p = [] then Some []
      else case real_path fs (butlast p) of
             None \<Rightarrow> None
           | Some q \<Rightarrow> if node_at fs q = Some DirNode then Some (q @ [last p]) else None)"

definition symlink_metadata :: "os \<Rightarrow> path \<Rightarrow> fs \<Rightarrow> node option" where
  "symlink_metadata os p fs =
     (if os_fault os (Lstat p) fs then None else Option.bind (entry_of fs p) (node_at fs))"

definition create_dir :: "os \<Rightarrow> path \<Rightarrow> fs \<Rightarrow> bool \<times> fs" where
  "create_dir os p fs =
     (if os_fault os (CreateDir p) fs then (False, fs)
      else case entry_of fs p of
             None \<Rightarrow> (False, fs)
           | Some q \<Rightarrow> if node_at fs q = None then (True, AList.update q DirNode fs) else (False, fs))"

text \<open>\<open>NamedTempFile\<close>: created for its owner only, removed when it is dropped.\<close>

definition TEMP_MODE :: u32 where "TEMP_MODE = 0x180"

definition new_temp_file :: "os \<Rightarrow> path \<Rightarrow> fs \<Rightarrow> path option \<times> fs" where
  "new_temp_file os dir fs =
     (let tmp = dir @ [os_temp_name os dir fs]
      in if os_fault os (CreateTemp dir) fs \<or> node_at fs dir \<noteq> Some DirNode then (None, fs)
         else (Some tmp, AList.update tmp (FileNode [] TEMP_MODE None) fs))"

definition unlink :: "os \<Rightarrow> path \<Rightarrow> fs \<Rightarrow> fs" where
  "unlink os p fs = (if os_fault os (Unlink p) fs then fs else AList.delete p fs)"

definition update_file :: "(node \<Rightarrow> node) \<Rightarrow> path \<Rightarrow> fs \<Rightarrow> fs" where
  "update_file f p fs =
     (case node_at fs p of
        Some (FileNode d m t) \<Rightarrow> AList.update p (f (FileNode d m t)) fs
      | _ \<Rightarrow> fs)"

fun put_data :: "bytes \<Rightarrow> node \<Rightarrow> node" where
  "put_data d (FileNode _ m t) = FileNode d m t"
| "put_data d n = n"

fun put_mode :: "u32 \<Rightarrow> node \<Rightarrow> node" where
  "put_mode m (FileNode d _ t) = FileNode d m t"
| "put_mode m n = n"

fun put_time :: "u64 \<Rightarrow> node \<Rightarrow> node" where
  "put_time t (FileNode d m _) = FileNode d m (Some t)"
| "put_time t n = n"

definition write_all :: "os \<Rightarrow> path \<Rightarrow> bytes \<Rightarrow> fs \<Rightarrow> bool \<times> fs" where
  "write_all os p data fs =
     (if os_fault os (WriteAll p) fs then (False, fs) else (True, update_file (put_data data) p fs))"

definition set_permissions :: "os \<Rightarrow> path \<Rightarrow> u32 \<Rightarrow> fs \<Rightarrow> fs" where
  "set_permissions os p mode fs =
     (if os_fault os (SetMode p) fs then fs else update_file (put_mode mode) p fs)"

definition set_file_mtime :: "os \<Rightarrow> path \<Rightarrow> u64 \<Rightarrow> fs \<Rightarrow> fs" where
  "set_file_mtime os p t fs =
     (if os_fault os (SetTime p) fs then fs else update_file (put_time t) p fs)"

text \<open>\<open>rename(2)\<close> within one directory: it replaces anything but a directory.\<close>

definition persist :: "os \<Rightarrow> path \<Rightarrow> path \<Rightarrow> fs \<Rightarrow> bool \<times> fs" where
  "persist os tmp dst fs =
     (if os_fault os (Rename tmp dst) fs \<or> node_at fs dst = Some DirNode then (False, fs)
      else case node_at fs tmp of
             None \<Rightarrow> (False, fs)
           | Some n \<Rightarrow> (True, AList.update dst n (AList.delete tmp fs)))"

section \<open>Writing one file\<close>

definition bindF :: "'a result \<times> fs \<Rightarrow> ('a \<Rightarrow> fs \<Rightarrow> 'b result \<times> fs) \<Rightarrow> 'b result \<times> fs" where
  "bindF m f = (case m of (Inl e, fs) \<Rightarrow> (Inl e, fs) | (Inr x, fs) \<Rightarrow> f x fs)"

fun make_dirs :: "os \<Rightarrow> path \<Rightarrow> path \<Rightarrow> fs \<Rightarrow> unit result \<times> fs" where
  "make_dirs os built_path [] fs = (Inr (), fs)"
| "make_dirs os built_path (component # components) fs =
     (let built_path = built_path @ [component]
      in if path_exists os built_path fs then
           case symlink_metadata os built_path fs of
             None \<Rightarrow> (Inl (Decompression ''Cannot stat path component {}: {e}''), fs)
           | Some n \<Rightarrow>
               if is_link n then (Inl (PathTraversal (ascii ''Symlink detected in extraction path: {}'')), fs)
               else if n \<noteq> DirNode then
                 (Inl (PathTraversal (ascii ''Non-directory in extraction path: {}'')), fs)
               else make_dirs os built_path components fs
         else
           let (created, fs) = create_dir os built_path fs
           in if \<not> created \<and> \<not> path_is_dir os built_path fs then (Inl (Io OsError), fs)
              else case symlink_metadata os built_path fs of
                     None \<Rightarrow> (Inl (Decompression ''Cannot stat newly created dir {}: {e}''), fs)
                   | Some n \<Rightarrow>
                       if is_link n then
                         (Inl (PathTraversal (ascii ''Newly created directory was replaced with symlink: {}'')), fs)
                       else make_dirs os built_path components fs)"

definition refuse_link :: "os \<Rightarrow> path \<Rightarrow> string \<Rightarrow> string \<Rightarrow> fs \<Rightarrow> unit result" where
  "refuse_link os resolved stat_msg link_msg fs =
     (if path_exists os resolved fs then
        case symlink_metadata os resolved fs of
          None \<Rightarrow> Inl (Decompression stat_msg)
        | Some n \<Rightarrow> if is_link n then Inl (PathTraversal (ascii link_msg)) else Inr ()
      else Inr ())"

text \<open>From the temporary file to the end; every early return drops the file.\<close>

definition write_atomically ::
    "os \<Rightarrow> path \<Rightarrow> path \<Rightarrow> bytes \<Rightarrow> u64 \<Rightarrow> u32 \<Rightarrow> fs \<Rightarrow> unit result \<times> fs" where
  "write_atomically os canonical_parent resolved data mtime permissions fs =
     (case new_temp_file os canonical_parent fs of
        (None, fs) \<Rightarrow> (Inl (Decompression ''Failed to create temp file in {}: {e}''), fs)
      | (Some tmp, fs) \<Rightarrow>
          let (written, fs) = write_all os tmp data fs
          in if \<not> written then (Inl (Io OsError), unlink os tmp fs)
             else
               let safe_mode = permissions AND SAFE_PERMISSION_MASK;
                   fs = set_permissions os tmp safe_mode fs
               in case refuse_link os resolved ''Cannot stat target file before rename {}: {e}''
                         ''Target became a symlink during extraction: {}'' fs of
                    Inl e \<Rightarrow> (Inl e, unlink os tmp fs)
                  | Inr _ \<Rightarrow>
                      let (persisted, fs) = persist os tmp resolved fs
                      in if \<not> persisted then
                           (Inl (Decompression ''Failed to persist temp file to {}: {e}''), unlink os tmp fs)
                         else (Inr (), if 0 < sint mtime then set_file_mtime os resolved mtime fs else fs))"

definition write_validated_file ::
    "os \<Rightarrow> path \<Rightarrow> bytes \<Rightarrow> bytes \<Rightarrow> u64 \<Rightarrow> u32 \<Rightarrow> bool \<Rightarrow> fs \<Rightarrow> unit result \<times> fs" where
  "write_validated_file os output_dir file_path data mtime permissions no_clobber fs =
     bindF (validate_extraction_path file_path, fs) (\<lambda>_ fs.
     bindF (canonicalize os output_dir fs, fs) (\<lambda>canonical_output fs.
       let target = output_dir @ path_components file_path
       in bindF (make_dirs os canonical_output (butlast (path_components file_path)) fs) (\<lambda>_ fs.
          bindF (canonicalize os (butlast target) fs, fs) (\<lambda>canonical_parent fs.
            if \<not> prefix canonical_output canonical_parent then
              (Inl (PathTraversal (ascii ''Resolved path escapes output directory: {}'')), fs)
            else
              case path_file_name target of
                None \<Rightarrow> (Inl (PathTraversal file_path), fs)
              | Some filename \<Rightarrow>
                  let resolved = canonical_parent @ [filename]
                  in if no_clobber \<and> path_exists os resolved fs then (Inl (FileAlreadyExists file_path), fs)
                     else
                       bindF (refuse_link os resolved ''Cannot stat target file {}: {e}''
                           ''Target file is a symlink, refusing to overwrite: {}'' fs, fs) (\<lambda>_ fs.
                         write_atomically os canonical_parent resolved data mtime permissions fs)))))"

section \<open>What the calls change\<close>

lemma node_at_update: "q \<noteq> [] \<Longrightarrow> node_at (AList.update q n fs) p = (if p = q then Some n else node_at fs p)"
  by (auto simp: node_at_def update_conv')

lemma node_at_delete: "q \<noteq> [] \<Longrightarrow> node_at (AList.delete q fs) p = (if p = q then None else node_at fs p)"
  by (auto simp: node_at_def delete_conv')

lemma node_at_Nil [simp]: "node_at fs [] = Some DirNode"
  by (simp add: node_at_def)

lemma update_file_other: "p \<noteq> q \<Longrightarrow> node_at (update_file f q fs) p = node_at fs p"
  by (cases "q = []") (auto simp: update_file_def node_at_update split: option.split node.split)

lemma bindF_simps [simp]: "bindF (Inl e, fs) f = (Inl e, fs)" "bindF (Inr x, fs) f = f x fs"
  by (simp_all add: bindF_def)

text \<open>Names that are directories all the way down, without \<open>..\<close>.\<close>

definition real_dirs :: "fs \<Rightarrow> path \<Rightarrow> bool" where
  "real_dirs fs p \<longleftrightarrow> DOTDOT \<notin> set p \<and> (\<forall>k \<le> length p. node_at fs (take k p) = Some DirNode)"

lemma real_dirs_Nil [simp]: "real_dirs fs []"
  by (simp add: real_dirs_def)

lemma real_dirs_snoc:
  "real_dirs fs (p @ [c]) \<longleftrightarrow> real_dirs fs p \<and> c \<noteq> DOTDOT \<and> node_at fs (p @ [c]) = Some DirNode"
  by (auto simp: real_dirs_def le_Suc_eq)

lemma real_dirs_node: "real_dirs fs p \<Longrightarrow> node_at fs p = Some DirNode"
  by (auto simp: real_dirs_def dest: spec [of _ "length p"])

lemma real_dirs_append: "real_dirs fs (p @ q) \<Longrightarrow> real_dirs fs p"
  by (induction q rule: rev_induct) (auto simp: real_dirs_snoc simp flip: append_assoc)

lemma real_dirs_butlast: "real_dirs fs p \<Longrightarrow> real_dirs fs (butlast p)"
  by (cases p rule: rev_cases) (auto simp: real_dirs_snoc)

lemma real_dirs_mono:
  "real_dirs fs p \<Longrightarrow> (\<And>q. node_at fs q = Some DirNode \<Longrightarrow> node_at fs' q = Some DirNode) \<Longrightarrow> real_dirs fs' p"
  by (simp add: real_dirs_def)

section \<open>Resolution\<close>

declare resolve.simps(2) [simp del]

lemma resolve_dir:
  "c \<noteq> DOTDOT \<Longrightarrow> node_at fs (cur @ [c]) = Some DirNode \<Longrightarrow>
   resolve fs n cur (c # cs) = resolve fs n (cur @ [c]) cs"
  by (simp add: resolve.simps(2))

lemma resolve_through:
  "real_dirs fs (cur @ b) \<Longrightarrow> resolve fs n cur (b @ cs) = resolve fs n (cur @ b) cs"
proof (induction b arbitrary: cur)
  case (Cons c b)
  then have "real_dirs fs ((cur @ [c]) @ b)" by simp
  from Cons.IH [OF this] real_dirs_append [OF this] show ?case
    by (simp add: resolve_dir real_dirs_snoc)
qed simp

lemma real_path_real: "real_dirs fs p \<Longrightarrow> real_path fs (p @ cs) = resolve fs MAX_LINKS p cs"
  using resolve_through [of fs "[]" p] by (simp add: real_path_def)

lemma real_path_self: "real_dirs fs p \<Longrightarrow> real_path fs p = Some p"
  using real_path_real [of fs p "[]"] by simp

text \<open>A resolved name lies in real directories and is no link.\<close>

definition resolved_name :: "fs \<Rightarrow> path \<Rightarrow> bool" where
  "resolved_name fs q \<longleftrightarrow> real_dirs fs q
     \<or> q \<noteq> [] \<and> real_dirs fs (butlast q) \<and> last q \<noteq> DOTDOT
       \<and> (\<exists>n. node_at fs q = Some n \<and> n \<noteq> DirNode \<and> \<not> is_link n)"

lemma resolve_resolved: "resolve fs n cur cs = Some q \<Longrightarrow> real_dirs fs cur \<Longrightarrow> resolved_name fs q"
proof (induction fs n cur cs rule: resolve.induct)
  case (1 fs n cur)
  then show ?case by (simp add: resolved_name_def)
next
  case (2 fs n cur c cs)
  show ?case
  proof (cases "c = DOTDOT")
    case True
    then show ?thesis using 2 by (simp add: resolve.simps(2) real_dirs_butlast)
  next
    case c: False
    then obtain nd where nd: "node_at fs (cur @ [c]) = Some nd"
      using "2.prems"(1) by (auto simp: resolve.simps(2) split: option.splits)
    show ?thesis
    proof (cases nd)
      case DirNode
      then show ?thesis using 2 c nd by (simp add: resolve.simps(2) real_dirs_snoc)
    next
      case (LinkNode a t)
      then show ?thesis
        using 2 c nd by (cases n; cases a) (simp_all add: resolve.simps(2))
    qed (use 2 c nd in \<open>auto simp: resolve.simps(2) resolved_name_def is_link_def split: if_splits\<close>)
  qed
qed

lemma real_path_resolved: "real_path fs p = Some q \<Longrightarrow> resolved_name fs q"
  unfolding real_path_def by (erule resolve_resolved) simp

lemma resolved_dir: "resolved_name fs q \<Longrightarrow> node_at fs q = Some DirNode \<Longrightarrow> real_dirs fs q"
  by (auto simp: resolved_name_def)

text \<open>Adding entries to the tree keeps what resolves.\<close>

lemma resolve_mono:
  "resolve fs n cur cs = Some q \<Longrightarrow> (\<And>p x. node_at fs p = Some x \<Longrightarrow> node_at fs' p = Some x) \<Longrightarrow>
   resolve fs' n cur cs = Some q"
proof (induction fs n cur cs rule: resolve.induct)
  case (2 fs n cur c cs)
  show ?case
  proof (cases "c = DOTDOT")
    case True
    then show ?thesis using 2 by (simp add: resolve.simps(2))
  next
    case c: False
    then obtain nd where nd: "node_at fs (cur @ [c]) = Some nd" "node_at fs' (cur @ [c]) = Some nd"
      using "2.prems" by (auto simp: resolve.simps(2) split: option.splits)
    show ?thesis
      using 2 c nd by (cases nd; cases n) (simp_all add: resolve.simps(2) split: if_splits)
  qed
qed simp

text \<open>Resolving further from a resolved directory.\<close>

lemma resolve_continue:
  "resolve fs n cur a = Some q \<Longrightarrow> node_at fs q = Some DirNode \<Longrightarrow> \<exists>m. \<forall>b. resolve fs n cur (a @ b) = resolve fs m q b"
proof (induction fs n cur a rule: resolve.induct)
  case (1 fs n cur)
  then show ?case by auto
next
  case (2 fs n cur c cs)
  show ?case
  proof (cases "c = DOTDOT")
    case True
    then show ?thesis using 2 by (simp add: resolve.simps(2))
  next
    case c: False
    then obtain nd where nd: "node_at fs (cur @ [c]) = Some nd"
      using "2.prems"(1) by (auto simp: resolve.simps(2) split: option.splits)
    show ?thesis
      using 2 c nd by (cases nd; cases n) (simp_all add: resolve.simps(2) split: if_splits)
  qed
qed

lemma real_path_append:
  assumes "real_path fs a = Some q" "real_dirs fs (q @ b)"
  shows "real_path fs (a @ b) = Some (q @ b)"
proof -
  have "node_at fs q = Some DirNode" using real_dirs_append [OF assms(2)] by (rule real_dirs_node)
  then obtain m where "resolve fs MAX_LINKS [] (a @ b) = resolve fs m q b"
    using resolve_continue [of fs MAX_LINKS "[]" a q] assms(1) unfolding real_path_def by blast
  then show ?thesis using resolve_through [OF assms(2), of m "[]"] by (simp add: real_path_def)
qed

section \<open>Confinement\<close>

text \<open>Below a resolved name that is no directory nothing resolves.\<close>

lemma resolve_below_file:
  assumes "resolved_name fs q" "node_at fs q \<noteq> Some DirNode" "c \<noteq> DOTDOT"
  shows "real_path fs (q @ c # cs) = None" "entry_of fs (q @ [c]) = None"
proof -
  have "q \<noteq> []" using assms(2) by auto
  then obtain p x where q: "q = p @ [x]" by (metis append_butlast_last_id)
  have r: "real_dirs fs p" "x \<noteq> DOTDOT" using assms(1,2) by (auto simp: q resolved_name_def dest: real_dirs_node)
  obtain n where n: "node_at fs (p @ [x]) = Some n" "n \<noteq> DirNode" "\<not> is_link n"
    using assms(1,2) by (auto simp: q resolved_name_def dest: real_dirs_node)
  have "resolve fs MAX_LINKS p ([x] @ c # cs) = None" "real_path fs (p @ [x]) = Some (p @ [x])"
    using r n by (cases n; simp add: resolve.simps(2) is_link_def real_path_real)+
  then show "real_path fs (q @ c # cs) = None" "entry_of fs (q @ [c]) = None"
    using real_path_real [OF r(1), of "[x] @ c # cs"] n by (simp_all add: q entry_of_def butlast_append)
qed

lemma entry_below_dir: "real_dirs fs p \<Longrightarrow> entry_of fs (p @ [c]) = Some (p @ [c])"
  by (simp add: entry_of_def real_path_self real_dirs_node)

lemma below_self: "c \<noteq> [] \<Longrightarrow> strict_prefix p (p @ c)"
  by (auto simp: strict_prefix_def)

text \<open>Only new directories appear while the parents are made, and they are real ones.\<close>

definition adds_dirs :: "path \<Rightarrow> path \<Rightarrow> fs \<Rightarrow> fs \<Rightarrow> bool" where
  "adds_dirs base components fs fs' \<longleftrightarrow>
     (\<forall>p. node_at fs' p \<noteq> node_at fs p \<longrightarrow> node_at fs p = None \<and> node_at fs' p = Some DirNode
        \<and> strict_prefix base p \<and> prefix p (base @ components))"

lemma adds_dirs_refl [simp]: "adds_dirs base components fs fs"
  by (simp add: adds_dirs_def)

lemma adds_dirs_keeps: "adds_dirs base components fs fs' \<Longrightarrow> node_at fs p = Some x \<Longrightarrow> node_at fs' p = Some x"
  by (metis adds_dirs_def option.distinct(1))

lemma adds_dirs_step:
  assumes "adds_dirs base [c] fs fs1" "adds_dirs (base @ [c]) cs fs1 fs2"
  shows "adds_dirs base (c # cs) fs fs2"
  unfolding adds_dirs_def
proof (intro allI impI)
  fix p assume ch: "node_at fs2 p \<noteq> node_at fs p"
  show "node_at fs p = None \<and> node_at fs2 p = Some DirNode \<and> strict_prefix base p \<and> prefix p (base @ c # cs)"
  proof (cases "node_at fs1 p = node_at fs p")
    case True
    then have "node_at fs1 p = None" "node_at fs2 p = Some DirNode" "strict_prefix (base @ [c]) p"
        "prefix p ((base @ [c]) @ cs)"
      using assms(2) ch unfolding adds_dirs_def by metis+
    then show ?thesis using True prefix_order.less_trans [OF below_self [of "[c]" base], of p] by simp
  next
    case False
    then have f: "node_at fs p = None" "node_at fs1 p = Some DirNode" "strict_prefix base p" "prefix p (base @ [c])"
      using assms(1) unfolding adds_dirs_def by blast+
    then show ?thesis
      using adds_dirs_keeps [OF assms(2) f(2)] by (auto intro: prefix_order.trans)
  qed
qed

lemma make_dirs_step:
  assumes dir: "real_dirs fs base" "c \<noteq> DOTDOT"
    and run: "make_dirs os base (c # cs) fs = (r, fs')"
  shows "\<exists>fs1. adds_dirs base [c] fs fs1
    \<and> (real_dirs fs1 (base @ [c]) \<and> make_dirs os (base @ [c]) cs fs1 = (r, fs') \<or> fs' = fs1 \<and> r \<noteq> Inr ())"
proof -
  let ?b = "base @ [c]"
  show ?thesis
  proof (cases "path_exists os ?b fs")
    case True
    then show ?thesis
      using run dir
      by (auto simp: symlink_metadata_def entry_below_dir real_dirs_snoc Let_def split: if_splits option.splits
          intro!: exI [of _ fs])
  next
    case False
    obtain ok fs1 where cr: "create_dir os ?b fs = (ok, fs1)" by fastforce
    have add: "adds_dirs base [c] fs fs1" "ok \<Longrightarrow> node_at fs1 ?b = Some DirNode" "\<not> ok \<Longrightarrow> fs1 = fs"
      using cr dir(1)
      by (auto simp: create_dir_def entry_below_dir adds_dirs_def node_at_update below_self split: if_splits)
    have real: "real_dirs fs1 base"
      by (rule real_dirs_mono [OF dir(1)]) (rule adds_dirs_keeps [OF add(1)])
    have dirb: "real_dirs fs1 ?b"
      if d: "ok \<or> path_is_dir os ?b fs1" "node_at fs1 ?b = Some n" "\<not> is_link n" for n
    proof (cases ok)
      case True
      then show ?thesis using add(2) real dir(2) by (simp add: real_dirs_snoc)
    next
      case False
      then obtain q where q: "real_path fs1 ?b = Some q" "node_at fs1 q = Some DirNode"
        using d(1) by (auto simp: path_is_dir_def split: option.splits)
      have "q = ?b"
        using q(1) d(2,3) dir(2) real_path_real [OF real, of "[c]"]
        by (cases n) (auto simp: resolve.simps(2) is_link_def)
      then show ?thesis using q(2) real dir(2) by (simp add: real_dirs_snoc)
    qed
    have "real_dirs fs1 ?b \<and> make_dirs os ?b cs fs1 = (r, fs') \<or> fs' = fs1 \<and> r \<noteq> Inr ()"
      using run False cr dirb entry_below_dir [OF real, of c]
      by (auto simp: symlink_metadata_def Let_def split: if_splits option.splits)
    then show ?thesis using add(1) by blast
  qed
qed

lemma make_dirs_adds:
  "make_dirs os base cs fs = (r, fs') \<Longrightarrow> real_dirs fs base \<Longrightarrow> DOTDOT \<notin> set cs \<Longrightarrow>
   adds_dirs base cs fs fs' \<and> (r = Inr () \<longrightarrow> real_dirs fs' (base @ cs))"
proof (induction cs arbitrary: base fs)
  case (Cons c cs)
  obtain fs1 where s: "adds_dirs base [c] fs fs1"
      "real_dirs fs1 (base @ [c]) \<and> make_dirs os (base @ [c]) cs fs1 = (r, fs') \<or> fs' = fs1 \<and> r \<noteq> Inr ()"
    using make_dirs_step [OF Cons.prems(2) _ Cons.prems(1)] Cons.prems(3) by auto
  from s(2) show ?case
  proof
    assume a: "real_dirs fs1 (base @ [c]) \<and> make_dirs os (base @ [c]) cs fs1 = (r, fs')"
    then have "adds_dirs (base @ [c]) cs fs1 fs' \<and> (r = Inr () \<longrightarrow> real_dirs fs' ((base @ [c]) @ cs))"
      using Cons.IH [of "base @ [c]" fs1] Cons.prems(3) by simp
    then show ?thesis using adds_dirs_step [OF s(1)] by simp
  next
    assume a: "fs' = fs1 \<and> r \<noteq> Inr ()"
    then show ?thesis using adds_dirs_step [OF s(1), of cs fs1] by simp
  qed
qed simp

lemma make_dirs_below_file:
  assumes "resolved_name fs q" "node_at fs q \<noteq> Some DirNode" "DOTDOT \<notin> set cs"
    and "make_dirs os q cs fs = (r, fs')"
  shows "fs' = fs"
proof (cases cs)
  case (Cons c cs')
  then have c: "c \<noteq> DOTDOT" using assms(3) by auto
  show ?thesis
    using assms(4) resolve_below_file [OF assms(1,2) c]
    by (auto simp: Cons path_exists_def create_dir_def path_is_dir_def Let_def split: if_splits)
qed (use assms in simp)

text \<open>Writing through the temporary file touches the target and that file only.\<close>

lemma unlink_other: "p \<noteq> q \<Longrightarrow> q \<noteq> [] \<Longrightarrow> node_at (unlink os q fs) p = node_at fs p"
  by (simp add: unlink_def node_at_delete)

lemma write_atomically_other:
  assumes "write_atomically os dir (dir @ [filename]) data mtime permissions fs = (r, fs')"
    and "p \<noteq> dir @ [filename]" "p \<noteq> dir @ [os_temp_name os dir fs]"
  shows "node_at fs' p = node_at fs p"
proof -
  let ?tmp = "dir @ [os_temp_name os dir fs]" and ?dst = "dir @ [filename]"
  show ?thesis
  proof (cases "fst (new_temp_file os dir fs)")
    case None
    then show ?thesis
      using assms(1) by (auto simp: write_atomically_def new_temp_file_def Let_def split: if_splits)
  next
    case (Some t)
    obtain fs1 where t: "new_temp_file os dir fs = (Some ?tmp, fs1)" "node_at fs1 p = node_at fs p"
      using Some assms(3) by (auto simp: new_temp_file_def Let_def node_at_update split: if_splits)
    obtain ok fs2 where w: "write_all os ?tmp data fs1 = (ok, fs2)" by fastforce
    define fs3 where "fs3 = set_permissions os ?tmp (permissions AND SAFE_PERMISSION_MASK) fs2"
    obtain ok' fs4 where pr: "persist os ?tmp ?dst fs3 = (ok', fs4)" by fastforce
    have keep: "node_at fs2 p = node_at fs p" "node_at fs3 p = node_at fs p" "node_at fs4 p = node_at fs p"
        "node_at (set_file_mtime os ?dst mtime fs4) p = node_at fs p"
      using w pr t(2) assms(2,3)
      by (auto simp: write_all_def fs3_def set_permissions_def persist_def set_file_mtime_def update_file_other
          node_at_update node_at_delete split: if_splits option.splits)
    show ?thesis
      using assms(1,3) t(1) w pr keep unlink_other [OF assms(3)]
      by (auto simp: write_atomically_def Let_def fs3_def [symmetric] split: if_splits sum.splits)
  qed
qed

lemma write_atomically_no_dir:
  "write_atomically os dir resolved data mtime permissions fs = (r, fs') \<Longrightarrow> node_at fs dir \<noteq> Some DirNode \<Longrightarrow> fs' = fs"
  by (auto simp: write_atomically_def new_temp_file_def Let_def split: if_splits)

text \<open>A path without \<open>..\<close> between separators of either kind has no such component.\<close>

lemma split_on_coarser_parts:
  assumes "\<And>x. Q x \<Longrightarrow> P x"
  shows "((\<forall>y \<in> set (hd (split_on Q xs)). \<not> P y) \<longrightarrow> hd (split_on P xs) = hd (split_on Q xs))
    \<and> (\<forall>ys \<in> set (tl (split_on Q xs)). (\<forall>y \<in> set ys. \<not> P y) \<longrightarrow> ys \<in> set (tl (split_on P xs)))"
proof (induction xs)
  case (Cons x xs)
  obtain z zs where z: "split_on Q xs = z # zs"
    using split_on_nonempty [of Q xs] by (cases "split_on Q xs") auto
  obtain w ws where w: "split_on P xs = w # ws"
    using split_on_nonempty [of P xs] by (cases "split_on P xs") auto
  show ?case using Cons z w assms by (cases "Q x"; cases "P x") auto
qed simp

lemma split_on_coarser:
  assumes "\<And>x. Q x \<Longrightarrow> P x" "ys \<in> set (split_on Q xs)" "\<And>y. y \<in> set ys \<Longrightarrow> \<not> P y"
  shows "ys \<in> set (split_on P xs)"
proof -
  obtain z zs where z: "split_on Q xs = z # zs"
    using split_on_nonempty [of Q xs] by (cases "split_on Q xs") auto
  obtain w ws where w: "split_on P xs = w # ws"
    using split_on_nonempty [of P xs] by (cases "split_on P xs") auto
  show ?thesis using split_on_coarser_parts [of Q P xs, OF assms(1)] assms(2,3) z w by auto
qed

lemma components_no_dotdot: "\<not> path_has_dotdot path \<Longrightarrow> DOTDOT \<notin> set (path_components path)"
proof
  assume "\<not> path_has_dotdot path" "DOTDOT \<in> set (path_components path)"
  then have "DOTDOT \<in> set (split_on is_slash path)" "DOTDOT \<notin> set (split_on is_sep path)"
    by (auto simp: path_has_dotdot_def path_components_def)
  then show False
    using split_on_coarser [of is_slash is_sep DOTDOT path] by (auto simp: is_slash_def is_sep_def DOTDOT_def)
qed

text \<open>What a tree may lose and gain when one file is written.\<close>

definition confined :: "fs \<Rightarrow> path \<Rightarrow> path \<Rightarrow> fs \<Rightarrow> bool" where
  "confined fs base components fs' \<longleftrightarrow>
     (\<forall>p. node_at fs' p \<noteq> node_at fs p \<longrightarrow> strict_prefix base p
        \<and> (components \<noteq> [] \<longrightarrow> node_at fs p = None \<or> p = base @ components))"

definition temp_names_fresh :: "os \<Rightarrow> bool" where
  "temp_names_fresh os \<longleftrightarrow> (\<forall>dir fs. node_at fs (dir @ [os_temp_name os dir fs]) = None)"

text \<open>The stages of a write that changes anything.\<close>

lemma write_validated_file_stages:
  assumes "write_validated_file os output_dir file_path data mtime permissions no_clobber fs = (r, fs')" "fs' \<noteq> fs"
  defines "cs \<equiv> path_components file_path"
  shows "\<exists>base r1 fs1. real_path fs output_dir = Some base \<and> DOTDOT \<notin> set cs
    \<and> make_dirs os base (butlast cs) fs = (r1, fs1)
    \<and> (fs' = fs1 \<or> (\<exists>dir filename. r1 = Inr () \<and> real_path fs1 (butlast (output_dir @ cs)) = Some dir
         \<and> prefix base dir \<and> path_file_name (output_dir @ cs) = Some filename
         \<and> write_atomically os dir (dir @ [filename]) data mtime permissions fs1 = (r, fs')))"
proof -
  have v: "validate_extraction_path file_path = Inr ()"
    using assms(1,2) unfolding write_validated_file_def by (cases "validate_extraction_path file_path") auto
  obtain base where b: "canonicalize os output_dir fs = Inr base"
    using assms(1,2) v unfolding write_validated_file_def by (cases "canonicalize os output_dir fs") auto
  have base: "real_path fs output_dir = Some base"
    using b by (auto simp: canonicalize_def split: if_splits option.splits)
  have dots: "DOTDOT \<notin> set cs"
    using v components_no_dotdot by (auto simp: cs_def validate_extraction_path_def split: if_splits)
  obtain r1 fs1 where md: "make_dirs os base (butlast cs) fs = (r1, fs1)" by fastforce
  have "fs' = fs1 \<or> (\<exists>dir filename. r1 = Inr () \<and> real_path fs1 (butlast (output_dir @ cs)) = Some dir
      \<and> prefix base dir \<and> path_file_name (output_dir @ cs) = Some filename
      \<and> write_atomically os dir (dir @ [filename]) data mtime permissions fs1 = (r, fs'))"
    using assms(1) v b md unfolding cs_def
    by (cases r1) (auto simp: write_validated_file_def Let_def canonicalize_def bindF_def
        split: if_splits option.splits sum.splits)
  then show ?thesis using base dots md by blast
qed

text \<open>A single write, whatever the links in the tree and whatever calls fail.\<close>

lemma write_validated_file_confined:
  assumes run: "write_validated_file os output_dir file_path data mtime permissions no_clobber fs = (r, fs')"
    and fresh: "temp_names_fresh os" and changed: "fs' \<noteq> fs"
  shows "\<exists>base. real_path fs output_dir = Some base \<and> confined fs base (path_components file_path) fs'"
proof -
  let ?cs = "path_components file_path"
  obtain base r1 fs1 where base: "real_path fs output_dir = Some base" and dots: "DOTDOT \<notin> set ?cs"
    and md: "make_dirs os base (butlast ?cs) fs = (r1, fs1)"
    and rest: "fs' = fs1 \<or> (\<exists>dir filename. r1 = Inr () \<and> real_path fs1 (butlast (output_dir @ ?cs)) = Some dir
      \<and> prefix base dir \<and> path_file_name (output_dir @ ?cs) = Some filename
      \<and> write_atomically os dir (dir @ [filename]) data mtime permissions fs1 = (r, fs'))"
    using write_validated_file_stages [OF run changed] by blast
  have dots': "DOTDOT \<notin> set (butlast ?cs)" using dots by (meson in_set_butlastD)
  show ?thesis
  proof (cases "node_at fs base = Some DirNode")
    case False
    have same: "fs1 = fs" by (rule make_dirs_below_file [OF real_path_resolved [OF base] False dots' md])
    have "node_at fs dir \<noteq> Some DirNode" if "real_path fs d = Some dir" "prefix base dir" for d dir
    proof
      assume "node_at fs dir = Some DirNode"
      then have "real_dirs fs dir" by (rule resolved_dir [OF real_path_resolved [OF that(1)]])
      then show False using False that(2) real_dirs_append real_dirs_node by (metis prefixE)
    qed
    then show ?thesis using rest write_atomically_no_dir changed unfolding same by metis
  next
    case True
    have real: "real_dirs fs base" by (rule resolved_dir [OF real_path_resolved [OF base] True])
    note add = make_dirs_adds [OF md real dots']
    have keeps: "node_at fs p = Some x \<Longrightarrow> node_at fs1 p = Some x" for p x
      using add adds_dirs_keeps by blast
    have parents: "strict_prefix base p \<and> node_at fs p = None" if "node_at fs1 p \<noteq> node_at fs p" for p
      using add that by (auto simp: adds_dirs_def)
    have "confined fs base ?cs fs'"
      unfolding confined_def
    proof (intro allI impI)
      fix p assume ch: "node_at fs' p \<noteq> node_at fs p"
      show "strict_prefix base p \<and> (?cs \<noteq> [] \<longrightarrow> node_at fs p = None \<or> p = base @ ?cs)"
      proof (cases "node_at fs1 p = node_at fs p")
        case False
        then show ?thesis using parents by blast
      next
        case same: True
        then obtain dir filename where d: "r1 = Inr ()" "real_path fs1 (butlast (output_dir @ ?cs)) = Some dir"
            "prefix base dir" "path_file_name (output_dir @ ?cs) = Some filename"
            "write_atomically os dir (dir @ [filename]) data mtime permissions fs1 = (r, fs')"
          using rest ch by auto
        have p: "p = dir @ [filename] \<or> p = dir @ [os_temp_name os dir fs1]"
          using write_atomically_other [OF d(5)] ch same by metis
        then have below: "strict_prefix base p" using d(3) by (auto simp: strict_prefix_def prefix_def)
        have "node_at fs p = None \<or> p = base @ ?cs" if cs: "?cs \<noteq> []"
        proof (cases "p = dir @ [filename]")
          case True
          have "real_path fs1 output_dir = Some base"
            using base keeps unfolding real_path_def by (rule resolve_mono)
          then have "real_path fs1 (output_dir @ butlast ?cs) = Some (base @ butlast ?cs)"
            using add d(1) by (intro real_path_append) auto
          then have "dir = base @ butlast ?cs" using d(2) cs by (simp add: butlast_append)
          moreover have "filename = last ?cs" using d(4) cs by (simp add: path_file_name_def split: if_splits)
          ultimately show ?thesis using True cs by simp
        next
          case False
          then have "node_at fs1 p = None" using p fresh by (auto simp: temp_names_fresh_def)
          then show ?thesis using same by simp
        qed
        then show ?thesis using below by blast
      qed
    qed
    then show ?thesis using base by blast
  qed
qed

section \<open>Extracting into a directory of its own\<close>

definition disk_writer :: "os \<Rightarrow> path \<Rightarrow> bool \<Rightarrow> fs write_fun" where
  "disk_writer os output_dir no_clobber e file_data fs =
     write_validated_file os output_dir (fe_path e) file_data (fe_mtime e) (fe_permissions e) no_clobber fs"

lemma disk_writer_confined:
  assumes run: "disk_writer os output_dir no_clobber e d fs = (r, fs')"
    and fresh: "temp_names_fresh os" and real: "real_dirs fs output_dir"
    and ch: "node_at fs' p \<noteq> node_at fs p"
  shows "strict_prefix output_dir p \<and> (node_at fs p = None \<or> p = output_dir @ path_components (fe_path e))"
proof -
  have fs': "fs' \<noteq> fs" using ch by auto
  note run = run [unfolded disk_writer_def]
  have c: "confined fs output_dir (path_components (fe_path e)) fs'"
    using write_validated_file_confined [OF run fresh fs'] real_path_self [OF real] by auto
  have "path_components (fe_path e) \<noteq> []"
  proof
    assume none: "path_components (fe_path e) = []"
    have "\<exists>dir filename. real_path fs (butlast output_dir) = Some dir \<and> prefix output_dir dir
        \<and> path_file_name output_dir = Some filename"
      using write_validated_file_stages [OF run fs'] fs' unfolding none
      by (auto simp: real_path_self [OF real])
    then have "prefix output_dir (butlast output_dir)" "output_dir \<noteq> []"
      by (auto simp: real_path_self [OF real_dirs_butlast [OF real]] path_file_name_def)
    then show False 
      using prefix_length_le [of output_dir "butlast output_dir", unfolded length_butlast] by (cases output_dir) auto
  qed
  then show ?thesis using c ch by (auto simp: confined_def)
qed

lemma real_dirs_confined:
  assumes "real_dirs fs base" "\<And>p. node_at fs' p \<noteq> node_at fs p \<Longrightarrow> strict_prefix base p"
  shows "real_dirs fs' base"
proof -
  have "node_at fs' (take k base) = node_at fs (take k base)" for k
    using assms(2) [of "take k base"] take_is_prefix [of k base] by (metis prefix_order.less_le_not_le)
  then show ?thesis using assms(1) by (simp add: real_dirs_def)
qed

lemma extract_files_confined:
  assumes "extract_files blake3 reassemble (disk_writer os output_dir no_clobber) es st fs = (r, fs')"
    and "temp_names_fresh os" "real_dirs fs output_dir" "node_at fs' p \<noteq> node_at fs p"
  shows "strict_prefix output_dir p
    \<and> (node_at fs p = None \<or> (\<exists>e \<in> set es. p = output_dir @ path_components (fe_path e)))"
  using assms
proof (induction es arbitrary: st fs)
  case (Cons e es)
  show ?case
  proof (cases "\<exists>d st1 fs1. reassemble e st = (Inr d, st1) \<and> checked_file blake3 e d = Inr ()
      \<and> disk_writer os output_dir no_clobber e d fs = (Inr (), fs1)")
    case True
    then obtain d st1 fs1 where s: "reassemble e st = (Inr d, st1)" "checked_file blake3 e d = Inr ()"
        "disk_writer os output_dir no_clobber e d fs = (Inr (), fs1)"
      by blast
    note c = disk_writer_confined [OF s(3) Cons.prems(2,3)]
    have "real_dirs fs1 output_dir" using real_dirs_confined [OF Cons.prems(3)] c by blast
    then show ?thesis
      using Cons.IH [of st1 fs1] Cons.prems c [of p] s by (cases "node_at fs1 p = node_at fs p") auto
  next
    case False
    then obtain d r1 where "fs' = fs \<or> disk_writer os output_dir no_clobber e d fs = (r1, fs')"
      using Cons.prems(1) by (auto split: prod.splits sum.splits)
    then have "disk_writer os output_dir no_clobber e d fs = (r1, fs')" using Cons.prems(4) by auto
    from disk_writer_confined [OF this Cons.prems(2-4)] show ?thesis by auto
  qed
qed simp

text \<open>Nothing that is already there is replaced when the caller asks for that.\<close>

lemma write_no_clobber_stage:
  assumes "write_validated_file os output_dir file_path data mtime permissions True fs = (r, fs')"
    and "write_atomically os dir (dir @ [filename]) data mtime permissions fs1 = (r, fs')" "fs' \<noteq> fs1" "fs' \<noteq> fs"
    and "real_path fs output_dir = Some base"
    and "make_dirs os base (butlast (path_components file_path)) fs = (Inr (), fs1)"
    and "real_path fs1 (butlast (output_dir @ path_components file_path)) = Some dir"
    and "path_file_name (output_dir @ path_components file_path) = Some filename"
  shows "\<not> path_exists os (dir @ [filename]) fs1"
  using assms
  by (auto simp: write_validated_file_def Let_def canonicalize_def bindF_def split: if_splits option.splits sum.splits)

lemma real_path_entry:
  "real_dirs fs dir \<Longrightarrow> c \<noteq> DOTDOT \<Longrightarrow> node_at fs (dir @ [c]) = Some n \<Longrightarrow> \<not> is_link n \<Longrightarrow>
   real_path fs (dir @ [c]) = Some (dir @ [c])"
  by (subst real_path_real) (auto simp: resolve.simps(2) is_link_def split: node.splits)

lemma real_path_mono:
  "real_path fs p = Some q \<Longrightarrow> (\<And>r x. node_at fs r = Some x \<Longrightarrow> node_at fs' r = Some x) \<Longrightarrow> real_path fs' p = Some q"
  unfolding real_path_def by (rule resolve_mono)

text \<open>
  An entry that is no link, or whose link leads somewhere, is kept by a write as soon as the system
  answers whether that entry exists.
\<close>

lemma disk_writer_no_clobber:
  assumes run: "disk_writer os output_dir True e d fs = (r, fs')" and exists: "\<And>fs. \<not> os_fault os (Exists p) fs"
    and fresh: "temp_names_fresh os" and real: "real_dirs fs output_dir"
    and node: "node_at fs p = Some n" "\<not> is_link n \<or> real_path fs p \<noteq> None"
  shows "node_at fs' p = Some n"
proof (rule ccontr)
  assume "node_at fs' p \<noteq> Some n"
  then have ch: "node_at fs' p \<noteq> node_at fs p" using node by simp
  then have p: "p = output_dir @ path_components (fe_path e)" "strict_prefix output_dir p"
    using disk_writer_confined [OF run fresh real ch] node by auto
  let ?cs = "path_components (fe_path e)"
  have cs: "?cs \<noteq> []" using p by (auto simp: strict_prefix_def)
  note run = run [unfolded disk_writer_def]
  obtain r1 fs1 where dots: "DOTDOT \<notin> set ?cs" and md: "make_dirs os output_dir (butlast ?cs) fs = (r1, fs1)"
    and rest: "fs' = fs1 \<or> (\<exists>dir filename. r1 = Inr () \<and> real_path fs1 (butlast (output_dir @ ?cs)) = Some dir
      \<and> prefix output_dir dir \<and> path_file_name (output_dir @ ?cs) = Some filename
      \<and> write_atomically os dir (dir @ [filename]) (d) (fe_mtime e) (fe_permissions e) fs1 = (r, fs'))"
    using write_validated_file_stages [OF run] ch real_path_self [OF real] by auto
  have "DOTDOT \<notin> set (butlast ?cs)" using dots by (meson in_set_butlastD)
  note add = make_dirs_adds [OF md real this]
  have keeps: "node_at fs q = Some x \<Longrightarrow> node_at fs1 q = Some x" for q x
    using add adds_dirs_keeps by blast
  have "fs' \<noteq> fs1" using ch keeps node by auto
  then obtain dir filename where d: "r1 = Inr ()" "real_path fs1 (butlast (output_dir @ ?cs)) = Some dir"
      "path_file_name (output_dir @ ?cs) = Some filename"
      "write_atomically os dir (dir @ [filename]) d (fe_mtime e) (fe_permissions e) fs1 = (r, fs')"
    using rest by blast
  have "real_dirs fs1 (output_dir @ butlast ?cs)" using add d(1) by auto
  from real_path_self [OF this] have dir: "dir = output_dir @ butlast ?cs" "real_dirs fs1 dir"
    using d(2) cs \<open>real_dirs fs1 (output_dir @ butlast ?cs)\<close> by (simp_all add: butlast_append)
  have name: "filename = last ?cs" using d(3) cs by (simp add: path_file_name_def split: if_splits)
  have at: "dir @ [filename] = p" using cs by (simp add: p(1) dir(1) name)
  have "filename \<noteq> DOTDOT" using dots cs name by (metis last_in_set)
  then have "\<not> is_link n \<Longrightarrow> real_path fs1 (dir @ [filename]) = Some (dir @ [filename])"
    by (rule real_path_entry [OF dir(2)]) (use at keeps [OF node(1)] in auto)
  moreover have "real_path fs1 p \<noteq> None" if "real_path fs p \<noteq> None"
    using that real_path_mono [OF _ keeps] by blast
  ultimately have "path_exists os (dir @ [filename]) fs1" using exists node(2) unfolding at by (auto simp: path_exists_def)
  moreover have "\<not> path_exists os (dir @ [filename]) fs1"
    using write_no_clobber_stage [OF run d(4) \<open>fs' \<noteq> fs1\<close> _ real_path_self [OF real]] ch md d(1-3) by auto
  ultimately show False by simp
qed

lemma extract_files_step:
  assumes "extract_files blake3 reassemble (disk_writer os output_dir no_clobber) (e # es) st fs = (r, fs')"
    and "temp_names_fresh os" "real_dirs fs output_dir"
  obtains "fs' = fs" | d r1 fs1 st1 where "disk_writer os output_dir no_clobber e d fs = (r1, fs1)" "real_dirs fs1 output_dir"
    "fs' = fs1 \<or> extract_files blake3 reassemble (disk_writer os output_dir no_clobber) es st1 fs1 = (r, fs')"
proof (cases "\<exists>d st1. reassemble e st = (Inr d, st1) \<and> checked_file blake3 e d = Inr ()")
  case True
  then obtain d st1 r1 fs1 where s: "reassemble e st = (Inr d, st1)" "checked_file blake3 e d = Inr ()"
      "disk_writer os output_dir no_clobber e d fs = (r1, fs1)"
    by fastforce
  have "real_dirs fs1 output_dir"
    using real_dirs_confined [OF assms(3)] disk_writer_confined [OF s(3) assms(2,3)] by blast
  then show thesis using that(2) [OF s(3), of st1] assms(1) s by (cases r1) auto
next
  case False
  then have "fs' = fs" using assms(1) by (auto split: prod.splits sum.splits)
  then show thesis by (rule that(1))
qed

lemma extract_files_no_clobber:
  assumes "extract_files blake3 reassemble (disk_writer os output_dir True) es st fs = (r, fs')"
    and exists: "\<And>fs. \<not> os_fault os (Exists p) fs"
    and "temp_names_fresh os" "real_dirs fs output_dir" "node_at fs p = Some n" "\<not> is_link n"
  shows "node_at fs' p = Some n"
  using assms
proof (induction es arbitrary: st fs)
  case (Cons e es)
  from Cons.prems(1,3,4) show ?case
  proof (cases rule: extract_files_step)
    case 1
    then show ?thesis using Cons.prems(5) by simp
  next
    case (2 d r1 fs1 st1)
    have "node_at fs1 p = Some n"
      by (rule disk_writer_no_clobber [OF 2(1) exists Cons.prems(3-5)]) (simp add: Cons.prems(6))
    then show ?thesis using 2 Cons.IH [of st1 fs1] Cons.prems by auto
  qed
qed simp

text \<open>
  A link that leads somewhere goes on leading there when whatever else leads somewhere is kept: the
  names on its way all do, with more links left to follow than the way itself needs.
\<close>

lemma resolve_prefix: "resolve fs n cur (a @ b) \<noteq> None \<Longrightarrow> resolve fs n cur a \<noteq> None"
proof (induction fs n cur a rule: resolve.induct)
  case (2 fs n cur c cs)
  show ?case
  proof (cases "c = DOTDOT")
    case True
    then show ?thesis using 2 by (simp add: resolve.simps(2))
  next
    case c: False
    then obtain nd where nd: "node_at fs (cur @ [c]) = Some nd"
      using "2.prems" by (auto simp: resolve.simps(2) split: option.splits)
    show ?thesis
      using 2 c nd by (cases nd; cases n) (simp_all add: resolve.simps(2) split: if_splits)
  qed
qed simp

lemma resolve_one_more_link: "resolve fs n cur cs = Some q \<Longrightarrow> resolve fs (Suc n) cur cs = Some q"
proof (induction fs n cur cs rule: resolve.induct)
  case (2 fs n cur c cs)
  show ?case
  proof (cases "c = DOTDOT")
    case True
    then show ?thesis using 2 by (simp add: resolve.simps(2))
  next
    case c: False
    then obtain nd where nd: "node_at fs (cur @ [c]) = Some nd"
      using "2.prems" by (auto simp: resolve.simps(2) split: option.splits)
    show ?thesis
      using 2 c nd by (cases nd; cases n) (simp_all add: resolve.simps(2) split: if_splits)
  qed
qed simp

lemma resolve_more_links: "resolve fs n cur cs = Some q \<Longrightarrow> n \<le> m \<Longrightarrow> resolve fs m cur cs = Some q"
  by (induction m) (auto simp: le_Suc_eq intro: resolve_one_more_link)

lemma resolve_kept:
  assumes "resolve fs n cur cs = Some q" "n \<le> MAX_LINKS" "real_dirs fs cur"
    and "\<And>p x. node_at fs p = Some x \<Longrightarrow> real_path fs p \<noteq> None \<Longrightarrow> node_at fs' p = Some x"
  shows "resolve fs' n cur cs = Some q"
  using assms
proof (induction fs n cur cs rule: resolve.induct)
  case (2 fs n cur c cs)
  show ?case
  proof (cases "c = DOTDOT")
    case True
    then show ?thesis using 2 by (simp add: resolve.simps(2) real_dirs_butlast)
  next
    case c: False
    then obtain nd where nd: "node_at fs (cur @ [c]) = Some nd"
      using "2.prems"(1) by (auto simp: resolve.simps(2) split: option.splits)
    have "resolve fs n cur [c] \<noteq> None" using "2.prems"(1) resolve_prefix [of fs n cur "[c]" cs] by simp
    then have "real_path fs (cur @ [c]) \<noteq> None"
      using resolve_more_links [OF _ "2.prems"(2)] by (auto simp: real_path_real [OF "2.prems"(3)])
    then have nd': "node_at fs' (cur @ [c]) = Some nd" by (rule "2.prems"(4) [OF nd])
    have "real_dirs fs (cur @ [c])" if "nd = DirNode"
      using "2.prems"(3) nd that c by (simp add: real_dirs_snoc)
    then show ?thesis
      using 2 c nd nd' by (cases nd; cases n) (simp_all add: resolve.simps(2) split: if_splits)
  qed
qed simp

lemma extract_files_keeps_links:
  assumes "extract_files blake3 reassemble (disk_writer os output_dir True) es st fs = (r, fs')"
    and exists: "\<And>p fs. \<not> os_fault os (Exists p) fs"
    and "temp_names_fresh os" "real_dirs fs output_dir" "node_at fs p = Some n" "real_path fs p \<noteq> None"
  shows "node_at fs' p = Some n"
  using assms
proof (induction es arbitrary: st fs)
  case (Cons e es)
  from Cons.prems(1,3,4) show ?case
  proof (cases rule: extract_files_step)
    case 1
    then show ?thesis using Cons.prems(5) by simp
  next
    case (2 d r1 fs1 st1)
    have keeps: "node_at fs1 q = Some x" if "node_at fs q = Some x" "real_path fs q \<noteq> None" for q x
      by (rule disk_writer_no_clobber [OF 2(1) exists Cons.prems(3,4) that(1)]) (simp add: that(2))
    obtain q where "real_path fs p = Some q" using Cons.prems(6) by blast
    then have "real_path fs1 p = Some q"
      unfolding real_path_def by (rule resolve_kept [OF _ order.refl real_dirs_Nil keeps])
    then show ?thesis using 2 Cons.IH [of st1 fs1] Cons.prems keeps by auto
  qed
qed simp

text \<open>Without faults, in the way of no link and no file, a write succeeds and does nothing else.\<close>

definition no_faults :: "os \<Rightarrow> bool" where
  "no_faults os \<longleftrightarrow> (\<forall>call fs. \<not> os_fault os call fs)"

definition path_between :: "path \<Rightarrow> path \<Rightarrow> path \<Rightarrow> bool" where
  "path_between base components p \<longleftrightarrow> strict_prefix base p \<and> prefix p (base @ components)"

lemma below_drop: "strict_prefix base p \<longleftrightarrow> (\<exists>c. c \<noteq> [] \<and> p = base @ c)"
  by (auto simp: strict_prefix_def prefix_def)

lemma prefix_butlast: "cs \<noteq> [] \<Longrightarrow> prefix c (butlast cs) \<longleftrightarrow> strict_prefix c cs"
  by (cases cs rule: rev_cases) (auto simp: strict_prefix_def)

lemma path_between_append: "path_between base cs p \<longleftrightarrow> (\<exists>c. c \<noteq> [] \<and> p = base @ c \<and> prefix c cs)"
  by (auto simp: path_between_def below_drop)

lemma path_between_Nil [simp]: "\<not> path_between base [] p"
  by (auto simp: path_between_def)

lemma path_between_Cons: "path_between base (c # cs) p \<longleftrightarrow> p = base @ [c] \<or> path_between (base @ [c]) cs p"
  by (auto simp: path_between_def strict_prefix_def prefix_def append_eq_append_conv2 Cons_eq_append_conv append_eq_Cons_conv)

lemma make_dirs_ok:
  "no_faults os \<Longrightarrow> real_dirs fs base \<Longrightarrow> DOTDOT \<notin> set cs
   \<Longrightarrow> \<forall>p. path_between base cs p \<longrightarrow> node_at fs p = None \<or> node_at fs p = Some DirNode \<Longrightarrow>
   \<exists>fs'. make_dirs os base cs fs = (Inr (), fs')
     \<and> (\<forall>p. node_at fs' p = (if path_between base cs p then Some DirNode else node_at fs p))"
proof (induction cs arbitrary: base fs)
  case (Cons c cs)
  let ?b = "base @ [c]"
  have c: "c \<noteq> DOTDOT" using Cons.prems(3) by auto
  have no: "os_fault os call s = False" for call s using Cons.prems(1) by (simp add: no_faults_def)
  show ?case
  proof (cases "node_at fs ?b")
    case None
    have gone: "real_path fs ?b = None"
      using real_path_real [OF Cons.prems(2), of "[c]"] None c by (simp add: resolve.simps(2))
    let ?fs = "AList.update ?b DirNode fs"
    have new: "node_at ?fs p = (if p = ?b then Some DirNode else node_at fs p)" for p
      by (simp add: node_at_update)
    have real: "real_dirs ?fs ?b"
      using real_dirs_mono [OF Cons.prems(2), of ?fs] c new by (auto simp: real_dirs_snoc)
    have step: "make_dirs os base (c # cs) fs = make_dirs os ?b cs ?fs"
      using gone None new [of ?b] entry_below_dir [OF Cons.prems(2), of c]
        entry_below_dir [OF real_dirs_append [OF real], of c]
      by (simp add: Let_def path_exists_def create_dir_def symlink_metadata_def no is_link_def)
    have "\<forall>p. path_between ?b cs p \<longrightarrow> node_at ?fs p = None \<or> node_at ?fs p = Some DirNode"
      using Cons.prems(4) unfolding new path_between_Cons by simp
    then obtain fs' where "make_dirs os ?b cs ?fs = (Inr (), fs')"
        "\<forall>p. node_at fs' p = (if path_between ?b cs p then Some DirNode else node_at ?fs p)"
      using Cons.IH [OF Cons.prems(1) real] Cons.prems(3) by auto
    then show ?thesis unfolding step by (auto simp: path_between_Cons new)
  next
    case (Some n)
    then have n: "n = DirNode" using Cons.prems(4) by (auto simp: path_between_Cons)
    have real: "real_dirs fs ?b" using Cons.prems(2) c Some n by (simp add: real_dirs_snoc)
    have step: "make_dirs os base (c # cs) fs = make_dirs os ?b cs fs"
      using Some n entry_below_dir [OF Cons.prems(2), of c] real_path_self [OF real]
      by (simp add: Let_def path_exists_def symlink_metadata_def no is_link_def)
    obtain fs' where "make_dirs os ?b cs fs = (Inr (), fs')"
        "\<forall>p. node_at fs' p = (if path_between ?b cs p then Some DirNode else node_at fs p)"
      using Cons.IH [OF Cons.prems(1) real] Cons.prems(3,4) by (auto simp: path_between_Cons)
    then show ?thesis using Some n unfolding step by (auto simp: path_between_Cons)
  qed
qed simp

lemma refuse_link_ok:
  assumes "no_faults os" "real_dirs fs dir" "\<And>n. node_at fs (dir @ [f]) = Some n \<Longrightarrow> \<not> is_link n" "f \<noteq> DOTDOT"
  shows "refuse_link os (dir @ [f]) a b fs = Inr ()"
  using assms entry_below_dir [OF assms(2), of f] real_path_real [OF assms(2), of "[f]"]
  by (cases "node_at fs (dir @ [f])")
    (auto simp: refuse_link_def path_exists_def symlink_metadata_def no_faults_def resolve.simps(2))

definition written_node :: "bytes \<Rightarrow> u64 \<Rightarrow> u32 \<Rightarrow> node" where
  "written_node data mtime permissions =
     FileNode data (permissions AND SAFE_PERMISSION_MASK) (if 0 < sint mtime then Some mtime else None)"

lemma update_file_node:
  "node_at fs q = Some (FileNode d m t) \<Longrightarrow> q \<noteq> [] \<Longrightarrow>
   node_at (update_file f q fs) p = (if p = q then Some (f (FileNode d m t)) else node_at fs p)"
  by (simp add: update_file_def node_at_update)

lemma write_atomically_ok:
  assumes no: "no_faults os" and real: "real_dirs fs dir" and f: "f \<noteq> DOTDOT"
    and fresh: "temp_names_fresh os" and free: "\<And>n. node_at fs (dir @ [f]) = Some n \<Longrightarrow> \<not> is_link n \<and> n \<noteq> DirNode"
  shows "\<exists>fs'. write_atomically os dir (dir @ [f]) data mtime permissions fs = (Inr (), fs')
    \<and> (\<forall>p. node_at fs' p = (if p = dir @ [f] then Some (written_node data mtime permissions) else node_at fs p))"
proof -
  let ?tmp = "dir @ [os_temp_name os dir fs]" and ?dst = "dir @ [f]" and ?mode = "permissions AND SAFE_PERMISSION_MASK"
  have nof: "os_fault os call s = False" for call s using no by (simp add: no_faults_def)
  have dst: "node_at fs ?dst \<noteq> Some DirNode" using free by auto
  have none: "node_at fs ?tmp = None" using fresh by (simp add: temp_names_fresh_def)
  define fs1 where "fs1 = AList.update ?tmp (FileNode [] TEMP_MODE None) fs"
  define fs2 where "fs2 = update_file (put_data data) ?tmp fs1"
  define fs3 where "fs3 = update_file (put_mode ?mode) ?tmp fs2"
  define fs4 where "fs4 = AList.update ?dst (FileNode data ?mode None) (AList.delete ?tmp fs3)"
  have n1: "node_at fs1 p = (if p = ?tmp then Some (FileNode [] TEMP_MODE None) else node_at fs p)" for p
    by (simp add: fs1_def node_at_update)
  have n2: "node_at fs2 p = (if p = ?tmp then Some (FileNode data TEMP_MODE None) else node_at fs p)" for p
    using n1 by (simp add: fs2_def update_file_node)
  have n3: "node_at fs3 p = (if p = ?tmp then Some (FileNode data ?mode None) else node_at fs p)" for p
    using n2 by (simp add: fs3_def update_file_node)
  have n4: "node_at fs4 p = (if p = ?dst then Some (FileNode data ?mode None) else node_at fs p)" for p
    using none by (simp add: fs4_def node_at_update node_at_delete n3)
  have real3: "real_dirs fs3 dir" by (rule real_dirs_mono [OF real]) (use n3 none in auto)
  have link: "refuse_link os ?dst a b fs3 = Inr ()" for a b
    by (rule refuse_link_ok [OF no real3 _ f]) (use n3 free in \<open>auto simp: is_link_def split: if_splits\<close>)
  have t: "new_temp_file os dir fs = (Some ?tmp, fs1)"
    using real_dirs_node [OF real] by (simp add: new_temp_file_def nof fs1_def Let_def)
  have p: "persist os ?tmp ?dst fs3 = (True, fs4)"
    using n3 dst by (auto simp: persist_def nof fs4_def)
  have m: "set_file_mtime os ?dst mtime fs4 = update_file (put_time mtime) ?dst fs4"
    by (simp add: set_file_mtime_def nof)
  have run: "write_atomically os dir ?dst data mtime permissions fs =
      (Inr (), if 0 < sint mtime then update_file (put_time mtime) ?dst fs4 else fs4)"
    unfolding write_atomically_def t
    by (simp add: write_all_def set_permissions_def nof fs2_def [symmetric] fs3_def [symmetric] link p m Let_def)
  show ?thesis
    unfolding run by (auto simp: update_file_node n4 written_node_def)
qed

lemma disk_writer_ok:
  assumes no: "no_faults os" and fresh: "temp_names_fresh os" and real: "real_dirs fs output_dir"
    and path: "validate_extraction_path (fe_path e) = Inr ()" "path_components (fe_path e) = cs" "cs \<noteq> []"
    and parents: "\<forall>p. path_between output_dir (butlast cs) p \<longrightarrow> node_at fs p = None \<or> node_at fs p = Some DirNode"
    and free: "node_at fs (output_dir @ cs) = None"
  shows "\<exists>fs'. disk_writer os output_dir no_clobber e d fs = (Inr (), fs')
    \<and> (\<forall>p. node_at fs' p =
         (if p = output_dir @ cs then Some (written_node d (fe_mtime e) (fe_permissions e))
          else if path_between output_dir (butlast cs) p then Some DirNode else node_at fs p))"
proof -
  let ?dir = "output_dir @ butlast cs"
  have nof: "os_fault os call s = False" for call s using no by (simp add: no_faults_def)
  have dots: "DOTDOT \<notin> set cs"
    using path(1,2) components_no_dotdot by (auto simp: validate_extraction_path_def split: if_splits)
  then have dots': "DOTDOT \<notin> set (butlast cs)" "last cs \<noteq> DOTDOT"
    using last_in_set [OF path(3)] by (auto dest: in_set_butlastD)
  obtain fs1 where md: "make_dirs os output_dir (butlast cs) fs = (Inr (), fs1)"
      "\<forall>p. node_at fs1 p = (if path_between output_dir (butlast cs) p then Some DirNode else node_at fs p)"
    using make_dirs_ok [OF no real dots'(1) parents] by blast
  have dir: "real_dirs fs1 ?dir" using make_dirs_adds [OF md(1) real dots'(1)] by simp
  have split: "?dir @ [last cs] = output_dir @ cs" using path(3) by simp
  have none: "node_at fs1 (?dir @ [last cs]) = None"
    using md(2) free path(3) unfolding split by (simp add: path_between_append prefix_butlast)
  have link: "refuse_link os (?dir @ [last cs]) a b fs1 = Inr ()" for a b
    by (rule refuse_link_ok [OF no dir _ dots'(2)]) (use none in simp)
  obtain fs' where w: "write_atomically os ?dir (?dir @ [last cs]) d (fe_mtime e) (fe_permissions e) fs1 = (Inr (), fs')"
      "\<forall>p. node_at fs' p = (if p = ?dir @ [last cs] then Some (written_node d (fe_mtime e) (fe_permissions e)) else node_at fs1 p)"
    using write_atomically_ok [OF no dir dots'(2) fresh] none by (metis option.distinct(1))
  have ex: "path_exists os (?dir @ [last cs]) fs1 = False"
    using real_path_real [OF dir, of "[last cs]"] none dots'(2) by (simp add: path_exists_def resolve.simps(2))
  have par: "canonicalize os (butlast (output_dir @ cs)) fs1 = Inr ?dir"
    using real_path_self [OF dir] path(3) by (simp add: canonicalize_def nof butlast_append)
  have out: "canonicalize os output_dir fs = Inr output_dir"
    by (simp add: canonicalize_def nof real_path_self [OF real])
  have name: "path_file_name (output_dir @ cs) = Some (last cs)"
    using path(3) dots'(2) by (simp add: path_file_name_def)
  have "disk_writer os output_dir no_clobber e d fs = (Inr (), fs')"
    by (simp add: disk_writer_def write_validated_file_def path(1,2) out md(1) par name ex link w(1) Let_def
        del: append_assoc append_butlast_last_id)
  then show ?thesis using w(2) md(2) unfolding split by (intro exI conjI) auto
qed

text \<open>The tree that files make, each at its path with its directories above it.\<close>

abbreviation entry_components :: "file_entry \<Rightarrow> path" where
  "entry_components e \<equiv> path_components (fe_path e)"

definition tree_node :: "(file_entry \<times> bytes) list \<Rightarrow> path \<Rightarrow> node option" where
  "tree_node files c =
     (case map_of (map (\<lambda>(e, d). (entry_components e, written_node d (fe_mtime e) (fe_permissions e))) files) c of
        Some n \<Rightarrow> Some n
      | None \<Rightarrow> if \<exists>(e, d) \<in> set files. strict_prefix c (entry_components e) then Some DirNode else None)"

definition writable_files :: "(file_entry \<times> bytes) list \<Rightarrow> bool" where
  "writable_files files \<longleftrightarrow>
     (\<forall>(e, d) \<in> set files. validate_extraction_path (fe_path e) = Inr () \<and> entry_components e \<noteq> [])
     \<and> sorted_wrt (\<lambda>(e, _) (e', _). parallel (entry_components e) (entry_components e')) files"

definition holds_tree :: "fs \<Rightarrow> path \<Rightarrow> (file_entry \<times> bytes) list \<Rightarrow> fs \<Rightarrow> bool" where
  "holds_tree fs0 base files fs \<longleftrightarrow>
     (\<forall>p. node_at fs p = (if strict_prefix base p then tree_node files (drop (length base) p) else node_at fs0 p))"

lemma tree_node_snoc:
  assumes "\<forall>(e', d') \<in> set files. parallel (entry_components e') (entry_components e)"
  shows "tree_node (files @ [(e, d)]) c =
    (if c = entry_components e then Some (written_node d (fe_mtime e) (fe_permissions e))
     else if strict_prefix c (entry_components e) then Some DirNode else tree_node files c)"
proof -
  have "map_of (map (\<lambda>(e, d). (entry_components e, written_node d (fe_mtime e) (fe_permissions e))) files) c = None"
    if "prefix c (entry_components e)"
    using that assms by (fastforce simp: map_of_eq_None_iff)
  then show ?thesis by (auto simp: tree_node_def map_add_def strict_prefix_def split: option.split)
qed

lemma tree_node_parallel:
  assumes "\<forall>(e', d') \<in> set files. parallel (entry_components e') cs"
  shows "tree_node files cs = None" "strict_prefix c cs \<Longrightarrow> tree_node files c = None \<or> tree_node files c = Some DirNode"
proof -
  have "map_of (map (\<lambda>(e, d). (entry_components e, written_node d (fe_mtime e) (fe_permissions e))) files) c = None"
    if "prefix c cs" for c
    using that assms by (fastforce simp: map_of_eq_None_iff)
  then show "tree_node files cs = None" "strict_prefix c cs \<Longrightarrow> tree_node files c = None \<or> tree_node files c = Some DirNode"
    using assms by (auto simp: tree_node_def strict_prefix_def split: option.split)
qed

lemma disk_writer_tree:
  assumes os: "no_faults os" "temp_names_fresh os" and real: "real_dirs fs output_dir"
    and tree: "holds_tree fs0 output_dir done fs"
    and path: "validate_extraction_path (fe_path e) = Inr ()" "entry_components e \<noteq> []"
    and par: "\<forall>(e', d') \<in> set done. parallel (entry_components e') (entry_components e)"
  shows "\<exists>fs'. disk_writer os output_dir no_clobber e d fs = (Inr (), fs')
    \<and> real_dirs fs' output_dir \<and> holds_tree fs0 output_dir (done @ [(e, d)]) fs'"
proof -
  let ?cs = "entry_components e"
  have at: "node_at fs (output_dir @ c) = tree_node done c" if "c \<noteq> []" for c
    using tree that by (auto simp: holds_tree_def below_drop)
  have btw: "path_between output_dir (butlast ?cs) p \<longleftrightarrow> (\<exists>c. c \<noteq> [] \<and> p = output_dir @ c \<and> strict_prefix c ?cs)" for p
    using prefix_butlast [OF path(2)] by (simp add: path_between_append)
  have "\<forall>p. path_between output_dir (butlast ?cs) p \<longrightarrow> node_at fs p = None \<or> node_at fs p = Some DirNode"
  proof (intro allI impI)
    fix p assume "path_between output_dir (butlast ?cs) p"
    then obtain c where "c \<noteq> []" "p = output_dir @ c" "strict_prefix c ?cs" by (auto simp: btw)
    then show "node_at fs p = None \<or> node_at fs p = Some DirNode"
      using at [of c] tree_node_parallel(2) [OF par, of c] by simp
  qed
  moreover have "node_at fs (output_dir @ ?cs) = None"
    using at [OF path(2)] tree_node_parallel(1) [OF par] by simp
  ultimately obtain fs' where w: "disk_writer os output_dir no_clobber e d fs = (Inr (), fs')"
      "\<forall>p. node_at fs' p = (if p = output_dir @ ?cs then Some (written_node d (fe_mtime e) (fe_permissions e))
          else if path_between output_dir (butlast ?cs) p then Some DirNode else node_at fs p)"
    using disk_writer_ok [OF os real path(1) refl path(2)] by blast
  have "real_dirs fs' output_dir"
    by (rule real_dirs_confined [OF real]) (use disk_writer_confined [OF w(1) os(2) real] in blast)
  moreover have "holds_tree fs0 output_dir (done @ [(e, d)]) fs'"
    unfolding holds_tree_def
  proof
    fix p
    show "node_at fs' p = (if strict_prefix output_dir p
        then tree_node (done @ [(e, d)]) (drop (length output_dir) p) else node_at fs0 p)"
    proof (cases "strict_prefix output_dir p")
      case True
      then obtain c where c: "c \<noteq> []" "p = output_dir @ c" by (auto simp: below_drop)
      then show ?thesis using True w(2) c at [of c] by (auto simp add: btw tree_node_snoc [OF par])
    next
      case False
      then have "node_at fs p = node_at fs0 p" using tree by (simp add: holds_tree_def)
      moreover have "p \<noteq> output_dir @ ?cs" "\<not> path_between output_dir (butlast ?cs) p"
        using False path(2) by (auto simp: below_drop btw)
      ultimately show ?thesis using False w(2) by simp
    qed
  qed
  ultimately show ?thesis using w(1) by blast
qed

lemma holds_tree_start:
  "(\<And>p. strict_prefix base p \<Longrightarrow> node_at fs p = None) \<Longrightarrow> holds_tree fs base [] fs"
  by (simp add: holds_tree_def tree_node_def)

lemma write_each_tree:
  assumes "no_faults os" "temp_names_fresh os"
  shows "real_dirs fs output_dir \<Longrightarrow> holds_tree fs0 output_dir done fs \<Longrightarrow> writable_files (done @ files) \<Longrightarrow>
    \<exists>fs'. write_each (disk_writer os output_dir no_clobber) files fs = (Inr (), fs')
      \<and> real_dirs fs' output_dir \<and> holds_tree fs0 output_dir (done @ files) fs'"
proof (induction files arbitrary: "done" fs)
  case (Cons x files)
  obtain e d where x: "x = (e, d)" by fastforce
  have e: "validate_extraction_path (fe_path e) = Inr ()" "entry_components e \<noteq> []"
      "\<forall>(e', d') \<in> set done. parallel (entry_components e') (entry_components e)"
    using Cons.prems(3) by (auto simp: writable_files_def x sorted_wrt_append)
  obtain fs1 where w: "disk_writer os output_dir no_clobber e d fs = (Inr (), fs1)" "real_dirs fs1 output_dir"
      "holds_tree fs0 output_dir (done @ [(e, d)]) fs1"
    using disk_writer_tree [OF assms Cons.prems(1,2) e] by blast
  have "writable_files ((done @ [(e, d)]) @ files)" using Cons.prems(3) by (simp add: x)
  from Cons.IH [OF w(2,3) this] show ?case by (simp add: x w(1))
qed auto

end
