(* ===== verification/Unpacking.thy ===== *)
theory Unpacking
  imports Recovery FileSystem
begin

text \<open>
  Archives against the file system and against pipes: a written archive read as a stream gives what
  the seekable reader gives, no archive whatever writes outside its output directory, and a written
  archive rebuilds the tree it was made from.
\<close>

section \<open>A written archive as a stream\<close>

context writer_contract
begin

lemma opened_extract_streaming:
  assumes op: "opened co cp inputs archive md dk baseline ds datas" and reader: "reader_matches co cp dc"
  shows "extract_all_streaming ae dc write_file archive fs = extract_all ae dc write_file archive fs"
proof -
  note f = op [unfolded opened_def]
  obtain s cs where s: "read_metadata_streaming ae archive = Inr (streaming_view md, s)"
      "stream_holds (decompress_block_streaming ae baseline dk) s ds cs"
      "sum_list cs \<le> MAX_TOTAL_COMPRESSED_READ_SIZE"
    using f by (elim conjE exE)
  obtain s' where blocks: "stream_blocks (decompress_block_streaming ae baseline dk) (length ds) 0 0 0
      (replicate (length ds) None) s = Some (Inr (map Some ds, s'))"
    using stream_blocks_held [OF s(2), of "replicate (length ds) None" 0 0 0] s(3) f by auto
  have all: "decompress_all_blocks ae dc archive md dk = Some (Inr (map Some ds))"
    using opened_blocks [OF op reader] by (simp add: decompress_all_blocks_def)
  have count: "unat (ah_block_count (am_header md)) = length ds" using f by (elim conjE)
  have "extract_all_streaming ae dc write_file archive fs =
      Some (write_all_files ae write_file (am_file_entries md) (map Some ds) fs)"
    using f reader reader_dictionary [OF reader] reader_baseline [OF reader] blocks
    by (simp add: extract_all_streaming_def extract_with_streaming_metadata_def s(1) streaming_view_def count
        reader_matches_def Let_def)
  moreover have "extract_all ae dc write_file archive fs =
      Some (write_all_files ae write_file (am_file_entries md) (map Some ds) fs)"
    using f reader reader_dictionary [OF reader] all by (simp add: extract_all_def reader_matches_def)
  ultimately show ?thesis by simp
qed

lemma opened_verify_streaming:
  assumes op: "opened co cp inputs archive md dk baseline ds datas" and reader: "reader_matches co cp dc"
  shows "verify_streaming ae dc archive = Some (Inr \<lparr>vr_total_blocks = length ds, vr_verified_blocks = length ds,
    vr_corrupted_blocks = []\<rparr>)"
proof -
  note f = op [unfolded opened_def]
  let ?start = "\<lparr>vr_total_blocks = length ds, vr_verified_blocks = 0, vr_corrupted_blocks = []\<rparr>"
  obtain s cs where s: "read_metadata_streaming ae archive = Inr (streaming_view md, s)"
      "stream_holds (decompress_block_streaming ae baseline dk) s ds cs"
    using f by (elim conjE exE)
  obtain r where r: "verify_blocks ae baseline dk (length ds) 0 ?start s = Some r"
    using verify_blocks_returns [of baseline dk "length ds" 0 ?start s] by auto
  have "vr_corrupted_blocks r = []" using verify_blocks_exact(1) [OF r] s(2) by blast
  moreover from verify_blocks_exact(2) [OF r this] have "vr_verified_blocks r = length ds" .
  moreover have "vr_total_blocks r = length ds" using verify_blocks_counts [OF r] by simp
  ultimately have "r = \<lparr>vr_total_blocks = length ds, vr_verified_blocks = length ds, vr_corrupted_blocks = []\<rparr>"
    by (cases r) simp
  then show ?thesis
    using f reader reader_baseline [OF reader] r
    by (simp add: verify_streaming_def verify_with_streaming_metadata_def s(1) streaming_view_def
        reader_matches_def Let_def)
qed

end

section \<open>Confinement\<close>

lemma write_all_files_confined:
  assumes "write_all_files env (disk_writer os output_dir no_clobber) es decoded fs = (r, fs')"
    and "temp_names_fresh os" "real_dirs fs output_dir" "node_at fs' p \<noteq> node_at fs p"
  shows "strict_prefix output_dir p
    \<and> (node_at fs p = None \<or> (\<exists>e \<in> set es. p = output_dir @ entry_components e))"
  using extract_files_confined [OF assms(1) [unfolded write_all_files_def Let_def] assms(2-4)] .

lemma extract_all_confined:
  assumes "extract_all env dc (disk_writer os output_dir no_clobber) archive fs = Some (r, fs')
      \<or> extract_all_streaming env dc (disk_writer os output_dir no_clobber) archive fs = Some (r, fs')"
    and "temp_names_fresh os" "real_dirs fs output_dir" "node_at fs' p \<noteq> node_at fs p"
  shows "strict_prefix output_dir p"
proof -
  have "fs' = fs \<or> (\<exists>es decoded. write_all_files env (disk_writer os output_dir no_clobber) es decoded fs = (r, fs'))"
    using assms(1)
    by (auto simp: extract_all_def extract_all_streaming_def extract_with_streaming_metadata_def Let_def
        split: option.splits sum.splits prod.splits)
  then show ?thesis using write_all_files_confined [OF _ assms(2-4)] assms(4) by blast
qed

lemma extract_all_no_clobber:
  assumes run: "extract_all env dc (disk_writer os output_dir True) archive fs = Some (r, fs')
      \<or> extract_all_streaming env dc (disk_writer os output_dir True) archive fs = Some (r, fs')"
    and fresh: "temp_names_fresh os" "real_dirs fs output_dir" and node: "node_at fs p = Some n"
    and kept: "\<not> is_link n \<and> (\<forall>s. \<not> os_fault os (Exists p) s)
      \<or> real_path fs p \<noteq> None \<and> (\<forall>q s. \<not> os_fault os (Exists q) s)"
  shows "node_at fs' p = Some n"
proof -
  have "fs' = fs \<or> (\<exists>es decoded. write_all_files env (disk_writer os output_dir True) es decoded fs = (r, fs'))"
    using run
    by (auto simp: extract_all_def extract_all_streaming_def extract_with_streaming_metadata_def Let_def
        split: option.splits sum.splits prod.splits)
  then show ?thesis
  proof (elim disjE exE)
    fix es decoded assume "write_all_files env (disk_writer os output_dir True) es decoded fs = (r, fs')"
    note w = this [unfolded write_all_files_def Let_def]
    from kept show ?thesis
      using extract_files_no_clobber [OF w _ fresh node] extract_files_keeps_links [OF w _ fresh node] by blast
  qed (use node in simp)
qed

section \<open>The tree comes back\<close>

text \<open>Inputs whose paths can be written side by side.\<close>

definition input_path :: "input_file \<Rightarrow> bytes" where
  "input_path f = (case if_rel_path f of Some p \<Rightarrow> normalize_separators p | None \<Rightarrow> [])"

definition separate_inputs :: "input_file list \<Rightarrow> bool" where
  "separate_inputs inputs \<longleftrightarrow>
     (\<forall>f \<in> set inputs. validate_extraction_path (input_path f) = Inr () \<and> path_components (input_path f) \<noteq> [])
     \<and> sorted_wrt (\<lambda>f g. parallel (path_components (input_path f)) (path_components (input_path g))) inputs"

lemma restored_path: "restored blake3 f (e, d) \<Longrightarrow> fe_path e = input_path f"
  by (auto simp: restored_def scanned_ok_def input_path_def)

lemma separate_writable:
  "list_all2 (restored blake3) inputs files \<Longrightarrow> separate_inputs inputs \<Longrightarrow> writable_files files"
proof (induction rule: list_all2_induct)
  case (Cons f inputs x files)
  obtain e d where x: "x = (e, d)" by fastforce
  have path: "fe_path e = input_path f" using Cons.hyps(1) restored_path unfolding x by blast
  have "parallel (entry_components e) (entry_components e')" if m: "(e', d') \<in> set files" for e' d'
  proof -
    obtain i where i: "i < length files" "files ! i = (e', d')" using m by (auto simp: in_set_conv_nth)
    then have "restored blake3 (inputs ! i) (e', d')" "inputs ! i \<in> set inputs"
      using list_all2_nthD2 [OF Cons.hyps(2) i(1)] list_all2_lengthD [OF Cons.hyps(2)] by simp_all
    then show ?thesis using Cons.prems restored_path by (auto simp: separate_inputs_def path)
  qed
  then show ?case using Cons path by (auto simp: separate_inputs_def writable_files_def x)
qed (simp add: writable_files_def)

lemma tree_node_member:
  assumes "sorted_wrt (\<lambda>(e, _) (e', _). parallel (entry_components e) (entry_components e')) files" "(e, d) \<in> set files"
  shows "tree_node files (entry_components e) = Some (written_node d (fe_mtime e) (fe_permissions e))"
proof -
  have "map_of (map (\<lambda>(e, d). (entry_components e, written_node d (fe_mtime e) (fe_permissions e))) files)
      (entry_components e) = Some (written_node d (fe_mtime e) (fe_permissions e))"
    using assms
  proof (induction files)
    case (Cons x files)
    obtain a b where x: "x = (a, b)" by fastforce
    show ?case
    proof (cases "(e, d) \<in> set files")
      case True
      then have "parallel (entry_components a) (entry_components e)" using Cons.prems(1) by (auto simp: x)
      then have "entry_components a \<noteq> entry_components e" by auto
      then show ?thesis using Cons True by (simp add: x)
    qed (use Cons.prems in \<open>auto simp: x\<close>)
  qed simp
  then show ?thesis by (simp add: tree_node_def)
qed

lemma tree_node_prefix:
  assumes "tree_node files c \<noteq> None"
  shows "\<exists>i < length files. prefix c (entry_components (fst (files ! i)))"
proof -
  let ?t = "map (\<lambda>(e, d). (entry_components e, written_node d (fe_mtime e) (fe_permissions e))) files"
  have "\<exists>x \<in> set files. prefix c (entry_components (fst x))"
  proof (cases "map_of ?t c")
    case None
    then obtain e d where "(e, d) \<in> set files" "strict_prefix c (entry_components e)"
      using assms by (auto simp: tree_node_def split: if_splits)
    then show ?thesis by (intro bexI [of _ "(e, d)"]) (simp_all add: strict_prefix_def)
  next
    case (Some n)
    then obtain e d where "(e, d) \<in> set files" "c = entry_components e" by (auto dest!: map_of_SomeD)
    then show ?thesis by (intro bexI [of _ "(e, d)"]) simp_all
  qed
  then show ?thesis by (metis in_set_conv_nth)
qed

text \<open>What an input becomes on disk.\<close>

definition input_node :: "input_file \<Rightarrow> node" where
  "input_node f =
     written_node (case if_data f of Inr d \<Rightarrow> d | Inl _ \<Rightarrow> []) (if_mtime f)
       (case if_mode f of Some m \<Rightarrow> m AND SAFE_PERMISSION_MASK | None \<Rightarrow> 0x1A4)"

definition rebuilt :: "fs \<Rightarrow> path \<Rightarrow> input_file list \<Rightarrow> fs \<Rightarrow> bool" where
  "rebuilt fs output_dir inputs fs' \<longleftrightarrow>
     (\<forall>f \<in> set inputs. node_at fs' (output_dir @ path_components (input_path f)) = Some (input_node f))
     \<and> (\<forall>p. strict_prefix output_dir p \<longrightarrow> node_at fs' p \<noteq> None \<longrightarrow>
          (\<exists>f \<in> set inputs. prefix p (output_dir @ path_components (input_path f))))
     \<and> (\<forall>p. \<not> strict_prefix output_dir p \<longrightarrow> node_at fs' p = node_at fs p)"

lemma holds_tree_rebuilt:
  assumes tree: "holds_tree fs output_dir files fs'" and files: "list_all2 (restored blake3) inputs files"
    and sep: "separate_inputs inputs"
  shows "rebuilt fs output_dir inputs fs'"
proof -
  have w: "writable_files files" by (rule separate_writable [OF files sep])
  have sorted: "sorted_wrt (\<lambda>(e, _) (e', _). parallel (entry_components e) (entry_components e')) files"
    using w unfolding writable_files_def by (rule conjunct2)
  have len: "length inputs = length files" by (rule list_all2_lengthD [OF files])
  have each: "\<exists>e d. files ! i = (e, d) \<and> entry_components e = path_components (input_path (inputs ! i))
      \<and> written_node d (fe_mtime e) (fe_permissions e) = input_node (inputs ! i)" if "i < length files" for i
  proof -
    obtain e d where e: "files ! i = (e, d)" by fastforce
    have r: "restored blake3 (inputs ! i) (e, d)" using list_all2_nthD2 [OF files that] e by simp
    then have "written_node d (fe_mtime e) (fe_permissions e) = input_node (inputs ! i)"
      by (simp add: restored_def scanned_ok_def input_node_def)
    then show ?thesis using e restored_path [OF r] by auto
  qed
  have "node_at fs' (output_dir @ path_components (input_path f)) = Some (input_node f)" if f: "f \<in> set inputs" for f
  proof -
    obtain i where i: "i < length files" "f = inputs ! i" using f len by (auto simp: in_set_conv_nth)
    obtain e d where e: "files ! i = (e, d)" "entry_components e = path_components (input_path f)"
        "written_node d (fe_mtime e) (fe_permissions e) = input_node f"
      using each [OF i(1)] i(2) by blast
    have "(e, d) \<in> set files" using e(1) i(1) by (metis nth_mem)
    then have "tree_node files (path_components (input_path f)) = Some (input_node f)"
      using tree_node_member [OF sorted, of e d] unfolding e(2,3) by blast
    moreover have "path_components (input_path f) \<noteq> []" using sep f by (simp add: separate_inputs_def)
    ultimately show ?thesis using tree by (simp add: holds_tree_def below_self)
  qed
  moreover have "\<exists>f \<in> set inputs. prefix p (output_dir @ path_components (input_path f))"
    if p: "strict_prefix output_dir p" "node_at fs' p \<noteq> None" for p
  proof -
    obtain c where c: "p = output_dir @ c" using p(1) by (auto simp: below_drop)
    have "tree_node files c \<noteq> None" using tree p c by (simp add: holds_tree_def)
    then obtain i where i: "i < length files" "prefix c (entry_components (fst (files ! i)))"
      using tree_node_prefix by blast
    have "inputs ! i \<in> set inputs" using i(1) len by simp
    moreover have "prefix p (output_dir @ path_components (input_path (inputs ! i)))"
      using i(2) each [OF i(1)] by (auto simp: c)
    ultimately show ?thesis by blast
  qed
  moreover have "node_at fs' p = node_at fs p" if "\<not> strict_prefix output_dir p" for p
    using tree that by (simp add: holds_tree_def)
  ultimately show ?thesis unfolding rebuilt_def by blast
qed

context writer_contract
begin

lemma opened_tree:
  assumes op: "opened co cp inputs archive md dk baseline ds datas" and reader: "reader_matches co cp dc"
    and os: "no_faults os" "temp_names_fresh os" and dir: "real_dirs fs output_dir"
    and empty: "\<And>p. strict_prefix output_dir p \<Longrightarrow> node_at fs p = None" and sep: "separate_inputs inputs"
  shows "\<exists>fs' files. extract_all ae dc (disk_writer os output_dir no_clobber) archive fs = Some (Inr (), fs')
    \<and> real_dirs fs' output_dir \<and> holds_tree fs output_dir files fs' \<and> list_all2 (restored (ae_blake3 ae)) inputs files"
proof -
  let ?files = "zip (am_file_entries md) datas"
  have files: "list_all2 (restored (ae_blake3 ae)) inputs ?files" using op by (simp only: opened_def)
  obtain fs' where w: "write_each (disk_writer os output_dir no_clobber) ?files fs = (Inr (), fs')"
      "real_dirs fs' output_dir" "holds_tree fs output_dir ?files fs'"
    using write_each_tree [OF os dir holds_tree_start [OF empty], of ?files no_clobber] separate_writable [OF files sep]
    by auto
  show ?thesis
    using opened_extract [OF op reader, of "disk_writer os output_dir no_clobber" fs] w(2,3) files unfolding w(1) by blast
qed

text \<open>Both readers rebuild the tree.\<close>

lemma opened_rebuilt:
  assumes op: "opened co cp inputs archive md dk baseline ds datas" and reader: "reader_matches co cp dc"
    and os: "no_faults os" "temp_names_fresh os" and dir: "real_dirs fs output_dir"
    and empty: "\<And>p. strict_prefix output_dir p \<Longrightarrow> node_at fs p = None" and sep: "separate_inputs inputs"
  shows "\<exists>fs'. extract_all ae dc (disk_writer os output_dir no_clobber) archive fs = Some (Inr (), fs')
    \<and> extract_all_streaming ae dc (disk_writer os output_dir no_clobber) archive fs = Some (Inr (), fs')
    \<and> rebuilt fs output_dir inputs fs'"
  using opened_tree [OF op reader os dir empty sep, of no_clobber] holds_tree_rebuilt [OF _ _ sep]
  unfolding opened_extract_streaming [OF op reader] by blast

end

end
