(* ===== verification/Migrate.thy ===== *)
theory Migrate
  imports Unpacking "HOL-Library.List_Lexorder"
begin

text \<open>
  Migration, \<open>src/aether-core/src/pipeline/migrate.rs\<close>: an archive is extracted to a temporary
  directory, the files found there are compressed again with other settings. The lemmas: the search
  finds every file of the directory exactly once, and migrating a written archive is compressing its
  inputs, in the order of their paths.
\<close>

section \<open>Collecting the files\<close>

text \<open>A directory is listed in the order of the tree.\<close>

definition read_dir :: "fs \<Rightarrow> path \<Rightarrow> name list" where
  "read_dir fs dir = remdups (map last (filter (\<lambda>p. p \<noteq> [] \<and> butlast p = dir) (map fst fs)))"

definition depth_below :: "fs \<Rightarrow> path \<Rightarrow> nat" where
  "depth_below fs dir =
     sum_list (map (\<lambda>p. length p - length dir) (filter (strict_prefix dir) (map fst fs)))"

lemma sum_list_less:
  "\<forall>x \<in> set xs. f x \<le> (g x :: nat) \<Longrightarrow> \<exists>x \<in> set xs. f x < g x \<Longrightarrow> sum_list (map f xs) < sum_list (map g xs)"
proof (induction xs)
  case (Cons x xs)
  have le: "sum_list (map f xs) \<le> sum_list (map g xs)" using Cons.prems(1) by (intro sum_list_mono) simp
  show ?case
  proof (cases "f x < g x")
    case False
    then have "sum_list (map f xs) < sum_list (map g xs)" using Cons by auto
    then show ?thesis using Cons.prems(1) by (simp add: add_le_less_mono)
  qed (use le in \<open>simp add: add_less_le_mono\<close>)
qed simp

lemma depth_below_sum:
  "depth_below fs dir = sum_list (map (\<lambda>p. if strict_prefix dir p then length p - length dir else 0) (map fst fs))"
  by (simp add: depth_below_def sum_list_map_filter' o_def)

lemma strict_prefix_length: "strict_prefix a b \<Longrightarrow> length a < length b"
  by (auto simp: strict_prefix_def prefix_def)

lemma depth_below_child:
  "depth_below fs (dir @ [c]) < depth_below fs dir
   \<or> depth_below fs (dir @ [c]) = depth_below fs dir \<and> read_dir fs (dir @ [c]) = []"
proof (cases "\<exists>p \<in> set (map fst fs). strict_prefix (dir @ [c]) p")
  case True
  have up: "strict_prefix (dir @ [c]) p \<Longrightarrow> strict_prefix dir p \<and> length dir + 1 < length p" for p
    using strict_prefix_length [of "dir @ [c]" p] by (auto simp: strict_prefix_def prefix_def)
  then have "\<exists>p \<in> set (map fst fs). (if strict_prefix (dir @ [c]) p then length p - length (dir @ [c]) else 0)
      < (if strict_prefix dir p then length p - length dir else 0)"
    using True by fastforce
  then have "depth_below fs (dir @ [c]) < depth_below fs dir"
    unfolding depth_below_sum using up by (intro sum_list_less) auto
  then show ?thesis by blast
next
  case False
  then have zero: "depth_below fs (dir @ [c]) = 0"
    unfolding depth_below_sum by (simp add: sum_list_eq_0_iff)
  have "p = [] \<or> butlast p \<noteq> dir @ [c]" if "p \<in> set (map fst fs)" for p
    using False that below_self [of "[last p]" "dir @ [c]"] by (metis append_butlast_last_id list.distinct(1))
  then have "read_dir fs (dir @ [c]) = []" by (auto simp: read_dir_def filter_empty_conv)
  then show ?thesis using zero by auto
qed

function (sequential) collect_dir_recursive ::
    "os \<Rightarrow> fs \<Rightarrow> path \<Rightarrow> name list \<Rightarrow> path list \<Rightarrow> path list result" where
  "collect_dir_recursive os fs dir [] files = Inr files"
| "collect_dir_recursive os fs dir (c # cs) files =
     (let path = dir @ [c]
      in case symlink_metadata os path fs of
           None \<Rightarrow> Inl (Io OsError)
         | Some n \<Rightarrow>
             if is_link n then collect_dir_recursive os fs dir cs files
             else
               bindR (case n of
                   DirNode \<Rightarrow>
                     (if os_fault os (ReadDir path) fs then Inl (Io OsError)
                      else collect_dir_recursive os fs path (read_dir fs path) files)
                 | FileNode _ _ _ \<Rightarrow> Inr (files @ [path])
                 | _ \<Rightarrow> Inr files) (\<lambda>files.
               if length files > unat MAX_FILE_COUNT then
                 Inl (ResourceLimitExceeded ''Extracted file count exceeds limit of {MAX_FILE_COUNT}'')
               else collect_dir_recursive os fs dir cs files))"
  by pat_completeness auto
termination
  by (relation "measures [\<lambda>(os, fs, dir, names, files). depth_below fs dir,
        \<lambda>(os, fs, dir, names, files). length names]")
     (use depth_below_child in \<open>fastforce+\<close>)

definition collect_files_recursive :: "os \<Rightarrow> path \<Rightarrow> fs \<Rightarrow> path list result" where
  "collect_files_recursive os dir fs =
     (if os_fault os (ReadDir dir) fs then Inl (Io OsError)
      else bindR (collect_dir_recursive os fs dir (read_dir fs dir) []) (\<lambda>files. Inr (sort files)))"

section \<open>Files as inputs\<close>

text \<open>What the compressor learns of a file: \<open>strip_prefix\<close>, \<open>read\<close> and \<open>metadata\<close>.\<close>

fun join_path :: "path \<Rightarrow> bytes" where
  "join_path [] = []"
| "join_path [c] = c"
| "join_path (c # cs) = c @ 0x2F # join_path cs"

definition input_of :: "os \<Rightarrow> fs \<Rightarrow> path \<Rightarrow> path \<Rightarrow> input_file" where
  "input_of os fs base p =
     (let n = Option.bind (real_path fs p) (node_at fs);
          rel = (if prefix base p then join_path (drop (length base) p) else 0x2F # join_path p)
      in \<lparr>if_data =
            (if os_fault os (ReadFile p) fs then Inl (Io OsError)
             else case n of Some (FileNode d _ _) \<Rightarrow> Inr d | _ \<Rightarrow> Inl (Io OsError)),
          if_rel_path = (if utf8_valid rel then Some rel else None),
          if_mtime =
            (if os_fault os (Metadata p) fs then 0
             else case n of
                    Some (FileNode _ _ (Some t)) \<Rightarrow> if 0 \<le> sint t then t else 0
                  | Some _ \<Rightarrow> os_clock os
                  | None \<Rightarrow> 0),
          if_mode =
            (if os_fault os (Metadata p) fs then None
             else case n of Some (FileNode _ m _) \<Rightarrow> Some m | _ \<Rightarrow> None)\<rparr>)"

section \<open>The migrator\<close>

definition new_temp_dir :: "os \<Rightarrow> fs \<Rightarrow> path option \<times> fs" where
  "new_temp_dir os fs =
     (if os_fault os CreateTempDir fs then (None, fs)
      else (Some (os_temp_dir os fs), AList.update (os_temp_dir os fs) DirNode fs))"

text \<open>Dropping the directory removes it with its contents.\<close>

definition remove_dir_all :: "path \<Rightarrow> fs \<Rightarrow> fs" where
  "remove_dir_all dir fs = filter (\<lambda>(p, _). \<not> prefix dir p) fs"

record ('s, 'p, 'q) migrator =
  mg_source_env :: "'s archive_env"
  mg_source_decompressor :: "'p decompressor"
  mg_target_env :: "'s compress_env"
  mg_target_compressor :: "'q compressor"

definition migrator_new ::
    "'s archive_env \<Rightarrow> 's compress_env \<Rightarrow> bytes \<Rightarrow> nat \<Rightarrow> 'p predictor_object \<Rightarrow> 'p \<Rightarrow> 'q predictor_object \<Rightarrow> 'q
      \<Rightarrow> ('s, 'p, 'q) migrator" where
  "migrator_new source_env target_env text_dict threads source_factory p0 target_factory q0 =
     \<lparr>mg_source_env = source_env, mg_source_decompressor = decompressor_new threads source_factory p0,
      mg_target_env = target_env, mg_target_compressor = compressor_new target_env text_dict threads target_factory q0\<rparr>"

definition with_source_dictionary :: "dictionary \<Rightarrow> ('s, 'p, 'q) migrator \<Rightarrow> ('s, 'p, 'q) migrator" where
  "with_source_dictionary dict mg =
     mg\<lparr>mg_source_decompressor := decompressor_with_dictionary dict (mg_source_decompressor mg)\<rparr>"

definition with_target_dictionary :: "dictionary \<Rightarrow> ('s, 'p, 'q) migrator \<Rightarrow> ('s, 'p, 'q) migrator" where
  "with_target_dictionary dict mg =
     mg\<lparr>mg_target_compressor := compressor_with_dictionary dict (mg_target_compressor mg)\<rparr>"

definition with_source_password :: "bytes \<Rightarrow> ('s, 'p, 'q) migrator \<Rightarrow> ('s, 'p, 'q) migrator" where
  "with_source_password password mg =
     mg\<lparr>mg_source_decompressor := decompressor_with_password password (mg_source_decompressor mg)\<rparr>"

definition with_target_password :: "bytes \<Rightarrow> cipher_id \<Rightarrow> ('s, 'p, 'q) migrator \<Rightarrow> ('s, 'p, 'q) migrator" where
  "with_target_password password cipher mg =
     mg\<lparr>mg_target_compressor := compressor_with_encryption password cipher (mg_target_compressor mg)\<rparr>"

text \<open>Both entry points; \<open>extract\<close> is the way the source is read. The output is what was written to it.\<close>

definition migrate_with ::
    "('s, 'p, 'q) migrator \<Rightarrow> os \<Rightarrow> (fs write_fun \<Rightarrow> fs \<Rightarrow> (unit result \<times> fs) option) \<Rightarrow> fs
      \<Rightarrow> ((nat \<times> bytes option) result \<times> fs) option" where
  "migrate_with mg os extract fs =
     (case new_temp_dir os fs of
        (None, fs) \<Rightarrow> Some (Inl (Compression ''Failed to create temp dir: {e}''), fs)
      | (Some tmp, fs) \<Rightarrow>
          (case extract (disk_writer os tmp (dc_no_clobber (mg_source_decompressor mg))) fs of
             None \<Rightarrow> None
           | Some (Inl e, fs) \<Rightarrow> Some (Inl e, remove_dir_all tmp fs)
           | Some (Inr _, fs) \<Rightarrow>
               (case collect_files_recursive os tmp fs of
                  Inl e \<Rightarrow> Some (Inl e, remove_dir_all tmp fs)
                | Inr files \<Rightarrow>
                    if files = [] then Some (Inr (0, None), remove_dir_all tmp fs)
                    else
                      map_option (\<lambda>r. (bindR r (\<lambda>(_, archive). Inr (length files, Some archive)), remove_dir_all tmp fs))
                        (compress_to_archive (mg_target_env mg) (mg_target_compressor mg)
                          (map (input_of os fs tmp) files)))))"

definition migrate ::
    "('s, 'p, 'q) migrator \<Rightarrow> os \<Rightarrow> bytes \<Rightarrow> fs \<Rightarrow> ((nat \<times> bytes option) result \<times> fs) option" where
  "migrate mg os source fs =
     migrate_with mg os (\<lambda>w. extract_all (mg_source_env mg) (mg_source_decompressor mg) w source) fs"

definition migrate_streaming ::
    "('s, 'p, 'q) migrator \<Rightarrow> os \<Rightarrow> bytes \<Rightarrow> fs \<Rightarrow> ((nat \<times> bytes option) result \<times> fs) option" where
  "migrate_streaming mg os source fs =
     migrate_with mg os (\<lambda>w. extract_all_streaming (mg_source_env mg) (mg_source_decompressor mg) w source) fs"

section \<open>What the search finds\<close>

text \<open>A tree below \<open>dir\<close> without links, in which every entry lies in a directory.\<close>

definition plain_tree :: "fs \<Rightarrow> path \<Rightarrow> bool" where
  "plain_tree fs dir \<longleftrightarrow>
     (\<forall>p n. strict_prefix dir p \<and> node_at fs p = Some n \<longrightarrow>
        \<not> is_link n \<and> node_at fs (butlast p) = Some DirNode \<and> last p \<noteq> DOTDOT)"

definition is_file :: "fs \<Rightarrow> path \<Rightarrow> bool" where
  "is_file fs p \<longleftrightarrow> (\<exists>d m t. node_at fs p = Some (FileNode d m t))"

lemma plain_between:
  "plain_tree fs dir \<Longrightarrow> strict_prefix dir p \<Longrightarrow> node_at fs p \<noteq> None \<Longrightarrow> prefix dir q \<Longrightarrow> strict_prefix q p \<Longrightarrow>
   node_at fs q = Some DirNode"
proof (induction p rule: rev_induct)
  case (snoc x p)
  have p: "node_at fs p = Some DirNode"
    using snoc.prems(1) [unfolded plain_tree_def, rule_format, of "p @ [x]"] snoc.prems(2,3) by auto
  show ?case
  proof (cases "q = p")
    case False
    then have "strict_prefix q p" using snoc.prems(5) by (auto simp: strict_prefix_def)
    moreover have "strict_prefix dir p" using snoc.prems(4) calculation by (rule prefix_order.le_less_trans)
    ultimately show ?thesis using snoc p by simp
  qed (use p in simp)
qed simp

lemma plain_tree_below: "plain_tree fs dir \<Longrightarrow> prefix dir d \<Longrightarrow> plain_tree fs d"
  unfolding plain_tree_def using prefix_order.le_less_trans by blast

lemma read_dir_set: "c \<in> set (read_dir fs dir) \<longleftrightarrow> node_at fs (dir @ [c]) \<noteq> None"
proof -
  have "c \<in> set (read_dir fs dir) \<longleftrightarrow> dir @ [c] \<in> set (map fst fs)"
  proof
    assume "c \<in> set (read_dir fs dir)"
    then obtain p where "p \<in> set (map fst fs)" "p \<noteq> []" "butlast p = dir" "last p = c"
      by (auto simp: read_dir_def)
    then show "dir @ [c] \<in> set (map fst fs)" by (metis append_butlast_last_id)
  next
    assume "dir @ [c] \<in> set (map fst fs)"
    then have "dir @ [c] \<in> set (filter (\<lambda>p. p \<noteq> [] \<and> butlast p = dir) (map fst fs))" by simp
    from imageI [OF this, of last] show "c \<in> set (read_dir fs dir)" unfolding read_dir_def set_remdups set_map last_snoc .
  qed
  then show ?thesis by (simp add: node_at_def map_of_eq_None_iff)
qed

definition files_under :: "fs \<Rightarrow> path \<Rightarrow> name list \<Rightarrow> path set" where
  "files_under fs dir names = {p. is_file fs p \<and> (\<exists>c \<in> set names. prefix (dir @ [c]) p)}"

lemma files_under_dir:
  assumes "plain_tree fs dir"
  shows "files_under fs dir (read_dir fs dir) = {p. is_file fs p \<and> strict_prefix dir p}"
proof -
  have down: "\<exists>c. node_at fs (dir @ [c]) \<noteq> None \<and> prefix (dir @ [c]) p" if p: "is_file fs p" "strict_prefix dir p" for p
  proof -
    obtain c cs where c: "p = dir @ c # cs" using p(2) by (auto simp: below_drop neq_Nil_conv)
    have "node_at fs (dir @ [c]) \<noteq> None"
    proof (cases cs)
      case (Cons a list)
      then have "node_at fs (dir @ [c]) = Some DirNode"
        using plain_between [OF assms p(2), of "dir @ [c]"] p(1) by (auto simp: c is_file_def strict_prefix_def prefix_def)
      then show ?thesis by simp
    qed (use p(1) c in \<open>auto simp: is_file_def\<close>)
    then show ?thesis using c by auto
  qed
  have up: "prefix (dir @ [c]) p \<Longrightarrow> strict_prefix dir p" for c p
    by (auto simp: strict_prefix_def prefix_def)
  show ?thesis
  proof (intro set_eqI iffI)
    fix p assume "p \<in> files_under fs dir (read_dir fs dir)"
    then show "p \<in> {p. is_file fs p \<and> strict_prefix dir p}" using up by (auto simp: files_under_def)
  next
    fix p assume p: "p \<in> {p. is_file fs p \<and> strict_prefix dir p}"
    then obtain c where "c \<in> set (read_dir fs dir)" "prefix (dir @ [c]) p"
      using down [of p] unfolding read_dir_set by auto
    then show "p \<in> files_under fs dir (read_dir fs dir)" using p unfolding files_under_def by blast
  qed
qed

text \<open>The search finds every file below the directory, each once.\<close>

lemma files_under_Cons: "files_under fs dir (c # cs) = files_under fs dir [c] \<union> files_under fs dir cs"
  by (auto simp: files_under_def)

lemma files_under_disjoint: "c \<notin> set cs \<Longrightarrow> files_under fs dir [c] \<inter> files_under fs dir cs = {}"
  by (auto simp: files_under_def prefix_def)

lemma files_under_single:
  assumes "plain_tree fs dir" "node_at fs (dir @ [c]) = Some n"
  shows "files_under fs dir [c] =
    (case n of DirNode \<Rightarrow> files_under fs (dir @ [c]) (read_dir fs (dir @ [c]))
     | FileNode _ _ _ \<Rightarrow> {dir @ [c]} | _ \<Rightarrow> {})"
proof -
  have strict: "prefix (dir @ [c]) p \<and> p \<noteq> dir @ [c] \<longleftrightarrow> strict_prefix (dir @ [c]) p" for p
    by (auto simp: strict_prefix_def)
  have below: "node_at fs (dir @ [c]) = Some DirNode" if "is_file fs p" "strict_prefix (dir @ [c]) p" for p
  proof (rule plain_between [OF assms(1) _ _ _ that(2)])
    show "strict_prefix dir p" using that(2) prefix_order.less_trans below_self [of "[c]" dir] by blast
  qed (use that in \<open>auto simp: is_file_def\<close>)
  have only: "n = DirNode \<or> p = dir @ [c] \<and> (\<exists>d m t. n = FileNode d m t)" if "is_file fs p" "prefix (dir @ [c]) p" for p
    using below [OF that(1)] that assms(2) by (cases "p = dir @ [c]") (auto simp: strict_prefix_def is_file_def)
  show ?thesis
  proof (cases n)
    case DirNode
    have "plain_tree fs (dir @ [c])" by (rule plain_tree_below [OF assms(1)]) simp
    then have "files_under fs (dir @ [c]) (read_dir fs (dir @ [c])) = {p. is_file fs p \<and> strict_prefix (dir @ [c]) p}"
      by (rule files_under_dir)
    moreover have "\<not> is_file fs (dir @ [c])" using assms(2) DirNode by (simp add: is_file_def)
    ultimately show ?thesis using DirNode unfolding files_under_def strict [symmetric] by auto
  qed (use assms(2) only in \<open>auto simp: files_under_def is_file_def\<close>)
qed

lemma collect_dir_finds:
  assumes bound: "finite A" "card A \<le> unat MAX_FILE_COUNT"
  shows "no_faults os \<Longrightarrow> real_dirs fs dir \<Longrightarrow> plain_tree fs dir \<Longrightarrow> set names \<subseteq> set (read_dir fs dir) \<Longrightarrow> distinct names \<Longrightarrow>
    distinct files \<Longrightarrow> set files \<inter> files_under fs dir names = {} \<Longrightarrow> set files \<union> files_under fs dir names \<subseteq> A \<Longrightarrow>
    \<exists>files'. collect_dir_recursive os fs dir names files = Inr files' \<and> distinct files'
      \<and> set files' = set files \<union> files_under fs dir names"
proof (induction os fs dir names files rule: collect_dir_recursive.induct)
  case (1 os fs dir files)
  then show ?case by (simp add: files_under_def)
next
  case (2 os fs dir c cs files)
  let ?path = "dir @ [c]"
  have no: "os_fault os call s = False" for call s using "2.prems"(1) by (simp add: no_faults_def)
  obtain n where n: "node_at fs ?path = Some n" using "2.prems"(4) by (auto simp: read_dir_set)
  have nl: "\<not> is_link n" "c \<noteq> DOTDOT"
    using "2.prems"(3) [unfolded plain_tree_def, rule_format, of ?path n] n below_self [of "[c]" dir] by simp_all
  have meta: "symlink_metadata os ?path fs = Some n"
    by (simp add: symlink_metadata_def no entry_below_dir [OF "2.prems"(2)] n)
  have split: "files_under fs dir (c # cs) = files_under fs dir [c] \<union> files_under fs dir cs"
      "files_under fs dir [c] \<inter> files_under fs dir cs = {}"
    by (rule files_under_Cons, rule files_under_disjoint) (use "2.prems"(5) in simp)
  have inner: "\<exists>files1. (case n of
                   DirNode \<Rightarrow>
                     (if os_fault os (ReadDir ?path) fs then Inl (Io OsError)
                      else collect_dir_recursive os fs ?path (read_dir fs ?path) files)
                 | FileNode _ _ _ \<Rightarrow> Inr (files @ [?path])
                 | _ \<Rightarrow> Inr files) = Inr files1 \<and> distinct files1 \<and> set files1 = set files \<union> files_under fs dir [c]"
  proof (cases n)
    case DirNode
    have real: "real_dirs fs ?path" using "2.prems"(2) nl(2) n DirNode by (simp add: real_dirs_snoc)
    have plain: "plain_tree fs ?path" by (rule plain_tree_below [OF "2.prems"(3)]) simp
    have eq: "files_under fs ?path (read_dir fs ?path) = files_under fs dir [c]"
      using files_under_single [OF "2.prems"(3) n] DirNode by simp
    have "\<exists>files'. collect_dir_recursive os fs ?path (read_dir fs ?path) files = Inr files' \<and> distinct files'
        \<and> set files' = set files \<union> files_under fs ?path (read_dir fs ?path)"
    proof (rule "2.IH"(2) [OF refl meta nl(1) DirNode _ "2.prems"(1) real plain subset_refl _ "2.prems"(6)])
      show "distinct (read_dir fs ?path)" by (simp add: read_dir_def)
      show "set files \<inter> files_under fs ?path (read_dir fs ?path) = {}"
        using "2.prems"(7) split(1) unfolding eq by blast
      show "set files \<union> files_under fs ?path (read_dir fs ?path) \<subseteq> A"
        using "2.prems"(8) split(1) unfolding eq by blast
    qed (simp add: no)
    then show ?thesis using DirNode no by (simp add: eq)
  next
    case (FileNode d m t)
    then show ?thesis using files_under_single [OF "2.prems"(3) n] "2.prems"(6,7) split by auto
  next
    case SpecialNode
    then show ?thesis using files_under_single [OF "2.prems"(3) n] "2.prems"(6) by auto
  qed (use nl in \<open>simp add: is_link_def\<close>)
  from inner obtain files1 where f: "(case n of
                   DirNode \<Rightarrow>
                     (if os_fault os (ReadDir ?path) fs then Inl (Io OsError)
                      else collect_dir_recursive os fs ?path (read_dir fs ?path) files)
                 | FileNode _ _ _ \<Rightarrow> Inr (files @ [?path])
                 | _ \<Rightarrow> Inr files) = Inr files1 \<and> distinct files1 \<and> set files1 = set files \<union> files_under fs dir [c]"
    by (rule exE)
  note run = conjunct1 [OF f] and f1 = conjunct1 [OF conjunct2 [OF f]] conjunct2 [OF conjunct2 [OF f]]
  have "length files1 = card (set files1)" using f1(1) by (simp add: distinct_card)
  also have "\<dots> \<le> card A" using f1(2) "2.prems"(8) split(1) by (intro card_mono bound(1)) auto
  finally have short: "\<not> length files1 > unat MAX_FILE_COUNT" using bound(2) by simp
  have "\<exists>files'. collect_dir_recursive os fs dir cs files1 = Inr files' \<and> distinct files'
      \<and> set files' = set files1 \<union> files_under fs dir cs"
  proof (rule "2.IH"(3) [OF refl meta nl(1) short "2.prems"(1-3) _ _ f1(1)])
    show "set cs \<subseteq> set (read_dir fs dir)" "distinct cs" using "2.prems"(4,5) by simp_all
    show "set files1 \<inter> files_under fs dir cs = {}" using "2.prems"(7) split f1(2) by blast
    show "set files1 \<union> files_under fs dir cs \<subseteq> A" using "2.prems"(8) split(1) f1(2) by blast
  qed
  then show ?case
    using run short f1(2) split(1) by (auto simp: meta nl(1) Let_def)
qed

section \<open>Migrating a written archive\<close>

text \<open>What the files of an extracted archive look like to the compressor.\<close>

definition plain_path :: "input_file \<Rightarrow> bool" where
  "plain_path f \<longleftrightarrow> join_path (path_components (input_path f)) = input_path f"

definition migrated :: "os \<Rightarrow> input_file \<Rightarrow> input_file" where
  "migrated os f =
     f\<lparr>if_rel_path := Some (input_path f),
       if_mtime := (if 0 < sint (if_mtime f) then if_mtime f else os_clock os),
       if_mode := Some (case if_mode f of Some m \<Rightarrow> m AND SAFE_PERMISSION_MASK | None \<Rightarrow> 0x1A4)\<rparr>"

lemma tree_node_cases:
  assumes "writable_files files" "tree_node files c = Some n"
  shows "(\<exists>(e, d) \<in> set files. c = entry_components e \<and> n = written_node d (fe_mtime e) (fe_permissions e))
    \<or> n = DirNode \<and> (\<exists>(e, d) \<in> set files. strict_prefix c (entry_components e))"
  using assms(2) by (auto simp: tree_node_def split: option.splits if_splits dest!: map_of_SomeD)

lemma sorted_wrt_either: "sorted_wrt R xs \<Longrightarrow> x \<in> set xs \<Longrightarrow> y \<in> set xs \<Longrightarrow> x \<noteq> y \<Longrightarrow> R x y \<or> R y x"
  by (induction xs) auto

lemma tree_node_above:
  assumes w: "writable_files files" and e: "(e, d) \<in> set files" and c: "strict_prefix c (entry_components e)"
  shows "tree_node files c = Some DirNode"
proof -
  have "c \<noteq> entry_components e'" if x: "(e', d') \<in> set files" for e' d'
  proof
    assume eq: "c = entry_components e'"
    have ne: "(e, d) \<noteq> (e', d')" using c eq by auto
    have "(entry_components e \<parallel> entry_components e') \<or> (entry_components e' \<parallel> entry_components e)"
      using sorted_wrt_either [OF _ e x ne] w unfolding writable_files_def by fast
    then show False using c unfolding eq strict_prefix_def by blast
  qed
  then have "map_of (map (\<lambda>(e, d). (entry_components e, written_node d (fe_mtime e) (fe_permissions e))) files) c = None"
    by (fastforce simp: map_of_eq_None_iff)
  moreover have "\<exists>(e, d) \<in> set files. strict_prefix c (entry_components e)"
    using e c by blast
  ultimately show ?thesis unfolding tree_node_def by simp
qed

lemma components_of_valid:
  "validate_extraction_path p = Inr () \<Longrightarrow> DOTDOT \<notin> set (path_components p)"
  using components_no_dotdot by (auto simp: validate_extraction_path_def split: if_splits)

lemma holds_tree_plain:
  assumes tree: "holds_tree fs dir files fs'" and real: "real_dirs fs' dir" and w: "writable_files files"
  shows "plain_tree fs' dir"
  unfolding plain_tree_def
proof (intro allI impI)
  fix p n assume "strict_prefix dir p \<and> node_at fs' p = Some n"
  then obtain c where c: "c \<noteq> []" "p = dir @ c" "tree_node files c = Some n"
    using tree by (auto simp: holds_tree_def below_drop split: if_splits)
  then obtain e d where e: "(e, d) \<in> set files" "prefix c (entry_components e)" "\<not> is_link n"
    using tree_node_cases [OF w c(3)] by (auto simp: strict_prefix_def is_link_def written_node_def)
  have last: "last c \<in> set (entry_components e)" using e(2) c(1) set_mono_prefix last_in_set by blast
  have dots: "DOTDOT \<notin> set (entry_components e)"
    using w e(1) components_of_valid by (auto simp: writable_files_def)
  have "node_at fs' (butlast p) = Some DirNode"
  proof (cases "butlast c = []")
    case True
    then show ?thesis using real_dirs_node [OF real] by (simp add: c(1,2) butlast_append)
  next
    case False
    have "strict_prefix (butlast c) c" using prefix_butlast [OF c(1), of "butlast c"] by simp
    then have "strict_prefix (butlast c) (entry_components e)" using e(2) by (rule prefix_order.less_le_trans)
    from tree_node_above [OF w e(1) this] show ?thesis
      using tree False c(1,2) by (simp add: holds_tree_def butlast_append below_self)
  qed
  then show "\<not> is_link n \<and> node_at fs' (butlast p) = Some DirNode \<and> last p \<noteq> DOTDOT"
    using e(3) last dots c(1,2) by auto
qed

lemma holds_tree_files:
  assumes tree: "holds_tree fs dir files fs'" and w: "writable_files files"
  shows "{p. is_file fs' p \<and> strict_prefix dir p} = (\<lambda>(e, d). dir @ entry_components e) ` set files"
proof (intro set_eqI iffI)
  fix p assume "p \<in> {p. is_file fs' p \<and> strict_prefix dir p}"
  then obtain c d m t where c: "c \<noteq> []" "p = dir @ c" "tree_node files c = Some (FileNode d m t)"
    using tree by (auto simp: holds_tree_def below_drop is_file_def split: if_splits)
  then show "p \<in> (\<lambda>(e, d). dir @ entry_components e) ` set files"
    using tree_node_cases [OF w c(3)] by auto
next
  fix p assume "p \<in> (\<lambda>(e, d). dir @ entry_components e) ` set files"
  then obtain e d where e: "(e, d) \<in> set files" "p = dir @ entry_components e" by auto
  have "entry_components e \<noteq> []" using w e(1) by (auto simp: writable_files_def)
  moreover have "tree_node files (entry_components e) = Some (written_node d (fe_mtime e) (fe_permissions e))"
    using tree_node_member [OF _ e(1)] w by (simp add: writable_files_def)
  ultimately show "p \<in> {p. is_file fs' p \<and> strict_prefix dir p}"
    using tree e(2) by (simp add: holds_tree_def is_file_def written_node_def below_self)
qed

text \<open>Names that agree up to a common directory are ordered like the rest of them.\<close>

lemma append_le_append: "dir @ xs \<le> dir @ (ys :: path) \<longleftrightarrow> xs \<le> ys"
  by (induction dir) simp_all

lemma sort_below:
  fixes files :: "path list" and key :: "'a \<Rightarrow> path"
  assumes "distinct files" "set files = (\<lambda>x. dir @ key x) ` set xs" "distinct (map key xs)"
  shows "sort files = map (\<lambda>x. dir @ key x) (sort_key key xs)"
proof (rule sorted_distinct_set_unique)
  have "sorted (map key (sort_key key xs))" by simp
  then show "sorted (map (\<lambda>x. dir @ key x) (sort_key key xs))"
    by (simp add: sorted_map append_le_append)
  have "inj_on key (set xs)" "distinct xs" using assms(3) by (simp_all add: distinct_map)
  then show "distinct (map (\<lambda>x. dir @ key x) (sort_key key xs))"
    by (simp add: distinct_map inj_on_def)
qed (use assms in simp_all)

lemma separate_distinct: "separate_inputs inputs \<Longrightarrow> distinct (map (path_components \<circ> input_path) inputs)"
  by (induction inputs) (simp_all add: separate_inputs_def image_iff, force)

lemma restored_paths: "list_all2 (restored blake3) inputs files \<Longrightarrow> map (\<lambda>x. fe_path (fst x)) files = map input_path inputs"
  by (induction rule: list_all2_induct) (auto dest: restored_path)

lemma written_paths:
  assumes "opened co cp inputs archive md dk baseline ds datas"
  shows "map fe_path (am_file_entries md) = map input_path inputs"
proof -
  have "length (am_file_entries md) = length datas"
    using assms by (auto simp: opened_def dest: list_all2_lengthD)
  then have "map (\<lambda>x. fe_path (fst x)) (zip (am_file_entries md) datas) = map fe_path (am_file_entries md)"
    by (simp add: list_eq_iff_nth_eq)
  moreover have "list_all2 (restored (ae_blake3 (co_archive co))) inputs (zip (am_file_entries md) datas)"
    using assms by (simp add: opened_def)
  ultimately show ?thesis using restored_paths by metis
qed

text \<open>The temporary directory is a new one in a real directory.\<close>

definition temp_dir_fresh :: "os \<Rightarrow> fs \<Rightarrow> bool" where
  "temp_dir_fresh os fs \<longleftrightarrow>
     (let tmp = os_temp_dir os fs
      in tmp \<noteq> [] \<and> last tmp \<noteq> DOTDOT \<and> real_dirs fs (butlast tmp)
         \<and> (\<forall>p. prefix tmp p \<longrightarrow> node_at fs p = None))"

lemma new_temp_dir_fresh:
  assumes "no_faults os" "temp_dir_fresh os fs"
  obtains tmp fs1 where "new_temp_dir os fs = (Some tmp, fs1)" "tmp = os_temp_dir os fs" "tmp \<noteq> []" "real_dirs fs1 tmp"
    "\<forall>p. strict_prefix tmp p \<longrightarrow> node_at fs1 p = None" "\<forall>p. node_at fs1 p = (if p = tmp then Some DirNode else node_at fs p)"
proof -
  let ?tmp = "os_temp_dir os fs" let ?fs1 = "AList.update ?tmp DirNode fs"
  have f: "?tmp \<noteq> []" "last ?tmp \<noteq> DOTDOT" "real_dirs fs (butlast ?tmp)" "\<And>p. prefix ?tmp p \<Longrightarrow> node_at fs p = None"
    using assms(2) by (simp_all add: temp_dir_fresh_def Let_def)
  have at: "node_at ?fs1 p = (if p = ?tmp then Some DirNode else node_at fs p)" for p
    by (rule node_at_update [OF f(1)])
  have "real_dirs ?fs1 (butlast ?tmp)"
    by (rule real_dirs_mono [OF f(3)]) (simp add: at)
  then have "real_dirs ?fs1 (butlast ?tmp @ [last ?tmp])"
    using f(1,2) unfolding real_dirs_snoc by (simp add: at)
  then have real: "real_dirs ?fs1 ?tmp" using f(1) by simp
  show thesis
  proof (rule that)
    show "new_temp_dir os fs = (Some ?tmp, ?fs1)" using assms(1) by (simp add: new_temp_dir_def no_faults_def)
    show "\<forall>p. strict_prefix ?tmp p \<longrightarrow> node_at ?fs1 p = None"
      using f(4) unfolding at by (auto simp: strict_prefix_def)
  qed (use real f(1) at in simp_all)
qed

lemma remove_dir_all_node:
  "dir \<noteq> [] \<Longrightarrow> node_at (remove_dir_all dir fs) p = (if prefix dir p then None else node_at fs p)"
  by (induction fs) (auto simp: node_at_def remove_dir_all_def)

text \<open>Below a real directory without links every path is its own.\<close>

lemma plain_real:
  "plain_tree fs dir \<Longrightarrow> real_dirs fs dir \<Longrightarrow> prefix dir p \<Longrightarrow> node_at fs p = Some DirNode \<Longrightarrow> real_dirs fs p"
proof (induction p rule: rev_induct)
  case (snoc c p)
  show ?case
  proof (cases "dir = p @ [c]")
    case False
    then have "strict_prefix dir (p @ [c])" using snoc.prems(3) by (simp add: strict_prefix_def)
    then have "node_at fs p = Some DirNode" "c \<noteq> DOTDOT"
      using snoc.prems(1) [unfolded plain_tree_def, rule_format, of "p @ [c]"] snoc.prems(4) by simp_all
    then show ?thesis using snoc False by (simp add: real_dirs_snoc)
  qed (use snoc.prems in simp)
qed simp

lemma plain_real_path:
  assumes "plain_tree fs dir" "real_dirs fs dir" "strict_prefix dir p" "node_at fs p = Some n"
  shows "real_path fs p = Some p"
proof -
  have p: "\<not> is_link n" "node_at fs (butlast p) = Some DirNode" "last p \<noteq> DOTDOT" "p \<noteq> []"
    using assms(1) [unfolded plain_tree_def, rule_format, of p] assms(3,4) by auto
  have "prefix dir (butlast p)" using assms(3) p(4) by (simp add: prefix_butlast)
  then have "real_dirs fs (butlast p)" by (rule plain_real [OF assms(1,2) _ p(2)])
  then have "real_path fs (butlast p @ [last p]) = Some (butlast p @ [last p])"
    by (rule real_path_entry [where n = n]) (use assms(4) p in simp_all)
  then show ?thesis using p(4) by simp
qed

lemma read_dir_distinct: "distinct (read_dir fs dir)"
  by (simp add: read_dir_def)

lemma collect_files_sorted:
  assumes os: "no_faults os" and real: "real_dirs fs dir" and plain: "plain_tree fs dir"
    and found: "{p. is_file fs p \<and> strict_prefix dir p} = (\<lambda>x. dir @ key x) ` set xs"
    and few: "length xs \<le> unat MAX_FILE_COUNT" and distinct: "distinct (map key xs)"
  shows "collect_files_recursive os dir fs = Inr (map (\<lambda>x. dir @ key x) (sort_key key xs))"
proof -
  let ?A = "(\<lambda>x. dir @ key x) ` set xs"
  have under: "files_under fs dir (read_dir fs dir) = ?A"
    unfolding files_under_dir [OF plain] found ..
  have "card ?A \<le> length xs" by (meson card_image_le card_length finite_set order_trans)
  then have "card ?A \<le> unat MAX_FILE_COUNT" using few by simp
  from collect_dir_finds [OF finite_imageI [OF finite_set] this os real plain subset_refl, of "[]"]
    read_dir_distinct [of fs dir]
  obtain files where "collect_dir_recursive os fs dir (read_dir fs dir) [] = Inr files" "distinct files" "set files = ?A"
    by (auto simp: under)
  then show ?thesis
    using os sort_below [OF _ _ distinct, of files dir] by (simp add: collect_files_recursive_def no_faults_def)
qed

lemma input_of_rebuilt:
  assumes os: "no_faults os" and node: "node_at fs (dir @ path_components (input_path f)) = Some (input_node f)"
    and path: "real_path fs (dir @ path_components (input_path f)) = Some (dir @ path_components (input_path f))"
    and f: "if_data f = Inr d" "plain_path f" "utf8_valid (input_path f)"
  shows "input_of os fs dir (dir @ path_components (input_path f)) = migrated os f"
  using os node f
  by (intro input_file.equality; cases "if_mode f")
     (simp_all add: input_of_def migrated_def path input_node_def written_node_def no_faults_def plain_path_def
       Let_def default_mode and.assoc)

context writer_contract
begin

theorem opened_migrates:
  assumes op: "opened co cp inputs archive md dk baseline ds datas"
    and mg: "mg_source_env mg = ae" "reader_matches co cp (mg_source_decompressor mg)"
    and os: "no_faults os" "temp_names_fresh os" "temp_dir_fresh os fs"
    and inputs: "separate_inputs inputs" "\<forall>f \<in> set inputs. plain_path f" "inputs \<noteq> []"
  shows "\<exists>fs'. (\<forall>p. node_at fs' p = node_at fs p)
    \<and> migrate mg os archive fs =
        map_option (\<lambda>r. (bindR r (\<lambda>(_, new). Inr (length inputs, Some new)), fs'))
          (compress_to_archive (mg_target_env mg) (mg_target_compressor mg)
            (map (migrated os) (sort_key (path_components \<circ> input_path) inputs)))"
proof -
  let ?key = "path_components \<circ> input_path"
  obtain tmp fs1 where t: "new_temp_dir os fs = (Some tmp, fs1)" "tmp = os_temp_dir os fs" "tmp \<noteq> []" "real_dirs fs1 tmp"
      "\<forall>p. strict_prefix tmp p \<longrightarrow> node_at fs1 p = None"
      "\<forall>p. node_at fs1 p = (if p = tmp then Some DirNode else node_at fs p)"
    by (rule new_temp_dir_fresh [OF os(1,3)])
  obtain fs2 files where x: "extract_all ae (mg_source_decompressor mg)
        (disk_writer os tmp (dc_no_clobber (mg_source_decompressor mg))) archive fs1 = Some (Inr (), fs2)"
      "real_dirs fs2 tmp" "holds_tree fs1 tmp files fs2" "list_all2 (restored (ae_blake3 ae)) inputs files"
    using opened_tree [OF op mg(2) os(1,2) t(4) t(5) [rule_format] inputs(1)] by blast
  have w: "writable_files files" by (rule separate_writable [OF x(4) inputs(1)])
  have plain: "plain_tree fs2 tmp" by (rule holds_tree_plain [OF x(3,2) w])
  have tree: "rebuilt fs1 tmp inputs fs2" by (rule holds_tree_rebuilt [OF x(3,4) inputs(1)])
  have "(\<lambda>p. tmp @ path_components p) ` set (map (\<lambda>x. fe_path (fst x)) files)
      = (\<lambda>p. tmp @ path_components p) ` set (map input_path inputs)"
    unfolding restored_paths [OF x(4)] ..
  then have "(\<lambda>(e, d). tmp @ entry_components e) ` set files = (\<lambda>f. tmp @ ?key f) ` set inputs"
    by (simp add: image_image case_prod_beta)
  then have found: "{p. is_file fs2 p \<and> strict_prefix tmp p} = (\<lambda>f. tmp @ ?key f) ` set inputs"
    using holds_tree_files [OF x(3) w] by simp
  have "metadata_ok (length archive) md" by (rule read_metadata_ok [of ae]) (use op in \<open>simp add: opened_def\<close>)
  then have "length (map fe_path (am_file_entries md)) \<le> unat MAX_FILE_COUNT"
      "\<forall>p \<in> set (map fe_path (am_file_entries md)). utf8_valid p"
    by (auto simp: metadata_ok_def archive_header_within_limits_def file_entry_ok_def word_le_nat_alt)
  then have few: "length inputs \<le> unat MAX_FILE_COUNT" and utf8: "\<forall>f \<in> set inputs. utf8_valid (input_path f)"
    unfolding written_paths [OF op] by simp_all
  let ?sorted = "sort_key ?key inputs"
  have collect: "collect_files_recursive os tmp fs2 = Inr (map (\<lambda>f. tmp @ ?key f) ?sorted)"
    by (rule collect_files_sorted [OF os(1) x(2) plain found few separate_distinct [OF inputs(1)]])
  have input: "input_of os fs2 tmp (tmp @ ?key f) = migrated os f" if f: "f \<in> set inputs" for f
  proof -
    have node: "node_at fs2 (tmp @ ?key f) = Some (input_node f)" using tree f by (simp add: rebuilt_def)
    obtain d where d: "if_data f = Inr d"
      using x(4) f by (auto simp: in_set_conv_nth restored_def scanned_ok_def dest: list_all2_nthD)
    have "?key f \<noteq> []" using inputs(1) f by (simp add: separate_inputs_def)
    then have "real_path fs2 (tmp @ ?key f) = Some (tmp @ ?key f)"
      by (intro plain_real_path [OF plain x(2) _ node] below_self)
    then show ?thesis using input_of_rebuilt [OF os(1) _ _ d] node inputs(2) utf8 f by simp
  qed
  have ne: "?sorted \<noteq> []" "length ?sorted = length inputs"
    using inputs(3) length_sort [of ?key inputs] by (fastforce, simp)
  have new: "map (input_of os fs2 tmp) (map (\<lambda>f. tmp @ ?key f) ?sorted) = map (migrated os) ?sorted"
    using input by simp
  have "node_at (remove_dir_all tmp fs2) p = node_at fs p" for p
    using tree t(6) os(3) unfolding remove_dir_all_node [OF t(3)]
    by (auto simp: rebuilt_def temp_dir_fresh_def Let_def t(2) strict_prefix_def)
  moreover have "migrate mg os archive fs =
        map_option (\<lambda>r. (bindR r (\<lambda>(_, new). Inr (length inputs, Some new)), remove_dir_all tmp fs2))
          (compress_to_archive (mg_target_env mg) (mg_target_compressor mg) (map (migrated os) ?sorted))"
    unfolding migrate_def migrate_with_def t(1) mg(1) prod.case option.case x(1) sum.case collect new
    using ne by simp
  ultimately show ?thesis by blast
qed

text \<open>Both entry points do the same with a written archive.\<close>

theorem opened_migrate_streaming:
  assumes op: "opened co cp inputs archive md dk baseline ds datas"
    and mg: "mg_source_env mg = ae" "reader_matches co cp (mg_source_decompressor mg)"
  shows "migrate_streaming mg os archive fs = migrate mg os archive fs"
proof -
  have "(\<lambda>w :: fs write_fun. extract_all_streaming ae (mg_source_decompressor mg) w archive)
      = (\<lambda>w. extract_all ae (mg_source_decompressor mg) w archive)"
    by (intro ext opened_extract_streaming [OF op mg(2)])
  then show ?thesis by (simp add: migrate_streaming_def migrate_def mg(1))
qed

end

end
