(* ===== verification/Totality.thy ===== *)
theory Totality
  imports Migrate
begin

text \<open>
  Every operation on archives returns: the loops of coder, transforms, chunker and readers end on
  every input, so that a result or an error comes back, never nothing.
\<close>

lemma those_total: "(\<And>x. x \<in> set xs \<Longrightarrow> f x \<noteq> None) \<Longrightarrow> those (map f xs) \<noteq> None"
  by (induction xs) (auto split: option.splits)

lemma case_total: "g \<noteq> None \<Longrightarrow> (\<And>x. f x \<noteq> None) \<Longrightarrow> (case m of None \<Rightarrow> g | Some x \<Rightarrow> f x) \<noteq> None"
  by (cases m) simp_all

lemma sequential_blocks_total: "(\<And>e. decode e \<noteq> None) \<Longrightarrow> sequential_blocks decode es i tc td decoded \<noteq> None"
  by (induction es arbitrary: i tc td decoded) (simp_all add: Let_def bindRun_total)

lemma file_blocks_total: "(\<And>e. decode e \<noteq> None) \<Longrightarrow> file_blocks decode es i td decoded \<noteq> None"
  by (induction es arbitrary: i td decoded) (simp_all add: Let_def bindRun_total)

section \<open>Reading\<close>

context archive_contract
begin

lemma decompress_block_total: "decompress_block env archive baseline dk e \<noteq> None"
  unfolding decompress_block_def case_prod_beta
  by (intro bindRun_total wrap_error_returns) simp_all

lemma raw_block_total: "decompress_raw_block env baseline b \<noteq> None"
  using decompress_raw_block_returns [of baseline b] by auto

lemma decompress_all_blocks_total: "decompress_all_blocks env dc archive md dk \<noteq> None"
proof -
  have "decompress_blocks_parallel env dc archive md dk \<noteq> None"
    unfolding decompress_blocks_parallel_def
    using decode_all_returns by (intro bindRun_total if_returns) (fastforce split: option.split)+
  moreover have "decompress_blocks_sequential env dc archive md dk \<noteq> None"
    unfolding decompress_blocks_sequential_def
    by (intro bindRun_total sequential_blocks_total decompress_block_total) simp
  ultimately show ?thesis by (simp add: decompress_all_blocks_def)
qed

lemma extract_all_total: "extract_all env dc write_file archive fs \<noteq> None"
proof -
  have "bindRun (Some (read_metadata env archive)) (\<lambda>metadata.
      bindRun (Some (validate_dictionary env dc (am_dictionary_hash metadata))) (\<lambda>_.
      bindRun (Some (derive_decrypt_key (ae_crypto env) (ah_flags (am_header metadata))
          (am_encryption_header metadata) (dc_password dc))) (\<lambda>decrypt_key.
      bindRun (decompress_all_blocks env dc archive metadata decrypt_key) (\<lambda>decoded.
        Some (Inr (metadata, decoded)))))) \<noteq> None"
    by (intro bindRun_total decompress_all_blocks_total) simp_all
  then show ?thesis unfolding extract_all_def Let_def by (auto split: option.split sum.split)
qed

lemma extract_file_total: "extract_file env dc archive path \<noteq> None"
  unfolding extract_file_def Let_def
  by (intro bindRun_total case_total if_returns file_blocks_total decompress_block_total) simp_all

lemma verify_total: "verify env dc archive \<noteq> None"
proof -
  have "verify_decode env dc archive ix baseline dk \<noteq> None" for ix baseline dk
    using those_total [of ix "decompress_block env archive baseline dk"] decompress_block_total
      those_total [of "read_raw_blocks_lenient env archive dk ix"
        "case_sum (\<lambda>_. Some (Inl (Decompression ''{e}''))) (decompress_raw_block env baseline)"]
      raw_block_total
    unfolding verify_decode_def by (auto split: sum.splits)
  then show ?thesis
    unfolding verify_def verify_metadata_def Let_def by (intro bindRun_total) simp_all
qed

end

section \<open>Writing\<close>

context writer_contract
begin

lemma chunks_total: "chunks_of data \<noteq> None"
proof -
  have "0 < AVG_CHUNK_SIZE" by (simp add: AVG_CHUNK_SIZE_def)
  then obtain cs where "chunk_fixed_from (ae_blake3 ae) (env_entropy (ae_router ae)) data AVG_CHUNK_SIZE 0 = Some cs"
    using chunk_fixed_from_cover [of AVG_CHUNK_SIZE 0 data] by blast
  then show ?thesis unfolding file_chunks_def chunk_fixed_refs_def by simp
qed

lemma compress_group_files_total:
  "compress_group_files co profile baseline ct entries datas idxs seen \<noteq> None"
proof (induction idxs arbitrary: seen)
  case (Cons i idxs)
  obtain cks where cks: "chunks_of (datas ! i) = Some cks" using chunks_total by blast
  have "compress_chunk_with_baseline (ae_router ae) ck baseline ct profile \<noteq> None" if "ck \<in> set cks" for ck
    using router.compress_chunk_returns [of ck baseline ct profile] chunks_of_cover [OF cks] chunk_small that by fastforce
  then have "mapRun (\<lambda>ck. compress_chunk_with_baseline (ae_router ae) ck baseline ct profile) cks \<noteq> None"
    by (rule mapRun_total)
  then show ?case
    unfolding compress_group_files.simps Let_def
    by (cases "map_of seen (fe_blake3_hash (entries ! i), fe_original_size (entries ! i))")
      (simp_all only: option.case cks bind.bind_lunit, (intro bindRun_total Cons.IH; simp)+)
qed simp

lemma compress_to_archive_total: "compress_to_archive co cp inputs \<noteq> None"
proof -
  have "compress_groups co cp baseline entries datas groups \<noteq> None" for baseline entries datas groups
    using mapRun_total [of groups "compress_group co (cp_profile cp) baseline entries datas"] compress_group_files_total
    unfolding compress_groups_def by (simp add: compress_group_def)
  then show ?thesis
    unfolding compress_to_archive_def Let_def by (intro bindRun_total) simp_all
qed

end

section \<open>Migration\<close>

lemma migrate_with_total:
  assumes "\<And>w fs. extract w fs \<noteq> None" "writer_contract (mg_target_env mg) good cdf"
  shows "migrate_with mg os extract fs \<noteq> None"
proof -
  have "\<exists>r. compress_to_archive (mg_target_env mg) cp inputs = Some r" for cp :: "'c compressor" and inputs
    using writer_contract.compress_to_archive_total [OF assms(2), of cp inputs] by blast
  moreover have "\<exists>r. extract w fs = Some r" for w fs using assms(1) by blast
  ultimately show ?thesis
    unfolding migrate_with_def by (auto split: option.split sum.split prod.split) (metis option.distinct(1))
qed

lemma migrate_total:
  assumes "archive_contract (mg_source_env mg) good cdf" "writer_contract (mg_target_env mg) good' cdf'"
  shows "migrate mg os source fs \<noteq> None" "migrate_streaming mg os source fs \<noteq> None"
  unfolding migrate_def migrate_streaming_def
  by (rule migrate_with_total [OF archive_contract.extract_all_total [OF assms(1)] assms(2)],
      rule migrate_with_total [OF archive_contract.extract_all_streaming_returns [OF assms(1)] assms(2)])

end
