(* ===== verification/Example.thy ===== *)
theory Example
  imports Totality
begin

text \<open>
  The contract of the writer holds for the Order-0 model: the interpretation makes the end-to-end
  theorems of \<^verbatim>\<open>Recovery\<close> available for the model's own coder. A small encrypted archive is
  written out step by step, as the instance on which the properties of the whole archive are shown
  to apply.
\<close>

section \<open>The contract of the writer\<close>

definition order0_compress_env :: "order0 compress_env" where
  "order0_compress_env =
     \<lparr>co_archive = order0_archive_env, co_fastcdc = bytewise, co_lower = (\<lambda>x. x),
      co_salt = replicate SALT_SIZE 3, co_nonce = replicate NONCE_SIZE 5\<rparr>"

interpretation order0_writer: writer_contract order0_compress_env order0_inv order0_cdf
proof (rule writer_contract.intro)
  show "archive_contract (co_archive order0_compress_env) order0_inv order0_cdf"
    using order0_archive.archive_contract_axioms by (simp add: order0_compress_env_def)
  show "writer_contract_axioms order0_compress_env"
    by unfold_locales (simp_all add: order0_compress_env_def bytewise_ok)
qed

section \<open>A file entry\<close>

definition example_entry :: file_entry where
  "example_entry =
     \<lparr>fe_path = [0x61, 0x2F, 0x62], fe_original_size = 10, fe_blake3_hash = replicate 32 9,
      fe_solid_group_id = 0, fe_chunk_start_idx = 0, fe_chunk_count = 1,
      fe_permissions = 0x9FF, fe_mtime = 7\<rparr>"

lemma example_entry_ok: "file_entry_ok example_entry"
  by (simp add: file_entry_ok_def example_entry_def utf8_valid_ascii MAX_PATH_LENGTH_def safe_path_def
      path_has_nul_def path_is_absolute_def path_has_drive_def path_has_dotdot_def is_sep_def
      COLON_def DOTDOT_def)

section \<open>An archive of one encrypted file\<close>

text \<open>An Order-0 model as a trait object, a compressor that uses it, and a file of three bytes.\<close>

definition order0_object :: "order0 predictor_object" where
  "order0_object = predictor.extend order0_predictor
     \<lparr>po_predict = (\<lambda>m. m), po_predictor_id = (\<lambda>_. Order0), po_save_state = (\<lambda>m. Some (order0_save_state m)),
      po_load_state = order0_load_state, po_set_coding_baseline = (\<lambda>_ m. (False, m))\<rparr>"

definition example_compressor :: "order0 compressor" where
  "example_compressor =
     \<lparr>cp_object = order0_object, cp_new_predictor = order0_new, cp_predictor_id = Order0, cp_max_threads = 0,
      cp_profile = Fast,
      cp_encryption = Some \<lparr>ec_password = replicate 8 0x41, ec_cipher_id = Aes256Gcm\<rparr>, cp_dictionary = None\<rparr>"

definition example_input :: "bytes \<Rightarrow> input_file" where
  "example_input path = \<lparr>if_data = Inr [7, 7, 9], if_rel_path = Some path, if_mtime = 5, if_mode = None\<rparr>"

text \<open>Each step of the compressor on that file.\<close>

lemma example_scan: "\<exists>ct. scan_files order0_compress_env [example_input path] 0 =
    Inr [(\<lparr>fe_path = normalize_separators path, fe_original_size = 3, fe_blake3_hash = digest32 [7, 7, 9],
           fe_solid_group_id = 0, fe_chunk_start_idx = 0, fe_chunk_count = 0, fe_permissions = 0x1A4, fe_mtime = 5\<rparr>,
          \<lparr>fi_path = normalize_separators path, fi_size = 3, fi_content_type = ct, fi_mean_entropy = 0\<rparr>, [7, 7, 9])]"
  by (simp add: order0_compress_env_def order0_archive_env_def example_input_def MAX_TOTAL_INPUT_SIZE_def
      order0_env_def Let_def)

lemma example_groups: "group_files [\<lparr>fi_path = p, fi_size = 3, fi_content_type = ct, fi_mean_entropy = 0\<rparr>] =
    [\<lparr>gr_group_id = 0, gr_content_type = ct, gr_recommended_method = recommend_method_for 0 ct,
      gr_file_indices = [0], gr_total_size = 3\<rparr>]"
  by (simp add: group_files_def bucket_files_def sort_bucket_def bucket_entropy_def make_group_def)

lemma example_chunks: "file_chunks (co_fastcdc order0_compress_env) (ae_blake3 (co_archive order0_compress_env))
    (env_entropy (ae_router (co_archive order0_compress_env))) [7, 7, 9] = Some [make_chunk digest32 (\<lambda>_. 0) 0 [7, 7, 9]]"
  by (simp add: file_chunks_def MIN_CHUNK_SIZE_def chunk_fixed_refs_def chunk_fixed_from.simps AVG_CHUNK_SIZE_def
      order0_compress_env_def order0_archive_env_def order0_env_def)

lemma example_chunk: "\<exists>cc. compress_chunk_with_baseline order0_env (make_chunk digest32 (\<lambda>_. 0) 0 [7, 7, 9]) None ct Fast = Some (Inr cc)
   \<and> length (cc_data cc) = 3 \<and> cc_original_size cc = 3 \<and> cc_blake3_hash cc = digest32 [7, 7, 9]"
  by (simp add: make_chunk_def compress_chunk_with_baseline_def
        fast_route_def compress_fast_def zstd_compress_def order0_env_def Let_def encode_x86_def is_x86_executable_def finish_chunk_def)

lemma example_setup: "\<exists>h key. encryption_setup order0_compress_env (cp_encryption example_compressor) = Inr (Some (h, key))
    \<and> length (encryption_header_write h) = 90"
  by (simp add: example_compressor_def encryption_setup_def order0_compress_env_def order0_archive_env_def Let_def
    validate_encryption_password_def MIN_PASSWORD_LEN_def derive_key_def tag_crypto_def
    validate_argon2_params_Inr [where u = "()", THEN iffD2, OF default_params_ok] compute_verification_tag_def
    encryption_header_write_def digest32_len SALT_SIZE_def NONCE_SIZE_def)

lemma example_seal:
  assumes "length data = 3"
  shows "\<exists>payload. seal_payload (ae_crypto order0_archive_env) (Some (h, key)) i data = Inr payload
    \<and> length payload = 31"
proof -
  have ok: "crypto_ok tag_crypto"
    using order0_archive.crypto by (simp add: order0_archive_env_def)
  have "\<exists>payload. encrypt_block tag_crypto (eh_cipher_id h) key (eh_master_nonce h) i data = Inr payload"
    using assms by (cases "eh_cipher_id h")
      (simp_all add: encrypt_block_Inr seal_def tag_crypto_def tag_encrypt_def MAX_BLOCK_PLAINTEXT_SIZE_def)
  then show ?thesis
    using encrypt_block_length [OF ok] assms
    by (auto simp: seal_payload_def order0_archive_env_def NONCE_SIZE_def TAG_SIZE_def)
qed

lemma example_run:
  "\<exists>stats archive. compress_to_archive order0_compress_env example_compressor [example_input [0x61]]
     = Some (Inr (stats, archive)) \<and> within_limits stats \<and> length archive < 2 ^ 64"
proof -
  let ?co = order0_compress_env
  have [simp]: "co_archive ?co = order0_archive_env" by (simp add: order0_compress_env_def)
  have [simp]: "ae_router order0_archive_env = order0_env" "ae_blake3 order0_archive_env = digest32"
    by (simp_all add: order0_archive_env_def)
  let ?e = "\<lparr>fe_path = [0x61], fe_original_size = 3, fe_blake3_hash = digest32 [7, 7, 9],
           fe_solid_group_id = 0, fe_chunk_start_idx = 0, fe_chunk_count = 0, fe_permissions = 0x1A4, fe_mtime = 5\<rparr>"
  obtain ct where scan: "scan_files ?co [example_input [0x61]] 0 = Inr [(?e,
     \<lparr>fi_path = [0x61], fi_size = 3, fi_content_type = ct, fi_mean_entropy = 0\<rparr>, [7, 7, 9])]"
    using example_scan [of "[0x61]"] by (auto simp: normalize_separators_def)
  let ?g = "\<lparr>gr_group_id = 0, gr_content_type = ct, gr_recommended_method = recommend_method_for 0 ct,
      gr_file_indices = [0], gr_total_size = 3\<rparr>"
  obtain cc where cc: "compress_chunk_with_baseline order0_env (make_chunk digest32 (\<lambda>_. 0) 0 [7, 7, 9]) None ct Fast = Some (Inr cc)"
     "length (cc_data cc) = 3" "cc_original_size cc = 3" "cc_blake3_hash cc = digest32 [7, 7, 9]"
    using example_chunk by blast
  obtain h key where enc: "encryption_setup ?co (cp_encryption example_compressor) = Inr (Some (h, key))"
      "length (encryption_header_write h) = 90"
    using example_setup by blast
  have assign: "assign_groups [?g] [?e] = [?e]"
    by (simp add: assign_groups_def assign_group_def)
  obtain payload where seal: "seal_payload (ae_crypto order0_archive_env) (Some (h, key)) 0 (cc_data cc) = Inr payload"
      "length payload = 31"
    using example_seal [OF cc(2)] by blast
  have cp: "cp_dictionary example_compressor = None" "cp_profile example_compressor = Fast"
      "cp_max_threads example_compressor = 0"
    by (simp_all add: example_compressor_def)
  have prefix: "use_path_prefixes [?e] = False"
    by (simp add: use_path_prefixes_def prefixed_path_size_def shared_prefix_len_def)
  have table: "write_file_table False [] [?e] = Inr (file_entry_write ?e @ [])" by simp
  let ?cf = "\<lparr>cf_file_idx = 0, cf_chunk_count = 1, cf_blocks = [cc], cf_dup_of_file_idx = None\<rparr>"
  have "env_entropy order0_env = (\<lambda>_. 0)" by (simp add: order0_env_def)
  then have chunks: "file_chunks (co_fastcdc ?co) digest32 (env_entropy order0_env) [7, 7, 9]
      = Some [make_chunk digest32 (\<lambda>_. 0) 0 [7, 7, 9]]"
    using example_chunks by simp
  have groups: "compress_groups ?co example_compressor None [?e] [[7, 7, 9]] [?g] = Some (Inr [[?cf]])"
    by (simp add: compress_groups_def compress_group_def chunks cc(1) cp)
  have hash: "blake3_len_ok digest32" by (simp add: blake3_len_ok_def digest32_len)
  have lens: "length (archive_header_write digest32 g) = 48"
      "length (file_entry_write x) = 34 + length (fe_path x) + length (fe_blake3_hash x)"
      "length (block_trailer_write crc \<lparr>bt_content_blake3 = digest32 d\<rparr>) = 36" for g x crc d
    by (simp_all add: length_archive_header_write [OF hash] ARCHIVE_HEADER_SIZE_def file_entry_write_def
      file_entry_fixed_def length_block_trailer_write digest32_len BLOCK_TRAILER_SIZE_def)
  show ?thesis
    unfolding compress_to_archive_def scan bindRun_simps Let_def
    unfolding list.map comp_def fst_conv snd_conv example_groups assign enc bindRun_simps prefix
      u32_try_from_def list.size cp encode_baseline_def option.case
    by (simp add: table groups seal write_group_def write_file_blocks_def
      write_block_def u32_try_from_def Let_def cc seal BLOCK_HEADER_SIZE_def BLOCK_TRAILER_SIZE_def enc(2) lens
      finish_archive_def within_limits_def MAX_FILE_COUNT_def MAX_BLOCK_COUNT_def MAX_SOLID_GROUP_COUNT_def
      overwrite_def write_group_table_def digest32_len SOLID_GROUP_ENTRY_SIZE_def BLOCK_INDEX_ENTRY_SIZE_def
      ARCHIVE_FOOTER_SIZE_def)
qed

text \<open>A reader for it, and what it makes of the archive.\<close>

definition example_decompressor :: "order0 decompressor" where
  "example_decompressor =
     \<lparr>dc_object = order0_object, dc_new_predictor = order0_new,
      dc_password = Some (replicate 8 0x41), dc_max_threads = 2, dc_dictionary = None, dc_no_clobber = False\<rparr>"

lemma example_hypotheses:
  "\<forall>f \<in> set [example_input [0x61]]. extractable f"
  "no_collisions (ae_blake3 (co_archive order0_compress_env)) [example_input [0x61]]"
  "\<forall>d \<in> set_option (cp_dictionary example_compressor). length (di_hash d) = 32"
  "reader_matches order0_compress_env example_compressor example_decompressor"
  by (simp_all add: extractable_def example_input_def normalize_separators_def no_collisions_def
      example_compressor_def reader_matches_def example_decompressor_def order0_compress_env_def
      order0_archive_env_def MAX_PATH_LENGTH_def utf8_valid_ascii safe_path_def path_has_nul_def
      path_is_absolute_def path_has_drive_def path_has_dotdot_def is_sep_def DOTDOT_def)

lemma example_opened:
  "\<exists>stats archive md dk baseline ds datas.
     compress_to_archive order0_compress_env example_compressor [example_input [0x61]] = Some (Inr (stats, archive))
     \<and> opened order0_compress_env example_compressor [example_input [0x61]] archive md dk baseline ds datas"
proof -
  obtain stats archive where run: "compress_to_archive order0_compress_env example_compressor [example_input [0x61]]
      = Some (Inr (stats, archive))" "within_limits stats" "length archive < 2 ^ 64"
    using example_run by (elim exE conjE)
  show ?thesis
    using order0_writer.compressed_opened [OF run(1) example_hypotheses(1,2) run(2,3) example_hypotheses(3)] run(1)
    by (elim exE) (intro exI conjI)
qed

section \<open>A file system to extract into\<close>

text \<open>
  Calls never fail, temporary names are longer than anything in the tree. The tree has an empty
  directory and a file beside it.
\<close>

definition example_os :: os where
  "example_os =
     \<lparr>os_fault = (\<lambda>_ _. False),
      os_temp_name = (\<lambda>dir fs. replicate (Suc (sum_list (map (\<lambda>(p, _). length (concat p)) fs))) 0x74),
      os_temp_dir = (\<lambda>_. [[0x74]]), os_clock = 1700000000\<rparr>"

definition example_fs :: fs where
  "example_fs = [([[0x6F]], DirNode), ([[0x78]], FileNode [1, 2] 0x1A4 None)]"

lemma example_names_fresh: "temp_names_fresh example_os"
  unfolding temp_names_fresh_def
proof (intro allI)
  fix dir :: path and fs :: fs
  let ?name = "os_temp_name example_os dir fs"
  have "length (concat p) \<le> sum_list (map (\<lambda>(p, _). length (concat p)) fs)" if "(p, n) \<in> set fs" for p n
    using member_le_sum_list [of "length (concat p)" "map (\<lambda>(p, _). length (concat p)) fs"] imageI [OF that, of "\<lambda>(p, _). length (concat p)"]
    by simp
  then have "map_of fs (dir @ [?name]) = None"
    by (fastforce simp: map_of_eq_None_iff example_os_def)
  then show "node_at fs (dir @ [?name]) = None" by (simp add: node_at_def)
qed

lemma example_file_system:
  "no_faults example_os" "temp_dir_fresh example_os example_fs" "real_dirs example_fs [[0x6F]]"
  "strict_prefix [[0x6F]] p \<Longrightarrow> node_at example_fs p = None"
  by (auto simp: no_faults_def example_os_def temp_dir_fresh_def example_fs_def DOTDOT_def real_dirs_def node_at_def
      le_Suc_eq strict_prefix_def prefix_def)

lemma example_components: "path_components (input_path (example_input [0x61])) = [[0x61]]"
  by (simp add: input_path_def example_input_def normalize_separators_def path_components_def is_slash_def)

lemma example_separate: "separate_inputs [example_input [0x61]]" "plain_path (example_input [0x61])"
proof -
  have path: "input_path (example_input [0x61]) = [0x61]"
    by (simp add: input_path_def example_input_def normalize_separators_def)
  have "validate_extraction_path [0x61] = Inr ()"
    by (simp add: validate_extraction_path_def path_has_nul_def path_is_absolute_def path_has_drive_def path_has_dotdot_def
        is_sep_def DOTDOT_def MAX_PATH_LENGTH_def last_component_def is_reserved_name_def ascii_uppercase_def ascii_def)
  then show "separate_inputs [example_input [0x61]]" "plain_path (example_input [0x61])"
    using example_components by (simp_all add: separate_inputs_def plain_path_def path)
qed

text \<open>The archive is migrated to the same settings.\<close>

definition example_migrator :: "(order0, order0, order0) migrator" where
  "example_migrator =
     \<lparr>mg_source_env = order0_archive_env, mg_source_decompressor = example_decompressor,
      mg_target_env = order0_compress_env, mg_target_compressor = example_compressor\<rparr>"

end
