(* ===== verification/NeuralCoder.thy ===== *)
theory NeuralCoder
  imports NeuralSsm Example
begin

text \<open>
  The program's own coder, the neural predictor, meets the contract of the router, of the archive
  reader and of the writer. A reset with a dictionary restores the learned state and leaves the
  cached probabilities of the last step, so the states before and after are not equal: they code
  alike, since every query recomputes the cache before it is read.
\<close>

section \<open>The cache does not matter\<close>

definition forget :: "neural \<Rightarrow> neural" where
  "forget n = n\<lparr>last_ssm_p_run := f_half, last_ssm_p_runa := f_half, last_rle_p_run := f_half, last_rle_p_runa := f_half\<rparr>"

lemma forget_keeps [simp]:
  "ssm_cfg (forget n) = ssm_cfg n" "decay_a (forget n) = decay_a n" "a_inv (forget n) = a_inv n"
  "ssm_embed (forget n) = ssm_embed n" "ssm_state (forget n) = ssm_state n" "dict_baseline (forget n) = dict_baseline n"
  by (simp_all add: forget_def)

lemma prepare_forget: "prepare_step_params lib (forget n) = prepare_step_params lib n"
proof -
  have "ssm_binary_predict lib (forget n) = ssm_binary_predict lib n" "mixing_alpha (forget n) = mixing_alpha n"
    by (simp_all add: ssm_binary_predict_def mixing_alpha_def Let_def)
  moreover have "forget n\<lparr>last_rle_p_run := a, last_rle_p_runa := b, last_ssm_p_run := c, last_ssm_p_runa := d\<rparr>
      = n\<lparr>last_rle_p_run := a, last_rle_p_runa := b, last_ssm_p_run := c, last_ssm_p_runa := d\<rparr>" for a b c d
    by (simp add: forget_def)
  ultimately show ?thesis unfolding prepare_step_params_def by (simp only: forget_keeps)
qed

lemma forget_same:
  assumes "forget s = forget t" shows "same_coding (neural_coder lib) s t"
proof -
  have "prepare_step_params lib s = prepare_step_params lib t"
    using prepare_forget [of lib s] prepare_forget [of lib t] assms by simp
  then have "neural_query_cdf lib b s = neural_query_cdf lib b t" "neural_decode_symbol lib f s = neural_decode_symbol lib f t" for b f
    by (simp_all only: neural_query_cdf_def neural_decode_symbol_def)
  then show ?thesis by (simp add: same_coding_def neural_coder_def)
qed

text \<open>What a reset depends on.\<close>

lemma reset_forget:
  assumes "ssm_cfg s = ssm_cfg t" "decay_a s = decay_a t" "a_inv s = a_inv t" "ssm_embed s = ssm_embed t"
    "dict_baseline s = dict_baseline t"
  shows "forget (neural_reset s) = forget (neural_reset t)"
  using assms by (cases s; cases t) (simp add: neural_reset_def forget_def split: option.split prod.split)

lemma reset_keeps:
  "ssm_cfg (neural_reset n) = ssm_cfg n" "decay_a (neural_reset n) = decay_a n" "a_inv (neural_reset n) = a_inv n"
  "ssm_embed (neural_reset n) = ssm_embed n" "dict_baseline (neural_reset n) = dict_baseline n"
  by (simp_all add: neural_reset_def split: option.split prod.split)

lemma step_keeps:
  "ssm_cfg (neural_update lib b (prepared lib n)) = ssm_cfg n" "decay_a (neural_update lib b (prepared lib n)) = decay_a n"
  "a_inv (neural_update lib b (prepared lib n)) = a_inv n" "ssm_embed (neural_update lib b (prepared lib n)) = ssm_embed n"
  "dict_baseline (neural_update lib b (prepared lib n)) = dict_baseline n"
  by (simp_all add: neural_update_def prepared_def prepare_step_params_def Let_def split: prod.split)

lemma neural_reset_idem: "same_coding (neural_coder lib) (neural_reset (neural_reset n)) (neural_reset n)"
  by (rule forget_same, rule reset_forget) (simp_all add: reset_keeps)

lemma neural_reset_next:
  assumes "lib_ok lib" "neural_inv n"
  shows "same_coding (neural_coder lib) (neural_reset (neural_update lib b (snd (neural_query_cdf lib b n)))) (neural_reset n)"
  unfolding neural_query_cdf_eq [OF assms] snd_conv by (rule forget_same, rule reset_forget) (simp_all add: step_keeps)

section \<open>The environments\<close>

text \<open>The router's environment around the neural predictor: the libraries are left open.\<close>

definition neural_env ::
    "math_lib \<Rightarrow> entropy_fun \<Rightarrow> suffix_sorter \<Rightarrow> zstd_encoder \<Rightarrow> zstd_decoder \<Rightarrow> (bytes \<Rightarrow> string + bytes) \<Rightarrow> neural router_env" where
  "neural_env lib entropy libsais encode_all decoder lz4 =
     \<lparr>env_predictor = neural_coder lib, env_new_predictor = neural_new,
      env_set_baseline = (\<lambda>baseline n. snd (set_dict_baseline baseline n)),
      env_entropy = entropy, env_libsais = libsais, env_zstd_encode_all = encode_all, env_zstd_decoder = decoder,
      env_lz4_decompress = lz4\<rparr>"

definition neural_object :: "math_lib \<Rightarrow> neural predictor_object" where
  "neural_object lib = predictor.extend (neural_coder lib)
     \<lparr>po_predict = (\<lambda>n. snd (neural_predict lib n)), po_predictor_id = (\<lambda>_. NeuralSsm),
      po_save_state = (\<lambda>n. Some (neural_save_state n)), po_load_state = neural_load_state,
      po_set_coding_baseline = set_coding_baseline\<rparr>"

lemma set_dict_baseline_inv:
  assumes "neural_inv n" shows "neural_inv (snd (set_dict_baseline bs n))"
proof -
  obtain ok m where l: "neural_load_state bs n = (ok, m)" by force
  then have "neural_inv m" using neural_load_inv(1) [OF assms] by blast
  then show ?thesis by (simp add: set_dict_baseline_def l neural_inv_def)
qed

theorem neural_router_contract:
  assumes "lib_ok lib" "sais_ok libsais" "zstd_ok encode_all decoder"
  shows "router_contract (neural_env lib entropy libsais encode_all decoder lz4) neural_inv (neural_cdf lib)"
proof -
  let ?env = "neural_env lib entropy libsais encode_all decoder lz4"
  have f: "env_predictor ?env = neural_coder lib" "env_libsais ?env = libsais"
    "env_zstd_encode_all ?env = encode_all" "env_zstd_decoder ?env = decoder"
    by (simp_all add: neural_env_def)
  have ops: "reset_state (neural_coder lib) = neural_reset" "update_byte (neural_coder lib) = neural_update lib"
    "query_cdf (neural_coder lib) = neural_query_cdf lib"
    by (simp_all add: neural_coder_def)
  show ?thesis
  proof (rule router_contract.intro)
    show "lawful_predictor (env_predictor ?env) neural_inv (neural_cdf lib)"
      unfolding f using assms(1) by (rule neural_lawful)
    show "router_contract_axioms ?env neural_inv"
    proof
      show "neural_inv (coding_predictor ?env b)" for b
        using neural_new_inv set_dict_baseline_inv by (simp add: coding_predictor_def neural_env_def split: option.split)
    qed (simp_all add: f ops assms neural_reset_idem neural_reset_next)
  qed
qed

text \<open>The reader and the writer with this coder, for any libraries that keep their contracts.\<close>

definition with_router :: "neural router_env \<Rightarrow> 'x archive_env \<Rightarrow> neural archive_env" where
  "with_router r ae =
     \<lparr>ae_router = r, ae_blake3 = ae_blake3 ae, ae_crc = ae_crc ae, ae_crypto = ae_crypto ae,
      ae_builtin_dicts = ae_builtin_dicts ae, ae_pool_builds = ae_pool_builds ae\<rparr>"

definition with_archive :: "neural archive_env \<Rightarrow> 'x compress_env \<Rightarrow> neural compress_env" where
  "with_archive ae co =
     \<lparr>co_archive = ae, co_fastcdc = co_fastcdc co, co_lower = co_lower co, co_salt = co_salt co, co_nonce = co_nonce co\<rparr>"

text \<open>An instance of the libraries: an exponential that is one everywhere, a sorter, a zstd that stores.\<close>

definition plain_lib :: math_lib where
  "plain_lib = \<lparr>lib_exp = (\<lambda>_. fl_lit f32 1), lib_ln = (\<lambda>x. x)\<rparr>"

lemma plain_lib_ok: "lib_ok plain_lib"
  using one_between [of f32] by (auto simp: lib_ok_def plain_lib_def Floats.between_def)

definition plain_env :: "neural router_env" where
  "plain_env = neural_env plain_lib (\<lambda>_. 0) sorted_suffixes (\<lambda>data _. Inr data) (\<lambda>data. Inr (data, None)) (\<lambda>_. Inl [])"

interpretation neural_router: router_contract plain_env neural_inv "neural_cdf plain_lib"
  unfolding plain_env_def
  by (rule neural_router_contract [OF plain_lib_ok]) (simp_all add: sorted_suffixes_ok zstd_ok_def)

definition plain_archive_env :: "neural archive_env" where
  "plain_archive_env = with_router plain_env order0_archive_env"

interpretation neural_archive: archive_contract plain_archive_env neural_inv "neural_cdf plain_lib"
proof (rule archive_contract.intro)
  show "router_contract (ae_router plain_archive_env) neural_inv (neural_cdf plain_lib)"
    using neural_router.router_contract_axioms by (simp add: plain_archive_env_def with_router_def)
  show "archive_contract_axioms plain_archive_env"
    using order0_archive.blake3_len order0_archive.crypto
    by unfold_locales (simp_all add: plain_archive_env_def with_router_def)
qed

definition plain_compress_env :: "neural compress_env" where
  "plain_compress_env = with_archive plain_archive_env order0_compress_env"

interpretation neural_writer: writer_contract plain_compress_env neural_inv "neural_cdf plain_lib"
proof (rule writer_contract.intro)
  show "archive_contract (co_archive plain_compress_env) neural_inv (neural_cdf plain_lib)"
    using neural_archive.archive_contract_axioms by (simp add: plain_compress_env_def with_archive_def)
  show "writer_contract_axioms plain_compress_env"
    using order0_writer.fastcdc order0_writer.salt_len order0_writer.nonce_len
    by unfold_locales (simp_all add: plain_compress_env_def with_archive_def)
qed

end
