(* ===== verification/NeuralSaved.thy ===== *)
theory NeuralSaved
  imports NeuralSsm
begin

text \<open>
  Every state the neural predictor reaches can be saved and loaded. The loader of
  \<^verbatim>\<open>neural_ssm.rs\<close> rejects values outside of limits - a hidden state beyond 5, weights
  beyond 10, running averages that are not finite, counts beyond 200000. The lemmas show that
  predicting, learning, resetting and loading any bytes keep the predictor within these limits, so
  that what it saves is always accepted. The predictor is the one of the program: 32 dimensions and
  the default parameters.
\<close>

section \<open>Values read from bytes\<close>

lemma from_bits_fits:
  assumes F: "wf_format F" and x: "fin (fl_from_bits F w)"
  shows "bound F (val (fl_from_bits F w))"
proof -
  define mu where "mu = mant_unit F"
  define n where "n = w mod ((exp_limit F + 1) * mu)"
  define e where "e = n div mu"
  define f where "f = n mod mu"
  have mu: "0 < mu" "2 * mu = 2 ^ prec F"
    using wf_prec [OF F] by (simp_all add: mu_def mant_unit_def flip: power_Suc)
  have mF: "int mu * 2 = 2 ^ prec F" using mu(2) by (metis mult.commute of_nat_mult of_nat_numeral of_nat_power)
  have f: "f < mu" using mu by (simp add: f_def)
  have "n < (exp_limit F + 1) * mu" unfolding n_def by (rule mod_less_divisor) (use mu in simp)
  then have "e < exp_limit F + 1" unfolding e_def by (rule less_mult_imp_div_less)
  moreover have ne: "e \<noteq> exp_limit F"
    using x by (auto simp: fl_from_bits_def Let_def e_def n_def mu_def split: if_splits)
  ultimately have e: "e < exp_limit F" by simp
  define k where "k = (if e = 0 then f else mu + f)"
  define g where "g = (if e = 0 then emin F else emin F + int e - 1)"
  have v: "\<bar>val (fl_from_bits F w)\<bar> = of_nat k * pow2 g"
    using ne by (simp add: fl_from_bits_def Let_def e_def n_def mu_def k_def g_def f_def val_Num abs_mult del: of_nat_add)
  have k: "k < 2 ^ prec F" using f mu by (auto simp: k_def)
  have g: "emin F \<le> g" "g \<le> emax F" using e F by (auto simp: g_def exp_limit_def wf_format_def)
  have "(of_nat (k + 1) :: rat) \<le> of_nat (2 ^ prec F)" using k by (simp only: of_nat_le_iff)
  then have "of_nat k \<le> (2 ^ prec F - 1 :: rat)" by simp
  then have "of_nat k * pow2 g \<le> (2 ^ prec F - 1) * pow2 (emax F)"
    by (rule mult_mono [OF _ pow2_mono [OF g(2)]]) simp_all
  moreover have "rep F (of_nat k * pow2 g)" by (rule repI [OF refl]) (use k g in simp_all)
  ultimately show ?thesis by (simp add: bound_def v float_max_def)
qed

lemma read_finite_ok: "read_finite_f32 data = Some (x, rest) \<Longrightarrow> fin x \<and> bound f32 (val x)"
  using from_bits_bound [OF wf_formats(1)] from_bits_fits [OF wf_formats(1)]
  by (auto simp: read_finite_f32_def Let_def split: bind_splits if_splits)

lemma read_bounded_ok:
  assumes "read_bounded_f32 b data = Some (x, rest)" "b \<le> 2 ^ 24"
  shows "f32_within b x"
proof -
  have n: "fin (fl_nat f32 b)" "val (fl_nat f32 b) = of_nat b" using nat_f32 [OF assms(2)] by (simp_all add: between_def)
  obtain data' where r: "read_finite_f32 data = Some (x, data')" "fl_le (fl_abs x) (fl_nat f32 b)"
    using assms(1) by (auto simp: read_bounded_f32_def split: bind_splits if_splits)
  note x = read_finite_ok [OF r(1)]
  have "val (fl_abs x) \<le> val (fl_nat f32 b)" using r(2) le_val [OF _ n(1)] abs_val x by blast
  then show ?thesis using x n abs_val by (simp add: f32_within_def)
qed

lemma padded_within_32:
  "padded_within b 32 xs \<longleftrightarrow> length xs = 32 \<and> (\<forall>x \<in> set xs. f32_within b x)"
proof
  assume p: "padded_within b 32 xs"
  then have "xs = take 32 xs" "length (take 32 xs) = 32" by (auto simp: padded_within_def padded_def D_MAX_def)
  then have "length xs = 32" "set (take 32 xs) = set xs" by (metis, metis)
  then show "length xs = 32 \<and> (\<forall>x \<in> set xs. f32_within b x)" using p by (simp add: padded_within_def)
next
  assume "length xs = 32 \<and> (\<forall>x \<in> set xs. f32_within b x)"
  then show "padded_within b 32 xs" by (simp add: padded_within_def padded_def D_MAX_def)
qed

lemma read_weights_ok:
  assumes "read_many (read_bounded_f32 b) 32 data = Some (xs, rest)" "b \<le> 2 ^ 24"
  shows "padded_within b 32 (padded xs)"
proof -
  have "length xs = 32 \<and> (\<forall>x \<in> set xs. f32_within b x)"
    by (rule read_many_ok [OF assms(1)]) (rule read_bounded_ok [OF _ assms(2)])
  then show ?thesis by (simp add: padded_within_32 padded_def D_MAX_def)
qed

text \<open>What the parser accepts is within the limits, once the inner predictor is.\<close>

lemma parse_learned_savable:
  assumes p: "parse_learned 32 r data = Some (l, k, rest)" and r: "rle_savable q" "rle_inv r"
  shows "learned_savable 32 (l\<lparr>ssm_rle := q\<rparr>)"
proof -
  have b: "HIDDEN_BOUND \<le> 2 ^ 24" "WEIGHT_BOUND \<le> 2 ^ 24" by (simp_all add: HIDDEN_BOUND_def WEIGHT_BOUND_def)
  have parts: "padded_within HIDDEN_BOUND 32 (ssm_h l)" "padded_within WEIGHT_BOUND 32 (w_run l)"
      "padded_within WEIGHT_BOUND 32 (w_runa l)" "f32_within WEIGHT_BOUND (b_run l)" "f32_within WEIGHT_BOUND (b_runa l)"
      "fin (ssm_perf l) \<and> bound f32 (val (ssm_perf l))" "fin (rle_perf l) \<and> bound f32 (val (rle_perf l))"
      "\<exists>data data'. read_many (read_many read_o2_count NUM_LITS) NUM_O2_CTX data = Some (o2_lit_counts l, data')"
    using p b unfolding parse_learned_def Let_def
    by (auto split: bind_splits if_splits dest!: read_weights_ok read_bounded_ok read_finite_ok) blast+
  obtain data1 data2 where "read_many (read_many read_o2_count NUM_LITS) NUM_O2_CTX data1 = Some (o2_lit_counts l, data2)"
    using parts(8) by blast
  from read_many_ok [OF this, of "\<lambda>cs. \<forall>x \<in> set cs. x \<le> MAX_O2_COUNT"] count_row_ok
  have "\<forall>c < 64. \<forall>x \<in> set (o2_lit_counts l ! c). x \<le> MAX_O2_COUNT" by (fastforce simp: NUM_O2_CTX_def)
  moreover have "learned_inv (l\<lparr>ssm_rle := q\<rparr>)"
    using parse_learned_ok [OF p r(2)] r(1) by (simp add: learned_inv_def rle_savable_def)
  ultimately show ?thesis using parts(1-7) r(1) by (simp add: learned_savable_def)
qed

section \<open>Counts\<close>

text \<open>A literal model whose counts are within a limit stays within it: it is rescaled long before.\<close>

lemma counts_limit:
  assumes c: "counted limit counts tree tot" "i < 254" and le: "\<forall>x \<in> set counts. x \<le> m" and t: "t \<le> m"
  shows "\<forall>x \<in> set (map (\<lambda>v. v div 2) (counts[i := counts ! i + 1])). x \<le> m"
    and "tot + 1 \<le> t \<Longrightarrow> \<forall>x \<in> set (counts[i := counts ! i + 1]). x \<le> m"
proof -
  let ?cs = "counts[i := counts ! i + 1]"
  have "counts ! i \<in> set counts" using c by (simp add: counted_def)
  then have up: "x \<le> m + 1" if "x \<in> set ?cs" for x
    using that set_update_subset_insert [of counts i "counts ! i + 1"] le by fastforce
  show "\<forall>x \<in> set (map (\<lambda>v. v div 2) ?cs). x \<le> m"
  proof
    fix x assume "x \<in> set (map (\<lambda>v. v div 2) ?cs)"
    then obtain v where v: "x = v div 2" "v \<in> set ?cs" by auto
    then show "x \<le> m" using up [OF v(2)] by simp
  qed
  show "\<forall>x \<in> set ?cs. x \<le> m" if "tot + 1 \<le> t"
  proof
    fix x assume "x \<in> set ?cs"
    then have "x \<le> sum_list ?cs" using member_le_sum_list [of x ?cs] by simp
    also have "\<dots> = tot + 1" by (rule sum_after_add [OF c])
    finally show "x \<le> m" using that t by simp
  qed
qed

lemma rle_update_savable:
  assumes "rle_savable r"
  shows "rle_savable (rle_update b r)"
proof -
  let ?c = "rle_ctx r" and ?i = "unat b - 2"
  have inv: "rle_inv r" and c: "?c < 3" and len: "length (lit_counts r) = 3"
    and cnt: "counted 254000000 (lit_counts r ! ?c) (lit_fenwick r ! ?c) (lit_totals r ! ?c)"
    and le: "\<forall>x \<in> set (lit_counts r ! ?c). x \<le> MAX_LIT_COUNT"
    using assms by (auto simp: rle_savable_def rle_inv_def)
  have i: "?i < 254" using unat_less_256 [of b] by linarith
  have m: "500000 \<le> MAX_LIT_COUNT" by (simp add: MAX_LIT_COUNT_def)
  note lim = counts_limit [OF cnt i le m]
  have "\<forall>k < 3. \<forall>x \<in> set (lit_counts (rle_update b r) ! k). x \<le> MAX_LIT_COUNT"
    using assms lim c len by (auto simp: rle_savable_def rle_update_def Let_def nth_list_update simp del: set_map)
  then show ?thesis using rle_update_inv [OF inv] by (simp add: rle_savable_def)
qed

lemma o2_update_counts:
  assumes inv: "learned_inv l" and le: "\<forall>c < 64. \<forall>x \<in> set (o2_lit_counts l ! c). x \<le> MAX_O2_COUNT"
  shows "\<forall>c < 64. \<forall>x \<in> set (o2_lit_counts (o2_update b l) ! c). x \<le> MAX_O2_COUNT"
proof (cases "b \<ge> 2")
  case True
  let ?c = "o2_context (prev_byte l) (prev_prev_byte l)" and ?i = "unat (b - 2)"
  have c: "?c < 64" by (rule o2_context_less)
  have "b \<noteq> 0" "b \<noteq> 1" using True by (auto simp: word_le_nat_alt)
  from literal_index(2) [OF this] have i: "?i < 254" .
  have cnt: "counted 50800000 (o2_lit_counts l ! ?c) (o2_lit_fenwick l ! ?c) (o2_lit_totals l ! ?c)"
    and lec: "\<forall>x \<in> set (o2_lit_counts l ! ?c). x \<le> MAX_O2_COUNT" and len: "length (o2_lit_counts l) = 64"
    using inv le c by (auto simp: learned_inv_def)
  have m: "100000 \<le> MAX_O2_COUNT" by (simp add: MAX_O2_COUNT_def)
  note lim = counts_limit [OF cnt i lec m]
  show ?thesis
  proof (cases "o2_lit_totals l ! ?c + 1 > 100000")
    case True
    then show ?thesis
      using \<open>b \<ge> 2\<close> lim(1) le len c by (simp add: o2_update_def Let_def nth_list_update del: set_map)
  next
    case False
    then show ?thesis
      using \<open>b \<ge> 2\<close> lim(2) le len c by (simp add: o2_update_def Let_def nth_list_update)
  qed
qed (use le in \<open>simp add: o2_update_def\<close>)

section \<open>Numbers\<close>

text \<open>
  What is documented of the platform's functions: the exponential of a number is a number, and the
  logarithm of a number between \<^verbatim>\<open>MIN_PROB\<close> and 2 is far below 128.
\<close>

definition lib_total :: "math_lib \<Rightarrow> bool" where
  "lib_total lib \<longleftrightarrow> lib_ok lib \<and> (\<forall>x. fin x \<longrightarrow> lib_exp lib x \<noteq> NaN)
     \<and> (\<forall>x. between (1 / 2 ^ 20) 2 x \<longrightarrow> between (- 128) 128 (lib_ln lib x))"

lemma loose_number: "loose a b x \<Longrightarrow> x \<noteq> NaN \<Longrightarrow> between a b x"
  by (simp add: loose_def)

lemma fin_number: "fin x \<Longrightarrow> x \<noteq> NaN"
  by auto

lemma fl_round_number: "fl_round F s q \<noteq> NaN"
  by (simp add: fl_round_def Let_def)

lemma sigmoid_entry_between:
  assumes lib: "lib_total lib" and i: "i < 10241"
  shows "between 0 1 (sigmoid_entry lib i)"
proof (rule loose_number [OF sigmoid_entry_loose])
  show "lib_ok lib" using lib by (simp add: lib_total_def)
  let ?x = "fl_add f32 SIGMOID_MIN (fl_div f32 (fl_nat f32 i) (fl_nat f32 SIGMOID_STEPS_PER_UNIT))"
  have st: "between 256 256 (fl_nat f32 SIGMOID_STEPS_PER_UNIT)"
    using nat_f32 [of 256] by (simp add: SIGMOID_STEPS_PER_UNIT_def)
  have "i \<le> 2 ^ 24" using i by simp
  from nat_f32 [OF this] have n: "between (of_nat i) (of_nat i) (fl_nat f32 i)" .
  have "(of_nat i :: rat) \<le> of_nat 10240" using i by (simp only: of_nat_le_iff)
  with n have "between 0 10240 (fl_nat f32 i)" by (simp add: between_def)
  from between_div [OF this st, of f32 0 40] have q: "between 0 40 (fl_div f32 (fl_nat f32 i) (fl_nat f32 SIGMOID_STEPS_PER_UNIT))" by simp
  have "between (- 20) 20 ?x" by (rule between_add [OF sigmoid_ends(1) q]) simp_all
  then have "fin (fl_neg ?x)" using between_fin val_neg by blast
  then have e: "lib_exp lib (fl_neg ?x) \<noteq> NaN" "lib_exp lib (fl_neg ?x) = Inf False \<or> fin (lib_exp lib (fl_neg ?x)) \<and> 0 \<le> val (lib_exp lib (fl_neg ?x))"
    using lib unfolding lib_total_def lib_ok_def by blast+
  let ?one = "fl_lit f32 1"
  have one: "fin ?one" "val ?one = 1" using one_between [of f32] by (auto simp: between_def)
  then obtain t q where o: "?one = Num t q" "0 \<le> q" by (elim finE)
  then have "q \<noteq> 0" using one(2) by (cases t) (auto simp: val_Num)
  note o = o this
  have "fl_div f32 ?one (fl_add f32 ?one (lib_exp lib (fl_neg ?x))) \<noteq> NaN"
    using e(2)
  proof
    assume "lib_exp lib (fl_neg ?x) = Inf False"
    then show ?thesis by (simp add: o)
  next
    assume f: "fin (lib_exp lib (fl_neg ?x)) \<and> 0 \<le> val (lib_exp lib (fl_neg ?x))"
    then obtain u where y: "fl_add f32 ?one (lib_exp lib (fl_neg ?x)) = fl_round f32 u (1 + val (lib_exp lib (fl_neg ?x)))"
      using add_round [OF one(1), of _ f32] one(2) by metis
    have "fl_div f32 ?one (fl_round f32 u r) \<noteq> NaN" for r
      using fl_round_number [of f32 u r] by (cases "fl_round f32 u r") (simp_all add: o fl_round_number)
    then show ?thesis unfolding y .
  qed
  then show "sigmoid_entry lib i \<noteq> NaN" by (simp add: sigmoid_entry_def Let_def)
qed

text \<open>The logistic function of a number is a number.\<close>

lemma sigmoid_between:
  assumes lib: "lib_total lib" and x: "fin x"
  shows "between (- 1) 2 (sigmoid lib x)"
proof -
  let ?c = "fl_clamp SIGMOID_MIN SIGMOID_MAX x"
  define scaled where "scaled = fl_mul f32 (fl_sub f32 ?c SIGMOID_MIN) (fl_nat f32 SIGMOID_STEPS_PER_UNIT)"
  let ?i = "fl_to_nat 64 scaled"
  have lut: "between 0 1 (SIGMOID_LUT lib ! i)" if "i < 10241" for i
    using that sigmoid_entry_between [OF lib that] by (simp add: SIGMOID_LUT_def SIGMOID_LUT_LEN_eq)
  have c: "between (- 20) 20 ?c"
    using clamp_between [OF x, of SIGMOID_MIN SIGMOID_MAX] sigmoid_ends [THEN between_point] by simp
  have st: "between 256 256 (fl_nat f32 SIGMOID_STEPS_PER_UNIT)"
    using nat_f32 [of 256] by (simp add: SIGMOID_STEPS_PER_UNIT_def)
  have "between 0 40 (fl_sub f32 ?c SIGMOID_MIN)" by (rule between_sub [OF c sigmoid_ends(1)]) simp_all
  from between_mul [OF this st, of f32 0 10240] have sc: "between 0 10240 scaled" by (simp add: scaled_def)
  show ?thesis
  proof (cases "?i + 1 \<ge> 10241")
    case True
    then have "sigmoid lib x = SIGMOID_LUT lib ! 10240"
      by (simp add: sigmoid_def Let_def SIGMOID_LUT_LEN_eq scaled_def)
    then show ?thesis using lut [of 10240] by (auto intro: between_mono)
  next
    case False
    let ?lo = "SIGMOID_LUT lib ! ?i" and ?hi = "SIGMOID_LUT lib ! (?i + 1)"
    have s: "sigmoid lib x = fl_add f32 ?lo (fl_mul f32 (fl_sub f32 ?hi ?lo) (fl_sub f32 scaled (fl_nat f32 ?i)))"
      using False by (simp add: sigmoid_def Let_def SIGMOID_LUT_LEN_eq scaled_def)
    have l: "between 0 1 ?lo" "between 0 1 ?hi" using lut [of ?i] lut [of "?i + 1"] False by simp_all
    have d: "between (- 1) 1 (fl_sub f32 ?hi ?lo)" by (rule between_sub [OF l(2,1)]) simp_all
    have v: "?i = nat \<lfloor>val scaled\<rfloor>" using False sc by (auto simp: to_nat_val between_def min_def split: if_splits)
    have n: "between (of_nat ?i) (of_nat ?i) (fl_nat f32 ?i)" using nat_f32 [of ?i] False by simp
    have "0 \<le> val scaled - of_nat ?i" "val scaled - of_nat ?i \<le> 1" using sc unfolding v between_def by linarith+
    then have f: "between (- 1) 1 (fl_sub f32 scaled (fl_nat f32 ?i))"
      using sub_round [OF between_fin [OF sc] between_fin [OF n], of f32] fl_round_between [of f32 "- 1" 1 "val scaled - of_nat ?i"] n
      by (auto simp: between_def)
    have "between (- 1) 1 (fl_mul f32 (fl_sub f32 ?hi ?lo) (fl_sub f32 scaled (fl_nat f32 ?i)))"
      by (rule between_mul_abs [OF d f]) simp_all
    from between_add [OF l(1) this, of f32 "- 1" 2] show ?thesis by (simp add: s)
  qed
qed

text \<open>With bounded weights and state the classifiers' sums are numbers.\<close>

definition within_lists :: "learned \<Rightarrow> bool" where
  "within_lists l \<longleftrightarrow> padded_within HIDDEN_BOUND 32 (ssm_h l) \<and> padded_within WEIGHT_BOUND 32 (w_run l)
     \<and> padded_within WEIGHT_BOUND 32 (w_runa l) \<and> f32_within WEIGHT_BOUND (b_run l) \<and> f32_within WEIGHT_BOUND (b_runa l)"

lemma within_between: "f32_within b x \<Longrightarrow> between (- of_nat b) (of_nat b) x"
  by (auto simp: f32_within_def between_def)

lemma within_nth: "padded_within b 32 xs \<Longrightarrow> i < 32 \<Longrightarrow> between (- of_nat b) (of_nat b) (xs ! i)"
  by (simp add: padded_within_32 within_between)

lemma dot_product_between:
  assumes b: "between (- 10) 10 b" and ws: "padded_within WEIGHT_BOUND 32 ws" and hs: "padded_within HIDDEN_BOUND 32 hs"
  shows "d \<le> 32 \<Longrightarrow> between (- of_int (int (10 + 50 * d))) (of_int (int (10 + 50 * d))) (dot_product d b ws hs)"
proof (induction d)
  case 0
  then show ?case using b by (simp add: dot_product_def)
next
  case (Suc d)
  have d: "d < 32" using Suc.prems by simp
  have w: "between (- 10) 10 (ws ! d)" and h: "between (- 5) 5 (hs ! d)"
    using within_nth [OF ws d] within_nth [OF hs d] by (simp_all add: WEIGHT_BOUND_def HIDDEN_BOUND_def)
  have m: "between (- 50) 50 (fl_mul f32 (ws ! d) (hs ! d))" by (rule between_mul_abs [OF w h]) simp_all
  have bd: "bound f32 (of_int (int (10 + 50 * Suc d)))" by (rule bound_int) (use d in simp_all)
  have "between (- of_int (int (10 + 50 * Suc d))) (of_int (int (10 + 50 * Suc d)))
      (fl_add f32 (dot_product d b ws hs) (fl_mul f32 (ws ! d) (hs ! d)))"
    by (rule between_add [OF Suc.IH m]) (use d bd bound_uminus [OF bd] in simp_all)
  then show ?case by (simp add: dot_product_def)
qed

lemma ssm_predict_between:
  assumes lib: "lib_total lib" and l: "within_lists (ssm_state n)" and d: "cfg_d (ssm_cfg n) \<le> 32"
    and p: "ssm_binary_predict lib n = (p_run, p_runa)"
  shows "between (- 1) 2 p_run" "between (- 1) 2 p_runa"
proof -
  have b: "between (- 10) 10 (b_run (ssm_state n))" "between (- 10) 10 (b_runa (ssm_state n))"
    using l within_between by (fastforce simp: within_lists_def WEIGHT_BOUND_def)+
  have lists: "padded_within HIDDEN_BOUND 32 (ssm_h (ssm_state n))" "padded_within WEIGHT_BOUND 32 (w_run (ssm_state n))"
    "padded_within WEIGHT_BOUND 32 (w_runa (ssm_state n))" using l by (simp_all add: within_lists_def)
  have "fin (dot_product (cfg_d (ssm_cfg n)) (b_run (ssm_state n)) (w_run (ssm_state n)) (ssm_h (ssm_state n)))"
    "fin (dot_product (cfg_d (ssm_cfg n)) (b_runa (ssm_state n)) (w_runa (ssm_state n)) (ssm_h (ssm_state n)))"
    using between_fin [OF dot_product_between [OF b(1) lists(2,1) d]] between_fin [OF dot_product_between [OF b(2) lists(3,1) d]]
    by simp_all
  then show "between (- 1) 2 p_run" "between (- 1) 2 p_runa"
    using p sigmoid_between [OF lib] by (auto simp: ssm_binary_predict_def Let_def)
qed

section \<open>Predicting and learning\<close>

text \<open>What the last prediction left for the next update.\<close>

definition last_ok :: "neural \<Rightarrow> bool" where
  "last_ok n \<longleftrightarrow> between (- 1) 2 (last_ssm_p_run n) \<and> between (- 1) 2 (last_ssm_p_runa n)
     \<and> between (- 1) 2 (last_rle_p_run n) \<and> between (- 1) 2 (last_rle_p_runa n)"

lemma prepared_last:
  assumes lib: "lib_total lib" and l: "within_lists (ssm_state n)" and d: "cfg_d (ssm_cfg n) \<le> 32"
    and r: "rle_inv (ssm_rle (ssm_state n))"
  shows "last_ok (prepared lib n)"
proof -
  let ?r = "ssm_rle (ssm_state n)" let ?c = "rle_ctx ?r"
  have "binary_inv (run_vs_lit ?r ! ?c)" "binary_inv (runa_vs_runb ?r ! ?c)" using r by (auto simp: rle_inv_def)
  then have "between 0 1 (p_yes (run_vs_lit ?r ! ?c))" "between 0 1 (p_yes (runa_vs_runb ?r ! ?c))"
    by (simp_all add: p_yes_between)
  note q = rle_binary_between [OF this, THEN between_mono, of "- 1" 2]
  obtain p_run p_runa where p: "ssm_binary_predict lib n = (p_run, p_runa)" by fastforce
  note s = ssm_predict_between [OF lib l d p]
  have "last_rle_p_run (prepared lib n) = (let run = p_yes (run_vs_lit ?r ! ?c); runa = p_yes (runa_vs_runb ?r ! ?c)
        in fl_add f32 (fl_mul f32 run runa) (fl_mul f32 run (fl_sub f32 (fl_lit f32 1) runa)))"
    "last_rle_p_runa (prepared lib n) = (let run = p_yes (run_vs_lit ?r ! ?c); runa = p_yes (runa_vs_runb ?r ! ?c);
          p0 = fl_mul f32 run runa; p = fl_add f32 p0 (fl_mul f32 run (fl_sub f32 (fl_lit f32 1) runa))
        in if fl_less MIN_PROB p then fl_div f32 p0 p else f_half)"
    "last_ssm_p_run (prepared lib n) = p_run" "last_ssm_p_runa (prepared lib n) = p_runa"
    by (simp_all add: prepared_def prepare_step_params_def model_parts_fenwick_def p Let_def split: prod.split)
  then show ?thesis using q s by (simp add: last_ok_def Let_def)
qed

lemma likelihood_between:
  assumes "lib_total lib" "between (- 1) 2 p"
  shows "between (- 128) 128 (lib_ln lib (fl_max p MIN_PROB))"
proof -
  have m: "fin MIN_PROB" "1 / 2 ^ 20 \<le> val MIN_PROB" "val MIN_PROB \<le> 1"
    using PROB_FLOOR_between by (auto simp: MIN_PROB_def between_def)
  have "between (1 / 2 ^ 20) 2 (fl_max p MIN_PROB)"
    using assms(2) max_val [of p MIN_PROB] m by (auto simp: between_def max_def)
  then show ?thesis using assms(1) by (simp add: lib_total_def)
qed

lemma one_minus_between: "between (- 1) 2 p \<Longrightarrow> between (- 1) 2 (fl_sub f32 (fl_lit f32 1) p)"
  by (rule between_sub [OF one_between, of f32 "- 1" 2 p f32 "- 1" 2]) simp_all

lemma log_likelihoods_between:
  assumes lib: "lib_total lib" and ok: "last_ok n" and ll: "log_likelihoods lib byte n = (a, b)"
  shows "between (- 256) 256 a" "between (- 256) 256 b"
proof -
  let ?ll = "\<lambda>p. lib_ln lib (fl_max p MIN_PROB)"
  have sum: "between (- 256) 256 (fl_add f32 (?ll p) (?ll q))" if "between (- 1) 2 p" "between (- 1) 2 q" for p q
    by (rule between_add [OF likelihood_between [OF lib that(1)] likelihood_between [OF lib that(2)]]) simp_all
  have single: "between (- 256) 256 (?ll p)" if "between (- 1) 2 p" for p
    by (rule between_mono [OF likelihood_between [OF lib that]]) simp_all
  show "between (- 256) 256 a" "between (- 256) 256 b"
    using ll ok one_minus_between sum single unfolding log_likelihoods_def Let_def last_ok_def
    by (auto split: if_splits)
qed

text \<open>Clipped weights are within their bound, once the step itself is a number.\<close>

lemma clip_within:
  assumes "fin x" "bound f32 (val x)"
  shows "f32_within WEIGHT_BOUND (clip_weight x)"
proof -
  let ?lo = "fl_lit f32 (- 10)" and ?hi = "fl_lit f32 10"
  have e: "fin ?lo \<and> val ?lo = - 10" "fin ?hi \<and> val ?hi = 10" by (rule fl_lit_bound; simp)+
  have "between (- 10) 10 (clip_weight x)"
    using clamp_between [OF assms(1), of ?lo ?hi] e by (simp add: clip_weight_def)
  moreover have "clip_weight x \<in> {?lo, ?hi, x}" by (auto simp: clip_weight_def fl_clamp_def Let_def)
  moreover have "bound f32 (val ?lo)" "bound f32 (val ?hi)" using e by simp_all
  ultimately show ?thesis using assms by (auto simp: f32_within_def between_def WEIGHT_BOUND_def)
qed

lemma sub_fits:
  assumes "fin x" "fin y" "fin (fl_sub f32 x y)"
  shows "bound f32 (val (fl_sub f32 x y))"
  using sub_round [OF assms(1,2), of f32] assms(3) fl_round_bound [of f32] by auto

lemma add_fits:
  assumes "fin x" "fin y" "fin (fl_add f32 x y)"
  shows "bound f32 (val (fl_add f32 x y))"
  using add_round [OF assms(1,2), of f32] assms(3) fl_round_bound [of f32] by auto

lemma clip_step_within:
  assumes "between (- 10) 10 w" "between (- 20) 20 g"
  shows "f32_within WEIGHT_BOUND (clip_weight (fl_sub f32 w g))"
proof -
  have "between (- 30) 30 (fl_sub f32 w g)" by (rule between_sub [OF assms]) simp_all
  then show ?thesis using clip_within sub_fits [OF between_fin [OF assms(1)] between_fin [OF assms(2)]] between_fin by blast
qed

lemma sgd_within:
  assumes ws: "padded_within WEIGHT_BOUND 32 ws" and hs: "padded_within HIDDEN_BOUND 32 hs" and e: "between (- 4) 4 e"
  shows "padded_within WEIGHT_BOUND 32 (sgd d e ws hs)"
proof -
  have len: "length ws = 32" and w: "\<And>i. i < 32 \<Longrightarrow> between (- 10) 10 (ws ! i)" "\<And>i. i < 32 \<Longrightarrow> f32_within WEIGHT_BOUND (ws ! i)"
    using ws within_nth [OF ws] by (simp_all add: padded_within_32 WEIGHT_BOUND_def)
  have h: "between (- 5) 5 (hs ! i)" if "i < 32" for i using within_nth [OF hs that] by (simp add: HIDDEN_BOUND_def)
  have "between (- 20) 20 (fl_mul f32 e (hs ! i))" if "i < 32" for i
    by (rule between_mul_abs [OF e h [OF that]]) simp_all
  then have "f32_within WEIGHT_BOUND (clip_weight (fl_sub f32 (ws ! i) (fl_mul f32 e (hs ! i))))" if "i < 32" for i
    using clip_step_within [OF w(1)] that by blast
  then show ?thesis using w(2) len by (auto simp: padded_within_32 sgd_def)
qed

section \<open>The standard parameters\<close>

lemma new_config: "ssm_cfg neural_new = validated default_config"
  by (simp add: neural_new_def neural_with_config_def Let_def)

text \<open>The rates of the default configuration are strictly below 1, by more than rounding can hide.\<close>

lemma dyadic_10: "\<bar>n\<bar> \<le> 2 ^ 24 \<Longrightarrow> bound f32 (of_int n / 1024)"
  using bound_dyadic [of f32 n 10] by simp

lemma default_decay: "between (1 / 2) (1023 / 1024) (cfg_mix_decay (validated default_config))"
  "cfg_decay_lo (validated default_config) = fl_lit f32 (1 / 2)"
  "cfg_decay_hi (validated default_config) = fl_lit f32 (999 / 1000)"
  "between 0 1 (cfg_lr (validated default_config))" "cfg_d (validated default_config) = 32"
proof -
  have b: "bound f32 (1 / 2)" "bound f32 (1023 / 1024)" "bound f32 (1 / 1024)"
    using dyadic_10 [of 512] dyadic_10 [of 1023] dyadic_10 [of 1] by simp_all
  have keep: "fl_clamp lo hi x = x" if "fin x" "fin lo" "fin hi" "val lo \<le> val x" "val x \<le> val hi" for lo hi x
    using that by (simp add: fl_clamp_def Let_def less_val)
  have one: "fin (fl_lit f32 1)" "val (fl_lit f32 1) = 1" using fl_lit_bound [of f32 1] by simp_all
  have half: "fin (fl_lit f32 (1 / 2))" "val (fl_lit f32 (1 / 2)) = 1 / 2" using fl_lit_bound [of f32 "1 / 2"] b by simp_all
  have z: "fin f_zero" "val f_zero = 0" using between_point [OF f_zero_between] by simp_all
  have d: "between (1 / 2) (1023 / 1024) (fl_lit f32 (995 / 1000))" by (rule between_lit [OF _ b(1,2)]) simp_all
  have h: "between (1 / 2) (1023 / 1024) (fl_lit f32 (999 / 1000))" by (rule between_lit [OF _ b(1,2)]) simp_all
  have finite: "is_finite (fl_lit f32 (995 / 1000))" "is_finite (fl_lit f32 (999 / 1000))" "is_finite (fl_lit f32 (1 / 2))"
    using between_fin [OF d] between_fin [OF h] half(1) fin_finite by blast+
  have "cfg_mix_decay (validated default_config) = fl_lit f32 (995 / 1000)"
    using keep [of "fl_lit f32 (995 / 1000)" f_zero "fl_lit f32 1"] d z one finite
    by (simp add: validated_def default_config_def Let_def finite_or_def between_def)
  then show "between (1 / 2) (1023 / 1024) (cfg_mix_decay (validated default_config))" using d by simp
  show lo: "cfg_decay_lo (validated default_config) = fl_lit f32 (1 / 2)"
    using keep [of "fl_lit f32 (1 / 2)" f_zero "fl_lit f32 1"] half z one finite
    by (simp add: validated_def default_config_def Let_def finite_or_def)
  show "cfg_decay_hi (validated default_config) = fl_lit f32 (999 / 1000)"
    using keep [of "fl_lit f32 (999 / 1000)" "fl_lit f32 (1 / 2)" "fl_lit f32 1"]
      keep [of "fl_lit f32 (1 / 2)" f_zero "fl_lit f32 1"] h half z one finite
    by (simp add: validated_def default_config_def Let_def finite_or_def between_def)
  show "between 0 1 (cfg_lr (validated default_config))" "cfg_d (validated default_config) = 32"
    using validated_ok [OF default_proper] by (simp_all add: config_ok_def validated_def default_config_def Let_def D_MAX_def)
qed

text \<open>The decay of one dimension lies between 1/2 and 1023/1024, and the input's weight is its complement.\<close>

lemma decay_rate_between:
  assumes "i < 32"
  shows "between (1 / 2) (1023 / 1024) (decay_rate (validated default_config) i)"
proof -
  have b: "bound f32 (1 / 2)" "bound f32 (1023 / 1024)" "bound f32 (511 / 1024)" "bound f32 (1022 / 1024)"
    using dyadic_10 [of 512] dyadic_10 [of 1023] dyadic_10 [of 511] dyadic_10 [of 1022] by simp_all
  have n: "between (of_nat i) (of_nat i) (fl_nat f32 i)" "between 31 31 (fl_nat f32 31)"
    using nat_f32 [of i] nat_f32 [of 31] assms by simp_all
  have "(of_nat i :: rat) \<le> of_nat 31" using assms by (simp only: of_nat_le_iff)
  then have "between 0 31 (fl_nat f32 i)" using n(1) by (simp add: between_def)
  from between_div [OF this n(2), of f32 0 1] have t: "between 0 1 (fl_div f32 (fl_nat f32 i) (fl_nat f32 31))" by simp
  have lo: "between (1 / 2) (1 / 2) (fl_lit f32 (1 / 2))" by (rule between_lit [OF _ b(1,1)]) simp_all
  have hi: "between (1 / 2) (1023 / 1024) (fl_lit f32 (999 / 1000))" by (rule between_lit [OF _ b(1,2)]) simp_all
  have df: "between 0 (511 / 1024) (fl_sub f32 (fl_lit f32 (999 / 1000)) (fl_lit f32 (1 / 2)))"
    by (rule between_sub [OF hi lo]) (use b in simp_all)
  have "between 0 (511 / 1024) (fl_mul f32 (fl_div f32 (fl_nat f32 i) (fl_nat f32 31))
      (fl_sub f32 (fl_lit f32 (999 / 1000)) (fl_lit f32 (1 / 2))))"
    by (rule between_mul [OF t df]) (use b in simp_all)
  from between_add [OF lo this, of f32 "1 / 2" "1023 / 1024"] b show ?thesis
    by (simp add: decay_rate_def Let_def default_decay)
qed

lemma det_hash_between: "between (- 1) 1 (det_hash seed)"
proof -
  define x where "x = (let x = seed + 0x9e3779b9; x = ((drop_bit 16 x) XOR x) * 0x0045d9f3;
    x = ((drop_bit 16 x) XOR x) * 0x0045d9f3 in (drop_bit 16 x) XOR x)"
  have "unat (drop_bit 9 x) = unat x div 512" by (subst unat_drop_bit_eq) (simp add: drop_bit_eq_div)
  moreover have "unat x < 2 ^ 23 * 512" using unat_bounds [of x] by simp
  ultimately have "unat (drop_bit 9 x) < 2 ^ 23" by (simp only: less_mult_imp_div_less)
  then obtain k where k: "unat (drop_bit 9 x) = k" "k \<le> 8388607" by auto
  then have "(of_nat k :: rat) \<le> of_nat 8388607" by (simp only: of_nat_le_iff)
  then have m: "between 0 8388607 (fl_nat f32 k)" using nat_f32 [of k] k(2) by (auto simp: between_def)
  have "between 4194304 4194304 (fl_lit f32 4194304)" by (rule between_lit) simp_all
  from between_div [OF m this, of f32 0 2] have "between 0 2 (fl_div f32 (fl_nat f32 k) (fl_lit f32 4194304))"
    by simp
  from between_sub [OF this one_between, of f32 f32 "- 1" 1]
  have "between (- 1) 1 (fl_sub f32 (fl_div f32 (fl_nat f32 k) (fl_lit f32 4194304)) (fl_lit f32 1))" by simp
  then show ?thesis using k(1) by (simp only: det_hash_def Let_def x_def)
qed

section \<open>The hidden state and the running averages\<close>

lemma rnd_up:
  assumes "1 / 2 ^ 20 \<le> q"
  shows "rnd f32 q \<le> q * (1 + 1 / 2 ^ 24)"
proof -
  have e: "emin f32 + int (prec f32) - 1 = - int 126" "- int (prec f32) = - int 24" by (simp_all add: f32_def)
  have "pow2 (- int 126) \<le> (1 / 2 ^ 20 :: rat)" unfolding pow2_neg_nat by simp
  then have "pow2 (emin f32 + int (prec f32) - 1) \<le> q" unfolding e using assms by linarith
  from rnd_close(1) [OF this] show ?thesis unfolding e pow2_neg_nat .
qed

lemma mul_abs_le:
  assumes x: "fin x" "\<bar>val x\<bar> \<le> a" and y: "fin y" "\<bar>val y\<bar> \<le> b" and f: "fin (fl_mul f32 x y)"
  shows "\<bar>val (fl_mul f32 x y)\<bar> \<le> rnd f32 (a * b)"
proof -
  have "\<bar>val x * val y\<bar> \<le> a * b" unfolding abs_mult by (rule mult_mono) (use x(2) y(2) in linarith)+
  then have "rnd f32 (- (a * b)) \<le> rnd f32 (val x * val y)" "rnd f32 (val x * val y) \<le> rnd f32 (a * b)"
    by (intro rnd_mono; simp add: abs_le_iff)+
  then show ?thesis by (simp add: val_mul [OF x(1) y(1) f] rnd_neg abs_le_iff)
qed

text \<open>The state is a weighted mean of itself and an embedding: rounding cannot carry it past 5.\<close>

lemma hidden_within:
  assumes a: "between (1 / 2) (1023 / 1024) a" and h: "between (- 5) 5 h" and e: "between (- 1) 1 e"
  shows "f32_within HIDDEN_BOUND (fl_add f32 (fl_mul f32 a h) (fl_mul f32 (fl_sub f32 (fl_lit f32 1) a) e))"
proof -
  let ?b = "fl_sub f32 (fl_lit f32 1) a" let ?x = "fl_mul f32 a h" let ?y = "fl_mul f32 ?b e"
  have one: "fin (fl_lit f32 1)" "val (fl_lit f32 1) = 1" using fl_lit_bound [of f32 1] by simp_all
  have a1: "between (- 1) 1 a" by (rule between_mono [OF a]) simp_all
  have x: "between (- 5) 5 ?x" by (rule between_mul_abs [OF a1 h]) simp_all
  have b: "between (- 1) 1 ?b" by (rule between_sub [OF one_between a]) simp_all
  have y: "between (- 1) 1 ?y" by (rule between_mul_abs [OF b e]) simp_all
  have vb: "val ?b = rnd f32 (1 - val a)" using val_sub [OF one(1) between_fin [OF a] between_fin [OF b]] one(2) by simp
  have "1 / 2 ^ 20 \<le> 1 - val a" using a by (auto simp: between_def)
  from rnd_up [OF this] have ub: "val ?b \<le> (1 - val a) * (1 + 1 / 2 ^ 24)" by (simp only: vb)
  have b0: "0 \<le> val ?b" using rnd_mono [of 0 "1 - val a" f32] a by (simp add: vb between_def)
  have fb: "bound f32 (val ?b)" by (rule sub_fits [OF one(1) between_fin [OF a] between_fin [OF b]])
  have "\<bar>val ?y\<bar> \<le> rnd f32 (val ?b * 1)"
    by (rule mul_abs_le) (use b e b0 between_fin [OF y] in \<open>auto simp: between_def\<close>)
  then have yb: "\<bar>val ?y\<bar> \<le> (1 - val a) * (1 + 1 / 2 ^ 24)" using rnd_bound [OF fb] ub by simp
  have "\<bar>val ?x\<bar> \<le> rnd f32 (val a * 5)"
    by (rule mul_abs_le) (use a h between_fin [OF x] in \<open>auto simp: between_def\<close>)
  also have "\<dots> \<le> val a * 5 * (1 + 1 / 2 ^ 24)" by (rule rnd_up) (use a in \<open>auto simp: between_def\<close>)
  finally have "\<bar>val ?x + val ?y\<bar> \<le> (1 + 4 * val a) * (1 + 1 / 2 ^ 24)"
    using yb abs_triangle_ineq [of "val ?x" "val ?y"] by (simp add: algebra_simps)
  also have "\<dots> \<le> (1 + 4 * (1023 / 1024)) * (1 + 1 / 2 ^ 24)" by (rule mult_right_mono) (use a in \<open>auto simp: between_def\<close>)
  also have "\<dots> \<le> 5" by simp
  finally have s: "- 5 \<le> val ?x + val ?y" "val ?x + val ?y \<le> 5" by (simp_all add: abs_le_iff)
  have "between (- 5) 5 (fl_add f32 ?x ?y)"
    using add_round [OF between_fin [OF x] between_fin [OF y], of f32] fl_round_between [of f32 "- 5" 5, OF _ _ _ s] by auto
  then show ?thesis
    using add_fits [OF between_fin [OF x] between_fin [OF y]] by (auto simp: f32_within_def between_def HIDDEN_BOUND_def)
qed

text \<open>The running averages stay finite: the decay leaves more room below the largest number than a step takes.\<close>

lemma large_bounds:
  "float_max f32 = 16777215 * 2 ^ 104" "bound f32 (float_max f32)" "bound f32 (2047 * 2 ^ 117)"
proof -
  have p: "pow2 104 = (2 ^ 104 :: rat)" "pow2 117 = (2 ^ 117 :: rat)" by (simp_all add: pow2_def)
  show m: "float_max f32 = 16777215 * 2 ^ 104" by (simp add: float_max_def f32_def p)
  have r: "rep f32 (16777215 * 2 ^ 104)" "rep f32 (2047 * 2 ^ 117)"
    using repI [of "16777215 * 2 ^ 104" 16777215 104 f32] repI [of "2047 * 2 ^ 117" 2047 117 f32] by (simp_all add: p f32_def)
  show "bound f32 (float_max f32)" "bound f32 (2047 * 2 ^ 117)"
    using r unfolding bound_def m by simp_all
qed

lemma average_fits:
  assumes d: "between (1 / 2) (1023 / 1024) d" and p: "fin p" "bound f32 (val p)" and l: "between (- 256) 256 l"
  defines "q \<equiv> fl_add f32 (fl_mul f32 d p) (fl_mul f32 (fl_sub f32 (fl_lit f32 1) d) l)"
  shows "fin q \<and> bound f32 (val q)"
proof -
  have d1: "between (- (1023 / 1024)) (1023 / 1024) d" by (rule between_mono [OF d]) simp_all
  have "between (- float_max f32) (float_max f32) p" using p by (auto simp: bound_def between_def)
  from between_mul_abs [OF d1 this _ large_bounds(3)]
  have x: "between (- (2047 * 2 ^ 117)) (2047 * 2 ^ 117) (fl_mul f32 d p)" by (simp add: large_bounds(1))
  have b: "between (- 1) 1 (fl_sub f32 (fl_lit f32 1) d)" by (rule between_sub [OF one_between d]) simp_all
  have y: "between (- 256) 256 (fl_mul f32 (fl_sub f32 (fl_lit f32 1) d) l)" by (rule between_mul_abs [OF b l]) simp_all
  have "between (- float_max f32) (float_max f32) q"
    unfolding q_def
    by (rule between_add [OF x y _ bound_uminus [OF large_bounds(2)] large_bounds(2)]) (simp_all add: large_bounds(1))
  then have "fin q" by (rule between_fin)
  then show ?thesis using add_fits [OF between_fin [OF x] between_fin [OF y]] by (simp add: q_def)
qed

section \<open>The invariant\<close>

text \<open>The parameters are those of the constructor; no operation changes them.\<close>

definition standard :: "neural \<Rightarrow> bool" where
  "standard n \<longleftrightarrow> ssm_cfg n = ssm_cfg neural_new \<and> decay_a n = decay_a neural_new \<and> a_inv n = a_inv neural_new
     \<and> ssm_embed n = ssm_embed neural_new"

lemma standard_parameters:
  assumes "standard n"
  shows "cfg_d (ssm_cfg n) = 32" "between 0 1 (cfg_lr (ssm_cfg n))" "between (1 / 2) (1023 / 1024) (cfg_mix_decay (ssm_cfg n))"
    "i < 32 \<Longrightarrow> between (1 / 2) (1023 / 1024) (decay_a n ! i)"
    "i < 32 \<Longrightarrow> a_inv n ! i = fl_sub f32 (fl_lit f32 1) (decay_a n ! i)"
    "i < 32 \<Longrightarrow> between (- 1) 1 (ssm_embed n ! unat (b :: u8) ! i)"
proof -
  note d = default_decay
  show "cfg_d (ssm_cfg n) = 32" "between 0 1 (cfg_lr (ssm_cfg n))" "between (1 / 2) (1023 / 1024) (cfg_mix_decay (ssm_cfg n))"
    using assms d by (simp_all add: standard_def new_config)
  show "between (1 / 2) (1023 / 1024) (decay_a n ! i)" "a_inv n ! i = fl_sub f32 (fl_lit f32 1) (decay_a n ! i)" if "i < 32"
    using that assms decay_rate_between [OF that]
    by (simp_all add: standard_def neural_new_def neural_with_config_def Let_def up_to_def d(5) D_MAX_def del: upt_Suc)
  show "between (- 1) 1 (ssm_embed n ! unat b ! i)" if "i < 32"
    using that assms det_hash_between unat_less_256 [of b]
    by (simp add: standard_def neural_new_def neural_with_config_def Let_def up_to_def d(5) D_MAX_def del: upt_Suc)
qed

definition neural_savable :: "neural \<Rightarrow> bool" where
  "neural_savable n \<longleftrightarrow> standard n \<and> learned_savable 32 (ssm_state n) \<and> last_ok n
     \<and> (\<forall>l raw. dict_baseline n = Some (l, raw) \<longrightarrow> learned_savable 32 l)"

lemma savable_lists: "learned_savable 32 l \<Longrightarrow> within_lists l"
  by (simp add: learned_savable_def within_lists_def)

lemma neural_new_savable_state: "neural_savable neural_new"
proof -
  have "between (- 1) 2 f_half" unfolding f_half_def by (rule between_lit) simp_all
  then show ?thesis
    using neural_new_savable by (simp add: neural_savable_def standard_def last_ok_def)
      (simp add: neural_new_def neural_with_config_def Let_def)
qed

lemma prepared_savable:
  assumes lib: "lib_total lib" and n: "neural_savable n"
  shows "neural_savable (prepared lib n)"
proof -
  have s: "learned_savable 32 (ssm_state n)" and d: "cfg_d (ssm_cfg n) \<le> 32"
    using n standard_parameters(1) [of n] by (simp_all add: neural_savable_def)
  have "rle_inv (ssm_rle (ssm_state n))" using s by (simp add: learned_savable_def learned_inv_def)
  from prepared_last [OF lib savable_lists [OF s] d this] have "last_ok (prepared lib n)" .
  moreover have "standard (prepared lib n) = standard n"
    by (simp add: standard_def prepared_def prepare_step_params_def Let_def split: prod.split)
  ultimately show ?thesis using n by (simp add: neural_savable_def prepare_keeps)
qed

lemma sgd_update_savable:
  assumes lib: "lib_total lib" and n: "neural_savable n"
  shows "learned_savable 32 (sgd_update lib byte n)"
proof -
  let ?l = "ssm_state n" and ?one = "fl_lit f32 1"
  have l: "learned_savable 32 ?l" and ok: "last_ok n" and st: "standard n" using n by (simp_all add: neural_savable_def)
  note p = standard_parameters [OF st] and k = l [unfolded learned_savable_def]
  obtain a b where ll: "log_likelihoods lib byte n = (a, b)" by fastforce
  note ab = log_likelihoods_between [OF lib ok ll]
  have y: "between (- 1) 1 ?one" "between (- 1) 1 f_zero"
    using between_mono [OF one_between [of f32], of "- 1" 1] between_mono [OF f_zero_between, of "- 1" 1] by simp_all
  have lr: "between (- 1) 1 (cfg_lr (ssm_cfg n))" by (rule between_mono [OF p(2)]) simp_all
  have step: "between (- 4) 4 (fl_mul f32 (cfg_lr (ssm_cfg n)) (fl_sub f32 q t))" if "between (- 1) 2 q" "between (- 1) 1 t" for q t
  proof -
    have "between (- 3) 3 (fl_sub f32 q t)" by (rule between_sub [OF that]) simp_all
    from between_mul_abs [OF lr this, of f32 4] show ?thesis by simp
  qed
  have q: "between (- 1) 2 (last_ssm_p_run n)" "between (- 1) 2 (last_ssm_p_runa n)" using ok by (simp_all add: last_ok_def)
  have w: "between (- 10) 10 (b_run ?l)" "between (- 10) 10 (b_runa ?l)"
    using k within_between by (fastforce simp: WEIGHT_BOUND_def)+
  have bias: "f32_within WEIGHT_BOUND (clip_weight (fl_sub f32 v e))" if "between (- 10) 10 v" "between (- 4) 4 e" for v e
    by (rule clip_step_within [OF that(1) between_mono [OF that(2)]]) simp_all
  have perf: "fin (fl_add f32 (fl_mul f32 (cfg_mix_decay (ssm_cfg n)) v) (fl_mul f32 (fl_sub f32 ?one (cfg_mix_decay (ssm_cfg n))) u))
      \<and> bound f32 (val (fl_add f32 (fl_mul f32 (cfg_mix_decay (ssm_cfg n)) v) (fl_mul f32 (fl_sub f32 ?one (cfg_mix_decay (ssm_cfg n))) u)))"
    if "fin v" "bound f32 (val v)" "between (- 256) 256 u" for v u
    by (rule average_fits [OF p(3) that])
  have rle: "rle_savable (rle_update byte (ssm_rle ?l))" using k rle_update_savable by blast
  then have inv: "rle_inv (rle_update byte (ssm_rle ?l))" by (simp add: rle_savable_def)
  have hs: "padded_within HIDDEN_BOUND 32 (ssm_h ?l)" "padded_within WEIGHT_BOUND 32 (w_run ?l)" "padded_within WEIGHT_BOUND 32 (w_runa ?l)"
    using k by blast+
  show ?thesis
    using k rle inv y q step bias w ab perf sgd_within [OF hs(2,1)] sgd_within [OF hs(3,1)]
    by (simp add: learned_savable_def learned_inv_def sgd_update_def ll p(1) Let_def)
qed

lemma o2_update_savable: "learned_savable 32 l \<Longrightarrow> learned_savable 32 (o2_update b l)"
  using o2_update_inv [of l b] o2_update_counts [of l b] unfolding learned_savable_def
  by (auto simp: o2_update_def Let_def)

lemma state_update_savable:
  assumes st: "standard n" and l: "learned_savable 32 l"
  shows "learned_savable 32 (state_update n b l)"
proof -
  note p = standard_parameters [OF st]
  have h: "padded_within HIDDEN_BOUND 32 (ssm_h l)" and len: "length (ssm_h l) = 32"
    using l by (simp_all add: learned_savable_def padded_within_32)
  have "between (- 5) 5 (ssm_h l ! i)" if "i < 32" for i using within_nth [OF h that] by (simp add: HIDDEN_BOUND_def)
  then have "f32_within HIDDEN_BOUND (fl_add f32 (fl_mul f32 (decay_a n ! i) (ssm_h l ! i))
      (fl_mul f32 (a_inv n ! i) (ssm_embed n ! unat b ! i)))" if "i < 32" for i
    using hidden_within [OF p(4) _ p(6)] that p(5) by simp
  then have "padded_within HIDDEN_BOUND 32 (ssm_h (state_update n b l))"
    by (auto simp: padded_within_32 state_update_def Let_def len p(1))
  then show ?thesis using l by (simp add: learned_savable_def learned_inv_def state_update_def Let_def)
qed

lemma update_savable:
  assumes lib: "lib_total lib" and n: "neural_savable n"
  shows "neural_savable (neural_update lib b n)"
proof -
  have st: "standard n" using n by (simp add: neural_savable_def)
  have "learned_savable 32 (ssm_state (neural_update lib b n))"
    unfolding neural_update_def using state_update_savable [OF st o2_update_savable [OF sgd_update_savable [OF lib n]]] by simp
  then show ?thesis using n by (simp add: neural_savable_def neural_update_def standard_def last_ok_def)
qed

lemma reset_savable: "neural_savable n \<Longrightarrow> neural_savable (neural_reset n)"
proof -
  assume n: "neural_savable n"
  have "learned_savable 32 learned_new"
    using neural_new_savable by (simp add: neural_new_def neural_with_config_def Let_def)
  moreover have "between (- 1) 2 f_half" unfolding f_half_def by (rule between_lit) simp_all
  ultimately show ?thesis
    using n by (auto simp: neural_savable_def neural_reset_def standard_def last_ok_def split: option.split prod.split)
qed

text \<open>Loading any bytes, accepted or not.\<close>

lemma load_savable:
  assumes n: "neural_savable n" and l: "neural_load_state data n = (ok, n')"
  shows "neural_savable n'"
proof -
  have d: "cfg_d (ssm_cfg n) = 32" and own: "rle_savable (ssm_rle (ssm_state n))" and s: "learned_savable 32 (ssm_state n)"
    using n standard_parameters(1) [of n] by (auto simp: neural_savable_def learned_savable_def)
  have own_inv: "rle_inv (ssm_rle (ssm_state n))" using own by (simp add: rle_savable_def)
  have r: "rle_savable r" if "rle_load_state xs (ssm_rle (ssm_state n)) = (ok', r)" for ok' r xs
    using that rle_load_inv [of xs "ssm_rle (ssm_state n)"] rle_load_rejected [of xs "ssm_rle (ssm_state n)"] own
    by (cases ok') auto
  have put: "neural_savable (n\<lparr>ssm_state := m\<rparr>)" if "learned_savable 32 m" for m
    using n that by (simp add: neural_savable_def standard_def last_ok_def)
  have inner: "learned_savable 32 ((ssm_state n)\<lparr>ssm_rle := q\<rparr>)" if "rle_savable q" for q
    using s that by (simp add: learned_savable_def learned_inv_def rle_savable_def)
  have whole: "learned_savable 32 (m\<lparr>ssm_rle := q\<rparr>)"
    if "parse_learned 32 (ssm_rle (ssm_state n)) data = Some (m, k, rest)" "rle_savable q" for m k rest q
    by (rule parse_learned_savable [OF that own_inv])
  show ?thesis
    using l n d own put inner whole
    by (auto simp: neural_load_state_def Let_def split: if_splits option.splits prod.splits dest: r)
qed

lemma baseline_savable:
  assumes n: "neural_savable n" and b: "set_dict_baseline data n = (ok, n')"
  shows "neural_savable n'"
proof -
  obtain ok1 n1 where l: "neural_load_state data n = (ok1, n1)" by fastforce
  have "neural_savable n1" by (rule load_savable [OF n l])
  then show ?thesis
    using b l by (auto simp: set_dict_baseline_def neural_savable_def standard_def last_ok_def split: if_splits)
qed

section \<open>Reachable predictors\<close>

text \<open>
  The predictors the program can have: from the constructor, by predicting and coding bytes, learning
  them, resetting, loading any bytes as a state and installing any bytes as a dictionary.
\<close>

inductive neural_reachable :: "math_lib \<Rightarrow> neural \<Rightarrow> bool" for lib where
  reach_new: "neural_reachable lib neural_new"
| reach_predict: "neural_reachable lib n \<Longrightarrow> neural_predict lib n = (ps, n') \<Longrightarrow> neural_reachable lib n'"
| reach_predict_cdf: "neural_reachable lib n \<Longrightarrow> neural_predict_cdf lib n = (cdf, n') \<Longrightarrow> neural_reachable lib n'"
| reach_query: "neural_reachable lib n \<Longrightarrow> neural_query_cdf lib byte n = (q, n') \<Longrightarrow> neural_reachable lib n'"
| reach_decode: "neural_reachable lib n \<Longrightarrow> neural_decode_symbol lib freq n = (r, n') \<Longrightarrow> neural_reachable lib n'"
| reach_update: "neural_reachable lib n \<Longrightarrow> neural_reachable lib (neural_update lib byte n)"
| reach_reset: "neural_reachable lib n \<Longrightarrow> neural_reachable lib (neural_reset n)"
| reach_load: "neural_reachable lib n \<Longrightarrow> neural_load_state data n = (ok, n') \<Longrightarrow> neural_reachable lib n'"
| reach_baseline: "neural_reachable lib n \<Longrightarrow> set_dict_baseline data n = (ok, n') \<Longrightarrow> neural_reachable lib n'"

lemma prediction_states:
  "neural_predict lib n = (ps, n') \<Longrightarrow> n' = prepared lib n"
  "neural_predict_cdf lib n = (cdf, n') \<Longrightarrow> n' = prepared lib n"
  "neural_query_cdf lib byte n = (q, n') \<Longrightarrow> n' = prepared lib n"
  "neural_decode_symbol lib freq n = (r, n') \<Longrightarrow> n' = prepared lib n"
  by (auto simp: neural_predict_def neural_predict_cdf_def neural_query_cdf_def neural_decode_symbol_def
      prepare_params Let_def split: prod.splits)

lemma reachable_savable:
  assumes "neural_reachable lib n" "lib_total lib"
  shows "neural_savable n"
  using assms
proof (induction rule: neural_reachable.induct)
  case reach_new
  show ?case by (rule neural_new_savable_state)
qed (blast dest: prediction_states load_savable baseline_savable intro: prepared_savable update_savable reset_savable)+

theorem reachable_round_trip:
  assumes "neural_reachable lib n" "neural_reachable lib n0" "lib_total lib"
  shows "neural_load_state (neural_save_state n) n0 = (True, n0\<lparr>ssm_state := ssm_state n\<rparr>)"
  using reachable_savable [OF assms(1,3)] reachable_savable [OF assms(2,3)] standard_parameters(1)
  by (intro neural_load_save [where d = 32]) (auto simp: neural_savable_def D_MAX_def)

theorem reachable_load_trailing:
  assumes "neural_reachable lib n" "neural_reachable lib n0" "lib_total lib"
  shows "neural_load_state (neural_save_state n @ [b]) n0
    = (False, n0\<lparr>ssm_state := (ssm_state n0)\<lparr>ssm_rle := ssm_rle (ssm_state n)\<rparr>\<rparr>)"
  using reachable_savable [OF assms(1,3)] reachable_savable [OF assms(2,3)] standard_parameters(1)
  by (intro neural_load_trailing [where d = 32]) (auto simp: neural_savable_def D_MAX_def)

end
