(* ===== verification/DefaultCoder.thy ===== *)
theory DefaultCoder
  imports CdfTable
begin

text \<open>
  The default methods of \<^verbatim>\<open>ProbabilityPredictor\<close> (\<^verbatim>\<open>entropy/traits.rs\<close>)
  over a predictor that only has \<^verbatim>\<open>predict\<close>: its 256 numbers become a table by
  \<^verbatim>\<open>probs_to_cdf\<close>. Whatever numbers a predictor returns, the coder over it is lawful;
  the locale \<^verbatim>\<open>probs_predictor\<close> is what such a predictor has to keep.
\<close>

section \<open>The default methods\<close>

definition default_predict_cdf :: "index_sort \<Rightarrow> ('s \<Rightarrow> float_value list \<times> 's) \<Rightarrow> 's \<Rightarrow> u16 list \<times> 's" where
  "default_predict_cdf sort_unstable_by predict state =
     (let (probs, state) = predict state in (probs_to_cdf sort_unstable_by probs, state))"

definition probs_coder ::
    "index_sort \<Rightarrow> ('s \<Rightarrow> float_value list \<times> 's) \<Rightarrow> (u8 \<Rightarrow> 's \<Rightarrow> 's) \<Rightarrow> ('s \<Rightarrow> 's) \<Rightarrow> 's predictor" where
  "probs_coder sort_unstable_by predict update reset =
     default_predictor (default_predict_cdf sort_unstable_by predict) update reset"

definition probs_cdf :: "index_sort \<Rightarrow> ('s \<Rightarrow> float_value list \<times> 's) \<Rightarrow> 's \<Rightarrow> u16 list" where
  "probs_cdf sort_unstable_by predict state = probs_to_cdf sort_unstable_by (fst (predict state))"

text \<open>A standard sort, insertion into a sorted list, as the instance of the parameter.\<close>

fun insert_by :: "(nat \<Rightarrow> nat \<Rightarrow> ordering) \<Rightarrow> nat \<Rightarrow> nat list \<Rightarrow> nat list" where
  "insert_by cmp x [] = [x]"
| "insert_by cmp x (y # ys) = (if cmp x y = Greater then y # insert_by cmp x ys else x # y # ys)"

definition insertion_sort :: index_sort where
  "insertion_sort cmp xs = foldr (insert_by cmp) xs []"

lemma mset_insert_by [simp]: "mset (insert_by cmp x ys) = add_mset x (mset ys)"
  by (induction ys) simp_all

lemma insertion_sort_ok: "sort_ok insertion_sort"
proof -
  have "mset (foldr (insert_by cmp) xs []) = mset xs" for cmp xs by (induction xs) simp_all
  then show ?thesis by (simp add: sort_ok_def insertion_sort_def)
qed

section \<open>Results of operations are numbers of the format\<close>

lemma is_f32_simps [simp]: "is_f32 NaN" "is_f32 (Inf s)" "is_f32 (Num s 0)"
  by (simp_all add: is_f32_def val_Num)

lemma is_f32_round [simp]: "is_f32 (fl_round f32 s q)"
  using fl_round_bound [of f32 s q] round_mag_nonneg [of f32 "\<bar>q\<bar>"]
  by (auto simp: is_f32_def fl_round_def Let_def split: if_splits)

lemma is_f32_ops [simp]:
  "is_f32 (fl_lit f32 q)" "is_f32 (fl_nat f32 n)" "is_f32 (fl_add f32 x y)" "is_f32 (fl_sub f32 x y)"
  "is_f32 (fl_mul f32 x y)" "is_f32 (fl_div f32 x y)" "is_f32 (fl_cast f32 x)"
proof -
  have add: "is_f32 (fl_add f32 x y)" for x y by (cases x; cases y) simp_all
  then show "is_f32 (fl_add f32 x y)" "is_f32 (fl_sub f32 x y)" by (simp_all add: fl_sub_def)
  show "is_f32 (fl_mul f32 x y)" "is_f32 (fl_div f32 x y)" by (cases x; cases y; simp)+
  show "is_f32 (fl_cast f32 x)" by (cases x) simp_all
qed (simp_all add: fl_lit_def fl_nat_def)

section \<open>Lawful predictors from numbers\<close>

locale probs_predictor =
  fixes sort_unstable_by :: index_sort and predict :: "'s \<Rightarrow> float_value list \<times> 's"
    and update :: "u8 \<Rightarrow> 's \<Rightarrow> 's" and reset :: "'s \<Rightarrow> 's" and good :: "'s \<Rightarrow> bool"
  assumes sorts: "sort_ok sort_unstable_by"
    and probs_ok: "good s \<Longrightarrow> length (fst (predict s)) = 256 \<and> (\<forall>p \<in> set (fst (predict s)). is_f32 p)"
    and predict_good: "good s \<Longrightarrow> good (snd (predict s))"
    and update_good: "good s \<Longrightarrow> good (update b s)"
    and reset_good: "good s \<Longrightarrow> good (reset s)"

sublocale probs_predictor \<subseteq>
  table: cdf_predictor "default_predict_cdf sort_unstable_by predict" update reset good "probs_cdf sort_unstable_by predict"
proof
  fix s assume g: "good s"
  show "good (reset s)" by (rule reset_good [OF g])
  show "cdf_table (probs_cdf sort_unstable_by predict s)"
    unfolding probs_cdf_def using probs_ok [OF g] by (intro probs_to_cdf_table [OF sorts]) simp_all
  show "fst (default_predict_cdf sort_unstable_by predict s) = probs_cdf sort_unstable_by predict s"
    by (simp add: default_predict_cdf_def probs_cdf_def case_prod_beta)
  show "good (update b (snd (default_predict_cdf sort_unstable_by predict s)))" for b
    using update_good [OF predict_good [OF g], of b] by (simp add: default_predict_cdf_def probs_cdf_def case_prod_beta)
qed

section \<open>Tables of counts\<close>

text \<open>Raising a saturating 16-bit count, and halving the counts of a row; no count falls below one.\<close>

definition sat_add :: "nat \<Rightarrow> nat" where "sat_add c = min (c + 1) 65535"

definition halve_row :: "nat list \<Rightarrow> nat list" where "halve_row row = map (\<lambda>c. max (c div 2) 1) row"

definition bump_row :: "nat \<Rightarrow> nat \<Rightarrow> nat list \<Rightarrow> nat list" where
  "bump_row limit b row = (let row = row[b := sat_add (row ! b)] in if limit \<le> row ! b then halve_row row else row)"

text \<open>A row of counts is below its limit, so its total fits 32 bits.\<close>

definition row_ok :: "nat \<Rightarrow> nat list \<Rightarrow> bool" where
  "row_ok limit row \<longleftrightarrow> length row = 256 \<and> (\<forall>c \<in> set row. 1 \<le> c \<and> c < limit)"

lemma row_ok_ones [simp]: "1 < limit \<Longrightarrow> row_ok limit (replicate 256 1)" by (simp add: row_ok_def)

lemma bump_row_ok:
  assumes "row_ok limit row" "b < 256" "2 < limit" "limit < 65536"
  shows "row_ok limit (bump_row limit b row)"
proof -
  have row: "length row = 256" "\<And>c. c \<in> set row \<Longrightarrow> 1 \<le> c \<and> c < limit" using assms(1) by (simp_all add: row_ok_def)
  have b: "row ! b \<in> set row" using assms(2) row(1) by simp
  let ?r = "row[b := sat_add (row ! b)]"
  have sat: "sat_add (row ! b) = row ! b + 1" "row ! b + 1 \<le> limit"
    using row(2) [OF b] assms(4) by (simp_all add: sat_add_def)
  have r: "1 \<le> c \<and> c \<le> limit \<and> (c = limit \<longrightarrow> c = ?r ! b)" if "c \<in> set ?r" for c
    using set_update_subset_insert [of row b "sat_add (row ! b)"] that row(2) sat row(1) assms(2) by fastforce
  show ?thesis
  proof (cases "limit \<le> ?r ! b")
    case True
    have "1 \<le> max (c div 2) 1 \<and> max (c div 2) 1 < limit" if "c \<in> set ?r" for c using r [OF that] assms(3) by auto
    then show ?thesis using True row(1) by (auto simp: bump_row_def row_ok_def halve_row_def Let_def)
  next
    case False
    then have "1 \<le> c \<and> c < limit" if "c \<in> set ?r" for c using r [OF that] by auto
    then show ?thesis using False row(1) by (simp add: bump_row_def row_ok_def Let_def)
  qed
qed

lemma row_total: "row_ok limit row \<Longrightarrow> 256 \<le> sum_list row \<and> sum_list row \<le> limit * 256"
  using sum_list_bounds [of row 1 limit] by (auto simp: row_ok_def order.strict_implies_order)

text \<open>The Fowler-Noll-Vo hash of the last bytes, and the entry it selects.\<close>

definition hash_context :: "bytes \<Rightarrow> u64" where
  "hash_context data = foldl (\<lambda>h b. (h XOR ucast b) * 0x100000001b3) 0xcbf29ce484222325 data"

lemma hash_index: "unat (hash_context ctx AND mask n) < 2 ^ n"
proof -
  have "unat (hash_context ctx AND mask n) = unat (hash_context ctx) mod 2 ^ n"
    by (simp only: take_bit_eq_mask [symmetric] unsigned_take_bit_eq) (simp only: take_bit_eq_mod)
  then show ?thesis by simp
qed

end
