(* ===== verification/MtfPredictor.thy ===== *)
theory MtfPredictor
  imports DefaultCoder
begin

text \<open>
  The predictor for the output of the Burrows-Wheeler and move-to-front transforms,
  \<^verbatim>\<open>entropy/mtf_predictor.rs\<close>: a row of counts per length of the current run of
  zeros, one per preceding byte, and one for the first byte. Every row keeps the sum of its counts,
  and both stay within their limits for ever.
\<close>

section \<open>The state\<close>

definition ORDER1_SIZE :: nat where "ORDER1_SIZE = 256"
definition RUN_BUCKETS :: nat where "RUN_BUCKETS = 11"
definition RESCALE_THRESHOLD :: nat where "RESCALE_THRESHOLD = 16000"
definition TOTAL_RESCALE_THRESHOLD :: nat where "TOTAL_RESCALE_THRESHOLD = 1000000"
definition MTF_ALPHA :: float_value where "MTF_ALPHA = fl_lit f32 (1 / 10)"
definition ALPHA_TOTAL :: float_value where "ALPHA_TOTAL = fl_mul f32 (fl_lit f32 256) MTF_ALPHA"

definition run_bucket :: "nat \<Rightarrow> nat" where
  "run_bucket run_len =
     (if run_len \<le> 6 then run_len else if run_len \<le> 15 then 7 else if run_len \<le> 31 then 8
      else if run_len \<le> 63 then 9 else 10)"

record mtf_predictor =
  run_ctx :: "nat list list"
  run_ctx_totals :: "nat list"
  order1 :: "nat list list"
  order1_totals :: "nat list"
  mtf_order0 :: "nat list"
  mtf_order0_total :: nat
  mtf_run_len :: nat
  mtf_prev :: u8
  has_context :: bool

definition mtf_predictor_new :: mtf_predictor where
  "mtf_predictor_new =
     \<lparr>run_ctx = replicate RUN_BUCKETS (replicate 256 0), run_ctx_totals = replicate RUN_BUCKETS 0,
      order1 = replicate ORDER1_SIZE (replicate 256 0), order1_totals = replicate ORDER1_SIZE 0,
      mtf_order0 = replicate 256 0, mtf_order0_total = 0, mtf_run_len = 0, mtf_prev = 0, has_context = False\<rparr>"

section \<open>Operations\<close>

definition predict_from :: "nat list \<Rightarrow> nat \<Rightarrow> float_value list" where
  "predict_from entry total_count =
     (let denom = fl_add f32 (fl_nat f32 total_count) ALPHA_TOTAL
      in map (\<lambda>i. fl_div f32 (fl_add f32 (fl_nat f32 (entry ! i)) MTF_ALPHA) denom) [0..<256])"

definition mtf_predict :: "mtf_predictor \<Rightarrow> float_value list \<times> mtf_predictor" where
  "mtf_predict m =
     (if \<not> has_context m then predict_from (mtf_order0 m) (mtf_order0_total m)
      else if mtf_prev m = 0 then
        let bucket = run_bucket (mtf_run_len m) in predict_from (run_ctx m ! bucket) (run_ctx_totals m ! bucket)
      else
        let ctx = unat (mtf_prev m) in predict_from (order1 m ! ctx) (order1_totals m ! ctx), m)"

text \<open>Counting a byte in a row and its total; the row is halved when either reaches its threshold.\<close>

definition count_byte :: "nat \<Rightarrow> nat list \<Rightarrow> nat \<Rightarrow> nat list \<times> nat" where
  "count_byte b entry total_count =
     (let entry = entry[b := sat_add (entry ! b)]; total_count = total_count + 1
      in if entry ! b \<ge> RESCALE_THRESHOLD \<or> total_count \<ge> TOTAL_RESCALE_THRESHOLD
         then let entry = map (\<lambda>c. c div 2) entry in (entry, sum_list entry)
         else (entry, total_count))"

definition mtf_update :: "u8 \<Rightarrow> mtf_predictor \<Rightarrow> mtf_predictor" where
  "mtf_update byte m =
     (let b = unat byte;
          m = (if \<not> has_context m then m
               else if mtf_prev m = 0 then
                 let bucket = run_bucket (mtf_run_len m);
                     (entry, t) = count_byte b (run_ctx m ! bucket) (run_ctx_totals m ! bucket)
                 in m\<lparr>run_ctx := (run_ctx m)[bucket := entry], run_ctx_totals := (run_ctx_totals m)[bucket := t]\<rparr>
               else
                 let ctx = unat (mtf_prev m);
                     (entry, t) = count_byte b (order1 m ! ctx) (order1_totals m ! ctx)
                 in m\<lparr>order1 := (order1 m)[ctx := entry], order1_totals := (order1_totals m)[ctx := t]\<rparr>);
          (entry, t) = count_byte b (mtf_order0 m) (mtf_order0_total m)
      in m\<lparr>mtf_order0 := entry, mtf_order0_total := t,
           mtf_run_len := (if byte = 0 then min (mtf_run_len m + 1) (2 ^ 32 - 1) else 0),
           mtf_prev := byte, has_context := True\<rparr>)"

definition mtf_reset :: "mtf_predictor \<Rightarrow> mtf_predictor" where
  "mtf_reset m = mtf_predictor_new"

section \<open>The invariant\<close>

definition counted_row :: "nat list \<Rightarrow> nat \<Rightarrow> bool" where
  "counted_row entry total_count \<longleftrightarrow> length entry = 256 \<and> total_count = sum_list entry
     \<and> (\<forall>c \<in> set entry. c < RESCALE_THRESHOLD) \<and> total_count < TOTAL_RESCALE_THRESHOLD"

definition counted_rows :: "nat \<Rightarrow> nat list list \<Rightarrow> nat list \<Rightarrow> bool" where
  "counted_rows n rows totals \<longleftrightarrow> length rows = n \<and> length totals = n \<and> (\<forall>i < n. counted_row (rows ! i) (totals ! i))"

definition mtf_inv :: "mtf_predictor \<Rightarrow> bool" where
  "mtf_inv m \<longleftrightarrow> counted_rows RUN_BUCKETS (run_ctx m) (run_ctx_totals m) \<and> counted_rows ORDER1_SIZE (order1 m) (order1_totals m)
     \<and> counted_row (mtf_order0 m) (mtf_order0_total m) \<and> mtf_run_len m < 2 ^ 32"

lemma run_bucket_less: "run_bucket n < RUN_BUCKETS" by (simp add: run_bucket_def RUN_BUCKETS_def)

lemma prev_less: "unat (b :: u8) < ORDER1_SIZE" using unat_less_256 [of b] by (simp add: ORDER1_SIZE_def)

lemma sum_halves: "sum_list (map (\<lambda>c :: nat. c div 2) xs) * 2 \<le> sum_list xs"
  by (induction xs) simp_all

lemma count_byte_ok:
  assumes "counted_row entry t" "b < 256" "count_byte b entry t = (entry', t')"
  shows "counted_row entry' t'"
proof -
  have e: "length entry = 256" "t = sum_list entry" "\<And>c. c \<in> set entry \<Longrightarrow> c < 16000" "t < 1000000"
    using assms(1) by (simp_all add: counted_row_def RESCALE_THRESHOLD_def TOTAL_RESCALE_THRESHOLD_def)
  have old: "entry ! b \<in> set entry" using e(1) assms(2) by simp
  have sat: "sat_add (entry ! b) = entry ! b + 1" using e(3) [OF old] by (simp add: sat_add_def)
  let ?e = "entry[b := entry ! b + 1]"
  have le: "c \<le> 16000 \<and> (c = 16000 \<longrightarrow> ?e ! b = 16000)" if "c \<in> set ?e" for c
    using set_update_subset_insert [of entry b "entry ! b + 1"] that e(1,3) e(3) [OF old] assms(2) by fastforce
  have sum: "sum_list ?e = t + 1"
    using sum_list_update_nat [of b entry "entry ! b + 1"] member_le_sum_list [OF old] e(1,2) assms(2) by simp
  show ?thesis
  proof (cases "?e ! b \<ge> RESCALE_THRESHOLD \<or> t + 1 \<ge> TOTAL_RESCALE_THRESHOLD")
    case True
    then have r: "entry' = map (\<lambda>c. c div 2) ?e" "t' = sum_list entry'"
      using assms(3) by (auto simp: count_byte_def sat Let_def)
    have "c div 2 < 16000" if "c \<in> set ?e" for c using le [OF that] by linarith
    moreover have "t' * 2 \<le> t + 1" using sum_halves [of ?e] sum by (simp add: r)
    ultimately show ?thesis
      using r e(1,4) by (auto simp: counted_row_def RESCALE_THRESHOLD_def TOTAL_RESCALE_THRESHOLD_def)
  next
    case False
    then have r: "entry' = ?e" "t' = t + 1" using assms(3) by (simp_all add: count_byte_def sat Let_def)
    have "c < 16000" if "c \<in> set ?e" for c using le [OF that] False by (auto simp: RESCALE_THRESHOLD_def)
    then show ?thesis
      using r e(1) sum False by (simp add: counted_row_def RESCALE_THRESHOLD_def TOTAL_RESCALE_THRESHOLD_def)
  qed
qed

lemma counted_zero_row: "counted_row (replicate 256 0) 0"
  by (simp add: counted_row_def sum_list_replicate RESCALE_THRESHOLD_def TOTAL_RESCALE_THRESHOLD_def)

lemma mtf_new_inv: "mtf_inv mtf_predictor_new"
  by (simp add: mtf_inv_def mtf_predictor_new_def counted_rows_def counted_zero_row)

lemma counted_rows_update:
  assumes "counted_rows n rows totals" "i < n" "b < 256" "count_byte b (rows ! i) (totals ! i) = (entry, t)"
  shows "counted_rows n (rows[i := entry]) (totals[i := t])"
  using assms count_byte_ok [OF _ assms(3,4)] by (auto simp: counted_rows_def nth_list_update)

lemma mtf_update_inv:
  assumes "mtf_inv m"
  shows "mtf_inv (mtf_update byte m)"
proof -
  have b: "unat byte < 256" by (rule unat_less_256)
  have i: "counted_rows RUN_BUCKETS (run_ctx m) (run_ctx_totals m)" "counted_rows ORDER1_SIZE (order1 m) (order1_totals m)"
    "counted_row (mtf_order0 m) (mtf_order0_total m)"
    using assms by (simp_all add: mtf_inv_def)
  show ?thesis
    using i counted_rows_update [OF i(1) run_bucket_less b] counted_rows_update [OF i(2) prev_less b] count_byte_ok [OF i(3) b]
    by (auto simp: mtf_inv_def mtf_update_def Let_def split: prod.splits)
qed

lemma predict_from_ok: "length (predict_from e t) = 256 \<and> (\<forall>p \<in> set (predict_from e t). is_f32 p)"
  by (auto simp: predict_from_def Let_def)

lemma mtf_predict_ok: "length (fst (mtf_predict m)) = 256 \<and> (\<forall>p \<in> set (fst (mtf_predict m)). is_f32 p)"
  using predict_from_ok by (simp add: mtf_predict_def Let_def)

lemma mtf_predict_state: "snd (mtf_predict m) = m" by (simp add: mtf_predict_def)

interpretation mtf_coder: probs_predictor insertion_sort mtf_predict mtf_update mtf_reset mtf_inv
  by unfold_locales (simp_all add: insertion_sort_ok mtf_predict_ok mtf_predict_state mtf_update_inv mtf_reset_def mtf_new_inv)

end
