(* ===== verification/Lz4Aware.thy ===== *)
theory Lz4Aware
  imports DefaultCoder
begin

text \<open>
  The predictor for LZ4 streams, \<^verbatim>\<open>entropy/lz4_aware.rs\<close>: a state machine follows the
  token format and selects a model for each position; literal bytes mix three hashed contexts of
  preceding literals. The invariant bounds every count and total, keeps the parser within its
  states, and makes every table lookup a lookup inside its table.
\<close>

section \<open>Parser states\<close>

datatype parse_state =
    SizePrefix nat | Token | LitLenExt | Literals nat | MatchOffsetLow | MatchOffsetHigh | MatchLenExt

section \<open>Frequency models\<close>

record freq_model =
  fm_counts :: "nat list"
  fm_total :: nat

definition freq_new :: freq_model where "freq_new = \<lparr>fm_counts = replicate 256 1, fm_total = 256\<rparr>"

definition scaled :: "nat list \<Rightarrow> nat \<Rightarrow> float_value list" where
  "scaled counts total_count =
     (let inv = fl_div f32 (fl_lit f32 1) (fl_nat f32 total_count)
      in map (\<lambda>i. fl_mul f32 (fl_nat f32 (counts ! i)) inv) [0..<256])"

definition freq_predict :: "freq_model \<Rightarrow> float_value list" where
  "freq_predict m = scaled (fm_counts m) (fm_total m)"

definition freq_rescale :: "freq_model \<Rightarrow> freq_model" where
  "freq_rescale m = (let counts = halve_row (fm_counts m) in \<lparr>fm_counts = counts, fm_total = sum_list counts\<rparr>)"

definition freq_update :: "nat \<Rightarrow> freq_model \<Rightarrow> freq_model" where
  "freq_update b m =
     (let m = \<lparr>fm_counts = (fm_counts m)[b := fm_counts m ! b + 1], fm_total = fm_total m + 1\<rparr>
      in if fm_total m > 500000 then freq_rescale m else m)"

definition freq_reset :: "freq_model \<Rightarrow> freq_model" where "freq_reset m = freq_new"

section \<open>Mixing the literal models\<close>

definition LIT_ORDER1_BITS :: nat where "LIT_ORDER1_BITS = 14"
definition LIT_ORDER2_BITS :: nat where "LIT_ORDER2_BITS = 14"
definition LIT_ORDER3_BITS :: nat where "LIT_ORDER3_BITS = 13"
definition TOKEN_TABLE_SIZE :: nat where "TOKEN_TABLE_SIZE = 256"
definition HASH_TABLE_RESCALE :: nat where "HASH_TABLE_RESCALE = 8000"
definition LIT_CONTEXT_LEN :: nat where "LIT_CONTEXT_LEN = 4"
definition MAX_LIT_LEN :: nat where "MAX_LIT_LEN = 256 * 1024 * 1024"

definition mixer_new :: "float_value list" where
  "mixer_new = [fl_lit f64 1, fl_lit f64 3, fl_lit f64 6]"

fun mix_accumulate :: "float_value list \<Rightarrow> float_value list option list \<Rightarrow> float_value list \<times> float_value
    \<Rightarrow> float_value list \<times> float_value" where
  "mix_accumulate (w # ws) (Some p # ps) (result, w_sum) =
     mix_accumulate ws ps
       (map (\<lambda>j. fl_add f32 (result ! j) (fl_mul f32 (fl_cast f32 w) (p ! j))) [0..<256], fl_add f64 w_sum w)"
| "mix_accumulate (w # ws) (None # ps) acc = mix_accumulate ws ps acc"
| "mix_accumulate _ _ acc = acc"

definition mixer_mix :: "float_value list \<Rightarrow> float_value list option list \<Rightarrow> float_value list" where
  "mixer_mix weights preds =
     (let (result, w_sum) = mix_accumulate weights preds (replicate 256 (Num False 0), Num False 0)
      in if fl_less (Num False 0) w_sum
         then let inv = fl_div f32 (fl_lit f32 1) (fl_cast f32 w_sum) in map (\<lambda>x. fl_mul f32 x inv) result
         else replicate 256 (fl_div f32 (fl_lit f32 1) (fl_lit f32 256)))"

fun mixer_scores :: "nat \<Rightarrow> float_value list \<Rightarrow> float_value list option list \<Rightarrow> float_value list" where
  "mixer_scores b (w # ws) (Some p # ps) =
     fl_mul f64 w (fl_max (fl_cast f64 (p ! b)) (fl_lit f64 (1 / 100000000))) # mixer_scores b ws ps"
| "mixer_scores b (w # ws) (None # ps) = w # mixer_scores b ws ps"
| "mixer_scores b ws ps = ws"

definition mixer_update :: "nat \<Rightarrow> float_value list \<Rightarrow> float_value list option list \<Rightarrow> float_value list" where
  "mixer_update b weights preds =
     (let weights = mixer_scores b weights preds;
          s = fl_sum f64 weights
      in if fl_less (Num False 0) s \<and> is_finite s
         then let inv = fl_div f64 (fl_lit f64 1) s in map (\<lambda>w. fl_mul f64 w inv) weights
         else let n = fl_nat f64 (length weights) in map (\<lambda>_. fl_div f64 (fl_lit f64 1) n) weights)"

section \<open>The predictor\<close>

record lz4_aware =
  lz_state :: parse_state
  lit_len_accum :: nat
  match_len_nibble :: u8
  last_token :: u8
  size_models :: "freq_model list"
  token_table :: "nat list list"
  lit_ext_model :: freq_model
  lit_order1 :: "nat list list"
  lit_order2 :: "nat list list"
  lit_order3 :: "nat list list"
  lit_context :: bytes
  lit_mixer :: "float_value list"
  cached_lit_preds :: "float_value list option list"
  predict_called :: bool
  offset_low_model :: freq_model
  offset_high_model :: freq_model
  match_ext_model :: freq_model

definition fresh_rows :: "nat \<Rightarrow> nat list list" where "fresh_rows n = replicate n (replicate 256 1)"

definition lz4_aware_new :: lz4_aware where
  "lz4_aware_new =
     \<lparr>lz_state = SizePrefix 0, lit_len_accum = 0, match_len_nibble = 0, last_token = 0,
      size_models = replicate 4 freq_new, token_table = fresh_rows TOKEN_TABLE_SIZE, lit_ext_model = freq_new,
      lit_order1 = fresh_rows (2 ^ LIT_ORDER1_BITS), lit_order2 = fresh_rows (2 ^ LIT_ORDER2_BITS),
      lit_order3 = fresh_rows (2 ^ LIT_ORDER3_BITS), lit_context = [], lit_mixer = mixer_new,
      cached_lit_preds = replicate 3 None, predict_called = False, offset_low_model = freq_new,
      offset_high_model = freq_new, match_ext_model = freq_new\<rparr>"

definition predict_token :: "lz4_aware \<Rightarrow> float_value list" where
  "predict_token z = (let entry = token_table z ! unat (last_token z) in scaled entry (sum_list entry))"

definition hash_entry :: "nat \<Rightarrow> bytes \<Rightarrow> nat" where
  "hash_entry bits ctx = unat (hash_context ctx AND mask bits)"

definition hash_entry_predict :: "nat list list \<Rightarrow> nat \<Rightarrow> bytes \<Rightarrow> float_value list" where
  "hash_entry_predict table bits ctx = (let entry = table ! hash_entry bits ctx in scaled entry (sum_list entry))"

text \<open>The predictions of the three orders that the context is long enough for.\<close>

definition last_bytes :: "nat \<Rightarrow> bytes \<Rightarrow> bytes" where "last_bytes n ctx = drop (length ctx - n) ctx"

definition literal_preds :: "lz4_aware \<Rightarrow> float_value list option list" where
  "literal_preds z =
     (let ctx = lit_context z;
          order = (\<lambda>n table bits. if length ctx \<ge> n then Some (hash_entry_predict table bits (last_bytes n ctx)) else None)
      in [order 1 (lit_order1 z) LIT_ORDER1_BITS, order 2 (lit_order2 z) LIT_ORDER2_BITS, order 3 (lit_order3 z) LIT_ORDER3_BITS])"

definition predict_literal :: "lz4_aware \<Rightarrow> float_value list \<times> lz4_aware" where
  "predict_literal z =
     (let preds = literal_preds z in (mixer_mix (lit_mixer z) preds, z\<lparr>cached_lit_preds := preds\<rparr>))"

definition lz4_predict :: "lz4_aware \<Rightarrow> float_value list \<times> lz4_aware" where
  "lz4_predict z =
     (let z = z\<lparr>predict_called := True\<rparr>
      in case lz_state z of
           SizePrefix byte_index \<Rightarrow> (freq_predict (size_models z ! byte_index), z)
         | Token \<Rightarrow> (predict_token z, z)
         | LitLenExt \<Rightarrow> (freq_predict (lit_ext_model z), z)
         | Literals _ \<Rightarrow> predict_literal z
         | MatchOffsetLow \<Rightarrow> (freq_predict (offset_low_model z), z)
         | MatchOffsetHigh \<Rightarrow> (freq_predict (offset_high_model z), z)
         | MatchLenExt \<Rightarrow> (freq_predict (match_ext_model z), z))"

definition update_token :: "u8 \<Rightarrow> lz4_aware \<Rightarrow> lz4_aware" where
  "update_token byte z =
     (let i = unat (last_token z)
      in z\<lparr>token_table := (token_table z)[i := bump_row HASH_TABLE_RESCALE (unat byte) (token_table z ! i)]\<rparr>)"

definition hash_entry_update :: "nat list list \<Rightarrow> nat \<Rightarrow> bytes \<Rightarrow> u8 \<Rightarrow> nat list list" where
  "hash_entry_update table bits ctx byte =
     (let idx = hash_entry bits ctx in table[idx := bump_row HASH_TABLE_RESCALE (unat byte) (table ! idx)])"

definition push_context :: "nat \<Rightarrow> u8 \<Rightarrow> bytes \<Rightarrow> bytes" where
  "push_context limit byte ctx = (let ctx = ctx @ [byte] in if length ctx > limit then tl ctx else ctx)"

definition update_literal :: "u8 \<Rightarrow> lz4_aware \<Rightarrow> lz4_aware" where
  "update_literal byte z =
     (let (preds, z) = (if predict_called z then (cached_lit_preds z, z\<lparr>cached_lit_preds := replicate 3 None\<rparr>)
                        else (replicate 3 None, z));
          preds = (if \<exists>p \<in> set preds. p \<noteq> None then preds else literal_preds z);
          ctx = lit_context z;
          order = (\<lambda>n table bits. if length ctx \<ge> n then hash_entry_update table bits (last_bytes n ctx) byte else table)
      in z\<lparr>lit_mixer := mixer_update (unat byte) (lit_mixer z) preds,
           lit_order1 := order 1 (lit_order1 z) LIT_ORDER1_BITS,
           lit_order2 := order 2 (lit_order2 z) LIT_ORDER2_BITS,
           lit_order3 := order 3 (lit_order3 z) LIT_ORDER3_BITS,
           lit_context := push_context LIT_CONTEXT_LEN byte ctx\<rparr>)"

definition next_state :: "u8 \<Rightarrow> lz4_aware \<Rightarrow> parse_state" where
  "next_state byte z =
     (case lz_state z of
        SizePrefix byte_index \<Rightarrow> if byte_index < 3 then SizePrefix (byte_index + 1) else Token
      | Token \<Rightarrow>
          let lit_len_nibble = drop_bit 4 byte
          in if lit_len_nibble = 15 then LitLenExt
             else if lit_len_nibble > 0 then Literals (unat lit_len_nibble)
             else MatchOffsetLow
      | LitLenExt \<Rightarrow>
          if byte = 255 then LitLenExt
          else if lit_len_accum z > 0 then Literals (lit_len_accum z)
          else MatchOffsetLow
      | Literals remaining \<Rightarrow> if remaining > 1 then Literals (remaining - 1) else MatchOffsetLow
      | MatchOffsetLow \<Rightarrow> MatchOffsetHigh
      | MatchOffsetHigh \<Rightarrow> if match_len_nibble z = 15 then MatchLenExt else Token
      | MatchLenExt \<Rightarrow> if byte = 255 then MatchLenExt else Token)"

definition lz4_update :: "u8 \<Rightarrow> lz4_aware \<Rightarrow> lz4_aware" where
  "lz4_update byte z =
     (let b = unat byte;
          z = (case lz_state z of
                 SizePrefix byte_index \<Rightarrow> z\<lparr>size_models := (size_models z)[byte_index := freq_update b (size_models z ! byte_index)]\<rparr>
               | Token \<Rightarrow>
                   let z = (update_token byte z)\<lparr>match_len_nibble := byte AND 0x0F\<rparr>;
                       z = (if drop_bit 4 byte = 15 then z\<lparr>lit_len_accum := 15\<rparr> else z)
                   in z\<lparr>last_token := byte\<rparr>
               | LitLenExt \<Rightarrow>
                   z\<lparr>lit_ext_model := freq_update b (lit_ext_model z), lit_len_accum := min (lit_len_accum z + b) MAX_LIT_LEN\<rparr>
               | Literals _ \<Rightarrow> update_literal byte z
               | MatchOffsetLow \<Rightarrow> z\<lparr>offset_low_model := freq_update b (offset_low_model z)\<rparr>
               | MatchOffsetHigh \<Rightarrow> z\<lparr>offset_high_model := freq_update b (offset_high_model z)\<rparr>
               | MatchLenExt \<Rightarrow> z\<lparr>match_ext_model := freq_update b (match_ext_model z)\<rparr>)
      in z\<lparr>lz_state := next_state byte z, predict_called := False\<rparr>)"

definition lz4_reset :: "lz4_aware \<Rightarrow> lz4_aware" where
  "lz4_reset z =
     z\<lparr>lz_state := SizePrefix 0, lit_len_accum := 0, match_len_nibble := 0, last_token := 0,
       size_models := map freq_reset (size_models z), token_table := map (\<lambda>_. replicate 256 1) (token_table z),
       lit_ext_model := freq_reset (lit_ext_model z), lit_order1 := map (\<lambda>_. replicate 256 1) (lit_order1 z),
       lit_order2 := map (\<lambda>_. replicate 256 1) (lit_order2 z), lit_order3 := map (\<lambda>_. replicate 256 1) (lit_order3 z),
       lit_context := [], lit_mixer := mixer_new, cached_lit_preds := replicate 3 None, predict_called := False,
       offset_low_model := freq_reset (offset_low_model z), offset_high_model := freq_reset (offset_high_model z),
       match_ext_model := freq_reset (match_ext_model z)\<rparr>"

section \<open>The invariant\<close>

definition freq_ok :: "freq_model \<Rightarrow> bool" where
  "freq_ok m \<longleftrightarrow> length (fm_counts m) = 256 \<and> fm_total m = sum_list (fm_counts m) \<and> fm_total m \<le> 500000
     \<and> (\<forall>c \<in> set (fm_counts m). 1 \<le> c)"

definition table_rows :: "nat \<Rightarrow> nat list list \<Rightarrow> bool" where
  "table_rows n table \<longleftrightarrow> length table = n \<and> (\<forall>row \<in> set table. row_ok HASH_TABLE_RESCALE row)"

fun parse_ok :: "parse_state \<Rightarrow> bool" where
  "parse_ok (SizePrefix i) \<longleftrightarrow> i < 4"
| "parse_ok (Literals n) \<longleftrightarrow> 0 < n \<and> n \<le> MAX_LIT_LEN"
| "parse_ok _ \<longleftrightarrow> True"

definition lz4_inv :: "lz4_aware \<Rightarrow> bool" where
  "lz4_inv z \<longleftrightarrow> parse_ok (lz_state z) \<and> lit_len_accum z \<le> MAX_LIT_LEN
     \<and> length (size_models z) = 4 \<and> (\<forall>m \<in> set (size_models z). freq_ok m)
     \<and> freq_ok (lit_ext_model z) \<and> freq_ok (offset_low_model z) \<and> freq_ok (offset_high_model z) \<and> freq_ok (match_ext_model z)
     \<and> table_rows TOKEN_TABLE_SIZE (token_table z) \<and> table_rows (2 ^ LIT_ORDER1_BITS) (lit_order1 z)
     \<and> table_rows (2 ^ LIT_ORDER2_BITS) (lit_order2 z) \<and> table_rows (2 ^ LIT_ORDER3_BITS) (lit_order3 z)
     \<and> length (lit_context z) \<le> LIT_CONTEXT_LEN \<and> length (lit_mixer z) = 3
     \<and> length (cached_lit_preds z) = 3"

lemma freq_new_ok: "freq_ok freq_new"
  by (simp add: freq_ok_def freq_new_def sum_list_replicate)

lemma halved_row_sum: "sum_list (halve_row cs) \<le> sum_list cs div 2 + length cs"
  by (induction cs) (simp_all add: halve_row_def max_def, linarith+)

lemma freq_update_ok:
  assumes "freq_ok m" "b < 256"
  shows "freq_ok (freq_update b m)"
proof -
  let ?c = "(fm_counts m)[b := fm_counts m ! b + 1]"
  have m: "length (fm_counts m) = 256" "fm_total m = sum_list (fm_counts m)" "fm_total m \<le> 500000" "\<forall>c \<in> set (fm_counts m). 1 \<le> c"
    using assms(1) by (simp_all add: freq_ok_def)
  have old: "fm_counts m ! b \<in> set (fm_counts m)" using m(1) assms(2) by simp
  have sum: "sum_list ?c = fm_total m + 1"
    using sum_list_update_nat [of b "fm_counts m" "fm_counts m ! b + 1"] member_le_sum_list [OF old] m(1,2) assms(2) by simp
  have ge: "\<forall>c \<in> set ?c. 1 \<le> c" using set_update_subset_insert [of "fm_counts m" b] m(4) by fastforce
  have "\<forall>c \<in> set (halve_row ?c). 1 \<le> c" "length (halve_row ?c) = 256" using m(1) by (auto simp: halve_row_def)
  moreover have "sum_list (halve_row ?c) \<le> 500000" using halved_row_sum [of ?c] sum m(1,3) by simp
  ultimately show ?thesis
    using sum ge m(1,3) by (simp add: freq_update_def freq_ok_def freq_rescale_def Let_def)
qed

lemma table_update:
  assumes "table_rows n table" "i < n"
  shows "table_rows n (table[i := bump_row HASH_TABLE_RESCALE (unat (byte :: u8)) (table ! i)])"
proof -
  have "row_ok HASH_TABLE_RESCALE (table ! i)" using assms by (simp add: table_rows_def)
  then have "row_ok HASH_TABLE_RESCALE (bump_row HASH_TABLE_RESCALE (unat byte) (table ! i))"
    by (rule bump_row_ok) (use unat_less_256 [of byte] in \<open>simp_all add: HASH_TABLE_RESCALE_def\<close>)
  then show ?thesis
    using assms set_update_subset_insert [of table i] by (fastforce simp: table_rows_def)
qed

lemma hash_update_ok:
  "table_rows (2 ^ bits) table \<Longrightarrow> table_rows (2 ^ bits) (hash_entry_update table bits ctx byte)"
  unfolding hash_entry_update_def Let_def hash_entry_def by (rule table_update [OF _ hash_index])

lemma mixer_scores_length: "length (mixer_scores b ws ps) = length ws"
  by (induction b ws ps rule: mixer_scores.induct) simp_all

lemma mixer_update_length: "length (mixer_update b ws ps) = length ws"
  by (simp add: mixer_update_def mixer_scores_length Let_def)

lemma push_context_length: "length ctx \<le> limit \<Longrightarrow> length (push_context limit byte ctx) \<le> limit"
  by (auto simp: push_context_def Let_def)

lemma update_literal_inv: "lz4_inv z \<Longrightarrow> lz4_inv (update_literal byte z)"
  by (simp add: lz4_inv_def update_literal_def Let_def mixer_update_length hash_update_ok push_context_length)

lemma next_state_ok:
  "parse_ok (lz_state z) \<Longrightarrow> lit_len_accum z \<le> MAX_LIT_LEN \<Longrightarrow> parse_ok (next_state byte z)"
proof (cases "lz_state z")
  case Token
  define n where "n = drop_bit 4 byte"
  have "unat n < MAX_LIT_LEN" by (rule less_le_trans [OF unat_less_256]) (simp add: MAX_LIT_LEN_def)
  then show ?thesis using Token by (simp add: next_state_def n_def [symmetric] word_greater_zero_iff unat_gt_0)
qed (auto simp: next_state_def)

lemma lz4_update_inv:
  assumes "lz4_inv z"
  shows "lz4_inv (lz4_update byte z)"
proof -
  have b: "unat byte < 256" by (rule unat_less_256)
  have fin: "lz4_inv (y\<lparr>lz_state := next_state byte y, predict_called := False\<rparr>)" if "lz4_inv y" for y
    using that next_state_ok [of y byte] by (simp add: lz4_inv_def)
  have lim: "15 \<le> MAX_LIT_LEN" by (simp add: MAX_LIT_LEN_def)
  have tok: "table_rows TOKEN_TABLE_SIZE (token_table (update_token byte z))"
    using assms table_update [of TOKEN_TABLE_SIZE "token_table z" "unat (last_token z)" byte] unat_less_256 [of "last_token z"]
    by (simp add: update_token_def lz4_inv_def TOKEN_TABLE_SIZE_def Let_def)
  have sizes: "\<forall>m \<in> set ((size_models z)[i := freq_update (unat byte) (size_models z ! i)]). freq_ok m" if "i < 4" for i
  proof -
    have "freq_ok (size_models z ! i)" using assms that by (simp add: lz4_inv_def)
    from freq_update_ok [OF this b] show ?thesis
      using assms set_update_subset_insert [of "size_models z" i] by (fastforce simp: lz4_inv_def)
  qed
  show ?thesis
    unfolding lz4_update_def Let_def
  proof (rule fin)
    show "lz4_inv (case lz_state z of
                 SizePrefix byte_index \<Rightarrow> z\<lparr>size_models := (size_models z)[byte_index := freq_update (unat byte) (size_models z ! byte_index)]\<rparr>
               | Token \<Rightarrow> (if drop_bit 4 byte = 15 then (update_token byte z\<lparr>match_len_nibble := byte AND 0x0F\<rparr>)\<lparr>lit_len_accum := 15\<rparr>
                            else update_token byte z\<lparr>match_len_nibble := byte AND 0x0F\<rparr>)\<lparr>last_token := byte\<rparr>
               | LitLenExt \<Rightarrow>
                   z\<lparr>lit_ext_model := freq_update (unat byte) (lit_ext_model z), lit_len_accum := min (lit_len_accum z + unat byte) MAX_LIT_LEN\<rparr>
               | Literals _ \<Rightarrow> update_literal byte z
               | MatchOffsetLow \<Rightarrow> z\<lparr>offset_low_model := freq_update (unat byte) (offset_low_model z)\<rparr>
               | MatchOffsetHigh \<Rightarrow> z\<lparr>offset_high_model := freq_update (unat byte) (offset_high_model z)\<rparr>
               | MatchLenExt \<Rightarrow> z\<lparr>match_ext_model := freq_update (unat byte) (match_ext_model z)\<rparr>)"
    proof (cases "lz_state z")
      case (SizePrefix i)
      then show ?thesis using assms sizes [of i] by (simp add: lz4_inv_def)
    qed (use assms update_literal_inv [OF assms] tok freq_update_ok [OF _ b] lim in
        \<open>simp_all add: lz4_inv_def update_token_def Let_def\<close>)
  qed
qed

lemma rows_fresh: "table_rows n (fresh_rows n)" "table_rows n table \<Longrightarrow> table_rows n (map (\<lambda>_. replicate 256 1) table)"
  using row_ok_ones [of HASH_TABLE_RESCALE] by (auto simp: table_rows_def fresh_rows_def HASH_TABLE_RESCALE_def)

lemma lz4_new_inv: "lz4_inv lz4_aware_new"
  by (simp add: lz4_inv_def lz4_aware_new_def freq_new_ok rows_fresh mixer_new_def)

lemma lz4_reset_inv: "lz4_inv z \<Longrightarrow> lz4_inv (lz4_reset z)"
  using rows_fresh(2) by (auto simp: lz4_inv_def lz4_reset_def freq_reset_def freq_new_ok mixer_new_def)

text \<open>A reset restores the new predictor.\<close>

lemma map_const_replicate: "map (\<lambda>_. c) xs = replicate (length xs) c"
  by (induction xs) simp_all

theorem lz4_reset_new: "lz4_inv z \<Longrightarrow> lz4_reset z = lz4_aware_new"
proof -
  have "freq_reset = (\<lambda>_. freq_new)" by (rule ext) (simp add: freq_reset_def)
  note reset = lz4_reset_def [unfolded this]
  show "lz4_inv z \<Longrightarrow> lz4_reset z = lz4_aware_new"
    by (cases z) (simp add: reset lz4_aware_new_def lz4_inv_def table_rows_def fresh_rows_def map_const_replicate)
qed

section \<open>The predictor is lawful\<close>

lemma scaled_ok: "length (scaled cs t) = 256 \<and> (\<forall>p \<in> set (scaled cs t). is_f32 p)"
  by (auto simp: scaled_def Let_def)

lemma mix_accumulate_length: "length (fst acc) = 256 \<Longrightarrow> length (fst (mix_accumulate ws ps acc)) = 256"
  by (induction ws ps acc rule: mix_accumulate.induct) simp_all

lemma mixer_mix_ok: "length (mixer_mix ws ps) = 256 \<and> (\<forall>p \<in> set (mixer_mix ws ps). is_f32 p)"
  using mix_accumulate_length [of "(replicate 256 (Num False 0), Num False 0)" ws ps]
  by (auto simp: mixer_mix_def Let_def split: prod.split)

lemma lz4_predict_ok: "length (fst (lz4_predict z)) = 256 \<and> (\<forall>p \<in> set (fst (lz4_predict z)). is_f32 p)"
  using scaled_ok mixer_mix_ok
  by (simp add: lz4_predict_def Let_def freq_predict_def predict_token_def predict_literal_def split: parse_state.split)

lemma lz4_predict_inv: "lz4_inv z \<Longrightarrow> lz4_inv (snd (lz4_predict z))"
  by (cases "lz_state z") (simp_all add: lz4_predict_def Let_def predict_literal_def lz4_inv_def literal_preds_def)

interpretation lz4_coder: probs_predictor insertion_sort lz4_predict lz4_update lz4_reset lz4_inv
  by unfold_locales (simp_all add: insertion_sort_ok lz4_predict_ok lz4_predict_inv lz4_update_inv lz4_reset_inv)

section \<open>The state machine follows the token format\<close>

text \<open>What decides the next state: the state, the literal length so far and the match nibble.\<close>

fun control_step :: "u8 \<Rightarrow> parse_state \<times> nat \<times> u8 \<Rightarrow> parse_state \<times> nat \<times> u8" where
  "control_step byte (SizePrefix i, acc, nib) = ((if i < 3 then SizePrefix (i + 1) else Token), acc, nib)"
| "control_step byte (Token, acc, nib) =
     (if drop_bit 4 byte = 15 then (LitLenExt, 15, byte AND 0x0F)
      else if drop_bit 4 byte > 0 then (Literals (unat (drop_bit 4 byte)), acc, byte AND 0x0F)
      else (MatchOffsetLow, acc, byte AND 0x0F))"
| "control_step byte (LitLenExt, acc, nib) =
     (let acc = min (acc + unat byte) MAX_LIT_LEN
      in ((if byte = 255 then LitLenExt else if acc > 0 then Literals acc else MatchOffsetLow), acc, nib))"
| "control_step byte (Literals n, acc, nib) = ((if n > 1 then Literals (n - 1) else MatchOffsetLow), acc, nib)"
| "control_step byte (MatchOffsetLow, acc, nib) = (MatchOffsetHigh, acc, nib)"
| "control_step byte (MatchOffsetHigh, acc, nib) = ((if nib = 15 then MatchLenExt else Token), acc, nib)"
| "control_step byte (MatchLenExt, acc, nib) = ((if byte = 255 then MatchLenExt else Token), acc, nib)"

definition control :: "lz4_aware \<Rightarrow> parse_state \<times> nat \<times> u8" where
  "control z = (lz_state z, lit_len_accum z, match_len_nibble z)"

lemma control_update: "control (lz4_update byte z) = control_step byte (control z)"
  by (cases "lz_state z")
    (simp_all add: control_def lz4_update_def next_state_def update_token_def update_literal_def Let_def)

lemma control_fold: "control (fold lz4_update bytes z) = fold control_step bytes (control z)"
  by (induction bytes arbitrary: z) (simp_all add: control_update)

text \<open>One sequence of an LZ4 block: token, literals, offset, and the extensions of both lengths.\<close>

fun len_ext :: "nat \<Rightarrow> bytes" where
  "len_ext n = (if n < 255 then [of_nat n] else 255 # len_ext (n - 255))"

declare len_ext.simps [simp del]

definition lz_head :: "bytes \<Rightarrow> nat \<Rightarrow> bytes" where
  "lz_head lits m =
     of_nat (16 * min 15 (length lits) + min 15 m) # (if length lits \<ge> 15 then len_ext (length lits - 15) else [])"

definition lz_tail :: "u8 \<Rightarrow> u8 \<Rightarrow> nat \<Rightarrow> bytes" where
  "lz_tail lo hi m = [lo, hi] @ (if m \<ge> 15 then len_ext (m - 15) else [])"

lemma unat_u8: "n < 256 \<Longrightarrow> unat (of_nat n :: u8) = n" by (simp add: unat_of_nat)

lemma u8_not_255: "n < 255 \<Longrightarrow> (of_nat n :: u8) \<noteq> 255"
proof
  assume "n < 255" "(of_nat n :: u8) = 255"
  then show False using unat_u8 [of n] by simp
qed

lemma literal_ext:
  "0 < acc \<Longrightarrow> acc + n \<le> MAX_LIT_LEN \<Longrightarrow> fold control_step (len_ext n) (LitLenExt, acc, nib) = (Literals (acc + n), acc + n, nib)"
proof (induction n arbitrary: acc rule: len_ext.induct)
  case (1 n)
  show ?case
  proof (cases "n < 255")
    case True
    then have "(of_nat n :: u8) \<noteq> 255" "unat (of_nat n :: u8) = n" by (simp_all add: u8_not_255 unat_u8)
    then show ?thesis using 1(2,3) True by (simp add: len_ext.simps [of n] Let_def)
  next
    case False
    then show ?thesis using 1(1) [OF False, of "acc + 255"] 1(2,3) by (simp add: len_ext.simps [of n])
  qed
qed

lemma match_ext: "fold control_step (len_ext n) (MatchLenExt, acc, nib) = (Token, acc, nib)"
proof (induction n rule: len_ext.induct)
  case (1 n)
  show ?case
  proof (cases "n < 255")
    case True
    then have "(of_nat n :: u8) \<noteq> 255" by (rule u8_not_255)
    then show ?thesis using True by (simp add: len_ext.simps [of n])
  next
    case False
    then show ?thesis using 1(1) [OF False] by (simp add: len_ext.simps [of n])
  qed
qed

lemma literals_run:
  "lits \<noteq> [] \<Longrightarrow> fold control_step lits (Literals (length lits), acc, nib) = (MatchOffsetLow, acc, nib)"
proof (induction lits)
  case (Cons b lits)
  then show ?case by (cases lits) simp_all
qed simp

lemma token_parts:
  assumes "a < 16" "b < 16"
  shows "unat (drop_bit 4 (of_nat (16 * a + b) :: u8)) = a" "unat (of_nat (16 * a + b) AND 0x0F :: u8) = b"
proof -
  have n: "unat (of_nat (16 * a + b) :: u8) = 16 * a + b" using assms by (intro unat_u8) simp
  show "unat (drop_bit 4 (of_nat (16 * a + b) :: u8)) = a"
    unfolding unsigned_drop_bit_eq n using assms by (simp add: drop_bit_eq_div take_bit_eq_mod)
  have "(0x0F :: u8) = mask 4" by (simp add: mask_eq_exp_minus_1)
  then have "unat (of_nat (16 * a + b) AND 0x0F :: u8) = take_bit 4 (unat (of_nat (16 * a + b) :: u8))"
    by (simp only: take_bit_eq_mask [symmetric] unsigned_take_bit_eq)
  also have "\<dots> = b" unfolding n using assms by (simp add: take_bit_eq_mod)
  finally show "unat (of_nat (16 * a + b) AND 0x0F :: u8) = b" .
qed

theorem lz4_tracks_sequence:
  assumes "lz_state z = Token" "length lits \<le> MAX_LIT_LEN"
  shows "lz_state (fold lz4_update (lz_head lits m) z) = (if lits = [] then MatchOffsetLow else Literals (length lits))"
    "lz_state (fold lz4_update (lz_head lits m @ lits) z) = MatchOffsetLow"
    "lz_state (fold lz4_update (lz_head lits m @ lits @ lz_tail lo hi m) z) = Token"
proof -
  let ?t = "of_nat (16 * min 15 (length lits) + min 15 m) :: u8"
  have t: "unat (drop_bit 4 ?t) = min 15 (length lits)" "unat (?t AND 0x0F) = min 15 m"
    by (rule token_parts; simp)+
  have hi: "drop_bit 4 ?t = 15 \<longleftrightarrow> 15 \<le> length lits" "0 < drop_bit 4 ?t \<longleftrightarrow> lits \<noteq> []"
    using t(1) by (auto simp: word_unat_eq_iff word_less_nat_alt)
  have nib: "?t AND 0x0F = 15 \<longleftrightarrow> 15 \<le> m" using t(2) by (auto simp: word_unat_eq_iff)
  have st: "lz_state (fold lz4_update bs y) = fst (fold control_step bs (control y))" for bs y
    unfolding control_fold [symmetric] by (simp add: control_def)
  obtain acc nb where c: "control z = (Token, acc, nb)" using assms(1) by (simp add: control_def)
  obtain acc' where 1: "fold control_step (lz_head lits m) (control z)
      = ((if lits = [] then MatchOffsetLow else Literals (length lits)), acc', ?t AND 0x0F)"
  proof (cases "15 \<le> length lits")
    case True
    then have "lits \<noteq> []" by auto
    then show thesis
      using that literal_ext [of 15 "length lits - 15" "?t AND 0x0F"] True assms(2) hi(1) by (simp add: lz_head_def c)
  next
    case False
    have "fold control_step (lz_head lits m) (control z) = control_step ?t (Token, acc, nb)"
      using False by (simp only: lz_head_def c) simp
    moreover have "drop_bit 4 ?t \<noteq> 15" "0 < drop_bit 4 ?t \<longleftrightarrow> lits \<noteq> []" "unat (drop_bit 4 ?t) = length lits"
      using hi t(1) False by simp_all
    ultimately show thesis by (intro that [of acc]) simp
  qed
  have 2: "fold control_step (lz_head lits m @ lits) (control z) = (MatchOffsetLow, acc', ?t AND 0x0F)"
    using literals_run [of lits] 1 by (cases "lits = []") simp_all
  have 3: "fold control_step (lz_head lits m @ lits @ lz_tail lo hi m) (control z) = (Token, acc', ?t AND 0x0F)"
    using 2 nib match_ext [of "m - 15"] by (simp add: lz_tail_def)
  show "lz_state (fold lz4_update (lz_head lits m) z) = (if lits = [] then MatchOffsetLow else Literals (length lits))"
    "lz_state (fold lz4_update (lz_head lits m @ lits) z) = MatchOffsetLow"
    "lz_state (fold lz4_update (lz_head lits m @ lits @ lz_tail lo hi m) z) = Token"
    unfolding st by (simp_all only: 1 2 3 fst_conv)
qed

text \<open>A whole stream, from the size prefix on.\<close>

lemma lz4_tracks_stream:
  assumes "length size_prefix = 4" "\<forall>(lits, lo, hi, m) \<in> set seqs. length lits \<le> MAX_LIT_LEN"
  shows "lz_state (fold lz4_update (size_prefix @ concat (map (\<lambda>(lits, lo, hi, m). lz_head lits m @ lits @ lz_tail lo hi m) seqs))
    lz4_aware_new) = Token"
proof -
  have seqs: "lz_state z = Token \<Longrightarrow>
      lz_state (fold lz4_update (concat (map (\<lambda>(lits, lo, hi, m). lz_head lits m @ lits @ lz_tail lo hi m) seqs)) z) = Token" for z
    using assms(2)
  proof (induction seqs arbitrary: z)
    case (Cons q seqs)
    obtain lits lo hi m where q: "q = (lits, lo, hi, m)" by (cases q) auto
    show ?case using Cons.IH [OF lz4_tracks_sequence(3) [OF Cons.prems(1), of lits m lo hi]] Cons.prems(2) q by simp
  qed simp
  obtain a b c d where "size_prefix = [a, b, c, d]" using assms(1) by (auto simp: length_Suc_conv eval_nat_numeral)
  moreover have "control (fold lz4_update [a, b, c, d] lz4_aware_new) = (Token, 0, 0)" for a b c d
    unfolding control_fold by (simp add: control_def lz4_aware_new_def)
  ultimately have "lz_state (fold lz4_update size_prefix lz4_aware_new) = Token" by (simp only: control_def prod.inject)
  from seqs [OF this] show ?thesis by simp
qed

end
