(* ===== verification/ContextMixer.thy ===== *)
theory ContextMixer
  imports RlePredictor DefaultCoder
begin

text \<open>
  The context mixer, \<^verbatim>\<open>entropy/context_mixer.rs\<close>: tables of counts hashed by the last
  bytes, one per order, mixed in the logistic domain with weights that learn. The exponential and
  the logarithm of the platform are parameters, of which nothing is assumed: whatever they return,
  the coder over the mixer is lawful. The memory of the tables is bounded for every configuration.
\<close>

section \<open>One model\<close>

record math64 =
  exp64 :: "float_value \<Rightarrow> float_value"
  ln64 :: "float_value \<Rightarrow> float_value"

record order_n_model =
  om_order :: nat
  om_table :: "nat list list"
  om_table_mask :: nat

definition MAX_TABLE_BITS :: nat where "MAX_TABLE_BITS = 20"
definition MAX_NUM_MODELS :: nat where "MAX_NUM_MODELS = 16"

definition order_n_new :: "nat \<Rightarrow> nat \<Rightarrow> order_n_model" where
  "order_n_new order table_bits =
     (let capped_bits = min table_bits MAX_TABLE_BITS; size = 2 ^ capped_bits
      in \<lparr>om_order = order, om_table = replicate size (replicate 256 1), om_table_mask = size - 1\<rparr>)"

definition uniform_probs :: "float_value list" where
  "uniform_probs = replicate 256 (fl_div f32 (fl_lit f32 1) (fl_lit f32 256))"

definition order_n_entry :: "order_n_model \<Rightarrow> bytes \<Rightarrow> nat" where
  "order_n_entry m context =
     (let ctx = drop (length context - om_order m) context
      in unat (hash_context ctx AND of_nat (om_table_mask m)))"

definition order_n_predict :: "order_n_model \<Rightarrow> bytes \<Rightarrow> float_value list" where
  "order_n_predict m context =
     (if length context < om_order m then uniform_probs
      else
        let counts = om_table m ! order_n_entry m context;
            total_count = sum_list counts;
            inv_total = fl_div f32 (fl_lit f32 1) (fl_nat f32 total_count)
        in map (\<lambda>i. fl_mul f32 (fl_nat f32 (counts ! i)) inv_total) [0..<256])"

definition order_n_update :: "bytes \<Rightarrow> u8 \<Rightarrow> order_n_model \<Rightarrow> order_n_model" where
  "order_n_update context byte m =
     (if length context < om_order m then m
      else
        let i = order_n_entry m context
        in m\<lparr>om_table := (om_table m)[i := bump_row 8000 (unat byte) (om_table m ! i)]\<rparr>)"

definition order_n_reset :: "order_n_model \<Rightarrow> order_n_model" where
  "order_n_reset m = m\<lparr>om_table := map (\<lambda>_. replicate 256 1) (om_table m)\<rparr>"

definition order_n_memory :: "order_n_model \<Rightarrow> nat" where
  "order_n_memory m = length (om_table m) * 256 * 2"

section \<open>The mixer\<close>

record mixer_config =
  mc_orders :: "(nat \<times> nat) list"
  mc_is_lightweight :: bool
  mc_learning_rate :: float_value
  mc_max_context :: nat

definition mixer_config_default :: mixer_config where
  "mixer_config_default =
     \<lparr>mc_orders = [(1, 14), (2, 16), (3, 16), (4, 15), (5, 14), (6, 13)], mc_is_lightweight = False,
      mc_learning_rate = fl_lit f64 (2 / 1000), mc_max_context = 8\<rparr>"

definition mixer_config_lightweight :: mixer_config where
  "mixer_config_lightweight =
     \<lparr>mc_orders = [(1, 12), (2, 12), (3, 11)], mc_is_lightweight = True,
      mc_learning_rate = fl_lit f64 (5 / 1000), mc_max_context = 4\<rparr>"

record context_mixer =
  cm_models :: "order_n_model list"
  cm_weights :: "float_value list"
  cm_learning_rate :: float_value
  cm_context_buf :: bytes
  cm_max_context :: nat
  cm_is_lightweight :: bool
  cached_predictions :: "float_value list list"
  cm_predict_called :: bool

definition MAX_TOTAL_MEMORY :: nat where "MAX_TOTAL_MEMORY = 512 * 1024 * 1024"

definition bounded_config :: "mixer_config \<Rightarrow> mixer_config" where
  "bounded_config config =
     (let config = (if length (mc_orders config) > MAX_NUM_MODELS \<or> mc_orders config = [] then mixer_config_lightweight else config);
          estimated_mem = sum_list (map (\<lambda>(_, bits). 2 ^ min bits MAX_TABLE_BITS * 256 * 2) (mc_orders config))
      in if estimated_mem > MAX_TOTAL_MEMORY then mixer_config_lightweight else config)"

definition even_weights :: "nat \<Rightarrow> float_value list" where
  "even_weights n = replicate n (fl_div f64 (fl_lit f64 1) (fl_nat f64 n))"

definition mixer_with_config :: "mixer_config \<Rightarrow> context_mixer" where
  "mixer_with_config config =
     (let config = bounded_config config;
          models = map (\<lambda>(order, table_bits). order_n_new order table_bits) (mc_orders config)
      in \<lparr>cm_models = models, cm_weights = even_weights (length models), cm_learning_rate = mc_learning_rate config,
          cm_context_buf = [], cm_max_context = mc_max_context config, cm_is_lightweight = mc_is_lightweight config,
          cached_predictions = [], cm_predict_called = False\<rparr>)"

definition context_mixer_new :: context_mixer where
  "context_mixer_new = mixer_with_config mixer_config_default"

text \<open>The tables, the weights and the capacity of the context buffer, which the library chooses.\<close>

definition mixer_memory :: "nat \<Rightarrow> context_mixer \<Rightarrow> nat" where
  "mixer_memory capacity c = sum_list (map order_n_memory (cm_models c)) + capacity + length (cm_weights c) * 8"

definition logit_sum :: "math64 \<Rightarrow> float_value list \<Rightarrow> float_value list list \<Rightarrow> nat \<Rightarrow> float_value" where
  "logit_sum lib weights predictions i =
     foldl (\<lambda>mixed (pred, weight).
         let one = fl_lit f64 1; eps = fl_lit f64 (1 / 1000000000000);
             p = fl_clamp eps (fl_sub f64 one eps) (fl_cast f64 (pred ! i));
             logit = ln64 lib (fl_div f64 p (fl_sub f64 one p))
         in fl_add f64 mixed (fl_mul f64 weight logit))
       (Num False 0) (zip predictions weights)"

definition mix_predictions :: "math64 \<Rightarrow> float_value list \<Rightarrow> float_value list list \<Rightarrow> float_value list" where
  "mix_predictions lib weights predictions =
     (let one = fl_lit f64 1; floor_prob = fl_lit f32 (1 / 10000000);
          ps = map (\<lambda>i.
              let clamped = fl_clamp (fl_lit f64 (- 20)) (fl_lit f64 20) (logit_sum lib weights predictions i)
              in fl_div f64 one (fl_add f64 one (exp64 lib (fl_neg clamped)))) [0..<256];
          probs = map (fl_cast f32) ps;
          s = fl_sum f64 ps
      in if fl_less (Num False 0) s then
           let inv_sum = fl_div f32 (fl_lit f32 1) (fl_cast f32 s);
               probs = map (\<lambda>p. let p = fl_mul f32 p inv_sum in if fl_less p floor_prob then floor_prob else p) probs;
               floored_sum = fl_sum f32 probs
           in if fl_less (Num False 0) floored_sum then
                let inv = fl_div f32 (fl_lit f32 1) floored_sum in map (\<lambda>p. fl_mul f32 p inv) probs
              else probs
         else probs)"

definition update_weights :: "math64 \<Rightarrow> float_value \<Rightarrow> float_value list \<Rightarrow> float_value list list \<Rightarrow> nat \<Rightarrow> float_value list" where
  "update_weights lib lr weights predictions target =
     (let one = fl_lit f64 1;
          factor = (\<lambda>pred. let p = fl_clamp (fl_lit f64 (1 / 1000000000000)) one (fl_cast f64 (pred ! target))
                    in fl_max (fl_add f64 one (fl_mul f64 lr (ln64 lib p))) (fl_lit f64 (1 / 100)));
          weights = map (\<lambda>(w, pred). fl_mul f64 w (factor pred)) (zip weights predictions) @ drop (length predictions) weights;
          s = fl_sum f64 weights
      in if fl_less (Num False 0) s then map (\<lambda>w. fl_div f64 w s) weights else weights)"

definition mixer_predictions :: "context_mixer \<Rightarrow> float_value list list" where
  "mixer_predictions c = map (\<lambda>m. order_n_predict m (cm_context_buf c)) (cm_models c)"

definition mixer_predict :: "math64 \<Rightarrow> context_mixer \<Rightarrow> float_value list \<times> context_mixer" where
  "mixer_predict lib c =
     (let predictions = mixer_predictions c;
          mixed = mix_predictions lib (cm_weights c) predictions
      in (mixed, c\<lparr>cached_predictions := predictions, cm_predict_called := True\<rparr>))"

definition context_mixer_update :: "math64 \<Rightarrow> u8 \<Rightarrow> context_mixer \<Rightarrow> context_mixer" where
  "context_mixer_update lib byte c =
     (let (predictions, c) =
            (if cm_predict_called c \<and> cached_predictions c \<noteq> []
             then (cached_predictions c, c\<lparr>cm_predict_called := False, cached_predictions := []\<rparr>)
             else (mixer_predictions c, c\<lparr>cm_predict_called := False\<rparr>));
          ctx = cm_context_buf c @ [byte]
      in c\<lparr>cm_weights := update_weights lib (cm_learning_rate c) (cm_weights c) predictions (unat byte),
           cm_models := map (order_n_update (cm_context_buf c) byte) (cm_models c),
           cm_context_buf := (if length ctx > cm_max_context c then tl ctx else ctx)\<rparr>)"

definition context_mixer_reset :: "context_mixer \<Rightarrow> context_mixer" where
  "context_mixer_reset c =
     c\<lparr>cm_models := map order_n_reset (cm_models c), cm_weights := even_weights (length (cm_models c)),
       cm_context_buf := [], cached_predictions := [], cm_predict_called := False\<rparr>"

section \<open>Saved weights\<close>

definition put_f64 :: "float_value \<Rightarrow> bytes" where "put_f64 x = u64_to_le (of_nat (fl_to_bits f64 x))"

definition mixer_save_state :: "context_mixer \<Rightarrow> bytes" where
  "mixer_save_state c =
     [1, if cm_is_lightweight c then 1 else 0] @ put_u32 (length (cm_weights c)) @ concat (map put_f64 (cm_weights c))"

fun read_weights :: "nat \<Rightarrow> bytes \<Rightarrow> float_value list option" where
  "read_weights 0 data = Some []"
| "read_weights (Suc n) data =
     (let w = fl_from_bits f64 (unat (u64_of_le (take 8 data)))
      in if \<not> is_finite w \<or> fl_less w (Num False 0) then None
         else map_option (\<lambda>ws. w # ws) (read_weights n (drop 8 data)))"

definition mixer_load_state :: "bytes \<Rightarrow> context_mixer \<Rightarrow> bool \<times> context_mixer" where
  "mixer_load_state data c =
     (if length data < 6 \<or> data ! 0 \<noteq> 1 then (False, c)
      else if (data ! 1 \<noteq> 0) \<noteq> cm_is_lightweight c then (False, c)
      else
        let num_models = fst (get_u32 (drop 2 data))
        in if num_models \<noteq> length (cm_models c) then (False, c)
           else if length data \<noteq> 6 + num_models * 8 then (False, c)
           else case read_weights num_models (drop 6 data) of
                  None \<Rightarrow> (False, c)
                | Some weights \<Rightarrow> (True, c\<lparr>cm_weights := weights\<rparr>))"

section \<open>The invariant\<close>

definition order_n_ok :: "order_n_model \<Rightarrow> bool" where
  "order_n_ok m \<longleftrightarrow> (\<exists>k \<le> MAX_TABLE_BITS. length (om_table m) = 2 ^ k \<and> om_table_mask m = 2 ^ k - 1)
     \<and> (\<forall>row \<in> set (om_table m). row_ok 8000 row)"

definition mixer_inv :: "context_mixer \<Rightarrow> bool" where
  "mixer_inv c \<longleftrightarrow> length (cm_weights c) = length (cm_models c) \<and> 0 < length (cm_models c)
     \<and> length (cm_models c) \<le> MAX_NUM_MODELS \<and> (\<forall>m \<in> set (cm_models c). order_n_ok m)
     \<and> sum_list (map order_n_memory (cm_models c)) \<le> MAX_TOTAL_MEMORY \<and> length (cm_context_buf c) \<le> cm_max_context c
     \<and> (\<forall>p \<in> set (cached_predictions c). length p = 256)
     \<and> (cached_predictions c \<noteq> [] \<longrightarrow> length (cached_predictions c) = length (cm_models c))"

lemma order_n_new_ok: "order_n_ok (order_n_new n bits)"
  using row_ok_ones [of 8000] by (auto simp: order_n_ok_def order_n_new_def Let_def)

text \<open>The masked hash is an index of the table.\<close>

lemma order_n_entry_less: "order_n_ok m \<Longrightarrow> order_n_entry m ctx < length (om_table m)"
proof -
  assume "order_n_ok m"
  then obtain k where k: "k \<le> 20" "length (om_table m) = 2 ^ k" "om_table_mask m = 2 ^ k - 1"
    by (auto simp: order_n_ok_def MAX_TABLE_BITS_def)
  have "(of_nat (2 ^ k - 1) :: u64) = mask k" by (simp add: mask_eq_exp_minus_1)
  then show ?thesis using hash_index by (simp add: order_n_entry_def Let_def k(2,3))
qed

lemma order_n_update_ok:
  assumes "order_n_ok m"
  shows "order_n_ok (order_n_update ctx byte m)" "length (om_table (order_n_update ctx byte m)) = length (om_table m)"
proof -
  let ?i = "order_n_entry m ctx"
  have i: "?i < length (om_table m)" by (rule order_n_entry_less [OF assms])
  then have "row_ok 8000 (om_table m ! ?i)" using assms by (simp add: order_n_ok_def)
  then have "row_ok 8000 (bump_row 8000 (unat byte) (om_table m ! ?i))"
    by (rule bump_row_ok) (use unat_less_256 [of byte] in simp_all)
  then have "\<forall>row \<in> set ((om_table m)[?i := bump_row 8000 (unat byte) (om_table m ! ?i)]). row_ok 8000 row"
    using assms set_update_subset_insert [of "om_table m" ?i] by (fastforce simp: order_n_ok_def)
  then show "order_n_ok (order_n_update ctx byte m)" using assms by (simp add: order_n_update_def order_n_ok_def Let_def)
  show "length (om_table (order_n_update ctx byte m)) = length (om_table m)" by (simp add: order_n_update_def Let_def)
qed

lemma order_n_reset_ok:
  assumes "order_n_ok m"
  shows "order_n_ok (order_n_reset m)" "length (om_table (order_n_reset m)) = length (om_table m)"
  using assms row_ok_ones [of 8000] by (auto simp: order_n_ok_def order_n_reset_def)

text \<open>Whatever the configuration, there are models, not too many, and their tables fit the budget.\<close>

definition config_memory :: "mixer_config \<Rightarrow> nat" where
  "config_memory c = sum_list (map (\<lambda>(_, bits). 2 ^ min bits MAX_TABLE_BITS * 256 * 2) (mc_orders c))"

lemma lightweight_small:
  "mc_orders mixer_config_lightweight \<noteq> []" "length (mc_orders mixer_config_lightweight) \<le> MAX_NUM_MODELS"
  "config_memory mixer_config_lightweight \<le> MAX_TOTAL_MEMORY"
  by (simp_all add: mixer_config_lightweight_def MAX_NUM_MODELS_def config_memory_def MAX_TABLE_BITS_def MAX_TOTAL_MEMORY_def)

lemma bounded_config_ok:
  "mc_orders (bounded_config c) \<noteq> [] \<and> length (mc_orders (bounded_config c)) \<le> MAX_NUM_MODELS
    \<and> config_memory (bounded_config c) \<le> MAX_TOTAL_MEMORY"
proof -
  let ?c = "if length (mc_orders c) > MAX_NUM_MODELS \<or> mc_orders c = [] then mixer_config_lightweight else c"
  have b: "bounded_config c = (if config_memory ?c > MAX_TOTAL_MEMORY then mixer_config_lightweight else ?c)"
    by (simp only: bounded_config_def Let_def config_memory_def)
  have "mc_orders ?c \<noteq> [] \<and> length (mc_orders ?c) \<le> MAX_NUM_MODELS" using lightweight_small by simp
  then show ?thesis unfolding b using lightweight_small by simp
qed

lemma models_memory:
  "sum_list (map order_n_memory (map (\<lambda>(order, bits). order_n_new order bits) os))
    = sum_list (map (\<lambda>(_, bits). 2 ^ min bits MAX_TABLE_BITS * 256 * 2) os)"
  by (induction os) (auto simp: order_n_memory_def order_n_new_def Let_def)

theorem mixer_with_config_inv: "mixer_inv (mixer_with_config c)"
proof -
  let ?c = "bounded_config c"
  have "sum_list (map order_n_memory (cm_models (mixer_with_config c))) = config_memory ?c"
    unfolding config_memory_def models_memory [symmetric] by (simp add: mixer_with_config_def Let_def)
  moreover have "\<forall>m \<in> set (cm_models (mixer_with_config c)). order_n_ok m"
    using order_n_new_ok by (auto simp: mixer_with_config_def Let_def)
  ultimately show ?thesis
    using bounded_config_ok [of c] by (auto simp: mixer_inv_def mixer_with_config_def even_weights_def Let_def)
qed

lemma same_memory:
  "(\<And>m. m \<in> set ms \<Longrightarrow> length (om_table (f m)) = length (om_table m))
    \<Longrightarrow> sum_list (map order_n_memory (map f ms)) = sum_list (map order_n_memory ms)"
  by (induction ms) (simp_all add: order_n_memory_def)

lemma update_weights_length:
  "length predictions \<le> length weights \<Longrightarrow> length (update_weights lib lr weights predictions b) = length weights"
  by (simp add: update_weights_def Let_def)

lemma context_mixer_update_inv:
  assumes inv: "mixer_inv c"
  shows "mixer_inv (context_mixer_update lib byte c)"
proof -
  have ms: "\<forall>m \<in> set (cm_models c). order_n_ok m" using inv by (simp add: mixer_inv_def)
  have mem: "sum_list (map order_n_memory (map (order_n_update (cm_context_buf c) byte) (cm_models c)))
      = sum_list (map order_n_memory (cm_models c))"
    by (rule same_memory) (use ms order_n_update_ok(2) in blast)
  have ok: "\<forall>m \<in> set (map (order_n_update (cm_context_buf c) byte) (cm_models c)). order_n_ok m"
    using ms order_n_update_ok(1) by simp
  have len: "length (mixer_predictions c) = length (cm_models c)" by (simp add: mixer_predictions_def)
  show ?thesis
    using inv mem ok len update_weights_length [of _ "cm_weights c" lib "cm_learning_rate c"]
    by (auto simp: mixer_inv_def context_mixer_update_def Let_def o_def)
qed

lemma order_n_predict_ok: "length (order_n_predict m ctx) = 256"
  by (simp add: order_n_predict_def uniform_probs_def Let_def)

lemma mixer_predict_inv: "mixer_inv c \<Longrightarrow> mixer_inv (snd (mixer_predict lib c))"
  by (auto simp: mixer_inv_def mixer_predict_def Let_def mixer_predictions_def order_n_predict_ok)

lemma context_mixer_reset_inv:
  assumes inv: "mixer_inv c"
  shows "mixer_inv (context_mixer_reset c)"
proof -
  have ms: "\<forall>m \<in> set (cm_models c). order_n_ok m" using inv by (simp add: mixer_inv_def)
  have "sum_list (map order_n_memory (map order_n_reset (cm_models c))) = sum_list (map order_n_memory (cm_models c))"
    by (rule same_memory) (use ms order_n_reset_ok(2) in blast)
  then show ?thesis
    using inv ms order_n_reset_ok(1) by (simp add: mixer_inv_def context_mixer_reset_def even_weights_def o_def)
qed

section \<open>The coder over the mixer is lawful\<close>

lemma mix_predictions_ok: "length (mix_predictions lib ws ps) = 256 \<and> (\<forall>p \<in> set (mix_predictions lib ws ps). is_f32 p)"
  by (auto simp: mix_predictions_def Let_def)

theorem mixer_probs_predictor:
  "probs_predictor insertion_sort (mixer_predict lib) (context_mixer_update lib) context_mixer_reset mixer_inv"
  using mix_predictions_ok
  by unfold_locales (simp_all add: insertion_sort_ok mixer_predict_inv context_mixer_update_inv context_mixer_reset_inv,
      simp_all add: mixer_predict_def Let_def)

text \<open>On a library whose functions return their argument.\<close>

definition identity_math :: math64 where "identity_math = \<lparr>exp64 = (\<lambda>x. x), ln64 = (\<lambda>x. x)\<rparr>"

interpretation mixer_coder:
  probs_predictor insertion_sort "mixer_predict identity_math" "context_mixer_update identity_math" context_mixer_reset mixer_inv
  by (rule mixer_probs_predictor)

section \<open>Saved weights load back\<close>

definition weight_ok :: "float_value \<Rightarrow> bool" where
  "weight_ok w \<longleftrightarrow> fin w \<and> 0 \<le> val w \<and> bound f64 (val w)"

lemma bits_64: "fin x \<Longrightarrow> bound f64 (val x) \<Longrightarrow> fl_to_bits f64 x < 2 ^ 64"
proof -
  assume x: "fin x" "bound f64 (val x)"
  have "exp_limit f64 = 2047" "mant_unit f64 = 2 ^ 52" by (simp_all add: exp_limit_def mant_unit_def f64_def)
  then show ?thesis using from_to_bits(2) [OF wf_formats(2) x] by (simp only: power_add) simp
qed

lemma read_put_f64:
  assumes "weight_ok w"
  shows "fl_from_bits f64 (unat (u64_of_le (take 8 (put_f64 w @ rest)))) = w"
proof -
  have "fl_to_bits f64 w < 2 ^ 64" using assms bits_64 by (simp add: weight_ok_def)
  then have "unat (of_nat (fl_to_bits f64 w) :: u64) = fl_to_bits f64 w" by (simp add: unat_of_nat)
  then show ?thesis using assms from_to_bits(1) [of f64 w] by (simp add: put_f64_def weight_ok_def)
qed

lemma read_weights_put:
  "\<forall>w \<in> set ws. weight_ok w \<Longrightarrow> read_weights (length ws) (concat (map put_f64 ws) @ rest) = Some ws"
proof (induction ws)
  case (Cons w ws)
  have w: "weight_ok w" using Cons.prems by simp
  then have "is_finite w" "\<not> fl_less w (Num False 0)"
    using less_val [of w "Num False 0"] by (auto simp: weight_ok_def fin_finite val_Num)
  moreover have "length (put_f64 w) = 8" by (simp add: put_f64_def)
  ultimately show ?case using Cons read_put_f64 [OF w] by simp
qed simp

theorem mixer_load_save:
  assumes "\<forall>w \<in> set (cm_weights c). weight_ok w" "length (cm_weights c) = length (cm_models c0)"
    "cm_is_lightweight c = cm_is_lightweight c0" "length (cm_weights c) < 2 ^ 32"
  shows "mixer_load_state (mixer_save_state c) c0 = (True, c0\<lparr>cm_weights := cm_weights c\<rparr>)"
proof -
  let ?s = "mixer_save_state c"
  have len: "length (concat (map put_f64 ws)) = length ws * 8" for ws
    by (induction ws) (simp_all add: put_f64_def)
  have parts: "?s ! 0 = 1" "?s ! 1 = (if cm_is_lightweight c then 1 else 0)"
    "drop 2 ?s = put_u32 (length (cm_weights c)) @ concat (map put_f64 (cm_weights c))"
    "length ?s = 6 + length (cm_weights c) * 8" "drop 6 ?s = concat (map put_f64 (cm_weights c))"
    unfolding mixer_save_state_def by (simp_all add: len put_u32_def del: length_concat)
  have "fst (get_u32 (drop 2 ?s)) = length (cm_weights c)" unfolding parts(3) using assms(4) get_put by simp
  then show ?thesis
    using parts assms(2,3) read_weights_put [OF assms(1), of "[]"] by (simp add: mixer_load_state_def Let_def)
qed

text \<open>A load changes nothing but the weights, and nothing at all when it is rejected.\<close>

lemma read_weights_length: "read_weights n data = Some ws \<Longrightarrow> length ws = n"
  by (induction n arbitrary: data ws) (auto simp: Let_def split: if_splits)

theorem mixer_load_inv:
  assumes "mixer_load_state data c = (ok, c')"
  shows "\<not> ok \<Longrightarrow> c' = c" "mixer_inv c \<Longrightarrow> mixer_inv c'"
  using assms read_weights_length
  by (auto simp: mixer_load_state_def mixer_inv_def Let_def split: if_splits option.splits)

end
