(* ===== verification/Spec2Isabelle.thy ===== *)
theory Spec2Isabelle
  imports NeuralCoder NeuralSaved MtfPredictor Lz4Aware ContextMixer
begin

text \<open>
  A verification development for the Aether archive compressor: the library crate
  \<^verbatim>\<open>aether-core\<close>, which turns files into an archive of independently coded
  blocks and back. The other crates are front ends around it.

  The program. The inputs are grouped by type (\<^verbatim>\<open>grouper.rs\<close>); a file is cut into
  chunks (\<^verbatim>\<open>chunker.rs\<close>), each chunk is classified (\<^verbatim>\<open>analyzer.rs\<close>)
  and a router (\<^verbatim>\<open>pipeline/router.rs\<close>) tries several transforms on it
  (\<^verbatim>\<open>coding/\<close>): Burrows-Wheeler with move-to-front and run-length coding,
  LZ77, byte planes, the x86 branch filter, zstd, LZ4. What a transform leaves is range coded
  (\<^verbatim>\<open>coding/rans.rs\<close>) against an adaptive predictor (\<^verbatim>\<open>entropy/\<close>).
  The smallest payload becomes a block, possibly encrypted (\<^verbatim>\<open>crypto/\<close>); blocks, file
  table, block index, header and footer are stored in a binary format (\<^verbatim>\<open>format.rs\<close>,
  \<^verbatim>\<open>block.rs\<close>, \<^verbatim>\<open>header.rs\<close>). Writer and readers are in
  \<^verbatim>\<open>pipeline/\<close>.

  The theories, in the order of the code:

  \<^item> \<^verbatim>\<open>Prelude\<close>: machine words, the error type of \<^verbatim>\<open>error.rs\<close>, the result
    type with its bind, shared lemmas. \<^verbatim>\<open>Bytes\<close>: little-endian fields and readers.
    \<^verbatim>\<open>Utf8\<close>: validity and character boundaries of path strings.
  \<^item> \<^verbatim>\<open>Format\<close>, \<^verbatim>\<open>Block\<close>, \<^verbatim>\<open>Header\<close>: constants, stored enumerations, every
    record of the archive with its writer and reader. A reader takes the remaining bytes and
    returns the value with what is left, or the error of the code. The lemmas are round trips,
    the exact shape of what is accepted, and the safety of accepted paths.
  \<^item> \<^verbatim>\<open>RangeCoder\<close>: the range coder as two records whose fields are those of the structs, at
    their widths (32-bit range and code, 64-bit low). The lemmas give every encoder state an
    arithmetic value, show that carries propagate into the pending bytes, and that the decoder's
    code tracks the distance from the low end of the interval.
    \<^verbatim>\<open>Predictor\<close>: the trait between coder and model as the locale \<^verbatim>\<open>lawful_predictor\<close>,
    the block functions, and the round trip and termination lemmas inside it.
  \<^item> \<^verbatim>\<open>Fenwick\<close>, \<^verbatim>\<open>Order0\<close>: the adaptive byte model, its exact division, its tree and its
    saved state; it interprets the predictor locale twice, with its own fast paths and with the
    default methods of the trait.
  \<^item> \<^verbatim>\<open>Floats\<close>: IEEE numbers of 32 and 64 bits as signed rationals with infinities and NaN,
    every operation the exact value rounded to nearest, with the monotonicity and the bounds of
    rounding, and the bit patterns. \<^verbatim>\<open>CdfTable\<close>: \<^verbatim>\<open>probs_to_cdf\<close> of the range coder and the
    proof that its table is lawful on every input; the fallback after its redistribution step is
    shown unreachable. \<^verbatim>\<open>Quantized\<close>: the boundaries the run-length and the neural predictor
    compute, and the search over Fenwick trees.
  \<^item> \<^verbatim>\<open>RlePredictor\<close>, \<^verbatim>\<open>NeuralSsm\<close>: the two predictors of the transformed streams, every
    operation with the rounding of the code, their fast paths against the full table, and their
    saved states. \<^verbatim>\<open>NeuralSaved\<close>: the states the neural predictor reaches, an inductive
    predicate, all pass the checks of its own loader. \<^verbatim>\<open>DefaultCoder\<close>: the default methods of the trait, in the locale
    \<^verbatim>\<open>probs_predictor\<close>, interpreted by \<^verbatim>\<open>MtfPredictor\<close>, \<^verbatim>\<open>Lz4Aware\<close> and
    \<^verbatim>\<open>ContextMixer\<close>, whose lemmas bound all counts and follow the LZ4 token format.
    \<^verbatim>\<open>NeuralCoder\<close>: the neural predictor meets the contracts of router, reader and writer.
  \<^item> \<^verbatim>\<open>Bcj\<close>, \<^verbatim>\<open>Rle\<close>, \<^verbatim>\<open>Mtf\<close>, \<^verbatim>\<open>Bwt\<close>, \<^verbatim>\<open>BwtInverse\<close>, \<^verbatim>\<open>Lz77\<close>,
    \<^verbatim>\<open>BytePlane\<close>, \<^verbatim>\<open>Codecs\<close>: the transforms, each with its encoder, its decoder with
    all error branches, and the proof that the decoder inverts the encoder. \<^verbatim>\<open>Rle\<close> states the
    two zero-run codes as interpretations of one locale; \<^verbatim>\<open>Codecs\<close> holds the wrappers of zstd
    and LZ4.
  \<^item> \<^verbatim>\<open>Analyzer\<close>, \<^verbatim>\<open>Chunker\<close>, \<^verbatim>\<open>Grouper\<close>, \<^verbatim>\<open>Dictionary\<close>, \<^verbatim>\<open>Crypto\<close>:
    content types and routing thresholds, chunk boundaries, file groups, trained and built-in
    dictionaries, encrypted blocks.
  \<^item> \<^verbatim>\<open>Router\<close>: the cascade and its decompressor, with the locale \<^verbatim>\<open>router_contract\<close>
    (a lawful predictor and libraries that invert themselves) in which every route round trips.
  \<^item> \<^verbatim>\<open>Extract\<close>, \<^verbatim>\<open>Seekable\<close>: the reader of archives in memory or on disk: metadata with its
    limits, sequential and parallel decoding of the blocks, reassembly, listing, verification,
    in the locale \<^verbatim>\<open>archive_contract\<close>. \<^verbatim>\<open>block_store\<close> is the interface of the two ways of releasing decoded blocks.
    \<^verbatim>\<open>Streaming\<close>: the reader of archives from a pipe.
  \<^item> \<^verbatim>\<open>FileSystem\<close>: paths, directories, symbolic links and open files as a state, every call
    of the code on it with its errors; atomic writes and the confinement of extraction.
    \<^verbatim>\<open>Unpacking\<close>: extraction rebuilds the tree of the archive.
  \<^item> \<^verbatim>\<open>Writer\<close>, \<^verbatim>\<open>Archive\<close>, \<^verbatim>\<open>RoundTrip\<close>, \<^verbatim>\<open>Recovery\<close>: compression of a list of
    inputs with deduplication, encryption and dictionaries, the locale \<^verbatim>\<open>writer_contract\<close>, and
    the proof that the reader recovers what was written.
    \<^verbatim>\<open>Migrate\<close>: recompression through a temporary directory. \<^verbatim>\<open>Totality\<close>: every operation
    returns. \<^verbatim>\<open>Example\<close>: the contracts interpreted on the Order-0 coder, and a small encrypted
    archive on which the witnesses run.

  Loops. Structural loops are primitive recursive; index loops are functions with a measure. The
  renormalisation loops of the coder and the fixed-size chunking loop can run for ever on some
  arguments (a zero frequency, a zero block size), so they are partial functions into the option
  type, \<^const>\<open>None\<close> meaning that the loop does not return; that they return is proved where it
  holds. No definition uses fuel except the match finder, whose counter is the chain limit of the
  code.

  Parameters. What is not in the repository is an argument of the definitions: BLAKE3 and CRC-32,
  the suffix sorter, zstd, LZ4, FastCDC, the ciphers and Argon2id, lower-casing, the clock, the exponential and the logarithm of the
  platform (\<^verbatim>\<open>math_lib\<close>; the exponential is never negative, for saved states also
  \<^verbatim>\<open>lib_total\<close>: the exponential of a number is a number and the logarithm of a
  probability is bounded), the order in which an unstable
  sort leaves equal elements (\<^verbatim>\<open>sort_ok\<close>), and of the operating system which calls fail and which
  temporary names it draws. What is relied upon is a named predicate or an assumption of a locale
  (\<^verbatim>\<open>sais_ok\<close>, \<^verbatim>\<open>blake3_len_ok\<close>, \<^verbatim>\<open>fastcdc_ok\<close>, \<^verbatim>\<open>router_contract\<close>), and every
  one has an instance in the theory that uses it. One function of the repository is an argument
  too: \<^verbatim>\<open>shannon_entropy\<close> of \<^verbatim>\<open>format.rs\<close>, a sum over the platform's 64-bit
  logarithm; it is an arbitrary function, so every theorem holds for whatever it computes.

  Not modelled: the display-only \<^verbatim>\<open>predict\<close> of the Order-0 model and the helpers that
  only tests call;
  allocation and capacity hints; formatted values in
  error messages; progress reports and analytics; cloud storage, the command line, the server and
  the bindings, which are input and output around the library.
\<close>

section \<open>The archive\<close>

text \<open>
  C1: compress, then extract. For every coding predictor and libraries that meet the contract, when
  the inputs compress to an archive within the reader's limits, a reader with the same model,
  password and dictionary, on any number of threads, opens that archive and hands the file system
  exactly the inputs' contents, each with its path, hash, size, masked mode and time, in the order
  of the inputs, and stops only where the file system refuses a file. Deduplicated files,
  encryption, dictionaries and path prefixes are included; the inputs are assumed to have paths the
  reader accepts and no two different contents with one hash.
\<close>

theorem archive_round_trip:
  assumes contract: "writer_contract co good cdf"
    and run: "compress_to_archive co cp inputs = Some (Inr (stats, archive))"
    and inputs: "\<forall>f \<in> set inputs. extractable f" "no_collisions (ae_blake3 (co_archive co)) inputs"
    and limits: "within_limits stats" "length archive < 2 ^ 64"
    and dict: "\<forall>d \<in> set_option (cp_dictionary cp). length (di_hash d) = 32"
    and reader: "reader_matches co cp dc"
  shows "\<exists>files. list_all2 (restored (ae_blake3 (co_archive co))) inputs files
    \<and> extract_all (co_archive co) dc write_file archive fs = Some (write_each write_file files fs)"
  by (rule writer_contract.extract_compressed [OF assms])

theorem archive_round_trip_witness:
  "\<exists>stats archive files.
     compress_to_archive order0_compress_env example_compressor [example_input [0x61]] = Some (Inr (stats, archive))
     \<and> list_all2 (restored digest32) [example_input [0x61]] files
     \<and> extract_all order0_archive_env example_decompressor (\<lambda>e d fs. (Inr (), fs @ [(fe_path e, d)])) archive []
         = Some (Inr (), [([0x61], [7, 7, 9])])"
proof -
  let ?w = "\<lambda>e d fs. (Inr (), fs @ [(fe_path e, d)])"
  obtain stats archive where run: "compress_to_archive order0_compress_env example_compressor [example_input [0x61]]
      = Some (Inr (stats, archive))" "within_limits stats" "length archive < 2 ^ 64"
    using example_run by blast
  obtain files where f: "list_all2 (restored digest32) [example_input [0x61]] files"
      "extract_all order0_archive_env example_decompressor ?w archive [] = Some (write_each ?w files [])"
    using archive_round_trip [OF order0_writer.writer_contract_axioms run(1) example_hypotheses(1,2) run(2,3)
        example_hypotheses(3,4), of ?w "[]"]
    by (auto simp: order0_compress_env_def order0_archive_env_def)
  obtain e where "files = [(e, [7, 7, 9])]" "fe_path e = [0x61]"
    using f(1) by (cases files) (auto simp: restored_def scanned_ok_def example_input_def normalize_separators_def)
  then show ?thesis using run(1) f by auto
qed

text \<open>
  C2: the other ways of reading an archive that was just written: verifying it counts every block
  as verified and none as corrupted, its file table lists the inputs, and extracting a single file
  by its path returns the contents of the first input with that path.
\<close>

theorem archive_verifies:
  assumes contract: "writer_contract co good cdf"
    and run: "compress_to_archive co cp inputs = Some (Inr (stats, archive))"
    and inputs: "\<forall>f \<in> set inputs. extractable f" "no_collisions (ae_blake3 (co_archive co)) inputs"
    and limits: "within_limits stats" "length archive < 2 ^ 64"
    and dict: "\<forall>d \<in> set_option (cp_dictionary cp). length (di_hash d) = 32"
    and reader: "reader_matches co cp dc"
  shows "\<exists>md files n. read_metadata (co_archive co) archive = Inr md \<and> am_file_entries md = map fst files
    \<and> list_all2 (restored (ae_blake3 (co_archive co))) inputs files
    \<and> verify (co_archive co) dc archive =
        Some (Inr \<lparr>vr_total_blocks = n, vr_verified_blocks = n, vr_corrupted_blocks = []\<rparr>)
    \<and> (\<forall>i < length files. (\<forall>j < i. fe_path (fst (files ! j)) \<noteq> fe_path (fst (files ! i))) \<longrightarrow>
         extract_file (co_archive co) dc archive (fe_path (fst (files ! i))) = Some (Inr (snd (files ! i))))"
proof -
  obtain md dk baseline ds datas where op: "opened co cp inputs archive md dk baseline ds datas"
    using writer_contract.compressed_opened [OF contract run inputs limits dict] by (elim exE)
  let ?files = "zip (am_file_entries md) datas"
  have len: "length (am_file_entries md) = length datas"
    using op by (auto simp: opened_def dest: list_all2_lengthD)
  have one: "extract_file (co_archive co) dc archive (fe_path (fst (?files ! i))) = Some (Inr (snd (?files ! i)))"
    if "i < length ?files" "\<forall>j < i. fe_path (fst (?files ! j)) \<noteq> fe_path (fst (?files ! i))" for i
    using writer_contract.opened_extract_file [OF contract op reader, of i] that len by simp
  show ?thesis
    using writer_contract.opened_verify [OF contract op reader] one op len
    by (intro exI [of _ md] exI [of _ ?files] exI) (auto simp: opened_def)
qed

theorem archive_verifies_witness:
  "\<exists>stats archive.
     compress_to_archive order0_compress_env example_compressor [example_input [0x61]] = Some (Inr (stats, archive))
     \<and> extract_file order0_archive_env example_decompressor archive [0x61] = Some (Inr [7, 7, 9])"
proof -
  obtain stats archive where run: "compress_to_archive order0_compress_env example_compressor [example_input [0x61]]
      = Some (Inr (stats, archive))" "within_limits stats" "length archive < 2 ^ 64"
    using example_run by blast
  obtain files where f: "list_all2 (restored digest32) [example_input [0x61]] files"
      "\<forall>i < length files. (\<forall>j < i. fe_path (fst (files ! j)) \<noteq> fe_path (fst (files ! i))) \<longrightarrow>
         extract_file order0_archive_env example_decompressor archive (fe_path (fst (files ! i))) = Some (Inr (snd (files ! i)))"
    using archive_verifies [OF order0_writer.writer_contract_axioms run(1) example_hypotheses(1,2) run(2,3)
        example_hypotheses(3,4)]
    by (auto simp: order0_compress_env_def order0_archive_env_def)
  obtain e where "files = [(e, [7, 7, 9])]" "fe_path e = [0x61]"
    using f(1) by (cases files) (auto simp: restored_def scanned_ok_def example_input_def normalize_separators_def)
  then show ?thesis using run(1) f(2) by auto
qed

section \<open>The neural coder and its floating-point tables\<close>

text \<open>
  C10: the program's own coder: with the neural predictor behind every entropy-coded route, for any
  non-negative exponential of the platform, any correct suffix sorter and any lossless zstd,
  compressing a chunk returns, and the block decompresses to exactly the chunk - also under a
  dictionary baseline, and whatever the classifiers and the running averages have become.
\<close>

theorem neural_chunk_round_trip:
  assumes "lib_ok lib" "sais_ok libsais" "zstd_ok encode_all decoder"
    and "ch_length chunk = length (ch_data chunk)" "ch_length chunk \<le> MAX_DECOMPRESSED_BLOCK_SIZE"
  shows "\<exists>r. compress_chunk_with_baseline (neural_env lib entropy libsais encode_all decoder lz4) chunk b ct profile = Some r
    \<and> (\<forall>cc. r = Inr cc \<longrightarrow>
         decompress_chunk_with_baseline (neural_env lib entropy libsais encode_all decoder lz4)
             (cc_data cc) (cc_method cc) (cc_original_size cc) b = Some (Inr (ch_data chunk))
         \<and> length (cc_data cc) \<le> ch_length chunk)"
proof -
  note c = neural_router_contract [OF assms(1,2,3), of entropy lz4]
  show ?thesis
    using router_contract.compress_chunk_returns [OF c assms(4,5), of b ct profile]
      router_contract.compress_chunk_round_trip [OF c _ assms(4,5), of b ct profile] by auto
qed

theorem neural_chunk_round_trip_witness:
  "\<exists>r. compress_chunk_with_baseline plain_env (make_chunk (\<lambda>x. x) (\<lambda>_. 2) 0 [7, 7, 9]) (Some [1, 2]) Text Archival = Some r
    \<and> (\<forall>cc. r = Inr cc \<longrightarrow>
         decompress_chunk_with_baseline plain_env (cc_data cc) (cc_method cc) (cc_original_size cc) (Some [1, 2])
           = Some (Inr [7, 7, 9]))"
proof -
  have "zstd_ok (\<lambda>data _. Inr data) (\<lambda>data. Inr (data, None))" by (simp add: zstd_ok_def)
  from neural_chunk_round_trip [OF plain_lib_ok sorted_suffixes_ok this,
      of "make_chunk (\<lambda>x. x) (\<lambda>_. 2) 0 [7, 7, 9]" "\<lambda>_. 0" "\<lambda>_. Inl []" "Some [1, 2]" Text Archival]
  show ?thesis unfolding plain_env_def by (auto simp: make_chunk_def MAX_DECOMPRESSED_BLOCK_SIZE_def)
qed

text \<open>
  C11: the fast paths of the neural predictor agree with its full table, bit for bit, although every
  sum is rounded: the table is lawful, \<open>query_cdf\<close> returns the two entries of the byte, and
  \<open>decode_symbol\<close>, by searching two Fenwick trees at once, the symbol that searching the table finds.
\<close>

theorem neural_fast_paths:
  assumes "lib_ok lib" "neural_inv n" "unat freq < 32768"
  shows "cdf_table (fst (neural_predict_cdf lib n))
    \<and> neural_query_cdf lib b n = default_query_cdf (neural_predict_cdf lib) b n
    \<and> neural_decode_symbol lib freq n = default_decode_symbol (neural_predict_cdf lib) freq n"
proof -
  note t = find_symbol_correct [OF neural_cdf_table [OF assms(1,2)] assms(3)]
  show ?thesis
    by (simp add: neural_predict_cdf_eq [OF assms(1,2)] neural_cdf_table [OF assms(1,2)] neural_query_cdf_eq [OF assms(1,2)]
        neural_decode_symbol_eq [OF assms(1,2,3) t] default_query_cdf_def default_decode_symbol_def Let_def)
qed

theorem neural_fast_paths_witness:
  "neural_decode_symbol plain_lib 100 neural_new = default_decode_symbol (neural_predict_cdf plain_lib) 100 neural_new"
  using neural_fast_paths [OF plain_lib_ok neural_new_inv, of 100] by simp

text \<open>
  C12: every state the neural predictor can reach - from its constructor, by predicting and coding,
  learning any bytes, resetting, loading any bytes as a state and installing any bytes as a
  dictionary - is saved in a form that every reachable predictor loads, and loading it replaces all
  that was learned: numbers never leave the ranges the loader checks. The platform's exponential
  gives numbers on numbers and its logarithm is bounded on the probabilities.
\<close>

theorem neural_state_round_trip:
  assumes "neural_reachable lib n" "neural_reachable lib n0" "lib_total lib"
  shows "neural_load_state (neural_save_state n) n0 = (True, n0\<lparr>ssm_state := ssm_state n\<rparr>)"
  by (rule reachable_round_trip [OF assms])

lemma plain_lib_total: "lib_total plain_lib"
proof -
  have "lib_exp plain_lib x \<noteq> NaN" for x
    using one_between [of f32] by (auto simp: plain_lib_def Floats.between_def)
  moreover have "Floats.between (- 128) 128 x" if "Floats.between (1 / 2 ^ 20) 2 x" for x
    by (rule between_mono [OF that]) simp_all
  ultimately show ?thesis using plain_lib_ok by (simp add: lib_total_def plain_lib_def)
qed

theorem neural_state_round_trip_witness:
  "\<exists>n. n = neural_update plain_lib 7 neural_new \<and> prev_byte (ssm_state n) = 7
     \<and> neural_load_state (neural_save_state n) neural_new = (True, neural_new\<lparr>ssm_state := ssm_state n\<rparr>)"
proof -
  have "prev_byte (ssm_state (neural_update plain_lib 7 neural_new)) = 7"
    by (simp add: neural_update_def state_update_def Let_def)
  then show ?thesis
    using neural_state_round_trip [OF reach_update [OF reach_new] reach_new plain_lib_total] by blast
qed

text \<open>
  A saved state with one more byte is rejected, but by then the inner run-length predictor has been
  overwritten: the loader does change the predictor it rejects a state for.
\<close>

theorem neural_rejected_load_overwrites:
  assumes "neural_reachable lib n" "neural_reachable lib n0" "lib_total lib"
  shows "neural_load_state (neural_save_state n @ [b]) n0
    = (False, n0\<lparr>ssm_state := (ssm_state n0)\<lparr>ssm_rle := ssm_rle (ssm_state n)\<rparr>\<rparr>)"
  by (rule reachable_load_trailing [OF assms])

theorem neural_rejected_load_overwrites_witness:
  "fst (neural_load_state (neural_save_state neural_new @ [0]) neural_new) = False"
  using neural_rejected_load_overwrites [OF reach_new reach_new plain_lib_total] by simp

text \<open>
  C13: whatever 256 single-precision numbers a predictor returns - negative, infinite or not numbers
  at all - and in whatever order the sort leaves ties, \<open>probs_to_cdf\<close> gives a lawful table: it
  starts at zero, ends at 32768 and rises strictly, so every byte can be coded.
\<close>

theorem probs_to_cdf_lawful:
  assumes "sort_ok sort_unstable_by" "length probs = 256" "\<forall>p \<in> set probs. is_f32 p"
  shows "cdf_table (probs_to_cdf sort_unstable_by probs)"
  by (rule probs_to_cdf_table [OF assms])

theorem probs_to_cdf_lawful_witness: "cdf_table (probs_to_cdf insertion_sort (replicate 256 (Inf True)))"
  by (rule probs_to_cdf_lawful [OF insertion_sort_ok]) simp_all

text \<open>
  C14: the same agreement for the run-length predictor.
\<close>

theorem rle_fast_paths:
  assumes "rle_inv r" "unat freq < 32768"
  shows "cdf_table (fst (rle_predict_cdf r)) \<and> rle_query_cdf b r = default_query_cdf rle_predict_cdf b r
    \<and> rle_decode_symbol freq r = default_decode_symbol rle_predict_cdf freq r"
proof -
  note t = find_symbol_correct [OF rle_cdf_table [OF assms(1)] assms(2)]
  show ?thesis
    by (simp add: rle_predict_cdf_eq [OF assms(1)] rle_cdf_table [OF assms(1)] rle_query_cdf_eq [OF assms(1)]
        rle_decode_symbol_eq [OF assms t] default_query_cdf_def default_decode_symbol_def Let_def)
qed

theorem rle_fast_paths_witness:
  "rle_decode_symbol 100 rle_new = default_decode_symbol rle_predict_cdf 100 rle_new"
  using rle_fast_paths [OF rle_new_inv, of 100] by simp

text \<open>
  C15: after any bytes the counts of the move-to-front predictor are within their limits: every row
  holds 256 counts below the rescaling threshold, its total is their sum and stays below a million,
  so neither the 16-bit counts saturate nor a 32-bit total overflows.
\<close>

theorem mtf_counts_bounded:
  "mtf_inv (fold mtf_update bytes mtf_predictor_new)
   \<and> mtf_order0_total (fold mtf_update bytes mtf_predictor_new) = sum_list (mtf_order0 (fold mtf_update bytes mtf_predictor_new))
   \<and> mtf_order0_total (fold mtf_update bytes mtf_predictor_new) < 1000000"
proof -
  have "mtf_inv m \<Longrightarrow> mtf_inv (fold mtf_update bytes m)" for m
    by (induction bytes arbitrary: m) (simp_all add: mtf_update_inv)
  from this [OF mtf_new_inv] show ?thesis by (simp add: mtf_inv_def counted_row_def TOTAL_RESCALE_THRESHOLD_def)
qed

text \<open>
  C16: the state machine of the LZ4 predictor follows the token format: after the four bytes of the
  size and any number of sequences - token, length extensions, literals, offset - it expects a
  token again, for every literal and match length the format can write.
\<close>

theorem lz4_state_machine:
  assumes "length size_prefix = 4" "\<forall>(lits, lo, hi, m) \<in> set seqs. length lits \<le> MAX_LIT_LEN"
  shows "lz_state (fold lz4_update (size_prefix @ concat (map (\<lambda>(lits, lo, hi, m). lz_head lits m @ lits @ lz_tail lo hi m) seqs))
    lz4_aware_new) = Token"
  by (rule lz4_tracks_stream [OF assms])

theorem lz4_state_machine_witness:
  "lz_state (fold lz4_update ([9, 0, 0, 0] @ lz_head [1, 2, 3] 20 @ [1, 2, 3] @ lz_tail 5 0 20) lz4_aware_new) = Token"
  using lz4_state_machine [of "[9, 0, 0, 0]" "[([1, 2, 3], 5, 0, 20)]"] by (simp add: MAX_LIT_LEN_def)

text \<open>
  C17: the context mixer, for every configuration, every mathematical library and any bytes coded so
  far: its tables stay within 512 MiB, their counts within 16 bits, there is one weight per model,
  and the coder over it has a lawful table - even if the weights are no longer numbers.
\<close>

theorem context_mixer_bounded:
  "mixer_inv (fold (\<lambda>b c. context_mixer_update lib b (snd (mixer_predict lib c))) bytes (mixer_with_config config))
   \<and> sum_list (map order_n_memory (cm_models
        (fold (\<lambda>b c. context_mixer_update lib b (snd (mixer_predict lib c))) bytes (mixer_with_config config)))) \<le> 512 * 1024 * 1024
   \<and> cdf_table (probs_to_cdf insertion_sort (fst (mixer_predict lib
        (fold (\<lambda>b c. context_mixer_update lib b (snd (mixer_predict lib c))) bytes (mixer_with_config config)))))"
proof -
  have step: "mixer_inv c \<Longrightarrow> mixer_inv (fold (\<lambda>b c. context_mixer_update lib b (snd (mixer_predict lib c))) bytes c)" for c
    by (induction bytes arbitrary: c) (simp_all add: context_mixer_update_inv mixer_predict_inv)
  let ?c = "fold (\<lambda>b c. context_mixer_update lib b (snd (mixer_predict lib c))) bytes (mixer_with_config config)"
  have inv: "mixer_inv ?c" by (rule step [OF mixer_with_config_inv])
  have "cdf_table (probs_to_cdf insertion_sort (fst (mixer_predict lib ?c)))"
    using probs_to_cdf_table [OF insertion_sort_ok] probs_predictor.probs_ok [OF mixer_probs_predictor inv, of lib] by blast
  then show ?thesis using inv by (simp add: mixer_inv_def MAX_TOTAL_MEMORY_def)
qed

section \<open>Compressing and decompressing\<close>

text \<open>
  C18: for every coding predictor and libraries that meet the contract, compressing a chunk returns,
  and unless zstd reported an error the block decompresses to exactly the chunk, is no larger than
  it and records its size and hash - whichever of the eight methods the cascade chose, in every
  profile, for every content type and dictionary baseline.
\<close>

theorem chunk_round_trip:
  assumes "router_contract env good cdf"
    and "ch_length chunk = length (ch_data chunk)" "ch_length chunk \<le> MAX_DECOMPRESSED_BLOCK_SIZE"
  shows "\<exists>r. compress_chunk_with_baseline env chunk b ct profile = Some r
    \<and> (\<forall>cc. r = Inr cc \<longrightarrow>
         decompress_chunk_with_baseline env (cc_data cc) (cc_method cc) (cc_original_size cc) b
           = Some (Inr (ch_data chunk))
         \<and> length (cc_data cc) \<le> ch_length chunk
         \<and> cc_original_size cc = ch_length chunk \<and> cc_blake3_hash cc = ch_blake3_hash chunk)"
  using router_contract.compress_chunk_returns [OF assms] router_contract.compress_chunk_round_trip [OF assms(1) _ assms(2,3)]
  by blast

theorem chunk_round_trip_witness:
  "\<exists>r. compress_chunk_with_baseline order0_env (make_chunk (\<lambda>x. x) (\<lambda>_. 2) 0 [7, 7, 9]) None Text Archival
      = Some r
    \<and> (\<forall>cc. r = Inr cc \<longrightarrow>
         decompress_chunk_with_baseline order0_env (cc_data cc) (cc_method cc) (cc_original_size cc) None
           = Some (Inr [7, 7, 9]))"
  using chunk_round_trip [OF order0_router.router_contract_axioms,
      of "make_chunk (\<lambda>x. x) (\<lambda>_. 2) 0 [7, 7, 9]" None Text Archival]
  by (auto simp: make_chunk_def MAX_DECOMPRESSED_BLOCK_SIZE_def)

text \<open>
  C19: on every payload, method and claimed size, genuine or crafted, decompressing a block returns,
  and an accepted block has exactly the claimed size, within the block limit.
\<close>

theorem decompress_chunk_total:
  assumes "router_contract env good cdf"
  shows "\<exists>r. decompress_chunk_with_baseline env payload method n b = Some r
    \<and> (\<forall>data. r = Inr data \<longrightarrow> length data = n \<and> n \<le> MAX_DECOMPRESSED_BLOCK_SIZE)"
  using router_contract.decompress_chunk_returns [OF assms] router_contract.decompress_chunk_length [OF assms]
  by blast

theorem decompress_chunk_total_witness:
  "\<exists>r. decompress_chunk_with_baseline order0_env [1, 2, 3] BwtPredictorRans 5 None = Some r
    \<and> (\<forall>data. r = Inr data \<longrightarrow> length data = 5)"
  using decompress_chunk_total [OF order0_router.router_contract_axioms, of "[1, 2, 3]" BwtPredictorRans 5 None]
  by blast

text \<open>
  C20: a whole file: cut into content-defined chunks, each chunk compressed, each block
  decompressed, the results put together in order are the file.
\<close>

theorem file_round_trip:
  assumes "router_contract env good cdf" "fastcdc_ok fastcdc"
    and "mapRun (\<lambda>chunk. compress_chunk_with_baseline env chunk b ct profile)
           (chunk_data_refs fastcdc blake3 H data) = Some (Inr blocks)"
  shows "\<exists>parts. mapRun (\<lambda>cc. decompress_chunk_with_baseline env (cc_data cc) (cc_method cc) (cc_original_size cc) b)
           blocks = Some (Inr parts)
    \<and> concat parts = data"
proof -
  let ?chunks = "chunk_data_refs fastcdc blake3 H data"
  note cover = chunk_data_refs_cover(1) [OF assms(2), of data blake3 H]
  have fits: "ch_length c = length (ch_data c) \<and> ch_length c \<le> MAX_DECOMPRESSED_BLOCK_SIZE"
    if "c \<in> set ?chunks" for c
    using chunks_cover_length [OF cover that] chunk_data_refs_cover(2) [OF assms(2) that]
    by (simp add: MAX_CHUNK_SIZE_def MAX_DECOMPRESSED_BLOCK_SIZE_def)
  have "mapRun (\<lambda>cc. decompress_chunk_with_baseline env (cc_data cc) (cc_method cc) (cc_original_size cc) b) blocks
      = Some (Inr (map ch_data ?chunks))"
    by (rule mapRun_compose [OF assms(3)])
      (use router_contract.compress_chunk_round_trip [OF assms(1)] fits in blast)
  then show ?thesis using chunks_cover_concat [OF cover] by simp
qed

theorem file_round_trip_witness:
  "\<exists>blocks parts.
     mapRun (\<lambda>chunk. compress_chunk_with_baseline order0_env chunk None Text Fast)
       (chunk_data_refs bytewise (\<lambda>x. x) (\<lambda>_. 0) [5, 6]) = Some (Inr blocks)
     \<and> mapRun (\<lambda>cc. decompress_chunk_with_baseline order0_env (cc_data cc) (cc_method cc) (cc_original_size cc) None)
         blocks = Some (Inr parts)
     \<and> concat parts = [5, 6]"
proof -
  have "\<exists>blocks. mapRun (\<lambda>chunk. compress_chunk_with_baseline order0_env chunk None Text Fast)
       (chunk_data_refs bytewise (\<lambda>x. x) (\<lambda>_. 0) [5, 6]) = Some (Inr blocks)"
    by (simp add: chunk_data_refs_def bytewise_def make_chunk_def compress_chunk_with_baseline_def
        fast_route_def compress_fast_def zstd_compress_def order0_env_def Let_def)
  then show ?thesis
    using file_round_trip [OF order0_router.router_contract_axioms bytewise_ok] by blast
qed

section \<open>The entropy coder\<close>

text \<open>
  C21: decoding a block with a fresh Order-0 model returns the bytes that were encoded, for every
  block the decoder accepts, whatever model states the two sides start from, and both sides end
  in the same model state.
\<close>

theorem order0_coder_round_trip:
  assumes "order0_inv s" "encode_block order0_predictor data s = Some (Inr compressed, s')"
    and "length data \<le> MAX_DECODE_SIZE" "data \<noteq> []"
  shows "decode_block order0_predictor compressed (length data) t = Some (Inr data, s')"
  using o0.decode_encode_inner [of s data True compressed s' t] assms
  by (auto simp: encode_block_def decode_block_def order0_reset_state)

theorem order0_coder_round_trip_witness:
  "\<exists>compressed s'. encode_block order0_predictor [7, 7, 9] order0_new = Some (Inr compressed, s')
     \<and> decode_block order0_predictor compressed 3 order0_new = Some (Inr [7, 7, 9], s')"
proof -
  obtain compressed s' where e: "encode_block order0_predictor [7, 7, 9] order0_new = Some (Inr compressed, s')"
    using o0.encode_inner_succeeds [OF order0_new_inv, of "[7, 7, 9]" True] by (auto simp: encode_block_def)
  then show ?thesis
    using order0_coder_round_trip [OF order0_new_inv e, of order0_new]
    by (auto simp: MAX_DECODE_SIZE_def MAX_DECOMPRESSED_BLOCK_SIZE_def numeral_3_eq_3)
qed

text \<open>
  C22: with the Order-0 model the encoder returns on every block, and up to \<open>2\<^sup>2\<^sup>3 - 3\<close> bytes it
  returns without the cache overflow error.
\<close>

theorem order0_encoder_returns:
  assumes "order0_inv s"
  shows "\<exists>r s'. encode_block order0_predictor data s = Some (r, s')
    \<and> (length data \<le> 2 ^ 23 - 3 \<longrightarrow> (\<exists>compressed. r = Inr compressed))"
  using o0.encode_inner_returns [OF assms, of data True] o0.encode_inner_succeeds [OF assms, of data True]
  by (fastforce simp: encode_block_def)

theorem order0_encoder_returns_witness:
  "\<exists>r s'. encode_block order0_predictor [7, 7, 9] order0_new = Some (r, s') \<and> (\<exists>c. r = Inr c)"
  using order0_encoder_returns [OF order0_new_inv, of "[7, 7, 9]"] by auto

text \<open>
  On any byte string and any claimed length the decoder returns; when it accepts, it has
  produced exactly the claimed number of bytes, within the block limit.
\<close>

theorem order0_decoder_returns:
  assumes "order0_inv s"
  shows "\<exists>r s'. decode_block order0_predictor compressed n s = Some (r, s')
    \<and> (\<forall>out. r = Inr out \<longrightarrow> length out = n \<and> n \<le> MAX_DECODE_SIZE)"
  unfolding decode_block_def by (rule o0.decode_inner_returns [OF assms])

theorem order0_decoder_returns_witness:
  "\<exists>r s'. decode_block order0_predictor [1, 2, 3] 5 order0_new = Some (r, s')
    \<and> (\<forall>out. r = Inr out \<longrightarrow> length out = 5 \<and> 5 \<le> MAX_DECODE_SIZE)"
  by (rule order0_decoder_returns [OF order0_new_inv])

section \<open>The Order-0 model\<close>

text \<open>
  C23: the invariant of the model (256 positive bounded counts, their total, a Fenwick tree over
  them) holds of a new model and of every reset, and every update keeps it, the rescaling one
  included; it bounds the total below \<open>2\<^sup>3\<^sup>2\<close>, so no counter wraps.
\<close>

theorem order0_invariant:
  "order0_inv order0_new \<and> order0_inv (order0_reset m)
   \<and> (order0_inv m \<longrightarrow>
        order0_inv (order0_update byte m) \<and> 256 \<le> o_total m \<and> o_total m < 2 ^ 32)"
  using order0_new_inv order0_update_inv order0_total_bounds [of m] by (auto simp: order0_reset_new)

theorem order0_invariant_witness:
  "order0_inv (order0_update 7 order0_new) \<and> o_total order0_new < 2 ^ 32"
  using order0_invariant [of order0_new 7] by blast

text \<open>
  The two fast paths agree with the table of \<open>predict_cdf\<close>: \<open>query_cdf\<close> returns the two
  entries of the byte, and \<open>decode_symbol\<close> the symbol that searching the table finds.
\<close>

theorem order0_fast_paths:
  assumes "order0_inv m" "unat freq < 32768"
  shows "order0_query_cdf b m
      = ((fst (order0_predict_cdf m) ! unat b, fst (order0_predict_cdf m) ! (unat b + 1)), m)
    \<and> order0_decode_symbol freq m = default_decode_symbol order0_predict_cdf freq m"
proof
  show "order0_query_cdf b m
      = ((fst (order0_predict_cdf m) ! unat b, fst (order0_predict_cdf m) ! (unat b + 1)), m)"
    by (simp add: order0_query_cdf_eq [OF assms(1)] order0_predict_cdf_eq [OF assms(1)])
  note t = find_symbol_correct [OF order0_cdf_table [OF assms(1)] assms(2)]
  show "order0_decode_symbol freq m = default_decode_symbol order0_predict_cdf freq m"
    by (simp add: order0_decode_symbol_correct [OF assms t] default_decode_symbol_def Let_def
        order0_predict_cdf_eq [OF assms(1)])
qed

theorem order0_fast_paths_witness:
  "order0_decode_symbol 100 order0_new = default_decode_symbol order0_predict_cdf 100 order0_new"
  using order0_fast_paths [OF order0_new_inv, of 100] by simp

text \<open>
  C24: on every well formed Fenwick tree a prefix query is the sum of the counts before it, adding
  to one count keeps the tree well formed for the changed counts, and rebuilding establishes it.
\<close>

theorem fenwick_tree_correct:
  assumes "length counts \<le> 256"
  shows "is_fenwick (fenwick_rebuild counts) counts
    \<and> (is_fenwick tree counts \<longrightarrow>
         (n \<le> length counts \<longrightarrow> fenwick_prefix tree n = sum_list (take n counts))
         \<and> (i < length counts \<longrightarrow> is_fenwick (fenwick_add tree i d) (counts[i := counts ! i + d])))"
  using fenwick_prefix_correct fenwick_add_correct fenwick_rebuild_correct [OF assms] by blast

theorem fenwick_tree_correct_witness:
  "fenwick_prefix (fenwick_add (fenwick_rebuild [3, 1, 4, 1, 5]) 2 10) 4 = 19"
proof -
  have "is_fenwick (fenwick_add (fenwick_rebuild [3, 1, 4, 1, 5]) 2 10) [3, 1, 14, 1, 5]"
    using fenwick_tree_correct [of "[3, 1, 4, 1, 5]" "fenwick_rebuild [3, 1, 4, 1, 5]" 0 2 10] by simp
  then show ?thesis
    using fenwick_tree_correct [of "[3, 1, 14, 1, 5]" "fenwick_add (fenwick_rebuild [3, 1, 4, 1, 5]) 2 10" 4]
    by simp
qed

text \<open>
  The multiply-and-shift division of the model is the division of the integers, for every
  total and every numerator the quantiser forms, on the magic and on the hardware path.
\<close>

theorem exact_divisor_correct:
  assumes "0 < tot" "n \<le> tot * 32512" "tot < 2 ^ 32"
  shows "exact_div (exact_divisor_new tot) n = n div tot"
  by (rule exact_div_correct [OF assms])

theorem exact_divisor_correct_witness: "exact_div (exact_divisor_new 257) 1000003 = 3891"
  using exact_divisor_correct [of 257 1000003] by simp

text \<open>
  A saved Order-0 state loads back to the same model, an accepted state always satisfies the
  invariant, and a rejected one leaves the model as it was.
\<close>

theorem order0_state_round_trip:
  "(order0_inv m \<longrightarrow> order0_load_state (order0_save_state m) m0 = (True, m))
   \<and> (order0_load_state data m0 = (True, m') \<longrightarrow> order0_inv m')
   \<and> (order0_load_state data m0 = (False, m') \<longrightarrow> m' = m0)"
  using order0_load_save order0_load_inv order0_load_rejected by blast

theorem order0_state_round_trip_witness:
  "order0_load_state (order0_save_state order0_new) (order0_update 5 order0_new) = (True, order0_new)"
  using order0_state_round_trip [of order0_new "order0_update 5 order0_new"] order0_new_inv by blast

section \<open>Transforms\<close>

text \<open>
  C25: the inverse Burrows-Wheeler transform with move-to-front returns the block that was encoded,
  for whatever suffix array the sorting library returns, as long as it is one.
\<close>

theorem bwt_mtf_round_trip:
  assumes "sais_ok libsais" "bwt_mtf_encode libsais data = Inr encoded"
  shows "bwt_mtf_decode encoded (length data) = Inr data"
  by (rule bwt_mtf_decode_encode [OF assms])

text \<open>A suffix sorter that knows one text, for the concrete instances.\<close>

definition one_text_sorter :: suffix_sorter where
  "one_text_sorter text = (if text = [2, 1, 2, 2, 1, 2] then Some [4, 1, 5, 3, 0, 2] else None)"

lemma one_text_sorter_ok: "sais_ok one_text_sorter"
  by (auto simp: sais_ok_def one_text_sorter_def suffix_array_of_def upt_rec numeral_eq_Suc
      simp del: mset_upt split: if_splits)

lemma one_text_bwt: "bwt_encode one_text_sorter [2, 1, 2] = Inr ([2, 2, 1], 1)"
  by (simp add: bwt_encode_def one_text_sorter_def Let_def MAX_BWT_INPUT_SIZE_def)

theorem bwt_mtf_round_trip_witness: "bwt_mtf_decode [1, 0, 0, 0, 2, 0, 2] 3 = Inr [2, 1, 2]"
proof -
  have "bwt_mtf_encode one_text_sorter [2, 1, 2] = Inr [1, 0, 0, 0, 2, 0, 2]"
    by (simp add: bwt_mtf_encode_def bwt_mtf_encode_parts_def one_text_bwt) code_simp
  from bwt_mtf_round_trip [OF one_text_sorter_ok this] show ?thesis by (simp add: numeral_3_eq_3)
qed

text \<open>
  C26: the ways of walking the inverse transform. On any bytes and any primary index, the single
  chains agree, with the packed table and without it. The walk from both ends agrees with them
  whenever the cycle of the mapping through the primary index closes after the length of the block;
  and on every block the encoder writes it does, periodic ones included, where the mapping is not
  one cycle. So every choice of thresholds decodes an encoded block to the same bytes.
\<close>

theorem bwt_walks_agree:
  assumes "max_packed_lf \<le> 2 ^ 24" "max_packed_lf' \<le> 2 ^ 24"
  shows "((length bwt \<le> two_chain_min \<or> max_packed_lf < length bwt)
          \<and> (length bwt \<le> two_chain_min' \<or> max_packed_lf' < length bwt)
        \<or> (LF bwt ^^ length bwt) (unat primary) = unat primary \<longrightarrow>
      bwt_decode_with bwt primary two_chain_min max_packed_lf = bwt_decode_with bwt primary two_chain_min' max_packed_lf')
    \<and> (sais_ok libsais \<and> bwt_encode libsais data = Inr (bwt, primary) \<longrightarrow>
      (LF bwt ^^ length bwt) (unat primary) = unat primary)"
proof -
  have "bwt_decode_with bwt primary t m = bwt_decode_with bwt primary (length bwt) m" if "m < length bwt" for t m
    using that by (simp add: bwt_decode_with_def Let_def)
  then show ?thesis
    using bwt_walks_chain [OF assms, of bwt] bwt_encode_cycle by (metis order_refl)
qed

theorem bwt_walks_agree_witness:
  "bwt_decode_with [2, 2, 1] 1 0 3 = bwt_decode_with [2, 2, 1] 1 3 0"
  using bwt_walks_agree [of 3 0 "[2, 2, 1]" 0 3 1 one_text_sorter "[2, 1, 2]"] one_text_sorter_ok one_text_bwt by simp

text \<open>On other bytes the two walks may differ: the cycle through the primary index is too short here.\<close>

theorem bwt_two_chain_differs:
  "bwt_decode_with [0x62, 0x61, 0x63] 0 3 3 = Inr [0x62, 0x61, 0x62]
   \<and> bwt_decode_with [0x62, 0x61, 0x63] 0 0 3 = Inr [0x61, 0x61, 0x62]"
  by code_simp

text \<open>
  C27: the Lempel-Ziv decoder returns the block that was encoded, overlapping matches, long
  literal runs and length extensions included.
\<close>

theorem lz77_round_trip:
  assumes "lz77_encode data = Some encoded"
  shows "lz77_decode encoded (length data) = Inr data"
  by (rule lz77_decode_encode [OF assms])

theorem lz77_round_trip_witness: "lz77_decode [9, 0, 0, 0, 0x15, 0, 1, 0] 9 = Inr [0, 0, 0, 0, 0, 0, 0, 0, 0]"
  using lz77_round_trip [OF lz77_encode_zeros] by (simp add: nine_zeros_def numeral_eq_Suc)

text \<open>
  Whatever bytes are decoded, an accepted block has exactly the expected size, and during the
  decoding the output never exceeds it by more than the shortest unchecked match.
\<close>

theorem lz77_decode_bounded:
  "(lz77_decode encoded n = Inr data \<longrightarrow> length data = n \<and> n \<le> MAX_LZ77_INPUT_SIZE)
   \<and> (lz77_decode_loop n s [] = Inr out \<longrightarrow> length out < n + 18)"
  using lz77_decode_length lz77_decode_loop_bound [of n s "[]" out] by auto

theorem lz77_decode_bounded_witness: "length nine_zeros \<le> MAX_LZ77_INPUT_SIZE"
  using lz77_decode_bounded lz77_decode_encode [OF lz77_encode_zeros] by blast

text \<open>
  C28: both zero-run codes decode to the bytes they encode, and an accepted run-length stream has
  exactly the expected size.
\<close>

theorem rle_round_trip:
  "(length d < 2 ^ 32 \<longrightarrow>
      (case rle_encode d of None \<Rightarrow> 255 \<in> set d | Some e \<Rightarrow> rle_decode e (length d) = Inr d)
      \<and> rle_decode_escaped (rle_encode_escaped d) (length d) = Inr d)
   \<and> (rle_decode e n = Inr d' \<longrightarrow> length d' = n)
   \<and> (rle_decode_escaped e n = Inr d' \<longrightarrow> length d' = n)"
  using rle_decode_encode [of d] rle_decode_encode_escaped [of d] rle_decode_length [of e n d']
    rle_decode_escaped_length [of e n d']
  by (auto simp: rle_encode_def split: option.split)

theorem rle_round_trip_witness:
  "rle_encode [0, 0, 0, 7, 254] = Some [0, 0, 8, 255]
   \<and> rle_decode [0, 0, 8, 255] 5 = Inr [0, 0, 0, 7, 254]
   \<and> rle_decode_escaped (rle_encode_escaped [0, 254, 255]) 3 = Inr [0, 254, 255]"
proof -
  have e: "rle_encode [0, 0, 0, 7, 254] = Some [0, 0, 8, 255]"
    by (simp add: rle_encode_def encode_run_length.simps)
  have "rle_decode [0, 0, 8, 255] (length [0, 0, 0, 7, 254 :: u8]) = Inr [0, 0, 0, 7, 254]"
    using rle_round_trip [of "[0, 0, 0, 7, 254]"] by (simp add: e)
  moreover have "rle_decode_escaped (rle_encode_escaped [0, 254, 255]) (length [0, 254, 255 :: u8])
      = Inr [0, 254, 255]"
    using rle_round_trip [of "[0, 254, 255]"] by simp
  moreover have "length [0, 0, 0, 7, 254 :: u8] = 5" "length [0, 254, 255 :: u8] = 3" by simp_all
  ultimately show ?thesis using e by (simp only:)
qed

text \<open>
  Move-to-front decoding inverts encoding, and both keep the length.
\<close>

theorem mtf_round_trip:
  "mtf_decode (mtf_encode data) = data \<and> length (mtf_encode data) = length data"
  by (simp add: mtf_decode_encode)

text \<open>
  C29: undoing the branch conversion of an executable returns the bytes, and the conversion is
  tried exactly on the three executable formats that are recognised.
\<close>

theorem bcj_round_trip:
  "encode_x86 data = (if is_x86_executable data then Some (transform_x86 True 0 data) else None)
   \<and> decode_x86 (transform_x86 True 0 data) = data
   \<and> length (transform_x86 e 0 data) = length data"
  using transform_x86_inverse [of True data] by (simp add: encode_x86_def decode_x86_def)

text \<open>
  C30: byte-plane encoding returns for every block; when it yields a payload, the payload is
  smaller than the block and decodes to it.
\<close>

theorem byteplane_round_trip:
  "\<exists>r. byteplane_encode H data width = Some r
    \<and> (case r of None \<Rightarrow> True
       | Some payload \<Rightarrow> length payload < length data
           \<and> byteplane_decode payload (length data) = Some (Inr data))"
  using byteplane_encode_returns [of H data width] byteplane_encode_shrinks [of H data width]
    byteplane_decode_encode [of H data width]
  by (auto split: option.splits)

section \<open>The archive format\<close>

text \<open>
  C31: the archive header reads back what was written, and whatever the reader accepts is within
  the resource limits and is the written form of the result up to the magic number.
\<close>

theorem archive_header_wire:
  assumes "blake3_len_ok blake3"
  shows "(archive_header_within_limits h \<longrightarrow>
        archive_header_read blake3 (archive_header_write blake3 h @ s) = Inr (h, s))
    \<and> (archive_header_read blake3 t = Inr (h', t') \<longrightarrow>
        archive_header_within_limits h'
        \<and> (t = archive_header_write blake3 h' @ t'
           \<or> t = LEGACY_MAGIC @ drop 8 (archive_header_write blake3 h') @ t'))"
proof -
  have "MAGIC @ drop 8 (archive_header_write blake3 h') = archive_header_write blake3 h'"
    by (simp add: archive_header_write_def)
  then show ?thesis
    using archive_header_read_write [OF assms, of h s] archive_header_read_Inr [of blake3 t h' t']
    by (auto simp flip: append_assoc)
qed

definition example_header :: archive_header where
  "example_header =
     \<lparr>ah_flags = 2, ah_predictor_id = Order0, ah_file_count = 3, ah_solid_group_count = 1,
      ah_block_count = 4, ah_file_table_offset = 500, ah_block_index_offset = 400\<rparr>"

theorem archive_header_wire_witness:
  "archive_header_read (\<lambda>_. replicate 32 0) (archive_header_write (\<lambda>_. replicate 32 0) example_header)
     = Inr (example_header, [])"
  using archive_header_wire [of "\<lambda>_. replicate 32 0" example_header "[]"]
  by (simp add: blake3_len_ok_def example_header_def archive_header_within_limits_def
      MAX_FILE_COUNT_def MAX_BLOCK_COUNT_def MAX_SOLID_GROUP_COUNT_def)

text \<open>
  An archive that carries the older magic number is rejected as corrupt although the reader
  lets that magic number through: the writer of that version hashed its own magic, the reader
  always hashes the newer one, so acceptance needs two different headers with equal tags.
\<close>

definition legacy_header_bytes :: "(bytes \<Rightarrow> bytes) \<Rightarrow> archive_header \<Rightarrow> bytes" where
  "legacy_header_bytes blake3 h =
     (let body = LEGACY_MAGIC @ take 32 (drop 8 (archive_header_write blake3 h))
      in body @ take 8 (blake3 body))"

definition example_blake3 :: "bytes \<Rightarrow> bytes" where
  "example_blake3 x = take 32 (x @ replicate 32 0)"

lemma example_blake3_len: "blake3_len_ok example_blake3"
  by (auto simp: blake3_len_ok_def example_blake3_def min_def)

theorem legacy_header_rejected:
  assumes "blake3_len_ok blake3"
    and "take 8 (blake3 (LEGACY_MAGIC @ take 32 (drop 8 (archive_header_write blake3 h))))
       \<noteq> compute_blake3_tag blake3 h"
  shows "archive_header_read blake3 (legacy_header_bytes blake3 h @ s) = Inl HeaderIntegrityMismatch"
  using assms
  by (cases h) (simp add: legacy_header_bytes_def archive_header_write_def archive_header_read_def
      blake3_len_ok_def Let_def)

theorem legacy_header_rejected_witness:
  "archive_header_read example_blake3 (legacy_header_bytes example_blake3 example_header) = Inl HeaderIntegrityMismatch"
  using legacy_header_rejected [OF example_blake3_len, of example_header "[]"]
  by (simp add: example_blake3_def compute_blake3_tag_def archive_header_write_def)

text \<open>
  A block header reads back exactly, and an accepted header is the written form up to the
  flag byte (any non-zero value counts as set) and the two reserved bytes, which the checksum
  does not see.
\<close>

theorem block_header_wire:
  "block_header_read_at crc off (block_header_write crc h @ s) = Inr (h, s)
   \<and> (block_header_read_at crc off t = Inr (h', t') \<longleftrightarrow>
       (\<exists>flag reserved.
          bh_predictor_state_flag h' = (flag \<noteq> 0) \<and>
          t = u32_to_le BLOCK_MAGIC @ u32_to_le (bh_block_id h') @ u32_to_le (bh_solid_group_id h')
              @ compression_method_code (bh_compression_method h') # flag # u16_to_le reserved
              @ u32_to_le (bh_compressed_size h') @ u32_to_le (bh_uncompressed_size h')
              @ u32_to_le (block_header_crc crc h') @ t'))"
  by (simp only: block_header_read_write block_header_read_at_Inr simp_thms)

text \<open>
  The fixed-size records (block trailer, block index entry, solid group entry, footer) read
  back what was written and have the declared sizes; index entries and footers are accepted only
  in their written form.
\<close>

theorem fixed_records_wire:
  "(block_index_entry_read s = Inr (e, s') \<longleftrightarrow> s = block_index_entry_write e @ s')
   \<and> (archive_footer_read crc s = Inr (f, s') \<longleftrightarrow> s = archive_footer_write crc f @ s')
   \<and> solid_group_entry_read (solid_group_entry_write g @ s) = Inr (g, s)
   \<and> length (block_index_entry_write e) = BLOCK_INDEX_ENTRY_SIZE
   \<and> length (archive_footer_write crc f) = ARCHIVE_FOOTER_SIZE
   \<and> length (solid_group_entry_write g) = SOLID_GROUP_ENTRY_SIZE
   \<and> length (block_header_write crc h) = BLOCK_HEADER_SIZE"
  by (simp add: block_index_entry_read_Inr archive_footer_read_Inr)

text \<open>
  C37: a file entry written with prefix compression against any valid previous path reads back,
  with the permissions masked, and takes the announced number of bytes.
\<close>

theorem file_entry_prefixed_round_trip:
  assumes "file_entry_ok e" "utf8_valid previous"
  shows "\<exists>out. file_entry_write_prefixed e previous = Inr out
     \<and> length out = prefixed_path_size e previous + 64
     \<and> file_entry_read_prefixed previous (out @ s) = Inr (sanitize_permissions e, s)"
  by (rule file_entry_read_write_prefixed [OF assms])

theorem file_entry_prefixed_round_trip_witness:
  "\<exists>out. file_entry_write_prefixed example_entry [0x61, 0x2F, 0x63] = Inr out
     \<and> file_entry_read_prefixed [0x61, 0x2F, 0x63] out = Inr (sanitize_permissions example_entry, [])"
  using file_entry_prefixed_round_trip [OF example_entry_ok, of "[0x61, 0x2F, 0x63]" "[]"]
  by (auto simp: utf8_valid_ascii)

text \<open>
  C32: no file entry a reader accepts, plain or prefix-compressed, carries an absolute path, a
  drive letter, a NUL byte, a parent component, invalid UTF-8, an overlong path or permission bits
  outside the mask.
\<close>

theorem file_entry_paths_safe:
  assumes "file_entry_read s = Inr (e, s') \<or> file_entry_read_prefixed previous s = Inr (e, s')"
  shows "safe_path (fe_path e) \<and> utf8_valid (fe_path e) \<and> length (fe_path e) \<le> MAX_PATH_LENGTH
    \<and> fe_permissions e AND SAFE_PERMISSION_MASK = fe_permissions e"
  using assms file_entry_read_Inr [of s e s'] file_entry_read_prefixed_Inr [of previous s e s']
  by (auto simp: file_entry_ok_def sanitize_permissions_def dest!: arg_cong [of _ _ fe_permissions])

theorem file_entry_paths_safe_witness:
  "safe_path (fe_path (sanitize_permissions example_entry))"
  using file_entry_paths_safe file_entry_read_write [OF example_entry_ok] by blast

section \<open>Splitting and routing\<close>

text \<open>
  Fixed-size chunking with a positive block size returns, and its chunks, end to end, are the
  file, each no longer than the block size.
\<close>

theorem chunk_fixed_covers:
  assumes "0 < block_size"
  shows "\<exists>cs. chunk_fixed_refs blake3 H data block_size = Some cs
    \<and> concat (map ch_data cs) = data
    \<and> (\<forall>c \<in> set cs. ch_length c \<le> block_size \<and> ch_blake3_hash c = blake3 (ch_data c))"
  using chunk_fixed_from_cover [OF assms, of 0 data blake3 H] chunks_cover_concat [where p = 0 and data = data]
  by (auto simp: chunk_fixed_refs_def)

theorem chunk_fixed_covers_witness:
  "\<exists>cs. chunk_fixed_refs (\<lambda>x. x) (\<lambda>_. 0) [1, 2, 3] 2 = Some cs \<and> concat (map ch_data cs) = [1, 2, 3]"
  using chunk_fixed_covers [of 2 "\<lambda>x. x" "\<lambda>_. 0" "[1, 2, 3]"] by auto

text \<open>
  With a block size of zero the loop never advances: no run of it returns on a non-empty file.
\<close>

theorem chunk_fixed_zero_diverges:
  assumes "data \<noteq> []"
  shows "chunk_fixed_refs blake3 H data 0 = None"
  using chunk_fixed_zero [of 0 data blake3 H] assms by (auto simp: chunk_fixed_refs_def)

theorem chunk_fixed_zero_diverges_witness: "chunk_fixed_refs (\<lambda>x. x) (\<lambda>_. 0) [1] 0 = None"
  by (rule chunk_fixed_zero_diverges) simp

text \<open>
  Content-defined chunks, end to end, are the file; offsets and lengths agree with it and no
  chunk exceeds the maximal size.
\<close>

theorem chunk_data_covers:
  assumes "fastcdc_ok fastcdc"
  shows "chunks_cover data 0 (chunk_data_refs fastcdc blake3 H data)
    \<and> concat (map ch_data (chunk_data_refs fastcdc blake3 H data)) = data
    \<and> (\<forall>c \<in> set (chunk_data_refs fastcdc blake3 H data). ch_length c \<le> MAX_CHUNK_SIZE)"
  using chunk_data_refs_cover [OF assms]
    chunks_cover_concat [OF chunk_data_refs_cover(1) [OF assms], of data blake3 H]
  by auto

theorem chunk_data_covers_witness:
  "concat (map ch_data (chunk_data_refs bytewise (\<lambda>x. x) (\<lambda>_. 0) [5, 6])) = [5, 6]"
  using chunk_data_covers [OF bytewise_ok] by blast

text \<open>
  Incompressible chunks are stored whatever their type, already compressed content never
  reaches the predictor, and more entropy never moves a chunk back towards the predictor.
\<close>

theorem routing_thresholds:
  "(entropy > INCOMPRESSIBLE_THRESHOLD \<longrightarrow> recommend_method_for entropy ct = RecStore)
   \<and> (ct \<in> {BinaryRandom, Image} \<longrightarrow> recommend_method_for entropy ct \<noteq> RecPredictorRans)
   \<and> (entropy \<le> b \<longrightarrow>
        method_rank (recommend_method_for entropy ct) \<le> method_rank (recommend_method_for b ct))"
  using recommend_incompressible recommend_compressed_types recommend_mono by blast

theorem routing_thresholds_witness:
  "recommend_method_for 7.99 Text = RecStore \<and> recommend_method_for 3 Image \<noteq> RecPredictorRans"
  using routing_thresholds [of "7.99" Text] routing_thresholds [of 3 Image]
  by (simp add: INCOMPRESSIBLE_THRESHOLD_def)

section \<open>Grouping\<close>

text \<open>
  C33: grouping puts every file into exactly one group, of its own content type, none empty; the
  groups are numbered from zero and ordered by type, and unless the sizes overflow 64 bits a group
  records the sum of its files and exceeds the limit only when it is a single file.
\<close>

theorem groups_partition_files:
  "mset (concat (map gr_file_indices (group_files files))) = mset [0..<length files]
   \<and> (\<forall>g \<in> set (group_files files). gr_file_indices g \<noteq> []
        \<and> (\<forall>i \<in> set (gr_file_indices g). fi_content_type (files ! i) = gr_content_type g)
        \<and> (sum_list (map (\<lambda>f. unat (fi_size f)) files) < 2 ^ 64 \<longrightarrow>
             unat (gr_total_size g) = (\<Sum>i \<leftarrow> gr_file_indices g. unat (fi_size (files ! i)))
             \<and> (gr_total_size g \<le> MAX_SOLID_GROUP_SIZE \<or> length (gr_file_indices g) = 1)))
   \<and> map gr_group_id (group_files files) = map of_nat [0..<length (group_files files)]
   \<and> sorted (map gr_content_type (group_files files))"
  using group_files_ok [of files] group_files_sizes [of files] by (simp add: group_size_ok_def)

definition two_files :: "file_info list" where
  "two_files =
     [\<lparr>fi_path = [0x61], fi_size = 200 * 1024 * 1024, fi_content_type = Text, fi_mean_entropy = 4\<rparr>,
      \<lparr>fi_path = [0x62], fi_size = 100 * 1024 * 1024, fi_content_type = Text, fi_mean_entropy = 4\<rparr>]"

theorem groups_partition_files_witness:
  "list_all (\<lambda>g. gr_total_size g \<le> MAX_SOLID_GROUP_SIZE \<or> length (gr_file_indices g) = 1) (group_files two_files)"
  using groups_partition_files [of two_files] by (simp add: two_files_def list_all_iff)

section \<open>Encryption and dictionaries\<close>

text \<open>
  C34: for any AEAD ciphers, decrypting a block yields a plaintext within the size limit exactly
  when the ciphertext is what encrypting that plaintext for that block id under that key gives.
  The nonce derived for the block stands in front of the ciphertext, and a block that stores any
  other nonce - that of another block, or one of another derivation - is rejected as a nonce
  mismatch. The comment on \<^verbatim>\<open>derive_block_nonce\<close> says that archives with prior derivations
  still decrypt, the documents that the nonce is the master nonce XOR the block id and is not
  stored: neither is what the code does. The cached cipher of a cryptor computes the same two
  functions.
\<close>

theorem block_encryption_exact:
  assumes "crypto_ok ce"
  shows "(decrypt_block ce c key mn i enc = Inr p \<and> length p \<le> MAX_BLOCK_PLAINTEXT_SIZE)
           = (encrypt_block ce c key mn i p = Inr enc)
    \<and> (encrypt_block ce c key mn i p = Inr enc \<longrightarrow>
         length enc = length p + NONCE_SIZE + TAG_SIZE \<and> take NONCE_SIZE enc = derive_block_nonce ce mn i
         \<and> (derive_block_nonce ce mn j \<noteq> derive_block_nonce ce mn i \<longrightarrow>
              \<not> (\<exists>q. decrypt_block ce c key mn j enc = Inr q)))
    \<and> (NONCE_SIZE + TAG_SIZE \<le> length enc \<and> take NONCE_SIZE enc \<noteq> derive_block_nonce ce mn i \<longrightarrow>
         decrypt_block ce c key mn i enc = Inl (NonceMismatch i))
    \<and> cryptor_encrypt ce (block_cryptor_new c key mn) i p = encrypt_block ce c key mn i p
    \<and> cryptor_decrypt ce (block_cryptor_new c key mn) i enc = decrypt_block ce c key mn i enc"
proof -
  have "take NONCE_SIZE enc = derive_block_nonce ce mn i" if "encrypt_block ce c key mn i p = Inr enc"
    using that length_derive_block_nonce [OF assms] by (auto simp: encrypt_block_Inr)
  moreover have "decrypt_block ce c key mn i enc = Inl (NonceMismatch i)"
    if "NONCE_SIZE + TAG_SIZE \<le> length enc" "take NONCE_SIZE enc \<noteq> derive_block_nonce ce mn i"
    using that by (simp add: decrypt_block_def Let_def)
  ultimately show ?thesis
    using decrypt_iff_encrypt [OF assms, of c key mn i enc p] encrypt_block_length [OF assms, of c key mn i p enc]
    by (auto simp: cryptor_eq decrypt_block_Inr)
qed

theorem block_encryption_exact_witness:
  "\<exists>enc. encrypt_block tag_crypto Aes256Gcm (replicate 32 1) (replicate 12 2) 7 [5, 6] = Inr enc
     \<and> decrypt_block tag_crypto Aes256Gcm (replicate 32 1) (replicate 12 2) 7 enc = Inr [5, 6]"
proof -
  have "\<exists>enc. encrypt_block tag_crypto Aes256Gcm (replicate 32 1) (replicate 12 2) 7 [5, 6] = Inr enc"
    by (simp add: encrypt_block_Inr seal_def tag_crypto_def tag_encrypt_def MAX_BLOCK_PLAINTEXT_SIZE_def)
  then show ?thesis using block_encryption_exact [OF order0_archive.crypto [unfolded order0_archive_env_def archive_env.simps]]
    by blast
qed

text \<open>
  The stored encryption header: reading succeeds exactly on the bytes of a header of the
  supported version with Argon2 costs between the minima and maxima, and returns it.
\<close>

theorem encryption_header_wire:
  "(encryption_header_read s = Inr (h, s'))
     = (eh_version h = HEADER_VERSION \<and> length (eh_salt h) = SALT_SIZE \<and> length (eh_master_nonce h) = NONCE_SIZE
        \<and> length (eh_verification_tag h) = VERIFICATION_TAG_SIZE
        \<and> argon2_within_limits (eh_m_cost h) (eh_t_cost h) (eh_p_cost h)
        \<and> s = encryption_header_write h @ s')"
  by (simp add: encryption_header_read_Inr encryption_header_ok_def conj_assoc)

text \<open>
  C35: a dictionary produced by either training procedure, once written, reads back; whatever is
  accepted from a file is its own written form. Among the built-in dictionaries the lookup by hash
  returns the first that can be read and has the hash, and it has no result exactly when there is
  none; in particular it finds the hash of a trained dictionary wherever its written form stands.
\<close>

theorem dictionary_wire:
  assumes "blake3_len_ok blake3"
    and "train blake3 P read_file paths st = (Inr d, st')
       \<or> train_transformed fastcdc blake3 H libsais P read_file paths st = Some (Inr d, st')"
    and "dictionary_write_to d = Inr out"
  shows "dictionary_read_from blake3 (out @ s) = Inr (d, s)
    \<and> (dictionary_read_from blake3 s0 = Inr (d0, s) \<longrightarrow> (\<exists>out. dictionary_write_to d0 = Inr out \<and> s0 = out @ s))
    \<and> (dictionary_by_hash blake3 dicts hash = Some d1) =
        (\<exists>before b after rest. dicts = before @ b # after \<and> dictionary_read_from blake3 b = Inr (d1, rest)
           \<and> di_hash d1 = hash \<and> (\<forall>c \<in> set before. \<not> has_hash blake3 hash c))
    \<and> (dictionary_by_hash blake3 dicts hash = None) = (\<forall>b \<in> set dicts. \<not> has_hash blake3 hash b)
    \<and> (out \<in> set dicts \<longrightarrow> (\<exists>d2. dictionary_by_hash blake3 dicts (di_hash d) = Some d2 \<and> di_hash d2 = di_hash d))"
proof -
  have "dictionary_ok blake3 d" using assms(2) train_ok train_transformed_ok by metis
  then have rd: "dictionary_read_from blake3 (out @ s) = Inr (d, s)" for s
    using dictionary_read_write [OF assms(1) _ assms(3)] by blast
  from rd [of "[]"] have "has_hash blake3 (di_hash d) out" by (auto simp: has_hash_def)
  then have "out \<in> set dicts \<Longrightarrow> dictionary_by_hash blake3 dicts (di_hash d) \<noteq> None"
    unfolding dictionary_by_hash_None by blast
  then have "out \<in> set dicts \<longrightarrow> (\<exists>d2. dictionary_by_hash blake3 dicts (di_hash d) = Some d2 \<and> di_hash d2 = di_hash d)"
    using dictionary_by_hash_Some by blast
  then show ?thesis
    using rd [of s] dictionary_read_Inr [of blake3 s0 d0 s]
    unfolding dictionary_by_hash_first [of blake3 dicts hash d1] dictionary_by_hash_None by simp
qed

theorem dictionary_wire_witness:
  "\<exists>d out. fst (train digest32 order0_object (\<lambda>p. Inr p) [[7, 7]] order0_new) = Inr d
     \<and> dictionary_write_to d = Inr out \<and> dictionary_read_from digest32 out = Inr (d, [])"
proof -
  let ?m = "feed order0_object [7, 7] order0_new"
  let ?d = "\<lparr>di_predictor_id = Order0, di_state = order0_save_state ?m, di_hash = digest32 (order0_save_state ?m)\<rparr>"
  have "order0_inv ?m"
    by (simp add: order0_object_def predictor.defs order0_predictor_def order0_update_inv order0_new_inv)
  then have "length (order0_save_state ?m) \<le> MAX_DICT_STATE_SIZE"
    by (simp add: length_save_state order0_inv_def MAX_DICT_STATE_SIZE_def)
  then obtain out where out: "dictionary_write_to ?d = Inr out"
    by (simp add: dictionary_write_to_def)
  have trained: "train digest32 order0_object (\<lambda>p. Inr p) [[7, 7]] order0_new = (Inr ?d, ?m)"
    by (simp add: train_def finish_training_def order0_object_def predictor.defs)
  have "blake3_len_ok digest32" by (simp add: blake3_len_ok_def digest32_len)
  from dictionary_wire [OF this _ out, of order0_object "\<lambda>p. Inr p" "[[7, 7]]" order0_new ?m _ _ _ "[]"] trained
  show ?thesis using out by (intro exI [of _ ?d] exI [of _ out]) simp
qed

section \<open>Extraction\<close>

text \<open>
  C36: releasing each decoded block with its last reference never changes what is extracted: with
  reference counts taken from the file table, extraction behaves as if every file were read from
  the unchanged array of decoded blocks, files sharing blocks and failing archives included.
\<close>

theorem extraction_releases_blocks:
  assumes "length es < 2 ^ 32"
  shows "write_all_files env write_file es decoded fs
    = extract_files (ae_blake3 env) (\<lambda>e st. (reassemble_file_from_blocks e decoded, st)) write_file es () fs"
  by (simp add: write_all_files_def extract_shared_eq [OF assms] Let_def)

theorem extraction_releases_blocks_witness:
  "write_all_files order0_archive_env (\<lambda>e d fs. (Inr (), fs @ [d]))
     [example_entry\<lparr>fe_original_size := 1, fe_blake3_hash := digest32 [4]\<rparr>, example_entry\<lparr>fe_original_size := 1, fe_blake3_hash := digest32 [4]\<rparr>]
     [Some [4]] []
   = (Inr (), [[4], [4]])"
  by (simp add: extraction_releases_blocks order0_archive_env_def example_entry_def checked_file_def
      reassemble_file_from_blocks_def file_block_range_def truncate_to_file_size_def Let_def)

text \<open>
  C38: the parallel and the sequential decoder: what the parallel path accepts, the sequential path
  accepts with the same blocks, unless the block index itself announces more than the read limit;
  and what the sequential path accepts, the parallel path accepts, provided its threads start and
  no payload is longer than its index entry says.
\<close>

theorem parallel_matches_sequential:
  assumes "archive_contract env good cdf"
  shows "(decompress_blocks_parallel env dc archive md dk = Some (Inr out) \<longrightarrow>
      decompress_blocks_sequential env dc archive md dk =
        (if index_compressed (am_block_index md) \<le> MAX_TOTAL_COMPRESSED_READ_SIZE then Some (Inr out)
         else Some (Inl (ResourceLimitExceeded ''Total compressed read size {} exceeds safety limit of {} bytes''))))
    \<and> (decompress_blocks_sequential env dc archive md dk = Some (Inr out)
       \<and> (dc_max_threads dc = 0 \<or> ae_pool_builds env (dc_max_threads dc))
       \<and> (\<forall>k r. \<forall>e \<in> set (am_block_index md). read_raw_block env archive dk k e = Inr r \<longrightarrow>
            length (rb_payload r) \<le> unat (bi_compressed_size e)) \<longrightarrow>
      decompress_blocks_parallel env dc archive md dk = Some (Inr out))"
  using archive_contract.parallel_then_sequential [OF assms] archive_contract.sequential_then_parallel [OF assms]
  by blast

theorem parallel_matches_sequential_witness:
  "\<exists>archive md dk out. decompress_blocks_parallel order0_archive_env example_decompressor archive md dk = Some (Inr out)
     \<and> decompress_blocks_sequential order0_archive_env example_decompressor archive md dk = Some (Inr out)
     \<and> length (am_file_entries md) = 1"
proof -
  have ae: "co_archive order0_compress_env = order0_archive_env" by (simp add: order0_compress_env_def)
  obtain archive md dk baseline ds datas
    where op: "opened order0_compress_env example_compressor [example_input [0x61]] archive md dk baseline ds datas"
    using example_opened by (elim exE conjE)
  have par: "decompress_blocks_parallel order0_archive_env example_decompressor archive md dk = Some (Inr (map Some ds))"
    using order0_writer.opened_blocks [OF op example_hypotheses(4)] by (simp add: ae)
  have small: "index_compressed (am_block_index md) \<le> MAX_TOTAL_COMPRESSED_READ_SIZE"
    using op unfolding opened_def by (elim conjE)
  have one: "length (am_file_entries md) = 1"
    using op by (auto simp: opened_def dest!: list_all2_lengthD)
  show ?thesis
    using parallel_matches_sequential [OF order0_archive.archive_contract_axioms, THEN conjunct1, rule_format, OF par]
      par one small
    by (intro exI conjI) simp_all
qed

text \<open>
  C39: verification: the report is clean
  exactly when every block decodes and every file reassembles to its recorded hash - on any number
  of threads.
\<close>

theorem verify_report_exact:
  assumes "archive_contract env good cdf" "verify_metadata env dc archive md dk = Some (Inr r)"
  shows "verification_is_ok r =
    (\<exists>baseline ds. decode_baseline_for env dc (am_dictionary_hash md) = Inr baseline
       \<and> list_all2 (\<lambda>e d. decompress_block env archive baseline dk e = Some (Inr d)) (am_block_index md) ds
       \<and> (\<forall>e \<in> set (am_file_entries md). \<exists>d. reassemble_file_from_blocks e (map Some ds) = Inr d
             \<and> ae_blake3 env d = fe_blake3_hash e))"
  by (rule archive_contract.verify_metadata_clean [OF assms])

theorem verify_report_exact_witness:
  "\<exists>md archive dk r blocks. verify_metadata order0_archive_env example_decompressor archive md dk = Some (Inr r)
     \<and> verification_is_ok r \<and> length (am_file_entries md) = 1
     \<and> list_all (\<lambda>e. \<exists>d. reassemble_file_from_blocks e blocks = Inr d \<and> digest32 d = fe_blake3_hash e)
         (am_file_entries md)"
proof -
  have ae: "co_archive order0_compress_env = order0_archive_env" by (simp add: order0_compress_env_def)
  obtain archive md dk baseline ds datas
    where op: "opened order0_compress_env example_compressor [example_input [0x61]] archive md dk baseline ds datas"
    using example_opened by (elim exE conjE)
  let ?r = "\<lparr>vr_total_blocks = length ds, vr_verified_blocks = length ds, vr_corrupted_blocks = []\<rparr>"
  have "verify order0_archive_env example_decompressor archive = Some (Inr ?r)"
    using order0_writer.opened_verify [OF op example_hypotheses(4)] by (simp add: ae)
  then have run: "verify_metadata order0_archive_env example_decompressor archive md dk = Some (Inr ?r)"
    using op by (simp add: opened_def verify_def ae example_decompressor_def example_compressor_def)
  have hash: "ae_blake3 order0_archive_env = digest32" by (simp add: order0_archive_env_def)
  have ok: "verification_is_ok ?r" by (simp add: verification_is_ok_def)
  moreover have "length (am_file_entries md) = 1"
    using op by (auto simp: opened_def dest!: list_all2_lengthD)
  moreover obtain bs where "\<forall>e \<in> set (am_file_entries md). \<exists>d. reassemble_file_from_blocks e bs = Inr d
      \<and> digest32 d = fe_blake3_hash e"
    using ok unfolding verify_report_exact [OF order0_archive.archive_contract_axioms run] hash
    by (elim exE conjE)
  ultimately show ?thesis using run unfolding list_all_iff by (intro exI conjI)
qed

text \<open>
  C40: metadata the reader accepts is well formed: the tables have the announced lengths, within
  the limits, every path is safe and every mode masked, block ids are distinct, both tables lie
  inside the archive, and the optional headers are present exactly when the flags say so.
\<close>

theorem metadata_well_formed:
  assumes "read_metadata env archive = Inr md"
  shows "metadata_ok (length archive) md"
  by (rule read_metadata_ok [OF assms])

theorem metadata_well_formed_witness:
  "\<exists>archive md. read_metadata order0_archive_env archive = Inr md \<and> length (am_file_entries md) = 1
     \<and> metadata_ok (length archive) md"
proof -
  have ae: "co_archive order0_compress_env = order0_archive_env" by (simp add: order0_compress_env_def)
  obtain archive md ds datas where "read_metadata order0_archive_env archive = Inr md"
      "list_all2 (restored (ae_blake3 order0_archive_env)) [example_input [0x61]] (zip (am_file_entries md) datas)"
      "list_all2 (\<lambda>e d. reassemble_file_from_blocks e (map Some ds) = Inr d
          \<and> ae_blake3 order0_archive_env d = fe_blake3_hash e) (am_file_entries md) datas"
    using example_opened unfolding opened_def ae by (elim exE conjE)
  then show ?thesis
    using metadata_well_formed by (fastforce dest!: list_all2_lengthD)
qed

section \<open>The file system, streams and migration\<close>

text \<open>
  C4: where extraction can write. Whatever the archive - truncated, tampered with or hostile -
  whichever reader extracts it and whatever calls fail, nothing outside a real output directory
  changes. With \<open>no_clobber\<close>, a file or directory that was there can only change when the system
  does not answer whether this very path exists; a symbolic link only when it leads nowhere, or when
  some such question is not answered.
\<close>

theorem extraction_confined:
  assumes run: "extract_all env dc (disk_writer os output_dir no_clobber) archive fs = Some (r, fs')
      \<or> extract_all_streaming env dc (disk_writer os output_dir no_clobber) archive fs = Some (r, fs')"
    and fresh: "temp_names_fresh os" and dir: "real_dirs fs output_dir"
    and changed: "node_at fs' p \<noteq> node_at fs p"
  shows "strict_prefix output_dir p
    \<and> (\<not> no_clobber \<or> node_at fs p = None \<or> (\<exists>s. os_fault os (Exists p) s)
       \<or> (\<exists>absolute target. node_at fs p = Some (LinkNode absolute target)
            \<and> (real_path fs p = None \<or> (\<exists>q s. os_fault os (Exists q) s))))"
proof
  show "strict_prefix output_dir p" by (rule extract_all_confined [OF run fresh dir changed])
  show "\<not> no_clobber \<or> node_at fs p = None \<or> (\<exists>s. os_fault os (Exists p) s)
     \<or> (\<exists>absolute target. node_at fs p = Some (LinkNode absolute target)
          \<and> (real_path fs p = None \<or> (\<exists>q s. os_fault os (Exists q) s)))"
  proof (rule ccontr)
    assume no: "\<not> ?thesis"
    then obtain n where n: "node_at fs p = Some n" by auto
    have "\<not> is_link n \<and> (\<forall>s. \<not> os_fault os (Exists p) s) \<or> real_path fs p \<noteq> None \<and> (\<forall>q s. \<not> os_fault os (Exists q) s)"
      using no n by (cases n) (auto simp: is_link_def)
    then show False
      using extract_all_no_clobber [OF _ fresh dir n, of env dc archive r] no run changed n by simp
  qed
qed

theorem extraction_confined_witness:
  "\<exists>archive fs'. extract_all order0_archive_env example_decompressor (disk_writer example_os [[0x6F]] False) archive example_fs
       = Some (Inr (), fs')
     \<and> node_at fs' [[0x6F], [0x61]] \<noteq> node_at example_fs [[0x6F], [0x61]] \<and> strict_prefix [[0x6F]] [[0x6F], [0x61 :: u8]]
     \<and> node_at fs' [[0x78]] = Some (FileNode [1, 2] 0x1A4 None)"
proof -
  let ?w = "disk_writer example_os [[0x6F]] False"
  obtain archive md dk baseline ds datas
    where op: "opened order0_compress_env example_compressor [example_input [0x61]] archive md dk baseline ds datas"
    using example_opened by (elim exE conjE)
  obtain fs' files where x: "extract_all order0_archive_env example_decompressor ?w archive example_fs = Some (Inr (), fs')"
      "rebuilt example_fs [[0x6F]] [example_input [0x61]] fs'"
    using order0_writer.opened_rebuilt [OF op example_hypotheses(4) example_file_system(1) example_names_fresh
        example_file_system(3,4) example_separate(1), of False]
    by (auto simp: order0_compress_env_def)
  note c = extraction_confined [OF disjI1 [OF x(1)] example_names_fresh example_file_system(3)]
  have ch: "node_at fs' [[0x6F], [0x61]] \<noteq> node_at example_fs [[0x6F], [0x61]]"
    using x(2) example_file_system(4) [of "[[0x6F], [0x61]]"] example_components
    by (simp add: rebuilt_def strict_prefix_def)
  have "node_at fs' [[0x78]] = node_at example_fs [[0x78]]"
    using c [of "[[0x78]]"] by (auto simp: strict_prefix_def)
  then show ?thesis
    using x(1) ch c [OF ch] by (intro exI conjI) (simp_all add: node_at_def example_fs_def)
qed

text \<open>
  C5: one write, whatever is on the disk: links anywhere in the tree, calls that fail at any moment.
  When a write changes anything, the output directory resolves, every change is strictly below what
  it resolves to, and what was there before stays, but for the file the path names.
\<close>

theorem write_confined:
  assumes run: "write_validated_file os output_dir file_path data mtime permissions no_clobber fs = (r, fs')"
    and fresh: "temp_names_fresh os" and changed: "fs' \<noteq> fs"
  shows "\<exists>base. real_path fs output_dir = Some base
    \<and> (\<forall>p. node_at fs' p = node_at fs p \<or> strict_prefix base p
         \<and> (path_components file_path = [] \<or> node_at fs p = None \<or> p = base @ path_components file_path))"
  using write_validated_file_confined [OF run fresh changed] unfolding confined_def by blast

theorem write_confined_witness:
  "\<exists>r fs'. write_validated_file example_os [[0x6F]] [0x61] [5] 0 0x1A4 False example_fs = (r, fs')
     \<and> node_at fs' [[0x78]] = node_at example_fs [[0x78]]"
proof -
  obtain r fs' where run: "write_validated_file example_os [[0x6F]] [0x61] [5] 0 0x1A4 False example_fs = (r, fs')"
    by fastforce
  have "node_at fs' [[0x78]] = node_at example_fs [[0x78]]"
  proof (cases "fs' = example_fs")
    case False
    from write_confined [OF run example_names_fresh False] show ?thesis
      using real_path_self [OF example_file_system(3)] by (auto simp: strict_prefix_def)
  qed simp
  then show ?thesis using run by blast
qed

text \<open>
  C3: the tree comes back. Extracting an archive that was written, from a file or from a pipe, into
  an empty real directory on a disk without faults succeeds, puts every input at its path with its
  contents, its masked mode and its time, creates only the directories above them, and touches
  nothing else. The paths must be writable side by side: valid on the platforms the code supports,
  none of them above another.
\<close>

theorem extraction_rebuilds_tree:
  assumes contract: "writer_contract co good cdf"
    and run: "compress_to_archive co cp inputs = Some (Inr (stats, archive))"
    and inputs: "\<forall>f \<in> set inputs. extractable f" "no_collisions (ae_blake3 (co_archive co)) inputs"
    and limits: "within_limits stats" "length archive < 2 ^ 64"
    and dict: "\<forall>d \<in> set_option (cp_dictionary cp). length (di_hash d) = 32"
    and reader: "reader_matches co cp dc"
    and os: "no_faults os" "temp_names_fresh os" and dir: "real_dirs fs output_dir"
    and empty: "\<And>p. strict_prefix output_dir p \<Longrightarrow> node_at fs p = None" and sep: "separate_inputs inputs"
  shows "\<exists>fs'. extract_all (co_archive co) dc (disk_writer os output_dir no_clobber) archive fs = Some (Inr (), fs')
    \<and> extract_all_streaming (co_archive co) dc (disk_writer os output_dir no_clobber) archive fs = Some (Inr (), fs')
    \<and> rebuilt fs output_dir inputs fs'"
proof -
  obtain md dk baseline ds datas where op: "opened co cp inputs archive md dk baseline ds datas"
    using writer_contract.compressed_opened [OF contract run inputs limits dict] by (elim exE)
  show ?thesis by (rule writer_contract.opened_rebuilt [OF contract op reader os dir empty sep])
qed

theorem extraction_rebuilds_tree_witness:
  "\<exists>archive fs'. extract_all_streaming order0_archive_env example_decompressor (disk_writer example_os [[0x6F]] True)
         archive example_fs = Some (Inr (), fs')
     \<and> node_at fs' [[0x6F], [0x61]] = Some (FileNode [7, 7, 9] 0x1A4 (Some 5))"
proof -
  obtain stats archive where run: "compress_to_archive order0_compress_env example_compressor [example_input [0x61]]
      = Some (Inr (stats, archive))" "within_limits stats" "length archive < 2 ^ 64"
    using example_run by (elim exE conjE)
  have ae: "co_archive order0_compress_env = order0_archive_env" by (simp add: order0_compress_env_def)
  obtain fs' where x: "extract_all_streaming order0_archive_env example_decompressor (disk_writer example_os [[0x6F]] True)
         archive example_fs = Some (Inr (), fs')" "rebuilt example_fs [[0x6F]] [example_input [0x61]] fs'"
    using extraction_rebuilds_tree [OF order0_writer.writer_contract_axioms run(1) example_hypotheses(1,2) run(2,3) example_hypotheses(3) example_hypotheses(4)
        example_file_system(1) example_names_fresh example_file_system(3,4) example_separate(1), of True]
    unfolding ae by blast
  have "input_node (example_input [0x61]) = FileNode [7, 7, 9] 0x1A4 (Some 5)"
    by (simp add: input_node_def written_node_def example_input_def SAFE_PERMISSION_MASK_def)
  then show ?thesis using x by (auto simp: rebuilt_def example_components)
qed

text \<open>
  C7: a written archive read as a stream. The streaming reader finds the header, the file table and
  the groups of the seekable reader, extracts the same files in the same order into any file system,
  and its verification is clean.
\<close>

theorem streaming_reads_archive:
  assumes contract: "writer_contract co good cdf"
    and run: "compress_to_archive co cp inputs = Some (Inr (stats, archive))"
    and inputs: "\<forall>f \<in> set inputs. extractable f" "no_collisions (ae_blake3 (co_archive co)) inputs"
    and limits: "within_limits stats" "length archive < 2 ^ 64"
    and dict: "\<forall>d \<in> set_option (cp_dictionary cp). length (di_hash d) = 32"
    and reader: "reader_matches co cp dc"
  shows "list_files_streaming (co_archive co) archive = list_files (co_archive co) archive
    \<and> extract_all_streaming (co_archive co) dc write_file archive fs = extract_all (co_archive co) dc write_file archive fs
    \<and> (\<exists>n. verify_streaming (co_archive co) dc archive =
         Some (Inr \<lparr>vr_total_blocks = n, vr_verified_blocks = n, vr_corrupted_blocks = []\<rparr>))"
proof -
  obtain md dk baseline ds datas where op: "opened co cp inputs archive md dk baseline ds datas"
    using writer_contract.compressed_opened [OF contract run inputs limits dict] by (elim exE)
  have "list_files_streaming (co_archive co) archive = list_files (co_archive co) archive"
    using op by (auto simp: opened_def list_files_streaming_def list_files_def streaming_view_def)
  then show ?thesis
    using writer_contract.opened_verify_streaming [OF contract op reader]
      writer_contract.opened_extract_streaming [OF contract op reader, of write_file fs] by blast
qed

theorem streaming_reads_archive_witness:
  "\<exists>archive es. list_files_streaming order0_archive_env archive = Inr es
     \<and> list_files order0_archive_env archive = Inr es \<and> length es = 1"
proof -
  obtain stats archive where run: "compress_to_archive order0_compress_env example_compressor [example_input [0x61]]
      = Some (Inr (stats, archive))" "within_limits stats" "length archive < 2 ^ 64"
    using example_run by (elim exE conjE)
  have ae: "co_archive order0_compress_env = order0_archive_env" by (simp add: order0_compress_env_def)
  obtain md dk baseline ds datas
    where op: "opened order0_compress_env example_compressor [example_input [0x61]] archive md dk baseline ds datas"
    using order0_writer.compressed_opened [OF run(1) example_hypotheses(1,2) run(2,3) example_hypotheses(3)] by (elim exE)
  have "list_files order0_archive_env archive = Inr (am_file_entries md)" "length (am_file_entries md) = 1"
    using op by (auto simp: opened_def list_files_def ae dest!: list_all2_lengthD)
  moreover have "list_files_streaming order0_archive_env archive = list_files order0_archive_env archive"
    using streaming_reads_archive [OF order0_writer.writer_contract_axioms run(1) example_hypotheses(1,2) run(2,3) example_hypotheses(3) example_hypotheses(4)]
    unfolding ae by (rule conjunct1)
  ultimately show ?thesis by auto
qed

text \<open>
  C8: the report on any stream. When verification reports, the metadata was read, the key and the
  dictionary accepted, and the report is about the frames of the stream - header, payload and trailer
  that can be read - up to the announced number. Every frame is counted once: as verified when it
  decodes, else by its id among the corrupted ones. A frame that cannot be read is one corrupted block
  more and ends the count; what follows it is not counted. The report is clean exactly when all
  announced blocks stand in the stream and decode, and every stream that extracts has a clean report.
\<close>

theorem verify_streaming_exact:
  assumes "archive_contract env good cdf" "verify_streaming env dc s = Some (Inr r)"
  shows "(\<exists>md s' dk baseline. read_metadata_streaming env s = Inr (md, s')
      \<and> derive_decrypt_key (ae_crypto env) (ah_flags (sm_header md)) (sm_encryption_header md) (dc_password dc) = Inr dk
      \<and> decode_baseline_for env dc (sm_dictionary_hash md) = Inr baseline
      \<and> vr_total_blocks r = unat (ah_block_count (sm_header md))
      \<and> (let frames = stream_frames env (vr_total_blocks r) s'
         in vr_verified_blocks r = length (filter (frame_decodes env baseline dk) frames)
           \<and> (\<exists>broken. vr_corrupted_blocks r
                 = map (frame_id env) (filter (\<lambda>f. \<not> frame_decodes env baseline dk f) frames) @ broken
               \<and> length broken = (if length frames < vr_total_blocks r then 1 else 0)))
      \<and> verification_is_ok r = (\<exists>ds cs. length ds = vr_total_blocks r
           \<and> stream_holds (decompress_block_streaming env baseline dk) s' ds cs))
    \<and> (extract_all_streaming env dc write_file s fs = Some (Inr (), fs') \<longrightarrow>
         verification_is_ok r \<and> vr_verified_blocks r = vr_total_blocks r)"
proof
  show "extract_all_streaming env dc write_file s fs = Some (Inr (), fs') \<longrightarrow>
         verification_is_ok r \<and> vr_verified_blocks r = vr_total_blocks r"
    using archive_contract.extract_streaming_verifies [OF assms(1), of dc write_file s fs "()" fs'] assms(2)
    by (auto simp: verification_is_ok_def)
qed (use archive_contract.verify_streaming_report [OF assms] in \<open>simp only: verification_is_ok_def, blast\<close>)

theorem verify_streaming_exact_witness:
  "\<exists>archive r md s' baseline dk ds cs. verify_streaming order0_archive_env example_decompressor archive = Some (Inr r)
     \<and> read_metadata_streaming order0_archive_env archive = Inr (md, s') \<and> length ds = vr_total_blocks r
     \<and> stream_holds (decompress_block_streaming order0_archive_env baseline dk) s' ds cs"
proof -
  obtain stats archive where run: "compress_to_archive order0_compress_env example_compressor [example_input [0x61]]
      = Some (Inr (stats, archive))" "within_limits stats" "length archive < 2 ^ 64"
    using example_run by (elim exE conjE)
  have ae: "co_archive order0_compress_env = order0_archive_env" by (simp add: order0_compress_env_def)
  obtain md dk baseline ds datas
    where op: "opened order0_compress_env example_compressor [example_input [0x61]] archive md dk baseline ds datas"
    using order0_writer.compressed_opened [OF run(1) example_hypotheses(1,2) run(2,3) example_hypotheses(3)] by (elim exE)
  let ?r = "\<lparr>vr_total_blocks = length ds, vr_verified_blocks = length ds, vr_corrupted_blocks = []\<rparr>"
  have v: "verify_streaming order0_archive_env example_decompressor archive = Some (Inr ?r)"
    using order0_writer.opened_verify_streaming [OF op example_hypotheses(4)] by (simp add: ae)
  have "verification_is_ok ?r" by (simp add: verification_is_ok_def)
  then have "\<exists>md s' dk baseline. read_metadata_streaming order0_archive_env archive = Inr (md, s')
      \<and> (\<exists>es cs. length es = vr_total_blocks ?r
        \<and> stream_holds (decompress_block_streaming order0_archive_env baseline dk) s' es cs)"
    using conjunct1 [OF verify_streaming_exact [OF order0_archive.archive_contract_axioms v]] by meson
  then show ?thesis using v by blast
qed

text \<open>
  C6: migration is compression. Migrating a written archive, from a file or from a pipe, on a disk
  without faults, gives exactly what compressing its inputs with the new settings gives, in the
  order of their paths - with the modes masked, and the clock's time for files without one - and
  leaves the disk as it was.
\<close>

theorem migration_recompresses:
  assumes contract: "writer_contract co good cdf"
    and run: "compress_to_archive co cp inputs = Some (Inr (stats, archive))"
    and inputs: "\<forall>f \<in> set inputs. extractable f" "no_collisions (ae_blake3 (co_archive co)) inputs"
    and limits: "within_limits stats" "length archive < 2 ^ 64"
    and dict: "\<forall>d \<in> set_option (cp_dictionary cp). length (di_hash d) = 32"
    and mg: "mg_source_env mg = co_archive co" "reader_matches co cp (mg_source_decompressor mg)"
    and os: "no_faults os" "temp_names_fresh os" "temp_dir_fresh os fs"
    and sep: "separate_inputs inputs" "\<forall>f \<in> set inputs. plain_path f" "inputs \<noteq> []"
  shows "\<exists>fs'. (\<forall>p. node_at fs' p = node_at fs p)
    \<and> migrate mg os archive fs =
        map_option (\<lambda>r. (bindR r (\<lambda>(_, new). Inr (length inputs, Some new)), fs'))
          (compress_to_archive (mg_target_env mg) (mg_target_compressor mg)
            (map (migrated os) (sort_key (path_components \<circ> input_path) inputs)))
    \<and> migrate_streaming mg os archive fs = migrate mg os archive fs"
proof -
  obtain md dk baseline ds datas where op: "opened co cp inputs archive md dk baseline ds datas"
    using writer_contract.compressed_opened [OF contract run inputs limits dict] by (elim exE)
  show ?thesis
    using writer_contract.opened_migrates [OF contract op mg os sep]
    unfolding writer_contract.opened_migrate_streaming [OF contract op mg] by blast
qed

theorem migration_recompresses_witness:
  "\<exists>archive r fs'. migrate_streaming example_migrator example_os archive example_fs = Some (r, fs')
     \<and> node_at fs' [[0x78]] = node_at example_fs [[0x78]]"
proof -
  obtain stats archive where run: "compress_to_archive order0_compress_env example_compressor [example_input [0x61]]
      = Some (Inr (stats, archive))" "within_limits stats" "length archive < 2 ^ 64"
    using example_run by (elim exE conjE)
  have ae: "co_archive order0_compress_env = order0_archive_env" by (simp add: order0_compress_env_def)
  have mg: "mg_source_env example_migrator = co_archive order0_compress_env"
      "reader_matches order0_compress_env example_compressor (mg_source_decompressor example_migrator)"
      "mg_target_env example_migrator = order0_compress_env"
    using example_hypotheses(4) by (simp_all add: example_migrator_def ae)
  obtain fs' where m: "\<forall>p. node_at fs' p = node_at example_fs p" "migrate example_migrator example_os archive example_fs =
        map_option (\<lambda>r. (bindR r (\<lambda>(_, new). Inr (length [example_input [0x61]], Some new)), fs'))
          (compress_to_archive (mg_target_env example_migrator) (mg_target_compressor example_migrator)
            (map (migrated example_os) (sort_key (path_components \<circ> input_path) [example_input [0x61]])))"
      "migrate_streaming example_migrator example_os archive example_fs = migrate example_migrator example_os archive example_fs"
    using migration_recompresses [OF order0_writer.writer_contract_axioms run(1) example_hypotheses(1,2) run(2,3) example_hypotheses(3) mg(1,2) example_file_system(1)
        example_names_fresh example_file_system(2) example_separate(1)] example_separate(2)
    by auto
  obtain r where "compress_to_archive (mg_target_env example_migrator) (mg_target_compressor example_migrator)
            (map (migrated example_os) (sort_key (path_components \<circ> input_path) [example_input [0x61]])) = Some r"
    using order0_writer.compress_to_archive_total [of "mg_target_compressor example_migrator"] unfolding mg(3) by blast
  then show ?thesis using m by auto
qed

text \<open>
  C9: everything returns. With libraries and a model that meet the contract, compressing any inputs
  and reading any bytes - extracting, extracting one file, verifying, from a file or from a pipe -
  comes back with a result or an error, and so does migrating them.
\<close>

theorem archive_operations_return:
  assumes contract: "writer_contract co good cdf"
    and mg: "mg_source_env mg = co_archive co" "mg_target_env mg = co"
  shows "compress_to_archive co cp inputs \<noteq> None
    \<and> extract_all (co_archive co) dc write_file archive fs \<noteq> None
    \<and> extract_file (co_archive co) dc archive path \<noteq> None
    \<and> verify (co_archive co) dc archive \<noteq> None
    \<and> extract_all_streaming (co_archive co) dc write_file archive fs \<noteq> None
    \<and> verify_streaming (co_archive co) dc archive \<noteq> None
    \<and> migrate mg os archive disk \<noteq> None
    \<and> migrate_streaming mg os archive disk \<noteq> None"
proof -
  have ac: "archive_contract (co_archive co) good cdf" using contract by (rule writer_contract.axioms)
  have ac': "archive_contract (mg_source_env mg) good cdf" "writer_contract (mg_target_env mg) good cdf"
    using ac contract unfolding mg by simp_all
  show ?thesis
    by (intro conjI writer_contract.compress_to_archive_total [OF contract] archive_contract.extract_all_total [OF ac]
        archive_contract.extract_file_total [OF ac] archive_contract.verify_total [OF ac]
        archive_contract.extract_all_streaming_returns [OF ac] archive_contract.verify_streaming_returns [OF ac]
        migrate_total [OF ac'])
qed

theorem archive_operations_return_witness:
  "compress_to_archive order0_compress_env example_compressor [] \<noteq> None
   \<and> verify_streaming order0_archive_env example_decompressor [1, 2, 3] \<noteq> None
   \<and> migrate example_migrator example_os [1, 2, 3] example_fs \<noteq> None"
proof -
  have mg: "mg_source_env example_migrator = co_archive order0_compress_env" "mg_target_env example_migrator = order0_compress_env"
    by (simp_all add: example_migrator_def order0_compress_env_def)
  have "co_archive order0_compress_env = order0_archive_env" by (simp add: order0_compress_env_def)
  then show ?thesis using archive_operations_return [OF order0_writer.writer_contract_axioms mg] by metis
qed

end
